(* ===== verification/Prelude.thy ===== *)
theory Prelude
  imports Main "HOL-Library.Word" "HOL-Library.Monad_Syntax" "HOL-Library.Code_Target_Nat"
begin

text \<open>
  Shared vocabulary of the development: the machine integer types of
  \<^verbatim>\<open>include/kernel/stl/cstdint.h\<close>, the assertion \<^verbatim>\<open>dbg::Assert\<close> that every kernel
  component uses, the constants of \<^verbatim>\<open>include/kernel/util/metric.h\<close>, and the generic lemmas
  on lists, options and words that the component theories share.

  A kernel operation that may panic is a function into \<open>'a option\<close>: \<^verbatim>\<open>dbg::Assert\<close> with a
  false condition prints a message and spins for ever, so \<open>None\<close> is "the system has stopped"
  and \<open>Some x\<close> is "the operation returned x". Failures that the code reports to its caller
  (\<^verbatim>\<open>npos\<close>, \<^verbatim>\<open>nullptr\<close>, \<^verbatim>\<open>false\<close>) are ordinary values.
\<close>

unbundle bit_operations_syntax

named_theorems kernel_simps \<open>unfolding rules of the panic monad\<close>

section \<open>Machine integers\<close>

type_synonym u8 = "8 word"
type_synonym u16 = "16 word"
type_synonym u32 = "32 word"
type_synonym u64 = "64 word"

section \<open>Assertions\<close>

definition Assert :: "bool \<Rightarrow> unit option" where
  "Assert cond = (if cond then Some () else None)"

lemma Assert_eq_Some [simp]: "Assert c = Some u \<longleftrightarrow> c"
  by (simp add: Assert_def)

lemma Assert_eq_None [simp]: "Assert c = None \<longleftrightarrow> \<not> c"
  by (simp add: Assert_def)

lemma bind_Assert [simp, kernel_simps]: "Option.bind (Assert c) f = (if c then f () else None)"
  by (simp add: Assert_def)

lemma if_None_eq_Some [simp]: "(if b then x else None) = Some y \<longleftrightarrow> b \<and> x = Some y"
  by simp

lemma bind_if [kernel_simps]:
  "Option.bind (if c then a else b) f = (if c then Option.bind a f else Option.bind b f)"
  by simp

lemmas bind_Some_conv = Option.bind_eq_Some_conv

section \<open>Metrics\<close>

definition npos :: nat where
  "npos = 2 ^ 32 - 1"

definition KB :: "u32 \<Rightarrow> u32" where
  "KB sz = sz * 1024"

definition MB :: "u32 \<Rightarrow> u32" where
  "MB sz = sz * KB 1024"

definition GB :: "u32 \<Rightarrow> u32" where
  "GB sz = sz * MB 2014"

definition SecondsToMilliseconds :: "u32 \<Rightarrow> u32" where
  "SecondsToMilliseconds seconds = seconds * 1000"

definition RoundUpDivide :: "u32 \<Rightarrow> u32 \<Rightarrow> u32" where
  "RoundUpDivide dividend divisor = (dividend + divisor - 1) div divisor"

definition BackwardAlign :: "u32 \<Rightarrow> u32 \<Rightarrow> u32" where
  "BackwardAlign val align = val - val mod align"

definition ForwardAlign :: "u32 \<Rightarrow> u32 \<Rightarrow> u32" where
  "ForwardAlign val align = RoundUpDivide val align * align"

text \<open>The size of a memory page (\<^verbatim>\<open>include/kernel/memory/page.h\<close>).\<close>

definition page_size :: nat where
  "page_size = 4096"

section \<open>Generic lemmas\<close>

lemma npos_unfold: "npos = 4294967295"
  by (simp add: npos_def)

text \<open>Overwriting a run of list elements in place: what \<^verbatim>\<open>memcpy\<close> does to its target.\<close>

definition overwrite :: "'a list \<Rightarrow> nat \<Rightarrow> 'a list \<Rightarrow> 'a list" where
  "overwrite xs off ys = take off xs @ ys @ drop (off + length ys) xs"

lemma length_overwrite [simp]:
  "off + length ys \<le> length xs \<Longrightarrow> length (overwrite xs off ys) = length xs"
  by (simp add: overwrite_def)

lemma nth_overwrite:
  "off + length ys \<le> length xs \<Longrightarrow> i < length xs \<Longrightarrow>
   overwrite xs off ys ! i = (if off \<le> i \<and> i < off + length ys then ys ! (i - off) else xs ! i)"
  by (auto simp: overwrite_def nth_append not_le not_less)

lemma take_drop_overwrite [simp]:
  "off + length ys \<le> length xs \<Longrightarrow> take (length ys) (drop off (overwrite xs off ys)) = ys"
  by (simp add: overwrite_def)

lemma overwrite_Nil [simp]: "overwrite xs off [] = xs"
  by (simp add: overwrite_def)

lemma unat_of_nat_u32: "n < 2 ^ 32 \<Longrightarrow> unat (of_nat n :: u32) = n"
  by (simp add: unsigned_of_nat take_bit_nat_eq_self)

lemma unat_plus: "unat (a :: u32) = x \<Longrightarrow> unat b = y \<Longrightarrow> x + y < 2 ^ 32 \<Longrightarrow> unat (a + b) = x + y"
  by (subst unat_add_lem [THEN iffD1]) simp_all

lemma unat_RoundUpDivide:
  assumes "0 < unat d" "unat n + unat d \<le> 2 ^ 32"
  shows "unat (RoundUpDivide n d) = (unat n + unat d - 1) div unat d"
proof -
  have "unat (n + (d - 1)) = unat n + (unat d - 1)"
  proof -
    have "1 \<le> d" using assms(1) by (simp add: word_le_nat_alt)
    then have "unat (d - 1) = unat d - 1" by (simp add: unat_sub)
    then show ?thesis using assms by (subst unat_add_lem [THEN iffD1]) simp_all
  qed
  then have "unat (n + d - 1) = unat n + unat d - 1" using assms(1) by (simp add: add_diff_eq)
  then show ?thesis by (simp add: RoundUpDivide_def unat_div)
qed

lemma unat_image_iff [simp]: "unat (b :: u32) \<in> unat ` A \<longleftrightarrow> b \<in> A"
  by (auto simp flip: word_unat_eq_iff)

end
