(* ===== verification/Bits.thy ===== *)
theory Bits
  imports Prelude
begin

text \<open>
  The bit manipulation templates of \<^verbatim>\<open>include/kernel/util/bit.h\<close>, as functions on words of any
  width. A C++ template parameter \<^verbatim>\<open>T\<close> is the type variable of the word length;
  \<^verbatim>\<open>sizeof(T) * byte_len\<close> is \<open>LENGTH('a)\<close>. Operations that assign through a reference return
  the new value. Every operation is characterised bit by bit (the rules of \<open>bits_simps\<close>), and the
  layers above (selectors, descriptors, page entries, device registers) use only these rules.
\<close>

named_theorems bits_simps \<open>bit-level characterisation of the operations of bit.h\<close>

definition byte_len :: nat where
  "byte_len = 8"

definition GetBits :: "'a::len word \<Rightarrow> nat \<Rightarrow> nat \<Rightarrow> 'a word" where
  "GetBits val start count =
     (if count < LENGTH('a)
      then let bmask = push_bit start (push_bit count 1 - 1) in drop_bit start (val AND bmask)
      else val)"

definition ResetBits :: "'a::len word \<Rightarrow> nat \<Rightarrow> nat \<Rightarrow> 'a word" where
  "ResetBits val start count =
     (if count < LENGTH('a)
      then let bmask = push_bit start (push_bit count 1 - 1) in val AND NOT bmask
      else 0)"

definition SetBits :: "'a::len word \<Rightarrow> 'b::len word \<Rightarrow> nat \<Rightarrow> nat \<Rightarrow> 'a word" where
  "SetBits val bits start count =
     (if count < LENGTH('a)
      then let val' = ResetBits val start count;
               bmask = push_bit start (push_bit count 1 - 1)
           in val' OR (push_bit start (ucast bits) AND bmask)
      else ucast bits)"

definition IsBitSet :: "'a::len word \<Rightarrow> nat \<Rightarrow> bool" where
  "IsBitSet val idx \<longleftrightarrow> val AND push_bit idx 1 \<noteq> 0"

definition SetBit :: "'a::len word \<Rightarrow> nat \<Rightarrow> 'a word" where
  "SetBit val idx = val OR push_bit idx 1"

definition ResetBit :: "'a::len word \<Rightarrow> nat \<Rightarrow> 'a word" where
  "ResetBit val idx = val AND NOT (push_bit idx 1)"

definition GetByte :: "'a::len word \<Rightarrow> nat \<Rightarrow> u8" where
  "GetByte val start = ucast (GetBits val start 8)"

definition GetWord :: "'a::len word \<Rightarrow> nat \<Rightarrow> u16" where
  "GetWord val start = ucast (GetBits val start 16)"

definition GetDword :: "'a::len word \<Rightarrow> nat \<Rightarrow> u32" where
  "GetDword val start = ucast (GetBits val start 32)"

definition SetByte :: "'a::len word \<Rightarrow> u8 \<Rightarrow> nat \<Rightarrow> 'a word" where
  "SetByte val byte start = SetBits val byte start 8"

definition SetWord :: "'a::len word \<Rightarrow> u16 \<Rightarrow> nat \<Rightarrow> 'a word" where
  "SetWord val w start = SetBits val w start 16"

definition SetDword :: "'a::len word \<Rightarrow> u32 \<Rightarrow> nat \<Rightarrow> 'a word" where
  "SetDword val dword start = SetBits val dword start 32"

definition CombineBits :: "'b::len word \<Rightarrow> 'b word \<Rightarrow> 'a::len word" where
  "CombineBits high low = push_bit LENGTH('b) (ucast high) + ucast low"

definition CombineBytes :: "u8 \<Rightarrow> u8 \<Rightarrow> u16" where
  "CombineBytes high low = CombineBits high low"

definition CombineWords :: "u16 \<Rightarrow> u16 \<Rightarrow> u32" where
  "CombineWords high low = CombineBits high low"

definition CombineDwords :: "u32 \<Rightarrow> u32 \<Rightarrow> u64" where
  "CombineDwords high low = CombineBits high low"

definition GetLowByte :: "u16 \<Rightarrow> u8" where
  "GetLowByte val = GetByte val 0"

definition GetLowWord :: "u32 \<Rightarrow> u16" where
  "GetLowWord val = GetWord val 0"

definition GetLowDword :: "u64 \<Rightarrow> u32" where
  "GetLowDword val = GetDword val 0"

definition GetHighByte :: "u16 \<Rightarrow> u8" where
  "GetHighByte val = GetByte val 8"

definition GetHighWord :: "u32 \<Rightarrow> u16" where
  "GetHighWord val = GetWord val 16"

definition GetHighDword :: "u64 \<Rightarrow> u32" where
  "GetHighDword val = GetDword val 32"

definition SetLowByte :: "u16 \<Rightarrow> u8 \<Rightarrow> u16" where
  "SetLowByte val byte = SetByte val byte 0"

definition SetLowWord :: "u32 \<Rightarrow> u16 \<Rightarrow> u32" where
  "SetLowWord val w = SetWord val w 0"

definition SetLowDword :: "u64 \<Rightarrow> u32 \<Rightarrow> u64" where
  "SetLowDword val dword = SetDword val dword 0"

definition SetHighByte :: "u16 \<Rightarrow> u8 \<Rightarrow> u16" where
  "SetHighByte val byte = SetByte val byte 8"

definition SetHighWord :: "u32 \<Rightarrow> u16 \<Rightarrow> u32" where
  "SetHighWord val w = SetWord val w 16"

definition SetHighDword :: "u64 \<Rightarrow> u32 \<Rightarrow> u64" where
  "SetHighDword val dword = SetDword val dword 32"

text \<open>The flag sets of \<^verbatim>\<open>bit::Flags\<close> (underlying type \<^verbatim>\<open>uint32_t\<close>).\<close>

definition Flags_IsSet :: "u32 \<Rightarrow> u32 \<Rightarrow> bool" where
  "Flags_IsSet flags flag \<longleftrightarrow> flags AND flag \<noteq> 0"

definition Flags_Set :: "u32 \<Rightarrow> u32 \<Rightarrow> u32" where
  "Flags_Set flags flag = flags OR flag"

section \<open>Bit-level characterisation\<close>

lemma bit_exp_minus_one: "bit (2 ^ n - 1 :: 'a::len word) i \<longleftrightarrow> i < n \<and> i < LENGTH('a)"
  by (metis bit_mask_iff mask_eq_decr_exp possible_bit_word)

lemma bit_GetBits [bits_simps]:
  "bit (GetBits v s c) i \<longleftrightarrow>
     (if c < LENGTH('a) then i < c \<and> bit v (s + i) else bit v i)" for v :: "'a::len word"
  by (auto simp: GetBits_def bit_simps bit_exp_minus_one dest: bit_imp_le_length)

lemma bit_ResetBits [bits_simps]:
  "bit (ResetBits v s c) i \<longleftrightarrow>
     c < LENGTH('a) \<and> bit v i \<and> \<not> (s \<le> i \<and> i < s + c)" for v :: "'a::len word"
  by (auto simp: ResetBits_def bit_simps bit_exp_minus_one dest: bit_imp_le_length)

lemma bit_SetBits [bits_simps]:
  "bit (SetBits v b s c) i \<longleftrightarrow> i < LENGTH('a) \<and>
     (if c < LENGTH('a) then (if s \<le> i \<and> i < s + c then bit b (i - s) else bit v i)
      else bit b i)" for v :: "'a::len word" and b :: "'b::len word"
  by (auto simp: SetBits_def bit_simps bit_exp_minus_one bit_ResetBits dest: bit_imp_le_length)

lemma bit_SetBit [bits_simps]:
  "bit (SetBit v n) i \<longleftrightarrow> bit v i \<or> (i = n \<and> n < LENGTH('a))" for v :: "'a::len word"
  by (auto simp: SetBit_def bit_simps)

lemma bit_ResetBit [bits_simps]:
  "bit (ResetBit v n) i \<longleftrightarrow> bit v i \<and> i \<noteq> n" for v :: "'a::len word"
  by (auto simp: ResetBit_def bit_simps dest: bit_imp_le_length)

lemma IsBitSet_bit [bits_simps]: "IsBitSet v n \<longleftrightarrow> bit v n"
  by (metis IsBitSet_def bit_iff_and_push_bit_not_eq_0)

lemma bit_ucast_word [bits_simps]:
  "bit (ucast w :: 'b::len word) i \<longleftrightarrow> i < LENGTH('b) \<and> bit w i" for w :: "'a::len word"
  by (simp add: bit_simps)

lemma take_bit_fields [bits_simps]:
  "bit (take_bit n w) i \<longleftrightarrow> i < n \<and> bit w i" for w :: "'a::len word"
  by (simp add: bit_simps)

lemma bit_CombineBits [bits_simps]:
  fixes h l :: "'b::len word"
  assumes "2 * LENGTH('b) \<le> LENGTH('a)"
  shows "bit (CombineBits h l :: 'a::len word) i \<longleftrightarrow>
     (if i < LENGTH('b) then bit l i else bit h (i - LENGTH('b)))"
proof -
  have "push_bit LENGTH('b) (ucast h) AND ucast l = (0 :: 'a word)"
    by (rule bit_word_eqI) (auto simp: bit_simps dest: bit_imp_le_length)
  then have "CombineBits h l = (push_bit LENGTH('b) (ucast h) OR ucast l :: 'a word)"
    by (simp add: CombineBits_def disjunctive_add_eq_or)
  with assms show ?thesis
    by (auto simp: bit_simps dest: bit_imp_le_length)
qed

section \<open>Fields\<close>

text \<open>Writing a field and reading it back gives the low bits of the value written.\<close>

lemma GetBits_SetBits [simp]:
  fixes v :: "'a::len word" and b :: "'b::len word"
  assumes "c < LENGTH('a)" and "s + c \<le> LENGTH('a)"
  shows "GetBits (SetBits v b s c) s c = take_bit c (ucast b)"
  by (rule bit_word_eqI) (use assms in \<open>auto simp: bits_simps\<close>)

text \<open>Writing a field leaves every disjoint field as it was.\<close>

lemma GetBits_SetBits_other:
  fixes v :: "'a::len word" and b :: "'b::len word"
  assumes "c < LENGTH('a)" and "c' < LENGTH('a)" and "s' + c' \<le> LENGTH('a)"
    and "s + c \<le> s' \<or> s' + c' \<le> s"
  shows "GetBits (SetBits v b s c) s' c' = GetBits v s' c'"
  by (rule bit_word_eqI) (use assms in \<open>auto simp: bits_simps dest: bit_imp_le_length\<close>)

lemma SetBits_GetBits_id:
  fixes v :: "'a::len word"
  assumes "c < LENGTH('a)"
  shows "SetBits v (GetBits v s c) s c = v"
  by (rule bit_word_eqI) (use assms in \<open>auto simp: bits_simps dest: bit_imp_le_length\<close>)

lemma GetHigh_Combine [simp]:
  "GetHighByte (CombineBytes h l) = h" "GetLowByte (CombineBytes h l) = l"
  "GetHighWord (CombineWords h' l') = h'" "GetLowWord (CombineWords h' l') = l'"
  "GetHighDword (CombineDwords h'' l'') = h''" "GetLowDword (CombineDwords h'' l'') = l''"
  by (rule bit_word_eqI;
      auto simp: GetHighByte_def GetLowByte_def GetHighWord_def GetLowWord_def
        GetHighDword_def GetLowDword_def GetByte_def GetWord_def GetDword_def
        CombineBytes_def CombineWords_def CombineDwords_def bits_simps dest: bit_imp_le_length)+

lemma Combine_GetHigh [simp]:
  "CombineBytes (GetHighByte v) (GetLowByte v) = v"
  "CombineWords (GetHighWord w) (GetLowWord w) = w"
  "CombineDwords (GetHighDword d) (GetLowDword d) = d"
  by (rule bit_word_eqI;
      auto simp: GetHighByte_def GetLowByte_def GetHighWord_def GetLowWord_def
        GetHighDword_def GetLowDword_def GetByte_def GetWord_def GetDword_def
        CombineBytes_def CombineWords_def CombineDwords_def bits_simps dest: bit_imp_le_length)+

text \<open>Bounds of a word and of its bits.\<close>

lemma bit_word_bound: "unat w < 2 ^ n \<Longrightarrow> bit w i \<Longrightarrow> i < n" for w :: "'a::len word"
  by (metis bit_take_bit_iff take_bit_nat_eq_self unsigned_take_bit_eq unsigned_word_eqI)

lemma word_bound_bit: "(\<And>i. bit w i \<Longrightarrow> i < n) \<Longrightarrow> unat w < 2 ^ n" for w :: "'a::len word"
proof -
  assume a: "\<And>i. bit w i \<Longrightarrow> i < n"
  have "take_bit n w = w" by (rule bit_word_eqI) (use a in \<open>auto simp: bit_simps\<close>)
  then have "take_bit n (unat w) = unat w" by (metis unsigned_take_bit_eq)
  then show ?thesis by (metis take_bit_nat_less_exp)
qed

end
