(* ===== verification/Containers.thy ===== *)
theory Containers
  imports Prelude
begin

text \<open>
  The templates of \<^verbatim>\<open>stl/array.h\<close>, \<^verbatim>\<open>stl/span.h\<close>, \<^verbatim>\<open>stl/iterator.h\<close> and \<^verbatim>\<open>stl/algorithm.h\<close>. A pointer into a block of values is the block with
  an index; \<open>None\<close> is an access outside the block. The locale \<open>sequence\<close> is what the containers promise; its lemmas
  say what the loops over their iterators visit.
\<close>

section \<open>Pointers\<close>

record 'a iter =
  it_block :: "'a list"
  it_pos :: int

definition iter_deref :: "'a iter \<Rightarrow> 'a option" where
  "iter_deref it = (if 0 \<le> it_pos it \<and> it_pos it < int (length (it_block it)) then Some (it_block it ! nat (it_pos it)) else None)"

definition iter_add :: "'a iter \<Rightarrow> int \<Rightarrow> 'a iter" where
  "iter_add it n = it\<lparr>it_pos := it_pos it + n\<rparr>"

section \<open>Reverse iterators\<close>

record 'a reverse_iterator =
  ri_curr :: "'a iter"

definition reverse_iterator_base :: "'a reverse_iterator \<Rightarrow> 'a iter" where
  "reverse_iterator_base it = ri_curr it"

definition reverse_iterator_deref :: "'a reverse_iterator \<Rightarrow> 'a option" where
  "reverse_iterator_deref it = (let tmp = ri_curr it in iter_deref (iter_add tmp (- 1)))"

definition reverse_iterator_inc :: "'a reverse_iterator \<Rightarrow> 'a reverse_iterator" where
  "reverse_iterator_inc it = it\<lparr>ri_curr := iter_add (ri_curr it) (- 1)\<rparr>"

definition reverse_iterator_dec :: "'a reverse_iterator \<Rightarrow> 'a reverse_iterator" where
  "reverse_iterator_dec it = it\<lparr>ri_curr := iter_add (ri_curr it) 1\<rparr>"

definition reverse_iterator_add :: "'a reverse_iterator \<Rightarrow> int \<Rightarrow> 'a reverse_iterator" where
  "reverse_iterator_add it n = \<lparr>ri_curr = iter_add (ri_curr it) (- n)\<rparr>"

definition reverse_iterator_nth :: "'a reverse_iterator \<Rightarrow> int \<Rightarrow> 'a option" where
  "reverse_iterator_nth it n = reverse_iterator_deref (reverse_iterator_add it n)"

section \<open>Arrays\<close>

text \<open>An \<^verbatim>\<open>array<T, n>\<close> is a block of \<open>n\<close> values.\<close>

record 'a stl_array =
  sa_vals :: "'a list"

definition array_size :: "'a stl_array \<Rightarrow> nat" where "array_size a = length (sa_vals a)"
definition array_max_size :: "'a stl_array \<Rightarrow> nat" where "array_max_size a = length (sa_vals a)"
definition array_empty :: "'a stl_array \<Rightarrow> bool" where "array_empty a \<longleftrightarrow> length (sa_vals a) = 0"

definition array_begin :: "'a stl_array \<Rightarrow> 'a iter" where "array_begin a = \<lparr>it_block = sa_vals a, it_pos = 0\<rparr>"
definition array_end :: "'a stl_array \<Rightarrow> 'a iter" where
  "array_end a = \<lparr>it_block = sa_vals a, it_pos = int (length (sa_vals a))\<rparr>"

definition array_nth :: "'a stl_array \<Rightarrow> nat \<Rightarrow> 'a option" where
  "array_nth a idx = iter_deref \<lparr>it_block = sa_vals a, it_pos = int idx\<rparr>"

definition array_data :: "'a stl_array \<Rightarrow> 'a iter" where "array_data a = \<lparr>it_block = sa_vals a, it_pos = 0\<rparr>"
definition array_front :: "'a stl_array \<Rightarrow> 'a option" where "array_front a = array_nth a 0"
definition array_back :: "'a stl_array \<Rightarrow> 'a option" where "array_back a = array_nth a (length (sa_vals a) - 1)"

definition array_rbegin :: "'a stl_array \<Rightarrow> 'a reverse_iterator" where "array_rbegin a = \<lparr>ri_curr = array_end a\<rparr>"
definition array_rend :: "'a stl_array \<Rightarrow> 'a reverse_iterator" where "array_rend a = \<lparr>ri_curr = array_begin a\<rparr>"

section \<open>Spans\<close>

record 'a span =
  sn_vals :: "'a iter"
  sn_size :: nat

definition span_of_array :: "'a stl_array \<Rightarrow> 'a span" where
  "span_of_array a = \<lparr>sn_vals = array_data a, sn_size = array_size a\<rparr>"

definition span_size :: "'a span \<Rightarrow> nat" where "span_size s = sn_size s"
definition span_empty :: "'a span \<Rightarrow> bool" where "span_empty s \<longleftrightarrow> sn_size s = 0"
definition span_data :: "'a span \<Rightarrow> 'a iter" where "span_data s = sn_vals s"
definition span_nth :: "'a span \<Rightarrow> nat \<Rightarrow> 'a option" where "span_nth s idx = iter_deref (iter_add (sn_vals s) (int idx))"
definition span_front :: "'a span \<Rightarrow> 'a option" where "span_front s = span_nth s 0"

text \<open>The index \<^verbatim>\<open>size_ - 1\<close> wraps around for an empty span.\<close>

definition span_back :: "'a span \<Rightarrow> 'a option" where
  "span_back s = span_nth s (if sn_size s = 0 then npos else sn_size s - 1)"

definition span_begin :: "'a span \<Rightarrow> 'a iter" where "span_begin s = sn_vals s"
definition span_end :: "'a span \<Rightarrow> 'a iter" where "span_end s = iter_add (sn_vals s) (int (sn_size s))"
definition span_rbegin :: "'a span \<Rightarrow> 'a reverse_iterator" where "span_rbegin s = \<lparr>ri_curr = span_end s\<rparr>"
definition span_rend :: "'a span \<Rightarrow> 'a reverse_iterator" where "span_rend s = \<lparr>ri_curr = span_begin s\<rparr>"

section \<open>Algorithms\<close>

text \<open>The loop of \<^verbatim>\<open>find\<close>; it ends because a pointer behind the block cannot be read.\<close>

function stl_find :: "'a iter \<Rightarrow> 'a iter \<Rightarrow> 'a \<Rightarrow> 'a iter option" where
  "stl_find it fin val =
     (if it = fin then Some fin
      else case iter_deref it of
        None \<Rightarrow> None
      | Some x \<Rightarrow> if x = val then Some it else stl_find (iter_add it 1) fin val)"
  by auto
termination
  by (relation "measure (\<lambda>(it, fin, val). nat (int (length (it_block it)) - it_pos it))")
    (auto simp: iter_add_def iter_deref_def split: if_splits)

declare stl_find.simps [simp del]

definition stl_min :: "'a::linorder \<Rightarrow> 'a \<Rightarrow> 'a" where "stl_min lhs rhs = (if lhs < rhs then lhs else rhs)"
definition stl_max :: "'a::linorder \<Rightarrow> 'a \<Rightarrow> 'a" where "stl_max lhs rhs = (if lhs > rhs then lhs else rhs)"

lemma stl_min_max [simp]: "stl_min = min" "stl_max = max"
  by (auto simp: stl_min_def stl_max_def fun_eq_iff min_def max_def)

definition stl_swap :: "'a \<Rightarrow> 'a \<Rightarrow> 'a \<times> 'a" where
  "stl_swap lhs rhs = (let tmp = lhs; lhs = rhs; rhs = tmp in (lhs, rhs))"

section \<open>Loops over a container\<close>

text \<open>The values that a loop of \<open>n\<close> steps reads, in its order.\<close>

fun walk :: "('i \<Rightarrow> 'a option) \<Rightarrow> ('i \<Rightarrow> 'i) \<Rightarrow> nat \<Rightarrow> 'i \<Rightarrow> ('a list \<times> 'i) option" where
  "walk deref next 0 it = Some ([], it)"
| "walk deref next (Suc n) it = (case deref it of
     None \<Rightarrow> None
   | Some x \<Rightarrow> (case walk deref next n (next it) of None \<Rightarrow> None | Some (xs, e) \<Rightarrow> Some (x # xs, e)))"

lemma walk_forward:
  assumes "0 \<le> it_pos it" "it_pos it + int n \<le> int (length (it_block it))"
  shows "walk iter_deref (\<lambda>i. iter_add i 1) n it = Some (take n (drop (nat (it_pos it)) (it_block it)), iter_add it (int n))"
  using assms
proof (induction n arbitrary: it)
  case (Suc n)
  let ?k = "nat (it_pos it)"
  have k: "?k < length (it_block it)" "nat (it_pos it + 1) = Suc ?k" using Suc.prems by simp_all
  have "walk iter_deref (\<lambda>i. iter_add i 1) n (iter_add it 1) =
      Some (take n (drop (Suc ?k) (it_block it)), iter_add (iter_add it 1) (int n))"
    using Suc.IH [of "iter_add it 1"] Suc.prems k(2) by (simp add: iter_add_def)
  moreover have "iter_deref it = Some (it_block it ! ?k)" using Suc.prems by (simp add: iter_deref_def)
  moreover have "take (Suc n) (drop ?k (it_block it)) = it_block it ! ?k # take n (drop (Suc ?k) (it_block it))"
    using k(1) by (simp add: Cons_nth_drop_Suc [symmetric])
  ultimately show ?case by (simp add: iter_add_def add.commute add.left_commute)
qed (simp add: iter_add_def)

lemma walk_backward:
  assumes "int n \<le> it_pos c" "it_pos c \<le> int (length (it_block c))"
  shows "walk reverse_iterator_deref reverse_iterator_inc n \<lparr>ri_curr = c\<rparr> =
    Some (rev (take n (drop (nat (it_pos c) - n) (it_block c))), \<lparr>ri_curr = iter_add c (- int n)\<rparr>)"
  using assms
proof (induction n arbitrary: c)
  case (Suc n)
  let ?k = "nat (it_pos c)" and ?d = "iter_add c (- 1)"
  obtain j where j: "?k = Suc n + j" using Suc.prems(1) by (metis le_Suc_ex nat_int nat_mono)
  have k: "nat (it_pos ?d) = n + j" "Suc n + j \<le> length (it_block c)" using j Suc.prems by (simp_all add: iter_add_def)
  have "walk reverse_iterator_deref reverse_iterator_inc n \<lparr>ri_curr = ?d\<rparr> =
      Some (rev (take n (drop j (it_block c))), \<lparr>ri_curr = iter_add ?d (- int n)\<rparr>)"
    using Suc.IH [of ?d] Suc.prems k(1) by (simp add: iter_add_def)
  moreover have "reverse_iterator_deref \<lparr>ri_curr = c\<rparr> = Some (it_block c ! (n + j))"
    using Suc.prems k(1) by (simp add: reverse_iterator_deref_def iter_deref_def iter_add_def)
  moreover have "take (Suc n) (drop j (it_block c)) = take n (drop j (it_block c)) @ [it_block c ! (n + j)]"
    using k(2) by (simp add: take_Suc_conv_app_nth add.commute)
  moreover have "reverse_iterator_inc \<lparr>ri_curr = c\<rparr> = \<lparr>ri_curr = ?d\<rparr>" by (simp add: reverse_iterator_inc_def)
  moreover have "iter_add ?d (- int n) = iter_add c (- int (Suc n))" by (simp add: iter_add_def algebra_simps)
  ultimately show ?case using j by simp
qed (simp add: iter_add_def)

text \<open>
  What a container promises: its iterators delimit the elements, in a block of memory, and the reverse iterators start at its end.
\<close>

locale sequence =
  fixes ok :: "'c \<Rightarrow> bool" and elems :: "'c \<Rightarrow> 'a list" and size_of :: "'c \<Rightarrow> nat" and nth_of :: "'c \<Rightarrow> nat \<Rightarrow> 'a option"
    and begin_of :: "'c \<Rightarrow> 'a iter" and end_of :: "'c \<Rightarrow> 'a iter"
    and rbegin_of :: "'c \<Rightarrow> 'a reverse_iterator" and rend_of :: "'c \<Rightarrow> 'a reverse_iterator"
  assumes size_elems: "ok c \<Longrightarrow> size_of c = length (elems c)"
    and nth_elems: "ok c \<Longrightarrow> i < length (elems c) \<Longrightarrow> nth_of c i = Some (elems c ! i)"
    and begin_pos: "ok c \<Longrightarrow> 0 \<le> it_pos (begin_of c)"
    and end_pos: "ok c \<Longrightarrow> end_of c = iter_add (begin_of c) (int (size_of c))"
    and end_bound: "ok c \<Longrightarrow> it_pos (end_of c) \<le> int (length (it_block (end_of c)))"
    and block_elems: "ok c \<Longrightarrow> take (size_of c) (drop (nat (it_pos (begin_of c))) (it_block (begin_of c))) = elems c"
    and reverse_ends: "ok c \<Longrightarrow> rbegin_of c = \<lparr>ri_curr = end_of c\<rparr>" "ok c \<Longrightarrow> rend_of c = \<lparr>ri_curr = begin_of c\<rparr>"
begin

lemma forward_loop:
  assumes "ok c"
  shows "walk iter_deref (\<lambda>i. iter_add i 1) (size_of c) (begin_of c) = Some (elems c, end_of c)"
  using walk_forward [of "begin_of c" "size_of c"] begin_pos [OF assms] end_bound [OF assms] block_elems [OF assms]
  unfolding end_pos [OF assms] by (simp add: iter_add_def)

lemma reverse_loop:
  assumes "ok c"
  shows "walk reverse_iterator_deref reverse_iterator_inc (size_of c) (rbegin_of c) = Some (rev (elems c), rend_of c)"
proof -
  have e: "end_of c = iter_add (begin_of c) (int (size_of c))" by (rule end_pos [OF assms])
  have "nat (it_pos (end_of c)) - size_of c = nat (it_pos (begin_of c))" "int (size_of c) \<le> it_pos (end_of c)"
    "it_block (end_of c) = it_block (begin_of c)" "iter_add (end_of c) (- int (size_of c)) = begin_of c"
    using begin_pos [OF assms] unfolding e by (simp_all add: iter_add_def nat_add_distrib)
  then show ?thesis
    using walk_backward [of "size_of c" "end_of c"] end_bound [OF assms] block_elems [OF assms] reverse_ends [OF assms] by simp
qed

end

definition span_ok :: "'a span \<Rightarrow> bool" where
  "span_ok s \<longleftrightarrow> 0 \<le> it_pos (sn_vals s) \<and> it_pos (sn_vals s) + int (sn_size s) \<le> int (length (it_block (sn_vals s)))"

definition span_elems :: "'a span \<Rightarrow> 'a list" where
  "span_elems s = take (sn_size s) (drop (nat (it_pos (sn_vals s))) (it_block (sn_vals s)))"

lemmas array_defs = array_size_def array_nth_def array_begin_def array_end_def array_rbegin_def array_rend_def iter_deref_def iter_add_def

lemmas span_defs = span_size_def span_nth_def span_begin_def span_end_def span_rbegin_def span_rend_def iter_deref_def iter_add_def
  span_ok_def span_elems_def

interpretation sa: sequence "\<lambda>_. True" sa_vals array_size array_nth array_begin array_end array_rbegin array_rend
  by unfold_locales (simp_all add: array_defs)

interpretation sn: sequence span_ok span_elems span_size span_nth span_begin span_end span_rbegin span_rend
  by unfold_locales (auto simp: span_defs nat_add_distrib)

lemma span_of_array_elems [simp]: "span_ok (span_of_array a)" "span_elems (span_of_array a) = sa_vals a"
  by (simp_all add: span_of_array_def span_defs array_data_def array_size_def)

lemma stl_find_nat:
  assumes "k \<le> n" "n \<le> length xs"
  shows "stl_find \<lparr>it_block = xs, it_pos = int k\<rparr> \<lparr>it_block = xs, it_pos = int n\<rparr> val =
    Some \<lparr>it_block = xs, it_pos = int (k + length (takeWhile (\<lambda>x. x \<noteq> val) (take (n - k) (drop k xs))))\<rparr>"
  using assms
proof (induction "n - k" arbitrary: k)
  case 0
  then show ?case by (subst stl_find.simps) simp
next
  case (Suc m)
  then have k: "k < n" "k < length xs" by simp_all
  have d: "take (n - k) (drop k xs) = xs ! k # take (n - Suc k) (drop (Suc k) xs)"
    using k by (simp add: Cons_nth_drop_Suc [symmetric] Suc_diff_Suc [symmetric])
  have s: "iter_add \<lparr>it_block = xs, it_pos = int k\<rparr> 1 = \<lparr>it_block = xs, it_pos = int (Suc k)\<rparr>" by (simp add: iter_add_def)
  have "iter_deref \<lparr>it_block = xs, it_pos = int k\<rparr> = Some (xs ! k)" using k by (simp add: iter_deref_def)
  then show ?case
    using k Suc.hyps(1) [of "Suc k"] Suc.hyps(2) Suc.prems(2)
    unfolding d s by (subst stl_find.simps) (simp add: s del: of_nat_Suc)
qed

text \<open>\<^verbatim>\<open>find\<close> over an array stops at the first element equal to the value, and at the end if there is none.\<close>

lemma stl_find_array:
  "stl_find (array_begin a) (array_end a) val =
     Some \<lparr>it_block = sa_vals a, it_pos = int (length (takeWhile (\<lambda>x. x \<noteq> val) (sa_vals a)))\<rparr>"
  using stl_find_nat [of 0 "length (sa_vals a)" "sa_vals a" val] by (simp add: array_begin_def array_end_def)

text \<open>A loop from \<^verbatim>\<open>rbegin\<close> to \<^verbatim>\<open>rend\<close> over a span of an array visits its elements in the reverse order of the loop from \<^verbatim>\<open>begin\<close> to \<^verbatim>\<open>end\<close>, without an
  access outside the array, and ends at the other iterator.\<close>

lemma span_loops:
  "walk iter_deref (\<lambda>i. iter_add i 1) (array_size a) (span_begin (span_of_array a)) = Some (sa_vals a, span_end (span_of_array a)) \<and>
   walk reverse_iterator_deref reverse_iterator_inc (array_size a) (span_rbegin (span_of_array a)) =
     Some (rev (sa_vals a), span_rend (span_of_array a))"
  using sn.forward_loop [of "span_of_array a"] sn.reverse_loop [of "span_of_array a"]
  by (simp add: span_of_array_def span_size_def) (simp add: span_of_array_def [symmetric])

end
