(* ===== verification/Strings.thy ===== *)
theory Strings
  imports Prelude
begin

text \<open>
  The C string and memory routines of \<^verbatim>\<open>include/kernel/stl/cstring.h\<close> and
  \<^verbatim>\<open>src/kernel/stl/cstring.cpp\<close>, and \<^verbatim>\<open>stl::string_view\<close>. A pointer into a character array is
  the list of characters from the pointer to the end of the array; a routine that would run past
  the end of an array has no result (\<open>None\<close>). \<open>cstr\<close> is the text that a NUL-terminated buffer
  holds, and every routine is related to the list operation it computes on that text.
\<close>

named_theorems cstr_simps \<open>C string routines as list operations\<close>

abbreviation NUL :: char where
  "NUL \<equiv> CHR 0x00"

section \<open>C strings\<close>

fun strlen :: "char list \<Rightarrow> nat option" where
  "strlen [] = None"
| "strlen (c # cs) = (if c \<noteq> NUL then map_option Suc (strlen cs) else Some 0)"

fun strcpy :: "char list \<Rightarrow> char list \<Rightarrow> char list option" where
  "strcpy (d # ds) (c # cs) =
     (if c \<noteq> NUL then map_option ((#) c) (strcpy ds cs) else Some (NUL # ds))"
| "strcpy _ _ = None"

text \<open>
  The copying loop of \<^verbatim>\<open>strcpy_s\<close>: \<open>written\<close> counts \<^verbatim>\<open>dest - begin\<close>; the result is the number of
  characters stored and the target after the loop.
\<close>

fun strcpy_s_loop :: "nat \<Rightarrow> char list \<Rightarrow> char list \<Rightarrow> nat \<Rightarrow> (nat \<times> char list) option" where
  "strcpy_s_loop 0 ds cs written = Some (written, ds)"
| "strcpy_s_loop (Suc left) (d # ds) (c # cs) written =
     (if c \<noteq> NUL
      then map_option (\<lambda>(n, ds'). (n, c # ds')) (strcpy_s_loop left ds cs (Suc written))
      else Some (Suc written, NUL # ds))"
| "strcpy_s_loop (Suc left) _ _ written = None"

definition strcpy_s :: "char list \<Rightarrow> nat \<Rightarrow> char list \<Rightarrow> char list option" where
  "strcpy_s dest dest_size src = do {
     Assert (dest_size > 0);
     (n, dest') \<leftarrow> strcpy_s_loop dest_size dest src 0;
     Some (dest'[n - 1 := NUL])
   }"

definition char_code :: "char \<Rightarrow> int" where
  "char_code c = (let n = of_char c in if n < 128 then n else n - 256)"

fun strcmp :: "char list \<Rightarrow> char list \<Rightarrow> int option" where
  "strcmp (l # ls) (r # rs) =
     (if l \<noteq> NUL \<and> l = r then strcmp ls rs
      else if l \<noteq> r then Some (if char_code l > char_code r then 1 else -1)
      else Some 0)"
| "strcmp _ _ = None"

fun strcat :: "char list \<Rightarrow> char list \<Rightarrow> char list option" where
  "strcat (d # ds) src =
     (if d \<noteq> NUL then map_option ((#) d) (strcat ds src) else strcpy (d # ds) src)"
| "strcat [] src = None"

fun strchr :: "char list \<Rightarrow> char \<Rightarrow> nat option option" where
  "strchr [] ch = None"
| "strchr (c # cs) ch =
     (if c \<noteq> NUL
      then if c = ch then Some (Some 0) else map_option (map_option Suc) (strchr cs ch)
      else Some None)"

fun strrchr_loop :: "char list \<Rightarrow> char \<Rightarrow> nat \<Rightarrow> nat option \<Rightarrow> nat option option" where
  "strrchr_loop [] ch i found = None"
| "strrchr_loop (c # cs) ch i found =
     (if c \<noteq> NUL then strrchr_loop cs ch (Suc i) (if c = ch then Some i else found)
      else Some found)"

definition strrchr :: "char list \<Rightarrow> char \<Rightarrow> nat option option" where
  "strrchr str ch = strrchr_loop str ch 0 None"

section \<open>Memory blocks\<close>

fun memset :: "'a list \<Rightarrow> 'a \<Rightarrow> nat \<Rightarrow> 'a list option" where
  "memset addr val 0 = Some addr"
| "memset (x # xs) val (Suc n) = map_option ((#) val) (memset xs val n)"
| "memset [] val (Suc n) = None"

fun memcpy :: "'a list \<Rightarrow> 'a list \<Rightarrow> nat \<Rightarrow> 'a list option" where
  "memcpy dest src 0 = Some dest"
| "memcpy (d # ds) (s # ss) (Suc n) = map_option ((#) s) (memcpy ds ss n)"
| "memcpy _ _ (Suc n) = None"

fun memcmp :: "u8 list \<Rightarrow> u8 list \<Rightarrow> nat \<Rightarrow> int option" where
  "memcmp lhs rhs 0 = Some 0"
| "memcmp (l # ls) (r # rs) (Suc n) =
     (if l \<noteq> r then Some (if l > r then 1 else -1) else memcmp ls rs n)"
| "memcmp _ _ (Suc n) = None"

section \<open>What the routines compute\<close>

definition cstr :: "char list \<Rightarrow> char list" where
  "cstr buf = takeWhile (\<lambda>c. c \<noteq> NUL) buf"

lemma cstr_Nil [simp]: "cstr [] = []"
  by (simp add: cstr_def)

lemma cstr_Cons [simp]: "cstr (c # cs) = (if c \<noteq> NUL then c # cstr cs else [])"
  by (simp add: cstr_def)

lemma NUL_notin_cstr [simp]: "NUL \<notin> set (cstr buf)"
  by (auto simp: cstr_def dest: set_takeWhileD)

lemma cstr_append_NUL [simp]: "NUL \<notin> set s \<Longrightarrow> cstr (s @ NUL # rest) = s"
  by (induction s) auto

lemma cstr_split: "NUL \<in> set buf \<Longrightarrow> \<exists>rest. buf = cstr buf @ NUL # rest"
  by (induction buf) auto

lemma strlen_cstr [cstr_simps]: "NUL \<in> set buf \<Longrightarrow> strlen buf = Some (length (cstr buf))"
  by (induction buf) auto

lemma strlen_None: "strlen buf = None \<longleftrightarrow> NUL \<notin> set buf"
  by (induction buf) auto

lemma strcpy_eq [cstr_simps]:
  "NUL \<in> set src \<Longrightarrow> length (cstr src) < length dest \<Longrightarrow>
   strcpy dest src = Some (overwrite dest 0 (cstr src @ [NUL]))"
  by (induction dest src rule: strcpy.induct) (auto simp: overwrite_def)

lemma cstr_strcpy: "strcpy dest src = Some dest' \<Longrightarrow> cstr dest' = cstr src"
  by (induction dest src arbitrary: dest' rule: strcpy.induct) (auto split: if_splits)

text \<open>\<^verbatim>\<open>strcpy_s\<close> stores the longest prefix that fits, always terminated.\<close>

lemma strcpy_s_loop_fits:
  "NUL \<in> set src \<Longrightarrow> length (cstr src) < left \<Longrightarrow> left \<le> length dest \<Longrightarrow>
   strcpy_s_loop left dest src w =
     Some (w + length (cstr src) + 1, overwrite dest 0 (cstr src @ [NUL]))"
  by (induction left dest src w rule: strcpy_s_loop.induct) (auto simp: overwrite_def)

lemma strcpy_s_loop_trunc:
  "left \<le> length (cstr src) \<Longrightarrow> left \<le> length dest \<Longrightarrow>
   strcpy_s_loop left dest src w = Some (w + left, overwrite dest 0 (take left (cstr src)))"
  by (induction left dest src w rule: strcpy_s_loop.induct) (auto simp: overwrite_def)

lemma strcpy_s_eq [cstr_simps]:
  assumes "NUL \<in> set src" and "0 < n" and "n \<le> length dest"
  shows "\<exists>dest'. strcpy_s dest n src = Some dest' \<and> length dest' = length dest \<and>
           cstr dest' = take (n - 1) (cstr src) \<and> drop n dest' = drop n dest"
proof (cases "length (cstr src) < n")
  case True
  have "strcpy_s dest n src = Some (overwrite dest 0 (cstr src @ [NUL]))"
    using assms True by (simp add: strcpy_s_def strcpy_s_loop_fits overwrite_def list_update_append)
  moreover have "n - length (cstr src) = Suc (n - Suc (length (cstr src)))"
    using True by simp
  ultimately show ?thesis
    using assms True by (auto simp: overwrite_def)
next
  case False
  then have len: "n \<le> length (cstr src)" by simp
  define t where "t = take (n - 1) (cstr src)"
  have "take n (cstr src) = t @ [cstr src ! (n - 1)]"
    using len assms(2) take_Suc_conv_app_nth [of "n - 1" "cstr src"] by (simp add: t_def)
  moreover have "length t = n - 1"
    using len by (simp add: t_def)
  ultimately have "strcpy_s dest n src = Some (t @ NUL # drop n dest)"
    using assms len by (simp add: strcpy_s_def strcpy_s_loop_trunc overwrite_def list_update_append)
  moreover have "NUL \<notin> set t"
    by (metis NUL_notin_cstr in_set_takeD t_def)
  moreover have "n + (length dest - n) = length dest"
    using assms by simp
  ultimately show ?thesis
    using assms \<open>length t = n - 1\<close> by (simp add: t_def)
qed

lemma of_char_range: "0 \<le> (of_char c :: int)" "(of_char c :: int) < 256"
  using of_char_mod_256 [of c, where 'a = int] by (metis Euclidean_Rings.pos_mod_sign Euclidean_Rings.pos_mod_bound zero_less_numeral)+

lemma char_code_eq_iff: "char_code c = char_code d \<longleftrightarrow> c = d"
  using of_char_range [of c] of_char_range [of d]
  by (auto simp: char_code_def Let_def split: if_splits dest: of_char_eqI)

text \<open>\<^verbatim>\<open>strcmp\<close> is zero exactly on equal strings.\<close>

lemma strcmp_defined: "NUL \<in> set l \<Longrightarrow> NUL \<in> set r \<Longrightarrow> \<exists>v. strcmp l r = Some v"
  by (induction l r rule: strcmp.induct) auto

lemma strcmp_zero [cstr_simps]:
  "NUL \<in> set l \<Longrightarrow> NUL \<in> set r \<Longrightarrow> strcmp l r = Some 0 \<longleftrightarrow> cstr l = cstr r"
  by (induction l r rule: strcmp.induct) auto

lemma strcmp_antisym:
  "strcmp l r = Some v \<Longrightarrow> strcmp r l = Some (- v)"
  by (induction l r rule: strcmp.induct)
    (auto split: if_splits simp: char_code_eq_iff dest: order_antisym simp: not_less)

lemma cstr_strcat:
  "strcat d s = Some d' \<Longrightarrow> cstr d' = cstr d @ cstr s"
  by (induction d s arbitrary: d' rule: strcat.induct) (auto split: if_splits dest: cstr_strcpy)

lemma strcat_defined:
  "NUL \<in> set d \<Longrightarrow> NUL \<in> set s \<Longrightarrow> length (cstr d) + length (cstr s) < length d \<Longrightarrow>
   \<exists>d'. strcat d s = Some d' \<and> length d' = length d"
proof (induction d s rule: strcat.induct)
  case (1 d ds src)
  then show ?case by (auto simp: strcpy_eq)
qed simp

lemma memset_eq: "n \<le> length xs \<Longrightarrow> memset xs v n = Some (replicate n v @ drop n xs)"
  by (induction xs v n rule: memset.induct) auto

lemma memset_None: "memset xs v n = None \<longleftrightarrow> length xs < n"
  by (induction xs v n rule: memset.induct) auto

lemma memcpy_eq:
  "n \<le> length ds \<Longrightarrow> n \<le> length ss \<Longrightarrow> memcpy ds ss n = Some (take n ss @ drop n ds)"
  by (induction ds ss n rule: memcpy.induct) auto

lemma memcmp_zero:
  "n \<le> length ls \<Longrightarrow> n \<le> length rs \<Longrightarrow> memcmp ls rs n = Some 0 \<longleftrightarrow> take n ls = take n rs"
  by (induction ls rs n rule: memcmp.induct) auto

lemma strchr_eq:
  "NUL \<in> set s \<Longrightarrow> ch \<noteq> NUL \<Longrightarrow>
   strchr s ch = Some (if ch \<in> set (cstr s) then Some (length (takeWhile (\<lambda>c. c \<noteq> ch) (cstr s)))
                       else None)"
  by (induction s ch rule: strchr.induct) auto

lemma strrchr_loop_eq:
  "NUL \<in> set s \<Longrightarrow> ch \<noteq> NUL \<Longrightarrow>
   strrchr_loop s ch i found =
     Some (if ch \<in> set (cstr s)
           then Some (i + length (cstr s) - Suc (length (takeWhile (\<lambda>c. c \<noteq> ch) (rev (cstr s)))))
           else found)"
proof (induction s ch i found rule: strrchr_loop.induct)
  case (2 c cs ch i found)
  then show ?case
    by (auto simp: takeWhile_append takeWhile_eq_all_conv [THEN iffD2] length_takeWhile_le
        split: if_splits)
qed simp

section \<open>String views\<close>

text \<open>
  \<^verbatim>\<open>stl::string_view\<close>: a pointer (\<open>None\<close> is \<^verbatim>\<open>nullptr\<close>) and a length. Its searches and its equality
  work on the C string behind the pointer and ignore the length, as the code does.
\<close>

record string_view =
  sv_str :: "char list option"
  sv_len :: nat

definition sv_null :: string_view where
  "sv_null = \<lparr>sv_str = None, sv_len = 0\<rparr>"

definition sv_of :: "char list \<Rightarrow> string_view option" where
  "sv_of s = do { n \<leftarrow> strlen s; Some \<lparr>sv_str = Some s, sv_len = n\<rparr> }"

definition sv_empty :: "string_view \<Rightarrow> bool" where
  "sv_empty v \<longleftrightarrow> sv_len v = 0"

definition sv_at :: "string_view \<Rightarrow> nat \<Rightarrow> char option" where
  "sv_at v i = (case sv_str v of None \<Rightarrow> None | Some s \<Rightarrow> if i < length s then Some (s ! i) else None)"

definition sv_find :: "string_view \<Rightarrow> char \<Rightarrow> nat option" where
  "sv_find v ch =
     (case sv_str v of
        None \<Rightarrow> Some npos
      | Some s \<Rightarrow> do {
          r \<leftarrow> strchr s ch;
          Some (case r of Some i \<Rightarrow> i | None \<Rightarrow> npos)
        })"

definition sv_rfind :: "string_view \<Rightarrow> char \<Rightarrow> nat option" where
  "sv_rfind v ch =
     (case sv_str v of
        None \<Rightarrow> Some npos
      | Some s \<Rightarrow> do {
          r \<leftarrow> strrchr s ch;
          Some (case r of Some i \<Rightarrow> i | None \<Rightarrow> npos)
        })"

definition sv_front :: "string_view \<Rightarrow> char option" where
  "sv_front v = sv_at v 0"

definition sv_back :: "string_view \<Rightarrow> char option" where
  "sv_back v = sv_at v (sv_len v - 1)"

definition sv_substr :: "string_view \<Rightarrow> nat \<Rightarrow> nat \<Rightarrow> string_view" where
  "sv_substr v idx count =
     (if idx \<ge> sv_len v then sv_null
      else let actual_count = min count (sv_len v - idx)
           in if actual_count > 0
              then \<lparr>sv_str = map_option (drop idx) (sv_str v), sv_len = actual_count\<rparr>
              else sv_null)"

definition sv_eq :: "string_view \<Rightarrow> string_view \<Rightarrow> bool option" where
  "sv_eq l r =
     (if sv_empty l \<and> sv_empty r then Some True
      else if \<not> sv_empty l \<and> \<not> sv_empty r then do {
        ls \<leftarrow> sv_str l;
        rs \<leftarrow> sv_str r;
        v \<leftarrow> strcmp ls rs;
        Some (v = 0)
      }
      else Some False)"

text \<open>A view of a whole NUL-terminated text, which is what the kernel passes around.\<close>

definition sv_text :: "string_view \<Rightarrow> char list \<Rightarrow> bool" where
  "sv_text v t \<longleftrightarrow> sv_len v = length t \<and>
     (t \<noteq> [] \<longrightarrow> (\<exists>s. sv_str v = Some s \<and> NUL \<in> set s \<and> cstr s = t))"

lemma sv_of_text: "NUL \<in> set s \<Longrightarrow> \<exists>v. sv_of s = Some v \<and> sv_text v (cstr s)"
  by (simp add: sv_of_def strlen_cstr sv_text_def)

lemma sv_text_empty: "sv_text v t \<Longrightarrow> sv_empty v \<longleftrightarrow> t = []"
  by (auto simp: sv_text_def sv_empty_def)

lemma sv_text_at:
  assumes "sv_text v t" "t \<noteq> []"
  shows "i < length t \<Longrightarrow> sv_at v i = Some (t ! i)" "sv_at v (length t) = Some NUL"
proof -
  from assms obtain s where s: "sv_str v = Some s" "NUL \<in> set s" "cstr s = t"
    by (auto simp: sv_text_def)
  from cstr_split [OF s(2)] s(3) obtain rest where r: "s = t @ NUL # rest" by auto
  show "i < length t \<Longrightarrow> sv_at v i = Some (t ! i)"
    using s r by (simp add: sv_at_def nth_append)
  show "sv_at v (length t) = Some NUL"
    using s r by (simp add: sv_at_def)
qed

lemma sv_eq_text:
  assumes "sv_text l s" "sv_text r t"
  shows "sv_eq l r = Some (s = t)"
proof (cases "s = [] \<or> t = []")
  case True
  with assms show ?thesis by (auto simp: sv_eq_def sv_text_empty)
next
  case False
  with assms obtain ls rs where *: "sv_str l = Some ls" "sv_str r = Some rs" "NUL \<in> set ls"
    "NUL \<in> set rs" "cstr ls = s" "cstr rs = t"
    by (auto simp: sv_text_def)
  then obtain v where "strcmp ls rs = Some v" "v = 0 \<longleftrightarrow> s = t"
    using strcmp_defined [of ls rs] strcmp_zero [of ls rs] by auto
  with * False assms show ?thesis by (simp add: sv_eq_def sv_text_empty)
qed

lemma sv_substr_text:
  assumes "sv_text v t" "length t < npos"
  shows "sv_text (sv_substr v k npos) (drop k t)"
proof (cases "k < length t")
  case True
  then have "t \<noteq> []" by auto
  with assms obtain s where s: "sv_str v = Some s" "NUL \<in> set s" "cstr s = t"
    by (auto simp: sv_text_def)
  from cstr_split [OF s(2)] s(3) obtain rest where r: "s = t @ NUL # rest" by auto
  have "NUL \<notin> set (drop k t)"
    using s(3) NUL_notin_cstr by (metis in_set_dropD)
  then have "cstr (drop k s) = drop k t" "NUL \<in> set (drop k s)"
    using True by (auto simp: r)
  with True assms s show ?thesis
    by (auto simp: sv_text_def sv_substr_def Let_def)
next
  case False
  with assms show ?thesis by (simp add: sv_text_def sv_substr_def sv_null_def)
qed

lemma sv_front_text: "sv_text v t \<Longrightarrow> t \<noteq> [] \<Longrightarrow> sv_front v = Some (hd t)"
  using sv_text_at(1) [of v t 0] by (simp add: sv_front_def hd_conv_nth)

lemma sv_back_text: "sv_text v t \<Longrightarrow> t \<noteq> [] \<Longrightarrow> sv_back v = Some (last t)"
  using sv_text_at(1) [of v t "length t - 1"] by (simp add: sv_back_def last_conv_nth sv_text_def)

end
