(* ===== verification/Bitmaps.thy ===== *)
theory Bitmaps
  imports Bits Strings
begin

text \<open>
  The class \<^verbatim>\<open>Bitmap\<close> of \<^verbatim>\<open>src/kernel/util/bitmap.cpp\<close>: a first-fit allocator of runs of bits.
  It manages virtual pages, physical pages, index nodes and disk blocks. The record holds the
  class's two members; \<^verbatim>\<open>bits_ == nullptr\<close> is \<open>None\<close>, otherwise the buffer the pointer refers to.
  The theory ends with the contract that its clients rely on (the locale \<open>slot_alloc\<close>), the
  counting lemmas that follow from the contract alone, and the proof that \<^verbatim>\<open>Bitmap\<close> meets it.
\<close>

section \<open>The class\<close>

record bitmap =
  bm_byte_len :: nat
  bm_bits :: "u8 list option"

definition Bitmap_default :: bitmap where
  "Bitmap_default = \<lparr>bm_byte_len = 0, bm_bits = None\<rparr>"

definition Bitmap_Clear :: "bitmap \<Rightarrow> bitmap option" where
  "Bitmap_Clear bm = do {
     bs \<leftarrow> bm_bits bm;
     bs' \<leftarrow> memset bs 0 (bm_byte_len bm);
     Some (bm\<lparr>bm_bits := Some bs'\<rparr>)
   }"

definition Bitmap_Init :: "u8 list option \<Rightarrow> nat \<Rightarrow> bool \<Rightarrow> bitmap option" where
  "Bitmap_Init buf len clear = do {
     Assert (buf \<noteq> None \<and> len > 0);
     let bm = \<lparr>bm_byte_len = len, bm_bits = buf\<rparr>;
     if clear then Bitmap_Clear bm else Some bm
   }"

definition Bitmap_swap :: "bitmap \<Rightarrow> bitmap \<Rightarrow> bitmap \<times> bitmap" where
  "Bitmap_swap a b = (a\<lparr>bm_bits := bm_bits b, bm_byte_len := bm_byte_len b\<rparr>,
                      b\<lparr>bm_bits := bm_bits a, bm_byte_len := bm_byte_len a\<rparr>)"

definition Bitmap_move :: "bitmap \<Rightarrow> bitmap \<Rightarrow> bitmap \<times> bitmap" where
  "Bitmap_move this other =
     (let (this', other') = Bitmap_swap this other in (this', other'\<lparr>bm_bits := None, bm_byte_len := 0\<rparr>))"

definition Bitmap_GetCapacity :: "bitmap \<Rightarrow> nat" where
  "Bitmap_GetCapacity bm = bm_byte_len bm * byte_len"

definition Bitmap_GetByteLen :: "bitmap \<Rightarrow> nat" where
  "Bitmap_GetByteLen bm = bm_byte_len bm"

definition Bitmap_IsAlloc :: "bitmap \<Rightarrow> nat \<Rightarrow> bool option" where
  "Bitmap_IsAlloc bm idx = do {
     bs \<leftarrow> bm_bits bm;
     let byte_idx = idx div byte_len;
     let bit_idx = idx mod byte_len;
     Assert (byte_idx < bm_byte_len bm);
     Some (IsBitSet (bs ! byte_idx) bit_idx)
   }"

definition Bitmap_SetBit :: "bitmap \<Rightarrow> nat \<Rightarrow> bool \<Rightarrow> bitmap option" where
  "Bitmap_SetBit bm idx val = do {
     bs \<leftarrow> bm_bits bm;
     let byte_idx = idx div byte_len;
     let bit_idx = idx mod byte_len;
     Assert (byte_idx < bm_byte_len bm);
     if val
     then Some (bm\<lparr>bm_bits := Some (bs[byte_idx := SetBit (bs ! byte_idx) bit_idx])\<rparr>)
     else Some (bm\<lparr>bm_bits := Some (bs[byte_idx := ResetBit (bs ! byte_idx) bit_idx])\<rparr>)
   }"

text \<open>The loop of \<^verbatim>\<open>Set\<close> and \<^verbatim>\<open>Reset\<close>, with \<open>count\<close> iterations left from index \<open>idx\<close> on.\<close>

fun Bitmap_SetLoop :: "bitmap \<Rightarrow> nat \<Rightarrow> nat \<Rightarrow> bool \<Rightarrow> bitmap option" where
  "Bitmap_SetLoop bm idx 0 val = Some bm"
| "Bitmap_SetLoop bm idx (Suc count) val = do {
     bm' \<leftarrow> Bitmap_SetBit bm idx val;
     Bitmap_SetLoop bm' (Suc idx) count val
   }"

definition Bitmap_Set :: "bitmap \<Rightarrow> nat \<Rightarrow> nat \<Rightarrow> bitmap option" where
  "Bitmap_Set bm start count = do {
     Assert (bm_bits bm \<noteq> None);
     Assert (count > 0);
     Bitmap_SetLoop bm start count True
   }"

definition Bitmap_Reset :: "bitmap \<Rightarrow> nat \<Rightarrow> nat \<Rightarrow> bitmap option" where
  "Bitmap_Reset bm start count = do {
     Assert (bm_bits bm \<noteq> None);
     Assert (count > 0);
     Bitmap_SetLoop bm start count False
   }"

definition Bitmap_Free :: "bitmap \<Rightarrow> nat \<Rightarrow> nat \<Rightarrow> bitmap option" where
  "Bitmap_Free bm start count = Bitmap_Reset bm start count"

definition Bitmap_ForceAlloc :: "bitmap \<Rightarrow> nat \<Rightarrow> nat \<Rightarrow> bitmap option" where
  "Bitmap_ForceAlloc bm start count = (if count > 0 then Bitmap_Set bm start count else Some bm)"

text \<open>The first loop of \<^verbatim>\<open>Alloc\<close>: skip the bytes that are \<^verbatim>\<open>0xFF\<close>.\<close>

function skip_full_bytes :: "u8 list \<Rightarrow> nat \<Rightarrow> nat \<Rightarrow> nat" where
  "skip_full_bytes bs n byte_idx =
     (if byte_idx < n \<and> bs ! byte_idx = 0xFF then skip_full_bytes bs n (Suc byte_idx)
      else byte_idx)"
  by pat_completeness auto
termination
  by (relation "measure (\<lambda>(bs, n, i). n - i)") auto

text \<open>The second loop: skip the bits of that byte that are set.\<close>

function skip_set_bits :: "u8 \<Rightarrow> nat \<Rightarrow> nat" where
  "skip_set_bits b bit_idx =
     (if bit_idx < byte_len \<and> IsBitSet b bit_idx then skip_set_bits b (Suc bit_idx) else bit_idx)"
  by pat_completeness auto
termination
  by (relation "measure (\<lambda>(b, i). byte_len - i)") auto

text \<open>The third loop: look for \<open>count\<close> free bits in a row; \<open>found\<close> is \<^verbatim>\<open>found_count\<close>.\<close>

function find_run :: "bitmap \<Rightarrow> nat \<Rightarrow> nat \<Rightarrow> nat \<Rightarrow> nat option" where
  "find_run bm count i found =
     (if i < bm_byte_len bm * byte_len
      then case Bitmap_IsAlloc bm i of
             None \<Rightarrow> None
           | Some False \<Rightarrow> (if Suc found = count then Some (Suc i - count)
                            else find_run bm count (Suc i) (Suc found))
           | Some True \<Rightarrow> find_run bm count (Suc i) 0
      else Some npos)"
  by pat_completeness auto
termination
  by (relation "measure (\<lambda>(bm, count, i, found). bm_byte_len bm * byte_len - i)") auto

definition Bitmap_Alloc :: "bitmap \<Rightarrow> nat \<Rightarrow> (nat \<times> bitmap) option" where
  "Bitmap_Alloc bm count = do {
     Assert (bm_bits bm \<noteq> None \<and> count > 0);
     bs \<leftarrow> bm_bits bm;
     let byte_idx = skip_full_bytes bs (bm_byte_len bm) 0;
     if byte_idx = bm_byte_len bm then Some (npos, bm)
     else do {
       let bit_idx = skip_set_bits (bs ! byte_idx) 0;
       Assert (bit_idx < byte_len);
       start \<leftarrow> find_run bm count (bit_idx + byte_idx * byte_len) 0;
       if start \<noteq> npos then do { bm' \<leftarrow> Bitmap_Set bm start count; Some (start, bm') }
       else Some (npos, bm)
     }
   }"

declare skip_full_bytes.simps [simp del] skip_set_bits.simps [simp del] find_run.simps [simp del]

section \<open>Abstraction and invariant\<close>

text \<open>The bit of a slot, and the well-formedness of a bitmap that owns a buffer.\<close>

definition bm_used :: "bitmap \<Rightarrow> nat \<Rightarrow> bool" where
  "bm_used bm i \<longleftrightarrow>
     (case bm_bits bm of None \<Rightarrow> False
      | Some bs \<Rightarrow> i < length bs * 8 \<and> bit (bs ! (i div 8)) (i mod 8))"

definition bitmap_ok :: "bitmap \<Rightarrow> bool" where
  "bitmap_ok bm \<longleftrightarrow>
     (case bm_bits bm of None \<Rightarrow> False | Some bs \<Rightarrow> length bs = bm_byte_len bm) \<and>
     0 < bm_byte_len bm \<and> bm_byte_len bm * 8 < 2 ^ 32"

lemma bitmap_okE:
  assumes "bitmap_ok bm"
  obtains bs where "bm_bits bm = Some bs" "length bs = bm_byte_len bm" "0 < bm_byte_len bm"
    "bm_byte_len bm * 8 < 2 ^ 32"
  using assms by (auto simp: bitmap_ok_def split: option.splits)

lemma idx_byte_bound: "i div 8 < n \<longleftrightarrow> i < n * 8" for i n :: nat
  by (simp add: div_less_iff_less_mult)

lemma IsAlloc_used:
  "bitmap_ok bm \<Longrightarrow> i < Bitmap_GetCapacity bm \<Longrightarrow> Bitmap_IsAlloc bm i = Some (bm_used bm i)"
  by (elim bitmap_okE)
    (simp add: Bitmap_IsAlloc_def bm_used_def Bitmap_GetCapacity_def byte_len_def idx_byte_bound
      IsBitSet_bit Let_def)

lemma IsAlloc_out_of_range:
  "Bitmap_GetCapacity bm \<le> i \<Longrightarrow> Bitmap_IsAlloc bm i = None"
  by (auto simp: Bitmap_IsAlloc_def Bitmap_GetCapacity_def byte_len_def idx_byte_bound Let_def
      bind_eq_None_conv)

lemma used_less_capacity: "bitmap_ok bm \<Longrightarrow> bm_used bm i \<Longrightarrow> i < Bitmap_GetCapacity bm"
  by (auto simp: bm_used_def bitmap_ok_def Bitmap_GetCapacity_def byte_len_def split: option.splits)

section \<open>Setting and resetting bits\<close>

lemma SetBit_ok:
  assumes ok: "bitmap_ok bm" and i: "i < Bitmap_GetCapacity bm"
  obtains bm' where "Bitmap_SetBit bm i v = Some bm'" "bitmap_ok bm'"
    "bm_byte_len bm' = bm_byte_len bm" "bm_used bm' = (bm_used bm)(i := v)"
proof -
  from ok obtain bs where bs: "bm_bits bm = Some bs" "length bs = bm_byte_len bm"
    by (rule bitmap_okE)
  let ?b = "if v then SetBit (bs ! (i div 8)) (i mod 8) else ResetBit (bs ! (i div 8)) (i mod 8)"
  let ?bm = "bm\<lparr>bm_bits := Some (bs[i div 8 := ?b])\<rparr>"
  have lt: "i div 8 < bm_byte_len bm"
    using i by (simp add: Bitmap_GetCapacity_def byte_len_def idx_byte_bound)
  have "Bitmap_SetBit bm i v = Some ?bm"
    using bs lt by (simp add: Bitmap_SetBit_def byte_len_def Let_def)
  moreover have "bitmap_ok ?bm"
    using ok bs by (simp add: bitmap_ok_def)
  moreover have "bm_used ?bm = (bm_used bm)(i := v)"
  proof
    fix j
    show "bm_used ?bm j = ((bm_used bm)(i := v)) j"
    proof (cases "j div 8 = i div 8")
      case True
      then have "j mod 8 = i mod 8 \<longleftrightarrow> j = i"
        by (metis div_mult_mod_eq)
      with True lt bs show ?thesis
        by (auto simp: bm_used_def bit_SetBit bit_ResetBit idx_byte_bound nth_list_update)
    next
      case False
      with bs show ?thesis by (auto simp: bm_used_def nth_list_update)
    qed
  qed
  ultimately show thesis using that [of ?bm] by simp
qed

lemma SetLoop_ok:
  assumes "bitmap_ok bm" and "s + n \<le> Bitmap_GetCapacity bm"
  shows "\<exists>bm'. Bitmap_SetLoop bm s n v = Some bm' \<and> bitmap_ok bm' \<and>
           bm_byte_len bm' = bm_byte_len bm \<and>
           bm_used bm' = (\<lambda>i. if s \<le> i \<and> i < s + n then v else bm_used bm i)"
  using assms
proof (induction n arbitrary: bm s)
  case 0
  then show ?case by auto
next
  case (Suc n)
  then have "s < Bitmap_GetCapacity bm" by simp
  with Suc.prems(1) obtain bm1 where bm1: "Bitmap_SetBit bm s v = Some bm1" "bitmap_ok bm1"
    "bm_byte_len bm1 = bm_byte_len bm" "bm_used bm1 = (bm_used bm)(s := v)"
    by (rule SetBit_ok)
  moreover from bm1 Suc.prems have "Suc s + n \<le> Bitmap_GetCapacity bm1"
    by (simp add: Bitmap_GetCapacity_def)
  ultimately obtain bm2 where bm2: "Bitmap_SetLoop bm1 (Suc s) n v = Some bm2" "bitmap_ok bm2"
    "bm_byte_len bm2 = bm_byte_len bm"
    "bm_used bm2 = (\<lambda>i. if Suc s \<le> i \<and> i < Suc s + n then v else bm_used bm1 i)"
    using Suc.IH by metis
  have "bm_used bm2 = (\<lambda>i. if s \<le> i \<and> i < s + Suc n then v else bm_used bm i)"
    using bm1(4) bm2(4) by (auto simp: fun_eq_iff)
  with bm1 bm2 show ?case by auto
qed

lemma Set_ok:
  assumes "bitmap_ok bm" and "0 < n" and "s + n \<le> Bitmap_GetCapacity bm"
  shows "\<exists>bm'. Bitmap_Set bm s n = Some bm' \<and> bitmap_ok bm' \<and>
           bm_byte_len bm' = bm_byte_len bm \<and>
           bm_used bm' = (\<lambda>i. bm_used bm i \<or> s \<le> i \<and> i < s + n)"
  using SetLoop_ok [OF assms(1,3), of True] assms
  by (auto simp: Bitmap_Set_def fun_eq_iff elim: bitmap_okE)

lemma Free_ok:
  assumes "bitmap_ok bm" and "0 < n" and "s + n \<le> Bitmap_GetCapacity bm"
  shows "\<exists>bm'. Bitmap_Free bm s n = Some bm' \<and> bitmap_ok bm' \<and>
           bm_byte_len bm' = bm_byte_len bm \<and>
           bm_used bm' = (\<lambda>i. bm_used bm i \<and> \<not> (s \<le> i \<and> i < s + n))"
  using SetLoop_ok [OF assms(1,3), of False] assms
  by (auto simp: Bitmap_Free_def Bitmap_Reset_def fun_eq_iff elim: bitmap_okE)

lemma ForceAlloc_ok:
  assumes "bitmap_ok bm" and "s + n \<le> Bitmap_GetCapacity bm"
  shows "\<exists>bm'. Bitmap_ForceAlloc bm s n = Some bm' \<and> bitmap_ok bm' \<and>
           bm_byte_len bm' = bm_byte_len bm \<and>
           bm_used bm' = (\<lambda>i. bm_used bm i \<or> s \<le> i \<and> i < s + n)"
  using Set_ok [OF assms(1) _ assms(2)] assms
  by (cases "n = 0") (auto simp: Bitmap_ForceAlloc_def)

lemma Init_clear_ok:
  assumes "length bs = len" and "0 < len" and "len * 8 < 2 ^ 32"
  shows "\<exists>bm. Bitmap_Init (Some bs) len True = Some bm \<and> bitmap_ok bm \<and>
           bm_byte_len bm = len \<and> bm_used bm = (\<lambda>_. False)"
  using assms
  by (auto simp: Bitmap_Init_def Bitmap_Clear_def memset_eq bitmap_ok_def bm_used_def
      fun_eq_iff Let_def idx_byte_bound)

lemma Init_keep_ok:
  assumes "length bs = len" and "0 < len" and "len * 8 < 2 ^ 32"
  shows "\<exists>bm. Bitmap_Init (Some bs) len False = Some bm \<and> bitmap_ok bm \<and> bm_bits bm = Some bs"
  using assms by (simp add: Bitmap_Init_def bitmap_ok_def Let_def)

section \<open>First-fit allocation\<close>

definition free_run :: "bitmap \<Rightarrow> nat \<Rightarrow> nat \<Rightarrow> bool" where
  "free_run bm b n \<longleftrightarrow>
     b + n \<le> Bitmap_GetCapacity bm \<and> (\<forall>i. b \<le> i \<and> i < b + n \<longrightarrow> \<not> bm_used bm i)"

lemma skip_full_bytes_spec:
  assumes "i \<le> n"
  shows "i \<le> skip_full_bytes bs n i \<and> skip_full_bytes bs n i \<le> n \<and>
    (\<forall>k. i \<le> k \<and> k < skip_full_bytes bs n i \<longrightarrow> bs ! k = 0xFF) \<and>
    (skip_full_bytes bs n i < n \<longrightarrow> bs ! skip_full_bytes bs n i \<noteq> 0xFF)"
  using assms
proof (induction bs n i rule: skip_full_bytes.induct)
  case (1 bs n i)
  show ?case
  proof (cases "i < n \<and> bs ! i = 0xFF")
    case True
    with 1 show ?thesis
      by (subst (1 2 3 4 5) skip_full_bytes.simps)
        (simp, metis Suc_leD le_antisym not_less_eq_eq)
  next
    case False
    with 1 show ?thesis by (subst (1 2 3 4 5) skip_full_bytes.simps) auto
  qed
qed

lemma skip_set_bits_spec:
  assumes "i \<le> 8"
  shows "i \<le> skip_set_bits b i \<and> skip_set_bits b i \<le> 8 \<and>
    (\<forall>k. i \<le> k \<and> k < skip_set_bits b i \<longrightarrow> bit b k) \<and>
    (skip_set_bits b i < 8 \<longrightarrow> \<not> bit b (skip_set_bits b i))"
  using assms
proof (induction b i rule: skip_set_bits.induct)
  case (1 b i)
  show ?case
  proof (cases "i < 8 \<and> bit b i")
    case True
    with 1 show ?thesis
      by (subst (1 2 3 4 5) skip_set_bits.simps)
        (simp add: byte_len_def IsBitSet_bit, metis Suc_leD le_antisym not_less_eq_eq)
  next
    case False
    with 1 show ?thesis
      by (subst (1 2 3 4 5) skip_set_bits.simps) (auto simp: byte_len_def IsBitSet_bit)
  qed
qed

lemma bit_0xFF [simp]: "bit (0xFF :: u8) k \<longleftrightarrow> k < 8"
proof -
  have "(0xFF :: u8) = - 1" by simp
  then show ?thesis by (simp only: bit_minus_1_iff) simp
qed

lemma not_0xFF_clear_bit: "b \<noteq> 0xFF \<Longrightarrow> skip_set_bits b 0 < 8"
proof (rule ccontr)
  assume b: "b \<noteq> 0xFF" and "\<not> skip_set_bits b 0 < 8"
  then have "\<forall>k<8. bit b k"
    using skip_set_bits_spec [of 0 b] by auto
  then have "b = 0xFF"
    by (intro bit_word_eqI) (simp only: bit_0xFF, simp)
  with b show False by simp
qed

lemma no_run_before:
  assumes "bm_used bm i" and "\<And>b. b < i - k \<Longrightarrow> \<not> free_run bm b n" and "k < n" and "k \<le> i"
  shows "b < Suc i \<Longrightarrow> \<not> free_run bm b n"
  using assms by (cases "b < i - k") (auto simp: free_run_def intro: exI [of _ i])

text \<open>
  The loop invariant of the search: the \<open>found\<close> bits below \<open>i\<close> are free and no run of \<open>n\<close> bits
  starts before them.
\<close>

lemma find_run_spec:
  assumes "bitmap_ok bm" and "found \<le> i" and "found < n" and "i \<le> Bitmap_GetCapacity bm"
    and "\<And>j. i - found \<le> j \<Longrightarrow> j < i \<Longrightarrow> \<not> bm_used bm j"
    and "\<And>b. b < i - found \<Longrightarrow> \<not> free_run bm b n"
  shows "\<exists>r. find_run bm n i found = Some r \<and>
           (if r = npos then \<forall>b. \<not> free_run bm b n
            else free_run bm r n \<and> (\<forall>b<r. \<not> free_run bm b n))"
  using assms
proof (induction bm n i found rule: find_run.induct)
  case (1 bm n i found)
  let ?goal = "\<lambda>r. if r = npos then \<forall>b. \<not> free_run bm b n
                  else free_run bm r n \<and> (\<forall>b<r. \<not> free_run bm b n)"
  have cap: "bm_byte_len bm * byte_len = Bitmap_GetCapacity bm"
    by (simp add: Bitmap_GetCapacity_def)
  show ?case
  proof (cases "i < Bitmap_GetCapacity bm")
    case False
    with "1.prems"(2,3,4) have "\<not> free_run bm b n" for b
      by (cases "b < i - found") (simp add: "1.prems"(6), auto simp: free_run_def)
    with False show ?thesis by (subst find_run.simps) (simp add: cap)
  next
    case lt: True
    then have alloc: "Bitmap_IsAlloc bm i = Some (bm_used bm i)"
      using "1.prems"(1) by (simp add: IsAlloc_used)
    show ?thesis
    proof (cases "bm_used bm i")
      case True
      have "\<exists>r. find_run bm n (Suc i) 0 = Some r \<and> ?goal r"
      proof (rule "1.IH"(1) [of True])
        show "\<not> free_run bm b n" if "b < Suc i - 0" for b
          using no_run_before [OF True "1.prems"(6,3,2)] that by simp
      qed (use "1.prems" lt True in \<open>simp_all add: alloc cap\<close>)
      with lt True show ?thesis by (subst find_run.simps) (simp add: alloc cap)
    next
      case False
      have free: "\<not> bm_used bm j" if "i - found \<le> j" "j < Suc i" for j
        using that "1.prems"(5) False less_antisym by blast
      show ?thesis
      proof (cases "Suc found = n")
        case True
        then have "free_run bm (Suc i - n) n" "Suc i - n = i - found"
          using free lt "1.prems"(2) by (auto simp: free_run_def)
        moreover have "i - found \<noteq> npos"
          using lt "1.prems"(1)
          by (elim bitmap_okE) (simp add: Bitmap_GetCapacity_def byte_len_def npos_unfold)
        ultimately show ?thesis
          using lt False True "1.prems"(6)
          by (subst find_run.simps) (simp add: alloc cap)
      next
        case neq: False
        have "\<exists>r. find_run bm n (Suc i) (Suc found) = Some r \<and> ?goal r"
          by (rule "1.IH"(2) [of False]) (use "1.prems" lt False neq free in \<open>simp_all add: alloc cap\<close>)
        with lt False neq show ?thesis by (subst find_run.simps) (simp add: alloc cap)
      qed
    qed
  qed
qed

lemma scan_start_used:
  assumes "bm_bits bm = Some bs" and "length bs = bm_byte_len bm"
    and "m = skip_full_bytes bs (bm_byte_len bm) 0"
    and "i < m * 8 \<or> m < bm_byte_len bm \<and> i < skip_set_bits (bs ! m) 0 + m * 8"
  shows "bm_used bm i"
proof -
  have m: "m \<le> bm_byte_len bm" "k < m \<Longrightarrow> bs ! k = 0xFF" for k
    using skip_full_bytes_spec [of 0 "bm_byte_len bm" bs] assms(3) by auto
  show ?thesis
  proof (cases "i < m * 8")
    case True
    with m assms(2) have "bs ! (i div 8) = 0xFF" "i < length bs * 8"
      by (auto simp: idx_byte_bound)
    with assms(1) show ?thesis by (simp only: bm_used_def option.case bit_0xFF) simp
  next
    case False
    with assms(4) have lt: "m < bm_byte_len bm" "i < skip_set_bits (bs ! m) 0 + m * 8" by auto
    with False skip_set_bits_spec [of 0 "bs ! m"]
    have "i div 8 = m" by (intro div_nat_eqI) auto
    moreover from this lt have "i mod 8 < skip_set_bits (bs ! m) 0"
      using div_mult_mod_eq [of i 8] by linarith
    moreover from this skip_set_bits_spec [of 0 "bs ! m"] have "bit (bs ! m) (i mod 8)" by simp
    ultimately show ?thesis
      using lt assms(1,2) by (simp add: bm_used_def flip: idx_byte_bound)
  qed
qed

lemma used_no_run:
  "(\<And>i. i < k \<Longrightarrow> bm_used bm i) \<Longrightarrow> 0 < n \<Longrightarrow> b < k \<Longrightarrow> \<not> free_run bm b n"
  by (auto simp: free_run_def)

lemma Alloc_cases:
  assumes ok: "bitmap_ok bm" and n: "0 < n"
  obtains (full) "Bitmap_Alloc bm n = Some (npos, bm)" "\<And>b. \<not> free_run bm b n"
  | (found) s bm' where "Bitmap_Alloc bm n = Some (s, bm')" "s \<noteq> npos" "free_run bm s n"
      "\<And>b. b < s \<Longrightarrow> \<not> free_run bm b n" "bitmap_ok bm'" "bm_byte_len bm' = bm_byte_len bm"
      "bm_used bm' = (\<lambda>i. bm_used bm i \<or> s \<le> i \<and> i < s + n)"
proof -
  from ok obtain bs where bs: "bm_bits bm = Some bs" "length bs = bm_byte_len bm"
    by (rule bitmap_okE)
  let ?m = "skip_full_bytes bs (bm_byte_len bm) 0"
  let ?k = "skip_set_bits (bs ! ?m) 0"
  have m: "?m \<le> bm_byte_len bm" "?m < bm_byte_len bm \<Longrightarrow> bs ! ?m \<noteq> 0xFF"
    using skip_full_bytes_spec [of 0 "bm_byte_len bm" bs] by auto
  note start = scan_start_used [OF bs refl]
  show thesis
  proof (cases "?m = bm_byte_len bm")
    case True
    with start have "\<And>b. b < Bitmap_GetCapacity bm \<Longrightarrow> bm_used bm b"
      by (simp add: Bitmap_GetCapacity_def byte_len_def)
    with n have "\<not> free_run bm b n" for b
      by (auto simp: free_run_def)
    moreover have "Bitmap_Alloc bm n = Some (npos, bm)"
      using True bs n by (simp add: Bitmap_Alloc_def Let_def)
    ultimately show thesis by (rule full [rotated])
  next
    case False
    with m have lt: "?m < bm_byte_len bm" and k: "?k < 8"
      using not_0xFF_clear_bit by auto
    have "?k + ?m * 8 \<le> Bitmap_GetCapacity bm"
      using lt k by (simp add: Bitmap_GetCapacity_def byte_len_def)
    moreover have "\<not> free_run bm b n" if "b < ?k + ?m * 8" for b
      by (rule used_no_run [OF _ n that]) (rule start, simp add: lt)
    ultimately obtain r where r: "find_run bm n (?k + ?m * 8) 0 = Some r"
      "if r = npos then \<forall>b. \<not> free_run bm b n
       else free_run bm r n \<and> (\<forall>b<r. \<not> free_run bm b n)"
      using find_run_spec [OF ok _ n, of "?k + ?m * 8"] by auto
    have eq: "Bitmap_Alloc bm n = (if r \<noteq> npos then do { bm' \<leftarrow> Bitmap_Set bm r n; Some (r, bm') }
        else Some (npos, bm))"
      using bs n False k r(1) by (simp add: Bitmap_Alloc_def Let_def byte_len_def)
    show thesis
    proof (cases "r = npos")
      case True
      with r(2) eq show thesis by (intro full) auto
    next
      case False
      with r(2) have fr: "free_run bm r n" "\<And>b. b < r \<Longrightarrow> \<not> free_run bm b n" by auto
      then obtain bm' where "Bitmap_Set bm r n = Some bm'" "bitmap_ok bm'"
        "bm_byte_len bm' = bm_byte_len bm"
        "bm_used bm' = (\<lambda>i. bm_used bm i \<or> r \<le> i \<and> i < r + n)"
        using Set_ok [OF ok n] unfolding free_run_def by metis
      with eq False fr show thesis by (intro found [of r bm']) auto
    qed
  qed
qed

section \<open>The contract of a slot allocator\<close>

text \<open>
  The number of used slots below a capacity. The clients of a bitmap (the page pools, the index
  node bitmap and the block bitmap of a partition) only need the following contract: an
  allocation answers \<^verbatim>\<open>npos\<close> and changes nothing when no run is free, otherwise it takes a free
  run; a release clears a range inside the capacity.
\<close>

definition used_slots :: "(nat \<Rightarrow> bool) \<Rightarrow> nat \<Rightarrow> nat" where
  "used_slots used cap = length (filter used [0..<cap])"

lemma used_slots_card: "used_slots used cap = card {i. i < cap \<and> used i}"
  by (simp add: used_slots_def length_filter_conv_card cong: conj_cong)

lemma used_slots_le: "used_slots used cap \<le> cap"
  by (metis diff_zero length_filter_le length_upt used_slots_def)

lemma used_slots_take:
  assumes "s + n \<le> cap" and "\<And>i. s \<le> i \<Longrightarrow> i < s + n \<Longrightarrow> \<not> used i"
  shows "used_slots (\<lambda>i. used i \<or> s \<le> i \<and> i < s + n) cap = used_slots used cap + n"
proof -
  have "{i. i < cap \<and> (used i \<or> s \<le> i \<and> i < s + n)} = {i. i < cap \<and> used i} \<union> {s..<s + n}"
    using assms(1) by auto
  moreover have "{i. i < cap \<and> used i} \<inter> {s..<s + n} = {}"
    using assms(2) by auto
  ultimately show ?thesis
    by (simp add: used_slots_card card_Un_disjoint)
qed

lemma used_slots_drop:
  assumes "s + n \<le> cap" and "\<And>i. s \<le> i \<Longrightarrow> i < s + n \<Longrightarrow> used i"
  shows "used_slots (\<lambda>i. used i \<and> \<not> (s \<le> i \<and> i < s + n)) cap + n = used_slots used cap"
proof -
  have "{i. i < cap \<and> used i} = {i. i < cap \<and> used i \<and> \<not> (s \<le> i \<and> i < s + n)} \<union> {s..<s + n}"
    using assms by auto
  moreover have "{i. i < cap \<and> used i \<and> \<not> (s \<le> i \<and> i < s + n)} \<inter> {s..<s + n} = {}"
    by auto
  ultimately show ?thesis
    by (simp add: used_slots_card card_Un_disjoint)
qed

lemma used_slots_full: "used_slots used cap = cap \<longleftrightarrow> (\<forall>i<cap. used i)"
proof
  assume "used_slots used cap = cap"
  then have "filter used [0..<cap] = [0..<cap]"
    by (metis diff_zero filter_True length_filter_less length_upt less_irrefl used_slots_def)
  then show "\<forall>i<cap. used i"
    by (metis atLeast0LessThan atLeastLessThan_upt filter_id_conv lessThan_iff)
qed (simp add: used_slots_def)

locale slot_alloc =
  fixes capacity :: "'m \<Rightarrow> nat"
    and used :: "'m \<Rightarrow> nat \<Rightarrow> bool"
    and alloc :: "'m \<Rightarrow> nat \<Rightarrow> (nat \<times> 'm) option"
    and release :: "'m \<Rightarrow> nat \<Rightarrow> nat \<Rightarrow> 'm option"
    and invar :: "'m \<Rightarrow> bool"
  assumes used_bound: "invar m \<Longrightarrow> used m i \<Longrightarrow> i < capacity m"
    and capacity_bound: "invar m \<Longrightarrow> capacity m < 2 ^ 32"
    and alloc_returns: "invar m \<Longrightarrow> 0 < n \<Longrightarrow> \<exists>s m'. alloc m n = Some (s, m')"
    and alloc_fail: "invar m \<Longrightarrow> 0 < n \<Longrightarrow> alloc m n = Some (npos, m') \<Longrightarrow>
          m' = m \<and> (\<forall>b. b + n \<le> capacity m \<longrightarrow> (\<exists>i. b \<le> i \<and> i < b + n \<and> used m i))"
    and alloc_ok: "invar m \<Longrightarrow> 0 < n \<Longrightarrow> alloc m n = Some (s, m') \<Longrightarrow> s \<noteq> npos \<Longrightarrow>
          invar m' \<and> capacity m' = capacity m \<and> s + n \<le> capacity m \<and>
          (\<forall>i. s \<le> i \<and> i < s + n \<longrightarrow> \<not> used m i) \<and>
          used m' = (\<lambda>i. used m i \<or> s \<le> i \<and> i < s + n)"
    and release_ok: "invar m \<Longrightarrow> 0 < n \<Longrightarrow> s + n \<le> capacity m \<Longrightarrow>
          \<exists>m'. release m s n = Some m' \<and> invar m' \<and> capacity m' = capacity m \<and>
               used m' = (\<lambda>i. used m i \<and> \<not> (s \<le> i \<and> i < s + n))"
begin

lemma alloc_keeps:
  "invar m \<Longrightarrow> 0 < n \<Longrightarrow> alloc m n = Some (s, m') \<Longrightarrow> invar m' \<and> capacity m' = capacity m"
  using alloc_fail [of m n m'] alloc_ok [of m n s m'] by auto

lemma alloc_count:
  assumes "invar m" "0 < n" "alloc m n = Some (s, m')" "s \<noteq> npos"
  shows "used_slots (used m') (capacity m') = used_slots (used m) (capacity m) + n"
  using alloc_ok [OF assms] by (simp add: used_slots_take)

lemma release_count:
  assumes "invar m" "0 < n" "s + n \<le> capacity m" "\<And>i. s \<le> i \<Longrightarrow> i < s + n \<Longrightarrow> used m i"
    and "release m s n = Some m'"
  shows "used_slots (used m') (capacity m') + n = used_slots (used m) (capacity m)"
  using release_ok [OF assms(1-3)] assms(5) used_slots_drop [OF assms(3,4)] by auto

lemma alloc_one_fails_iff:
  assumes "invar m" "alloc m 1 = Some (s, m')"
  shows "s = npos \<longleftrightarrow> used_slots (used m) (capacity m) = capacity m"
proof (cases "s = npos")
  case True
  then have "\<forall>b. b + 1 \<le> capacity m \<longrightarrow> (\<exists>i. b \<le> i \<and> i < b + 1 \<and> used m i)"
    using alloc_fail [OF assms(1), of 1 m'] assms(2) by simp
  then have "\<forall>b<capacity m. used m b"
    by (metis Suc_eq_plus1 Suc_leI le_antisym less_Suc_eq_le)
  with True show ?thesis by (simp add: used_slots_full)
next
  case False
  then show ?thesis
    using alloc_ok [OF assms(1) _ assms(2)] by (auto simp: used_slots_full intro: exI [of _ s])
qed

lemma alloc_release:
  assumes "invar m" "0 < n" "alloc m n = Some (s, m')" "s \<noteq> npos"
  shows "\<exists>m''. release m' s n = Some m'' \<and> invar m'' \<and> capacity m'' = capacity m \<and> used m'' = used m"
proof -
  note a = alloc_ok [OF assms]
  then obtain m'' where "release m' s n = Some m''" "invar m''" "capacity m'' = capacity m"
    "used m'' = (\<lambda>i. used m' i \<and> \<not> (s \<le> i \<and> i < s + n))"
    using release_ok [of m' n s] assms(2) by auto
  with a show ?thesis by (auto simp: fun_eq_iff)
qed

lemma alloc_alloc_disjoint:
  assumes "invar m" "0 < n" "alloc m n = Some (s, m')" "s \<noteq> npos"
    and "0 < k" "alloc m' k = Some (t, m'')" "t \<noteq> npos"
  shows "{s..<s + n} \<inter> {t..<t + k} = {}"
  using alloc_ok [OF assms(1-4)] alloc_ok [of m' k t m''] assms(5-7)
  unfolding disjoint_iff atLeastLessThan_iff by metis

end

interpretation bm: slot_alloc Bitmap_GetCapacity bm_used Bitmap_Alloc Bitmap_Free bitmap_ok
proof
  fix m m' :: bitmap and n s i :: nat
  assume ok: "bitmap_ok m"
  show "bm_used m i \<Longrightarrow> i < Bitmap_GetCapacity m"
    by (rule used_less_capacity [OF ok])
  show "Bitmap_GetCapacity m < 2 ^ 32"
    using ok by (auto simp: Bitmap_GetCapacity_def byte_len_def elim: bitmap_okE)
  assume n: "0 < n"
  show "\<exists>s m'. Bitmap_Alloc m n = Some (s, m')"
    by (rule Alloc_cases [OF ok n]) auto
  show "m' = m \<and> (\<forall>b. b + n \<le> Bitmap_GetCapacity m \<longrightarrow> (\<exists>i. b \<le> i \<and> i < b + n \<and> bm_used m i))"
    if "Bitmap_Alloc m n = Some (npos, m')"
    using that by (rule_tac Alloc_cases [OF ok n]) (auto simp: free_run_def)
  show "bitmap_ok m' \<and> Bitmap_GetCapacity m' = Bitmap_GetCapacity m \<and>
      s + n \<le> Bitmap_GetCapacity m \<and> (\<forall>i. s \<le> i \<and> i < s + n \<longrightarrow> \<not> bm_used m i) \<and>
      bm_used m' = (\<lambda>i. bm_used m i \<or> s \<le> i \<and> i < s + n)"
    if "Bitmap_Alloc m n = Some (s, m')" "s \<noteq> npos"
    using that by (rule_tac Alloc_cases [OF ok n]) (auto simp: free_run_def Bitmap_GetCapacity_def)
  show "\<exists>m'. Bitmap_Free m s n = Some m' \<and> bitmap_ok m' \<and>
      Bitmap_GetCapacity m' = Bitmap_GetCapacity m \<and>
      bm_used m' = (\<lambda>i. bm_used m i \<and> \<not> (s \<le> i \<and> i < s + n))"
    if "s + n \<le> Bitmap_GetCapacity m"
    using Free_ok [OF ok n that] by (auto simp: Bitmap_GetCapacity_def)
qed

section \<open>Properties\<close>

text \<open>
  C30: On a well-formed bitmap, a request for \<open>n > 0\<close> bits either finds no free run, and then
  answers \<^verbatim>\<open>npos\<close> and leaves the bitmap as it is, or it returns the LEAST start of a free run of
  \<open>n\<close> bits and sets exactly these bits; the byte-skipping start of the search loses no candidate.
\<close>

theorem Bitmap_Alloc_first_fit:
  assumes "bitmap_ok bm" and "0 < n"
  shows "\<exists>s bm'. Bitmap_Alloc bm n = Some (s, bm') \<and> bitmap_ok bm' \<and>
           (if s = npos then bm' = bm \<and> (\<forall>b. \<not> free_run bm b n)
            else free_run bm s n \<and> (\<forall>b < s. \<not> free_run bm b n) \<and>
                 bm_used bm' = (\<lambda>i. bm_used bm i \<or> s \<le> i \<and> i < s + n))"
  using assms(1) by (rule_tac Alloc_cases [OF assms]) auto

definition bm_example :: bitmap where
  "bm_example = \<lparr>bm_byte_len = 2, bm_bits = Some [0xFF, 0x05]\<rparr>"

theorem Bitmap_Alloc_first_fit_witness:
  "bitmap_ok bm_example \<and> fst (the (Bitmap_Alloc bm_example 2)) = 11 \<and> free_run bm_example 11 2"
proof -
  have ok: "bitmap_ok bm_example" by (simp add: bm_example_def bitmap_ok_def)
  have ev: "map_option fst (Bitmap_Alloc bm_example 2) = Some 11" by code_simp
  have "11 \<noteq> npos" by (simp add: npos_unfold)
  with Bitmap_Alloc_first_fit [OF ok, of 2] ev show ?thesis
    using ok by auto
qed

end
