(* ===== verification/TagLists.thy ===== *)
theory TagLists
  imports Prelude
begin

text \<open>
  The intrusive doubly linked list \<^verbatim>\<open>TagList\<close> of \<^verbatim>\<open>src/kernel/util/tag_list.cpp\<close>, on which the thread
  queues, the waiters of a semaphore, the free blocks of the heap and the opened index nodes are
  kept. The tags live in an explicit store: two maps give the \<^verbatim>\<open>prev\<close> and \<^verbatim>\<open>next\<close> member of every
  tag, \<open>None\<close> being \<^verbatim>\<open>nullptr\<close>. A list object is the pair of addresses of its sentinels \<^verbatim>\<open>head_\<close> and
  \<^verbatim>\<open>tail_\<close>, so that one store holds several lists. Writing through a null pointer is \<open>None\<close>, as a
  failed assertion is. The walks \<^verbatim>\<open>Find\<close> and \<^verbatim>\<open>GetSize\<close> follow pointers and may not end on a corrupt
  store: they are partial functions whose value is \<open>None\<close> then. (\<^verbatim>\<open>IntrGuard\<close> makes every update
  atomic, which is what one step of the model is.)
\<close>

section \<open>Tags and lists\<close>

type_synonym addr = nat

record tags =
  tg_prev :: "addr \<Rightarrow> addr option"
  tg_next :: "addr \<Rightarrow> addr option"

record tag_list =
  tl_head :: addr
  tl_tail :: addr

definition set_next :: "addr option \<Rightarrow> addr option \<Rightarrow> tags \<Rightarrow> tags option" where
  "set_next p v h = (case p of None \<Rightarrow> None | Some a \<Rightarrow> Some (h\<lparr>tg_next := (tg_next h)(a := v)\<rparr>))"

definition set_prev :: "addr option \<Rightarrow> addr option \<Rightarrow> tags \<Rightarrow> tags option" where
  "set_prev p v h = (case p of None \<Rightarrow> None | Some a \<Rightarrow> Some (h\<lparr>tg_prev := (tg_prev h)(a := v)\<rparr>))"

definition TagList_Init :: "tag_list \<Rightarrow> tags \<Rightarrow> tags" where
  "TagList_Init l h =
     h\<lparr>tg_next := (tg_next h)(tl_head l := Some (tl_tail l)),
       tg_prev := (tg_prev h)(tl_tail l := Some (tl_head l))\<rparr>"

definition TagList_InsertBefore :: "addr \<Rightarrow> addr \<Rightarrow> tags \<Rightarrow> tags option" where
  "TagList_InsertBefore before tag h = do {
     h \<leftarrow> set_next (tg_prev h before) (Some tag) h;
     h \<leftarrow> set_prev (Some tag) (tg_prev h before) h;
     h \<leftarrow> set_next (Some tag) (Some before) h;
     set_prev (Some before) (Some tag) h
   }"

definition TagList_PushFront :: "tag_list \<Rightarrow> addr \<Rightarrow> tags \<Rightarrow> tags option" where
  "TagList_PushFront l tag h = do {
     first \<leftarrow> tg_next h (tl_head l);
     TagList_InsertBefore first tag h
   }"

definition TagList_PushBack :: "tag_list \<Rightarrow> addr \<Rightarrow> tags \<Rightarrow> tags option" where
  "TagList_PushBack l tag h = TagList_InsertBefore (tl_tail l) tag h"

definition Tag_Detach :: "addr \<Rightarrow> tags \<Rightarrow> tags option" where
  "Tag_Detach tag h = do {
     Assert (tg_prev h tag \<noteq> None \<and> tg_next h tag \<noteq> None);
     h \<leftarrow> set_next (tg_prev h tag) (tg_next h tag) h;
     set_prev (tg_next h tag) (tg_prev h tag) h
   }"

definition TagList_IsEmpty :: "tag_list \<Rightarrow> tags \<Rightarrow> bool" where
  "TagList_IsEmpty l h \<longleftrightarrow> tg_next h (tl_head l) = Some (tl_tail l)"

definition TagList_Pop :: "tag_list \<Rightarrow> tags \<Rightarrow> (addr \<times> tags) option" where
  "TagList_Pop l h = do {
     Assert (\<not> TagList_IsEmpty l h);
     top \<leftarrow> tg_next h (tl_head l);
     h \<leftarrow> Tag_Detach top h;
     Some (top, h)
   }"

text \<open>The loops, from \<open>curr\<close> on; the first \<^verbatim>\<open>Find\<close> compares addresses, the second calls a visitor.\<close>

partial_function (option) TagList_FindLoop ::
    "tags \<Rightarrow> addr \<Rightarrow> (addr \<Rightarrow> bool) \<Rightarrow> addr option \<Rightarrow> addr option option" where
  "TagList_FindLoop h tail visitor cur =
     (if cur = Some tail then Some None
      else case cur of
             None \<Rightarrow> None
           | Some c \<Rightarrow> (if visitor c then Some (Some c)
                        else TagList_FindLoop h tail visitor (tg_next h c)))"

partial_function (option) TagList_SizeLoop ::
    "tags \<Rightarrow> addr \<Rightarrow> addr option \<Rightarrow> nat \<Rightarrow> nat option" where
  "TagList_SizeLoop h tail cur len =
     (if cur = Some tail then Some len
      else case cur of
             None \<Rightarrow> None
           | Some c \<Rightarrow> TagList_SizeLoop h tail (tg_next h c) (Suc len))"

declare TagList_FindLoop.simps [code] TagList_SizeLoop.simps [code]

definition TagList_Find :: "tag_list \<Rightarrow> addr \<Rightarrow> tags \<Rightarrow> bool option" where
  "TagList_Find l tag h = do {
     r \<leftarrow> TagList_FindLoop h (tl_tail l) (\<lambda>c. c = tag) (tg_next h (tl_head l));
     Some (r \<noteq> None)
   }"

definition TagList_FindIf :: "tag_list \<Rightarrow> (addr \<Rightarrow> bool) \<Rightarrow> tags \<Rightarrow> addr option option" where
  "TagList_FindIf l visitor h = TagList_FindLoop h (tl_tail l) visitor (tg_next h (tl_head l))"

definition TagList_GetSize :: "tag_list \<Rightarrow> tags \<Rightarrow> nat option" where
  "TagList_GetSize l h = TagList_SizeLoop h (tl_tail l) (tg_next h (tl_head l)) 0"

section \<open>Abstraction to a list of addresses\<close>

fun linked :: "tags \<Rightarrow> addr list \<Rightarrow> bool" where
  "linked h (a # b # xs) \<longleftrightarrow> tg_next h a = Some b \<and> tg_prev h b = Some a \<and> linked h (b # xs)"
| "linked h _ \<longleftrightarrow> True"

text \<open>The sentinels and the tags between them, in order.\<close>

definition tl_nodes :: "tag_list \<Rightarrow> addr list \<Rightarrow> addr list" where
  "tl_nodes l xs = tl_head l # xs @ [tl_tail l]"

definition tl_abs :: "tags \<Rightarrow> tag_list \<Rightarrow> addr list \<Rightarrow> bool" where
  "tl_abs h l xs \<longleftrightarrow> distinct (tl_nodes l xs) \<and> linked h (tl_nodes l xs)"

lemma linked_append:
  "linked h (xs @ a # ys) \<longleftrightarrow> linked h (xs @ [a]) \<and> linked h (a # ys)"
proof (induction xs)
  case (Cons x xs)
  then show ?case by (cases xs) auto
qed simp

lemma linked_frame:
  "linked h xs \<Longrightarrow> (\<And>a. a \<in> set (butlast xs) \<Longrightarrow> tg_next h' a = tg_next h a) \<Longrightarrow>
   (\<And>a. a \<in> set (tl xs) \<Longrightarrow> tg_prev h' a = tg_prev h a) \<Longrightarrow> linked h' xs"
  by (induction h xs rule: linked.induct) (auto split: if_splits)

lemma linked_split:
  "linked h (xs @ p # q # ys) \<longleftrightarrow>
     linked h (xs @ [p]) \<and> tg_next h p = Some q \<and> tg_prev h q = Some p \<and> linked h (q # ys)"
  by (subst linked_append) auto

text \<open>Inserting between two neighbours, and removing what is between two neighbours.\<close>

lemma linked_insert:
  assumes l: "linked h (xs @ p # q # ys)" and d: "distinct (xs @ p # q # ys)"
    and t: "t \<notin> set (xs @ p # q # ys)"
  shows "\<exists>h'. TagList_InsertBefore q t h = Some h' \<and> linked h' (xs @ p # t # q # ys) \<and>
           (\<forall>a. a \<notin> {p, t, q} \<longrightarrow> tg_next h' a = tg_next h a \<and> tg_prev h' a = tg_prev h a)"
proof -
  let ?h = "h\<lparr>tg_next := (tg_next h)(p := Some t, t := Some q),
              tg_prev := (tg_prev h)(t := Some p, q := Some t)\<rparr>"
  from l have s: "linked h (xs @ [p])" "tg_prev h q = Some p" "linked h (q # ys)"
    by (auto simp: linked_split)
  have "TagList_InsertBefore q t h = Some ?h"
    using s d t by (simp add: TagList_InsertBefore_def set_next_def set_prev_def)
  moreover have "linked ?h (xs @ [p])"
    by (rule linked_frame [OF s(1)]) (use d t in \<open>cases xs; auto\<close>)+
  moreover have "linked ?h (q # ys)"
    by (rule linked_frame [OF s(3)]) (use d t in \<open>auto dest: in_set_butlastD split: if_splits\<close>)+
  ultimately show ?thesis
    using d t by (auto simp: linked_split)
qed

lemma linked_detach:
  assumes l: "linked h (xs @ p # t # q # ys)" and d: "distinct (xs @ p # t # q # ys)"
  shows "\<exists>h'. Tag_Detach t h = Some h' \<and> linked h' (xs @ p # q # ys) \<and>
           (\<forall>a. a \<notin> {p, q} \<longrightarrow> tg_next h' a = tg_next h a \<and> tg_prev h' a = tg_prev h a)"
proof -
  let ?h = "h\<lparr>tg_next := (tg_next h)(p := Some q), tg_prev := (tg_prev h)(q := Some p)\<rparr>"
  from l have s: "linked h (xs @ [p])" "tg_prev h t = Some p" "tg_next h t = Some q" "linked h (q # ys)"
    by (auto simp: linked_split)
  have "Tag_Detach t h = Some ?h"
    using s d by (simp add: Tag_Detach_def set_next_def set_prev_def)
  moreover have "linked ?h (xs @ [p])"
    by (rule linked_frame [OF s(1)]) (use d in \<open>cases xs; auto\<close>)+
  moreover have "linked ?h (q # ys)"
    by (rule linked_frame [OF s(4)]) (use d in \<open>auto dest: in_set_butlastD split: if_splits\<close>)+
  ultimately show ?thesis
    using d by (auto simp: linked_split)
qed

text \<open>The tags of another list are a set that an operation does not touch.\<close>

definition same_on :: "addr set \<Rightarrow> tags \<Rightarrow> tags \<Rightarrow> bool" where
  "same_on A h h' \<longleftrightarrow> (\<forall>a\<in>A. tg_next h' a = tg_next h a \<and> tg_prev h' a = tg_prev h a)"

lemma tl_abs_frame:
  "tl_abs h l xs \<Longrightarrow> same_on (set (tl_nodes l xs)) h h' \<Longrightarrow> tl_abs h' l xs"
  unfolding tl_abs_def same_on_def
  by (auto intro!: linked_frame [of h] dest: in_set_butlastD list.set_sel(2) simp: tl_nodes_def
      split: if_splits)

lemma last_split: "\<exists>ys p. x # xs = ys @ [p]"
  by (metis append_butlast_last_id list.distinct(1))

lemma PushBack_abs:
  assumes "tl_abs h l xs" and "t \<notin> set (tl_nodes l xs)"
  shows "\<exists>h'. TagList_PushBack l t h = Some h' \<and> tl_abs h' l (xs @ [t]) \<and>
           same_on (- insert t (set (tl_nodes l xs))) h h'"
proof -
  obtain ys p where yp: "tl_head l # xs = ys @ [p]" using last_split [of "tl_head l" xs] by blast
  then have n: "tl_nodes l xs = ys @ p # tl_tail l # []"
    unfolding tl_nodes_def by (metis append_Cons append_assoc append_Nil)
  have n': "tl_nodes l (xs @ [t]) = ys @ p # t # tl_tail l # []"
    using yp unfolding tl_nodes_def by (metis append_Cons append_assoc append_Nil)
  show ?thesis
    using linked_insert [of h ys p "tl_tail l" "[]" t] assms
    unfolding TagList_PushBack_def tl_abs_def n n' same_on_def by auto
qed

lemma PushFront_abs:
  assumes "tl_abs h l xs" and "t \<notin> set (tl_nodes l xs)"
  shows "\<exists>h'. TagList_PushFront l t h = Some h' \<and> tl_abs h' l (t # xs) \<and>
           same_on (- insert t (set (tl_nodes l xs))) h h'"
proof -
  obtain q ys where n: "tl_nodes l xs = [] @ tl_head l # q # ys"
    unfolding tl_nodes_def by (cases xs) auto
  then have n': "tl_nodes l (t # xs) = [] @ tl_head l # t # q # ys"
    by (simp add: tl_nodes_def)
  from assms(1) n have "tg_next h (tl_head l) = Some q"
    by (simp add: tl_abs_def)
  then show ?thesis
    using linked_insert [of h "[]" "tl_head l" q ys t] assms
    unfolding TagList_PushFront_def tl_abs_def n n' same_on_def by auto
qed

lemma Detach_abs:
  assumes "tl_abs h l (xs @ t # ys)"
  shows "\<exists>h'. Tag_Detach t h = Some h' \<and> tl_abs h' l (xs @ ys) \<and>
           same_on (- set (tl_nodes l (xs @ ys))) h h'"
proof -
  obtain as p where l: "tl_head l # xs = as @ [p]" using last_split [of "tl_head l" xs] by blast
  obtain q bs where r: "ys @ [tl_tail l] = q # bs" by (cases ys) auto
  have n: "tl_nodes l (xs @ t # ys) = as @ p # t # q # bs"
    using l r unfolding tl_nodes_def by (metis append_Cons append_assoc append_Nil)
  have n': "tl_nodes l (xs @ ys) = as @ p # q # bs"
    using l r unfolding tl_nodes_def by (metis append_Cons append_assoc append_Nil)
  show ?thesis
    using linked_detach [of h as p t q bs] assms
    unfolding tl_abs_def n n' same_on_def by auto
qed

lemma IsEmpty_abs: "tl_abs h l xs \<Longrightarrow> TagList_IsEmpty l h \<longleftrightarrow> xs = []"
  by (cases xs) (auto simp: tl_abs_def tl_nodes_def TagList_IsEmpty_def)

lemma Pop_abs:
  assumes "tl_abs h l (t # xs)"
  shows "\<exists>h'. TagList_Pop l h = Some (t, h') \<and> tl_abs h' l xs \<and> same_on (- set (tl_nodes l xs)) h h'"
proof -
  have "tg_next h (tl_head l) = Some t" "\<not> TagList_IsEmpty l h"
    using assms by (auto simp: tl_abs_def tl_nodes_def TagList_IsEmpty_def)
  with Detach_abs [of h l "[]" t xs] assms show ?thesis
    by (auto simp: TagList_Pop_def)
qed

lemma Init_abs:
  "tl_head l \<noteq> tl_tail l \<Longrightarrow>
   tl_abs (TagList_Init l h) l [] \<and> same_on (- {tl_head l, tl_tail l}) h (TagList_Init l h)"
  by (simp add: tl_abs_def tl_nodes_def TagList_Init_def same_on_def)

lemma FindLoop_eq:
  assumes "linked h (xs @ [e])" and "e \<notin> set xs"
  shows "TagList_FindLoop h e v (Some (hd (xs @ [e]))) = Some (find v xs)"
  using assms
proof (induction xs)
  case (Cons x xs)
  then have "tg_next h x = Some (hd (xs @ [e]))" "linked h (xs @ [e])"
    by (cases xs; auto)+
  with Cons show ?case by (subst TagList_FindLoop.simps) auto
qed (subst TagList_FindLoop.simps, simp)

lemma SizeLoop_eq:
  assumes "linked h (xs @ [e])" and "e \<notin> set xs"
  shows "TagList_SizeLoop h e (Some (hd (xs @ [e]))) n = Some (n + length xs)"
  using assms
proof (induction xs arbitrary: n)
  case (Cons x xs)
  then have "tg_next h x = Some (hd (xs @ [e]))" "linked h (xs @ [e])"
    by (cases xs; auto)+
  with Cons show ?case by (subst TagList_SizeLoop.simps) auto
qed (subst TagList_SizeLoop.simps, simp)

lemma tl_abs_walk:
  assumes "tl_abs h l xs"
  shows "tg_next h (tl_head l) = Some (hd (xs @ [tl_tail l]))" "linked h (xs @ [tl_tail l])"
    "tl_tail l \<notin> set xs"
  using assms by (cases xs; auto simp: tl_abs_def tl_nodes_def)+

lemma FindIf_abs: "tl_abs h l xs \<Longrightarrow> TagList_FindIf l v h = Some (find v xs)"
  by (simp add: TagList_FindIf_def tl_abs_walk FindLoop_eq)

lemma Find_abs: "tl_abs h l xs \<Longrightarrow> TagList_Find l t h = Some (t \<in> set xs)"
  by (auto simp: TagList_Find_def tl_abs_walk FindLoop_eq find_None_iff simp del: not_None_eq)

lemma GetSize_abs: "tl_abs h l xs \<Longrightarrow> TagList_GetSize l h = Some (length xs)"
  by (simp add: TagList_GetSize_def tl_abs_walk SizeLoop_eq)

section \<open>The contract of a queue of tags\<close>

text \<open>
  What the thread queues, the waiters and the free-block lists rely on, whatever the store is.
  \<open>own\<close> gives the addresses a list occupies; \<open>frame A\<close> says that two stores agree on \<open>A\<close>.
\<close>

fun push_all :: "('l \<Rightarrow> addr \<Rightarrow> 'h \<Rightarrow> 'h option) \<Rightarrow> 'l \<Rightarrow> addr list \<Rightarrow> 'h \<Rightarrow> 'h option" where
  "push_all push l [] h = Some h"
| "push_all push l (t # ts) h = do { h \<leftarrow> push l t h; push_all push l ts h }"

fun pop_n :: "('l \<Rightarrow> 'h \<Rightarrow> (addr \<times> 'h) option) \<Rightarrow> 'l \<Rightarrow> nat \<Rightarrow> 'h \<Rightarrow> (addr list \<times> 'h) option" where
  "pop_n pop l 0 h = Some ([], h)"
| "pop_n pop l (Suc n) h = do {
     (t, h) \<leftarrow> pop l h;
     (ts, h) \<leftarrow> pop_n pop l n h;
     Some (t # ts, h)
   }"

locale tag_queue =
  fixes abs :: "'h \<Rightarrow> 'l \<Rightarrow> addr list \<Rightarrow> bool"
    and own :: "'l \<Rightarrow> addr list \<Rightarrow> addr list"
    and frame :: "addr set \<Rightarrow> 'h \<Rightarrow> 'h \<Rightarrow> bool"
    and push_back push_front :: "'l \<Rightarrow> addr \<Rightarrow> 'h \<Rightarrow> 'h option"
    and detach :: "addr \<Rightarrow> 'h \<Rightarrow> 'h option"
    and pop :: "'l \<Rightarrow> 'h \<Rightarrow> (addr \<times> 'h) option"
    and is_empty :: "'l \<Rightarrow> 'h \<Rightarrow> bool"
  assumes own_set: "t \<in> set (own l (xs @ ys)) \<longleftrightarrow> t \<in> set (own l xs) \<or> t \<in> set ys"
    and frame_abs: "abs h l xs \<Longrightarrow> frame (set (own l xs)) h h' \<Longrightarrow> abs h' l xs"
    and frame_refl: "frame A h h"
    and frame_trans: "frame A h h' \<Longrightarrow> frame A h' h'' \<Longrightarrow> frame A h h''"
    and frame_mono: "frame A h h' \<Longrightarrow> B \<subseteq> A \<Longrightarrow> frame B h h'"
    and push_back: "abs h l xs \<Longrightarrow> t \<notin> set (own l xs) \<Longrightarrow>
          \<exists>h'. push_back l t h = Some h' \<and> abs h' l (xs @ [t]) \<and>
               frame (- insert t (set (own l xs))) h h'"
    and push_front: "abs h l xs \<Longrightarrow> t \<notin> set (own l xs) \<Longrightarrow>
          \<exists>h'. push_front l t h = Some h' \<and> abs h' l (t # xs) \<and>
               frame (- insert t (set (own l xs))) h h'"
    and detach: "abs h l (xs @ t # ys) \<Longrightarrow>
          \<exists>h'. detach t h = Some h' \<and> abs h' l (xs @ ys) \<and> frame (- set (own l (xs @ ys))) h h'"
    and pop: "abs h l (t # xs) \<Longrightarrow>
          \<exists>h'. pop l h = Some (t, h') \<and> abs h' l xs \<and> frame (- set (own l xs)) h h'"
    and is_empty: "abs h l xs \<Longrightarrow> is_empty l h \<longleftrightarrow> xs = []"
begin

lemma push_all_back:
  "abs h l xs \<Longrightarrow> distinct ts \<Longrightarrow> set ts \<inter> set (own l xs) = {} \<Longrightarrow>
   \<exists>h'. push_all push_back l ts h = Some h' \<and> abs h' l (xs @ ts) \<and>
        frame (- (set ts \<union> set (own l xs))) h h'"
proof (induction ts arbitrary: h xs)
  case Nil
  then show ?case by (simp add: frame_refl)
next
  case (Cons t ts)
  then obtain h1 where h1: "push_back l t h = Some h1" "abs h1 l (xs @ [t])"
    "frame (- insert t (set (own l xs))) h h1"
    using push_back [of h l xs t] by auto
  have own1: "set (own l (xs @ [t])) = insert t (set (own l xs))"
    using own_set by auto
  obtain h2 where h2: "push_all push_back l ts h1 = Some h2" "abs h2 l (xs @ [t] @ ts)"
    "frame (- (set ts \<union> set (own l (xs @ [t])))) h1 h2"
    using Cons.IH [OF h1(2)] Cons.prems own1 by auto
  have "frame (- (set (t # ts) \<union> set (own l xs))) h h2"
    by (rule frame_trans; rule frame_mono, (rule h1(3) h2(3))) (auto simp: own1)
  with h1 h2 show ?case by auto
qed

lemma pop_n_all:
  "abs h l (ts @ xs) \<Longrightarrow> \<exists>h'. pop_n pop l (length ts) h = Some (ts, h') \<and> abs h' l xs"
proof (induction ts arbitrary: h)
  case (Cons t ts)
  with pop [of h l t "ts @ xs"] show ?case by fastforce
qed simp

lemma push_other:
  assumes "abs h l xs" "abs h m ys" "t \<notin> set (own l xs)" "t \<notin> set (own m ys)"
    and "set (own l xs) \<inter> set (own m ys) = {}"
  shows "\<exists>h'. push_back l t h = Some h' \<and> abs h' l (xs @ [t]) \<and> abs h' m ys"
proof -
  from push_back assms(1,3) obtain h' where h': "push_back l t h = Some h'" "abs h' l (xs @ [t])"
    "frame (- insert t (set (own l xs))) h h'" by blast
  have "frame (set (own m ys)) h h'"
    by (rule frame_mono [OF h'(3)]) (use assms(4,5) in auto)
  with h' frame_abs [OF assms(2)] show ?thesis by blast
qed

text \<open>Moving the first tag of one list to the end of another, as the scheduler and a semaphore do.\<close>

lemma pop_push:
  assumes "abs h l (t # xs)" "abs h m ys" "set (own l (t # xs)) \<inter> set (own m ys) = {}"
    and "t \<notin> set (own l xs)" "set (own l xs) \<subseteq> set (own l (t # xs))" "t \<in> set (own l (t # xs))"
  shows "\<exists>h1 h2. pop l h = Some (t, h1) \<and> push_back m t h1 = Some h2 \<and> abs h2 l xs \<and> abs h2 m (ys @ [t])"
proof -
  from pop [OF assms(1)] obtain h1 where h1: "pop l h = Some (t, h1)" "abs h1 l xs"
    "frame (- set (own l xs)) h h1" by blast
  have "frame (set (own m ys)) h h1"
    by (rule frame_mono [OF h1(3)]) (use assms(3,5) in auto)
  then have "abs h1 m ys" by (rule frame_abs [OF assms(2)])
  moreover have "t \<notin> set (own m ys)" using assms(3,6) by auto
  ultimately show ?thesis
    using push_other [of h1 m ys l xs t] h1(1,2) assms(3-5) by auto
qed

end

lemma tl_nodes_set: "set (tl_nodes l xs) = {tl_head l, tl_tail l} \<union> set xs"
  by (auto simp: tl_nodes_def)

interpretation tq: tag_queue tl_abs tl_nodes same_on TagList_PushBack TagList_PushFront Tag_Detach
  TagList_Pop TagList_IsEmpty
proof
  show "tl_abs h l xs \<Longrightarrow> same_on (set (tl_nodes l xs)) h h' \<Longrightarrow> tl_abs h' l xs" for h l xs h'
    by (rule tl_abs_frame)
qed (auto simp: same_on_def tl_nodes_set IsEmpty_abs
      dest: PushBack_abs PushFront_abs Detach_abs Pop_abs)

section \<open>Properties\<close>

text \<open>
  C31: First in, first out on the pointer level: on a well-linked list that holds \<open>xs\<close>, pushing
  fresh distinct tags \<open>ts\<close> with \<^verbatim>\<open>PushBack\<close> and then popping as many tags as the list holds returns
  \<open>xs\<close> followed by \<open>ts\<close>, without a null dereference or a failed assertion, and leaves the list
  well linked and empty; \<^verbatim>\<open>GetSize\<close> in between terminates with the number of tags.
\<close>

theorem TagList_fifo:
  assumes "tl_abs h l xs" and "distinct ts" and "set ts \<inter> set (tl_nodes l xs) = {}"
  shows "\<exists>h1 h2. push_all TagList_PushBack l ts h = Some h1 \<and>
           TagList_GetSize l h1 = Some (length xs + length ts) \<and>
           pop_n TagList_Pop l (length xs + length ts) h1 = Some (xs @ ts, h2) \<and>
           tl_abs h2 l [] \<and> TagList_IsEmpty l h2"
proof -
  from tq.push_all_back [OF assms] obtain h1
    where h1: "push_all TagList_PushBack l ts h = Some h1" "tl_abs h1 l (xs @ ts)" by blast
  with tq.pop_n_all [of h1 l "xs @ ts" "[]"] GetSize_abs [OF h1(2)] show ?thesis
    by (auto simp: IsEmpty_abs)
qed

definition empty_tags :: tags where
  "empty_tags = \<lparr>tg_prev = (\<lambda>_. None), tg_next = (\<lambda>_. None)\<rparr>"

theorem TagList_fifo_witness:
  "\<exists>h1 h2. push_all TagList_PushBack \<lparr>tl_head = 0, tl_tail = 1\<rparr> [7, 5]
             (TagList_Init \<lparr>tl_head = 0, tl_tail = 1\<rparr> empty_tags) = Some h1 \<and>
           pop_n TagList_Pop \<lparr>tl_head = 0, tl_tail = 1\<rparr> 2 h1 = Some ([7, 5], h2)"
  using TagList_fifo [of "TagList_Init \<lparr>tl_head = 0, tl_tail = 1\<rparr> empty_tags"
      "\<lparr>tl_head = 0, tl_tail = 1\<rparr>" "[]" "[7, 5]"] Init_abs [of "\<lparr>tl_head = 0, tl_tail = 1\<rparr>" empty_tags]
  by (fastforce simp: tl_nodes_def numeral_2_eq_2)

text \<open>
  A tag anywhere in a list can be detached in one step: the list loses exactly that tag and
  keeps the order of the others, and any other list of the same store that shares no tag with it
  is unchanged.
\<close>

theorem Tag_Detach_frame:
  assumes "tl_abs h l (xs @ t # ys)" and "tl_abs h m zs"
    and "set (tl_nodes l (xs @ t # ys)) \<inter> set (tl_nodes m zs) = {}"
  shows "\<exists>h'. Tag_Detach t h = Some h' \<and> tl_abs h' l (xs @ ys) \<and> tl_abs h' m zs \<and>
           TagList_Find l t h' = Some False"
proof -
  from Detach_abs [OF assms(1)] obtain h' where h': "Tag_Detach t h = Some h'" "tl_abs h' l (xs @ ys)"
    "same_on (- set (tl_nodes l (xs @ ys))) h h'" by blast
  have "set (tl_nodes m zs) \<subseteq> - set (tl_nodes l (xs @ ys))"
    using assms(3) by (auto simp: tl_nodes_set)
  then have "tl_abs h' m zs"
    using h'(3) by (intro tl_abs_frame [OF assms(2)]) (auto simp: same_on_def)
  moreover have "t \<notin> set (xs @ ys)"
    using assms(1) by (auto simp: tl_abs_def tl_nodes_def)
  ultimately show ?thesis using h' by (auto simp: Find_abs)
qed

definition two_lists :: tags where
  "two_lists = \<lparr>tg_prev = (\<lambda>_. None)(1 := Some 5, 5 := Some 0, 3 := Some 6, 6 := Some 2),
                tg_next = (\<lambda>_. None)(0 := Some 5, 5 := Some 1, 2 := Some 6, 6 := Some 3)\<rparr>"

theorem Tag_Detach_frame_witness:
  "\<exists>h'. Tag_Detach 5 two_lists = Some h' \<and> tl_abs h' \<lparr>tl_head = 0, tl_tail = 1\<rparr> [] \<and>
        tl_abs h' \<lparr>tl_head = 2, tl_tail = 3\<rparr> [6]"
  using Tag_Detach_frame [of two_lists "\<lparr>tl_head = 0, tl_tail = 1\<rparr>" "[]" 5 "[]"
      "\<lparr>tl_head = 2, tl_tail = 3\<rparr>" "[6]"]
  by (fastforce simp: tl_abs_def tl_nodes_def two_lists_def)

end
