(* ===== verification/Formats.thy ===== *)
theory Formats
  imports Strings
begin

text \<open>
  String formatting, \<^verbatim>\<open>src/kernel/util/format.cpp\<close> and the templates of
  \<^verbatim>\<open>include/kernel/util/format.h\<close>. A \<^verbatim>\<open>char*\<close> into a buffer is the buffer and an offset; storing
  behind the end of the buffer has no result. The variadic arguments are a list of tagged values,
  one constructor per overload of \<^verbatim>\<open>Format\<close>. The theorems relate the code to a reference
  expansion of the format text and show that printing a number loses nothing.
\<close>

section \<open>Numbers\<close>

definition put_char :: "char list \<Rightarrow> nat \<Rightarrow> char \<Rightarrow> char list option" where
  "put_char buf i c = (if i < length buf then Some (buf[i := c]) else None)"

definition digit_char :: "nat \<Rightarrow> char" where
  "digit_char digit =
     (if digit < 10 then char_of (digit + of_char (CHR ''0''))
      else char_of (digit - 10 + of_char (CHR ''A'')))"

text \<open>
  Division by a zero base faults, and base one recurses for ever on a positive number; both have no
  result.
\<close>

function ConvertUIntToString :: "char list \<Rightarrow> nat \<Rightarrow> nat \<Rightarrow> nat \<Rightarrow> (nat \<times> char list) option" where
  "ConvertUIntToString buf off num base =
     (if base = 0 \<or> base = 1 \<and> num > 0 then None
      else do {
        let digit = num mod base;
        let remain = num div base;
        (len, buf) \<leftarrow> (if remain > 0 then ConvertUIntToString buf off remain base else Some (0, buf));
        buf \<leftarrow> put_char buf (off + len) (digit_char digit);
        buf \<leftarrow> put_char buf (off + len + 1) NUL;
        Some (len + 1, buf)
      })"
  by pat_completeness auto
termination
  by (relation "measure (\<lambda>(buf, off, num, base). num)")
    (auto simp: div_greater_zero_iff intro!: div_less_dividend)

declare ConvertUIntToString.simps [simp del]

text \<open>\<^verbatim>\<open>int32_t\<close> is the signed reading of a 32-bit word; \<^verbatim>\<open>-num\<close> wraps.\<close>

definition ConvertIntToString :: "char list \<Rightarrow> nat \<Rightarrow> u32 \<Rightarrow> nat \<Rightarrow> (nat \<times> char list) option" where
  "ConvertIntToString buf off num base =
     (if sint num < 0 then do {
        buf \<leftarrow> put_char buf off (CHR ''-'');
        (n, buf) \<leftarrow> ConvertUIntToString buf (off + 1) (unat (- num)) base;
        Some (n + 1, buf)
      }
      else ConvertUIntToString buf off (unat num) base)"

section \<open>Format strings\<close>

datatype fmt_arg =
    FmtUInt u32
  | FmtInt u32
  | FmtChar char
  | FmtStr "char list"
  | FmtView string_view

definition strcpy_at :: "char list \<Rightarrow> nat \<Rightarrow> char list \<Rightarrow> char list option" where
  "strcpy_at buf off src = map_option (\<lambda>t. take off buf @ t) (strcpy (drop off buf) src)"

definition Format_view :: "char list \<Rightarrow> nat \<Rightarrow> string_view \<Rightarrow> (nat \<times> char list) option" where
  "Format_view buf off str = do {
     Assert (\<not> sv_empty str);
     s \<leftarrow> sv_str str;
     buf \<leftarrow> strcpy_at buf off s;
     Some (sv_len str, buf)
   }"

fun Format :: "char list \<Rightarrow> nat \<Rightarrow> fmt_arg \<Rightarrow> (nat \<times> char list) option" where
  "Format buf off (FmtUInt num) = ConvertUIntToString buf off (unat num) 10"
| "Format buf off (FmtInt num) = ConvertIntToString buf off num 10"
| "Format buf off (FmtChar ch) = do { buf \<leftarrow> put_char buf off ch; Some (1, buf) }"
| "Format buf off (FmtStr str) = do {
     buf \<leftarrow> strcpy_at buf off str;
     n \<leftarrow> strlen str;
     Some (n, buf)
   }"
| "Format buf off (FmtView str) = Format_view buf off str"

text \<open>
  The two overloads of \<^verbatim>\<open>_format_string_buffer_impl::FormatStringBuffer\<close>: without arguments the rest
  of the format is copied, with arguments the loop runs from index \<open>i\<close> with \<open>len\<close> characters written.
\<close>

definition placeholder_at :: "string_view \<Rightarrow> nat \<Rightarrow> bool option" where
  "placeholder_at f i = do {
     c \<leftarrow> sv_at f i;
     if c = CHR ''{'' \<and> i + 1 \<noteq> sv_len f
     then do { d \<leftarrow> sv_at f (i + 1); Some (d = CHR ''}'') }
     else Some False
   }"

function FormatLoop ::
    "char list \<Rightarrow> nat \<Rightarrow> string_view \<Rightarrow> fmt_arg list \<Rightarrow> nat \<Rightarrow> nat \<Rightarrow> (nat \<times> char list) option" where
  "FormatLoop buf off f [] i len = (if \<not> sv_empty f then Format_view buf off f else Some (0, buf))"
| "FormatLoop buf off f (arg # args) i len =
     (if i < sv_len f then
        case placeholder_at f i of
          None \<Rightarrow> None
        | Some True \<Rightarrow>
            (case Format buf (off + len) arg of
               None \<Rightarrow> None
             | Some (n, buf) \<Rightarrow>
                 (case FormatLoop buf (off + len + n) (sv_substr f (i + 2) npos) args 0 0 of
                    None \<Rightarrow> None
                  | Some (m, buf) \<Rightarrow> Some (len + n + m, buf)))
        | Some False \<Rightarrow>
            (case do { c \<leftarrow> sv_at f i; put_char buf (off + len) c } of
               None \<Rightarrow> None
             | Some buf \<Rightarrow> FormatLoop buf off f (arg # args) (Suc i) (Suc len))
      else Some (len, buf))"
  by pat_completeness auto
termination
  by (relation "inv_image (less_than <*lex*> less_than)
        (\<lambda>(buf, off, f, args, i, len). (length args, sv_len f - i))") auto

definition FormatStringBuffer :: "char list \<Rightarrow> string_view \<Rightarrow> fmt_arg list \<Rightarrow> (nat \<times> char list) option" where
  "FormatStringBuffer buf f args = do {
     Assert (\<not> sv_empty f);
     FormatLoop buf 0 f args 0 0
   }"

section \<open>Digits\<close>

text \<open>The reference: the digits of a number, most significant first, and their value.\<close>

function digits :: "nat \<Rightarrow> nat \<Rightarrow> nat list" where
  "digits b n = (if n < b \<or> b < 2 then [n] else digits b (n div b) @ [n mod b])"
  by pat_completeness auto
termination
  by (relation "measure snd") (auto intro: div_less_dividend)

declare digits.simps [simp del]

definition digits_value :: "nat \<Rightarrow> nat list \<Rightarrow> nat" where
  "digits_value b ds = foldl (\<lambda>a d. a * b + d) 0 ds"

definition char_digit :: "char \<Rightarrow> nat" where
  "char_digit c = (let k = of_char c in if k < of_char (CHR ''A'') then k - of_char (CHR ''0'')
                   else k - of_char (CHR ''A'') + 10)"

lemma digits_value: "digits_value b (digits b n) = n"
proof (induction b n rule: digits.induct)
  case (1 b n)
  then show ?case
    by (subst digits.simps) (auto simp: digits_value_def)
qed

lemma digits_less: "2 \<le> b \<Longrightarrow> d \<in> set (digits b n) \<Longrightarrow> d < b"
proof (induction b n rule: digits.induct)
  case (1 b n)
  then show ?case
    by (auto simp: digits.simps [of b n] split: if_splits)
qed

lemma digits_length: "2 \<le> b \<Longrightarrow> 0 < k \<Longrightarrow> n < b ^ k \<Longrightarrow> length (digits b n) \<le> k"
proof (induction b n arbitrary: k rule: digits.induct)
  case (1 b n)
  show ?case
  proof (cases "n < b")
    case True
    with "1.prems" show ?thesis by (subst digits.simps) auto
  next
    case False
    with "1.prems" obtain j where k: "k = Suc j" "0 < j"
      by (metis One_nat_def gr0_implies_Suc neq0_conv power_one_right)
    moreover from "1.prems"(3) k have "n div b < b ^ j"
      by (simp add: less_mult_imp_div_less mult.commute)
    ultimately have "length (digits b (n div b)) \<le> j"
      using 1 False by simp
    with False k "1.prems"(1) show ?thesis by (subst digits.simps) auto
  qed
qed

lemma char_digit_char: "d < 36 \<Longrightarrow> char_digit (digit_char d) = d"
  by (auto simp: char_digit_def digit_char_def Let_def of_char_of)

lemma digit_char_not_NUL: "d < 36 \<Longrightarrow> digit_char d \<noteq> NUL"
  by (auto simp: digit_char_def of_char_of simp flip: of_char_eq_iff [where 'a = nat])

lemma put_snoc:
  assumes "off + length cs + 1 < length buf"
  shows "(overwrite buf off (cs @ [NUL]))[off + length cs := c, Suc (off + length cs) := NUL] =
           overwrite buf off (cs @ [c, NUL])"
proof (rule nth_equalityI)
  fix i assume "i < length ((overwrite buf off (cs @ [NUL]))
      [off + length cs := c, Suc (off + length cs) := NUL])"
  then have "i < length buf" using assms by (simp add: length_overwrite)
  with assms show "(overwrite buf off (cs @ [NUL]))[off + length cs := c, Suc (off + length cs) := NUL] ! i =
      overwrite buf off (cs @ [c, NUL]) ! i"
    by (cases "i < off + length cs")
      (auto simp: nth_overwrite nth_list_update length_overwrite nth_append nth_Cons')
qed (use assms in \<open>simp add: length_overwrite\<close>)

lemma UIntToString_eq:
  assumes "2 \<le> b" and "off + length (digits b n) < length buf"
  shows "ConvertUIntToString buf off n b =
           Some (length (digits b n), overwrite buf off (map digit_char (digits b n) @ [NUL]))"
  using assms
proof (induction b n rule: digits.induct)
  case (1 b n)
  show ?case
  proof (cases "n < b")
    case True
    then have d: "digits b n = [n]" by (subst digits.simps) simp
    with 1 True show ?thesis
      by (subst ConvertUIntToString.simps)
        (auto simp: put_char_def overwrite_def list_eq_iff_nth_eq nth_list_update nth_append nth_Cons'
          intro!: arg_cong [of _ _ "nth buf"])
  next
    case False
    have d: "digits b n = digits b (n div b) @ [n mod b]"
      using False "1.prems" by (subst digits.simps) auto
    have rec: "ConvertUIntToString buf off (n div b) b =
        Some (length (digits b (n div b)),
              overwrite buf off (map digit_char (digits b (n div b)) @ [NUL]))"
      using 1 False d by simp
    show ?thesis
      using False "1.prems" d
      using put_snoc [of off "map digit_char (digits b (n div b))" buf "digit_char (n mod b)"]
      by (subst ConvertUIntToString.simps)
        (simp add: rec put_char_def div_greater_zero_iff length_overwrite Let_def)
  qed
qed

section \<open>Composing what is written\<close>

text \<open>
  \<open>written buf buf' p txt\<close>: the text was stored at \<open>p\<close>, nothing before it changed and nothing
  behind it but at most one terminator.
\<close>

definition written :: "char list \<Rightarrow> char list \<Rightarrow> nat \<Rightarrow> char list \<Rightarrow> bool" where
  "written buf buf' p txt \<longleftrightarrow> length buf' = length buf \<and>
     take (p + length txt) buf' = take p buf @ txt \<and>
     drop (Suc (p + length txt)) buf' = drop (Suc (p + length txt)) buf"

lemma written_Nil: "p \<le> length buf \<Longrightarrow> written buf buf p []"
  by (simp add: written_def)

lemma take_lt_len: "take k xs = take k' ys @ zs \<Longrightarrow> k \<le> length xs \<Longrightarrow> k' \<le> length ys \<Longrightarrow> k = k' + length zs"
  by (metis length_append length_take min.absorb2)

lemma written_append:
  assumes "written a b p s" and "written b c (p + length s) t" and "p + length s + length t \<le> length a"
  shows "written a c p (s @ t)"
proof -
  have "take (p + length s + length t) c = take (p + length s) b @ t"
    using assms(2) by (simp add: written_def)
  then have "take (p + length (s @ t)) c = take p a @ s @ t"
    using assms(1) by (simp add: written_def add.assoc)
  moreover have "drop (length t) (drop (Suc (p + length s)) b) = drop (length t) (drop (Suc (p + length s)) a)"
    using assms(1) by (simp only: written_def)
  then have "drop (Suc (p + length (s @ t))) c = drop (Suc (p + length (s @ t))) a"
    using assms(2) by (simp add: written_def add.assoc add.commute [of "length t"])
  ultimately show ?thesis
    using assms(1,2) by (simp add: written_def)
qed

lemma written_put:
  "p < length buf \<Longrightarrow> \<exists>buf'. put_char buf p c = Some buf' \<and> written buf buf' p [c]"
  by (simp add: put_char_def written_def take_Suc_conv_app_nth)

lemma written_overwrite:
  assumes "p + length txt < length buf"
  shows "written buf (overwrite buf p (txt @ [NUL])) p txt"
  using assms by (auto simp: written_def overwrite_def)

lemma written_strcpy:
  assumes "NUL \<in> set s" and "p + length (cstr s) < length buf"
  shows "\<exists>buf'. strcpy_at buf p s = Some buf' \<and> written buf buf' p (cstr s)"
proof -
  have "strcpy (drop p buf) s = Some (overwrite (drop p buf) 0 (cstr s @ [NUL]))"
    using assms by (intro strcpy_eq) auto
  then have "strcpy_at buf p s = Some (overwrite buf p (cstr s @ [NUL]))"
    using assms by (simp add: strcpy_at_def overwrite_def add.commute add.left_commute)
  with written_overwrite assms(2) show ?thesis by blast
qed

lemma Format_view_written:
  assumes "sv_str v = Some s" "NUL \<in> set s" "sv_len v = length (cstr s)" "cstr s \<noteq> []"
    and "p + length (cstr s) < length buf"
  shows "\<exists>buf'. Format_view buf p v = Some (length (cstr s), buf') \<and> written buf buf' p (cstr s)"
proof -
  from written_strcpy [OF assms(2,5)] obtain buf'
    where "strcpy_at buf p s = Some buf'" "written buf buf' p (cstr s)" by blast
  with assms show ?thesis by (simp add: Format_view_def sv_empty_def)
qed

lemma UIntToString_written:
  "2 \<le> b \<Longrightarrow> p + length (digits b n) < length buf \<Longrightarrow>
   \<exists>buf'. ConvertUIntToString buf p n b = Some (length (digits b n), buf') \<and>
          written buf buf' p (map digit_char (digits b n))"
  by (simp add: UIntToString_eq written_overwrite)

definition int_text :: "u32 \<Rightarrow> nat \<Rightarrow> char list" where
  "int_text num b = (if sint num < 0 then CHR ''-'' # map digit_char (digits b (unat (- num)))
                     else map digit_char (digits b (unat num)))"

lemma IntToString_written:
  assumes "2 \<le> b" "p + length (int_text num b) < length buf"
  shows "\<exists>buf'. ConvertIntToString buf p num b = Some (length (int_text num b), buf') \<and>
           written buf buf' p (int_text num b)"
proof (cases "sint num < 0")
  case True
  from assms have "p < length buf" by simp
  then obtain b1 where b1: "put_char buf p (CHR ''-'') = Some b1" "written buf b1 p [CHR ''-'']"
    using written_put by blast
  then have "Suc p + length (digits b (unat (- num))) < length b1"
    using assms True by (simp add: int_text_def written_def)
  with assms(1) obtain b2 where b2: "ConvertUIntToString b1 (Suc p) (unat (- num)) b =
      Some (length (digits b (unat (- num))), b2)"
    "written b1 b2 (Suc p) (map digit_char (digits b (unat (- num))))"
    using UIntToString_written by blast
  with b1 have "written buf b2 p (int_text num b)"
    using written_append [OF b1(2)] assms True by (simp add: int_text_def)
  with True b1 b2 show ?thesis by (simp add: ConvertIntToString_def int_text_def)
next
  case False
  with assms UIntToString_written show ?thesis
    by (simp add: ConvertIntToString_def int_text_def)
qed

section \<open>The expansion of a format text\<close>

fun arg_text :: "fmt_arg \<Rightarrow> char list" where
  "arg_text (FmtUInt num) = map digit_char (digits 10 (unat num))"
| "arg_text (FmtInt num) = int_text num 10"
| "arg_text (FmtChar ch) = [ch]"
| "arg_text (FmtStr str) = cstr str"
| "arg_text (FmtView v) = (case sv_str v of None \<Rightarrow> [] | Some s \<Rightarrow> cstr s)"

fun arg_ok :: "fmt_arg \<Rightarrow> bool" where
  "arg_ok (FmtStr str) \<longleftrightarrow> NUL \<in> set str"
| "arg_ok (FmtView v) \<longleftrightarrow>
     (case sv_str v of None \<Rightarrow> False
      | Some s \<Rightarrow> NUL \<in> set s \<and> sv_len v = length (cstr s) \<and> 0 < sv_len v)"
| "arg_ok _ \<longleftrightarrow> True"

fun expand :: "char list \<Rightarrow> fmt_arg list \<Rightarrow> char list" where
  "expand t [] = t"
| "expand [] (a # as) = []"
| "expand [c] (a # as) = [c]"
| "expand (c # d # t) (a # as) =
     (if c = CHR ''{'' \<and> d = CHR ''}'' then arg_text a @ expand t as
      else c # expand (d # t) (a # as))"

lemma Format_written:
  assumes "arg_ok a" "p + length (arg_text a) < length buf"
  shows "\<exists>buf'. Format buf p a = Some (length (arg_text a), buf') \<and> written buf buf' p (arg_text a)"
proof (cases a)
  case (FmtChar c)
  with assms written_put [of p buf c] show ?thesis by auto
next
  case (FmtStr s)
  with assms written_strcpy [of s p buf] show ?thesis by (auto simp: strlen_cstr)
next
  case (FmtView v)
  with assms show ?thesis
    using Format_view_written [of v _ p buf] by (auto split: option.splits)
qed (use assms UIntToString_written IntToString_written in auto)

lemma drop_two: "Suc i < length t \<Longrightarrow> drop i t = t ! i # t ! Suc i # drop (i + 2) t"
  by (simp add: Cons_nth_drop_Suc)

lemma placeholder_text:
  assumes "sv_text f t" "i < length t"
  shows "placeholder_at f i =
           Some (t ! i = CHR ''{'' \<and> Suc i < length t \<and> t ! Suc i = CHR ''}'')"
proof -
  from assms(2) have "t \<noteq> []" by auto
  with sv_text_at(1) [OF assms(1)] assms show ?thesis
    by (auto simp: placeholder_at_def sv_text_def)
qed

lemma expand_step:
  assumes "i < length t"
  shows "expand (drop i t) (a # as) =
    (if t ! i = CHR ''{'' \<and> Suc i < length t \<and> t ! Suc i = CHR ''}''
     then arg_text a @ expand (drop (i + 2) t) as
     else t ! i # expand (drop (Suc i) t) (a # as))"
proof (cases "Suc i < length t")
  case True
  then have "drop (Suc i) t = t ! Suc i # drop (i + 2) t"
    using Cons_nth_drop_Suc [of "Suc i" t] by simp
  with True drop_two [OF True] show ?thesis by (simp only: expand.simps) auto
next
  case False
  with assms have "drop i t = [t ! i]" "drop (Suc i) t = []"
    using Cons_nth_drop_Suc [of i t] by auto
  with False show ?thesis by simp
qed

lemma FormatLoop_written:
  assumes "sv_text f t" "length t < npos" "i \<le> length t" "list_all arg_ok args"
    and "args = [] \<longrightarrow> i = 0 \<and> len = 0"
    and "off + len + length (expand (drop i t) args) < length buf"
  shows "\<exists>buf'. FormatLoop buf off f args i len = Some (len + length (expand (drop i t) args), buf') \<and>
           written buf buf' (off + len) (expand (drop i t) args)"
  using assms
proof (induction buf off f args i len arbitrary: t rule: FormatLoop.induct)
  case (1 buf off f i len)
  then show ?case
    using Format_view_written [of f _ off buf]
    by (cases "t = []") (auto simp: sv_text_def written_Nil sv_empty_def)
next
  case (2 buf off f arg args i len)
  show ?case
  proof (cases "i < length t")
    case False
    with "2.prems" show ?thesis by (simp add: sv_text_def written_Nil)
  next
    case lt: True
    then have lf: "i < sv_len f" and ne: "t \<noteq> []" using "2.prems"(1) by (auto simp: sv_text_def)
    show ?thesis
    proof (cases "t ! i = CHR ''{'' \<and> Suc i < length t \<and> t ! Suc i = CHR ''}''")
      case True
      then have ph: "placeholder_at f i = Some True"
        using placeholder_text [OF "2.prems"(1) lt] by simp
      let ?rest = "expand (drop (i + 2) t) args"
      have ex: "expand (drop i t) (arg # args) = arg_text arg @ ?rest"
        using expand_step [OF lt] True by simp
      obtain b1 where b1: "Format buf (off + len) arg = Some (length (arg_text arg), b1)"
        "written buf b1 (off + len) (arg_text arg)"
        using Format_written [of arg "off + len" buf] "2.prems" ex by auto
      moreover have "\<exists>b2. FormatLoop b1 (off + len + length (arg_text arg)) (sv_substr f (i + 2) npos) args 0 0
          = Some (0 + length (expand (drop 0 (drop (i + 2) t)) args), b2) \<and>
          written b1 b2 (off + len + length (arg_text arg) + 0) (expand (drop 0 (drop (i + 2) t)) args)"
        by (rule "2.IH"(1) [OF lf ph _ b1(1) refl])
          (use "2.prems" ex b1(2) in \<open>auto intro: sv_substr_text simp: written_def\<close>)
      ultimately show ?thesis
        using lf ph ex written_append [OF b1(2)] "2.prems"(6) by fastforce
    next
      case False
      then have ph: "placeholder_at f i = Some False"
        using placeholder_text [OF "2.prems"(1) lt] by simp
      have ex: "expand (drop i t) (arg # args) = t ! i # expand (drop (Suc i) t) (arg # args)"
        using expand_step [OF lt, of arg args] False by auto
      have "off + len < length buf" using "2.prems"(6) by simp
      then obtain b1 where b1: "put_char buf (off + len) (t ! i) = Some b1"
        "written buf b1 (off + len) [t ! i]"
        using written_put by blast
      have st: "(do { c \<leftarrow> sv_at f i; put_char buf (off + len) c }) = Some b1"
        using sv_text_at(1) [OF "2.prems"(1) ne lt] b1 by simp
      have "\<exists>b2. FormatLoop b1 off f (arg # args) (Suc i) (Suc len)
          = Some (Suc len + length (expand (drop (Suc i) t) (arg # args)), b2) \<and>
          written b1 b2 (off + Suc len) (expand (drop (Suc i) t) (arg # args))"
        by (rule "2.IH"(2) [OF lf ph _ st]) (use "2.prems" ex lt b1(2) in \<open>auto simp: written_def\<close>)
      then show ?thesis
        using lf ph ex st written_append [OF b1(2)] "2.prems"(6) by fastforce
    qed
  qed
qed

section \<open>Properties\<close>

text \<open>
  C40: Printing an unsigned number loses nothing: for every base from 2 to 36 and a buffer that has
  room, \<^verbatim>\<open>ConvertUIntToString\<close> returns the length of the C string it leaves at the offset, and
  reading its characters back as digits gives the number; a 32-bit number needs at most 32
  characters.
\<close>

theorem ConvertUIntToString_roundtrip:
  assumes "2 \<le> b" "b \<le> 36" "n < 2 ^ 32" "off + 32 < length buf"
  shows "\<exists>len buf'. ConvertUIntToString buf off n b = Some (len, buf') \<and> len \<le> 32 \<and>
           strlen (drop off buf') = Some len \<and>
           digits_value b (map char_digit (cstr (drop off buf'))) = n"
proof -
  have "(2 :: nat) ^ 32 \<le> b ^ 32" using assms(1) by (rule power_mono) simp
  with assms have len: "length (digits b n) \<le> 32" by (intro digits_length) auto
  let ?ds = "map digit_char (digits b n)"
  let ?buf = "overwrite buf off (?ds @ [NUL])"
  have room: "off + length (digits b n) < length buf" using len assms(4) by simp
  have lt: "\<forall>d\<in>set (digits b n). d < 36" using digits_less assms(1,2) by fastforce
  then have "NUL \<notin> set ?ds" using digit_char_not_NUL by force
  moreover have "drop off ?buf = ?ds @ NUL # drop (off + length ?ds + 1) buf"
    using room by (simp add: overwrite_def)
  ultimately have c: "cstr (drop off ?buf) = ?ds" "NUL \<in> set (drop off ?buf)"
    by (auto simp: cstr_append_NUL)
  have "map char_digit ?ds = digits b n"
    using lt by (simp add: map_idI char_digit_char)
  with c have "digits_value b (map char_digit (cstr (drop off ?buf))) = n"
    by (simp add: digits_value)
  with c len UIntToString_eq [OF assms(1) room] show ?thesis by (simp add: strlen_cstr)
qed

theorem ConvertUIntToString_roundtrip_witness:
  "\<exists>len buf'. ConvertUIntToString (replicate 40 NUL) 0 48879 16 = Some (len, buf') \<and>
     cstr buf' = ''BEEF'' \<and> digits_value 16 (map char_digit (cstr buf')) = 48879"
proof -
  have "map_option (\<lambda>(len, buf). cstr buf) (ConvertUIntToString (replicate 40 NUL) 0 48879 16) = Some ''BEEF''"
    by code_simp
  with ConvertUIntToString_roundtrip [of 16 48879 0 "replicate 40 NUL"] show ?thesis by auto
qed

text \<open>
  C39: \<^verbatim>\<open>FormatStringBuffer\<close> computes the reference expansion: every \<^verbatim>\<open>{}\<close> is replaced by the text of
  the next argument, other characters are copied, and the text after the last argument is copied
  unchanged. The returned length is the length of the expansion, the buffer starts with it, and
  at most one character (the terminator) behind it is touched.
\<close>

theorem FormatStringBuffer_expands:
  assumes "sv_text f t" "t \<noteq> []" "length t < npos" "list_all arg_ok args"
    and "length (expand t args) < length buf"
  shows "\<exists>buf'. FormatStringBuffer buf f args = Some (length (expand t args), buf') \<and>
           take (length (expand t args)) buf' = expand t args \<and> length buf' = length buf \<and>
           drop (Suc (length (expand t args))) buf' = drop (Suc (length (expand t args))) buf"
  using FormatLoop_written [of f t 0 args 0 0 buf] assms
  by (auto simp: FormatStringBuffer_def sv_text_empty written_def)

theorem FormatStringBuffer_expands_witness:
  "\<exists>buf'. FormatStringBuffer (replicate 40 NUL)
       \<lparr>sv_str = Some (''pid {}: {}{}!'' @ [NUL]), sv_len = 13\<rparr>
       [FmtUInt 12, FmtInt (- 7), FmtStr (''ms'' @ [NUL])] = Some (13, buf') \<and>
     take 13 buf' = ''pid 12: -7ms!''"
proof -
  have e: "expand ''pid {}: {}{}!'' [FmtUInt 12, FmtInt (- 7), FmtStr (''ms'' @ [NUL])] = ''pid 12: -7ms!''"
    by code_simp
  have l: "length ''pid 12: -7ms!'' = 13" by simp
  show ?thesis
    using FormatStringBuffer_expands [of "\<lparr>sv_str = Some (''pid {}: {}{}!'' @ [NUL]), sv_len = 13\<rparr>"
        "''pid {}: {}{}!''" "[FmtUInt 12, FmtInt (- 7), FmtStr (''ms'' @ [NUL])]" "replicate 40 NUL"]
    unfolding e l by (auto simp: sv_text_def npos_unfold)
qed

end
