(* ===== verification/Paths.thy ===== *)
theory Paths
  imports Strings
begin

text \<open>
  File paths, \<^verbatim>\<open>src/kernel/io/file/path.cpp\<close>. A \<^verbatim>\<open>Path\<close> object is its array \<^verbatim>\<open>path_\<close> of 513 characters,
  the static functions take string views. The visitor that \<^verbatim>\<open>Visit\<close> calls is a parameter that may
  change a state (the \<^verbatim>\<open>void* arg\<close>) and may panic. Writing behind the 17 characters of a name buffer
  has no result. The abstraction is \<open>path_names\<close>, the list of names in a path; the theorems say that
  visiting, counting and joining paths is what they say on the lists of names.
\<close>

section \<open>Static functions\<close>

definition max_len :: nat where "max_len = 512"
definition max_name_len :: nat where "max_name_len = 16"
definition sep :: char where "sep = CHR ''/''"

lemmas path_consts = max_len_def max_name_len_def sep_def

definition root_dir_name :: string_view where
  "root_dir_name = \<lparr>sv_str = Some [CHR ''/'', NUL], sv_len = 1\<rparr>"

definition Path_IsRootDir :: "string_view \<Rightarrow> bool option" where
  "Path_IsRootDir path = do {
     Assert (0 < sv_len path \<and> sv_len path \<le> max_len);
     a \<leftarrow> sv_eq path root_dir_name;
     if a then Some True else do {
       b \<leftarrow> sv_eq path \<lparr>sv_str = Some [CHR ''/'', CHR ''.'', NUL], sv_len = 2\<rparr>;
       if b then Some True
       else sv_eq path \<lparr>sv_str = Some [CHR ''/'', CHR ''.'', CHR ''.'', NUL], sv_len = 3\<rparr>
     }
   }"

definition Path_IsDir :: "string_view \<Rightarrow> bool option" where
  "Path_IsDir path = do {
     Assert (sv_len path \<le> max_len);
     if sv_empty path then Some True else do {
       r \<leftarrow> Path_IsRootDir path;
       if r then Some True else do { c \<leftarrow> sv_back path; Some (c = sep) }
     }
   }"

definition Path_IsAbsolute :: "string_view \<Rightarrow> bool option" where
  "Path_IsAbsolute path = do {
     Assert (sv_len path \<le> max_len);
     if \<not> sv_empty path then do { c \<leftarrow> sv_front path; Some (c = sep) } else Some False
   }"

definition Path_GetFileName :: "string_view \<Rightarrow> string_view option" where
  "Path_GetFileName path = do {
     d \<leftarrow> Path_IsDir path;
     if \<not> d then do {
       last_sep \<leftarrow> sv_rfind path sep;
       Some (if last_sep \<noteq> npos then sv_substr path (last_sep + 1) npos else path)
     }
     else Some \<lparr>sv_str = Some [NUL], sv_len = 0\<rparr>
   }"

text \<open>The two loops of \<^verbatim>\<open>Parse\<close>: skip separators, then copy the name into the buffer from \<open>dest\<close> on.\<close>

fun skip_seps :: "char list \<Rightarrow> nat option" where
  "skip_seps [] = None"
| "skip_seps (c # cs) = (if c = sep then map_option Suc (skip_seps cs) else Some 0)"

fun copy_name :: "char list \<Rightarrow> char list \<Rightarrow> nat \<Rightarrow> (nat \<times> char list) option" where
  "copy_name [] name dest = None"
| "copy_name (c # cs) name dest =
     (if c \<noteq> sep \<and> c \<noteq> NUL then do {
        Assert (dest < max_len);
        Assert (dest < length name);
        copy_name cs (name[dest := c]) (Suc dest)
      }
      else Some (dest, name))"

definition Path_Parse :: "string_view \<Rightarrow> char list \<Rightarrow> (string_view \<times> char list) option" where
  "Path_Parse path name = do {
     Assert (sv_len path \<le> max_len);
     name \<leftarrow> memset name NUL (max_name_len + 1);
     if sv_empty path then Some (sv_null, name)
     else do {
       s \<leftarrow> sv_str path;
       src \<leftarrow> skip_seps s;
       (dest, name) \<leftarrow> copy_name (drop src s) name 0;
       Assert (dest \<le> max_len);
       Assert (dest < length name);
       Some (sv_substr path (src + dest) npos, name[dest := NUL])
     }
   }"

lemma copy_name_dest: "copy_name cs name d = Some (d', name') \<Longrightarrow> d \<le> d'"
  by (induction cs name d rule: copy_name.induct) (auto split: if_splits)

lemma copy_name_same: "copy_name cs name d = Some (d, name') \<Longrightarrow> name' = name"
  by (cases cs) (auto split: if_splits dest: copy_name_dest)

lemma sv_substr_len: "sv_len (sv_substr v k n) \<le> sv_len v - k"
  by (auto simp: sv_substr_def sv_null_def Let_def)

lemma memset_NUL_empty: "memset name NUL (Suc n) = Some name' \<Longrightarrow> strlen name' = Some 0"
  by (cases name) auto

lemma Parse_smaller:
  assumes "Path_Parse path name = Some (sub, name')"
  shows "sv_len sub < sv_len path \<or> sv_len sub \<le> sv_len path \<and> strlen name' = Some 0"
proof (cases "sv_empty path")
  case True
  with assms show ?thesis
    by (auto simp: Path_Parse_def sv_null_def bind_Some_conv sv_empty_def split: if_splits
        dest: memset_NUL_empty)
next
  case False
  with assms obtain n s src dest nm where *: "memset name NUL (max_name_len + 1) = Some n"
    "sv_str path = Some s" "skip_seps s = Some src" "copy_name (drop src s) n 0 = Some (dest, nm)"
    "sub = sv_substr path (src + dest) npos" "name' = nm[dest := NUL]" "dest < length nm"
    by (auto simp: Path_Parse_def bind_Some_conv)
  show ?thesis
  proof (cases "src + dest = 0")
    case True
    then have "strlen name' = Some 0"
      using * by (cases nm) auto
    with True * sv_substr_len [of path 0 npos] show ?thesis by simp
  next
    case dpos: False
    with False * sv_substr_len [of path "src + dest" npos] show ?thesis
      by (auto simp: sv_empty_def)
  qed
qed

function Path_VisitLoop ::
    "(string_view \<Rightarrow> char list \<Rightarrow> 's \<Rightarrow> (bool \<times> 's) option) \<Rightarrow> string_view \<Rightarrow> char list \<Rightarrow> 's \<Rightarrow>
     (bool \<times> 's) option" where
  "Path_VisitLoop visitor sub_path name st =
     (if strlen name = None then None
      else if strlen name = Some 0 then Some (True, st)
      else case visitor sub_path name st of
             None \<Rightarrow> None
           | Some (False, st) \<Rightarrow> Some (False, st)
           | Some (True, st) \<Rightarrow>
               (if \<not> sv_empty sub_path
                then case Path_Parse sub_path name of
                       None \<Rightarrow> None
                     | Some (sub_path', name') \<Rightarrow> Path_VisitLoop visitor sub_path' name' st
                else case memset name NUL (max_name_len + 1) of
                       None \<Rightarrow> None
                     | Some name' \<Rightarrow> Path_VisitLoop visitor sub_path name' st))"
  by pat_completeness auto
termination
proof (relation "inv_image (less_than <*lex*> less_than)
    (\<lambda>(visitor, sub, name, st). (sv_len sub, if strlen name = Some 0 then 0 else 1 :: nat))")
  fix visitor :: "string_view \<Rightarrow> char list \<Rightarrow> 's \<Rightarrow> (bool \<times> 's) option" and sub name st x2 x xa x2a xb y
  assume "Path_Parse sub name = Some x2a" "(xb, y) = x2a" "strlen name \<noteq> Some 0"
  then show "((visitor, xb, y, xa), visitor, sub, name, st) \<in> inv_image (less_than <*lex*> less_than)
      (\<lambda>(visitor, sub, name, st). (sv_len sub, if strlen name = Some 0 then 0 else 1))"
    using Parse_smaller [of sub name xb y] by auto
qed (auto dest: memset_NUL_empty)

declare Path_VisitLoop.simps [simp del]

definition Path_Visit ::
    "string_view \<Rightarrow> (string_view \<Rightarrow> char list \<Rightarrow> 's \<Rightarrow> (bool \<times> 's) option) \<Rightarrow> 's \<Rightarrow> (bool \<times> 's) option" where
  "Path_Visit path visitor st = do {
     Assert (sv_len path \<le> max_len);
     (sub_path, name) \<leftarrow> Path_Parse path (replicate (max_name_len + 1) NUL);
     Path_VisitLoop visitor sub_path name st
   }"

definition Path_GetDepth :: "string_view \<Rightarrow> nat option" where
  "Path_GetDepth path = do {
     Assert (sv_len path \<le> max_len);
     (_, depth) \<leftarrow> Path_Visit path (\<lambda>sub_path name depth. Some (True, depth + 1)) 0;
     Some depth
   }"

section \<open>Path objects\<close>

text \<open>
  The array \<^verbatim>\<open>path_\<close>, which its default initialiser fills with zeros, and the member functions that
  pass \<^verbatim>\<open>path_.data()\<close> on.
\<close>

definition path_blank :: "char list" where
  "path_blank = replicate (max_len + 1) NUL"

definition Path_GetSize :: "char list \<Rightarrow> nat option" where
  "Path_GetSize p = strlen p"

definition Path_Clear :: "char list \<Rightarrow> char list option" where
  "Path_Clear p = memset p NUL (max_len + 1)"

text \<open>The visitor of \<^verbatim>\<open>Join\<close>: append one name to the path, with a separator where one is missing.\<close>

definition join_visitor :: "string_view \<Rightarrow> char list \<Rightarrow> char list \<Rightarrow> (bool \<times> char list) option" where
  "join_visitor sub_path name full = do {
     len \<leftarrow> strlen full;
     full \<leftarrow> (if len > 0 \<and> full ! (len - 1) \<noteq> sep
             then if len < length full then Some (full[len := sep]) else None
             else Some full);
     n \<leftarrow> strlen full;
     k \<leftarrow> strlen name;
     Assert (n + k \<le> max_len);
     full \<leftarrow> strcat full name;
     Some (True, full)
   }"

definition Path_Join :: "char list \<Rightarrow> string_view \<Rightarrow> char list option" where
  "Path_Join p child = do {
     Assert (sv_len child \<le> max_len);
     sz \<leftarrow> Path_GetSize p;
     p \<leftarrow> (if sz = 0 then do { a \<leftarrow> Path_IsAbsolute child; Some (if a then p[0 := sep] else p) }
          else Some p);
     (_, p) \<leftarrow> Path_Visit child join_visitor p;
     d \<leftarrow> Path_IsDir child;
     if d then do {
       sz \<leftarrow> Path_GetSize p;
       Assert (sz < max_len);
       Some (p[sz := sep, sz + 1 := NUL])
     }
     else Some p
   }"

definition Path_ctor :: "string_view \<Rightarrow> char list option" where
  "Path_ctor path = Path_Join path_blank path"

definition Path_JoinStatic :: "string_view \<Rightarrow> string_view \<Rightarrow> char list option" where
  "Path_JoinStatic parent child = do { p \<leftarrow> Path_ctor parent; Path_Join p child }"

definition Path_JoinConst :: "char list \<Rightarrow> string_view \<Rightarrow> char list option" where
  "Path_JoinConst p child = do { v \<leftarrow> sv_of p; q \<leftarrow> Path_ctor v; Path_Join q child }"

definition Path_ParseObj :: "char list \<Rightarrow> char list \<Rightarrow> (char list \<times> char list) option" where
  "Path_ParseObj p name = do {
     v \<leftarrow> sv_of p;
     (sub_path, name) \<leftarrow> Path_Parse v name;
     q \<leftarrow> Path_ctor sub_path;
     Some (q, name)
   }"

section \<open>The names in a path\<close>

function path_names :: "char list \<Rightarrow> char list list" where
  "path_names t =
     (let u = dropWhile (\<lambda>c. c = sep) t
      in if u = [] then []
         else takeWhile (\<lambda>c. c \<noteq> sep) u # path_names (dropWhile (\<lambda>c. c \<noteq> sep) u))"
  by pat_completeness auto
termination
proof (relation "measure length")
  fix t u :: "char list"
  assume u: "u = dropWhile (\<lambda>c. c = sep) t" "u \<noteq> []"
  then have "hd u \<noteq> sep" using hd_dropWhile [of "\<lambda>c. c = sep" t] by blast
  with u(2) have "length (dropWhile (\<lambda>c. c \<noteq> sep) u) < length u"
    by (cases u) (auto simp: le_imp_less_Suc length_dropWhile_le)
  also have "\<dots> \<le> length t"
    using u(1) by (simp add: length_dropWhile_le)
  finally show "(dropWhile (\<lambda>c. c \<noteq> sep) u, t) \<in> measure length" by simp
qed simp

declare path_names.simps [simp del]

lemma path_names_Nil [simp]: "path_names [] = []"
  by (subst path_names.simps) simp

lemma path_names_seps [simp]: "path_names (sep # t) = path_names t"
  by (subst (1 2) path_names.simps) simp

definition name_part :: "char list \<Rightarrow> char list" where
  "name_part t = takeWhile (\<lambda>c. c \<noteq> sep) (dropWhile (\<lambda>c. c = sep) t)"

definition rest_part :: "char list \<Rightarrow> char list" where
  "rest_part t = dropWhile (\<lambda>c. c \<noteq> sep) (dropWhile (\<lambda>c. c = sep) t)"

lemma name_part_Nil_iff: "name_part t = [] \<longleftrightarrow> dropWhile (\<lambda>c. c = sep) t = []"
proof (cases "dropWhile (\<lambda>c. c = sep) t")
  case (Cons c cs)
  then have "c \<noteq> sep" using hd_dropWhile [of "\<lambda>c. c = sep" t] by simp
  with Cons show ?thesis by (simp add: name_part_def)
next
  case Nil
  then show ?thesis by (simp only: name_part_def takeWhile.simps simp_thms)
qed

lemma path_names_parts:
  "path_names t = (if name_part t = [] then [] else name_part t # path_names (rest_part t))"
  by (subst path_names.simps) (simp only: name_part_Nil_iff, simp add: name_part_def rest_part_def Let_def)

lemma skip_seps_eq:
  "skip_seps (t @ NUL # r) = Some (length (takeWhile (\<lambda>c. c = sep) t))"
  by (induction t) (auto simp: sep_def)

text \<open>The name buffer after \<^verbatim>\<open>Parse\<close>: the name, filled up with zeros.\<close>

definition name_buf :: "char list \<Rightarrow> char list" where
  "name_buf n = n @ replicate (max_name_len + 1 - length n) NUL"

lemma name_buf_cstr [simp]:
  "NUL \<notin> set n \<Longrightarrow> length n \<le> max_name_len \<Longrightarrow> cstr (name_buf n) = n \<and> NUL \<in> set (name_buf n)"
  by (simp add: name_buf_def Suc_diff_le)

lemma length_name_buf [simp]: "length n \<le> max_name_len \<Longrightarrow> length (name_buf n) = max_name_len + 1"
  by (simp add: name_buf_def)

lemma copy_name_eq:
  assumes "NUL \<notin> set t" "length m + length (takeWhile (\<lambda>c. c \<noteq> sep) t) \<le> max_name_len"
  shows "copy_name (t @ NUL # r) (name_buf m) (length m) =
           Some (length m + length (takeWhile (\<lambda>c. c \<noteq> sep) t), name_buf (m @ takeWhile (\<lambda>c. c \<noteq> sep) t))"
  using assms
proof (induction t arbitrary: m)
  case (Cons c t)
  show ?case
  proof (cases "c = sep")
    case False
    then have "(name_buf m)[length m := c] = name_buf (m @ [c])"
      using Cons.prems by (simp add: name_buf_def list_update_append Suc_diff_le)
    with Cons False Cons.IH [of "m @ [c]"] show ?thesis
      by (auto simp: max_len_def max_name_len_def)
  qed simp
qed simp

lemma takeWhile_dropWhile_len:
  "length (takeWhile P t) + length (takeWhile Q (dropWhile P t)) \<le> length t"
  by (metis add_left_mono length_append length_takeWhile_le takeWhile_dropWhile_id)

lemma drop_parts:
  "drop (length (takeWhile P t) + length (takeWhile Q (dropWhile P t))) t = dropWhile Q (dropWhile P t)"
  by (metis add.commute drop_drop dropWhile_eq_drop)

lemma Parse_text:
  assumes "sv_text v t" "length t \<le> max_len" "length (name_part t) \<le> max_name_len"
    and "length name = max_name_len + 1"
  shows "\<exists>v'. Path_Parse v name = Some (v', name_buf (name_part t)) \<and> sv_text v' (rest_part t)"
proof (cases "t = []")
  case True
  with assms show ?thesis
    by (auto simp: Path_Parse_def sv_text_def sv_empty_def memset_eq name_buf_def name_part_def
        rest_part_def sv_null_def)
next
  case False
  with assms(1) obtain s where s: "sv_str v = Some s" "NUL \<in> set s" "cstr s = t" "sv_len v = length t"
    by (auto simp: sv_text_def)
  from cstr_split [OF s(2)] s(3) obtain r where r: "s = t @ NUL # r" by auto
  have nul: "NUL \<notin> set (dropWhile (\<lambda>c. c = sep) t)"
    using s(3) NUL_notin_cstr by (metis set_dropWhileD)
  have drp: "drop (length (takeWhile (\<lambda>c. c = sep) t)) s = dropWhile (\<lambda>c. c = sep) t @ NUL # r"
    by (simp add: r dropWhile_eq_drop length_takeWhile_le)
  have mem: "memset name NUL (Suc max_name_len) = Some (name_buf [])"
    using assms(4) by (simp add: memset_eq name_buf_def)
  have npm: "(name_buf (name_part t))[length (name_part t) := NUL] = name_buf (name_part t)"
    using assms(3) by (simp add: name_buf_def list_update_append Suc_diff_le)
  have "Path_Parse v name = Some (sv_substr v (length (takeWhile (\<lambda>c. c = sep) t) + length (name_part t)) npos,
      name_buf (name_part t))"
    using assms(2,3) False s mem skip_seps_eq [of t r] copy_name_eq [OF nul, of "[]" r] npm
    by (simp add: Path_Parse_def sv_empty_def drp r [symmetric] name_part_def
        max_len_def max_name_len_def)
  moreover have "sv_text (sv_substr v (length (takeWhile (\<lambda>c. c = sep) t) + length (name_part t)) npos)
      (rest_part t)"
    using sv_substr_text [OF assms(1), of "length (takeWhile (\<lambda>c. c = sep) t) + length (name_part t)"]
      assms(2) by (simp only: drop_parts name_part_def rest_part_def) (simp add: max_len_def npos_unfold)
  ultimately show ?thesis by blast
qed

text \<open>The steps of a visit: each name with the text that remains behind it.\<close>

lemma rest_part_smaller: "name_part t \<noteq> [] \<Longrightarrow> length (rest_part t) < length t"
proof -
  assume n: "name_part t \<noteq> []"
  have "length t = length (takeWhile (\<lambda>c. c = sep) t) + (length (name_part t) + length (rest_part t))"
    by (metis length_append name_part_def rest_part_def takeWhile_dropWhile_id)
  with n show ?thesis by (cases "name_part t") auto
qed

function path_steps :: "char list \<Rightarrow> (char list \<times> char list) list" where
  "path_steps t = (if name_part t = [] then []
                   else (name_part t, rest_part t) # path_steps (rest_part t))"
  by pat_completeness auto
termination
  by (relation "measure length") (auto intro: rest_part_smaller)

declare path_steps.simps [simp del]

lemma path_steps_names: "map fst (path_steps t) = path_names t"
proof (induction t rule: path_steps.induct)
  case (1 t)
  then show ?case by (subst path_steps.simps, subst path_names_parts) auto
qed

fun visit_names :: "(char list \<Rightarrow> char list \<Rightarrow> 's \<Rightarrow> (bool \<times> 's) option) \<Rightarrow>
    (char list \<times> char list) list \<Rightarrow> 's \<Rightarrow> (bool \<times> 's) option" where
  "visit_names V [] st = Some (True, st)"
| "visit_names V ((n, r) # steps) st =
     (case V n r st of
        None \<Rightarrow> None
      | Some (False, st) \<Rightarrow> Some (False, st)
      | Some (True, st) \<Rightarrow> visit_names V steps st)"

definition names_ok :: "char list \<Rightarrow> bool" where
  "names_ok t \<longleftrightarrow> length t \<le> max_len \<and> NUL \<notin> set t \<and> (\<forall>n\<in>set (path_names t). length n \<le> max_name_len)"

lemma names_ok_parts:
  assumes "names_ok t"
  shows "length t \<le> max_len" "length (name_part t) \<le> max_name_len" "names_ok (rest_part t)"
    "NUL \<notin> set (name_part t)" "NUL \<notin> set t"
proof -
  have sub: "set (name_part t) \<subseteq> set t" "set (rest_part t) \<subseteq> set t"
    by (auto simp: name_part_def rest_part_def dest!: set_takeWhileD set_dropWhileD)
  have len: "length (rest_part t) \<le> length t"
    by (simp add: rest_part_def) (meson length_dropWhile_le le_trans)
  show "length t \<le> max_len" "NUL \<notin> set (name_part t)" "NUL \<notin> set t"
    using assms sub by (auto simp: names_ok_def)
  show "length (name_part t) \<le> max_name_len"
    using assms by (cases "name_part t = []") (auto simp: names_ok_def path_names_parts [of t])
  show "names_ok (rest_part t)"
  proof (cases "name_part t = []")
    case True
    then have "rest_part t = []"
      by (simp only: name_part_Nil_iff rest_part_def dropWhile.simps)
    then show ?thesis by (simp add: names_ok_def)
  next
    case False
    with assms len sub show ?thesis by (auto simp: names_ok_def path_names_parts [of t])
  qed
qed

text \<open>A concrete visitor that acts on the texts behind its two arguments.\<close>

definition visits :: "(string_view \<Rightarrow> char list \<Rightarrow> 's \<Rightarrow> (bool \<times> 's) option) \<Rightarrow>
    (char list \<Rightarrow> char list \<Rightarrow> 's \<Rightarrow> (bool \<times> 's) option) \<Rightarrow> bool" where
  "visits visitor V \<longleftrightarrow>
     (\<forall>sub r n st. sv_text sub r \<longrightarrow> NUL \<notin> set n \<longrightarrow> n \<noteq> [] \<longrightarrow> length n \<le> max_name_len \<longrightarrow>
        visitor sub (name_buf n) st = V n r st)"

lemma VisitLoop_done: "Path_VisitLoop visitor sub (name_buf []) st = Some (True, st)"
  by (subst Path_VisitLoop.simps) (simp add: name_buf_def)

lemma VisitLoop_steps:
  assumes "visits visitor V" "sv_text sub r" "names_ok r" "NUL \<notin> set n" "n \<noteq> []"
    "length n \<le> max_name_len"
  shows "Path_VisitLoop visitor sub (name_buf n) st = visit_names V ((n, r) # path_steps r) st"
  using assms(2-)
proof (induction r arbitrary: sub n st rule: path_steps.induct)
  case (1 r)
  note ok = names_ok_parts [OF "1.prems"(2)]
  have len: "strlen (name_buf n) = Some (length n)"
    using "1.prems" by (simp add: strlen_cstr)
  have vis: "visitor sub (name_buf n) st = V n r st"
    using assms(1) "1.prems" unfolding visits_def by blast
  have mem: "memset (name_buf n) NUL (Suc max_name_len) = Some (name_buf [])"
    using "1.prems" by (simp add: memset_eq, simp add: name_buf_def)
  have next_step: "(if \<not> sv_empty sub
      then case Path_Parse sub (name_buf n) of None \<Rightarrow> None
        | Some (sub_path', name') \<Rightarrow> Path_VisitLoop visitor sub_path' name' st'
      else case memset (name_buf n) NUL (max_name_len + 1) of None \<Rightarrow> None
        | Some name' \<Rightarrow> Path_VisitLoop visitor sub name' st') = visit_names V (path_steps r) st'" for st'
  proof (cases "r = []")
    case True
    then show ?thesis
      using "1.prems"(1) mem
      by (simp add: sv_text_empty VisitLoop_done path_steps.simps [of "[]"] name_part_def)
  next
    case False
    from Parse_text [OF "1.prems"(1) ok(1,2), of "name_buf n"] "1.prems" obtain v'
      where v': "Path_Parse sub (name_buf n) = Some (v', name_buf (name_part r))" "sv_text v' (rest_part r)"
      by auto
    show ?thesis
    proof (cases "name_part r = []")
      case True
      with v' False "1.prems"(1) show ?thesis
        by (simp add: sv_text_empty VisitLoop_done path_steps.simps [of r])
    next
      case ne: False
      have "Path_VisitLoop visitor v' (name_buf (name_part r)) st' =
          visit_names V ((name_part r, rest_part r) # path_steps (rest_part r)) st'"
        by (rule "1.IH" [OF ne v'(2) ok(3,4) ne ok(2)])
      with v' False ne "1.prems"(1) show ?thesis
        by (simp only: path_steps.simps [of r] sv_text_empty if_False option.case prod.case not_False_eq_True if_True)
    qed
  qed
  show ?case
    using "1.prems" by (subst Path_VisitLoop.simps) (simp only: len vis next_step, simp)
qed

lemma Visit_steps:
  assumes "visits visitor V" "sv_text path t" "names_ok t"
  shows "Path_Visit path visitor st = visit_names V (path_steps t) st"
proof -
  note ok = names_ok_parts [OF assms(3)]
  obtain v' where v': "Path_Parse path (replicate (Suc max_name_len) NUL) = Some (v', name_buf (name_part t))"
    "sv_text v' (rest_part t)"
    using Parse_text [OF assms(2) ok(1,2), of "replicate (Suc max_name_len) NUL"] by auto
  then have "Path_Visit path visitor st = Path_VisitLoop visitor v' (name_buf (name_part t)) st"
    using assms(2) ok(1) by (simp add: Path_Visit_def sv_text_def)
  also have "\<dots> = visit_names V (path_steps t) st"
  proof (cases "name_part t = []")
    case True
    then show ?thesis by (simp add: VisitLoop_done path_steps.simps [of t])
  next
    case False
    then show ?thesis
      using VisitLoop_steps [OF assms(1) v'(2) ok(3,4) False ok(2)] by (simp add: path_steps.simps [of t])
  qed
  finally show ?thesis .
qed

section \<open>Joining paths\<close>

text \<open>A path object holds its text followed by zeros only.\<close>

definition path_buf :: "char list \<Rightarrow> char list" where
  "path_buf t = t @ replicate (max_len + 1 - length t) NUL"

lemma path_buf_blank: "path_blank = path_buf []"
  by (simp add: path_blank_def path_buf_def)

lemma path_buf_cstr [simp]:
  "NUL \<notin> set t \<Longrightarrow> length t \<le> max_len \<Longrightarrow> cstr (path_buf t) = t \<and> NUL \<in> set (path_buf t)"
  by (simp add: path_buf_def Suc_diff_le)

lemma length_path_buf [simp]: "length t \<le> max_len \<Longrightarrow> length (path_buf t) = max_len + 1"
  by (simp add: path_buf_def)

lemma path_buf_put:
  "length t < max_len \<Longrightarrow> (path_buf t)[length t := c] = path_buf (t @ [c])"
  by (simp add: path_buf_def list_update_append Suc_diff_le)

lemma path_buf_put_sep:
  "length t < max_len \<Longrightarrow> (path_buf t)[length t := c, Suc (length t) := NUL] = path_buf (t @ [c])"
  by (subst path_buf_put) (auto simp: path_buf_def list_update_append intro!: list_update_same_conv [THEN iffD2])

lemma strcat_path_buf:
  assumes "NUL \<notin> set t" "NUL \<in> set s" "length t + length (cstr s) \<le> max_len"
  shows "strcat (path_buf t) s = Some (path_buf (t @ cstr s))"
proof -
  have "strcat (t @ d) s = map_option ((@) t) (strcat d s)" if "NUL \<notin> set t" for t d
    using that by (cases "strcat d s"; induction t) auto
  moreover have "strcat (replicate (Suc k) NUL) s = strcpy (replicate (Suc k) NUL) s" for k by simp
  moreover have "max_len + 1 - length t = Suc (max_len - length t)" using assms by simp
  ultimately show ?thesis
    using assms strcpy_eq [of s "NUL # replicate (max_len - length t) NUL"]
    by (simp add: path_buf_def overwrite_def Suc_diff_le flip: replicate_Suc)
qed

definition with_sep :: "char list \<Rightarrow> char list" where
  "with_sep p = (if p \<noteq> [] \<and> last p \<noteq> sep then p @ [sep] else p)"

definition join_name :: "char list \<Rightarrow> char list \<Rightarrow> char list" where
  "join_name p n = with_sep p @ n"

lemma join_visitor_text:
  assumes "NUL \<notin> set p" "NUL \<notin> set n" "length n \<le> max_name_len" "length (join_name p n) \<le> max_len"
  shows "join_visitor sub (name_buf n) (path_buf p) = Some (True, path_buf (join_name p n))"
proof -
  have nth: "p \<noteq> [] \<Longrightarrow> path_buf p ! (length p - 1) = last p"
    by (simp add: path_buf_def nth_append last_conv_nth)
  have len: "length p \<le> max_len" "length p + length n \<le> max_len" "length (with_sep p) + length n \<le> max_len"
    using assms(4) by (auto simp: join_name_def with_sep_def split: if_splits)
  have full: "(if length p > 0 \<and> path_buf p ! (length p - 1) \<noteq> sep
      then if length p < length (path_buf p) then Some ((path_buf p)[length p := sep]) else None
      else Some (path_buf p)) = Some (path_buf (with_sep p))"
    using nth len path_buf_put [of p sep] by (auto simp: with_sep_def)
  have nul: "NUL \<notin> set (with_sep p)" using assms(1) by (simp add: with_sep_def sep_def)
  show ?thesis
    unfolding join_visitor_def
    using assms len full nul strcat_path_buf [of "with_sep p" "name_buf n"]
    by (simp add: strlen_cstr join_name_def)
qed

lemma join_names_visit:
  assumes "NUL \<notin> set p" "length (foldl join_name p ns) \<le> max_len"
    and "\<forall>(n, r)\<in>set steps. n \<noteq> [] \<and> NUL \<notin> set n \<and> length n \<le> max_name_len" "map fst steps = ns"
  shows "visit_names (\<lambda>n r. join_visitor sv_null (name_buf n)) steps (path_buf p) =
           Some (True, path_buf (foldl join_name p ns))"
  using assms
proof (induction steps arbitrary: p ns)
  case (Cons x steps)
  obtain n r where x: "x = (n, r)" by fastforce
  then have ns: "ns = n # map fst steps" using Cons.prems by simp
  have mono: "length q \<le> length (foldl join_name q ms)" for q ms
  proof (induction ms arbitrary: q)
    case (Cons m ms)
    have "length q \<le> length (join_name q m)" by (simp add: join_name_def with_sep_def)
    with Cons [of "join_name q m"] show ?case by simp
  qed simp
  have nul: "NUL \<notin> set (join_name p n)"
    using Cons.prems x by (auto simp: join_name_def with_sep_def sep_def)
  have "length (join_name p n) \<le> max_len"
    using Cons.prems(2) mono [of "join_name p n" "map fst steps"] by (simp add: ns)
  then have "join_visitor sv_null (name_buf n) (path_buf p) = Some (True, path_buf (join_name p n))"
    using Cons.prems x by (intro join_visitor_text) auto
  with Cons.IH [OF nul] Cons.prems show ?case by (simp add: x ns)
qed simp

definition is_dir_text :: "char list \<Rightarrow> bool" where
  "is_dir_text t \<longleftrightarrow> t = [] \<or> t \<in> {''/'', ''/.'', ''/..''} \<or> last t = sep"

definition join_text :: "char list \<Rightarrow> char list \<Rightarrow> char list" where
  "join_text p c =
     (let q = foldl join_name (if p = [] \<and> c \<noteq> [] \<and> hd c = sep then [sep] else p) (path_names c)
      in if is_dir_text c then q @ [sep] else q)"

lemma IsRootDir_text:
  assumes "sv_text v t" "t \<noteq> []" "length t \<le> max_len"
  shows "Path_IsRootDir v = Some (t \<in> {''/'', ''/.'', ''/..''})"
proof -
  have c: "sv_text root_dir_name ''/''" "sv_text \<lparr>sv_str = Some [CHR ''/'', CHR ''.'', NUL], sv_len = 2\<rparr> ''/.''"
    "sv_text \<lparr>sv_str = Some [CHR ''/'', CHR ''.'', CHR ''.'', NUL], sv_len = 3\<rparr> ''/..''"
    by (auto simp: sv_text_def root_dir_name_def)
  have "0 < sv_len v" "sv_len v \<le> max_len" using assms by (auto simp: sv_text_def)
  then show ?thesis
    by (simp add: Path_IsRootDir_def sv_eq_text [OF assms(1) c(1)] sv_eq_text [OF assms(1) c(2)]
        sv_eq_text [OF assms(1) c(3)])
qed

lemma IsDir_text: "sv_text v t \<Longrightarrow> length t \<le> max_len \<Longrightarrow> Path_IsDir v = Some (is_dir_text t)"
  by (cases "t = []")
    (auto simp: Path_IsDir_def is_dir_text_def sv_text_empty IsRootDir_text sv_back_text, simp_all add: sv_text_def)

lemma IsAbsolute_text:
  "sv_text v t \<Longrightarrow> length t \<le> max_len \<Longrightarrow> Path_IsAbsolute v = Some (t \<noteq> [] \<and> hd t = sep)"
  by (cases "t = []")
    (auto simp: Path_IsAbsolute_def sv_text_empty sv_front_text, simp_all add: sv_text_def)

lemma path_steps_ok:
  "names_ok t \<Longrightarrow> (n, r) \<in> set (path_steps t) \<Longrightarrow> n \<noteq> [] \<and> NUL \<notin> set n \<and> length n \<le> max_name_len"
proof (induction t rule: path_steps.induct)
  case (1 t)
  then show ?case
    using names_ok_parts [OF "1.prems"(1)] by (auto simp: path_steps.simps [of t] split: if_splits)
qed

lemma path_names_ok:
  "names_ok t \<Longrightarrow> n \<in> set (path_names t) \<Longrightarrow> n \<noteq> [] \<and> NUL \<notin> set n \<and> length n \<le> max_name_len"
  using path_steps_ok [of t n] by (auto simp flip: path_steps_names)

lemma foldl_join_mono: "length p \<le> length (foldl join_name p ns)"
proof (induction ns arbitrary: p)
  case (Cons m ms)
  have "length p \<le> length (join_name p m)" by (simp add: join_name_def with_sep_def)
  with Cons [of "join_name p m"] show ?case by simp
qed simp

lemma foldl_join_NUL:
  "NUL \<notin> set p \<Longrightarrow> (\<forall>n\<in>set ns. NUL \<notin> set n) \<Longrightarrow> NUL \<notin> set (foldl join_name p ns)"
  by (induction ns arbitrary: p) (auto simp: join_name_def with_sep_def sep_def)

lemma Join_text:
  assumes v: "sv_text v c" and ok: "names_ok c" and p: "NUL \<notin> set p"
    and len: "length (join_text p c) \<le> max_len"
  shows "Path_Join (path_buf p) v = Some (path_buf (join_text p c))"
proof -
  note okc = names_ok_parts [OF ok]
  let ?p = "if p = [] \<and> c \<noteq> [] \<and> hd c = sep then [sep] else p"
  let ?q = "foldl join_name ?p (path_names c)"
  have lq: "length ?q \<le> max_len" "is_dir_text c \<Longrightarrow> length ?q < max_len"
    using len by (auto simp: join_text_def Let_def split: if_splits)
  have lp: "length p \<le> max_len"
    using foldl_join_mono [of ?p "path_names c"] lq(1) by (auto split: if_splits)
  have np: "NUL \<notin> set ?p" using p by (simp add: sep_def)
  have nq: "NUL \<notin> set ?q"
    using foldl_join_NUL [OF np] path_names_ok [OF ok] by blast
  have first: "(if length p = 0 then do { a \<leftarrow> Path_IsAbsolute v; Some (if a then (path_buf p)[0 := sep] else path_buf p) }
      else Some (path_buf p)) = Some (path_buf ?p)"
    using IsAbsolute_text [OF v okc(1)] path_buf_put [of "[]" sep] by (simp add: max_len_def)
  have "visits join_visitor (\<lambda>n r. join_visitor sv_null (name_buf n))"
    by (simp add: visits_def join_visitor_def)
  from Visit_steps [OF this v ok] join_names_visit [OF np lq(1) _ path_steps_names] path_steps_ok [OF ok]
  have visit: "Path_Visit v join_visitor (path_buf ?p) = Some (True, path_buf ?q)" by fastforce
  have sz: "Path_GetSize (path_buf p) = Some (length p)"
    using p lp by (simp add: Path_GetSize_def strlen_cstr)
  have szq: "Path_GetSize (path_buf ?q) = Some (length ?q)"
    using path_buf_cstr [OF nq lq(1)] by (simp add: Path_GetSize_def strlen_cstr)
  have final: "is_dir_text c \<Longrightarrow> (path_buf ?q)[length ?q := sep, length ?q + 1 := NUL] = path_buf (?q @ [sep])"
    using path_buf_put_sep [OF lq(2)] by simp
  show ?thesis
    unfolding Path_Join_def sz
    using v okc(1) lq first visit szq final IsDir_text [OF v okc(1)]
    by (cases "is_dir_text c") (simp_all add: join_text_def Let_def sv_text_def)
qed

text \<open>The names of a joined path are the names of the parts.\<close>

lemma no_sep_whiles [simp]:
  "sep \<notin> set xs \<Longrightarrow> takeWhile (\<lambda>c. c \<noteq> sep) xs = xs" "sep \<notin> set xs \<Longrightarrow> dropWhile (\<lambda>c. c \<noteq> sep) xs = []"
  by (induction xs) auto

lemma path_names_sep_append: "path_names (p @ sep # q) = path_names p @ path_names q"
proof (induction p rule: measure_induct_rule [of length])
  case (less p)
  show ?case
  proof (cases p)
    case (Cons c p')
    show ?thesis
    proof (cases "c = sep")
      case True
      with Cons less [of p'] show ?thesis by simp
    next
      case neq: False
      let ?w = "\<lambda>c. c \<noteq> sep"
      have e: "path_names (c # t) = (c # takeWhile ?w t) # path_names (dropWhile ?w t)" for t
        using neq by (subst path_names.simps) simp
      show ?thesis
      proof (cases "sep \<in> set p'")
        case True
        then have "takeWhile ?w (p' @ sep # q) = takeWhile ?w p'"
          "dropWhile ?w (p' @ sep # q) = dropWhile ?w p' @ sep # q"
          by (auto simp: takeWhile_append dropWhile_append)
        moreover have "length (dropWhile ?w p') < length p"
          using Cons by (simp add: le_imp_less_Suc length_dropWhile_le)
        ultimately show ?thesis using less Cons by (simp add: e)
      next
        case False
        then have "takeWhile ?w (p' @ sep # q) = p'" "dropWhile ?w (p' @ sep # q) = sep # q"
          by (auto simp: takeWhile_append dropWhile_append)
        with False show ?thesis by (simp add: Cons e)
      qed
    qed
  qed simp
qed

lemma path_names_no_sep: "sep \<notin> set n \<Longrightarrow> n \<noteq> [] \<Longrightarrow> path_names n = [n]"
proof (cases n)
  case (Cons c cs)
  moreover assume "sep \<notin> set n"
  ultimately show ?thesis by (subst path_names.simps) auto
qed simp

lemma path_names_snoc_sep [simp]: "path_names (p @ [sep]) = path_names p"
  using path_names_sep_append [of p "[]"] by simp

lemma path_names_join_name:
  "sep \<notin> set n \<Longrightarrow> n \<noteq> [] \<Longrightarrow> path_names (join_name p n) = path_names p @ [n]"
proof (cases "p = [] \<or> last p \<noteq> sep")
  case False
  then obtain p' where "p = p' @ [sep]" by (metis append_butlast_last_id)
  then show "sep \<notin> set n \<Longrightarrow> n \<noteq> [] \<Longrightarrow> ?thesis"
    by (simp add: join_name_def with_sep_def path_names_sep_append path_names_no_sep)
qed (auto simp: join_name_def with_sep_def path_names_sep_append path_names_no_sep)

lemma path_names_elem: "n \<in> set (path_names t) \<Longrightarrow> sep \<notin> set n \<and> n \<noteq> []"
proof (induction t rule: path_steps.induct)
  case (1 t)
  have "sep \<notin> set (name_part t)" by (auto simp: name_part_def dest: set_takeWhileD)
  with 1 show ?case by (auto simp: path_names_parts [of t] split: if_splits)
qed

lemma path_names_foldl:
  "(\<And>n. n \<in> set ns \<Longrightarrow> sep \<notin> set n \<and> n \<noteq> []) \<Longrightarrow>
   path_names (foldl join_name p ns) = path_names p @ ns"
  by (induction ns arbitrary: p) (auto simp: path_names_join_name)

lemma path_names_join: "path_names (join_text p c) = path_names p @ path_names c"
proof -
  have s: "path_names [sep] = []" using path_names_seps [of "[]"] by simp
  have "path_names (foldl join_name q (path_names c)) = path_names q @ path_names c" for q
    by (rule path_names_foldl) (rule path_names_elem)
  with s show ?thesis by (simp add: join_text_def Let_def)
qed

section \<open>Properties\<close>

text \<open>
  C37: \<^verbatim>\<open>Path::Visit\<close> terminates and calls the visitor once for every non-empty name of the path, from
  left to right, each time with the text that remains behind the name, until the visitor answers
  \<^verbatim>\<open>false\<close>; repeated, leading and trailing separators make no difference. \<^verbatim>\<open>GetDepth\<close>, which counts the
  visits, returns the number of names.
\<close>

theorem Path_Visit_names:
  assumes "sv_text path t" "names_ok t"
  shows "(\<forall>visitor V st. visits visitor V \<longrightarrow>
            Path_Visit path visitor st = visit_names V (path_steps t) st) \<and>
         map fst (path_steps t) = path_names t \<and>
         Path_GetDepth path = Some (length (path_names t))"
proof -
  have count: "visit_names (\<lambda>n r depth. Some (True, depth + 1)) steps k = Some (True, k + length steps)"
    for steps and k :: nat
    by (induction steps arbitrary: k) auto
  have "Path_Visit path (\<lambda>sub_path name depth. Some (True, depth + 1)) 0 =
      visit_names (\<lambda>n r depth. Some (True, depth + 1)) (path_steps t) (0 :: nat)"
    by (rule Visit_steps [OF _ assms]) (simp add: visits_def)
  also have "\<dots> = Some (True, length (path_steps t))" using count by simp
  finally have "Path_Visit path (\<lambda>sub_path name depth. Some (True, depth + 1)) 0 =
      Some (True, length (path_steps t))" .
  then have "Path_GetDepth path = Some (length (path_steps t))"
    using assms(1) names_ok_parts(1) [OF assms(2)] by (simp add: Path_GetDepth_def sv_text_def)
  then have "Path_GetDepth path = Some (length (path_names t))"
    by (metis length_map path_steps_names)
  with Visit_steps [OF _ assms] show ?thesis by (auto simp: path_steps_names)
qed

theorem Path_Visit_names_witness:
  "Path_GetDepth \<lparr>sv_str = Some (''//usr/bin/'' @ [NUL]), sv_len = 10\<rparr> = Some 2 \<and>
   path_names ''//usr/bin/'' = [''usr'', ''bin'']"
proof -
  have n: "path_names ''//usr/bin/'' = [''usr'', ''bin'']" by code_simp
  have "names_ok ''//usr/bin/''" by (simp add: names_ok_def n max_len_def max_name_len_def)
  with n Path_Visit_names [of "\<lparr>sv_str = Some (''//usr/bin/'' @ [NUL]), sv_len = 10\<rparr>" "''//usr/bin/''"]
  show ?thesis by (auto simp: sv_text_def)
qed

text \<open>
  C38: Joining a path object with a child path appends the names of the child to the names of the
  object: the result is the object whose text is \<open>join_text\<close>, its names are the concatenation, and
  the array keeps its terminator and zero filling.
\<close>

theorem Path_Join_names:
  assumes "sv_text v c" "names_ok c" "NUL \<notin> set p" "length (join_text p c) \<le> max_len"
  shows "\<exists>q. Path_Join (path_buf p) v = Some (path_buf q) \<and> q = join_text p c \<and>
             path_names q = path_names p @ path_names c"
  using Join_text [OF assms] path_names_join by blast

theorem Path_Join_names_witness:
  "Path_Join (path_buf ''/usr'') \<lparr>sv_str = Some (''bin/sh'' @ [NUL]), sv_len = 6\<rparr> =
     Some (path_buf ''/usr/bin/sh'')"
proof -
  have n: "path_names ''bin/sh'' = [''bin'', ''sh'']" "join_text ''/usr'' ''bin/sh'' = ''/usr/bin/sh''"
    by code_simp+
  have "names_ok ''bin/sh''" by (simp add: names_ok_def n max_len_def max_name_len_def)
  with n Path_Join_names [of "\<lparr>sv_str = Some (''bin/sh'' @ [NUL]), sv_len = 6\<rparr>" "''bin/sh''" "''/usr''"]
  show ?thesis by (auto simp: sv_text_def max_len_def)
qed

text \<open>
  The path object built from \<^verbatim>\<open>"/"\<close> is not the root directory: \<^verbatim>\<open>Join\<close> first stores the separator
  because the path is absolute and then appends another one because it is a directory, so the
  text is \<^verbatim>\<open>"//"\<close> and \<^verbatim>\<open>IsRootDir\<close>, which compares texts, answers \<^verbatim>\<open>false\<close>. The default
  constructed path, in contrast, is \<^verbatim>\<open>"/"\<close>.
\<close>

theorem Path_root_doubled:
  "Path_ctor root_dir_name = Some (path_buf ''//'') \<and>
   Option.bind (sv_of (path_buf ''//'')) Path_IsRootDir = Some False \<and>
   Path_ctor sv_null = Some (path_buf ''/'')"
proof -
  have t: "sv_text root_dir_name ''/''" "sv_text sv_null []"
    by (auto simp: sv_text_def root_dir_name_def sv_null_def)
  have n: "path_names ''/'' = []" "join_text [] ''/'' = ''//''" "join_text [] [] = ''/''"
    by code_simp+
  then have ok: "names_ok ''/''" "names_ok []"
    by (simp_all add: names_ok_def max_len_def)
  obtain v where v: "sv_of (path_buf ''//'') = Some v" "sv_text v ''//''"
    using sv_of_text [of "path_buf ''//''"] path_buf_cstr [of "''//''"] by (auto simp: max_len_def)
  with IsRootDir_text [OF v(2)] Join_text [OF t(1) ok(1), of "[]"] Join_text [OF t(2) ok(2), of "[]"]
  show ?thesis
    by (simp add: Path_ctor_def path_buf_blank n max_len_def)
qed

end
