(* ===== verification/Threads.thy ===== *)
theory Threads
  imports Strings
begin

text \<open>
  Threads and the scheduler, \<^verbatim>\<open>src/kernel/thread/thd.cpp\<close>, with the clock interrupt handler of
  \<^verbatim>\<open>src/kernel/io/timer.cpp\<close>. A thread is named by the address of its block (the page
  \<^verbatim>\<open>GetCurrThread\<close> computes from \<^verbatim>\<open>ESP\<close>). The ready list and the list of all threads are the lists of
  thread names that the theory \<open>TagLists\<close> abstracts the linked tags to: \<^verbatim>\<open>PushBack\<close>, \<^verbatim>\<open>PushFront\<close>,
  \<^verbatim>\<open>Pop\<close>, \<^verbatim>\<open>Find\<close> and \<^verbatim>\<open>IsEmpty\<close> are the list operations proved for them there. \<^verbatim>\<open>SwitchThread\<close> makes
  another thread the current one; the interrupted operation of the old thread continues when it is
  switched to again, with the interrupt flag that its \<^verbatim>\<open>IntrGuard\<close> (or its interrupt frame) saved,
  which is the field \<open>th_if\<close>. \<^verbatim>\<open>CR3\<close> is the process whose page directory is loaded (\<open>None\<close> for the
  kernel's).
\<close>

section \<open>Threads\<close>

type_synonym tid = nat

datatype status = Died | Ready | Running | Blocked | Waiting | Hanging

record thread =
  th_name :: "char list"
  th_status :: status
  th_priority :: u32
  th_remain :: u32
  th_elapsed :: u32
  th_proc :: "nat option"
  th_krnl_stack :: nat
  th_start :: "(nat \<times> nat) option"
  th_guard :: u32
  th_if :: bool

record sched =
  sc_thd :: "tid \<Rightarrow> thread"
  sc_ready :: "tid list"
  sc_all :: "tid list"
  sc_cur :: tid
  sc_idle :: "tid option"
  sc_main :: "tid option"
  sc_intr :: bool
  sc_cr3 :: "nat option"
  sc_esp0 :: nat
  sc_ticks :: u32
  sc_inited :: bool

definition stack_guard :: u32 where "stack_guard = 0x12345678"
definition name_len :: nat where "name_len = 16"
definition IntrStack_size :: nat where "IntrStack_size = 19 * 4"
definition SwitchStack_size :: nat where "SwitchStack_size = 5 * 4"
definition StartupStack_size :: nat where "StartupStack_size = SwitchStack_size + 3 * 4"

definition upd :: "tid \<Rightarrow> (thread \<Rightarrow> thread) \<Rightarrow> sched \<Rightarrow> sched" where
  "upd t f k = k\<lparr>sc_thd := (sc_thd k)(t := f (sc_thd k t))\<rparr>"

abbreviation status_of :: "sched \<Rightarrow> tid \<Rightarrow> status" where
  "status_of k t \<equiv> th_status (sc_thd k t)"

definition Thread_SetStatus :: "tid \<Rightarrow> status \<Rightarrow> sched \<Rightarrow> sched" where
  "Thread_SetStatus t s = upd t (\<lambda>th. th\<lparr>th_status := s\<rparr>)"

definition Thread_IsKrnlThread :: "tid \<Rightarrow> sched \<Rightarrow> bool" where
  "Thread_IsKrnlThread t k \<longleftrightarrow> th_proc (sc_thd k t) = None"

definition Thread_GetKrnlStackBottom :: "tid \<Rightarrow> nat" where
  "Thread_GetKrnlStackBottom t = t + page_size"

definition Thread_GetIntrStack :: "tid \<Rightarrow> nat" where
  "Thread_GetIntrStack t = Thread_GetKrnlStackBottom t - IntrStack_size"

definition Thread_GetSwitchStack :: "tid \<Rightarrow> nat" where
  "Thread_GetSwitchStack t = Thread_GetIntrStack t - SwitchStack_size"

definition Thread_IsStackValid :: "tid \<Rightarrow> sched \<Rightarrow> bool" where
  "Thread_IsStackValid t k \<longleftrightarrow> th_guard (sc_thd k t) = stack_guard"

definition Thread_ResetTicks :: "tid \<Rightarrow> sched \<Rightarrow> sched" where
  "Thread_ResetTicks t = upd t (\<lambda>th. th\<lparr>th_remain := th_priority th\<rparr>)"

definition Thread_Tick :: "tid \<Rightarrow> sched \<Rightarrow> bool \<times> sched" where
  "Thread_Tick t k =
     (let k = upd t (\<lambda>th. th\<lparr>th_elapsed := th_elapsed th + 1\<rparr>) k
      in if th_remain (sc_thd k t) \<noteq> 0
         then (True, upd t (\<lambda>th. th\<lparr>th_remain := th_remain th - 1\<rparr>) k)
         else (False, k))"

definition Thread_LoadPageDir :: "tid \<Rightarrow> sched \<Rightarrow> sched" where
  "Thread_LoadPageDir t k = k\<lparr>sc_cr3 := th_proc (sc_thd k t)\<rparr>"

definition TaskStateSeg_Update :: "tid \<Rightarrow> sched \<Rightarrow> sched" where
  "TaskStateSeg_Update t k = k\<lparr>sc_esp0 := Thread_GetKrnlStackBottom t\<rparr>"

definition Thread_LoadKrnlEnv :: "tid \<Rightarrow> sched \<Rightarrow> sched" where
  "Thread_LoadKrnlEnv t k =
     (let k = Thread_LoadPageDir t k
      in if \<not> Thread_IsKrnlThread t k then TaskStateSeg_Update t k else k)"

section \<open>Scheduling\<close>

definition Thread_Unblock :: "tid \<Rightarrow> sched \<Rightarrow> sched option" where
  "Thread_Unblock t k = do {
     Assert (status_of k t = Blocked \<or> status_of k t = Hanging \<or> status_of k t = Waiting);
     Assert (t \<notin> set (sc_ready k));
     let k = Thread_SetStatus t Ready k;
     Some (k\<lparr>sc_ready := t # sc_ready k\<rparr>)
   }"

text \<open>
  \<^verbatim>\<open>Schedule\<close> up to and including \<^verbatim>\<open>SwitchThread\<close>. The flag \<open>saved\<close> is the interrupt flag that the
  thread which leaves the CPU gets back when it continues.
\<close>

definition SwitchThread :: "tid \<Rightarrow> tid \<Rightarrow> bool \<Rightarrow> sched \<Rightarrow> sched" where
  "SwitchThread from_thd to_thd saved k =
     (let k = upd from_thd (\<lambda>th. th\<lparr>th_if := saved\<rparr>) k
      in k\<lparr>sc_cur := to_thd, sc_intr := th_if (sc_thd k to_thd)\<rparr>)"

definition Thread_Schedule :: "tid \<Rightarrow> bool \<Rightarrow> sched \<Rightarrow> sched option" where
  "Thread_Schedule t saved k = do {
     Assert (\<not> sc_intr k);
     k \<leftarrow> (if status_of k t = Running then do {
            Assert (t \<notin> set (sc_ready k));
            let k = Thread_SetStatus t Ready (Thread_ResetTicks t k);
            Some (k\<lparr>sc_ready := sc_ready k @ [t]\<rparr>)
          }
          else Some k);
     k \<leftarrow> (if sc_ready k = [] then do {
            idle_thd \<leftarrow> sc_idle k;
            Thread_Unblock idle_thd k
          }
          else Some k);
     Assert (sc_ready k \<noteq> []);
     let next_thd = hd (sc_ready k);
     let k = k\<lparr>sc_ready := tl (sc_ready k)\<rparr>;
     let k = Thread_SetStatus next_thd Running (Thread_LoadKrnlEnv next_thd k);
     Some (SwitchThread t next_thd saved k)
   }"

definition Thread_Block :: "tid \<Rightarrow> status \<Rightarrow> sched \<Rightarrow> sched option" where
  "Thread_Block t status k = do {
     Assert (status = Blocked \<or> status = Hanging \<or> status = Waiting);
     let saved = sc_intr k;
     let k = Thread_SetStatus t status (k\<lparr>sc_intr := False\<rparr>);
     Thread_Schedule t saved k
   }"

definition Thread_Yield :: "tid \<Rightarrow> sched \<Rightarrow> sched option" where
  "Thread_Yield t k = do {
     let saved = sc_intr k;
     let k = k\<lparr>sc_intr := False\<rparr>;
     Assert (t \<notin> set (sc_ready k));
     let k = Thread_SetStatus t Ready k;
     let k = k\<lparr>sc_ready := sc_ready k @ [t]\<rparr>;
     Thread_Schedule t saved k
   }"

text \<open>
  The clock interrupt: the CPU enters the handler with interrupts disabled and the interrupted
  thread continues with interrupts enabled. If the time slice is not used up, the handler returns.
\<close>

definition ClockIntrHandler :: "sched \<Rightarrow> sched option" where
  "ClockIntrHandler k = do {
     let curr_thd = sc_cur k;
     let k = k\<lparr>sc_intr := False\<rparr>;
     Assert (Thread_IsStackValid curr_thd k);
     let k = k\<lparr>sc_ticks := sc_ticks k + 1\<rparr>;
     let (continues, k) = Thread_Tick curr_thd k;
     if \<not> continues then Thread_Schedule curr_thd True k
     else Some (k\<lparr>sc_intr := True\<rparr>)
   }"

text \<open>The number of ticks \<^verbatim>\<open>Sleep\<close> waits for, and its loop condition on the wrapping tick counter.\<close>

definition timer_freq_per_second :: u32 where "timer_freq_per_second = 100"

definition sleep_ticks :: "u32 \<Rightarrow> u32" where
  "sleep_ticks milliseconds =
     RoundUpDivide (max 1 milliseconds) (SecondsToMilliseconds 1 div timer_freq_per_second)"

definition sleep_continues :: "u32 \<Rightarrow> u32 \<Rightarrow> u32 \<Rightarrow> bool" where
  "sleep_continues now start_ticks ticks \<longleftrightarrow> now - start_ticks < ticks"

section \<open>Creation\<close>

definition Thread_Init :: "tid \<Rightarrow> string_view \<Rightarrow> u32 \<Rightarrow> nat option \<Rightarrow> sched \<Rightarrow> sched option" where
  "Thread_Init t name priority proc k = do {
     nm \<leftarrow> (if \<not> sv_empty name then do {
             s \<leftarrow> sv_str name;
             strcpy_s (th_name (sc_thd k t)) (name_len + 1) s
           }
           else Some (th_name (sc_thd k t)));
     main_thd \<leftarrow> sc_main k;
     let k = upd t (\<lambda>th. th\<lparr>th_name := nm, th_guard := stack_guard, th_priority := priority,
               th_remain := priority, th_elapsed := 0,
               th_krnl_stack := Thread_GetKrnlStackBottom t - IntrStack_size - StartupStack_size,
               th_proc := proc,
               th_status := (if main_thd = t then Running else Died)\<rparr>) k;
     Assert (t \<notin> set (sc_all k));
     Some (k\<lparr>sc_all := sc_all k @ [t]\<rparr>)
   }"

text \<open>
  The startup frame runs \<^verbatim>\<open>StartupCallback\<close>, which enables interrupts before it calls the callback.
\<close>

definition Thread_Start :: "tid \<Rightarrow> nat \<Rightarrow> nat \<Rightarrow> sched \<Rightarrow> sched option" where
  "Thread_Start t callback arg k = do {
     Assert (status_of k t = Died);
     let k = upd t (\<lambda>th. th\<lparr>th_start := Some (callback, arg), th_if := True\<rparr>) k;
     let k = Thread_SetStatus t Ready k;
     Assert (t \<notin> set (sc_ready k));
     Some (k\<lparr>sc_ready := sc_ready k @ [t]\<rparr>)
   }"

text \<open>
  \<^verbatim>\<open>Create\<close>, given the page that \<^verbatim>\<open>mem::AllocPages\<close> returned: a zeroed block, or \<^verbatim>\<open>nullptr\<close>, on which
  \<^verbatim>\<open>AssertAlloc\<close> stops.
\<close>

definition blank_thread :: thread where
  "blank_thread = \<lparr>th_name = replicate (name_len + 1) NUL, th_status = Died, th_priority = 0,
     th_remain = 0, th_elapsed = 0, th_proc = None, th_krnl_stack = 0, th_start = None,
     th_guard = 0, th_if = False\<rparr>"

definition Thread_Create ::
    "tid option \<Rightarrow> string_view \<Rightarrow> u32 \<Rightarrow> nat \<Rightarrow> nat \<Rightarrow> nat option \<Rightarrow> sched \<Rightarrow> (tid \<times> sched) option" where
  "Thread_Create page name priority callback arg proc k = do {
     t \<leftarrow> page;
     k \<leftarrow> Thread_Init t name priority proc (upd t (\<lambda>_. blank_thread) k);
     k \<leftarrow> Thread_Start t callback arg k;
     Some (t, k)
   }"

definition Thread_CopyTo :: "tid \<Rightarrow> tid \<Rightarrow> sched \<Rightarrow> sched" where
  "Thread_CopyTo t child k =
     Thread_ResetTicks child
       (upd child (\<lambda>_. (sc_thd k t)\<lparr>th_status := Died, th_elapsed := 0,
          th_krnl_stack := Thread_GetKrnlStackBottom child - IntrStack_size - StartupStack_size\<rparr>) k)"

text \<open>
  \<^verbatim>\<open>Fork\<close>: the child leaves through \<^verbatim>\<open>intr_exit\<close>, whose \<^verbatim>\<open>iret\<close> restores the flags the parent had in
  user mode, where interrupts are enabled.
\<close>

definition Thread_Fork :: "tid \<Rightarrow> tid option \<Rightarrow> sched \<Rightarrow> (tid \<times> sched) option" where
  "Thread_Fork t page k = do {
     child \<leftarrow> page;
     let k = Thread_CopyTo t child k;
     let k = upd child (\<lambda>th. th\<lparr>th_krnl_stack := Thread_GetSwitchStack child, th_if := True\<rparr>) k;
     Assert (status_of k child = Died);
     Assert (child \<notin> set (sc_all k));
     let k = k\<lparr>sc_all := sc_all k @ [child]\<rparr>;
     let k = Thread_SetStatus child Ready k;
     Assert (child \<notin> set (sc_ready k));
     Some (child, k\<lparr>sc_ready := sc_ready k @ [child]\<rparr>)
   }"

definition default_priority :: u32 where "default_priority = 31"

definition KrnlThread_InitMain :: "string_view \<Rightarrow> u32 \<Rightarrow> sched \<Rightarrow> sched option" where
  "KrnlThread_InitMain name priority k = do {
     Assert (sc_main k = None);
     let k = k\<lparr>sc_main := Some (sc_cur k)\<rparr>;
     Thread_Init (sc_cur k) name priority None k
   }"

definition InitIdleThread :: "tid option \<Rightarrow> string_view \<Rightarrow> nat \<Rightarrow> sched \<Rightarrow> sched option" where
  "InitIdleThread page name idle_callback k = do {
     Assert (sc_idle k = None);
     (t, k) \<leftarrow> Thread_Create page name 10 idle_callback 0 None k;
     Some (k\<lparr>sc_idle := Some t\<rparr>)
   }"

definition main_name :: string_view where
  "main_name = \<lparr>sv_str = Some (''main'' @ [NUL]), sv_len = 4\<rparr>"

definition idle_name :: string_view where
  "idle_name = \<lparr>sv_str = Some (''idle'' @ [NUL]), sv_len = 4\<rparr>"

definition InitThread :: "bool \<Rightarrow> tid option \<Rightarrow> nat \<Rightarrow> sched \<Rightarrow> sched option" where
  "InitThread mem_inited idle_page idle_callback k = do {
     Assert (\<not> sc_inited k);
     Assert mem_inited;
     k \<leftarrow> KrnlThread_InitMain main_name default_priority k;
     k \<leftarrow> InitIdleThread idle_page idle_name idle_callback k;
     Some (k\<lparr>sc_inited := True\<rparr>)
   }"

section \<open>The scheduler invariant\<close>

text \<open>
  \<open>sched_pre\<close> holds at every point where \<^verbatim>\<open>Schedule\<close> is called: a thread is in the ready list if and
  only if its status is \<^verbatim>\<open>Ready\<close>, it is there once, nobody but the current thread is \<^verbatim>\<open>Running\<close>, and
  the idle thread exists and was blocked by nobody but itself. \<open>sched_ok\<close> holds between operations:
  in addition the current thread is \<^verbatim>\<open>Running\<close> and its address space and its kernel stack are loaded.
\<close>

definition sched_pre :: "sched \<Rightarrow> bool" where
  "sched_pre k \<longleftrightarrow>
     distinct (sc_ready k) \<and> distinct (sc_all k) \<and> set (sc_ready k) \<subseteq> set (sc_all k) \<and>
     sc_cur k \<in> set (sc_all k) \<and>
     (\<forall>t\<in>set (sc_all k). t \<in> set (sc_ready k) \<longleftrightarrow> status_of k t = Ready) \<and>
     (\<forall>t\<in>set (sc_all k). t \<noteq> sc_cur k \<longrightarrow> status_of k t \<noteq> Running) \<and>
     (case sc_idle k of None \<Rightarrow> False
      | Some i \<Rightarrow> i \<in> set (sc_all k) \<and> status_of k i \<in> {Ready, Running, Blocked})"

definition env_ok :: "sched \<Rightarrow> bool" where
  "env_ok k \<longleftrightarrow> sc_cr3 k = th_proc (sc_thd k (sc_cur k)) \<and>
     (th_proc (sc_thd k (sc_cur k)) \<noteq> None \<longrightarrow> sc_esp0 k = sc_cur k + page_size)"

definition sched_ok :: "sched \<Rightarrow> bool" where
  "sched_ok k \<longleftrightarrow> sched_pre k \<and> status_of k (sc_cur k) = Running \<and> env_ok k"

lemma sched_ok_cur: "sched_ok k \<Longrightarrow> sc_cur k \<notin> set (sc_ready k)"
  by (auto simp: sched_ok_def sched_pre_def)

named_theorems thd_simps \<open>unfolding of the elementary thread operations\<close>

lemmas [thd_simps] = upd_def Thread_SetStatus_def Thread_ResetTicks_def Thread_LoadKrnlEnv_def
  Thread_LoadPageDir_def TaskStateSeg_Update_def Thread_IsKrnlThread_def
  Thread_GetKrnlStackBottom_def SwitchThread_def Let_def

text \<open>The queue \<^verbatim>\<open>Schedule\<close> chooses from, and the choice.\<close>

definition sched_queue :: "tid \<Rightarrow> sched \<Rightarrow> tid list" where
  "sched_queue t k =
     (let q = sc_ready k @ (if status_of k t = Running then [t] else [])
      in if q = [] then (case sc_idle k of Some i \<Rightarrow> [i] | None \<Rightarrow> []) else q)"

text \<open>\<^verbatim>\<open>Schedule\<close> in two halves: the queue is made non-empty, then its head is switched to.\<close>

definition sched_switch :: "tid \<Rightarrow> bool \<Rightarrow> sched \<Rightarrow> sched" where
  "sched_switch t saved k =
     SwitchThread t (hd (sc_ready k)) saved
       (Thread_SetStatus (hd (sc_ready k)) Running
         (Thread_LoadKrnlEnv (hd (sc_ready k)) (k\<lparr>sc_ready := tl (sc_ready k)\<rparr>)))"

lemma Schedule_enqueue:
  assumes "sched_pre k" "\<not> sc_intr k"
  obtains k1 where "Thread_Schedule (sc_cur k) saved k = Some (sched_switch (sc_cur k) saved k1)"
    "sched_pre k1" "sc_ready k1 = sched_queue (sc_cur k) k" "sc_ready k1 \<noteq> []"
    "status_of k1 (sc_cur k) \<noteq> Running" "sc_cur k1 = sc_cur k" "sc_all k1 = sc_all k" "sc_idle k1 = sc_idle k"
    "\<forall>t. th_proc (sc_thd k1 t) = th_proc (sc_thd k t)"
    "\<forall>t. t \<notin> set (sched_queue (sc_cur k) k) \<longrightarrow> status_of k1 t = status_of k t"
proof (cases "status_of k (sc_cur k) = Running")
  case True
  let ?k = "(Thread_SetStatus (sc_cur k) Ready (Thread_ResetTicks (sc_cur k) k))
      \<lparr>sc_ready := sc_ready k @ [sc_cur k]\<rparr>"
  have notin: "sc_cur k \<notin> set (sc_ready k)"
    using assms True by (auto simp: sched_pre_def)
  have "Thread_Schedule (sc_cur k) saved k = Some (sched_switch (sc_cur k) saved ?k)"
    using assms True notin by (simp add: Thread_Schedule_def sched_switch_def thd_simps)
  moreover have "sched_pre ?k"
    using assms True notin by (auto simp: sched_pre_def thd_simps split: option.splits)
  ultimately show thesis
    using True by (intro that [of ?k]) (auto simp: thd_simps sched_queue_def)
next
  case False
  show thesis
  proof (cases "sc_ready k = []")
    case True
    from assms obtain i where i: "sc_idle k = Some i" "i \<in> set (sc_all k)"
      "status_of k i \<in> {Ready, Running, Blocked}"
      by (auto simp: sched_pre_def split: option.splits)
    have b: "status_of k i = Blocked"
      using i assms(1) True False by (auto simp: sched_pre_def)
    let ?k = "(Thread_SetStatus i Ready k)\<lparr>sc_ready := [i]\<rparr>"
    have "Thread_Schedule (sc_cur k) saved k = Some (sched_switch (sc_cur k) saved ?k)"
      using assms False True i b
      by (simp add: Thread_Schedule_def Thread_Unblock_def sched_switch_def thd_simps)
    moreover have "sched_pre ?k"
      using assms(1) False True i b by (auto simp: sched_pre_def thd_simps split: option.splits)
    ultimately show thesis
      using True False i by (intro that [of ?k]) (auto simp: thd_simps sched_queue_def)
  next
    case ne: False
    have "Thread_Schedule (sc_cur k) saved k = Some (sched_switch (sc_cur k) saved k)"
      using assms False ne by (simp add: Thread_Schedule_def sched_switch_def thd_simps)
    then show thesis
      using assms False ne by (intro that [of k]) (auto simp: sched_queue_def)
  qed
qed

lemma sched_switch_ok:
  assumes "sched_pre k" "sc_ready k \<noteq> []" "status_of k (sc_cur k) \<noteq> Running"
  shows "sched_ok (sched_switch (sc_cur k) saved k)"
proof -
  obtain n r where r: "sc_ready k = n # r" using assms(2) by (cases "sc_ready k") auto
  have n: "n \<in> set (sc_all k)" "status_of k n = Ready" "n \<notin> set r"
    using assms(1) r by (auto simp: sched_pre_def)
  have "status_of k t \<noteq> Running" if "t \<in> set (sc_all k)" for t
    using that assms(1,3) by (auto simp: sched_pre_def)
  with assms(1) r n show ?thesis
    by (auto simp: sched_ok_def sched_pre_def env_ok_def sched_switch_def thd_simps split: option.splits)
qed

lemma sched_switch_fields [simp]:
  "sc_cur (sched_switch t saved k) = hd (sc_ready k)" "sc_ready (sched_switch t saved k) = tl (sc_ready k)"
  "sc_all (sched_switch t saved k) = sc_all k" "sc_idle (sched_switch t saved k) = sc_idle k"
  "th_proc (sc_thd (sched_switch t saved k) u) = th_proc (sc_thd k u)"
  "status_of (sched_switch t saved k) u = (if u = hd (sc_ready k) then Running else status_of k u)"
  by (auto simp: sched_switch_def thd_simps)

lemma Schedule_ok:
  assumes "sched_pre k" "\<not> sc_intr k"
  shows "\<exists>k'. Thread_Schedule (sc_cur k) saved k = Some k' \<and> sched_ok k' \<and>
           sc_cur k' # sc_ready k' = sched_queue (sc_cur k) k \<and> sc_all k' = sc_all k \<and>
           sc_idle k' = sc_idle k \<and> (\<forall>t. th_proc (sc_thd k' t) = th_proc (sc_thd k t)) \<and>
           (\<forall>t. t \<notin> set (sched_queue (sc_cur k) k) \<longrightarrow> status_of k' t = status_of k t)"
proof -
  obtain k1 where k1:
    "Thread_Schedule (sc_cur k) saved k = Some (sched_switch (sc_cur k) saved k1)"
    "sched_pre k1" "sc_ready k1 = sched_queue (sc_cur k) k" "sc_ready k1 \<noteq> []"
    "status_of k1 (sc_cur k) \<noteq> Running" "sc_cur k1 = sc_cur k" "sc_all k1 = sc_all k" "sc_idle k1 = sc_idle k"
    "\<forall>t. th_proc (sc_thd k1 t) = th_proc (sc_thd k t)"
    "\<forall>t. t \<notin> set (sched_queue (sc_cur k) k) \<longrightarrow> status_of k1 t = status_of k t"
    by (rule Schedule_enqueue [OF assms, of saved])
  then have "sched_ok (sched_switch (sc_cur k) saved k1)"
    using sched_switch_ok [of k1 saved] by simp
  with k1 show ?thesis by (auto simp flip: k1(3))
qed

section \<open>The operations keep the invariant and do not panic\<close>

lemma set_intr_pre [simp]: "sched_pre (k\<lparr>sc_intr := b\<rparr>) = sched_pre k"
  by (simp add: sched_pre_def split: option.splits)

lemma set_intr_ok [simp]: "sched_ok (k\<lparr>sc_intr := b\<rparr>) = sched_ok k"
  by (simp add: sched_ok_def env_ok_def)

lemma Yield_ok:
  assumes "sched_ok k"
  shows "\<exists>k'. Thread_Yield (sc_cur k) k = Some k' \<and> sched_ok k' \<and>
           sc_cur k' # sc_ready k' = sc_ready k @ [sc_cur k] \<and> sc_all k' = sc_all k \<and> sc_idle k' = sc_idle k \<and>
           (\<forall>t. t \<notin> set (sc_ready k @ [sc_cur k]) \<longrightarrow> status_of k' t = status_of k t)"
proof -
  let ?k = "(Thread_SetStatus (sc_cur k) Ready (k\<lparr>sc_intr := False\<rparr>))\<lparr>sc_ready := sc_ready k @ [sc_cur k]\<rparr>"
  have pre: "sched_pre ?k" "\<not> sc_intr ?k" "sc_cur ?k = sc_cur k"
    using assms sched_ok_cur [OF assms]
    by (auto simp: sched_ok_def sched_pre_def thd_simps split: option.splits)
  have q: "sched_queue (sc_cur k) ?k = sc_ready k @ [sc_cur k]"
    by (simp add: sched_queue_def thd_simps)
  have "Thread_Yield (sc_cur k) k = Thread_Schedule (sc_cur k) (sc_intr k) ?k"
    using sched_ok_cur [OF assms] by (simp add: Thread_Yield_def thd_simps)
  with Schedule_ok [OF pre(1,2), of "sc_intr k"] show ?thesis
    by (auto simp: pre(3) q) (auto simp: thd_simps)
qed

lemma Block_ok:
  assumes "sched_ok k" "s \<in> {Blocked, Hanging, Waiting}" "sc_idle k = Some (sc_cur k) \<Longrightarrow> s = Blocked"
  shows "\<exists>k'. Thread_Block (sc_cur k) s k = Some k' \<and> sched_ok k' \<and>
           sc_cur k' # sc_ready k' = (if sc_ready k = [] then [the (sc_idle k)] else sc_ready k) \<and>
           sc_all k' = sc_all k \<and> sc_idle k' = sc_idle k \<and>
           (\<forall>t. t \<noteq> sc_cur k' \<longrightarrow> status_of k' t = (if t = sc_cur k then s else status_of k t))"
proof -
  let ?k = "Thread_SetStatus (sc_cur k) s (k\<lparr>sc_intr := False\<rparr>)"
  have pre: "sched_pre ?k" "\<not> sc_intr ?k" "sc_cur ?k = sc_cur k"
    using assms sched_ok_cur [OF assms(1)]
    by (auto simp: sched_ok_def sched_pre_def thd_simps split: option.splits)
  obtain i where i: "sc_idle k = Some i"
    using assms(1) by (auto simp: sched_ok_def sched_pre_def split: option.splits)
  have q: "sched_queue (sc_cur k) ?k = (if sc_ready k = [] then [the (sc_idle k)] else sc_ready k)"
    using assms(2) i by (auto simp: sched_queue_def thd_simps)
  have b: "Thread_Schedule (sc_cur k) (sc_intr k) ?k = Thread_Block (sc_cur k) s k"
    using assms(2) by (auto simp: Thread_Block_def thd_simps)
  have f: "sc_all ?k = sc_all k" "sc_idle ?k = sc_idle k"
    by (simp_all add: thd_simps)
  from Schedule_ok [OF pre(1,2), of "sc_intr k", unfolded pre(3) q f b] obtain k' where k':
    "Thread_Block (sc_cur k) s k = Some k'" "sched_ok k'"
    "sc_cur k' # sc_ready k' = (if sc_ready k = [] then [the (sc_idle k)] else sc_ready k)"
    "sc_all k' = sc_all k" "sc_idle k' = sc_idle k"
    and st: "\<forall>t. t \<notin> set (if sc_ready k = [] then [the (sc_idle k)] else sc_ready k) \<longrightarrow>
      status_of k' t = status_of ?k t"
    by blast
  have "status_of k' t = (if t = sc_cur k then s else status_of k t)" if "t \<noteq> sc_cur k'" for t
  proof (cases "t \<in> set (sc_ready k')")
    case True
    then have "t \<in> set (sc_all k')" "status_of k' t = Ready"
      using k'(2) by (auto simp: sched_ok_def sched_pre_def)
    moreover from True have "t \<in> set (sc_ready k)"
      using k'(3) by (cases "sc_ready k") auto
    moreover from this have "status_of k t = Ready" "t \<noteq> sc_cur k"
      using assms(1) k'(4) by (auto simp: sched_ok_def sched_pre_def)
    ultimately show ?thesis by simp
  next
    case False
    with that st [folded k'(3)] show ?thesis by (simp add: thd_simps)
  qed
  with k' show ?thesis by blast
qed

lemma Unblock_ok:
  assumes "sched_ok k" "t \<in> set (sc_all k)" "status_of k t \<in> {Blocked, Hanging, Waiting}"
  shows "\<exists>k'. Thread_Unblock t k = Some k' \<and> sched_ok k' \<and> sc_cur k' = sc_cur k \<and>
           sc_ready k' = t # sc_ready k \<and> sc_all k' = sc_all k \<and> sc_idle k' = sc_idle k \<and>
           sc_intr k' = sc_intr k \<and>
           (\<forall>u. status_of k' u = (if u = t then Ready else status_of k u))"
proof -
  have "t \<notin> set (sc_ready k)" "t \<noteq> sc_cur k"
    using assms by (auto simp: sched_ok_def sched_pre_def)
  with assms show ?thesis
    by (auto simp: Thread_Unblock_def thd_simps sched_ok_def sched_pre_def env_ok_def split: option.splits)
qed

lemma Tick_cases:
  obtains (left) k' where "Thread_Tick t k = (True, k')" "th_remain (sc_thd k t) \<noteq> 0"
      "k' = upd t (\<lambda>th. th\<lparr>th_elapsed := th_elapsed th + 1, th_remain := th_remain th - 1\<rparr>) k"
  | (over) k' where "Thread_Tick t k = (False, k')" "th_remain (sc_thd k t) = 0"
      "k' = upd t (\<lambda>th. th\<lparr>th_elapsed := th_elapsed th + 1\<rparr>) k"
  by (cases "th_remain (sc_thd k t) = 0") (auto simp: Thread_Tick_def thd_simps)

lemma Clock_ok:
  assumes "sched_ok k" "Thread_IsStackValid (sc_cur k) k"
  shows "\<exists>k'. ClockIntrHandler k = Some k' \<and> sched_ok k' \<and> sc_all k' = sc_all k \<and> sc_idle k' = sc_idle k \<and>
           sc_cur k' # sc_ready k' =
             (if th_remain (sc_thd k (sc_cur k)) = 0 then sc_ready k @ [sc_cur k] else sc_cur k # sc_ready k) \<and>
           (\<forall>t. t \<notin> set (sc_ready k @ [sc_cur k]) \<longrightarrow> status_of k' t = status_of k t)"
proof -
  let ?k = "k\<lparr>sc_intr := False, sc_ticks := sc_ticks k + 1\<rparr>"
  show ?thesis
  proof (rule Tick_cases [of "sc_cur k" ?k])
    fix k' assume k': "Thread_Tick (sc_cur k) ?k = (True, k')" "th_remain (sc_thd ?k (sc_cur k)) \<noteq> 0"
      "k' = upd (sc_cur k) (\<lambda>th. th\<lparr>th_elapsed := th_elapsed th + 1, th_remain := th_remain th - 1\<rparr>) ?k"
    have "sched_ok (k'\<lparr>sc_intr := True\<rparr>)"
      using assms(1) k'(3) by (auto simp: sched_ok_def sched_pre_def env_ok_def upd_def split: option.splits)
    with assms(2) k' show ?thesis
      by (auto simp: ClockIntrHandler_def Thread_IsStackValid_def Let_def upd_def)
  next
    fix k' assume k': "Thread_Tick (sc_cur k) ?k = (False, k')" "th_remain (sc_thd ?k (sc_cur k)) = 0"
      "k' = upd (sc_cur k) (\<lambda>th. th\<lparr>th_elapsed := th_elapsed th + 1\<rparr>) ?k"
    have pre: "sched_pre k'" "\<not> sc_intr k'" "sc_cur k' = sc_cur k" "status_of k' (sc_cur k) = Running"
      using assms(1) k'(3) by (auto simp: sched_ok_def sched_pre_def upd_def split: option.splits)
    then have q: "sched_queue (sc_cur k) k' = sc_ready k @ [sc_cur k]"
      using k'(3) by (simp add: sched_queue_def upd_def)
    have "ClockIntrHandler k = Thread_Schedule (sc_cur k) True k'"
      using assms(2) k'(1) by (simp add: ClockIntrHandler_def Thread_IsStackValid_def Let_def)
    moreover have f: "sc_all k' = sc_all k" "sc_idle k' = sc_idle k" "\<And>t. status_of k' t = status_of k t"
      and z: "th_remain (sc_thd k (sc_cur k)) = 0"
      using k'(2) by (auto simp: k'(3) upd_def)
    ultimately show ?thesis
      using Schedule_ok [OF pre(1,2), of True] unfolding pre(3) q f by (simp add: z) metis
  qed
qed

text \<open>
  Creating a thread in a fresh page: the new thread joins both lists and nothing else changes.
\<close>

definition name_ok :: "string_view \<Rightarrow> bool" where
  "name_ok v \<longleftrightarrow> sv_empty v \<or> (case sv_str v of None \<Rightarrow> False | Some s \<Rightarrow> NUL \<in> set s)"

lemma Thread_Init_eq:
  assumes "name_ok name" "sc_main k = Some m" "t \<notin> set (sc_all k)" "length (th_name (sc_thd k t)) = name_len + 1"
  shows "\<exists>nm. length nm = name_len + 1 \<and> Thread_Init t name priority proc k =
     Some ((upd t (\<lambda>th. th\<lparr>th_name := nm, th_guard := stack_guard, th_priority := priority,
               th_remain := priority, th_elapsed := 0,
               th_krnl_stack := Thread_GetKrnlStackBottom t - IntrStack_size - StartupStack_size,
               th_proc := proc,
               th_status := (if m = t then Running else Died)\<rparr>) k)\<lparr>sc_all := sc_all k @ [t]\<rparr>)"
proof (cases "sv_empty name")
  case True
  with assms show ?thesis by (auto simp: Thread_Init_def upd_def Let_def)
next
  case False
  with assms(1) obtain s where s: "sv_str name = Some s" "NUL \<in> set s"
    by (auto simp: name_ok_def split: option.splits)
  with strcpy_s_eq [of s "name_len + 1" "th_name (sc_thd k t)"] assms(4) obtain nm
    where "strcpy_s (th_name (sc_thd k t)) (name_len + 1) s = Some nm" "length nm = name_len + 1"
    by auto
  with False s assms show ?thesis by (auto simp: Thread_Init_def upd_def Let_def)
qed

lemma Create_ok:
  assumes "sched_ok k" "name_ok name" "sc_main k = Some m" "m \<in> set (sc_all k)" "t \<notin> set (sc_all k)"
  shows "\<exists>k'. Thread_Create (Some t) name priority callback arg proc k = Some (t, k') \<and> sched_ok k' \<and>
           sc_cur k' = sc_cur k \<and> sc_ready k' = sc_ready k @ [t] \<and> sc_all k' = sc_all k @ [t] \<and>
           sc_idle k' = sc_idle k \<and> sc_main k' = sc_main k \<and> th_proc (sc_thd k' t) = proc \<and>
           th_remain (sc_thd k' t) = priority \<and> th_start (sc_thd k' t) = Some (callback, arg) \<and>
           Thread_IsStackValid t k' \<and> (\<forall>u. u \<noteq> t \<longrightarrow> sc_thd k' u = sc_thd k u)"
proof -
  let ?k = "upd t (\<lambda>_. blank_thread) k"
  have mt: "m \<noteq> t" "t \<noteq> sc_cur k" "t \<notin> set (sc_ready k)" "sc_idle k \<noteq> Some t"
    using assms by (auto simp: sched_ok_def sched_pre_def split: option.splits)
  have "length (th_name (sc_thd ?k t)) = name_len + 1"
    by (simp add: upd_def blank_thread_def)
  with Thread_Init_eq [of name ?k m t priority proc] assms obtain nm where
    i: "Thread_Init t name priority proc ?k = Some ((upd t (\<lambda>th. th\<lparr>th_name := nm, th_guard := stack_guard, th_priority := priority,
               th_remain := priority, th_elapsed := 0,
               th_krnl_stack := Thread_GetKrnlStackBottom t - IntrStack_size - StartupStack_size,
               th_proc := proc,
               th_status := (if m = t then Running else Died)\<rparr>) ?k)\<lparr>sc_all := sc_all k @ [t]\<rparr>)"
    by (auto simp: upd_def)
  have "\<exists>k'. Thread_Create (Some t) name priority callback arg proc k = Some (t, k') \<and>
      k' = k\<lparr>sc_thd := (sc_thd k)(t := sc_thd k' t), sc_ready := sc_ready k @ [t], sc_all := sc_all k @ [t]\<rparr> \<and>
      status_of k' t = Ready \<and> th_proc (sc_thd k' t) = proc \<and> th_remain (sc_thd k' t) = priority \<and>
      th_start (sc_thd k' t) = Some (callback, arg) \<and> th_guard (sc_thd k' t) = stack_guard"
    using mt by (simp add: Thread_Create_def i) (simp add: Thread_Start_def thd_simps)
  then obtain k' th where "Thread_Create (Some t) name priority callback arg proc k = Some (t, k')"
      "k' = k\<lparr>sc_thd := (sc_thd k)(t := th), sc_ready := sc_ready k @ [t], sc_all := sc_all k @ [t]\<rparr>"
      "th_status th = Ready" "th_proc th = proc" "th_remain th = priority"
      "th_start th = Some (callback, arg)" "th_guard th = stack_guard"
    by blast
  moreover from this mt have "sched_ok k'"
    using assms(1,5) by (auto simp: sched_ok_def sched_pre_def env_ok_def split: option.splits)
  ultimately show ?thesis by (auto simp: Thread_IsStackValid_def)
qed

section \<open>Reachable states\<close>

text \<open>
  What may happen to the scheduler from the outside: a clock interrupt, the current thread yields
  or blocks, somebody unblocks a thread that is blocked, a thread is created in a fresh page. The
  idle thread blocks itself with the status \<^verbatim>\<open>Blocked\<close> only.
\<close>

inductive sched_step :: "sched \<Rightarrow> sched \<Rightarrow> bool" where
  clock: "sc_intr k \<Longrightarrow> Thread_IsStackValid (sc_cur k) k \<Longrightarrow> ClockIntrHandler k = Some k' \<Longrightarrow> sched_step k k'"
| yield: "Thread_Yield (sc_cur k) k = Some k' \<Longrightarrow> sched_step k k'"
| block: "s \<in> {Blocked, Hanging, Waiting} \<Longrightarrow> (sc_idle k = Some (sc_cur k) \<longrightarrow> s = Blocked) \<Longrightarrow>
    Thread_Block (sc_cur k) s k = Some k' \<Longrightarrow> sched_step k k'"
| unblock: "t \<in> set (sc_all k) \<Longrightarrow> status_of k t \<in> {Blocked, Hanging, Waiting} \<Longrightarrow>
    Thread_Unblock t k = Some k' \<Longrightarrow> sched_step k k'"
| create: "name_ok name \<Longrightarrow> sc_main k = Some m \<Longrightarrow> m \<in> set (sc_all k) \<Longrightarrow> t \<notin> set (sc_all k) \<Longrightarrow>
    Thread_Create (Some t) name priority callback arg proc k = Some (t, k') \<Longrightarrow> sched_step k k'"

inductive_cases sched_stepE: "sched_step k k'"

lemma sched_step_ok: "sched_step k k' \<Longrightarrow> sched_ok k \<Longrightarrow> sched_ok k'"
proof (induction rule: sched_step.induct)
  case (clock k k')
  with Clock_ok [of k] show ?case by auto
next
  case (yield k k')
  with Yield_ok [of k] show ?case by auto
next
  case (block s k k')
  then have "\<exists>k''. Thread_Block (sc_cur k) s k = Some k'' \<and> sched_ok k''"
    using Block_ok [of k s] by blast
  with block show ?case by auto
next
  case (unblock t k k')
  with Unblock_ok [of k t] show ?case by auto
next
  case (create name k m t priority callback arg proc k')
  with Create_ok [of k name m t priority callback arg proc] show ?case by auto
qed

lemma sched_reach_ok: "sched_step\<^sup>*\<^sup>* k k' \<Longrightarrow> sched_ok k \<Longrightarrow> sched_ok k'"
  by (induction rule: rtranclp_induct) (auto intro: sched_step_ok)

section \<open>Initialisation and round robin\<close>

text \<open>The state in which \<^verbatim>\<open>InitThread\<close> is called: only the boot thread exists, outside of the lists.\<close>

definition boot_state :: "tid \<Rightarrow> sched" where
  "boot_state t = \<lparr>sc_thd = (\<lambda>_. blank_thread), sc_ready = [], sc_all = [], sc_cur = t, sc_idle = None,
     sc_main = None, sc_intr = False, sc_cr3 = None, sc_esp0 = 0, sc_ticks = 0, sc_inited = False\<rparr>"

lemma InitThread_ok:
  assumes "i \<noteq> t"
  shows "\<exists>k. InitThread True (Some i) cb (boot_state t) = Some k \<and> sched_ok k \<and>
           sc_cur k = t \<and> sc_ready k = [i] \<and> sc_all k = [t, i] \<and> sc_idle k = Some i \<and> sc_main k = Some t"
proof -
  let ?b = "(boot_state t)\<lparr>sc_main := Some t\<rparr>"
  have nm: "name_ok main_name" "name_ok idle_name"
    by (auto simp: name_ok_def main_name_def idle_name_def)
  have len: "length (th_name (sc_thd ?b t)) = name_len + 1" "length (th_name blank_thread) = name_len + 1"
    by (simp_all add: boot_state_def blank_thread_def)
  obtain n1 k1 where k1: "KrnlThread_InitMain main_name default_priority (boot_state t) = Some k1"
    "k1 = (upd t (\<lambda>th. th\<lparr>th_name := n1, th_guard := stack_guard, th_priority := default_priority,
               th_remain := default_priority, th_elapsed := 0,
               th_krnl_stack := Thread_GetKrnlStackBottom t - IntrStack_size - StartupStack_size,
               th_proc := None, th_status := Running\<rparr>) ?b)\<lparr>sc_all := [t]\<rparr>"
    using Thread_Init_eq [OF nm(1) _ _ len(1), of t default_priority None]
    by (auto simp: KrnlThread_InitMain_def Let_def) (auto simp: boot_state_def)
  have "length (th_name (sc_thd (upd i (\<lambda>_. blank_thread) k1) i)) = name_len + 1"
    by (simp add: upd_def len)
  then obtain n2 k2 where k2: "Thread_Init i idle_name 10 None (upd i (\<lambda>_. blank_thread) k1) = Some k2"
    "k2 = (upd i (\<lambda>th. th\<lparr>th_name := n2, th_guard := stack_guard, th_priority := 10,
               th_remain := 10, th_elapsed := 0,
               th_krnl_stack := Thread_GetKrnlStackBottom i - IntrStack_size - StartupStack_size,
               th_proc := None, th_status := Died\<rparr>) (upd i (\<lambda>_. blank_thread) k1))\<lparr>sc_all := [t, i]\<rparr>"
    using Thread_Init_eq [OF nm(2), of "upd i (\<lambda>_. blank_thread) k1" t i 10 None] assms
    by (auto simp: k1(2) upd_def boot_state_def)
  have s: "\<not> sc_inited (boot_state t)" "sc_idle k1 = None" "status_of k2 i = Died" "sc_ready k2 = []"
    by (simp_all add: k1(2) k2(2) boot_state_def upd_def)
  let ?k = "(Thread_SetStatus i Ready (upd i (\<lambda>th. th\<lparr>th_start := Some (cb, 0), th_if := True\<rparr>) k2))
      \<lparr>sc_ready := [i], sc_idle := Some i, sc_inited := True\<rparr>"
  have "InitThread True (Some i) cb (boot_state t) = Some ?k"
    by (simp add: InitThread_def s k1(1) InitIdleThread_def Thread_Create_def k2(1))
      (simp add: Thread_Start_def Let_def upd_def Thread_SetStatus_def s)
  moreover have "sched_ok ?k"
    using assms by (simp add: k1(2) k2(2) boot_state_def upd_def Thread_SetStatus_def sched_ok_def
        sched_pre_def env_ok_def blank_thread_def)
  ultimately show ?thesis by (simp add: k1(2) k2(2) boot_state_def upd_def Thread_SetStatus_def)
qed

text \<open>A forced switch: the running thread's slice is used up.\<close>

definition preempt :: "sched \<Rightarrow> sched option" where
  "preempt k = Thread_Schedule (sc_cur k) True (k\<lparr>sc_intr := False\<rparr>)"

fun preempts :: "nat \<Rightarrow> sched \<Rightarrow> sched option" where
  "preempts 0 k = Some k"
| "preempts (Suc n) k = do { k \<leftarrow> preempt k; preempts n k }"

lemma preempt_rotates:
  assumes "sched_ok k"
  shows "\<exists>k'. preempt k = Some k' \<and> sched_ok k' \<and> sc_all k' = sc_all k \<and>
           sc_cur k' # sc_ready k' = rotate1 (sc_cur k # sc_ready k)"
proof -
  have "sched_pre (k\<lparr>sc_intr := False\<rparr>)" using assms by (simp add: sched_ok_def)
  from Schedule_ok [OF this, of True] assms show ?thesis
    by (auto simp: preempt_def sched_queue_def sched_ok_def)
qed

lemma preempts_rotate:
  "sched_ok k \<Longrightarrow> \<exists>k'. preempts n k = Some k' \<and> sched_ok k' \<and>
     sc_cur k' # sc_ready k' = rotate n (sc_cur k # sc_ready k)"
proof (induction n arbitrary: k)
  case (Suc n)
  from preempt_rotates [OF Suc.prems] obtain k1 where k1: "preempt k = Some k1" "sched_ok k1"
    "sc_cur k1 # sc_ready k1 = rotate1 (sc_cur k # sc_ready k)" by blast
  with Suc.IH [OF k1(2)] show ?case by (simp add: k1(3) rotate1_rotate_swap del: rotate1.simps)
qed simp

section \<open>Properties\<close>

text \<open>
  \<^verbatim>\<open>Thread::Schedule\<close> is first come, first served: with interrupts disabled and the scheduler's
  queues consistent, it never panics; it appends the caller to the ready list if the caller is still
  running, takes the first thread of that list (or the idle thread if it is empty) and makes it the
  only running thread, with its address space and kernel stack loaded; no other thread changes its
  status.
\<close>

theorem Thread_Schedule_fifo:
  assumes "sched_pre k" "\<not> sc_intr k"
  shows "\<exists>k'. Thread_Schedule (sc_cur k) saved k = Some k' \<and> sched_ok k' \<and>
           sc_cur k' # sc_ready k' = sched_queue (sc_cur k) k \<and> sc_all k' = sc_all k \<and>
           sc_cr3 k' = th_proc (sc_thd k (sc_cur k')) \<and>
           (\<forall>t. t \<notin> set (sched_queue (sc_cur k) k) \<longrightarrow> status_of k' t = status_of k t)"
  using Schedule_ok [OF assms, of saved] by (auto simp: sched_ok_def env_ok_def)

definition two_threads :: sched where
  "two_threads = (boot_state 4096)\<lparr>sc_thd := (\<lambda>t. blank_thread\<lparr>th_status := (if t = 4096 then Running else Ready)\<rparr>),
     sc_all := [4096, 8192], sc_ready := [8192], sc_idle := Some 8192\<rparr>"

lemma two_threads_ok: "sched_ok two_threads"
  by (simp add: two_threads_def boot_state_def sched_ok_def sched_pre_def env_ok_def blank_thread_def)

theorem Thread_Schedule_fifo_witness:
  "\<exists>k'. Thread_Schedule 4096 True two_threads = Some k' \<and> sc_cur k' = 8192 \<and> sc_ready k' = [4096]"
proof -
  have "sched_pre two_threads" using two_threads_ok by (simp add: sched_ok_def)
  moreover have "\<not> sc_intr two_threads" "sc_cur two_threads = 4096"
    "sched_queue 4096 two_threads = [8192, 4096]"
    by (simp_all add: two_threads_def boot_state_def sched_queue_def blank_thread_def)
  ultimately show ?thesis
    using Thread_Schedule_fifo [of two_threads True] by auto
qed



text \<open>
  C10: Round robin: when threads only lose the CPU because their time slice ends, the running thread
  and the ready list rotate, so the thread at position \<open>j\<close> of the ready list runs after exactly
  \<open>j + 1\<close> switches; no ready thread starves.
\<close>

theorem round_robin_no_starvation:
  assumes "sched_ok k" "j < length (sc_ready k)"
  shows "\<exists>k'. preempts (Suc j) k = Some k' \<and> sched_ok k' \<and> sc_cur k' = sc_ready k ! j \<and>
           sc_cur k' # sc_ready k' = rotate (Suc j) (sc_cur k # sc_ready k)"
proof -
  from preempts_rotate [OF assms(1), of "Suc j"] obtain k' where k': "preempts (Suc j) k = Some k'"
    "sched_ok k'" "sc_cur k' # sc_ready k' = rotate (Suc j) (sc_cur k # sc_ready k)" by blast
  have "sc_cur k' = rotate (Suc j) (sc_cur k # sc_ready k) ! 0"
    by (metis k'(3) nth_Cons_0)
  also have "\<dots> = sc_ready k ! j"
    using assms(2) nth_rotate [of 0 "sc_cur k # sc_ready k" "Suc j"] by simp
  finally show ?thesis using k' by blast
qed

theorem round_robin_no_starvation_witness:
  "\<exists>k'. preempts 1 two_threads = Some k' \<and> sc_cur k' = 8192"
proof -
  have "sc_ready two_threads = [8192]" by (simp add: two_threads_def)
  with round_robin_no_starvation [OF two_threads_ok, of 0] show ?thesis by auto
qed

end
