(* ===== verification/Sync.thy ===== *)
theory Sync
  imports Threads
begin

text \<open>
  Semaphores and mutexes, \<^verbatim>\<open>include/kernel/thread/sync.h\<close> and \<^verbatim>\<open>src/kernel/thread/sync.cpp\<close>, under all
  interleavings that the clock interrupt allows. \<^verbatim>\<open>Lock\<close> and \<^verbatim>\<open>Unlock\<close> are not atomic in the code: a
  thread may lose the CPU between any two statements outside the interrupt guard of the semaphore
  operations, and inside \<^verbatim>\<open>Decrease\<close> when it blocks. The model therefore has one definition per
  uninterruptible piece and a program counter per thread that says which piece comes next; the step
  relation runs the pieces of any number of threads and mutexes in any order the scheduler of the
  theory \<open>Threads\<close> produces.
\<close>

section \<open>Semaphores\<close>

record semaphore =
  sem_max :: nat
  sem_val :: nat
  sem_waiters :: "tid list"

definition Semaphore_Init :: "nat \<Rightarrow> semaphore \<Rightarrow> semaphore option" where
  "Semaphore_Init val s = do {
     Assert (val \<le> sem_max s);
     Some (s\<lparr>sem_val := val\<rparr>)
   }"

definition Semaphore_Increase :: "semaphore \<Rightarrow> sched \<Rightarrow> (semaphore \<times> sched) option" where
  "Semaphore_Increase s k = do {
     Assert (sem_val s \<le> sem_max s);
     if sem_val s \<noteq> sem_max s then do {
       (s, k) \<leftarrow> (if sem_waiters s \<noteq> [] then do {
                   let next_thd = hd (sem_waiters s);
                   let s = s\<lparr>sem_waiters := tl (sem_waiters s)\<rparr>;
                   k \<leftarrow> Thread_Unblock next_thd k;
                   Some (s, k)
                 }
                 else Some (s, k));
       Some (s\<lparr>sem_val := sem_val s + 1\<rparr>, k)
     }
     else Some (s, k)
   }"

text \<open>
  One evaluation of the loop condition of \<^verbatim>\<open>Decrease\<close> by the current thread, interrupts being
  disabled by its guard. The result tells whether the semaphore was taken; if not, the thread was
  queued and blocked, and evaluates the condition again when it is scheduled next.
\<close>

definition Semaphore_Decrease :: "semaphore \<Rightarrow> sched \<Rightarrow> (bool \<times> semaphore \<times> sched) option" where
  "Semaphore_Decrease s k =
     (if sem_val s = 0 then do {
        let curr_thd = sc_cur k;
        Assert (curr_thd \<notin> set (sem_waiters s));
        let s = s\<lparr>sem_waiters := sem_waiters s @ [curr_thd]\<rparr>;
        k \<leftarrow> Thread_Block curr_thd Blocked k;
        Some (False, s, k)
      }
      else Some (True, s\<lparr>sem_val := sem_val s - 1\<rparr>, k))"

section \<open>Mutexes\<close>

record mutex =
  mx_sema :: semaphore
  mx_holder :: "tid option"
  mx_repeat :: nat

definition Mutex_default :: mutex where
  "Mutex_default = \<lparr>mx_sema = \<lparr>sem_max = 1, sem_val = 1, sem_waiters = []\<rparr>, mx_holder = None, mx_repeat = 0\<rparr>"

text \<open>
  The pieces of \<^verbatim>\<open>Lock\<close>: the test of the holder (\<open>True\<close>: the semaphore has to be taken), and the two
  assignments after \<^verbatim>\<open>Decrease\<close>.
\<close>

definition Mutex_LockCheck :: "tid \<Rightarrow> mutex \<Rightarrow> (bool \<times> mutex) option" where
  "Mutex_LockCheck curr_thd m =
     (if mx_holder m \<noteq> Some curr_thd then Some (True, m)
      else do {
        Assert (mx_repeat m > 0);
        Some (False, m\<lparr>mx_repeat := mx_repeat m + 1\<rparr>)
      })"

definition Mutex_LockHolder :: "tid \<Rightarrow> mutex \<Rightarrow> mutex" where
  "Mutex_LockHolder curr_thd m = m\<lparr>mx_holder := Some curr_thd\<rparr>"

definition Mutex_LockRepeat :: "mutex \<Rightarrow> mutex option" where
  "Mutex_LockRepeat m = do {
     Assert (mx_repeat m = 0);
     Some (m\<lparr>mx_repeat := 1\<rparr>)
   }"

text \<open>The pieces of \<^verbatim>\<open>Unlock\<close> before \<^verbatim>\<open>Increase\<close> (\<open>True\<close>: the mutex is given back).\<close>

definition Mutex_UnlockCheck :: "tid \<Rightarrow> mutex \<Rightarrow> (bool \<times> mutex) option" where
  "Mutex_UnlockCheck curr_thd m = do {
     Assert (mx_holder m = Some curr_thd);
     if mx_repeat m = 1 then Some (True, m\<lparr>mx_repeat := 0\<rparr>)
     else do {
       Assert (mx_repeat m > 1);
       Some (False, m\<lparr>mx_repeat := mx_repeat m - 1\<rparr>)
     }
   }"

definition Mutex_UnlockHolder :: "mutex \<Rightarrow> mutex" where
  "Mutex_UnlockHolder m = m\<lparr>mx_holder := None\<rparr>"

section \<open>Interleavings\<close>

text \<open>
  Where a thread stands in \<^verbatim>\<open>Lock\<close> or \<^verbatim>\<open>Unlock\<close> of a mutex: in the loop of \<^verbatim>\<open>Decrease\<close> (with the
  interrupt flag its guard saved), behind it, between the two assignments of \<^verbatim>\<open>Lock\<close>, between the two
  assignments of \<^verbatim>\<open>Unlock\<close>, before \<^verbatim>\<open>Increase\<close>.
\<close>

datatype phase = PDec bool | PGot | PHold | PReset | PRelease

type_synonym pcs = "tid \<Rightarrow> (nat \<times> phase) option"

record sync =
  sy_k :: sched
  sy_mx :: "nat \<Rightarrow> mutex"
  sy_pc :: pcs

definition set_mx :: "nat \<Rightarrow> mutex \<Rightarrow> sync \<Rightarrow> sync" where
  "set_mx m x s = s\<lparr>sy_mx := (sy_mx s)(m := x)\<rparr>"

definition set_pc :: "tid \<Rightarrow> (nat \<times> phase) option \<Rightarrow> sync \<Rightarrow> sync" where
  "set_pc t p s = s\<lparr>sy_pc := (sy_pc s)(t := p)\<rparr>"

text \<open>
  The steps of the current thread \<open>t\<close>, and what the rest of the kernel may do: interrupts, yielding,
  and blocking and unblocking of threads that are not inside a mutex operation. The idle thread
  takes no mutex.
\<close>

inductive sync_step :: "sync \<Rightarrow> sync \<Rightarrow> bool" where
  lock_first: "t = sc_cur (sy_k s) \<Longrightarrow> sy_pc s t = None \<Longrightarrow> sc_idle (sy_k s) \<noteq> Some t \<Longrightarrow>
    Mutex_LockCheck t (sy_mx s m) = Some (True, x) \<Longrightarrow>
    sync_step s (set_pc t (Some (m, PDec (sc_intr (sy_k s)))) (set_mx m x (s\<lparr>sy_k := (sy_k s)\<lparr>sc_intr := False\<rparr>\<rparr>)))"
| lock_again: "t = sc_cur (sy_k s) \<Longrightarrow> sy_pc s t = None \<Longrightarrow>
    Mutex_LockCheck t (sy_mx s m) = Some (False, x) \<Longrightarrow> sync_step s (set_mx m x s)"
| decrease: "t = sc_cur (sy_k s) \<Longrightarrow> sy_pc s t = Some (m, PDec saved) \<Longrightarrow>
    Semaphore_Decrease (mx_sema (sy_mx s m)) (sy_k s) = Some (True, sem, k) \<Longrightarrow>
    sync_step s (set_pc t (Some (m, PGot)) (set_mx m ((sy_mx s m)\<lparr>mx_sema := sem\<rparr>) (s\<lparr>sy_k := k\<lparr>sc_intr := saved\<rparr>\<rparr>)))"
| wait: "t = sc_cur (sy_k s) \<Longrightarrow> sy_pc s t = Some (m, PDec saved) \<Longrightarrow>
    Semaphore_Decrease (mx_sema (sy_mx s m)) (sy_k s) = Some (False, sem, k) \<Longrightarrow>
    sync_step s (set_mx m ((sy_mx s m)\<lparr>mx_sema := sem\<rparr>) (s\<lparr>sy_k := k\<rparr>))"
| holder: "t = sc_cur (sy_k s) \<Longrightarrow> sy_pc s t = Some (m, PGot) \<Longrightarrow>
    sync_step s (set_pc t (Some (m, PHold)) (set_mx m (Mutex_LockHolder t (sy_mx s m)) s))"
| locked: "t = sc_cur (sy_k s) \<Longrightarrow> sy_pc s t = Some (m, PHold) \<Longrightarrow> Mutex_LockRepeat (sy_mx s m) = Some x \<Longrightarrow>
    sync_step s (set_pc t None (set_mx m x s))"
| unlock_last: "t = sc_cur (sy_k s) \<Longrightarrow> sy_pc s t = None \<Longrightarrow> sc_idle (sy_k s) \<noteq> Some t \<Longrightarrow>
    Mutex_UnlockCheck t (sy_mx s m) = Some (True, x) \<Longrightarrow>
    sync_step s (set_pc t (Some (m, PReset)) (set_mx m x s))"
| unlock_again: "t = sc_cur (sy_k s) \<Longrightarrow> sy_pc s t = None \<Longrightarrow>
    Mutex_UnlockCheck t (sy_mx s m) = Some (False, x) \<Longrightarrow> sync_step s (set_mx m x s)"
| reset: "t = sc_cur (sy_k s) \<Longrightarrow> sy_pc s t = Some (m, PReset) \<Longrightarrow>
    sync_step s (set_pc t (Some (m, PRelease)) (set_mx m (Mutex_UnlockHolder (sy_mx s m)) s))"
| release: "t = sc_cur (sy_k s) \<Longrightarrow> sy_pc s t = Some (m, PRelease) \<Longrightarrow>
    Semaphore_Increase (mx_sema (sy_mx s m)) (sy_k s) = Some (sem, k) \<Longrightarrow>
    sync_step s (set_pc t None (set_mx m ((sy_mx s m)\<lparr>mx_sema := sem\<rparr>) (s\<lparr>sy_k := k\<rparr>)))"
| clock: "sc_intr (sy_k s) \<Longrightarrow> Thread_IsStackValid (sc_cur (sy_k s)) (sy_k s) \<Longrightarrow>
    ClockIntrHandler (sy_k s) = Some k \<Longrightarrow> sync_step s (s\<lparr>sy_k := k\<rparr>)"
| yield: "sy_pc s (sc_cur (sy_k s)) = None \<Longrightarrow> Thread_Yield (sc_cur (sy_k s)) (sy_k s) = Some k \<Longrightarrow>
    sync_step s (s\<lparr>sy_k := k\<rparr>)"
| other_block: "sy_pc s (sc_cur (sy_k s)) = None \<Longrightarrow> Thread_Block (sc_cur (sy_k s)) Blocked (sy_k s) = Some k \<Longrightarrow>
    sync_step s (s\<lparr>sy_k := k\<rparr>)"
| other_unblock: "sy_pc s t = None \<Longrightarrow> t \<in> set (sc_all (sy_k s)) \<Longrightarrow>
    status_of (sy_k s) t \<in> {Blocked, Hanging, Waiting} \<Longrightarrow>
    Thread_Unblock t (sy_k s) = Some k \<Longrightarrow> sync_step s (s\<lparr>sy_k := k\<rparr>)"

section \<open>The invariant\<close>

text \<open>
  \<open>owns\<close>: the thread holds the semaphore of the mutex, be it before \<^verbatim>\<open>holder_\<close> is set, while it is
  set, or after it was reset.
\<close>

definition owns :: "pcs \<Rightarrow> mutex \<Rightarrow> nat \<Rightarrow> tid \<Rightarrow> bool" where
  "owns pc x m t \<longleftrightarrow> mx_holder x = Some t \<or>
     pc t \<in> {Some (m, PGot), Some (m, PHold), Some (m, PReset), Some (m, PRelease)}"

definition sleeps :: "sched \<Rightarrow> tid \<Rightarrow> bool" where
  "sleeps k w \<longleftrightarrow> w \<in> set (sc_all k) \<and> status_of k w = Blocked \<and> sc_idle k \<noteq> Some w"

definition holder_ok :: "pcs \<Rightarrow> mutex \<Rightarrow> nat \<Rightarrow> bool" where
  "holder_ok pc x m \<longleftrightarrow>
     (mx_holder x = None \<longrightarrow> mx_repeat x = 0) \<and>
     (\<forall>t. pc t \<in> {Some (m, PGot), Some (m, PRelease)} \<longrightarrow> mx_holder x = None) \<and>
     (\<forall>t. pc t \<in> {Some (m, PHold), Some (m, PReset)} \<longrightarrow> mx_holder x = Some t \<and> mx_repeat x = 0) \<and>
     (\<forall>t saved. pc t = Some (m, PDec saved) \<longrightarrow> mx_holder x \<noteq> Some t) \<and>
     (\<forall>t. mx_holder x = Some t \<longrightarrow> pc t \<notin> {Some (m, PHold), Some (m, PReset)} \<longrightarrow> 0 < mx_repeat x)"

definition sema_ok :: "pcs \<Rightarrow> mutex \<Rightarrow> nat \<Rightarrow> bool" where
  "sema_ok pc x m \<longleftrightarrow>
     sem_max (mx_sema x) = 1 \<and>
     (sem_val (mx_sema x) = 1 \<and> (\<forall>t. \<not> owns pc x m t) \<or>
      sem_val (mx_sema x) = 0 \<and> (\<exists>t. owns pc x m t \<and> (\<forall>u. owns pc x m u \<longrightarrow> u = t)))"

definition waiters_ok :: "pcs \<Rightarrow> mutex \<Rightarrow> nat \<Rightarrow> (tid \<Rightarrow> bool) \<Rightarrow> bool" where
  "waiters_ok pc x m S \<longleftrightarrow> distinct (sem_waiters (mx_sema x)) \<and>
     (\<forall>w\<in>set (sem_waiters (mx_sema x)). S w \<and> (\<exists>saved. pc w = Some (m, PDec saved)))"

definition mx_ok :: "pcs \<Rightarrow> mutex \<Rightarrow> nat \<Rightarrow> (tid \<Rightarrow> bool) \<Rightarrow> bool" where
  "mx_ok pc x m S \<longleftrightarrow> holder_ok pc x m \<and> sema_ok pc x m \<and> waiters_ok pc x m S"

definition sync_ok :: "sync \<Rightarrow> bool" where
  "sync_ok s \<longleftrightarrow> sched_ok (sy_k s) \<and>
     (\<forall>m. mx_ok (sy_pc s) (sy_mx s m) m (sleeps (sy_k s))) \<and>
     (\<forall>t. sy_pc s t \<noteq> None \<longrightarrow> sc_idle (sy_k s) \<noteq> Some t)"

lemmas mx_defs = mx_ok_def holder_ok_def sema_ok_def waiters_ok_def owns_def

section \<open>Preservation\<close>

lemma mx_ok_mono:
  "mx_ok pc x m S \<Longrightarrow> (\<And>w. w \<in> set (sem_waiters (mx_sema x)) \<Longrightarrow> S w \<Longrightarrow> S' w) \<Longrightarrow> mx_ok pc x m S'"
  by (auto simp: mx_ok_def waiters_ok_def)

text \<open>A thread that moves inside another mutex does not matter.\<close>

lemma mx_ok_other:
  assumes "mx_ok pc x m S" "\<And>p. pc t \<noteq> Some (m, p)" "\<And>p. v \<noteq> Some (m, p)"
  shows "mx_ok (pc(t := v)) x m S"
proof -
  have "owns (pc(t := v)) x m = owns pc x m"
    using assms(2,3) by (auto simp: owns_def fun_eq_iff)
  moreover have "holder_ok (pc(t := v)) x m"
    using assms by (auto simp: mx_ok_def holder_ok_def)
  moreover have "waiters_ok (pc(t := v)) x m S"
    using assms by (auto simp: mx_ok_def waiters_ok_def)
  ultimately show ?thesis using assms(1) by (simp add: mx_ok_def sema_ok_def)
qed

lemma sleeps_not_ready: "sched_ok k \<Longrightarrow> sleeps k w \<Longrightarrow> w \<notin> set (sc_ready k) \<and> w \<noteq> sc_cur k"
  by (auto simp: sleeps_def sched_ok_def sched_pre_def)

lemma sleeps_switch:
  assumes "sched_ok k" "sc_all k' = sc_all k" "sc_idle k' = sc_idle k"
    and "\<forall>t. t \<notin> set (sc_ready k @ [sc_cur k]) \<longrightarrow> status_of k' t = status_of k t"
  shows "sleeps k w \<Longrightarrow> sleeps k' w"
  using sleeps_not_ready [OF assms(1), of w] assms(2-4) by (auto simp: sleeps_def)

lemma Block_sleeps:
  assumes "sched_ok k"
  obtains k' where "Thread_Block (sc_cur k) Blocked k = Some k'" "sched_ok k'" "sc_idle k' = sc_idle k"
    "\<And>w. sleeps k w \<Longrightarrow> sleeps k' w" "sc_idle k \<noteq> Some (sc_cur k) \<Longrightarrow> sleeps k' (sc_cur k)"
proof -
  from Block_ok [OF assms, of Blocked] obtain k' where k': "Thread_Block (sc_cur k) Blocked k = Some k'"
    "sched_ok k'" "sc_cur k' # sc_ready k' = (if sc_ready k = [] then [the (sc_idle k)] else sc_ready k)"
    "sc_all k' = sc_all k" "sc_idle k' = sc_idle k"
    "\<forall>t. t \<noteq> sc_cur k' \<longrightarrow> status_of k' t = (if t = sc_cur k then Blocked else status_of k t)"
    by blast
  have cur: "sc_cur k' \<in> set (sc_ready k) \<or> sc_idle k = Some (sc_cur k')"
    using k'(3) assms
    by (cases "sc_ready k") (auto simp: sched_ok_def sched_pre_def split: option.splits)
  have "sleeps k' w" if "sleeps k w" for w
  proof -
    have "w \<noteq> sc_cur k'" "w \<noteq> sc_cur k"
      using that cur sleeps_not_ready [OF assms that] by (auto simp: sleeps_def)
    with that k'(4-6) show ?thesis by (simp add: sleeps_def)
  qed
  moreover have "sleeps k' (sc_cur k)" if "sc_idle k \<noteq> Some (sc_cur k)"
  proof -
    have "sc_cur k \<noteq> sc_cur k'" "sc_cur k \<in> set (sc_all k)"
      using that cur sched_ok_cur [OF assms] assms by (auto simp: sched_ok_def sched_pre_def)
    with that k'(4-6) show ?thesis by (simp add: sleeps_def)
  qed
  ultimately show thesis using k' that by blast
qed

text \<open>The pieces of \<^verbatim>\<open>Lock\<close> and \<^verbatim>\<open>Unlock\<close> on their own mutex.\<close>

lemma owns_unique: "mx_ok pc x m S \<Longrightarrow> owns pc x m t \<Longrightarrow> owns pc x m u \<Longrightarrow> u = t"
  unfolding mx_ok_def sema_ok_def by blast

lemma owns_val: "mx_ok pc x m S \<Longrightarrow> owns pc x m t \<Longrightarrow> sem_val (mx_sema x) = 0 \<and> sem_max (mx_sema x) = 1"
  unfolding mx_ok_def sema_ok_def by blast

lemma lock_again_ok:
  assumes "mx_ok pc x m S" "pc t = None" "mx_holder x = Some t"
  shows "mx_ok pc (x\<lparr>mx_repeat := n + 1\<rparr>) m S"
proof -
  have "\<forall>u. pc u \<notin> {Some (m, PGot), Some (m, PRelease), Some (m, PHold), Some (m, PReset)}"
    using assms by (auto simp: mx_ok_def holder_ok_def)
  with assms show ?thesis by (auto simp: mx_defs)
qed

lemma lock_first_ok:
  assumes "mx_ok pc x m S" "pc t = None" "mx_holder x \<noteq> Some t"
  shows "mx_ok (pc(t := Some (m, PDec saved))) x m S"
proof -
  have "owns (pc(t := Some (m, PDec saved))) x m = owns pc x m"
    using assms(2) by (auto simp: owns_def fun_eq_iff)
  with assms show ?thesis
    by (auto simp: mx_ok_def sema_ok_def holder_ok_def waiters_ok_def)
qed

lemma decrease_ok:
  assumes "mx_ok pc x m S" "pc t = Some (m, PDec saved)" "t \<notin> set (sem_waiters (mx_sema x))"
    and "sem_val (mx_sema x) \<noteq> 0"
  shows "mx_ok (pc(t := Some (m, PGot))) (x\<lparr>mx_sema := (mx_sema x)\<lparr>sem_val := sem_val (mx_sema x) - 1\<rparr>\<rparr>) m S"
proof -
  have v: "sem_val (mx_sema x) = 1" "\<forall>u. \<not> owns pc x m u" "sem_max (mx_sema x) = 1"
    using assms by (auto simp: mx_ok_def sema_ok_def)
  then have "mx_holder x = None" by (cases "mx_holder x") (auto simp: owns_def)
  with assms v show ?thesis by (auto simp: mx_defs)
qed

lemma wait_ok:
  assumes "mx_ok pc x m S" "pc t = Some (m, PDec saved)" "t \<notin> set (sem_waiters (mx_sema x))" "S t"
  shows "mx_ok pc (x\<lparr>mx_sema := (mx_sema x)\<lparr>sem_waiters := sem_waiters (mx_sema x) @ [t]\<rparr>\<rparr>) m S"
  using assms by (auto simp: mx_defs)

lemma holder_step_ok:
  assumes "mx_ok pc x m S" "pc t = Some (m, PGot)"
  shows "mx_ok (pc(t := Some (m, PHold))) (Mutex_LockHolder t x) m S"
proof -
  have h: "mx_holder x = None" "mx_repeat x = 0"
    using assms by (auto simp: mx_ok_def holder_ok_def)
  have "owns pc x m t" using assms(2-) by (simp add: owns_def)
  then have u: "\<not> owns pc x m v" if "v \<noteq> t" for v
    using owns_unique [OF assms(1)] that by blast
  have v: "sem_val (mx_sema x) = 0" "sem_max (mx_sema x) = 1"
    using owns_val [OF assms(1), of t] assms(2) by (simp_all add: owns_def)
  have "owns (pc(t := Some (m, PHold))) (Mutex_LockHolder t x) m = (\<lambda>u. u = t)"
    using u by (auto simp: owns_def Mutex_LockHolder_def fun_eq_iff)
  moreover have "holder_ok (pc(t := Some (m, PHold))) (Mutex_LockHolder t x) m"
    using u h by (auto simp: holder_ok_def owns_def Mutex_LockHolder_def)
  ultimately show ?thesis
    using assms v by (auto simp: mx_ok_def sema_ok_def waiters_ok_def Mutex_LockHolder_def)
qed

lemma locked_ok:
  assumes "mx_ok pc x m S" "pc t = Some (m, PHold)"
  shows "mx_ok (pc(t := None)) (x\<lparr>mx_repeat := 1\<rparr>) m S \<and> mx_repeat x = 0"
proof -
  have h: "mx_holder x = Some t" "mx_repeat x = 0"
    using assms by (auto simp: mx_ok_def holder_ok_def)
  have "owns pc x m t" using assms(2-) by (simp add: owns_def)
  then have u: "\<not> owns pc x m v" if "v \<noteq> t" for v
    using owns_unique [OF assms(1)] that by blast
  have "owns (pc(t := None)) (x\<lparr>mx_repeat := 1\<rparr>) m = owns pc x m"
    using h u by (auto simp: owns_def fun_eq_iff)
  moreover have "holder_ok (pc(t := None)) (x\<lparr>mx_repeat := 1\<rparr>) m"
    using u h by (auto simp: holder_ok_def owns_def)
  ultimately show ?thesis
    using assms h by (auto simp: mx_ok_def sema_ok_def waiters_ok_def)
qed

lemma unlock_last_ok:
  assumes "mx_ok pc x m S" "pc t = None" "mx_holder x = Some t"
  shows "mx_ok (pc(t := Some (m, PReset))) (x\<lparr>mx_repeat := 0\<rparr>) m S"
proof -
  have "owns pc x m t" using assms(2-) by (simp add: owns_def)
  then have u: "\<not> owns pc x m v" if "v \<noteq> t" for v
    using owns_unique [OF assms(1)] that by blast
  have "owns (pc(t := Some (m, PReset))) (x\<lparr>mx_repeat := 0\<rparr>) m = owns pc x m"
    using assms by (auto simp: owns_def fun_eq_iff)
  moreover have "holder_ok (pc(t := Some (m, PReset))) (x\<lparr>mx_repeat := 0\<rparr>) m"
    using u assms(3) by (auto simp: holder_ok_def owns_def)
  ultimately show ?thesis
    using assms by (auto simp: mx_ok_def sema_ok_def waiters_ok_def)
qed

lemma reset_ok:
  assumes "mx_ok pc x m S" "pc t = Some (m, PReset)"
  shows "mx_ok (pc(t := Some (m, PRelease))) (Mutex_UnlockHolder x) m S"
proof -
  have h: "mx_holder x = Some t" "mx_repeat x = 0"
    using assms by (auto simp: mx_ok_def holder_ok_def)
  have "owns pc x m t" using assms(2-) by (simp add: owns_def)
  then have u: "\<not> owns pc x m v" if "v \<noteq> t" for v
    using owns_unique [OF assms(1)] that by blast
  have v: "sem_val (mx_sema x) = 0" "sem_max (mx_sema x) = 1"
    using owns_val [OF assms(1), of t] assms(2) by (simp_all add: owns_def)
  have "owns (pc(t := Some (m, PRelease))) (Mutex_UnlockHolder x) m = (\<lambda>u. u = t)"
    using u by (auto simp: owns_def Mutex_UnlockHolder_def fun_eq_iff)
  moreover have "holder_ok (pc(t := Some (m, PRelease))) (Mutex_UnlockHolder x) m"
    using u h by (auto simp: holder_ok_def owns_def Mutex_UnlockHolder_def)
  ultimately show ?thesis
    using assms v by (auto simp: mx_ok_def sema_ok_def waiters_ok_def Mutex_UnlockHolder_def)
qed

lemma release_ok:
  assumes "mx_ok pc x m S" "pc t = Some (m, PRelease)" "set ws \<subseteq> set (sem_waiters (mx_sema x))" "distinct ws"
    and "\<And>w. w \<in> set ws \<Longrightarrow> S' w"
  shows "mx_ok (pc(t := None)) (x\<lparr>mx_sema := (mx_sema x)\<lparr>sem_waiters := ws, sem_val := 1\<rparr>\<rparr>) m S' \<and>
         sem_val (mx_sema x) = 0 \<and> sem_max (mx_sema x) = 1"
proof -
  have h: "mx_holder x = None" "mx_repeat x = 0"
    using assms by (auto simp: mx_ok_def holder_ok_def)
  have "owns pc x m t" using assms(2-) by (simp add: owns_def)
  then have u: "\<not> owns pc x m v" if "v \<noteq> t" for v
    using owns_unique [OF assms(1)] that by blast
  have v: "sem_val (mx_sema x) = 0" "sem_max (mx_sema x) = 1"
    using owns_val [OF assms(1), of t] assms(2) by (simp_all add: owns_def)
  let ?x = "x\<lparr>mx_sema := (mx_sema x)\<lparr>sem_waiters := ws, sem_val := 1\<rparr>\<rparr>"
  have "owns (pc(t := None)) ?x m = (\<lambda>u. False)"
    using u h by (auto simp: owns_def fun_eq_iff)
  moreover have "holder_ok (pc(t := None)) ?x m"
    using u h by (auto simp: holder_ok_def owns_def)
  moreover have "t \<notin> set (sem_waiters (mx_sema x))"
    using assms(1,2) by (auto simp: mx_ok_def waiters_ok_def)
  with assms have "waiters_ok (pc(t := None)) ?x m S'"
    by (auto simp: mx_ok_def waiters_ok_def)
  ultimately show ?thesis
    using v by (simp add: mx_ok_def sema_ok_def)
qed

lemma sync_okD:
  assumes "sync_ok s"
  shows "sched_ok (sy_k s)" "mx_ok (sy_pc s) (sy_mx s m) m (sleeps (sy_k s))"
    "sy_pc s t \<noteq> None \<Longrightarrow> sc_idle (sy_k s) \<noteq> Some t"
  using assms by (auto simp: sync_ok_def)

text \<open>One mutex and one program counter change, the others only see the scheduler's new state.\<close>

lemma sync_ok_update:
  assumes s: "sync_ok s" and k: "sched_ok k" "sc_idle k = sc_idle (sy_k s)"
    and other: "\<And>m' w. m' \<noteq> m \<Longrightarrow> w \<in> set (sem_waiters (mx_sema (sy_mx s m'))) \<Longrightarrow>
      sleeps (sy_k s) w \<Longrightarrow> sleeps k w"
    and own: "mx_ok ((sy_pc s)(t := v)) x m (sleeps k)"
    and pc: "\<And>m' p. m' \<noteq> m \<Longrightarrow> sy_pc s t \<noteq> Some (m', p)" "\<And>m' p. m' \<noteq> m \<Longrightarrow> v \<noteq> Some (m', p)"
    and idle: "v \<noteq> None \<Longrightarrow> sc_idle k \<noteq> Some t"
  shows "sync_ok (set_pc t v (set_mx m x (s\<lparr>sy_k := k\<rparr>)))"
proof -
  have "mx_ok ((sy_pc s)(t := v)) (sy_mx s m') m' (sleeps k)" if "m' \<noteq> m" for m'
    by (rule mx_ok_other, rule mx_ok_mono [OF sync_okD(2) [OF s]]) (use that other pc in auto)
  with own k idle sync_okD(3) [OF s] show ?thesis
    by (auto simp: sync_ok_def set_pc_def set_mx_def)
qed

lemma sync_ok_mx:
  assumes "sync_ok s" "mx_ok (sy_pc s) x m (sleeps (sy_k s))"
  shows "sync_ok (set_mx m x s)"
  using assms by (auto simp: sync_ok_def set_mx_def)

lemma sync_ok_sched:
  assumes "sync_ok s" "sched_ok k" "sc_idle k = sc_idle (sy_k s)"
    and "\<And>m w. w \<in> set (sem_waiters (mx_sema (sy_mx s m))) \<Longrightarrow> sleeps (sy_k s) w \<Longrightarrow> sleeps k w"
  shows "sync_ok (s\<lparr>sy_k := k\<rparr>)"
  using assms mx_ok_mono [OF sync_okD(2) [OF assms(1)]] by (auto simp: sync_ok_def)

lemma waiter_pc:
  "sync_ok s \<Longrightarrow> w \<in> set (sem_waiters (mx_sema (sy_mx s m))) \<Longrightarrow> \<exists>saved. sy_pc s w = Some (m, PDec saved)"
  using sync_okD(2) [of s m] by (auto simp: mx_ok_def waiters_ok_def)

lemma waiter_sleeps:
  "sync_ok s \<Longrightarrow> w \<in> set (sem_waiters (mx_sema (sy_mx s m))) \<Longrightarrow> sleeps (sy_k s) w"
  using sync_okD(2) [of s m] by (auto simp: mx_ok_def waiters_ok_def)

lemma cur_not_waiter: "sync_ok s \<Longrightarrow> sc_cur (sy_k s) \<notin> set (sem_waiters (mx_sema (sy_mx s m)))"
  using waiter_sleeps sleeps_not_ready sync_okD(1) by blast

text \<open>\<^verbatim>\<open>Decrease\<close> and \<^verbatim>\<open>Increase\<close> in a consistent state: both return.\<close>

lemma Decrease_cases:
  assumes s: "sync_ok s" and pc: "sy_pc s (sc_cur (sy_k s)) = Some (m, PDec saved)"
  obtains (taken) "sem_val (mx_sema (sy_mx s m)) \<noteq> 0"
      "Semaphore_Decrease (mx_sema (sy_mx s m)) (sy_k s) =
         Some (True, (mx_sema (sy_mx s m))\<lparr>sem_val := sem_val (mx_sema (sy_mx s m)) - 1\<rparr>, sy_k s)"
  | (blocked) k where "sem_val (mx_sema (sy_mx s m)) = 0"
      "Semaphore_Decrease (mx_sema (sy_mx s m)) (sy_k s) =
         Some (False, (mx_sema (sy_mx s m))\<lparr>sem_waiters := sem_waiters (mx_sema (sy_mx s m)) @ [sc_cur (sy_k s)]\<rparr>, k)"
      "sched_ok k" "sc_idle k = sc_idle (sy_k s)" "\<And>w. sleeps (sy_k s) w \<Longrightarrow> sleeps k w"
      "sleeps k (sc_cur (sy_k s))"
proof (cases "sem_val (mx_sema (sy_mx s m)) = 0")
  case True
  have idle: "sc_idle (sy_k s) \<noteq> Some (sc_cur (sy_k s))"
    using sync_okD(3) [OF s] pc by simp
  obtain k where k: "Thread_Block (sc_cur (sy_k s)) Blocked (sy_k s) = Some k" "sched_ok k"
    "sc_idle k = sc_idle (sy_k s)" "\<And>w. sleeps (sy_k s) w \<Longrightarrow> sleeps k w" "sleeps k (sc_cur (sy_k s))"
    using Block_sleeps [OF sync_okD(1) [OF s]] idle by metis
  show thesis
    by (rule blocked [of k])
      (use True k cur_not_waiter [OF s, of m] in \<open>simp_all add: Semaphore_Decrease_def Let_def\<close>)
next
  case False
  then show thesis by (intro taken) (simp_all add: Semaphore_Decrease_def)
qed

lemma Increase_release:
  assumes s: "sync_ok s" and pc: "sy_pc s (sc_cur (sy_k s)) = Some (m, PRelease)"
  obtains sem k where "Semaphore_Increase (mx_sema (sy_mx s m)) (sy_k s) = Some (sem, k)"
    "sync_ok (set_pc (sc_cur (sy_k s)) None (set_mx m ((sy_mx s m)\<lparr>mx_sema := sem\<rparr>) (s\<lparr>sy_k := k\<rparr>)))"
proof -
  let ?x = "sy_mx s m" let ?t = "sc_cur (sy_k s)" let ?ws = "sem_waiters (mx_sema ?x)"
  note ok = sync_okD(2) [OF s, of m]
  have ws: "distinct ?ws" using ok by (simp add: mx_ok_def waiters_ok_def)
  have v: "sem_val (mx_sema ?x) = 0" "sem_max (mx_sema ?x) = 1"
    using owns_val [OF ok, of ?t] pc by (auto simp: owns_def)
  have tl: "set (tl ?ws) \<subseteq> set ?ws" "distinct (tl ?ws)"
    using ws by (cases ?ws; auto)+
  have upd: "sync_ok (set_pc ?t None (set_mx m (?x\<lparr>mx_sema := (mx_sema ?x)\<lparr>sem_waiters := tl ?ws, sem_val := 1\<rparr>\<rparr>) (s\<lparr>sy_k := k\<rparr>)))"
    if k: "sched_ok k" "sc_idle k = sc_idle (sy_k s)"
      "\<And>w. sleeps (sy_k s) w \<Longrightarrow> ?ws = [] \<or> w \<noteq> hd ?ws \<Longrightarrow> sleeps k w" for k
  proof (rule sync_ok_update [OF s k(1,2)])
    show "sleeps k w" if "m' \<noteq> m" "w \<in> set (sem_waiters (mx_sema (sy_mx s m')))" "sleeps (sy_k s) w" for m' w
    proof (rule k(3) [OF that(3)])
      show "?ws = [] \<or> w \<noteq> hd ?ws"
        using waiter_pc [OF s that(2)] waiter_pc [OF s, of "hd ?ws" m] that(1) by (cases "?ws = []") auto
    qed
    have "sleeps k w" if "w \<in> set (tl ?ws)" for w
    proof (rule k(3))
      show "sleeps (sy_k s) w" using waiter_sleeps [OF s, of w m] tl(1) that by blast
      show "?ws = [] \<or> w \<noteq> hd ?ws" using ws that by (cases ?ws) auto
    qed
    then show "mx_ok ((sy_pc s)(?t := None)) (?x\<lparr>mx_sema := (mx_sema ?x)\<lparr>sem_waiters := tl ?ws, sem_val := 1\<rparr>\<rparr>) m (sleeps k)"
      using release_ok [OF ok pc tl] by blast
  qed (use pc in auto)
  show thesis
  proof (cases "?ws = []")
    case True
    then have "Semaphore_Increase (mx_sema ?x) (sy_k s) =
        Some ((mx_sema ?x)\<lparr>sem_waiters := tl ?ws, sem_val := 1\<rparr>, sy_k s)"
      using v by (simp add: Semaphore_Increase_def)
    with upd [OF sync_okD(1) [OF s] refl] True show thesis by (intro that) auto
  next
    case False
    then have sl: "sleeps (sy_k s) (hd ?ws)" using waiter_sleeps [OF s, of "hd ?ws" m] by simp
    then obtain k where k: "Thread_Unblock (hd ?ws) (sy_k s) = Some k" "sched_ok k"
      "sc_all k = sc_all (sy_k s)" "sc_idle k = sc_idle (sy_k s)"
      "\<forall>u. status_of k u = (if u = hd ?ws then Ready else status_of (sy_k s) u)"
      using Unblock_ok [OF sync_okD(1) [OF s], of "hd ?ws"] unfolding sleeps_def by auto
    have inc: "Semaphore_Increase (mx_sema ?x) (sy_k s) =
        Some ((mx_sema ?x)\<lparr>sem_waiters := tl ?ws, sem_val := 1\<rparr>, k)"
      using v False k(1) by (simp add: Semaphore_Increase_def Let_def)
    have "sleeps k w" if "sleeps (sy_k s) w" "?ws = [] \<or> w \<noteq> hd ?ws" for w
      using that False k(3-5) by (auto simp: sleeps_def)
    from upd [OF k(2,4) this] show thesis by (rule that [OF inc])
  qed
qed

lemma sync_step_ok: "sync_step s s' \<Longrightarrow> sync_ok s \<Longrightarrow> sync_ok s'"
proof (induction rule: sync_step.induct)
  case (lock_first t s m x)
  then have x: "x = sy_mx s m" "mx_holder x \<noteq> Some t"
    by (auto simp: Mutex_LockCheck_def split: if_splits)
  have sl: "sleeps ((sy_k s)\<lparr>sc_intr := b\<rparr>) = sleeps (sy_k s)" for b
    by (simp add: sleeps_def fun_eq_iff)
  show ?case
  proof (rule sync_ok_update [OF lock_first.prems])
    show "mx_ok ((sy_pc s)(t := Some (m, PDec (sc_intr (sy_k s))))) x m (sleeps ((sy_k s)\<lparr>sc_intr := False\<rparr>))"
      unfolding sl x(1) by (rule lock_first_ok) (use lock_first x sync_okD(2) in auto)
  qed (use lock_first sync_okD(1) in \<open>auto simp: sl\<close>)
next
  case (lock_again t s m x)
  then have "mx_holder (sy_mx s m) = Some t" "x = (sy_mx s m)\<lparr>mx_repeat := mx_repeat (sy_mx s m) + 1\<rparr>"
    by (auto simp: Mutex_LockCheck_def split: if_splits)
  with lock_again show ?case
    using lock_again_ok [OF sync_okD(2) [OF lock_again.prems]] by (auto intro: sync_ok_mx)
next
  case (decrease t s m saved sem k)
  have sl: "sleeps ((sy_k s)\<lparr>sc_intr := b\<rparr>) = sleeps (sy_k s)" for b
    by (simp add: sleeps_def fun_eq_iff)
  from decrease have e: "sem_val (mx_sema (sy_mx s m)) \<noteq> 0" "k = sy_k s"
    "sem = (mx_sema (sy_mx s m))\<lparr>sem_val := sem_val (mx_sema (sy_mx s m)) - 1\<rparr>"
    by (auto simp: Semaphore_Decrease_def Let_def bind_Some_conv split: if_splits)
  show ?case
  proof (rule sync_ok_update [OF decrease.prems])
    show "mx_ok ((sy_pc s)(t := Some (m, PGot))) ((sy_mx s m)\<lparr>mx_sema := sem\<rparr>) m (sleeps (k\<lparr>sc_intr := saved\<rparr>))"
      unfolding e(2,3) sl
      by (rule decrease_ok) (use decrease e cur_not_waiter sync_okD(2) in auto)
  qed (use decrease e sync_okD in \<open>auto simp: sl\<close>)
next
  case (wait t s m saved sem k)
  show ?case
  proof (rule Decrease_cases [OF wait.prems, of m saved])
    fix k' assume b: "Semaphore_Decrease (mx_sema (sy_mx s m)) (sy_k s) =
         Some (False, (mx_sema (sy_mx s m))\<lparr>sem_waiters := sem_waiters (mx_sema (sy_mx s m)) @ [sc_cur (sy_k s)]\<rparr>, k')"
      "sched_ok k'" "sc_idle k' = sc_idle (sy_k s)" "\<And>w. sleeps (sy_k s) w \<Longrightarrow> sleeps k' w"
      "sleeps k' (sc_cur (sy_k s))"
    with wait have e: "k' = k" "sem = (mx_sema (sy_mx s m))\<lparr>sem_waiters := sem_waiters (mx_sema (sy_mx s m)) @ [t]\<rparr>"
      by auto
    have "sync_ok (s\<lparr>sy_k := k\<rparr>)"
      using b e by (intro sync_ok_sched [OF wait.prems]) auto
    moreover have "mx_ok (sy_pc s) ((sy_mx s m)\<lparr>mx_sema := sem\<rparr>) m (sleeps k)"
      unfolding e(2)
      by (rule wait_ok [OF mx_ok_mono [OF sync_okD(2) [OF wait.prems]]])
        (use wait b e cur_not_waiter in auto)
    ultimately show ?thesis by (auto intro: sync_ok_mx)
  qed (use wait in auto)
next
  case (holder t s m)
  have "sync_ok (set_pc t (Some (m, PHold)) (set_mx m (Mutex_LockHolder t (sy_mx s m)) (s\<lparr>sy_k := sy_k s\<rparr>)))"
    by (rule sync_ok_update [OF holder.prems])
      (use holder sync_okD holder_step_ok in auto)
  then show ?case by simp
next
  case (locked t s m x)
  then have x: "x = (sy_mx s m)\<lparr>mx_repeat := 1\<rparr>" by (auto simp: Mutex_LockRepeat_def)
  have "sync_ok (set_pc t None (set_mx m x (s\<lparr>sy_k := sy_k s\<rparr>)))"
    by (rule sync_ok_update [OF locked.prems])
      (use locked x sync_okD locked_ok [OF sync_okD(2) [OF locked.prems]] in auto)
  then show ?case by simp
next
  case (unlock_last t s m x)
  then have x: "mx_holder (sy_mx s m) = Some t" "x = (sy_mx s m)\<lparr>mx_repeat := 0\<rparr>"
    by (auto simp: Mutex_UnlockCheck_def split: if_splits)
  have "sync_ok (set_pc t (Some (m, PReset)) (set_mx m x (s\<lparr>sy_k := sy_k s\<rparr>)))"
    by (rule sync_ok_update [OF unlock_last.prems])
      (use unlock_last x sync_okD unlock_last_ok [OF sync_okD(2) [OF unlock_last.prems]] in auto)
  then show ?case by simp
next
  case (unlock_again t s m x)
  then have "mx_holder (sy_mx s m) = Some t" "x = (sy_mx s m)\<lparr>mx_repeat := (mx_repeat (sy_mx s m) - 2) + 1\<rparr>"
    by (auto simp: Mutex_UnlockCheck_def split: if_splits)
  with unlock_again show ?case
    using lock_again_ok [OF sync_okD(2) [OF unlock_again.prems]] by (auto intro: sync_ok_mx)
next
  case (reset t s m)
  have "sync_ok (set_pc t (Some (m, PRelease)) (set_mx m (Mutex_UnlockHolder (sy_mx s m)) (s\<lparr>sy_k := sy_k s\<rparr>)))"
    by (rule sync_ok_update [OF reset.prems])
      (use reset sync_okD reset_ok [OF sync_okD(2) [OF reset.prems]] in auto)
  then show ?case by simp
next
  case (release t s m sem k)
  with Increase_release [OF release.prems, of m] show ?case by auto
next
  case (clock s k)
  with Clock_ok [OF sync_okD(1) [OF clock.prems]] sleeps_switch [OF sync_okD(1) [OF clock.prems], of k]
  show ?case by (intro sync_ok_sched) auto
next
  case (yield s k)
  with Yield_ok [OF sync_okD(1) [OF yield.prems]] sleeps_switch [OF sync_okD(1) [OF yield.prems], of k]
  show ?case by (intro sync_ok_sched) auto
next
  case (other_block s k)
  show ?case
    by (rule Block_sleeps [OF sync_okD(1) [OF other_block.prems]])
      (use other_block in \<open>auto intro: sync_ok_sched\<close>)
next
  case (other_unblock s t k)
  have "sched_ok k" "sc_idle k = sc_idle (sy_k s)" "sc_all k = sc_all (sy_k s)"
    "\<forall>u. status_of k u = (if u = t then Ready else status_of (sy_k s) u)"
    using Unblock_ok [OF sync_okD(1) [OF other_unblock.prems] other_unblock.hyps(2,3)] other_unblock.hyps(4) by auto
  moreover have "w \<noteq> t" if "w \<in> set (sem_waiters (mx_sema (sy_mx s m)))" for w m
    using waiter_pc [OF other_unblock.prems that] other_unblock.hyps(1) by auto
  ultimately show ?case
    by (intro sync_ok_sched [OF other_unblock.prems]) (auto simp: sleeps_def)
qed

lemma sync_reach_ok: "sync_step\<^sup>*\<^sup>* s s' \<Longrightarrow> sync_ok s \<Longrightarrow> sync_ok s'"
  by (induction rule: rtranclp_induct) (auto intro: sync_step_ok)

section \<open>Properties\<close>

definition sync_start :: "sched \<Rightarrow> sync" where
  "sync_start k = \<lparr>sy_k = k, sy_mx = (\<lambda>_. Mutex_default), sy_pc = (\<lambda>_. None)\<rparr>"

lemma sync_start_ok: "sched_ok k \<Longrightarrow> sync_ok (sync_start k)"
  by (simp add: sync_ok_def sync_start_def Mutex_default_def mx_defs)

text \<open>
  C7: Mutual exclusion under preemption: start any number of mutexes, all free, in a consistent
  scheduler state and let any threads run the pieces of \<^verbatim>\<open>Lock\<close> and \<^verbatim>\<open>Unlock\<close> on them in any order the
  scheduler and clock interrupts produce. Then no two threads ever own the same mutex, the semaphore
  is zero exactly while somebody owns it, every thread in a wait list is blocked and waits for that
  mutex only (so its tag is in one list only), and the scheduler's invariant holds.
\<close>

theorem Mutex_mutual_exclusion:
  assumes "sched_ok k" "sync_step\<^sup>*\<^sup>* (sync_start k) s"
  shows "sched_ok (sy_k s) \<and>
    (\<forall>m t u. owns (sy_pc s) (sy_mx s m) m t \<longrightarrow> owns (sy_pc s) (sy_mx s m) m u \<longrightarrow> t = u) \<and>
    (\<forall>m. sem_val (mx_sema (sy_mx s m)) = 0 \<longleftrightarrow> (\<exists>t. owns (sy_pc s) (sy_mx s m) m t)) \<and>
    (\<forall>m w. w \<in> set (sem_waiters (mx_sema (sy_mx s m))) \<longrightarrow>
       status_of (sy_k s) w = Blocked \<and> w \<notin> set (sc_ready (sy_k s)) \<and>
       (\<forall>m'. m' \<noteq> m \<longrightarrow> w \<notin> set (sem_waiters (mx_sema (sy_mx s m')))))"
proof -
  have ok: "sync_ok s" using sync_reach_ok [OF assms(2) sync_start_ok [OF assms(1)]] .
  have val: "sem_val (mx_sema (sy_mx s m)) = 0 \<longleftrightarrow> (\<exists>t. owns (sy_pc s) (sy_mx s m) m t)" for m
    using sync_okD(2) [OF ok, of m] unfolding mx_ok_def sema_ok_def by auto
  have one: "w \<notin> set (sem_waiters (mx_sema (sy_mx s m')))"
    if "w \<in> set (sem_waiters (mx_sema (sy_mx s m)))" "m' \<noteq> m" for w m m'
    using waiter_pc [OF ok that(1)] waiter_pc [OF ok, of w m'] that(2) by auto
  show ?thesis
    using sync_okD(1) [OF ok] owns_unique [OF sync_okD(2) [OF ok]] val one
      waiter_sleeps [OF ok] sleeps_not_ready [OF sync_okD(1) [OF ok]]
    by (auto simp: sleeps_def)
qed

lemma two_threads_pc: "sc_cur two_threads = 4096" "sc_idle two_threads = Some 8192"
  by (simp_all add: two_threads_def boot_state_def)

theorem Mutex_mutual_exclusion_witness:
  "\<exists>s. sync_step\<^sup>*\<^sup>* (sync_start two_threads) s \<and> owns (sy_pc s) (sy_mx s 0) 0 4096 \<and>
       sem_val (mx_sema (sy_mx s 0)) = 0"
proof -
  let ?s = "sync_start two_threads"
  let ?s1 = "set_pc 4096 (Some (0, PDec (sc_intr (sy_k ?s)))) (set_mx 0 Mutex_default (?s\<lparr>sy_k := (sy_k ?s)\<lparr>sc_intr := False\<rparr>\<rparr>))"
  let ?sem = "\<lparr>sem_max = 1, sem_val = 0, sem_waiters = []\<rparr>"
  let ?s2 = "set_pc 4096 (Some (0, PGot)) (set_mx 0 ((sy_mx ?s1 0)\<lparr>mx_sema := ?sem\<rparr>)
      (?s1\<lparr>sy_k := (sy_k ?s1)\<lparr>sc_intr := sc_intr (sy_k ?s)\<rparr>\<rparr>))"
  have "sync_step ?s ?s1"
    by (rule sync_step.lock_first)
      (simp_all add: sync_start_def two_threads_pc Mutex_LockCheck_def Mutex_default_def)
  moreover have "sync_step ?s1 ?s2"
    by (rule sync_step.decrease)
      (simp_all add: set_pc_def set_mx_def sync_start_def two_threads_pc Semaphore_Decrease_def Mutex_default_def)
  ultimately have r: "sync_step\<^sup>*\<^sup>* ?s ?s2" by auto
  have o: "owns (sy_pc ?s2) (sy_mx ?s2 0) 0 4096" by (simp add: owns_def set_pc_def)
  have "sem_val (mx_sema (sy_mx ?s2 0)) = 0"
    using Mutex_mutual_exclusion [OF two_threads_ok r] o by blast
  with r o show ?thesis by blast
qed



end
