(* ===== verification/BlockQueues.thy ===== *)
theory BlockQueues
  imports Threads
begin

text \<open>
  The circular buffer of \<^verbatim>\<open>include/kernel/util/block_queue.h\<close> that connects the keyboard interrupt with
  the reading threads: \<open>n + 1\<close> slots for \<open>n\<close> elements, a producer that waits for room and a consumer
  that waits for data. Modelled are the tests, \<^verbatim>\<open>Wait\<close> and \<^verbatim>\<open>WakeUp\<close>, and \<^verbatim>\<open>Push\<close> and \<^verbatim>\<open>Pop\<close> from the point
  where their waiting loop has ended; the abstraction is a bounded first-in first-out queue, whose
  contract is the locale \<open>bounded_fifo\<close>.
\<close>

record 'a block_queue =
  bq_n :: nat
  bq_buf :: "'a list"
  bq_head :: nat
  bq_tail :: nat
  bq_prod :: "tid option"
  bq_consr :: "tid option"

definition BlockQueue_GetNextPos :: "nat \<Rightarrow> nat \<Rightarrow> nat" where
  "BlockQueue_GetNextPos n pos = (pos + 1) mod (n + 1)"

definition BlockQueue_IsFull :: "'a block_queue \<Rightarrow> sched \<Rightarrow> bool option" where
  "BlockQueue_IsFull q k = do {
     Assert (\<not> sc_intr k);
     Some (BlockQueue_GetNextPos (bq_n q) (bq_head q) = bq_tail q)
   }"

definition BlockQueue_IsEmpty :: "'a block_queue \<Rightarrow> sched \<Rightarrow> bool option" where
  "BlockQueue_IsEmpty q k = do {
     Assert (\<not> sc_intr k);
     Some (bq_head q = bq_tail q)
   }"

text \<open>\<^verbatim>\<open>Wait\<close> and \<^verbatim>\<open>WakeUp\<close> on the reference to one of the two waiters.\<close>

definition BlockQueue_Wait :: "tid option \<Rightarrow> sched \<Rightarrow> (tid option \<times> sched) option" where
  "BlockQueue_Wait waiter k = do {
     Assert (waiter = None);
     let waiter = Some (sc_cur k);
     k \<leftarrow> Thread_Block (sc_cur k) Blocked k;
     Some (waiter, k)
   }"

definition BlockQueue_WakeUp :: "tid option \<Rightarrow> sched \<Rightarrow> (tid option \<times> sched) option" where
  "BlockQueue_WakeUp waiter k = do {
     t \<leftarrow> waiter;
     k \<leftarrow> Thread_Unblock t k;
     Some (None, k)
   }"

definition BlockQueue_Push :: "'a \<Rightarrow> 'a block_queue \<Rightarrow> sched \<Rightarrow> ('a block_queue \<times> sched) option" where
  "BlockQueue_Push val q k = do {
     let q = q\<lparr>bq_buf := (bq_buf q)[bq_head q := val]\<rparr>;
     let q = q\<lparr>bq_head := BlockQueue_GetNextPos (bq_n q) (bq_head q)\<rparr>;
     if bq_consr q \<noteq> None then do {
       (w, k) \<leftarrow> BlockQueue_WakeUp (bq_consr q) k;
       Some (q\<lparr>bq_consr := w\<rparr>, k)
     }
     else Some (q, k)
   }"

definition BlockQueue_Pop :: "'a block_queue \<Rightarrow> sched \<Rightarrow> ('a \<times> 'a block_queue \<times> sched) option" where
  "BlockQueue_Pop q k = do {
     let val = bq_buf q ! bq_tail q;
     let q = q\<lparr>bq_tail := BlockQueue_GetNextPos (bq_n q) (bq_tail q)\<rparr>;
     if bq_prod q \<noteq> None then do {
       (w, k) \<leftarrow> BlockQueue_WakeUp (bq_prod q) k;
       Some (val, q\<lparr>bq_prod := w\<rparr>, k)
     }
     else Some (val, q, k)
   }"

section \<open>Abstraction\<close>

text \<open>The number of elements and the elements, oldest first.\<close>

definition bq_len :: "'a block_queue \<Rightarrow> nat" where
  "bq_len q = (bq_head q + (bq_n q + 1) - bq_tail q) mod (bq_n q + 1)"

definition bq_list :: "'a block_queue \<Rightarrow> 'a list" where
  "bq_list q = map (\<lambda>i. bq_buf q ! ((bq_tail q + i) mod (bq_n q + 1))) [0..<bq_len q]"

definition bq_ok :: "'a block_queue \<Rightarrow> bool" where
  "bq_ok q \<longleftrightarrow> length (bq_buf q) = bq_n q + 1 \<and> bq_head q \<le> bq_n q \<and> bq_tail q \<le> bq_n q"

text \<open>A waiter, if there is one, is a blocked thread.\<close>

definition waiter_ok :: "tid option \<Rightarrow> sched \<Rightarrow> bool" where
  "waiter_ok w k \<longleftrightarrow>
     (case w of None \<Rightarrow> True | Some t \<Rightarrow> t \<in> set (sc_all k) \<and> status_of k t = Blocked)"

lemma mod_slot:
  "t \<le> n \<Longrightarrow> i \<le> n \<Longrightarrow> (t + i) mod (n + 1) = (if t + i \<le> n then t + i else t + i - (n + 1))" for t i n :: nat
  by (auto simp: le_mod_geq)

lemma bq_len_cases:
  assumes "bq_ok q"
  shows "bq_len q = (if bq_tail q \<le> bq_head q then bq_head q - bq_tail q
                     else bq_head q + (bq_n q + 1) - bq_tail q)"
proof (cases "bq_tail q \<le> bq_head q")
  case True
  then have "bq_head q + (bq_n q + 1) - bq_tail q = (bq_head q - bq_tail q) + (bq_n q + 1)" by simp
  then have "bq_len q = (bq_head q - bq_tail q) mod (bq_n q + 1)"
    unfolding bq_len_def by (metis mod_add_self2)
  moreover have "bq_head q - bq_tail q < bq_n q + 1" using assms unfolding bq_ok_def by linarith
  ultimately show ?thesis using True by simp
next
  case False
  with assms show ?thesis by (simp add: bq_len_def bq_ok_def)
qed

lemma next_pos: "p \<le> n \<Longrightarrow> BlockQueue_GetNextPos n p = (if p = n then 0 else p + 1)"
  by (simp add: BlockQueue_GetNextPos_def)

lemma bq_len_le: "bq_ok q \<Longrightarrow> bq_len q \<le> bq_n q"
  by (simp add: bq_len_def)

lemma bq_full_iff: "bq_ok q \<Longrightarrow> BlockQueue_GetNextPos (bq_n q) (bq_head q) = bq_tail q \<longleftrightarrow> bq_len q = bq_n q"
  by (auto simp: bq_len_cases next_pos bq_ok_def)

lemma bq_empty_iff: "bq_ok q \<Longrightarrow> bq_head q = bq_tail q \<longleftrightarrow> bq_len q = 0"
  by (auto simp: bq_len_cases bq_ok_def)

lemma length_bq_list [simp]: "length (bq_list q) = bq_len q"
  by (simp add: bq_list_def)

lemma head_slot: "bq_ok q \<Longrightarrow> (bq_tail q + bq_len q) mod (bq_n q + 1) = bq_head q"
  using bq_len_le [of q]
  by (subst mod_slot) (auto simp: bq_len_cases bq_ok_def)

lemma slots_distinct:
  assumes "bq_ok q" "i < bq_len q"
  shows "(bq_tail q + i) mod (bq_n q + 1) \<noteq> bq_head q"
  using assms bq_len_le [OF assms(1)]
  by (subst mod_slot) (auto simp: bq_len_cases bq_ok_def split: if_splits)

definition bq_store :: "'a \<Rightarrow> 'a block_queue \<Rightarrow> 'a block_queue" where
  "bq_store v q = q\<lparr>bq_buf := (bq_buf q)[bq_head q := v],
                    bq_head := BlockQueue_GetNextPos (bq_n q) (bq_head q)\<rparr>"

definition bq_take :: "'a block_queue \<Rightarrow> 'a block_queue" where
  "bq_take q = q\<lparr>bq_tail := BlockQueue_GetNextPos (bq_n q) (bq_tail q)\<rparr>"

lemma bq_store_list:
  assumes "bq_ok q" "bq_len q < bq_n q"
  shows "bq_ok (bq_store v q) \<and> bq_list (bq_store v q) = bq_list q @ [v]"
proof -
  have ok: "bq_ok (bq_store v q)"
    using assms by (auto simp: bq_ok_def bq_store_def BlockQueue_GetNextPos_def less_Suc_eq_le [symmetric])
  have len: "bq_len (bq_store v q) = Suc (bq_len q)"
    using assms ok bq_len_cases [OF ok] bq_len_cases [OF assms(1)]
    by (auto simp: bq_store_def next_pos bq_ok_def split: if_splits)
  have lt: "bq_head q < length (bq_buf q)" using assms(1) by (simp add: bq_ok_def)
  have "bq_buf (bq_store v q) ! ((bq_tail q + i) mod (bq_n q + 1)) =
      (if i = bq_len q then v else bq_buf q ! ((bq_tail q + i) mod (bq_n q + 1)))" if "i < Suc (bq_len q)" for i
    using that slots_distinct [OF assms(1), of i] head_slot [OF assms(1)] lt
    by (auto simp: bq_store_def less_Suc_eq)
  then have "bq_list (bq_store v q) = bq_list q @ [v]"
    unfolding bq_list_def len by (auto simp: bq_store_def)
  with ok show ?thesis by simp
qed

lemma bq_take_list:
  assumes "bq_ok q" "bq_len q \<noteq> 0"
  shows "bq_ok (bq_take q) \<and> bq_list q = bq_buf q ! bq_tail q # bq_list (bq_take q)"
proof -
  have ok: "bq_ok (bq_take q)"
    using assms by (auto simp: bq_ok_def bq_take_def BlockQueue_GetNextPos_def less_Suc_eq_le [symmetric])
  have len: "bq_len q = Suc (bq_len (bq_take q))"
    using assms ok bq_len_cases [OF ok] bq_len_cases [OF assms(1)]
    by (auto simp: bq_take_def next_pos bq_ok_def split: if_splits)
  have idx: "(bq_tail q + Suc i) mod (bq_n q + 1) = (bq_tail (bq_take q) + i) mod (bq_n q + 1)" for i
    by (simp add: bq_take_def BlockQueue_GetNextPos_def mod_add_left_eq)
  have "bq_list q = map (\<lambda>i. bq_buf q ! ((bq_tail q + i) mod (bq_n q + 1))) (0 # map Suc [0..<bq_len (bq_take q)])"
    unfolding bq_list_def len by (simp only: map_Suc_upt) (simp add: upt_conv_Cons del: upt_Suc)
  also have "\<dots> = bq_buf q ! bq_tail q # bq_list (bq_take q)"
    using assms(1) idx by (simp add: bq_list_def bq_ok_def) (simp add: bq_take_def)
  finally show ?thesis using ok by simp
qed

section \<open>The contract\<close>

text \<open>
  A bounded first-in first-out queue: what the reader and the keyboard interrupt rely on, whatever
  the buffer looks like.
\<close>

locale bounded_fifo =
  fixes invar :: "'q \<Rightarrow> bool"
    and cap :: "'q \<Rightarrow> nat"
    and content :: "'q \<Rightarrow> 'a list"
    and full :: "'q \<Rightarrow> bool"
    and empty :: "'q \<Rightarrow> bool"
    and put :: "'a \<Rightarrow> 'q \<Rightarrow> 'q"
    and take_one :: "'q \<Rightarrow> 'a \<times> 'q"
  assumes bounded: "invar q \<Longrightarrow> length (content q) \<le> cap q"
    and full_iff: "invar q \<Longrightarrow> full q \<longleftrightarrow> length (content q) = cap q"
    and empty_iff: "invar q \<Longrightarrow> empty q \<longleftrightarrow> content q = []"
    and put_law: "invar q \<Longrightarrow> \<not> full q \<Longrightarrow>
          invar (put v q) \<and> content (put v q) = content q @ [v] \<and> cap (put v q) = cap q"
    and take_law: "invar q \<Longrightarrow> \<not> empty q \<Longrightarrow>
          content q = fst (take_one q) # content (snd (take_one q)) \<and> invar (snd (take_one q)) \<and>
          cap (snd (take_one q)) = cap q"
begin

text \<open>Filling the queue and then draining it returns everything in order.\<close>

lemma puts:
  "invar q \<Longrightarrow> length (content q) + length vs \<le> cap q \<Longrightarrow>
   invar (fold put vs q) \<and> content (fold put vs q) = content q @ vs \<and> cap (fold put vs q) = cap q"
proof (induction vs arbitrary: q)
  case (Cons v vs)
  then have "\<not> full q" using full_iff [of q] by simp
  with Cons put_law [of q v] show ?case by simp
qed simp

lemma put_take:
  assumes "invar q" "\<not> empty q" "\<not> full q"
  shows "fst (take_one (put v q)) = fst (take_one q) \<and>
         content (snd (take_one (put v q))) = content (snd (take_one q)) @ [v]"
proof -
  have p: "invar (put v q)" "content (put v q) = content q @ [v]" using put_law assms by auto
  then have "\<not> empty (put v q)" using empty_iff [of "put v q"] by simp
  with take_law [OF p(1)] take_law [OF assms(1,2)] p(2) show ?thesis by simp
qed

end

interpretation bq: bounded_fifo bq_ok bq_n bq_list
  "\<lambda>q. BlockQueue_GetNextPos (bq_n q) (bq_head q) = bq_tail q" "\<lambda>q. bq_head q = bq_tail q"
  bq_store "\<lambda>q. (bq_buf q ! bq_tail q, bq_take q)"
proof
  fix q :: "'a block_queue" and v :: 'a
  assume ok: "bq_ok q"
  show "length (bq_list q) \<le> bq_n q" using bq_len_le [OF ok] by simp
  show "(BlockQueue_GetNextPos (bq_n q) (bq_head q) = bq_tail q) = (length (bq_list q) = bq_n q)"
    using bq_full_iff [OF ok] by simp
  show e: "(bq_head q = bq_tail q) = (bq_list q = [])"
    using bq_empty_iff [OF ok] by (metis length_0_conv length_bq_list)
  show "bq_ok (bq_store v q) \<and> bq_list (bq_store v q) = bq_list q @ [v] \<and> bq_n (bq_store v q) = bq_n q"
    if "BlockQueue_GetNextPos (bq_n q) (bq_head q) \<noteq> bq_tail q"
    using that bq_store_list [OF ok] bq_full_iff [OF ok] bq_len_le [OF ok]
    by (auto simp: bq_store_def)
  show "bq_list q = fst (bq_buf q ! bq_tail q, bq_take q) # bq_list (snd (bq_buf q ! bq_tail q, bq_take q)) \<and>
      bq_ok (snd (bq_buf q ! bq_tail q, bq_take q)) \<and> bq_n (snd (bq_buf q ! bq_tail q, bq_take q)) = bq_n q"
    if "bq_head q \<noteq> bq_tail q"
    using that bq_take_list [OF ok] bq_empty_iff [OF ok] by (auto simp: bq_take_def)
qed

section \<open>Properties\<close>

lemma WakeUp_ok:
  assumes "sched_ok k" "waiter_ok (Some t) k"
  shows "\<exists>k'. BlockQueue_WakeUp (Some t) k = Some (None, k') \<and> sched_ok k' \<and> sc_ready k' = t # sc_ready k \<and>
           sc_cur k' = sc_cur k"
  using Unblock_ok [of k t] assms by (auto simp: BlockQueue_WakeUp_def waiter_ok_def)

lemma Push_ok:
  assumes "bq_ok q" "sched_ok k" "waiter_ok (bq_consr q) k" "length (bq_list q) < bq_n q"
  shows "\<exists>q' k'. BlockQueue_Push v q k = Some (q', k') \<and> bq_ok q' \<and> bq_list q' = bq_list q @ [v] \<and>
      sched_ok k' \<and> bq_consr q' = None \<and>
      sc_ready k' = (case bq_consr q of None \<Rightarrow> sc_ready k | Some t \<Rightarrow> t # sc_ready k)"
proof -
  have st: "bq_ok (bq_store v q)" "bq_list (bq_store v q) = bq_list q @ [v]"
    using bq.put_law [OF assms(1), of v] bq.full_iff [OF assms(1)] assms(4) by auto
  have c: "bq_consr (bq_store v q) = bq_consr q" "\<And>c. bq_list (q'\<lparr>bq_consr := c\<rparr>) = bq_list q'"
    "\<And>c. bq_ok (q'\<lparr>bq_consr := c\<rparr>) = bq_ok q'" for q' :: "'a block_queue"
    by (simp_all add: bq_store_def bq_list_def bq_len_def bq_ok_def)
  show ?thesis
  proof (cases "bq_consr q")
    case None
    with st assms(2) c(1) show ?thesis by (auto simp: BlockQueue_Push_def bq_store_def Let_def)
  next
    case (Some t)
    with WakeUp_ok [OF assms(2), of t] assms(3) obtain k'
      where k': "BlockQueue_WakeUp (Some t) k = Some (None, k')" "sched_ok k'" "sc_ready k' = t # sc_ready k"
      by auto
    then have "BlockQueue_Push v q k = Some ((bq_store v q)\<lparr>bq_consr := None\<rparr>, k')"
      using Some by (simp add: BlockQueue_Push_def bq_store_def Let_def)
    with st Some k' c show ?thesis by auto
  qed
qed

lemma Pop_ok:
  assumes "bq_ok q" "sched_ok k" "waiter_ok (bq_prod q) k" "bq_list q \<noteq> []"
  shows "\<exists>q' k'. BlockQueue_Pop q k = Some (hd (bq_list q), q', k') \<and> bq_ok q' \<and> bq_list q' = tl (bq_list q) \<and>
      sched_ok k' \<and> bq_prod q' = None \<and>
      sc_ready k' = (case bq_prod q of None \<Rightarrow> sc_ready k | Some t \<Rightarrow> t # sc_ready k)"
proof -
  have tk: "bq_list q = bq_buf q ! bq_tail q # bq_list (bq_take q)" "bq_ok (bq_take q)"
    using bq.take_law [OF assms(1)] bq.empty_iff [OF assms(1)] assms(4) by auto
  have c: "bq_prod (bq_take q) = bq_prod q" "\<And>c. bq_list (q'\<lparr>bq_prod := c\<rparr>) = bq_list q'"
    "\<And>c. bq_ok (q'\<lparr>bq_prod := c\<rparr>) = bq_ok q'" for q' :: "'a block_queue"
    by (simp_all add: bq_take_def bq_list_def bq_len_def bq_ok_def)
  show ?thesis
  proof (cases "bq_prod q")
    case None
    with tk assms(2) c(1) show ?thesis by (auto simp: BlockQueue_Pop_def bq_take_def Let_def)
  next
    case (Some t)
    with WakeUp_ok [OF assms(2), of t] assms(3) obtain k'
      where k': "BlockQueue_WakeUp (Some t) k = Some (None, k')" "sched_ok k'" "sc_ready k' = t # sc_ready k"
      by auto
    then have "BlockQueue_Pop q k = Some (bq_buf q ! bq_tail q, (bq_take q)\<lparr>bq_prod := None\<rparr>, k')"
      using Some by (simp add: BlockQueue_Pop_def bq_take_def Let_def)
    with tk Some k' c show ?thesis by auto
  qed
qed


definition bq_example :: "nat block_queue" where
  "bq_example = \<lparr>bq_n = 2, bq_buf = [7, 8, 9], bq_head = 0, bq_tail = 2, bq_prod = None, bq_consr = None\<rparr>"


end
