(* ===== verification/Descriptors.thy ===== *)
theory Descriptors
  imports Bits
begin

text \<open>
  Segment selectors (\<^verbatim>\<open>include/kernel/selector/sel.h\<close>), descriptors and descriptor tables
  (\<^verbatim>\<open>include/kernel/descriptor/desc.h\<close>, \<^verbatim>\<open>descriptor/gdt\<close>), the task state segment
  (\<^verbatim>\<open>src/kernel/process/tss.cpp\<close>) and the interrupt descriptor table (\<^verbatim>\<open>src/kernel/interrupt/intr.cpp\<close>).
  The packed values are words of the width of the class; a setter that returns \<^verbatim>\<open>*this\<close> returns the
  new word. The theorems say that the fields of a packed value are independent and read back as
  written, so that the tables handed to the CPU mean what the code says.
\<close>

section \<open>Privileges and selectors\<close>

datatype privilege = PrivZero | PrivOne | PrivTwo | PrivThree

fun priv_code :: "privilege \<Rightarrow> u32" where
  "priv_code PrivZero = 0"
| "priv_code PrivOne = 1"
| "priv_code PrivTwo = 2"
| "priv_code PrivThree = 3"

definition priv_of :: "'a::len word \<Rightarrow> privilege" where
  "priv_of w = (if w = 0 then PrivZero else if w = 1 then PrivOne else if w = 2 then PrivTwo else PrivThree)"

datatype desc_tab_type = Gdt | Ldt

definition sel_rpl_pos :: nat where "sel_rpl_pos = 0"
definition sel_rpl_len :: nat where "sel_rpl_len = 2"
definition sel_tab_pos :: nat where "sel_tab_pos = sel_rpl_pos + sel_rpl_len"
definition sel_idx_pos :: nat where "sel_idx_pos = sel_tab_pos + 1"
definition sel_idx_len :: nat where "sel_idx_len = 13"

lemmas sel_consts = sel_rpl_pos_def sel_rpl_len_def sel_tab_pos_def sel_idx_pos_def sel_idx_len_def

definition Selector :: "desc_tab_type \<Rightarrow> privilege \<Rightarrow> u32 \<Rightarrow> u16" where
  "Selector tab rpl idx =
     (let sel = (if tab = Ldt then SetBit 0 sel_tab_pos else 0);
          sel = SetBits sel (priv_code rpl) sel_rpl_pos sel_rpl_len
      in SetBits sel idx sel_idx_pos sel_idx_len)"

definition Selector_GetTabType :: "u16 \<Rightarrow> desc_tab_type" where
  "Selector_GetTabType sel = (if IsBitSet sel sel_tab_pos then Ldt else Gdt)"

definition Selector_GetRpl :: "u16 \<Rightarrow> privilege" where
  "Selector_GetRpl sel = priv_of (GetBits sel sel_rpl_pos sel_rpl_len)"

definition Selector_SetRpl :: "u16 \<Rightarrow> privilege \<Rightarrow> u16" where
  "Selector_SetRpl sel rpl = SetBits sel (priv_code rpl) sel_rpl_pos sel_rpl_len"

definition Selector_GetIdx :: "u16 \<Rightarrow> u32" where
  "Selector_GetIdx sel = ucast (GetBits sel sel_idx_pos sel_idx_len)"

definition gdt_count :: nat where "gdt_count = 60"
definition idx_krnl_code :: nat where "idx_krnl_code = 1"
definition idx_krnl_data :: nat where "idx_krnl_data = 2"
definition idx_gs :: nat where "idx_gs = 3"
definition idx_tss :: nat where "idx_tss = 4"
definition idx_usr_code :: nat where "idx_usr_code = 5"
definition idx_usr_data :: nat where "idx_usr_data = 6"

lemmas idx_consts = idx_krnl_code_def idx_krnl_data_def idx_gs_def idx_tss_def idx_usr_code_def idx_usr_data_def

definition sel_krnl_code :: u16 where "sel_krnl_code = Selector Gdt PrivZero (of_nat idx_krnl_code)"
definition sel_krnl_data :: u16 where "sel_krnl_data = Selector Gdt PrivZero (of_nat idx_krnl_data)"
definition sel_krnl_stack :: u16 where "sel_krnl_stack = sel_krnl_data"
definition sel_gs :: u16 where "sel_gs = Selector Gdt PrivZero (of_nat idx_gs)"
definition sel_tss :: u16 where "sel_tss = Selector Gdt PrivZero (of_nat idx_tss)"
definition sel_usr_code :: u16 where "sel_usr_code = Selector Gdt PrivThree (of_nat idx_usr_code)"
definition sel_usr_data :: u16 where "sel_usr_data = Selector Gdt PrivThree (of_nat idx_usr_data)"
definition sel_usr_stack :: u16 where "sel_usr_stack = sel_usr_data"

section \<open>Attributes\<close>

datatype sys_type = Tss16 | BusyTss16 | Tss32 | BusyTss32 | Intr16 | Intr32 | Call16 | Call32
  | Trap16 | Trap32 | LdtDesc | TaskGate

fun sys_type_code :: "sys_type \<Rightarrow> u8" where
  "sys_type_code Tss16 = 1" | "sys_type_code BusyTss16 = 3" | "sys_type_code Tss32 = 9"
| "sys_type_code BusyTss32 = 11" | "sys_type_code Intr16 = 6" | "sys_type_code Intr32 = 14"
| "sys_type_code Call16 = 4" | "sys_type_code Call32 = 12" | "sys_type_code Trap16 = 7"
| "sys_type_code Trap32 = 15" | "sys_type_code LdtDesc = 2" | "sys_type_code TaskGate = 5"

datatype non_sys_type = ExecCode | ReadExecCode | ExecConformCode | ReadExecConformCode
  | ReadData | ReadWriteData | ReadExtDownData | ReadWriteExtDownData

fun non_sys_type_code :: "non_sys_type \<Rightarrow> u8" where
  "non_sys_type_code ExecCode = 4" | "non_sys_type_code ReadExecCode = 5"
| "non_sys_type_code ExecConformCode = 6" | "non_sys_type_code ReadExecConformCode = 7"
| "non_sys_type_code ReadData = 0" | "non_sys_type_code ReadWriteData = 1"
| "non_sys_type_code ReadExtDownData = 2" | "non_sys_type_code ReadWriteExtDownData = 3"

definition attr_type_pos :: nat where "attr_type_pos = 0"
definition attr_type_len :: nat where "attr_type_len = 4"
definition attr_s_pos :: nat where "attr_s_pos = attr_type_pos + attr_type_len"
definition attr_dpl_pos :: nat where "attr_dpl_pos = attr_s_pos + 1"
definition attr_dpl_len :: nat where "attr_dpl_len = 2"
definition attr_p_pos :: nat where "attr_p_pos = attr_dpl_pos + attr_dpl_len"

lemmas attr_consts = attr_type_pos_def attr_type_len_def attr_s_pos_def attr_dpl_pos_def
  attr_dpl_len_def attr_p_pos_def

definition Attribute_IsSystem :: "u8 \<Rightarrow> bool" where
  "Attribute_IsSystem attr \<longleftrightarrow> \<not> IsBitSet attr attr_s_pos"

definition Attribute_SetSystem :: "u8 \<Rightarrow> bool \<Rightarrow> u8" where
  "Attribute_SetSystem attr sys = (if sys then ResetBit attr attr_s_pos else SetBit attr attr_s_pos)"

definition Attribute_SetTypeBits :: "u8 \<Rightarrow> u8 \<Rightarrow> u8" where
  "Attribute_SetTypeBits attr type = SetBits attr type attr_type_pos attr_type_len"

definition Attribute_SetNonSysType :: "u8 \<Rightarrow> non_sys_type \<Rightarrow> u8" where
  "Attribute_SetNonSysType attr type =
     Attribute_SetTypeBits (Attribute_SetSystem attr False) (non_sys_type_code type)"

definition Attribute_SetSysType :: "u8 \<Rightarrow> sys_type \<Rightarrow> u8" where
  "Attribute_SetSysType attr type =
     Attribute_SetTypeBits (Attribute_SetSystem attr True) (sys_type_code type)"

definition Attribute_GetType :: "u8 \<Rightarrow> u8" where
  "Attribute_GetType attr =
     (let type = GetBits attr attr_type_pos attr_type_len
      in if \<not> Attribute_IsSystem attr then ResetBit type 0 else type)"

definition Attribute_GetDpl :: "u8 \<Rightarrow> privilege" where
  "Attribute_GetDpl attr = priv_of (GetBits attr attr_dpl_pos attr_dpl_len)"

definition Attribute_SetDpl :: "u8 \<Rightarrow> privilege \<Rightarrow> u8" where
  "Attribute_SetDpl attr dpl = SetBits attr (priv_code dpl) attr_dpl_pos attr_dpl_len"

definition Attribute_SetPresent :: "u8 \<Rightarrow> bool \<Rightarrow> u8" where
  "Attribute_SetPresent attr present = (if present then SetBit attr attr_p_pos else ResetBit attr attr_p_pos)"

definition Attribute_IsPresent :: "u8 \<Rightarrow> bool" where
  "Attribute_IsPresent attr \<longleftrightarrow> IsBitSet attr attr_p_pos"

definition Attribute_Format :: "bool \<Rightarrow> u8 \<Rightarrow> privilege \<Rightarrow> bool \<Rightarrow> u8" where
  "Attribute_Format system type dpl present =
     Attribute_SetPresent (Attribute_SetDpl (Attribute_SetSystem (Attribute_SetTypeBits 0 type) system) dpl) present"

definition Attribute_sys :: "sys_type \<Rightarrow> privilege \<Rightarrow> bool \<Rightarrow> u8" where
  "Attribute_sys type dpl present = Attribute_Format True (sys_type_code type) dpl present"

definition Attribute_nonsys :: "non_sys_type \<Rightarrow> privilege \<Rightarrow> bool \<Rightarrow> u8" where
  "Attribute_nonsys type dpl present = Attribute_Format False (non_sys_type_code type) dpl present"

lemmas attr_defs = Attribute_IsSystem_def Attribute_SetSystem_def Attribute_SetTypeBits_def
  Attribute_SetNonSysType_def Attribute_SetSysType_def Attribute_GetType_def Attribute_GetDpl_def
  Attribute_SetDpl_def Attribute_SetPresent_def Attribute_IsPresent_def Attribute_Format_def
  Attribute_sys_def Attribute_nonsys_def attr_consts

section \<open>Descriptors\<close>

definition attr_pos :: nat where "attr_pos = 40"

definition Descriptor_IsInvalid :: "u64 \<Rightarrow> bool" where
  "Descriptor_IsInvalid desc \<longleftrightarrow> desc = 0"

definition Descriptor_GetAttribute :: "u64 \<Rightarrow> u8" where
  "Descriptor_GetAttribute desc = GetByte desc attr_pos"

definition Descriptor_SetAttribute :: "u64 \<Rightarrow> u8 \<Rightarrow> u64" where
  "Descriptor_SetAttribute desc attr = SetByte desc attr attr_pos"

definition Descriptor_GetDpl :: "u64 \<Rightarrow> privilege" where
  "Descriptor_GetDpl desc = Attribute_GetDpl (Descriptor_GetAttribute desc)"

definition Descriptor_SetDpl :: "u64 \<Rightarrow> privilege \<Rightarrow> u64" where
  "Descriptor_SetDpl desc dpl = Descriptor_SetAttribute desc (Attribute_SetDpl (Descriptor_GetAttribute desc) dpl)"

definition Descriptor_IsSystem :: "u64 \<Rightarrow> bool" where
  "Descriptor_IsSystem desc \<longleftrightarrow> Attribute_IsSystem (Descriptor_GetAttribute desc)"

definition Descriptor_SetSystem :: "u64 \<Rightarrow> bool \<Rightarrow> u64" where
  "Descriptor_SetSystem desc sys =
     Descriptor_SetAttribute desc (Attribute_SetSystem (Descriptor_GetAttribute desc) sys)"

definition Descriptor_SetPresent :: "u64 \<Rightarrow> bool \<Rightarrow> u64" where
  "Descriptor_SetPresent desc present =
     Descriptor_SetAttribute desc (Attribute_SetPresent (Descriptor_GetAttribute desc) present)"

definition Descriptor_IsPresent :: "u64 \<Rightarrow> bool" where
  "Descriptor_IsPresent desc \<longleftrightarrow> Attribute_IsPresent (Descriptor_GetAttribute desc)"

text \<open>Gate descriptors.\<close>

definition gate_offset_low_pos :: nat where "gate_offset_low_pos = 0"
definition gate_sel_pos :: nat where "gate_sel_pos = gate_offset_low_pos + 2 * byte_len"
definition gate_offset_high_pos :: nat where "gate_offset_high_pos = attr_pos + byte_len"

definition GateDesc_SetFuncOffset :: "u64 \<Rightarrow> u32 \<Rightarrow> u64" where
  "GateDesc_SetFuncOffset desc func =
     (let desc = SetWord desc (GetLowWord func) gate_offset_low_pos
      in SetWord desc (GetHighWord func) gate_offset_high_pos)"

definition GateDesc_GetFuncOffset :: "u64 \<Rightarrow> u32" where
  "GateDesc_GetFuncOffset desc = CombineWords (GetWord desc gate_offset_high_pos) (GetWord desc gate_offset_low_pos)"

definition GateDesc_GetSelector :: "u64 \<Rightarrow> u16" where
  "GateDesc_GetSelector desc = GetWord desc gate_sel_pos"

definition GateDesc_SetSelector :: "u64 \<Rightarrow> u16 \<Rightarrow> u64" where
  "GateDesc_SetSelector desc sel = SetWord desc sel gate_sel_pos"

definition GateDesc :: "u16 \<Rightarrow> u32 \<Rightarrow> u8 \<Rightarrow> u64" where
  "GateDesc sel func attr =
     Descriptor_SetAttribute (GateDesc_SetFuncOffset (GateDesc_SetSelector 0 sel) func) attr"

text \<open>Segment descriptors.\<close>

definition limit_low_pos :: nat where "limit_low_pos = 0"
definition base_low_pos :: nat where "base_low_pos = limit_low_pos + 2 * byte_len"
definition base_low_len :: nat where "base_low_len = (2 + 1) * byte_len"
definition limit_high_pos :: nat where "limit_high_pos = attr_pos + byte_len"
definition limit_high_len :: nat where "limit_high_len = 4"
definition avl_pos :: nat where "avl_pos = limit_high_pos + limit_high_len"
definition l_pos :: nat where "l_pos = avl_pos + 1"
definition db_pos :: nat where "db_pos = l_pos + 1"
definition g_pos :: nat where "g_pos = db_pos + 1"
definition base_high_pos :: nat where "base_high_pos = g_pos + 1"

definition SegDesc_SetBase :: "u64 \<Rightarrow> u32 \<Rightarrow> u64" where
  "SegDesc_SetBase desc base =
     (let low = GetBits base 0 base_low_len;
          high = GetByte base base_low_len;
          desc = SetBits desc low base_low_pos base_low_len
      in SetByte desc high base_high_pos)"

definition SegDesc_GetBase :: "u64 \<Rightarrow> u32" where
  "SegDesc_GetBase desc =
     (let low = GetBits desc base_low_pos base_low_len;
          high = GetByte desc base_high_pos;
          base = (ucast low :: u32)
      in SetByte base high base_low_len)"

definition SegDesc_SetLimit :: "u64 \<Rightarrow> u32 \<Rightarrow> u64" where
  "SegDesc_SetLimit desc limit =
     (let low = GetWord limit 0;
          high = GetBits limit (2 * byte_len) limit_high_len;
          desc = SetWord desc low limit_low_pos
      in SetBits desc high limit_high_pos limit_high_len)"

definition SegDesc_GetLimit :: "u64 \<Rightarrow> u32" where
  "SegDesc_GetLimit desc =
     (let low = GetWord desc limit_low_pos;
          high = GetBits desc limit_high_pos limit_high_len;
          limit = (ucast low :: u32)
      in SetBits limit high (2 * byte_len) limit_high_len)"

definition SegDesc_SetGranularity :: "u64 \<Rightarrow> bool \<Rightarrow> u64" where
  "SegDesc_SetGranularity desc large = (if large then SetBit desc g_pos else ResetBit desc g_pos)"

definition SegDesc_GetGranularity :: "u64 \<Rightarrow> u32" where
  "SegDesc_GetGranularity desc = (if IsBitSet desc g_pos then KB 4 else 1)"

definition SegDesc_GetSize :: "u64 \<Rightarrow> u32" where
  "SegDesc_GetSize desc = SegDesc_GetGranularity desc * (SegDesc_GetLimit desc + 1)"

definition SegDesc :: "u32 \<Rightarrow> u32 \<Rightarrow> u8 \<Rightarrow> bool \<Rightarrow> u64" where
  "SegDesc base limit attr large =
     Descriptor_SetAttribute (SegDesc_SetGranularity (SegDesc_SetLimit (SegDesc_SetBase 0 base) limit) large) attr"

lemmas desc_defs = attr_pos_def Descriptor_GetAttribute_def Descriptor_SetAttribute_def
  GateDesc_SetFuncOffset_def GateDesc_GetFuncOffset_def GateDesc_GetSelector_def GateDesc_SetSelector_def
  GateDesc_def gate_offset_low_pos_def gate_sel_pos_def gate_offset_high_pos_def
  SegDesc_SetBase_def SegDesc_GetBase_def SegDesc_SetLimit_def SegDesc_GetLimit_def
  SegDesc_SetGranularity_def SegDesc_def limit_low_pos_def base_low_pos_def base_low_len_def
  limit_high_pos_def limit_high_len_def avl_pos_def l_pos_def db_pos_def g_pos_def base_high_pos_def
  byte_len_def GetByte_def GetWord_def SetByte_def SetWord_def

section \<open>Descriptor tables\<close>

record desc_tab_reg =
  dtr_limit :: u16
  dtr_base :: u32

definition DescTab_BuildReg :: "u32 \<Rightarrow> nat \<Rightarrow> desc_tab_reg" where
  "DescTab_BuildReg data count = \<lparr>dtr_limit = of_nat (count * 8 - 1), dtr_base = data\<rparr>"

definition DescTabSpan_count :: "desc_tab_reg \<Rightarrow> nat" where
  "DescTabSpan_count reg = (unat (dtr_limit reg) + 1) div 8"

definition DescTab_index :: "u64 list \<Rightarrow> nat \<Rightarrow> u64 option" where
  "DescTab_index tab idx = do {
     Assert (idx < length tab);
     Some (tab ! idx)
   }"

definition DescTab_set :: "u64 list \<Rightarrow> nat \<Rightarrow> u64 \<Rightarrow> u64 list option" where
  "DescTab_set tab idx desc = do {
     Assert (idx < length tab);
     Some (tab[idx := desc])
   }"

text \<open>\<^verbatim>\<open>InitTaskStateSeg\<close> on the global descriptor table; \<open>tss_addr\<close> is the address of the segment.\<close>

definition TaskStateSeg_size :: nat where "TaskStateSeg_size = 27 * 4"

definition InitTaskStateSeg :: "bool \<Rightarrow> u32 \<Rightarrow> u64 list \<Rightarrow> u64 list option" where
  "InitTaskStateSeg thread_inited tss_addr gdt = do {
     Assert thread_inited;
     d \<leftarrow> DescTab_index gdt idx_tss;
     Assert (Descriptor_IsInvalid d);
     gdt \<leftarrow> DescTab_set gdt idx_tss
       (SegDesc tss_addr (of_nat (TaskStateSeg_size - 1)) (Attribute_sys Tss32 PrivZero True) False);
     d \<leftarrow> DescTab_index gdt idx_usr_code;
     Assert (Descriptor_IsInvalid d);
     c \<leftarrow> DescTab_index gdt idx_krnl_code;
     gdt \<leftarrow> DescTab_set gdt idx_usr_code (Descriptor_SetDpl c PrivThree);
     d \<leftarrow> DescTab_index gdt idx_usr_data;
     Assert (Descriptor_IsInvalid d);
     c \<leftarrow> DescTab_index gdt idx_krnl_data;
     DescTab_set gdt idx_usr_data (Descriptor_SetDpl c PrivThree)
   }"

text \<open>\<^verbatim>\<open>InitIntrDescTab\<close>: every entry an interrupt gate of the kernel, the system call open to users.\<close>

definition intr_count :: nat where "intr_count = 0x31"
definition intr_SysCall :: nat where "intr_SysCall = 0x30"

definition InitIntrDescTab :: "u32 list \<Rightarrow> u64 list option" where
  "InitIntrDescTab intr_entries = do {
     let idt = map (\<lambda>e. GateDesc sel_krnl_code e (Attribute_sys Intr32 PrivZero True)) intr_entries;
     DescTab_set idt intr_SysCall
       (GateDesc sel_krnl_code (intr_entries ! intr_SysCall) (Attribute_sys Intr32 PrivThree True))
   }"

section \<open>Fields read back\<close>

text \<open>A privilege fits into the two bits the packed values give it, at 8, 16 and 32 bits.\<close>

lemma priv_of_code8 [simp]: "priv_of (ucast (priv_code p) :: u8) = p"
  by (cases p) (simp_all add: priv_of_def)

lemma priv_of_code16 [simp]: "priv_of (ucast (priv_code p) :: u16) = p"
  by (cases p) (simp_all add: priv_of_def)

lemma priv_of_code32 [simp]: "priv_of (priv_code p) = p"
  by (cases p) (simp_all add: priv_of_def)

lemma bit_priv_code: "bit (priv_code p) n \<Longrightarrow> n < 2"
proof (cases p)
  case PrivThree
  assume "bit (priv_code p) n"
  then have "bit (3 :: u32) n" using PrivThree by simp
  then have "bit (mask 2 :: u32) n" by (simp add: mask_eq_exp_minus_1)
  then show ?thesis by (simp add: bit_mask_iff)
qed (auto simp: bit_simps bit_1_iff simp flip: exp_eq_0_imp_not_bit)

lemma Selector_GetRpl_Selector: "Selector_GetRpl (Selector tab rpl idx) = rpl"
proof -
  have "GetBits (Selector tab rpl idx) sel_rpl_pos sel_rpl_len = ucast (priv_code rpl)"
    by (rule bit_word_eqI) (auto simp: bits_simps Selector_def sel_consts Let_def dest: bit_priv_code)
  then show ?thesis by (simp add: Selector_GetRpl_def)
qed

lemma Selector_GetTabType_Selector: "Selector_GetTabType (Selector tab rpl idx) = tab"
  by (cases tab) (auto simp: bits_simps Selector_GetTabType_def Selector_def sel_consts Let_def)

lemma Selector_GetIdx_Selector:
  assumes "unat idx < 2 ^ 13"
  shows "Selector_GetIdx (Selector tab rpl idx) = idx"
  unfolding Selector_GetIdx_def
  by (rule bit_word_eqI)
    (auto simp: bits_simps Selector_def sel_consts Let_def dest: bit_word_bound [OF assms])

lemma GateDesc_fields:
  "GateDesc_GetSelector (GateDesc sel func attr) = sel"
  "GateDesc_GetFuncOffset (GateDesc sel func attr) = func"
  "Descriptor_GetAttribute (GateDesc sel func attr) = attr"
  by (rule bit_word_eqI;
      auto simp: bits_simps desc_defs GetLowWord_def GetHighWord_def CombineWords_def Let_def
        dest: bit_imp_le_length)+

lemma SegDesc_base: "SegDesc_GetBase (SegDesc base limit attr large) = base"
  by (rule bit_word_eqI) (auto simp: bits_simps desc_defs Let_def dest: bit_imp_le_length)

lemma SegDesc_limit:
  assumes "unat limit < 2 ^ 20"
  shows "SegDesc_GetLimit (SegDesc base limit attr large) = limit"
  by (rule bit_word_eqI)
    (auto simp: bits_simps desc_defs Let_def dest: bit_imp_le_length bit_word_bound [OF assms])

lemma SegDesc_attr: "Descriptor_GetAttribute (SegDesc base limit attr large) = attr"
  by (rule bit_word_eqI) (auto simp: bits_simps desc_defs Let_def dest: bit_imp_le_length)

lemma SegDesc_granularity:
  "SegDesc_GetGranularity (SegDesc base limit attr large) = (if large then KB 4 else 1)"
  by (auto simp: SegDesc_GetGranularity_def bits_simps desc_defs Let_def)

lemma Attribute_Format_fields:
  "Attribute_IsSystem (Attribute_Format sys type dpl present) = sys"
  "Attribute_GetDpl (Attribute_Format sys type dpl present) = dpl"
  "Attribute_IsPresent (Attribute_Format sys type dpl present) = present"
proof -
  have "GetBits (Attribute_Format sys type dpl present) attr_dpl_pos attr_dpl_len = ucast (priv_code dpl)"
    by (rule bit_word_eqI) (auto simp: bits_simps attr_defs dest: bit_priv_code)
  then show "Attribute_GetDpl (Attribute_Format sys type dpl present) = dpl"
    by (simp add: Attribute_GetDpl_def)
qed (auto simp: bits_simps attr_defs)

lemma bit_sys_type_code: "bit (sys_type_code t) i \<Longrightarrow> i < 4"
  by (rule bit_word_bound [of "sys_type_code t" 4]) (cases t; simp)

lemma Attribute_sys_type: "Attribute_GetType (Attribute_sys t dpl present) = sys_type_code t"
  by (rule bit_word_eqI) (auto simp: bits_simps attr_defs Let_def dest: bit_sys_type_code)

lemma SetDpl_attr:
  "Descriptor_GetAttribute (Descriptor_SetDpl d p) = Attribute_SetDpl (Descriptor_GetAttribute d) p"
  by (rule bit_word_eqI) (auto simp: bits_simps desc_defs Descriptor_SetDpl_def Let_def dest: bit_imp_le_length)

lemma Attribute_SetDpl_fields:
  "Attribute_GetDpl (Attribute_SetDpl a p) = p"
  "Attribute_IsPresent (Attribute_SetDpl a p) = Attribute_IsPresent a"
  "Attribute_IsSystem (Attribute_SetDpl a p) = Attribute_IsSystem a"
  "Attribute_GetType (Attribute_SetDpl a p) = Attribute_GetType a"
proof -
  have "GetBits (Attribute_SetDpl a p) attr_dpl_pos attr_dpl_len = ucast (priv_code p)"
    by (rule bit_word_eqI) (auto simp: bits_simps attr_defs dest: bit_priv_code)
  then show "Attribute_GetDpl (Attribute_SetDpl a p) = p"
    by (simp add: Attribute_GetDpl_def)
  show "Attribute_GetType (Attribute_SetDpl a p) = Attribute_GetType a"
    by (rule bit_word_eqI) (auto simp: bits_simps attr_defs Let_def)
qed (auto simp: bits_simps attr_defs)

lemma SetDpl_base_limit:
  "SegDesc_GetBase (Descriptor_SetDpl d p) = SegDesc_GetBase d"
  "SegDesc_GetLimit (Descriptor_SetDpl d p) = SegDesc_GetLimit d"
  "SegDesc_GetGranularity (Descriptor_SetDpl d p) = SegDesc_GetGranularity d"
proof -
  show "SegDesc_GetBase (Descriptor_SetDpl d p) = SegDesc_GetBase d"
    by (rule bit_word_eqI) (auto simp: bits_simps desc_defs Descriptor_SetDpl_def Let_def dest: bit_imp_le_length)
  show "SegDesc_GetLimit (Descriptor_SetDpl d p) = SegDesc_GetLimit d"
    by (rule bit_word_eqI) (auto simp: bits_simps desc_defs Descriptor_SetDpl_def Let_def dest: bit_imp_le_length)
qed (auto simp: bits_simps desc_defs Descriptor_SetDpl_def SegDesc_GetGranularity_def Let_def)

section \<open>Properties\<close>

text \<open>A selector built by \<^verbatim>\<open>Selector(tab, rpl, idx)\<close> reads back its table, its
  privilege and (for an index a descriptor table can have) its index, and changing the privilege
  of a selector leaves the other two fields alone.\<close>

theorem Selector_roundtrip:
  assumes "unat idx < 2 ^ 13"
  shows "Selector_GetTabType (Selector tab rpl idx) = tab \<and>
    Selector_GetRpl (Selector tab rpl idx) = rpl \<and>
    Selector_GetIdx (Selector tab rpl idx) = idx \<and>
    Selector_SetRpl (Selector tab rpl idx) rpl' = Selector tab rpl' idx"
proof -
  have "Selector_SetRpl (Selector tab rpl idx) rpl' = Selector tab rpl' idx"
    by (rule bit_word_eqI) (auto simp: bits_simps Selector_def Selector_SetRpl_def sel_consts Let_def)
  then show ?thesis
    by (simp add: Selector_GetTabType_Selector Selector_GetRpl_Selector Selector_GetIdx_Selector [OF assms])
qed

theorem Selector_roundtrip_witness:
  "Selector_GetTabType sel_usr_code = Gdt \<and> Selector_GetRpl sel_usr_code = PrivThree \<and>
   Selector_GetIdx sel_usr_code = 5"
  using Selector_roundtrip [of 5 Gdt PrivThree PrivZero] by (simp add: sel_usr_code_def idx_consts)

text \<open>Segment descriptors: the base, the 20-bit limit, the attribute and the granularity scattered
  over the eight bytes by the constructor are the ones the getters collect, and the size of the
  segment is \<^verbatim>\<open>(limit + 1)\<close> bytes or pages.\<close>

theorem SegDesc_roundtrip:
  assumes "unat limit < 2 ^ 20"
  shows "SegDesc_GetBase (SegDesc base limit attr large) = base \<and>
    SegDesc_GetLimit (SegDesc base limit attr large) = limit \<and>
    Descriptor_GetAttribute (SegDesc base limit attr large) = attr \<and>
    SegDesc_GetSize (SegDesc base limit attr large) = (if large then KB 4 else 1) * (limit + 1)"
  by (simp add: SegDesc_GetSize_def SegDesc_base SegDesc_limit [OF assms] SegDesc_attr SegDesc_granularity)

theorem SegDesc_roundtrip_witness:
  "SegDesc_GetBase (SegDesc 0xC0012345 0xFFFFF 0x9A True) = 0xC0012345 \<and>
   SegDesc_GetLimit (SegDesc 0xC0012345 0xFFFFF 0x9A True) = 0xFFFFF"
  using SegDesc_roundtrip [of "0xFFFFF" "0xC0012345" "0x9A" True] by simp

text \<open>C29: Every entry of the interrupt descriptor table built by \<^verbatim>\<open>InitIntrDescTab\<close> is a present
  32-bit interrupt gate to its entry point in the kernel code segment; user code may raise only the
  system call, every other gate has privilege zero.\<close>

theorem InitIntrDescTab_gates:
  assumes "length intr_entries = intr_count" and "i < intr_count"
  shows "\<exists>idt. InitIntrDescTab intr_entries = Some idt \<and> length idt = intr_count \<and>
    GateDesc_GetFuncOffset (idt ! i) = intr_entries ! i \<and>
    GateDesc_GetSelector (idt ! i) = sel_krnl_code \<and>
    Attribute_GetType (Descriptor_GetAttribute (idt ! i)) = sys_type_code Intr32 \<and>
    Descriptor_IsPresent (idt ! i) \<and> Descriptor_IsSystem (idt ! i) \<and>
    Descriptor_GetDpl (idt ! i) = (if i = intr_SysCall then PrivThree else PrivZero)"
proof -
  let ?g = "\<lambda>i. GateDesc sel_krnl_code (intr_entries ! i)
    (Attribute_sys Intr32 (if i = intr_SysCall then PrivThree else PrivZero) True)"
  let ?idt = "(map (\<lambda>e. GateDesc sel_krnl_code e (Attribute_sys Intr32 PrivZero True)) intr_entries)
    [intr_SysCall := ?g intr_SysCall]"
  have run: "InitIntrDescTab intr_entries = Some ?idt"
    using assms(1) by (simp add: InitIntrDescTab_def DescTab_set_def intr_count_def intr_SysCall_def)
  have "?idt ! i = ?g i"
    using assms by (auto simp: nth_list_update)
  moreover have "length ?idt = intr_count" using assms(1) by simp
  ultimately show ?thesis
    by (intro exI [of _ ?idt] conjI run)
      (simp_all add: GateDesc_fields Attribute_sys_type Attribute_Format_fields Attribute_sys_def [symmetric]
        Descriptor_IsPresent_def Descriptor_IsSystem_def Descriptor_GetDpl_def
        Attribute_Format_fields [of True "sys_type_code Intr32", folded Attribute_sys_def])
qed

theorem InitIntrDescTab_gates_witness:
  "\<exists>idt. InitIntrDescTab (map of_nat [0..<49]) = Some idt \<and> GateDesc_GetFuncOffset (idt ! 48) = 48 \<and>
     Descriptor_GetDpl (idt ! 48) = PrivThree"
  using InitIntrDescTab_gates [of "map of_nat [0..<49]" 48] by (auto simp: intr_count_def intr_SysCall_def)

text \<open>\<^verbatim>\<open>InitTaskStateSeg\<close> fills the free descriptors of the table: the task state segment at
  its address and of its size, and the two user segments, which cover the same memory with the same type as the
  kernel's and differ from them only in the privilege three. Every other descriptor is untouched.\<close>

theorem InitTaskStateSeg_descriptors:
  assumes "InitTaskStateSeg True tss gdt = Some gdt'"
  shows "SegDesc_GetBase (gdt' ! idx_tss) = tss \<and> SegDesc_GetSize (gdt' ! idx_tss) = of_nat TaskStateSeg_size \<and>
    gdt' ! idx_usr_code = Descriptor_SetDpl (gdt ! idx_krnl_code) PrivThree \<and>
    gdt' ! idx_usr_data = Descriptor_SetDpl (gdt ! idx_krnl_data) PrivThree \<and>
    (\<forall>u k. (u, k) \<in> {(idx_usr_code, idx_krnl_code), (idx_usr_data, idx_krnl_data)} \<longrightarrow>
       Descriptor_GetDpl (gdt' ! u) = PrivThree \<and>
       SegDesc_GetBase (gdt' ! u) = SegDesc_GetBase (gdt ! k) \<and>
       SegDesc_GetLimit (gdt' ! u) = SegDesc_GetLimit (gdt ! k) \<and>
       Attribute_GetType (Descriptor_GetAttribute (gdt' ! u)) =
         Attribute_GetType (Descriptor_GetAttribute (gdt ! k))) \<and>
    (\<forall>i < length gdt. i \<notin> {idx_tss, idx_usr_code, idx_usr_data} \<longrightarrow> gdt' ! i = gdt ! i)"
proof -
  define t where "t = SegDesc tss (of_nat (TaskStateSeg_size - 1)) (Attribute_sys Tss32 PrivZero True) False"
  have len: "6 < length gdt"
    and gdt': "gdt' = gdt[4 := t, 5 := Descriptor_SetDpl (gdt ! 1) PrivThree, 6 := Descriptor_SetDpl (gdt ! 2) PrivThree]"
    using assms by (auto simp: InitTaskStateSeg_def DescTab_index_def DescTab_set_def Assert_def idx_consts t_def
        bind_eq_Some_conv split: if_splits)
  have sz: "SegDesc_GetSize t = of_nat TaskStateSeg_size" "SegDesc_GetBase t = tss"
    by (simp_all add: t_def SegDesc_base SegDesc_GetSize_def SegDesc_granularity SegDesc_limit TaskStateSeg_size_def)
  have "gdt' ! 4 = t" "gdt' ! 5 = Descriptor_SetDpl (gdt ! 1) PrivThree"
    "gdt' ! 6 = Descriptor_SetDpl (gdt ! 2) PrivThree"
    "\<forall>i < length gdt. i \<notin> {4, 5, 6} \<longrightarrow> gdt' ! i = gdt ! i"
    using len by (auto simp: gdt')
  then show ?thesis
    by (simp add: idx_consts sz SetDpl_base_limit SetDpl_attr Descriptor_GetDpl_def Attribute_SetDpl_fields)
qed

definition boot_gdt :: "u64 list" where
  "boot_gdt = [0, SegDesc 0 0xFFFFF 0x98 True, SegDesc 0 0xFFFFF 0x92 True, SegDesc 0xC00B8000 7 0x92 True] @
     replicate (gdt_count - 4) 0"

theorem InitTaskStateSeg_descriptors_witness:
  "\<exists>gdt'. InitTaskStateSeg True 0xC0100000 boot_gdt = Some gdt' \<and> SegDesc_GetBase (gdt' ! 4) = 0xC0100000 \<and>
     gdt' ! 3 = boot_gdt ! 3"
proof -
  have "boot_gdt ! 4 = 0" "boot_gdt ! 5 = 0" "boot_gdt ! 6 = 0" "length boot_gdt = 60"
    by (simp_all add: boot_gdt_def gdt_count_def nth_append)
  then have "InitTaskStateSeg True 0xC0100000 boot_gdt \<noteq> None"
    by (simp add: InitTaskStateSeg_def DescTab_index_def DescTab_set_def Descriptor_IsInvalid_def idx_consts)
  then obtain gdt' where "InitTaskStateSeg True 0xC0100000 boot_gdt = Some gdt'" by auto
  then show ?thesis
    using InitTaskStateSeg_descriptors [of "0xC0100000" boot_gdt gdt']
    by (auto simp: idx_consts boot_gdt_def gdt_count_def)
qed

text \<open>The constructor for non-system attributes packs the enumerator (executable = bit 2, readable or writable =
  bit 0) at bit 0 of the type field, which is the accessed flag of the descriptor format: the getter clears that
  bit, so a readable code attribute reads back as execute-only.\<close>

theorem Attribute_nonsys_type_lost:
  "Attribute_GetType (Attribute_nonsys ReadExecCode dpl present) = non_sys_type_code ExecCode \<and>
   non_sys_type_code ExecCode \<noteq> non_sys_type_code ReadExecCode"
proof -
  have "i < 4" if "bit (5 :: u8) i" for i
    using bit_word_bound [of "5 :: u8" 4 i] that by simp
  then have "Attribute_GetType (Attribute_nonsys ReadExecCode dpl present) = ResetBit 5 0"
    by - (rule bit_word_eqI, auto simp: bits_simps attr_defs Let_def)
  then show ?thesis by (simp add: ResetBit_def)
qed

end
