(* ===== verification/Pools.thy ===== *)
theory Pools
  imports Bitmaps
begin

text \<open>
  The page pools of \<^verbatim>\<open>src/kernel/memory/pool.cpp\<close>: \<^verbatim>\<open>VrAddrPool\<close> hands out virtual page
  addresses, \<^verbatim>\<open>PhyMemPagePool\<close> physical page addresses. Both classes hold a start address, a
  counter of free pages and a bitmap with one bit per page, so one record serves for both; the
  operations of the two classes are translated separately. The mutex of \<^verbatim>\<open>PhyMemPagePool\<close> is taken
  by the callers (\<^verbatim>\<open>GetLock\<close>) and is the subject of the theory of synchronisation. The contract
  both pools give their clients is the locale \<open>page_source\<close>.
\<close>

section \<open>The pools\<close>

record page_pool =
  pl_start :: u32
  pl_free :: nat
  pl_bitmap :: bitmap

definition size_t :: "nat \<Rightarrow> nat" where
  "size_t n = n mod 2 ^ 32"

definition AlignToPageBase :: "u32 \<Rightarrow> u32" where
  "AlignToPageBase addr = BackwardAlign addr (of_nat page_size)"

definition CalcPageCount :: "u32 \<Rightarrow> u32" where
  "CalcPageCount sz = ForwardAlign sz (of_nat page_size) div of_nat page_size"

definition VrAddrPool_Init :: "u32 \<Rightarrow> bitmap \<Rightarrow> page_pool" where
  "VrAddrPool_Init start_vr_addr bm =
     \<lparr>pl_start = start_vr_addr, pl_free = Bitmap_GetCapacity bm, pl_bitmap = bm\<rparr>"

definition VrAddrPool_AllocPages :: "page_pool \<Rightarrow> nat \<Rightarrow> (u32 \<times> page_pool) option" where
  "VrAddrPool_AllocPages p count = do {
     Assert (count > 0);
     (bit_begin, bm) \<leftarrow> Bitmap_Alloc (pl_bitmap p) count;
     let p = p\<lparr>pl_bitmap := bm\<rparr>;
     if bit_begin \<noteq> npos then do {
       Assert (pl_free p \<ge> count);
       Some (pl_start p + of_nat (bit_begin * page_size), p\<lparr>pl_free := pl_free p - count\<rparr>)
     } else Some (0, p)
   }"

definition VrAddrPool_AllocPageAtAddr :: "page_pool \<Rightarrow> u32 \<Rightarrow> (u32 \<times> page_pool) option" where
  "VrAddrPool_AllocPageAtAddr p vr_addr = do {
     let align_vr_addr = AlignToPageBase vr_addr;
     let bit_idx = unat ((align_vr_addr - pl_start p) div of_nat page_size);
     bm \<leftarrow> Bitmap_ForceAlloc (pl_bitmap p) bit_idx 1;
     Assert (pl_free p \<ge> 1);
     Some (align_vr_addr, p\<lparr>pl_bitmap := bm, pl_free := pl_free p - 1\<rparr>)
   }"

definition VrAddrPool_FreePages :: "page_pool \<Rightarrow> u32 \<Rightarrow> nat \<Rightarrow> page_pool option" where
  "VrAddrPool_FreePages p vr_base count = do {
     Assert (count > 0);
     Assert (vr_base \<ge> pl_start p \<and> vr_base mod of_nat page_size = 0);
     let bit_idx = unat ((vr_base - pl_start p) div of_nat page_size);
     bm \<leftarrow> Bitmap_Free (pl_bitmap p) bit_idx count;
     Some (p\<lparr>pl_bitmap := bm, pl_free := size_t (pl_free p + count)\<rparr>)
   }"

definition PhyMemPagePool_Init :: "u32 \<Rightarrow> bitmap \<Rightarrow> page_pool option" where
  "PhyMemPagePool_Init start_phy_addr bm = do {
     bm \<leftarrow> Bitmap_Clear bm;
     Some \<lparr>pl_start = start_phy_addr, pl_free = Bitmap_GetCapacity bm, pl_bitmap = bm\<rparr>
   }"

definition PhyMemPagePool_AllocPages :: "page_pool \<Rightarrow> nat \<Rightarrow> (u32 \<times> page_pool) option" where
  "PhyMemPagePool_AllocPages p count = do {
     Assert (count > 0);
     (bit_begin, bm) \<leftarrow> Bitmap_Alloc (pl_bitmap p) count;
     let p = p\<lparr>pl_bitmap := bm\<rparr>;
     if bit_begin \<noteq> npos then do {
       Assert (pl_free p \<ge> count);
       Some (pl_start p + of_nat (bit_begin * page_size), p\<lparr>pl_free := pl_free p - count\<rparr>)
     } else Some (0, p)
   }"

definition PhyMemPagePool_FreePages :: "page_pool \<Rightarrow> u32 \<Rightarrow> nat \<Rightarrow> page_pool option" where
  "PhyMemPagePool_FreePages p phy_base count = do {
     Assert (count > 0);
     Assert (phy_base \<ge> pl_start p \<and> phy_base mod of_nat page_size = 0);
     let bit_idx = unat ((phy_base - pl_start p) div of_nat page_size);
     bm \<leftarrow> Bitmap_Free (pl_bitmap p) bit_idx count;
     Some (p\<lparr>pl_bitmap := bm, pl_free := size_t (pl_free p + count)\<rparr>)
   }"

lemma PhyMemPagePool_same:
  "PhyMemPagePool_AllocPages = VrAddrPool_AllocPages"
  "PhyMemPagePool_FreePages = VrAddrPool_FreePages"
  by (simp_all add: fun_eq_iff PhyMemPagePool_AllocPages_def VrAddrPool_AllocPages_def
      PhyMemPagePool_FreePages_def VrAddrPool_FreePages_def)

section \<open>Pages of a pool\<close>

abbreviation pool_cap :: "page_pool \<Rightarrow> nat" where
  "pool_cap p \<equiv> Bitmap_GetCapacity (pl_bitmap p)"

definition pool_page :: "page_pool \<Rightarrow> nat \<Rightarrow> u32" where
  "pool_page p i = pl_start p + of_nat (i * page_size)"

definition pool_used :: "page_pool \<Rightarrow> u32 set" where
  "pool_used p = {pool_page p i |i. bm_used (pl_bitmap p) i}"

definition pool_avail :: "page_pool \<Rightarrow> u32 set" where
  "pool_avail p = {pool_page p i |i. i < pool_cap p \<and> \<not> bm_used (pl_bitmap p) i}"

text \<open>
  A pool starts at a page boundary that is not zero, its pages do not wrap around the address space,
  and the counter is the number of clear bits.
\<close>

definition pool_ok :: "page_pool \<Rightarrow> bool" where
  "pool_ok p \<longleftrightarrow> bitmap_ok (pl_bitmap p) \<and> pl_start p \<noteq> 0 \<and> unat (pl_start p) mod page_size = 0 \<and>
     unat (pl_start p) + pool_cap p * page_size \<le> 2 ^ 32 \<and>
     pl_free p + used_slots (bm_used (pl_bitmap p)) (pool_cap p) = pool_cap p"

lemma unat_pool_page:
  assumes "pool_ok p" "i < pool_cap p"
  shows "unat (pool_page p i) = unat (pl_start p) + i * page_size"
proof -
  have "(i + 1) * page_size \<le> pool_cap p * page_size" using assms(2) by (intro mult_le_mono1) simp
  moreover have "unat (pl_start p) + pool_cap p * page_size \<le> 2 ^ 32" "0 < page_size"
    using assms(1) by (auto simp: pool_ok_def page_size_def)
  ultimately have lt: "unat (pl_start p) + i * page_size < 2 ^ 32"
    unfolding add_mult_distrib by linarith
  then have "unat (of_nat (i * page_size) :: u32) = i * page_size"
    by (intro unat_of_nat_u32) linarith
  then show ?thesis
    using lt unfolding pool_page_def unat_word_ariths by simp
qed

lemma pool_page_inj:
  assumes "pool_ok p" "i < pool_cap p" "j < pool_cap p" "pool_page p i = pool_page p j"
  shows "i = j"
proof -
  have "unat (pl_start p) + i * page_size = unat (pl_start p) + j * page_size"
    using unat_pool_page [OF assms(1,2)] unat_pool_page [OF assms(1,3)] assms(4) by metis
  then show ?thesis by (simp add: page_size_def)
qed

lemma pool_page_props:
  assumes "pool_ok p" "i < pool_cap p"
  shows "pool_page p i \<noteq> 0" "unat (pool_page p i) mod page_size = 0" "pl_start p \<le> pool_page p i"
    "pool_page p i mod of_nat page_size = 0"
    "unat ((pool_page p i - pl_start p) div of_nat page_size) = i"
proof -
  note u = unat_pool_page [OF assms]
  have ok: "pl_start p \<noteq> 0" "unat (pl_start p) mod page_size = 0"
    "unat (pl_start p) + pool_cap p * page_size \<le> 2 ^ 32"
    using assms(1) by (auto simp: pool_ok_def)
  have ps: "unat (of_nat page_size :: u32) = page_size" by (simp add: page_size_def)
  show "pool_page p i \<noteq> 0" using u ok(1) by (metis add_is_0 unat_eq_zero)
  show m: "unat (pool_page p i) mod page_size = 0" using u ok(2) by simp
  show "pl_start p \<le> pool_page p i" using u by (simp add: word_le_nat_alt)
  show "pool_page p i mod of_nat page_size = 0"
    using m by (simp add: word_arith_nat_mod ps)
  have "unat (pool_page p i - pl_start p) = i * page_size"
    using u by (simp add: unat_sub word_le_nat_alt)
  then show "unat ((pool_page p i - pl_start p) div of_nat page_size) = i"
    by (simp add: unat_div ps) (simp add: page_size_def)
qed

lemma pool_used_avail:
  assumes "pool_ok p"
  shows "pool_used p \<inter> pool_avail p = {}"
proof -
  have "i < pool_cap p" if "bm_used (pl_bitmap p) i" for i
    using assms that bm.used_bound by (simp add: pool_ok_def)
  then show ?thesis
    using pool_page_inj [OF assms] by (auto simp: pool_used_def pool_avail_def)
qed

section \<open>The contract of a pool\<close>

text \<open>The pages of a run of \<open>n\<close> pages from an address on.\<close>

definition page_run :: "u32 \<Rightarrow> nat \<Rightarrow> u32 set" where
  "page_run a n = (\<lambda>i. a + of_nat (i * page_size)) ` {..<n}"

lemma page_run_1 [simp]: "page_run a (Suc 0) = {a}"
  by (auto simp: page_run_def)

locale page_source =
  fixes alloc :: "'p \<Rightarrow> nat \<Rightarrow> (u32 \<times> 'p) option"
    and release :: "'p \<Rightarrow> u32 \<Rightarrow> nat \<Rightarrow> 'p option"
    and avail used :: "'p \<Rightarrow> u32 set"
    and invar :: "'p \<Rightarrow> bool"
  assumes apart: "invar p \<Longrightarrow> used p \<inter> avail p = {}"
    and aligned: "invar p \<Longrightarrow> a \<in> used p \<union> avail p \<Longrightarrow> a \<noteq> 0 \<and> unat a mod page_size = 0"
    and alloc_returns: "invar p \<Longrightarrow> 0 < n \<Longrightarrow> \<exists>a p'. alloc p n = Some (a, p')"
    and alloc_null: "invar p \<Longrightarrow> 0 < n \<Longrightarrow> alloc p n = Some (0, p') \<Longrightarrow> p' = p"
    and alloc_one: "invar p \<Longrightarrow> avail p \<noteq> {} \<Longrightarrow> alloc p 1 \<noteq> Some (0, p')"
    and alloc_some: "invar p \<Longrightarrow> 0 < n \<Longrightarrow> alloc p n = Some (a, p') \<Longrightarrow> a \<noteq> 0 \<Longrightarrow>
          invar p' \<and> page_run a n \<subseteq> avail p \<and> card (page_run a n) = n \<and>
          avail p' = avail p - page_run a n \<and> used p' = used p \<union> page_run a n"
    and release_run: "invar p \<Longrightarrow> 0 < n \<Longrightarrow> page_run a n \<subseteq> used p \<Longrightarrow> card (page_run a n) = n \<Longrightarrow>
          \<exists>p'. release p a n = Some p' \<and> invar p' \<and>
               avail p' = avail p \<union> page_run a n \<and> used p' = used p - page_run a n"
begin

lemma alloc_cases:
  assumes "invar p" "0 < n"
  obtains (null) "alloc p n = Some (0, p)"
  | (page) a p' where "alloc p n = Some (a, p')" "a \<noteq> 0" "invar p'" "page_run a n \<subseteq> avail p"
      "card (page_run a n) = n" "avail p' = avail p - page_run a n" "used p' = used p \<union> page_run a n"
  using alloc_returns [OF assms] alloc_null [OF assms] alloc_some [OF assms] by metis

lemma alloc_one_cases:
  assumes "invar p"
  obtains (null) "alloc p 1 = Some (0, p)" "avail p = {}"
  | (page) a p' where "alloc p 1 = Some (a, p')" "a \<noteq> 0" "invar p'" "a \<in> avail p"
      "avail p' = avail p - {a}" "used p' = insert a (used p)"
proof (rule alloc_cases [OF assms, of 1])
  assume "alloc p 1 = Some (0, p)"
  then show thesis using null alloc_one [OF assms] by blast
qed (use page in auto)

text \<open>Giving back what was allocated restores the pool.\<close>

lemma alloc_release:
  assumes "invar p" "0 < n" "alloc p n = Some (a, p')" "a \<noteq> 0"
  shows "\<exists>p''. release p' a n = Some p'' \<and> invar p'' \<and> avail p'' = avail p \<and> used p'' = used p"
proof -
  note s = alloc_some [OF assms]
  then obtain p'' where "release p' a n = Some p''" "invar p''"
    "avail p'' = avail p' \<union> page_run a n" "used p'' = used p' - page_run a n"
    using release_run [of p' n a] assms(2) by blast
  then show ?thesis using s apart [OF assms(1)] by auto
qed

text \<open>Two allocations in a row never share a page, and neither returns a page in use.\<close>

lemma alloc_alloc_disjoint:
  assumes "invar p" "0 < n" "alloc p n = Some (a, p')" "a \<noteq> 0"
    and "0 < k" "alloc p' k = Some (b, p'')" "b \<noteq> 0"
  shows "page_run a n \<inter> page_run b k = {} \<and> (page_run a n \<union> page_run b k) \<inter> used p = {}"
  using alloc_some [OF assms(1-4)] alloc_some [of p' k b p''] assms(5-7) apart [OF assms(1)] by auto

end

section \<open>The pools keep the contract\<close>

lemma pool_page_add: "pool_page p s + of_nat (i * page_size) = pool_page p (s + i)"
  by (simp add: pool_page_def add_mult_distrib)

lemma page_run_pool: "page_run (pool_page p s) n = pool_page p ` {s..<s + n}"
proof -
  have "page_run (pool_page p s) n = (\<lambda>i. pool_page p (s + i)) ` {..<n}"
    by (simp only: page_run_def pool_page_add)
  also have "\<dots> = pool_page p ` ((+) s ` {..<n})" by (simp add: image_image)
  also have "(+) s ` {..<n} = {s..<s + n}"
    by (simp add: lessThan_atLeast0 add.commute)
  finally show ?thesis .
qed

lemma card_page_run_pool:
  assumes "pool_ok p" "s + n \<le> pool_cap p"
  shows "card (page_run (pool_page p s) n) = n"
proof -
  have "inj_on (pool_page p) {s..<s + n}"
    using assms by (intro inj_onI) (rule pool_page_inj [OF assms(1)], auto)
  then show ?thesis by (simp add: page_run_pool card_image)
qed

lemma pool_page_end:
  assumes "pool_ok p" "i < pool_cap p"
  shows "pool_page p (pool_cap p) \<noteq> pool_page p i"
proof
  assume eq: "pool_page p (pool_cap p) = pool_page p i"
  let ?e = "unat (pl_start p) + pool_cap p * page_size"
  have e: "?e \<le> 2 ^ 32" using assms(1) by (auto simp: pool_ok_def)
  define w where "w = ?e"
  have "pool_page p (pool_cap p) = of_nat w" by (simp add: pool_page_def w_def)
  moreover have "(i + 1) * page_size \<le> pool_cap p * page_size"
    using assms(2) by (intro mult_le_mono1) simp
  then have lt: "unat (pool_page p i) < w"
    using unat_pool_page [OF assms] by (simp add: page_size_def w_def)
  ultimately have "unat (pool_page p i) = w mod 2 ^ 32"
    using eq by (simp add: unsigned_of_nat take_bit_eq_mod)
  with lt e have "w = 2 ^ 32" "unat (pool_page p i) = 0" by (auto simp: mod_if w_def [symmetric] split: if_splits)
  then show False using pool_page_props(1) [OF assms] by (simp add: unat_eq_0)
qed

text \<open>A run of used pages lies inside the pool.\<close>

lemma used_run_bounds:
  assumes "pool_ok p" "0 < n" "page_run a n \<subseteq> pool_used p"
  obtains s where "a = pool_page p s" "s + n \<le> pool_cap p" "\<forall>i. s \<le> i \<and> i < s + n \<longrightarrow> bm_used (pl_bitmap p) i"
proof -
  have cap: "i < pool_cap p" if "bm_used (pl_bitmap p) i" for i
    using assms(1) that bm.used_bound by (simp add: pool_ok_def)
  have "a \<in> page_run a n" using assms(2) by (auto simp: page_run_def intro: rev_image_eqI [of 0])
  then obtain s where s: "a = pool_page p s" "bm_used (pl_bitmap p) s"
    using assms(3) by (auto simp: pool_used_def)
  have used: "pool_page p (s + i) \<in> pool_used p" if "i < n" for i
    using assms(3) that by (auto simp: s(1) page_run_pool)
  have "s + i < pool_cap p \<and> bm_used (pl_bitmap p) (s + i)" if "i < n" for i
    using that
  proof (induction i)
    case 0
    show ?case using s(2) cap by simp
  next
    case (Suc i)
    obtain j where j: "pool_page p (s + Suc i) = pool_page p j" "bm_used (pl_bitmap p) j"
      using used [OF Suc.prems] by (auto simp: pool_used_def)
    have "s + Suc i \<noteq> pool_cap p"
      using pool_page_end [OF assms(1) cap [OF j(2)]] j(1) by metis
    then have "s + Suc i < pool_cap p" using Suc by simp
    then show ?case using pool_page_inj [OF assms(1) _ cap [OF j(2)] j(1)] j(2) by simp
  qed
  then have run: "s + i < pool_cap p" "bm_used (pl_bitmap p) (s + i)" if "i < n" for i
    using that by auto
  have "s + n \<le> pool_cap p" using run(1) [of "n - 1"] assms(2) by simp
  moreover have "\<forall>i. s \<le> i \<and> i < s + n \<longrightarrow> bm_used (pl_bitmap p) i"
    using run(2) by (metis add.commute le_Suc_ex nat_add_left_cancel_less)
  ultimately show thesis using that s(1) by blast
qed

lemma pool_alloc_cases:
  assumes "pool_ok p" "0 < n"
  obtains (null) "VrAddrPool_AllocPages p n = Some (0, p)" "\<And>b. \<not> free_run (pl_bitmap p) b n"
  | (page) s p' where "VrAddrPool_AllocPages p n = Some (pool_page p s, p')" "free_run (pl_bitmap p) s n"
      "pl_start p' = pl_start p" "pool_cap p' = pool_cap p" "pool_ok p'"
      "bm_used (pl_bitmap p') = (\<lambda>i. bm_used (pl_bitmap p) i \<or> s \<le> i \<and> i < s + n)"
proof -
  have ok: "bitmap_ok (pl_bitmap p)" using assms(1) by (simp add: pool_ok_def)
  show thesis
  proof (rule Alloc_cases [OF ok assms(2)])
    assume "Bitmap_Alloc (pl_bitmap p) n = Some (npos, pl_bitmap p)" "\<And>b. \<not> free_run (pl_bitmap p) b n"
    then show thesis using null assms(2) by (simp add: VrAddrPool_AllocPages_def)
  next
    fix s bm'
    assume a: "Bitmap_Alloc (pl_bitmap p) n = Some (s, bm')" "s \<noteq> npos" "free_run (pl_bitmap p) s n"
      "bitmap_ok bm'" "bm_byte_len bm' = bm_byte_len (pl_bitmap p)"
      "bm_used bm' = (\<lambda>i. bm_used (pl_bitmap p) i \<or> s \<le> i \<and> i < s + n)"
    let ?p' = "p\<lparr>pl_bitmap := bm', pl_free := pl_free p - n\<rparr>"
    have cap: "Bitmap_GetCapacity bm' = pool_cap p" using a(5) by (simp add: Bitmap_GetCapacity_def)
    have cnt: "used_slots (bm_used bm') (pool_cap p) = used_slots (bm_used (pl_bitmap p)) (pool_cap p) + n"
      using bm.alloc_count [OF ok assms(2) a(1,2)] cap by simp
    moreover have "used_slots (bm_used bm') (pool_cap p) \<le> pool_cap p" by (rule used_slots_le)
    ultimately have free: "n \<le> pl_free p" using assms(1) by (simp add: pool_ok_def)
    then have "VrAddrPool_AllocPages p n = Some (pool_page p s, ?p')"
      using a(1,2) assms(2) by (simp add: VrAddrPool_AllocPages_def pool_page_def)
    moreover have "pool_ok ?p'"
      using assms(1) a(4) cap cnt free by (simp add: pool_ok_def)
    ultimately show thesis using page [of s ?p'] a(3,6) cap by simp
  qed
qed

lemma pool_sets_after:
  assumes "pool_ok p" "pl_start p' = pl_start p" "pool_cap p' = pool_cap p" "s + n \<le> pool_cap p"
  shows "bm_used (pl_bitmap p') = (\<lambda>i. bm_used (pl_bitmap p) i \<or> s \<le> i \<and> i < s + n) \<Longrightarrow>
      pool_used p' = pool_used p \<union> page_run (pool_page p s) n \<and>
      pool_avail p' = pool_avail p - page_run (pool_page p s) n"
    and "bm_used (pl_bitmap p') = (\<lambda>i. bm_used (pl_bitmap p) i \<and> \<not> (s \<le> i \<and> i < s + n)) \<Longrightarrow>
      pool_used p' = pool_used p - page_run (pool_page p s) n \<and>
      pool_avail p' = pool_avail p \<union> page_run (pool_page p s) n"
proof -
  have pg: "pool_page p' = pool_page p" using assms(2) by (simp add: pool_page_def fun_eq_iff)
  have cap: "i < pool_cap p" if "bm_used (pl_bitmap p) i" for i
    using assms(1) that bm.used_bound by (simp add: pool_ok_def)
  have inj: "i = j" if "pool_page p i = pool_page p j" "i < pool_cap p" "j < pool_cap p" for i j
    using pool_page_inj [OF assms(1) that(2,3,1)] .
  show "pool_used p' = pool_used p \<union> page_run (pool_page p s) n \<and>
      pool_avail p' = pool_avail p - page_run (pool_page p s) n"
    if "bm_used (pl_bitmap p') = (\<lambda>i. bm_used (pl_bitmap p) i \<or> s \<le> i \<and> i < s + n)"
    using assms(3,4) inj by (fastforce simp: pool_used_def pool_avail_def that pg page_run_pool)
  show "pool_used p' = pool_used p - page_run (pool_page p s) n \<and>
      pool_avail p' = pool_avail p \<union> page_run (pool_page p s) n"
    if "bm_used (pl_bitmap p') = (\<lambda>i. bm_used (pl_bitmap p) i \<and> \<not> (s \<le> i \<and> i < s + n))"
    using assms(3,4) inj cap by (fastforce simp: pool_used_def pool_avail_def that pg page_run_pool)
qed

lemma pool_free_run:
  assumes "pool_ok p" "0 < n" "s + n \<le> pool_cap p" "\<forall>i. s \<le> i \<and> i < s + n \<longrightarrow> bm_used (pl_bitmap p) i"
  shows "\<exists>p'. VrAddrPool_FreePages p (pool_page p s) n = Some p' \<and> pl_start p' = pl_start p \<and>
    pool_cap p' = pool_cap p \<and> pool_ok p' \<and>
    bm_used (pl_bitmap p') = (\<lambda>i. bm_used (pl_bitmap p) i \<and> \<not> (s \<le> i \<and> i < s + n))"
proof -
  have ok: "bitmap_ok (pl_bitmap p)" using assms(1) by (simp add: pool_ok_def)
  obtain bm' where b: "Bitmap_Free (pl_bitmap p) s n = Some bm'" "bitmap_ok bm'"
    "bm_byte_len bm' = bm_byte_len (pl_bitmap p)"
    "bm_used bm' = (\<lambda>i. bm_used (pl_bitmap p) i \<and> \<not> (s \<le> i \<and> i < s + n))"
    using Free_ok [OF ok assms(2,3)] by blast
  have cap: "Bitmap_GetCapacity bm' = pool_cap p" using b(3) by (simp add: Bitmap_GetCapacity_def)
  have cnt: "used_slots (bm_used bm') (pool_cap p) + n = used_slots (bm_used (pl_bitmap p)) (pool_cap p)"
    using bm.release_count [OF ok assms(2,3) _ b(1)] assms(4) cap by simp
  have "pool_cap p < 2 ^ 32" by (rule bm.capacity_bound [OF ok])
  then have "pl_free p + n < 2 ^ 32" using assms(1) cnt by (simp add: pool_ok_def)
  then have fr: "size_t (pl_free p + n) = pl_free p + n" by (simp add: size_t_def)
  let ?p' = "p\<lparr>pl_bitmap := bm', pl_free := pl_free p + n\<rparr>"
  have "VrAddrPool_FreePages p (pool_page p s) n = Some ?p'"
    using pool_page_props [OF assms(1), of s] assms(2,3) b(1) fr by (simp add: VrAddrPool_FreePages_def)
  moreover have "pool_ok ?p'"
    using assms(1) b(2) cap cnt by (simp add: pool_ok_def)
  ultimately show ?thesis using b(4) cap by auto
qed

interpretation vp: page_source VrAddrPool_AllocPages VrAddrPool_FreePages pool_avail pool_used pool_ok
proof
  fix p p' :: page_pool and n :: nat and a :: u32
  assume ok: "pool_ok p"
  have cap: "i < pool_cap p" if "bm_used (pl_bitmap p) i" for i
    using ok that bm.used_bound by (simp add: pool_ok_def)
  show "pool_used p \<inter> pool_avail p = {}" by (rule pool_used_avail [OF ok])
  show "a \<noteq> 0 \<and> unat a mod page_size = 0" if "a \<in> pool_used p \<union> pool_avail p"
    using that pool_page_props(1,2) [OF ok] cap by (auto simp: pool_used_def pool_avail_def)
  have free_slot: "free_run (pl_bitmap p) i 1" if "i < pool_cap p" "\<not> bm_used (pl_bitmap p) i" for i
    using that unfolding free_run_def by (metis Suc_eq_plus1 Suc_leI less_Suc_eq_le le_antisym)
  show "VrAddrPool_AllocPages p 1 \<noteq> Some (0, p')" if "pool_avail p \<noteq> {}"
  proof (rule pool_alloc_cases [OF ok, of 1])
    fix s p2 assume "VrAddrPool_AllocPages p 1 = Some (pool_page p s, p2)" "free_run (pl_bitmap p) s 1"
    then show ?thesis using pool_page_props(1) [OF ok, of s] by (simp add: free_run_def)
  qed (use that free_slot in \<open>auto simp: pool_avail_def\<close>)
  assume n: "0 < n"
  show "\<exists>a p'. VrAddrPool_AllocPages p n = Some (a, p')"
    by (rule pool_alloc_cases [OF ok n]) auto
  have sne: "pool_page p s \<noteq> 0" if "free_run (pl_bitmap p) s n" for s
    using that n pool_page_props(1) [OF ok, of s] by (simp add: free_run_def)
  show "p' = p" if "VrAddrPool_AllocPages p n = Some (0, p')"
    by (rule pool_alloc_cases [OF ok n]) (use that sne in auto)
  show "pool_ok p' \<and> page_run a n \<subseteq> pool_avail p \<and> card (page_run a n) = n \<and>
      pool_avail p' = pool_avail p - page_run a n \<and> pool_used p' = pool_used p \<union> page_run a n"
    if al: "VrAddrPool_AllocPages p n = Some (a, p')" "a \<noteq> 0"
  proof (rule pool_alloc_cases [OF ok n])
    fix s p2
    assume s: "VrAddrPool_AllocPages p n = Some (pool_page p s, p2)" "free_run (pl_bitmap p) s n"
      "pl_start p2 = pl_start p" "pool_cap p2 = pool_cap p" "pool_ok p2"
      "bm_used (pl_bitmap p2) = (\<lambda>i. bm_used (pl_bitmap p) i \<or> s \<le> i \<and> i < s + n)"
    have le: "s + n \<le> pool_cap p" using s(2) by (simp add: free_run_def)
    have "page_run (pool_page p s) n \<subseteq> pool_avail p"
      using s(2) by (auto simp: page_run_pool pool_avail_def free_run_def)
    then show ?thesis
      using al s(1,5) pool_sets_after(1) [OF ok s(3,4) le s(6)] card_page_run_pool [OF ok le] by simp
  qed (use al in auto)
  show "\<exists>p'. VrAddrPool_FreePages p a n = Some p' \<and> pool_ok p' \<and>
      pool_avail p' = pool_avail p \<union> page_run a n \<and> pool_used p' = pool_used p - page_run a n"
    if "page_run a n \<subseteq> pool_used p" "card (page_run a n) = n"
  proof (rule used_run_bounds [OF ok n that(1)])
    fix s assume s: "a = pool_page p s" "s + n \<le> pool_cap p"
      "\<forall>i. s \<le> i \<and> i < s + n \<longrightarrow> bm_used (pl_bitmap p) i"
    show ?thesis using pool_free_run [OF ok n s(2,3)] pool_sets_after(2) [OF ok _ _ s(2)] s(1) by blast
  qed
qed

interpretation pp: page_source PhyMemPagePool_AllocPages PhyMemPagePool_FreePages pool_avail pool_used pool_ok
  unfolding PhyMemPagePool_same by (rule vp.page_source_axioms)

lemma card_pool_avail:
  assumes "pool_ok p"
  shows "card (pool_avail p) = pl_free p" "finite (pool_avail p)"
proof -
  let ?A = "{i. i < pool_cap p \<and> \<not> bm_used (pl_bitmap p) i}"
  have "inj_on (pool_page p) ?A" by (intro inj_onI) (rule pool_page_inj [OF assms], auto)
  moreover have img: "pool_avail p = pool_page p ` ?A" by (auto simp: pool_avail_def)
  moreover have "?A = {..<pool_cap p} - {i. i < pool_cap p \<and> bm_used (pl_bitmap p) i}" by auto
  then have "card ?A = pool_cap p - used_slots (bm_used (pl_bitmap p)) (pool_cap p)"
    by (simp add: card_Diff_subset used_slots_card Collect_conj_eq lessThan_def)
  ultimately show "card (pool_avail p) = pl_free p"
    using assms by (simp add: card_image pool_ok_def del: One_nat_def) linarith
  show "finite (pool_avail p)" by (simp add: img)
qed

section \<open>Properties\<close>

text \<open>A physical page pool that hands out \<open>n\<close> pages hands out pages that were not in use, and giving them back
  restores the pool: the same pages are available and the same pages are in use as before.\<close>

theorem PhyMemPagePool_roundtrip:
  assumes "pool_ok p" and "0 < n" and "PhyMemPagePool_AllocPages p n = Some (a, p')" and "a \<noteq> 0"
  shows "page_run a n \<inter> pool_used p = {} \<and> pl_free p' + n = pl_free p \<and>
    (\<exists>p''. PhyMemPagePool_FreePages p' a n = Some p'' \<and> pool_ok p'' \<and> pool_avail p'' = pool_avail p \<and>
       pool_used p'' = pool_used p \<and> pl_free p'' = pl_free p)"
proof -
  note al = pp.alloc_some [OF assms]
  obtain p'' where p'': "PhyMemPagePool_FreePages p' a n = Some p''" "pool_ok p''" "pool_avail p'' = pool_avail p"
    "pool_used p'' = pool_used p"
    using pp.alloc_release [OF assms] by blast
  have fin: "finite (page_run a n)" by (simp add: page_run_def)
  have "card (pool_avail p') = card (pool_avail p) - n" "n \<le> card (pool_avail p)"
    using al card_Diff_subset [OF fin] card_mono [OF card_pool_avail(2) [OF assms(1)], of "page_run a n"] by auto
  then have "pl_free p' + n = pl_free p" using card_pool_avail(1) [OF assms(1)] card_pool_avail(1) [of p'] al by simp
  moreover have "pl_free p'' = pl_free p"
    using card_pool_avail(1) [OF assms(1)] card_pool_avail(1) [OF p''(2)] p''(3) by simp
  ultimately show ?thesis using p'' al pp.apart [OF assms(1)] by blast
qed

definition small_pool :: page_pool where
  "small_pool = \<lparr>pl_start = 0x200000, pl_free = 8, pl_bitmap = \<lparr>bm_byte_len = 1, bm_bits = Some [0]\<rparr>\<rparr>"

theorem PhyMemPagePool_roundtrip_witness:
  "\<exists>p' p''. PhyMemPagePool_AllocPages small_pool 3 = Some (0x200000, p') \<and>
     PhyMemPagePool_FreePages p' 0x200000 3 = Some p'' \<and> pl_free p'' = 8"
proof -
  have "bm_used (pl_bitmap small_pool) i = False" for i by (auto simp: bm_used_def small_pool_def nth_Cons')
  then have "pool_ok small_pool"
    by (simp add: pool_ok_def used_slots_card) (simp add: small_pool_def bitmap_ok_def page_size_def Bitmap_GetCapacity_def byte_len_def)
  moreover have "PhyMemPagePool_AllocPages small_pool 3 \<noteq> None \<and>
      fst (the (PhyMemPagePool_AllocPages small_pool 3)) = 0x200000"
    by code_simp
  then obtain p' where "PhyMemPagePool_AllocPages small_pool 3 = Some (0x200000, p')" by auto
  ultimately show ?thesis
    using PhyMemPagePool_roundtrip [of small_pool 3 "0x200000" p'] by (auto simp: small_pool_def)
qed

end
