(* ===== verification/Paging.thy ===== *)
theory Paging
  imports Pools
begin

text \<open>
  Paging (\<^verbatim>\<open>include/kernel/memory/page.h\<close>, \<^verbatim>\<open>src/kernel/memory/page.cpp\<close>) and the page allocation of
  \<^verbatim>\<open>src/kernel/memory/pool.cpp\<close> on a physical memory of double words. The CPU's two-level walk
  from \<^verbatim>\<open>CR3\<close> is \<open>mmu_translate\<close>; every access of the code to a page entry goes through the last
  directory entry, which refers to the directory itself, and is a \<open>mem_read\<close> or \<open>mem_write\<close> at the
  virtual address the code computes; \<open>None\<close> is a page fault or a failed assertion. The walk always reads the memory,
  so the invalidation of the translation buffer in \<^verbatim>\<open>Unmap\<close> has no counterpart.
\<close>

section \<open>Page entries\<close>

definition page_dir_count :: nat where "page_dir_count = 1024"
definition page_dir_self_ref :: nat where "page_dir_self_ref = page_dir_count - 1"

definition entry_p_pos :: nat where "entry_p_pos = 0"
definition entry_rw_pos :: nat where "entry_rw_pos = entry_p_pos + 1"
definition entry_us_pos :: nat where "entry_us_pos = entry_rw_pos + 1"
definition entry_addr_pos :: nat where "entry_addr_pos = 12"
definition entry_addr_len :: nat where "entry_addr_len = 20"

definition PageEntry_IsSupervisor :: "u32 \<Rightarrow> bool" where
  "PageEntry_IsSupervisor e \<longleftrightarrow> \<not> IsBitSet e entry_us_pos"

definition PageEntry_SetSupervisor :: "u32 \<Rightarrow> bool \<Rightarrow> u32" where
  "PageEntry_SetSupervisor e supervisor = (if supervisor then ResetBit e entry_us_pos else SetBit e entry_us_pos)"

definition PageEntry_IsWritable :: "u32 \<Rightarrow> bool" where
  "PageEntry_IsWritable e \<longleftrightarrow> IsBitSet e entry_rw_pos"

definition PageEntry_SetWritable :: "u32 \<Rightarrow> bool \<Rightarrow> u32" where
  "PageEntry_SetWritable e writable = (if writable then SetBit e entry_rw_pos else ResetBit e entry_rw_pos)"

definition PageEntry_IsPresent :: "u32 \<Rightarrow> bool" where
  "PageEntry_IsPresent e \<longleftrightarrow> IsBitSet e entry_p_pos"

definition PageEntry_SetPresent :: "u32 \<Rightarrow> bool \<Rightarrow> u32" where
  "PageEntry_SetPresent e present = (if present then SetBit e entry_p_pos else ResetBit e entry_p_pos)"

definition PageEntry_GetAddress :: "u32 \<Rightarrow> u32" where
  "PageEntry_GetAddress e = push_bit entry_addr_pos (GetBits e entry_addr_pos entry_addr_len)"

definition PageEntry_SetAddress :: "u32 \<Rightarrow> u32 \<Rightarrow> u32" where
  "PageEntry_SetAddress e phy_addr =
     SetBits e (GetBits phy_addr entry_addr_pos entry_addr_len) entry_addr_pos entry_addr_len"

definition PageEntry :: "u32 \<Rightarrow> bool \<Rightarrow> bool \<Rightarrow> bool \<Rightarrow> u32" where
  "PageEntry phy_addr writable supervisor present =
     PageEntry_SetPresent (PageEntry_SetWritable (PageEntry_SetSupervisor
       (PageEntry_SetAddress 0 phy_addr) supervisor) writable) present"

lemmas entry_defs = entry_p_pos_def entry_rw_pos_def entry_us_pos_def entry_addr_pos_def entry_addr_len_def
  PageEntry_IsSupervisor_def PageEntry_SetSupervisor_def PageEntry_IsWritable_def PageEntry_SetWritable_def
  PageEntry_IsPresent_def PageEntry_SetPresent_def PageEntry_GetAddress_def PageEntry_SetAddress_def
  PageEntry_def

section \<open>Virtual addresses\<close>

definition vr_offset_pos :: nat where "vr_offset_pos = 0"
definition vr_offset_len :: nat where "vr_offset_len = 12"
definition page_tab_entry_pos :: nat where "page_tab_entry_pos = vr_offset_pos + vr_offset_len"
definition page_tab_entry_len :: nat where "page_tab_entry_len = 10"
definition page_dir_entry_pos :: nat where "page_dir_entry_pos = page_tab_entry_pos + page_tab_entry_len"
definition page_dir_entry_len :: nat where "page_dir_entry_len = 10"

definition VrAddr_GetPageDirEntryIdx :: "u32 \<Rightarrow> u32" where
  "VrAddr_GetPageDirEntryIdx va = GetBits va page_dir_entry_pos page_dir_entry_len"

definition VrAddr_SetPageDirEntryIdx :: "u32 \<Rightarrow> u32 \<Rightarrow> u32" where
  "VrAddr_SetPageDirEntryIdx va idx = SetBits va idx page_dir_entry_pos page_dir_entry_len"

definition VrAddr_GetPageTabEntryIdx :: "u32 \<Rightarrow> u32" where
  "VrAddr_GetPageTabEntryIdx va = GetBits va page_tab_entry_pos page_tab_entry_len"

definition VrAddr_SetPageTabEntryIdx :: "u32 \<Rightarrow> u32 \<Rightarrow> u32" where
  "VrAddr_SetPageTabEntryIdx va idx = SetBits va idx page_tab_entry_pos page_tab_entry_len"

definition VrAddr_GetOffset :: "u32 \<Rightarrow> u32" where
  "VrAddr_GetOffset va = GetBits va vr_offset_pos vr_offset_len"

definition VrAddr_SetOffset :: "u32 \<Rightarrow> u32 \<Rightarrow> u32" where
  "VrAddr_SetOffset va offset = SetBits va offset vr_offset_pos vr_offset_len"

definition VrAddr_GetPageAddr :: "u32 \<Rightarrow> u32" where
  "VrAddr_GetPageAddr va = va - VrAddr_GetOffset va"

definition VrAddr :: "u32 \<Rightarrow> u32 \<Rightarrow> u32 \<Rightarrow> u32" where
  "VrAddr page_dir_entry page_tab_entry offset =
     VrAddr_SetOffset (VrAddr_SetPageTabEntryIdx (VrAddr_SetPageDirEntryIdx 0 page_dir_entry) page_tab_entry) offset"

definition VrAddr_IsNull :: "u32 \<Rightarrow> bool" where
  "VrAddr_IsNull va \<longleftrightarrow> va = 0"

text \<open>The addresses of the entries for an address, through the last directory entry.\<close>

definition VrAddr_GetPageDirEntry :: "u32 \<Rightarrow> u32" where
  "VrAddr_GetPageDirEntry va =
     VrAddr_SetOffset
       (VrAddr_SetPageTabEntryIdx (VrAddr_SetPageDirEntryIdx 0 (of_nat page_dir_self_ref)) (of_nat page_dir_self_ref))
       (VrAddr_GetPageDirEntryIdx va * 4)"

definition VrAddr_GetPageTabEntry :: "u32 \<Rightarrow> u32" where
  "VrAddr_GetPageTabEntry va =
     VrAddr_SetOffset
       (VrAddr_SetPageTabEntryIdx (VrAddr_SetPageDirEntryIdx 0 (of_nat page_dir_self_ref))
         (VrAddr_GetPageDirEntryIdx va))
       (VrAddr_GetPageTabEntryIdx va * 4)"

lemmas vr_defs = vr_offset_pos_def vr_offset_len_def page_tab_entry_pos_def page_tab_entry_len_def
  page_dir_entry_pos_def page_dir_entry_len_def
  VrAddr_GetPageDirEntryIdx_def VrAddr_SetPageDirEntryIdx_def VrAddr_GetPageTabEntryIdx_def
  VrAddr_SetPageTabEntryIdx_def VrAddr_GetOffset_def VrAddr_SetOffset_def

definition krnl_base :: u32 where "krnl_base = 0xC0000000"
definition krnl_size :: u32 where "krnl_size = MB 1"
definition krnl_page_dir_start :: nat where
  "krnl_page_dir_start = unat (VrAddr_GetPageDirEntryIdx krnl_base)"
definition krnl_page_dir_count :: nat where
  "krnl_page_dir_count = page_dir_count - krnl_page_dir_start - 1"
definition krnl_page_dir_phy_base :: u32 where "krnl_page_dir_phy_base = MB 1"
definition page_dir_base :: u32 where "page_dir_base = 0xFFFFF000"

section \<open>Memory and the walk of the CPU\<close>

record memsys =
  ms_cr3 :: u32
  ms_mem :: "u32 \<Rightarrow> u32"
  ms_kpool :: page_pool
  ms_upool :: page_pool
  ms_kaddr :: page_pool
  ms_uaddr :: "page_pool option"

definition entry_at :: "u32 \<Rightarrow> u32 \<Rightarrow> u32" where
  "entry_at tab idx = PageEntry_GetAddress tab + idx * 4"

definition mmu_pde :: "memsys \<Rightarrow> u32 \<Rightarrow> u32" where
  "mmu_pde s va = ms_mem s (entry_at (ms_cr3 s) (VrAddr_GetPageDirEntryIdx va))"

definition mmu_pte :: "memsys \<Rightarrow> u32 \<Rightarrow> u32" where
  "mmu_pte s va = ms_mem s (entry_at (mmu_pde s va) (VrAddr_GetPageTabEntryIdx va))"

definition mmu_translate :: "memsys \<Rightarrow> u32 \<Rightarrow> u32 option" where
  "mmu_translate s va =
     (if PageEntry_IsPresent (mmu_pde s va) \<and> PageEntry_IsPresent (mmu_pte s va)
      then Some (PageEntry_GetAddress (mmu_pte s va) + VrAddr_GetOffset va) else None)"

definition mem_read :: "memsys \<Rightarrow> u32 \<Rightarrow> u32 option" where
  "mem_read s va = do {
     pa \<leftarrow> mmu_translate s va;
     Some (ms_mem s pa)
   }"

definition mem_write :: "memsys \<Rightarrow> u32 \<Rightarrow> u32 \<Rightarrow> memsys option" where
  "mem_write s va v = do {
     pa \<leftarrow> mmu_translate s va;
     Some (s\<lparr>ms_mem := (ms_mem s)(pa := v)\<rparr>)
   }"

text \<open>\<^verbatim>\<open>memset(addr, 0, 4 * n)\<close> on double words.\<close>

fun mem_clear :: "memsys \<Rightarrow> u32 \<Rightarrow> nat \<Rightarrow> memsys option" where
  "mem_clear s va 0 = Some s"
| "mem_clear s va (Suc n) = do {
     s \<leftarrow> mem_write s va 0;
     mem_clear s (va + 4) n
   }"

section \<open>Mapping\<close>

definition VrAddr_IsMapped :: "memsys \<Rightarrow> u32 \<Rightarrow> bool option" where
  "VrAddr_IsMapped s va = do {
     pde \<leftarrow> mem_read s (VrAddr_GetPageDirEntry va);
     if PageEntry_IsPresent pde
     then do {
       pte \<leftarrow> mem_read s (VrAddr_GetPageTabEntry va);
       Some (PageEntry_IsPresent pte)
     }
     else Some False
   }"

definition user_entry :: "u32 \<Rightarrow> u32 \<Rightarrow> u32" where
  "user_entry e phy_addr =
     PageEntry_SetPresent (PageEntry_SetWritable (PageEntry_SetSupervisor
       (PageEntry_SetAddress e phy_addr) False) True) True"

text \<open>\<^verbatim>\<open>MapToPhyAddr\<close>, whose first part makes sure that there is a page table.\<close>

definition MapToPhyAddr_table :: "memsys \<Rightarrow> u32 \<Rightarrow> memsys option" where
  "MapToPhyAddr_table s va = do {
     let page_dir_entry = VrAddr_GetPageDirEntry va;
     let page_tab_entry = VrAddr_GetPageTabEntry va;
     pde \<leftarrow> mem_read s page_dir_entry;
     if \<not> PageEntry_IsPresent pde then do {
       (page_tab_phy_base, kpool) \<leftarrow> PhyMemPagePool_AllocPages (ms_kpool s) 1;
       let s = s\<lparr>ms_kpool := kpool\<rparr>;
       Assert (page_tab_phy_base \<noteq> 0);
       s \<leftarrow> mem_write s page_dir_entry (user_entry pde page_tab_phy_base);
       let page_tab_base = VrAddr_GetPageAddr page_tab_entry;
       mem_clear s page_tab_base (page_size div 4)
     } else Some s
   }"

definition VrAddr_MapToPhyAddr :: "memsys \<Rightarrow> u32 \<Rightarrow> u32 \<Rightarrow> memsys option" where
  "VrAddr_MapToPhyAddr s va phy_addr = do {
     s \<leftarrow> MapToPhyAddr_table s va;
     let page_tab_entry = VrAddr_GetPageTabEntry va;
     pte \<leftarrow> mem_read s page_tab_entry;
     Assert (\<not> PageEntry_IsPresent pte);
     mem_write s page_tab_entry (user_entry pte phy_addr)
   }"

definition VrAddr_Unmap :: "memsys \<Rightarrow> u32 \<Rightarrow> memsys option" where
  "VrAddr_Unmap s va = do {
     pde \<leftarrow> mem_read s (VrAddr_GetPageDirEntry va);
     if PageEntry_IsPresent pde then do {
       pte \<leftarrow> mem_read s (VrAddr_GetPageTabEntry va);
       mem_write s (VrAddr_GetPageTabEntry va) (PageEntry_SetPresent pte False)
     } else Some s
   }"

definition VrAddr_GetPhyAddr :: "memsys \<Rightarrow> u32 \<Rightarrow> u32 option" where
  "VrAddr_GetPhyAddr s va = do {
     pte \<leftarrow> mem_read s (VrAddr_GetPageTabEntry va);
     Some (PageEntry_GetAddress pte + VrAddr_GetOffset va)
   }"

section \<open>Address arithmetic\<close>

lemma idx_bounds [simp]:
  "unat (VrAddr_GetPageDirEntryIdx va) < 1024" "unat (VrAddr_GetPageTabEntryIdx va) < 1024"
  "unat (VrAddr_GetOffset va) < 4096"
  using word_bound_bit [of "VrAddr_GetPageDirEntryIdx va" 10] word_bound_bit [of "VrAddr_GetPageTabEntryIdx va" 10]
    word_bound_bit [of "VrAddr_GetOffset va" 12]
  by (auto simp: vr_defs bits_simps)

lemma mult_4_push: "i * 4 = push_bit 2 i" for i :: u32
  by (simp add: push_bit_eq_mult mult.commute)

lemma bit_entry_at:
  assumes "unat i < 1024"
  shows "bit (entry_at e i) n \<longleftrightarrow> n < 32 \<and> (if 12 \<le> n then bit e n else 2 \<le> n \<and> bit i (n - 2))"
proof -
  have i: "bit i n \<Longrightarrow> n < 10" for n using bit_word_bound [of i 10] assms by simp
  have "PageEntry_GetAddress e AND push_bit 2 i = 0"
    by (rule bit_word_eqI) (auto simp: entry_defs bits_simps bit_simps dest: i)
  then have "entry_at e i = PageEntry_GetAddress e OR push_bit 2 i"
    by (simp add: entry_at_def mult_4_push disjunctive_add_eq_or)
  then show ?thesis
    by (auto simp: entry_defs bits_simps bit_simps not_le dest: i)
qed

lemma entry_at_address: "PageEntry_GetAddress e = PageEntry_GetAddress e' \<Longrightarrow> entry_at e = entry_at e'"
  by (simp add: entry_at_def fun_eq_iff)

lemma bit_GetAddress: "bit (PageEntry_GetAddress e) n \<longleftrightarrow> 12 \<le> n \<and> bit e n"
  by (auto simp: entry_defs bits_simps bit_simps dest: bit_imp_le_length)

lemma GetAddress_idem [simp]: "PageEntry_GetAddress (PageEntry_GetAddress e) = PageEntry_GetAddress e"
  by (rule bit_word_eqI) (auto simp: bit_GetAddress)

lemma entry_at_eq_iff:
  assumes "unat i < 1024" "unat j < 1024"
  shows "entry_at e i = entry_at e' j \<longleftrightarrow> PageEntry_GetAddress e = PageEntry_GetAddress e' \<and> i = j"
proof
  assume eq: "entry_at e i = entry_at e' j"
  have b: "(if 12 \<le> n then bit e n else 2 \<le> n \<and> bit i (n - 2)) \<longleftrightarrow>
      (if 12 \<le> n then bit e' n else 2 \<le> n \<and> bit j (n - 2))" if "n < 32" for n
    using bit_entry_at [OF assms(1), of e n] bit_entry_at [OF assms(2), of e' n] eq that by metis
  have "bit (PageEntry_GetAddress e) n = bit (PageEntry_GetAddress e') n" if "n < 32" for n
    using b [OF that] by (auto simp: bit_GetAddress)
  then have "PageEntry_GetAddress e = PageEntry_GetAddress e'"
    by (intro bit_word_eqI) simp
  moreover have "i = j"
  proof (rule bit_word_eqI)
    fix n assume "n < LENGTH(32)"
    show "bit i n \<longleftrightarrow> bit j n"
      using b [of "n + 2"] bit_word_bound [of i 10 n] bit_word_bound [of j 10 n] assms
      by (cases "n < 10") auto
  qed
  ultimately show "PageEntry_GetAddress e = PageEntry_GetAddress e' \<and> i = j" by simp
qed (auto simp: entry_at_def)

text \<open>The fields of the addresses that reach the entries.\<close>

definition self_idx :: u32 where
  "self_idx = of_nat page_dir_self_ref"

lemma bit_self_idx: "bit self_idx n \<longleftrightarrow> n < 10"
proof -
  have "self_idx = mask 10"
    by (simp add: self_idx_def page_dir_self_ref_def page_dir_count_def mask_eq_exp_minus_1)
  then have "bit self_idx n = bit (mask 10 :: u32) n" by (rule arg_cong)
  then show ?thesis by (auto simp: bit_mask_iff)
qed

lemma self_idx_bound [simp]: "unat self_idx < 1024"
  by (simp add: self_idx_def page_dir_self_ref_def page_dir_count_def)

lemma pde_addr_fields:
  "VrAddr_GetPageDirEntryIdx (VrAddr_GetPageDirEntry va) = self_idx"
  "VrAddr_GetPageTabEntryIdx (VrAddr_GetPageDirEntry va) = self_idx"
  "VrAddr_GetOffset (VrAddr_GetPageDirEntry va) = VrAddr_GetPageDirEntryIdx va * 4"
  unfolding VrAddr_GetPageDirEntry_def mult_4_push self_idx_def [symmetric]
  by (rule bit_word_eqI; auto simp: vr_defs bits_simps bit_simps bit_self_idx)+

lemma pte_addr_fields:
  "VrAddr_GetPageDirEntryIdx (VrAddr_GetPageTabEntry va) = self_idx"
  "VrAddr_GetPageTabEntryIdx (VrAddr_GetPageTabEntry va) = VrAddr_GetPageDirEntryIdx va"
  "VrAddr_GetOffset (VrAddr_GetPageTabEntry va) = VrAddr_GetPageTabEntryIdx va * 4"
  unfolding VrAddr_GetPageTabEntry_def mult_4_push self_idx_def [symmetric]
  by (rule bit_word_eqI; auto simp: vr_defs bits_simps bit_simps bit_self_idx)+

lemma page_add_fields:
  assumes "VrAddr_GetOffset a = 0" "unat k < 4096"
  shows "VrAddr_GetPageDirEntryIdx (a + k) = VrAddr_GetPageDirEntryIdx a"
    "VrAddr_GetPageTabEntryIdx (a + k) = VrAddr_GetPageTabEntryIdx a"
    "VrAddr_GetOffset (a + k) = k"
proof -
  have k: "bit k n \<Longrightarrow> n < 12" for n using bit_word_bound [of k 12] assms(2) by simp
  have a: "n < 12 \<Longrightarrow> \<not> bit a n" for n
    using arg_cong [OF assms(1), of "\<lambda>w. bit w n"] by (simp add: vr_defs bits_simps)
  have "a AND k = 0" by (rule bit_word_eqI) (auto simp: bit_simps dest: k a)
  then have "a + k = a OR k" by (simp add: disjunctive_add_eq_or)
  then have b: "bit (a + k) n \<longleftrightarrow> (if n < 12 then bit k n else bit a n)" for n
    using a k by (auto simp: bit_simps)
  show "VrAddr_GetPageDirEntryIdx (a + k) = VrAddr_GetPageDirEntryIdx a"
    "VrAddr_GetPageTabEntryIdx (a + k) = VrAddr_GetPageTabEntryIdx a"
    "VrAddr_GetOffset (a + k) = k"
    by (rule bit_word_eqI; auto simp: vr_defs bits_simps b dest: k)+
qed

lemma GetPageAddr_fields:
  "VrAddr_GetOffset (VrAddr_GetPageAddr va) = 0"
  "VrAddr_GetPageDirEntryIdx (VrAddr_GetPageAddr va) = VrAddr_GetPageDirEntryIdx va"
  "VrAddr_GetPageTabEntryIdx (VrAddr_GetPageAddr va) = VrAddr_GetPageTabEntryIdx va"
  "VrAddr_GetPageAddr va = PageEntry_GetAddress va"
proof -
  have "PageEntry_GetAddress va AND VrAddr_GetOffset va = 0"
    by (rule bit_word_eqI) (auto simp: bit_simps bit_GetAddress vr_defs bits_simps)
  then have "PageEntry_GetAddress va + VrAddr_GetOffset va = PageEntry_GetAddress va OR VrAddr_GetOffset va"
    by (simp add: disjunctive_add_eq_or)
  also have "\<dots> = va"
    by (rule bit_word_eqI) (auto simp: bit_simps bit_GetAddress vr_defs bits_simps)
  finally show eq: "VrAddr_GetPageAddr va = PageEntry_GetAddress va"
    by (simp add: VrAddr_GetPageAddr_def diff_eq_eq)
  show "VrAddr_GetOffset (VrAddr_GetPageAddr va) = 0"
    "VrAddr_GetPageDirEntryIdx (VrAddr_GetPageAddr va) = VrAddr_GetPageDirEntryIdx va"
    "VrAddr_GetPageTabEntryIdx (VrAddr_GetPageAddr va) = VrAddr_GetPageTabEntryIdx va"
    unfolding eq by (rule bit_word_eqI; auto simp: vr_defs bits_simps bit_GetAddress)+
qed

section \<open>The directory maps itself\<close>

abbreviation pdx :: "u32 \<Rightarrow> u32" where "pdx \<equiv> VrAddr_GetPageDirEntryIdx"
abbreviation ptx :: "u32 \<Rightarrow> u32" where "ptx \<equiv> VrAddr_GetPageTabEntryIdx"

definition dir_entry :: "memsys \<Rightarrow> u32 \<Rightarrow> u32" where
  "dir_entry s i = ms_mem s (entry_at (ms_cr3 s) i)"

text \<open>The last entry of the directory is present and refers to the directory.\<close>

definition selfmap_ok :: "memsys \<Rightarrow> bool" where
  "selfmap_ok s \<longleftrightarrow> PageEntry_IsPresent (dir_entry s self_idx) \<and>
     PageEntry_GetAddress (dir_entry s self_idx) = PageEntry_GetAddress (ms_cr3 s)"

lemma mmu_pde_dir: "mmu_pde s va = dir_entry s (pdx va)"
  by (simp add: mmu_pde_def dir_entry_def)

lemma self_walk:
  assumes "selfmap_ok s" "pdx va = self_idx"
  shows "mmu_pte s va = dir_entry s (ptx va)"
    "mmu_translate s va = (if PageEntry_IsPresent (dir_entry s (ptx va))
       then Some (PageEntry_GetAddress (dir_entry s (ptx va)) + VrAddr_GetOffset va) else None)"
proof -
  have "entry_at (dir_entry s self_idx) = entry_at (ms_cr3 s)"
    using assms(1) by (intro entry_at_address) (simp add: selfmap_ok_def)
  then show p: "mmu_pte s va = dir_entry s (ptx va)"
    using assms(2) by (simp add: mmu_pte_def mmu_pde_dir dir_entry_def)
  show "mmu_translate s va = (if PageEntry_IsPresent (dir_entry s (ptx va))
       then Some (PageEntry_GetAddress (dir_entry s (ptx va)) + VrAddr_GetOffset va) else None)"
    using assms by (simp add: mmu_translate_def p mmu_pde_dir selfmap_ok_def)
qed

lemma translate_dir_entry:
  assumes "selfmap_ok s"
  shows "mmu_translate s (VrAddr_GetPageDirEntry va) = Some (entry_at (ms_cr3 s) (pdx va))"
  using self_walk(2) [OF assms pde_addr_fields(1)] assms
  by (simp add: pde_addr_fields selfmap_ok_def entry_at_def)

lemma translate_tab_entry:
  assumes "selfmap_ok s"
  shows "mmu_translate s (VrAddr_GetPageTabEntry va) =
    (if PageEntry_IsPresent (mmu_pde s va) then Some (entry_at (mmu_pde s va) (ptx va)) else None)"
  using self_walk(2) [OF assms pte_addr_fields(1)]
  by (simp add: pte_addr_fields mmu_pde_dir entry_at_def)

lemma read_dir_entry:
  "selfmap_ok s \<Longrightarrow> mem_read s (VrAddr_GetPageDirEntry va) = Some (mmu_pde s va)"
  by (simp add: mem_read_def translate_dir_entry mmu_pde_def)

lemma read_tab_entry:
  "selfmap_ok s \<Longrightarrow> PageEntry_IsPresent (mmu_pde s va) \<Longrightarrow>
   mem_read s (VrAddr_GetPageTabEntry va) = Some (mmu_pte s va)"
  by (simp add: mem_read_def translate_tab_entry mmu_pte_def)

lemma IsMapped_translate:
  "selfmap_ok s \<Longrightarrow> VrAddr_IsMapped s va = Some (mmu_translate s va \<noteq> None)"
  by (simp add: VrAddr_IsMapped_def read_dir_entry read_tab_entry mmu_translate_def)

lemma GetPhyAddr_translate:
  "selfmap_ok s \<Longrightarrow> mmu_translate s va = Some pa \<Longrightarrow> VrAddr_GetPhyAddr s va = Some pa"
  by (simp add: VrAddr_GetPhyAddr_def read_tab_entry mmu_translate_def split: if_splits)

section \<open>Invariant of the tables\<close>

text \<open>
  The pages of the tables of different directory entries differ, with the one exception of the
  loader's identity mapping: the entries \<open>0\<close> and \<open>0x300\<close> share the first table.
\<close>

definition loader_alias :: "u32 \<Rightarrow> u32 \<Rightarrow> bool" where
  "loader_alias i j \<longleftrightarrow> {i, j} = {0, of_nat krnl_page_dir_start}"

definition table_page :: "memsys \<Rightarrow> u32 \<Rightarrow> bool" where
  "table_page s f \<longleftrightarrow> (\<exists>i. unat i < 1024 \<and> PageEntry_IsPresent (dir_entry s i) \<and>
     PageEntry_GetAddress (dir_entry s i) = f)"

definition tables_ok :: "memsys \<Rightarrow> bool" where
  "tables_ok s \<longleftrightarrow> selfmap_ok s \<and>
     (\<forall>i j. unat i < 1024 \<and> unat j < 1024 \<and> i \<noteq> j \<and> PageEntry_IsPresent (dir_entry s i) \<and>
        PageEntry_IsPresent (dir_entry s j) \<and> \<not> loader_alias i j \<longrightarrow>
        PageEntry_GetAddress (dir_entry s i) \<noteq> PageEntry_GetAddress (dir_entry s j))"

text \<open>The word of a table that holds the entry of an address.\<close>

definition pte_word :: "memsys \<Rightarrow> u32 \<Rightarrow> u32" where
  "pte_word s va = entry_at (mmu_pde s va) (ptx va)"

lemma mmu_pte_word: "mmu_pte s va = ms_mem s (pte_word s va)"
  by (simp add: mmu_pte_def pte_word_def)

text \<open>A double word that is part of the directory or of a table.\<close>

definition table_word :: "memsys \<Rightarrow> u32 \<Rightarrow> bool" where
  "table_word s pa \<longleftrightarrow> table_page s (PageEntry_GetAddress pa)"

lemma GetAddress_entry_at [simp]:
  "unat i < 1024 \<Longrightarrow> PageEntry_GetAddress (entry_at e i) = PageEntry_GetAddress e"
  by (rule bit_word_eqI) (auto simp: bit_GetAddress bit_entry_at)

lemma dir_word_table: "selfmap_ok s \<Longrightarrow> unat i < 1024 \<Longrightarrow> table_word s (entry_at (ms_cr3 s) i)"
  unfolding table_word_def table_page_def by (rule exI [of _ self_idx]) (simp add: selfmap_ok_def)

lemma tab_word_table:
  "PageEntry_IsPresent (mmu_pde s va) \<Longrightarrow> table_word s (entry_at (mmu_pde s va) (ptx va))"
  unfolding table_word_def table_page_def by (rule exI [of _ "pdx va"]) (simp add: mmu_pde_dir)

text \<open>A write outside the tables changes no translation.\<close>

lemma write_other_word:
  assumes "selfmap_ok s" "\<not> table_word s pa"
  shows "dir_entry (s\<lparr>ms_mem := (ms_mem s)(pa := v)\<rparr>) i = dir_entry s i \<or> \<not> unat i < 1024"
    "mmu_translate (s\<lparr>ms_mem := (ms_mem s)(pa := v)\<rparr>) va = mmu_translate s va"
proof -
  let ?s = "s\<lparr>ms_mem := (ms_mem s)(pa := v)\<rparr>"
  have d: "dir_entry ?s i = dir_entry s i" if "unat i < 1024" for i
    using dir_word_table [OF assms(1) that] assms(2) by (auto simp: dir_entry_def)
  then show "dir_entry ?s i = dir_entry s i \<or> \<not> unat i < 1024" by blast
  have "mmu_pde ?s va = mmu_pde s va" using d [of "pdx va"] by (simp add: mmu_pde_dir)
  moreover have "PageEntry_IsPresent (mmu_pde s va) \<Longrightarrow> mmu_pte ?s va = mmu_pte s va"
    using tab_word_table [of s va] assms(2) calculation by (auto simp: mmu_pte_def)
  ultimately show "mmu_translate ?s va = mmu_translate s va"
    by (auto simp: mmu_translate_def)
qed

section \<open>Effect of the single writes\<close>

lemma krnl_dir_start: "krnl_page_dir_start = 0x300"
proof -
  have "VrAddr_GetPageDirEntryIdx krnl_base = 0x300"
    by (simp add: krnl_base_def vr_defs GetBits_def)
  then show ?thesis by (simp add: krnl_page_dir_start_def)
qed

lemma self_idx_not_alias [simp]: "\<not> loader_alias i self_idx" "\<not> loader_alias self_idx i"
  by (auto simp: loader_alias_def doubleton_eq_iff krnl_dir_start self_idx_def page_dir_self_ref_def
      page_dir_count_def)

lemma loader_alias_sym: "loader_alias i j \<longleftrightarrow> loader_alias j i"
  by (simp add: loader_alias_def insert_commute)

lemma tables_apart:
  assumes "tables_ok s" "unat i < 1024" "unat j < 1024" "i \<noteq> j" "\<not> loader_alias i j"
    "PageEntry_IsPresent (dir_entry s i)" "PageEntry_IsPresent (dir_entry s j)"
  shows "PageEntry_GetAddress (dir_entry s i) \<noteq> PageEntry_GetAddress (dir_entry s j)"
  using assms unfolding tables_ok_def by blast

lemma table_not_dir:
  assumes "tables_ok s" "unat i < 1024" "i \<noteq> self_idx" "PageEntry_IsPresent (dir_entry s i)"
  shows "PageEntry_GetAddress (dir_entry s i) \<noteq> PageEntry_GetAddress (ms_cr3 s)"
  using tables_apart [OF assms(1,2) self_idx_bound assms(3)] assms(1,4) by (simp add: tables_ok_def selfmap_ok_def)

lemma tables_ok_cong:
  assumes "ms_cr3 s' = ms_cr3 s" "\<And>i. unat i < 1024 \<Longrightarrow> dir_entry s' i = dir_entry s i"
  shows "tables_ok s' \<longleftrightarrow> tables_ok s" "table_page s' f \<longleftrightarrow> table_page s f"
    "mmu_pde s' va = mmu_pde s va"
proof -
  have "dir_entry s' self_idx = dir_entry s self_idx" by (rule assms(2)) simp
  then show "tables_ok s' \<longleftrightarrow> tables_ok s"
    using assms unfolding tables_ok_def selfmap_ok_def by (metis (no_types, lifting))
  show "table_page s' f \<longleftrightarrow> table_page s f" using assms by (auto simp: table_page_def)
  show "mmu_pde s' va = mmu_pde s va" using assms(2) [of "pdx va"] by (simp add: mmu_pde_dir)
qed

text \<open>Writing an entry of a table.\<close>

lemma set_table_word:
  assumes ok: "tables_ok s" and p: "unat p < 1024" "p \<noteq> self_idx" "PageEntry_IsPresent (dir_entry s p)"
    and t: "unat t < 1024" and s': "s' = s\<lparr>ms_mem := (ms_mem s)(entry_at (dir_entry s p) t := e)\<rparr>"
  shows "unat i < 1024 \<Longrightarrow> dir_entry s' i = dir_entry s i"
    "pdx va = p \<Longrightarrow> ptx va = t \<Longrightarrow> mmu_pte s' va = e"
    "PageEntry_IsPresent (mmu_pde s va) \<Longrightarrow> (pdx va, ptx va) \<noteq> (p, t) \<Longrightarrow> \<not> loader_alias p (pdx va) \<Longrightarrow>
       mmu_pte s' va = mmu_pte s va"
    "(pdx va, ptx va) \<noteq> (p, t) \<Longrightarrow> \<not> loader_alias p (pdx va) \<Longrightarrow> mmu_translate s' va = mmu_translate s va"
    "mmu_pte s' va = mmu_pte s va \<or> mmu_pte s' va = e"
    "mmu_pte s' va = (if pte_word s va = entry_at (dir_entry s p) t then e else mmu_pte s va)"
proof -
  show d: "dir_entry s' i = dir_entry s i" if "unat i < 1024" for i
    using table_not_dir [OF ok p] that t by (simp add: s' dir_entry_def entry_at_eq_iff eq_commute)
  have pde: "mmu_pde s' va = mmu_pde s va" for va using d [of "pdx va"] by (simp add: mmu_pde_dir)
  show "mmu_pte s' va = e" if "pdx va = p" "ptx va = t"
    using that pde [of va] by (simp add: mmu_pte_def mmu_pde_dir) (simp add: s')
  show "mmu_pte s' va = mmu_pte s va \<or> mmu_pte s' va = e"
    using pde [of va] by (simp add: mmu_pte_def) (simp add: s')
  show "mmu_pte s' va = (if pte_word s va = entry_at (dir_entry s p) t then e else mmu_pte s va)"
    using pde [of va] by (simp add: mmu_pte_def pte_word_def) (simp add: s')
  show pte: "mmu_pte s' va = mmu_pte s va"
    if "PageEntry_IsPresent (mmu_pde s va)" "(pdx va, ptx va) \<noteq> (p, t)" "\<not> loader_alias p (pdx va)" for va
  proof -
    have "entry_at (dir_entry s (pdx va)) (ptx va) \<noteq> entry_at (dir_entry s p) t"
      using tables_apart [OF ok p(1) _ _ that(3) p(3), of] that t
      by (cases "pdx va = p") (auto simp: entry_at_eq_iff mmu_pde_dir)
    then show ?thesis using pde [of va] by (simp add: mmu_pte_def mmu_pde_dir) (simp add: s')
  qed
  show "mmu_translate s' va = mmu_translate s va"
    if "(pdx va, ptx va) \<noteq> (p, t)" "\<not> loader_alias p (pdx va)"
    using pte [OF _ that] by (auto simp: mmu_translate_def pde)
qed

text \<open>Clearing a table through its address in the window of the last directory entry.\<close>

lemma clear_table:
  assumes "tables_ok s" "unat p < 1024" "p \<noteq> self_idx" "PageEntry_IsPresent (dir_entry s p)"
    and base: "VrAddr_GetOffset base = 0" "pdx base = self_idx" "ptx base = p"
    and "k + n \<le> 1024"
  shows "mem_clear s (base + of_nat (4 * k)) n = Some (s\<lparr>ms_mem := \<lambda>w.
    if w \<in> (\<lambda>j. entry_at (dir_entry s p) (of_nat j)) ` {k..<k + n} then 0 else ms_mem s w\<rparr>)"
  using assms(1,4,8)
proof (induction n arbitrary: k s)
  case 0
  then show ?case by simp
next
  case (Suc n)
  let ?e = "dir_entry s p"
  have k: "unat (of_nat (4 * k) :: u32) < 4096" "unat (of_nat k :: u32) < 1024"
    using Suc.prems(3) unat_of_nat_u32 [of "4 * k"] unat_of_nat_u32 [of k] by auto
  define s2 where "s2 = s\<lparr>ms_mem := (ms_mem s)(entry_at ?e (of_nat k) := 0)\<rparr>"
  have self: "selfmap_ok s" using Suc.prems(1) by (simp add: tables_ok_def)
  have "mmu_translate s (base + of_nat (4 * k)) = Some (entry_at ?e (of_nat k))"
    using self_walk(2) [OF self, of "base + of_nat (4 * k)"] page_add_fields [OF base(1) k(1)] base Suc.prems(2)
    by (simp add: entry_at_def mult.commute)
  then have w: "mem_write s (base + of_nat (4 * k)) 0 = Some s2"
    by (simp add: mem_write_def s2_def)
  note d = set_table_word(1) [OF Suc.prems(1) assms(2,3) Suc.prems(2) k(2) s2_def]
  have ok2: "tables_ok s2" using tables_ok_cong(1) [of s2 s] d Suc.prems(1) by (simp add: s2_def)
  have e2: "dir_entry s2 p = ?e" using d assms(2) by blast
  have "mem_clear s2 (base + of_nat (4 * Suc k)) n = Some (s2\<lparr>ms_mem := \<lambda>w.
      if w \<in> (\<lambda>j. entry_at ?e (of_nat j)) ` {Suc k..<Suc k + n} then 0 else ms_mem s2 w\<rparr>)"
    using Suc.IH [of s2 "Suc k"] ok2 Suc.prems(2,3) e2 by simp
  moreover have "{k..<k + Suc n} = insert k {Suc k..<Suc k + n}" by auto
  then have "(\<lambda>w. if w \<in> (\<lambda>j. entry_at ?e (of_nat j)) ` {Suc k..<Suc k + n} then 0 else ms_mem s2 w) =
      (\<lambda>w. if w \<in> (\<lambda>j. entry_at ?e (of_nat j)) ` {k..<k + Suc n} then 0 else ms_mem s w)"
    by (auto simp: s2_def fun_eq_iff)
  ultimately show ?case using w by (simp add: s2_def algebra_simps)
qed

section \<open>Mapping a page\<close>

lemma user_entry_fields [simp]:
  "PageEntry_IsPresent (user_entry e f)" "PageEntry_GetAddress (user_entry e f) = PageEntry_GetAddress f"
proof -
  show "PageEntry_IsPresent (user_entry e f)" by (simp add: user_entry_def entry_defs bits_simps)
  show "PageEntry_GetAddress (user_entry e f) = PageEntry_GetAddress f"
    unfolding user_entry_def
    by (rule bit_word_eqI) (auto simp: entry_defs bits_simps bit_simps)
qed

lemma not_present_zero [simp]: "\<not> PageEntry_IsPresent 0"
  by (simp add: entry_defs bits_simps)

lemma aligned_GetAddress: "unat a mod page_size = 0 \<Longrightarrow> PageEntry_GetAddress a = a"
proof -
  assume a: "unat a mod page_size = 0"
  have "take_bit 12 (unat a) = 0" using a by (simp add: take_bit_eq_mod page_size_def)
  then have "\<not> bit (unat a) n" if "n < 12" for n
    using that by (metis bit_0_eq bit_take_bit_iff bot_apply bot_bool_def)
  then have "12 \<le> n" if "bit a n" for n
  proof -
    have "bit (unat a) n" using that by (simp add: bit_unsigned_iff)
    with \<open>\<And>n. n < 12 \<Longrightarrow> \<not> bit (unat a) n\<close> show ?thesis by (metis not_le)
  qed
  then show ?thesis by (intro bit_word_eqI) (auto simp: bit_GetAddress)
qed

text \<open>
  The state the allocator keeps: the tables are apart, the two pools are well formed and have no
  page in common, and no available page is a table or mapped by an entry outside the window.
\<close>

definition pool_pages :: "page_pool \<Rightarrow> u32 set" where
  "pool_pages p = pool_used p \<union> pool_avail p"

definition frames_ok :: "memsys \<Rightarrow> u32 set \<Rightarrow> bool" where
  "frames_ok s A \<longleftrightarrow> (\<forall>f \<in> A. \<not> table_page s f) \<and>
     (\<forall>va pa. pdx va \<noteq> self_idx \<and> mmu_translate s va = Some pa \<longrightarrow> PageEntry_GetAddress pa \<notin> A)"

definition mem_ok :: "memsys \<Rightarrow> bool" where
  "mem_ok s \<longleftrightarrow> tables_ok s \<and> pool_ok (ms_kpool s) \<and> pool_ok (ms_upool s) \<and>
     pool_pages (ms_kpool s) \<inter> pool_pages (ms_upool s) = {} \<and>
     frames_ok s (pool_avail (ms_kpool s) \<union> pool_avail (ms_upool s))"

lemma set_dir_word:
  assumes ok: "tables_ok s" and p: "unat p < 1024" "p \<noteq> self_idx" "\<not> PageEntry_IsPresent (dir_entry s p)"
    and f: "\<not> table_page s (PageEntry_GetAddress e)"
    and s': "s' = s\<lparr>ms_mem := (ms_mem s)(entry_at (ms_cr3 s) p := e)\<rparr>"
  shows "unat i < 1024 \<Longrightarrow> dir_entry s' i = (if i = p then e else dir_entry s i)"
    "tables_ok s'" "pdx va \<noteq> self_idx \<Longrightarrow> pdx va \<noteq> p \<Longrightarrow> mmu_translate s' va = mmu_translate s va"
proof -
  show d: "dir_entry s' i = (if i = p then e else dir_entry s i)" if "unat i < 1024" for i
    using that p(1) by (simp add: s' dir_entry_def entry_at_eq_iff)
  have new: "PageEntry_GetAddress (dir_entry s i) \<noteq> PageEntry_GetAddress e"
    if "unat i < 1024" "PageEntry_IsPresent (dir_entry s i)" for i
    using f that by (auto simp: table_page_def)
  have "selfmap_ok s'" using ok p(2) d [of self_idx] by (simp add: tables_ok_def selfmap_ok_def s')
  moreover have "PageEntry_GetAddress (dir_entry s' i) \<noteq> PageEntry_GetAddress (dir_entry s' j)"
    if "unat i < 1024" "unat j < 1024" "i \<noteq> j" "PageEntry_IsPresent (dir_entry s' i)"
      "PageEntry_IsPresent (dir_entry s' j)" "\<not> loader_alias i j" for i j
    using that tables_apart [OF ok that(1,2,3,6)] new [of i] new [of j] by (auto simp: d split: if_splits)
  ultimately show "tables_ok s'" unfolding tables_ok_def by blast
  show "mmu_translate s' va = mmu_translate s va" if "pdx va \<noteq> self_idx" "pdx va \<noteq> p"
  proof -
    have pde: "mmu_pde s' va = mmu_pde s va" using that d [of "pdx va"] by (simp add: mmu_pde_dir)
    have "mmu_pte s' va = mmu_pte s va" if "PageEntry_IsPresent (mmu_pde s va)"
    proof -
      have "entry_at (mmu_pde s va) (ptx va) \<noteq> entry_at (ms_cr3 s) p"
        using table_not_dir [OF ok, of "pdx va"] that \<open>pdx va \<noteq> self_idx\<close> p(1)
        by (simp add: entry_at_eq_iff mmu_pde_dir)
      then show ?thesis using pde by (simp add: mmu_pte_def) (simp add: s')
    qed
    then show ?thesis by (auto simp: mmu_translate_def pde)
  qed
qed

lemma pool_update_tables [simp]:
  "dir_entry (s\<lparr>ms_kpool := p\<rparr>) = dir_entry s" "mmu_pde (s\<lparr>ms_kpool := p\<rparr>) = mmu_pde s"
  "mmu_translate (s\<lparr>ms_kpool := p\<rparr>) = mmu_translate s" "selfmap_ok (s\<lparr>ms_kpool := p\<rparr>) = selfmap_ok s"
  "tables_ok (s\<lparr>ms_kpool := p\<rparr>) = tables_ok s" "table_page (s\<lparr>ms_kpool := p\<rparr>) = table_page s"
  "dir_entry (s\<lparr>ms_upool := p\<rparr>) = dir_entry s" "mmu_pde (s\<lparr>ms_upool := p\<rparr>) = mmu_pde s"
  "mmu_translate (s\<lparr>ms_upool := p\<rparr>) = mmu_translate s" "selfmap_ok (s\<lparr>ms_upool := p\<rparr>) = selfmap_ok s"
  "tables_ok (s\<lparr>ms_upool := p\<rparr>) = tables_ok s" "table_page (s\<lparr>ms_upool := p\<rparr>) = table_page s"
  by (simp_all add: fun_eq_iff dir_entry_def mmu_pde_def mmu_pte_def mmu_translate_def selfmap_ok_def
      tables_ok_def table_page_def)

text \<open>Clearing the words of a page that no entry of the directory but one refers to.\<close>

lemma clear_fresh_page:
  assumes ok: "tables_ok s" and p: "unat p < 1024" "p \<noteq> self_idx" "PageEntry_IsPresent (dir_entry s p)"
    and Z: "Z = (\<lambda>j. entry_at (dir_entry s p) (of_nat j)) ` {0..<1024}"
    and uniq: "\<And>i. unat i < 1024 \<Longrightarrow> i \<noteq> p \<Longrightarrow> PageEntry_IsPresent (dir_entry s i) \<Longrightarrow>
      PageEntry_GetAddress (dir_entry s i) \<noteq> PageEntry_GetAddress (dir_entry s p)"
    and s': "s' = s\<lparr>ms_mem := \<lambda>w. if w \<in> Z then 0 else ms_mem s w\<rparr>"
  shows "unat i < 1024 \<Longrightarrow> dir_entry s' i = dir_entry s i" "pdx va = p \<Longrightarrow> mmu_pte s' va = 0"
    "pdx va \<noteq> p \<Longrightarrow> mmu_translate s' va = mmu_translate s va"
proof -
  have z: "PageEntry_GetAddress w = PageEntry_GetAddress (dir_entry s p)" if "w \<in> Z" for w
    using that by (auto simp: Z unat_of_nat_u32)
  show d: "dir_entry s' i = dir_entry s i" if "unat i < 1024" for i
    using z [of "entry_at (ms_cr3 s) i"] table_not_dir [OF ok p] that by (auto simp: s' dir_entry_def)
  have pde: "mmu_pde s' va = mmu_pde s va" for va using d [of "pdx va"] by (simp add: mmu_pde_dir)
  show "mmu_pte s' va = 0" if "pdx va = p"
  proof -
    have "entry_at (dir_entry s p) (ptx va) \<in> Z"
      unfolding Z by (rule image_eqI [of _ _ "unat (ptx va)"]) simp_all
    then show ?thesis using pde [of va] that by (simp add: mmu_pte_def mmu_pde_dir) (simp add: s')
  qed
  show "mmu_translate s' va = mmu_translate s va" if "pdx va \<noteq> p"
  proof -
    have "mmu_pte s' va = mmu_pte s va" if "PageEntry_IsPresent (mmu_pde s va)"
      using z [of "entry_at (mmu_pde s va) (ptx va)"] uniq [of "pdx va"] that \<open>pdx va \<noteq> p\<close> pde [of va]
      by (auto simp: mmu_pte_def mmu_pde_dir s')
    then show ?thesis by (auto simp: mmu_translate_def pde)
  qed
qed

lemma clear_new_table:
  assumes "tables_ok s" "pdx va \<noteq> self_idx" "PageEntry_IsPresent (mmu_pde s va)"
  shows "mem_clear s (VrAddr_GetPageAddr (VrAddr_GetPageTabEntry va)) (page_size div 4) =
    Some (s\<lparr>ms_mem := \<lambda>w. if w \<in> (\<lambda>j. entry_at (mmu_pde s va) (of_nat j)) ` {0..<1024} then 0 else ms_mem s w\<rparr>)"
  using clear_table [of s "pdx va" "VrAddr_GetPageAddr (VrAddr_GetPageTabEntry va)" 0 1024] assms
  by (simp add: GetPageAddr_fields(1-3) pte_addr_fields mmu_pde_dir page_size_def)

text \<open>Linking a fresh page as the table of a directory entry and clearing it.\<close>

lemma link_table:
  assumes ok: "tables_ok s" and p: "unat p < 1024" "p \<noteq> self_idx" "\<not> PageEntry_IsPresent (dir_entry s p)"
    and e: "PageEntry_IsPresent e" "\<not> table_page s (PageEntry_GetAddress e)"
    and s1: "s1 = s\<lparr>ms_mem := (ms_mem s)(entry_at (ms_cr3 s) p := e)\<rparr>"
    and Z: "Z = (\<lambda>j. entry_at e (of_nat j)) ` {0..<1024}"
    and s2: "s2 = s1\<lparr>ms_mem := \<lambda>w. if w \<in> Z then 0 else ms_mem s1 w\<rparr>"
  shows "tables_ok s1" "dir_entry s1 p = e" "tables_ok s2"
    "unat i < 1024 \<Longrightarrow> dir_entry s2 i = (if i = p then e else dir_entry s i)"
    "pdx va = p \<Longrightarrow> mmu_pte s2 va = 0"
    "pdx va \<noteq> self_idx \<Longrightarrow> mmu_translate s2 va = mmu_translate s va"
    "\<not> table_word s2 w \<Longrightarrow> ms_mem s2 w = ms_mem s w"
proof -
  note d1 = set_dir_word [OF ok p e(2) s1]
  show ok1: "tables_ok s1" and e1: "dir_entry s1 p = e" using d1(1) [OF p(1)] d1(2) by simp_all
  have p1: "PageEntry_IsPresent (dir_entry s1 p)" using e1 e(1) by simp
  have uniq: "PageEntry_GetAddress (dir_entry s1 i) \<noteq> PageEntry_GetAddress (dir_entry s1 p)"
    if "unat i < 1024" "i \<noteq> p" "PageEntry_IsPresent (dir_entry s1 i)" for i
    using that e(2) d1(1) [OF that(1)] by (auto simp: e1 table_page_def)
  have Z1: "Z = (\<lambda>j. entry_at (dir_entry s1 p) (of_nat j)) ` {0..<1024}" by (simp add: Z e1)
  note d2 = clear_fresh_page [OF ok1 p(1,2) p1 Z1 uniq s2]
  show ok2: "tables_ok s2" using tables_ok_cong(1) [of s2 s1] d2(1) ok1 by (simp add: s2)
  show dir2: "dir_entry s2 i = (if i = p then e else dir_entry s i)" if "unat i < 1024" for i
    using d2(1) [OF _ _ _ that] d1(1) [OF that] by simp
  show pte: "mmu_pte s2 va = 0" if "pdx va = p" for va using d2(2) that by blast
  show "mmu_translate s2 va = mmu_translate s va" if "pdx va \<noteq> self_idx"
  proof (cases "pdx va = p")
    case True
    then show ?thesis using pte [OF True] p(3) by (simp add: mmu_translate_def mmu_pde_dir)
  next
    case False
    then have "mmu_translate s2 va = mmu_translate s1 va" using d2(3) by blast
    then show ?thesis using d1(3) [OF that False] by simp
  qed
  show "ms_mem s2 w = ms_mem s w" if "\<not> table_word s2 w"
  proof -
    have "w \<noteq> entry_at (ms_cr3 s) p"
      using dir_word_table [of s2 p] that ok2 p(1) by (auto simp: tables_ok_def s2 s1)
    moreover have "w \<notin> Z"
    proof
      assume "w \<in> Z"
      then have "PageEntry_GetAddress w = PageEntry_GetAddress (dir_entry s2 p)"
        using dir2 [OF p(1)] by (auto simp: Z unat_of_nat_u32)
      then show False using that e(1) dir2 [OF p(1)] p(1) by (auto simp: table_word_def table_page_def)
    qed
    ultimately show ?thesis by (simp add: s2 s1)
  qed
qed

lemma table_page_link:
  assumes "\<And>i. unat i < 1024 \<Longrightarrow> dir_entry s2 i = (if i = p then e else dir_entry s i)"
    and "unat p < 1024" "\<not> PageEntry_IsPresent (dir_entry s p)" "PageEntry_IsPresent e"
  shows "table_page s2 g \<longleftrightarrow> table_page s g \<or> g = PageEntry_GetAddress e"
proof
  assume "table_page s2 g"
  then obtain i where "unat i < 1024" "PageEntry_IsPresent (dir_entry s2 i)" "PageEntry_GetAddress (dir_entry s2 i) = g"
    by (auto simp: table_page_def)
  then show "table_page s g \<or> g = PageEntry_GetAddress e"
    using assms(1) [of i] by (cases "i = p") (auto simp: table_page_def)
next
  assume "table_page s g \<or> g = PageEntry_GetAddress e"
  then show "table_page s2 g"
  proof
    assume "table_page s g"
    then obtain i where "unat i < 1024" "PageEntry_IsPresent (dir_entry s i)" "PageEntry_GetAddress (dir_entry s i) = g"
      by (auto simp: table_page_def)
    then show ?thesis using assms(1) [of i] assms(3) by (auto simp: table_page_def intro!: exI [of _ i])
  qed (use assms in \<open>auto simp: table_page_def intro!: exI [of _ p]\<close>)
qed

text \<open>
  After the first part there is a table, the address itself is still unmapped, and every address
  outside the window translates as before.
\<close>

lemma map_table_ok:
  assumes ok: "mem_ok s" and va: "pdx va \<noteq> self_idx" "mmu_translate s va = None"
    and av: "PageEntry_IsPresent (mmu_pde s va) \<or> pool_avail (ms_kpool s) \<noteq> {}"
  obtains s' where "MapToPhyAddr_table s va = Some s'" "tables_ok s'" "PageEntry_IsPresent (mmu_pde s' va)"
    "\<not> PageEntry_IsPresent (mmu_pte s' va)" "\<And>va'. pdx va' \<noteq> self_idx \<Longrightarrow> mmu_translate s' va' = mmu_translate s va'"
    "ms_cr3 s' = ms_cr3 s" "ms_upool s' = ms_upool s" "ms_kaddr s' = ms_kaddr s" "ms_uaddr s' = ms_uaddr s"
    "pool_ok (ms_kpool s')" "pool_avail (ms_kpool s') \<subseteq> pool_avail (ms_kpool s)"
    "pool_pages (ms_kpool s') = pool_pages (ms_kpool s)"
    "card (pool_avail (ms_kpool s)) \<le> Suc (card (pool_avail (ms_kpool s')))"
    "\<And>f. table_page s' f \<Longrightarrow> table_page s f \<or> f \<in> pool_avail (ms_kpool s) - pool_avail (ms_kpool s')"
    "\<And>w. \<not> table_word s' w \<Longrightarrow> ms_mem s' w = ms_mem s w"
    "\<And>f. table_page s f \<Longrightarrow> table_page s' f"
    "\<And>va'. PageEntry_IsPresent (mmu_pde s va') \<Longrightarrow> mmu_pde s' va' = mmu_pde s va'"
    "\<And>i. unat i < 1024 \<Longrightarrow> i \<noteq> pdx va \<Longrightarrow> dir_entry s' i = dir_entry s i"
proof -
  have t: "tables_ok s" "selfmap_ok s" using ok by (auto simp: mem_ok_def tables_ok_def)
  show thesis
  proof (cases "PageEntry_IsPresent (mmu_pde s va)")
    case True
    then have "MapToPhyAddr_table s va = Some s"
      by (simp add: MapToPhyAddr_table_def Let_def read_dir_entry [OF t(2)])
    moreover have "\<not> PageEntry_IsPresent (mmu_pte s va)"
      using True va(2) by (simp add: mmu_translate_def split: if_splits)
    ultimately show thesis using that [of s] True t ok by (simp add: mem_ok_def)
  next
    case False
    have kp: "pool_ok (ms_kpool s)" using ok by (simp add: mem_ok_def)
    obtain f kpool where f: "PhyMemPagePool_AllocPages (ms_kpool s) 1 = Some (f, kpool)" "f \<noteq> 0" "pool_ok kpool"
      "f \<in> pool_avail (ms_kpool s)" "pool_avail kpool = pool_avail (ms_kpool s) - {f}"
      "pool_used kpool = insert f (pool_used (ms_kpool s))"
      using pp.alloc_one_cases [OF kp] av False by metis
    have fa: "PageEntry_GetAddress f = f" using pp.aligned [OF kp, of f] f(4) by (intro aligned_GetAddress) simp
    have nt: "\<not> table_page s f" using ok f(4) by (auto simp: mem_ok_def frames_ok_def)
    let ?s0 = "s\<lparr>ms_kpool := kpool\<rparr>"
    define e where "e = user_entry (mmu_pde s va) f"
    define s1 where "s1 = ?s0\<lparr>ms_mem := (ms_mem ?s0)(entry_at (ms_cr3 ?s0) (pdx va) := e)\<rparr>"
    define Z where "Z = (\<lambda>j. entry_at e (of_nat j)) ` {0..<1024}"
    define s2 where "s2 = s1\<lparr>ms_mem := \<lambda>w. if w \<in> Z then 0 else ms_mem s1 w\<rparr>"
    have "tables_ok ?s0" "\<not> PageEntry_IsPresent (dir_entry ?s0 (pdx va))" "PageEntry_IsPresent e"
      "\<not> table_page ?s0 (PageEntry_GetAddress e)" and ea: "PageEntry_GetAddress e = f"
      using t(1) False nt fa by (simp_all add: mmu_pde_dir e_def)
    note l = link_table [OF this(1) idx_bounds(1) va(1) this(2,3,4) s1_def Z_def s2_def]
    have "mem_write ?s0 (VrAddr_GetPageDirEntry va) e = Some s1"
      using translate_dir_entry [of ?s0 va] t(2) by (simp add: mem_write_def s1_def)
    moreover have "mem_clear s1 (VrAddr_GetPageAddr (VrAddr_GetPageTabEntry va)) (page_size div 4) = Some s2"
      using clear_new_table [OF l(1) va(1)] l(2) \<open>PageEntry_IsPresent e\<close> by (simp add: s2_def Z_def mmu_pde_dir)
    ultimately have run: "MapToPhyAddr_table s va = Some s2"
      using False f(1,2) by (simp add: MapToPhyAddr_table_def Let_def read_dir_entry [OF t(2)] e_def)
    have flds: "ms_cr3 s2 = ms_cr3 s" "ms_upool s2 = ms_upool s" "ms_kaddr s2 = ms_kaddr s"
      "ms_uaddr s2 = ms_uaddr s" "ms_kpool s2 = kpool"
      by (simp_all add: s2_def s1_def)
    have pg: "table_page s2 g \<longleftrightarrow> table_page s g \<or> g = f" for g
      using table_page_link [of s2 "pdx va" e s g] l(4) False \<open>PageEntry_IsPresent e\<close> ea
      by (simp add: mmu_pde_dir)
    show thesis
    proof (rule that [OF run l(3)])
      show "PageEntry_IsPresent (mmu_pde s2 va)" "\<not> PageEntry_IsPresent (mmu_pte s2 va)"
        using l(4) [of "pdx va"] l(5) \<open>PageEntry_IsPresent e\<close> by (simp_all add: mmu_pde_dir)
      show "card (pool_avail (ms_kpool s)) \<le> Suc (card (pool_avail (ms_kpool s2)))"
        using f(4,5) card_pool_avail(2) [OF kp] by (simp add: flds card_Diff_singleton)
      show "mmu_pde s2 va' = mmu_pde s va'" if "PageEntry_IsPresent (mmu_pde s va')" for va'
        using l(4) [of "pdx va'"] that False by (auto simp: mmu_pde_dir)
      show "dir_entry s2 i = dir_entry s i" if "unat i < 1024" "i \<noteq> pdx va" for i using l(4) [of i] that by simp
    qed (use l(6,7) f flds pg in \<open>auto simp: pool_pages_def\<close>)
  qed
qed

text \<open>
  The page is mapped after \<^verbatim>\<open>MapToPhyAddr\<close>; every other address outside the window translates as
  before, except the ones of the loader's alias; only table words are written.
\<close>

lemma map_ok:
  assumes ok: "mem_ok s" and va: "pdx va \<noteq> self_idx" "mmu_translate s va = None"
    and av: "PageEntry_IsPresent (mmu_pde s va) \<or> pool_avail (ms_kpool s) \<noteq> {}"
  obtains s' where "VrAddr_MapToPhyAddr s va pa = Some s'" "tables_ok s'"
    "\<And>va'. (pdx va', ptx va') = (pdx va, ptx va) \<Longrightarrow>
       mmu_translate s' va' = Some (PageEntry_GetAddress pa + VrAddr_GetOffset va')"
    "\<And>va'. pdx va' \<noteq> self_idx \<Longrightarrow> (pdx va', ptx va') \<noteq> (pdx va, ptx va) \<Longrightarrow>
       \<not> loader_alias (pdx va) (pdx va') \<Longrightarrow> mmu_translate s' va' = mmu_translate s va'"
    "\<And>va'. pdx va' \<noteq> self_idx \<Longrightarrow> mmu_translate s' va' = mmu_translate s va' \<or>
       mmu_translate s' va' = Some (PageEntry_GetAddress pa + VrAddr_GetOffset va')"
    "ms_cr3 s' = ms_cr3 s" "ms_upool s' = ms_upool s" "ms_kaddr s' = ms_kaddr s" "ms_uaddr s' = ms_uaddr s"
    "pool_ok (ms_kpool s')" "pool_avail (ms_kpool s') \<subseteq> pool_avail (ms_kpool s)"
    "pool_pages (ms_kpool s') = pool_pages (ms_kpool s)"
    "card (pool_avail (ms_kpool s)) \<le> Suc (card (pool_avail (ms_kpool s')))"
    "\<And>f. table_page s' f \<Longrightarrow> table_page s f \<or> f \<in> pool_avail (ms_kpool s) - pool_avail (ms_kpool s')"
    "\<And>w. \<not> table_word s' w \<Longrightarrow> ms_mem s' w = ms_mem s w"
    "\<And>f. table_page s f \<Longrightarrow> table_page s' f"
    "\<And>va'. PageEntry_IsPresent (mmu_pde s va') \<Longrightarrow> mmu_pde s' va' = mmu_pde s va'"
    "\<And>va'. pdx va' \<noteq> self_idx \<Longrightarrow> mmu_translate s' va' = mmu_translate s va' \<or> pte_word s' va' = pte_word s' va"
    "\<And>i. unat i < 1024 \<Longrightarrow> i \<noteq> pdx va \<Longrightarrow> dir_entry s' i = dir_entry s i"
proof (rule map_table_ok [OF assms])
  fix s1
  assume a: "MapToPhyAddr_table s va = Some s1" "tables_ok s1" "PageEntry_IsPresent (mmu_pde s1 va)"
    "\<not> PageEntry_IsPresent (mmu_pte s1 va)" "\<And>va'. pdx va' \<noteq> self_idx \<Longrightarrow> mmu_translate s1 va' = mmu_translate s va'"
    "ms_cr3 s1 = ms_cr3 s" "ms_upool s1 = ms_upool s" "ms_kaddr s1 = ms_kaddr s" "ms_uaddr s1 = ms_uaddr s"
    "pool_ok (ms_kpool s1)" "pool_avail (ms_kpool s1) \<subseteq> pool_avail (ms_kpool s)"
    "pool_pages (ms_kpool s1) = pool_pages (ms_kpool s)"
    "card (pool_avail (ms_kpool s)) \<le> Suc (card (pool_avail (ms_kpool s1)))"
    "\<And>f. table_page s1 f \<Longrightarrow> table_page s f \<or> f \<in> pool_avail (ms_kpool s) - pool_avail (ms_kpool s1)"
    "\<And>w. \<not> table_word s1 w \<Longrightarrow> ms_mem s1 w = ms_mem s w"
    "\<And>f. table_page s f \<Longrightarrow> table_page s1 f"
    "\<And>va'. PageEntry_IsPresent (mmu_pde s va') \<Longrightarrow> mmu_pde s1 va' = mmu_pde s va'"
    "\<And>i. unat i < 1024 \<Longrightarrow> i \<noteq> pdx va \<Longrightarrow> dir_entry s1 i = dir_entry s i"
  let ?e = "user_entry (mmu_pte s1 va) pa"
  define s2 where "s2 = s1\<lparr>ms_mem := (ms_mem s1)(entry_at (dir_entry s1 (pdx va)) (ptx va) := ?e)\<rparr>"
  have self: "selfmap_ok s1" using a(2) by (simp add: tables_ok_def)
  have run: "VrAddr_MapToPhyAddr s va pa = Some s2"
    using a(1,3,4) by (simp add: VrAddr_MapToPhyAddr_def read_tab_entry [OF self] mem_write_def
        translate_tab_entry [OF self] s2_def mmu_pde_dir)
  have pr: "PageEntry_IsPresent (dir_entry s1 (pdx va))" using a(3) by (simp add: mmu_pde_dir)
  note w = set_table_word [OF a(2) idx_bounds(1) va(1) pr idx_bounds(2) s2_def]
  have cr3: "ms_cr3 s2 = ms_cr3 s1" by (simp add: s2_def)
  note c = tables_ok_cong [OF cr3 w(1)]
  show thesis
  proof (rule that [OF run])
    show "tables_ok s2" using c(1) a(2) by blast
    show "mmu_translate s2 va' = Some (PageEntry_GetAddress pa + VrAddr_GetOffset va')"
      if "(pdx va', ptx va') = (pdx va, ptx va)" for va'
      using that w(2) [of va'] c(3) [of va'] a(3) by (simp add: mmu_translate_def mmu_pde_dir)
    show "mmu_translate s2 va' = mmu_translate s va'"
      if "pdx va' \<noteq> self_idx" "(pdx va', ptx va') \<noteq> (pdx va, ptx va)" "\<not> loader_alias (pdx va) (pdx va')" for va'
      using w(4) [OF that(2,3)] a(5) [OF that(1)] by simp
    show "mmu_translate s2 va' = mmu_translate s va' \<or>
        mmu_translate s2 va' = Some (PageEntry_GetAddress pa + VrAddr_GetOffset va')"
      if "pdx va' \<noteq> self_idx" for va'
      using w(5) [of va'] c(3) [of va'] a(5) [OF that] by (auto simp: mmu_translate_def)
    show "table_page s f \<or> f \<in> pool_avail (ms_kpool s) - pool_avail (ms_kpool s2)" if "table_page s2 f" for f
      using that a(14) c(2) by (simp add: s2_def)
    show "ms_mem s2 u = ms_mem s u" if "\<not> table_word s2 u" for u
    proof -
      have "\<not> table_word s1 u" using that c(2) by (simp add: table_word_def)
      moreover from this have "u \<noteq> entry_at (dir_entry s1 (pdx va)) (ptx va)"
        using tab_word_table [OF a(3)] by (auto simp: mmu_pde_dir)
      ultimately show ?thesis using a(15) by (simp add: s2_def)
    qed
    show "table_page s2 f" if "table_page s f" for f using that a(16) c(2) by blast
    show "mmu_pde s2 va' = mmu_pde s va'" if "PageEntry_IsPresent (mmu_pde s va')" for va'
      using a(17) [OF that] c(3) [of va'] by simp
    show "dir_entry s2 i = dir_entry s i" if "unat i < 1024" "i \<noteq> pdx va" for i using a(18) [OF that] w(1) [OF that(1)] by simp
    show "mmu_translate s2 va' = mmu_translate s va' \<or> pte_word s2 va' = pte_word s2 va"
      if "pdx va' \<noteq> self_idx" for va'
    proof (cases "pte_word s1 va' = pte_word s1 va")
      case True
      then show ?thesis by (simp add: pte_word_def c(3))
    next
      case False
      then have "mmu_pte s2 va' = mmu_pte s1 va'" using w(6) [of va'] by (simp add: pte_word_def mmu_pde_dir)
      then have "mmu_translate s2 va' = mmu_translate s1 va'" by (simp add: mmu_translate_def c(3))
      then show ?thesis using a(5) [OF that] by simp
    qed
  qed (use a in \<open>simp_all add: s2_def\<close>)
qed

lemma unmap_ok:
  assumes ok: "tables_ok s" and va: "pdx va \<noteq> self_idx"
  obtains s' where "VrAddr_Unmap s va = Some s'" "tables_ok s'"
    "\<And>va'. (pdx va', ptx va') = (pdx va, ptx va) \<Longrightarrow> mmu_translate s' va' = None"
    "\<And>va'. (pdx va', ptx va') \<noteq> (pdx va, ptx va) \<Longrightarrow> \<not> loader_alias (pdx va) (pdx va') \<Longrightarrow>
       mmu_translate s' va' = mmu_translate s va'"
    "\<And>va'. mmu_translate s' va' = mmu_translate s va' \<or> mmu_translate s' va' = None"
    "\<And>f. table_page s' f \<longleftrightarrow> table_page s f" "\<And>w. \<not> table_word s w \<Longrightarrow> ms_mem s' w = ms_mem s w"
    "ms_kpool s' = ms_kpool s" "ms_upool s' = ms_upool s" "ms_kaddr s' = ms_kaddr s" "ms_uaddr s' = ms_uaddr s"
    "ms_cr3 s' = ms_cr3 s" "\<And>va'. mmu_pde s' va' = mmu_pde s va'"
    "\<And>va'. PageEntry_IsPresent (mmu_pde s va) \<Longrightarrow> pte_word s va' = pte_word s va \<Longrightarrow> mmu_translate s' va' = None"
proof (cases "PageEntry_IsPresent (mmu_pde s va)")
  case False
  have self: "selfmap_ok s" using ok by (simp add: tables_ok_def)
  have "VrAddr_Unmap s va = Some s" using False by (simp add: VrAddr_Unmap_def read_dir_entry [OF self])
  moreover have "mmu_translate s va' = None" if "(pdx va', ptx va') = (pdx va, ptx va)" for va'
    using False that by (simp add: mmu_translate_def mmu_pde_dir)
  ultimately show ?thesis using that [of s] ok False by blast
next
  case True
  let ?e = "PageEntry_SetPresent (mmu_pte s va) False"
  have self: "selfmap_ok s" using ok by (simp add: tables_ok_def)
  define s2 where "s2 = s\<lparr>ms_mem := (ms_mem s)(entry_at (dir_entry s (pdx va)) (ptx va) := ?e)\<rparr>"
  have run: "VrAddr_Unmap s va = Some s2"
    using True by (simp add: VrAddr_Unmap_def read_dir_entry [OF self] read_tab_entry [OF self] mem_write_def
        translate_tab_entry [OF self] s2_def mmu_pde_dir)
  have pr: "PageEntry_IsPresent (dir_entry s (pdx va))" using True by (simp add: mmu_pde_dir)
  note w = set_table_word [OF ok idx_bounds(1) va(1) pr idx_bounds(2) s2_def]
  have cr3: "ms_cr3 s2 = ms_cr3 s" by (simp add: s2_def)
  note c = tables_ok_cong [OF cr3 w(1)]
  have e: "\<not> PageEntry_IsPresent ?e" by (simp add: entry_defs bits_simps)
  show ?thesis
  proof (rule that [OF run])
    show "mmu_translate s2 va' = None" if "(pdx va', ptx va') = (pdx va, ptx va)" for va'
      using that w(2) [of va'] e by (simp add: mmu_translate_def)
    show "mmu_translate s2 va' = mmu_translate s va' \<or> mmu_translate s2 va' = None" for va'
      using w(5) [of va'] c(3) [of va'] e by (auto simp: mmu_translate_def)
    show "mmu_translate s2 va' = None" if "pte_word s va' = pte_word s va" for va'
      using w(6) [of va'] that e by (simp add: mmu_translate_def pte_word_def mmu_pde_dir)
    show "ms_mem s2 u = ms_mem s u" if "\<not> table_word s u" for u
      using that tab_word_table [OF True] by (auto simp: s2_def mmu_pde_dir)
  qed (use ok c w(4) in \<open>auto simp: s2_def\<close>)
qed

section \<open>Properties\<close>

text \<open>C14: The addresses the kernel computes through the last directory entry reach the entries the CPU
  uses: \<^verbatim>\<open>IsMapped\<close> answers whether the CPU can translate the address, \<^verbatim>\<open>GetPhyAddr\<close> returns what the CPU
  translates it to, and neither faults.\<close>

theorem IsMapped_GetPhyAddr_walk:
  assumes "selfmap_ok s"
  shows "VrAddr_IsMapped s va = Some (mmu_translate s va \<noteq> None) \<and>
    (\<forall>pa. mmu_translate s va = Some pa \<longrightarrow> VrAddr_GetPhyAddr s va = Some pa)"
  using IsMapped_translate [OF assms] GetPhyAddr_translate [OF assms] by blast

text \<open>C2: \<^verbatim>\<open>MapToPhyAddr\<close> on an unmapped address returns (a missing page table is taken from the kernel pool,
  linked and cleared), and then the CPU translates every byte of the page to the same byte of the physical
  page; the translation of every other address outside the window of the tables is unchanged, the loader's alias
  apart, and no memory outside the tables is written.\<close>

theorem MapToPhyAddr_maps:
  assumes "mem_ok s" and "pdx va \<noteq> self_idx" and "mmu_translate s va = None" and "pool_avail (ms_kpool s) \<noteq> {}"
  shows "\<exists>s'. VrAddr_MapToPhyAddr s va pa = Some s' \<and> tables_ok s' \<and>
    (\<forall>va'. (pdx va', ptx va') = (pdx va, ptx va) \<longrightarrow>
       mmu_translate s' va' = Some (PageEntry_GetAddress pa + VrAddr_GetOffset va')) \<and>
    (\<forall>va'. pdx va' \<noteq> self_idx \<and> (pdx va', ptx va') \<noteq> (pdx va, ptx va) \<and> \<not> loader_alias (pdx va) (pdx va') \<longrightarrow>
       mmu_translate s' va' = mmu_translate s va') \<and>
    (\<forall>w. \<not> table_word s' w \<longrightarrow> ms_mem s' w = ms_mem s w)"
  by (rule map_ok [OF assms(1-3), of pa]) (use assms(4) in blast)+

text \<open>C13: \<^verbatim>\<open>Unmap\<close> undoes \<^verbatim>\<open>MapToPhyAddr\<close>: afterwards the CPU faults on every byte of the page, and every address
  outside the window of the tables translates as before the mapping, the loader's alias apart.\<close>

theorem Map_Unmap_roundtrip:
  assumes "mem_ok s" and "pdx va \<noteq> self_idx" and "mmu_translate s va = None" and "pool_avail (ms_kpool s) \<noteq> {}"
  shows "\<exists>s' s''. VrAddr_MapToPhyAddr s va pa = Some s' \<and> VrAddr_Unmap s' va = Some s'' \<and> tables_ok s'' \<and>
    (\<forall>va'. pdx va' \<noteq> self_idx \<and> \<not> loader_alias (pdx va) (pdx va') \<longrightarrow>
       mmu_translate s'' va' = mmu_translate s va')"
proof (rule map_ok [OF assms(1-3), of pa])
  show "PageEntry_IsPresent (mmu_pde s va) \<or> pool_avail (ms_kpool s) \<noteq> {}" using assms(4) by simp
  fix s' assume m: "VrAddr_MapToPhyAddr s va pa = Some s'" "tables_ok s'"
    "\<And>va'. pdx va' \<noteq> self_idx \<Longrightarrow> (pdx va', ptx va') \<noteq> (pdx va, ptx va) \<Longrightarrow>
       \<not> loader_alias (pdx va) (pdx va') \<Longrightarrow> mmu_translate s' va' = mmu_translate s va'"
  show ?thesis
  proof (rule unmap_ok [OF m(2) assms(2)])
    fix s'' assume u: "VrAddr_Unmap s' va = Some s''" "tables_ok s''"
      "\<And>va'. (pdx va', ptx va') = (pdx va, ptx va) \<Longrightarrow> mmu_translate s'' va' = None"
      "\<And>va'. (pdx va', ptx va') \<noteq> (pdx va, ptx va) \<Longrightarrow> \<not> loader_alias (pdx va) (pdx va') \<Longrightarrow>
         mmu_translate s'' va' = mmu_translate s' va'"
    have "mmu_translate s'' va' = mmu_translate s va'"
      if "pdx va' \<noteq> self_idx" "\<not> loader_alias (pdx va) (pdx va')" for va'
    proof (cases "(pdx va', ptx va') = (pdx va, ptx va)")
      case True
      then have "mmu_translate s va' = None"
        using assms(3) by (auto simp: mmu_translate_def mmu_pte_def mmu_pde_dir split: if_splits)
      then show ?thesis using u(3) [OF True] by simp
    qed (use u(4) m(3) that in simp)
    then show ?thesis using m(1) u(1,2) by blast
  qed
qed

section \<open>A concrete memory\<close>

text \<open>A directory at 1 MB with nothing but its own entry, and pools of sixteen pages.\<close>

definition fresh_pool :: "u32 \<Rightarrow> page_pool" where
  "fresh_pool start = \<lparr>pl_start = start, pl_free = 16, pl_bitmap = \<lparr>bm_byte_len = 2, bm_bits = Some [0, 0]\<rparr>\<rparr>"

definition boot_mem :: memsys where
  "boot_mem = \<lparr>ms_cr3 = 0x100000, ms_mem = \<lambda>w. if w = 0x100FFC then 0x100003 else 0,
     ms_kpool = fresh_pool 0x200000, ms_upool = fresh_pool 0x210000, ms_kaddr = fresh_pool 0xC0100000, ms_uaddr = None\<rparr>"

lemma fresh_pool_used: "bm_used (pl_bitmap (fresh_pool start)) i = False"
  by (auto simp: bm_used_def fresh_pool_def less_2_cases_iff nth_Cons')

lemma fresh_pool_cap: "pool_cap (fresh_pool start) = 16"
  by (simp add: fresh_pool_def Bitmap_GetCapacity_def byte_len_def)

lemma fresh_pool_ok:
  "start \<noteq> 0 \<Longrightarrow> unat start mod page_size = 0 \<Longrightarrow> unat start + 0x10000 \<le> 2 ^ 32 \<Longrightarrow> pool_ok (fresh_pool start)"
  unfolding pool_ok_def fresh_pool_cap
  by (simp add: used_slots_card fresh_pool_used page_size_def) (simp add: fresh_pool_def bitmap_ok_def)

lemma fresh_pool_pages:
  assumes "pool_ok (fresh_pool start)" "a \<in> pool_pages (fresh_pool start)"
  shows "unat start \<le> unat a" "unat a < unat start + 0x10000"
proof -
  obtain i where i: "a = pool_page (fresh_pool start) i" "i < 16"
    using assms(2) by (auto simp: pool_pages_def pool_used_def pool_avail_def fresh_pool_used fresh_pool_cap)
  have "unat a = unat start + i * page_size"
    using unat_pool_page [OF assms(1), of i] i by (simp add: fresh_pool_cap) (simp add: fresh_pool_def)
  then show "unat start \<le> unat a" "unat a < unat start + 0x10000"
    using i(2) by (simp_all add: page_size_def)
qed

lemma boot_dir: "unat i < 1024 \<Longrightarrow> dir_entry boot_mem i = (if i = self_idx then 0x100003 else 0)"
proof -
  assume i: "unat i < 1024"
  have "PageEntry_GetAddress 0x100000 = 0x100000" by (rule aligned_GetAddress) (simp add: page_size_def)
  then have "(0x100FFC :: u32) = entry_at 0x100000 self_idx"
    by (simp add: entry_at_def self_idx_def page_dir_self_ref_def page_dir_count_def)
  then have "entry_at 0x100000 i = 0x100FFC \<longleftrightarrow> i = self_idx"
    using entry_at_eq_iff [OF i self_idx_bound, of "0x100000" "0x100000"] by simp
  then show ?thesis by (simp add: dir_entry_def boot_mem_def)
qed

lemma boot_entry: "PageEntry_IsPresent 0x100003" "PageEntry_GetAddress 0x100003 = 0x100000"
  "PageEntry_GetAddress 0x100000 = 0x100000"
  by (simp_all add: entry_defs IsBitSet_def GetBits_def)

lemma boot_table: "table_page boot_mem f \<longleftrightarrow> f = 0x100000"
  unfolding table_page_def by (auto simp: boot_dir boot_entry intro!: exI [of _ self_idx])

lemma boot_unmapped: "pdx va \<noteq> self_idx \<Longrightarrow> mmu_translate boot_mem va = None"
  by (simp add: mmu_translate_def mmu_pde_dir boot_dir)

lemma boot_mem_ok: "mem_ok boot_mem"
proof -
  have k: "pool_ok (fresh_pool 0x200000)" and u: "pool_ok (fresh_pool 0x210000)"
    by (rule fresh_pool_ok; simp add: page_size_def)+
  have "selfmap_ok boot_mem" by (simp add: selfmap_ok_def boot_dir boot_entry) (simp add: boot_mem_def boot_entry)
  then have "tables_ok boot_mem" by (auto simp: tables_ok_def boot_dir split: if_splits)
  moreover have "pool_pages (fresh_pool 0x200000) \<inter> pool_pages (fresh_pool 0x210000) = {}"
    using fresh_pool_pages [OF k] fresh_pool_pages [OF u] by fastforce
  moreover have "0x100000 \<notin> pool_pages (fresh_pool 0x200000) \<union> pool_pages (fresh_pool 0x210000)"
    using fresh_pool_pages(1) [OF k, of "0x100000"] fresh_pool_pages(1) [OF u, of "0x100000"] by auto
  then have "frames_ok boot_mem (pool_avail (fresh_pool 0x200000) \<union> pool_avail (fresh_pool 0x210000))"
    by (auto simp: frames_ok_def boot_table boot_unmapped pool_pages_def)
  ultimately show ?thesis using k u by (simp add: mem_ok_def) (simp add: boot_mem_def)
qed

lemma boot_pools: "pool_avail (ms_kpool boot_mem) \<noteq> {}"
  by (auto simp: boot_mem_def pool_avail_def fresh_pool_used fresh_pool_cap intro: exI [of _ 0])

lemma heap_idx: "pdx 0xC0100000 \<noteq> self_idx" "VrAddr_GetOffset 0xC0100123 = 0x123"
  "pdx 0xC0100123 = pdx 0xC0100000" "ptx 0xC0100123 = ptx 0xC0100000"
  by (simp_all add: vr_defs GetBits_def self_idx_def page_dir_self_ref_def page_dir_count_def)

theorem IsMapped_GetPhyAddr_walk_witness: "VrAddr_IsMapped boot_mem 0xC0100000 = Some False"
  using IsMapped_GetPhyAddr_walk [of boot_mem "0xC0100000"] boot_mem_ok boot_unmapped [OF heap_idx(1)]
  by (simp add: mem_ok_def tables_ok_def)

theorem MapToPhyAddr_maps_witness:
  "\<exists>s'. VrAddr_MapToPhyAddr boot_mem 0xC0100000 0x215000 = Some s' \<and> mmu_translate s' 0xC0100123 = Some 0x215123"
proof -
  have "PageEntry_GetAddress 0x215000 = 0x215000" by (rule aligned_GetAddress) (simp add: page_size_def)
  moreover obtain s' where "VrAddr_MapToPhyAddr boot_mem 0xC0100000 0x215000 = Some s'"
    "\<forall>va'. (pdx va', ptx va') = (pdx 0xC0100000, ptx 0xC0100000) \<longrightarrow>
       mmu_translate s' va' = Some (PageEntry_GetAddress 0x215000 + VrAddr_GetOffset va')"
    using MapToPhyAddr_maps [OF boot_mem_ok heap_idx(1) boot_unmapped [OF heap_idx(1)] boot_pools, of "0x215000"]
    by blast
  ultimately show ?thesis using heap_idx(2,3,4) by auto
qed

theorem Map_Unmap_roundtrip_witness:
  "\<exists>s' s''. VrAddr_MapToPhyAddr boot_mem 0xC0100000 0x215000 = Some s' \<and> VrAddr_Unmap s' 0xC0100000 = Some s'' \<and>
     mmu_translate s'' 0xC0100000 = None"
proof -
  have "\<not> loader_alias (pdx 0xC0100000) (pdx 0xC0100000)" by (auto simp: loader_alias_def krnl_dir_start)
  then show ?thesis
    using Map_Unmap_roundtrip [OF boot_mem_ok heap_idx(1) boot_unmapped [OF heap_idx(1)] boot_pools, of "0x215000"]
      boot_unmapped [OF heap_idx(1)] heap_idx(1) by metis
qed

end
