(* ===== verification/PageAlloc.thy ===== *)
theory PageAlloc
  imports Paging
begin

text \<open>
  Page allocation of \<^verbatim>\<open>src/kernel/memory/pool.cpp\<close>: \<^verbatim>\<open>InitMem\<close>, \<^verbatim>\<open>AllocPages\<close>, \<^verbatim>\<open>AllocPageAtAddr\<close> and
  \<^verbatim>\<open>FreePages\<close>, which join the virtual address pools, the physical page pools and the page tables. The
  address pool a function gets by reference is an argument and a result. The functions run
  with the mutex of the physical pool held. \<open>None\<close> is a failed assertion or a page fault, the address
  \<open>0\<close> is the null pointer the functions return when memory is short.
\<close>

section \<open>The pools of the system\<close>

datatype pool_type = KernelPool | UserPool

definition GetPhyMemPagePool :: "pool_type \<Rightarrow> memsys \<Rightarrow> page_pool" where
  "GetPhyMemPagePool type s = (if type = KernelPool then ms_kpool s else ms_upool s)"

definition set_phy_pool :: "pool_type \<Rightarrow> page_pool \<Rightarrow> memsys \<Rightarrow> memsys" where
  "set_phy_pool type p s = (if type = KernelPool then s\<lparr>ms_kpool := p\<rparr> else s\<lparr>ms_upool := p\<rparr>)"

definition GetVrAddrPool :: "pool_type \<Rightarrow> memsys \<Rightarrow> page_pool option" where
  "GetVrAddrPool type s = (if type = KernelPool then Some (ms_kaddr s) else ms_uaddr s)"

definition set_vr_pool :: "pool_type \<Rightarrow> page_pool \<Rightarrow> memsys \<Rightarrow> memsys" where
  "set_vr_pool type p s = (if type = KernelPool then s\<lparr>ms_kaddr := p\<rparr> else s\<lparr>ms_uaddr := Some p\<rparr>)"

definition IsKrnlMem :: "u32 \<Rightarrow> memsys \<Rightarrow> bool" where
  "IsKrnlMem phy_addr s \<longleftrightarrow> phy_addr < pl_start (ms_upool s)"

definition GetSrcMemPool_phy :: "u32 \<Rightarrow> memsys \<Rightarrow> pool_type" where
  "GetSrcMemPool_phy phy_addr s = (if IsKrnlMem phy_addr s then KernelPool else UserPool)"

definition GetSrcMemPool :: "u32 \<Rightarrow> memsys \<Rightarrow> pool_type option" where
  "GetSrcMemPool vr_addr s = do {
     phy_addr \<leftarrow> VrAddr_GetPhyAddr s vr_addr;
     Some (GetSrcMemPool_phy phy_addr s)
   }"

section \<open>Freeing pages\<close>

definition page_nr :: "u32 \<Rightarrow> nat \<Rightarrow> u32" where
  "page_nr base i = base + of_nat (i * page_size)"

text \<open>The loop of \<^verbatim>\<open>FreePages\<close> from page \<open>i\<close> on, with \<open>n\<close> pages left.\<close>

fun FreePages_loop :: "pool_type \<Rightarrow> u32 \<Rightarrow> nat \<Rightarrow> nat \<Rightarrow> memsys \<Rightarrow> memsys option" where
  "FreePages_loop type vr_base i 0 s = Some s"
| "FreePages_loop type vr_base i (Suc n) s = do {
     let vr_addr = page_nr vr_base i;
     phy_addr \<leftarrow> VrAddr_GetPhyAddr s vr_addr;
     Assert (phy_addr mod of_nat page_size = 0);
     p \<leftarrow> PhyMemPagePool_FreePages (GetPhyMemPagePool type s) phy_addr 1;
     s \<leftarrow> VrAddr_Unmap (set_phy_pool type p s) vr_addr;
     FreePages_loop type vr_base (Suc i) n s
   }"

definition FreePages_in :: "pool_type \<Rightarrow> page_pool \<Rightarrow> u32 \<Rightarrow> nat \<Rightarrow> memsys \<Rightarrow> (page_pool \<times> memsys) option" where
  "FreePages_in type addr_pool vr_base count s = do {
     Assert (vr_base \<noteq> 0 \<and> count > 0);
     s \<leftarrow> FreePages_loop type vr_base 0 count s;
     addr_pool \<leftarrow> VrAddrPool_FreePages addr_pool vr_base count;
     Some (addr_pool, s)
   }"

definition FreePages :: "u32 \<Rightarrow> nat \<Rightarrow> memsys \<Rightarrow> memsys option" where
  "FreePages vr_base count s = do {
     Assert (vr_base \<noteq> 0 \<and> count > 0);
     type \<leftarrow> GetSrcMemPool vr_base s;
     addr_pool \<leftarrow> GetVrAddrPool type s;
     (addr_pool, s) \<leftarrow> FreePages_in type addr_pool vr_base count s;
     Some (set_vr_pool type addr_pool s)
   }"

section \<open>Allocating pages\<close>

text \<open>The loop of \<^verbatim>\<open>AllocPages\<close> from page \<open>i\<close> on, with \<open>n\<close> pages left; the flag says that all pages were mapped.\<close>

fun AllocPages_loop ::
    "pool_type \<Rightarrow> page_pool \<Rightarrow> u32 \<Rightarrow> nat \<Rightarrow> nat \<Rightarrow> nat \<Rightarrow> memsys \<Rightarrow> (bool \<times> page_pool \<times> memsys) option" where
  "AllocPages_loop type addr_pool vr_base count i 0 s = Some (True, addr_pool, s)"
| "AllocPages_loop type addr_pool vr_base count i (Suc n) s = do {
     (phy_page, p) \<leftarrow> PhyMemPagePool_AllocPages (GetPhyMemPagePool type s) 1;
     let s = set_phy_pool type p s;
     if phy_page \<noteq> 0 then do {
       s \<leftarrow> VrAddr_MapToPhyAddr s (page_nr vr_base i) phy_page;
       AllocPages_loop type addr_pool vr_base count (Suc i) n s
     } else if i > 0 then do {
       (addr_pool, s) \<leftarrow> FreePages_in type addr_pool vr_base i s;
       addr_pool \<leftarrow> VrAddrPool_FreePages addr_pool (page_nr vr_base i) (count - i);
       Some (False, addr_pool, s)
     } else Some (False, addr_pool, s)
   }"

definition AllocPages_in :: "pool_type \<Rightarrow> page_pool \<Rightarrow> nat \<Rightarrow> memsys \<Rightarrow> (u32 \<times> page_pool \<times> memsys) option" where
  "AllocPages_in type addr_pool count s = do {
     (vr_base, addr_pool) \<leftarrow> VrAddrPool_AllocPages addr_pool count;
     if vr_base = 0 then Some (0, addr_pool, s)
     else do {
       (done, addr_pool, s) \<leftarrow> AllocPages_loop type addr_pool vr_base count 0 count s;
       if done then do {
         s \<leftarrow> mem_clear s vr_base (page_size * count div 4);
         Some (vr_base, addr_pool, s)
       } else Some (0, addr_pool, s)
     }
   }"

definition AllocPages :: "pool_type \<Rightarrow> nat \<Rightarrow> memsys \<Rightarrow> (u32 \<times> memsys) option" where
  "AllocPages type count s = do {
     Assert (count > 0);
     addr_pool \<leftarrow> GetVrAddrPool type s;
     (vr_base, addr_pool, s) \<leftarrow> AllocPages_in type addr_pool count s;
     Some (vr_base, set_vr_pool type addr_pool s)
   }"

definition AllocPageAtAddr_in :: "pool_type \<Rightarrow> page_pool \<Rightarrow> u32 \<Rightarrow> memsys \<Rightarrow> (u32 \<times> page_pool \<times> memsys) option" where
  "AllocPageAtAddr_in type addr_pool vr_addr s = do {
     mapped \<leftarrow> VrAddr_IsMapped s (AlignToPageBase vr_addr);
     Assert (\<not> mapped);
     (align_vr_addr, addr_pool) \<leftarrow> VrAddrPool_AllocPageAtAddr addr_pool vr_addr;
     (phy_page, p) \<leftarrow> PhyMemPagePool_AllocPages (GetPhyMemPagePool type s) 1;
     let s = set_phy_pool type p s;
     if phy_page \<noteq> 0 then do {
       s \<leftarrow> VrAddr_MapToPhyAddr s align_vr_addr phy_page;
       Some (align_vr_addr, addr_pool, s)
     } else Some (0, addr_pool, s)
   }"

definition AllocPageAtAddr :: "pool_type \<Rightarrow> u32 \<Rightarrow> memsys \<Rightarrow> (u32 \<times> memsys) option" where
  "AllocPageAtAddr type vr_addr s = do {
     addr_pool \<leftarrow> GetVrAddrPool type s;
     (addr, addr_pool, s) \<leftarrow> AllocPageAtAddr_in type addr_pool vr_addr s;
     Some (addr, set_vr_pool type addr_pool s)
   }"

section \<open>Initialisation\<close>

definition bitmap_base :: u32 where "bitmap_base = krnl_base + 0x9A000"
definition krnl_heap_base :: u32 where "krnl_heap_base = krnl_base + 0x100000"

text \<open>The buffer of a bitmap: the bytes of the memory from an address on.\<close>

definition byte_buf :: "(u32 \<Rightarrow> u8) \<Rightarrow> u32 \<Rightarrow> nat \<Rightarrow> u8 list" where
  "byte_buf bytes addr len = map (\<lambda>i. bytes (addr + of_nat i)) [0..<len]"

definition InitMem :: "u32 \<Rightarrow> (u32 \<Rightarrow> u8) \<Rightarrow> memsys \<Rightarrow> memsys option" where
  "InitMem total_mem_size bytes s = do {
     Assert (total_mem_size > 0);
     let page_dir_size = (of_nat page_size :: u32);
     let krnl_page_tab_size = of_nat page_size * of_nat krnl_page_dir_count;
     let used_mem_size = page_dir_size + krnl_page_tab_size + krnl_size;
     let free_mem_size = total_mem_size - used_mem_size;
     let free_page_count = free_mem_size div of_nat page_size;
     let krnl_free_page_count = free_page_count div 2;
     let usr_free_page_count = free_page_count - krnl_free_page_count;
     let krnl_mem_size = krnl_free_page_count * of_nat page_size;
     let krnl_mem_base = used_mem_size;
     let usr_mem_base = krnl_mem_base + krnl_mem_size;
     let krnl_bitmap_len = krnl_free_page_count div of_nat byte_len;
     let usr_bitmap_len = usr_free_page_count div of_nat byte_len;
     let krnl_bitmap_base = bitmap_base;
     let usr_bitmap_base = krnl_bitmap_base + krnl_bitmap_len;
     bm \<leftarrow> Bitmap_Init (Some (byte_buf bytes krnl_bitmap_base (unat krnl_bitmap_len))) (unat krnl_bitmap_len) True;
     krnl_mem_pool \<leftarrow> PhyMemPagePool_Init krnl_mem_base bm;
     bm \<leftarrow> Bitmap_Init (Some (byte_buf bytes usr_bitmap_base (unat usr_bitmap_len))) (unat usr_bitmap_len) True;
     usr_mem_pool \<leftarrow> PhyMemPagePool_Init usr_mem_base bm;
     bm \<leftarrow> Bitmap_Init (Some (byte_buf bytes (usr_bitmap_base + usr_bitmap_len) (unat krnl_bitmap_len)))
             (unat krnl_bitmap_len) True;
     let krnl_addr_pool = VrAddrPool_Init krnl_heap_base bm;
     Some (s\<lparr>ms_kpool := krnl_mem_pool, ms_upool := usr_mem_pool, ms_kaddr := krnl_addr_pool\<rparr>)
   }"

section \<open>Invariant of an address space\<close>

text \<open>
  \<open>M\<close> are the mapped pages of a pool, \<open>U\<close> the unmapped ones. Mapped pages have different physical pages, all
  taken from the pool \<open>t\<close>; none of them is a table, and nothing but the entry of the page refers to it.
\<close>

definition sole_entry :: "memsys \<Rightarrow> u32 \<Rightarrow> u32 \<Rightarrow> bool" where
  "sole_entry s a f \<longleftrightarrow> (\<forall>va pa. pdx va \<noteq> self_idx \<and> mmu_translate s va = Some pa \<and> PageEntry_GetAddress pa = f \<longrightarrow>
     pte_word s va = pte_word s a)"

definition holds_page :: "pool_type \<Rightarrow> memsys \<Rightarrow> u32 \<Rightarrow> u32 \<Rightarrow> bool" where
  "holds_page t s a f \<longleftrightarrow> f \<in> pool_used (GetPhyMemPagePool t s) \<and> mmu_translate s a = Some f \<and>
     \<not> table_page s f \<and> sole_entry s a f"

definition heap_page :: "u32 \<Rightarrow> bool" where
  "heap_page a \<longleftrightarrow> VrAddr_GetOffset a = 0 \<and> pdx a \<noteq> self_idx \<and> pdx a \<noteq> 0"

definition space :: "pool_type \<Rightarrow> memsys \<Rightarrow> u32 set \<Rightarrow> u32 set \<Rightarrow> bool" where
  "space t s M U \<longleftrightarrow> mem_ok s \<and> (\<forall>a \<in> M \<union> U. heap_page a) \<and> M \<inter> U = {} \<and>
     (\<forall>a \<in> U. mmu_translate s a = None) \<and>
     (\<forall>a \<in> M. \<exists>f. holds_page t s a f) \<and> inj_on (mmu_translate s) M"

definition same_page :: "u32 \<Rightarrow> u32 \<Rightarrow> bool" where
  "same_page a b \<longleftrightarrow> (pdx a, ptx a) = (pdx b, ptx b)"

lemma same_page_eq:
  assumes "VrAddr_GetOffset a = 0" "VrAddr_GetOffset b = 0" "same_page a b"
  shows "a = b"
proof (rule bit_word_eqI)
  fix n assume "n < LENGTH(32)"
  then have n: "n < 32" by simp
  have "bit (VrAddr_GetOffset a) n = bit (VrAddr_GetOffset b) n" "bit (pdx a) (n - 22) = bit (pdx b) (n - 22)"
    "bit (ptx a) (n - 12) = bit (ptx b) (n - 12)"
    using assms by (simp_all add: same_page_def)
  then show "bit a n = bit b n" using n by (auto simp: vr_defs bits_simps split: if_splits)
qed

lemma heap_not_alias: "pdx a \<noteq> 0 \<Longrightarrow> pdx b \<noteq> 0 \<Longrightarrow> \<not> loader_alias (pdx a) (pdx b)"
  by (auto simp: loader_alias_def doubleton_eq_iff)

lemma set_phy_pool_fields [simp]:
  "dir_entry (set_phy_pool t p s) = dir_entry s" "mmu_pde (set_phy_pool t p s) = mmu_pde s"
  "mmu_translate (set_phy_pool t p s) = mmu_translate s" "tables_ok (set_phy_pool t p s) = tables_ok s"
  "table_page (set_phy_pool t p s) = table_page s" "ms_mem (set_phy_pool t p s) = ms_mem s"
  "GetPhyMemPagePool t (set_phy_pool t p s) = p" "ms_kaddr (set_phy_pool t p s) = ms_kaddr s"
  "ms_uaddr (set_phy_pool t p s) = ms_uaddr s"
  "t \<noteq> t' \<Longrightarrow> GetPhyMemPagePool t' (set_phy_pool t p s) = GetPhyMemPagePool t' s"
  by (cases t; cases t'; simp add: set_phy_pool_def GetPhyMemPagePool_def)+

lemma set_phy_pool_cr3: "ms_cr3 (set_phy_pool t p s) = ms_cr3 s"
  by (simp add: set_phy_pool_def)

lemma mem_ok_pools:
  "mem_ok s \<longleftrightarrow> tables_ok s \<and> (\<forall>t. pool_ok (GetPhyMemPagePool t s)) \<and>
     pool_pages (GetPhyMemPagePool KernelPool s) \<inter> pool_pages (GetPhyMemPagePool UserPool s) = {} \<and>
     frames_ok s (\<Union>t. pool_avail (GetPhyMemPagePool t s))"
proof -
  have "(\<Union>t. pool_avail (GetPhyMemPagePool t s)) = pool_avail (ms_kpool s) \<union> pool_avail (ms_upool s)"
  proof -
    have u: "(UNIV :: pool_type set) = {KernelPool, UserPool}" using pool_type.exhaust by auto
    show ?thesis unfolding u by (simp add: GetPhyMemPagePool_def)
  qed
  moreover have "(\<forall>t. pool_ok (GetPhyMemPagePool t s)) \<longleftrightarrow> pool_ok (ms_kpool s) \<and> pool_ok (ms_upool s)"
    using pool_type.exhaust by (auto simp: GetPhyMemPagePool_def split: if_splits)
  ultimately show ?thesis by (simp add: mem_ok_def GetPhyMemPagePool_def)
qed

text \<open>Taking a page from a pool keeps the invariant of the memory, and the page is neither a table nor mapped.\<close>

lemma mem_ok_take:
  assumes ok: "mem_ok s"
    and al: "PhyMemPagePool_AllocPages (GetPhyMemPagePool t s) 1 = Some (f, p)" "f \<noteq> 0"
  shows "mem_ok (set_phy_pool t p s)" "f \<in> pool_avail (GetPhyMemPagePool t s)"
    "pool_avail p = pool_avail (GetPhyMemPagePool t s) - {f}" "pool_used p = insert f (pool_used (GetPhyMemPagePool t s))"
    "PageEntry_GetAddress f = f" "\<not> table_page s f"
    "\<And>t'. f \<notin> pool_avail (GetPhyMemPagePool t' (set_phy_pool t p s))"
proof -
  have po: "pool_ok (GetPhyMemPagePool t s)" using ok by (simp add: mem_ok_pools)
  note a = pp.alloc_some [OF po _ al]
  show f: "f \<in> pool_avail (GetPhyMemPagePool t s)"
    and av: "pool_avail p = pool_avail (GetPhyMemPagePool t s) - {f}"
    and us: "pool_used p = insert f (pool_used (GetPhyMemPagePool t s))"
    using a by auto
  show "PageEntry_GetAddress f = f" using pp.aligned [OF po, of f] f by (intro aligned_GetAddress) simp
  have fr: "frames_ok s (\<Union>t. pool_avail (GetPhyMemPagePool t s))" using ok by (simp add: mem_ok_pools)
  then show "\<not> table_page s f" using f by (auto simp: frames_ok_def)
  have pages: "pool_pages p = pool_pages (GetPhyMemPagePool t s)" using f av us by (auto simp: pool_pages_def)
  have sub: "pool_avail (GetPhyMemPagePool t' (set_phy_pool t p s)) \<subseteq> pool_avail (GetPhyMemPagePool t' s)" for t'
    using av by (cases "t' = t") auto
  have fr': "frames_ok (set_phy_pool t p s) (\<Union>t'. pool_avail (GetPhyMemPagePool t' (set_phy_pool t p s)))"
    using fr sub unfolding frames_ok_def by simp blast
  have "pool_ok (GetPhyMemPagePool t' (set_phy_pool t p s))" for t'
    using a ok by (cases "t' = t") (auto simp: mem_ok_pools)
  with fr' show "mem_ok (set_phy_pool t p s)"
    using ok pages unfolding mem_ok_pools by (cases t) simp_all
  show "f \<notin> pool_avail (GetPhyMemPagePool t' (set_phy_pool t p s))" for t'
    using ok av f by (cases "t' = t"; cases t; cases t') (auto simp: mem_ok_pools pool_pages_def)
qed

lemma GetAddress_offset:
  assumes "PageEntry_GetAddress f = f"
  shows "PageEntry_GetAddress (f + VrAddr_GetOffset va) = f"
proof -
  have "VrAddr_GetOffset f = 0"
    using GetPageAddr_fields(1) [of f] GetPageAddr_fields(4) [of f] assms by simp
  then have "VrAddr_GetPageAddr (f + VrAddr_GetOffset va) = f"
    using page_add_fields(3) [of f "VrAddr_GetOffset va"] by (simp add: VrAddr_GetPageAddr_def)
  then show ?thesis by (simp add: GetPageAddr_fields(4))
qed

text \<open>What a state after a mapping must satisfy to keep the invariant of the memory.\<close>

lemma mem_ok_step:
  assumes ok: "mem_ok s" and t: "tables_ok s'" and p: "\<And>t. pool_ok (GetPhyMemPagePool t s')"
    and sub: "\<And>t. pool_avail (GetPhyMemPagePool t s') \<subseteq> pool_avail (GetPhyMemPagePool t s)"
    and pg: "\<And>t. pool_pages (GetPhyMemPagePool t s') = pool_pages (GetPhyMemPagePool t s)"
    and tab: "\<And>g. table_page s' g \<Longrightarrow> table_page s g \<or> g \<in> pool_avail (ms_kpool s) - pool_avail (ms_kpool s')"
    and tr: "\<And>va. pdx va \<noteq> self_idx \<Longrightarrow> mmu_translate s' va = mmu_translate s va \<or>
       mmu_translate s' va = Some (f + VrAddr_GetOffset va)"
    and f: "PageEntry_GetAddress f = f" "\<And>t. f \<notin> pool_avail (GetPhyMemPagePool t s)"
  shows "mem_ok s'"
proof -
  have dj: "pool_pages (ms_kpool s) \<inter> pool_pages (ms_upool s) = {}"
    and fr: "\<And>g t. g \<in> pool_avail (GetPhyMemPagePool t s) \<Longrightarrow> \<not> table_page s g"
      "\<And>va pa t. pdx va \<noteq> self_idx \<Longrightarrow> mmu_translate s va = Some pa \<Longrightarrow>
         PageEntry_GetAddress pa \<notin> pool_avail (GetPhyMemPagePool t s)"
    using ok by (auto simp: mem_ok_pools frames_ok_def GetPhyMemPagePool_def)
  have "\<not> table_page s' g" if g: "g \<in> pool_avail (GetPhyMemPagePool t s')" for g t
  proof
    assume "table_page s' g"
    then have "g \<in> pool_avail (ms_kpool s) - pool_avail (ms_kpool s')" using tab fr(1) sub g by blast
    then show False
      using g sub [of t] dj by (cases t) (auto simp: GetPhyMemPagePool_def pool_pages_def)
  qed
  moreover have "PageEntry_GetAddress pa \<notin> pool_avail (GetPhyMemPagePool t s')"
    if "pdx va \<noteq> self_idx" "mmu_translate s' va = Some pa" for va pa t
    using tr [OF that(1)] that fr(2) [OF that(1)] sub [of t] f(2) [of t] GetAddress_offset [OF f(1), of va] by auto
  ultimately have "frames_ok s' (\<Union>t. pool_avail (GetPhyMemPagePool t s'))"
    unfolding frames_ok_def by blast
  then show ?thesis using t p pg ok by (auto simp: mem_ok_pools)
qed

lemma used_not_avail:
  assumes "mem_ok s" "g \<in> pool_used (GetPhyMemPagePool t s)"
  shows "g \<notin> pool_avail (GetPhyMemPagePool t' s)"
proof (cases "t' = t")
  case True
  then show ?thesis using assms pool_used_avail [of "GetPhyMemPagePool t s"] by (auto simp: mem_ok_pools)
next
  case False
  then show ?thesis using assms by (cases t; cases t') (auto simp: mem_ok_pools pool_pages_def)
qed

lemma translate_present: "mmu_translate s va = Some pa \<Longrightarrow> PageEntry_IsPresent (mmu_pde s va)"
  by (simp add: mmu_translate_def split: if_splits)

text \<open>A page keeps its physical page when another one is mapped, and a new page is the only one to refer to its own.\<close>

lemma holds_page_keep:
  assumes h: "holds_page t s b g" and u: "g \<in> pool_used (GetPhyMemPagePool t s')" "\<not> table_page s' g"
    and b: "mmu_translate s' b = mmu_translate s b"
    and tr: "\<And>va. pdx va \<noteq> self_idx \<Longrightarrow> mmu_translate s' va = mmu_translate s va \<or>
       mmu_translate s' va = Some (f + VrAddr_GetOffset va)"
    and f: "PageEntry_GetAddress f = f" "f \<noteq> g"
    and pde: "\<And>va. PageEntry_IsPresent (mmu_pde s va) \<Longrightarrow> mmu_pde s' va = mmu_pde s va"
  shows "holds_page t s' b g"
proof -
  have "pte_word s' va = pte_word s' b"
    if va: "pdx va \<noteq> self_idx" "mmu_translate s' va = Some pa" "PageEntry_GetAddress pa = g" for va pa
  proof -
    have "mmu_translate s va = Some pa"
      using tr [OF va(1)] va(2,3) GetAddress_offset [OF f(1), of va] f(2) by auto
    then have "pte_word s va = pte_word s b" "mmu_pde s' va = mmu_pde s va"
      using h va pde translate_present by (auto simp: holds_page_def sole_entry_def)
    moreover have "mmu_pde s' b = mmu_pde s b" using h pde translate_present by (auto simp: holds_page_def)
    ultimately show ?thesis by (simp add: pte_word_def)
  qed
  then show ?thesis using h u b by (simp add: holds_page_def sole_entry_def)
qed

lemma holds_page_new:
  assumes "mmu_translate s' a = Some f" "f \<in> pool_used (GetPhyMemPagePool t s')" "\<not> table_page s' f"
    and "mem_ok s" "f \<in> pool_avail (GetPhyMemPagePool t s)"
    and "\<And>va. pdx va \<noteq> self_idx \<Longrightarrow> mmu_translate s' va = mmu_translate s va \<or> pte_word s' va = pte_word s' a"
  shows "holds_page t s' a f"
proof -
  have "PageEntry_GetAddress pa \<noteq> f" if "pdx va \<noteq> self_idx" "mmu_translate s va = Some pa" for va pa
    using assms(4,5) that by (auto simp: mem_ok_pools frames_ok_def)
  then show ?thesis using assms(1-3,6) unfolding holds_page_def sole_entry_def by metis
qed

text \<open>Mapping an unmapped page of the space to a page just taken from the pool.\<close>

text \<open>A new page in an address space: the other pages translate as before and keep their frames.\<close>

lemma space_insert:
  assumes sp: "space t s M U" and a: "a \<in> U" and ok': "mem_ok s'" and new: "holds_page t s' a f"
    and oth: "\<And>b. b \<in> M \<union> U \<Longrightarrow> b \<noteq> a \<Longrightarrow> mmu_translate s' b = mmu_translate s b"
    and keep: "\<And>b g. b \<in> M \<Longrightarrow> holds_page t s b g \<Longrightarrow> g \<noteq> f \<and> holds_page t s' b g"
  shows "space t s' (insert a M) (U - {a})"
proof -
  have aM: "a \<notin> M" using sp a by (auto simp: space_def)
  have ta: "mmu_translate s' a = Some f" using new by (simp add: holds_page_def)
  have hp: "\<exists>g. holds_page t s b g" if "b \<in> M" for b using sp that unfolding space_def by blast
  have fresh: "mmu_translate s' b \<noteq> Some f" if b: "b \<in> M" for b
    using hp [OF b] keep [OF b] by (auto simp: holds_page_def)
  have "inj_on (mmu_translate s') M \<longleftrightarrow> inj_on (mmu_translate s) M"
    using oth aM by (intro inj_on_cong) auto
  moreover have "Some f \<notin> mmu_translate s' ` M" using fresh by fastforce
  ultimately have inj: "inj_on (mmu_translate s') (insert a M)"
    using sp ta aM by (simp add: space_def inj_on_insert)
  have "\<exists>g. holds_page t s' b g" if "b \<in> insert a M" for b
  proof (cases "b = a")
    case False
    then show ?thesis using that hp keep by blast
  qed (use new in blast)
  moreover have "\<forall>b \<in> U - {a}. mmu_translate s' b = None" using sp oth by (simp add: space_def)
  moreover have "\<forall>x \<in> insert a M \<union> (U - {a}). heap_page x" "insert a M \<inter> (U - {a}) = {}"
    using sp a unfolding space_def by blast+
  ultimately show ?thesis using ok' inj unfolding space_def by blast
qed

lemma space_map:
  assumes sp: "space t s M U" and a: "a \<in> U"
    and al: "PhyMemPagePool_AllocPages (GetPhyMemPagePool t s) 1 = Some (f, p)" "f \<noteq> 0"
    and av: "pool_avail (ms_kpool (set_phy_pool t p s)) \<noteq> {}"
  obtains s' where "VrAddr_MapToPhyAddr (set_phy_pool t p s) a f = Some s'" "space t s' (insert a M) (U - {a})"
    "mmu_translate s' a = Some f"
    "\<And>b. pdx b \<noteq> self_idx \<Longrightarrow> pdx b \<noteq> 0 \<Longrightarrow> \<not> same_page b a \<Longrightarrow> mmu_translate s' b = mmu_translate s b"
    "\<And>w. \<not> table_word s' w \<Longrightarrow> ms_mem s' w = ms_mem s w" "\<And>g. table_page s g \<Longrightarrow> table_page s' g"
    "\<And>g. table_page s' g \<Longrightarrow> table_page s g \<or> g \<in> pool_avail (ms_kpool (set_phy_pool t p s))"
    "ms_kaddr s' = ms_kaddr s" "ms_uaddr s' = ms_uaddr s"
    "\<And>t'. pool_avail (GetPhyMemPagePool t' s') \<subseteq> pool_avail (GetPhyMemPagePool t' (set_phy_pool t p s))"
    "\<And>t'. pool_pages (GetPhyMemPagePool t' s') = pool_pages (GetPhyMemPagePool t' s)"
    "card (pool_avail (ms_kpool (set_phy_pool t p s))) \<le> Suc (card (pool_avail (ms_kpool s')))"
    "ms_upool s' = ms_upool (set_phy_pool t p s)" "ms_cr3 s' = ms_cr3 s"
    "\<And>i. unat i < 1024 \<Longrightarrow> i \<noteq> pdx a \<Longrightarrow> dir_entry s' i = dir_entry s i"
proof -
  have ok: "mem_ok s" and hp: "heap_page a" and un: "mmu_translate s a = None"
    using sp a by (auto simp: space_def)
  note tk = mem_ok_take [OF ok al]
  let ?s1 = "set_phy_pool t p s"
  have pa: "pdx a \<noteq> self_idx" using hp by (simp add: heap_page_def)
  show thesis
  proof (rule map_ok [OF tk(1) pa, of f])
    show "mmu_translate ?s1 a = None" "PageEntry_IsPresent (mmu_pde ?s1 a) \<or> pool_avail (ms_kpool ?s1) \<noteq> {}"
      using un av by simp_all
    fix s' assume m: "VrAddr_MapToPhyAddr ?s1 a f = Some s'" "tables_ok s'"
      "\<And>va'. (pdx va', ptx va') = (pdx a, ptx a) \<Longrightarrow>
         mmu_translate s' va' = Some (PageEntry_GetAddress f + VrAddr_GetOffset va')"
      "\<And>va'. pdx va' \<noteq> self_idx \<Longrightarrow> (pdx va', ptx va') \<noteq> (pdx a, ptx a) \<Longrightarrow>
         \<not> loader_alias (pdx a) (pdx va') \<Longrightarrow> mmu_translate s' va' = mmu_translate ?s1 va'"
      "\<And>va'. pdx va' \<noteq> self_idx \<Longrightarrow> mmu_translate s' va' = mmu_translate ?s1 va' \<or>
         mmu_translate s' va' = Some (PageEntry_GetAddress f + VrAddr_GetOffset va')"
      "ms_upool s' = ms_upool ?s1" "ms_kaddr s' = ms_kaddr ?s1" "ms_uaddr s' = ms_uaddr ?s1"
      "pool_ok (ms_kpool s')" "pool_avail (ms_kpool s') \<subseteq> pool_avail (ms_kpool ?s1)"
      "pool_pages (ms_kpool s') = pool_pages (ms_kpool ?s1)"
      "card (pool_avail (ms_kpool ?s1)) \<le> Suc (card (pool_avail (ms_kpool s')))"
      "\<And>f. table_page s' f \<Longrightarrow> table_page ?s1 f \<or> f \<in> pool_avail (ms_kpool ?s1) - pool_avail (ms_kpool s')"
      "\<And>w. \<not> table_word s' w \<Longrightarrow> ms_mem s' w = ms_mem ?s1 w" "\<And>f. table_page ?s1 f \<Longrightarrow> table_page s' f"
      "\<And>va'. PageEntry_IsPresent (mmu_pde ?s1 va') \<Longrightarrow> mmu_pde s' va' = mmu_pde ?s1 va'"
      "\<And>va'. pdx va' \<noteq> self_idx \<Longrightarrow> mmu_translate s' va' = mmu_translate ?s1 va' \<or> pte_word s' va' = pte_word s' a"
      "ms_cr3 s' = ms_cr3 ?s1" "\<And>i. unat i < 1024 \<Longrightarrow> i \<noteq> pdx a \<Longrightarrow> dir_entry s' i = dir_entry ?s1 i"
    have sub: "pool_avail (GetPhyMemPagePool t' s') \<subseteq> pool_avail (GetPhyMemPagePool t' ?s1)"
      and pg1: "pool_pages (GetPhyMemPagePool t' s') = pool_pages (GetPhyMemPagePool t' ?s1)"
      and po: "pool_ok (GetPhyMemPagePool t' s')" for t'
      using m(6,9,10,11) tk(1) by (auto simp: GetPhyMemPagePool_def mem_ok_def)
    have ok': "mem_ok s'"
      using mem_ok_step [OF tk(1) m(2) po sub pg1 m(13), of f] m(5) tk(5,7) by simp
    have pg: "pool_pages (GetPhyMemPagePool t' s') = pool_pages (GetPhyMemPagePool t' s)" for t'
      using pg1 tk(2-4) by (cases "t' = t") (auto simp: pool_pages_def)
    have used: "insert f (pool_used (GetPhyMemPagePool t s)) \<subseteq> pool_used (GetPhyMemPagePool t s')"
    proof
      fix g assume "g \<in> insert f (pool_used (GetPhyMemPagePool t s))"
      then have "g \<in> pool_used p" using tk(4) by simp
      moreover have "pool_ok p" using tk(1) set_phy_pool_fields(7) unfolding mem_ok_pools by metis
      then have "pool_used p \<inter> pool_avail p = {}" by (rule pool_used_avail)
      ultimately show "g \<in> pool_used (GetPhyMemPagePool t s')"
        using pg1 [of t] sub [of t] by (auto simp: pool_pages_def)
    qed
    have ta: "mmu_translate s' a = Some f" using m(3) [of a] tk(5) hp by (simp add: heap_page_def)
    have other: "mmu_translate s' b = mmu_translate s b"
      if "pdx b \<noteq> self_idx" "pdx b \<noteq> 0" "\<not> same_page b a" for b
      using m(4) [of b] that hp heap_not_alias [of a b] by (simp add: same_page_def heap_page_def)
    have oth: "mmu_translate s' b = mmu_translate s b" if "b \<in> M \<union> U" "b \<noteq> a" for b
      using other [of b] same_page_eq [of b a] sp that hp by (auto simp: space_def heap_page_def)
    have own: "g \<noteq> f \<and> \<not> table_page s' g" if h: "holds_page t s b g" for b g
    proof -
      have "g \<in> pool_used (GetPhyMemPagePool t s)" using h by (simp add: holds_page_def)
      then have g: "g \<notin> pool_avail (GetPhyMemPagePool t' s)" for t' using ok used_not_avail by blast
      then have "g \<noteq> f" using tk(2) by blast
      moreover have "pool_avail (ms_kpool ?s1) \<subseteq> pool_avail (ms_kpool s)"
        using tk(3) by (cases t) (auto simp: set_phy_pool_def GetPhyMemPagePool_def)
      then have "\<not> table_page s' g" using m(13) [of g] h g [of KernelPool]
        by (auto simp: holds_page_def GetPhyMemPagePool_def)
      ultimately show ?thesis by blast
    qed
    have ntf: "\<not> table_page s' f" using m(13) [of f] tk(6) tk(7) [of KernelPool] by (auto simp: GetPhyMemPagePool_def)
    have new: "holds_page t s' a f" using holds_page_new [OF ta _ ntf ok tk(2)] m(17) used by auto
    have keep: "g \<noteq> f \<and> holds_page t s' b g" if b: "b \<in> M" and g: "holds_page t s b g" for b g
    proof -
      have "b \<noteq> a" using sp a b by (auto simp: space_def)
      then have "mmu_translate s' b = mmu_translate s b" using oth [of b] b by simp
      moreover have "g \<in> pool_used (GetPhyMemPagePool t s')" using g used by (auto simp: holds_page_def)
      ultimately show ?thesis using holds_page_keep [OF g, of s' f] own [OF g] m(5,16) tk(5) by auto
    qed
    have "space t s' (insert a M) (U - {a})" by (rule space_insert [OF sp a ok' new oth keep])
    from that [OF m(1) this ta other] show thesis
      using m(6-12,13,14,15,18,19) sub pg by (simp add: set_phy_pool_cr3) blast
  qed
qed

text \<open>Physical pages that suffice for \<open>n\<close> pages: each may need a table from the kernel pool.\<close>

definition enough :: "pool_type \<Rightarrow> nat \<Rightarrow> memsys \<Rightarrow> bool" where
  "enough t n s \<longleftrightarrow> (if t = KernelPool then 2 * n \<le> pl_free (ms_kpool s)
     else n \<le> pl_free (ms_kpool s) \<and> n \<le> pl_free (ms_upool s))"

lemma enough_card:
  assumes "mem_ok s"
  shows "enough t n s \<longleftrightarrow> (if t = KernelPool then 2 * n \<le> card (pool_avail (ms_kpool s))
     else n \<le> card (pool_avail (ms_kpool s)) \<and> n \<le> card (pool_avail (ms_upool s)))"
  using assms by (simp add: enough_def card_pool_avail mem_ok_def)

lemma enough_step:
  assumes ok: "mem_ok s" and en: "enough t (Suc n) s"
  obtains f p where "PhyMemPagePool_AllocPages (GetPhyMemPagePool t s) 1 = Some (f, p)" "f \<noteq> 0"
    "pool_avail (ms_kpool (set_phy_pool t p s)) \<noteq> {}"
    "\<And>s'. mem_ok s' \<Longrightarrow> ms_upool s' = ms_upool (set_phy_pool t p s) \<Longrightarrow>
       card (pool_avail (ms_kpool (set_phy_pool t p s))) \<le> Suc (card (pool_avail (ms_kpool s'))) \<Longrightarrow> enough t n s'"
proof -
  have po: "pool_ok (GetPhyMemPagePool t s)" using ok by (simp add: mem_ok_pools)
  have ne: "pool_avail (GetPhyMemPagePool t s) \<noteq> {}"
    using en enough_card [OF ok, of t "Suc n"] by (cases t) (auto simp: GetPhyMemPagePool_def)
  obtain f p where f: "PhyMemPagePool_AllocPages (GetPhyMemPagePool t s) 1 = Some (f, p)" "f \<noteq> 0"
    using pp.alloc_one_cases [OF po] ne by metis
  note tk = mem_ok_take [OF ok f]
  have "card (pool_avail p) = card (pool_avail (GetPhyMemPagePool t s)) - 1"
    using tk(2,3) card_pool_avail(2) [OF po] by simp
  then have c: "if t = KernelPool then 2 * n < card (pool_avail (ms_kpool (set_phy_pool t p s)))
      else n < card (pool_avail (ms_kpool (set_phy_pool t p s))) \<and> n \<le> card (pool_avail (ms_upool (set_phy_pool t p s)))"
    using en enough_card [OF ok, of t "Suc n"] by (cases t) (auto simp: GetPhyMemPagePool_def set_phy_pool_def)
  show thesis
  proof (rule that [OF f])
    show "pool_avail (ms_kpool (set_phy_pool t p s)) \<noteq> {}" using c by (auto split: if_splits)
    show "enough t n s'" if "mem_ok s'" "ms_upool s' = ms_upool (set_phy_pool t p s)"
       "card (pool_avail (ms_kpool (set_phy_pool t p s))) \<le> Suc (card (pool_avail (ms_kpool s')))" for s'
      using c that enough_card [OF that(1), of t n] by (auto split: if_splits)
  qed
qed

text \<open>
  What a part of \<^verbatim>\<open>AllocPages\<close> that maps the pages \<open>A\<close> does: they are mapped to pages that were available
  and are no tables, the rest of the space is as before, and only tables are written.
\<close>

definition grown :: "pool_type \<Rightarrow> memsys \<Rightarrow> memsys \<Rightarrow> u32 set \<Rightarrow> bool" where
  "grown t s s' A \<longleftrightarrow>
    (\<forall>a \<in> A. \<exists>f. f \<in> pool_avail (GetPhyMemPagePool t s) \<and> mmu_translate s' a = Some f \<and> \<not> table_page s' f) \<and>
    (\<forall>b. pdx b \<noteq> self_idx \<and> pdx b \<noteq> 0 \<and> (\<forall>a \<in> A. \<not> same_page b a) \<longrightarrow> mmu_translate s' b = mmu_translate s b) \<and>
    (\<forall>w. \<not> table_word s' w \<longrightarrow> ms_mem s' w = ms_mem s w) \<and>
    (\<forall>g. table_page s' g \<longrightarrow> table_page s g \<or> g \<in> pool_avail (ms_kpool s)) \<and>
    (\<forall>g. table_page s g \<longrightarrow> table_page s' g) \<and>
    (\<forall>t'. pool_avail (GetPhyMemPagePool t' s') \<subseteq> pool_avail (GetPhyMemPagePool t' s)) \<and>
    ms_kaddr s' = ms_kaddr s \<and> ms_uaddr s' = ms_uaddr s"

lemma grown_refl: "grown t s s {}"
  by (simp add: grown_def)

lemma grown_step:
  assumes g1: "grown t s s1 {a}" and g2: "grown t s1 s2 A" and a: "heap_page a" "\<forall>b \<in> A. \<not> same_page a b"
    and f: "mmu_translate s1 a = Some f" "f \<notin> pool_avail (ms_kpool s1)"
  shows "grown t s s2 (insert a A)"
proof -
  have k: "pool_avail (GetPhyMemPagePool t' s1) \<subseteq> pool_avail (GetPhyMemPagePool t' s)" for t'
    using g1 by (simp add: grown_def)
  have "mmu_translate s2 a = mmu_translate s1 a" using g2 a by (simp add: grown_def heap_page_def)
  moreover have "f \<in> pool_avail (GetPhyMemPagePool t s)" "\<not> table_page s1 f"
    using g1 f(1) by (auto simp: grown_def)
  moreover from this have "\<not> table_page s2 f" using g2 f(2) by (auto simp: grown_def)
  ultimately have a2: "\<exists>f. f \<in> pool_avail (GetPhyMemPagePool t s) \<and> mmu_translate s2 a = Some f \<and> \<not> table_page s2 f"
    using f(1) by auto
  have A2: "\<exists>f. f \<in> pool_avail (GetPhyMemPagePool t s) \<and> mmu_translate s2 b = Some f \<and> \<not> table_page s2 f"
    if "b \<in> A" for b
    using that g2 k [of t] unfolding grown_def by (meson subsetD)
  have old: "mmu_translate s2 b = mmu_translate s b"
    if "pdx b \<noteq> self_idx" "pdx b \<noteq> 0" "\<forall>c \<in> insert a A. \<not> same_page b c" for b
    using that g1 g2 by (simp add: grown_def)
  have w: "ms_mem s2 w = ms_mem s w" if "\<not> table_word s2 w" for w
    using that g1 g2 unfolding grown_def table_word_def by metis
  have t1: "table_page s g \<or> g \<in> pool_avail (ms_kpool s)" if "table_page s2 g" for g
  proof -
    have "table_page s1 g \<or> g \<in> pool_avail (ms_kpool s1)" using g2 that by (simp add: grown_def)
    then show ?thesis using g1 k [of KernelPool] by (auto simp: grown_def GetPhyMemPagePool_def)
  qed
  have t2: "table_page s2 g" if "table_page s g" for g using that g1 g2 by (simp add: grown_def)
  have av: "pool_avail (GetPhyMemPagePool t' s2) \<subseteq> pool_avail (GetPhyMemPagePool t' s)" for t'
    using k [of t'] g2 unfolding grown_def by (meson subset_trans)
  have "ms_kaddr s2 = ms_kaddr s" "ms_uaddr s2 = ms_uaddr s" using g1 g2 by (simp_all add: grown_def)
  moreover have "\<forall>b \<in> insert a A. \<exists>f. f \<in> pool_avail (GetPhyMemPagePool t s) \<and> mmu_translate s2 b = Some f \<and> \<not> table_page s2 f"
    using a2 A2 by (metis insert_iff)
  moreover have "\<forall>b. pdx b \<noteq> self_idx \<and> pdx b \<noteq> 0 \<and> (\<forall>c \<in> insert a A. \<not> same_page b c) \<longrightarrow>
      mmu_translate s2 b = mmu_translate s b"
    using old by (intro allI impI) (elim conjE)
  moreover have "\<forall>w. \<not> table_word s2 w \<longrightarrow> ms_mem s2 w = ms_mem s w" using w by (intro allI impI)
  moreover have "\<forall>g. table_page s2 g \<longrightarrow> table_page s g \<or> g \<in> pool_avail (ms_kpool s)" using t1 by (intro allI impI)
  moreover have "\<forall>g. table_page s g \<longrightarrow> table_page s2 g" using t2 by (intro allI impI)
  moreover have "\<forall>t'. pool_avail (GetPhyMemPagePool t' s2) \<subseteq> pool_avail (GetPhyMemPagePool t' s)" using av by (intro allI)
  ultimately show ?thesis unfolding grown_def by (intro conjI)
qed

lemma grown_map:
  assumes sp: "space t s M U" and a: "a \<in> U"
    and al: "PhyMemPagePool_AllocPages (GetPhyMemPagePool t s) 1 = Some (f, p)" "f \<noteq> 0"
    and av: "pool_avail (ms_kpool (set_phy_pool t p s)) \<noteq> {}"
  obtains s' where "VrAddr_MapToPhyAddr (set_phy_pool t p s) a f = Some s'" "space t s' (insert a M) (U - {a})"
    "grown t s s' {a}" "mmu_translate s' a = Some f" "f \<notin> pool_avail (ms_kpool s')"
    "card (pool_avail (ms_kpool (set_phy_pool t p s))) \<le> Suc (card (pool_avail (ms_kpool s')))"
    "ms_upool s' = ms_upool (set_phy_pool t p s)"
proof (rule space_map [OF assms])
  have ok: "mem_ok s" using sp by (simp add: space_def)
  note tk = mem_ok_take [OF ok al]
  have subt: "pool_avail (GetPhyMemPagePool t' (set_phy_pool t p s)) \<subseteq> pool_avail (GetPhyMemPagePool t' s)" for t'
    using tk(3) by (cases "t' = t") auto
  fix s' assume m: "VrAddr_MapToPhyAddr (set_phy_pool t p s) a f = Some s'" "space t s' (insert a M) (U - {a})"
    "mmu_translate s' a = Some f"
    "\<And>b. pdx b \<noteq> self_idx \<Longrightarrow> pdx b \<noteq> 0 \<Longrightarrow> \<not> same_page b a \<Longrightarrow> mmu_translate s' b = mmu_translate s b"
    "\<And>w. \<not> table_word s' w \<Longrightarrow> ms_mem s' w = ms_mem s w" "\<And>g. table_page s g \<Longrightarrow> table_page s' g"
    "\<And>g. table_page s' g \<Longrightarrow> table_page s g \<or> g \<in> pool_avail (ms_kpool (set_phy_pool t p s))"
    "ms_kaddr s' = ms_kaddr s" "ms_uaddr s' = ms_uaddr s"
    "\<And>t'. pool_avail (GetPhyMemPagePool t' s') \<subseteq> pool_avail (GetPhyMemPagePool t' (set_phy_pool t p s))"
    "card (pool_avail (ms_kpool (set_phy_pool t p s))) \<le> Suc (card (pool_avail (ms_kpool s')))"
    "ms_upool s' = ms_upool (set_phy_pool t p s)"
  have k: "f \<notin> pool_avail (ms_kpool (set_phy_pool t p s))" using tk(7) [of KernelPool] by (simp add: GetPhyMemPagePool_def)
  then have "\<not> table_page s' f" using m(7) tk(6) by blast
  moreover have "pool_avail (ms_kpool (set_phy_pool t p s)) \<subseteq> pool_avail (ms_kpool s)"
    using subt [of KernelPool] by (simp add: GetPhyMemPagePool_def)
  from this have t1: "table_page s g \<or> g \<in> pool_avail (ms_kpool s)" if "table_page s' g" for g
    using m(7) [OF that] by blast
  have av: "pool_avail (GetPhyMemPagePool t' s') \<subseteq> pool_avail (GetPhyMemPagePool t' s)" for t'
    using m(10) subt by (meson subset_trans)
  ultimately have "grown t s s' {a}"
    using m(3-6,8,9) t1 av tk(2) unfolding grown_def by simp
  moreover have "f \<notin> pool_avail (ms_kpool s')" using k m(10) [of KernelPool] by (auto simp: GetPhyMemPagePool_def)
  ultimately show thesis using that m(1-3,11,12) by blast
qed

lemma alloc_loop:
  assumes "space t s M U" "enough t n s" "page_nr base ` {i..<i + n} \<subseteq> U" "inj_on (page_nr base) {i..<i + n}"
  shows "\<exists>s'. AllocPages_loop t ap base count i n s = Some (True, ap, s') \<and>
    space t s' (M \<union> page_nr base ` {i..<i + n}) (U - page_nr base ` {i..<i + n}) \<and>
    grown t s s' (page_nr base ` {i..<i + n})"
  using assms
proof (induction n arbitrary: i s M U)
  case 0
  then show ?case by (simp add: grown_refl)
next
  case (Suc n)
  let ?a = "page_nr base i" and ?R = "page_nr base ` {Suc i..<Suc i + n}"
  have ok: "mem_ok s" and a: "?a \<in> U" using Suc.prems(1,3) by (auto simp: space_def)
  have R: "page_nr base ` {i..<i + Suc n} = insert ?a ?R"
  proof -
    have "{i..<i + Suc n} = insert i {Suc i..<Suc i + n}" by auto
    then show ?thesis by simp
  qed
  have nR: "?a \<notin> ?R"
  proof
    assume "?a \<in> ?R"
    then obtain x where "page_nr base i = page_nr base x" "x \<in> {Suc i..<Suc i + n}" by auto
    then have "i = x" using inj_onD [OF Suc.prems(4)] by auto
    with \<open>x \<in> {Suc i..<Suc i + n}\<close> show False by simp
  qed
  obtain f p where f: "PhyMemPagePool_AllocPages (GetPhyMemPagePool t s) 1 = Some (f, p)" "f \<noteq> 0"
    "pool_avail (ms_kpool (set_phy_pool t p s)) \<noteq> {}"
    "\<And>s'. mem_ok s' \<Longrightarrow> ms_upool s' = ms_upool (set_phy_pool t p s) \<Longrightarrow>
       card (pool_avail (ms_kpool (set_phy_pool t p s))) \<le> Suc (card (pool_avail (ms_kpool s'))) \<Longrightarrow> enough t n s'"
    using enough_step [OF ok Suc.prems(2)] by blast
  obtain s1 where s1: "VrAddr_MapToPhyAddr (set_phy_pool t p s) ?a f = Some s1"
    "space t s1 (insert ?a M) (U - {?a})" "grown t s s1 {?a}" "mmu_translate s1 ?a = Some f"
    "f \<notin> pool_avail (ms_kpool s1)"
    "card (pool_avail (ms_kpool (set_phy_pool t p s))) \<le> Suc (card (pool_avail (ms_kpool s1)))"
    "ms_upool s1 = ms_upool (set_phy_pool t p s)"
    using grown_map [OF Suc.prems(1) a f(1-3)] by blast
  have "enough t n s1" using f(4) s1(2,6,7) by (simp add: space_def)
  moreover have "?R \<subseteq> U - {?a}" using Suc.prems(3) nR unfolding R by blast
  moreover have "inj_on (page_nr base) {Suc i..<Suc i + n}" using Suc.prems(4) by (rule inj_on_subset) auto
  ultimately obtain s' where s': "AllocPages_loop t ap base count (Suc i) n s1 = Some (True, ap, s')"
    "space t s' (insert ?a M \<union> ?R) (U - {?a} - ?R)" "grown t s1 s' ?R"
    using Suc.IH [OF s1(2)] by blast
  have hp: "heap_page ?a" "\<forall>b \<in> ?R. \<not> same_page ?a b"
    using Suc.prems(1,3) same_page_eq [of ?a] nR unfolding R by (auto simp: space_def heap_page_def)
  have "grown t s s' (insert ?a ?R)" by (rule grown_step [OF s1(3) s'(3) hp s1(4,5)])
  moreover have "insert ?a M \<union> ?R = M \<union> insert ?a ?R" "U - {?a} - ?R = U - insert ?a ?R" by auto
  ultimately show ?case using s'(1,2) f(1,2) s1(1) unfolding R by (simp add: Let_def)
qed

section \<open>Clearing the new pages\<close>

text \<open>A write to memory that is no table: nothing but the contents of the written words changes.\<close>

definition quiet :: "memsys \<Rightarrow> memsys \<Rightarrow> u32 set \<Rightarrow> bool" where
  "quiet s s' W \<longleftrightarrow> s' = s\<lparr>ms_mem := ms_mem s'\<rparr> \<and> (\<forall>i. unat i < 1024 \<longrightarrow> dir_entry s' i = dir_entry s i) \<and>
     mmu_translate s' = mmu_translate s \<and> (\<forall>w. w \<notin> W \<longrightarrow> ms_mem s' w = ms_mem s w)"

lemma quiet_fields:
  assumes "quiet s s' W"
  shows "ms_cr3 s' = ms_cr3 s" "ms_kpool s' = ms_kpool s" "ms_upool s' = ms_upool s" "ms_kaddr s' = ms_kaddr s"
    "ms_uaddr s' = ms_uaddr s" "GetPhyMemPagePool t s' = GetPhyMemPagePool t s" "mmu_translate s' = mmu_translate s"
    "tables_ok s' = tables_ok s" "table_page s' = table_page s" "selfmap_ok s' = selfmap_ok s"
proof -
  have eq: "s' = s\<lparr>ms_mem := ms_mem s'\<rparr>" using assms by (simp add: quiet_def)
  show f: "ms_cr3 s' = ms_cr3 s" "ms_kpool s' = ms_kpool s" "ms_upool s' = ms_upool s" "ms_kaddr s' = ms_kaddr s"
    "ms_uaddr s' = ms_uaddr s"
    by (subst eq, simp)+
  show "GetPhyMemPagePool t s' = GetPhyMemPagePool t s" by (simp add: GetPhyMemPagePool_def f)
  show "mmu_translate s' = mmu_translate s" using assms by (simp add: quiet_def)
  have d: "\<And>i. unat i < 1024 \<Longrightarrow> dir_entry s' i = dir_entry s i" using assms by (simp add: quiet_def)
  show "tables_ok s' = tables_ok s" "table_page s' = table_page s"
    using tables_ok_cong [OF f(1) d] by (auto simp: fun_eq_iff)
  show "selfmap_ok s' = selfmap_ok s" using d [of self_idx] f(1) by (simp add: selfmap_ok_def)
qed

lemma space_quiet:
  assumes "quiet s s' W" "space t s M U"
  shows "space t s' M U"
proof -
  have "mmu_pde s' va = mmu_pde s va" for va using assms(1) by (simp add: quiet_def mmu_pde_dir)
  then have "pte_word s' = pte_word s" by (simp add: fun_eq_iff pte_word_def)
  then have "holds_page t s' = holds_page t s"
    by (simp add: fun_eq_iff holds_page_def sole_entry_def quiet_fields [OF assms(1)])
  then show ?thesis
    using assms(2) unfolding space_def mem_ok_def frames_ok_def by (simp add: quiet_fields [OF assms(1)])
qed

lemma mem_clear_ok:
  assumes "selfmap_ok s" "\<And>k. k < n \<Longrightarrow> \<exists>pa. mmu_translate s (va + of_nat (4 * k)) = Some pa \<and> \<not> table_word s pa"
  shows "\<exists>s'. mem_clear s va n = Some s' \<and> quiet s s' {pa. \<exists>k<n. mmu_translate s (va + of_nat (4 * k)) = Some pa} \<and>
    (\<forall>k<n. mem_read s' (va + of_nat (4 * k)) = Some 0)"
  using assms
proof (induction n arbitrary: s va)
  case 0
  then show ?case by (simp add: quiet_def)
next
  case (Suc n)
  obtain pa where pa: "mmu_translate s va = Some pa" "\<not> table_word s pa" using Suc.prems(2) [of 0] by auto
  define s1 where "s1 = s\<lparr>ms_mem := (ms_mem s)(pa := 0)\<rparr>"
  have q1: "quiet s s1 {pa}"
    using write_other_word [OF Suc.prems(1) pa(2), of 0] by (auto simp: quiet_def s1_def fun_eq_iff)
  note f1 = quiet_fields [OF q1]
  have step: "va + 4 + of_nat (4 * k) = va + of_nat (4 * Suc k)" for k by simp
  have "\<exists>pa. mmu_translate s1 (va + 4 + of_nat (4 * k)) = Some pa \<and> \<not> table_word s1 pa" if "k < n" for k
    unfolding step using Suc.prems(2) [of "Suc k"] that by (simp add: f1 table_word_def)
  moreover have "selfmap_ok s1" using Suc.prems(1) f1 by simp
  ultimately obtain s' where s': "mem_clear s1 (va + 4) n = Some s'"
    "quiet s1 s' {pa. \<exists>k<n. mmu_translate s1 (va + 4 + of_nat (4 * k)) = Some pa}"
    "\<forall>k<n. mem_read s' (va + 4 + of_nat (4 * k)) = Some 0"
    using Suc.IH [of s1 "va + 4"] by blast
  let ?W = "{pa. \<exists>k<Suc n. mmu_translate s (va + of_nat (4 * k)) = Some pa}"
  have W: "?W = insert pa {pa. \<exists>k<n. mmu_translate s1 (va + 4 + of_nat (4 * k)) = Some pa}"
    unfolding step f1(7) using pa(1) by (auto simp: less_Suc_eq_0_disj)
  have "s' = s1\<lparr>ms_mem := ms_mem s'\<rparr>" using s'(2) unfolding quiet_def by (elim conjE)
  then have "s' = s\<lparr>ms_mem := ms_mem s'\<rparr>" by (simp add: s1_def)
  then have "quiet s s' ?W" using q1 s'(2) unfolding W quiet_def by simp
  moreover have "mem_read s' va = Some 0"
  proof -
    have "ms_mem s' pa = 0"
    proof (cases "\<exists>k<n. mmu_translate s1 (va + 4 + of_nat (4 * k)) = Some pa")
      case True
      then obtain k where k: "k < n" "mmu_translate s1 (va + 4 + of_nat (4 * k)) = Some pa" by blast
      have "mem_read s' (va + 4 + of_nat (4 * k)) = Some 0" using s'(3) k(1) by blast
      then show ?thesis using k(2) unfolding mem_read_def quiet_fields(7) [OF s'(2)] by simp
    next
      case False
      then show ?thesis using s'(2) by (simp add: quiet_def s1_def)
    qed
    then show ?thesis using pa(1) quiet_fields(7) [OF s'(2)] f1(7) by (simp add: mem_read_def)
  qed
  moreover have "mem_clear s va (Suc n) = Some s'"
    using pa(1) s'(1) by (simp add: mem_write_def s1_def)
  moreover have "mem_read s' (va + of_nat (4 * k)) = Some 0" if "k < Suc n" for k
  proof (cases k)
    case (Suc j)
    then show ?thesis using s'(3) that unfolding step by simp
  qed (use \<open>mem_read s' va = Some 0\<close> in simp)
  ultimately show ?case by blast
qed

section \<open>Allocation maps and clears\<close>

text \<open>Every page of an address pool that is in use is mapped to its own physical page, no other page of it is.\<close>

definition vspace_ok :: "pool_type \<Rightarrow> memsys \<Rightarrow> page_pool \<Rightarrow> bool" where
  "vspace_ok t s ap \<longleftrightarrow> pool_ok ap \<and> space t s (pool_used ap) (pool_avail ap)"

lemma translate_offset:
  assumes "VrAddr_GetOffset a = 0" "unat k < 4096" "mmu_translate s a = Some f"
  shows "mmu_translate s (a + k) = Some (f + k)" "PageEntry_GetAddress f = f"
    "PageEntry_GetAddress (f + k) = f"
proof -
  note flds = page_add_fields [OF assms(1,2)]
  have f: "f = PageEntry_GetAddress (mmu_pte s a)" "PageEntry_IsPresent (mmu_pde s a)" "PageEntry_IsPresent (mmu_pte s a)"
    using assms(1,3) by (auto simp: mmu_translate_def split: if_splits)
  then show fa: "PageEntry_GetAddress f = f" by simp
  have "mmu_pde s (a + k) = mmu_pde s a" "mmu_pte s (a + k) = mmu_pte s a"
    by (simp_all add: mmu_pde_def mmu_pte_def flds)
  then show "mmu_translate s (a + k) = Some (f + k)" using f by (simp add: mmu_translate_def flds)
  have "VrAddr_GetOffset f = 0" using GetPageAddr_fields(1,4) [of f] fa by simp
  then show "PageEntry_GetAddress (f + k) = f"
    using GetPageAddr_fields(4) [of "f + k"] page_add_fields(3) [of f k] assms(2)
    by (simp add: VrAddr_GetPageAddr_def)
qed

lemma run_word: "a + of_nat (4 * k) = page_nr a (k div 1024) + of_nat (4 * (k mod 1024))"
proof -
  have "4 * k = k div 1024 * page_size + 4 * (k mod 1024)"
    using div_mult_mod_eq [of k 1024] unfolding page_size_def by linarith
  then have "(of_nat (4 * k) :: u32) = of_nat (k div 1024 * page_size) + of_nat (4 * (k mod 1024))"
    by (metis of_nat_add)
  then show ?thesis by (simp add: page_nr_def)
qed

lemma run_words_mapped:
  assumes "\<And>j. j < n \<Longrightarrow> VrAddr_GetOffset (page_nr a j) = 0 \<and>
      (\<exists>f. mmu_translate s (page_nr a j) = Some f \<and> \<not> table_page s f)"
    and "k < 1024 * n"
  shows "\<exists>pa. mmu_translate s (a + of_nat (4 * k)) = Some pa \<and> \<not> table_word s pa"
proof -
  have "k div 1024 < n" using assms(2) by (simp add: less_mult_imp_div_less mult.commute)
  then obtain f where f: "VrAddr_GetOffset (page_nr a (k div 1024)) = 0"
    "mmu_translate s (page_nr a (k div 1024)) = Some f" "\<not> table_page s f"
    using assms(1) by blast
  have "unat (of_nat (4 * (k mod 1024)) :: u32) < 4096"
    using unat_of_nat_u32 [of "4 * (k mod 1024)"] by simp
  note tr = translate_offset [OF f(1) this f(2)]
  show ?thesis unfolding run_word [of a k] using tr f(3) by (simp add: table_word_def)
qed

text \<open>A page whose physical page is neither written nor became a table keeps its contents.\<close>

lemma page_contents_keep:
  assumes h: "holds_page t s b f" and b: "VrAddr_GetOffset b = 0" "mmu_translate s' b = mmu_translate s b"
    and w: "\<And>w. PageEntry_GetAddress w = f \<Longrightarrow> ms_mem s' w = ms_mem s w" and k: "unat k < 4096"
  shows "mem_read s' (b + k) = mem_read s (b + k)"
proof -
  have "mmu_translate s b = Some f" using h by (simp add: holds_page_def)
  then show ?thesis
    using translate_offset [OF b(1) k, of s f] translate_offset [OF b(1) k, of s' f] b(2) w [of "f + k"]
    by (simp add: mem_read_def)
qed

lemma page_run_nr: "page_run a n = page_nr a ` {0..<n}"
  by (simp add: page_run_def page_nr_def lessThan_atLeast0)

text \<open>Mapping and clearing new pages keeps the contents of every page that was mapped before.\<close>

lemma alloc_contents_keep:
  assumes sp: "space t s M U" and g: "grown t s s1 (page_run a n)" and A: "page_run a n \<subseteq> U"
    and q: "quiet s1 s' {pa. \<exists>k<1024 * n. mmu_translate s1 (a + of_nat (4 * k)) = Some pa}"
    and b: "b \<in> M" and k: "unat k < 4096"
  shows "mem_read s' (b + k) = mem_read s (b + k)"
proof -
  obtain f where f: "holds_page t s b f" using sp b unfolding space_def by blast
  have hb: "heap_page b" and ok: "mem_ok s" using sp b by (auto simp: space_def)
  have hc: "heap_page c" if "c \<in> page_run a n" for c using A sp that unfolding space_def by blast
  have fa: "f \<notin> pool_avail (GetPhyMemPagePool t' s)" for t' using used_not_avail [OF ok] f by (auto simp: holds_page_def)
  have "\<not> same_page b c" if "c \<in> page_run a n" for c
    using same_page_eq [of b c] hb hc [OF that] that A b sp by (auto simp: heap_page_def space_def)
  then have tb: "mmu_translate s1 b = mmu_translate s b" using g hb by (simp add: grown_def heap_page_def)
  have "\<not> table_page s1 f" using g f fa [of KernelPool] by (auto simp: grown_def holds_page_def GetPhyMemPagePool_def)
  then have s1: "ms_mem s1 w = ms_mem s w" if "PageEntry_GetAddress w = f" for w
    using g that by (simp add: grown_def table_word_def)
  have W: "mmu_translate s1 (a + of_nat (4 * j)) \<noteq> Some w" if j: "j < 1024 * n" and w: "PageEntry_GetAddress w = f" for j w
  proof -
    have "j div 1024 < n" using j by (simp add: less_mult_imp_div_less mult.commute)
    then have r: "page_nr a (j div 1024) \<in> page_run a n" by (simp add: page_run_nr)
    then obtain h where h: "h \<in> pool_avail (GetPhyMemPagePool t s)" "mmu_translate s1 (page_nr a (j div 1024)) = Some h"
      using g unfolding grown_def by blast
    have "VrAddr_GetOffset (page_nr a (j div 1024)) = 0" using hc [OF r] by (simp add: heap_page_def)
    moreover have "unat (of_nat (4 * (j mod 1024)) :: u32) < 4096" using unat_of_nat_u32 [of "4 * (j mod 1024)"] by simp
    ultimately show ?thesis
      using translate_offset [OF _ _ h(2)] h(1) fa [of t] w unfolding run_word [of a j] by fastforce
  qed
  have "ms_mem s' w = ms_mem s w" if "PageEntry_GetAddress w = f" for w
    using q s1 [OF that] W [OF _ that] by (auto simp: quiet_def)
  then show ?thesis
    using page_contents_keep [OF f _ _ _ k, of s'] hb tb quiet_fields(7) [OF q] by (simp add: heap_page_def)
qed

lemma alloc_pages_ok:
  assumes vs: "vspace_ok t s ap" and n: "0 < n" and en: "enough t n s"
  obtains (null) "AllocPages_in t ap n s = Some (0, ap, s)" "VrAddrPool_AllocPages ap n = Some (0, ap)"
  | (pages) a ap' s' where "AllocPages_in t ap n s = Some (a, ap', s')" "a \<noteq> 0" "vspace_ok t s' ap'"
      "page_run a n \<subseteq> pool_avail ap" "pool_used ap' = pool_used ap \<union> page_run a n"
      "\<forall>b \<in> page_run a n. \<exists>f. f \<in> pool_avail (GetPhyMemPagePool t s) \<and> mmu_translate s' b = Some f"
      "inj_on (mmu_translate s') (page_run a n)" "\<forall>k < 1024 * n. mem_read s' (a + of_nat (4 * k)) = Some 0"
      "\<forall>b. pdx b \<noteq> self_idx \<and> pdx b \<noteq> 0 \<and> (\<forall>c \<in> page_run a n. \<not> same_page b c) \<longrightarrow>
         mmu_translate s' b = mmu_translate s b"
      "\<forall>b k. b \<in> pool_used ap \<and> unat k < 4096 \<longrightarrow> mem_read s' (b + k) = mem_read s (b + k)"
      "ms_kaddr s' = ms_kaddr s" "ms_uaddr s' = ms_uaddr s" "card (page_run a n) = n"
      "pool_avail ap' = pool_avail ap - page_run a n"
proof -
  have po: "pool_ok ap" and sp: "space t s (pool_used ap) (pool_avail ap)" using vs by (auto simp: vspace_ok_def)
  show thesis
  proof (rule vp.alloc_cases [OF po n])
    assume "VrAddrPool_AllocPages ap n = Some (0, ap)"
    then show thesis using null by (simp add: AllocPages_in_def)
  next
    fix a ap' assume a: "VrAddrPool_AllocPages ap n = Some (a, ap')" "a \<noteq> 0" "pool_ok ap'"
      "page_run a n \<subseteq> pool_avail ap" "card (page_run a n) = n"
      "pool_avail ap' = pool_avail ap - page_run a n" "pool_used ap' = pool_used ap \<union> page_run a n"
    have inj: "inj_on (page_nr a) {0..<n}"
      using a(5) unfolding page_run_nr by (intro eq_card_imp_inj_on) simp_all
    obtain s1 where s1: "AllocPages_loop t ap' a n 0 n s = Some (True, ap', s1)"
      "space t s1 (pool_used ap') (pool_avail ap')" "grown t s s1 (page_run a n)"
      using alloc_loop [OF sp en, of a 0 ap' n] a(4,6,7) inj unfolding page_run_nr by auto
    have off: "VrAddr_GetOffset (page_nr a j) = 0" if "j < n" for j
    proof -
      have "page_nr a j \<in> page_run a n" using that by (simp add: page_run_nr)
      then show ?thesis using a(4) sp unfolding space_def heap_page_def by blast
    qed
    have tr: "\<exists>f. mmu_translate s1 (page_nr a j) = Some f \<and> \<not> table_page s1 f" if "j < n" for j
      using s1(3) that unfolding grown_def page_run_nr by auto
    have "selfmap_ok s1" using s1(2) by (simp add: space_def mem_ok_def tables_ok_def)
    then obtain s' where s': "mem_clear s1 a (1024 * n) = Some s'"
      "quiet s1 s' {pa. \<exists>k<1024 * n. mmu_translate s1 (a + of_nat (4 * k)) = Some pa}"
      "\<forall>k < 1024 * n. mem_read s' (a + of_nat (4 * k)) = Some 0"
      using mem_clear_ok [of s1 "1024 * n" a] run_words_mapped [of n a s1] off tr by blast
    have keep: "mem_read s' (b + k) = mem_read s (b + k)" if "b \<in> pool_used ap" and "unat k < 4096" for b k
      by (rule alloc_contents_keep [OF sp s1(3) a(4) s'(2) that])
    have fld: "ms_kaddr s' = ms_kaddr s" "ms_uaddr s' = ms_uaddr s"
      using quiet_fields(4,5) [OF s'(2)] s1(3) by (simp_all add: grown_def)
    have "AllocPages_in t ap n s = Some (a, ap', s')"
      using a(1,2) s1(1) s'(1) by (simp add: AllocPages_in_def page_size_def mult.assoc)
    moreover have "vspace_ok t s' ap'" using a(3) space_quiet [OF s'(2) s1(2)] by (simp add: vspace_ok_def)
    moreover have "inj_on (mmu_translate s') (page_run a n)"
      using s1(2) a(7) unfolding quiet_fields(7) [OF s'(2)] space_def by (auto intro: inj_on_subset)
    moreover have "\<forall>b \<in> page_run a n. \<exists>f. f \<in> pool_avail (GetPhyMemPagePool t s) \<and> mmu_translate s' b = Some f"
      "\<forall>b. pdx b \<noteq> self_idx \<and> pdx b \<noteq> 0 \<and> (\<forall>c \<in> page_run a n. \<not> same_page b c) \<longrightarrow>
         mmu_translate s' b = mmu_translate s b"
      using s1(3) unfolding grown_def quiet_fields(7) [OF s'(2)] by blast+
    ultimately show thesis using pages a(2,4-7) s'(3) keep fld by blast
  qed
qed

section \<open>Freeing gives everything back\<close>

lemma page_mod: "unat a mod page_size = 0 \<Longrightarrow> a mod of_nat page_size = 0" for a :: u32
  by (simp add: word_arith_nat_mod page_size_def)

lemma mem_ok_release:
  assumes ok: "mem_ok s" and s': "tables_ok s'" "table_page s' = table_page s"
    and f: "f \<in> pool_used (GetPhyMemPagePool t s)" "\<not> table_page s f"
    and p: "pool_ok p" "pool_avail p = insert f (pool_avail (GetPhyMemPagePool t s))" "pool_used p = pool_used (GetPhyMemPagePool t s) - {f}"
    and gp: "\<forall>t'. GetPhyMemPagePool t' s' = (if t' = t then p else GetPhyMemPagePool t' s)"
    and tr: "\<forall>va pa. pdx va \<noteq> self_idx \<and> mmu_translate s' va = Some pa \<longrightarrow> mmu_translate s va = Some pa \<and> PageEntry_GetAddress pa \<noteq> f"
  shows "mem_ok s'"
proof -
  have av: "pool_avail (GetPhyMemPagePool t' s') =
      (if t' = t then insert f (pool_avail (GetPhyMemPagePool t s)) else pool_avail (GetPhyMemPagePool t' s))" for t'
    using gp p(2) by simp
  have "\<not> table_page s' g" if "g \<in> pool_avail (GetPhyMemPagePool t' s')" for g t'
    using that ok f(2) unfolding av s'(2) by (auto simp: mem_ok_pools frames_ok_def split: if_splits)
  moreover have "PageEntry_GetAddress pa \<notin> pool_avail (GetPhyMemPagePool t' s')"
    if va: "pdx va \<noteq> self_idx" "mmu_translate s' va = Some pa" for va pa t'
  proof -
    have "mmu_translate s va = Some pa" "PageEntry_GetAddress pa \<noteq> f" using tr va by blast+
    then show ?thesis using va(1) ok unfolding av by (auto simp: mem_ok_pools frames_ok_def)
  qed
  ultimately have "frames_ok s' (\<Union>t'. pool_avail (GetPhyMemPagePool t' s'))" unfolding frames_ok_def by blast
  moreover have "pool_pages (GetPhyMemPagePool t' s') = pool_pages (GetPhyMemPagePool t' s)" for t'
    using p(2,3) f(1) gp by (cases "t' = t") (auto simp: pool_pages_def)
  moreover have "pool_ok (GetPhyMemPagePool t' s')" for t' using p(1) ok gp by (cases "t' = t") (auto simp: mem_ok_pools)
  ultimately show ?thesis using s'(1) ok unfolding mem_ok_pools by auto
qed

lemma space_remove:
  assumes sp: "space t s M U" and a: "a \<in> M" "holds_page t s a f" and ok': "mem_ok s'"
    and oth: "\<forall>b \<in> M \<union> U. b \<noteq> a \<longrightarrow> mmu_translate s' b = mmu_translate s b" and un: "mmu_translate s' a = None"
    and prev: "\<forall>va pa. mmu_translate s' va = Some pa \<longrightarrow> mmu_translate s va = Some pa"
    and same: "pool_used (GetPhyMemPagePool t s') = pool_used (GetPhyMemPagePool t s) - {f}" "table_page s' = table_page s" "pte_word s' = pte_word s"
  shows "space t s' (M - {a}) (insert a U)"
  unfolding space_def
proof (intro conjI)
  have inj: "inj_on (mmu_translate s) M" using sp by (simp add: space_def)
  show "mem_ok s'" by (fact ok')
  show "\<forall>x \<in> M - {a} \<union> insert a U. heap_page x" "(M - {a}) \<inter> insert a U = {}" using sp a(1) unfolding space_def by blast+
  show "inj_on (mmu_translate s') (M - {a})"
    using inj_on_subset [OF inj, of "M - {a}"] oth by (subst inj_on_cong [of _ _ "mmu_translate s"]) auto
  have "mmu_translate s' b = None" if "b \<in> insert a U" for b
    using that oth un sp by (cases "b = a") (simp_all add: space_def)
  then show "\<forall>b \<in> insert a U. mmu_translate s' b = None" ..
  have "\<exists>g. holds_page t s' c g" if c: "c \<in> M - {a}" for c
  proof -
    obtain g where g: "holds_page t s c g" using sp c unfolding space_def by blast
    moreover from this have "g \<noteq> f" using inj_onD [OF inj, of c a] a c by (auto simp: holds_page_def)
    moreover have "mmu_translate s' c = mmu_translate s c" using oth c by blast
    moreover have "sole_entry s c g \<longrightarrow> sole_entry s' c g" unfolding sole_entry_def same(3) using prev by blast
    ultimately have "holds_page t s' c g" by (simp add: holds_page_def same)
    then show ?thesis by blast
  qed
  then show "\<forall>b \<in> M - {a}. \<exists>g. holds_page t s' b g" ..
qed

lemma free_step:
  assumes sp: "space t s M U" and a: "a \<in> M"
  obtains f p s' where "holds_page t s a f" "VrAddr_GetPhyAddr s a = Some f" "f mod of_nat page_size = 0"
    "PhyMemPagePool_FreePages (GetPhyMemPagePool t s) f 1 = Some p"
    "VrAddr_Unmap (set_phy_pool t p s) a = Some s'" "space t s' (M - {a}) (insert a U)"
    "\<And>b. pdx b \<noteq> self_idx \<Longrightarrow> pdx b \<noteq> 0 \<Longrightarrow> \<not> same_page b a \<Longrightarrow> mmu_translate s' b = mmu_translate s b"
    "\<And>w. \<not> table_word s w \<Longrightarrow> ms_mem s' w = ms_mem s w" "table_page s' = table_page s"
    "pool_avail (GetPhyMemPagePool t s') = insert f (pool_avail (GetPhyMemPagePool t s))"
    "\<And>t'. pool_avail (GetPhyMemPagePool t' s) \<subseteq> pool_avail (GetPhyMemPagePool t' s')"
    "ms_kaddr s' = ms_kaddr s" "ms_uaddr s' = ms_uaddr s"
proof -
  have ok: "mem_ok s" and hp: "heap_page a" and inj: "inj_on (mmu_translate s) M" using sp a by (auto simp: space_def)
  obtain f where h: "holds_page t s a f" using sp a unfolding space_def by blast
  have f: "mmu_translate s a = Some f" and fu: "f \<in> pool_used (GetPhyMemPagePool t s)" and sole: "sole_entry s a f"
    using h by (auto simp: holds_page_def)
  have tok: "tables_ok s" and po: "pool_ok (GetPhyMemPagePool t s)" using ok by (auto simp: mem_ok_pools)
  have self: "selfmap_ok s" using tok by (simp add: tables_ok_def)
  have mf: "f mod of_nat page_size = 0" using pp.aligned [OF po, of f] fu by (intro page_mod) simp
  obtain p where p: "PhyMemPagePool_FreePages (GetPhyMemPagePool t s) f 1 = Some p" "pool_ok p"
    "pool_avail p = insert f (pool_avail (GetPhyMemPagePool t s))" "pool_used p = pool_used (GetPhyMemPagePool t s) - {f}"
    using pp.release_run [OF po, of 1 f] fu by auto
  let ?s1 = "set_phy_pool t p s"
  have "tables_ok ?s1" and pa: "pdx a \<noteq> self_idx" using tok hp by (simp_all add: heap_page_def)
  then show thesis
  proof (rule unmap_ok)
    fix s' assume u: "VrAddr_Unmap ?s1 a = Some s'" "tables_ok s'"
      "\<And>va'. (pdx va', ptx va') = (pdx a, ptx a) \<Longrightarrow> mmu_translate s' va' = None"
      "\<And>va'. (pdx va', ptx va') \<noteq> (pdx a, ptx a) \<Longrightarrow> \<not> loader_alias (pdx a) (pdx va') \<Longrightarrow>
         mmu_translate s' va' = mmu_translate ?s1 va'"
      "\<And>va'. mmu_translate s' va' = mmu_translate ?s1 va' \<or> mmu_translate s' va' = None"
      "\<And>f. table_page s' f \<longleftrightarrow> table_page ?s1 f" "\<And>w. \<not> table_word ?s1 w \<Longrightarrow> ms_mem s' w = ms_mem ?s1 w"
      "ms_kpool s' = ms_kpool ?s1" "ms_upool s' = ms_upool ?s1" "ms_kaddr s' = ms_kaddr ?s1" "ms_uaddr s' = ms_uaddr ?s1"
      "\<And>va'. mmu_pde s' va' = mmu_pde ?s1 va'"
      "\<And>va'. PageEntry_IsPresent (mmu_pde ?s1 a) \<Longrightarrow> pte_word ?s1 va' = pte_word ?s1 a \<Longrightarrow> mmu_translate s' va' = None"
    have gp: "GetPhyMemPagePool t' s' = GetPhyMemPagePool t' ?s1" for t' using u(8,9) by (simp add: GetPhyMemPagePool_def)
    have pl: "GetPhyMemPagePool t s' = p" using gp [of t] by simp
    have pw: "pte_word ?s1 = pte_word s" "pte_word s' = pte_word s" using u(12) by (simp_all add: fun_eq_iff pte_word_def)
    have tp: "table_page s' = table_page s" using u(6) by (simp add: fun_eq_iff)
    have prev: "mmu_translate s va = Some pa" if "mmu_translate s' va = Some pa" for va pa
      using u(5) [of va] that by simp
    have un: "mmu_translate s' va = None" if "pte_word s va = pte_word s a" for va
      using u(13) [of va] that translate_present [OF f] by (simp add: pw)
    have nof: "PageEntry_GetAddress pa \<noteq> f" if "pdx va \<noteq> self_idx" "mmu_translate s' va = Some pa" for va pa
      using sole un [of va] prev [OF that(2)] that unfolding sole_entry_def by fastforce
    have other: "mmu_translate s' b = mmu_translate s b"
      if "pdx b \<noteq> self_idx" "pdx b \<noteq> 0" "\<not> same_page b a" for b
      using u(4) [of b] that hp heap_not_alias [of a b] by (simp add: same_page_def heap_page_def)
    have av: "pool_avail (GetPhyMemPagePool t' s') =
        (if t' = t then insert f (pool_avail (GetPhyMemPagePool t s)) else pool_avail (GetPhyMemPagePool t' s))" for t'
      using p(3) gp [of t'] by (cases "t' = t") simp_all
    have "\<not> table_page s f" using h by (simp add: holds_page_def)
    then have ok': "mem_ok s'"
      by (rule mem_ok_release [OF ok u(2) tp fu _ p(2-4)]) (use gp nof prev in \<open>auto\<close>)
    have "\<forall>b \<in> M \<union> U. b \<noteq> a \<longrightarrow> mmu_translate s' b = mmu_translate s b"
      using other same_page_eq [of _ a] sp hp by (auto simp: space_def heap_page_def)
    then have "space t s' (M - {a}) (insert a U)"
      by (rule space_remove [OF sp a h ok']) (use un [of a] prev p(4) pl tp pw in simp_all)
    then show thesis
    proof (rule that [OF h GetPhyAddr_translate [OF self f] mf p(1) u(1) _ other])
      show "pool_avail (GetPhyMemPagePool t' s) \<subseteq> pool_avail (GetPhyMemPagePool t' s')" for t' using av by auto
      show "ms_mem s' w = ms_mem s w" if "\<not> table_word s w" for w using u(7) [of w] that by (simp add: table_word_def)
    qed (use u(10,11) tp av in simp_all)
  qed
qed

lemma free_loop:
  assumes "space t s M U" "page_nr base ` {i..<i + n} \<subseteq> M" "inj_on (page_nr base) {i..<i + n}"
  shows "\<exists>s'. FreePages_loop t base i n s = Some s' \<and>
    space t s' (M - page_nr base ` {i..<i + n}) (U \<union> page_nr base ` {i..<i + n}) \<and>
    (\<forall>b. pdx b \<noteq> self_idx \<and> pdx b \<noteq> 0 \<and> (\<forall>a \<in> page_nr base ` {i..<i + n}. \<not> same_page b a) \<longrightarrow>
       mmu_translate s' b = mmu_translate s b) \<and>
    (\<forall>w. \<not> table_word s w \<longrightarrow> ms_mem s' w = ms_mem s w) \<and> table_page s' = table_page s \<and>
    pool_avail (GetPhyMemPagePool t s') = pool_avail (GetPhyMemPagePool t s) \<union>
      {f. \<exists>a \<in> page_nr base ` {i..<i + n}. mmu_translate s a = Some f} \<and>
    (\<forall>t'. pool_avail (GetPhyMemPagePool t' s) \<subseteq> pool_avail (GetPhyMemPagePool t' s')) \<and>
    ms_kaddr s' = ms_kaddr s \<and> ms_uaddr s' = ms_uaddr s"
  using assms
proof (induction n arbitrary: i s M U)
  case 0
  then show ?case by simp
next
  case (Suc n)
  let ?a = "page_nr base i" and ?R = "page_nr base ` {Suc i..<Suc i + n}"
  have ins: "{i..<i + Suc n} = insert i {Suc i..<Suc i + n}" by auto
  have R: "page_nr base ` {i..<i + Suc n} = insert ?a ?R" unfolding ins by simp
  have injR: "inj_on (page_nr base) {Suc i..<Suc i + n}" and nR: "?a \<notin> ?R"
    using Suc.prems(3) unfolding ins inj_on_insert by auto
  have a: "?a \<in> M" and RM: "?R \<subseteq> M - {?a}" using Suc.prems(2) nR unfolding R by blast+
  obtain f p s1 where s1: "holds_page t s ?a f" "VrAddr_GetPhyAddr s ?a = Some f" "f mod of_nat page_size = 0"
    "PhyMemPagePool_FreePages (GetPhyMemPagePool t s) f 1 = Some p"
    "VrAddr_Unmap (set_phy_pool t p s) ?a = Some s1" "space t s1 (M - {?a}) (insert ?a U)"
    "\<And>b. pdx b \<noteq> self_idx \<Longrightarrow> pdx b \<noteq> 0 \<Longrightarrow> \<not> same_page b ?a \<Longrightarrow> mmu_translate s1 b = mmu_translate s b"
    "\<And>w. \<not> table_word s w \<Longrightarrow> ms_mem s1 w = ms_mem s w" "table_page s1 = table_page s"
    "pool_avail (GetPhyMemPagePool t s1) = insert f (pool_avail (GetPhyMemPagePool t s))"
    "\<And>t'. pool_avail (GetPhyMemPagePool t' s) \<subseteq> pool_avail (GetPhyMemPagePool t' s1)"
    "ms_kaddr s1 = ms_kaddr s" "ms_uaddr s1 = ms_uaddr s"
    using free_step [OF Suc.prems(1) a] by blast
  obtain s' where s': "FreePages_loop t base (Suc i) n s1 = Some s'" "space t s' (M - {?a} - ?R) (insert ?a U \<union> ?R)"
    "\<forall>b. pdx b \<noteq> self_idx \<and> pdx b \<noteq> 0 \<and> (\<forall>a \<in> ?R. \<not> same_page b a) \<longrightarrow> mmu_translate s' b = mmu_translate s1 b"
    "\<forall>w. \<not> table_word s1 w \<longrightarrow> ms_mem s' w = ms_mem s1 w" "table_page s' = table_page s1"
    "pool_avail (GetPhyMemPagePool t s') = pool_avail (GetPhyMemPagePool t s1) \<union> {f. \<exists>a \<in> ?R. mmu_translate s1 a = Some f}"
    "\<forall>t'. pool_avail (GetPhyMemPagePool t' s1) \<subseteq> pool_avail (GetPhyMemPagePool t' s')"
    "ms_kaddr s' = ms_kaddr s1" "ms_uaddr s' = ms_uaddr s1"
    using Suc.IH [OF s1(6) RM injR] by blast
  have hp: "heap_page b" if "b \<in> insert ?a ?R" for b using Suc.prems(1,2) that unfolding R space_def by blast
  have ne: "\<not> same_page b ?a" if "b \<in> ?R" for b
  proof -
    have "b \<noteq> ?a" using that nR by blast
    moreover have "VrAddr_GetOffset b = 0" "VrAddr_GetOffset ?a = 0"
      using hp [of b] hp [of ?a] that by (simp_all add: heap_page_def)
    ultimately show ?thesis using same_page_eq [of b ?a] by blast
  qed
  have f: "mmu_translate s ?a = Some f" using s1(1) by (simp add: holds_page_def)
  have "mmu_translate s1 b = mmu_translate s b" if "b \<in> ?R" for b
    using s1(7) [of b] ne [OF that] hp [of b] that by (simp add: heap_page_def)
  then have "{f. \<exists>a \<in> ?R. mmu_translate s1 a = Some f} = {f. \<exists>a \<in> ?R. mmu_translate s a = Some f}" by auto
  then have av: "pool_avail (GetPhyMemPagePool t s') = pool_avail (GetPhyMemPagePool t s) \<union>
      {f. \<exists>a \<in> insert ?a ?R. mmu_translate s a = Some f}"
    using s'(6) s1(10) f by auto
  have "M - {?a} - ?R = M - insert ?a ?R" "insert ?a U \<union> ?R = U \<union> insert ?a ?R" by auto
  then have sp: "space t s' (M - insert ?a ?R) (U \<union> insert ?a ?R)" using s'(2) by simp
  have run: "FreePages_loop t base i (Suc n) s = Some s'" using s1(2-5) s'(1) by (simp add: Let_def)
  have mem: "\<forall>w. \<not> table_word s w \<longrightarrow> ms_mem s' w = ms_mem s w" using s1(8,9) s'(4) by (simp add: table_word_def)
  have "\<forall>t'. pool_avail (GetPhyMemPagePool t' s) \<subseteq> pool_avail (GetPhyMemPagePool t' s')"
    using s1(11) s'(7) by (meson subset_trans)
  then show ?case using run sp av mem s' s1(7,9,12,13) unfolding R by (intro exI [of _ s']) simp
qed

text \<open>Freeing a run of pages: the invariant of the address space holds again, and other pages keep their contents.\<close>

lemma free_pages_ok:
  assumes vs: "vspace_ok t s ap" and n: "0 < n" and run: "page_run a n \<subseteq> pool_used ap" "card (page_run a n) = n"
  obtains ap' s' where "FreePages_in t ap a n s = Some (ap', s')" "vspace_ok t s' ap'"
    "pool_used ap' = pool_used ap - page_run a n" "pool_avail ap' = pool_avail ap \<union> page_run a n"
    "pool_avail (GetPhyMemPagePool t s') = pool_avail (GetPhyMemPagePool t s) \<union>
      {f. \<exists>b \<in> page_run a n. mmu_translate s b = Some f}"
    "\<forall>b. pdx b \<noteq> self_idx \<and> pdx b \<noteq> 0 \<and> (\<forall>c \<in> page_run a n. \<not> same_page b c) \<longrightarrow>
       mmu_translate s' b = mmu_translate s b"
    "\<forall>w. \<not> table_word s w \<longrightarrow> ms_mem s' w = ms_mem s w"
    "\<forall>t'. pool_avail (GetPhyMemPagePool t' s) \<subseteq> pool_avail (GetPhyMemPagePool t' s')"
    "ms_kaddr s' = ms_kaddr s" "ms_uaddr s' = ms_uaddr s"
proof -
  have po: "pool_ok ap" and sp: "space t s (pool_used ap) (pool_avail ap)" using vs by (auto simp: vspace_ok_def)
  obtain ap' where ap': "VrAddrPool_FreePages ap a n = Some ap'" "pool_ok ap'"
    "pool_avail ap' = pool_avail ap \<union> page_run a n" "pool_used ap' = pool_used ap - page_run a n"
    using vp.release_run [OF po n run] by blast
  have "inj_on (page_nr a) {0..<0 + n}"
    using run(2) unfolding page_run_nr by (intro eq_card_imp_inj_on) simp_all
  then obtain s' where s': "FreePages_loop t a 0 n s = Some s'"
    "space t s' (pool_used ap - page_run a n) (pool_avail ap \<union> page_run a n)"
    "\<forall>b. pdx b \<noteq> self_idx \<and> pdx b \<noteq> 0 \<and> (\<forall>c \<in> page_run a n. \<not> same_page b c) \<longrightarrow> mmu_translate s' b = mmu_translate s b"
    "\<forall>w. \<not> table_word s w \<longrightarrow> ms_mem s' w = ms_mem s w"
    "pool_avail (GetPhyMemPagePool t s') = pool_avail (GetPhyMemPagePool t s) \<union> {f. \<exists>b \<in> page_run a n. mmu_translate s b = Some f}"
    "\<forall>t'. pool_avail (GetPhyMemPagePool t' s) \<subseteq> pool_avail (GetPhyMemPagePool t' s')"
    "ms_kaddr s' = ms_kaddr s" "ms_uaddr s' = ms_uaddr s"
    using free_loop [OF sp, of a 0 n] run(1) unfolding page_run_nr by auto
  have "a \<in> page_run a n" using n by (auto simp: page_run_def intro: rev_image_eqI [of 0])
  then have "a \<noteq> 0" using vp.aligned [OF po, of a] run(1) by blast
  then have "FreePages_in t ap a n s = Some (ap', s')" using s'(1) ap'(1) n by (simp add: FreePages_in_def)
  then show thesis using that [of ap' s'] ap' s' by (simp add: vspace_ok_def)
qed

section \<open>Properties\<close>

text \<open>C1: \<^verbatim>\<open>AllocPages\<close> with enough physical pages returns either the null pointer, when no run of virtual pages is
  free, with nothing changed, or a run of pages that were unmapped, now mapped each to its own physical page out of the free
  ones of the pool, and reading zero in every double word; no other address of the space translates differently,
  and the invariant of the address space holds again.\<close>

theorem AllocPages_maps_zeroed:
  assumes "vspace_ok t s ap" and "0 < n" and "enough t n s"
  shows "\<exists>a ap' s'. AllocPages_in t ap n s = Some (a, ap', s') \<and> vspace_ok t s' ap' \<and>
    (if a = 0 then ap' = ap \<and> s' = s
     else page_run a n \<subseteq> pool_avail ap \<and>
       (\<forall>b \<in> page_run a n. \<exists>f. f \<in> pool_avail (GetPhyMemPagePool t s) \<and> mmu_translate s' b = Some f) \<and>
       inj_on (mmu_translate s') (page_run a n) \<and>
       (\<forall>k < 1024 * n. mem_read s' (a + of_nat (4 * k)) = Some 0) \<and>
       (\<forall>b. pdx b \<noteq> self_idx \<and> pdx b \<noteq> 0 \<and> (\<forall>c \<in> page_run a n. \<not> same_page b c) \<longrightarrow>
          mmu_translate s' b = mmu_translate s b))"
proof (rule alloc_pages_ok [OF assms])
  assume "AllocPages_in t ap n s = Some (0, ap, s)"
  then show ?thesis using assms(1) by (intro exI [of _ 0] exI [of _ ap] exI [of _ s]) simp
next
  fix a ap' s' assume "AllocPages_in t ap n s = Some (a, ap', s')" "a \<noteq> 0" "vspace_ok t s' ap'"
    "page_run a n \<subseteq> pool_avail ap"
    "\<forall>b \<in> page_run a n. \<exists>f. f \<in> pool_avail (GetPhyMemPagePool t s) \<and> mmu_translate s' b = Some f"
    "inj_on (mmu_translate s') (page_run a n)" "\<forall>k < 1024 * n. mem_read s' (a + of_nat (4 * k)) = Some 0"
    "\<forall>b. pdx b \<noteq> self_idx \<and> pdx b \<noteq> 0 \<and> (\<forall>c \<in> page_run a n. \<not> same_page b c) \<longrightarrow>
       mmu_translate s' b = mmu_translate s b"
  then show ?thesis by (intro exI [of _ a] exI [of _ ap'] exI [of _ s']) simp
qed

text \<open>C12: \<^verbatim>\<open>FreePages\<close> on a run of pages in use returns; afterwards the pages of the run are unmapped and free in
  the address pool, their physical pages are available in the physical pool again, no other address of the space
  translates differently, and the invariant of the address space holds again.\<close>

theorem FreePages_returns_run:
  assumes "vspace_ok t s ap" and "0 < n" and "page_run a n \<subseteq> pool_used ap" and "card (page_run a n) = n"
  shows "\<exists>ap' s'. FreePages_in t ap a n s = Some (ap', s') \<and> vspace_ok t s' ap' \<and>
    pool_used ap' = pool_used ap - page_run a n \<and> pool_avail ap' = pool_avail ap \<union> page_run a n \<and>
    (\<forall>b \<in> page_run a n. mmu_translate s' b = None) \<and>
    pool_avail (GetPhyMemPagePool t s') = pool_avail (GetPhyMemPagePool t s) \<union>
      {f. \<exists>b \<in> page_run a n. mmu_translate s b = Some f} \<and>
    (\<forall>b. pdx b \<noteq> self_idx \<and> pdx b \<noteq> 0 \<and> (\<forall>c \<in> page_run a n. \<not> same_page b c) \<longrightarrow>
       mmu_translate s' b = mmu_translate s b)"
proof (rule free_pages_ok [OF assms])
  fix ap' s' assume f: "FreePages_in t ap a n s = Some (ap', s')" "vspace_ok t s' ap'"
    "pool_used ap' = pool_used ap - page_run a n" "pool_avail ap' = pool_avail ap \<union> page_run a n"
    "pool_avail (GetPhyMemPagePool t s') = pool_avail (GetPhyMemPagePool t s) \<union>
      {f. \<exists>b \<in> page_run a n. mmu_translate s b = Some f}"
    "\<forall>b. pdx b \<noteq> self_idx \<and> pdx b \<noteq> 0 \<and> (\<forall>c \<in> page_run a n. \<not> same_page b c) \<longrightarrow>
       mmu_translate s' b = mmu_translate s b"
  then have "\<forall>b \<in> page_run a n. mmu_translate s' b = None" by (simp add: vspace_ok_def space_def)
  with f show ?thesis by (intro exI [of _ ap'] exI [of _ s'] conjI)
qed

text \<open>C28: When the physical pool is empty, \<^verbatim>\<open>AllocPages\<close> returns the null pointer but keeps the virtual pages it has
  already taken: they stay marked as used in the address pool although nothing maps them, because the roll-back is guarded by
  \<^verbatim>\<open>i > 0\<close>.\<close>

theorem AllocPages_leaks_addresses:
  assumes "pool_ok ap" and "0 < n" and "pool_ok (GetPhyMemPagePool t s)" and "pool_avail (GetPhyMemPagePool t s) = {}"
    and "VrAddrPool_AllocPages ap n = Some (a, ap')" and "a \<noteq> 0"
  shows "AllocPages_in t ap n s = Some (0, ap', s) \<and> pool_used ap' = pool_used ap \<union> page_run a n \<and>
    card (pool_avail ap') + n = card (pool_avail ap)"
proof -
  have "PhyMemPagePool_AllocPages (GetPhyMemPagePool t s) 1 = Some (0, GetPhyMemPagePool t s)"
    by (rule pp.alloc_one_cases [OF assms(3)]) (use assms(4) in auto)
  moreover obtain m where "n = Suc m" using assms(2) by (cases n) auto
  moreover have "set_phy_pool t (GetPhyMemPagePool t s) s = s"
    by (cases t) (simp_all add: set_phy_pool_def GetPhyMemPagePool_def)
  ultimately have "AllocPages_in t ap n s = Some (0, ap', s)"
    using assms(5,6) by (simp add: AllocPages_in_def Let_def)
  moreover note vp.alloc_some [OF assms(1,2,5,6)]
  moreover have "card (pool_avail ap - page_run a n) + n = card (pool_avail ap)"
    using calculation(2) card_pool_avail(2) [OF assms(1)]
    by (metis card_Diff_subset card_mono finite_subset le_add_diff_inverse2)
  ultimately show ?thesis by metis
qed

section \<open>The pools after initialisation\<close>

lemma used_mem_size: "of_nat page_size + of_nat page_size * of_nat krnl_page_dir_count + krnl_size = (0x200000 :: u32)"
  by (simp add: page_size_def krnl_page_dir_count_def krnl_dir_start page_dir_count_def krnl_size_def MB_def KB_def)

lemma fresh_bitmap_pool:
  assumes "0 < len" "len * 8 < 2 ^ 32" "start \<noteq> 0" "unat start mod page_size = 0"
    "unat start + len * 8 * page_size \<le> 2 ^ 32"
  shows "\<exists>bm p. Bitmap_Init (Some (byte_buf bytes addr len)) len True = Some bm \<and> PhyMemPagePool_Init start bm = Some p \<and>
      pool_ok p \<and> pl_start p = start \<and> pool_cap p = len * 8 \<and> pool_used p = {}" (is ?P)
    and "\<exists>bm. Bitmap_Init (Some (byte_buf bytes addr len)) len True = Some bm \<and> pool_ok (VrAddrPool_Init start bm) \<and>
      pl_start (VrAddrPool_Init start bm) = start \<and> pool_cap (VrAddrPool_Init start bm) = len * 8 \<and>
      pool_used (VrAddrPool_Init start bm) = {}" (is ?V)
proof -
  obtain bm where bm: "Bitmap_Init (Some (byte_buf bytes addr len)) len True = Some bm" "bitmap_ok bm"
    "bm_byte_len bm = len" "bm_used bm = (\<lambda>_. False)"
    using Init_clear_ok [of "byte_buf bytes addr len" len] assms by (auto simp: byte_buf_def)
  have ok: "pool_ok \<lparr>pl_start = start, pl_free = Bitmap_GetCapacity b, pl_bitmap = b\<rparr>"
    if "bitmap_ok b" "bm_byte_len b = len" "bm_used b = (\<lambda>_. False)" for b
    using assms that by (simp add: pool_ok_def Bitmap_GetCapacity_def byte_len_def used_slots_card)
  then show ?V using bm by (simp add: VrAddrPool_Init_def Bitmap_GetCapacity_def byte_len_def pool_used_def)
  obtain bs where bs: "bm_bits bm = Some bs" "length bs = len" using bm(2,3) by (auto elim: bitmap_okE)
  let ?b = "bm\<lparr>bm_bits := Some (replicate len 0)\<rparr>"
  have "Bitmap_Clear bm = Some ?b" using bs bm(3) by (simp add: Bitmap_Clear_def memset_eq)
  moreover have "bitmap_ok ?b" "bm_used ?b = (\<lambda>_. False)"
    using bm(2,3) by (auto simp: bitmap_ok_def bm_used_def fun_eq_iff idx_byte_bound)
  ultimately show ?P using bm(1,3) ok [of ?b]
    by (simp add: PhyMemPagePool_Init_def Bitmap_GetCapacity_def byte_len_def pool_used_def)
qed

text \<open>The numbers \<^verbatim>\<open>InitMem\<close> computes, without wrap-around.\<close>

lemma InitMem_numbers:
  fixes total :: u32
  assumes "0x210000 \<le> unat total"
    and F: "F = (total - 0x200000) div of_nat page_size" and K: "K = F div 2" and U: "U = F - K"
  shows "unat F = (unat total - 0x200000) div 4096" "unat K = unat F div 2" "unat U = unat F - unat F div 2"
    "unat (0x200000 + K * of_nat page_size) = 0x200000 + unat K * 4096"
    "unat (K div of_nat byte_len) = unat K div 8" "unat (U div of_nat byte_len) = unat U div 8"
    "0x200000 + (unat K + unat U) * 4096 \<le> unat total"
proof -
  have T: "unat total < 2 ^ 32" using unsigned_less [of total] by simp
  have ps: "unat (of_nat page_size :: u32) = 4096" "unat (of_nat byte_len :: u32) = 8"
    by (simp_all add: page_size_def byte_len_def)
  have "(0x200000 :: u32) \<le> total" using assms(1) by (simp add: word_le_nat_alt)
  then show f: "unat F = (unat total - 0x200000) div 4096" by (simp add: F unat_div ps unat_sub)
  show k: "unat K = unat F div 2" by (simp add: K unat_div)
  have "K \<le> F" using k by (simp add: word_le_nat_alt)
  then show u: "unat U = unat F - unat F div 2" using k by (simp add: U unat_sub)
  show "unat (K div of_nat byte_len) = unat K div 8" "unat (U div of_nat byte_len) = unat U div 8"
    by (simp_all add: unat_div ps)
  have "(unat total - 0x200000) div 4096 * 4096 \<le> unat total - 0x200000" by simp
  then have le: "unat F * 4096 \<le> unat total - 0x200000" using f by simp
  have ku: "unat K + unat U = unat F" using k u by simp
  then show "0x200000 + (unat K + unat U) * 4096 \<le> unat total" using le assms(1) by simp
  have "unat K * 4096 \<le> unat F * 4096" using k by simp
  then have lt: "0x200000 + unat K * 4096 < 2 ^ 32" using le T assms(1) by linarith
  then have "unat (K * of_nat page_size) = unat K * 4096"
    by (subst unat_mult_lem [THEN iffD1]) (simp_all add: ps)
  then show "unat (0x200000 + K * of_nat page_size) = 0x200000 + unat K * 4096"
    using lt by (subst unat_add_lem [THEN iffD1]) simp_all
qed

lemma InitMem_pools:
  fixes total :: u32
  assumes T: "0x210000 \<le> unat total" "unat total \<le> 0x7F800000"
  obtains s' where "InitMem total bytes s = Some s'" "pool_ok (ms_kpool s')" "pool_ok (ms_upool s')" "pool_ok (ms_kaddr s')"
    "pool_used (ms_kpool s') = {}" "pool_used (ms_upool s') = {}" "pool_used (ms_kaddr s') = {}"
    "unat (pl_start (ms_kpool s')) = 0x200000" "pl_start (ms_kaddr s') = krnl_heap_base"
    "unat (pl_start (ms_kpool s')) + pool_cap (ms_kpool s') * page_size \<le> unat (pl_start (ms_upool s'))"
    "unat (pl_start (ms_upool s')) + pool_cap (ms_upool s') * page_size \<le> unat total"
    "pool_cap (ms_kaddr s') = pool_cap (ms_kpool s')"
    "unat (pl_start (ms_kaddr s')) + pool_cap (ms_kaddr s') * page_size \<le> 0xFFC00000"
proof -
  define F where "F = (total - 0x200000) div of_nat page_size"
  define K where "K = F div 2"
  define U where "U = F - K"
  define kl where "kl = K div of_nat byte_len"
  define ul where "ul = U div of_nat byte_len"
  define ub where "ub = (0x200000 + K * of_nat page_size :: u32)"
  note N = InitMem_numbers [OF T(1) F_def K_def U_def]
  have kl: "unat kl = unat K div 8" and ul: "unat ul = unat U div 8" and ub: "unat ub = 0x200000 + unat K * 4096"
    using N(4-6) by (simp_all add: kl_def ul_def ub_def)
  have F16: "16 \<le> unat F" using N(1) T(1) div_le_mono [of "0x10000" "unat total - 0x200000" 4096] by simp
  have c: "unat kl * 8 \<le> unat K" "unat ul * 8 \<le> unat U" "0 < unat kl" "0 < unat ul"
  proof -
    have "8 \<le> unat K" "8 \<le> unat U" using N(2,3) F16 by linarith+
    then show "0 < unat kl" "0 < unat ul" using kl ul by (simp_all add: div_greater_zero_iff)
  qed (use kl ul in simp_all)
  have tot: "0x200000 + (unat K + unat U) * 4096 \<le> 0x7F800000" using N(7) T(2) by simp
  have heap: "unat krnl_heap_base = 0xC0100000" by (simp add: krnl_heap_base_def krnl_base_def)
  have Kb: "unat K * 4096 \<le> 0x3FB00000" using N(2,3) tot by simp
  note P = fresh_bitmap_pool [of _ _ bytes, unfolded page_size_def]
  obtain b1 p1 where 1: "Bitmap_Init (Some (byte_buf bytes bitmap_base (unat kl))) (unat kl) True = Some b1"
    "PhyMemPagePool_Init 0x200000 b1 = Some p1" "pool_ok p1" "pl_start p1 = 0x200000" "pool_cap p1 = unat kl * 8" "pool_used p1 = {}"
    using P(1) [of "unat kl" "0x200000" bitmap_base] c tot by auto
  have ub0: "ub \<noteq> 0" using ub by auto
  obtain b2 p2 where 2: "Bitmap_Init (Some (byte_buf bytes (bitmap_base + kl) (unat ul))) (unat ul) True = Some b2"
    "PhyMemPagePool_Init ub b2 = Some p2" "pool_ok p2" "pl_start p2 = ub" "pool_cap p2 = unat ul * 8" "pool_used p2 = {}"
    using P(1) [of "unat ul" ub "bitmap_base + kl"] c tot ub ub0 by auto
  obtain b3 where 3: "Bitmap_Init (Some (byte_buf bytes (bitmap_base + kl + ul) (unat kl))) (unat kl) True = Some b3"
    "pool_ok (VrAddrPool_Init krnl_heap_base b3)" "pl_start (VrAddrPool_Init krnl_heap_base b3) = krnl_heap_base"
    "pool_cap (VrAddrPool_Init krnl_heap_base b3) = unat kl * 8" "pool_used (VrAddrPool_Init krnl_heap_base b3) = {}"
    using P(2) [of "unat kl" krnl_heap_base "bitmap_base + kl + ul"] c Kb heap
    by (auto simp: krnl_heap_base_def krnl_base_def)
  have pos: "0 < total" using T(1) by (simp add: word_less_nat_alt)
  have run: "InitMem total bytes s = Some (s\<lparr>ms_kpool := p1, ms_upool := p2, ms_kaddr := VrAddrPool_Init krnl_heap_base b3\<rparr>)"
    using pos 1(1,2) 2(1,2) 3(1) unfolding InitMem_def Let_def used_mem_size
    by (simp add: F_def [symmetric] K_def [symmetric] U_def [symmetric] kl_def [symmetric] ul_def [symmetric] ub_def [symmetric])
  show thesis
    by (rule that [OF run]) (use 1 2 3 c ub heap Kb N(7) in \<open>simp_all add: page_size_def\<close>)
qed


section \<open>Witnesses\<close>

definition krnl_heap :: page_pool where
  "krnl_heap = fresh_pool 0xC0100000"

lemma krnl_heap_pages: "pool_used krnl_heap = {}" "pool_avail krnl_heap = (\<lambda>i. 0xC0100000 + of_nat (i * page_size)) ` set [0..<16]"
  by (auto simp: krnl_heap_def pool_used_def pool_avail_def fresh_pool_used fresh_pool_cap)
    (auto simp: pool_page_def fresh_pool_def image_iff)

lemma krnl_heap_heap: "a \<in> pool_avail krnl_heap \<Longrightarrow> heap_page a"
  unfolding krnl_heap_pages(2)
  by (auto simp: upt_rec heap_page_def vr_defs GetBits_def page_size_def self_idx_def page_dir_self_ref_def page_dir_count_def)

lemma krnl_heap_vspace: "vspace_ok KernelPool boot_mem krnl_heap" "enough KernelPool 1 boot_mem"
proof -
  have "pool_ok krnl_heap" unfolding krnl_heap_def by (rule fresh_pool_ok) (simp_all add: page_size_def)
  moreover have "mmu_translate boot_mem a = None" if "a \<in> pool_avail krnl_heap" for a
    using krnl_heap_heap [OF that] by (intro boot_unmapped) (simp add: heap_page_def)
  ultimately show "vspace_ok KernelPool boot_mem krnl_heap"
    using boot_mem_ok krnl_heap_heap by (simp add: vspace_ok_def space_def krnl_heap_pages(1))
  show "enough KernelPool 1 boot_mem" by (simp add: enough_def boot_mem_def fresh_pool_def)
qed

lemma krnl_heap_alloc: "VrAddrPool_AllocPages krnl_heap 1 \<noteq> Some (0, p)"
proof -
  have "0xC0100000 \<in> pool_avail krnl_heap" by (auto simp: krnl_heap_pages(2) intro: rev_image_eqI [of 0])
  then show ?thesis using vp.alloc_one [of krnl_heap] krnl_heap_vspace(1) by (auto simp: vspace_ok_def)
qed

theorem AllocPages_maps_zeroed_witness:
  "\<exists>a ap' s'. AllocPages_in KernelPool krnl_heap 1 boot_mem = Some (a, ap', s') \<and> vspace_ok KernelPool s' ap'"
  using AllocPages_maps_zeroed [OF krnl_heap_vspace(1) _ krnl_heap_vspace(2)] by auto

theorem FreePages_returns_run_witness:
  "\<exists>a ap' s' ap'' s''. AllocPages_in KernelPool krnl_heap 1 boot_mem = Some (a, ap', s') \<and>
     FreePages_in KernelPool ap' a 1 s' = Some (ap'', s'') \<and> mmu_translate s'' a = None"
proof (rule alloc_pages_ok [OF krnl_heap_vspace(1) zero_less_one krnl_heap_vspace(2)])
  fix a ap' s' assume a: "AllocPages_in KernelPool krnl_heap 1 boot_mem = Some (a, ap', s')"
    "vspace_ok KernelPool s' ap'" "pool_used ap' = pool_used krnl_heap \<union> page_run a 1"
  then show ?thesis using FreePages_returns_run [OF a(2), of 1 a] by auto
qed (use krnl_heap_alloc in blast)

definition full_mem :: memsys where
  "full_mem = boot_mem\<lparr>ms_kpool := \<lparr>pl_start = 0x200000, pl_free = 0,
     pl_bitmap = \<lparr>bm_byte_len = 1, bm_bits = Some [0xFF]\<rparr>\<rparr>\<rparr>"

theorem AllocPages_leaks_addresses_witness:
  "\<exists>ap'. AllocPages_in KernelPool krnl_heap 2 full_mem = Some (0, ap', full_mem) \<and>
     card (pool_avail ap') + 2 = card (pool_avail krnl_heap)"
proof -
  let ?p = "GetPhyMemPagePool KernelPool full_mem"
  have u: "bm_used (pl_bitmap ?p) i \<longleftrightarrow> i < 8" for i
    using bit_0xFF [of i] by (auto simp: GetPhyMemPagePool_def full_mem_def bm_used_def nth_Cons')
  have c: "pool_cap ?p = 8" by (simp add: GetPhyMemPagePool_def full_mem_def Bitmap_GetCapacity_def byte_len_def)
  have "{i. i < 8 \<and> i < (8::nat)} = {..<8}" by auto
  then have "pool_ok ?p" unfolding pool_ok_def c used_slots_card u
    by (simp add: page_size_def GetPhyMemPagePool_def full_mem_def bitmap_ok_def)
  moreover have "pool_avail ?p = {}" by (simp add: pool_avail_def u c)
  moreover have "VrAddrPool_AllocPages krnl_heap 2 \<noteq> None \<and> fst (the (VrAddrPool_AllocPages krnl_heap 2)) = 0xC0100000"
    by code_simp
  then obtain ap' where "VrAddrPool_AllocPages krnl_heap 2 = Some (0xC0100000, ap')" by auto
  ultimately show ?thesis
    using AllocPages_leaks_addresses [of krnl_heap 2 KernelPool full_mem "0xC0100000" ap'] krnl_heap_vspace(1)
    by (auto simp: vspace_ok_def)
qed


end
