(* ===== verification/Heap.thy ===== *)
theory Heap
  imports PageAlloc TagLists
begin

text \<open>
  The heap of \<^verbatim>\<open>src/kernel/memory/pool.cpp\<close>: \<^verbatim>\<open>Allocate\<close> and \<^verbatim>\<open>Free\<close> on arenas of blocks. A request of up to
  1024 bytes gets a block of one of seven sizes; the free blocks of a size are linked in a tag list (\<open>TagLists\<close>),
  and a page of blocks starts with a header, \<^verbatim>\<open>MemArena\<close>. A larger request gets pages of its own behind such a header.

  The header of an arena (the first 12 bytes of its page) is a record kept under the address of the page,
  and the tag of a block (its first 8 bytes while it is free) is a tag of the store \<open>hp_tags\<close> under the address of the
  block; a header exists from the moment the code writes it until its page is freed. The rest of the
  memory is the memory of the theory \<open>Paging\<close>. A pointer to a descriptor is the pool and the index in its table. The functions
  run with the mutex of the physical pool held; \<open>None\<close> is a failed assertion or a page fault.
\<close>

section \<open>Blocks, arenas and descriptors\<close>

record mem_arena =
  ar_desc :: "(pool_type \<times> nat) option"
  ar_count :: nat
  ar_large :: bool

definition sizeof_MemArena :: nat where "sizeof_MemArena = 12"

record mem_block_desc =
  bd_block_size :: nat
  bd_block_count :: nat
  bd_free_blocks :: tag_list

definition MemBlockDesc_Init :: "nat \<Rightarrow> tag_list \<Rightarrow> tags \<Rightarrow> (mem_block_desc \<times> tags) option" where
  "MemBlockDesc_Init block_size free_blocks h = do {
     Assert (block_size > 0);
     Some (\<lparr>bd_block_size = block_size, bd_block_count = (page_size - sizeof_MemArena) div block_size,
            bd_free_blocks = free_blocks\<rparr>, TagList_Init free_blocks h)
   }"

definition min_block_size :: nat where "min_block_size = 16"
definition max_block_size :: nat where "max_block_size = 1024"
definition block_desc_count :: nat where "block_desc_count = 7"

text \<open>The loop of \<^verbatim>\<open>MemBlockDescTab::Init\<close> over the descriptors, given by the addresses of their lists.\<close>

fun MemBlockDescTab_Init_loop ::
    "tag_list list \<Rightarrow> nat \<Rightarrow> tags \<Rightarrow> (mem_block_desc list \<times> nat \<times> tags) option" where
  "MemBlockDescTab_Init_loop [] block_size h = Some ([], block_size, h)"
| "MemBlockDescTab_Init_loop (l # ls) block_size h = do {
     (desc, h) \<leftarrow> MemBlockDesc_Init block_size l h;
     (descs, block_size, h) \<leftarrow> MemBlockDescTab_Init_loop ls (block_size * 2) h;
     Some (desc # descs, block_size, h)
   }"

definition MemBlockDescTab_Init :: "tag_list list \<Rightarrow> tags \<Rightarrow> (mem_block_desc list \<times> tags) option" where
  "MemBlockDescTab_Init free_lists h = do {
     (descs, block_size, h) \<leftarrow> MemBlockDescTab_Init_loop free_lists min_block_size h;
     Assert (block_size div 2 = max_block_size);
     Some (descs, h)
   }"

definition MemBlockDescTab_nth :: "mem_block_desc list \<Rightarrow> nat \<Rightarrow> mem_block_desc option" where
  "MemBlockDescTab_nth descs idx = do {
     Assert (idx < block_desc_count);
     Some (descs ! idx)
   }"

text \<open>The index of the first descriptor whose blocks are large enough.\<close>

fun GetMinDesc_loop :: "mem_block_desc list \<Rightarrow> nat \<Rightarrow> u32 \<Rightarrow> nat option" where
  "GetMinDesc_loop [] i sz = None"
| "GetMinDesc_loop (desc # descs) i sz =
     (if sz \<le> of_nat (bd_block_size desc) then Some i else GetMinDesc_loop descs (Suc i) sz)"

definition MemBlockDescTab_GetMinDesc :: "mem_block_desc list \<Rightarrow> u32 \<Rightarrow> nat option" where
  "MemBlockDescTab_GetMinDesc descs sz = GetMinDesc_loop descs 0 sz"

section \<open>The heap\<close>

record heap =
  hp_mem :: memsys
  hp_tags :: tags
  hp_arena :: "u32 \<Rightarrow> mem_arena option"
  hp_kdescs :: "mem_block_desc list"
  hp_udescs :: "mem_block_desc list option"

definition GetMemBlockDescTab :: "pool_type \<Rightarrow> heap \<Rightarrow> mem_block_desc list option" where
  "GetMemBlockDescTab type s = (if type = KernelPool then Some (hp_kdescs s) else hp_udescs s)"

definition heap_desc :: "heap \<Rightarrow> pool_type \<times> nat \<Rightarrow> mem_block_desc option" where
  "heap_desc s p = do { descs \<leftarrow> GetMemBlockDescTab (fst p) s; MemBlockDescTab_nth descs (snd p) }"

definition MemBlock_GetArena :: "u32 \<Rightarrow> u32" where
  "MemBlock_GetArena block = VrAddr_GetPageAddr block"

definition MemArena_GetBlock :: "heap \<Rightarrow> u32 \<Rightarrow> nat \<Rightarrow> u32 option" where
  "MemArena_GetBlock s arena idx = do {
     ar \<leftarrow> hp_arena s arena;
     Assert (\<not> ar_large ar \<and> ar_desc ar \<noteq> None);
     Assert (idx < ar_count ar);
     desc \<leftarrow> heap_desc s (the (ar_desc ar));
     Some (arena + of_nat (sizeof_MemArena + idx * bd_block_size desc))
   }"

section \<open>Allocating\<close>

text \<open>\<^verbatim>\<open>memset\<close> of a block: its double words are cleared, and with them its tag.\<close>

definition tag_cleared :: "addr \<Rightarrow> tags \<Rightarrow> tags" where
  "tag_cleared a h = h\<lparr>tg_prev := (tg_prev h)(a := None), tg_next := (tg_next h)(a := None)\<rparr>"

definition clear_block :: "u32 \<Rightarrow> nat \<Rightarrow> heap \<Rightarrow> heap option" where
  "clear_block block n s = do {
     m \<leftarrow> mem_clear (hp_mem s) block (n div 4);
     Some (s\<lparr>hp_mem := m, hp_tags := tag_cleared (unat block) (hp_tags s)\<rparr>)
   }"

definition heap_AllocPages :: "pool_type \<Rightarrow> nat \<Rightarrow> heap \<Rightarrow> (u32 \<times> heap) option" where
  "heap_AllocPages type count s = do {
     addr_pool \<leftarrow> GetVrAddrPool type (hp_mem s);
     (addr, addr_pool, m) \<leftarrow> AllocPages_in type addr_pool count (hp_mem s);
     Some (addr, s\<lparr>hp_mem := set_vr_pool type addr_pool m\<rparr>)
   }"

definition heap_FreePages :: "pool_type \<Rightarrow> u32 \<Rightarrow> nat \<Rightarrow> heap \<Rightarrow> heap option" where
  "heap_FreePages type addr count s = do {
     addr_pool \<leftarrow> GetVrAddrPool type (hp_mem s);
     (addr_pool, m) \<leftarrow> FreePages_in type addr_pool addr count (hp_mem s);
     Some (s\<lparr>hp_mem := set_vr_pool type addr_pool m, hp_arena := (hp_arena s)(addr := None)\<rparr>)
   }"

definition Allocate_large :: "pool_type \<Rightarrow> u32 \<Rightarrow> heap \<Rightarrow> (u32 \<times> heap) option" where
  "Allocate_large type sz s = do {
     let page_count = unat (CalcPageCount (sz + of_nat sizeof_MemArena));
     (arena, s) \<leftarrow> heap_AllocPages type page_count s;
     Assert (arena \<noteq> 0);
     let s = s\<lparr>hp_arena := (hp_arena s)(arena \<mapsto> \<lparr>ar_desc = None, ar_count = page_count, ar_large = True\<rparr>)\<rparr>;
     Some (arena + of_nat sizeof_MemArena, s)
   }"

text \<open>The loop that adds the blocks of a new arena to the free list, from block \<open>i\<close> on with \<open>n\<close> left.\<close>

fun Allocate_push :: "tag_list \<Rightarrow> u32 \<Rightarrow> nat \<Rightarrow> nat \<Rightarrow> heap \<Rightarrow> heap option" where
  "Allocate_push l arena i 0 s = Some s"
| "Allocate_push l arena i (Suc n) s = do {
     block \<leftarrow> MemArena_GetBlock s arena i;
     found \<leftarrow> TagList_Find l (unat block) (hp_tags s);
     Assert (\<not> found);
     h \<leftarrow> TagList_PushBack l (unat block) (hp_tags s);
     Allocate_push l arena (Suc i) n (s\<lparr>hp_tags := h\<rparr>)
   }"

definition Allocate_arena :: "pool_type \<Rightarrow> nat \<Rightarrow> mem_block_desc \<Rightarrow> heap \<Rightarrow> heap option" where
  "Allocate_arena type idx desc s = do {
     (arena, s) \<leftarrow> heap_AllocPages type 1 s;
     Assert (arena \<noteq> 0);
     let ar = \<lparr>ar_desc = Some (type, idx), ar_count = bd_block_count desc, ar_large = False\<rparr>;
     Allocate_push (bd_free_blocks desc) arena 0 (ar_count ar) (s\<lparr>hp_arena := (hp_arena s)(arena \<mapsto> ar)\<rparr>)
   }"

text \<open>Taking a block off the free list of a descriptor.\<close>

definition Allocate_pop :: "mem_block_desc \<Rightarrow> heap \<Rightarrow> (u32 \<times> heap) option" where
  "Allocate_pop desc s = do {
     Assert (\<not> TagList_IsEmpty (bd_free_blocks desc) (hp_tags s));
     (tag, h) \<leftarrow> TagList_Pop (bd_free_blocks desc) (hp_tags s);
     let block = of_nat tag;
     s \<leftarrow> clear_block block (bd_block_size desc) (s\<lparr>hp_tags := h\<rparr>);
     let arena = MemBlock_GetArena block;
     ar \<leftarrow> hp_arena s arena;
     Assert (ar_count ar > 0);
     Some (block, s\<lparr>hp_arena := (hp_arena s)(arena \<mapsto> ar\<lparr>ar_count := ar_count ar - 1\<rparr>)\<rparr>)
   }"

definition Allocate_small :: "pool_type \<Rightarrow> u32 \<Rightarrow> heap \<Rightarrow> (u32 \<times> heap) option" where
  "Allocate_small type sz s = do {
     descs \<leftarrow> GetMemBlockDescTab type s;
     idx \<leftarrow> MemBlockDescTab_GetMinDesc descs sz;
     let desc = descs ! idx;
     s \<leftarrow> (if TagList_IsEmpty (bd_free_blocks desc) (hp_tags s) then Allocate_arena type idx desc s else Some s);
     Allocate_pop desc s
   }"

definition Allocate :: "pool_type \<Rightarrow> u32 \<Rightarrow> heap \<Rightarrow> (u32 \<times> heap) option" where
  "Allocate type sz s = do {
     Assert (sz > 0);
     let mem_pool = GetPhyMemPagePool type (hp_mem s);
     if of_nat (pl_free mem_pool) * of_nat page_size < sz then Some (0, s)
     else do {
       addr_pool \<leftarrow> GetVrAddrPool type (hp_mem s);
       if sz > of_nat max_block_size then Allocate_large type sz s
       else Allocate_small type sz s
     }
   }"

section \<open>Freeing\<close>

text \<open>The loop that takes all blocks of an arena off the free list.\<close>

fun Free_detach :: "tag_list \<Rightarrow> u32 \<Rightarrow> nat \<Rightarrow> nat \<Rightarrow> heap \<Rightarrow> heap option" where
  "Free_detach l arena i 0 s = Some s"
| "Free_detach l arena i (Suc n) s = do {
     block \<leftarrow> MemArena_GetBlock s arena i;
     found \<leftarrow> TagList_Find l (unat block) (hp_tags s);
     Assert found;
     h \<leftarrow> Tag_Detach (unat block) (hp_tags s);
     Free_detach l arena (Suc i) n (s\<lparr>hp_tags := h\<rparr>)
   }"

definition Free :: "pool_type \<Rightarrow> u32 \<Rightarrow> heap \<Rightarrow> heap option" where
  "Free type vr_base s = (if vr_base = 0 then Some s else do {
     let arena = MemBlock_GetArena vr_base;
     ar \<leftarrow> hp_arena s arena;
     if ar_large ar then do {
       Assert (ar_desc ar = None);
       heap_FreePages type arena (ar_count ar) s
     } else do {
       p \<leftarrow> ar_desc ar;
       desc \<leftarrow> heap_desc s p;
       h \<leftarrow> TagList_PushBack (bd_free_blocks desc) (unat vr_base) (hp_tags s);
       let ar = ar\<lparr>ar_count := Suc (ar_count ar)\<rparr>;
       let s = s\<lparr>hp_tags := h, hp_arena := (hp_arena s)(arena \<mapsto> ar)\<rparr>;
       if ar_count ar = bd_block_count desc then do {
         s \<leftarrow> Free_detach (bd_free_blocks desc) arena 0 (ar_count ar) s;
         heap_FreePages type arena 1 s
       } else Some s
     }
   })"

text \<open>The versions that use the pool of the current thread.\<close>

definition GetDefaultPoolType :: "bool \<Rightarrow> pool_type" where
  "GetDefaultPoolType is_krnl_thread = (if is_krnl_thread then KernelPool else UserPool)"

definition Allocate_default :: "bool \<Rightarrow> u32 \<Rightarrow> heap \<Rightarrow> (u32 \<times> heap) option" where
  "Allocate_default is_krnl_thread sz s = Allocate (GetDefaultPoolType is_krnl_thread) sz s"

definition Free_default :: "bool \<Rightarrow> u32 \<Rightarrow> heap \<Rightarrow> heap option" where
  "Free_default is_krnl_thread vr_base s = Free (GetDefaultPoolType is_krnl_thread) vr_base s"

section \<open>Places of blocks\<close>

text \<open>The sizes of the seven kinds of blocks, how many a page holds, and where they are.\<close>

definition blk_size :: "nat \<Rightarrow> nat" where "blk_size i = 16 * 2 ^ i"
definition blk_count :: "nat \<Rightarrow> nat" where "blk_count i = (page_size - sizeof_MemArena) div blk_size i"
definition blk_off :: "nat \<Rightarrow> nat \<Rightarrow> nat" where "blk_off i j = sizeof_MemArena + j * blk_size i"
definition blk :: "u32 \<Rightarrow> nat \<Rightarrow> nat \<Rightarrow> u32" where "blk a i j = a + of_nat (blk_off i j)"

lemma blk_size_pos [simp]: "0 < blk_size i"
  by (simp add: blk_size_def)

lemma blk_size_max: "i < 7 \<Longrightarrow> blk_size i \<le> 1024"
  using power_increasing [of i 6 "2 :: nat"] by (simp add: blk_size_def)

lemma blk_count_pos: "i < 7 \<Longrightarrow> 3 \<le> blk_count i"
  using blk_size_max [of i] unfolding blk_count_def
  by (subst less_eq_div_iff_mult_less_eq) (simp_all add: page_size_def sizeof_MemArena_def)

lemma blk_fits:
  assumes "j < blk_count i" "k < blk_size i"
  shows "blk_off i j + k < 4096"
proof -
  have "Suc j * blk_size i \<le> page_size - sizeof_MemArena"
    using assms(1) unfolding blk_count_def by (metis Suc_leI less_eq_div_iff_mult_less_eq blk_size_pos)
  then show ?thesis using assms(2) by (simp add: blk_off_def page_size_def sizeof_MemArena_def)
qed

lemma blk_off_inj: "blk_off i j + k = blk_off i j' + k' \<Longrightarrow> k < blk_size i \<Longrightarrow> k' < blk_size i \<Longrightarrow> j = j' \<and> k = k'"
proof -
  assume e: "blk_off i j + k = blk_off i j' + k'" and k: "k < blk_size i" "k' < blk_size i"
  then have e: "j * blk_size i + k = j' * blk_size i + k'" by (simp add: blk_off_def)
  have "(j * blk_size i + k) div blk_size i = j" "(j' * blk_size i + k') div blk_size i = j'"
    using k by (simp_all add: div_mult_self3)
  then have "j = j'" using e by metis
  then show ?thesis using e by simp
qed

text \<open>A page with an offset: both are determined by the sum.\<close>

lemma page_offset_unique:
  assumes "VrAddr_GetOffset p = 0" "VrAddr_GetOffset q = 0" "unat r < 4096" "unat r' < 4096" "p + r = q + r'"
  shows "p = q \<and> r = r'"
proof -
  have "r = r'" using page_add_fields(3) [OF assms(1,3)] page_add_fields(3) [OF assms(2,4)] assms(5) by simp
  then show ?thesis using assms(5) by simp
qed

lemma page_offset_GetPageAddr:
  assumes "VrAddr_GetOffset p = 0" "unat r < 4096"
  shows "VrAddr_GetPageAddr (p + r) = p"
  using page_add_fields(3) [OF assms] by (simp add: VrAddr_GetPageAddr_def)

lemma unat_off [simp]: "n < 4096 \<Longrightarrow> unat (of_nat n :: u32) = n"
  by (rule unat_of_nat_u32) simp

lemma blk_off_less: "j < blk_count i \<Longrightarrow> blk_off i j < 4096"
  using blk_fits [of j i 0] by simp

lemma blk_page: "VrAddr_GetOffset a = 0 \<Longrightarrow> j < blk_count i \<Longrightarrow> MemBlock_GetArena (blk a i j) = a"
  by (simp add: MemBlock_GetArena_def blk_def page_offset_GetPageAddr blk_off_less)

lemma blk_inj:
  assumes "VrAddr_GetOffset a = 0" "VrAddr_GetOffset a' = 0" "j < blk_count i" "j' < blk_count i'" "blk a i j = blk a' i' j'"
  shows "a = a'" and "i = i' \<Longrightarrow> j = j'"
proof -
  have o: "blk_off i j < 4096" "blk_off i' j' < 4096" using assms(3,4) by (simp_all add: blk_off_less)
  then have u: "a = a' \<and> (of_nat (blk_off i j) :: u32) = of_nat (blk_off i' j')"
    using page_offset_unique [of a a' "of_nat (blk_off i j)" "of_nat (blk_off i' j')"] assms by (simp add: blk_def)
  then show "a = a'" by simp
  have "blk_off i j = blk_off i' j'" using u o unat_off by metis
  then show "i = i' \<Longrightarrow> j = j'" using blk_off_inj [of i j 0 j' 0] by simp
qed

section \<open>The descriptor table\<close>

definition desc_table_ok :: "mem_block_desc list \<Rightarrow> bool" where
  "desc_table_ok ds \<longleftrightarrow> length ds = 7 \<and>
     (\<forall>i < 7. bd_block_size (ds ! i) = blk_size i \<and> bd_block_count (ds ! i) = blk_count i)"

lemma Init_loop_ok:
  "distinct (concat (map (\<lambda>l. [tl_head l, tl_tail l]) ls)) \<Longrightarrow>
   \<exists>ds h'. MemBlockDescTab_Init_loop ls (blk_size k) h = Some (ds, blk_size (k + length ls), h') \<and>
     map bd_free_blocks ds = ls \<and>
     (\<forall>i < length ls. bd_block_size (ds ! i) = blk_size (k + i) \<and> bd_block_count (ds ! i) = blk_count (k + i) \<and>
        tl_abs h' (ls ! i) []) \<and>
     same_on (- (\<Union>l \<in> set ls. {tl_head l, tl_tail l})) h h'"
proof (induction ls arbitrary: k h)
  case Nil
  then show ?case by (simp add: same_on_def)
next
  case (Cons l ls)
  let ?h = "TagList_Init l h"
  have d: "tl_head l \<noteq> tl_tail l" and dj: "{tl_head l, tl_tail l} \<inter> (\<Union>l \<in> set ls. {tl_head l, tl_tail l}) = {}"
    using Cons.prems by auto
  obtain ds h' where IH: "MemBlockDescTab_Init_loop ls (blk_size (Suc k)) ?h = Some (ds, blk_size (Suc k + length ls), h')"
    "map bd_free_blocks ds = ls"
    "\<forall>i < length ls. bd_block_size (ds ! i) = blk_size (Suc k + i) \<and> bd_block_count (ds ! i) = blk_count (Suc k + i) \<and>
        tl_abs h' (ls ! i) []"
    "same_on (- (\<Union>l \<in> set ls. {tl_head l, tl_tail l})) ?h h'"
    using Cons.IH [of "Suc k" ?h] Cons.prems by auto
  have l: "tl_abs ?h l []" "same_on (- {tl_head l, tl_tail l}) h ?h" using Init_abs [OF d] by auto
  have "same_on (set (tl_nodes l [])) ?h h'" using IH(4) dj by (auto simp: same_on_def tl_nodes_def)
  then have l': "tl_abs h' l []" using tl_abs_frame [OF l(1)] by blast
  let ?d = "\<lparr>bd_block_size = blk_size k, bd_block_count = blk_count k, bd_free_blocks = l\<rparr>"
  have "MemBlockDescTab_Init_loop (l # ls) (blk_size k) h = Some (?d # ds, blk_size (k + length (l # ls)), h')"
    using IH(1) by (simp add: MemBlockDesc_Init_def blk_count_def blk_size_def mult.commute)
  moreover have "bd_block_size ((?d # ds) ! i) = blk_size (k + i) \<and> bd_block_count ((?d # ds) ! i) = blk_count (k + i) \<and>
        tl_abs h' ((l # ls) ! i) []" if "i < length (l # ls)" for i
    using IH(3) l' that by (cases i) auto
  moreover have "same_on (- (\<Union>l \<in> set (l # ls). {tl_head l, tl_tail l})) h h'"
    using l(2) IH(4) by (auto simp: same_on_def)
  ultimately show ?case using IH(2) by (intro exI [of _ "?d # ds"] exI [of _ h'] conjI allI impI) auto
qed

lemma MemBlockDescTab_Init_ok:
  assumes "length ls = 7" "distinct (concat (map (\<lambda>l. [tl_head l, tl_tail l]) ls))"
  obtains ds h' where "MemBlockDescTab_Init ls h = Some (ds, h')" "desc_table_ok ds" "map bd_free_blocks ds = ls"
    "\<And>i. i < 7 \<Longrightarrow> tl_abs h' (ls ! i) []"
proof -
  obtain ds h' where i: "MemBlockDescTab_Init_loop ls (blk_size 0) h = Some (ds, blk_size (0 + length ls), h')"
    "map bd_free_blocks ds = ls"
    "\<forall>i < length ls. bd_block_size (ds ! i) = blk_size (0 + i) \<and> bd_block_count (ds ! i) = blk_count (0 + i) \<and>
        tl_abs h' (ls ! i) []"
    using Init_loop_ok [OF assms(2), of 0 h] by blast
  have "MemBlockDescTab_Init ls h = Some (ds, h')"
    using i(1) assms(1) by (simp add: MemBlockDescTab_Init_def min_block_size_def max_block_size_def blk_size_def)
  moreover have "length ds = 7" using i(2) assms(1) by (metis length_map)
  ultimately show thesis using that [of ds h'] i(2,3) assms(1) by (simp add: desc_table_ok_def)
qed

lemma GetMinDesc_loop_ok:
  assumes "\<And>k. k < length ds \<Longrightarrow> bd_block_size (ds ! k) = blk_size (i + k)" "0 < length ds"
    "unat sz \<le> blk_size (i + length ds - 1)" "i + length ds \<le> 7"
  shows "\<exists>k < length ds. GetMinDesc_loop ds i sz = Some (i + k) \<and> unat sz \<le> blk_size (i + k) \<and>
     (\<forall>j < k. blk_size (i + j) < unat sz)"
  using assms
proof (induction ds arbitrary: i)
  case (Cons d ds)
  have "bd_block_size d = blk_size i" using Cons.prems(1) [of 0] by simp
  moreover have "blk_size i < 2 ^ 32"
    using Cons.prems(4) power_strict_increasing_iff [of "2 :: nat" i 7] by (simp add: blk_size_def)
  ultimately have le: "sz \<le> of_nat (bd_block_size d) \<longleftrightarrow> unat sz \<le> blk_size i"
    by (simp add: word_le_nat_alt unat_of_nat_u32)
  show ?case
  proof (cases "unat sz \<le> blk_size i")
    case False
    then have "0 < length ds" using Cons.prems(3) by (cases ds) auto
    moreover have "bd_block_size (ds ! k) = blk_size (Suc i + k)" if "k < length ds" for k
      using Cons.prems(1) [of "Suc k"] that by simp
    ultimately obtain k where k: "k < length ds" "GetMinDesc_loop ds (Suc i) sz = Some (Suc i + k)"
      "unat sz \<le> blk_size (Suc i + k)" "\<forall>j < k. blk_size (Suc i + j) < unat sz"
      using Cons.IH [of "Suc i"] Cons.prems(3,4) by auto
    have "blk_size (i + j) < unat sz" if "j < Suc k" for j using k(4) False that by (cases j) auto
    then show ?thesis using k False le by (intro exI [of _ "Suc k"]) simp
  qed (use le in \<open>auto intro!: exI [of _ 0]\<close>)
qed simp

lemma GetMinDesc_ok:
  assumes "desc_table_ok ds" "unat sz \<le> 1024"
  obtains i where "i < 7" "MemBlockDescTab_GetMinDesc ds sz = Some i" "unat sz \<le> blk_size i"
    "\<And>j. j < i \<Longrightarrow> blk_size j < unat sz"
proof -
  have "blk_size 6 = 1024" by (simp add: blk_size_def)
  moreover have "length ds = 7" "ds \<noteq> []" using assms(1) by (auto simp: desc_table_ok_def)
  ultimately show thesis
    using GetMinDesc_loop_ok [of ds 0 sz] assms that by (auto simp: desc_table_ok_def MemBlockDescTab_GetMinDesc_def)
qed

section \<open>The invariant\<close>

definition arena_at :: "heap \<Rightarrow> page_pool \<Rightarrow> u32 \<Rightarrow> mem_arena \<Rightarrow> bool" where
  "arena_at s ap a ar \<longleftrightarrow> a \<in> pool_used ap \<and> hp_arena s a = Some ar"

definition arena_pages :: "u32 \<Rightarrow> mem_arena \<Rightarrow> u32 set" where
  "arena_pages a ar = (if ar_large ar then page_run a (ar_count ar) else {a})"

text \<open>All blocks of one size, and the free ones among the blocks of an arena; \<open>xs i\<close> is the free list of size \<open>i\<close>.\<close>

definition small_arena :: "pool_type \<Rightarrow> heap \<Rightarrow> page_pool \<Rightarrow> nat \<Rightarrow> u32 \<Rightarrow> bool" where
  "small_arena t s ap i a \<longleftrightarrow> (\<exists>ar. arena_at s ap a ar \<and> \<not> ar_large ar \<and> ar_desc ar = Some (t, i))"

definition blocks_of :: "pool_type \<Rightarrow> heap \<Rightarrow> page_pool \<Rightarrow> nat \<Rightarrow> u32 set" where
  "blocks_of t s ap i = {blk a i j |a j. small_arena t s ap i a \<and> j < blk_count i}"

definition free_in :: "(nat \<Rightarrow> u32 list) \<Rightarrow> u32 \<Rightarrow> nat \<Rightarrow> nat set" where
  "free_in xs a i = {j. j < blk_count i \<and> blk a i j \<in> set (xs i)}"

definition arena_ok :: "pool_type \<Rightarrow> page_pool \<Rightarrow> (nat \<Rightarrow> u32 list) \<Rightarrow> u32 \<Rightarrow> mem_arena \<Rightarrow> bool" where
  "arena_ok t ap xs a ar \<longleftrightarrow> (if ar_large ar
     then ar_desc ar = None \<and> 0 < ar_count ar \<and> page_run a (ar_count ar) \<subseteq> pool_used ap \<and>
       card (page_run a (ar_count ar)) = ar_count ar
     else \<exists>i < 7. ar_desc ar = Some (t, i) \<and> ar_count ar = card (free_in xs a i))"

text \<open>The sentinels of the free lists are different and lie outside the pages of the heap.\<close>

definition sentinels :: "mem_block_desc list \<Rightarrow> nat \<Rightarrow> addr set" where
  "sentinels ds i = {tl_head (bd_free_blocks (ds ! i)), tl_tail (bd_free_blocks (ds ! i))}"

definition sentinels_ok :: "mem_block_desc list \<Rightarrow> page_pool \<Rightarrow> bool" where
  "sentinels_ok ds ap \<longleftrightarrow> (\<forall>i < 7. \<forall>k < 7. i \<noteq> k \<longrightarrow> sentinels ds i \<inter> sentinels ds k = {}) \<and>
     (\<forall>i < 7. \<forall>a \<in> pool_pages ap. \<forall>r. unat r < 4096 \<longrightarrow> unat (a + r) \<notin> sentinels ds i)"

definition lists_ok :: "pool_type \<Rightarrow> heap \<Rightarrow> page_pool \<Rightarrow> mem_block_desc list \<Rightarrow> (nat \<Rightarrow> u32 list) \<Rightarrow> bool" where
  "lists_ok t s ap ds xs \<longleftrightarrow> (\<forall>i < 7. tl_abs (hp_tags s) (bd_free_blocks (ds ! i)) (map unat (xs i)) \<and>
     set (xs i) \<subseteq> blocks_of t s ap i)"

definition arenas_ok :: "pool_type \<Rightarrow> heap \<Rightarrow> page_pool \<Rightarrow> (nat \<Rightarrow> u32 list) \<Rightarrow> bool" where
  "arenas_ok t s ap xs \<longleftrightarrow> (\<forall>a ar. arena_at s ap a ar \<longrightarrow> arena_ok t ap xs a ar) \<and>
     (\<forall>a ar a' ar'. arena_at s ap a ar \<and> arena_at s ap a' ar' \<and> a \<noteq> a' \<longrightarrow> arena_pages a ar \<inter> arena_pages a' ar' = {}) \<and>
     (\<forall>a \<in> pool_avail ap. hp_arena s a = None)"

definition space_of :: "pool_type \<Rightarrow> heap \<Rightarrow> page_pool \<Rightarrow> mem_block_desc list \<Rightarrow> bool" where
  "space_of t s ap ds \<longleftrightarrow> GetVrAddrPool t (hp_mem s) = Some ap \<and> vspace_ok t (hp_mem s) ap \<and>
     GetMemBlockDescTab t s = Some ds \<and> desc_table_ok ds \<and> sentinels_ok ds ap"

definition heap_inv :: "pool_type \<Rightarrow> heap \<Rightarrow> page_pool \<Rightarrow> mem_block_desc list \<Rightarrow> (nat \<Rightarrow> u32 list) \<Rightarrow> bool" where
  "heap_inv t s ap ds xs \<longleftrightarrow> space_of t s ap ds \<and> lists_ok t s ap ds xs \<and> arenas_ok t s ap xs"

text \<open>An arena with all its blocks free is given back, so none is left.\<close>

definition arena_full :: "mem_arena \<Rightarrow> bool" where
  "arena_full ar \<longleftrightarrow> \<not> ar_large ar \<and> (\<exists>t i. ar_desc ar = Some (t, i) \<and> ar_count ar = blk_count i)"

definition heap_ok :: "pool_type \<Rightarrow> heap \<Rightarrow> bool" where
  "heap_ok t s \<longleftrightarrow> (\<exists>ap ds xs. heap_inv t s ap ds xs \<and> (\<forall>a ar. arena_at s ap a ar \<longrightarrow> \<not> arena_full ar))"

text \<open>The allocated blocks with their sizes.\<close>

definition live_in :: "pool_type \<Rightarrow> (nat \<Rightarrow> u32 \<Rightarrow> bool) \<Rightarrow> u32 \<Rightarrow> mem_arena \<Rightarrow> u32 \<Rightarrow> nat \<Rightarrow> bool" where
  "live_in t is_free a ar b n \<longleftrightarrow>
     (if ar_large ar then b = a + of_nat sizeof_MemArena \<and> n = ar_count ar * page_size - sizeof_MemArena
      else \<exists>i j. ar_desc ar = Some (t, i) \<and> j < blk_count i \<and> b = blk a i j \<and> n = blk_size i \<and> \<not> is_free i b)"

definition live :: "pool_type \<Rightarrow> heap \<Rightarrow> (u32 \<times> nat) set" where
  "live t s = {(b, n). \<exists>ap ds a ar. GetVrAddrPool t (hp_mem s) = Some ap \<and> GetMemBlockDescTab t s = Some ds \<and>
     arena_at s ap a ar \<and>
     live_in t (\<lambda>i b. TagList_Find (bd_free_blocks (ds ! i)) (unat b) (hp_tags s) = Some True) a ar b n}"

section \<open>Consequences of the invariant\<close>

lemma space_of_page:
  assumes "space_of t s ap ds" "a \<in> pool_used ap \<union> pool_avail ap"
  shows "VrAddr_GetOffset a = 0" "heap_page a" "a \<noteq> 0"
proof -
  have "pool_ok ap" "space t (hp_mem s) (pool_used ap) (pool_avail ap)"
    using assms(1) by (auto simp: space_of_def vspace_ok_def)
  then show "heap_page a" "a \<noteq> 0" using assms(2) vp.aligned [of ap a] by (auto simp: space_def)
  then show "VrAddr_GetOffset a = 0" by (simp add: heap_page_def)
qed

lemma blocks_ofE:
  assumes "b \<in> blocks_of t s ap i"
  obtains a ar j where "arena_at s ap a ar" "\<not> ar_large ar" "ar_desc ar = Some (t, i)" "j < blk_count i" "b = blk a i j"
    "a \<in> pool_used ap"
  using assms by (auto simp: blocks_of_def small_arena_def arena_at_def)

lemma block_not_sentinel:
  assumes "space_of t s ap ds" "b \<in> blocks_of t s ap i" "k < 7"
  shows "unat b \<notin> sentinels ds k"
proof (rule blocks_ofE [OF assms(2)])
  fix a j assume a: "j < blk_count i" "b = blk a i j" "a \<in> pool_used ap"
  then have "unat (a + of_nat (blk_off i j)) \<notin> sentinels ds k"
    using assms(1,3) by (simp add: space_of_def sentinels_ok_def pool_pages_def blk_off_less)
  then show ?thesis using a by (simp add: blk_def)
qed

lemma blocks_of_disjoint:
  assumes "space_of t s ap ds" "b \<in> blocks_of t s ap i" "b \<in> blocks_of t s ap k"
  shows "i = k"
proof (rule blocks_ofE [OF assms(2)], rule blocks_ofE [OF assms(3)])
  fix a ar j a' ar' j'
  assume a: "arena_at s ap a ar" "ar_desc ar = Some (t, i)" "j < blk_count i" "b = blk a i j" "a \<in> pool_used ap"
    and a': "arena_at s ap a' ar'" "ar_desc ar' = Some (t, k)" "j' < blk_count k" "b = blk a' k j'" "a' \<in> pool_used ap"
  have "a = a'" using blk_inj(1) [of a a' j i j' k] a a' space_of_page(1) [OF assms(1)] by simp
  then show ?thesis using a a' by (simp add: arena_at_def)
qed

text \<open>An operation on the free list of one size leaves the other lists as they are.\<close>

lemma other_list:
  assumes sp: "space_of t s ap ds" and k: "k < 7" "i < 7" "k \<noteq> i"
    and l: "tl_abs h (bd_free_blocks (ds ! k)) (map unat ys)" "set ys \<subseteq> blocks_of t s ap k"
    and f: "same_on (- (sentinels ds i \<union> unat ` blocks_of t s ap i)) h h'"
  shows "tl_abs h' (bd_free_blocks (ds ! k)) (map unat ys)"
proof (rule tl_abs_frame [OF l(1)])
  have d1: "sentinels ds k \<inter> sentinels ds i = {}" using sp k by (simp add: space_of_def sentinels_ok_def)
  have d2: "unat ` set ys \<inter> sentinels ds i = {}" using block_not_sentinel [OF sp _ k(2)] l(2) by blast
  have d3: "sentinels ds k \<inter> unat ` blocks_of t s ap i = {}" using block_not_sentinel [OF sp _ k(1)] by blast
  have "set ys \<inter> blocks_of t s ap i = {}" using blocks_of_disjoint [OF sp, of _ k i] l(2) k(3) by blast
  then have d4: "unat ` set ys \<inter> unat ` blocks_of t s ap i = {}" by (auto simp flip: word_unat_eq_iff)
  have n: "set (tl_nodes (bd_free_blocks (ds ! k)) (map unat ys)) = sentinels ds k \<union> unat ` set ys"
    by (simp add: tl_nodes_set sentinels_def)
  have "set (tl_nodes (bd_free_blocks (ds ! k)) (map unat ys)) \<inter> (sentinels ds i \<union> unat ` blocks_of t s ap i) = {}"
    unfolding n Int_Un_distrib Int_Un_distrib2 d1 d2 d3 d4 by simp
  then show "same_on (set (tl_nodes (bd_free_blocks (ds ! k)) (map unat ys))) h h'"
    using f by (auto simp: same_on_def)
qed

text \<open>One list of free blocks is replaced; \<open>u\<close> is a state in which the old and the new blocks of its size are known.\<close>

lemma lists_ok_change:
  assumes sp: "space_of t u aq ds" and ls: "lists_ok t s ap ds xs" and i: "i < 7"
    and bo: "\<And>k. k \<noteq> i \<Longrightarrow> blocks_of t u aq k = blocks_of t s ap k" "\<And>k. k \<noteq> i \<Longrightarrow> blocks_of t s' ap' k = blocks_of t s ap k"
    and keep: "same_on (- (sentinels ds i \<union> unat ` blocks_of t u aq i)) (hp_tags s) (hp_tags s')"
    and new: "tl_abs (hp_tags s') (bd_free_blocks (ds ! i)) (map unat ys)" "set ys \<subseteq> blocks_of t s' ap' i"
  shows "lists_ok t s' ap' ds (xs(i := ys))"
  unfolding lists_ok_def
proof (intro allI impI)
  fix k assume k: "k < (7 :: nat)"
  show "tl_abs (hp_tags s') (bd_free_blocks (ds ! k)) (map unat ((xs(i := ys)) k)) \<and> set ((xs(i := ys)) k) \<subseteq> blocks_of t s' ap' k"
  proof (cases "k = i")
    case False
    have "tl_abs (hp_tags s) (bd_free_blocks (ds ! k)) (map unat (xs k))" "set (xs k) \<subseteq> blocks_of t u aq k"
      using ls k bo(1) [OF False] by (auto simp: lists_ok_def)
    then show ?thesis using other_list [OF sp k i False _ _ keep] bo [OF False] False by simp
  qed (use new in simp)
qed

lemma list_abs:
  "heap_inv t s ap ds xs \<Longrightarrow> i < 7 \<Longrightarrow> tl_abs (hp_tags s) (bd_free_blocks (ds ! i)) (map unat (xs i))"
  by (simp add: heap_inv_def lists_ok_def)

lemma list_block:
  assumes "heap_inv t s ap ds xs" "i < 7" "b \<in> set (xs i)"
  shows "b \<in> blocks_of t s ap i"
  using assms by (auto simp: heap_inv_def lists_ok_def)

lemma small_arena_idx:
  assumes "heap_inv t s ap ds xs" "arena_at s ap a ar" "ar_desc ar = Some (t', i)"
  shows "i < 7" "t' = t" "\<not> ar_large ar" "ar_count ar = card (free_in xs a i)"
proof -
  have "arena_ok t ap xs a ar" using assms by (simp add: heap_inv_def arenas_ok_def)
  then show "i < 7" "t' = t" "\<not> ar_large ar" "ar_count ar = card (free_in xs a i)"
    using assms(3) by (auto simp: arena_ok_def split: if_splits)
qed

lemma live_inv:
  assumes inv: "heap_inv t s ap ds xs"
  shows "(b, n) \<in> live t s \<longleftrightarrow> (\<exists>a ar. arena_at s ap a ar \<and> live_in t (\<lambda>i b. b \<in> set (xs i)) a ar b n)"
proof -
  have g: "GetVrAddrPool t (hp_mem s) = Some ap" "GetMemBlockDescTab t s = Some ds"
    using inv by (auto simp: heap_inv_def space_of_def)
  have f: "TagList_Find (bd_free_blocks (ds ! i)) (unat b) (hp_tags s) = Some (b \<in> set (xs i))" if "i < 7" for i b
    using inv that Find_abs [of "hp_tags s" "bd_free_blocks (ds ! i)" "map unat (xs i)" "unat b"]
    by (auto simp: heap_inv_def lists_ok_def simp flip: word_unat_eq_iff)
  have "live_in t (\<lambda>i b. TagList_Find (bd_free_blocks (ds ! i)) (unat b) (hp_tags s) = Some True) a ar b n \<longleftrightarrow>
      live_in t (\<lambda>i b. b \<in> set (xs i)) a ar b n" if "arena_at s ap a ar" for a ar
    unfolding live_in_def using small_arena_idx(1) [OF inv that] f by (auto split: if_splits)
  then show ?thesis unfolding live_def using g by (auto cong: conj_cong)
qed

section \<open>Steps that keep the invariant\<close>

text \<open>The list of one size and the count of one arena change.\<close>

lemma arena_count_update:
  assumes "arena_at s ap a ar" "\<not> ar_large ar" "hp_arena s' = (hp_arena s)(a \<mapsto> ar\<lparr>ar_count := c\<rparr>)"
  shows "blocks_of t s' ap k = blocks_of t s ap k"
    "arena_at s' ap b br \<and> ar_large br \<longleftrightarrow> arena_at s ap b br \<and> ar_large br"
proof -
  have "small_arena t s' ap k a' \<longleftrightarrow> small_arena t s ap k a'" for k a'
    using assms unfolding small_arena_def by (cases "a' = a") (auto simp: arena_at_def)
  then show "blocks_of t s' ap k = blocks_of t s ap k" by (simp add: blocks_of_def)
  show "arena_at s' ap b br \<and> ar_large br \<longleftrightarrow> arena_at s ap b br \<and> ar_large br"
    using assms by (cases "b = a") (auto simp: arena_at_def)
qed

lemma heap_inv_update:
  assumes inv: "heap_inv t s ap ds xs" and a: "arena_at s ap a ar" "ar_desc ar = Some (t, i)"
    and s': "hp_arena s' = (hp_arena s)(a \<mapsto> ar\<lparr>ar_count := c\<rparr>)" "space_of t s' ap ds"
    and l: "tl_abs (hp_tags s') (bd_free_blocks (ds ! i)) (map unat ys)" "set ys \<subseteq> blocks_of t s ap i"
      "same_on (- (sentinels ds i \<union> unat ` blocks_of t s ap i)) (hp_tags s) (hp_tags s')"
    and o: "\<And>a' j. a' \<in> pool_used ap \<Longrightarrow> a' \<noteq> a \<Longrightarrow> j < blk_count i \<Longrightarrow> blk a' i j \<in> set ys \<longleftrightarrow> blk a' i j \<in> set (xs i)"
    and c: "c = card (free_in (xs(i := ys)) a i)"
  shows "heap_inv t s' ap ds (xs(i := ys))"
proof -
  have sp: "space_of t s ap ds" and ls: "lists_ok t s ap ds xs" and as: "arenas_ok t s ap xs"
    using inv by (auto simp: heap_inv_def)
  note ai = small_arena_idx [OF inv a]
  have at': "arena_at s' ap a' ar' \<longleftrightarrow> (if a' = a then ar' = ar\<lparr>ar_count := c\<rparr> else arena_at s ap a' ar')" for a' ar'
    using a(1) s'(1) by (auto simp: arena_at_def)
  note bo = arena_count_update(1) [OF a(1) ai(3) s'(1)]
  have "lists_ok t s' ap ds (xs(i := ys))"
    by (rule lists_ok_change [OF sp ls ai(1) refl bo l(3,1)]) (simp add: bo l(2))
  moreover have "arena_ok t ap (xs(i := ys)) a' ar'" if "arena_at s' ap a' ar'" for a' ar'
  proof (cases "a' = a")
    case True
    then show ?thesis using that at' ai(1-3) a(2) c by (auto simp: arena_ok_def)
  next
    case False
    then have old: "arena_at s ap a' ar'" using that at' by simp
    have "free_in (xs(i := ys)) a' k = free_in xs a' k" for k
      using o [OF _ False] old by (auto simp: free_in_def arena_at_def)
    then show ?thesis using as old by (simp add: arenas_ok_def arena_ok_def)
  qed
  moreover have "arena_pages a' ar' \<inter> arena_pages b br = {}"
    if "arena_at s' ap a' ar'" "arena_at s' ap b br" "a' \<noteq> b" for a' ar' b br
  proof -
    have pg: "\<exists>r. arena_at s ap x r \<and> arena_pages x r = arena_pages x xr" if "arena_at s' ap x xr" for x xr
      using that a(1) ai(3) unfolding at' by (auto simp: arena_pages_def split: if_splits)
    show ?thesis using pg [OF that(1)] pg [OF that(2)] as that(3) unfolding arenas_ok_def by metis
  qed
  moreover have "hp_arena s' b = None" if "b \<in> pool_avail ap" for b
  proof -
    have "pool_ok ap" using sp by (simp add: space_of_def vspace_ok_def)
    then have "b \<noteq> a" using a(1) that pool_used_avail by (auto simp: arena_at_def)
    then show ?thesis using as that s'(1) by (simp add: arenas_ok_def)
  qed
  ultimately show ?thesis using s'(2) unfolding heap_inv_def arenas_ok_def by blast
qed

text \<open>A new arena, with its pages taken from the free ones.\<close>

lemma heap_inv_new:
  assumes inv: "heap_inv t s ap ds xs" and sp': "space_of t s' ap' ds" and R: "R \<subseteq> pool_avail ap" "a \<in> R"
    and ap': "pool_used ap' = pool_used ap \<union> R" "pool_avail ap' = pool_avail ap - R"
    and s': "hp_arena s' = (hp_arena s)(a \<mapsto> ar)" "arena_pages a ar = R" "arena_ok t ap' xs' a ar"
    and ls': "lists_ok t s' ap' ds xs'"
    and o: "\<And>a' i. a' \<in> pool_used ap \<Longrightarrow> free_in xs' a' i = free_in xs a' i"
  shows "heap_inv t s' ap' ds xs'"
proof -
  have as: "arenas_ok t s ap xs" and po: "pool_ok ap" using inv by (auto simp: heap_inv_def space_of_def vspace_ok_def)
  have dj: "R \<inter> pool_used ap = {}" using R(1) pool_used_avail [OF po] by blast
  have at': "arena_at s' ap' a' ar' \<longleftrightarrow> (if a' = a then ar' = ar else arena_at s ap a' ar')" for a' ar'
  proof (cases "a' = a")
    case True
    then show ?thesis using R(2) s'(1) ap'(1) by (auto simp: arena_at_def)
  next
    case False
    have "hp_arena s a' = None" if "a' \<in> R" using as R(1) that unfolding arenas_ok_def by blast
    then show ?thesis using False s'(1) ap'(1) by (auto simp: arena_at_def)
  qed
  have old: "arena_ok t ap' xs' a' ar'" "arena_pages a' ar' \<subseteq> pool_used ap" if "arena_at s ap a' ar'" for a' ar'
  proof -
    have ok: "arena_ok t ap xs a' ar'" and u: "a' \<in> pool_used ap" using as that by (auto simp: arenas_ok_def arena_at_def)
    then show "arena_pages a' ar' \<subseteq> pool_used ap" by (auto simp: arena_ok_def arena_pages_def split: if_splits)
    show "arena_ok t ap' xs' a' ar'" using ok o [OF u] ap'(1) by (auto simp: arena_ok_def split: if_splits)
  qed
  have "arena_ok t ap' xs' a' ar'" if "arena_at s' ap' a' ar'" for a' ar'
    using that s'(3) old(1) by (cases "a' = a") (simp_all add: at')
  moreover have "arena_pages a' ar' \<inter> arena_pages b br = {}"
    if x: "arena_at s' ap' a' ar'" "arena_at s' ap' b br" "a' \<noteq> b" for a' ar' b br
  proof -
    consider "a' = a" "b \<noteq> a" | "a' \<noteq> a" "b = a" | "a' \<noteq> a" "b \<noteq> a" using x(3) by blast
    then show ?thesis
    proof cases
      case 1
      then show ?thesis using old(2) [of b br] x s'(2) dj by (auto simp: at')
    next
      case 2
      then show ?thesis using old(2) [of a' ar'] x s'(2) dj by (auto simp: at')
    next
      case 3
      then show ?thesis using x as unfolding at' arenas_ok_def by metis
    qed
  qed
  moreover have "hp_arena s' b = None" if "b \<in> pool_avail ap'" for b
    using that ap'(2) R(2) s'(1) as by (auto simp: arenas_ok_def)
  ultimately show ?thesis using sp' ls' unfolding heap_inv_def arenas_ok_def by blast
qed

text \<open>An arena is given back with its pages.\<close>

lemma arena_pages_self:
  assumes "heap_inv t s ap ds xs" "arena_at s ap b br"
  shows "b \<in> arena_pages b br" "arena_pages b br \<subseteq> pool_used ap"
proof -
  have "arena_ok t ap xs b br" using assms by (simp add: heap_inv_def arenas_ok_def)
  then show "b \<in> arena_pages b br" "arena_pages b br \<subseteq> pool_used ap"
    using assms(2)
    by (auto simp: arena_ok_def arena_pages_def arena_at_def page_run_def intro: rev_image_eqI [of 0] split: if_splits)
qed

lemma arena_at_drop:
  assumes inv: "heap_inv t s ap ds xs" and at: "arena_at s ap a ar"
    and ap': "pool_used ap' = pool_used ap - arena_pages a ar" and s': "hp_arena s' = (hp_arena s)(a := None)"
  shows "arena_at s' ap' b br \<longleftrightarrow> b \<noteq> a \<and> arena_at s ap b br"
proof (cases "b \<in> arena_pages a ar \<and> b \<noteq> a")
  case True
  have "arena_pages b br \<inter> arena_pages a ar = {}" if "arena_at s ap b br"
    using inv that at True unfolding heap_inv_def arenas_ok_def by blast
  then have "\<not> arena_at s ap b br" using arena_pages_self(1) [OF inv, of b br] True by blast
  then show ?thesis using True s' ap' by (simp add: arena_at_def)
next
  case False
  then show ?thesis using s' ap' arena_pages_self(1) [OF inv at] by (auto simp: arena_at_def)
qed

lemma heap_inv_drop:
  assumes inv: "heap_inv t s ap ds xs" and at: "arena_at s ap a ar" and sp': "space_of t s' ap' ds"
    and ap': "pool_used ap' = pool_used ap - arena_pages a ar" "pool_avail ap' = pool_avail ap \<union> arena_pages a ar"
    and s': "hp_arena s' = (hp_arena s)(a := None)" and ls': "lists_ok t s' ap' ds xs'"
    and o: "\<And>a' i. a' \<in> pool_used ap \<Longrightarrow> a' \<noteq> a \<Longrightarrow> free_in xs' a' i = free_in xs a' i"
  shows "heap_inv t s' ap' ds xs'"
proof -
  have as: "arenas_ok t s ap xs" using inv by (simp add: heap_inv_def)
  have ok: "arena_ok t ap xs b br" if "arena_at s ap b br" for b br using as that by (simp add: arenas_ok_def)
  note self = arena_pages_self(1) [OF inv]
  have dj: "arena_pages b br \<inter> arena_pages a ar = {}" if "arena_at s ap b br" "b \<noteq> a" for b br
    using as that at unfolding arenas_ok_def by blast
  note at' = arena_at_drop [OF inv at ap'(1) s']
  have "arena_ok t ap' xs' b br" if x: "arena_at s' ap' b br" for b br
  proof -
    have b: "b \<noteq> a" "arena_at s ap b br" using x at' by auto
    then have u: "b \<in> pool_used ap" by (simp add: arena_at_def)
    have "arena_pages b br \<subseteq> pool_used ap'" if "ar_large br"
      using ok [OF b(2)] dj [OF b(2,1)] that ap'(1) by (auto simp: arena_ok_def arena_pages_def)
    then show ?thesis using ok [OF b(2)] o [OF u b(1)] by (auto simp: arena_ok_def arena_pages_def split: if_splits)
  qed
  moreover have "arena_pages b br \<inter> arena_pages c cr = {}"
    if "arena_at s' ap' b br" "arena_at s' ap' c cr" "b \<noteq> c" for b br c cr
    using as that unfolding at' arenas_ok_def by blast
  moreover have "hp_arena s' b = None" if b: "b \<in> pool_avail ap'" for b
  proof (cases "b \<in> arena_pages a ar")
    case True
    have "arena_pages a ar \<subseteq> pool_used ap" using arena_pages_self(2) [OF inv at] .
    then have "b = a \<or> \<not> arena_at s ap b br" for br using True dj [of b br] self [of b br] by blast
    moreover have "b \<in> pool_used ap" using True \<open>arena_pages a ar \<subseteq> pool_used ap\<close> by blast
    ultimately have "b = a \<or> hp_arena s b = None" by (cases "hp_arena s b") (auto simp: arena_at_def)
    then show ?thesis using s' by auto
  next
    case False
    then show ?thesis using b ap'(2) as s' by (auto simp: arenas_ok_def)
  qed
  ultimately show ?thesis using sp' ls' unfolding heap_inv_def arenas_ok_def by blast
qed

section \<open>Pages of the heap\<close>

lemma set_vr_pool_fields [simp]:
  "dir_entry (set_vr_pool t p s) = dir_entry s" "mmu_pde (set_vr_pool t p s) = mmu_pde s"
  "mmu_translate (set_vr_pool t p s) = mmu_translate s" "tables_ok (set_vr_pool t p s) = tables_ok s"
  "table_page (set_vr_pool t p s) = table_page s" "ms_mem (set_vr_pool t p s) = ms_mem s"
  "pte_word (set_vr_pool t p s) = pte_word s" "mem_read (set_vr_pool t p s) = mem_read s"
  "GetPhyMemPagePool t' (set_vr_pool t p s) = GetPhyMemPagePool t' s" "GetVrAddrPool t (set_vr_pool t p s) = Some p"
  by (cases t; simp add: set_vr_pool_def fun_eq_iff dir_entry_def mmu_pde_def mmu_pte_def mmu_translate_def selfmap_ok_def
      tables_ok_def table_page_def pte_word_def mem_read_def GetPhyMemPagePool_def GetVrAddrPool_def)+

lemma vspace_set_vr_pool [simp]: "vspace_ok t (set_vr_pool t p s) ap = vspace_ok t s ap"
  by (simp add: vspace_ok_def space_def mem_ok_pools frames_ok_def holds_page_def sole_entry_def)

lemma GetMemBlockDescTab_update [simp]:
  "GetMemBlockDescTab t (s\<lparr>hp_mem := m\<rparr>) = GetMemBlockDescTab t s"
  "GetMemBlockDescTab t (s\<lparr>hp_tags := h\<rparr>) = GetMemBlockDescTab t s"
  "GetMemBlockDescTab t (s\<lparr>hp_arena := f\<rparr>) = GetMemBlockDescTab t s"
  by (simp_all add: GetMemBlockDescTab_def)

lemma heap_desc_update [simp]:
  "heap_desc (s\<lparr>hp_mem := m\<rparr>) = heap_desc s" "heap_desc (s\<lparr>hp_tags := h\<rparr>) = heap_desc s"
  "heap_desc (s\<lparr>hp_arena := f\<rparr>) = heap_desc s"
  by (simp_all add: heap_desc_def fun_eq_iff)

lemma heap_AllocPages_ok:
  assumes sp: "space_of t s ap ds" and n: "0 < n" and en: "enough t n (hp_mem s)"
    and room: "VrAddrPool_AllocPages ap n \<noteq> Some (0, ap)"
  obtains a ap' s' where "heap_AllocPages t n s = Some (a, s')" "a \<noteq> 0" "space_of t s' ap' ds"
    "page_run a n \<subseteq> pool_avail ap" "card (page_run a n) = n"
    "pool_used ap' = pool_used ap \<union> page_run a n" "pool_avail ap' = pool_avail ap - page_run a n"
    "\<forall>k < 1024 * n. mem_read (hp_mem s') (a + of_nat (4 * k)) = Some 0"
    "\<forall>b k. b \<in> pool_used ap \<and> unat k < 4096 \<longrightarrow> mem_read (hp_mem s') (b + k) = mem_read (hp_mem s) (b + k)"
    "hp_tags s' = hp_tags s" "hp_arena s' = hp_arena s" "hp_kdescs s' = hp_kdescs s" "hp_udescs s' = hp_udescs s"
proof -
  have g: "GetVrAddrPool t (hp_mem s) = Some ap" and vs: "vspace_ok t (hp_mem s) ap"
    using sp by (auto simp: space_of_def)
  show thesis
  proof (rule alloc_pages_ok [OF vs n en])
    fix a ap' m assume a: "AllocPages_in t ap n (hp_mem s) = Some (a, ap', m)" "a \<noteq> 0" "vspace_ok t m ap'"
      "page_run a n \<subseteq> pool_avail ap" "pool_used ap' = pool_used ap \<union> page_run a n"
      "\<forall>k < 1024 * n. mem_read m (a + of_nat (4 * k)) = Some 0"
      "\<forall>b k. b \<in> pool_used ap \<and> unat k < 4096 \<longrightarrow> mem_read m (b + k) = mem_read (hp_mem s) (b + k)"
      "card (page_run a n) = n" "pool_avail ap' = pool_avail ap - page_run a n"
    let ?s = "s\<lparr>hp_mem := set_vr_pool t ap' m\<rparr>"
    have "pool_pages ap' = pool_pages ap" using a(4,5,9) by (auto simp: pool_pages_def)
    then have "space_of t ?s ap' ds"
      using sp a(3) by (simp add: space_of_def sentinels_ok_def)
    then show thesis using that [of a ?s ap'] a g by (simp add: heap_AllocPages_def)
  qed (use room in blast)
qed

lemma heap_FreePages_ok:
  assumes sp: "space_of t s ap ds" and n: "0 < n" "page_run a n \<subseteq> pool_used ap" "card (page_run a n) = n"
  obtains ap' s' where "heap_FreePages t a n s = Some s'" "space_of t s' ap' ds"
    "pool_used ap' = pool_used ap - page_run a n" "pool_avail ap' = pool_avail ap \<union> page_run a n"
    "\<forall>b k. b \<in> pool_used ap' \<and> unat k < 4096 \<longrightarrow> mem_read (hp_mem s') (b + k) = mem_read (hp_mem s) (b + k)"
    "hp_tags s' = hp_tags s" "hp_arena s' = (hp_arena s)(a := None)" "hp_kdescs s' = hp_kdescs s" "hp_udescs s' = hp_udescs s"
proof -
  have g: "GetVrAddrPool t (hp_mem s) = Some ap" and vs: "vspace_ok t (hp_mem s) ap"
    using sp by (auto simp: space_of_def)
  show thesis
  proof (rule free_pages_ok [OF vs n])
    fix ap' m assume f: "FreePages_in t ap a n (hp_mem s) = Some (ap', m)" "vspace_ok t m ap'"
      "pool_used ap' = pool_used ap - page_run a n" "pool_avail ap' = pool_avail ap \<union> page_run a n"
      "\<forall>b. pdx b \<noteq> self_idx \<and> pdx b \<noteq> 0 \<and> (\<forall>c \<in> page_run a n. \<not> same_page b c) \<longrightarrow>
         mmu_translate m b = mmu_translate (hp_mem s) b"
      "\<forall>w. \<not> table_word (hp_mem s) w \<longrightarrow> ms_mem m w = ms_mem (hp_mem s) w"
    let ?s = "s\<lparr>hp_mem := set_vr_pool t ap' m, hp_arena := (hp_arena s)(a := None)\<rparr>"
    have "pool_pages ap' = pool_pages ap" using n(2) f(3,4) by (auto simp: pool_pages_def)
    then have "space_of t ?s ap' ds"
      using sp f(2) by (simp add: space_of_def sentinels_ok_def)
    moreover have "mem_read m (b + k) = mem_read (hp_mem s) (b + k)" if b: "b \<in> pool_used ap'" "unat k < 4096" for b k
    proof -
      have u: "b \<in> pool_used ap" "b \<notin> page_run a n" using b f(3) by auto
      then obtain g where g: "holds_page t (hp_mem s) b g" using vs unfolding vspace_ok_def space_def by blast
      have o: "VrAddr_GetOffset c = 0" if "c \<in> pool_used ap" for c using space_of_page(1) [OF sp] that by blast
      have "\<not> same_page b c" if "c \<in> page_run a n" for c
        using same_page_eq [of b c] o [of b] o [of c] u that n(2) by blast
      then have "mmu_translate m b = mmu_translate (hp_mem s) b"
        using f(5) space_of_page(2) [OF sp] u(1) by (simp add: heap_page_def)
      then show ?thesis
        using page_contents_keep [OF g o [OF u(1)] _ _ b(2), of m] f(6) g by (simp add: table_word_def holds_page_def)
    qed
    ultimately show thesis using that [of ?s ap'] f(1,3,4) g by (simp add: heap_FreePages_def)
  qed
qed

text \<open>The double words of the pages in use are at different places of the memory.\<close>

lemma space_words_apart:
  assumes sp: "space_of t s ap ds" and p: "p \<in> pool_used ap" "q \<in> pool_used ap" "unat r < 4096" "unat r' < 4096"
    and e: "mmu_translate (hp_mem s) (p + r) = mmu_translate (hp_mem s) (q + r')"
  shows "p = q \<and> r = r'"
proof -
  have vs: "space t (hp_mem s) (pool_used ap) (pool_avail ap)" using sp by (simp add: space_of_def vspace_ok_def)
  obtain f where f: "holds_page t (hp_mem s) p f" using vs p(1) unfolding space_def by blast
  obtain g where g: "holds_page t (hp_mem s) q g" using vs p(2) unfolding space_def by blast
  have o: "VrAddr_GetOffset p = 0" "VrAddr_GetOffset q = 0" using space_of_page(1) [OF sp] p by auto
  have ft: "mmu_translate (hp_mem s) p = Some f" "mmu_translate (hp_mem s) q = Some g" using f g by (auto simp: holds_page_def)
  have "f + r = g + r'" using translate_offset(1) [OF o(1) p(3) ft(1)] translate_offset(1) [OF o(2) p(4) ft(2)] e by simp
  then have "f = g" using translate_offset(3) [OF o(1) p(3) ft(1)] translate_offset(3) [OF o(2) p(4) ft(2)] by simp
  moreover have "p = q" using inj_onD [of "mmu_translate (hp_mem s)" "pool_used ap" p q] vs p(1,2) ft \<open>f = g\<close>
    by (simp add: space_def)
  ultimately show ?thesis using \<open>f + r = g + r'\<close> by simp
qed

section \<open>The allocated blocks\<close>

definition large_live :: "heap \<Rightarrow> page_pool \<Rightarrow> (u32 \<times> nat) set" where
  "large_live s ap = {(a + of_nat sizeof_MemArena, ar_count ar * page_size - sizeof_MemArena) |a ar.
     arena_at s ap a ar \<and> ar_large ar}"

definition small_live :: "pool_type \<Rightarrow> heap \<Rightarrow> page_pool \<Rightarrow> (nat \<Rightarrow> u32 list) \<Rightarrow> (u32 \<times> nat) set" where
  "small_live t s ap xs = (\<Union>i < 7. (\<lambda>b. (b, blk_size i)) ` (blocks_of t s ap i - set (xs i)))"

lemma live_split:
  assumes inv: "heap_inv t s ap ds xs"
  shows "live t s = large_live s ap \<union> small_live t s ap xs"
proof -
  have "(b, n) \<in> live t s \<longleftrightarrow> (b, n) \<in> large_live s ap \<union> small_live t s ap xs" for b n
  proof
    assume "(b, n) \<in> live t s"
    then obtain a ar where a: "arena_at s ap a ar" "live_in t (\<lambda>i b. b \<in> set (xs i)) a ar b n"
      using live_inv [OF inv] by blast
    show "(b, n) \<in> large_live s ap \<union> small_live t s ap xs"
    proof (cases "ar_large ar")
      case True
      then have "(b, n) \<in> large_live s ap" using a by (auto simp: live_in_def large_live_def)
      then show ?thesis by blast
    next
      case False
      then obtain i j where i: "ar_desc ar = Some (t, i)" "j < blk_count i" "b = blk a i j" "n = blk_size i" "b \<notin> set (xs i)"
        using a(2) by (auto simp: live_in_def)
      then have "b \<in> blocks_of t s ap i" using a(1) False by (auto simp: blocks_of_def small_arena_def)
      then show ?thesis using i small_arena_idx(1) [OF inv a(1) i(1)] by (auto simp: small_live_def)
    qed
  next
    assume "(b, n) \<in> large_live s ap \<union> small_live t s ap xs"
    then show "(b, n) \<in> live t s"
    proof
      assume "(b, n) \<in> large_live s ap"
      then show ?thesis unfolding live_inv [OF inv] by (auto simp: large_live_def live_in_def)
    next
      assume "(b, n) \<in> small_live t s ap xs"
      then obtain i where i: "i < 7" "b \<in> blocks_of t s ap i" "b \<notin> set (xs i)" "n = blk_size i" by (auto simp: small_live_def)
      show ?thesis
      proof (rule blocks_ofE [OF i(2)])
        fix a ar j assume "arena_at s ap a ar" "\<not> ar_large ar" "ar_desc ar = Some (t, i)" "j < blk_count i" "b = blk a i j"
        then show ?thesis unfolding live_inv [OF inv] live_in_def using i by (auto intro!: exI [of _ a] exI [of _ ar])
      qed
    qed
  qed
  then show ?thesis by auto
qed

lemma run_byte:
  assumes "m < n * page_size"
  shows "\<exists>p r. p \<in> page_run a n \<and> unat r < 4096 \<and> a + of_nat m = p + r"
proof -
  have "m div 4096 < n" using assms by (simp add: page_size_def less_mult_imp_div_less)
  then have "a + of_nat (m div 4096 * page_size) \<in> page_run a n" by (auto simp: page_run_def)
  moreover have "of_nat m = of_nat (m div 4096 * page_size) + (of_nat (m mod 4096) :: u32)"
    unfolding page_size_def by (metis div_mult_mod_eq of_nat_add)
  then have "a + of_nat m = a + of_nat (m div 4096 * page_size) + of_nat (m mod 4096)" by (simp only: add.assoc)
  ultimately show ?thesis by (metis mod_less_divisor unat_off zero_less_numeral)
qed

text \<open>Every byte of an allocated block lies in a page of its arena.\<close>

lemma live_place:
  assumes inv: "heap_inv t s ap ds xs" and l: "(b, n) \<in> live t s"
  obtains a ar where "arena_at s ap a ar" "live_in t (\<lambda>i b. b \<in> set (xs i)) a ar b n"
    "\<And>k. k < n \<Longrightarrow> \<exists>p r. p \<in> arena_pages a ar \<and> unat r < 4096 \<and> b + of_nat k = p + r"
proof -
  obtain a ar where a: "arena_at s ap a ar" "live_in t (\<lambda>i b. b \<in> set (xs i)) a ar b n"
    using live_inv [OF inv] l by blast
  have "\<exists>p r. p \<in> arena_pages a ar \<and> unat r < 4096 \<and> b + of_nat k = p + r" if k: "k < n" for k
  proof (cases "ar_large ar")
    case True
    then have e: "b + of_nat k = a + of_nat (sizeof_MemArena + k)" and m: "sizeof_MemArena + k < ar_count ar * page_size"
      using a(2) k by (auto simp: live_in_def)
    show ?thesis unfolding e using run_byte [OF m, of a] True by (simp add: arena_pages_def del: of_nat_add)
  next
    case False
    then obtain i j where i: "j < blk_count i" "b = blk a i j" "n = blk_size i" using a(2) by (auto simp: live_in_def)
    have "b + of_nat k = a + of_nat (blk_off i j + k)" by (simp add: i(2) blk_def)
    moreover have "unat (of_nat (blk_off i j + k) :: u32) < 4096" using blk_fits [OF i(1), of k] k i(3) by (simp add: unat_off del: of_nat_add)
    ultimately show ?thesis using False by (intro exI [of _ a] exI [of _ "of_nat (blk_off i j + k)"]) (simp add: arena_pages_def)
  qed
  then show thesis using that a by blast
qed

lemma live_disjoint:
  assumes inv: "heap_inv t s ap ds xs" and l: "(b, n) \<in> live t s" "(b', n') \<in> live t s" "(b, n) \<noteq> (b', n')"
    and k: "k < n" "k' < n'"
  shows "b + of_nat k \<noteq> b' + of_nat k'"
proof
  assume eq: "b + of_nat k = b' + of_nat k'"
  have sp: "space_of t s ap ds" and as: "arenas_ok t s ap xs" using inv by (auto simp: heap_inv_def)
  obtain a ar where a: "arena_at s ap a ar" "live_in t (\<lambda>i b. b \<in> set (xs i)) a ar b n"
    "\<And>k. k < n \<Longrightarrow> \<exists>p r. p \<in> arena_pages a ar \<and> unat r < 4096 \<and> b + of_nat k = p + r"
    using live_place [OF inv l(1)] by blast
  obtain a' ar' where a': "arena_at s ap a' ar'" "live_in t (\<lambda>i b. b \<in> set (xs i)) a' ar' b' n'"
    "\<And>k. k < n' \<Longrightarrow> \<exists>p r. p \<in> arena_pages a' ar' \<and> unat r < 4096 \<and> b' + of_nat k = p + r"
    using live_place [OF inv l(2)] by blast
  obtain p r where p: "p \<in> arena_pages a ar" "unat r < 4096" "b + of_nat k = p + r" using a(3) [OF k(1)] by blast
  obtain p' r' where p': "p' \<in> arena_pages a' ar'" "unat r' < 4096" "b' + of_nat k' = p' + r'" using a'(3) [OF k(2)] by blast
  have "VrAddr_GetOffset p = 0" "VrAddr_GetOffset p' = 0"
    using space_of_page(1) [OF sp] arena_pages_self(2) [OF inv a(1)] arena_pages_self(2) [OF inv a'(1)] p(1) p'(1) by blast+
  then have "p = p'" using page_offset_unique [of p p' r r'] p p' eq by simp
  then have aa: "a = a'" using as p(1) p'(1) a(1) a'(1) unfolding arenas_ok_def by blast
  then have "ar = ar'" using a(1) a'(1) by (simp add: arena_at_def)
  show False
  proof (cases "ar_large ar")
    case True
    then show ?thesis using a(2) a'(2) aa \<open>ar = ar'\<close> l(3) by (simp add: live_in_def)
  next
    case False
    then obtain i j where i: "ar_desc ar = Some (t, i)" "j < blk_count i" "b = blk a i j" "n = blk_size i"
      using a(2) by (auto simp: live_in_def)
    obtain j' where j: "j' < blk_count i" "b' = blk a i j'" "n' = blk_size i"
      using a'(2) False aa \<open>ar = ar'\<close> i(1) by (auto simp: live_in_def)
    have f: "blk_off i j + k < 4096" "blk_off i j' + k' < 4096" using blk_fits [OF i(2)] blk_fits [OF j(1)] k i(4) j(3) by auto
    have "(of_nat (blk_off i j + k) :: u32) = of_nat (blk_off i j' + k')" using eq by (simp add: i(3) j(2) blk_def)
    then have "blk_off i j + k = blk_off i j' + k'" using unat_off [OF f(1)] unat_off [OF f(2)] by metis
    then have "j = j'" using blk_off_inj [of i j k j' k'] k i(4) j(3) by simp
    then show ?thesis using i j l(3) by simp
  qed
qed

section \<open>Taking a block off a list\<close>

text \<open>The double words of a block of memory.\<close>

definition contents :: "memsys \<Rightarrow> u32 \<times> nat \<Rightarrow> u32 option list" where
  "contents m x = map (\<lambda>k. mem_read m (fst x + of_nat (4 * k))) [0..<snd x div 4]"

lemma contents_eqI:
  "(\<And>k. k < n div 4 \<Longrightarrow> mem_read m' (b + of_nat (4 * k)) = mem_read m (b + of_nat (4 * k))) \<Longrightarrow> contents m' (b, n) = contents m (b, n)"
  by (simp add: contents_def)

lemma blk_size_4: "blk_size i div 4 * 4 = blk_size i"
  by (simp add: blk_size_def)

lemma block_word:
  assumes "j < blk_count i" "k < blk_size i div 4"
  shows "blk a i j + of_nat (4 * k) = a + of_nat (blk_off i j + 4 * k)" "blk_off i j + 4 * k < 4096"
proof -
  show "blk a i j + of_nat (4 * k) = a + of_nat (blk_off i j + 4 * k)" by (simp add: blk_def)
  have "4 * k < blk_size i" using assms(2) blk_size_4 [of i] by linarith
  then show "blk_off i j + 4 * k < 4096" using blk_fits [OF assms(1)] by blast
qed

lemma space_of_quiet:
  assumes "space_of t s ap ds" "quiet (hp_mem s) m W"
  shows "space_of t (s\<lparr>hp_mem := m\<rparr>) ap ds"
  using assms(1) space_quiet [OF assms(2)] quiet_fields(4,5) [OF assms(2)]
  by (simp add: space_of_def vspace_ok_def GetVrAddrPool_def split: if_splits)

lemma clear_block_ok:
  assumes sp: "space_of t s ap ds" and a: "a \<in> pool_used ap" "j < blk_count i"
  obtains m where "mem_clear (hp_mem s) (blk a i j) (blk_size i div 4) = Some m" "space_of t (s\<lparr>hp_mem := m\<rparr>) ap ds"
    "contents m (blk a i j, blk_size i) = replicate (blk_size i div 4) (Some 0)"
    "\<And>p r. p \<in> pool_used ap \<Longrightarrow> unat r < 4096 \<Longrightarrow> (\<And>k. k < blk_size i \<Longrightarrow> p + r \<noteq> blk a i j + of_nat k) \<Longrightarrow>
       mem_read m (p + r) = mem_read (hp_mem s) (p + r)"
proof -
  have vs: "space t (hp_mem s) (pool_used ap) (pool_avail ap)" using sp by (simp add: space_of_def vspace_ok_def)
  obtain f where f: "holds_page t (hp_mem s) a f" using vs a(1) unfolding space_def by blast
  have o: "VrAddr_GetOffset p = 0" if "p \<in> pool_used ap" for p using space_of_page(1) [OF sp] that by blast
  have ft: "mmu_translate (hp_mem s) a = Some f" "\<not> table_page (hp_mem s) f" using f by (auto simp: holds_page_def)
  have w: "\<exists>pa. mmu_translate (hp_mem s) (blk a i j + of_nat (4 * k)) = Some pa \<and> \<not> table_word (hp_mem s) pa"
    if k: "k < blk_size i div 4" for k
    unfolding block_word(1) [OF a(2) k]
    using translate_offset [OF o [OF a(1)] _ ft(1)] ft(2) block_word(2) [OF a(2) k] by (simp add: table_word_def del: of_nat_add)
  have "selfmap_ok (hp_mem s)" using vs by (simp add: space_def mem_ok_def tables_ok_def)
  then obtain m where m: "mem_clear (hp_mem s) (blk a i j) (blk_size i div 4) = Some m"
    "quiet (hp_mem s) m {pa. \<exists>k < blk_size i div 4. mmu_translate (hp_mem s) (blk a i j + of_nat (4 * k)) = Some pa}"
    "\<forall>k < blk_size i div 4. mem_read m (blk a i j + of_nat (4 * k)) = Some 0"
    using mem_clear_ok [of "hp_mem s" "blk_size i div 4" "blk a i j"] w by blast
  have "contents m (blk a i j, blk_size i) = replicate (blk_size i div 4) (Some 0)"
    using m(3) by (simp add: contents_def list_eq_iff_nth_eq)
  moreover have "mem_read m (p + r) = mem_read (hp_mem s) (p + r)"
    if p: "p \<in> pool_used ap" "unat r < 4096" "\<And>k. k < blk_size i \<Longrightarrow> p + r \<noteq> blk a i j + of_nat k" for p r
  proof -
    obtain g where g: "mmu_translate (hp_mem s) (p + r) = Some g"
      using vs p(1) translate_offset(1) [OF o [OF p(1)] p(2), of "hp_mem s"] unfolding space_def holds_page_def by blast
    have "mmu_translate (hp_mem s) (blk a i j + of_nat (4 * k)) \<noteq> Some g" if k: "k < blk_size i div 4" for k
    proof
      assume e: "mmu_translate (hp_mem s) (blk a i j + of_nat (4 * k)) = Some g"
      have "unat (of_nat (blk_off i j + 4 * k) :: u32) < 4096" using block_word(2) [OF a(2) k] by (simp del: of_nat_add)
      then have "p = a \<and> r = of_nat (blk_off i j + 4 * k)"
        using space_words_apart [OF sp p(1) a(1) p(2)] e g unfolding block_word(1) [OF a(2) k] by simp
      then have "p + r = blk a i j + of_nat (4 * k)" using block_word(1) [OF a(2) k] by simp
      moreover have "4 * k < blk_size i" using k blk_size_4 [of i] by linarith
      ultimately show False using p(3) by blast
    qed
    then have "ms_mem m g = ms_mem (hp_mem s) g" using m(2) by (auto simp: quiet_def)
    then show ?thesis using g quiet_fields(7) [OF m(2)] by (simp add: mem_read_def)
  qed
  ultimately show thesis using that [OF m(1) space_of_quiet [OF sp m(2)]] by blast
qed

lemma free_in_finite [simp]: "finite (free_in xs a i)" "card (free_in xs a i) \<le> blk_count i"
proof -
  have s: "free_in xs a i \<subseteq> {..<blk_count i}" by (auto simp: free_in_def)
  then show "finite (free_in xs a i)" by (rule finite_subset) simp
  show "card (free_in xs a i) \<le> blk_count i" using card_mono [OF _ s] by simp
qed

lemma tl_nodes_sentinels: "set (tl_nodes (bd_free_blocks (ds ! i)) zs) = sentinels ds i \<union> set zs"
  by (simp add: tl_nodes_set sentinels_def)

text \<open>The list operations of a pop: only tags of the list and of the block change.\<close>

lemma pop_tags:
  assumes "tl_abs h (bd_free_blocks (ds ! i)) (map unat (b # r))"
  obtains h' where "TagList_Pop (bd_free_blocks (ds ! i)) h = Some (unat b, h')" 
    "tl_abs (tag_cleared (unat b) h') (bd_free_blocks (ds ! i)) (map unat r)"
    "same_on (- (sentinels ds i \<union> unat ` set (b # r))) h
       (tag_cleared (unat b) h')" "b \<notin> set r"
proof -
  let ?c = "tag_cleared (unat b)"
  obtain h' where h': "TagList_Pop (bd_free_blocks (ds ! i)) h = Some (unat b, h')" "tl_abs h' (bd_free_blocks (ds ! i)) (map unat r)"
    "same_on (- set (tl_nodes (bd_free_blocks (ds ! i)) (map unat r))) h h'"
    using tq.pop [of h "bd_free_blocks (ds ! i)" "unat b" "map unat r"] assms by auto
  have nb: "unat b \<notin> set (tl_nodes (bd_free_blocks (ds ! i)) (map unat r))"
    using assms by (auto simp: tl_abs_def tl_nodes_def)
  then have "same_on (set (tl_nodes (bd_free_blocks (ds ! i)) (map unat r))) h' (?c h')" by (auto simp: same_on_def tag_cleared_def)
  then have "tl_abs (?c h') (bd_free_blocks (ds ! i)) (map unat r)" using tl_abs_frame [OF h'(2)] by blast
  moreover have "same_on (- (sentinels ds i \<union> unat ` set (b # r))) h (?c h')"
    using h'(3) unfolding tl_nodes_sentinels by (auto simp: same_on_def tag_cleared_def)
  moreover have "b \<notin> set r" using nb unfolding tl_nodes_sentinels by auto
  ultimately show thesis using that h'(1) by blast
qed

lemma Allocate_pop_ok:
  assumes inv: "heap_inv t s ap ds xs" and i: "i < 7" "xs i = b # r"
  obtains s' a ar where "Allocate_pop (ds ! i) s = Some (b, s')" "heap_inv t s' ap ds (xs(i := r))"
    "contents (hp_mem s') (b, blk_size i) = replicate (blk_size i div 4) (Some 0)"
    "\<forall>p q. p \<in> pool_used ap \<and> unat q < 4096 \<and> (\<forall>k < blk_size i. p + q \<noteq> b + of_nat k) \<longrightarrow>
       mem_read (hp_mem s') (p + q) = mem_read (hp_mem s) (p + q)"
    "same_on (- (sentinels ds i \<union> unat ` set (xs i))) (hp_tags s) (hp_tags s')"
    "arena_at s ap a ar" "\<not> ar_large ar" "a = MemBlock_GetArena b"
    "hp_arena s' = (hp_arena s)(a \<mapsto> ar\<lparr>ar_count := ar_count ar - 1\<rparr>)" "\<not> arena_full (ar\<lparr>ar_count := ar_count ar - 1\<rparr>)"
proof -
  have sp: "space_of t s ap ds" and ls: "lists_ok t s ap ds xs" using inv by (auto simp: heap_inv_def)
  have "set (xs i) \<subseteq> blocks_of t s ap i" using ls i(1) by (simp add: lists_ok_def)
  then have b: "b \<in> blocks_of t s ap i" "set (xs i) \<subseteq> blocks_of t s ap i" using i(2) by auto
  have bs: "bd_block_size (ds ! i) = blk_size i" using sp i(1) by (simp add: space_of_def desc_table_ok_def)
  obtain a ar j where a: "arena_at s ap a ar" "\<not> ar_large ar" "ar_desc ar = Some (t, i)" "j < blk_count i" "b = blk a i j"
    "a \<in> pool_used ap"
    using blocks_ofE [OF b(1)] by blast
  have off: "VrAddr_GetOffset p = 0" if "p \<in> pool_used ap" for p using space_of_page(1) [OF sp] that by blast
  obtain h where h: "TagList_Pop (bd_free_blocks (ds ! i)) (hp_tags s) = Some (unat b, h)" "b \<notin> set r"
    and hl: "tl_abs (tag_cleared (unat b) h) (bd_free_blocks (ds ! i)) (map unat r)"
    and hs: "same_on (- (sentinels ds i \<union> unat ` set (b # r))) (hp_tags s) (tag_cleared (unat b) h)"
  proof -
    have "tl_abs (hp_tags s) (bd_free_blocks (ds ! i)) (map unat (b # r))"
      using ls i(1) unfolding lists_ok_def i(2) [symmetric] by blast
    from pop_tags [OF this] show thesis using that by blast
  qed
  obtain m where m: "mem_clear (hp_mem s) (blk a i j) (blk_size i div 4) = Some m" "space_of t (s\<lparr>hp_mem := m\<rparr>) ap ds"
    "contents m (blk a i j, blk_size i) = replicate (blk_size i div 4) (Some 0)"
    "\<And>p r. p \<in> pool_used ap \<Longrightarrow> unat r < 4096 \<Longrightarrow> (\<And>k. k < blk_size i \<Longrightarrow> p + r \<noteq> blk a i j + of_nat k) \<Longrightarrow>
       mem_read m (p + r) = mem_read (hp_mem s) (p + r)"
    using clear_block_ok [OF sp a(6,4)] by blast
  note ai = small_arena_idx [OF inv a(1,3)]
  have pg: "MemBlock_GetArena b = a" using blk_page [OF off [OF a(6)] a(4)] a(5) by simp
  have fr: "free_in (xs(i := r)) a i = free_in xs a i - {j}" and jf: "j \<in> free_in xs a i"
    using blk_inj(2) [OF off [OF a(6)] off [OF a(6)] _ a(4)] h(2) i(2) a(4,5) by (auto simp: free_in_def)
  have c: "0 < ar_count ar" "ar_count ar - 1 = card (free_in (xs(i := r)) a i)" "ar_count ar \<le> blk_count i"
    using ai(4) jf fr by (auto simp: card_gt_0_iff)
  let ?ar = "ar\<lparr>ar_count := ar_count ar - 1\<rparr>"
  let ?s = "s\<lparr>hp_mem := m, hp_tags := tag_cleared (unat b) h, hp_arena := (hp_arena s)(a \<mapsto> ?ar)\<rparr>"
  have ne: "\<not> TagList_IsEmpty (bd_free_blocks (ds ! i)) (hp_tags s)"
    using h(1) by (auto simp: TagList_Pop_def Option.bind_eq_Some_conv)
  have run: "Allocate_pop (ds ! i) s = Some (b, ?s)"
    using ne h(1) m(1) a(1,5) c(1) pg bs by (simp add: Allocate_pop_def clear_block_def arena_at_def Let_def)
  have "heap_inv t ?s ap ds (xs(i := r))"
  proof (rule heap_inv_update [OF inv a(1,3), where c = "ar_count ar - 1"])
    show "space_of t ?s ap ds" using m(2) by (simp add: space_of_def)
    show "blk a' i j' \<in> set r \<longleftrightarrow> blk a' i j' \<in> set (xs i)" if "a' \<in> pool_used ap" "a' \<noteq> a" "j' < blk_count i" for a' j'
      using blk_inj(1) [OF off [OF that(1)] off [OF a(6)] that(3) a(4)] that(2) i(2) a(5) by auto
    show "same_on (- (sentinels ds i \<union> unat ` blocks_of t s ap i)) (hp_tags s) (hp_tags ?s)"
      using hs b(2) i(2) unfolding same_on_def by auto
  qed (use hl b(2) i(2) c(2) in auto)
  moreover have "\<not> arena_full ?ar" using a(3) c by (auto simp: arena_full_def)
  ultimately show thesis
  proof (intro that [OF run, of a ar])
    show "\<forall>p q. p \<in> pool_used ap \<and> unat q < 4096 \<and> (\<forall>k < blk_size i. p + q \<noteq> b + of_nat k) \<longrightarrow>
       mem_read (hp_mem ?s) (p + q) = mem_read (hp_mem s) (p + q)"
      using m(4) by (simp add: a(5))
  qed (use m(3) a(1,2,5) hs i(2) pg in simp_all)
qed

section \<open>A new arena\<close>

lemma GetBlock_eq:
  assumes "hp_arena s a = Some ar" "\<not> ar_large ar" "ar_desc ar = Some p" "heap_desc s p = Some desc"
    "bd_block_size desc = blk_size i" "j < ar_count ar"
  shows "MemArena_GetBlock s a j = Some (blk a i j)"
  using assms by (simp add: MemArena_GetBlock_def blk_def blk_off_def)

lemma Allocate_push_ok:
  assumes "hp_arena s a = Some ar" "\<not> ar_large ar" "ar_desc ar = Some p" "heap_desc s p = Some desc"
    "bd_block_size desc = blk_size i" "k + n \<le> ar_count ar" "tl_abs (hp_tags s) l ys"
    "distinct (map (\<lambda>j. unat (blk a i j)) [k..<k + n])" "(\<lambda>j. unat (blk a i j)) ` {k..<k + n} \<inter> set (tl_nodes l ys) = {}"
  shows "\<exists>h. Allocate_push l a k n s = Some (s\<lparr>hp_tags := h\<rparr>) \<and> tl_abs h l (ys @ map (\<lambda>j. unat (blk a i j)) [k..<k + n]) \<and>
    same_on (- (set (tl_nodes l ys) \<union> (\<lambda>j. unat (blk a i j)) ` {k..<k + n})) (hp_tags s) h"
  using assms
proof (induction n arbitrary: k s ys)
  case 0
  then show ?case by (intro exI [of _ "hp_tags s"]) (simp add: same_on_def)
next
  case (Suc n)
  let ?B = "\<lambda>j. unat (blk a i j)"
  have u: "[k..<k + Suc n] = k # [Suc k..<Suc k + n]" by (simp add: upt_conv_Cons)
  have iv: "{k..<k + Suc n} = insert k {Suc k..<Suc k + n}" by auto
  have nk: "?B k \<notin> set (tl_nodes l ys)" using Suc.prems(9) unfolding iv by auto
  obtain h where h: "TagList_PushBack l (?B k) (hp_tags s) = Some h" "tl_abs h l (ys @ [?B k])"
    "same_on (- insert (?B k) (set (tl_nodes l ys))) (hp_tags s) h"
    using tq.push_back [OF Suc.prems(7) nk] by blast
  have "?B k \<notin> set ys" using nk by (simp add: tl_nodes_set)
  then have f: "TagList_Find l (?B k) (hp_tags s) = Some False" using Find_abs [OF Suc.prems(7)] by simp
  have gb: "MemArena_GetBlock s a k = Some (blk a i k)" using GetBlock_eq [OF Suc.prems(1-5)] Suc.prems(6) by simp
  have dj: "?B ` {Suc k..<Suc k + n} \<inter> set (tl_nodes l (ys @ [?B k])) = {}"
    using Suc.prems(8,9) unfolding u iv tl_nodes_set by auto
  obtain h' where h': "Allocate_push l a (Suc k) n (s\<lparr>hp_tags := h\<rparr>) = Some (s\<lparr>hp_tags := h'\<rparr>)"
    "tl_abs h' l ((ys @ [?B k]) @ map ?B [Suc k..<Suc k + n])"
    "same_on (- (set (tl_nodes l (ys @ [?B k])) \<union> ?B ` {Suc k..<Suc k + n})) h h'"
    using Suc.IH [of "s\<lparr>hp_tags := h\<rparr>" "Suc k" "ys @ [?B k]"] Suc.prems h(2) dj unfolding u by auto
  have "Allocate_push l a k (Suc n) s = Some (s\<lparr>hp_tags := h'\<rparr>)" using gb f h(1) h'(1) by simp
  moreover have "tl_abs h' l (ys @ map ?B [k..<k + Suc n])" using h'(2) by (simp only: u list.map append_assoc append_Cons append_Nil)
  moreover have "same_on (- (set (tl_nodes l ys) \<union> ?B ` {k..<k + Suc n})) (hp_tags s) h'"
    using h(3) h'(3) unfolding iv tl_nodes_set by (auto simp: same_on_def)
  ultimately show ?case by blast
qed

lemma heap_desc_nth:
  "space_of t s ap ds \<Longrightarrow> i < 7 \<Longrightarrow> heap_desc s (t, i) = Some (ds ! i)"
  by (simp add: heap_desc_def space_of_def MemBlockDescTab_nth_def block_desc_count_def)

lemma blks_distinct:
  assumes "VrAddr_GetOffset a = 0"
  shows "distinct (map (\<lambda>j. unat (blk a i j)) [0..<blk_count i])"
  using blk_inj(2) [OF assms assms, of _ i _ i] by (auto simp: distinct_map inj_on_def simp flip: word_unat_eq_iff)

lemma Allocate_arena_ok:
  assumes inv: "heap_inv t s ap ds xs" and i: "i < 7" "xs i = []"
    and en: "enough t 1 (hp_mem s)" "pool_avail ap \<noteq> {}"
  obtains s' a ap' ar where "Allocate_arena t i (ds ! i) s = Some s'"
    "heap_inv t s' ap' ds (xs(i := map (blk a i) [0..<blk_count i]))" "a \<in> pool_avail ap" "pool_used ap' = insert a (pool_used ap)"
    "hp_arena s' = (hp_arena s)(a \<mapsto> ar)" "\<not> ar_large ar" "ar_desc ar = Some (t, i)" "live t s' = live t s"
    "\<And>p q. p \<in> pool_used ap \<Longrightarrow> unat q < 4096 \<Longrightarrow> mem_read (hp_mem s') (p + q) = mem_read (hp_mem s) (p + q)"
    "same_on (- (sentinels ds i \<union> (\<lambda>j. unat (blk a i j)) ` {0..<blk_count i})) (hp_tags s) (hp_tags s')"
proof -
  have sp: "space_of t s ap ds" and ls: "lists_ok t s ap ds xs" and as: "arenas_ok t s ap xs" and po: "pool_ok ap"
    using inv by (auto simp: heap_inv_def space_of_def vspace_ok_def)
  have room: "VrAddrPool_AllocPages ap 1 \<noteq> Some (0, ap)" using vp.alloc_one [OF po en(2)] by simp
  obtain a ap' s1 where s1: "heap_AllocPages t 1 s = Some (a, s1)" "a \<noteq> 0" "space_of t s1 ap' ds" "page_run a 1 \<subseteq> pool_avail ap"
    "pool_used ap' = pool_used ap \<union> page_run a 1" "pool_avail ap' = pool_avail ap - page_run a 1"
    "\<forall>b k. b \<in> pool_used ap \<and> unat k < 4096 \<longrightarrow> mem_read (hp_mem s1) (b + k) = mem_read (hp_mem s) (b + k)"
    "hp_tags s1 = hp_tags s" "hp_arena s1 = hp_arena s" "hp_kdescs s1 = hp_kdescs s" "hp_udescs s1 = hp_udescs s"
    using heap_AllocPages_ok [OF sp zero_less_one en(1) room] by metis
  have a: "a \<in> pool_avail ap" "pool_used ap' = insert a (pool_used ap)" "pool_avail ap' = pool_avail ap - {a}"
    using s1(4-6) by auto
  have off: "VrAddr_GetOffset p = 0" if "p \<in> pool_used ap \<union> pool_avail ap" for p using space_of_page(1) [OF sp that] .
  have na: "a \<notin> pool_used ap" using a(1) pool_used_avail [OF po] by blast
  let ?B = "\<lambda>j. unat (blk a i j)" and ?l = "bd_free_blocks (ds ! i)"
  let ?ar = "\<lparr>ar_desc = Some (t, i), ar_count = blk_count i, ar_large = False\<rparr>"
  let ?s2 = "s1\<lparr>hp_arena := (hp_arena s1)(a \<mapsto> ?ar)\<rparr>"
  have sp2: "space_of t ?s2 ap' ds" using s1(3) by (simp add: space_of_def)
  have ds: "bd_block_size (ds ! i) = blk_size i" "bd_block_count (ds ! i) = blk_count i"
    using sp i(1) by (auto simp: space_of_def desc_table_ok_def)
  have "?B j \<notin> sentinels ds i" if "j < blk_count i" for j
    using sp i(1) a(1) blk_off_less [OF that] by (simp add: space_of_def sentinels_ok_def pool_pages_def blk_def)
  then have "?B ` {0..<0 + blk_count i} \<inter> set (tl_nodes ?l []) = {}" by (auto simp: tl_nodes_sentinels)
  moreover have "tl_abs (hp_tags ?s2) ?l []" using ls i s1(8) by (auto simp: lists_ok_def)
  ultimately obtain h where h: "Allocate_push ?l a 0 (blk_count i) ?s2 = Some (?s2\<lparr>hp_tags := h\<rparr>)"
    "tl_abs h ?l (map ?B [0..<blk_count i])" "same_on (- (sentinels ds i \<union> ?B ` {0..<blk_count i})) (hp_tags s) h"
    using Allocate_push_ok [of ?s2 a ?ar "(t, i)" "ds ! i" i 0 "blk_count i" ?l "[]"] heap_desc_nth [OF sp2 i(1)]
      ds(1) blks_distinct [of a i] off [of a] a(1) s1(8) by (auto simp: tl_nodes_sentinels)
  let ?s' = "?s2\<lparr>hp_tags := h\<rparr>" and ?ys = "map (blk a i) [0..<blk_count i]"
  have run: "Allocate_arena t i (ds ! i) s = Some ?s'" using s1(1,2) h(1) ds(2) by (simp add: Allocate_arena_def Let_def)
  have ha: "hp_arena s a = None" using as a(1) by (simp add: arenas_ok_def)
  have sa: "small_arena t ?s' ap' k b \<longleftrightarrow> small_arena t s ap k b \<or> k = i \<and> b = a" for k b
    using a(2) na ha s1(9) by (auto simp: small_arena_def arena_at_def)
  have bo: "blocks_of t ?s' ap' k = blocks_of t s ap k \<union> (if k = i then blk a i ` {0..<blk_count i} else {})" for k
  proof (cases "k = i")
    case True
    have "{blk b i j |b j. (small_arena t s ap i b \<or> b = a) \<and> j < blk_count i} =
        {blk b i j |b j. small_arena t s ap i b \<and> j < blk_count i} \<union> blk a i ` {0..<blk_count i}"
      by auto (metis+)?
    then show ?thesis using True unfolding blocks_of_def sa by simp
  qed (simp add: blocks_of_def sa)
  have keep: "same_on (- (sentinels ds i \<union> unat ` blocks_of t ?s' ap' i)) (hp_tags s) h"
    using h(3) by (auto simp: same_on_def bo)
  have sp': "space_of t ?s' ap' ds" using sp2 by (simp add: space_of_def)
  have "lists_ok t ?s' ap' ds (xs(i := ?ys))"
    using keep h(2) by (intro lists_ok_change [OF sp' ls i(1)]) (simp_all add: bo comp_def)
  moreover have nb: "blk p i j \<notin> set ?ys" if "p \<in> pool_used ap" "j < blk_count i" for p j
    using blk_inj(1) [OF off off that(2), of p a _ i] that(1) a(1) na by auto
  then have "free_in (xs(i := ?ys)) p k = free_in xs p k" if "p \<in> pool_used ap" for p k
    using that i(2) by (auto simp: free_in_def)
  moreover have "free_in (xs(i := ?ys)) a i = {..<blk_count i}" by (auto simp: free_in_def)
  ultimately have inv': "heap_inv t ?s' ap' ds (xs(i := ?ys))"
    using sp2 a i(1) s1(9) by (intro heap_inv_new [OF inv, where R = "{a}" and a = a and ar = ?ar])
      (auto simp: space_of_def arena_pages_def arena_ok_def)
  have "large_live ?s' ap' = large_live s ap"
    using a(2) na ha s1(9) unfolding large_live_def arena_at_def by (auto split: if_splits)
  moreover have "blocks_of t s ap i \<inter> set ?ys = {}" using nb by (blast elim: blocks_ofE)
  then have "blocks_of t ?s' ap' k - set ((xs(i := ?ys)) k) = blocks_of t s ap k - set (xs k)" for k
    using i(2) by (cases "k = i") (auto simp: bo)
  ultimately have "live t ?s' = live t s" unfolding live_split [OF inv] live_split [OF inv'] small_live_def by simp
  then show thesis using that [OF run inv' a(1,2)] s1(7,9) h(3) by simp
qed

section \<open>Allocation\<close>

lemma live_contents_keep:
  assumes inv: "heap_inv t s ap ds xs" and l: "(b, n) \<in> live t s"
    and k: "\<And>p q. p \<in> pool_used ap \<Longrightarrow> unat q < 4096 \<Longrightarrow> \<exists>k < n. p + q = b + of_nat k \<Longrightarrow> mem_read m' (p + q) = mem_read m (p + q)"
  shows "contents m' (b, n) = contents m (b, n)"
proof (rule contents_eqI)
  fix k assume "k < n div 4"
  then have kn: "4 * k < n" by linarith
  obtain a ar where a: "arena_at s ap a ar"
    "\<And>k. k < n \<Longrightarrow> \<exists>p r. p \<in> arena_pages a ar \<and> unat r < 4096 \<and> b + of_nat k = p + r"
    using live_place [OF inv l] by blast
  obtain p r where p: "p \<in> arena_pages a ar" "unat r < 4096" "b + of_nat (4 * k) = p + r" using a(2) [OF kn] by blast
  have "p \<in> pool_used ap" using arena_pages_self(2) [OF inv a(1)] p(1) by blast
  then have "mem_read m' (p + r) = mem_read m (p + r)" using assms(3) [OF _ p(2)] p(3) kn by metis
  then show "mem_read m' (b + of_nat (4 * k)) = mem_read m (b + of_nat (4 * k))" unfolding p(3) .
qed

lemma UN_insert_at:
  assumes "i \<in> I" "\<And>k. k \<noteq> i \<Longrightarrow> F k = G k" "F i = insert x (G i)"
  shows "(\<Union>k \<in> I. F k) = insert x (\<Union>k \<in> I. G k)"
proof -
  have I: "I = insert i (I - {i})" using assms(1) by blast
  have "(\<Union>k \<in> I - {i}. F k) = (\<Union>k \<in> I - {i}. G k)" using assms(2) by simp
  then show ?thesis using assms(3) by (subst (1 2) I) (simp only: UN_insert Un_insert_left)
qed

lemma live_change:
  assumes inv: "heap_inv t s ap ds xs" and i: "i < 7" "b \<in> set (xs i)" "set r = set (xs i) - {b}"
    and inv': "heap_inv t s' ap ds (xs(i := r))"
    and a: "arena_at s ap a ar" "\<not> ar_large ar" "hp_arena s' = (hp_arena s)(a \<mapsto> ar\<lparr>ar_count := c\<rparr>)"
  shows "live t s' = insert (b, blk_size i) (live t s)" "(b, blk_size i) \<notin> live t s"
proof -
  note u = arena_count_update [OF a]
  have bl: "b \<in> blocks_of t s ap i" using list_block [OF inv i(1,2)] .
  have "large_live s' ap = large_live s ap" unfolding large_live_def using u(2) by auto
  moreover have "small_live t s' ap (xs(i := r)) = insert (b, blk_size i) (small_live t s ap xs)"
    unfolding small_live_def u(1) using bl i by (intro UN_insert_at [of i]) auto
  ultimately show "live t s' = insert (b, blk_size i) (live t s)" by (simp add: live_split [OF inv] live_split [OF inv'])
  show "(b, blk_size i) \<notin> live t s"
  proof
    assume "(b, blk_size i) \<in> live t s"
    then obtain a' ar' where a': "arena_at s ap a' ar'" "live_in t (\<lambda>i b. b \<in> set (xs i)) a' ar' b (blk_size i)"
      using live_inv [OF inv] by blast
    obtain a2 ar2 j where a2: "arena_at s ap a2 ar2" "\<not> ar_large ar2" "ar_desc ar2 = Some (t, i)" "j < blk_count i" "b = blk a2 i j"
      "a2 \<in> pool_used ap" using blocks_ofE [OF bl] by blast
    have off: "VrAddr_GetOffset p = 0" if "p \<in> pool_used ap" for p
      using inv space_of_page(1) [of t s ap ds p] that by (simp add: heap_inv_def)
    have pg: "MemBlock_GetArena b = a2" using blk_page [OF off [OF a2(6)] a2(4)] a2(5) by simp
    have "a' \<in> pool_used ap" using a'(1) by (simp add: arena_at_def)
    then have "MemBlock_GetArena b = a'"
      using a'(2) blk_page [OF off] page_offset_GetPageAddr [OF off, of a' "of_nat sizeof_MemArena"]
      by (auto simp: live_in_def MemBlock_GetArena_def sizeof_MemArena_def split: if_splits)
    then have "ar' = ar2" using pg a'(1) a2(1) by (simp add: arena_at_def)
    then show False using a'(2) a2(2,3) i(2) by (auto simp: live_in_def)
  qed
qed

text \<open>Enough free physical pages for \<open>n\<close> more pages of the heap, and a run of free addresses.\<close>

definition heap_room :: "pool_type \<Rightarrow> nat \<Rightarrow> heap \<Rightarrow> bool" where
  "heap_room t n s \<longleftrightarrow> enough t n (hp_mem s) \<and>
     (\<exists>ap. GetVrAddrPool t (hp_mem s) = Some ap \<and> VrAddrPool_AllocPages ap n \<noteq> Some (0, ap))"

definition alloc_result :: "pool_type \<Rightarrow> heap \<Rightarrow> u32 \<Rightarrow> nat \<Rightarrow> heap \<Rightarrow> bool" where
  "alloc_result t s b n s' \<longleftrightarrow> b \<noteq> 0 \<and> heap_ok t s' \<and> (b, n) \<notin> live t s \<and> live t s' = insert (b, n) (live t s) \<and>
     contents (hp_mem s') (b, n) = replicate (n div 4) (Some 0) \<and>
     (\<forall>x \<in> live t s. contents (hp_mem s') x = contents (hp_mem s) x)"

text \<open>After the first part of \<^verbatim>\<open>Allocate\<close> for small requests there is a free block; only its arena may be full.\<close>

lemma nonempty_list:
  assumes inv: "heap_inv t s ap ds xs" and nf: "\<forall>a ar. arena_at s ap a ar \<longrightarrow> \<not> arena_full ar" and i: "i < 7"
    and room: "heap_room t 1 s"
  obtains s1 ap1 xs1 b r where
    "(if TagList_IsEmpty (bd_free_blocks (ds ! i)) (hp_tags s) then Allocate_arena t i (ds ! i) s else Some s) = Some s1"
    "heap_inv t s1 ap1 ds xs1" "xs1 i = b # r" "live t s1 = live t s" "pool_used ap \<subseteq> pool_used ap1"
    "\<And>p q. p \<in> pool_used ap \<Longrightarrow> unat q < 4096 \<Longrightarrow> mem_read (hp_mem s1) (p + q) = mem_read (hp_mem s) (p + q)"
    "\<And>a ar. arena_at s1 ap1 a ar \<Longrightarrow> arena_full ar \<Longrightarrow> a = MemBlock_GetArena b"
proof (cases "xs i")
  case (Cons b r)
  then have "\<not> TagList_IsEmpty (bd_free_blocks (ds ! i)) (hp_tags s)" using IsEmpty_abs [OF list_abs [OF inv i]] by simp
  then show thesis using that [of s ap xs b r] inv Cons nf by auto
next
  case Nil
  have em: "TagList_IsEmpty (bd_free_blocks (ds ! i)) (hp_tags s)"
    using IsEmpty_abs [OF list_abs [OF inv i]] Nil by simp
  have g: "GetVrAddrPool t (hp_mem s) = Some ap" and po: "pool_ok ap" and sp: "space_of t s ap ds"
    using inv by (auto simp: heap_inv_def space_of_def vspace_ok_def)
  have "pool_avail ap \<noteq> {}" using vp.alloc_one_cases [OF po] room g by (auto simp: heap_room_def)
  then obtain s' a ap' ar where s': "Allocate_arena t i (ds ! i) s = Some s'"
    "heap_inv t s' ap' ds (xs(i := map (blk a i) [0..<blk_count i]))" "a \<in> pool_avail ap" "pool_used ap' = insert a (pool_used ap)"
    "hp_arena s' = (hp_arena s)(a \<mapsto> ar)" "live t s' = live t s"
    "\<And>p q. p \<in> pool_used ap \<Longrightarrow> unat q < 4096 \<Longrightarrow> mem_read (hp_mem s') (p + q) = mem_read (hp_mem s) (p + q)"
    using Allocate_arena_ok [OF inv i Nil] room unfolding heap_room_def by metis
  have c: "0 < blk_count i" using blk_count_pos [OF i] by simp
  then have xs: "map (blk a i) [0..<blk_count i] = blk a i 0 # map (blk a i) [1..<blk_count i]" by (simp add: upt_conv_Cons)
  have "MemBlock_GetArena (blk a i 0) = a" using blk_page [OF space_of_page(1) [OF sp] c] s'(3) by blast
  moreover have "a' = a" if "arena_at s' ap' a' ar'" "arena_full ar'" for a' ar'
    using nf that s'(4,5) by (auto simp: arena_at_def split: if_splits)
  ultimately show thesis
    by (intro that [of s' ap' "xs(i := map (blk a i) [0..<blk_count i])" "blk a i 0" "map (blk a i) [1..<blk_count i]"])
      (use em s'(1,2,4,6,7) xs in auto)
qed

lemma Allocate_small_ok:
  assumes ok: "heap_ok t s" and sz: "unat sz \<le> 1024" and room: "heap_room t 1 s"
  shows "\<exists>b n s'. Allocate_small t sz s = Some (b, s') \<and> unat sz \<le> n \<and> alloc_result t s b n s'"
proof -
  obtain ap ds xs where inv: "heap_inv t s ap ds xs" and nf: "\<forall>a ar. arena_at s ap a ar \<longrightarrow> \<not> arena_full ar"
    using ok by (auto simp: heap_ok_def)
  have "desc_table_ok ds" and gd: "GetMemBlockDescTab t s = Some ds" using inv by (auto simp: heap_inv_def space_of_def)
  then obtain i where i: "i < 7" "MemBlockDescTab_GetMinDesc ds sz = Some i" "unat sz \<le> blk_size i"
    using GetMinDesc_ok [OF _ sz] by blast
  obtain s1 ap1 xs1 b r where s1:
    "(if TagList_IsEmpty (bd_free_blocks (ds ! i)) (hp_tags s) then Allocate_arena t i (ds ! i) s else Some s) = Some s1"
    "heap_inv t s1 ap1 ds xs1" "xs1 i = b # r" "live t s1 = live t s" "pool_used ap \<subseteq> pool_used ap1"
    "\<And>p q. p \<in> pool_used ap \<Longrightarrow> unat q < 4096 \<Longrightarrow> mem_read (hp_mem s1) (p + q) = mem_read (hp_mem s) (p + q)"
    "\<And>a ar. arena_at s1 ap1 a ar \<Longrightarrow> arena_full ar \<Longrightarrow> a = MemBlock_GetArena b"
    using nonempty_list [OF inv nf i(1) room] by blast
  obtain s' a ar where s': "Allocate_pop (ds ! i) s1 = Some (b, s')" "heap_inv t s' ap1 ds (xs1(i := r))"
    "contents (hp_mem s') (b, blk_size i) = replicate (blk_size i div 4) (Some 0)"
    "\<forall>p q. p \<in> pool_used ap1 \<and> unat q < 4096 \<and> (\<forall>k < blk_size i. p + q \<noteq> b + of_nat k) \<longrightarrow>
       mem_read (hp_mem s') (p + q) = mem_read (hp_mem s1) (p + q)"
    "same_on (- (sentinels ds i \<union> unat ` set (xs1 i))) (hp_tags s1) (hp_tags s')" "arena_at s1 ap1 a ar" "\<not> ar_large ar" "a = MemBlock_GetArena b"
    "hp_arena s' = (hp_arena s1)(a \<mapsto> ar\<lparr>ar_count := ar_count ar - 1\<rparr>)" "\<not> arena_full (ar\<lparr>ar_count := ar_count ar - 1\<rparr>)"
    using Allocate_pop_ok [OF s1(2) i(1) s1(3)] by blast
  have "distinct (map unat (b # r))" using list_abs [OF s1(2) i(1)] s1(3) by (simp add: tl_abs_def tl_nodes_def)
  then have "b \<in> set (xs1 i)" "set r = set (xs1 i) - {b}" using s1(3) by auto
  note lv = live_change [OF s1(2) i(1) this s'(2,6,7,9), unfolded s1(4)]
  have run: "Allocate_small t sz s = Some (b, s')" using gd i(2) s1(1) s'(1) by (simp add: Allocate_small_def Let_def)
  have "\<not> arena_full br" if "arena_at s' ap1 c br" for c br
    using s1(7) [of c br] that s'(8-10) by (cases "c = a") (auto simp: arena_at_def)
  then have "heap_ok t s'" using s'(2) unfolding heap_ok_def by blast
  moreover have "contents (hp_mem s') x = contents (hp_mem s) x" if x: "x \<in> live t s" for x
  proof -
    obtain c n where c: "x = (c, n)" by (cases x)
    have "mem_read (hp_mem s') (p + q) = mem_read (hp_mem s) (p + q)"
      if p: "p \<in> pool_used ap" "unat q < 4096" "\<exists>k < n. p + q = c + of_nat k" for p q
    proof -
      have ne: "(c, n) \<noteq> (b, blk_size i)" using lv(2) x c by auto
      obtain k0 where k0: "k0 < n" "p + q = c + of_nat k0" using p(3) by blast
      have "p + q \<noteq> b + of_nat k" if "k < blk_size i" for k
        using live_disjoint [OF s'(2) _ _ ne k0(1) that] lv(1) x c k0(2) by simp
      then have "mem_read (hp_mem s') (p + q) = mem_read (hp_mem s1) (p + q)" using s'(4) s1(5) p(1,2) by blast
      then show ?thesis using s1(6) p(1,2) by simp
    qed
    then show ?thesis using live_contents_keep [OF inv] x c by blast
  qed
  moreover have "b \<noteq> 0"
  proof -
    have sp: "space_of t s1 ap1 ds" using s1(2) by (simp add: heap_inv_def)
    have "a \<noteq> 0" using space_of_page(3) [OF sp] s'(6) by (auto simp: arena_at_def)
    then show ?thesis using s'(8) by (auto simp: MemBlock_GetArena_def VrAddr_GetPageAddr_def vr_defs GetBits_def)
  qed
  ultimately show ?thesis using run i(3) lv s'(3) unfolding alloc_result_def by blast
qed

lemma CalcPageCount_ok:
  assumes "unat sz + 2 * page_size \<le> 2 ^ 32"
  shows "unat (CalcPageCount sz) = (unat sz + 4095) div 4096" "unat sz \<le> unat (CalcPageCount sz) * page_size"
proof -
  have p: "unat (of_nat page_size :: u32) = 4096" by (simp add: page_size_def)
  let ?q = "RoundUpDivide sz (of_nat page_size)"
  have q: "unat ?q = (unat sz + 4095) div 4096"
    using unat_RoundUpDivide [of "of_nat page_size" sz] assms p by (simp add: page_size_def)
  have "unat ?q * 4096 \<le> unat sz + 4095" unfolding q by (rule div_times_less_eq_dividend)
  then have "unat (?q * of_nat page_size) = unat ?q * 4096"
    using assms p by (subst unat_mult_lem [THEN iffD1]) (simp_all add: page_size_def)
  then have "unat (CalcPageCount sz) = unat ?q" by (simp add: CalcPageCount_def ForwardAlign_def unat_div p)
  then show c: "unat (CalcPageCount sz) = (unat sz + 4095) div 4096" using q by simp
  show "unat sz \<le> unat (CalcPageCount sz) * page_size"
    unfolding c page_size_def using div_mult_mod_eq [of "unat sz + 4095" 4096] mod_less_divisor [of 4096 "unat sz + 4095"] by linarith
qed

text \<open>A large block: pages of its own, cleared, behind the header.\<close>

lemma large_words:
  assumes "\<forall>k < 1024 * n. mem_read m (a + of_nat (4 * k)) = Some 0"
  shows "contents m (a + of_nat sizeof_MemArena, n * page_size - sizeof_MemArena) =
    replicate ((n * page_size - sizeof_MemArena) div 4) (Some 0)"
proof -
  have "mem_read m (a + of_nat sizeof_MemArena + of_nat (4 * k)) = Some 0" if "k < (n * page_size - sizeof_MemArena) div 4" for k
  proof -
    have "a + of_nat sizeof_MemArena + of_nat (4 * k) = a + of_nat (4 * (k + 3))" by (simp add: sizeof_MemArena_def)
    moreover have "k + 3 < 1024 * n" using that by (simp add: sizeof_MemArena_def page_size_def)
    ultimately show ?thesis using assms by metis
  qed
  then show ?thesis by (simp add: contents_def list_eq_iff_nth_eq del: of_nat_mult)
qed

lemma live_page_used:
  assumes inv: "heap_inv t s ap ds xs" and l: "(a + of_nat r, n) \<in> live t s" "0 < n" and a: "VrAddr_GetOffset a = 0" "r < 4096"
  shows "a \<in> pool_used ap"
proof -
  have sp: "space_of t s ap ds" using inv by (simp add: heap_inv_def)
  obtain c ar where c: "arena_at s ap c ar"
    "\<And>k. k < n \<Longrightarrow> \<exists>p q. p \<in> arena_pages c ar \<and> unat q < 4096 \<and> a + of_nat r + of_nat k = p + q"
    using live_place [OF inv l(1)] by blast
  obtain p q where p: "p \<in> arena_pages c ar" "unat q < 4096" "a + of_nat r = p + q" using c(2) [of 0] l(2) by auto
  have u: "p \<in> pool_used ap" using p(1) arena_pages_self(2) [OF inv c(1)] by blast
  then have "a = p" using page_offset_unique [OF a(1) space_of_page(1) [OF sp], of p "of_nat r" q] p a(2) by simp
  then show ?thesis using u by simp
qed

lemma Allocate_large_ok:
  assumes ok: "heap_ok t s" and sz: "unat sz + sizeof_MemArena + 2 * page_size \<le> 2 ^ 32" "0 < unat sz"
    and n: "n = unat (CalcPageCount (sz + of_nat sizeof_MemArena))" and room: "heap_room t n s"
  shows "\<exists>b s'. Allocate_large t sz s = Some (b, s') \<and> unat sz \<le> n * page_size - sizeof_MemArena \<and>
    alloc_result t s b (n * page_size - sizeof_MemArena) s'"
proof -
  obtain ap ds xs where inv: "heap_inv t s ap ds xs" and nf: "\<forall>a ar. arena_at s ap a ar \<longrightarrow> \<not> arena_full ar"
    using ok by (auto simp: heap_ok_def)
  have sp: "space_of t s ap ds" and ls: "lists_ok t s ap ds xs" and as: "arenas_ok t s ap xs" and po: "pool_ok ap"
    using inv by (auto simp: heap_inv_def space_of_def vspace_ok_def)
  have us: "unat (sz + of_nat sizeof_MemArena) = unat sz + sizeof_MemArena"
    by (rule unat_plus) (use sz(1) in \<open>simp_all add: sizeof_MemArena_def page_size_def\<close>)
  have big: "unat sz + sizeof_MemArena \<le> n * page_size"
    using CalcPageCount_ok(2) [of "sz + of_nat sizeof_MemArena"] sz(1) unfolding n us by simp
  then have n0: "0 < n" using sz(2) by (cases n) auto
  have room': "enough t n (hp_mem s)" "VrAddrPool_AllocPages ap n \<noteq> Some (0, ap)"
    using room sp by (auto simp: heap_room_def space_of_def)
  obtain a ap' s1 where s1: "heap_AllocPages t n s = Some (a, s1)" "a \<noteq> 0" "space_of t s1 ap' ds"
    "page_run a n \<subseteq> pool_avail ap" "card (page_run a n) = n"
    "pool_used ap' = pool_used ap \<union> page_run a n" "pool_avail ap' = pool_avail ap - page_run a n"
    "\<forall>k < 1024 * n. mem_read (hp_mem s1) (a + of_nat (4 * k)) = Some 0"
    "\<forall>b k. b \<in> pool_used ap \<and> unat k < 4096 \<longrightarrow> mem_read (hp_mem s1) (b + k) = mem_read (hp_mem s) (b + k)"
    "hp_tags s1 = hp_tags s" "hp_arena s1 = hp_arena s"
    using heap_AllocPages_ok [OF sp n0 room'] by metis
  let ?ar = "\<lparr>ar_desc = None, ar_count = n, ar_large = True\<rparr>" and ?b = "a + of_nat sizeof_MemArena"
  let ?s = "s1\<lparr>hp_arena := (hp_arena s1)(a \<mapsto> ?ar)\<rparr>" and ?n = "n * page_size - sizeof_MemArena"
  have ar: "a \<in> page_run a n" using n0 by (auto simp: page_run_def intro: rev_image_eqI [of 0])
  have av: "a \<in> pool_avail ap" "a \<notin> pool_used ap" using ar s1(4) pool_used_avail [OF po] by auto
  have off: "VrAddr_GetOffset a = 0" using space_of_page(1) [OF sp] av(1) by blast
  have none: "hp_arena s p = None" if "p \<in> page_run a n" for p using as s1(4) that unfolding arenas_ok_def by blast
  have at: "arena_at ?s ap' p pr \<longleftrightarrow> arena_at s ap p pr \<or> p = a \<and> pr = ?ar" for p pr
  proof (cases "p = a")
    case True
    then show ?thesis using ar av(2) s1(6,11) by (auto simp: arena_at_def)
  next
    case False
    then show ?thesis using none [of p] s1(6,11) by (auto simp: arena_at_def)
  qed
  have "small_arena t ?s ap' k p \<longleftrightarrow> small_arena t s ap k p" for k p unfolding small_arena_def at by auto
  then have bo: "blocks_of t ?s ap' k = blocks_of t s ap k" for k by (simp add: blocks_of_def)
  have inv': "heap_inv t ?s ap' ds xs"
  proof (rule heap_inv_new [OF inv _ s1(4) ar s1(6,7), where ar = ?ar])
    show "lists_ok t ?s ap' ds xs" using ls s1(10) by (simp add: lists_ok_def bo)
  qed (use s1 n0 in \<open>auto simp: space_of_def arena_pages_def arena_ok_def\<close>)
  have "\<not> arena_full pr" if "arena_at ?s ap' p pr" for p pr using that nf unfolding at by (auto simp: arena_full_def)
  then have "heap_ok t ?s" using inv' unfolding heap_ok_def by blast
  moreover have "large_live ?s ap' = insert (?b, ?n) (large_live s ap)"
    unfolding large_live_def at by (auto; rule exI [of _ ?ar]; simp)
  then have "live t ?s = insert (?b, ?n) (live t s)" by (simp add: live_split [OF inv] live_split [OF inv'] small_live_def bo)
  moreover have "(?b, ?n) \<notin> live t s"
    using live_page_used [OF inv _ _ off, of sizeof_MemArena ?n] av(2) big sz(2) by (auto simp: sizeof_MemArena_def)
  moreover have "contents (hp_mem ?s) (?b, ?n) = replicate (?n div 4) (Some 0)" using large_words [OF s1(8)] by simp
  moreover have "contents (hp_mem ?s) x = contents (hp_mem s) x" if "x \<in> live t s" for x
    using live_contents_keep [OF inv, of "fst x" "snd x" "hp_mem s1" "hp_mem s"] that s1(9) by simp
  moreover have "?b \<noteq> 0"
    using page_offset_unique [of a 0 "of_nat sizeof_MemArena" 0] off s1(2)
    by (auto simp: sizeof_MemArena_def VrAddr_GetOffset_def GetBits_def vr_offset_pos_def vr_offset_len_def)
  moreover have "Allocate_large t sz s = Some (?b, ?s)" using s1(1,2) n by (simp add: Allocate_large_def Let_def)
  ultimately show ?thesis using big unfolding alloc_result_def by (intro exI [of _ ?b] exI [of _ ?s]) auto
qed

text \<open>There is room for a request of \<open>sz\<close> bytes, a page for a small one; the sum with the header does not wrap around.\<close>

definition request_room :: "pool_type \<Rightarrow> u32 \<Rightarrow> heap \<Rightarrow> bool" where
  "request_room t sz s \<longleftrightarrow> 0 < unat sz \<and> unat sz + sizeof_MemArena + 2 * page_size \<le> 2 ^ 32 \<and>
     heap_room t (if unat sz \<le> max_block_size then 1 else unat (CalcPageCount (sz + of_nat sizeof_MemArena))) s"

lemma Allocate_ok:
  assumes ok: "heap_ok t s" and rq: "request_room t sz s"
  shows "\<exists>b n s'. Allocate t sz s = Some (b, s') \<and> unat sz \<le> n \<and> alloc_result t s b n s'"
proof -
  have sz: "0 < unat sz" "unat sz + sizeof_MemArena + 2 * page_size \<le> 2 ^ 32"
    and room: "heap_room t (if unat sz \<le> max_block_size then 1 else unat (CalcPageCount (sz + of_nat sizeof_MemArena))) s"
    using rq unfolding request_room_def by blast+
  define n where "n = (if unat sz \<le> max_block_size then 1 else unat (CalcPageCount (sz + of_nat sizeof_MemArena)))"
  have us: "unat (sz + of_nat sizeof_MemArena) = unat sz + sizeof_MemArena"
    by (rule unat_plus) (use sz(2) in \<open>simp_all add: sizeof_MemArena_def page_size_def\<close>)
  have big: "unat sz \<le> n * page_size"
    using CalcPageCount_ok(2) [of "sz + of_nat sizeof_MemArena"] sz(2) unfolding us
    by (auto simp: n_def max_block_size_def page_size_def)
  let ?p = "GetPhyMemPagePool t (hp_mem s)"
  obtain ap ds xs where inv: "heap_inv t s ap ds xs" using ok by (auto simp: heap_ok_def)
  then have g: "GetVrAddrPool t (hp_mem s) = Some ap" and mo: "mem_ok (hp_mem s)"
    by (auto simp: heap_inv_def space_of_def vspace_ok_def space_def)
  have "pool_ok ?p" using mo by (simp add: mem_ok_pools)
  then have "pl_free ?p * 4096 < 2 ^ 32"
    by (auto simp: pool_ok_def page_size_def dest!: word_neq_0_conv [THEN iffD1] simp: word_less_nat_alt)
  moreover have "n \<le> pl_free ?p" using room by (auto simp: n_def [symmetric] heap_room_def enough_def GetPhyMemPagePool_def split: if_splits)
  ultimately have "\<not> of_nat (pl_free ?p) * of_nat page_size < sz"
  proof -
    assume lt: "pl_free ?p * 4096 < 2 ^ 32" and le: "n \<le> pl_free ?p"
    have "unat (of_nat (pl_free ?p * page_size) :: u32) = pl_free ?p * page_size"
      using lt by (intro unat_of_nat_u32) (simp add: page_size_def)
    moreover have "unat sz \<le> pl_free ?p * page_size" using mult_le_mono1 [OF le, of page_size] big by linarith
    ultimately show ?thesis by (simp add: word_less_nat_alt not_less del: of_nat_mult flip: of_nat_mult)
  qed
  then have run: "Allocate t sz s = (if sz > of_nat max_block_size then Allocate_large t sz s else Allocate_small t sz s)"
    using g sz(1) by (simp add: Allocate_def Let_def word_less_nat_alt del: of_nat_mult)
  have "(sz > of_nat max_block_size) = (\<not> unat sz \<le> max_block_size)" by (simp add: word_less_nat_alt max_block_size_def not_le)
  then show ?thesis
  proof (cases "unat sz \<le> max_block_size")
    case True
    then show ?thesis
      using run Allocate_small_ok [OF ok, of sz] room \<open>(sz > of_nat max_block_size) = _\<close> by (simp add: max_block_size_def)
  next
    case False
    then obtain b s' where "Allocate_large t sz s = Some (b, s')" "unat sz \<le> n * page_size - sizeof_MemArena"
      "alloc_result t s b (n * page_size - sizeof_MemArena) s'"
      using Allocate_large_ok [OF ok sz(2,1), of n] room by (auto simp: n_def)
    then show ?thesis using run False \<open>(sz > of_nat max_block_size) = _\<close> by auto
  qed
qed

section \<open>Freeing\<close>

lemma Free_detach_ok:
  assumes "hp_arena s a = Some ar" "\<not> ar_large ar" "ar_desc ar = Some p" "heap_desc s p = Some desc"
    "bd_block_size desc = blk_size i" "k + n \<le> ar_count ar" "tl_abs (hp_tags s) l ys"
    "distinct (map (\<lambda>j. unat (blk a i j)) [k..<k + n])" "(\<lambda>j. unat (blk a i j)) ` {k..<k + n} \<subseteq> set ys"
  shows "\<exists>h. Free_detach l a k n s = Some (s\<lparr>hp_tags := h\<rparr>) \<and>
    tl_abs h l (filter (\<lambda>y. y \<notin> (\<lambda>j. unat (blk a i j)) ` {k..<k + n}) ys) \<and> same_on (- set (tl_nodes l ys)) (hp_tags s) h"
  using assms
proof (induction n arbitrary: k s ys)
  case 0
  then show ?case by (intro exI [of _ "hp_tags s"]) (simp add: same_on_def)
next
  case (Suc n)
  let ?B = "\<lambda>j. unat (blk a i j)"
  have u: "[k..<k + Suc n] = k # [Suc k..<Suc k + n]" by (simp add: upt_conv_Cons)
  have iv: "{k..<k + Suc n} = insert k {Suc k..<Suc k + n}" by auto
  have kin: "?B k \<in> set ys" using Suc.prems(9) unfolding iv by blast
  then obtain us vs where ys: "ys = us @ ?B k # vs" by (meson split_list)
  obtain h where h: "Tag_Detach (?B k) (hp_tags s) = Some h" "tl_abs h l (us @ vs)" "same_on (- set (tl_nodes l (us @ vs))) (hp_tags s) h"
    using tq.detach [of "hp_tags s" l us "?B k" vs] Suc.prems(7) ys by blast
  have d: "distinct ys" using Suc.prems(7) by (simp add: tl_abs_def tl_nodes_def)
  have f: "TagList_Find l (?B k) (hp_tags s) = Some True" using Find_abs [OF Suc.prems(7)] kin by simp
  have gb: "MemArena_GetBlock s a k = Some (blk a i k)" using GetBlock_eq [OF Suc.prems(1-5)] Suc.prems(6) by simp
  have nk: "?B k \<notin> ?B ` {Suc k..<Suc k + n}" using Suc.prems(8) unfolding u by auto
  have sub: "?B ` {Suc k..<Suc k + n} \<subseteq> set (us @ vs)"
  proof
    fix y assume y: "y \<in> ?B ` {Suc k..<Suc k + n}"
    then have "y \<in> set ys" using Suc.prems(9) unfolding iv by blast
    moreover have "y \<noteq> ?B k" using y nk by blast
    ultimately show "y \<in> set (us @ vs)" unfolding ys by simp
  qed
  obtain h' where h': "Free_detach l a (Suc k) n (s\<lparr>hp_tags := h\<rparr>) = Some (s\<lparr>hp_tags := h'\<rparr>)"
    "tl_abs h' l (filter (\<lambda>y. y \<notin> ?B ` {Suc k..<Suc k + n}) (us @ vs))" "same_on (- set (tl_nodes l (us @ vs))) h h'"
    using Suc.IH [of "s\<lparr>hp_tags := h\<rparr>" "Suc k" "us @ vs"] Suc.prems h(2) sub unfolding u by auto
  have fe: "filter (\<lambda>y. y \<notin> ?B ` {k..<k + Suc n}) ys = filter (\<lambda>y. y \<notin> ?B ` {Suc k..<Suc k + n}) (us @ vs)"
  proof -
    have e: "filter (\<lambda>y. y \<noteq> x \<and> y \<notin> S) zs = filter (\<lambda>y. y \<notin> S) zs" if "x \<notin> set zs" for x S and zs :: "nat list"
      by (rule filter_cong) (use that in auto)
    have "?B k \<notin> set us" "?B k \<notin> set vs" using d ys by auto
    then show ?thesis unfolding iv image_insert ys by (simp add: e)
  qed
  have "Free_detach l a k (Suc n) s = Some (s\<lparr>hp_tags := h'\<rparr>)" using gb f h(1) h'(1) by simp
  moreover have "same_on (- set (tl_nodes l ys)) (hp_tags s) h'"
    using h(3) h'(3) unfolding ys tl_nodes_set by (auto simp: same_on_def)
  ultimately show ?case using h'(2) unfolding fe by blast
qed

definition free_result :: "pool_type \<Rightarrow> heap \<Rightarrow> u32 \<times> nat \<Rightarrow> heap \<Rightarrow> bool" where
  "free_result t s x s' \<longleftrightarrow> heap_ok t s' \<and> live t s' = live t s - {x} \<and>
     (\<forall>y \<in> live t s - {x}. contents (hp_mem s') y = contents (hp_mem s) y)"

text \<open>A block joins the free list of its size.\<close>

lemma push_block:
  assumes inv: "heap_inv t s ap ds xs" and a: "arena_at s ap a ar" "ar_desc ar = Some (t, i)" "j < blk_count i"
    and nb: "blk a i j \<notin> set (xs i)"
  obtains h where "TagList_PushBack (bd_free_blocks (ds ! i)) (unat (blk a i j)) (hp_tags s) = Some h"
    "heap_inv t (s\<lparr>hp_tags := h, hp_arena := (hp_arena s)(a \<mapsto> ar\<lparr>ar_count := Suc (ar_count ar)\<rparr>)\<rparr>) ap ds (xs(i := xs i @ [blk a i j]))"
    "live t s = insert (blk a i j, blk_size i)
       (live t (s\<lparr>hp_tags := h, hp_arena := (hp_arena s)(a \<mapsto> ar\<lparr>ar_count := Suc (ar_count ar)\<rparr>)\<rparr>))"
    "(blk a i j, blk_size i) \<notin> live t (s\<lparr>hp_tags := h, hp_arena := (hp_arena s)(a \<mapsto> ar\<lparr>ar_count := Suc (ar_count ar)\<rparr>)\<rparr>)"
proof -
  let ?b = "blk a i j" and ?ar = "ar\<lparr>ar_count := Suc (ar_count ar)\<rparr>"
  have sp: "space_of t s ap ds" using inv by (simp add: heap_inv_def)
  note ai = small_arena_idx [OF inv a(1,2)]
  have u: "a \<in> pool_used ap" using a(1) by (simp add: arena_at_def)
  have off: "VrAddr_GetOffset p = 0" if "p \<in> pool_used ap" for p using space_of_page(1) [OF sp] that by blast
  have bl: "?b \<in> blocks_of t s ap i" using a ai(3) by (auto simp: blocks_of_def small_arena_def)
  have sub: "set (xs i) \<subseteq> blocks_of t s ap i" using inv ai(1) by (simp add: heap_inv_def lists_ok_def)
  have "unat ?b \<notin> set (tl_nodes (bd_free_blocks (ds ! i)) (map unat (xs i)))"
    using block_not_sentinel [OF sp bl ai(1)] nb unfolding tl_nodes_sentinels by (auto simp flip: word_unat_eq_iff)
  then obtain h where h: "TagList_PushBack (bd_free_blocks (ds ! i)) (unat ?b) (hp_tags s) = Some h"
    "tl_abs h (bd_free_blocks (ds ! i)) (map unat (xs i) @ [unat ?b])"
    "same_on (- insert (unat ?b) (set (tl_nodes (bd_free_blocks (ds ! i)) (map unat (xs i))))) (hp_tags s) h"
    using tq.push_back [OF list_abs [OF inv ai(1)]] by blast
  let ?s = "s\<lparr>hp_tags := h, hp_arena := (hp_arena s)(a \<mapsto> ?ar)\<rparr>" and ?xs = "xs(i := xs i @ [?b])"
  have "free_in ?xs a i = insert j (free_in xs a i)" "j \<notin> free_in xs a i"
    using a(3) nb blk_inj(2) [OF off [OF u] off [OF u] _ a(3)] by (auto simp: free_in_def)
  then have c: "Suc (ar_count ar) = card (free_in ?xs a i)" using ai(4) by simp
  have inv': "heap_inv t ?s ap ds ?xs"
  proof (rule heap_inv_update [OF inv a(1,2), where c = "Suc (ar_count ar)"])
    show "space_of t ?s ap ds" using sp by (simp add: space_of_def)
    show "same_on (- (sentinels ds i \<union> unat ` blocks_of t s ap i)) (hp_tags s) (hp_tags ?s)"
      using h(3) sub bl unfolding tl_nodes_sentinels by (auto simp: same_on_def)
    show "blk a' i j' \<in> set (xs i @ [?b]) \<longleftrightarrow> blk a' i j' \<in> set (xs i)" if "a' \<in> pool_used ap" "a' \<noteq> a" "j' < blk_count i" for a' j'
      using blk_inj(1) [OF off [OF that(1)] off [OF u] that(3) a(3)] that(2) by auto
  qed (use h(2) sub bl c in auto)
  have at: "arena_at ?s ap a ?ar" "\<not> ar_large ?ar" "hp_arena s = (hp_arena ?s)(a \<mapsto> ?ar\<lparr>ar_count := ar_count ar\<rparr>)"
    using a(1) ai(3) by (auto simp: arena_at_def)
  have "?b \<in> set (?xs i)" "set (xs i) = set (?xs i) - {?b}" "heap_inv t s ap ds (?xs(i := xs i))" using nb inv by auto
  note lv = live_change [OF inv' ai(1) this at]
  show thesis by (rule that [OF h(1) inv' lv])
qed

text \<open>An arena with all its blocks on the free list is taken apart.\<close>

lemma blk_other_arena:
  assumes "VrAddr_GetOffset p = 0" "VrAddr_GetOffset a = 0" "p \<noteq> a" "j < blk_count i"
  shows "blk p i j \<notin> blk a i ` {0..<blk_count i}"
proof
  assume "blk p i j \<in> blk a i ` {0..<blk_count i}"
  then obtain x where "x < blk_count i" "blk p i j = blk a i x" by auto
  then show False using blk_inj(1) [OF assms(1,2,4)] assms(3) by blast
qed

text \<open>Without the arena \<open>a\<close> its blocks are gone from the blocks and the list of its size.\<close>

lemma drop_arena_blocks:
  assumes sp: "space_of t s ap ds" and a: "\<forall>k. small_arena t s ap k a \<longleftrightarrow> k = i"
    and sa: "\<forall>k b. small_arena t s' ap' k b \<longleftrightarrow> small_arena t s ap k b \<and> b \<noteq> a"
  shows "blocks_of t s' ap' k = blocks_of t s ap k - (if k = i then blk a i ` {0..<blk_count i} else {})"
proof -
  have off: "VrAddr_GetOffset b = 0" if "small_arena t s ap k b" for b k
    using space_of_page(1) [OF sp] that by (auto simp: small_arena_def arena_at_def)
  have offa: "VrAddr_GetOffset a = 0" using off [of i a] a by simp
  have "x \<in> blocks_of t s' ap' k \<longleftrightarrow> x \<in> blocks_of t s ap k \<and> (k = i \<longrightarrow> x \<notin> blk a i ` {0..<blk_count i})" for x
  proof
    assume "x \<in> blocks_of t s' ap' k"
    then obtain b j where b: "x = blk b k j" "small_arena t s ap k b" "b \<noteq> a" "j < blk_count k"
      using sa unfolding blocks_of_def by blast
    then have "x \<in> blocks_of t s ap k" by (auto simp: blocks_of_def)
    then show "x \<in> blocks_of t s ap k \<and> (k = i \<longrightarrow> x \<notin> blk a i ` {0..<blk_count i})"
      using blk_other_arena [OF off [OF b(2)] offa b(3), of j k] b(1,4) by (cases "k = i") simp_all
  next
    assume x: "x \<in> blocks_of t s ap k \<and> (k = i \<longrightarrow> x \<notin> blk a i ` {0..<blk_count i})"
    then obtain b j where b: "x = blk b k j" "small_arena t s ap k b" "j < blk_count k" unfolding blocks_of_def by blast
    have "b \<noteq> a" using x b a by auto
    then show "x \<in> blocks_of t s' ap' k" unfolding blocks_of_def using sa b by blast
  qed
  then show ?thesis by auto
qed

lemma release_arena:
  assumes inv: "heap_inv t s ap ds xs" and a: "arena_at s ap a ar" "ar_desc ar = Some (t, i)" "ar_count ar = blk_count i"
  obtains s1 s2 ap' xs' where "Free_detach (bd_free_blocks (ds ! i)) a 0 (ar_count ar) s = Some s1" "heap_FreePages t a 1 s1 = Some s2"
    "heap_inv t s2 ap' ds xs'" "live t s2 = live t s" "hp_arena s2 = (hp_arena s)(a := None)" "pool_used ap' = pool_used ap - {a}"
    "\<forall>p q. p \<in> pool_used ap' \<and> unat q < 4096 \<longrightarrow> mem_read (hp_mem s2) (p + q) = mem_read (hp_mem s) (p + q)"
proof -
  let ?l = "bd_free_blocks (ds ! i)" and ?B = "\<lambda>j. unat (blk a i j)" and ?S = "blk a i ` {0..<blk_count i}"
  have sp: "space_of t s ap ds" and ls: "lists_ok t s ap ds xs" using inv by (auto simp: heap_inv_def)
  note ai = small_arena_idx [OF inv a(1,2)]
  have u: "a \<in> pool_used ap" and hs: "hp_arena s a = Some ar" using a(1) by (auto simp: arena_at_def)
  have off: "VrAddr_GetOffset p = 0" if "p \<in> pool_used ap" for p using space_of_page(1) [OF sp] that by blast
  have fa: "free_in xs a i = {..<blk_count i}"
    using ai(4) a(3) by (intro card_subset_eq) (auto simp: free_in_def)
  have "blk a i j \<in> set (xs i)" if "j < blk_count i" for j
  proof -
    have "j \<in> free_in xs a i" unfolding fa using that by simp
    then show ?thesis by (simp add: free_in_def)
  qed
  then have all: "?S \<subseteq> set (xs i)" by auto
  have bsz: "bd_block_size (ds ! i) = blk_size i" using sp ai(1) by (simp add: space_of_def desc_table_ok_def)
  have im: "?B ` {0..<0 + blk_count i} = unat ` ?S" by (simp add: image_image)
  have le: "0 + blk_count i \<le> ar_count ar" and ds: "distinct (map ?B [0..<0 + blk_count i])"
    using a(3) blks_distinct [OF off [OF u], of i] by simp_all
  have sub: "?B ` {0..<0 + blk_count i} \<subseteq> set (map unat (xs i))"
    unfolding im set_map using all by (rule image_mono)
  obtain h where h: "Free_detach ?l a 0 (blk_count i) s = Some (s\<lparr>hp_tags := h\<rparr>)"
    "tl_abs h ?l (filter (\<lambda>y. y \<notin> unat ` ?S) (map unat (xs i)))"
    "same_on (- set (tl_nodes ?l (map unat (xs i)))) (hp_tags s) h"
    using Free_detach_ok [OF hs ai(3) a(2) heap_desc_nth [OF sp ai(1)] bsz le list_abs [OF inv ai(1)] ds sub] unfolding im by blast
  let ?s1 = "s\<lparr>hp_tags := h\<rparr>" and ?ys = "filter (\<lambda>b. b \<notin> ?S) (xs i)"
  have fl: "filter (\<lambda>y. y \<notin> unat ` ?S) (map unat (xs i)) = map unat ?ys"
    by (simp add: filter_map comp_def)
  have sp1: "space_of t ?s1 ap ds" using sp by (simp add: space_of_def)
  have r1: "page_run a 1 \<subseteq> pool_used ap" "card (page_run a 1) = 1" using u by simp_all
  obtain ap' s2 where s2: "heap_FreePages t a 1 ?s1 = Some s2" "space_of t s2 ap' ds"
    "pool_used ap' = pool_used ap - page_run a 1" "pool_avail ap' = pool_avail ap \<union> page_run a 1"
    "\<forall>b k. b \<in> pool_used ap' \<and> unat k < 4096 \<longrightarrow> mem_read (hp_mem s2) (b + k) = mem_read (hp_mem ?s1) (b + k)"
    "hp_tags s2 = hp_tags ?s1" "hp_arena s2 = (hp_arena ?s1)(a := None)" "hp_kdescs s2 = hp_kdescs ?s1" "hp_udescs s2 = hp_udescs ?s1"
    by (rule heap_FreePages_ok [OF sp1 zero_less_one r1])
  have up: "pool_used ap' = pool_used ap - {a}" "pool_avail ap' = pool_avail ap \<union> {a}" using s2(3,4) by auto
  have sa: "small_arena t s2 ap' k b \<longleftrightarrow> small_arena t s ap k b \<and> b \<noteq> a" for k b
    using s2(7) up(1) by (auto simp: small_arena_def arena_at_def)
  have sai: "small_arena t s ap k a \<longleftrightarrow> k = i" for k using a(1,2) ai(3) by (auto simp: small_arena_def arena_at_def)
  have bo: "blocks_of t s2 ap' k = blocks_of t s ap k - (if k = i then ?S else {})" for k
    using sai sa by (intro drop_arena_blocks [OF sp]) simp_all
  let ?xs = "xs(i := ?ys)"
  have keep: "same_on (- (sentinels ds i \<union> unat ` blocks_of t s ap i)) (hp_tags s) h"
    using h(3) ls ai(1) unfolding tl_nodes_sentinels by (auto simp: same_on_def lists_ok_def)
  have ls': "lists_ok t s2 ap' ds ?xs"
    using h(2) keep s2(6) ls ai(1) unfolding fl by (intro lists_ok_change [OF sp ls ai(1)]) (auto simp: bo lists_ok_def)
  have fi: "free_in ?xs p k = free_in xs p k" if p: "p \<in> pool_used ap" "p \<noteq> a" for p k
  proof -
    have "j \<in> free_in ?xs p k \<longleftrightarrow> j \<in> free_in xs p k" for j
      using blk_other_arena [OF off [OF p(1)] off [OF u] p(2), of j i] by (cases "k = i") (simp_all add: free_in_def cong: conj_cong)
    then show ?thesis by blast
  qed
  have inv': "heap_inv t s2 ap' ds ?xs"
    using s2(2,7) ls' up ai(3) fi by (intro heap_inv_drop [OF inv a(1)]) (simp_all add: arena_pages_def)
  have "arena_at s2 ap' b br \<and> ar_large br \<longleftrightarrow> arena_at s ap b br \<and> ar_large br" for b br
    using s2(7) up(1) ai(3) hs by (cases "b = a") (auto simp: arena_at_def)
  then have "large_live s2 ap' = large_live s ap" by (simp add: large_live_def)
  moreover have "blocks_of t s2 ap' k - set (?xs k) = blocks_of t s ap k - set (xs k)" for k
    unfolding bo using all by (cases "k = i") auto
  ultimately have "live t s2 = live t s" by (simp add: live_split [OF inv] live_split [OF inv'] small_live_def)
  then show thesis using that [OF _ s2(1) inv'] h(1) a(3) s2(5,7) up(1) by simp
qed

lemma Free_large_ok:
  assumes inv: "heap_inv t s ap ds xs" and nf: "\<forall>a ar. arena_at s ap a ar \<longrightarrow> \<not> arena_full ar"
    and a: "arena_at s ap a ar" "ar_large ar"
  shows "\<exists>s'. Free t (a + of_nat sizeof_MemArena) s = Some s' \<and>
    free_result t s (a + of_nat sizeof_MemArena, ar_count ar * page_size - sizeof_MemArena) s'"
proof -
  let ?b = "a + of_nat sizeof_MemArena" and ?n = "ar_count ar * page_size - sizeof_MemArena"
  have sp: "space_of t s ap ds" and ls: "lists_ok t s ap ds xs" using inv by (auto simp: heap_inv_def)
  have ok: "arena_ok t ap xs a ar" using inv a(1) by (simp add: heap_inv_def arenas_ok_def)
  then have r: "0 < ar_count ar" "page_run a (ar_count ar) \<subseteq> pool_used ap" "card (page_run a (ar_count ar)) = ar_count ar"
    and d: "ar_desc ar = None" using a(2) by (auto simp: arena_ok_def)
  have u: "a \<in> pool_used ap" "hp_arena s a = Some ar" using a(1) by (auto simp: arena_at_def)
  have off: "VrAddr_GetOffset a = 0" "a \<noteq> 0" using space_of_page(1,3) [OF sp] u(1) by blast+
  have pg: "MemBlock_GetArena ?b = a"
    using page_offset_GetPageAddr [OF off(1), of "of_nat sizeof_MemArena"] by (simp add: MemBlock_GetArena_def sizeof_MemArena_def)
  then have b0: "?b \<noteq> 0" using off(2) by (auto simp: MemBlock_GetArena_def VrAddr_GetPageAddr_def vr_defs GetBits_def)
  obtain ap' s' where s': "heap_FreePages t a (ar_count ar) s = Some s'" "space_of t s' ap' ds"
    "pool_used ap' = pool_used ap - page_run a (ar_count ar)" "pool_avail ap' = pool_avail ap \<union> page_run a (ar_count ar)"
    "\<forall>b k. b \<in> pool_used ap' \<and> unat k < 4096 \<longrightarrow> mem_read (hp_mem s') (b + k) = mem_read (hp_mem s) (b + k)"
    "hp_tags s' = hp_tags s" "hp_arena s' = (hp_arena s)(a := None)" "hp_kdescs s' = hp_kdescs s" "hp_udescs s' = hp_udescs s"
    by (rule heap_FreePages_ok [OF sp r])
  have pages: "arena_pages a ar = page_run a (ar_count ar)" using a(2) by (simp add: arena_pages_def)
  have used: "pool_used ap' = pool_used ap - arena_pages a ar" using s'(3) pages by simp
  note at' = arena_at_drop [OF inv a(1) used s'(7)]
  have "small_arena t s' ap' k b \<longleftrightarrow> small_arena t s ap k b" for k b
    unfolding small_arena_def at' using u(2) a(2) by (auto simp: arena_at_def)
  then have bo: "blocks_of t s' ap' k = blocks_of t s ap k" for k by (simp add: blocks_of_def)
  have inv': "heap_inv t s' ap' ds xs"
    using ls s'(6) by (intro heap_inv_drop [OF inv a(1) s'(2) used _ s'(7)]) (simp_all add: pages s'(4) lists_ok_def bo)
  have "large_live s ap = insert (?b, ?n) (large_live s' ap')"
    using a u(2) unfolding large_live_def at' by (auto simp: arena_at_def)
  then have lv: "live t s = insert (?b, ?n) (live t s')" by (simp add: live_split [OF inv] live_split [OF inv'] small_live_def bo)
  have "0 < ?n" using r(1) by (simp add: page_size_def sizeof_MemArena_def)
  then have "(?b, ?n) \<notin> live t s'"
    using live_page_used [OF inv' _ _ off(1), of sizeof_MemArena ?n] arena_pages_self(1) [OF inv a(1)] used
    by (auto simp: sizeof_MemArena_def)
  then have lv': "live t s' = live t s - {(?b, ?n)}" using lv by blast
  have "\<not> arena_full cr" if "arena_at s' ap' c cr" for c cr using that nf unfolding at' by blast
  then have "heap_ok t s'" using inv' unfolding heap_ok_def by blast
  moreover have "contents (hp_mem s') y = contents (hp_mem s) y" if "y \<in> live t s - {(?b, ?n)}" for y
    using live_contents_keep [OF inv', of "fst y" "snd y" "hp_mem s'" "hp_mem s"] that s'(5) by (simp add: lv')
  moreover have "Free t ?b s = Some s'" using b0 pg u(2) a(2) d s'(1) by (simp add: Free_def Let_def)
  ultimately show ?thesis using lv' by (auto simp: free_result_def)
qed

lemma Free_small_ok:
  assumes inv: "heap_inv t s ap ds xs" and nf: "\<forall>a ar. arena_at s ap a ar \<longrightarrow> \<not> arena_full ar"
    and a: "arena_at s ap a ar" "ar_desc ar = Some (t, i)" "j < blk_count i" and nb: "blk a i j \<notin> set (xs i)"
  shows "\<exists>s'. Free t (blk a i j) s = Some s' \<and> free_result t s (blk a i j, blk_size i) s'"
proof -
  let ?b = "blk a i j" and ?ar = "ar\<lparr>ar_count := Suc (ar_count ar)\<rparr>"
  have sp: "space_of t s ap ds" using inv by (simp add: heap_inv_def)
  note ai = small_arena_idx [OF inv a(1,2)]
  have u: "a \<in> pool_used ap" "hp_arena s a = Some ar" using a(1) by (auto simp: arena_at_def)
  have off: "VrAddr_GetOffset a = 0" "a \<noteq> 0" using space_of_page(1,3) [OF sp] u(1) by blast+
  have pg: "MemBlock_GetArena ?b = a" by (rule blk_page [OF off(1) a(3)])
  then have b0: "?b \<noteq> 0" using off(2) by (auto simp: MemBlock_GetArena_def VrAddr_GetPageAddr_def vr_defs GetBits_def)
  have bc: "bd_block_count (ds ! i) = blk_count i" using sp ai(1) by (simp add: space_of_def desc_table_ok_def)
  obtain h where h: "TagList_PushBack (bd_free_blocks (ds ! i)) (unat ?b) (hp_tags s) = Some h"
    and inv1: "heap_inv t (s\<lparr>hp_tags := h, hp_arena := (hp_arena s)(a \<mapsto> ?ar)\<rparr>) ap ds (xs(i := xs i @ [?b]))"
    and lv: "live t s = insert (?b, blk_size i) (live t (s\<lparr>hp_tags := h, hp_arena := (hp_arena s)(a \<mapsto> ?ar)\<rparr>))"
      "(?b, blk_size i) \<notin> live t (s\<lparr>hp_tags := h, hp_arena := (hp_arena s)(a \<mapsto> ?ar)\<rparr>)"
    by (rule push_block [OF inv a nb])
  let ?s = "s\<lparr>hp_tags := h, hp_arena := (hp_arena s)(a \<mapsto> ?ar)\<rparr>"
  have lv': "live t ?s = live t s - {(?b, blk_size i)}" using lv by blast
  have run: "Free t ?b s = (if Suc (ar_count ar) = blk_count i
      then Free_detach (bd_free_blocks (ds ! i)) a 0 (Suc (ar_count ar)) ?s \<bind> heap_FreePages t a 1 else Some ?s)"
    using b0 pg u(2) ai(3) a(2) heap_desc_nth [OF sp ai(1)] h bc by (simp add: Free_def Let_def)
  have at1: "arena_at ?s ap c cr \<longleftrightarrow> (if c = a then cr = ?ar else arena_at s ap c cr)" for c cr
    using u by (auto simp: arena_at_def)
  show ?thesis
  proof (cases "Suc (ar_count ar) = blk_count i")
    case False
    then have "\<not> arena_full ?ar" using a(2) by (auto simp: arena_full_def)
    then have "\<not> arena_full cr" if "arena_at ?s ap c cr" for c cr using that nf by (auto simp: at1 split: if_splits)
    then have "heap_ok t ?s" using inv1 unfolding heap_ok_def by blast
    then show ?thesis using run False lv' by (auto simp: free_result_def)
  next
    case True
    have a1: "arena_at ?s ap a ?ar" "ar_desc ?ar = Some (t, i)" "ar_count ?ar = blk_count i" using at1 a(2) True by auto
    obtain s1 s2 ap' xs' where r: "Free_detach (bd_free_blocks (ds ! i)) a 0 (ar_count ?ar) ?s = Some s1" "heap_FreePages t a 1 s1 = Some s2"
      "heap_inv t s2 ap' ds xs'" "live t s2 = live t ?s" "hp_arena s2 = (hp_arena ?s)(a := None)" "pool_used ap' = pool_used ap - {a}"
      "\<forall>p q. p \<in> pool_used ap' \<and> unat q < 4096 \<longrightarrow> mem_read (hp_mem s2) (p + q) = mem_read (hp_mem ?s) (p + q)"
      by (rule release_arena [OF inv1 a1])
    have "\<not> arena_full cr" if "arena_at s2 ap' c cr" for c cr
      using that nf r(5,6) by (auto simp: arena_at_def split: if_splits)
    then have "heap_ok t s2" using r(3) unfolding heap_ok_def by blast
    moreover have "contents (hp_mem s2) y = contents (hp_mem s) y" if "y \<in> live t s - {(?b, blk_size i)}" for y
      using live_contents_keep [OF r(3), of "fst y" "snd y" "hp_mem s2" "hp_mem s"] that r(4,7) lv' by simp
    moreover have "Free t ?b s = Some s2" using run True r(1,2) by simp
    ultimately show ?thesis using r(4) lv' by (auto simp: free_result_def)
  qed
qed

lemma heap_Free_ok:
  assumes ok: "heap_ok t s" and x: "(b, n) \<in> live t s"
  shows "\<exists>s'. Free t b s = Some s' \<and> free_result t s (b, n) s'"
proof -
  obtain ap ds xs where inv: "heap_inv t s ap ds xs" and nf: "\<forall>a ar. arena_at s ap a ar \<longrightarrow> \<not> arena_full ar"
    using ok by (auto simp: heap_ok_def)
  obtain a ar where a: "arena_at s ap a ar" "live_in t (\<lambda>i b. b \<in> set (xs i)) a ar b n"
    using live_inv [OF inv] x by blast
  show ?thesis
  proof (cases "ar_large ar")
    case True
    then show ?thesis using Free_large_ok [OF inv nf a(1) True] a(2) by (simp add: live_in_def)
  next
    case False
    then obtain i j where "ar_desc ar = Some (t, i)" "j < blk_count i" "b = blk a i j" "n = blk_size i" "b \<notin> set (xs i)"
      using a(2) by (auto simp: live_in_def)
    then show ?thesis using Free_small_ok [OF inv nf a(1), of i j] by simp
  qed
qed

section \<open>The contract of an allocator\<close>

text \<open>
  What the users of a heap rely on: the allocated blocks and their contents under allocation and release, whatever the
  state is. \<open>room\<close> says that a request can be served.
\<close>

locale allocator =
  fixes invar :: "'s \<Rightarrow> bool" and blocks :: "'s \<Rightarrow> (u32 \<times> nat) set" and data :: "'s \<Rightarrow> u32 \<times> nat \<Rightarrow> 'd"
    and room :: "u32 \<Rightarrow> 's \<Rightarrow> bool"
    and alloc :: "u32 \<Rightarrow> 's \<Rightarrow> (u32 \<times> 's) option" and release :: "u32 \<Rightarrow> 's \<Rightarrow> 's option"
  assumes alloc_block: "invar s \<Longrightarrow> room sz s \<Longrightarrow> \<exists>b n s'. alloc sz s = Some (b, s') \<and> unat sz \<le> n \<and> invar s' \<and>
          (b, n) \<notin> blocks s \<and> blocks s' = insert (b, n) (blocks s) \<and> (\<forall>x \<in> blocks s. data s' x = data s x)"
    and release_block: "invar s \<Longrightarrow> (b, n) \<in> blocks s \<Longrightarrow> \<exists>s'. release b s = Some s' \<and> invar s' \<and>
          blocks s' = blocks s - {(b, n)} \<and> (\<forall>x \<in> blocks s - {(b, n)}. data s' x = data s x)"
    and apart: "invar s \<Longrightarrow> (b, n) \<in> blocks s \<Longrightarrow> (b', n') \<in> blocks s \<Longrightarrow> (b, n) \<noteq> (b', n') \<Longrightarrow> k < n \<Longrightarrow> k' < n' \<Longrightarrow>
          b + of_nat k \<noteq> b' + of_nat k'"
begin

lemma alloc_release:
  assumes "invar s" "room sz s"
  shows "\<exists>b s1 s2. alloc sz s = Some (b, s1) \<and> release b s1 = Some s2 \<and> invar s2 \<and> blocks s2 = blocks s \<and>
    (\<forall>x \<in> blocks s. data s2 x = data s x)"
proof -
  obtain b n s1 where a: "alloc sz s = Some (b, s1)" "invar s1" "(b, n) \<notin> blocks s" "blocks s1 = insert (b, n) (blocks s)"
    "\<forall>x \<in> blocks s. data s1 x = data s x" using alloc_block [OF assms] by blast
  obtain s2 where "release b s1 = Some s2" "invar s2" "blocks s2 = blocks s1 - {(b, n)}"
    "\<forall>x \<in> blocks s1 - {(b, n)}. data s2 x = data s1 x" using release_block [OF a(2), of b n] a(4) by auto
  moreover have "blocks s1 - {(b, n)} = blocks s" using a(3,4) by blast
  ultimately show ?thesis using a(1,5) by fastforce
qed

lemma alloc_apart:
  assumes "invar s" "room sz s" "0 < unat sz" "alloc sz s = Some (b, s')" "(c, n) \<in> blocks s" "k < unat sz" "j < n"
  shows "b + of_nat k \<noteq> c + of_nat j"
proof -
  obtain m where m: "unat sz \<le> m" "invar s'" "(b, m) \<notin> blocks s" "blocks s' = insert (b, m) (blocks s)"
    using alloc_block [OF assms(1,2)] assms(4) by auto
  have "(b, m) \<noteq> (c, n)" using m(3) assms(5) by blast
  then show ?thesis using apart [OF m(2), of b m c n k j] m(1,4) assms(5,6,7) by simp
qed

end

interpretation hp: allocator "heap_ok t" "live t" "\<lambda>s. contents (hp_mem s)" "request_room t" "Allocate t" "Free t" for t
proof
  show "\<exists>b n s'. Allocate t sz s = Some (b, s') \<and> unat sz \<le> n \<and> heap_ok t s' \<and> (b, n) \<notin> live t s \<and>
      live t s' = insert (b, n) (live t s) \<and> (\<forall>x \<in> live t s. contents (hp_mem s') x = contents (hp_mem s) x)"
    if "heap_ok t s" "request_room t sz s" for s sz
    using Allocate_ok [OF that] unfolding alloc_result_def by blast
  show "\<exists>s'. Free t b s = Some s' \<and> heap_ok t s' \<and> live t s' = live t s - {(b, n)} \<and>
      (\<forall>x \<in> live t s - {(b, n)}. contents (hp_mem s') x = contents (hp_mem s) x)"
    if "heap_ok t s" "(b, n) \<in> live t s" for s b n
    using heap_Free_ok [OF that] unfolding free_result_def by blast
  show "b + of_nat k \<noteq> b' + of_nat k'"
    if "heap_ok t s" "(b, n) \<in> live t s" "(b', n') \<in> live t s" "(b, n) \<noteq> (b', n')" "k < n" "k' < n'" for s b n b' n' k k'
    using live_disjoint that unfolding heap_ok_def by blast
qed

section \<open>Properties\<close>

text \<open>C4: \<^verbatim>\<open>Allocate\<close>, when there is room for the request, returns a block at least as large as asked for that was not
  allocated before, with every double word cleared; no byte of it belongs to a block that was allocated before, the
  allocated blocks are the old ones and the new one, all old ones keep their contents, and the invariant of the heap (free lists, counts and headers of the arenas, page tables) holds again.\<close>

theorem Allocate_fresh_block:
  assumes "heap_ok t s" and "request_room t sz s"
  shows "\<exists>b n s'. Allocate t sz s = Some (b, s') \<and> b \<noteq> 0 \<and> unat sz \<le> n \<and> heap_ok t s' \<and>
    (b, n) \<notin> live t s \<and> live t s' = insert (b, n) (live t s) \<and>
    contents (hp_mem s') (b, n) = replicate (n div 4) (Some 0) \<and>
    (\<forall>c m k j. (c, m) \<in> live t s \<and> k < n \<and> j < m \<longrightarrow> b + of_nat k \<noteq> c + of_nat j) \<and>
    (\<forall>x \<in> live t s. contents (hp_mem s') x = contents (hp_mem s) x)"
proof -
  obtain b n s' where a: "Allocate t sz s = Some (b, s')" "unat sz \<le> n" "alloc_result t s b n s'"
    using Allocate_ok [OF assms] by blast
  have "b + of_nat k \<noteq> c + of_nat j" if "(c, m) \<in> live t s" "k < n" "j < m" for c m k j
    using hp.apart [of t s' b n c m k j] a(3) that by (auto simp: alloc_result_def)
  then show ?thesis using a unfolding alloc_result_def by blast
qed

text \<open>C5: \<^verbatim>\<open>Free\<close> on an allocated block returns; exactly this block is no longer allocated, the others keep their contents,
  and the invariant of the heap holds again, also when the last block of an arena goes and its page is given
  back to the pools.\<close>

theorem Free_releases_block:
  assumes "heap_ok t s" and "(b, n) \<in> live t s"
  shows "\<exists>s'. Free t b s = Some s' \<and> heap_ok t s' \<and> live t s' = live t s - {(b, n)} \<and>
    (\<forall>x \<in> live t s - {(b, n)}. contents (hp_mem s') x = contents (hp_mem s) x)"
  by (rule hp.release_block [OF assms])

text \<open>\<^verbatim>\<open>Free\<close> undoes \<^verbatim>\<open>Allocate\<close>: the allocated blocks and their contents are the same as before, and the invariant holds.\<close>

theorem Allocate_Free_roundtrip:
  assumes "heap_ok t s" and "request_room t sz s"
  shows "\<exists>b s1 s2. Allocate t sz s = Some (b, s1) \<and> Free t b s1 = Some s2 \<and> heap_ok t s2 \<and> live t s2 = live t s \<and>
    (\<forall>x \<in> live t s. contents (hp_mem s2) x = contents (hp_mem s) x)"
  by (rule hp.alloc_release [OF assms])

section \<open>A fresh heap\<close>

lemma distinct_concat_apart:
  "distinct (concat yss) \<Longrightarrow> i < length yss \<Longrightarrow> k < length yss \<Longrightarrow> i \<noteq> k \<Longrightarrow> set (yss ! i) \<inter> set (yss ! k) = {}"
proof (induction yss arbitrary: i k)
  case (Cons ys yss)
  have "set ys \<inter> set (yss ! j) = {}" if "j < length yss" for j using Cons.prems(1) nth_mem [OF that] by auto
  then show ?case using Cons by (cases i; cases k) auto
qed simp

lemma heap_init_ok:
  assumes "vspace_ok t m ap" "GetVrAddrPool t m = Some ap" "length ls = 7"
    "distinct (concat (map (\<lambda>l. [tl_head l, tl_tail l]) ls))"
    and out: "\<And>l a r. l \<in> set ls \<Longrightarrow> a \<in> pool_pages ap \<Longrightarrow> unat r < 4096 \<Longrightarrow> unat (a + r) \<notin> {tl_head l, tl_tail l}"
    and ini: "MemBlockDescTab_Init ls h = Some (ds, h')"
    and s: "hp_mem s = m" "hp_tags s = h'" "hp_arena s = (\<lambda>_. None)" "GetMemBlockDescTab t s = Some ds"
  shows "heap_ok t s \<and> live t s = {}"
proof -
  have d: "desc_table_ok ds" "map bd_free_blocks ds = ls" "\<And>i. i < 7 \<Longrightarrow> tl_abs h' (ls ! i) []"
    using MemBlockDescTab_Init_ok [OF assms(3,4), of h] ini by (metis option.inject prod.inject)+
  have n: "bd_free_blocks (ds ! i) = ls ! i" if "i < 7" for i
    using d(2) that assms(3) by (metis length_map nth_map)
  have "sentinels ds i \<inter> sentinels ds k = {}" if "i < 7" "k < 7" "i \<noteq> k" for i k
  proof -
    have "set [tl_head (ls ! i), tl_tail (ls ! i)] \<inter> set [tl_head (ls ! k), tl_tail (ls ! k)] = {}"
      using distinct_concat_apart [OF assms(4), of i k] that assms(3) by simp
    then show ?thesis by (simp add: sentinels_def n that)
  qed
  moreover have "unat (a + r) \<notin> sentinels ds i" if "i < 7" "a \<in> pool_pages ap" "unat r < 4096" for i a r
    using out [of "ls ! i" a r] that assms(3) by (simp add: sentinels_def n)
  ultimately have "sentinels_ok ds ap" by (simp add: sentinels_ok_def)
  then have "heap_inv t s ap ds (\<lambda>_. [])"
    using assms(1,2) d(1,3) s n by (simp add: heap_inv_def space_of_def lists_ok_def arenas_ok_def arena_at_def)
  moreover have "\<not> arena_at s ap a ar" for a ar using s by (simp add: arena_at_def)
  ultimately show ?thesis by (auto simp: heap_ok_def live_inv [of t s ap ds "\<lambda>_. []"])
qed

definition demo_lists :: "tag_list list" where
  "demo_lists = map (\<lambda>i. \<lparr>tl_head = 2 * i, tl_tail = 2 * i + 1\<rparr>) [0..<7]"

definition demo_heap :: heap where
  "demo_heap = (let (ds, h) = the (MemBlockDescTab_Init demo_lists empty_tags) in
     \<lparr>hp_mem = set_vr_pool KernelPool krnl_heap boot_mem, hp_tags = h, hp_arena = (\<lambda>_. None), hp_kdescs = ds, hp_udescs = None\<rparr>)"

lemma demo_lists_ok: "length demo_lists = 7" "distinct (concat (map (\<lambda>l. [tl_head l, tl_tail l]) demo_lists))"
  "\<And>l. l \<in> set demo_lists \<Longrightarrow> tl_head l < 14 \<and> tl_tail l < 14"
  by (auto simp: demo_lists_def upt_rec)

lemma demo_heap_ok: "heap_ok KernelPool demo_heap" "live KernelPool demo_heap = {}"
proof -
  let ?m = "set_vr_pool KernelPool krnl_heap boot_mem"
  obtain ds h where i: "MemBlockDescTab_Init demo_lists empty_tags = Some (ds, h)"
    using MemBlockDescTab_Init_ok [OF demo_lists_ok(1,2)] by metis
  have vs: "vspace_ok KernelPool ?m krnl_heap" using krnl_heap_vspace(1) by simp
  have "unat (a + r) \<notin> {tl_head l, tl_tail l}" if l: "l \<in> set demo_lists" and a: "a \<in> pool_pages krnl_heap" "unat r < 4096" for l a r
  proof
    assume "unat (a + r) \<in> {tl_head l, tl_tail l}"
    then have lt: "unat (a + r) < 14" using demo_lists_ok(3) [OF l] by auto
    have "VrAddr_GetOffset a = 0" "a \<noteq> 0"
      using vs a(1) vp.aligned [of krnl_heap a] by (auto simp: vspace_ok_def space_def heap_page_def pool_pages_def)
    moreover have "VrAddr_GetOffset 0 = 0" by (simp add: vr_defs GetBits_def)
    moreover have "a + r = 0 + (a + r)" by simp
    ultimately show False using page_offset_unique [of a 0 r "a + r"] a(2) lt by simp
  qed
  then have "heap_ok KernelPool demo_heap \<and> live KernelPool demo_heap = {}"
    using i by (intro heap_init_ok [OF vs _ demo_lists_ok(1,2) _ i]) (simp_all add: demo_heap_def GetMemBlockDescTab_def)
  then show "heap_ok KernelPool demo_heap" "live KernelPool demo_heap = {}" by auto
qed

lemma demo_heap_room: "request_room KernelPool 100 demo_heap"
proof -
  have m: "hp_mem demo_heap = set_vr_pool KernelPool krnl_heap boot_mem" by (simp add: demo_heap_def split_def Let_def)
  have "enough KernelPool 1 (hp_mem demo_heap)" using krnl_heap_vspace(2) by (simp add: m enough_def set_vr_pool_def)
  moreover have "GetVrAddrPool KernelPool (hp_mem demo_heap) = Some krnl_heap" unfolding m by simp
  ultimately have "heap_room KernelPool 1 demo_heap" using krnl_heap_alloc unfolding heap_room_def by blast
  then show ?thesis by (simp add: request_room_def max_block_size_def sizeof_MemArena_def page_size_def)
qed

theorem Allocate_fresh_block_witness:
  "\<exists>b n s'. Allocate KernelPool 100 demo_heap = Some (b, s') \<and> 100 \<le> n \<and> live KernelPool s' = {(b, n)}"
proof -
  obtain b n s' where "Allocate KernelPool 100 demo_heap = Some (b, s')" "unat (100 :: u32) \<le> n"
    "live KernelPool s' = insert (b, n) (live KernelPool demo_heap)"
    using Allocate_fresh_block [OF demo_heap_ok(1) demo_heap_room] by blast
  then show ?thesis using demo_heap_ok(2) by auto
qed

theorem Free_releases_block_witness:
  "\<exists>b n s' s''. Allocate KernelPool 100 demo_heap = Some (b, s') \<and> (b, n) \<in> live KernelPool s' \<and>
     Free KernelPool b s' = Some s'' \<and> live KernelPool s'' = live KernelPool s' - {(b, n)}"
proof -
  obtain b n s' where a: "Allocate KernelPool 100 demo_heap = Some (b, s')" "heap_ok KernelPool s'"
    "live KernelPool s' = insert (b, n) (live KernelPool demo_heap)"
    using hp.alloc_block [OF demo_heap_ok(1) demo_heap_room] by blast
  then have "(b, n) \<in> live KernelPool s'" by simp
  moreover from Free_releases_block [OF a(2) this] obtain s'' where "Free KernelPool b s' = Some s''"
    "live KernelPool s'' = live KernelPool s' - {(b, n)}" by blast
  ultimately show ?thesis using a(1) by (intro exI conjI)
qed

theorem Allocate_Free_roundtrip_witness:
  "\<exists>b s1 s2. Allocate KernelPool 100 demo_heap = Some (b, s1) \<and> Free KernelPool b s1 = Some s2 \<and> live KernelPool s2 = {}"
  using Allocate_Free_roundtrip [OF demo_heap_ok(1) demo_heap_room] unfolding demo_heap_ok(2) by blast

end
