(* ===== verification/Interrupts.thy ===== *)
theory Interrupts
  imports Descriptors Threads
begin

text \<open>
  Interrupts: the \<^verbatim>\<open>EFLAGS\<close> wrapper of \<^verbatim>\<open>include/kernel/io/io.h\<close>, the handler table and the guard of
  \<^verbatim>\<open>include/kernel/interrupt/intr.h\<close> and \<^verbatim>\<open>src/kernel/interrupt/intr.cpp\<close>, and the programming of the two
  Intel 8259A controllers in \<^verbatim>\<open>src/kernel/interrupt/pic.cpp\<close>. A write to an I/O port is a pair of the
  port and the byte, and a routine that drives a device returns the list of its writes in order; what
  the chips do with these writes is the specification \<open>pic_write\<close>, the initialization sequence of the
  8259A data sheet. A handler is a value of an arbitrary type, the function pointer of the code.
\<close>

section \<open>The flags register\<close>

definition EFlags_if_pos :: nat where "EFlags_if_pos = 9"

definition EFlags_SetMbs :: "u32 \<Rightarrow> u32" where
  "EFlags_SetMbs val = SetBit val 1"

definition EFlags :: "u32 \<Rightarrow> u32" where
  "EFlags val = EFlags_SetMbs val"

definition EFlags_Clear :: "u32 \<Rightarrow> u32" where
  "EFlags_Clear val = EFlags_SetMbs 0"

definition EFlags_If :: "u32 \<Rightarrow> bool" where
  "EFlags_If val = IsBitSet val EFlags_if_pos"

definition EFlags_SetIf :: "u32 \<Rightarrow> u32" where
  "EFlags_SetIf val = SetBit val EFlags_if_pos"

definition EFlags_ResetIf :: "u32 \<Rightarrow> u32" where
  "EFlags_ResetIf val = ResetBit val EFlags_if_pos"

section \<open>The interrupt guard\<close>

text \<open>
  The guard's member \<^verbatim>\<open>enabled_\<close> is the value that the constructor returns and the destructor takes.
\<close>

definition DisableIntr :: "sched \<Rightarrow> sched" where
  "DisableIntr k = k\<lparr>sc_intr := False\<rparr>"

definition EnableIntr :: "sched \<Rightarrow> sched" where
  "EnableIntr k = k\<lparr>sc_intr := True\<rparr>"

definition IntrGuard_ctor :: "sched \<Rightarrow> bool \<times> sched" where
  "IntrGuard_ctor k = (let enabled = sc_intr k in (enabled, if enabled then DisableIntr k else k))"

definition IntrGuard_dtor :: "bool \<Rightarrow> sched \<Rightarrow> sched" where
  "IntrGuard_dtor enabled k = (if enabled then EnableIntr k else k)"

section \<open>The handler table\<close>

definition max_intr_handler_name_len :: nat where "max_intr_handler_name_len = 32"
definition start_usr_intr_num :: nat where "start_usr_intr_num = 0x20"

datatype intr_num = PageFault | Clock | Keyboard | PrimaryIdeChnl | SecondaryIdeChnl | SysCall

fun intr_num_code :: "intr_num \<Rightarrow> nat" where
  "intr_num_code PageFault = 0x0E"
| "intr_num_code Clock = start_usr_intr_num"
| "intr_num_code Keyboard = start_usr_intr_num + 1"
| "intr_num_code PrimaryIdeChnl = start_usr_intr_num + 14"
| "intr_num_code SecondaryIdeChnl = start_usr_intr_num + 15"
| "intr_num_code SysCall = intr_count - 1"

record 'h intr_handler_tab =
  iht_names :: "char list list"
  iht_handlers :: "'h list"

definition Register_name ::
  "nat \<Rightarrow> string_view \<Rightarrow> 'h intr_handler_tab \<Rightarrow> 'h intr_handler_tab option" where
  "Register_name idx name tab = do {
     Assert (idx < intr_count);
     buf \<leftarrow> (if \<not> sv_empty name
           then do {
             src \<leftarrow> sv_str name;
             strcpy_s (iht_names tab ! idx) (max_intr_handler_name_len + 1) src
           }
           else Some ((iht_names tab ! idx)[0 := NUL]));
     Some (tab\<lparr>iht_names := (iht_names tab)[idx := buf]\<rparr>)
   }"

definition Register_handler :: "nat \<Rightarrow> 'h \<Rightarrow> 'h intr_handler_tab \<Rightarrow> 'h intr_handler_tab option" where
  "Register_handler idx handler tab = do {
     Assert (idx < intr_count);
     Some (tab\<lparr>iht_handlers := (iht_handlers tab)[idx := handler]\<rparr>)
   }"

definition Register ::
  "nat \<Rightarrow> string_view \<Rightarrow> 'h \<Rightarrow> 'h intr_handler_tab \<Rightarrow> 'h intr_handler_tab option" where
  "Register idx name handler tab = do {
     tab \<leftarrow> Register_name idx name tab;
     Register_handler idx handler tab
   }"

definition Register_intr_handler ::
  "intr_num \<Rightarrow> 'h \<Rightarrow> 'h intr_handler_tab \<Rightarrow> 'h intr_handler_tab option" where
  "Register_intr_handler i handler = Register_handler (intr_num_code i) handler"

definition GetName :: "nat \<Rightarrow> 'h intr_handler_tab \<Rightarrow> string_view option" where
  "GetName idx tab = do {
     Assert (idx < intr_count);
     sv_of (iht_names tab ! idx)
   }"

text \<open>The constructor's loop \<^verbatim>\<open>for (i = 0; i != count; ++i)\<close>, from the index \<open>count - n\<close> on.\<close>

fun IntrHandlerTab_loop ::
  "nat \<Rightarrow> string_view \<Rightarrow> 'h \<Rightarrow> 'h intr_handler_tab \<Rightarrow> 'h intr_handler_tab option" where
  "IntrHandlerTab_loop 0 name handler tab = Some tab"
| "IntrHandlerTab_loop (Suc n) name handler tab = do {
     tab \<leftarrow> Register (intr_count - Suc n) name handler tab;
     IntrHandlerTab_loop n name handler tab
   }"

definition IntrHandlerTab ::
  "'h list \<Rightarrow> string_view \<Rightarrow> 'h \<Rightarrow> 'h intr_handler_tab option" where
  "IntrHandlerTab handlers name handler =
     IntrHandlerTab_loop intr_count name handler
       \<lparr>iht_names = replicate intr_count (replicate (max_intr_handler_name_len + 1) NUL),
        iht_handlers = handlers\<rparr>"

text \<open>A string literal: its characters and the terminating zero.\<close>

definition literal :: "char list \<Rightarrow> string_view" where
  "literal s = \<lparr>sv_str = Some (s @ [NUL]), sv_len = length s\<rparr>"

fun Register_names ::
  "(nat \<times> char list) list \<Rightarrow> 'h intr_handler_tab \<Rightarrow> 'h intr_handler_tab option" where
  "Register_names [] tab = Some tab"
| "Register_names ((i, s) # xs) tab = do {
     tab \<leftarrow> Register_name i (literal s) tab;
     Register_names xs tab
   }"

definition intr_names :: "(nat \<times> char list) list" where
  "intr_names =
    [(0x00, ''#DE Divide Error''),
     (0x01, ''#DB Debug Exception''),
     (0x02, ''NMI Intr''),
     (0x03, ''#BP Breakpoint Exception''),
     (0x04, ''#OF Overflow Exception''),
     (0x05, ''#BR Bound Range Exceeded Exception''),
     (0x06, ''#UD Invalid Opcode Exception''),
     (0x07, ''#NM Device Not Available Exception''),
     (0x08, ''#DF Double Fault Exception''),
     (0x09, ''Coprocessor Segment Overrun''),
     (0x0A, ''#TS Invalid TSS Exception''),
     (0x0B, ''#NP Segment Not Present''),
     (0x0C, ''#SS Stack Fault Exception''),
     (0x0D, ''#GP General Protection Exception''),
     (intr_num_code PageFault, ''#PF Page-Fault Exception''),
     (0x10, ''#MF x87 FPU Floating-Point Error''),
     (0x11, ''#AC Alignment Check Exception''),
     (0x12, ''#MC Machine-Check Exception''),
     (0x13, ''#XF SIMD Floating-Point Exception'')]"

definition RegisterIntrHandlers :: "'h intr_handler_tab \<Rightarrow> 'h intr_handler_tab option" where
  "RegisterIntrHandlers = Register_names intr_names"

text \<open>The table on its first use, \<^verbatim>\<open>GetIntrHandlerTab\<close>: all handlers are the default one.\<close>

definition GetIntrHandlerTab :: "'h list \<Rightarrow> 'h \<Rightarrow> 'h intr_handler_tab option" where
  "GetIntrHandlerTab handlers dflt = IntrHandlerTab handlers (literal ''Unknown'') dflt"

text \<open>
  The default handler returns only for the two spurious interrupts; for every other one it prints the
  name and spins (\<open>None\<close>).
\<close>

definition DefaultIntrHandler :: "u32 \<Rightarrow> unit option" where
  "DefaultIntrHandler n = (if n = 0x27 \<or> n = 0x2F then Some () else None)"

section \<open>The interrupt controllers\<close>

type_synonym port_write = "u16 \<times> u8"

datatype irq = IrqClock | IrqKeyboard | IrqSlavePic | IrqPrimaryIdeChnl | IrqSecondaryIdeChnl

fun irq_code :: "irq \<Rightarrow> nat" where
  "irq_code IrqClock = 0"
| "irq_code IrqKeyboard = 1"
| "irq_code IrqSlavePic = 2"
| "irq_code IrqPrimaryIdeChnl = 14"
| "irq_code IrqSecondaryIdeChnl = 15"

definition master_cmd :: u16 where "master_cmd = 0x20"
definition master_data :: u16 where "master_data = 0x21"
definition slave_cmd :: u16 where "slave_cmd = 0xA0"
definition slave_data :: u16 where "slave_data = 0xA1"
definition irq_count :: nat where "irq_count = 8"
definition cascade_irq :: nat where "cascade_irq = irq_code IrqSlavePic"
definition master_start_intr_num :: nat where "master_start_intr_num = intr_num_code Clock"
definition slave_start_intr_num :: nat where "slave_start_intr_num = master_start_intr_num + irq_count"

datatype trigger_mode = Level | Edge

definition CmdWord_WriteToPort :: "u8 \<Rightarrow> u16 \<Rightarrow> port_write list" where
  "CmdWord_WriteToPort val port = [(port, val)]"

definition icw1_ic4_pos :: nat where "icw1_ic4_pos = 0"
definition icw1_sngl_pos :: nat where "icw1_sngl_pos = icw1_ic4_pos + 1"
definition icw1_ltim_pos :: nat where "icw1_ltim_pos = 3"

definition InitCmdWord1 :: "u8 \<Rightarrow> u8" where
  "InitCmdWord1 val = SetBit val 4"

definition InitCmdWord1_SetSingle :: "bool \<Rightarrow> u8 \<Rightarrow> u8" where
  "InitCmdWord1_SetSingle single val =
     (if single then SetBit val icw1_sngl_pos else ResetBit val icw1_sngl_pos)"

definition InitCmdWord1_SetInitCmdWord4 :: "bool \<Rightarrow> u8 \<Rightarrow> u8" where
  "InitCmdWord1_SetInitCmdWord4 enable val =
     (if enable then SetBit val icw1_ic4_pos else ResetBit val icw1_ic4_pos)"

definition InitCmdWord1_SetTriggerMode :: "trigger_mode \<Rightarrow> u8 \<Rightarrow> u8" where
  "InitCmdWord1_SetTriggerMode mode val =
     (if mode = Level then SetBit val icw1_ltim_pos else ResetBit val icw1_ltim_pos)"

definition InitCmdWord2_SetIrq0IntrNum :: "nat \<Rightarrow> u8 \<Rightarrow> u8 option" where
  "InitCmdWord2_SetIrq0IntrNum num val = do {
     let val = ResetBits (of_nat num :: u8) 0 3;
     Assert (unat val = num);
     Some val
   }"

definition MasterInitCmdWord3_AddCascadeIrq :: "nat \<Rightarrow> u8 \<Rightarrow> u8 option" where
  "MasterInitCmdWord3_AddCascadeIrq irq val = do {
     Assert (irq < irq_count);
     Some (SetBit val irq)
   }"

definition SlaveInitCmdWord3_SetCascadeIrq :: "nat \<Rightarrow> u8 \<Rightarrow> u8 option" where
  "SlaveInitCmdWord3_SetCascadeIrq irq val = do {
     Assert (irq < irq_count);
     Some (of_nat irq)
   }"

definition icw4_x86_pos :: nat where "icw4_x86_pos = 0"
definition icw4_aeoi_pos :: nat where "icw4_aeoi_pos = icw4_x86_pos + 1"

definition InitCmdWord4_Set8086 :: "bool \<Rightarrow> u8 \<Rightarrow> u8" where
  "InitCmdWord4_Set8086 enable val =
     (if enable then SetBit val icw4_x86_pos else ResetBit val icw4_x86_pos)"

definition InitCmdWord4_SetAutoIntrEnd :: "bool \<Rightarrow> u8 \<Rightarrow> u8" where
  "InitCmdWord4_SetAutoIntrEnd enable val =
     (if enable then SetBit val icw4_aeoi_pos else ResetBit val icw4_aeoi_pos)"

definition OpCmdWord1_EnableAllIntrs :: "u8 \<Rightarrow> u8" where
  "OpCmdWord1_EnableAllIntrs val = 0"

definition OpCmdWord1_DisableAllIntrs :: "u8 \<Rightarrow> u8" where
  "OpCmdWord1_DisableAllIntrs val = - 1"

definition OpCmdWord1_SetIntr :: "irq \<Rightarrow> bool \<Rightarrow> u8 \<Rightarrow> u8" where
  "OpCmdWord1_SetIntr intr enable val =
     (let irq = irq_code intr mod irq_count
      in if enable then ResetBit val irq else SetBit val irq)"

definition OpCmdWord1_EnableIntr :: "irq \<Rightarrow> u8 \<Rightarrow> u8" where
  "OpCmdWord1_EnableIntr intr = OpCmdWord1_SetIntr intr True"

definition OpCmdWord1_DisableIntr :: "irq \<Rightarrow> u8 \<Rightarrow> u8" where
  "OpCmdWord1_DisableIntr intr = OpCmdWord1_SetIntr intr False"

definition InitMaster :: "port_write list option" where
  "InitMaster = do {
     let icw1 = InitCmdWord1_SetInitCmdWord4 True (InitCmdWord1_SetTriggerMode Edge (InitCmdWord1 0));
     icw2 \<leftarrow> InitCmdWord2_SetIrq0IntrNum master_start_intr_num 0;
     icw3 \<leftarrow> MasterInitCmdWord3_AddCascadeIrq cascade_irq 0;
     let icw4 = InitCmdWord4_Set8086 True 0;
     Some (CmdWord_WriteToPort icw1 master_cmd @ CmdWord_WriteToPort icw2 master_data @
           CmdWord_WriteToPort icw3 master_data @ CmdWord_WriteToPort icw4 master_data)
   }"

definition InitSlave :: "port_write list option" where
  "InitSlave = do {
     let icw1 = InitCmdWord1_SetInitCmdWord4 True (InitCmdWord1_SetTriggerMode Edge (InitCmdWord1 0));
     icw2 \<leftarrow> InitCmdWord2_SetIrq0IntrNum slave_start_intr_num 0;
     icw3 \<leftarrow> SlaveInitCmdWord3_SetCascadeIrq cascade_irq 0;
     let icw4 = InitCmdWord4_Set8086 True 0;
     Some (CmdWord_WriteToPort icw1 slave_cmd @ CmdWord_WriteToPort icw2 slave_data @
           CmdWord_WriteToPort icw3 slave_data @ CmdWord_WriteToPort icw4 slave_data)
   }"

definition IsMasterIntr :: "irq \<Rightarrow> bool" where
  "IsMasterIntr intr \<longleftrightarrow> irq_code intr < irq_count"

fun enable_intrs :: "irq list \<Rightarrow> u8 \<Rightarrow> u8 \<Rightarrow> u8 \<times> u8" where
  "enable_intrs [] master_ocw slave_ocw = (master_ocw, slave_ocw)"
| "enable_intrs (intr # intrs) master_ocw slave_ocw =
     (if IsMasterIntr intr
      then enable_intrs intrs (OpCmdWord1_EnableIntr intr master_ocw) slave_ocw
      else enable_intrs intrs master_ocw (OpCmdWord1_EnableIntr intr slave_ocw))"

definition InitPgmIntrCtrl :: "irq list \<Rightarrow> port_write list option" where
  "InitPgmIntrCtrl intrs = do {
     master \<leftarrow> InitMaster;
     slave \<leftarrow> InitSlave;
     let (master_ocw, slave_ocw) =
       enable_intrs intrs (OpCmdWord1_DisableAllIntrs 0) (OpCmdWord1_DisableAllIntrs 0);
     Some (master @ slave @ CmdWord_WriteToPort master_ocw master_data @
           CmdWord_WriteToPort slave_ocw slave_data)
   }"

text \<open>
  \<^verbatim>\<open>InitIntr\<close> returns the descriptor table, the handler table, the port writes and the descriptor
  table register that it leaves behind; \<open>addr\<close> is the address of the descriptor table.
\<close>

definition InitIntr_intrs :: "irq list" where
  "InitIntr_intrs = [IrqKeyboard, IrqClock, IrqSlavePic, IrqPrimaryIdeChnl, IrqSecondaryIdeChnl]"

definition InitIntr :: "u32 list \<Rightarrow> u32 \<Rightarrow> 'h intr_handler_tab \<Rightarrow>
    (u64 list \<times> 'h intr_handler_tab \<times> port_write list \<times> desc_tab_reg) option" where
  "InitIntr intr_entries addr tab = do {
     idt \<leftarrow> InitIntrDescTab intr_entries;
     tab \<leftarrow> RegisterIntrHandlers tab;
     writes \<leftarrow> InitPgmIntrCtrl InitIntr_intrs;
     Some (idt, tab, writes, DescTab_BuildReg addr (length idt))
   }"

section \<open>What the controllers do with the writes\<close>

text \<open>
  The initialization sequence of the Intel 8259A data sheet, for one chip: a byte with bit 4 set at the
  command port is ICW1 and starts the sequence; the next bytes at the data port are ICW2 (the vector of
  line 0, in its upper five bits), ICW3 (unless bit 1 of ICW1 says that the chip is alone) and ICW4 (if
  bit 0 of ICW1 asks for it); after that a byte at the data port is the interrupt mask.
\<close>

datatype pic_phase = Uninit | AwaitIcw2 bool bool | AwaitIcw3 bool | AwaitIcw4 | Operational

record pic =
  pic_phase :: pic_phase
  pic_level :: bool
  pic_base :: u8
  pic_cascade :: u8
  pic_x86 :: bool
  pic_aeoi :: bool
  pic_mask :: u8

definition pic_write_cmd :: "u8 \<Rightarrow> pic \<Rightarrow> pic" where
  "pic_write_cmd v p =
     (if bit v 4
      then p\<lparr>pic_phase := AwaitIcw2 (bit v 1) (bit v 0), pic_level := bit v 3, pic_mask := 0,
             pic_x86 := False, pic_aeoi := False\<rparr>
      else p)"

fun pic_write_data :: "u8 \<Rightarrow> pic \<Rightarrow> pic" where
  "pic_write_data v p = (case pic_phase p of
     Uninit \<Rightarrow> p
   | AwaitIcw2 single ic4 \<Rightarrow>
       p\<lparr>pic_base := ResetBits v 0 3,
         pic_phase := (if \<not> single then AwaitIcw3 ic4 else if ic4 then AwaitIcw4 else Operational)\<rparr>
   | AwaitIcw3 ic4 \<Rightarrow> p\<lparr>pic_cascade := v, pic_phase := (if ic4 then AwaitIcw4 else Operational)\<rparr>
   | AwaitIcw4 \<Rightarrow> p\<lparr>pic_x86 := bit v 0, pic_aeoi := bit v 1, pic_phase := Operational\<rparr>
   | Operational \<Rightarrow> p\<lparr>pic_mask := v\<rparr>)"

definition pic_write :: "u16 \<Rightarrow> u16 \<Rightarrow> port_write \<Rightarrow> pic \<Rightarrow> pic" where
  "pic_write cmd data w p =
     (if fst w = cmd then pic_write_cmd (snd w) p
      else if fst w = data then pic_write_data (snd w) p else p)"

text \<open>The vector that the pair of chips raises for an interrupt request line.\<close>

definition pic_vector :: "pic \<Rightarrow> pic \<Rightarrow> nat \<Rightarrow> nat" where
  "pic_vector m s i = (if i < 8 then unat (pic_base m) + i else unat (pic_base s) + (i - 8))"

definition pic_enabled :: "pic \<Rightarrow> pic \<Rightarrow> nat \<Rightarrow> bool" where
  "pic_enabled m s i = (if i < 8 then \<not> bit (pic_mask m) i else \<not> bit (pic_mask s) (i - 8))"

lemmas pic_defs = InitMaster_def InitSlave_def InitCmdWord1_def InitCmdWord1_SetInitCmdWord4_def
  InitCmdWord1_SetTriggerMode_def InitCmdWord2_SetIrq0IntrNum_def MasterInitCmdWord3_AddCascadeIrq_def
  SlaveInitCmdWord3_SetCascadeIrq_def InitCmdWord4_Set8086_def CmdWord_WriteToPort_def
  icw1_ic4_pos_def icw1_ltim_pos_def icw4_x86_pos_def master_start_intr_num_def
  slave_start_intr_num_def cascade_irq_def irq_count_def start_usr_intr_num_def
  master_cmd_def master_data_def slave_cmd_def slave_data_def

lemma InitMaster_eq: "InitMaster = Some [(0x20, 0x11), (0x21, 0x20), (0x21, 0x04), (0x21, 0x01)]"
  by (simp add: pic_defs SetBit_def ResetBit_def ResetBits_def)

lemma InitSlave_eq: "InitSlave = Some [(0xA0, 0x11), (0xA1, 0x28), (0xA1, 0x02), (0xA1, 0x01)]"
  by (simp add: pic_defs SetBit_def ResetBit_def ResetBits_def)

lemma enable_intrs_bits:
  assumes "enable_intrs intrs m s = (m', s')"
  shows "bit m' i \<longleftrightarrow> bit m i \<and> (i < 8 \<longrightarrow> i \<notin> irq_code ` set intrs)"
    and "bit s' i \<longleftrightarrow> bit s i \<and> i + 8 \<notin> irq_code ` set intrs"
  using assms
proof (induction intrs m s rule: enable_intrs.induct)
  case (2 x xs m s)
  { case 1 with 2 show ?case
      by (cases x) (auto simp: IsMasterIntr_def irq_count_def OpCmdWord1_EnableIntr_def OpCmdWord1_SetIntr_def
          bits_simps split: if_splits)
  next
    case 2 with "2.IH" show ?case
      by (cases x) (auto simp: IsMasterIntr_def irq_count_def OpCmdWord1_EnableIntr_def OpCmdWord1_SetIntr_def
          bits_simps split: if_splits) }
qed auto


lemma bit_minus_one_word [simp]: "bit (- 1 :: u8) i \<longleftrightarrow> i < 8"
  by (simp add: bit_minus_1_iff)

lemmas pic_write_defs = pic_write_def pic_write_cmd_def ResetBits_def

lemma pic_master_run:
  "fold (pic_write 0x20 0x21) ([(0x20, 0x11), (0x21, 0x20), (0x21, 0x04), (0x21, 0x01)] @
       [(0xA0, 0x11), (0xA1, 0x28), (0xA1, 0x02), (0xA1, 0x01)] @ [(0x21, mm)] @ [(0xA1, sm)]) m =
     \<lparr>pic_phase = Operational, pic_level = False, pic_base = 0x20, pic_cascade = 0x04, pic_x86 = True,
      pic_aeoi = False, pic_mask = mm\<rparr>"
  by (simp add: pic_write_defs)

lemma pic_slave_run:
  "fold (pic_write 0xA0 0xA1) ([(0x20, 0x11), (0x21, 0x20), (0x21, 0x04), (0x21, 0x01)] @
       [(0xA0, 0x11), (0xA1, 0x28), (0xA1, 0x02), (0xA1, 0x01)] @ [(0x21, mm)] @ [(0xA1, sm)]) s =
     \<lparr>pic_phase = Operational, pic_level = False, pic_base = 0x28, pic_cascade = 0x02, pic_x86 = True,
      pic_aeoi = False, pic_mask = sm\<rparr>"
  by (simp add: pic_write_defs)

section \<open>The handler table\<close>

text \<open>Every name buffer has its full size and is terminated, and there is one handler per interrupt.\<close>

definition tab_ok :: "'h intr_handler_tab \<Rightarrow> bool" where
  "tab_ok tab \<longleftrightarrow> length (iht_names tab) = intr_count \<and> length (iht_handlers tab) = intr_count \<and>
     list_all (\<lambda>buf. length buf = max_intr_handler_name_len + 1 \<and> NUL \<in> set buf) (iht_names tab)"

definition tab_name :: "'h intr_handler_tab \<Rightarrow> nat \<Rightarrow> char list" where
  "tab_name tab i = cstr (iht_names tab ! i)"

definition shown_name :: "char list \<Rightarrow> char list" where
  "shown_name s = take max_intr_handler_name_len s"

lemma cstr_bound_NUL: "length (cstr buf) < length buf \<Longrightarrow> NUL \<in> set buf"
  by (induction buf) (auto split: if_splits)

lemma Register_name_ok:
  assumes "tab_ok tab" "i < intr_count" "NUL \<notin> set s"
  shows "\<exists>tab'. Register_name i (literal s) tab = Some tab' \<and> tab_ok tab' \<and>
    tab_name tab' = (tab_name tab)(i := shown_name s) \<and> iht_handlers tab' = iht_handlers tab"
proof -
  define buf where "buf = iht_names tab ! i"
  have b: "length buf = max_intr_handler_name_len + 1" "NUL \<in> set buf"
    using assms(1,2) by (auto simp: tab_ok_def list_all_length buf_def)
  have "\<exists>buf'. (if \<not> sv_empty (literal s)
           then do { src \<leftarrow> sv_str (literal s); strcpy_s buf (max_intr_handler_name_len + 1) src }
           else Some (buf[0 := NUL])) = Some buf' \<and> length buf' = max_intr_handler_name_len + 1 \<and>
           cstr buf' = shown_name s"
  proof (cases "s = []")
    case True
    with b(1) show ?thesis
      by (cases buf) (auto simp: literal_def sv_empty_def shown_name_def)
  next
    case False
    with strcpy_s_eq [of "s @ [NUL]" "max_intr_handler_name_len + 1" buf] b(1) assms(3) show ?thesis
      by (auto simp: literal_def sv_empty_def shown_name_def)
  qed
  then obtain buf' where buf': "(if \<not> sv_empty (literal s)
           then do { src \<leftarrow> sv_str (literal s); strcpy_s buf (max_intr_handler_name_len + 1) src }
           else Some (buf[0 := NUL])) = Some buf'" "length buf' = max_intr_handler_name_len + 1"
    "cstr buf' = shown_name s" by blast
  have n: "NUL \<in> set buf'"
    by (rule cstr_bound_NUL) (simp add: buf'(2,3) shown_name_def)
  have "Register_name i (literal s) tab = Some (tab\<lparr>iht_names := (iht_names tab)[i := buf']\<rparr>)"
    unfolding Register_name_def buf_def [symmetric] buf'(1) using assms(2) by simp
  moreover have "tab_ok (tab\<lparr>iht_names := (iht_names tab)[i := buf']\<rparr>)"
    using assms(1,2) buf'(2) n by (auto simp: tab_ok_def list_all_length nth_list_update)
  moreover have "tab_name (tab\<lparr>iht_names := (iht_names tab)[i := buf']\<rparr>) = (tab_name tab)(i := shown_name s)"
    using assms(1,2) buf'(3) by (auto simp: tab_name_def tab_ok_def fun_eq_iff nth_list_update)
  ultimately show ?thesis by simp
qed

lemma Register_names_ok:
  assumes "tab_ok tab" "\<forall>(i, s) \<in> set xs. i < intr_count \<and> NUL \<notin> set s"
  shows "\<exists>tab'. Register_names xs tab = Some tab' \<and> tab_ok tab' \<and>
    tab_name tab' = fold (\<lambda>(i, s) f. f(i := shown_name s)) xs (tab_name tab) \<and>
    iht_handlers tab' = iht_handlers tab"
  using assms
proof (induction xs arbitrary: tab)
  case (Cons x xs)
  obtain i s where x: "x = (i, s)" by force
  from Register_name_ok [OF Cons.prems(1), of i s] Cons.prems(2) x obtain tab1
    where t1: "Register_name i (literal s) tab = Some tab1" "tab_ok tab1"
      "tab_name tab1 = (tab_name tab)(i := shown_name s)" "iht_handlers tab1 = iht_handlers tab"
    by auto
  from Cons.IH [OF t1(2)] Cons.prems(2) t1 x show ?case by auto
qed simp

lemma IntrHandlerTab_loop_ok:
  assumes "tab_ok tab" "n \<le> intr_count" "NUL \<notin> set s"
  shows "\<exists>tab'. IntrHandlerTab_loop n (literal s) h tab = Some tab' \<and> tab_ok tab' \<and>
    (\<forall>i < intr_count. tab_name tab' i = (if intr_count - n \<le> i then shown_name s else tab_name tab i) \<and>
       iht_handlers tab' ! i = (if intr_count - n \<le> i then h else iht_handlers tab ! i))"
  using assms
proof (induction n arbitrary: tab)
  case (Suc n)
  let ?i = "intr_count - Suc n"
  have i: "?i < intr_count" by (simp add: intr_count_def)
  from Register_name_ok [OF Suc.prems(1) i Suc.prems(3)] obtain tab1
    where t1: "Register_name ?i (literal s) tab = Some tab1" "tab_ok tab1"
      "tab_name tab1 = (tab_name tab)(?i := shown_name s)" "iht_handlers tab1 = iht_handlers tab"
    by blast
  define tab2 where "tab2 = tab1\<lparr>iht_handlers := (iht_handlers tab1)[?i := h]\<rparr>"
  have r: "Register ?i (literal s) h tab = Some tab2"
    using i t1(1) by (simp add: Register_def Register_handler_def tab2_def)
  have t2: "tab_ok tab2" "tab_name tab2 = (tab_name tab)(?i := shown_name s)"
    using t1 by (simp_all add: tab2_def tab_ok_def tab_name_def fun_eq_iff)
  have h2: "iht_handlers tab2 ! j = (if j = ?i then h else iht_handlers tab ! j)" if "j < intr_count" for j
    using that t1(2,4) by (simp add: tab2_def tab_ok_def nth_list_update)
  from Suc.IH [OF t2(1)] Suc.prems obtain tab' where t': "IntrHandlerTab_loop n (literal s) h tab2 = Some tab'" "tab_ok tab'"
    "\<forall>i < intr_count. tab_name tab' i = (if intr_count - n \<le> i then shown_name s else tab_name tab2 i) \<and>
       iht_handlers tab' ! i = (if intr_count - n \<le> i then h else iht_handlers tab2 ! i)" by auto
  have "(intr_count - Suc n \<le> j) = (intr_count - n \<le> j \<or> j = ?i)" for j
    using Suc.prems(2) by auto
  with t'(3) t2(2) h2 have "\<forall>i < intr_count. tab_name tab' i = (if intr_count - Suc n \<le> i then shown_name s else tab_name tab i) \<and>
       iht_handlers tab' ! i = (if intr_count - Suc n \<le> i then h else iht_handlers tab ! i)"
    by auto
  with r t' show ?case by auto
qed simp

lemma GetIntrHandlerTab_ok:
  assumes "length hs = intr_count"
  shows "\<exists>tab. GetIntrHandlerTab hs h = Some tab \<and> tab_ok tab \<and>
    (\<forall>i < intr_count. tab_name tab i = ''Unknown'' \<and> iht_handlers tab ! i = h)"
proof -
  have "tab_ok \<lparr>iht_names = replicate intr_count (replicate (max_intr_handler_name_len + 1) NUL),
        iht_handlers = hs\<rparr>"
    using assms by (simp add: tab_ok_def list_all_length)
  from IntrHandlerTab_loop_ok [OF this, of intr_count "''Unknown''" h] show ?thesis
    by (auto simp: GetIntrHandlerTab_def IntrHandlerTab_def shown_name_def max_intr_handler_name_len_def)
qed


section \<open>Properties\<close>

text \<open>
  C26: Programming the interrupt controllers: for any list of requested interrupts, \<^verbatim>\<open>InitPgmIntrCtrl\<close>
  does not panic, and its writes leave both chips, whatever state they were in, initialized, edge
  triggered, in 8086 mode with manual end of interrupt, the slave on line 2 of the master; request line
  \<open>i\<close> raises the interrupt number \<open>0x20 + i\<close>, and exactly the requested lines are unmasked.
\<close>

theorem InitPgmIntrCtrl_programs:
  assumes "m' = fold (pic_write master_cmd master_data) (the (InitPgmIntrCtrl intrs)) m"
    and "s' = fold (pic_write slave_cmd slave_data) (the (InitPgmIntrCtrl intrs)) s"
  shows "InitPgmIntrCtrl intrs \<noteq> None \<and>
    pic_phase m' = Operational \<and> pic_phase s' = Operational \<and>
    \<not> pic_level m' \<and> \<not> pic_level s' \<and> pic_x86 m' \<and> pic_x86 s' \<and> \<not> pic_aeoi m' \<and> \<not> pic_aeoi s' \<and>
    (\<forall>i. bit (pic_cascade m') i \<longleftrightarrow> i = irq_code IrqSlavePic) \<and> unat (pic_cascade s') = irq_code IrqSlavePic \<and>
    (\<forall>i < 16. pic_vector m' s' i = start_usr_intr_num + i \<and>
       (pic_enabled m' s' i \<longleftrightarrow> i \<in> irq_code ` set intrs))"
proof -
  obtain mm sm where e: "enable_intrs intrs (- 1) (- 1) = (mm, sm)" by force
  have w: "InitPgmIntrCtrl intrs = Some ([(0x20, 0x11), (0x21, 0x20), (0x21, 0x04), (0x21, 0x01)] @
       [(0xA0, 0x11), (0xA1, 0x28), (0xA1, 0x02), (0xA1, 0x01)] @ [(0x21, mm)] @ [(0xA1, sm)])"
    using e by (simp add: InitPgmIntrCtrl_def InitMaster_eq InitSlave_eq OpCmdWord1_DisableAllIntrs_def
        CmdWord_WriteToPort_def master_data_def slave_data_def)
  have m': "m' = \<lparr>pic_phase = Operational, pic_level = False, pic_base = 0x20, pic_cascade = 0x04,
      pic_x86 = True, pic_aeoi = False, pic_mask = mm\<rparr>"
    unfolding assms(1) w option.sel master_cmd_def master_data_def by (rule pic_master_run)
  have s': "s' = \<lparr>pic_phase = Operational, pic_level = False, pic_base = 0x28, pic_cascade = 0x02,
      pic_x86 = True, pic_aeoi = False, pic_mask = sm\<rparr>"
    unfolding assms(2) w option.sel slave_cmd_def slave_data_def by (rule pic_slave_run)
  have c: "bit (4 :: u8) i \<longleftrightarrow> i = 2" for i
    using bit_exp_iff [of 2 i, where 'a = u8] by (auto simp: possible_bit_word)
  have c': "\<forall>i. bit (pic_cascade m') i \<longleftrightarrow> i = irq_code IrqSlavePic"
    by (simp only: m' pic.simps irq_code.simps c simp_thms)
  have b: "pic_enabled m' s' i \<longleftrightarrow> i \<in> irq_code ` set intrs" if "i < 16" for i
    using that enable_intrs_bits [OF e] by (auto simp: m' s' pic_enabled_def)
  have v: "pic_vector m' s' i = start_usr_intr_num + i" if "i < 16" for i
    using that by (simp add: m' s' pic_vector_def start_usr_intr_num_def)
  show ?thesis
    by (intro conjI allI impI c' [rule_format] b v) (simp_all add: w m' s')
qed

definition pic_reset :: pic where
  "pic_reset = \<lparr>pic_phase = Uninit, pic_level = True, pic_base = 0x08, pic_cascade = 0, pic_x86 = False,
     pic_aeoi = True, pic_mask = 0\<rparr>"

theorem InitPgmIntrCtrl_programs_witness:
  "pic_enabled (fold (pic_write master_cmd master_data) (the (InitPgmIntrCtrl InitIntr_intrs)) pic_reset)
     (fold (pic_write slave_cmd slave_data) (the (InitPgmIntrCtrl InitIntr_intrs)) pic_reset) 14"
  using InitPgmIntrCtrl_programs [OF refl refl, of InitIntr_intrs pic_reset pic_reset]
  by (simp add: InitIntr_intrs_def)

text \<open>
  Interrupt names: after the table is created and \<^verbatim>\<open>RegisterIntrHandlers\<close> has run, every interrupt
  has the default handler, and the name shown for an interrupt is its registered name (\<^verbatim>\<open>Unknown\<close> if
  there is none) cut to 32 characters: no buffer is overrun, but the names of the interrupts 5, 7 and
  0x13 are longer and lose their end.
\<close>

theorem RegisterIntrHandlers_names:
  assumes "length hs = intr_count"
  shows "\<exists>tab tab'. GetIntrHandlerTab hs h = Some tab \<and> RegisterIntrHandlers tab = Some tab' \<and> tab_ok tab' \<and>
    (\<forall>i < intr_count. iht_handlers tab' ! i = h \<and>
       tab_name tab' i = (case map_of intr_names i of None \<Rightarrow> ''Unknown'' | Some s \<Rightarrow> take 32 s) \<and>
       (map_of intr_names i \<noteq> None \<longrightarrow>
          (map_of intr_names i = Some (tab_name tab' i) \<longleftrightarrow> i \<notin> {0x05, 0x07, 0x13})))"
proof -
  from GetIntrHandlerTab_ok [OF assms, of h] obtain tab where t: "GetIntrHandlerTab hs h = Some tab"
    "tab_ok tab" "\<forall>i < intr_count. tab_name tab i = ''Unknown'' \<and> iht_handlers tab ! i = h" by blast
  have "\<forall>(i, s) \<in> set intr_names. i < intr_count \<and> NUL \<notin> set s"
    by (simp add: intr_names_def intr_count_def)
  from Register_names_ok [OF t(2) this] obtain tab' where t': "RegisterIntrHandlers tab = Some tab'"
    "tab_ok tab'" "tab_name tab' = fold (\<lambda>(i, s) f. f(i := shown_name s)) intr_names (tab_name tab)"
    "iht_handlers tab' = iht_handlers tab" by (auto simp: RegisterIntrHandlers_def)
  have fold_upd: "fold (\<lambda>(i, s) f. f(i := g s)) xs f j = (case map_of xs j of None \<Rightarrow> f j | Some s \<Rightarrow> g s)"
    if "distinct (map fst xs)" for xs :: "(nat \<times> char list) list" and g :: "char list \<Rightarrow> char list" and f j
    using that by (induction xs arbitrary: f) (auto split: option.splits dest: map_of_SomeD simp: rev_image_eqI)
  have n: "tab_name tab' i = (case map_of intr_names i of None \<Rightarrow> ''Unknown'' | Some s \<Rightarrow> take 32 s)"
    if "i < intr_count" for i
    using that t(3) unfolding t'(3)
    by (subst fold_upd) (simp_all add: intr_names_def shown_name_def max_intr_handler_name_len_def)
  have "map_of intr_names i = Some (take 32 s) \<longleftrightarrow> i \<notin> {0x05, 0x07, 0x13}" if "map_of intr_names i = Some s" for i s
    using that by (auto simp: intr_names_def split: if_splits)
  with n t(3) t' show ?thesis
    by (intro exI [of _ tab] exI [of _ tab']) (auto simp: t(1))
qed

theorem RegisterIntrHandlers_names_witness:
  "\<exists>tab tab'. GetIntrHandlerTab (replicate intr_count 0) (7 :: nat) = Some tab \<and>
     RegisterIntrHandlers tab = Some tab' \<and> tab_name tab' 5 = ''#BR Bound Range Exceeded Excepti''"
  using RegisterIntrHandlers_names [of "replicate intr_count 0" "7 :: nat"]
  by (auto simp: intr_count_def intr_names_def dest!: spec [of _ 5])

end
