(* ===== verification/Timers.thy ===== *)
theory Timers
  imports Interrupts
begin

text \<open>
  The Intel 8253 timer, \<^verbatim>\<open>src/kernel/io/timer.cpp\<close>: its control word, the initial counter value and
  \<^verbatim>\<open>InitTimer\<close>. The clock interrupt handler itself is \<open>ClockIntrHandler\<close> of the theory \<open>Threads\<close>; here it
  is registered in the handler table. What the chip does with the writes is \<open>pit_write\<close>, the control
  word format of the 8253 data sheet.
\<close>

definition counter_0 :: u16 where "counter_0 = 0x40"
definition pit_ctrl :: u16 where "pit_ctrl = 0x43"

datatype read_write_mode = LatchRead | ReadWriteLowByte | ReadWriteHighByte | ReadWriteLowHighBytes

fun read_write_code :: "read_write_mode \<Rightarrow> u32" where
  "read_write_code LatchRead = 0"
| "read_write_code ReadWriteLowByte = 1"
| "read_write_code ReadWriteHighByte = 2"
| "read_write_code ReadWriteLowHighBytes = 3"

datatype count_mode = IntrOnTerminalCount | HardRetriggerOneShot | RateGenerator
  | SquareWaveGenerator | SoftTriggerStrobe | HardTriggerStrobe

fun count_mode_code :: "count_mode \<Rightarrow> u32" where
  "count_mode_code IntrOnTerminalCount = 0"
| "count_mode_code HardRetriggerOneShot = 1"
| "count_mode_code RateGenerator = 2"
| "count_mode_code SquareWaveGenerator = 3"
| "count_mode_code SoftTriggerStrobe = 4"
| "count_mode_code HardTriggerStrobe = 5"

datatype digital_mode = Binary | BinaryCodedDecimal

definition bcd_pos :: nat where "bcd_pos = 0"
definition m_pos :: nat where "m_pos = bcd_pos + 1"
definition m_len :: nat where "m_len = 3"
definition rw_pos :: nat where "rw_pos = m_pos + m_len"
definition rw_len :: nat where "rw_len = 2"
definition sc_pos :: nat where "sc_pos = rw_pos + rw_len"
definition sc_len :: nat where "sc_len = 2"

definition CtrlWord_SetDigitalMode :: "digital_mode \<Rightarrow> u8 \<Rightarrow> u8" where
  "CtrlWord_SetDigitalMode mode val =
     (if mode = BinaryCodedDecimal then SetBit val bcd_pos else ResetBit val bcd_pos)"

definition CtrlWord_SetCountMode :: "count_mode \<Rightarrow> u8 \<Rightarrow> u8" where
  "CtrlWord_SetCountMode mode val = SetBits val (count_mode_code mode) m_pos m_len"

definition CtrlWord_SetReadWriteMode :: "read_write_mode \<Rightarrow> u8 \<Rightarrow> u8" where
  "CtrlWord_SetReadWriteMode mode val = SetBits val (read_write_code mode) rw_pos rw_len"

definition CtrlWord_SetSelectCounter :: "nat \<Rightarrow> u8 \<Rightarrow> u8 option" where
  "CtrlWord_SetSelectCounter c val = do {
     Assert (c < 3);
     Some (SetBits val (of_nat c :: u32) sc_pos sc_len)
   }"

definition CtrlWord_WriteToPort :: "u8 \<Rightarrow> port_write list" where
  "CtrlWord_WriteToPort val = [(pit_ctrl, val)]"

text \<open>A division by zero is a processor exception whose handler never returns.\<close>

definition input_freq :: u32 where "input_freq = 1193180"

definition CalcInitCounterVal :: "u32 \<Rightarrow> u32 option" where
  "CalcInitCounterVal freq_per_second =
     (if freq_per_second = 0 then None else Some (input_freq div freq_per_second))"

text \<open>
  \<^verbatim>\<open>GetLowByte\<close> and \<^verbatim>\<open>GetHighByte\<close> take a 16-bit argument: the 32-bit counter value is narrowed to it.
\<close>

definition InitCounter :: "u32 \<Rightarrow> port_write list option" where
  "InitCounter freq_per_second = do {
     ctrl \<leftarrow> CtrlWord_SetSelectCounter 0 0;
     let ctrl = CtrlWord_SetDigitalMode Binary (CtrlWord_SetReadWriteMode ReadWriteLowHighBytes
                  (CtrlWord_SetCountMode RateGenerator ctrl));
     init_val \<leftarrow> CalcInitCounterVal freq_per_second;
     Some (CtrlWord_WriteToPort ctrl @
           [(counter_0, GetLowByte (ucast init_val)), (counter_0, GetHighByte (ucast init_val))])
   }"

text \<open>
  \<^verbatim>\<open>InitTimer\<close> on the timer's initialization flag, the scheduler (for the tick counter) and the handler
  table; \<open>clock\<close> is the pointer to the clock interrupt handler.
\<close>

definition InitTimer :: "u32 \<Rightarrow> 'h \<Rightarrow> bool \<Rightarrow> sched \<Rightarrow> 'h intr_handler_tab \<Rightarrow>
    (port_write list \<times> bool \<times> sched \<times> 'h intr_handler_tab) option" where
  "InitTimer freq_per_second clock inited k tab = do {
     Assert (\<not> inited);
     Assert (sc_inited k);
     let k = k\<lparr>sc_ticks := 0\<rparr>;
     writes \<leftarrow> InitCounter freq_per_second;
     tab \<leftarrow> Register_intr_handler Clock clock tab;
     Some (writes, True, k, tab)
   }"

section \<open>What the timer does with the writes\<close>

text \<open>
  One counter of the 8253: the control word for counter 0 selects how the count is loaded (both bytes,
  low byte first, when the read/write field is 3), the mode and binary or decimal counting. \<open>PitLow\<close> is
  the state after the low byte, \<open>PitLoaded\<close> after both.
\<close>

datatype pit = PitIdle | PitReady nat bool | PitLow nat bool u8 | PitLoaded nat bool u16

fun pit_data :: "u8 \<Rightarrow> pit \<Rightarrow> pit" where
  "pit_data v (PitReady mode bcd) = PitLow mode bcd v"
| "pit_data v (PitLow mode bcd low) = PitLoaded mode bcd (CombineBytes v low)"
| "pit_data v p = p"

definition pit_write :: "port_write \<Rightarrow> pit \<Rightarrow> pit" where
  "pit_write w p =
     (if fst w = 0x43 \<and> GetBits (snd w) 6 2 = 0 \<and> GetBits (snd w) 4 2 = 3
      then PitReady (unat (GetBits (snd w) 1 3)) (bit (snd w) 0)
      else if fst w = 0x40 then pit_data (snd w) p else p)"

lemmas pit_defs = CtrlWord_SetSelectCounter_def CtrlWord_SetDigitalMode_def CtrlWord_SetReadWriteMode_def
  CtrlWord_SetCountMode_def CtrlWord_WriteToPort_def bcd_pos_def m_pos_def m_len_def rw_pos_def rw_len_def
  sc_pos_def sc_len_def counter_0_def pit_ctrl_def

lemma InitCounter_eq:
  "freq \<noteq> 0 \<Longrightarrow> InitCounter freq =
     Some [(0x43, 0x34), (0x40, GetLowByte (ucast (input_freq div freq))),
           (0x40, GetHighByte (ucast (input_freq div freq)))]"
  by (simp add: InitCounter_def CalcInitCounterVal_def pit_defs SetBits_def ResetBits_def ResetBit_def SetBit_def)

lemma narrow_counter:
  assumes "19 \<le> freq"
  shows "unat (ucast (input_freq div freq) :: u16) = 1193180 div unat freq"
proof -
  have f: "19 \<le> unat freq" using assms by (simp add: word_le_nat_alt)
  have "1193180 div unat freq \<le> 1193180 div 19" by (rule div_le_mono2) (use f in auto)
  then have "1193180 div unat freq < 65536" by simp
  then show ?thesis
    by (simp add: unsigned_ucast_eq unat_div_distrib input_freq_def take_bit_nat_eq_self)
qed

section \<open>Properties\<close>

text \<open>
  \<^verbatim>\<open>InitTimer\<close>: for every frequency of at least 19 per second, it programs counter 0 as a binary rate
  generator whose 16-bit count is the input frequency divided by the requested one, resets the ticks,
  makes the clock handler the handler of its interrupt and no other, and can be called once only. The
  bound is sharp: at 18 interrupts per second the quotient does not fit into 16 bits and another count is
  loaded; a frequency of zero stops the system.
\<close>

theorem InitTimer_rate:
  assumes "sc_inited k" "19 \<le> freq" "tab_ok tab"
  shows "(\<exists>ws k' tab' c. InitTimer freq clock False k tab = Some (ws, True, k', tab') \<and>
      fold pit_write ws p = PitLoaded 2 False c \<and> unat c = 1193180 div unat freq \<and>
      sc_ticks k' = 0 \<and> tab_ok tab' \<and>
      (\<forall>i < intr_count. iht_handlers tab' ! i = (if i = 0x20 then clock else iht_handlers tab ! i)) \<and>
      InitTimer freq clock True k' tab' = None) \<and>
    (\<exists>ws c. InitCounter 18 = Some ws \<and> fold pit_write ws p = PitLoaded 2 False c \<and>
      unat c \<noteq> 1193180 div 18) \<and>
    InitCounter 0 = None"
proof (intro conjI)
  have f: "freq \<noteq> 0" using assms(2) by auto
  have run: "fold pit_write [(0x43, 0x34), (0x40, GetLowByte c), (0x40, GetHighByte c)] p = PitLoaded 2 False c" for c
    by (simp add: pit_write_def GetBits_def)
  have t: "Register_intr_handler Clock clock tab =
      Some (tab\<lparr>iht_handlers := (iht_handlers tab)[0x20 := clock]\<rparr>)"
    by (simp add: Register_intr_handler_def Register_handler_def start_usr_intr_num_def intr_count_def)
  have h: "\<forall>i < intr_count. (iht_handlers tab)[0x20 := clock] ! i = (if i = 0x20 then clock else iht_handlers tab ! i)"
    using assms(3) by (auto simp: tab_ok_def nth_list_update intr_count_def)
  have ok: "tab_ok (tab\<lparr>iht_handlers := (iht_handlers tab)[0x20 := clock]\<rparr>)"
    using assms(3) by (simp add: tab_ok_def)
  have init: "InitTimer freq clock False k tab =
      Some ([(0x43, 0x34), (0x40, GetLowByte (ucast (input_freq div freq))),
           (0x40, GetHighByte (ucast (input_freq div freq)))], True, k\<lparr>sc_ticks := 0\<rparr>,
        tab\<lparr>iht_handlers := (iht_handlers tab)[0x20 := clock]\<rparr>)"
    using assms(1) t by (simp add: InitTimer_def InitCounter_eq [OF f])
  have again: "InitTimer freq clock True k' tab' = None" for k' tab'
    by (simp add: InitTimer_def)
  show "\<exists>ws k' tab' c. InitTimer freq clock False k tab = Some (ws, True, k', tab') \<and>
      fold pit_write ws p = PitLoaded 2 False c \<and> unat c = 1193180 div unat freq \<and>
      sc_ticks k' = 0 \<and> tab_ok tab' \<and>
      (\<forall>i < intr_count. iht_handlers tab' ! i = (if i = 0x20 then clock else iht_handlers tab ! i)) \<and>
      InitTimer freq clock True k' tab' = None"
    by (intro exI conjI, rule init, rule run) (use narrow_counter [OF assms(2)] h ok again in simp_all)
  show "\<exists>ws c. InitCounter 18 = Some ws \<and> fold pit_write ws p = PitLoaded 2 False c \<and> unat c \<noteq> 1193180 div 18"
    by (intro exI conjI, rule InitCounter_eq, simp, rule run) (simp add: input_freq_def)
  show "InitCounter 0 = None"
    by (simp add: InitCounter_def CalcInitCounterVal_def CtrlWord_SetSelectCounter_def)
qed

theorem InitTimer_rate_witness:
  "\<exists>ws k' tab' c. InitTimer timer_freq_per_second 5 False (two_threads\<lparr>sc_inited := True\<rparr>)
      \<lparr>iht_names = replicate intr_count (replicate 33 NUL), iht_handlers = replicate intr_count (0 :: nat)\<rparr> =
        Some (ws, True, k', tab') \<and> fold pit_write ws PitIdle = PitLoaded 2 False c \<and> unat c = 11931"
  using InitTimer_rate [of "two_threads\<lparr>sc_inited := True\<rparr>" timer_freq_per_second
     "\<lparr>iht_names = replicate intr_count (replicate 33 NUL), iht_handlers = replicate intr_count (0 :: nat)\<rparr>" 5 PitIdle]
  by (simp add: timer_freq_per_second_def tab_ok_def list_all_length max_intr_handler_name_len_def) blast

end
