(* ===== verification/Keyboards.thy ===== *)
theory Keyboards
  imports BlockQueues Interrupts
begin

text \<open>
  The keyboard driver, \<^verbatim>\<open>src/kernel/io/keyboard.cpp\<close>: scan codes, the key map, the state of the control
  keys, and \<^verbatim>\<open>KeyHandler::Enter\<close>, which the keyboard interrupt handler calls with each byte it reads from
  the controller. The keyboard buffer is the blocking queue of the theory \<open>BlockQueues\<close>. The
  specification is the reaction \<open>key_step\<close> to whole key events (a key is pressed or released), which the
  keyboard encodes as one or two bytes (\<open>key_bytes\<close>).
\<close>

section \<open>Scan codes\<close>

definition ext_leader :: u8 where "ext_leader = 0xE0"
definition mk_shift_left :: u8 where "mk_shift_left = 0x2A"
definition mk_shift_right :: u8 where "mk_shift_right = 0x36"
definition mk_alt_left :: u8 where "mk_alt_left = 0x38"
definition mk_alt_right :: u16 where "mk_alt_right = CombineBytes ext_leader mk_alt_left"
definition mk_ctrl_left :: u8 where "mk_ctrl_left = 0x1D"
definition mk_ctrl_right :: u16 where "mk_ctrl_right = CombineBytes ext_leader mk_ctrl_left"
definition mk_caps_lock :: u8 where "mk_caps_lock = 0x3A"

definition break_pos :: nat where "break_pos = 7"

definition ScanCode_IsBreakCode :: "u16 \<Rightarrow> bool" where
  "ScanCode_IsBreakCode code = IsBitSet code break_pos"

definition ScanCode_GetMakeCode :: "u16 \<Rightarrow> u16" where
  "ScanCode_GetMakeCode code = (if ScanCode_IsBreakCode code then ResetBit code break_pos else code)"

section \<open>The key map\<close>

definition esc :: char where "esc = CHR 0x1B"
definition backspace :: char where "backspace = CHR 0x08"
definition horizontal_tab :: char where "horizontal_tab = CHR 0x09"
definition enter :: char where "enter = CHR 0x0D"

definition key_map :: "(char \<times> char) list" where
  "key_map =
    [(NUL, NUL), (esc, esc), (CHR ''1'', CHR ''!''), (CHR ''2'', CHR ''@''), (CHR ''3'', CHR ''#''),
     (CHR ''4'', CHR ''$''), (CHR ''5'', CHR ''%''), (CHR ''6'', CHR ''^''), (CHR ''7'', CHR ''&''),
     (CHR ''8'', CHR ''*''), (CHR ''9'', CHR ''(''), (CHR ''0'', CHR '')''), (CHR ''-'', CHR ''_''),
     (CHR ''='', CHR ''+''), (backspace, backspace), (horizontal_tab, horizontal_tab),
     (CHR ''q'', CHR ''Q''), (CHR ''w'', CHR ''W''), (CHR ''e'', CHR ''E''), (CHR ''r'', CHR ''R''),
     (CHR ''t'', CHR ''T''), (CHR ''y'', CHR ''Y''), (CHR ''u'', CHR ''U''), (CHR ''i'', CHR ''I''),
     (CHR ''o'', CHR ''O''), (CHR ''p'', CHR ''P''), (CHR ''['', CHR ''{''), (CHR '']'', CHR ''}''),
     (enter, enter), (NUL, NUL), (CHR ''a'', CHR ''A''), (CHR ''s'', CHR ''S''),
     (CHR ''d'', CHR ''D''), (CHR ''f'', CHR ''F''), (CHR ''g'', CHR ''G''), (CHR ''h'', CHR ''H''),
     (CHR ''j'', CHR ''J''), (CHR ''k'', CHR ''K''), (CHR ''l'', CHR ''L''), (CHR '';'', CHR '':''),
     (CHR 0x27, CHR 0x22), (CHR 0x60, CHR ''~''), (NUL, NUL), (CHR 0x5C, CHR ''|''),
     (CHR ''z'', CHR ''Z''), (CHR ''x'', CHR ''X''), (CHR ''c'', CHR ''C''), (CHR ''v'', CHR ''V''),
     (CHR ''b'', CHR ''B''), (CHR ''n'', CHR ''N''), (CHR ''m'', CHR ''M''), (CHR '','', CHR ''<''),
     (CHR ''.'', CHR ''>''), (CHR ''/'', CHR ''?''), (NUL, NUL), (CHR ''*'', CHR ''*''),
     (NUL, NUL), (CHR '' '', CHR '' ''), (NUL, NUL)]"

text \<open>Reading the map; a position outside of it would be an access out of bounds.\<close>

definition key_map_at :: "u8 \<Rightarrow> (char \<times> char) option" where
  "key_map_at i = (if unat i < length key_map then Some (key_map ! unat i) else None)"

section \<open>The key handler\<close>

record key_handler =
  kh_ctrl :: bool
  kh_alt :: bool
  kh_shift :: bool
  kh_caps :: bool
  kh_ext :: bool

definition KeyHandler :: key_handler where
  "KeyHandler = \<lparr>kh_ctrl = False, kh_alt = False, kh_shift = False, kh_caps = False, kh_ext = False\<rparr>"

definition UpdateCtrlKeyStatus :: "u16 \<Rightarrow> bool \<Rightarrow> key_handler \<Rightarrow> key_handler option" where
  "UpdateCtrlKeyStatus make_code pressed h = do {
     Assert (\<not> ScanCode_IsBreakCode make_code);
     Some (if make_code = ucast mk_ctrl_left \<or> make_code = mk_ctrl_right then h\<lparr>kh_ctrl := pressed\<rparr>
           else if make_code = ucast mk_shift_left \<or> make_code = ucast mk_shift_right
             then h\<lparr>kh_shift := pressed\<rparr>
           else if make_code = ucast mk_alt_left \<or> make_code = mk_alt_right then h\<lparr>kh_alt := pressed\<rparr>
           else if pressed \<and> make_code = ucast mk_caps_lock then h\<lparr>kh_caps := \<not> kh_caps h\<rparr>
           else h)
   }"

definition IsSupportedKey :: "u16 \<Rightarrow> bool option" where
  "IsSupportedKey make_code = do {
     Assert (\<not> ScanCode_IsBreakCode make_code);
     Some ((0 < make_code \<and> unat make_code < length key_map) \<or>
           make_code = mk_alt_right \<or> make_code = mk_ctrl_right)
   }"

definition is_symbol :: "char \<Rightarrow> bool" where
  "is_symbol ch \<longleftrightarrow> (char_code CHR ''0'' \<le> char_code ch \<and> char_code ch \<le> char_code CHR ''9'') \<or>
     ch = CHR ''-'' \<or> ch = CHR ''='' \<or> ch = CHR 0x60 \<or> ch = CHR ''['' \<or> ch = CHR '']'' \<or>
     ch = CHR 0x5C \<or> ch = CHR '';'' \<or> ch = CHR 0x27 \<or> ch = CHR '','' \<or> ch = CHR ''.'' \<or> ch = CHR ''/''"

definition IsShiftEnabled :: "u16 \<Rightarrow> key_handler \<Rightarrow> bool option" where
  "IsShiftEnabled make_code h = do {
     supported \<leftarrow> IsSupportedKey make_code;
     Assert supported;
     (ch, _) \<leftarrow> key_map_at (GetLowByte make_code);
     Some (if is_symbol ch then kh_shift h
           else if kh_shift h \<and> kh_caps h then False
           else if kh_shift h \<or> kh_caps h then True
           else False)
   }"

definition KeyHandler_Enter :: "u8 \<Rightarrow> key_handler \<Rightarrow> char block_queue \<Rightarrow> sched \<Rightarrow>
    (key_handler \<times> char block_queue \<times> sched) option" where
  "KeyHandler_Enter scan_code h buf k =
     (if scan_code = ext_leader then Some (h\<lparr>kh_ext := True\<rparr>, buf, k)
      else do {
        let (full_scan_code, h) =
          (if kh_ext h then (CombineBytes ext_leader scan_code, h\<lparr>kh_ext := False\<rparr>)
           else (ucast scan_code, h));
        let make_code = ScanCode_GetMakeCode full_scan_code;
        if ScanCode_IsBreakCode full_scan_code then do {
          h \<leftarrow> UpdateCtrlKeyStatus make_code False h;
          Some (h, buf, k)
        }
        else do {
          supported \<leftarrow> IsSupportedKey make_code;
          if supported then do {
            h \<leftarrow> UpdateCtrlKeyStatus make_code True h;
            is_shift_enabled \<leftarrow> IsShiftEnabled make_code h;
            (plain, shifted) \<leftarrow> key_map_at (GetLowByte make_code);
            let ch = (if is_shift_enabled then shifted else plain);
            if ch \<noteq> NUL then do {
              full \<leftarrow> BlockQueue_IsFull buf k;
              if \<not> full then do {
                (buf, k) \<leftarrow> BlockQueue_Push ch buf k;
                Some (h, buf, k)
              }
              else Some (h, buf, k)
            }
            else Some (h, buf, k)
          }
          else Some (h, buf, k)
        }
      })"

text \<open>The interrupt handler: \<open>data\<close> is the byte that the controller's data port gives.\<close>

definition KeyboardIntrHandler :: "u8 \<Rightarrow> key_handler \<Rightarrow> char block_queue \<Rightarrow> sched \<Rightarrow>
    (key_handler \<times> char block_queue \<times> sched) option" where
  "KeyboardIntrHandler data h buf k = KeyHandler_Enter data h buf k"

definition KeyboardBuffer_size :: nat where "KeyboardBuffer_size = 64"

definition GetKeyboardBuffer :: "char list \<Rightarrow> char block_queue" where
  "GetKeyboardBuffer mem =
     \<lparr>bq_n = KeyboardBuffer_size, bq_buf = mem, bq_head = 0, bq_tail = 0, bq_prod = None, bq_consr = None\<rparr>"

definition InitKeyboard :: "'h \<Rightarrow> 'h intr_handler_tab \<Rightarrow> 'h intr_handler_tab option" where
  "InitKeyboard handler tab = Register_intr_handler Keyboard handler tab"

text \<open>A sequence of interrupts, one byte each.\<close>

fun enter_bytes :: "u8 list \<Rightarrow> key_handler \<Rightarrow> char block_queue \<Rightarrow> sched \<Rightarrow>
    (key_handler \<times> char block_queue \<times> sched) option" where
  "enter_bytes [] h buf k = Some (h, buf, k)"
| "enter_bytes (b # bs) h buf k = do {
     (h, buf, k) \<leftarrow> KeyboardIntrHandler b h buf k;
     enter_bytes bs h buf k
   }"

section \<open>Key events\<close>

text \<open>
  A key is its make code with or without the extension prefix. \<open>0x60\<close> is no key: its break code would be
  the prefix itself.
\<close>

datatype key_event = Key (key_ext: bool) (key_code: u8) (key_pressed: bool)

definition key_valid :: "key_event \<Rightarrow> bool" where
  "key_valid e \<longleftrightarrow> key_code e < 0x80 \<and> key_code e \<noteq> 0x60"

definition key_bytes :: "key_event \<Rightarrow> u8 list" where
  "key_bytes e = (if key_ext e then [0xE0] else []) @
     [if key_pressed e then key_code e else SetBit (key_code e) 7]"

definition is_letter :: "char \<Rightarrow> bool" where
  "is_letter ch \<longleftrightarrow> ch \<in> set ''abcdefghijklmnopqrstuvwxyz''"

definition upper :: "char \<Rightarrow> char" where
  "upper ch = the (map_of (zip ''abcdefghijklmnopqrstuvwxyz'' ''ABCDEFGHIJKLMNOPQRSTUVWXYZ'') ch)"

text \<open>A letter is a capital one if just one of shift and caps lock is on; other keys ignore caps lock.\<close>

definition key_text :: "char \<times> char \<Rightarrow> key_handler \<Rightarrow> char" where
  "key_text m h = (if is_letter (fst m) then if kh_shift h \<noteq> kh_caps h then upper (fst m) else fst m
     else if kh_shift h then snd m else fst m)"

definition key_known :: "key_event \<Rightarrow> bool" where
  "key_known e \<longleftrightarrow> (if key_ext e then key_code e = 0x38 \<or> key_code e = 0x1D
     else 0 < key_code e \<and> unat (key_code e) < length key_map)"

definition key_mod :: "key_event \<Rightarrow> key_handler \<Rightarrow> key_handler" where
  "key_mod e h =
     (if key_code e = 0x1D then h\<lparr>kh_ctrl := key_pressed e\<rparr>
      else if \<not> key_ext e \<and> (key_code e = 0x2A \<or> key_code e = 0x36) then h\<lparr>kh_shift := key_pressed e\<rparr>
      else if key_code e = 0x38 then h\<lparr>kh_alt := key_pressed e\<rparr>
      else if \<not> key_ext e \<and> key_pressed e \<and> key_code e = 0x3A then h\<lparr>kh_caps := \<not> kh_caps h\<rparr>
      else h)"

definition key_char :: "key_event \<Rightarrow> key_handler \<Rightarrow> char list" where
  "key_char e h =
     (if key_pressed e \<and> key_known e \<and> key_text (key_map ! unat (key_code e)) h \<noteq> NUL
      then [key_text (key_map ! unat (key_code e)) h] else [])"

fun key_steps :: "key_event list \<Rightarrow> key_handler \<Rightarrow> key_handler \<times> char list" where
  "key_steps [] h = (h, [])"
| "key_steps (e # es) h =
     (let h' = key_mod e h; (h'', cs) = key_steps es h' in (h'', key_char e h' @ cs))"

section \<open>Scan codes and key events\<close>

lemma CombineBytes_inject [simp]: "CombineBytes a b = CombineBytes c d \<longleftrightarrow> a = c \<and> b = d"
  by (metis GetHigh_Combine(1) GetHigh_Combine(2))

lemma ucast_CombineBytes: "(ucast (c :: u8) :: u16) = CombineBytes 0 c"
  by (simp add: CombineBytes_def CombineBits_def)

lemma bit_CombineBytes: "bit (CombineBytes a b) i \<longleftrightarrow> (if i < 8 then bit b i else bit a (i - 8))"
  by (simp add: CombineBytes_def bit_CombineBits)

lemma unat_CombineBytes: "unat (CombineBytes a b) = 256 * unat a + unat b"
proof -
  have u: "unat (ucast x :: u16) = unat x" for x :: u8
    using unsigned_less [of x, where 'a = nat] by (simp add: unsigned_ucast_eq take_bit_nat_eq_self)
  have "unat (CombineBytes a b) = (256 * unat a + unat b) mod 65536"
    by (simp add: CombineBytes_def CombineBits_def push_bit_eq_mult unat_word_ariths u mod_simps mult.commute)
  moreover have "256 * unat a + unat b < 65536"
    using unsigned_less [of a, where 'a = nat] unsigned_less [of b, where 'a = nat] by simp
  ultimately show ?thesis by simp
qed

lemma IsBreak_Combine [simp]: "ScanCode_IsBreakCode (CombineBytes a b) \<longleftrightarrow> bit b 7"
  by (simp add: ScanCode_IsBreakCode_def break_pos_def bits_simps bit_CombineBytes)

lemma not_bit_7: "c < 0x80 \<longleftrightarrow> \<not> bit c 7" for c :: u8
proof
  assume "c < 0x80"
  then have "unat c < 2 ^ 7" by (simp add: word_less_nat_alt)
  then show "\<not> bit c 7" using bit_word_bound [of c 7 7] by auto
next
  assume n: "\<not> bit c 7"
  have "i < 7" if "bit c i" for i
    using that bit_imp_le_length [OF that] n by (cases "i = 7") auto
  from word_bound_bit [OF this] show "c < 0x80" by (simp add: word_less_nat_alt)
qed

lemma MakeCode_press: "\<not> bit c 7 \<Longrightarrow> ScanCode_GetMakeCode (CombineBytes a c) = CombineBytes a c"
  by (simp add: ScanCode_GetMakeCode_def)

lemma MakeCode_release:
  "\<not> bit c 7 \<Longrightarrow> ScanCode_GetMakeCode (CombineBytes a (SetBit c 7)) = CombineBytes a c"
  by (rule bit_word_eqI)
    (auto simp: ScanCode_GetMakeCode_def break_pos_def bits_simps bit_CombineBytes)

lemma bit_release [simp]: "bit (SetBit c 7 :: u8) 7"
  by (simp add: bits_simps)

lemma release_leader: "\<not> bit c 7 \<Longrightarrow> SetBit c 7 = (0xE0 :: u8) \<Longrightarrow> c = 0x60"
proof -
  assume n: "\<not> bit c 7" and e: "SetBit c 7 = 0xE0"
  have "c = ResetBit (SetBit c 7) 7"
    by (rule bit_word_eqI) (use n in \<open>auto simp: bits_simps\<close>)
  then show "c = 0x60" unfolding e by (simp add: ResetBit_def)
qed

lemmas mk_defs = mk_ctrl_left_def mk_ctrl_right_def mk_shift_left_def mk_shift_right_def mk_alt_left_def
  mk_alt_right_def mk_caps_lock_def ext_leader_def

text \<open>Facts about the key map, by evaluation of its 59 entries.\<close>

lemma key_map_columns:
  "list_all (\<lambda>(p, s). (is_letter p \<longrightarrow> s = upper p \<and> \<not> is_symbol p) \<and>
     (\<not> is_letter p \<and> \<not> is_symbol p \<longrightarrow> s = p)) key_map"
  by (simp add: key_map_def is_letter_def is_symbol_def upper_def char_code_def esc_def backspace_def
      horizontal_tab_def enter_def)

lemma length_key_map [simp]: "length key_map = 0x3B"
  by (simp add: key_map_def)


definition lead :: "bool \<Rightarrow> u8" where
  "lead ext = (if ext then 0xE0 else 0)"

lemma Supported_known:
  assumes "key_valid e" "key_pressed e"
  shows "IsSupportedKey (CombineBytes (lead (key_ext e)) (key_code e)) = Some (key_known e)"
proof -
  have "\<not> bit (key_code e) 7" using assms(1) by (simp add: key_valid_def not_bit_7)
  then show ?thesis
    by (auto simp: IsSupportedKey_def key_known_def lead_def mk_defs word_less_nat_alt unat_CombineBytes)
qed

lemma Update_mod:
  assumes "key_valid e" "p = key_pressed e"
  shows "UpdateCtrlKeyStatus (CombineBytes (lead (key_ext e)) (key_code e)) p h = Some (key_mod e h)"
  using assms
  by (auto simp: UpdateCtrlKeyStatus_def key_valid_def not_bit_7 key_mod_def lead_def mk_defs ucast_CombineBytes)

lemma known_in_map: "key_known e \<Longrightarrow> unat (key_code e) < length key_map"
  by (auto simp: key_known_def split: if_splits)

lemma Shift_text:
  assumes "key_valid e" "key_pressed e" "key_known e"
  shows "\<exists>b p s. IsShiftEnabled (CombineBytes (lead (key_ext e)) (key_code e)) h = Some b \<and>
    key_map_at (key_code e) = Some (p, s) \<and> (if b then s else p) = key_text (key_map ! unat (key_code e)) h"
proof -
  obtain p s where m: "key_map ! unat (key_code e) = (p, s)" by force
  have c: "(is_letter p \<longrightarrow> s = upper p \<and> \<not> is_symbol p) \<and> (\<not> is_letter p \<and> \<not> is_symbol p \<longrightarrow> s = p)"
    using key_map_columns known_in_map [OF assms(3)] m unfolding list_all_length by fastforce
  show ?thesis
    using assms known_in_map [OF assms(3)] c
    by (auto simp: IsShiftEnabled_def Supported_known key_map_at_def m key_text_def)
qed

text \<open>The effect of the bytes of one key event.\<close>

definition put_chars :: "char list \<Rightarrow> char block_queue \<Rightarrow> sched \<Rightarrow> (char block_queue \<times> sched) option" where
  "put_chars cs buf k = (case cs of [] \<Rightarrow> Some (buf, k)
     | c # _ \<Rightarrow> do {
         full \<leftarrow> BlockQueue_IsFull buf k;
         if \<not> full then BlockQueue_Push c buf k else Some (buf, k)
       })"

lemma Enter_second:
  assumes "key_valid e" "kh_ext h = key_ext e"
  shows "KeyHandler_Enter (if key_pressed e then key_code e else SetBit (key_code e) 7) h buf k =
    (let h' = key_mod e (h\<lparr>kh_ext := False\<rparr>) in
     do { (buf, k) \<leftarrow> put_chars (key_char e h') buf k; Some (h', buf, k) })"
proof -
  have n: "\<not> bit (key_code e) 7" "key_code e \<noteq> 0xE0" "SetBit (key_code e) 7 \<noteq> 0xE0"
    using assms(1) release_leader [of "key_code e"] by (auto simp: key_valid_def not_bit_7)
  define h0 where "h0 = h\<lparr>kh_ext := False\<rparr>"
  have st: "(if kh_ext h then (CombineBytes ext_leader b, h\<lparr>kh_ext := False\<rparr>) else (ucast b, h)) =
      (CombineBytes (lead (key_ext e)) b, h0)" for b
    using assms(2) by (cases h) (auto simp: lead_def ext_leader_def ucast_CombineBytes h0_def)
  show ?thesis
  proof (cases "key_pressed e")
    case False
    then show ?thesis
      unfolding KeyHandler_Enter_def st
      using n Update_mod [OF assms(1), of False h0]
      by (simp add: ext_leader_def MakeCode_release h0_def [symmetric] key_char_def put_chars_def Let_def)
  next
    case True
    have b: "\<not> ScanCode_IsBreakCode (CombineBytes (lead (key_ext e)) (key_code e))"
      "GetLowByte (CombineBytes (lead (key_ext e)) (key_code e)) = key_code e"
      using n by simp_all
    show ?thesis
    proof (cases "key_known e")
      case False
      have "key_mod e h0 = h0"
        using False True by (auto simp: key_mod_def key_known_def split: if_splits)
      with True False n show ?thesis
        unfolding KeyHandler_Enter_def st
        by (simp add: ext_leader_def MakeCode_press b Supported_known [OF assms(1) True] h0_def [symmetric]
            key_char_def put_chars_def Let_def)
    next
      case known: True
      obtain s p t where sh: "IsShiftEnabled (CombineBytes (lead (key_ext e)) (key_code e)) (key_mod e h0) = Some s"
        "key_map_at (key_code e) = Some (p, t)"
        "key_text (key_map ! unat (key_code e)) (key_mod e h0) = (if s then t else p)"
        using Shift_text [OF assms(1) True known, of "key_mod e h0"] by force
      from True known n sh show ?thesis
        unfolding KeyHandler_Enter_def st
        by (cases "BlockQueue_IsFull buf k")
          (simp_all add: ext_leader_def MakeCode_press b Supported_known [OF assms(1) True]
            Update_mod [OF assms(1)] h0_def [symmetric] key_char_def put_chars_def Let_def)
    qed
  qed
qed


lemma Push_frame:
  assumes "BlockQueue_Push v q k = Some (q', k')"
  shows "bq_n q' = bq_n q \<and> bq_prod q' = bq_prod q \<and> sc_intr k' = sc_intr k"
  using assms
  by (auto simp: BlockQueue_Push_def BlockQueue_WakeUp_def Thread_Unblock_def Thread_SetStatus_def upd_def
      Let_def bind_Some_conv split: if_splits)

text \<open>What an interrupt handler may rely on: the queue and the scheduler are well-formed, interrupts are off.\<close>

definition kbd_ok :: "char block_queue \<Rightarrow> sched \<Rightarrow> bool" where
  "kbd_ok q k \<longleftrightarrow> bq_ok q \<and> sched_ok k \<and> \<not> sc_intr k \<and> waiter_ok (bq_consr q) k"

lemma put_chars_ok:
  assumes "kbd_ok q k" "length cs \<le> 1"
  shows "\<exists>q' k'. put_chars cs q k = Some (q', k') \<and> kbd_ok q' k' \<and> bq_n q' = bq_n q \<and>
    bq_list q' = take (bq_n q) (bq_list q @ cs)"
proof (cases cs)
  case Nil
  with assms bq_len_le [of q] show ?thesis by (auto simp: put_chars_def kbd_ok_def)
next
  case (Cons c cs')
  with assms have [simp]: "cs' = []" by simp
  have q: "bq_ok q" "sched_ok k" "\<not> sc_intr k" "waiter_ok (bq_consr q) k"
    using assms(1) by (auto simp: kbd_ok_def)
  have full: "BlockQueue_IsFull q k = Some (length (bq_list q) = bq_n q)"
    using bq.full_iff [OF q(1)] q(3) by (simp add: BlockQueue_IsFull_def)
  show ?thesis
  proof (cases "length (bq_list q) = bq_n q")
    case True
    with full assms(1) Cons show ?thesis by (auto simp: put_chars_def)
  next
    case False
    then have room: "length (bq_list q) < bq_n q" using bq_len_le [OF q(1)] by simp
    from Push_ok [OF q(1,2,4) room, of c] obtain q' k' where p: "BlockQueue_Push c q k = Some (q', k')"
      "bq_ok q'" "bq_list q' = bq_list q @ [c]" "sched_ok k'" "bq_consr q' = None" by blast
    from Push_frame [OF p(1)] q(3) p False full Cons room show ?thesis
      by (auto simp: put_chars_def kbd_ok_def waiter_ok_def)
  qed
qed

lemma key_mod_ext [simp]: "kh_ext (key_mod e h) = kh_ext h"
  by (simp add: key_mod_def)

lemma enter_bytes_append:
  "enter_bytes (xs @ ys) h q k = do { (h, q, k) \<leftarrow> enter_bytes xs h q k; enter_bytes ys h q k }"
proof (induction xs arbitrary: h q k)
  case (Cons b bs)
  then show ?case
    by (cases "KeyboardIntrHandler b h q k") auto
qed simp

lemma enter_event:
  assumes "key_valid e" "\<not> kh_ext h" "kbd_ok q k"
  shows "\<exists>q' k'. enter_bytes (key_bytes e) h q k = Some (key_mod e h, q', k') \<and> kbd_ok q' k' \<and> bq_n q' = bq_n q \<and>
    bq_list q' = take (bq_n q) (bq_list q @ key_char e (key_mod e h))"
proof -
  have h: "h\<lparr>kh_ext := False\<rparr> = h" using assms(2) by simp
  have "length (key_char e (key_mod e h)) \<le> 1" by (simp add: key_char_def)
  from put_chars_ok [OF assms(3) this] obtain q' k' where p: "put_chars (key_char e (key_mod e h)) q k = Some (q', k')"
    "kbd_ok q' k'" "bq_n q' = bq_n q" "bq_list q' = take (bq_n q) (bq_list q @ key_char e (key_mod e h))" by blast
  have "KeyHandler_Enter 0xE0 h q k = Some (h\<lparr>kh_ext := True\<rparr>, q, k)"
    by (simp add: KeyHandler_Enter_def ext_leader_def)
  with Enter_second [OF assms(1), of "if key_ext e then h\<lparr>kh_ext := True\<rparr> else h" q k] assms(2) p h show ?thesis
    by (cases "key_ext e") (auto simp: key_bytes_def KeyboardIntrHandler_def Let_def)
qed

section \<open>Properties\<close>

text \<open>
  C25: Typing: for any sequence of key presses and releases, the handler, called with the bytes that the
  keyboard sends for them, never panics, tracks shift, control, alt and caps lock as \<open>key_steps\<close> says,
  and stores the typed characters in the keyboard buffer in order (a letter is a capital one if just one
  of shift and caps lock is on, other keys ignore caps lock, control keys give no character); when
  the buffer is full, further characters are dropped and nothing stored is lost.
\<close>

theorem KeyHandler_types:
  assumes "\<forall>e \<in> set es. key_valid e" "\<not> kh_ext h" "kbd_ok q k"
  shows "\<exists>q' k'. enter_bytes (concat (map key_bytes es)) h q k = Some (fst (key_steps es h), q', k') \<and>
    kbd_ok q' k' \<and> bq_list q' = take (bq_n q) (bq_list q @ snd (key_steps es h))"
  using assms
proof (induction es arbitrary: h q k)
  case Nil
  with bq_len_le [of q] show ?case by (auto simp: kbd_ok_def)
next
  case (Cons e es)
  from enter_event [of e h q k] Cons.prems obtain q1 k1
    where 1: "enter_bytes (key_bytes e) h q k = Some (key_mod e h, q1, k1)" "kbd_ok q1 k1" "bq_n q1 = bq_n q"
      "bq_list q1 = take (bq_n q) (bq_list q @ key_char e (key_mod e h))" by auto
  from Cons.IH [of "key_mod e h" q1 k1] Cons.prems 1 obtain q2 k2
    where 2: "enter_bytes (concat (map key_bytes es)) (key_mod e h) q1 k1 =
        Some (fst (key_steps es (key_mod e h)), q2, k2)" "kbd_ok q2 k2"
      "bq_list q2 = take (bq_n q) (bq_list q1 @ snd (key_steps es (key_mod e h)))" by auto
  have t: "take n (take n xs @ ys) = take n (xs @ ys)" for n :: nat and xs ys :: "char list"
    by (cases "n \<le> length xs") auto
  have k: "fst (key_steps (e # es) h) = fst (key_steps es (key_mod e h))"
    "snd (key_steps (e # es) h) = key_char e (key_mod e h) @ snd (key_steps es (key_mod e h))"
    by (simp_all add: Let_def split: prod.splits)
  have l: "bq_list q2 = take (bq_n q) (bq_list q @ snd (key_steps (e # es) h))"
    unfolding 2(3) 1(4) t k by (simp only: append_assoc)
  show ?case
    unfolding k(1) l [symmetric] using 1(1) 2(1,2) by (simp add: enter_bytes_append)
qed

definition typed_events :: "key_event list" where
  "typed_events = [Key False 0x2A True, Key False 0x23 True, Key False 0x23 False, Key False 0x2A False,
     Key False 0x17 True, Key False 0x17 False, Key True 0x1D True, Key False 0x02 True]"

theorem KeyHandler_types_witness:
  "\<exists>q' k'. enter_bytes (concat (map key_bytes typed_events)) KeyHandler
      (GetKeyboardBuffer (replicate 65 NUL)) (two_threads\<lparr>sc_intr := False\<rparr>) =
    Some (KeyHandler\<lparr>kh_ctrl := True\<rparr>, q', k') \<and> bq_list q' = ''Hi1''"
proof -
  have v: "\<forall>e \<in> set typed_events. key_valid e" by (simp add: typed_events_def key_valid_def)
  have s: "key_steps typed_events KeyHandler = (KeyHandler\<lparr>kh_ctrl := True\<rparr>, ''Hi1'')"
    by (simp add: typed_events_def KeyHandler_def key_mod_def key_char_def key_known_def key_map_def key_text_def
        is_letter_def upper_def)
  have q: "kbd_ok (GetKeyboardBuffer (replicate 65 NUL)) (two_threads\<lparr>sc_intr := False\<rparr>)"
    using two_threads_ok by (simp add: kbd_ok_def GetKeyboardBuffer_def KeyboardBuffer_size_def bq_ok_def waiter_ok_def)
  have l: "bq_list (GetKeyboardBuffer (replicate 65 NUL)) = []" "bq_n (GetKeyboardBuffer (replicate 65 NUL)) = 64"
    by (simp_all add: GetKeyboardBuffer_def KeyboardBuffer_size_def bq_list_def bq_len_def)
  have "\<not> kh_ext KeyHandler" by (simp add: KeyHandler_def)
  from KeyHandler_types [OF v this q] l s show ?thesis by auto
qed

end
