(* ===== verification/Video.thy ===== *)
theory Video
  imports Formats Keyboards
begin

text \<open>
  Text output: \<^verbatim>\<open>src/kernel/io/video/print.asm\<close>, \<^verbatim>\<open>print.cpp\<close>, \<^verbatim>\<open>include/kernel/io/video/print.h\<close> and the console
  \<^verbatim>\<open>console.cpp\<close>. The display controller has an index register and data registers behind two ports; the video segment is
  the 32 KB of memory that the loader's descriptor gives (base \<^verbatim>\<open>0xB8000\<close>, eight pages), an access behind it faults. A cell of
  the screen is a character and a colour byte. \<open>None\<close> is a fault or a failed assertion. The functions of
  \<^verbatim>\<open>Console\<close> run with its mutex held.
\<close>

section \<open>The display\<close>

record video =
  vd_idx :: u8
  vd_reg :: "u8 \<Rightarrow> u8"
  vd_mem :: "u16 \<Rightarrow> u8"

definition text_screen_width :: nat where "text_screen_width = 80"
definition text_screen_height :: nat where "text_screen_height = 25"
definition tab_width :: nat where "tab_width = 2"

definition vga_ctrl_addr_port :: u16 where "vga_ctrl_addr_port = 0x3D4"
definition vga_ctrl_data_port :: u16 where "vga_ctrl_data_port = 0x3D5"
definition vga_ctrl_cursor_loc_high_idx :: u8 where "vga_ctrl_cursor_loc_high_idx = 0xE"
definition vga_ctrl_cursor_loc_low_idx :: u8 where "vga_ctrl_cursor_loc_low_idx = 0xF"

text \<open>The ports of the display controller, and a byte written through the segment register \<^verbatim>\<open>GS\<close>.\<close>

definition vga_out :: "u16 \<Rightarrow> u8 \<Rightarrow> video \<Rightarrow> video" where
  "vga_out port b v =
     (if port = vga_ctrl_addr_port then v\<lparr>vd_idx := b\<rparr>
      else if port = vga_ctrl_data_port then v\<lparr>vd_reg := (vd_reg v)(vd_idx v := b)\<rparr> else v)"

definition vga_in :: "u16 \<Rightarrow> video \<Rightarrow> u8" where
  "vga_in port v = (if port = vga_ctrl_addr_port then vd_idx v else vd_reg v (vd_idx v))"

definition video_seg_size :: u16 where "video_seg_size = 0x8000"

definition video_put :: "u16 \<Rightarrow> u8 \<Rightarrow> video \<Rightarrow> video option" where
  "video_put off b v = do { Assert (off < video_seg_size); Some (v\<lparr>vd_mem := (vd_mem v)(off := b)\<rparr>) }"

definition GetCursorPos :: "video \<Rightarrow> u16 \<times> video" where
  "GetCursorPos v =
     (let v = vga_out vga_ctrl_addr_port vga_ctrl_cursor_loc_high_idx v;
          high = vga_in vga_ctrl_data_port v;
          v = vga_out vga_ctrl_addr_port vga_ctrl_cursor_loc_low_idx v;
          low = vga_in vga_ctrl_data_port v
      in (CombineBytes high low, v))"

definition SetCursorPos :: "u16 \<Rightarrow> video \<Rightarrow> video" where
  "SetCursorPos pos v =
     (let v = vga_out vga_ctrl_addr_port vga_ctrl_cursor_loc_high_idx v;
          v = vga_out vga_ctrl_data_port (GetHighByte pos) v;
          v = vga_out vga_ctrl_addr_port vga_ctrl_cursor_loc_low_idx v
      in vga_out vga_ctrl_data_port (GetLowByte pos) v)"

section \<open>Printing characters\<close>

text \<open>
  The loops that move the lines up (\<^verbatim>\<open>rep movsw\<close> from the cell \<open>i + 80\<close> to the cell \<open>i\<close>) and blank the last line, which keeps
  its colours.
\<close>

fun roll_words :: "nat \<Rightarrow> nat \<Rightarrow> video \<Rightarrow> video" where
  "roll_words i 0 v = v"
| "roll_words i (Suc n) v =
     (let src = of_nat (2 * (i + text_screen_width)); dst = of_nat (2 * i)
      in roll_words (Suc i) n
           (v\<lparr>vd_mem := (vd_mem v)(dst := vd_mem v src, dst + 1 := vd_mem v (src + 1))\<rparr>))"

fun fill_blank :: "u16 \<Rightarrow> nat \<Rightarrow> video \<Rightarrow> video option" where
  "fill_blank off 0 v = Some v"
| "fill_blank off (Suc n) v = do { v \<leftarrow> video_put off (of_char (CHR '' '')) v; fill_blank (off + 2) n v }"

definition roll_screen :: "video \<Rightarrow> (u16 \<times> video) option" where
  "roll_screen v = do {
     let cells = text_screen_width * (text_screen_height - 1);
     let v = roll_words 0 cells v;
     v \<leftarrow> fill_blank (of_nat (cells * 2)) text_screen_width v;
     Some (of_nat cells, v)
   }"

text \<open>
  The position \<open>bx\<close> after a line feed or carriage return; the comparison \<^verbatim>\<open>jl\<close> is signed.
\<close>

definition line_feed :: "u16 \<Rightarrow> video \<Rightarrow> (u16 \<times> video) option" where
  "line_feed bx v = do {
     let bx = bx - bx mod of_nat text_screen_width + of_nat text_screen_width;
     if sint bx < int (text_screen_width * text_screen_height) then Some (bx, v) else roll_screen v
   }"

definition print_at :: "char \<Rightarrow> u16 \<Rightarrow> video \<Rightarrow> (u16 \<times> video) option" where
  "print_at ch bx v =
     (if ch = CHR 0x0D \<or> ch = CHR 0x0A then line_feed bx v
      else if ch = CHR 0x08 then do {
        let bx = push_bit 1 (bx - 1);
        v \<leftarrow> video_put bx (of_char (CHR '' '')) v;
        Some (drop_bit 1 bx, v)
      } else do {
        let bx = push_bit 1 bx;
        v \<leftarrow> video_put bx (of_char ch) v;
        let bx = drop_bit 1 bx + 1;
        if sint bx < int (text_screen_width * text_screen_height) then Some (bx, v) else line_feed bx v
      })"

definition PrintChar_at :: "char \<Rightarrow> video \<Rightarrow> video option" where
  "PrintChar_at ch v = do {
     let (bx, v) = GetCursorPos v;
     (bx, v) \<leftarrow> print_at ch bx v;
     Some (SetCursorPos bx v)
   }"

fun print_space :: "nat \<Rightarrow> video \<Rightarrow> video option" where
  "print_space 0 v = Some v"
| "print_space (Suc n) v = do { v \<leftarrow> PrintChar_at (CHR '' '') v; print_space n v }"

definition PrintChar :: "char \<Rightarrow> video \<Rightarrow> video option" where
  "PrintChar ch v = (if ch = CHR 0x09 then print_space tab_width v else PrintChar_at ch v)"

section \<open>Strings and numbers\<close>

fun PrintStr :: "char list \<Rightarrow> video \<Rightarrow> video option" where
  "PrintStr [] v = None"
| "PrintStr (c # str) v = (if c = NUL then Some v else do { v \<leftarrow> PrintChar c v; PrintStr str v })"

text \<open>The eight digits of a number in the buffer of \<^verbatim>\<open>PrintHex\<close>, from the last one on.\<close>

definition hex_char :: "u32 \<Rightarrow> char" where
  "hex_char d = (if d > 9 then char_of (unat (d - 0xA + of_char (CHR ''A''))) else char_of (unat (d + of_char (CHR ''0''))))"

fun read_digits :: "nat \<Rightarrow> u32 \<Rightarrow> char list \<Rightarrow> char list" where
  "read_digits 0 n buf = buf"
| "read_digits (Suc k) n buf = read_digits k (drop_bit 4 n) (buf[k := hex_char (and n 0xF)])"

text \<open>The first digit that is printed: \<open>k\<close> is the number of digits that may still be skipped from index \<open>i\<close> on.\<close>

fun skip_prefix_0 :: "char list \<Rightarrow> nat \<Rightarrow> nat \<Rightarrow> nat" where
  "skip_prefix_0 buf i 0 = i - 1"
| "skip_prefix_0 buf i (Suc k) = (if buf ! i = CHR ''0'' then skip_prefix_0 buf (Suc i) k else i)"

fun print_digits :: "char list \<Rightarrow> video \<Rightarrow> video option" where
  "print_digits [] v = Some v"
| "print_digits (c # cs) v = do { v \<leftarrow> PrintChar c v; print_digits cs v }"

definition PrintHex :: "u32 \<Rightarrow> video \<Rightarrow> video option" where
  "PrintHex n v =
     (let buf = read_digits 8 n (replicate 8 NUL) in print_digits (drop (skip_prefix_0 buf 0 8) buf) v)"

definition PrintStr_view :: "string_view \<Rightarrow> video \<Rightarrow> video option" where
  "PrintStr_view str v = (if \<not> sv_empty str then do { s \<leftarrow> sv_str str; PrintStr s v } else Some v)"

definition PrintlnStr :: "string_view \<Rightarrow> video \<Rightarrow> video option" where
  "PrintlnStr str v = do { v \<leftarrow> PrintStr_view str v; PrintChar (CHR 0x0A) v }"

definition PrintHex_int :: "u32 \<Rightarrow> video \<Rightarrow> video option" where
  "PrintHex_int num v =
     (if sint num \<ge> 0 then PrintHex num v
      else do { v \<leftarrow> PrintChar (CHR ''-'') v; PrintHex (- num) v })"

definition PrintlnHex_int :: "u32 \<Rightarrow> video \<Rightarrow> video option" where
  "PrintlnHex_int num v = do { v \<leftarrow> PrintHex_int num v; PrintChar (CHR 0x0A) v }"

definition PrintlnChar :: "char \<Rightarrow> video \<Rightarrow> video option" where
  "PrintlnChar ch v = do { v \<leftarrow> PrintChar ch v; PrintChar (CHR 0x0A) v }"

definition PrintlnHex :: "u32 \<Rightarrow> video \<Rightarrow> video option" where
  "PrintlnHex num v = do { v \<leftarrow> PrintHex num v; PrintChar (CHR 0x0A) v }"

section \<open>Formatted printing\<close>

fun Print :: "fmt_arg \<Rightarrow> video \<Rightarrow> video option" where
  "Print (FmtUInt num) v = PrintHex num v"
| "Print (FmtInt num) v = PrintHex_int num v"
| "Print (FmtChar ch) v = PrintChar ch v"
| "Print (FmtStr str) v = PrintStr str v"
| "Print (FmtView str) v = PrintStr_view str v"

text \<open>
  The loop of \<^verbatim>\<open>_printf_impl::Printf\<close> up to the first placeholder, whose position it returns, with \<open>n\<close> characters left.
\<close>

fun Printf_scan :: "string_view \<Rightarrow> nat \<Rightarrow> nat \<Rightarrow> video \<Rightarrow> (nat option \<times> video) option" where
  "Printf_scan f i 0 v = Some (None, v)"
| "Printf_scan f i (Suc n) v = do {
     found \<leftarrow> placeholder_at f i;
     if found then Some (Some i, v)
     else do { c \<leftarrow> sv_at f i; v \<leftarrow> Print (FmtChar c) v; Printf_scan f (Suc i) n v }
   }"

fun Printf_impl :: "fmt_arg list \<Rightarrow> string_view \<Rightarrow> video \<Rightarrow> video option" where
  "Printf_impl [] f v = PrintStr_view f v"
| "Printf_impl (arg # args) f v = do {
     (found, v) \<leftarrow> Printf_scan f 0 (sv_len f) v;
     case found of
       None \<Rightarrow> Some v
     | Some i \<Rightarrow> do { v \<leftarrow> Print arg v; Printf_impl args (sv_substr f (i + 2) npos) v }
   }"

definition Printf :: "string_view \<Rightarrow> fmt_arg list \<Rightarrow> video \<Rightarrow> video option" where
  "Printf f args v = do { Assert (\<not> sv_empty f); Printf_impl args f v }"

section \<open>The console\<close>

definition Console_PrintlnStr :: "string_view \<Rightarrow> video \<Rightarrow> video option" where
  "Console_PrintlnStr str v = PrintlnStr str v"

definition Console_PrintStr_view :: "string_view \<Rightarrow> video \<Rightarrow> video option" where
  "Console_PrintStr_view str v = PrintStr_view str v"

definition Console_PrintlnChar :: "char \<Rightarrow> video \<Rightarrow> video option" where
  "Console_PrintlnChar ch v = PrintlnChar ch v"

definition Console_PrintlnHex :: "u32 \<Rightarrow> video \<Rightarrow> video option" where
  "Console_PrintlnHex num v = PrintlnHex num v"

definition Console_PrintlnHex_int :: "u32 \<Rightarrow> video \<Rightarrow> video option" where
  "Console_PrintlnHex_int num v = PrintlnHex_int num v"

definition Console_PrintChar :: "char \<Rightarrow> video \<Rightarrow> video option" where
  "Console_PrintChar ch v = PrintChar ch v"

definition Console_PrintStr :: "char list \<Rightarrow> video \<Rightarrow> video option" where
  "Console_PrintStr str v = PrintStr str v"

definition Console_PrintHex :: "u32 \<Rightarrow> video \<Rightarrow> video option" where
  "Console_PrintHex num v = PrintHex num v"

definition Console_PrintHex_int :: "u32 \<Rightarrow> video \<Rightarrow> video option" where
  "Console_PrintHex_int num v = PrintHex_int num v"

definition Console_Printf :: "string_view \<Rightarrow> fmt_arg list \<Rightarrow> video \<Rightarrow> video option" where
  "Console_Printf f args v = Printf f args v"

text \<open>
  \<^verbatim>\<open>Console::Read\<close> from position \<open>i\<close> on with \<open>n\<close> characters left, each \<^verbatim>\<open>Pop\<close> from the point where it has found the
  keyboard buffer not empty (the waiting before it is a step of the theory \<open>BlockQueues\<close>).
\<close>

fun Console_Read_loop ::
    "nat \<Rightarrow> nat \<Rightarrow> char list \<Rightarrow> char block_queue \<Rightarrow> sched \<Rightarrow> (char list \<times> char block_queue \<times> sched) option" where
  "Console_Read_loop i 0 buf q k = Some (buf, q, k)"
| "Console_Read_loop i (Suc n) buf q k = do {
     (c, q, k) \<leftarrow> BlockQueue_Pop q k;
     buf \<leftarrow> put_char buf i c;
     Console_Read_loop (Suc i) n buf q k
   }"

definition Console_Read ::
    "char list \<Rightarrow> nat \<Rightarrow> char block_queue \<Rightarrow> sched \<Rightarrow> (char list \<times> char block_queue \<times> sched) option" where
  "Console_Read buf count q k = Console_Read_loop 0 count buf q k"

section \<open>Cells\<close>

text \<open>The character and the colour of a cell of the screen, and the position of the cursor.\<close>

definition cell :: "video \<Rightarrow> nat \<Rightarrow> u8" where "cell v i = vd_mem v (of_nat (2 * i))"
definition colour :: "video \<Rightarrow> nat \<Rightarrow> u8" where "colour v i = vd_mem v (of_nat (2 * i + 1))"
definition cursor :: "video \<Rightarrow> u16" where "cursor v = CombineBytes (vd_reg v 0xE) (vd_reg v 0xF)"

lemmas vga_defs = vga_ctrl_addr_port_def vga_ctrl_data_port_def vga_ctrl_cursor_loc_high_idx_def
  vga_ctrl_cursor_loc_low_idx_def vga_out_def vga_in_def
lemmas screen_defs = text_screen_width_def text_screen_height_def

lemma GetCursorPos_eq: "GetCursorPos v = (cursor v, v\<lparr>vd_idx := 0xF\<rparr>)"
  by (simp add: GetCursorPos_def cursor_def vga_defs Let_def)

lemma SetCursorPos_eq:
  "SetCursorPos p v = v\<lparr>vd_idx := 0xF, vd_reg := (vd_reg v)(0xE := GetHighByte p, 0xF := GetLowByte p)\<rparr>"
  by (simp add: SetCursorPos_def vga_defs Let_def)

lemma SetCursorPos_simps [simp]:
  "cursor (SetCursorPos p v) = p" "cell (SetCursorPos p v) = cell v" "colour (SetCursorPos p v) = colour v"
  by (simp_all add: SetCursorPos_eq cursor_def cell_def colour_def fun_eq_iff)

lemma idx_simps [simp]: "cell (v\<lparr>vd_idx := i\<rparr>) = cell v" "colour (v\<lparr>vd_idx := i\<rparr>) = colour v"
  by (simp_all add: cell_def colour_def fun_eq_iff)

lemma unat_u16 [simp]: "m < 65536 \<Longrightarrow> unat (of_nat m :: u16) = m"
  by (simp add: unat_of_nat take_bit_nat_eq_self)

lemma of_nat_u16_inj: "m < 65536 \<Longrightarrow> k < 65536 \<Longrightarrow> (of_nat m :: u16) = of_nat k \<longleftrightarrow> m = k"
  using unat_u16 by metis

lemma u16_of_unat: "unat x = k \<Longrightarrow> x = of_nat k" for x :: u16
  by auto

lemma sint_u16: "m < 32768 \<Longrightarrow> sint (of_nat m :: u16) = int m"
  by (simp add: sint_uint uint_nat signed_take_bit_int_eq_self)

text \<open>Moving the lines up, and blanking the last one.\<close>

lemma roll_words_mem:
  "i + n \<le> 1920 \<Longrightarrow> m < 65536 \<Longrightarrow>
   vd_mem (roll_words i n v) (of_nat m) =
     (if 2 * i \<le> m \<and> m < 2 * (i + n) then vd_mem v (of_nat (m + 160)) else vd_mem v (of_nat m))"
proof (induction n arbitrary: i v)
  case (Suc n)
  let ?w = "v\<lparr>vd_mem := (vd_mem v)(of_nat (2 * i) := vd_mem v (of_nat (2 * i + 160)),
              of_nat (2 * i + 1) := vd_mem v (of_nat (2 * i + 161)))\<rparr>"
  have w: "vd_mem ?w (of_nat k) = (if k = 2 * i \<or> k = 2 * i + 1 then vd_mem v (of_nat (k + 160)) else vd_mem v (of_nat k))"
    if "k < 65536" for k using that Suc.prems(1) of_nat_u16_inj [of k "2 * i"] of_nat_u16_inj [of k "2 * i + 1"] by (auto simp: algebra_simps)
  have "roll_words i (Suc n) v = roll_words (Suc i) n ?w"
    by (simp add: screen_defs Let_def algebra_simps)
  with Suc.IH [of "Suc i" ?w] Suc.prems w [of m] w [of "m + 160"] show ?case by auto
qed auto

lemma roll_words_regs: "vd_reg (roll_words i n v) = vd_reg v"
  by (induction n arbitrary: i v) (simp_all add: Let_def)

lemma fill_blank_mem:
  "off + 2 * n \<le> 32768 \<Longrightarrow> \<exists>v'. fill_blank (of_nat off) n v = Some v' \<and> vd_reg v' = vd_reg v \<and>
     (\<forall>m < 65536. vd_mem v' (of_nat m) =
        (if off \<le> m \<and> m < off + 2 * n \<and> even (m - off) then of_char (CHR '' '') else vd_mem v (of_nat m)))"
proof (induction n arbitrary: off v)
  case (Suc n)
  let ?w = "v\<lparr>vd_mem := (vd_mem v)(of_nat off := of_char (CHR '' ''))\<rparr>"
  have "video_put (of_nat off) (of_char (CHR '' '')) v = Some ?w"
    using Suc.prems by (simp add: video_put_def video_seg_size_def word_less_nat_alt)
  moreover obtain v' where v': "fill_blank (of_nat (off + 2)) n ?w = Some v'" "vd_reg v' = vd_reg ?w"
    "\<forall>m < 65536. vd_mem v' (of_nat m) =
       (if off + 2 \<le> m \<and> m < off + 2 + 2 * n \<and> even (m - (off + 2)) then of_char (CHR '' '') else vd_mem ?w (of_nat m))"
    using Suc.IH [of "off + 2" ?w] Suc.prems by auto
  moreover have "vd_mem v' (of_nat m) =
      (if off \<le> m \<and> m < off + 2 * Suc n \<and> even (m - off) then of_char (CHR '' '') else vd_mem v (of_nat m))"
    if "m < 65536" for m
  proof -
    have "vd_mem ?w (of_nat m) = (if m = off then of_char (CHR '' '') else vd_mem v (of_nat m))"
      using of_nat_u16_inj [OF that, of off] Suc.prems by simp
    moreover have "off + 2 \<le> m \<and> m < off + 2 + 2 * n \<and> even (m - (off + 2)) \<or> m = off \<longleftrightarrow>
        off \<le> m \<and> m < off + 2 * Suc n \<and> even (m - off)" by presburger
    ultimately show ?thesis using v'(3) that by auto
  qed
  ultimately show ?case by (simp add: add.commute)
qed auto

lemma roll_screen_ok:
  obtains v' where "roll_screen v = Some (of_nat 1920, v')" "vd_reg v' = vd_reg v"
    "\<And>i. i < 2000 \<Longrightarrow> cell v' i = (if i < 1920 then cell v (i + 80) else of_char (CHR '' ''))"
    "\<And>i. i < 2000 \<Longrightarrow> colour v' i = (if i < 1920 then colour v (i + 80) else colour v i)"
proof -
  let ?w = "roll_words 0 1920 v"
  obtain v' where v': "fill_blank (of_nat 3840) 80 ?w = Some v'" "vd_reg v' = vd_reg ?w"
    "\<forall>m < 65536. vd_mem v' (of_nat m) =
       (if 3840 \<le> m \<and> m < 3840 + 2 * 80 \<and> even (m - 3840) then of_char (CHR '' '') else vd_mem ?w (of_nat m))"
    using fill_blank_mem [of 3840 80 ?w] by auto
  show thesis
  proof (rule that [of v'])
    show "roll_screen v = Some (of_nat 1920, v')" using v'(1) by (simp add: roll_screen_def screen_defs Let_def)
    show "vd_reg v' = vd_reg v" using v'(2) by (simp add: roll_words_regs)
    fix i :: nat assume i: "i < 2000"
    show "cell v' i = (if i < 1920 then cell v (i + 80) else of_char (CHR '' ''))"
      using i v'(3) [rule_format, of "2 * i"] roll_words_mem [of 0 1920 "2 * i" v]
      by (auto simp: cell_def algebra_simps)
    show "colour v' i = (if i < 1920 then colour v (i + 80) else colour v i)"
      using i v'(3) [rule_format, of "2 * i + 1"] roll_words_mem [of 0 1920 "2 * i + 1" v]
      by (auto simp: colour_def algebra_simps)
  qed
qed

section \<open>The terminal\<close>

text \<open>
  The specification: the characters of the screen row by row and the position of the cursor. A backspace in the first cell has
  no result.
\<close>

type_synonym terminal = "u8 list \<times> nat"

definition scroll :: "u8 list \<Rightarrow> u8 list" where
  "scroll cs = drop text_screen_width cs @ replicate text_screen_width (of_char (CHR '' ''))"

definition screen_cells :: nat where "screen_cells = text_screen_width * text_screen_height"

fun term_move :: "nat \<Rightarrow> terminal \<Rightarrow> terminal" where
  "term_move pos (cs, _) =
     (if pos < screen_cells then (cs, pos) else (scroll cs, screen_cells - text_screen_width))"

fun term_char :: "char \<Rightarrow> terminal \<Rightarrow> terminal option" where
  "term_char ch (cs, p) =
     (if ch = CHR 0x0D \<or> ch = CHR 0x0A then Some (term_move ((p div text_screen_width + 1) * text_screen_width) (cs, p))
      else if ch = CHR 0x08 then
        (if p = 0 then None else Some (cs[p - 1 := of_char (CHR '' '')], p - 1))
      else Some (term_move (p + 1) (cs[p := of_char ch], p)))"

fun term_put :: "char list \<Rightarrow> terminal \<Rightarrow> terminal option" where
  "term_put [] t = Some t"
| "term_put (c # cs) t =
     (if c = CHR 0x09 then Option.bind (term_char (CHR '' '') t) (term_char (CHR '' ''))
      else term_char c t) \<bind> term_put cs"

definition terminal :: "video \<Rightarrow> terminal" where
  "terminal v = (map (cell v) [0..<screen_cells], unat (cursor v))"

definition screen_ok :: "video \<Rightarrow> bool" where
  "screen_ok v \<longleftrightarrow> unat (cursor v) < screen_cells"

lemma screen_cells: "screen_cells = 2000"
  by (simp add: screen_cells_def screen_defs)

lemma terminal_eqI:
  assumes "length cs = 2000" "\<And>i. i < 2000 \<Longrightarrow> cell v i = cs ! i" "unat (cursor v) = p"
  shows "terminal v = (cs, p)"
  using assms by (auto simp: terminal_def screen_cells intro: nth_equalityI)

lemma video_put_cell:
  assumes "i < 2000"
  shows "\<exists>v'. video_put (of_nat (2 * i)) b v = Some v' \<and> vd_reg v' = vd_reg v \<and>
    (\<forall>j < 2000. cell v' j = (if j = i then b else cell v j) \<and> colour v' j = colour v j)"
proof -
  let ?w = "v\<lparr>vd_mem := (vd_mem v)(of_nat (2 * i) := b)\<rparr>"
  have "video_put (of_nat (2 * i)) b v = Some ?w"
    using assms by (simp add: video_put_def video_seg_size_def word_less_nat_alt del: of_nat_mult)
  moreover have "cell ?w j = (if j = i then b else cell v j)" "colour ?w j = colour v j" if "j < 2000" for j
    using that assms of_nat_u16_inj [of "2 * j" "2 * i"] of_nat_u16_inj [of "2 * j + 1" "2 * i"]
    by (auto simp: cell_def colour_def simp del: of_nat_mult of_nat_add)
  ultimately show ?thesis by (intro exI [of _ ?w]) simp
qed

text \<open>Going to a position, rolling the screen when it is behind the last cell.\<close>

lemma roll_terminal:
  obtains v' where "roll_screen v = Some (of_nat 1920, v')" "vd_reg v' = vd_reg v"
    "map (cell v') [0..<2000] = scroll (map (cell v) [0..<2000])"
proof -
  obtain v' where v': "roll_screen v = Some (of_nat 1920, v')" "vd_reg v' = vd_reg v"
    "\<And>i. i < 2000 \<Longrightarrow> cell v' i = (if i < 1920 then cell v (i + 80) else of_char (CHR '' ''))"
    using roll_screen_ok [of v] by blast
  have "map (cell v') [0..<2000] = scroll (map (cell v) [0..<2000])"
  proof (rule nth_equalityI)
    fix i assume "i < length (map (cell v') [0..<2000])"
    then have i: "i < 2000" by simp
    show "map (cell v') [0..<2000] ! i = scroll (map (cell v) [0..<2000]) ! i"
      using i v'(3) [OF i] by (auto simp: scroll_def screen_defs nth_append add.commute)
  qed (simp add: scroll_def screen_defs)
  with v' that show thesis by blast
qed

lemma line_feed_ok:
  assumes "c \<le> 2000"
  obtains v' q where "line_feed (of_nat c) v = Some (q, v')" "vd_reg v' = vd_reg v" "unat q < 2000"
    "(map (cell v') [0..<2000], unat q) = term_move ((c div 80 + 1) * 80) (map (cell v) [0..<2000], p)"
proof -
  define n where "n = (c div 80 + 1) * 80"
  have dm: "c div 80 * 80 + c mod 80 = c" by simp
  have "n = c div 80 * 80 + 80" by (simp add: n_def)
  with dm have b2: "n = c - c mod 80 + 80" by linarith
  then have b: "n \<le> 2080" using assms by auto
  have "unat (of_nat c mod 80 :: u16) = c mod 80" using assms by (simp add: unat_mod)
  then have "(of_nat c mod 80 :: u16) = of_nat (c mod 80)" by (rule u16_of_unat)
  then have q: "(of_nat c :: u16) - of_nat c mod 80 + 80 = of_nat n"
    unfolding b2 by (simp add: of_nat_diff)
  have run: "line_feed (of_nat c) v = (if n < 2000 then Some (of_nat n, v) else roll_screen v)"
    using b sint_u16 [of n] q by (simp add: line_feed_def screen_defs Let_def)
  note res = that [folded n_def]
  show thesis
  proof (cases "n < 2000")
    case True
    show thesis
      by (rule res [of "of_nat n" v]) (use True run b in \<open>simp_all add: screen_cells\<close>)
  next
    case False
    obtain v' where v': "roll_screen v = Some (of_nat 1920, v')" "vd_reg v' = vd_reg v"
      "map (cell v') [0..<2000] = scroll (map (cell v) [0..<2000])" by (rule roll_terminal)
    show thesis
      by (rule res [of "of_nat 1920" v'])
        (use False run v' in \<open>simp_all add: screen_cells text_screen_width_def\<close>)
  qed
qed

lemma print_at_ok:
  assumes "c < 2000"
  shows "case term_char ch (map (cell v) [0..<2000], c) of
      None \<Rightarrow> print_at ch (of_nat c) v = None
    | Some t \<Rightarrow> \<exists>q v'. print_at ch (of_nat c) v = Some (q, v') \<and> vd_reg v' = vd_reg v \<and> unat q < 2000 \<and>
        (map (cell v') [0..<2000], unat q) = t"
proof -
  have dbl: "push_bit 1 (of_nat k :: u16) = of_nat (2 * k)" "drop_bit 1 (of_nat (2 * k) :: u16) = of_nat k"
    if "k < 2000" for k
  proof -
    show "push_bit 1 (of_nat k :: u16) = of_nat (2 * k)" by (simp add: push_bit_eq_mult mult.commute)
    have "unat (drop_bit 1 (of_nat (2 * k) :: u16)) = k"
      using that by (simp add: drop_bit_eq_div unat_div del: of_nat_mult)
    then show "drop_bit 1 (of_nat (2 * k) :: u16) = of_nat k" by (rule u16_of_unat)
  qed
  have upd: "map (cell w) [0..<2000] = (map (cell v) [0..<2000])[k := b]"
    if "\<forall>j < 2000. cell w j = (if j = k then b else cell v j) \<and> colour w j = colour v j" for w k b
    using that by (intro nth_equalityI) (auto simp: nth_list_update)
  consider (feed) "ch = CHR 0x0D \<or> ch = CHR 0x0A" | (home) "ch = CHR 0x08" "c = 0" | (erase) "ch = CHR 0x08" "c \<noteq> 0"
    | (other) "ch \<noteq> CHR 0x0D" "ch \<noteq> CHR 0x0A" "ch \<noteq> CHR 0x08" by blast
  then show ?thesis
  proof cases
    case feed
    obtain v' q where "line_feed (of_nat c) v = Some (q, v')" "vd_reg v' = vd_reg v" "unat q < 2000"
      "(map (cell v') [0..<2000], unat q) = term_move ((c div 80 + 1) * 80) (map (cell v) [0..<2000], c)"
      by (rule line_feed_ok [of c v c]) (use assms in simp_all)
    with feed show ?thesis by (auto simp: print_at_def screen_defs)
  next
    case home
    then show ?thesis
      by (simp add: print_at_def video_put_def video_seg_size_def Assert_def Let_def)
  next
    case erase
    let ?k = "c - 1"
    have k: "?k < 2000" "(of_nat c - 1 :: u16) = of_nat ?k" using assms erase(2) by (simp_all add: of_nat_diff)
    obtain w where w: "video_put (of_nat (2 * ?k)) (of_char (CHR '' '')) v = Some w" "vd_reg w = vd_reg v"
      "\<forall>j < 2000. cell w j = (if j = ?k then of_char (CHR '' '') else cell v j) \<and> colour w j = colour v j"
      using video_put_cell [OF k(1)] by blast
    have "print_at ch (of_nat c) v = Some (of_nat ?k, w)"
      using erase(1) w(1) by (simp only: print_at_def k(2) dbl(1) [OF k(1)]) (simp add: Let_def dbl(2) [OF k(1)] del: of_nat_mult One_nat_def)
    moreover have "unat (of_nat ?k :: u16) = ?k" using k(1) by simp
    ultimately show ?thesis using erase k(1) w(2) upd [OF w(3)] by (simp del: of_nat_diff)
  next
    case other
    obtain w where w: "video_put (of_nat (2 * c)) (of_char ch) v = Some w" "vd_reg w = vd_reg v"
      "\<forall>j < 2000. cell w j = (if j = c then of_char ch else cell v j) \<and> colour w j = colour v j"
      using video_put_cell [OF assms] by blast
    have sc: "(of_nat c + 1 :: u16) = of_nat (Suc c)" by simp
    have run: "print_at ch (of_nat c) v =
        (if Suc c < 2000 then Some (of_nat (Suc c), w) else line_feed (of_nat (Suc c)) w)"
      using other w(1) assms sint_u16 [of "Suc c"]
      by (simp only: print_at_def dbl(1) [OF assms])
        (simp add: Let_def dbl(2) [OF assms] sc screen_defs del: of_nat_mult of_nat_Suc One_nat_def)
    show ?thesis
    proof (cases "Suc c < 2000")
      case True
      with run other w(2) upd [OF w(3)] show ?thesis by (auto simp: screen_cells simp del: of_nat_Suc)
    next
      case False
      then have c: "Suc c = 2000" using assms by simp
      obtain v' q where "line_feed (of_nat 2000) w = Some (q, v')" "vd_reg v' = vd_reg w" "unat q < 2000"
        "(map (cell v') [0..<2000], unat q) = term_move ((2000 div 80 + 1) * 80) (map (cell w) [0..<2000], c)"
        by (rule line_feed_ok [of 2000 w c]) simp_all
      with run other w(2) upd [OF w(3)] c show ?thesis by (auto simp: screen_cells simp del: of_nat_Suc)
    qed
  qed
qed

lemma PrintChar_at_ok:
  assumes "screen_ok v"
  shows "map_option terminal (PrintChar_at ch v) = term_char ch (terminal v)"
    "PrintChar_at ch v = Some v' \<Longrightarrow> screen_ok v'"
proof -
  let ?w = "v\<lparr>vd_idx := 0xF\<rparr>" and ?c = "unat (cursor v)"
  have c: "?c < 2000" "of_nat ?c = cursor v" using assms by (simp_all add: screen_ok_def screen_cells)
  note p = print_at_ok [OF c(1), of ch ?w, unfolded c(2)]
  have t: "terminal v = (map (cell ?w) [0..<2000], ?c)" by (simp add: terminal_def screen_cells)
  have run: "PrintChar_at ch v = map_option (\<lambda>(bx, v). SetCursorPos bx v) (print_at ch (cursor v) ?w)"
    by (cases "print_at ch (cursor v) ?w") (auto simp: PrintChar_at_def GetCursorPos_eq split: prod.splits)
  show "map_option terminal (PrintChar_at ch v) = term_char ch (terminal v)"
    using p unfolding run t by (auto simp: terminal_def screen_cells simp del: term_char.simps split: option.splits)
  show "screen_ok v'" if "PrintChar_at ch v = Some v'"
    using p that unfolding run by (auto simp: screen_ok_def screen_cells simp del: term_char.simps split: option.splits)
qed

text \<open>Printing a text, character by character.\<close>

fun print_text :: "char list \<Rightarrow> video \<Rightarrow> video option" where
  "print_text [] v = Some v"
| "print_text (c # cs) v = PrintChar c v \<bind> print_text cs"

lemma print_text_append: "print_text (xs @ ys) v = print_text xs v \<bind> print_text ys"
  by (induction xs arbitrary: v) (simp_all cong: Option.bind_cong)

lemma PrintStr_text: "NUL \<in> set str \<Longrightarrow> PrintStr str v = print_text (cstr str) v"
  by (induction str arbitrary: v) (auto simp: cstr_def intro: Option.bind_cong)

lemma print_digits_text: "print_digits cs v = print_text cs v"
  by (induction cs arbitrary: v) (auto intro: Option.bind_cong)

lemma bind_terminal:
  assumes "map_option terminal x = y" "\<And>v. x = Some v \<Longrightarrow> map_option terminal (f v) = g (terminal v)"
  shows "map_option terminal (x \<bind> f) = y \<bind> g"
  using assms by (cases x) auto

lemma bind_term_put_Nil [simp]: "x \<bind> term_put [] = x"
  by (cases x) simp_all

lemma PrintChar_ok:
  assumes "screen_ok v"
  shows "map_option terminal (PrintChar ch v) = term_put [ch] (terminal v)"
    "PrintChar ch v = Some v' \<Longrightarrow> screen_ok v'"
proof -
  let ?sp = "PrintChar_at (CHR '' '')"
  have tab: "PrintChar (CHR 0x09) v = ?sp v \<bind> ?sp"
    by (simp add: PrintChar_def tab_width_def numeral_2_eq_2 cong: Option.bind_cong)
  have "map_option terminal (?sp v \<bind> ?sp) = term_char (CHR '' '') (terminal v) \<bind> term_char (CHR '' '')"
    using PrintChar_at_ok [OF assms] by (intro bind_terminal) (auto intro: PrintChar_at_ok)
  then show "map_option terminal (PrintChar ch v) = term_put [ch] (terminal v)"
    using tab PrintChar_at_ok(1) [OF assms, of ch] by (cases "ch = CHR 0x09") (simp_all add: PrintChar_def)
  show "screen_ok v'" if "PrintChar ch v = Some v'"
  proof (cases "ch = CHR 0x09")
    case True
    with that tab obtain u where "?sp v = Some u" "?sp u = Some v'" by (auto simp: Option.bind_eq_Some_conv)
    then show ?thesis using PrintChar_at_ok(2) [OF assms] PrintChar_at_ok(2) by blast
  next
    case False
    with that PrintChar_at_ok(2) [OF assms] show ?thesis by (simp add: PrintChar_def)
  qed
qed

lemma term_put_append: "term_put (xs @ ys) t = term_put xs t \<bind> term_put ys"
  by (induction xs arbitrary: t) (simp_all cong: Option.bind_cong)

lemma print_text_ok:
  "screen_ok v \<Longrightarrow> map_option terminal (print_text cs v) = term_put cs (terminal v) \<and>
     (\<forall>v'. print_text cs v = Some v' \<longrightarrow> screen_ok v')"
proof (induction cs arbitrary: v)
  case (Cons c cs)
  have "map_option terminal (PrintChar c v \<bind> print_text cs) = term_put [c] (terminal v) \<bind> term_put cs"
    using PrintChar_ok [OF Cons.prems] Cons.IH by (intro bind_terminal) auto
  moreover have "screen_ok v'" if "print_text (c # cs) v = Some v'" for v'
    using that PrintChar_ok(2) [OF Cons.prems] Cons.IH by (auto simp: Option.bind_eq_Some_conv)
  ultimately show ?case using term_put_append [of "[c]" cs "terminal v"] by auto
qed simp

lemma term_put_total: "CHR 0x08 \<notin> set cs \<Longrightarrow> term_put cs t \<noteq> None"
proof (induction cs arbitrary: t)
  case (Cons c cs)
  have t: "\<exists>u'. term_char d u = Some u'" if "d \<noteq> CHR 0x08" for d u using that by (cases u) auto
  from Cons.prems have "c \<noteq> CHR 0x08" by auto
  from t [OF this] obtain u where u: "term_char c t = Some u" by blast
  obtain u' where u': "term_char (CHR '' '') t = Some u'" using t [of "CHR '' ''" t] by auto
  obtain w where "term_char (CHR '' '') u' = Some w" using t [of "CHR '' ''" u'] by auto
  with u u' Cons show ?case by (auto simp del: term_char.simps)
qed simp

section \<open>Numbers and formats\<close>

text \<open>The digits of a number with zeros in front.\<close>

fun padded :: "nat \<Rightarrow> nat \<Rightarrow> nat list" where
  "padded 0 m = []"
| "padded (Suc k) m = padded k (m div 16) @ [m mod 16]"

lemma hex_char_digit: "hex_char (and n 0xF) = digit_char (unat n mod 16)"
proof -
  have m: "and n 0xF = take_bit 4 n" by (simp add: take_bit_eq_mask mask_eq_exp_minus_1)
  have "unat (take_bit 4 n) = unat n mod 16" by (simp add: take_bit_eq_mod unat_mod)
  moreover have "hex_char d = digit_char (unat d)" if "unat d < 16" for d
  proof -
    have "d = of_nat (unat d)" by simp
    moreover have "unat d \<in> set [0..<16]" using that by simp
    moreover have "\<forall>k \<in> set [0..<16]. hex_char (of_nat k) = digit_char k" by code_simp
    ultimately show ?thesis by metis
  qed
  ultimately show ?thesis using m by simp
qed

lemma length_padded [simp]: "length (padded k m) = k"
  by (induction k arbitrary: m) simp_all

lemma read_digits_padded:
  "k \<le> length buf \<Longrightarrow> read_digits k n buf = map digit_char (padded k (unat n)) @ drop k buf"
proof (induction k arbitrary: n buf)
  case (Suc k)
  have "unat (drop_bit 4 n) = unat n div 16" by (simp add: drop_bit_eq_div unat_div)
  moreover have "drop k (buf[k := c]) = c # drop (Suc k) buf" for c
    using Suc.prems by (simp add: drop_update_cancel Cons_nth_drop_Suc [symmetric] drop_update_swap)
  ultimately show ?case using Suc by (simp add: hex_char_digit)
qed simp

lemma digits_padded:
  "m < 16 ^ Suc k \<Longrightarrow> digits 16 m = (let r = dropWhile (\<lambda>d. d = 0) (padded (Suc k) m) in if r = [] then [0] else r)"
proof (induction k arbitrary: m)
  case 0
  then show ?case by (subst digits.simps) simp
next
  case (Suc k)
  show ?case
  proof (cases "m < 16")
    case True
    have "padded k 0 = replicate k 0" for k by (induction k) (simp_all add: replicate_append_same)
    then have "dropWhile (\<lambda>d. d = 0) (padded (Suc k) 0) = []" by (simp del: padded.simps)
    then show ?thesis using True by (subst digits.simps) (simp add: Let_def dropWhile_append del: padded.simps(2) add: padded.simps(2) [of "Suc k"])
  next
    case False
    have "m div 16 < 16 ^ Suc k" using Suc.prems by (simp add: div_less_iff_less_mult)
    note ih = Suc.IH [OF this]
    have "digits 16 (m div 16) \<noteq> [0]" using digits_value [of 16 "m div 16"] False by (auto simp: digits_value_def)
    then have ne: "dropWhile (\<lambda>d. d = 0) (padded (Suc k) (m div 16)) \<noteq> []" using ih by (auto simp: Let_def split: if_splits)
    have "digits 16 m = digits 16 (m div 16) @ [m mod 16]" using False by (subst digits.simps) simp
    with ih ne show ?thesis
      by (simp add: Let_def dropWhile_append padded.simps(2) [of "Suc k"] del: padded.simps)
  qed
qed

lemma skip_prefix_drop:
  "i + k = length buf \<Longrightarrow> 0 < length buf \<Longrightarrow> (\<forall>j < i. buf ! j = CHR ''0'') \<Longrightarrow>
   drop (skip_prefix_0 buf i k) buf =
     (let r = dropWhile (\<lambda>c. c = CHR ''0'') (drop i buf) in if r = [] then [CHR ''0''] else r)"
proof (induction k arbitrary: i)
  case 0
  then have "drop (i - 1) buf = [buf ! (i - 1)]"
    using Cons_nth_drop_Suc [of "i - 1" buf] by simp
  with 0 show ?case by simp
next
  case (Suc k)
  have d: "drop i buf = buf ! i # drop (Suc i) buf" using Suc.prems by (simp add: Cons_nth_drop_Suc)
  show ?case
  proof (cases "buf ! i = CHR ''0''")
    case True
    then have "\<forall>j < Suc i. buf ! j = CHR ''0''" using Suc.prems(3) less_Suc_eq by auto
    with Suc.IH [of "Suc i"] Suc.prems True d show ?thesis by simp
  next
    case False
    with d show ?thesis by (simp add: Let_def)
  qed
qed

lemma digit_char_0: "d < 16 \<Longrightarrow> digit_char d = CHR ''0'' \<longleftrightarrow> d = 0"
proof -
  assume "d < 16"
  moreover have "\<forall>d \<in> set [0..<16]. digit_char d = CHR ''0'' \<longleftrightarrow> d = 0" by code_simp
  ultimately show ?thesis by simp
qed

lemma padded_less: "d \<in> set (padded k m) \<Longrightarrow> d < 16"
  by (induction k arbitrary: m) auto

lemma PrintHex_text: "PrintHex n v = print_text (map digit_char (digits 16 (unat n))) v"
proof -
  let ?p = "padded 8 (unat n)"
  let ?buf = "map digit_char ?p"
  have buf: "read_digits 8 n (replicate 8 NUL) = ?buf" using read_digits_padded [of 8 "replicate 8 NUL" n] by simp
  have dw: "dropWhile (\<lambda>c. c = CHR ''0'') (map digit_char ds) = map digit_char (dropWhile (\<lambda>d. d = 0) ds)"
    if "\<forall>d \<in> set ds. d < 16" for ds using that by (induction ds) (auto simp: digit_char_0)
  have "unat n < 16 ^ Suc 7" using unsigned_less [of n] by simp
  then have dp: "digits 16 (unat n) = (let r = dropWhile (\<lambda>d. d = 0) ?p in if r = [] then [0] else r)"
    using digits_padded [of "unat n" 7] by (simp del: padded.simps)
  have d0: "digit_char 0 = CHR ''0''" using digit_char_0 [of 0] by simp
  have "drop (skip_prefix_0 ?buf 0 8) ?buf =
      (let r = dropWhile (\<lambda>c. c = CHR ''0'') ?buf in if r = [] then [CHR ''0''] else r)"
    using skip_prefix_drop [of 0 8 ?buf] by simp
  also have "\<dots> = map digit_char (digits 16 (unat n))"
  proof -
    define r where "r = dropWhile (\<lambda>d. d = 0) ?p"
    have "dropWhile (\<lambda>c. c = CHR ''0'') ?buf = map digit_char r" using dw [of ?p] padded_less by (simp add: r_def)
    then show ?thesis unfolding dp r_def [symmetric] using d0 by (simp add: Let_def)
  qed
  finally have "drop (skip_prefix_0 ?buf 0 8) ?buf = map digit_char (digits 16 (unat n))" .
  then show ?thesis by (simp add: PrintHex_def buf print_digits_text)
qed

text \<open>What an argument of \<^verbatim>\<open>Printf\<close> prints: numbers are hexadecimal.\<close>

fun hex_arg :: "fmt_arg \<Rightarrow> fmt_arg" where
  "hex_arg (FmtUInt num) = FmtStr (map digit_char (digits 16 (unat num)) @ [NUL])"
| "hex_arg (FmtInt num) = FmtStr (int_text num 16 @ [NUL])"
| "hex_arg a = a"

lemma cstr_digits: "cstr (map digit_char (digits 16 m) @ [NUL]) = map digit_char (digits 16 m)"
proof -
  have "digit_char d \<noteq> NUL" if "d \<in> set (digits 16 m)" for d
    using digits_less [of 16 d m] that by (intro digit_char_not_NUL) simp
  then have "NUL \<notin> set (map digit_char (digits 16 m))" by (metis image_iff list.set_map)
  then show ?thesis using cstr_append_NUL by blast
qed

lemma cstr_int_text: "cstr (int_text num 16 @ [NUL]) = int_text num 16"
  using cstr_digits by (simp add: int_text_def cstr_def)

lemma Print_text: "arg_ok a \<Longrightarrow> Print a v = print_text (arg_text (hex_arg a)) v"
proof (cases a)
  case (FmtInt num)
  then show ?thesis
    by (auto simp: cstr_int_text PrintHex_int_def PrintHex_text) (auto simp: int_text_def cong: Option.bind_cong)
next
  case (FmtChar c)
  then show ?thesis by (cases "PrintChar c v") auto
qed (auto simp: cstr_digits PrintHex_text PrintStr_text PrintStr_view_def sv_empty_def split: option.splits)

lemma Printf_scan_text:
  assumes t: "sv_text f t"
    and cont: "\<And>j v. Suc j < length t \<Longrightarrow> k j v = print_text (arg_text a @ expand (drop (j + 2) t) as) v"
  shows "i + n = length t \<Longrightarrow>
    (do { (found, v) \<leftarrow> Printf_scan f i n v; case found of None \<Rightarrow> Some v | Some j \<Rightarrow> k j v }) =
      print_text (expand (drop i t) (a # as)) v"
proof (induction n arbitrary: i v)
  case (Suc n)
  then have i: "i < length t" and n: "Suc i + n = length t" by simp_all
  then have c: "sv_at f i = Some (t ! i)" using sv_text_at(1) [OF t _ i] by (cases t) auto
  show ?case
  proof (cases "t ! i = CHR ''{'' \<and> Suc i < length t \<and> t ! Suc i = CHR ''}''")
    case True
    then show ?thesis using placeholder_text [OF t i] expand_step [OF i, of a as] cont [of i] by simp
  next
    case False
    then have "placeholder_at f i = Some False" using placeholder_text [OF t i] by simp
    moreover have "expand (drop i t) (a # as) = t ! i # expand (drop (Suc i) t) (a # as)"
      using expand_step [OF i, of a as] False by auto
    ultimately show ?thesis using c Suc.IH [OF n] by (cases "PrintChar (t ! i) v") simp_all
  qed
qed simp

lemma Printf_impl_text:
  "sv_text f t \<Longrightarrow> length t < npos \<Longrightarrow> list_all arg_ok args \<Longrightarrow>
   Printf_impl args f v = print_text (expand t (map hex_arg args)) v"
proof (induction args arbitrary: f t v)
  case Nil
  then show ?case
    by (cases "t = []") (auto simp: PrintStr_view_def sv_empty_def sv_text_def PrintStr_text)
next
  case (Cons a as)
  have k: "(do { v \<leftarrow> Print a v; Printf_impl as (sv_substr f (j + 2) npos) v }) =
      print_text (arg_text (hex_arg a) @ expand (drop (j + 2) t) (map hex_arg as)) v" for j v
  proof -
    have "sv_text (sv_substr f (j + 2) npos) (drop (j + 2) t)" using Cons.prems by (intro sv_substr_text) simp_all
    from Cons.IH [OF this] Cons.prems Print_text [of a v] show ?thesis
      by (auto simp: print_text_append intro: Option.bind_cong)
  qed
  have "sv_len f = length t" using Cons.prems(1) by (simp add: sv_text_def)
  with Printf_scan_text [OF Cons.prems(1) k, where i = 0 and n = "length t"] show ?case by simp
qed

section \<open>Properties\<close>

text \<open>C35: Printing a text is what a terminal of 25 lines of 80 characters does: the characters on the screen and the cursor are
  those of the specification (line feeds, tabs, backspaces, scrolling at the end of the screen), the cursor stays on the
  screen, and the only text that faults is one with a backspace in the first cell; a text without backspaces is always printed.\<close>

theorem PrintStr_terminal:
  assumes "screen_ok v" and "NUL \<in> set str"
  shows "map_option terminal (PrintStr str v) = term_put (cstr str) (terminal v) \<and>
    (\<forall>v'. PrintStr str v = Some v' \<longrightarrow> screen_ok v') \<and> (CHR 0x08 \<notin> set (cstr str) \<longrightarrow> PrintStr str v \<noteq> None)"
  using print_text_ok [OF assms(1), of "cstr str"] term_put_total [of "cstr str" "terminal v"]
  unfolding PrintStr_text [OF assms(2)] by auto

text \<open>C36: \<^verbatim>\<open>Printf\<close> prints the expansion of the format text that \<^verbatim>\<open>FormatStringBuffer\<close> is specified by, with the numbers
  in hexadecimal: the same screen as printing this text.\<close>

theorem Printf_expands:
  assumes "sv_text f t" and "t \<noteq> []" and "length t < npos" and "list_all arg_ok args"
  shows "Printf f args v = print_text (expand t (map hex_arg args)) v"
  using Printf_impl_text [OF assms(1,3,4)] sv_text_empty [OF assms(1)] assms(2) by (simp add: Printf_def)

definition blank_video :: video where
  "blank_video = \<lparr>vd_idx = 0, vd_reg = (\<lambda>_. 0), vd_mem = (\<lambda>_. 0x20)\<rparr>"

lemma blank_ok: "screen_ok blank_video" "unat (cursor blank_video) = 0"
  by (simp_all add: screen_ok_def cursor_def blank_video_def screen_cells CombineBytes_def CombineBits_def)

theorem PrintStr_terminal_witness:
  "\<exists>v. PrintStr (''kernel'' @ [NUL]) blank_video = Some v \<and> screen_ok v"
  using PrintStr_terminal [OF blank_ok(1), of "''kernel'' @ [NUL]"] by (auto simp: cstr_def)

theorem Printf_expands_witness:
  "Printf \<lparr>sv_str = Some (''n={}.'' @ [NUL]), sv_len = 5\<rparr> [FmtUInt 255] blank_video = print_text ''n=FF.'' blank_video"
proof -
  have "digits 16 255 = [15, 15]" by (simp add: digits.simps)
  moreover have "digit_char 15 = CHR ''F''" by code_simp
  ultimately have "expand ''n={}.'' (map hex_arg [FmtUInt 255]) = ''n=FF.''" by (simp add: cstr_def)
  moreover have "sv_text \<lparr>sv_str = Some (''n={}.'' @ [NUL]), sv_len = 5\<rparr> ''n={}.''" by (simp add: sv_text_def cstr_def)
  ultimately show ?thesis
    using Printf_expands [of "\<lparr>sv_str = Some (''n={}.'' @ [NUL]), sv_len = 5\<rparr>" "''n={}.''" "[FmtUInt 255]" blank_video]
    by (simp add: npos_unfold)
qed

end
