(* ===== verification/Faults.thy ===== *)
theory Faults
  imports Interrupts Video
begin

text \<open>
  What the system shows when it stops: the default interrupt handler (\<^verbatim>\<open>interrupt/intr.cpp\<close>) and the panic of a failed
  assertion (\<^verbatim>\<open>debug/assert.cpp\<close>, \<^verbatim>\<open>stl/source_location.h\<close>). Both print a report and then loop forever, which is the outcome \<open>Spins\<close>
  with the state of the loop. The other theories abstract this to \<open>None\<close>.
\<close>

section \<open>Definitions\<close>

datatype 'a outcome = Returns 'a | Spins 'a

record source_location =
  sl_file :: "char list"
  sl_func :: "char list"
  sl_line :: u32
  sl_col :: u32

definition source_location_current :: "char list \<Rightarrow> char list \<Rightarrow> u32 \<Rightarrow> source_location" where
  "source_location_current file func line = \<lparr>sl_file = file, sl_func = func, sl_line = line, sl_col = 0\<rparr>"

definition PanicSpin :: "source_location \<Rightarrow> string_view \<Rightarrow> sched \<times> video \<Rightarrow> (sched \<times> video) outcome option" where
  "PanicSpin src msg kv = do {
     let (k, v) = kv;
     let (guard, k) = IntrGuard_ctor k;
     v \<leftarrow> PrintlnStr (literal (CHR 0x0A # ''!!!!! System Panic !!!!!'')) v;
     v \<leftarrow> Printf (literal (CHR 0x09 # ''File: {}.'' @ [CHR 0x0A])) [FmtStr (sl_file src)] v;
     v \<leftarrow> Printf (literal (CHR 0x09 # ''Line: 0x{}.'' @ [CHR 0x0A])) [FmtUInt (sl_line src)] v;
     v \<leftarrow> Printf (literal (CHR 0x09 # ''Function: {}.'' @ [CHR 0x0A])) [FmtStr (sl_func src)] v;
     v \<leftarrow> (if \<not> sv_empty msg then do {
             str \<leftarrow> sv_str msg;
             Printf (literal (CHR 0x09 # ''Message: {}.'' @ [CHR 0x0A])) [FmtStr str] v
           } else Some v);
     Some (Spins (k, v))
   }"

text \<open>\<^verbatim>\<open>dbg::Assert\<close> with \<^verbatim>\<open>dbg::enabled\<close> as an argument: it is off in a build with \<^verbatim>\<open>NDEBUG\<close>.\<close>

definition dbg_Assert :: "bool \<Rightarrow> bool \<Rightarrow> string_view \<Rightarrow> source_location \<Rightarrow> sched \<times> video \<Rightarrow> (sched \<times> video) outcome option" where
  "dbg_Assert enabled cond msg src kv =
     (if enabled then if \<not> cond then PanicSpin src msg kv else Some (Returns kv) else Some (Returns kv))"

definition DefaultIntrHandler_report :: "'h intr_handler_tab \<Rightarrow> u32 \<Rightarrow> u32 \<Rightarrow> video \<Rightarrow> video outcome option" where
  "DefaultIntrHandler_report tab cr2 intr_num v =
     (if intr_num = 0x27 \<or> intr_num = 0x2F then Some (Returns v)
      else do {
        v \<leftarrow> PrintlnStr (literal (CHR 0x0A # ''!!!!! Exception !!!!!'')) v;
        name \<leftarrow> GetName (unat intr_num) tab;
        v \<leftarrow> Printf (literal (CHR 0x09 # ''0x{} {}'' @ [CHR 0x0A])) [FmtUInt intr_num, FmtView name] v;
        v \<leftarrow> (if unat intr_num = intr_num_code PageFault
              then Printf (literal (CHR 0x09 # ''The page fault address is 0x{}.'' @ [CHR 0x0A])) [FmtUInt cr2] v
              else Some v);
        Some (Spins v)
      })"

section \<open>The reports\<close>

lemma literal_text: "NUL \<notin> set t \<Longrightarrow> sv_text (literal t) t"
  by (auto simp: sv_text_def literal_def cstr_append_NUL)

lemma Printf_literal:
  assumes "NUL \<notin> set t" "t \<noteq> []" "length t < npos" "list_all arg_ok args"
  shows "Printf (literal t) args v = print_text (expand t (map hex_arg args)) v"
  using Printf_impl_text [OF literal_text [OF assms(1)] assms(3,4)] sv_text_empty [OF literal_text [OF assms(1)]] assms(2)
  by (simp add: Printf_def)

lemma PrintlnStr_literal:
  assumes "NUL \<notin> set t" "t \<noteq> []"
  shows "PrintlnStr (literal t) v = print_text (t @ [CHR 0x0A]) v"
proof -
  have "PrintStr_view (literal t) v = print_text t v"
    using assms by (simp add: PrintStr_view_def literal_def sv_empty_def PrintStr_text cstr_append_NUL)
  moreover have "print_text [CHR 0x0A] v = PrintChar (CHR 0x0A) v" for v by (cases "PrintChar (CHR 0x0A) v") simp_all
  then have "print_text [CHR 0x0A] = PrintChar (CHR 0x0A)" by blast
  ultimately show ?thesis by (simp only: PrintlnStr_def print_text_append)
qed

abbreviation hex_text :: "u32 \<Rightarrow> char list" where
  "hex_text w \<equiv> map digit_char (digits 16 (unat w))"

definition exception_text :: "u32 \<Rightarrow> char list \<Rightarrow> u32 \<Rightarrow> char list" where
  "exception_text n name cr2 = CHR 0x0A # ''!!!!! Exception !!!!!'' @ CHR 0x0A # CHR 0x09 # ''0x'' @ hex_text n @ '' '' @ name @ [CHR 0x0A] @
     (if n = 0x0E then CHR 0x09 # ''The page fault address is 0x'' @ hex_text cr2 @ ''.'' @ [CHR 0x0A] else [])"

definition panic_text :: "source_location \<Rightarrow> string_view \<Rightarrow> char list" where
  "panic_text src msg = CHR 0x0A # ''!!!!! System Panic !!!!!'' @ CHR 0x0A # CHR 0x09 # ''File: '' @ cstr (sl_file src) @ ''.'' @
     CHR 0x0A # CHR 0x09 # ''Line: 0x'' @ hex_text (sl_line src) @ ''.'' @ CHR 0x0A # CHR 0x09 # ''Function: '' @ cstr (sl_func src) @ ''.'' @
     [CHR 0x0A] @ (case sv_str msg of Some str \<Rightarrow> if sv_empty msg then [] else CHR 0x09 # ''Message: '' @ cstr str @ ''.'' @ [CHR 0x0A] | None \<Rightarrow> [])"

lemma hex_text_visible: "CHR 0x08 \<notin> set (hex_text w)"
proof -
  have "digit_char d \<noteq> CHR 0x08" if "d < 16" for d
  proof -
    have "of_char (digit_char d) \<noteq> (8 :: nat)" using that by (simp add: digit_char_def)
    then show ?thesis by auto
  qed
  then show ?thesis using digits_less [of 16 _ "unat w"] by force
qed

text \<open>An interrupt without a handler of its own shows its number and its name, a page fault its address as well, and the system
  stops; the spurious interrupts of the controllers return at once.\<close>

lemma DefaultIntrHandler_shows:
  assumes "tab_ok tab" "unat n < intr_count" "tab_name tab (unat n) \<noteq> []" "CHR 0x08 \<notin> set (tab_name tab (unat n))" "screen_ok v"
    and "n \<noteq> 0x27" "n \<noteq> 0x2F"
  shows "\<exists>v'. DefaultIntrHandler_report tab cr2 n v = Some (Spins v') \<and> screen_ok v' \<and>
    Some (terminal v') = term_put (exception_text n (tab_name tab (unat n)) cr2) (terminal v)"
proof -
  let ?buf = "iht_names tab ! unat n" and ?T = "exception_text n (tab_name tab (unat n)) cr2"
  have "NUL \<in> set ?buf" using assms(1,2) by (simp add: tab_ok_def list_all_length)
  then obtain name where name: "sv_of ?buf = Some name" "sv_text name (cstr ?buf)" using sv_of_text by blast
  have ok: "arg_ok (FmtView name)" "arg_text (FmtView name) = tab_name tab (unat n)"
    using name(2) assms(3) by (auto simp: sv_text_def tab_name_def)
  have pf: "unat n = 14 \<longleftrightarrow> n = 0x0E" by (simp add: word_unat_eq_iff)
  have "DefaultIntrHandler_report tab cr2 n v = print_text ?T v \<bind> (\<lambda>v. Some (Spins v))"
    using assms(2,6,7) name(1) ok
    by (simp add: DefaultIntrHandler_report_def GetName_def pf PrintlnStr_literal Printf_literal npos_unfold exception_text_def
        print_text_append cstr_digits)
  moreover have "CHR 0x08 \<notin> set ?T" using assms(4) hex_text_visible by (simp add: exception_text_def)
  then obtain t where "term_put ?T (terminal v) = Some t" using term_put_total by blast
  ultimately show ?thesis using print_text_ok [OF assms(5), of ?T] by auto
qed

lemma DefaultIntrHandler_returns:
  "(\<exists>v'. DefaultIntrHandler_report tab cr2 n v = Some (Returns v')) \<longleftrightarrow> DefaultIntrHandler n = Some ()"
  by (auto simp: DefaultIntrHandler_report_def DefaultIntrHandler_def Option.bind_eq_Some_conv)

text \<open>A failed assertion turns the interrupts off for good and shows where it failed.\<close>

lemma Assert_panics:
  assumes "screen_ok v" "NUL \<in> set (sl_file src)" "NUL \<in> set (sl_func src)" "CHR 0x08 \<notin> set (panic_text src msg)"
    and "sv_empty msg \<or> (\<exists>str. sv_str msg = Some str \<and> NUL \<in> set str)"
  shows "\<exists>k' v'. dbg_Assert True False msg src (k, v) = Some (Spins (k', v')) \<and> \<not> sc_intr k' \<and> screen_ok v' \<and>
    Some (terminal v') = term_put (panic_text src msg) (terminal v)"
proof -
  let ?T = "panic_text src msg" and ?k = "snd (IntrGuard_ctor k)"
  have "dbg_Assert True False msg src (k, v) = print_text ?T v \<bind> (\<lambda>v. Some (Spins (?k, v)))"
    using assms(2,3,5)
    by (auto simp: dbg_Assert_def PanicSpin_def PrintlnStr_literal Printf_literal npos_unfold panic_text_def print_text_append cstr_digits
        split: option.splits prod.splits)
  moreover obtain t where "term_put ?T (terminal v) = Some t" using term_put_total [OF assms(4)] by blast
  moreover have "\<not> sc_intr ?k" by (simp add: IntrGuard_ctor_def DisableIntr_def Let_def)
  ultimately show ?thesis using print_text_ok [OF assms(1), of ?T] by auto
qed

lemma Assert_holds: "dbg_Assert enabled True msg src kv = Some (Returns kv)"
  by (simp add: dbg_Assert_def)

end
