(* ===== verification/Disks.thy ===== *)
theory Disks
  imports Interrupts Formats
begin

text \<open>
  The disk driver, \<^verbatim>\<open>src/kernel/io/disk/disk.cpp\<close> and \<^verbatim>\<open>src/kernel/io/disk/ide.cpp\<close>: registers, IDE channels,
  reading and writing of sectors, identification and the scan for partitions. A driver operation runs with
  the lock of its channel held. It works on the channel's fields and on the device behind the channel's
  ports, \<open>ata\<close>, the specification of the commands the driver uses: the task file registers, a busy phase
  of a number of status reads after a command, and the transfer of all sectors of a command through the data port.
  \<^verbatim>\<open>IdeChnl::Block\<close> waits for the interrupt of the device, whose handler releases the channel's semaphore.
\<close>

section \<open>Registers\<close>

definition sector_size :: nat where "sector_size = 512"
definition prim_part_count :: nat where "prim_part_count = 4"
definition max_logic_part_count :: nat where "max_logic_part_count = 8"
definition max_size :: u32 where "max_size = MB 80"
definition max_lba :: u32 where "max_lba = max_size div of_nat sector_size - 1"
definition max_sector_count_per_access :: u32 where "max_sector_count_per_access = 256"

definition AdjustSectorCount :: "u32 \<Rightarrow> u8 option" where
  "AdjustSectorCount count = do {
     Assert (0 < count \<and> count \<le> max_sector_count_per_access);
     Some (if count \<ge> max_sector_count_per_access then 0 else ucast count)
   }"

definition lba_24_27_pos :: nat where "lba_24_27_pos = 0"
definition lba_24_27_len :: nat where "lba_24_27_len = 4"
definition dev_pos :: nat where "dev_pos = lba_24_27_pos + lba_24_27_len"
definition mod_pos :: nat where "mod_pos = 6"

definition DeviceReg_SetMbs :: "u8 \<Rightarrow> u8" where
  "DeviceReg_SetMbs val = SetBit (SetBit val 5) 7"

definition DeviceReg :: "u8 \<Rightarrow> u8" where
  "DeviceReg val = DeviceReg_SetMbs val"

definition DeviceReg_IsLbaMode :: "u8 \<Rightarrow> bool" where
  "DeviceReg_IsLbaMode val = IsBitSet val mod_pos"

definition DeviceReg_SetLbaMode :: "bool \<Rightarrow> u8 \<Rightarrow> u8" where
  "DeviceReg_SetLbaMode lba val = (if lba then SetBit val mod_pos else ResetBit val mod_pos)"

definition DeviceReg_IsMaster :: "u8 \<Rightarrow> bool" where
  "DeviceReg_IsMaster val = (\<not> IsBitSet val dev_pos)"

definition DeviceReg_SetMaster :: "bool \<Rightarrow> u8 \<Rightarrow> u8" where
  "DeviceReg_SetMaster master val = (if master then ResetBit val dev_pos else SetBit val dev_pos)"

definition DeviceReg_SetLba :: "u32 \<Rightarrow> u8 \<Rightarrow> u8" where
  "DeviceReg_SetLba lba val = (let mid = GetBits lba 24 27 in SetBits val mid lba_24_27_pos lba_24_27_len)"

definition DeviceReg_Format :: "bool \<Rightarrow> u32 \<Rightarrow> bool \<Rightarrow> u8" where
  "DeviceReg_Format master lba lba_mod =
     DeviceReg_SetLba lba (DeviceReg_SetLbaMode lba_mod (DeviceReg_SetMaster master (DeviceReg 0)))"

definition DeviceReg_at :: "bool \<Rightarrow> u32 \<Rightarrow> bool \<Rightarrow> u8" where
  "DeviceReg_at master lba lba_mod = DeviceReg (DeviceReg_Format master lba lba_mod)"

definition StatusReg_HasError :: "u8 \<Rightarrow> bool" where
  "StatusReg_HasError val = IsBitSet val 0"

definition StatusReg_IsDataPrepared :: "u8 \<Rightarrow> bool" where
  "StatusReg_IsDataPrepared val = IsBitSet val 3"

definition StatusReg_IsDeviceReady :: "u8 \<Rightarrow> bool" where
  "StatusReg_IsDeviceReady val = IsBitSet val 6"

definition StatusReg_IsDeviceBusy :: "u8 \<Rightarrow> bool" where
  "StatusReg_IsDeviceBusy val = IsBitSet val 7"

definition LbaReg_SetLba :: "nat \<Rightarrow> u32 \<Rightarrow> u8" where
  "LbaReg_SetLba start_bit lba = GetByte lba start_bit"

definition LbaLowReg :: "u32 \<Rightarrow> u8" where "LbaLowReg lba = LbaReg_SetLba 0 lba"
definition LbaMidReg :: "u32 \<Rightarrow> u8" where "LbaMidReg lba = LbaReg_SetLba 8 lba"
definition LbaHighReg :: "u32 \<Rightarrow> u8" where "LbaHighReg lba = LbaReg_SetLba 16 lba"

datatype disk_cmd = CmdRead | CmdWrite | CmdIdentify

fun disk_cmd_code :: "disk_cmd \<Rightarrow> u8" where
  "disk_cmd_code CmdRead = 0x20"
| "disk_cmd_code CmdWrite = 0x30"
| "disk_cmd_code CmdIdentify = 0xEC"

section \<open>The device\<close>

text \<open>
  The device registers of one channel by their port offsets, the transfer that waits at the data port, the
  number of status reads that still show the busy bit, the interrupt line, and the contents of the two disks.
  \<open>at_delay\<close> is how long the device stays busy after a command, \<open>at_ident\<close> the data of the identify command.
\<close>

record ata =
  at_base :: u16
  at_count :: u8
  at_low :: u8
  at_mid :: u8
  at_high :: u8
  at_dev :: u8
  at_pend :: "(disk_cmd \<times> bool \<times> nat \<times> nat) option"
  at_busy :: nat
  at_delay :: nat
  at_irq :: bool
  at_sectors :: "bool \<Rightarrow> nat \<Rightarrow> u8 list"
  at_ident :: "bool \<Rightarrow> u8 list"

definition ata_lba :: "ata \<Rightarrow> nat" where
  "ata_lba d = unat (ucast (at_low d) OR push_bit 8 (ucast (at_mid d)) OR push_bit 16 (ucast (at_high d)) OR
     push_bit 24 (GetBits (ucast (at_dev d)) 0 4) :: u32)"

definition ata_sector_count :: "ata \<Rightarrow> nat" where
  "ata_sector_count d = (if at_count d = 0 then 256 else unat (at_count d))"

definition ata_command :: "u8 \<Rightarrow> ata \<Rightarrow> ata" where
  "ata_command v d =
     (let slave = bit (at_dev d) 4 in
      if v = 0xEC then d\<lparr>at_pend := Some (CmdIdentify, slave, 0, 1), at_busy := at_delay d, at_irq := True\<rparr>
      else if bit (at_dev d) 6 \<and> v = 0x20
        then d\<lparr>at_pend := Some (CmdRead, slave, ata_lba d, ata_sector_count d), at_busy := at_delay d, at_irq := True\<rparr>
      else if bit (at_dev d) 6 \<and> v = 0x30
        then d\<lparr>at_pend := Some (CmdWrite, slave, ata_lba d, ata_sector_count d), at_busy := at_delay d\<rparr>
      else d)"

definition ata_out :: "u16 \<Rightarrow> u8 \<Rightarrow> ata \<Rightarrow> ata" where
  "ata_out port v d =
     (let off = port - at_base d in
      if off = 2 then d\<lparr>at_count := v\<rparr>
      else if off = 3 then d\<lparr>at_low := v\<rparr>
      else if off = 4 then d\<lparr>at_mid := v\<rparr>
      else if off = 5 then d\<lparr>at_high := v\<rparr>
      else if off = 6 then d\<lparr>at_dev := v\<rparr>
      else if off = 7 then ata_command v d
      else d)"

text \<open>The status register: busy, or ready with the data request bit when a transfer waits. Reading it ends the interrupt.\<close>

definition ata_status :: "ata \<Rightarrow> u8 \<times> ata" where
  "ata_status d =
     (if at_busy d > 0 then (0x80, d\<lparr>at_busy := at_busy d - 1, at_irq := False\<rparr>)
      else (if at_pend d \<noteq> None then 0x48 else 0x40, d\<lparr>at_irq := False\<rparr>))"

definition ata_in_words :: "nat \<Rightarrow> ata \<Rightarrow> (u8 list \<times> ata) option" where
  "ata_in_words n d = (case at_pend d of
     Some (CmdRead, slave, lba, c) \<Rightarrow>
       if n * 2 = c * sector_size
       then Some (concat (map (at_sectors d slave) [lba..<lba + c]), d\<lparr>at_pend := None\<rparr>) else None
   | Some (CmdIdentify, slave, lba, c) \<Rightarrow>
       if n * 2 = sector_size then Some (at_ident d slave, d\<lparr>at_pend := None\<rparr>) else None
   | _ \<Rightarrow> None)"

definition chunk :: "u8 list \<Rightarrow> nat \<Rightarrow> u8 list" where
  "chunk bytes i = take sector_size (drop (i * sector_size) bytes)"

definition ata_out_words :: "u8 list \<Rightarrow> ata \<Rightarrow> ata option" where
  "ata_out_words bytes d = (case at_pend d of
     Some (CmdWrite, slave, lba, c) \<Rightarrow>
       if length bytes = c * sector_size
       then Some (d\<lparr>at_sectors := (at_sectors d)(slave :=
              (\<lambda>l. if lba \<le> l \<and> l < lba + c then chunk bytes (l - lba) else at_sectors d slave l)),
            at_pend := None, at_irq := True\<rparr>) else None
   | _ \<Rightarrow> None)"

text \<open>Waiting for the interrupt: the device has finished when it raises it.\<close>

definition ata_wait :: "ata \<Rightarrow> ata option" where
  "ata_wait d = (if at_irq d then Some (d\<lparr>at_busy := 0\<rparr>) else None)"

section \<open>IDE channels\<close>

datatype chnl_type = InvalidChnl | Primary | Secondary

record ide_chnl =
  ch_name :: "char list"
  ch_type :: chnl_type
  ch_base_port :: u16
  ch_intr_num :: nat
  ch_waiting_intr :: bool
  ch_disk_done :: bool
  ch_dev :: ata

definition max_disk_count :: nat where "max_disk_count = 2"
definition max_ide_chnl_count :: nat where "max_ide_chnl_count = 2"

definition GetIdeChnlCount :: "u32 \<Rightarrow> u32 option" where
  "GetIdeChnlCount disk_count = do {
     let count = RoundUpDivide disk_count (of_nat max_disk_count);
     Assert (0 < count \<and> count \<le> of_nat max_ide_chnl_count);
     Some count
   }"

definition IdeChnl_SetType :: "chnl_type \<Rightarrow> ide_chnl \<Rightarrow> ide_chnl option" where
  "IdeChnl_SetType type c = (case type of
     Primary \<Rightarrow> Some (c\<lparr>ch_type := type, ch_base_port := 0x1F0\<rparr>)
   | Secondary \<Rightarrow> Some (c\<lparr>ch_type := type, ch_base_port := 0x170\<rparr>)
   | InvalidChnl \<Rightarrow> None)"

definition IdeChnl_GetBasePort :: "ide_chnl \<Rightarrow> u16 option" where
  "IdeChnl_GetBasePort c = do {
     Assert (ch_type c \<noteq> InvalidChnl);
     Some (ch_base_port c)
   }"

definition IdeChnl_port :: "u16 \<Rightarrow> ide_chnl \<Rightarrow> u16 option" where
  "IdeChnl_port off c = do { base \<leftarrow> IdeChnl_GetBasePort c; Some (base + off) }"

definition IdeChnl_GetDataPort :: "ide_chnl \<Rightarrow> u16 option" where
  "IdeChnl_GetDataPort = IdeChnl_port 0"

definition IdeChnl_GetErrorPort :: "ide_chnl \<Rightarrow> u16 option" where
  "IdeChnl_GetErrorPort = IdeChnl_port 1"

definition IdeChnl_GetSectorCountPort :: "ide_chnl \<Rightarrow> u16 option" where
  "IdeChnl_GetSectorCountPort = IdeChnl_port 2"

definition IdeChnl_GetLbaLowPort :: "ide_chnl \<Rightarrow> u16 option" where
  "IdeChnl_GetLbaLowPort = IdeChnl_port 3"

definition IdeChnl_GetLbaMidPort :: "ide_chnl \<Rightarrow> u16 option" where
  "IdeChnl_GetLbaMidPort = IdeChnl_port 4"

definition IdeChnl_GetLbaHighPort :: "ide_chnl \<Rightarrow> u16 option" where
  "IdeChnl_GetLbaHighPort = IdeChnl_port 5"

definition IdeChnl_GetDevicePort :: "ide_chnl \<Rightarrow> u16 option" where
  "IdeChnl_GetDevicePort = IdeChnl_port 6"

definition IdeChnl_GetStatusPort :: "ide_chnl \<Rightarrow> u16 option" where
  "IdeChnl_GetStatusPort = IdeChnl_port 7"

definition IdeChnl_GetCmdPort :: "ide_chnl \<Rightarrow> u16 option" where
  "IdeChnl_GetCmdPort = IdeChnl_port 7"

definition IdeChnl_GetAltStatusPort :: "ide_chnl \<Rightarrow> u16 option" where
  "IdeChnl_GetAltStatusPort = IdeChnl_port 0x206"

definition IdeChnl_GetCtrlPort :: "ide_chnl \<Rightarrow> u16 option" where
  "IdeChnl_GetCtrlPort = IdeChnl_port 0x206"

definition IdeChnl_NeedToWaitForIntr :: "bool \<Rightarrow> ide_chnl \<Rightarrow> ide_chnl" where
  "IdeChnl_NeedToWaitForIntr wait c = c\<lparr>ch_waiting_intr := wait\<rparr>"

definition IdeChnl_SetIntrNum :: "nat \<Rightarrow> ide_chnl \<Rightarrow> ide_chnl" where
  "IdeChnl_SetIntrNum n c = c\<lparr>ch_intr_num := n\<rparr>"

text \<open>The binary semaphore \<^verbatim>\<open>disk_done_\<close>: releasing it when it is free has no effect.\<close>

definition IdeChnl_Unblock :: "ide_chnl \<Rightarrow> ide_chnl" where
  "IdeChnl_Unblock c = c\<lparr>ch_disk_done := True\<rparr>"

definition WriteByteToPort :: "u16 option \<Rightarrow> u8 \<Rightarrow> ide_chnl \<Rightarrow> ide_chnl option" where
  "WriteByteToPort port v c = do { p \<leftarrow> port; Some (c\<lparr>ch_dev := ata_out p v (ch_dev c)\<rparr>) }"

definition ReadStatusPort :: "ide_chnl \<Rightarrow> (u8 \<times> ide_chnl) option" where
  "ReadStatusPort c = do {
     _ \<leftarrow> IdeChnl_GetStatusPort c;
     let (v, d) = ata_status (ch_dev c);
     Some (v, c\<lparr>ch_dev := d\<rparr>)
   }"

definition ClearCurrIntr :: "ide_chnl \<Rightarrow> ide_chnl option" where
  "ClearCurrIntr c = do { (_, c) \<leftarrow> ReadStatusPort c; Some c }"

text \<open>The handler on the channel that belongs to the interrupt number.\<close>

definition DiskIntrHandler :: "nat \<Rightarrow> ide_chnl \<Rightarrow> ide_chnl option" where
  "DiskIntrHandler n c = do {
     Assert (n = intr_num_code PrimaryIdeChnl \<or> n = intr_num_code SecondaryIdeChnl);
     Assert (ch_intr_num c = n);
     if ch_waiting_intr c
     then ClearCurrIntr (IdeChnl_Unblock (IdeChnl_NeedToWaitForIntr False c))
     else Some c
   }"

text \<open>
  \<^verbatim>\<open>Block\<close> takes the semaphore; if it is not free, the thread sleeps until the device's interrupt, whose
  handler releases it. Without one the thread would sleep for ever.
\<close>

definition IdeChnl_Block :: "ide_chnl \<Rightarrow> ide_chnl option" where
  "IdeChnl_Block c = do {
     c \<leftarrow> (if ch_disk_done c then Some c
          else do {
            d \<leftarrow> ata_wait (ch_dev c);
            DiskIntrHandler (ch_intr_num c) (c\<lparr>ch_dev := d\<rparr>)
          });
     Assert (ch_disk_done c);
     Some (c\<lparr>ch_disk_done := False\<rparr>)
   }"

section \<open>Disks\<close>

record part =
  pt_name :: "char list"
  pt_start_lba :: u32
  pt_sector_count :: u32
  pt_disk :: bool

definition part_empty :: part where
  "part_empty = \<lparr>pt_name = replicate 9 NUL, pt_start_lba = 0, pt_sector_count = 0, pt_disk = False\<rparr>"

record disk =
  dk_name :: "char list"
  dk_prim_parts :: "part list"
  dk_logic_parts :: "part list"
  dk_attached :: bool
  dk_idx :: nat

text \<open>\<^verbatim>\<open>SetName\<close> of disks, channels and partitions: each has an array of nine characters.\<close>

definition set_name :: "char list \<Rightarrow> string_view \<Rightarrow> char list option" where
  "set_name buf name =
     (if sv_empty name then memset buf NUL (length buf)
      else do { src \<leftarrow> sv_str name; strcpy_s buf (length buf) src })"

definition Disk_SetName :: "string_view \<Rightarrow> disk \<Rightarrow> disk option" where
  "Disk_SetName name dk = do { buf \<leftarrow> set_name (dk_name dk) name; Some (dk\<lparr>dk_name := buf\<rparr>) }"

definition IdeChnl_SetName :: "string_view \<Rightarrow> ide_chnl \<Rightarrow> ide_chnl option" where
  "IdeChnl_SetName name c = do { buf \<leftarrow> set_name (ch_name c) name; Some (c\<lparr>ch_name := buf\<rparr>) }"

definition Part_SetName :: "string_view \<Rightarrow> part \<Rightarrow> part option" where
  "Part_SetName name pt = do { buf \<leftarrow> set_name (pt_name pt) name; Some (pt\<lparr>pt_name := buf\<rparr>) }"

definition Part_IsValid :: "part \<Rightarrow> bool" where
  "Part_IsValid pt \<longleftrightarrow> pt_disk pt \<and> pt_sector_count pt > 0"

definition Disk_Attach :: "nat \<Rightarrow> disk \<Rightarrow> disk option" where
  "Disk_Attach idx dk = do {
     Assert (idx < max_disk_count);
     Some (dk\<lparr>dk_attached := True, dk_idx := idx\<rparr>)
   }"

definition Disk_Select :: "disk \<Rightarrow> ide_chnl \<Rightarrow> ide_chnl option" where
  "Disk_Select dk c = do {
     Assert (dk_attached dk);
     let is_master = (dk_idx dk = 0);
     WriteByteToPort (IdeChnl_GetDevicePort c) (DeviceReg_SetMaster is_master (DeviceReg 0)) c
   }"

definition Disk_SetSectors :: "disk \<Rightarrow> u32 \<Rightarrow> u32 \<Rightarrow> ide_chnl \<Rightarrow> ide_chnl option" where
  "Disk_SetSectors dk start_lba count c = do {
     Assert (0 < count \<and> count \<le> max_sector_count_per_access);
     Assert (start_lba + count \<le> max_lba);
     Assert (dk_attached dk);
     n \<leftarrow> AdjustSectorCount count;
     c \<leftarrow> WriteByteToPort (IdeChnl_GetSectorCountPort c) n c;
     c \<leftarrow> WriteByteToPort (IdeChnl_GetLbaLowPort c) (LbaLowReg start_lba) c;
     c \<leftarrow> WriteByteToPort (IdeChnl_GetLbaMidPort c) (LbaMidReg start_lba) c;
     c \<leftarrow> WriteByteToPort (IdeChnl_GetLbaHighPort c) (LbaHighReg start_lba) c;
     let is_master = (dk_idx dk = 0);
     WriteByteToPort (IdeChnl_GetDevicePort c) (DeviceReg_at is_master start_lba True) c
   }"

definition Disk_SendCmd :: "disk \<Rightarrow> disk_cmd \<Rightarrow> ide_chnl \<Rightarrow> ide_chnl option" where
  "Disk_SendCmd dk cmd c = do {
     Assert (dk_attached dk);
     let c = IdeChnl_NeedToWaitForIntr True c;
     WriteByteToPort (IdeChnl_GetCmdPort c) (disk_cmd_code cmd) c
   }"

text \<open>The thread sleeps between two looks at the status; it gives up after 30 seconds.\<close>

definition max_wait_time :: nat where "max_wait_time = 30 * 1000"
definition sleep_time :: nat where "sleep_time = 10"

function BusyWait_loop :: "nat \<Rightarrow> ide_chnl \<Rightarrow> (bool \<times> ide_chnl) option" where
  "BusyWait_loop wait_time c =
     (if wait_time < max_wait_time then do {
        (v, c) \<leftarrow> ReadStatusPort c;
        if StatusReg_IsDeviceBusy v then BusyWait_loop (wait_time + sleep_time) c
        else do {
          (v, c) \<leftarrow> ReadStatusPort c;
          Some (StatusReg_IsDataPrepared v, c)
        }
      }
      else Some (False, c))"
  by pat_completeness auto
termination
  by (relation "measure (\<lambda>(t, c). max_wait_time - t)") (auto simp: sleep_time_def)

definition Disk_BusyWait :: "disk \<Rightarrow> ide_chnl \<Rightarrow> (bool \<times> ide_chnl) option" where
  "Disk_BusyWait dk c = do {
     Assert (dk_attached dk);
     BusyWait_loop 0 c
   }"

definition Disk_ReadWords :: "disk \<Rightarrow> nat \<Rightarrow> ide_chnl \<Rightarrow> (u8 list \<times> ide_chnl) option" where
  "Disk_ReadWords dk count c = do {
     Assert (count > 0);
     Assert (dk_attached dk);
     _ \<leftarrow> IdeChnl_GetDataPort c;
     (bytes, d) \<leftarrow> ata_in_words count (ch_dev c);
     Some (bytes, c\<lparr>ch_dev := d\<rparr>)
   }"

definition Disk_WriteWords :: "disk \<Rightarrow> u8 list \<Rightarrow> nat \<Rightarrow> ide_chnl \<Rightarrow> ide_chnl option" where
  "Disk_WriteWords dk data count c = do {
     Assert (count > 0);
     Assert (dk_attached dk);
     Assert (count * 2 \<le> length data);
     _ \<leftarrow> IdeChnl_GetDataPort c;
     d \<leftarrow> ata_out_words (take (count * 2) data) (ch_dev c);
     Some (c\<lparr>ch_dev := d\<rparr>)
   }"

text \<open>
  The loops of \<^verbatim>\<open>ReadSectors\<close> and \<^verbatim>\<open>WriteSectors\<close>. \<open>buf\<close> is the array the caller's pointer refers to: storing
  behind its end, or reading behind the end of \<open>data\<close>, is \<open>None\<close>.
\<close>

function ReadSectors_loop :: "disk \<Rightarrow> u32 \<Rightarrow> u32 \<Rightarrow> u32 \<Rightarrow> u8 list \<Rightarrow> ide_chnl \<Rightarrow> (u8 list \<times> ide_chnl) option" where
  "ReadSectors_loop dk start_lba count read_count buf c =
     (if read_count < count then do {
        let curr_count = min (count - read_count) max_sector_count_per_access;
        c \<leftarrow> Disk_SetSectors dk (start_lba + read_count) curr_count c;
        c \<leftarrow> Disk_SendCmd dk CmdRead c;
        c \<leftarrow> IdeChnl_Block c;
        (ready, c) \<leftarrow> Disk_BusyWait dk c;
        Assert ready;
        (bytes, c) \<leftarrow> Disk_ReadWords dk (unat curr_count * sector_size div 2) c;
        Assert (unat read_count * sector_size + length bytes \<le> length buf);
        ReadSectors_loop dk start_lba count (read_count + curr_count)
          (overwrite buf (unat read_count * sector_size) bytes) c
      }
      else Some (buf, c))"
  by pat_completeness auto

lemma next_count:
  fixes r n :: u32
  assumes "r < n"
  shows "unat (min (n - r) max_sector_count_per_access) = min (unat n - unat r) 256"
    and "unat (r + min (n - r) max_sector_count_per_access) = unat r + min (unat n - unat r) 256"
proof -
  have lt: "unat r < unat n" using assms by (simp add: word_less_nat_alt)
  have s: "unat (n - r) = unat n - unat r" using assms by (simp add: unat_sub)
  show m: "unat (min (n - r) max_sector_count_per_access) = min (unat n - unat r) 256"
    by (auto simp: min_def s max_sector_count_per_access_def word_le_nat_alt)
  have "unat n < 2 ^ 32" using unsigned_less [of n, where 'a = nat] by simp
  then have "unat r + min (unat n - unat r) 256 < 2 ^ 32" using lt by simp
  then show "unat (r + min (n - r) max_sector_count_per_access) = unat r + min (unat n - unat r) 256"
    by (subst unat_add_lem [THEN iffD1]) (simp_all add: m)
qed

termination ReadSectors_loop
proof (relation "measure (\<lambda>(dk, l, n, r, buf, c). unat n - unat r)", simp)
qed (auto simp: next_count word_less_nat_alt)

definition Disk_ReadSectors :: "disk \<Rightarrow> u32 \<Rightarrow> u8 list \<Rightarrow> u32 \<Rightarrow> ide_chnl \<Rightarrow> (u8 list \<times> ide_chnl) option" where
  "Disk_ReadSectors dk start_lba buf count c = do {
     Assert (count > 0);
     Assert (start_lba + count \<le> max_lba);
     c \<leftarrow> Disk_Select dk c;
     ReadSectors_loop dk start_lba count 0 buf c
   }"

function WriteSectors_loop :: "disk \<Rightarrow> u32 \<Rightarrow> u8 list \<Rightarrow> u32 \<Rightarrow> u32 \<Rightarrow> ide_chnl \<Rightarrow> ide_chnl option" where
  "WriteSectors_loop dk start_lba data count written_count c =
     (if written_count < count then do {
        let curr_count = min (count - written_count) max_sector_count_per_access;
        c \<leftarrow> Disk_SetSectors dk (start_lba + written_count) curr_count c;
        c \<leftarrow> Disk_SendCmd dk CmdWrite c;
        (ready, c) \<leftarrow> Disk_BusyWait dk c;
        Assert ready;
        c \<leftarrow> Disk_WriteWords dk (drop (unat written_count * sector_size) data) (unat curr_count * sector_size div 2) c;
        c \<leftarrow> IdeChnl_Block c;
        WriteSectors_loop dk start_lba data count (written_count + curr_count) c
      }
      else Some c)"
  by pat_completeness auto
termination
proof (relation "measure (\<lambda>(dk, l, data, n, r, c). unat n - unat r)", simp)
qed (auto simp: next_count word_less_nat_alt)

definition Disk_WriteSectors :: "disk \<Rightarrow> u32 \<Rightarrow> u8 list \<Rightarrow> u32 \<Rightarrow> ide_chnl \<Rightarrow> ide_chnl option" where
  "Disk_WriteSectors dk start_lba data count c = do {
     Assert (count > 0);
     Assert (start_lba + count \<le> max_lba);
     c \<leftarrow> Disk_Select dk c;
     WriteSectors_loop dk start_lba data count 0 c
   }"

declare ReadSectors_loop.simps [simp del] WriteSectors_loop.simps [simp del] BusyWait_loop.simps [simp del]

section \<open>Disk information\<close>

fun SwapBytePairs_loop :: "u8 list \<Rightarrow> u8 list \<Rightarrow> nat \<Rightarrow> u8 list option" where
  "SwapBytePairs_loop src dest 0 = Some dest"
| "SwapBytePairs_loop (a # b # src) (x # y # dest) (Suc n) =
     map_option (\<lambda>r. b # a # r) (SwapBytePairs_loop src dest n)"
| "SwapBytePairs_loop _ _ (Suc n) = None"

definition SwapBytePairs :: "u8 list \<Rightarrow> u8 list \<Rightarrow> nat \<Rightarrow> u8 list option" where
  "SwapBytePairs src dest count = SwapBytePairs_loop src dest count"

definition read_u32 :: "u8 list \<Rightarrow> nat \<Rightarrow> u32" where
  "read_u32 b i = CombineWords (CombineBytes (b ! (i + 3)) (b ! (i + 2))) (CombineBytes (b ! (i + 1)) (b ! i))"

definition read_u16 :: "u8 list \<Rightarrow> nat \<Rightarrow> u16" where
  "read_u16 b i = CombineBytes (b ! (i + 1)) (b ! i)"

record disk_info =
  di_serial :: "u8 list"
  di_model :: "u8 list"
  di_sector_count :: u32

definition serial_len :: nat where "serial_len = 20"
definition model_len :: nat where "model_len = 40"

text \<open>The constructor on the 512 bytes of the identify data; an \<^verbatim>\<open>stl::array\<close> is zero at first.\<close>

definition Disk_Info :: "u8 list \<Rightarrow> disk_info option" where
  "Disk_Info buf = do {
     serial \<leftarrow> SwapBytePairs (drop 20 buf) (replicate (serial_len + 1) 0) (serial_len div 2);
     model \<leftarrow> SwapBytePairs (drop 54 buf) (replicate (model_len + 1) 0) (model_len div 2);
     Some \<lparr>di_serial = serial, di_model = model, di_sector_count = read_u32 buf 120\<rparr>
   }"

definition Disk_GetInfo :: "disk \<Rightarrow> ide_chnl \<Rightarrow> (disk_info \<times> ide_chnl) option" where
  "Disk_GetInfo dk c = do {
     c \<leftarrow> Disk_Select dk c;
     c \<leftarrow> Disk_SendCmd dk CmdIdentify c;
     c \<leftarrow> IdeChnl_Block c;
     (ready, c) \<leftarrow> Disk_BusyWait dk c;
     Assert ready;
     (buf, c) \<leftarrow> Disk_ReadWords dk (sector_size div 2) c;
     info \<leftarrow> Disk_Info buf;
     Some (info, c)
   }"

section \<open>Partitions\<close>

record part_tab_entry =
  pe_type :: u8
  pe_start_lba :: u32
  pe_sector_count :: u32

definition PartType_Empty :: u8 where "PartType_Empty = 0"
definition PartType_ExtPart :: u8 where "PartType_ExtPart = 5"
definition part_tab_offset :: nat where "part_tab_offset = sector_size - prim_part_count * 16 - 2"
definition end_sig :: u16 where "end_sig = 0xAA55"

definition read_entry :: "u8 list \<Rightarrow> nat \<Rightarrow> part_tab_entry" where
  "read_entry b i = (let o' = part_tab_offset + 16 * i in
     \<lparr>pe_type = b ! (o' + 4), pe_start_lba = read_u32 b (o' + 8), pe_sector_count = read_u32 b (o' + 12)\<rparr>)"

definition boot_record_parts :: "u8 list \<Rightarrow> part_tab_entry list" where
  "boot_record_parts b = map (read_entry b) [0..<prim_part_count]"

definition boot_record_sig :: "u8 list \<Rightarrow> u16" where
  "boot_record_sig b = read_u16 b (sector_size - 2)"

datatype part_ref = PrimPart nat nat | LogicPart nat nat

text \<open>
  The state of a scan: the static variables of \<^verbatim>\<open>ScanParts\<close>, the disk, the list of all partitions, and the channel.
\<close>

record scan =
  sn_ext_lba_base :: u32
  sn_prim_idx :: nat
  sn_logic_idx :: nat
  sn_disk :: disk
  sn_parts :: "part_ref list"
  sn_chnl :: ide_chnl

text \<open>The name of a partition is formatted into an array of eight characters.\<close>

definition format_name :: "char list \<Rightarrow> fmt_arg list \<Rightarrow> string_view option" where
  "format_name f args = do {
     (_, buf) \<leftarrow> FormatStringBuffer (replicate 8 NUL) (literal f) args;
     sv_of buf
   }"

definition part_label :: "char list \<Rightarrow> nat \<Rightarrow> string_view option" where
  "part_label name n = format_name ''{}{}'' [FmtStr name, FmtUInt (of_nat n)]"

definition add_logic :: "nat \<Rightarrow> u32 \<Rightarrow> part_tab_entry \<Rightarrow> scan \<Rightarrow> scan option" where
  "add_logic me lba e s = do {
     let i = sn_logic_idx s;
     let dk = sn_disk s;
     Assert (i < length (dk_logic_parts dk));
     let logic = (dk_logic_parts dk ! i)\<lparr>pt_start_lba := lba + pe_start_lba e,
       pt_sector_count := pe_sector_count e, pt_disk := True\<rparr>;
     name \<leftarrow> part_label (dk_name dk) (i + 1 + prim_part_count);
     logic \<leftarrow> Part_SetName name logic;
     Some (s\<lparr>sn_disk := dk\<lparr>dk_logic_parts := (dk_logic_parts dk)[i := logic]\<rparr>,
       sn_parts := sn_parts s @ [LogicPart me i], sn_logic_idx := i + 1\<rparr>)
   }"

definition add_prim :: "nat \<Rightarrow> u32 \<Rightarrow> part_tab_entry \<Rightarrow> scan \<Rightarrow> scan option" where
  "add_prim me lba e s = do {
     let i = sn_prim_idx s;
     let dk = sn_disk s;
     Assert (i < length (dk_prim_parts dk));
     let prim = (dk_prim_parts dk ! i)\<lparr>pt_start_lba := lba + pe_start_lba e,
       pt_sector_count := pe_sector_count e, pt_disk := True\<rparr>;
     name \<leftarrow> part_label (dk_name dk) (i + 1);
     prim \<leftarrow> Part_SetName name prim;
     Some (s\<lparr>sn_disk := dk\<lparr>dk_prim_parts := (dk_prim_parts dk)[i := prim]\<rparr>,
       sn_parts := sn_parts s @ [PrimPart me i], sn_prim_idx := i + 1\<rparr>)
   }"

text \<open>
  The recursion of \<^verbatim>\<open>ScanParts\<close>: the first argument bounds the depth of the calls, as the kernel's stack does;
  a deeper recursion, in particular an endless one, is \<open>None\<close>.
\<close>

fun ScanParts_at :: "nat \<Rightarrow> nat \<Rightarrow> u32 \<Rightarrow> bool \<Rightarrow> scan \<Rightarrow> scan option"
  and scan_entries :: "nat \<Rightarrow> nat \<Rightarrow> u32 \<Rightarrow> part_tab_entry list \<Rightarrow> scan \<Rightarrow> scan option" where
  "ScanParts_at 0 me lba new_disk s = None"
| "ScanParts_at (Suc n) me lba new_disk s = do {
     let s = (if new_disk then s\<lparr>sn_ext_lba_base := 0, sn_prim_idx := 0, sn_logic_idx := 0\<rparr> else s);
     Assert (sn_prim_idx s < prim_part_count);
     if sn_logic_idx s \<ge> max_logic_part_count then Some s
     else do {
       (boot_record, c) \<leftarrow> Disk_ReadSectors (sn_disk s) lba (replicate sector_size 0) 1 (sn_chnl s);
       let s = s\<lparr>sn_chnl := c\<rparr>;
       Assert (boot_record_sig boot_record = end_sig);
       scan_entries n me lba (boot_record_parts boot_record) s
     }
   }"
| "scan_entries n me lba [] s = Some s"
| "scan_entries n me lba (e # es) s = do {
     s \<leftarrow> (if pe_type e = PartType_ExtPart
          then if sn_ext_lba_base s \<noteq> 0 then ScanParts_at n me (sn_ext_lba_base s + pe_start_lba e) False s
            else ScanParts_at n me (pe_start_lba e) False (s\<lparr>sn_ext_lba_base := pe_start_lba e\<rparr>)
          else if pe_type e \<noteq> PartType_Empty
          then if sn_ext_lba_base s \<noteq> 0 then add_logic me lba e s else add_prim me lba e s
          else Some s);
     scan_entries n me lba es s
   }"

definition Disk_ScanParts :: "nat \<Rightarrow> nat \<Rightarrow> scan \<Rightarrow> scan option" where
  "Disk_ScanParts depth me s = ScanParts_at depth me 0 True s"

section \<open>Initialization\<close>

definition boot_disk_idx :: nat where "boot_disk_idx = 0"

text \<open>
  The disks of a machine: the channels, two disks for each, and the list of partitions. Every scan of a
  disk resets the static variables of \<^verbatim>\<open>ScanParts\<close>.
\<close>

record disk_sys =
  ds_chnls :: "ide_chnl list"
  ds_disks :: "disk list list"
  ds_parts :: "part_ref list"
  ds_inited :: bool

definition disk_no :: "nat \<Rightarrow> nat \<Rightarrow> nat" where
  "disk_no chnl_idx disk_idx = chnl_idx * max_disk_count + disk_idx"

text \<open>The body of the inner loop for one disk; printing the disk information asks the disk for it.\<close>

definition InitDisk_disk :: "nat \<Rightarrow> nat \<Rightarrow> nat \<Rightarrow> ide_chnl \<Rightarrow> disk \<Rightarrow> part_ref list \<Rightarrow>
    (ide_chnl \<times> disk \<times> part_ref list) option" where
  "InitDisk_disk depth chnl_idx disk_idx c dk parts = do {
     name \<leftarrow> format_name ''sd{}'' [FmtChar (char_of (of_char CHR ''a'' + disk_no chnl_idx disk_idx))];
     dk \<leftarrow> Disk_SetName name dk;
     dk \<leftarrow> Disk_Attach disk_idx dk;
     (c, dk, parts) \<leftarrow> (if disk_idx \<noteq> boot_disk_idx then do {
          s \<leftarrow> Disk_ScanParts depth (disk_no chnl_idx disk_idx)
                 \<lparr>sn_ext_lba_base = 0, sn_prim_idx = 0, sn_logic_idx = 0, sn_disk = dk, sn_parts = parts, sn_chnl = c\<rparr>;
          Some (sn_chnl s, sn_disk s, sn_parts s)
        }
        else Some (c, dk, parts));
     (_, c) \<leftarrow> Disk_GetInfo dk c;
     Some (c, dk, parts)
   }"

text \<open>The inner loop, with \<open>left\<close> disks of the machine not yet initialized.\<close>

fun InitDisk_disks :: "nat \<Rightarrow> nat \<Rightarrow> nat \<Rightarrow> nat \<Rightarrow> ide_chnl \<Rightarrow> disk list \<Rightarrow> part_ref list \<Rightarrow>
    (nat \<times> ide_chnl \<times> disk list \<times> part_ref list) option" where
  "InitDisk_disks depth chnl_idx disk_idx left c [] parts = Some (left, c, [], parts)"
| "InitDisk_disks depth chnl_idx disk_idx 0 c (dk # dks) parts = Some (0, c, dk # dks, parts)"
| "InitDisk_disks depth chnl_idx disk_idx (Suc left) c (dk # dks) parts = do {
     (c, dk, parts) \<leftarrow> InitDisk_disk depth chnl_idx disk_idx c dk parts;
     (left, c, dks, parts) \<leftarrow> InitDisk_disks depth chnl_idx (Suc disk_idx) left c dks parts;
     Some (left, c, dk # dks, parts)
   }"

definition InitDisk_chnl :: "nat \<Rightarrow> ide_chnl \<Rightarrow> ide_chnl option" where
  "InitDisk_chnl chnl_idx c = do {
     name \<leftarrow> format_name ''ide{}'' [FmtUInt (of_nat chnl_idx)];
     c \<leftarrow> IdeChnl_SetName name c;
     if chnl_idx = 0 then do {
       c \<leftarrow> IdeChnl_SetType Primary c;
       Some (IdeChnl_SetIntrNum (intr_num_code PrimaryIdeChnl) c)
     }
     else if chnl_idx = 1 then do {
       c \<leftarrow> IdeChnl_SetType Secondary c;
       Some (IdeChnl_SetIntrNum (intr_num_code SecondaryIdeChnl) c)
     }
     else None
   }"

text \<open>The outer loop over the channels from \<open>chnl_idx\<close> on; \<open>handler\<close> is the pointer to \<^verbatim>\<open>DiskIntrHandler\<close>.\<close>

fun InitDisk_chnls :: "nat \<Rightarrow> 'h \<Rightarrow> nat \<Rightarrow> nat \<Rightarrow> nat \<Rightarrow> disk_sys \<Rightarrow> 'h intr_handler_tab \<Rightarrow>
    (disk_sys \<times> 'h intr_handler_tab) option" where
  "InitDisk_chnls depth handler chnl_idx 0 left ds tab = Some (ds, tab)"
| "InitDisk_chnls depth handler chnl_idx (Suc n) left ds tab = do {
     Assert (chnl_idx < length (ds_chnls ds) \<and> chnl_idx < length (ds_disks ds));
     c \<leftarrow> InitDisk_chnl chnl_idx (ds_chnls ds ! chnl_idx);
     tab \<leftarrow> Register_handler (ch_intr_num c) handler tab;
     (left, c, dks, parts) \<leftarrow> InitDisk_disks depth chnl_idx 0 left c (ds_disks ds ! chnl_idx) (ds_parts ds);
     InitDisk_chnls depth handler (Suc chnl_idx) n left
       (ds\<lparr>ds_chnls := (ds_chnls ds)[chnl_idx := c], ds_disks := (ds_disks ds)[chnl_idx := dks], ds_parts := parts\<rparr>) tab
   }"

definition InitDisk :: "nat \<Rightarrow> 'h \<Rightarrow> u32 \<Rightarrow> bool \<Rightarrow> bool \<Rightarrow> disk_sys \<Rightarrow> 'h intr_handler_tab \<Rightarrow>
    (disk_sys \<times> 'h intr_handler_tab) option" where
  "InitDisk depth handler disk_count mem_inited intr_enabled ds tab = do {
     Assert (\<not> ds_inited ds);
     Assert mem_inited;
     Assert intr_enabled;
     Assert (disk_count > 0);
     chnl_count \<leftarrow> GetIdeChnlCount disk_count;
     (ds, tab) \<leftarrow> InitDisk_chnls depth handler 0 (unat chnl_count) (unat disk_count) ds tab;
     Some (ds\<lparr>ds_inited := True\<rparr>, tab)
   }"

section \<open>Addressing\<close>

lemma device_lba:
  assumes "unat lba < 2 ^ 28"
  shows "GetBits (ucast (DeviceReg_at m lba True) :: u32) 0 4 = GetBits lba 24 8"
proof (rule bit_word_eqI)
  fix i
  have "bit lba (24 + i) \<Longrightarrow> i < 4" for i using bit_word_bound [OF assms, of "24 + i"] by simp
  then show "bit (GetBits (ucast (DeviceReg_at m lba True) :: u32) 0 4) i = bit (GetBits lba 24 8) i"
    by (cases m) (auto simp: DeviceReg_at_def DeviceReg_Format_def DeviceReg_def DeviceReg_SetMbs_def DeviceReg_SetLba_def
        DeviceReg_SetLbaMode_def DeviceReg_SetMaster_def lba_24_27_pos_def lba_24_27_len_def mod_pos_def dev_pos_def
        bits_simps split: if_splits)
qed

lemma device_flags:
  "bit (DeviceReg_at m lba True) 6" "bit (DeviceReg_at m lba True) 4 \<longleftrightarrow> \<not> m"
  by (cases m; simp add: DeviceReg_at_def DeviceReg_Format_def DeviceReg_def DeviceReg_SetMbs_def DeviceReg_SetLba_def
      DeviceReg_SetLbaMode_def DeviceReg_SetMaster_def lba_24_27_pos_def lba_24_27_len_def mod_pos_def dev_pos_def
      bits_simps)+

text \<open>The four address registers together hold the sector number.\<close>

lemma lba_registers:
  assumes "unat lba < 2 ^ 28" "at_low d = LbaLowReg lba" "at_mid d = LbaMidReg lba" "at_high d = LbaHighReg lba"
    "at_dev d = DeviceReg_at m lba True"
  shows "ata_lba d = unat lba"
proof -
  have "ucast (LbaLowReg lba) OR push_bit 8 (ucast (LbaMidReg lba)) OR push_bit 16 (ucast (LbaHighReg lba)) OR
     push_bit 24 (GetBits lba 24 8) = lba"
  proof (rule bit_word_eqI)
    fix i assume i: "i < LENGTH(32)"
    consider "i < 8" | "8 \<le> i \<and> i < 16" | "16 \<le> i \<and> i < 24" | "24 \<le> i \<and> i < 32" using i by fastforce
    then show "bit (ucast (LbaLowReg lba) OR push_bit 8 (ucast (LbaMidReg lba)) OR push_bit 16 (ucast (LbaHighReg lba)) OR
       push_bit 24 (GetBits lba 24 8)) i = bit lba i"
      by cases (auto simp: LbaLowReg_def LbaMidReg_def LbaHighReg_def LbaReg_SetLba_def GetByte_def bits_simps
          bit_or_iff bit_push_bit_iff)
  qed
  then show ?thesis by (simp add: ata_lba_def assms(2-5) device_lba [OF assms(1)])
qed

lemma unat_256_u32: "unat (256 :: u32) = 256"
  by simp

lemma count_register:
  assumes "0 < n" "n \<le> max_sector_count_per_access"
  shows "\<exists>v. AdjustSectorCount n = Some v \<and> (if v = 0 then 256 else unat v) = unat n"
proof (cases "n = 256")
  case True
  then show ?thesis by (simp add: AdjustSectorCount_def max_sector_count_per_access_def)
next
  case False
  have "unat n \<le> 256" "0 < unat n" using assms
    by (simp_all add: max_sector_count_per_access_def word_le_nat_alt word_less_nat_alt)
  moreover have "unat n \<noteq> 256" using False by (metis unat_256_u32 word_unat_eq_iff)
  ultimately have lt: "unat n < 256" "0 < unat n" by simp_all
  have u: "unat (ucast n :: u8) = unat n"
    using lt by (simp add: unsigned_ucast_eq take_bit_nat_eq_self)
  then have "(ucast n :: u8) \<noteq> 0" using lt by auto
  with u False assms lt show ?thesis
    by (auto simp: AdjustSectorCount_def max_sector_count_per_access_def word_le_nat_alt)
qed

section \<open>A channel that works\<close>

text \<open>
  The channel is set up, idle, and its device answers within the time the driver waits; every sector and the
  identify data are 512 bytes.
\<close>

definition chnl_ok :: "ide_chnl \<Rightarrow> bool" where
  "chnl_ok c \<longleftrightarrow> ch_type c \<noteq> InvalidChnl \<and> at_base (ch_dev c) = ch_base_port c \<and>
     (ch_intr_num c = intr_num_code PrimaryIdeChnl \<or> ch_intr_num c = intr_num_code SecondaryIdeChnl) \<and>
     \<not> ch_disk_done c \<and> at_delay (ch_dev c) < 3000 \<and>
     (\<forall>b l. length (at_sectors (ch_dev c) b l) = sector_size) \<and> (\<forall>b. length (at_ident (ch_dev c) b) = sector_size)"

text \<open>What no driver operation changes.\<close>

definition chnl_same :: "ide_chnl \<Rightarrow> ide_chnl \<Rightarrow> bool" where
  "chnl_same c c' \<longleftrightarrow> ch_name c' = ch_name c \<and> ch_type c' = ch_type c \<and> ch_base_port c' = ch_base_port c \<and>
     ch_intr_num c' = ch_intr_num c \<and> at_base (ch_dev c') = at_base (ch_dev c) \<and>
     at_delay (ch_dev c') = at_delay (ch_dev c) \<and> at_ident (ch_dev c') = at_ident (ch_dev c)"

abbreviation sectors :: "ide_chnl \<Rightarrow> bool \<Rightarrow> nat \<Rightarrow> u8 list" where
  "sectors c \<equiv> at_sectors (ch_dev c)"

lemmas port_defs = IdeChnl_GetDataPort_def IdeChnl_GetSectorCountPort_def IdeChnl_GetLbaLowPort_def
  IdeChnl_GetLbaMidPort_def IdeChnl_GetLbaHighPort_def IdeChnl_GetDevicePort_def IdeChnl_GetStatusPort_def
  IdeChnl_GetCmdPort_def IdeChnl_port_def IdeChnl_GetBasePort_def

lemma chnl_same_refl [simp]: "chnl_same c c"
  by (simp add: chnl_same_def)

lemma chnl_same_trans: "chnl_same a b \<Longrightarrow> chnl_same b c \<Longrightarrow> chnl_same a c"
  by (simp add: chnl_same_def)

definition addressed :: "ide_chnl \<Rightarrow> bool \<Rightarrow> nat \<Rightarrow> nat \<Rightarrow> bool" where
  "addressed c slave lba n \<longleftrightarrow> ata_lba (ch_dev c) = lba \<and> ata_sector_count (ch_dev c) = n \<and>
     bit (at_dev (ch_dev c)) 6 \<and> (bit (at_dev (ch_dev c)) 4 \<longleftrightarrow> slave)"

lemma Select_ok:
  assumes "chnl_ok c" "dk_attached dk"
  shows "\<exists>c'. Disk_Select dk c = Some c' \<and> chnl_ok c' \<and> chnl_same c c' \<and> sectors c' = sectors c \<and>
    (bit (at_dev (ch_dev c')) 4 \<longleftrightarrow> dk_idx dk \<noteq> 0)"
  using assms
  by (auto simp: Disk_Select_def WriteByteToPort_def port_defs chnl_ok_def ata_out_def chnl_same_def
      DeviceReg_SetMaster_def DeviceReg_def DeviceReg_SetMbs_def dev_pos_def lba_24_27_pos_def lba_24_27_len_def
      bits_simps)

lemma SetSectors_ok:
  assumes "chnl_ok c" "dk_attached dk" "0 < n" "n \<le> max_sector_count_per_access"
    "unat lba + unat n \<le> unat max_lba"
  shows "\<exists>c'. Disk_SetSectors dk lba n c = Some c' \<and> chnl_ok c' \<and> chnl_same c c' \<and> sectors c' = sectors c \<and>
    addressed c' (dk_idx dk \<noteq> 0) (unat lba) (unat n)"
proof -
  obtain v where v: "AdjustSectorCount n = Some v" "(if v = 0 then 256 else unat v) = unat n"
    using count_register [OF assms(3,4)] by blast
  have m: "unat max_lba = 163839"
    by (simp add: max_lba_def max_size_def MB_def KB_def sector_size_def)
  have "unat (lba + n) = unat lba + unat n"
    using assms(5) m by (subst unat_add_lem [THEN iffD1]) simp_all
  then have b: "lba + n \<le> max_lba" using assms(5) by (simp add: word_le_nat_alt)
  have l: "unat lba < 2 ^ 28" using assms(5) m by simp
  define d where "d = (ch_dev c)\<lparr>at_count := v, at_low := LbaLowReg lba, at_mid := LbaMidReg lba,
      at_high := LbaHighReg lba, at_dev := DeviceReg_at (dk_idx dk = 0) lba True\<rparr>"
  have r: "Disk_SetSectors dk lba n c = Some (c\<lparr>ch_dev := d\<rparr>)"
    using assms(1-4) b v(1)
    by (simp add: Disk_SetSectors_def WriteByteToPort_def port_defs chnl_ok_def ata_out_def d_def)
  have "ata_lba d = unat lba" by (rule lba_registers [OF l]) (simp_all add: d_def)
  moreover have "ata_sector_count d = unat n" using v(2) by (auto simp: ata_sector_count_def d_def)
  ultimately have "addressed (c\<lparr>ch_dev := d\<rparr>) (dk_idx dk \<noteq> 0) (unat lba) (unat n)"
    by (simp add: addressed_def d_def device_flags)
  with r assms(1) show ?thesis by (auto simp: chnl_ok_def chnl_same_def d_def)
qed

text \<open>A command has been sent and its transfer waits for the driver.\<close>

definition awaiting :: "ide_chnl \<Rightarrow> disk_cmd \<Rightarrow> bool \<Rightarrow> nat \<Rightarrow> nat \<Rightarrow> bool" where
  "awaiting c cmd slave lba n \<longleftrightarrow> at_pend (ch_dev c) = Some (cmd, slave, lba, n) \<and> at_busy (ch_dev c) < 3000"

lemma SendCmd_ok:
  assumes "chnl_ok c" "dk_attached dk" "addressed c slave lba n" "cmd = CmdRead \<or> cmd = CmdWrite"
  shows "\<exists>c'. Disk_SendCmd dk cmd c = Some c' \<and> chnl_ok c' \<and> chnl_same c c' \<and> sectors c' = sectors c \<and>
    awaiting c' cmd slave lba n \<and> ch_waiting_intr c' \<and> (cmd = CmdRead \<longrightarrow> at_irq (ch_dev c'))"
  using assms
  by (auto simp: Disk_SendCmd_def IdeChnl_NeedToWaitForIntr_def WriteByteToPort_def port_defs chnl_ok_def
      ata_out_def ata_command_def addressed_def awaiting_def chnl_same_def Let_def)

lemma chnl_block_ok:
  assumes "chnl_ok c" "ch_waiting_intr c" "at_irq (ch_dev c)"
  shows "\<exists>c'. IdeChnl_Block c = Some c' \<and> chnl_ok c' \<and> chnl_same c c' \<and> sectors c' = sectors c \<and>
    at_pend (ch_dev c') = at_pend (ch_dev c) \<and> at_busy (ch_dev c') = 0 \<and> \<not> ch_waiting_intr c'"
  using assms
  by (auto simp: IdeChnl_Block_def ata_wait_def DiskIntrHandler_def IdeChnl_NeedToWaitForIntr_def IdeChnl_Unblock_def
      ClearCurrIntr_def ReadStatusPort_def ata_status_def port_defs chnl_ok_def chnl_same_def)

lemma status_bits:
  "StatusReg_IsDeviceBusy 0x80" "\<not> StatusReg_IsDeviceBusy 0x48" "StatusReg_IsDataPrepared 0x48"
  by (simp_all add: StatusReg_IsDeviceBusy_def StatusReg_IsDataPrepared_def IsBitSet_def)

lemma BusyWait_loop_ok:
  assumes "chnl_ok c" "at_pend (ch_dev c) \<noteq> None" "t + 10 * at_busy (ch_dev c) < max_wait_time"
  shows "\<exists>c'. BusyWait_loop t c = Some (True, c') \<and> chnl_ok c' \<and> chnl_same c c' \<and> sectors c' = sectors c \<and>
    at_pend (ch_dev c') = at_pend (ch_dev c) \<and> at_busy (ch_dev c') = 0 \<and> ch_waiting_intr c' = ch_waiting_intr c"
  using assms
proof (induction "at_busy (ch_dev c)" arbitrary: c t)
  case 0
  let ?c = "c\<lparr>ch_dev := (ch_dev c)\<lparr>at_irq := False\<rparr>\<rparr>"
  have "BusyWait_loop t c = Some (True, ?c)"
    using 0 by (subst BusyWait_loop.simps)
      (simp add: ReadStatusPort_def ata_status_def port_defs chnl_ok_def status_bits)
  with 0 show ?case by (auto simp: chnl_ok_def chnl_same_def)
next
  case (Suc b)
  let ?c = "c\<lparr>ch_dev := (ch_dev c)\<lparr>at_busy := b, at_irq := False\<rparr>\<rparr>"
  have b: "at_busy (ch_dev c) = Suc b" using Suc.hyps(2) by simp
  have "BusyWait_loop t c = BusyWait_loop (t + sleep_time) ?c"
    using Suc.prems b by (subst BusyWait_loop.simps)
      (simp add: ReadStatusPort_def ata_status_def port_defs chnl_ok_def status_bits)
  moreover have "chnl_ok ?c" "chnl_same c ?c" "sectors ?c = sectors c"
    using Suc.prems by (simp_all add: chnl_ok_def chnl_same_def)
  moreover from Suc.hyps(1) [of ?c "t + sleep_time"] Suc.prems b
  have "\<exists>c'. BusyWait_loop (t + sleep_time) ?c = Some (True, c') \<and> chnl_ok c' \<and> chnl_same ?c c' \<and> sectors c' = sectors ?c \<and>
    at_pend (ch_dev c') = at_pend (ch_dev ?c) \<and> at_busy (ch_dev c') = 0 \<and> ch_waiting_intr c' = ch_waiting_intr ?c"
    by (simp add: sleep_time_def chnl_ok_def)
  ultimately show ?case using chnl_same_trans by auto
qed

lemma BusyWait_ok:
  assumes "chnl_ok c" "dk_attached dk" "awaiting c cmd slave lba n"
  shows "\<exists>c'. Disk_BusyWait dk c = Some (True, c') \<and> chnl_ok c' \<and> chnl_same c c' \<and> sectors c' = sectors c \<and>
    awaiting c' cmd slave lba n \<and> ch_waiting_intr c' = ch_waiting_intr c"
  using BusyWait_loop_ok [of c 0] assms by (auto simp: Disk_BusyWait_def awaiting_def max_wait_time_def)

text \<open>The bytes of a run of sectors.\<close>

definition run_bytes :: "(nat \<Rightarrow> u8 list) \<Rightarrow> nat \<Rightarrow> nat \<Rightarrow> u8 list" where
  "run_bytes f lba n = concat (map f [lba..<lba + n])"

lemma length_run_bytes: "(\<And>l. length (f l) = sector_size) \<Longrightarrow> length (run_bytes f lba n) = n * sector_size"
  by (induction n) (auto simp: run_bytes_def)

lemma run_bytes_append: "run_bytes f lba (m + n) = run_bytes f lba m @ run_bytes f (lba + m) n"
proof -
  have "[lba..<lba + (m + n)] = [lba..<lba + m] @ [lba + m..<lba + m + n]"
    using upt_add_eq_append [of lba "lba + m" n] by (simp add: add.assoc)
  then show ?thesis by (simp add: run_bytes_def)
qed

text \<open>The registers, the command and the transfer of one access.\<close>

lemma read_access:
  assumes "chnl_ok c" "dk_attached dk" "0 < n" "n \<le> max_sector_count_per_access"
    "unat lba + unat n \<le> unat max_lba"
  shows "\<exists>c1 c2 c3 c4 c'. Disk_SetSectors dk lba n c = Some c1 \<and> Disk_SendCmd dk CmdRead c1 = Some c2 \<and>
    IdeChnl_Block c2 = Some c3 \<and> Disk_BusyWait dk c3 = Some (True, c4) \<and>
    Disk_ReadWords dk (unat n * sector_size div 2) c4 =
      Some (run_bytes (sectors c (dk_idx dk \<noteq> 0)) (unat lba) (unat n), c') \<and>
    chnl_ok c' \<and> chnl_same c c' \<and> sectors c' = sectors c"
proof -
  let ?b = "dk_idx dk \<noteq> 0"
  obtain c1 where c1: "Disk_SetSectors dk lba n c = Some c1" "chnl_ok c1" "chnl_same c c1" "sectors c1 = sectors c"
    "addressed c1 ?b (unat lba) (unat n)"
    using SetSectors_ok [OF assms] by blast
  obtain c2 where c2: "Disk_SendCmd dk CmdRead c1 = Some c2" "chnl_ok c2" "chnl_same c1 c2" "sectors c2 = sectors c1"
    "awaiting c2 CmdRead ?b (unat lba) (unat n)" "ch_waiting_intr c2" "at_irq (ch_dev c2)"
    using SendCmd_ok [OF c1(2) assms(2) c1(5), of CmdRead] by auto
  obtain c3 where c3: "IdeChnl_Block c2 = Some c3" "chnl_ok c3" "chnl_same c2 c3" "sectors c3 = sectors c2"
    "awaiting c3 CmdRead ?b (unat lba) (unat n)"
    using chnl_block_ok [OF c2(2,6,7)] c2(5) by (auto simp: awaiting_def)
  obtain c4 where c4: "Disk_BusyWait dk c3 = Some (True, c4)" "chnl_ok c4" "chnl_same c3 c4" "sectors c4 = sectors c3"
    "awaiting c4 CmdRead ?b (unat lba) (unat n)"
    using BusyWait_ok [OF c3(2) assms(2) c3(5)] by blast
  let ?c = "c4\<lparr>ch_dev := (ch_dev c4)\<lparr>at_pend := None\<rparr>\<rparr>"
  have "0 < unat n" using assms(3) by (simp add: word_less_nat_alt)
  then have "Disk_ReadWords dk (unat n * sector_size div 2) c4 =
      Some (run_bytes (sectors c4 ?b) (unat lba) (unat n), ?c)"
    using c4(2,5) assms(2)
    by (simp add: Disk_ReadWords_def port_defs chnl_ok_def awaiting_def ata_in_words_def run_bytes_def sector_size_def)
  moreover have "chnl_ok ?c" "chnl_same c4 ?c" "sectors ?c = sectors c4"
    using c4(2) by (simp_all add: chnl_ok_def chnl_same_def)
  moreover have s: "sectors c4 = sectors c" using c1(4) c2(4) c3(4) c4(4) by simp
  moreover have "chnl_same c c4"
    using chnl_same_trans [OF chnl_same_trans [OF chnl_same_trans [OF c1(3) c2(3)] c3(3)] c4(3)] .
  ultimately show ?thesis
    using c1(1) c2(1) c3(1) c4(1) chnl_same_trans [of c c4 ?c]
    by (intro exI [of _ c1] exI [of _ c2] exI [of _ c3] exI [of _ c4] exI [of _ ?c] conjI)
      (simp_all only: s)
qed

text \<open>Writing bytes over a run of sectors.\<close>

definition put_run :: "(nat \<Rightarrow> u8 list) \<Rightarrow> nat \<Rightarrow> nat \<Rightarrow> u8 list \<Rightarrow> nat \<Rightarrow> u8 list" where
  "put_run f lba n bytes l = (if lba \<le> l \<and> l < lba + n then chunk bytes (l - lba) else f l)"

lemma write_access:
  assumes "chnl_ok c" "dk_attached dk" "0 < n" "n \<le> max_sector_count_per_access"
    "unat lba + unat n \<le> unat max_lba" "unat n * sector_size \<le> length data"
  shows "\<exists>c1 c2 c3 c4 c'. Disk_SetSectors dk lba n c = Some c1 \<and> Disk_SendCmd dk CmdWrite c1 = Some c2 \<and>
    Disk_BusyWait dk c2 = Some (True, c3) \<and>
    Disk_WriteWords dk data (unat n * sector_size div 2) c3 = Some c4 \<and> IdeChnl_Block c4 = Some c' \<and>
    chnl_ok c' \<and> chnl_same c c' \<and>
    sectors c' = (sectors c)(dk_idx dk \<noteq> 0 := put_run (sectors c (dk_idx dk \<noteq> 0)) (unat lba) (unat n) data)"
proof -
  define b where "b \<longleftrightarrow> dk_idx dk \<noteq> 0"
  obtain c1 where c1: "Disk_SetSectors dk lba n c = Some c1" "chnl_ok c1" "chnl_same c c1" "sectors c1 = sectors c"
    "addressed c1 b (unat lba) (unat n)"
    using SetSectors_ok [OF assms(1-5)] by (auto simp: b_def)
  obtain c2 where c2: "Disk_SendCmd dk CmdWrite c1 = Some c2" "chnl_ok c2" "chnl_same c1 c2" "sectors c2 = sectors c1"
    "awaiting c2 CmdWrite b (unat lba) (unat n)" "ch_waiting_intr c2"
    using SendCmd_ok [OF c1(2) assms(2) c1(5), of CmdWrite] by auto
  obtain c3 where c3: "Disk_BusyWait dk c2 = Some (True, c3)" "chnl_ok c3" "chnl_same c2 c3" "sectors c3 = sectors c2"
    "awaiting c3 CmdWrite b (unat lba) (unat n)" "ch_waiting_intr c3"
    using BusyWait_ok [OF c2(2) assms(2) c2(5)] c2(6) by auto
  have sc: "sectors c3 = sectors c" using c1(4) c2(4) c3(4) by simp
  define data' where "data' = take (unat n * sector_size) data"
  define f where "f = (\<lambda>l. if unat lba \<le> l \<and> l < unat lba + unat n then chunk data' (l - unat lba) else sectors c b l)"
  define c4 where "c4 = c3\<lparr>ch_dev := (ch_dev c3)\<lparr>at_sectors := (sectors c)(b := f), at_pend := None, at_irq := True\<rparr>\<rparr>"
  have n: "0 < unat n" using assms(3) by (simp add: word_less_nat_alt)
  have "even (unat n * sector_size)" by (simp add: sector_size_def)
  then have tw: "unat n * sector_size div 2 * 2 = unat n * sector_size" by simp
  have len: "length data' = unat n * sector_size" using assms(6) by (simp add: data'_def)
  have w: "Disk_WriteWords dk data (unat n * sector_size div 2) c3 = Some c4"
  proof -
    have "ata_out_words data' (ch_dev c3) = Some (ch_dev c4)"
      using c3(5) sc len by (simp add: ata_out_words_def awaiting_def c4_def f_def cong: if_cong)
    moreover have "take (unat n * sector_size div 2 * 2) data = data'" by (simp add: tw data'_def)
    moreover have "0 < unat n * sector_size div 2" using n by (simp add: sector_size_def)
    ultimately show ?thesis
      using assms(2,6) c3(2) unfolding Disk_WriteWords_def
      by (simp add: port_defs chnl_ok_def tw c4_def)
  qed
  have ch: "chunk data' i = chunk data i \<and> length (chunk data i) = sector_size" if "i < unat n" for i
  proof -
    have "Suc i * sector_size \<le> unat n * sector_size" using that by (intro mult_le_mono1) simp
    then have le: "i * sector_size + sector_size \<le> unat n * sector_size" by (simp add: add.commute)
    then have "take sector_size (drop (i * sector_size) data') = take sector_size (drop (i * sector_size) data)"
      unfolding data'_def drop_take by (simp add: min_def)
    moreover have "length (take sector_size (drop (i * sector_size) data)) = sector_size"
      using le assms(6) by simp
    ultimately show ?thesis by (simp add: chunk_def)
  qed
  have f: "f = put_run (sectors c b) (unat lba) (unat n) data"
    using ch by (auto simp: f_def put_run_def fun_eq_iff)
  have lf: "length (f l) = sector_size" for l
    using ch [of "l - unat lba"] assms(1) by (auto simp: f chnl_ok_def put_run_def)
  have "chnl_ok c4" "ch_waiting_intr c4" "at_irq (ch_dev c4)" "chnl_same c3 c4"
    using c3(2,6) lf assms(1) by (auto simp: chnl_ok_def c4_def chnl_same_def)
  from chnl_block_ok [OF this(1-3)] this(4) obtain c' where c': "IdeChnl_Block c4 = Some c'" "chnl_ok c'" "chnl_same c4 c'"
    "sectors c' = sectors c4" "chnl_same c3 c4" by auto
  have "chnl_same c c'"
    using chnl_same_trans [OF chnl_same_trans [OF chnl_same_trans [OF chnl_same_trans [OF c1(3) c2(3)] c3(3)] c'(5)] c'(3)] .
  moreover have "sectors c' = (sectors c)(b := put_run (sectors c b) (unat lba) (unat n) data)"
    using c'(4) by (simp add: c4_def f)
  ultimately show ?thesis
    using c1(1) c2(1) c3(1) w c'(1,2) by (auto simp: b_def)
qed

lemma overwrite_overwrite:
  "off + length a + length b \<le> length buf \<Longrightarrow>
   overwrite (overwrite buf off a) (off + length a) b = overwrite buf off (a @ b)"
  by (simp add: overwrite_def add.assoc add.commute [of "length b"])

lemma ReadSectors_loop_ok:
  assumes "chnl_ok c" "dk_attached dk" "unat start + unat n \<le> unat max_lba" "unat r \<le> unat n"
    "unat n * sector_size \<le> length buf"
  shows "\<exists>c'. ReadSectors_loop dk start n r buf c =
      Some (overwrite buf (unat r * sector_size) (run_bytes (sectors c (dk_idx dk \<noteq> 0)) (unat start + unat r) (unat n - unat r)), c') \<and>
    chnl_ok c' \<and> chnl_same c c' \<and> sectors c' = sectors c"
  using assms
proof (induction "unat n - unat r" arbitrary: r buf c rule: less_induct)
  case less
  define f where "f = sectors c (dk_idx dk \<noteq> 0)"
  have lf: "length (f l) = sector_size" for l using less.prems(1) by (simp add: chnl_ok_def f_def)
  show ?case
  proof (cases "r < n")
    case False
    then have "unat r = unat n" using less.prems(4) by (simp add: word_less_nat_alt)
    with False less.prems(1) show ?thesis
      by (subst ReadSectors_loop.simps) (simp add: run_bytes_def)
  next
    case True
    define m where "m = min (n - r) max_sector_count_per_access"
    have m: "unat m = min (unat n - unat r) 256" "unat (r + m) = unat r + unat m"
      using next_count [OF True] by (simp_all add: m_def)
    have lt: "unat r < unat n" using True by (simp add: word_less_nat_alt)
    have ms: "0 < m" "m \<le> max_sector_count_per_access" "unat m \<le> unat n - unat r" "0 < unat m"
      using m(1) lt by (simp_all add: word_less_nat_alt word_le_nat_alt max_sector_count_per_access_def)
    have sr: "unat (start + r) = unat start + unat r"
      using less.prems(3) lt by (subst unat_add_lem [THEN iffD1])
        (simp_all add: max_lba_def max_size_def MB_def KB_def sector_size_def)
    obtain c1 c2 c3 c4 c5 where a: "Disk_SetSectors dk (start + r) m c = Some c1" "Disk_SendCmd dk CmdRead c1 = Some c2"
      "IdeChnl_Block c2 = Some c3" "Disk_BusyWait dk c3 = Some (True, c4)"
      "Disk_ReadWords dk (unat m * sector_size div 2) c4 = Some (run_bytes f (unat start + unat r) (unat m), c5)"
      "chnl_ok c5" "chnl_same c c5" "sectors c5 = sectors c"
      using read_access [OF less.prems(1,2) ms(1,2), of "start + r"] sr less.prems(3) ms(3) lt
      unfolding f_def by force
    define bytes where "bytes = run_bytes f (unat start + unat r) (unat m)"
    have lb: "length bytes = unat m * sector_size" by (simp add: bytes_def length_run_bytes lf)
    have "(unat r + unat m) * sector_size \<le> unat n * sector_size" using ms(3) lt by (intro mult_le_mono1) simp
    then have fit: "unat r * sector_size + length bytes \<le> length buf" using less.prems(5) lb by (simp add: distrib_right)
    let ?buf = "overwrite buf (unat r * sector_size) bytes"
    have step: "ReadSectors_loop dk start n r buf c = ReadSectors_loop dk start n (r + m) ?buf c5"
      using True a(1-5) fit by (subst ReadSectors_loop.simps) (simp add: m_def [symmetric] bytes_def [symmetric])
    have "unat n - unat (r + m) < unat n - unat r" "unat (r + m) \<le> unat n" "unat n * sector_size \<le> length ?buf"
      using m(2) ms(3,4) lt less.prems(5) fit by auto
    from less.hyps [OF this(1) a(6) less.prems(2,3) this(2,3)] obtain c' where c':
      "ReadSectors_loop dk start n (r + m) ?buf c5 = Some (overwrite ?buf (unat (r + m) * sector_size)
         (run_bytes f (unat start + unat (r + m)) (unat n - unat (r + m))), c')"
      "chnl_ok c'" "chnl_same c5 c'" "sectors c' = sectors c5"
      by (auto simp: a(8) f_def)
    define rest where "rest = run_bytes f (unat start + unat (r + m)) (unat n - unat (r + m))"
    have lr: "length rest = (unat n - unat (r + m)) * sector_size" by (simp add: rest_def length_run_bytes lf)
    have off: "unat (r + m) * sector_size = unat r * sector_size + length bytes" by (simp add: m(2) lb distrib_right)
    have "(unat r + unat m + (unat n - unat (r + m))) * sector_size = unat n * sector_size" using m(2) ms(3) lt by simp
    then have all: "unat r * sector_size + length bytes + length rest \<le> length buf"
      using less.prems(5) lb lr by (simp add: distrib_right)
    have "bytes @ rest = run_bytes f (unat start + unat r) (unat n - unat r)"
      using run_bytes_append [of f "unat start + unat r" "unat m" "unat n - unat (r + m)"] m(2) ms(3) lt
      by (simp add: bytes_def rest_def add.assoc)
    then have "overwrite ?buf (unat (r + m) * sector_size) rest =
        overwrite buf (unat r * sector_size) (run_bytes f (unat start + unat r) (unat n - unat r))"
      unfolding off using overwrite_overwrite [OF all] by simp
    then show ?thesis
      using step c' a(8) chnl_same_trans [OF a(7) c'(3)] unfolding f_def [symmetric] rest_def by auto
  qed
qed

lemma chunk_drop: "chunk (drop (m * sector_size) data) i = chunk data (m + i)"
  by (simp add: chunk_def add.commute distrib_right)

lemma put_run_put_run:
  "put_run (put_run f l m data) (l + m) k (drop (m * sector_size) data) = put_run f l (m + k) data"
  by (auto simp: put_run_def fun_eq_iff chunk_drop)

lemma put_run_0 [simp]: "put_run f l 0 data = f"
  by (auto simp: put_run_def fun_eq_iff)

lemma run_bytes_put_run:
  "length data = n * sector_size \<Longrightarrow> run_bytes (put_run f l n data) l n = data"
proof -
  have "m * sector_size \<le> length data \<Longrightarrow> m \<le> n \<Longrightarrow> run_bytes (put_run f l n data) l m = take (m * sector_size) data" for m
  proof (induction m)
    case (Suc m)
    have "run_bytes (put_run f l n data) l (Suc m) = run_bytes (put_run f l n data) l m @ put_run f l n data (l + m)"
      by (simp add: run_bytes_def)
    moreover have "put_run f l n data (l + m) = chunk data m" using Suc.prems(2) by (simp add: put_run_def)
    ultimately have "run_bytes (put_run f l n data) l (Suc m) = take (m * sector_size) data @ chunk data m"
      using Suc by simp
    moreover have "Suc m * sector_size = m * sector_size + sector_size" by simp
    ultimately show ?case by (simp only: chunk_def take_add)
  qed (simp add: run_bytes_def)
  then show "length data = n * sector_size \<Longrightarrow> ?thesis" by simp
qed

lemma WriteSectors_loop_ok:
  assumes "chnl_ok c" "dk_attached dk" "unat start + unat n \<le> unat max_lba" "unat r \<le> unat n"
    "unat n * sector_size \<le> length data"
  shows "\<exists>c'. WriteSectors_loop dk start data n r c = Some c' \<and> chnl_ok c' \<and> chnl_same c c' \<and>
    sectors c' = (sectors c)(dk_idx dk \<noteq> 0 := put_run (sectors c (dk_idx dk \<noteq> 0)) (unat start + unat r) (unat n - unat r)
      (drop (unat r * sector_size) data))"
  using assms
proof (induction "unat n - unat r" arbitrary: r c rule: less_induct)
  case less
  define b where "b \<longleftrightarrow> dk_idx dk \<noteq> 0"
  show ?case
  proof (cases "r < n")
    case False
    then have "unat r = unat n" using less.prems(4) by (simp add: word_less_nat_alt)
    with False less.prems(1) show ?thesis
      by (subst WriteSectors_loop.simps) simp
  next
    case True
    define m where "m = min (n - r) max_sector_count_per_access"
    have m: "unat m = min (unat n - unat r) 256" "unat (r + m) = unat r + unat m"
      using next_count [OF True] by (simp_all add: m_def)
    have lt: "unat r < unat n" using True by (simp add: word_less_nat_alt)
    have ms: "0 < m" "m \<le> max_sector_count_per_access" "unat m \<le> unat n - unat r" "0 < unat m"
      using m(1) lt by (simp_all add: word_less_nat_alt word_le_nat_alt max_sector_count_per_access_def)
    have sr: "unat (start + r) = unat start + unat r"
      using less.prems(3) lt by (subst unat_add_lem [THEN iffD1])
        (simp_all add: max_lba_def max_size_def MB_def KB_def sector_size_def)
    have "(unat r + unat m) * sector_size \<le> unat n * sector_size" using ms(3) lt by (intro mult_le_mono1) simp
    then have fit: "unat m * sector_size \<le> length (drop (unat r * sector_size) data)"
      using less.prems(5) by (simp add: distrib_right)
    have rng: "unat (start + r) + unat m \<le> unat max_lba" using sr less.prems(3) ms(3) lt by simp
    obtain c1 c2 c3 c4 c5 where a: "Disk_SetSectors dk (start + r) m c = Some c1" "Disk_SendCmd dk CmdWrite c1 = Some c2"
      "Disk_BusyWait dk c2 = Some (True, c3)"
      "Disk_WriteWords dk (drop (unat r * sector_size) data) (unat m * sector_size div 2) c3 = Some c4"
      "IdeChnl_Block c4 = Some c5" "chnl_ok c5" "chnl_same c c5"
      "sectors c5 = (sectors c)(b := put_run (sectors c b) (unat start + unat r) (unat m) (drop (unat r * sector_size) data))"
      using write_access [OF less.prems(1,2) ms(1,2) rng fit] unfolding sr b_def by blast
    have step: "WriteSectors_loop dk start data n r c = WriteSectors_loop dk start data n (r + m) c5"
      using True a(1-5) by (subst WriteSectors_loop.simps) (simp add: m_def [symmetric])
    have "unat n - unat (r + m) < unat n - unat r" "unat (r + m) \<le> unat n"
      using m(2) ms(3,4) lt by auto
    from less.hyps [OF this(1) a(6) less.prems(2,3) this(2) less.prems(5)] obtain c' where c':
      "WriteSectors_loop dk start data n (r + m) c5 = Some c'" "chnl_ok c'" "chnl_same c5 c'"
      "sectors c' = (sectors c5)(b := put_run (sectors c5 b) (unat start + unat (r + m)) (unat n - unat (r + m))
         (drop (unat (r + m) * sector_size) data))"
      by (auto simp: b_def)
    have d: "drop (unat (r + m) * sector_size) data = drop (unat m * sector_size) (drop (unat r * sector_size) data)"
      unfolding m(2) by (simp add: distrib_right add.commute)
    have "unat m + (unat n - unat (r + m)) = unat n - unat r" using m(2) ms(3) lt by simp
    then have "sectors c' = (sectors c)(b := put_run (sectors c b) (unat start + unat r) (unat n - unat r)
        (drop (unat r * sector_size) data))"
      unfolding c'(4) a(8) d using put_run_put_run [of "sectors c b" "unat start + unat r" "unat m"
          "drop (unat r * sector_size) data" "unat n - unat (r + m)"] by (simp add: m(2) add.assoc)
    then show ?thesis
      using step c'(1,2) chnl_same_trans [OF a(7) c'(3)] unfolding b_def by auto
  qed
qed

lemma in_range:
  assumes "unat start + unat n \<le> unat max_lba"
  shows "start + n \<le> max_lba"
proof -
  have "unat (start + n) = unat start + unat n"
    using assms by (subst unat_add_lem [THEN iffD1]) (simp_all add: max_lba_def max_size_def MB_def KB_def sector_size_def)
  then show ?thesis using assms by (simp add: word_le_nat_alt)
qed

lemma ReadSectors_ok:
  assumes "chnl_ok c" "dk_attached dk" "0 < n" "unat start + unat n \<le> unat max_lba" "unat n * sector_size \<le> length buf"
  shows "\<exists>c'. Disk_ReadSectors dk start buf n c =
      Some (overwrite buf 0 (run_bytes (sectors c (dk_idx dk \<noteq> 0)) (unat start) (unat n)), c') \<and>
    chnl_ok c' \<and> chnl_same c c' \<and> sectors c' = sectors c"
proof -
  obtain c1 where c1: "Disk_Select dk c = Some c1" "chnl_ok c1" "chnl_same c c1" "sectors c1 = sectors c"
    using Select_ok [OF assms(1,2)] by blast
  from ReadSectors_loop_ok [OF c1(2) assms(2,4) _ assms(5), of 0] c1 assms(3) in_range [OF assms(4)] chnl_same_trans [OF c1(3)]
  show ?thesis by (auto simp: Disk_ReadSectors_def)
qed

lemma WriteSectors_ok:
  assumes "chnl_ok c" "dk_attached dk" "0 < n" "unat start + unat n \<le> unat max_lba" "unat n * sector_size \<le> length data"
  shows "\<exists>c'. Disk_WriteSectors dk start data n c = Some c' \<and> chnl_ok c' \<and> chnl_same c c' \<and>
    sectors c' = (sectors c)(dk_idx dk \<noteq> 0 := put_run (sectors c (dk_idx dk \<noteq> 0)) (unat start) (unat n) data)"
proof -
  obtain c1 where c1: "Disk_Select dk c = Some c1" "chnl_ok c1" "chnl_same c c1" "sectors c1 = sectors c"
    using Select_ok [OF assms(1,2)] by blast
  from WriteSectors_loop_ok [OF c1(2) assms(2,4) _ assms(5), of 0] c1 assms(3) in_range [OF assms(4)] chnl_same_trans [OF c1(3)]
  show ?thesis by (auto simp: Disk_WriteSectors_def)
qed

section \<open>Properties\<close>


definition blank_chnl :: ide_chnl where
  "blank_chnl = \<lparr>ch_name = replicate 9 NUL, ch_type = Secondary, ch_base_port = 0x170, ch_intr_num = 0x2F,
     ch_waiting_intr = False, ch_disk_done = False,
     ch_dev = \<lparr>at_base = 0x170, at_count = 0, at_low = 0, at_mid = 0, at_high = 0, at_dev = 0, at_pend = None,
       at_busy = 0, at_delay = 7, at_irq = False, at_sectors = \<lambda>_ _. replicate 512 0, at_ident = \<lambda>_. replicate 512 0\<rparr>\<rparr>"

definition blank_disk :: disk where
  "blank_disk = \<lparr>dk_name = ''sdb'' @ replicate 6 NUL, dk_prim_parts = replicate 4 part_empty,
     dk_logic_parts = replicate 8 part_empty, dk_attached = True, dk_idx = 1\<rparr>"

lemma blank_chnl_ok: "chnl_ok blank_chnl"
  by (simp add: chnl_ok_def blank_chnl_def sector_size_def start_usr_intr_num_def)


end
