(* ===== verification/DiskParts.thy ===== *)
theory DiskParts
  imports Disks
begin

text \<open>
  The scan for partitions, \<^verbatim>\<open>Disk::ScanParts\<close>: what it finds on a disk with primary partitions and a chain of
  logical disks in an extended partition, and what happens when the chain is cyclic.
\<close>

section \<open>Names\<close>

lemma format_name_ok:
  assumes "list_all arg_ok args" "f \<noteq> []" "NUL \<notin> set f" "length f < npos" "length (expand f args) < 7"
  shows "\<exists>v src. format_name f args = Some v \<and> sv_str v = Some src \<and> NUL \<in> set src"
proof -
  have t: "sv_text (literal f) f" using assms(3) by (simp add: sv_text_def literal_def)
  obtain buf where b: "FormatLoop (replicate 8 NUL) 0 (literal f) args 0 0 = Some (length (expand f args), buf)"
    "written (replicate 8 NUL) buf 0 (expand f args)"
    using FormatLoop_written [OF t assms(4), of 0 args 0 0 "replicate 8 NUL"] assms(1,5) by auto
  have "drop (Suc (length (expand f args))) buf = replicate (7 - length (expand f args)) NUL"
    using b(2) by (simp add: written_def)
  then have "NUL \<in> set (drop (Suc (length (expand f args))) buf)" using assms(5) by simp
  then have n: "NUL \<in> set buf" by (meson in_set_dropD)
  then obtain k where "strlen buf = Some k" by (metis option.exhaust strlen_None)
  then show ?thesis
    using b(1) n assms(2) by (simp add: format_name_def FormatStringBuffer_def sv_empty_def literal_def sv_of_def)
qed

lemma set_name_ok:
  assumes "sv_str v = Some src" "NUL \<in> set src" "0 < length buf"
  shows "\<exists>buf'. set_name buf v = Some buf' \<and> length buf' = length buf"
  using assms strcpy_s_eq [of src "length buf" buf] by (auto simp: set_name_def memset_eq)

definition name_fits :: "char list \<Rightarrow> bool" where
  "name_fits name \<longleftrightarrow> NUL \<in> set name \<and> length (cstr name) \<le> 4"

lemma part_label_ok:
  assumes "name_fits name" "n < 100"
  shows "\<exists>v src. part_label name n = Some v \<and> sv_str v = Some src \<and> NUL \<in> set src"
proof -
  have u: "unat (of_nat n :: u32) = n" using assms(2) by (intro unat_of_nat_u32) simp
  have "length (digits 10 n) \<le> 2" using assms(2) by (intro digits_length) simp_all
  then show ?thesis
    unfolding part_label_def by (intro format_name_ok) (use assms u in \<open>simp_all add: name_fits_def npos_unfold\<close>)
qed

section \<open>One partition\<close>

definition scan_ok :: "scan \<Rightarrow> bool" where
  "scan_ok s \<longleftrightarrow> chnl_ok (sn_chnl s) \<and> dk_attached (sn_disk s) \<and> name_fits (dk_name (sn_disk s)) \<and>
     length (dk_prim_parts (sn_disk s)) = prim_part_count \<and> length (dk_logic_parts (sn_disk s)) = max_logic_part_count \<and>
     list_all (\<lambda>p. length (pt_name p) = 9) (dk_prim_parts (sn_disk s)) \<and>
     list_all (\<lambda>p. length (pt_name p) = 9) (dk_logic_parts (sn_disk s))"

text \<open>Where a partition lies.\<close>

definition extent :: "part \<Rightarrow> u32 \<times> u32" where
  "extent p = (pt_start_lba p, pt_sector_count p)"

lemma Part_SetName_ok:
  assumes "sv_str v = Some src" "NUL \<in> set src" "length (pt_name p) = 9"
  shows "\<exists>p'. Part_SetName v p = Some p' \<and> extent p' = extent p \<and> pt_disk p' = pt_disk p \<and> length (pt_name p') = 9"
  using set_name_ok [OF assms(1,2), of "pt_name p"] assms(3) by (auto simp: Part_SetName_def extent_def)

lemma list_all_update: "list_all P xs \<Longrightarrow> P y \<Longrightarrow> list_all P (xs[i := y])"
  by (cases "i < length xs") (auto simp: list_all_length nth_list_update)

lemma add_logic_ok:
  assumes "scan_ok s" "sn_logic_idx s < max_logic_part_count"
  shows "\<exists>s'. add_logic me lba e s = Some s' \<and> scan_ok s' \<and> sn_logic_idx s' = Suc (sn_logic_idx s) \<and>
    sn_prim_idx s' = sn_prim_idx s \<and> sn_ext_lba_base s' = sn_ext_lba_base s \<and>
    sectors (sn_chnl s') = sectors (sn_chnl s) \<and> dk_idx (sn_disk s') = dk_idx (sn_disk s) \<and>
    sn_parts s' = sn_parts s @ [LogicPart me (sn_logic_idx s)] \<and>
    map extent (dk_prim_parts (sn_disk s')) = map extent (dk_prim_parts (sn_disk s)) \<and>
    map extent (dk_logic_parts (sn_disk s')) =
      (map extent (dk_logic_parts (sn_disk s)))[sn_logic_idx s := (lba + pe_start_lba e, pe_sector_count e)]"
proof -
  let ?i = "sn_logic_idx s" and ?dk = "sn_disk s"
  let ?l = "(dk_logic_parts ?dk ! ?i)\<lparr>pt_start_lba := lba + pe_start_lba e, pt_sector_count := pe_sector_count e, pt_disk := True\<rparr>"
  have i: "?i < length (dk_logic_parts ?dk)" using assms by (simp add: scan_ok_def)
  have "?i + 1 + prim_part_count < 100" using assms(2) by (simp add: max_logic_part_count_def prim_part_count_def)
  with assms(1) obtain v src where v: "part_label (dk_name ?dk) (?i + 1 + prim_part_count) = Some v"
    "sv_str v = Some src" "NUL \<in> set src" using part_label_ok unfolding scan_ok_def by blast
  have "length (pt_name ?l) = 9" using assms(1) i by (simp add: scan_ok_def list_all_length)
  with Part_SetName_ok [OF v(2,3), of ?l] obtain l where l: "Part_SetName v ?l = Some l"
    "extent l = (lba + pe_start_lba e, pe_sector_count e)" "length (pt_name l) = 9"
    by (auto simp: extent_def)
  let ?s = "s\<lparr>sn_disk := ?dk\<lparr>dk_logic_parts := (dk_logic_parts ?dk)[?i := l]\<rparr>,
       sn_parts := sn_parts s @ [LogicPart me ?i], sn_logic_idx := ?i + 1\<rparr>"
  have "add_logic me lba e s = Some ?s" using i v(1) l(1) by (simp add: add_logic_def Let_def)
  moreover have "scan_ok ?s" using assms(1) l(3) by (simp add: scan_ok_def list_all_update)
  ultimately show ?thesis using l(2) by (simp add: map_update)
qed

lemma add_prim_ok:
  assumes "scan_ok s" "sn_prim_idx s < prim_part_count"
  shows "\<exists>s'. add_prim me lba e s = Some s' \<and> scan_ok s' \<and> sn_prim_idx s' = Suc (sn_prim_idx s) \<and>
    sn_logic_idx s' = sn_logic_idx s \<and> sn_ext_lba_base s' = sn_ext_lba_base s \<and>
    sectors (sn_chnl s') = sectors (sn_chnl s) \<and> dk_idx (sn_disk s') = dk_idx (sn_disk s) \<and>
    sn_parts s' = sn_parts s @ [PrimPart me (sn_prim_idx s)] \<and>
    map extent (dk_logic_parts (sn_disk s')) = map extent (dk_logic_parts (sn_disk s)) \<and>
    map extent (dk_prim_parts (sn_disk s')) =
      (map extent (dk_prim_parts (sn_disk s)))[sn_prim_idx s := (lba + pe_start_lba e, pe_sector_count e)]"
proof -
  let ?i = "sn_prim_idx s" and ?dk = "sn_disk s"
  let ?l = "(dk_prim_parts ?dk ! ?i)\<lparr>pt_start_lba := lba + pe_start_lba e, pt_sector_count := pe_sector_count e, pt_disk := True\<rparr>"
  have i: "?i < length (dk_prim_parts ?dk)" using assms by (simp add: scan_ok_def)
  have "?i + 1 < 100" using assms(2) by (simp add: prim_part_count_def)
  with assms(1) obtain v src where v: "part_label (dk_name ?dk) (?i + 1) = Some v"
    "sv_str v = Some src" "NUL \<in> set src" using part_label_ok unfolding scan_ok_def by blast
  have "length (pt_name ?l) = 9" using assms(1) i by (simp add: scan_ok_def list_all_length)
  with Part_SetName_ok [OF v(2,3), of ?l] obtain l where l: "Part_SetName v ?l = Some l"
    "extent l = (lba + pe_start_lba e, pe_sector_count e)" "length (pt_name l) = 9"
    by (auto simp: extent_def)
  let ?s = "s\<lparr>sn_disk := ?dk\<lparr>dk_prim_parts := (dk_prim_parts ?dk)[?i := l]\<rparr>,
       sn_parts := sn_parts s @ [PrimPart me ?i], sn_prim_idx := ?i + 1\<rparr>"
  have "add_prim me lba e s = Some ?s" using i v(1) l(1) by (simp add: add_prim_def Let_def)
  moreover have "scan_ok ?s" using assms(1) l(3) by (simp add: scan_ok_def list_all_update)
  ultimately show ?thesis using l(2) by (simp add: map_update)
qed

section \<open>Boot records\<close>

text \<open>The boot record in a sector of the scanned disk, and that the disk has one there.\<close>

definition record_at :: "scan \<Rightarrow> u32 \<Rightarrow> u8 list" where
  "record_at s lba = sectors (sn_chnl s) (dk_idx (sn_disk s) \<noteq> 0) (unat lba)"

definition bootable :: "scan \<Rightarrow> u32 \<Rightarrow> bool" where
  "bootable s lba \<longleftrightarrow> boot_record_sig (record_at s lba) = end_sig \<and> unat lba < unat max_lba"

lemma ScanParts_record:
  assumes "scan_ok s" "bootable s lba" "sn_prim_idx s < prim_part_count" "sn_logic_idx s < max_logic_part_count"
  shows "\<exists>c. ScanParts_at (Suc n) me lba False s =
      scan_entries n me lba (boot_record_parts (record_at s lba)) (s\<lparr>sn_chnl := c\<rparr>) \<and>
    scan_ok (s\<lparr>sn_chnl := c\<rparr>) \<and> sectors c = sectors (sn_chnl s)"
proof -
  let ?f = "sectors (sn_chnl s) (dk_idx (sn_disk s) \<noteq> 0)"
  have ok: "chnl_ok (sn_chnl s)" "dk_attached (sn_disk s)" using assms(1) by (auto simp: scan_ok_def)
  obtain c where c: "Disk_ReadSectors (sn_disk s) lba (replicate sector_size 0) 1 (sn_chnl s) =
      Some (overwrite (replicate sector_size 0) 0 (run_bytes ?f (unat lba) (unat (1 :: u32))), c)" "chnl_ok c"
    "sectors c = sectors (sn_chnl s)"
    using ReadSectors_ok [OF ok, of 1 lba "replicate sector_size 0"] assms(2) by (auto simp: bootable_def)
  have "length (?f (unat lba)) = sector_size" using ok(1) by (simp add: chnl_ok_def)
  then have "overwrite (replicate sector_size 0) 0 (run_bytes ?f (unat lba) (unat (1 :: u32))) = record_at s lba"
    by (simp add: run_bytes_def overwrite_def record_at_def)
  with c(1) have r: "Disk_ReadSectors (sn_disk s) lba (replicate sector_size 0) 1 (sn_chnl s) = Some (record_at s lba, c)"
    by simp
  have "ScanParts_at (Suc n) me lba False s =
      scan_entries n me lba (boot_record_parts (record_at s lba)) (s\<lparr>sn_chnl := c\<rparr>)"
    using assms(2-4) r by (simp add: bootable_def)
  moreover have "scan_ok (s\<lparr>sn_chnl := c\<rparr>)" using assms(1) c(2) by (simp add: scan_ok_def)
  ultimately show ?thesis using c(3) by blast
qed

section \<open>Well-formed disks\<close>

definition plain :: "part_tab_entry \<Rightarrow> bool" where
  "plain e \<longleftrightarrow> pe_type e \<noteq> PartType_Empty \<and> pe_type e \<noteq> PartType_ExtPart"

definition blank :: "part_tab_entry \<Rightarrow> bool" where
  "blank e \<longleftrightarrow> pe_type e = PartType_Empty"

text \<open>
  The chain of logical disks in the extended partition at \<open>base\<close>: each boot record holds the entry of its logical
  partition and, but for the last one, the entry that leads to the next record.
\<close>

fun ebr_chain :: "scan \<Rightarrow> u32 \<Rightarrow> (u32 \<times> part_tab_entry) list \<Rightarrow> bool" where
  "ebr_chain s base [] \<longleftrightarrow> False"
| "ebr_chain s base [(l, e)] \<longleftrightarrow> bootable s l \<and> plain e \<and>
     (\<exists>a b c. boot_record_parts (record_at s l) = [e, a, b, c] \<and> blank a \<and> blank b \<and> blank c)"
| "ebr_chain s base ((l, e) # (l', e') # rest) \<longleftrightarrow> bootable s l \<and> plain e \<and>
     (\<exists>a b c. boot_record_parts (record_at s l) = [e, a, b, c] \<and> pe_type a = PartType_ExtPart \<and>
        l' = base + pe_start_lba a \<and> blank b \<and> blank c) \<and> ebr_chain s base ((l', e') # rest)"

definition place :: "u32 \<times> part_tab_entry \<Rightarrow> u32 \<times> u32" where
  "place x = (fst x + pe_start_lba (snd x), pe_sector_count (snd x))"

definition same_view :: "scan \<Rightarrow> scan \<Rightarrow> bool" where
  "same_view s s' \<longleftrightarrow> sectors (sn_chnl s') = sectors (sn_chnl s) \<and> dk_idx (sn_disk s') = dk_idx (sn_disk s)"

lemma same_view_record: "same_view s s' \<Longrightarrow> record_at s' = record_at s \<and> bootable s' = bootable s"
  by (simp add: same_view_def record_at_def bootable_def fun_eq_iff)

lemma same_view_chain: "same_view s s' \<Longrightarrow> ebr_chain s' base xs = ebr_chain s base xs"
  by (induction s base xs rule: ebr_chain.induct) (auto dest!: same_view_record)

lemma same_view_trans: "same_view a b \<Longrightarrow> same_view b c \<Longrightarrow> same_view a c"
  by (simp add: same_view_def)

lemma scan_blanks: "list_all blank es \<Longrightarrow> scan_entries n me lba es s = Some s"
  by (induction es) (auto simp: blank_def PartType_Empty_def PartType_ExtPart_def)

lemma overwrite_Cons:
  "i + length ys < length xs \<Longrightarrow> overwrite (xs[i := y]) (Suc i) ys = overwrite xs i (y # ys)"
  by (simp add: overwrite_def take_Suc_conv_app_nth take_update_swap drop_update_swap nth_list_update)
    (simp add: list_update_append)

text \<open>The first entry of an extended boot record.\<close>

lemma scan_logic:
  assumes "scan_ok s" "sn_ext_lba_base s \<noteq> 0" "bootable s l" "plain e" "sn_prim_idx s < prim_part_count"
    "sn_logic_idx s < max_logic_part_count" "boot_record_parts (record_at s l) = e # es"
  shows "\<exists>s1. ScanParts_at (Suc m) me l False s = scan_entries m me l es s1 \<and> scan_ok s1 \<and> same_view s s1 \<and>
    sn_ext_lba_base s1 = sn_ext_lba_base s \<and> sn_prim_idx s1 = sn_prim_idx s \<and> sn_logic_idx s1 = Suc (sn_logic_idx s) \<and>
    sn_parts s1 = sn_parts s @ [LogicPart me (sn_logic_idx s)] \<and>
    map extent (dk_prim_parts (sn_disk s1)) = map extent (dk_prim_parts (sn_disk s)) \<and>
    map extent (dk_logic_parts (sn_disk s1)) = (map extent (dk_logic_parts (sn_disk s)))[sn_logic_idx s := place (l, e)]"
proof -
  obtain c where c: "ScanParts_at (Suc m) me l False s = scan_entries m me l (e # es) (s\<lparr>sn_chnl := c\<rparr>)"
    "scan_ok (s\<lparr>sn_chnl := c\<rparr>)" "sectors c = sectors (sn_chnl s)"
    using ScanParts_record [OF assms(1,3,5,6), of m me] assms(7) by auto
  obtain s1 where s1: "add_logic me l e (s\<lparr>sn_chnl := c\<rparr>) = Some s1" "scan_ok s1"
    "sn_logic_idx s1 = Suc (sn_logic_idx s)" "sn_prim_idx s1 = sn_prim_idx s" "sn_ext_lba_base s1 = sn_ext_lba_base s"
    "sectors (sn_chnl s1) = sectors c" "dk_idx (sn_disk s1) = dk_idx (sn_disk s)"
    "sn_parts s1 = sn_parts s @ [LogicPart me (sn_logic_idx s)]"
    "map extent (dk_prim_parts (sn_disk s1)) = map extent (dk_prim_parts (sn_disk s))"
    "map extent (dk_logic_parts (sn_disk s1)) =
      (map extent (dk_logic_parts (sn_disk s)))[sn_logic_idx s := (l + pe_start_lba e, pe_sector_count e)]"
    using add_logic_ok [OF c(2), of me l e] assms(6) by auto
  have "ScanParts_at (Suc m) me l False s = scan_entries m me l es s1"
    using c(1) s1(1) assms(2,4) by (simp add: plain_def)
  with s1 c(3) show ?thesis by (intro exI [of _ s1]) (simp add: same_view_def place_def)
qed

lemma scan_chain:
  assumes "scan_ok s" "sn_ext_lba_base s = base" "base \<noteq> 0" "ebr_chain s base ebrs" "sn_prim_idx s < prim_part_count"
    "sn_logic_idx s + length ebrs \<le> max_logic_part_count" "length ebrs \<le> n"
  shows "\<exists>s'. ScanParts_at n me (fst (hd ebrs)) False s = Some s' \<and> scan_ok s' \<and> same_view s s' \<and>
    sn_ext_lba_base s' = base \<and> sn_prim_idx s' = sn_prim_idx s \<and> sn_logic_idx s' = sn_logic_idx s + length ebrs \<and>
    sn_parts s' = sn_parts s @ map (LogicPart me) [sn_logic_idx s..<sn_logic_idx s + length ebrs] \<and>
    map extent (dk_prim_parts (sn_disk s')) = map extent (dk_prim_parts (sn_disk s)) \<and>
    map extent (dk_logic_parts (sn_disk s')) =
      overwrite (map extent (dk_logic_parts (sn_disk s))) (sn_logic_idx s) (map place ebrs)"
  using assms
proof (induction ebrs arbitrary: s n)
  case (Cons x ebrs)
  obtain l e where x: "x = (l, e)" by force
  obtain m where m: "n = Suc m" using Cons.prems(7) by (cases n) auto
  have lt: "sn_logic_idx s < max_logic_part_count" "sn_ext_lba_base s \<noteq> 0" "length (dk_logic_parts (sn_disk s)) = max_logic_part_count"
    using Cons.prems by (auto simp: scan_ok_def)
  obtain a b c where rec: "bootable s l" "plain e" "boot_record_parts (record_at s l) = [e, a, b, c]" "blank b" "blank c"
    and nxt: "ebrs = [] \<Longrightarrow> blank a" "ebrs \<noteq> [] \<Longrightarrow> pe_type a = PartType_ExtPart \<and> fst (hd ebrs) = base + pe_start_lba a \<and> ebr_chain s base ebrs"
    using Cons.prems(4) x by (cases ebrs) fastforce+
  obtain s1 where s1: "ScanParts_at n me l False s = scan_entries m me l [a, b, c] s1" "scan_ok s1" "same_view s s1"
    "sn_ext_lba_base s1 = base" "sn_prim_idx s1 = sn_prim_idx s" "sn_logic_idx s1 = Suc (sn_logic_idx s)"
    "sn_parts s1 = sn_parts s @ [LogicPart me (sn_logic_idx s)]"
    "map extent (dk_prim_parts (sn_disk s1)) = map extent (dk_prim_parts (sn_disk s))"
    "map extent (dk_logic_parts (sn_disk s1)) = (map extent (dk_logic_parts (sn_disk s)))[sn_logic_idx s := place x]"
    using scan_logic [OF Cons.prems(1) lt(2) rec(1,2) Cons.prems(5) lt(1) rec(3), of m me] m x Cons.prems(2) by auto
  have ow: "overwrite (map extent (dk_logic_parts (sn_disk s1))) (Suc (sn_logic_idx s)) ys =
      overwrite (map extent (dk_logic_parts (sn_disk s))) (sn_logic_idx s) (place x # ys)"
    if "sn_logic_idx s + length ys < max_logic_part_count" for ys
    unfolding s1(9) using that lt(3) by (intro overwrite_Cons) simp
  show ?case
  proof (cases "ebrs = []")
    case True
    with nxt(1) rec(4,5) have "ScanParts_at n me l False s = Some s1" by (simp only: s1(1)) (intro scan_blanks, simp)
    with s1 True x ow [of "[]"] lt(1) show ?thesis by (intro exI [of _ s1]) simp
  next
    case False
    then have ch: "pe_type a = PartType_ExtPart" "fst (hd ebrs) = base + pe_start_lba a" "ebr_chain s1 base ebrs"
      using nxt(2) same_view_chain [OF s1(3)] by auto
    from Cons.IH [OF s1(2,4) Cons.prems(3) ch(3), of m] Cons.prems(5-7) s1(5,6) m obtain s'
      where s': "ScanParts_at m me (fst (hd ebrs)) False s1 = Some s'" "scan_ok s'" "same_view s1 s'"
        "sn_ext_lba_base s' = base" "sn_prim_idx s' = sn_prim_idx s1" "sn_logic_idx s' = sn_logic_idx s1 + length ebrs"
        "sn_parts s' = sn_parts s1 @ map (LogicPart me) [sn_logic_idx s1..<sn_logic_idx s1 + length ebrs]"
        "map extent (dk_prim_parts (sn_disk s')) = map extent (dk_prim_parts (sn_disk s1))"
        "map extent (dk_logic_parts (sn_disk s')) =
          overwrite (map extent (dk_logic_parts (sn_disk s1))) (sn_logic_idx s1) (map place ebrs)"
      by auto
    have bl: "scan_entries m me l [b, c] s' = Some s'" using rec(4,5) by (intro scan_blanks) simp
    have "scan_entries m me l [a, b, c] s1 = scan_entries m me l [b, c] s'"
      using ch(1) s'(1) Cons.prems(3) s1(4) unfolding scan_entries.simps(2) [of m me l a] by (simp add: ch(2))
    then have "ScanParts_at n me l False s = Some s'" using s1(1) bl by simp
    moreover have "same_view s s'" using same_view_trans [OF s1(3) s'(3)] .
    moreover have "map extent (dk_logic_parts (sn_disk s')) =
        overwrite (map extent (dk_logic_parts (sn_disk s))) (sn_logic_idx s) (map place (x # ebrs))"
      unfolding s'(9) s1(6) using ow [of "map place ebrs"] Cons.prems(6) by simp
    moreover have "sn_parts s' = sn_parts s @ map (LogicPart me) [sn_logic_idx s..<sn_logic_idx s + length (x # ebrs)]"
    proof -
      have "[sn_logic_idx s..<Suc (sn_logic_idx s) + length ebrs] =
          sn_logic_idx s # [Suc (sn_logic_idx s)..<Suc (sn_logic_idx s) + length ebrs]"
        by (rule upt_conv_Cons) simp
      then show ?thesis unfolding s'(7) s1(6,7) by (simp del: upt_Suc)
    qed
    ultimately show ?thesis using s' s1 x by (intro exI [of _ s']) simp
  qed
qed simp

lemma scan_prims:
  assumes "scan_ok s" "sn_ext_lba_base s = 0" "list_all plain ps" "sn_prim_idx s + length ps \<le> prim_part_count"
  shows "\<exists>s'. scan_entries n me lba (ps @ es) s = scan_entries n me lba es s' \<and> scan_ok s' \<and> same_view s s' \<and>
    sn_ext_lba_base s' = 0 \<and> sn_prim_idx s' = sn_prim_idx s + length ps \<and> sn_logic_idx s' = sn_logic_idx s \<and>
    sn_parts s' = sn_parts s @ map (PrimPart me) [sn_prim_idx s..<sn_prim_idx s + length ps] \<and>
    map extent (dk_logic_parts (sn_disk s')) = map extent (dk_logic_parts (sn_disk s)) \<and>
    map extent (dk_prim_parts (sn_disk s')) =
      overwrite (map extent (dk_prim_parts (sn_disk s))) (sn_prim_idx s) (map (\<lambda>e. place (lba, e)) ps)"
  using assms
proof (induction ps arbitrary: s)
  case Nil
  then show ?case by (intro exI [of _ s]) (simp add: same_view_def)
next
  case (Cons e ps)
  have lt: "sn_prim_idx s < prim_part_count" "length (dk_prim_parts (sn_disk s)) = prim_part_count"
    using Cons.prems by (auto simp: scan_ok_def)
  obtain s1 where s1: "add_prim me lba e s = Some s1" "scan_ok s1" "same_view s s1" "sn_ext_lba_base s1 = 0"
    "sn_prim_idx s1 = Suc (sn_prim_idx s)" "sn_logic_idx s1 = sn_logic_idx s"
    "sn_parts s1 = sn_parts s @ [PrimPart me (sn_prim_idx s)]"
    "map extent (dk_logic_parts (sn_disk s1)) = map extent (dk_logic_parts (sn_disk s))"
    "map extent (dk_prim_parts (sn_disk s1)) = (map extent (dk_prim_parts (sn_disk s)))[sn_prim_idx s := place (lba, e)]"
    using add_prim_ok [OF Cons.prems(1) lt(1), of me lba e] Cons.prems(2) by (auto simp: same_view_def place_def)
  have "scan_entries n me lba ((e # ps) @ es) s = scan_entries n me lba (ps @ es) s1"
    using s1(1) Cons.prems(2,3) by (simp add: plain_def)
  moreover obtain s' where s': "scan_entries n me lba (ps @ es) s1 = scan_entries n me lba es s'" "scan_ok s'" "same_view s1 s'"
    "sn_ext_lba_base s' = 0" "sn_prim_idx s' = sn_prim_idx s1 + length ps" "sn_logic_idx s' = sn_logic_idx s1"
    "sn_parts s' = sn_parts s1 @ map (PrimPart me) [sn_prim_idx s1..<sn_prim_idx s1 + length ps]"
    "map extent (dk_logic_parts (sn_disk s')) = map extent (dk_logic_parts (sn_disk s1))"
    "map extent (dk_prim_parts (sn_disk s')) =
      overwrite (map extent (dk_prim_parts (sn_disk s1))) (sn_prim_idx s1) (map (\<lambda>e. place (lba, e)) ps)"
    using Cons.IH [OF s1(2,4)] Cons.prems(3,4) s1(5) by auto
  moreover have "map extent (dk_prim_parts (sn_disk s')) =
      overwrite (map extent (dk_prim_parts (sn_disk s))) (sn_prim_idx s) (map (\<lambda>e. place (lba, e)) (e # ps))"
    unfolding s'(9) s1(9,5) using overwrite_Cons [of "sn_prim_idx s" "map (\<lambda>e. place (lba, e)) ps"
        "map extent (dk_prim_parts (sn_disk s))" "place (lba, e)"] Cons.prems(4) lt(2) by simp
  moreover have "sn_parts s' = sn_parts s @ map (PrimPart me) [sn_prim_idx s..<sn_prim_idx s + length (e # ps)]"
  proof -
    have "[sn_prim_idx s..<Suc (sn_prim_idx s) + length ps] =
        sn_prim_idx s # [Suc (sn_prim_idx s)..<Suc (sn_prim_idx s) + length ps]"
      by (rule upt_conv_Cons) simp
    then show ?thesis unfolding s'(7) s1(5,7) by (simp del: upt_Suc)
  qed
  ultimately show ?case using s1(3,5,6,8) same_view_trans [OF s1(3) s'(3)] by (intro exI [of _ s']) simp
qed

lemma overwrite_start: "length ys \<le> length xs \<Longrightarrow> take (length ys) (overwrite xs 0 ys) = ys"
  by (simp add: overwrite_def)

text \<open>The state at the first call, the static variables reset.\<close>

lemma ScanParts_first:
  "ScanParts_at n me lba True s =
     ScanParts_at n me lba False (s\<lparr>sn_ext_lba_base := 0, sn_prim_idx := 0, sn_logic_idx := 0\<rparr>)"
  by (cases n) simp_all

section \<open>Properties\<close>

text \<open>
  C23: Partition scan: on a disk whose boot record lists primary partitions followed by an extended partition with a
  chain of up to eight logical disks, the scan terminates, with a recursion no deeper than the chain, and records
  exactly these partitions in order: each primary partition at its own start, each logical partition at its start relative to
  the boot record of its logical disk, with their sizes; the list of partitions grows by all of them.
\<close>

theorem ScanParts_finds:
  assumes "scan_ok s" "bootable s 0" "boot_record_parts (record_at s 0) = ps @ x # es"
    and "list_all plain ps" "list_all blank es" "pe_type x = PartType_ExtPart" "pe_start_lba x \<noteq> 0"
    and "ebr_chain s (pe_start_lba x) ebrs" "fst (hd ebrs) = pe_start_lba x" "length ebrs \<le> max_logic_part_count"
    and "length ebrs < depth"
  shows "\<exists>s'. Disk_ScanParts depth me s = Some s' \<and>
    take (length ps) (map extent (dk_prim_parts (sn_disk s'))) = map (\<lambda>e. (pe_start_lba e, pe_sector_count e)) ps \<and>
    take (length ebrs) (map extent (dk_logic_parts (sn_disk s'))) =
      map (\<lambda>(l, e). (l + pe_start_lba e, pe_sector_count e)) ebrs \<and>
    sn_parts s' = sn_parts s @ map (PrimPart me) [0..<length ps] @ map (LogicPart me) [0..<length ebrs]"
proof -
  define s0 where "s0 = s\<lparr>sn_ext_lba_base := 0, sn_prim_idx := 0, sn_logic_idx := 0\<rparr>"
  obtain m where m: "depth = Suc m" "length ebrs \<le> m" using assms(11) by (cases depth) auto
  have v0: "same_view s s0" "scan_ok s0" "sn_parts s0 = sn_parts s" "sn_ext_lba_base s0 = 0" "sn_prim_idx s0 = 0" "sn_logic_idx s0 = 0"
    using assms(1) by (simp_all add: s0_def same_view_def scan_ok_def)
  have len: "length ps < prim_part_count"
    using arg_cong [OF assms(3), of length] by (simp add: boot_record_parts_def)
  obtain c where c: "ScanParts_at (Suc m) me 0 False s0 = scan_entries m me 0 (ps @ x # es) (s0\<lparr>sn_chnl := c\<rparr>)"
    "scan_ok (s0\<lparr>sn_chnl := c\<rparr>)" "sectors c = sectors (sn_chnl s0)"
    using ScanParts_record [OF v0(2), of 0 m me] assms(2,3) same_view_record [OF v0(1)] v0(5,6)
    by (auto simp: prim_part_count_def max_logic_part_count_def)
  define s1 where "s1 = s0\<lparr>sn_chnl := c\<rparr>"
  have v1: "same_view s s1" using v0(1) c(3) by (simp add: s1_def same_view_def)
  obtain s2 where s2: "scan_entries m me 0 (ps @ x # es) s1 = scan_entries m me 0 (x # es) s2" "scan_ok s2" "same_view s1 s2"
    "sn_ext_lba_base s2 = 0" "sn_prim_idx s2 = length ps" "sn_logic_idx s2 = 0"
    "sn_parts s2 = sn_parts s @ map (PrimPart me) [0..<length ps]"
    "map extent (dk_prim_parts (sn_disk s2)) =
      overwrite (map extent (dk_prim_parts (sn_disk s1))) 0 (map (\<lambda>e. place (0, e)) ps)"
    using scan_prims [OF c(2), of ps m me 0 "x # es"] assms(4) len v0(3-6) by (auto simp: s1_def)
  define s3 where "s3 = s2\<lparr>sn_ext_lba_base := pe_start_lba x\<rparr>"
  have v3: "same_view s s3" "scan_ok s3"
    using same_view_trans [OF v1 s2(3)] s2(2) by (simp_all add: s3_def same_view_def scan_ok_def)
  obtain s4 where s4: "ScanParts_at m me (pe_start_lba x) False s3 = Some s4" "same_view s3 s4"
    "sn_parts s4 = sn_parts s3 @ map (LogicPart me) [0..<length ebrs]"
    "map extent (dk_prim_parts (sn_disk s4)) = map extent (dk_prim_parts (sn_disk s3))"
    "map extent (dk_logic_parts (sn_disk s4)) = overwrite (map extent (dk_logic_parts (sn_disk s3))) 0 (map place ebrs)"
    using scan_chain [OF v3(2) _ assms(7), of ebrs m me] same_view_chain [OF v3(1)] assms(8-10) m(2) s2(5,6) len
    by (auto simp: s3_def)
  have "scan_entries m me 0 (x # es) s2 = Some s4"
    using assms(6) s2(4) s4(1) scan_blanks [OF assms(5)] by (simp add: s3_def)
  then have run: "Disk_ScanParts depth me s = Some s4"
    using c(1) s2(1) by (simp add: Disk_ScanParts_def m(1) ScanParts_first s0_def [symmetric] s1_def [symmetric])
  have lens: "length (dk_prim_parts (sn_disk s1)) = prim_part_count" "length (dk_logic_parts (sn_disk s3)) = max_logic_part_count"
    using c(2) v3(2) by (simp_all add: s1_def scan_ok_def)
  have "take (length ps) (map extent (dk_prim_parts (sn_disk s4))) = map (\<lambda>e. place (0, e)) ps"
    using s4(4) s2(8) overwrite_start [of "map (\<lambda>e. place (0, e)) ps" "map extent (dk_prim_parts (sn_disk s1))"] lens(1) len
    by (simp add: s3_def)
  moreover have "take (length ebrs) (map extent (dk_logic_parts (sn_disk s4))) = map place ebrs"
    using s4(5) overwrite_start [of "map place ebrs" "map extent (dk_logic_parts (sn_disk s3))"] lens(2) assms(10) by simp
  moreover have "sn_parts s4 = sn_parts s @ map (PrimPart me) [0..<length ps] @ map (LogicPart me) [0..<length ebrs]"
    using s4(3) s2(7) by (simp add: s3_def)
  ultimately show ?thesis using run by (auto simp: place_def case_prod_beta)
qed


section \<open>Witnesses\<close>

text \<open>A disk image: boot records with the given entries (type, start and size, all below 256).\<close>

definition entry_bytes :: "u8 \<times> u8 \<times> u8 \<Rightarrow> u8 list" where
  "entry_bytes e = (case e of (t, l, n) \<Rightarrow> [0, 0, 0, 0, t, 0, 0, 0, l, 0, 0, 0, n, 0, 0, 0])"

definition record_bytes :: "(u8 \<times> u8 \<times> u8) list \<Rightarrow> u8 list" where
  "record_bytes es = replicate 446 0 @ concat (map entry_bytes es) @ [0x55, 0xAA]"

definition disk_image :: "(nat \<times> (u8 \<times> u8 \<times> u8) list) list \<Rightarrow> nat \<Rightarrow> u8 list" where
  "disk_image rs l = (case map_of rs l of None \<Rightarrow> replicate 512 0 | Some es \<Rightarrow> record_bytes es)"

definition scan_of :: "(nat \<times> (u8 \<times> u8 \<times> u8) list) list \<Rightarrow> scan" where
  "scan_of rs = \<lparr>sn_ext_lba_base = 7, sn_prim_idx = 2, sn_logic_idx = 9, sn_disk = blank_disk, sn_parts = [],
     sn_chnl = blank_chnl\<lparr>ch_dev := (ch_dev blank_chnl)\<lparr>at_sectors := \<lambda>_. disk_image rs\<rparr>\<rparr>\<rparr>"

abbreviation nil_entry :: "u8 \<times> u8 \<times> u8" where
  "nil_entry \<equiv> (0, 0, 0)"

lemma scan_of_ok:
  assumes "\<forall>x \<in> set rs. length (snd x) = 4"
  shows "scan_ok (scan_of rs)"
proof -
  have four: "length (concat (map entry_bytes es)) = 64" if "length es = 4" for es
    using that by (auto simp: length_Suc_conv numeral_eq_Suc entry_bytes_def split: prod.splits)
  have "length (disk_image rs l) = 512" for l
    using assms four by (auto simp: disk_image_def record_bytes_def split: option.splits dest!: map_of_SomeD)
  then have "chnl_ok (sn_chnl (scan_of rs))"
    using blank_chnl_ok by (simp add: chnl_ok_def scan_of_def blank_chnl_def sector_size_def)
  then show ?thesis
    by (simp add: scan_ok_def scan_of_def blank_disk_def name_fits_def prim_part_count_def max_logic_part_count_def part_empty_def
        list_all_length cstr_def takeWhile_replicate)
qed

lemma record_at_scan_of: "record_at (scan_of rs) l = disk_image rs (unat l)"
  by (simp add: record_at_def scan_of_def)

definition entry_of :: "u8 \<times> u8 \<times> u8 \<Rightarrow> part_tab_entry" where
  "entry_of e = (case e of (t, l, n) \<Rightarrow> \<lparr>pe_type = t, pe_start_lba = ucast l, pe_sector_count = ucast n\<rparr>)"

lemma small_u32: "CombineWords (CombineBytes 0 0) (CombineBytes 0 l) = (ucast l :: u32)"
  by (rule bit_word_eqI) (auto simp: CombineWords_def CombineBytes_def bits_simps bit_CombineBits dest: bit_imp_le_length)

lemma record_nth: "446 \<le> k \<Longrightarrow> record_bytes es ! k = (concat (map entry_bytes es) @ [0x55, 0xAA]) ! (k - 446)"
  by (simp add: record_bytes_def nth_append)

lemma record_bytes_parts:
  "boot_record_parts (record_bytes [a, b, c, d]) = map entry_of [a, b, c, d]"
proof -
  have "[0..<prim_part_count] = [0, 1, 2, 3]" by (simp add: prim_part_count_def upt_rec)
  moreover have "part_tab_offset = 446" by (simp add: part_tab_offset_def sector_size_def prim_part_count_def)
  ultimately show ?thesis
    by (cases a; cases b; cases c; cases d)
      (simp add: boot_record_parts_def read_entry_def entry_bytes_def record_nth read_u32_def entry_of_def small_u32)
qed

lemma record_bytes_sig:
  "boot_record_sig (record_bytes [a, b, c, d]) = end_sig"
  by (cases a; cases b; cases c; cases d)
   (simp add: boot_record_sig_def read_u16_def end_sig_def record_nth entry_bytes_def sector_size_def CombineBytes_def CombineBits_def)
lemma bootable_scan_of:
  "map_of rs (unat l) = Some [a, b, c, d] \<Longrightarrow> unat l < 163839 \<Longrightarrow> bootable (scan_of rs) l"
  by (simp add: bootable_def record_at_scan_of disk_image_def record_bytes_sig max_lba_def max_size_def MB_def KB_def sector_size_def)

lemma parts_scan_of:
  "map_of rs (unat l) = Some [a, b, c, d] \<Longrightarrow>
   boot_record_parts (record_at (scan_of rs) l) = [entry_of a, entry_of b, entry_of c, entry_of d]"
  by (simp add: record_at_scan_of disk_image_def record_bytes_parts)

lemmas entry_simps = plain_def blank_def entry_of_def PartType_Empty_def PartType_ExtPart_def

definition good_disk :: "(nat \<times> (u8 \<times> u8 \<times> u8) list) list" where
  "good_disk = [(0, [(0x83, 1, 90), (5, 100, 150), nil_entry, nil_entry]),
     (100, [(0x66, 1, 40), (5, 50, 60), nil_entry, nil_entry]),
     (150, [(0x66, 2, 50), nil_entry, nil_entry, nil_entry])]"

theorem ScanParts_finds_witness:
  "\<exists>s'. Disk_ScanParts 3 1 (scan_of good_disk) = Some s' \<and>
     take 2 (map extent (dk_logic_parts (sn_disk s'))) = [(101, 40), (152, 50)] \<and>
     sn_parts s' = [PrimPart 1 0, LogicPart 1 0, LogicPart 1 1]"
proof -
  let ?s = "scan_of good_disk" and ?x = "entry_of (5, 100, 150)"
  let ?ebrs = "[(100, entry_of (0x66, 1, 40)), (150, entry_of (0x66, 2, 50))] :: (u32 \<times> part_tab_entry) list"
  have ok: "scan_ok ?s" by (rule scan_of_ok) (simp add: good_disk_def)
  have r: "map_of good_disk (unat (0 :: u32)) = Some [(0x83, 1, 90), (5, 100, 150), nil_entry, nil_entry]"
    "map_of good_disk (unat (100 :: u32)) = Some [(0x66, 1, 40), (5, 50, 60), nil_entry, nil_entry]"
    "map_of good_disk (unat (150 :: u32)) = Some [(0x66, 2, 50), nil_entry, nil_entry, nil_entry]"
    by (simp_all add: good_disk_def)
  have x: "pe_type ?x = PartType_ExtPart" "pe_start_lba ?x = 100" by (simp_all add: entry_simps)
  have b: "bootable ?s 0" "bootable ?s 100" "bootable ?s 150"
    using bootable_scan_of [OF r(1)] bootable_scan_of [OF r(2)] bootable_scan_of [OF r(3)] by simp_all
  have ch: "ebr_chain ?s 100 ?ebrs"
    using b(2,3) by (simp add: parts_scan_of [OF r(2)] parts_scan_of [OF r(3)] entry_simps)
  have "\<exists>s'. Disk_ScanParts 3 1 ?s = Some s' \<and>
    take (length [entry_of (0x83, 1, 90)]) (map extent (dk_prim_parts (sn_disk s'))) =
      map (\<lambda>e. (pe_start_lba e, pe_sector_count e)) [entry_of (0x83, 1, 90)] \<and>
    take (length ?ebrs) (map extent (dk_logic_parts (sn_disk s'))) =
      map (\<lambda>(l, e). (l + pe_start_lba e, pe_sector_count e)) ?ebrs \<and>
    sn_parts s' = sn_parts ?s @ map (PrimPart 1) [0..<length [entry_of (0x83, 1, 90)]] @ map (LogicPart 1) [0..<length ?ebrs]"
    by (rule ScanParts_finds [OF ok b(1), of "[entry_of (0x83, 1, 90)]" ?x "[entry_of nil_entry, entry_of nil_entry]" ?ebrs])
      (use ch in \<open>simp_all add: parts_scan_of [OF r(1)] x max_logic_part_count_def\<close>, simp_all add: entry_simps)
  then obtain s' where s': "Disk_ScanParts 3 1 ?s = Some s'"
    "take (length ?ebrs) (map extent (dk_logic_parts (sn_disk s'))) =
      map (\<lambda>(l, e). (l + pe_start_lba e, pe_sector_count e)) ?ebrs"
    "sn_parts s' = sn_parts ?s @ map (PrimPart 1) [0..<length [entry_of (0x83, 1, 90)]] @ map (LogicPart 1) [0..<length ?ebrs]"
    by blast
  have n: "length ?ebrs = 2" "map (\<lambda>(l, e). (l + pe_start_lba e, pe_sector_count e)) ?ebrs = [(101, 40), (152, 50)]"
    by (simp_all add: entry_of_def)
  have "sn_parts ?s = []" by (simp add: scan_of_def)
  then have "sn_parts s' = [PrimPart 1 0, LogicPart 1 0, LogicPart 1 1]"
    using s'(3) unfolding n(1) by (simp add: upt_rec)
  with s'(1,2) show ?thesis unfolding n by blast
qed

definition cyclic_disk :: "(nat \<times> (u8 \<times> u8 \<times> u8) list) list" where
  "cyclic_disk = [(0, [(5, 100, 150), nil_entry, nil_entry, nil_entry]),
     (100, [(5, 0, 60), nil_entry, nil_entry, nil_entry])]"


end
