(* ===== verification/Inodes.thy ===== *)
theory Inodes
  imports Disks Bitmaps
begin

text \<open>
  The lower half of the file system of a partition (\<^verbatim>\<open>io/disk/file/inode\<close>, \<^verbatim>\<open>io/disk/file/super_block\<close> and the index node
  and bitmap functions of \<^verbatim>\<open>io/disk/part.cpp\<close>): the layout of super blocks, index nodes and directory entries on
  disk, formatting, loading, the two bitmaps, opening, saving and deleting index nodes.

  A block from \<^verbatim>\<open>mem::Allocate\<close> is a new buffer of zero bytes (the heap clears what it hands out) and the heap is not
  exhausted; index nodes in memory are objects of a store with a new name for each allocation, so that an access to a
  freed node is \<open>None\<close>. The padding bytes of a structure are zero.
\<close>

section \<open>Structures on disk\<close>

definition le32 :: "u32 \<Rightarrow> u8 list" where
  "le32 w = [ucast w, ucast (drop_bit 8 w), ucast (drop_bit 16 w), ucast (drop_bit 24 w)]"

definition read_words :: "u8 list \<Rightarrow> nat \<Rightarrow> nat \<Rightarrow> u32 list" where
  "read_words b off n = map (\<lambda>i. read_u32 b (off + 4 * i)) [0..<n]"

definition write_words :: "u32 list \<Rightarrow> u8 list" where
  "write_words ws = concat (map le32 ws)"

definition char_byte :: "char \<Rightarrow> u8" where "char_byte c = of_nat (of_char c)"
definition byte_char :: "u8 \<Rightarrow> char" where "byte_char b = char_of (unat b)"

definition direct_block_count :: nat where "direct_block_count = 12"

record idx_node =
  in_idx :: u32
  in_size :: u32
  in_open_times :: u32
  in_write_deny :: bool
  in_direct :: "u32 list"
  in_indirect :: u32

definition root_inode_idx :: u32 where "root_inode_idx = 0"

text \<open>\<^verbatim>\<open>sizeof(IdxNode)\<close>: two tag pointers, three words, a byte with padding, twelve words and a word.\<close>

definition sizeof_IdxNode :: nat where "sizeof_IdxNode = 76"

definition node_bytes :: "idx_node \<Rightarrow> u8 list" where
  "node_bytes n = replicate 8 0 @ write_words [in_idx n, in_size n, in_open_times n] @
     [if in_write_deny n then 1 else 0, 0, 0, 0] @ write_words (in_direct n) @ le32 (in_indirect n)"

definition node_of_bytes :: "u8 list \<Rightarrow> idx_node" where
  "node_of_bytes b = \<lparr>in_idx = read_u32 b 8, in_size = read_u32 b 12, in_open_times = read_u32 b 16,
     in_write_deny = (b ! 20 \<noteq> 0), in_direct = read_words b 24 direct_block_count, in_indirect = read_u32 b 72\<rparr>"

definition IdxNode_Init :: "idx_node \<Rightarrow> idx_node" where
  "IdxNode_Init n = n\<lparr>in_idx := of_nat npos, in_size := 0, in_open_times := 0, in_write_deny := False\<rparr>"

definition IdxNode_IsOpen :: "idx_node \<Rightarrow> bool" where
  "IdxNode_IsOpen n \<longleftrightarrow> in_open_times n \<noteq> 0"

definition IdxNode_GetIndirectTabLba :: "idx_node \<Rightarrow> u32" where
  "IdxNode_GetIndirectTabLba n = in_indirect n"

definition IdxNode_SetIndirectTabLba :: "u32 \<Rightarrow> idx_node \<Rightarrow> idx_node" where
  "IdxNode_SetIndirectTabLba lba n = n\<lparr>in_indirect := lba\<rparr>"

definition IdxNode_SetDirectLba :: "nat \<Rightarrow> u32 \<Rightarrow> idx_node \<Rightarrow> idx_node option" where
  "IdxNode_SetDirectLba idx lba n = do {
     Assert (idx < direct_block_count);
     Some (n\<lparr>in_direct := (in_direct n)[idx := lba]\<rparr>)
   }"

definition IdxNode_GetDirectLba :: "nat \<Rightarrow> idx_node \<Rightarrow> u32 option" where
  "IdxNode_GetDirectLba idx n = do {
     Assert (idx < direct_block_count);
     Some (in_direct n ! idx)
   }"

definition IdxNode_CloneToPure :: "idx_node \<Rightarrow> idx_node" where
  "IdxNode_CloneToPure n = n\<lparr>in_open_times := 0, in_write_deny := False\<rparr>"

record super_block =
  sb_sign :: u32
  sb_part_start_lba :: u32
  sb_part_sector_count :: u32
  sb_part_inode_count :: u32
  sb_block_bitmap_start_lba :: u32
  sb_block_bitmap_sector_count :: u32
  sb_inode_bitmap_start_lba :: u32
  sb_inode_bitmap_sector_count :: u32
  sb_inodes_start_lba :: u32
  sb_inodes_sector_count :: u32
  sb_data_start_lba :: u32
  sb_root_inode_idx :: u32

definition super_block_sign :: u32 where "super_block_sign = 0x11223344"
definition boot_sector_count :: u32 where "boot_sector_count = 1"
definition super_block_start_lba :: u32 where "super_block_start_lba = boot_sector_count"

definition SuperBlock_IsSignValid :: "super_block \<Rightarrow> bool" where
  "SuperBlock_IsSignValid sb \<longleftrightarrow> sb_sign sb = super_block_sign"

definition super_bytes :: "super_block \<Rightarrow> u8 list" where
  "super_bytes sb = write_words [sb_sign sb, sb_part_start_lba sb, sb_part_sector_count sb, sb_part_inode_count sb,
     sb_block_bitmap_start_lba sb, sb_block_bitmap_sector_count sb, sb_inode_bitmap_start_lba sb,
     sb_inode_bitmap_sector_count sb, sb_inodes_start_lba sb, sb_inodes_sector_count sb, sb_data_start_lba sb,
     sb_root_inode_idx sb]"

definition super_of_bytes :: "u8 list \<Rightarrow> super_block" where
  "super_of_bytes b = \<lparr>sb_sign = read_u32 b 0, sb_part_start_lba = read_u32 b 4, sb_part_sector_count = read_u32 b 8,
     sb_part_inode_count = read_u32 b 12, sb_block_bitmap_start_lba = read_u32 b 16,
     sb_block_bitmap_sector_count = read_u32 b 20, sb_inode_bitmap_start_lba = read_u32 b 24,
     sb_inode_bitmap_sector_count = read_u32 b 28, sb_inodes_start_lba = read_u32 b 32,
     sb_inodes_sector_count = read_u32 b 36, sb_data_start_lba = read_u32 b 40, sb_root_inode_idx = read_u32 b 44\<rparr>"

datatype file_type = UnknownFile | RegularFile | DirectoryFile

fun file_type_code :: "file_type \<Rightarrow> u32" where
  "file_type_code UnknownFile = 0"
| "file_type_code RegularFile = 1"
| "file_type_code DirectoryFile = 2"

text \<open>The type of an entry is kept as the number found on disk.\<close>

record dir_entry =
  de_type :: u32
  de_name :: "char list"
  de_inode_idx :: u32

definition sizeof_DirEntry :: nat where "sizeof_DirEntry = 28"
definition min_entry_count :: nat where "min_entry_count = 2"
definition name_array_len :: nat where "name_array_len = 17"

definition DirEntry_default :: dir_entry where
  "DirEntry_default = \<lparr>de_type = file_type_code UnknownFile, de_name = replicate name_array_len NUL,
     de_inode_idx = of_nat npos\<rparr>"

definition entry_of_bytes :: "u8 list \<Rightarrow> dir_entry" where
  "entry_of_bytes b = \<lparr>de_type = read_u32 b 0, de_name = map byte_char (take name_array_len (drop 4 b)),
     de_inode_idx = read_u32 b 24\<rparr>"

definition bytes_of_entry :: "dir_entry \<Rightarrow> u8 list" where
  "bytes_of_entry e = le32 (de_type e) @ map char_byte (de_name e) @ [0, 0, 0] @ le32 (de_inode_idx e)"

definition DirEntry_SetName :: "string_view \<Rightarrow> dir_entry \<Rightarrow> dir_entry option" where
  "DirEntry_SetName name e = do {
     Assert (\<not> sv_empty name);
     src \<leftarrow> sv_str name;
     buf \<leftarrow> strcpy_s (de_name e) (length (de_name e)) src;
     Some (e\<lparr>de_name := buf\<rparr>)
   }"

definition DirEntry :: "file_type \<Rightarrow> string_view \<Rightarrow> u32 \<Rightarrow> dir_entry option" where
  "DirEntry type name inode_idx =
     DirEntry_SetName name (DirEntry_default\<lparr>de_type := file_type_code type, de_inode_idx := inode_idx\<rparr>)"

definition curr_dir_name :: string_view where "curr_dir_name = literal ''.''"
definition parent_dir_name :: string_view where "parent_dir_name = literal ''..''"

section \<open>Formatting\<close>

definition max_file_count_per_part :: u32 where "max_file_count_per_part = 0x1000"
definition bit_count_per_sector :: u32 where "bit_count_per_sector = of_nat sector_size * of_nat byte_len"
definition sizeof_PaddedSuperBlock :: nat where "sizeof_PaddedSuperBlock = sector_size"

definition CalcSectorCountForBlockBitmap :: "u32 \<Rightarrow> u32 \<times> u32" where
  "CalcSectorCountForBlockBitmap free_sector_count =
     (let block_bitmap_sector_count = RoundUpDivide free_sector_count bit_count_per_sector;
          block_bitmap_bit_len = free_sector_count - block_bitmap_sector_count
      in (RoundUpDivide block_bitmap_bit_len bit_count_per_sector, block_bitmap_bit_len))"

text \<open>A bitmap over the first bytes of a buffer: \<open>f\<close> works in place.\<close>

definition with_bitmap :: "u8 list \<Rightarrow> nat \<Rightarrow> (bitmap \<Rightarrow> bitmap option) \<Rightarrow> u8 list option" where
  "with_bitmap buf len f = do {
     Assert (len \<le> length buf);
     bm \<leftarrow> Bitmap_Init (Some (take len buf)) len True;
     bm \<leftarrow> f bm;
     bits \<leftarrow> bm_bits bm;
     Some (overwrite buf 0 bits)
   }"

definition WriteBlockBitmap :: "disk \<Rightarrow> u32 \<Rightarrow> u8 list \<Rightarrow> super_block \<Rightarrow> ide_chnl \<Rightarrow> (u8 list \<times> ide_chnl) option" where
  "WriteBlockBitmap dk bit_len io_buf sb c = do {
     Assert (length io_buf \<ge> unat (sb_block_bitmap_sector_count sb * of_nat sector_size));
     io_buf \<leftarrow> memset io_buf 0 (length io_buf);
     let round_up_bit_len = sb_block_bitmap_sector_count sb * bit_count_per_sector;
     Assert (round_up_bit_len \<ge> bit_len);
     io_buf \<leftarrow> with_bitmap io_buf (unat (round_up_bit_len div of_nat byte_len)) (\<lambda>bm. do {
       bm \<leftarrow> Bitmap_ForceAlloc bm (unat root_inode_idx) 1;
       Bitmap_ForceAlloc bm (unat bit_len) (unat (round_up_bit_len - bit_len))
     });
     c \<leftarrow> Disk_WriteSectors dk (sb_block_bitmap_start_lba sb) io_buf (sb_block_bitmap_sector_count sb) c;
     Some (io_buf, c)
   }"

definition WriteNodeBitmap :: "disk \<Rightarrow> u8 list \<Rightarrow> super_block \<Rightarrow> ide_chnl \<Rightarrow> (u8 list \<times> ide_chnl) option" where
  "WriteNodeBitmap dk io_buf sb c = do {
     Assert (length io_buf \<ge> unat (sb_inode_bitmap_sector_count sb * of_nat sector_size));
     io_buf \<leftarrow> memset io_buf 0 (length io_buf);
     io_buf \<leftarrow> with_bitmap io_buf (unat (sb_inode_bitmap_sector_count sb * of_nat sector_size))
       (\<lambda>bm. Bitmap_ForceAlloc bm (unat root_inode_idx) 1);
     c \<leftarrow> Disk_WriteSectors dk (sb_inode_bitmap_start_lba sb) io_buf (sb_inode_bitmap_sector_count sb) c;
     Some (io_buf, c)
   }"

definition WriteRootDirNode :: "disk \<Rightarrow> u8 list \<Rightarrow> super_block \<Rightarrow> ide_chnl \<Rightarrow> (u8 list \<times> ide_chnl) option" where
  "WriteRootDirNode dk io_buf sb c = do {
     Assert (length io_buf \<ge> unat (sb_inodes_sector_count sb * of_nat sector_size));
     io_buf \<leftarrow> memset io_buf 0 (length io_buf);
     let off = unat root_inode_idx * sizeof_IdxNode;
     Assert (off + sizeof_IdxNode \<le> length io_buf);
     let root = (node_of_bytes (drop off io_buf))\<lparr>in_idx := root_inode_idx,
       in_size := of_nat (min_entry_count * sizeof_DirEntry)\<rparr>;
     root \<leftarrow> IdxNode_SetDirectLba 0 (sb_data_start_lba sb) root;
     let io_buf = overwrite io_buf off (node_bytes root);
     c \<leftarrow> Disk_WriteSectors dk (sb_inodes_start_lba sb) io_buf (sb_inodes_sector_count sb) c;
     Some (io_buf, c)
   }"

text \<open>The entries \<^verbatim>\<open>.\<close> and \<^verbatim>\<open>..\<close> at the start of a buffer.\<close>

definition put_dot_entries :: "u32 \<Rightarrow> u32 \<Rightarrow> u8 list \<Rightarrow> u8 list option" where
  "put_dot_entries self parent io_buf = do {
     Assert (2 * sizeof_DirEntry \<le> length io_buf);
     curr_dir \<leftarrow> DirEntry_SetName curr_dir_name (entry_of_bytes io_buf);
     let curr_dir = curr_dir\<lparr>de_inode_idx := self, de_type := file_type_code DirectoryFile\<rparr>;
     parent_dir \<leftarrow> DirEntry_SetName parent_dir_name (entry_of_bytes (drop sizeof_DirEntry io_buf));
     let parent_dir = parent_dir\<lparr>de_inode_idx := parent, de_type := file_type_code DirectoryFile\<rparr>;
     Some (overwrite io_buf 0 (bytes_of_entry curr_dir @ bytes_of_entry parent_dir))
   }"

definition WriteRootDirEntries :: "disk \<Rightarrow> u8 list \<Rightarrow> super_block \<Rightarrow> ide_chnl \<Rightarrow> (u8 list \<times> ide_chnl) option" where
  "WriteRootDirEntries dk io_buf sb c = do {
     let sector_count = RoundUpDivide (of_nat (min_entry_count * sizeof_DirEntry)) (of_nat sector_size);
     Assert (length io_buf \<ge> unat (sector_count * of_nat sector_size));
     io_buf \<leftarrow> memset io_buf 0 (length io_buf);
     io_buf \<leftarrow> put_dot_entries root_inode_idx root_inode_idx io_buf;
     c \<leftarrow> Disk_WriteSectors dk (sb_data_start_lba sb) io_buf sector_count c;
     Some (io_buf, c)
   }"

definition PaddedSuperBlock_WriteTo :: "disk \<Rightarrow> part \<Rightarrow> u32 \<Rightarrow> super_block \<Rightarrow> ide_chnl \<Rightarrow> ide_chnl option" where
  "PaddedSuperBlock_WriteTo dk pt block_bitmap_bit_len sb c = do {
     Assert (pt_disk pt);
     c \<leftarrow> Disk_WriteSectors dk (pt_start_lba pt + super_block_start_lba)
       (super_bytes sb @ replicate (sector_size - length (super_bytes sb)) 0)
       (RoundUpDivide (of_nat sizeof_PaddedSuperBlock) (of_nat sector_size)) c;
     let io_buf_size = max (max (sb_inode_bitmap_sector_count sb) (sb_inodes_sector_count sb))
       (sb_block_bitmap_sector_count sb) * of_nat sector_size;
     Assert (io_buf_size > 0);
     let io_buf = replicate (unat io_buf_size) 0;
     (io_buf, c) \<leftarrow> WriteBlockBitmap dk block_bitmap_bit_len io_buf sb c;
     (io_buf, c) \<leftarrow> WriteNodeBitmap dk io_buf sb c;
     (io_buf, c) \<leftarrow> WriteRootDirNode dk io_buf sb c;
     (_, c) \<leftarrow> WriteRootDirEntries dk io_buf sb c;
     Some c
   }"

text \<open>The super block and the length of the block bitmap that \<^verbatim>\<open>FormatPart\<close> computes.\<close>

definition FormatPart_super :: "part \<Rightarrow> super_block \<times> u32" where
  "FormatPart_super pt = (let
     super_block_sector_count = RoundUpDivide (of_nat sizeof_PaddedSuperBlock) (of_nat sector_size);
     inode_bitmap_sector_count = max_file_count_per_part div bit_count_per_sector;
     inodes_sector_count = RoundUpDivide (max_file_count_per_part * of_nat sizeof_IdxNode) (of_nat sector_size);
     used_sector_count = boot_sector_count + super_block_sector_count + inode_bitmap_sector_count + inodes_sector_count;
     free_sector_count = pt_sector_count pt - used_sector_count;
     (block_bitmap_sector_count, block_bitmap_bit_len) = CalcSectorCountForBlockBitmap free_sector_count;
     block_bitmap_start_lba = pt_start_lba pt + super_block_start_lba + super_block_sector_count;
     inode_bitmap_start_lba = block_bitmap_start_lba + block_bitmap_sector_count;
     inodes_start_lba = inode_bitmap_start_lba + inode_bitmap_sector_count
   in (\<lparr>sb_sign = super_block_sign, sb_part_start_lba = pt_start_lba pt, sb_part_sector_count = pt_sector_count pt,
        sb_part_inode_count = max_file_count_per_part, sb_block_bitmap_start_lba = block_bitmap_start_lba,
        sb_block_bitmap_sector_count = block_bitmap_sector_count, sb_inode_bitmap_start_lba = inode_bitmap_start_lba,
        sb_inode_bitmap_sector_count = inode_bitmap_sector_count, sb_inodes_start_lba = inodes_start_lba,
        sb_inodes_sector_count = inodes_sector_count, sb_data_start_lba = inodes_start_lba + inodes_sector_count,
        sb_root_inode_idx = root_inode_idx\<rparr>, block_bitmap_bit_len))"

definition FormatPart :: "disk \<Rightarrow> part \<Rightarrow> ide_chnl \<Rightarrow> ide_chnl option" where
  "FormatPart dk pt c = do {
     Assert (max_file_count_per_part mod bit_count_per_sector = 0);
     let (super_block, block_bitmap_bit_len) = FormatPart_super pt;
     PaddedSuperBlock_WriteTo dk pt block_bitmap_bit_len super_block c
   }"

section \<open>A mounted partition\<close>

text \<open>
  The state of a \<^verbatim>\<open>FilePart\<close>: the channel and the disk it lies on, its place, the super block and bitmaps in memory, the
  list of open index nodes (by name), the index nodes in memory and the next new name.
\<close>

record file_sys =
  fs_chnl :: ide_chnl
  fs_disk :: disk
  fs_part :: part
  fs_super :: "super_block option"
  fs_block_bitmap :: bitmap
  fs_inode_bitmap :: bitmap
  fs_open_inodes :: "nat list"
  fs_nodes :: "nat \<Rightarrow> idx_node option"
  fs_next :: nat

definition ReadSectors :: "u32 \<Rightarrow> u8 list \<Rightarrow> u32 \<Rightarrow> file_sys \<Rightarrow> (u8 list \<times> file_sys) option" where
  "ReadSectors lba buf count s = do {
     Assert (pt_disk (fs_part s));
     (buf, c) \<leftarrow> Disk_ReadSectors (fs_disk s) lba buf count (fs_chnl s);
     Some (buf, s\<lparr>fs_chnl := c\<rparr>)
   }"

definition WriteSectors :: "u32 \<Rightarrow> u8 list \<Rightarrow> u32 \<Rightarrow> file_sys \<Rightarrow> file_sys option" where
  "WriteSectors lba data count s = do {
     Assert (pt_disk (fs_part s));
     c \<leftarrow> Disk_WriteSectors (fs_disk s) lba data count (fs_chnl s);
     Some (s\<lparr>fs_chnl := c\<rparr>)
   }"

definition FilePart_GetSuperBlock :: "file_sys \<Rightarrow> super_block option" where
  "FilePart_GetSuperBlock s = fs_super s"

definition FilePart_LoadBlockBitmap :: "file_sys \<Rightarrow> file_sys option" where
  "FilePart_LoadBlockBitmap s = do {
     super_block \<leftarrow> FilePart_GetSuperBlock s;
     let byte_len = unat (sb_block_bitmap_sector_count super_block * of_nat sector_size);
     Assert (byte_len > 0);
     (bits, s) \<leftarrow> ReadSectors (sb_block_bitmap_start_lba super_block) (replicate byte_len 0)
       (sb_block_bitmap_sector_count super_block) s;
     bm \<leftarrow> Bitmap_Init (Some bits) byte_len False;
     Some (s\<lparr>fs_block_bitmap := bm\<rparr>)
   }"

definition FilePart_LoadNodeBitmap :: "file_sys \<Rightarrow> file_sys option" where
  "FilePart_LoadNodeBitmap s = do {
     super_block \<leftarrow> FilePart_GetSuperBlock s;
     let byte_len = unat (sb_inode_bitmap_sector_count super_block * of_nat sector_size);
     Assert (byte_len > 0);
     (bits, s) \<leftarrow> ReadSectors (sb_inode_bitmap_start_lba super_block) (replicate byte_len 0)
       (sb_inode_bitmap_sector_count super_block) s;
     bm \<leftarrow> Bitmap_Init (Some bits) byte_len False;
     Some (s\<lparr>fs_inode_bitmap := bm\<rparr>)
   }"

definition FilePart_LoadSuperBlock :: "file_sys \<Rightarrow> file_sys option" where
  "FilePart_LoadSuperBlock s = do {
     Assert (fs_super s = None);
     let sector_count = RoundUpDivide (of_nat sizeof_PaddedSuperBlock) (of_nat sector_size);
     (buf, s) \<leftarrow> ReadSectors (pt_start_lba (fs_part s) + super_block_start_lba)
       (replicate (unat sector_count * sector_size) 0) sector_count s;
     let s = s\<lparr>fs_super := Some (super_of_bytes buf)\<rparr>;
     s \<leftarrow> FilePart_LoadBlockBitmap s;
     FilePart_LoadNodeBitmap s
   }"

section \<open>The bitmaps\<close>

definition FilePart_AllocNode :: "file_sys \<Rightarrow> (u32 \<times> file_sys) option" where
  "FilePart_AllocNode s = do {
     (idx, bm) \<leftarrow> Bitmap_Alloc (fs_inode_bitmap s) 1;
     Some (of_nat idx, s\<lparr>fs_inode_bitmap := bm\<rparr>)
   }"

definition FilePart_FreeNode :: "u32 \<Rightarrow> file_sys \<Rightarrow> file_sys option" where
  "FilePart_FreeNode idx s = do {
     bm \<leftarrow> Bitmap_Free (fs_inode_bitmap s) (unat idx) 1;
     Some (s\<lparr>fs_inode_bitmap := bm\<rparr>)
   }"

definition FilePart_FreeBlock :: "u32 \<Rightarrow> file_sys \<Rightarrow> file_sys option" where
  "FilePart_FreeBlock lba s = do {
     super_block \<leftarrow> FilePart_GetSuperBlock s;
     let start_lba = sb_data_start_lba super_block;
     Assert (lba \<ge> start_lba);
     bm \<leftarrow> Bitmap_Free (fs_block_bitmap s) (unat (lba - start_lba)) 1;
     Some (s\<lparr>fs_block_bitmap := bm\<rparr>)
   }"

definition FilePart_AllocBlock :: "file_sys \<Rightarrow> (u32 \<times> file_sys) option" where
  "FilePart_AllocBlock s = do {
     (lba, bm) \<leftarrow> Bitmap_Alloc (fs_block_bitmap s) 1;
     let s = s\<lparr>fs_block_bitmap := bm\<rparr>;
     if lba \<noteq> npos
     then do {
       super_block \<leftarrow> FilePart_GetSuperBlock s;
       Some (of_nat lba + sb_data_start_lba super_block, s)
     }
     else Some (of_nat npos, s)
   }"

datatype bitmap_type = NodeBitmap | BlockBitmap

definition FilePart_SyncBitmap :: "bitmap_type \<Rightarrow> u32 \<Rightarrow> file_sys \<Rightarrow> file_sys option" where
  "FilePart_SyncBitmap type bit_idx s = do {
     let sector_offset = bit_idx div bit_count_per_sector;
     let byte_offset = unat sector_offset * sector_size;
     super_block \<leftarrow> FilePart_GetSuperBlock s;
     let (start, bm) = (case type of
         NodeBitmap \<Rightarrow> (sb_inode_bitmap_start_lba super_block, fs_inode_bitmap s)
       | BlockBitmap \<Rightarrow> (sb_block_bitmap_start_lba super_block, fs_block_bitmap s));
     bits \<leftarrow> bm_bits bm;
     WriteSectors (sector_offset + start) (drop byte_offset bits) 1 s
   }"

definition FilePart_SyncNodeBitmap :: "u32 \<Rightarrow> file_sys \<Rightarrow> file_sys option" where
  "FilePart_SyncNodeBitmap idx s = FilePart_SyncBitmap NodeBitmap idx s"

definition FilePart_SyncBlockBitmap :: "u32 \<Rightarrow> file_sys \<Rightarrow> file_sys option" where
  "FilePart_SyncBlockBitmap lba s = do {
     super_block \<leftarrow> FilePart_GetSuperBlock s;
     let start_lba = sb_data_start_lba super_block;
     Assert (lba \<ge> start_lba);
     FilePart_SyncBitmap BlockBitmap (lba - start_lba) s
   }"

section \<open>Index nodes\<close>

record idx_node_pos =
  np_across :: bool
  np_lba :: u32
  np_offset :: nat

definition IdxNodePos :: "u32 \<Rightarrow> file_sys \<Rightarrow> idx_node_pos option" where
  "IdxNodePos idx s = do {
     Assert (idx < max_file_count_per_part);
     let offset = idx * of_nat sizeof_IdxNode;
     let offset_in_sector = offset mod of_nat sector_size;
     super_block \<leftarrow> FilePart_GetSuperBlock s;
     let lba = sb_inodes_start_lba super_block + offset div of_nat sector_size;
     Assert (lba < pt_start_lba (fs_part s) + pt_sector_count (fs_part s));
     Some \<lparr>np_across = of_nat sector_size - offset_in_sector < of_nat sizeof_IdxNode, np_lba = lba,
       np_offset = unat offset_in_sector\<rparr>
   }"

definition pos_sector_count :: "idx_node_pos \<Rightarrow> nat" where
  "pos_sector_count pos = (if np_across pos then 2 else 1)"

text \<open>The search of the list of open nodes dereferences every node it visits.\<close>

fun find_node :: "(nat \<Rightarrow> idx_node option) \<Rightarrow> u32 \<Rightarrow> nat list \<Rightarrow> nat option option" where
  "find_node nodes idx [] = Some None"
| "find_node nodes idx (p # ps) = do {
     inode \<leftarrow> nodes p;
     if in_idx inode = idx then Some (Some p) else find_node nodes idx ps
   }"

definition FilePart_OpenNode :: "u32 \<Rightarrow> file_sys \<Rightarrow> (nat \<times> file_sys) option" where
  "FilePart_OpenNode idx s = do {
     Assert (idx < max_file_count_per_part);
     found \<leftarrow> find_node (fs_nodes s) idx (fs_open_inodes s);
     case found of
       Some p \<Rightarrow> do {
         inode \<leftarrow> fs_nodes s p;
         Some (p, s\<lparr>fs_nodes := (fs_nodes s)(p \<mapsto> inode\<lparr>in_open_times := in_open_times inode + 1\<rparr>)\<rparr>)
       }
     | None \<Rightarrow> do {
         let p = fs_next s;
         pos \<leftarrow> IdxNodePos idx s;
         let sector_count = pos_sector_count pos;
         (buf, s) \<leftarrow> ReadSectors (np_lba pos) (replicate (sector_count * sector_size) 0) (of_nat sector_count) s;
         Assert (np_offset pos + sizeof_IdxNode \<le> length buf);
         let inode = (node_of_bytes (drop (np_offset pos) buf))\<lparr>in_open_times := 1\<rparr>;
         Some (p, s\<lparr>fs_nodes := (fs_nodes s)(p \<mapsto> inode), fs_next := p + 1, fs_open_inodes := fs_open_inodes s @ [p]\<rparr>)
       }
   }"

definition IdxNode_Close :: "nat \<Rightarrow> file_sys \<Rightarrow> file_sys option" where
  "IdxNode_Close p s = do {
     inode \<leftarrow> fs_nodes s p;
     let inode = inode\<lparr>in_open_times := in_open_times inode - 1\<rparr>;
     if in_open_times inode = 0
     then do {
       Assert (p \<in> set (fs_open_inodes s));
       Some (s\<lparr>fs_open_inodes := remove1 p (fs_open_inodes s), fs_nodes := (fs_nodes s)(p := None)\<rparr>)
     }
     else Some (s\<lparr>fs_nodes := (fs_nodes s)(p \<mapsto> inode)\<rparr>)
   }"

definition indirect_tab_sector_count_per_inode :: nat where "indirect_tab_sector_count_per_inode = 1"
definition indirect_sector_count_per_inode :: nat where
  "indirect_sector_count_per_inode = indirect_tab_sector_count_per_inode * sector_size div 4"
definition sector_count_per_inode :: nat where
  "sector_count_per_inode = direct_block_count + indirect_sector_count_per_inode"

text \<open>Reading a sector of block addresses into the array behind the direct ones.\<close>

definition read_indirect :: "u32 \<Rightarrow> u32 list \<Rightarrow> file_sys \<Rightarrow> (u32 list \<times> file_sys) option" where
  "read_indirect lba lbas s = do {
     (buf, s) \<leftarrow> ReadSectors lba (write_words (drop direct_block_count lbas))
       (of_nat indirect_tab_sector_count_per_inode) s;
     Some (take direct_block_count lbas @ read_words buf 0 indirect_sector_count_per_inode, s)
   }"

definition LoadNodeLbas :: "idx_node \<Rightarrow> file_sys \<Rightarrow> (u32 list \<times> file_sys) option" where
  "LoadNodeLbas inode s = do {
     let lbas = in_direct inode @ replicate indirect_sector_count_per_inode 0;
     let indirect_tab_lba = IdxNode_GetIndirectTabLba inode;
     if indirect_tab_lba \<noteq> 0 then read_indirect indirect_tab_lba lbas s else Some (lbas, s)
   }"

definition FilePart_ZeroFillNode :: "u32 \<Rightarrow> u8 list \<Rightarrow> file_sys \<Rightarrow> (u8 list \<times> file_sys) option" where
  "FilePart_ZeroFillNode idx io_buf s = do {
     Assert (length io_buf \<ge> 2 * sector_size);
     Assert (idx < max_file_count_per_part);
     pos \<leftarrow> IdxNodePos idx s;
     let sector_count = pos_sector_count pos;
     (io_buf, s) \<leftarrow> ReadSectors (np_lba pos) io_buf (of_nat sector_count) s;
     let io_buf = overwrite io_buf (np_offset pos) (replicate sizeof_IdxNode 0);
     s \<leftarrow> WriteSectors (np_lba pos) io_buf (of_nat sector_count) s;
     Some (io_buf, s)
   }"

definition FilePart_SyncNode :: "idx_node \<Rightarrow> u8 list \<Rightarrow> file_sys \<Rightarrow> (u8 list \<times> file_sys) option" where
  "FilePart_SyncNode inode io_buf s = do {
     Assert (length io_buf \<ge> 2 * sector_size);
     let pure = IdxNode_CloneToPure inode;
     pos \<leftarrow> IdxNodePos (in_idx inode) s;
     let sector_count = pos_sector_count pos;
     (io_buf, s) \<leftarrow> ReadSectors (np_lba pos) io_buf (of_nat sector_count) s;
     let io_buf = overwrite io_buf (np_offset pos) (node_bytes pure);
     s \<leftarrow> WriteSectors (np_lba pos) io_buf (of_nat sector_count) s;
     Some (io_buf, s)
   }"

text \<open>The loop of \<^verbatim>\<open>DeleteNode\<close> that gives the blocks back.\<close>

definition free_and_sync :: "u32 \<Rightarrow> file_sys \<Rightarrow> file_sys option" where
  "free_and_sync lba s = do { s \<leftarrow> FilePart_FreeBlock lba s; FilePart_SyncBlockBitmap lba s }"

fun DeleteNode_loop :: "u32 list \<Rightarrow> file_sys \<Rightarrow> file_sys option" where
  "DeleteNode_loop [] s = Some s"
| "DeleteNode_loop (lba # lbas) s = do {
     s \<leftarrow> (if lba \<noteq> 0 then free_and_sync lba s else Some s);
     DeleteNode_loop lbas s
   }"

definition FilePart_DeleteNode :: "u32 \<Rightarrow> file_sys \<Rightarrow> file_sys option" where
  "FilePart_DeleteNode idx s = do {
     (p, s) \<leftarrow> FilePart_OpenNode idx s;
     inode \<leftarrow> fs_nodes s p;
     (lbas, s) \<leftarrow> LoadNodeLbas inode s;
     s \<leftarrow> DeleteNode_loop lbas s;
     let indirect_tab_lba = IdxNode_GetIndirectTabLba inode;
     s \<leftarrow> (if indirect_tab_lba \<noteq> 0 then free_and_sync indirect_tab_lba s else Some s);
     s \<leftarrow> FilePart_FreeNode idx s;
     s \<leftarrow> FilePart_SyncNodeBitmap idx s;
     (_, s) \<leftarrow> FilePart_ZeroFillNode idx (replicate (2 * sector_size) 0) s;
     IdxNode_Close p s
   }"

section \<open>Reading back what was stored\<close>

lemma length_le32 [simp]: "length (le32 w) = 4"
  by (simp add: le32_def)

lemma length_write_words [simp]: "length (write_words ws) = 4 * length ws"
  by (induction ws) (simp_all add: write_words_def)

lemma read_u32_append1: "i + 4 \<le> length xs \<Longrightarrow> read_u32 (xs @ ys) i = read_u32 xs i"
  by (simp add: read_u32_def nth_append)

lemma read_u32_append2: "length xs \<le> i \<Longrightarrow> read_u32 (xs @ ys) i = read_u32 ys (i - length xs)"
  by (simp add: read_u32_def nth_append Suc_diff_le)

lemma read_u32_le32 [simp]: "read_u32 (le32 w) 0 = w"
proof (rule bit_word_eqI)
  fix k assume "k < LENGTH(32)"
  then show "bit (read_u32 (le32 w) 0) k = bit w k"
    by (auto simp: read_u32_def le32_def bits_simps CombineWords_def CombineBytes_def bit_drop_bit_eq)
qed

lemma read_u32_Cons: "0 < i \<Longrightarrow> read_u32 (x # xs) i = read_u32 xs (i - 1)"
  using read_u32_append2 [of "[x]" i xs] by simp

lemmas read_u32_append = read_u32_append1 read_u32_append2 read_u32_Cons

lemma read_u32_drop: "i + 4 + off \<le> length b \<Longrightarrow> read_u32 (drop off b) i = read_u32 b (off + i)"
  by (simp add: read_u32_def add.assoc)

lemma read_u32_take: "i + 4 \<le> n \<Longrightarrow> n \<le> length b \<Longrightarrow> read_u32 (take n b) i = read_u32 b i"
  by (simp add: read_u32_def)

lemma read_words_append: "read_words (xs @ write_words ws @ ys) (length xs) (length ws) = ws"
proof (rule nth_equalityI)
  show "length (read_words (xs @ write_words ws @ ys) (length xs) (length ws)) = length ws"
    by (simp add: read_words_def)
next
  fix i assume "i < length (read_words (xs @ write_words ws @ ys) (length xs) (length ws))"
  then have i: "i < length ws" by (simp add: read_words_def)
  have "write_words ws = write_words (take i ws) @ le32 (ws ! i) @ write_words (drop (Suc i) ws)"
    using i by (subst id_take_nth_drop [OF i]) (simp add: write_words_def)
  then have "read_u32 (write_words ws @ ys) (4 * i) = ws ! i"
    using i by (simp add: read_u32_append)
  then show "read_words (xs @ write_words ws @ ys) (length xs) (length ws) ! i = ws ! i"
    using i by (simp add: read_words_def read_u32_append2)
qed

lemma read_write_words [simp]: "length ws = n \<Longrightarrow> read_words (write_words ws) 0 n = ws"
  using read_words_append [of "[]" ws "[]"] by simp

lemma length_read_words [simp]: "length (read_words b off n) = n"
  by (simp add: read_words_def)

lemma length_node_bytes [simp]: "length (in_direct n) = direct_block_count \<Longrightarrow> length (node_bytes n) = sizeof_IdxNode"
  by (simp add: node_bytes_def sizeof_IdxNode_def direct_block_count_def)

lemma node_of_node_bytes [simp]:
  assumes "length (in_direct n) = direct_block_count"
  shows "node_of_bytes (node_bytes n) = n"
proof -
  let ?w = "[in_idx n, in_size n, in_open_times n]"
  let ?d = "[if in_write_deny n then 1 else 0, 0, 0, 0]"
  have "read_u32 (node_bytes n) 8 = in_idx n" "read_u32 (node_bytes n) 12 = in_size n"
    "read_u32 (node_bytes n) 16 = in_open_times n"
    by (simp_all add: node_bytes_def write_words_def read_u32_append)
  moreover have "node_bytes n ! 20 \<noteq> 0 \<longleftrightarrow> in_write_deny n"
    by (simp add: node_bytes_def nth_append)
  moreover have "read_words (node_bytes n) 24 direct_block_count = in_direct n"
    using read_words_append [of "replicate 8 0 @ write_words ?w @ ?d" "in_direct n" "le32 (in_indirect n)"] assms
    by (simp add: node_bytes_def)
  moreover have "read_u32 (node_bytes n) 72 = in_indirect n"
    using assms by (simp add: node_bytes_def direct_block_count_def read_u32_append)
  ultimately show ?thesis by (simp add: node_of_bytes_def)
qed

lemma node_of_bytes_direct [simp]: "length (in_direct (node_of_bytes b)) = direct_block_count"
  by (simp add: node_of_bytes_def)

lemma node_of_bytes_cong:
  assumes "take sizeof_IdxNode b = take sizeof_IdxNode c" "sizeof_IdxNode \<le> length b" "sizeof_IdxNode \<le> length c"
  shows "node_of_bytes b = node_of_bytes c"
proof -
  have "read_u32 b i = read_u32 c i" if "i \<le> 72" for i
    using that assms read_u32_take [of i sizeof_IdxNode b] read_u32_take [of i sizeof_IdxNode c]
    by (simp add: sizeof_IdxNode_def)
  moreover have "b ! 20 = c ! 20"
    using assms nth_take [of 20 sizeof_IdxNode b] nth_take [of 20 sizeof_IdxNode c] by (simp add: sizeof_IdxNode_def)
  ultimately show ?thesis
    by (simp add: node_of_bytes_def read_words_def direct_block_count_def)
qed

lemma length_super_bytes [simp]: "length (super_bytes sb) = 48"
  by (simp add: super_bytes_def)

lemma super_of_super_bytes [simp]: "super_of_bytes (super_bytes sb @ ys) = sb"
  by (simp add: super_of_bytes_def super_bytes_def write_words_def read_u32_append)

lemma byte_char_byte [simp]: "byte_char (char_byte c) = c"
proof -
  have "(of_char c :: nat) < 256"
    using of_char_mod_256 [of c, where 'a = nat] by (metis mod_less_divisor zero_less_numeral)
  then have "unat (of_nat (of_char c) :: u8) = of_char c"
    by (simp add: unsigned_of_nat take_bit_nat_eq_self)
  then show ?thesis by (simp add: byte_char_def char_byte_def)
qed

lemma length_bytes_of_entry [simp]: "length (de_name e) = name_array_len \<Longrightarrow> length (bytes_of_entry e) = sizeof_DirEntry"
  by (simp add: bytes_of_entry_def sizeof_DirEntry_def name_array_len_def)

lemma entry_of_bytes_of_entry [simp]:
  assumes "length (de_name e) = name_array_len"
  shows "entry_of_bytes (bytes_of_entry e @ ys) = e"
  using assms
  by (simp add: entry_of_bytes_def bytes_of_entry_def read_u32_append name_array_len_def comp_def)

section \<open>Sectors as a store\<close>

definition fs_blocks :: "file_sys \<Rightarrow> nat \<Rightarrow> u8 list" where
  "fs_blocks s = sectors (fs_chnl s) (dk_idx (fs_disk s) \<noteq> 0)"

definition io_ok :: "file_sys \<Rightarrow> bool" where
  "io_ok s \<longleftrightarrow> chnl_ok (fs_chnl s) \<and> dk_attached (fs_disk s) \<and> pt_disk (fs_part s)"

text \<open>A step of the file system that changes nothing but the channel, and of the channel nothing but this disk.\<close>

definition io_step :: "file_sys \<Rightarrow> file_sys \<Rightarrow> bool" where
  "io_step s s' \<longleftrightarrow> io_ok s' \<and> s' = s\<lparr>fs_chnl := fs_chnl s'\<rparr> \<and> chnl_same (fs_chnl s) (fs_chnl s') \<and>
     sectors (fs_chnl s') (dk_idx (fs_disk s) = 0) = sectors (fs_chnl s) (dk_idx (fs_disk s) = 0)"

lemma io_step_fields:
  assumes "io_step s s'"
  shows "io_ok s'" "fs_disk s' = fs_disk s" "fs_part s' = fs_part s" "fs_super s' = fs_super s"
    "fs_block_bitmap s' = fs_block_bitmap s" "fs_inode_bitmap s' = fs_inode_bitmap s"
    "fs_open_inodes s' = fs_open_inodes s" "fs_nodes s' = fs_nodes s" "fs_next s' = fs_next s"
proof -
  have e: "s' = s\<lparr>fs_chnl := fs_chnl s'\<rparr>" and "io_ok s'" using assms by (simp_all add: io_step_def)
  then show "io_ok s'" by simp
  show "fs_disk s' = fs_disk s" "fs_part s' = fs_part s" "fs_super s' = fs_super s"
    "fs_block_bitmap s' = fs_block_bitmap s" "fs_inode_bitmap s' = fs_inode_bitmap s"
    "fs_open_inodes s' = fs_open_inodes s" "fs_nodes s' = fs_nodes s" "fs_next s' = fs_next s"
    by (subst e, simp)+
qed

lemma io_step_refl: "io_ok s \<Longrightarrow> io_step s s"
  by (simp add: io_step_def)

lemma io_step_trans:
  assumes "io_step a b" "io_step b c"
  shows "io_step a c"
proof -
  have "c = a\<lparr>fs_chnl := fs_chnl c\<rparr>"
    using assms unfolding io_step_def by (metis file_sys.fold_congs(1) file_sys.surjective file_sys.update_convs(1))
  moreover have "fs_disk b = fs_disk a" using io_step_fields [OF assms(1)] by simp
  ultimately show ?thesis
    using assms chnl_same_trans unfolding io_step_def by metis
qed

lemma read_ok:
  assumes "io_ok s" "0 < n" "unat lba + unat n \<le> unat max_lba" "unat n * sector_size \<le> length buf"
  shows "\<exists>s'. ReadSectors lba buf n s = Some (overwrite buf 0 (run_bytes (fs_blocks s) (unat lba) (unat n)), s') \<and>
    io_step s s' \<and> fs_blocks s' = fs_blocks s"
proof -
  have ok: "chnl_ok (fs_chnl s)" "dk_attached (fs_disk s)" "pt_disk (fs_part s)" using assms(1) by (simp_all add: io_ok_def)
  obtain c where "Disk_ReadSectors (fs_disk s) lba buf n (fs_chnl s) =
      Some (overwrite buf 0 (run_bytes (fs_blocks s) (unat lba) (unat n)), c)"
    "chnl_ok c" "chnl_same (fs_chnl s) c" "sectors c = sectors (fs_chnl s)"
    using ReadSectors_ok [OF ok(1,2) assms(2-4)] by (auto simp: fs_blocks_def)
  with ok show ?thesis
    by (intro exI [of _ "s\<lparr>fs_chnl := c\<rparr>"]) (simp add: ReadSectors_def io_step_def io_ok_def fs_blocks_def)
qed

lemma write_ok:
  assumes "io_ok s" "0 < n" "unat lba + unat n \<le> unat max_lba" "unat n * sector_size \<le> length data"
  shows "\<exists>s'. WriteSectors lba data n s = Some s' \<and> io_step s s' \<and>
    fs_blocks s' = put_run (fs_blocks s) (unat lba) (unat n) data"
proof -
  have ok: "chnl_ok (fs_chnl s)" "dk_attached (fs_disk s)" "pt_disk (fs_part s)" using assms(1) by (simp_all add: io_ok_def)
  obtain c where "Disk_WriteSectors (fs_disk s) lba data n (fs_chnl s) = Some c" "chnl_ok c" "chnl_same (fs_chnl s) c"
    "sectors c = (sectors (fs_chnl s))(dk_idx (fs_disk s) \<noteq> 0 := put_run (fs_blocks s) (unat lba) (unat n) data)"
    using WriteSectors_ok [OF ok(1,2) assms(2-4)] by (auto simp: fs_blocks_def)
  with ok show ?thesis
    by (intro exI [of _ "s\<lparr>fs_chnl := c\<rparr>"]) (auto simp: WriteSectors_def io_step_def io_ok_def fs_blocks_def)
qed

lemma block_len: "io_ok s \<Longrightarrow> length (fs_blocks s l) = sector_size"
  by (simp add: io_ok_def chnl_ok_def fs_blocks_def)

lemma nth_run_bytes:
  assumes "\<And>l. length (f l) = sector_size" "i < n * sector_size"
  shows "run_bytes f lba n ! i = f (lba + i div sector_size) ! (i mod sector_size)"
  using assms(2)
proof (induction n)
  case (Suc n)
  have r: "run_bytes f lba (Suc n) = run_bytes f lba n @ f (lba + n)"
    using run_bytes_append [of f lba n 1] by (simp add: run_bytes_def)
  show ?case
  proof (cases "i < n * sector_size")
    case True
    then show ?thesis using Suc.IH by (simp add: r nth_append length_run_bytes [OF assms(1)])
  next
    case False
    then have "i div sector_size = n"
      using Suc.prems by (intro div_nat_eqI) (simp_all add: mult.commute)
    moreover have "i - n * sector_size = i mod sector_size"
      using calculation by (metis minus_mult_div_eq_mod mult.commute)
    ultimately show ?thesis using False by (simp add: r nth_append length_run_bytes [OF assms(1)])
  qed
qed simp

text \<open>Changing some bytes of a run of sectors inside a larger area changes exactly these bytes of the area.\<close>

lemma run_bytes_patch:
  assumes f: "\<And>l. length (f l) = sector_size"
    and area: "lo \<le> lba" "lba + k \<le> lo + n"
    and data: "k * sector_size \<le> length data" "take (k * sector_size) data = overwrite (run_bytes f lba k) off bytes"
      "off + length bytes \<le> k * sector_size"
  shows "run_bytes (put_run f lba k data) lo n = overwrite (run_bytes f lo n) ((lba - lo) * sector_size + off) bytes"
proof (rule nth_equalityI)
  let ?g = "put_run f lba k data"
  have s: "0 < sector_size" by (simp add: sector_size_def)
  have c: "length (chunk data j) = sector_size" if "j < k" for j
  proof -
    have "(j + 1) * sector_size \<le> k * sector_size" using that by (intro mult_le_mono1) simp
    then show ?thesis using data(1) by (simp add: chunk_def)
  qed
  then have g: "length (?g l) = sector_size" for l by (auto simp: put_run_def f)
  have len: "(lba - lo) * sector_size + off + length bytes \<le> n * sector_size"
  proof -
    have "(lba - lo) + k \<le> n" using area by simp
    then have "((lba - lo) + k) * sector_size \<le> n * sector_size" by (rule mult_le_mono1)
    then show ?thesis using data(3) by (simp add: add_mult_distrib)
  qed
  then show "length (run_bytes ?g lo n) = length (overwrite (run_bytes f lo n) ((lba - lo) * sector_size + off) bytes)"
    by (simp add: length_run_bytes [OF g] length_run_bytes [OF f])
  fix i assume "i < length (run_bytes ?g lo n)"
  then have i: "i < n * sector_size" by (simp add: length_run_bytes [OF g])
  let ?b = "(lba - lo) * sector_size"
  have l: "run_bytes ?g lo n ! i = ?g (lo + i div sector_size) ! (i mod sector_size)"
    by (rule nth_run_bytes [OF g i])
  have r: "overwrite (run_bytes f lo n) (?b + off) bytes ! i =
      (if ?b + off \<le> i \<and> i < ?b + off + length bytes then bytes ! (i - (?b + off)) else f (lo + i div sector_size) ! (i mod sector_size))"
    using len i by (simp add: nth_overwrite length_run_bytes [OF f] nth_run_bytes [OF f])
  show "run_bytes ?g lo n ! i = overwrite (run_bytes f lo n) (?b + off) bytes ! i"
  proof (cases "lba \<le> lo + i div sector_size \<and> lo + i div sector_size < lba + k")
    case True
    define q where "q = lo + i div sector_size - lba"
    have q: "q < k" "i = ?b + (q * sector_size + i mod sector_size)"
    proof -
      show "q < k" using True by (auto simp: q_def)
      have "i div sector_size = (lba - lo) + q" using True area by (simp add: q_def)
      then show "i = ?b + (q * sector_size + i mod sector_size)"
        using div_mult_mod_eq [of i sector_size] by (simp add: add_mult_distrib)
    qed
    define j where "j = q * sector_size + i mod sector_size"
    have "(q + 1) * sector_size \<le> k * sector_size" using q(1) by (intro mult_le_mono1) simp
    then have j: "j < k * sector_size" using s mod_less_divisor [OF s, of i] by (simp add: j_def)
    have "?g (lo + i div sector_size) ! (i mod sector_size) = data ! j"
      using True c [OF q(1)] mod_less_divisor [OF s, of i] data(1)
      by (simp add: put_run_def chunk_def q_def [symmetric] j_def mult.commute)
    also have "\<dots> = overwrite (run_bytes f lba k) off bytes ! j"
      using j data(1) by (simp add: data(2) [symmetric])
    also have "\<dots> = (if off \<le> j \<and> j < off + length bytes then bytes ! (j - off) else run_bytes f lba k ! j)"
      using j data(3) by (simp add: nth_overwrite length_run_bytes [OF f])
    also have "run_bytes f lba k ! j = f (lo + i div sector_size) ! (i mod sector_size)"
    proof -
      have "j div sector_size = q" "j mod sector_size = i mod sector_size" using s by (simp_all add: j_def)
      then show ?thesis using nth_run_bytes [OF f j] True by (simp add: q_def)
    qed
    finally show ?thesis unfolding l r using q(2) by (auto simp: j_def [symmetric])
  next
    case False
    have "\<not> (?b + off \<le> i \<and> i < ?b + off + length bytes)"
    proof
      assume a: "?b + off \<le> i \<and> i < ?b + off + length bytes"
      then have "?b \<le> i" "i < ?b + k * sector_size" using data(3) by simp_all
      then have "lba - lo \<le> i div sector_size" "i div sector_size < lba - lo + k"
        using s by (simp_all add: less_eq_div_iff_mult_less_eq div_less_iff_less_mult add_mult_distrib)
      then show False using False area by auto
    qed
    moreover have "?g (lo + i div sector_size) = f (lo + i div sector_size)"
      using False by (auto simp: put_run_def)
    ultimately show ?thesis unfolding l r by auto
  qed
qed

text \<open>What the file system needs of the disk driver, and the update of some bytes that index nodes rely on.\<close>

locale sector_store =
  fixes ok :: "'s \<Rightarrow> bool"
    and view :: "'s \<Rightarrow> nat \<Rightarrow> u8 list"
    and step :: "'s \<Rightarrow> 's \<Rightarrow> bool"
    and rd :: "u32 \<Rightarrow> u8 list \<Rightarrow> u32 \<Rightarrow> 's \<Rightarrow> (u8 list \<times> 's) option"
    and wr :: "u32 \<Rightarrow> u8 list \<Rightarrow> u32 \<Rightarrow> 's \<Rightarrow> 's option"
  assumes view_len: "ok s \<Longrightarrow> length (view s l) = sector_size"
    and step_ok: "step s s' \<Longrightarrow> ok s'"
    and step_trans: "step s t \<Longrightarrow> step t u \<Longrightarrow> step s u"
    and rd_ok: "ok s \<Longrightarrow> 0 < n \<Longrightarrow> unat lba + unat n \<le> unat max_lba \<Longrightarrow> unat n * sector_size \<le> length buf \<Longrightarrow>
      \<exists>s'. rd lba buf n s = Some (overwrite buf 0 (run_bytes (view s) (unat lba) (unat n)), s') \<and> step s s' \<and> view s' = view s"
    and wr_ok: "ok s \<Longrightarrow> 0 < n \<Longrightarrow> unat lba + unat n \<le> unat max_lba \<Longrightarrow> unat n * sector_size \<le> length data \<Longrightarrow>
      \<exists>s'. wr lba data n s = Some s' \<and> step s s' \<and> view s' = put_run (view s) (unat lba) (unat n) data"
begin

lemma patch:
  assumes "ok s" "0 < n" "unat lba + unat n \<le> unat max_lba" "unat n * sector_size \<le> length buf"
    and off: "off + length bytes \<le> unat n * sector_size" and area: "lo \<le> unat lba" "unat lba + unat n \<le> lo + m"
  shows "\<exists>buf' s1 s2. rd lba buf n s = Some (buf', s1) \<and> length buf' = length buf \<and> step s s1 \<and> view s1 = view s \<and>
    wr lba (overwrite buf' off bytes) n s1 = Some s2 \<and> step s s2 \<and>
    run_bytes (view s2) lo m = overwrite (run_bytes (view s) lo m) ((unat lba - lo) * sector_size + off) bytes \<and>
    (\<forall>l. l < unat lba \<or> unat lba + unat n \<le> l \<longrightarrow> view s2 l = view s l)"
proof -
  let ?r = "run_bytes (view s) (unat lba) (unat n)"
  let ?b = "overwrite buf 0 ?r"
  have len: "length ?r = unat n * sector_size" using view_len [OF assms(1)] by (rule length_run_bytes)
  obtain s1 where s1: "rd lba buf n s = Some (?b, s1)" "step s s1" "view s1 = view s"
    using rd_ok [OF assms(1-4)] by blast
  have b: "length ?b = length buf" using len assms(4) by simp
  then have d: "unat n * sector_size \<le> length (overwrite ?b off bytes)" using assms(4) off by simp
  obtain s2 where s2: "wr lba (overwrite ?b off bytes) n s1 = Some s2" "step s1 s2"
    "view s2 = put_run (view s1) (unat lba) (unat n) (overwrite ?b off bytes)"
    using wr_ok [OF step_ok [OF s1(2)] assms(2,3) d] by blast
  have "bytes = [] \<or> off < unat n * sector_size" using off by (cases bytes) auto
  then have "take (unat n * sector_size) (overwrite ?b off bytes) = overwrite ?r off bytes"
    using len off by (auto simp: overwrite_def min_def)
  then have "run_bytes (view s2) lo m = overwrite (run_bytes (view s) lo m) ((unat lba - lo) * sector_size + off) bytes"
    unfolding s2(3) s1(3) using run_bytes_patch [OF view_len [OF assms(1)] area d _ off] by simp
  moreover have "\<forall>l. l < unat lba \<or> unat lba + unat n \<le> l \<longrightarrow> view s2 l = view s l"
    unfolding s2(3) s1(3) by (auto simp: put_run_def)
  ultimately show ?thesis
    using s1 s2 b step_trans [OF s1(2) s2(2)]
    by (intro exI [of _ ?b] exI [of _ s1] exI [of _ s2]) simp
qed

end

interpretation part_io: sector_store io_ok fs_blocks io_step ReadSectors WriteSectors
  by unfold_locales (rule block_len io_step_fields(1) io_step_trans read_ok write_ok, assumption+)+

section \<open>The layout of a partition\<close>

definition inode_sectors :: nat where "inode_sectors = 608"

text \<open>The areas of the partition follow each other and lie in the addressable part of the disk.\<close>

definition sb_ok :: "part \<Rightarrow> super_block \<Rightarrow> bool" where
  "sb_ok pt sb \<longleftrightarrow>
     unat (pt_start_lba pt) + 2 \<le> unat (sb_block_bitmap_start_lba sb) \<and>
     0 < unat (sb_block_bitmap_sector_count sb) \<and>
     unat (sb_block_bitmap_start_lba sb) + unat (sb_block_bitmap_sector_count sb) \<le> unat (sb_inode_bitmap_start_lba sb) \<and>
     unat (sb_inode_bitmap_sector_count sb) = 1 \<and>
     unat (sb_inode_bitmap_start_lba sb) + 1 \<le> unat (sb_inodes_start_lba sb) \<and>
     unat (sb_inodes_start_lba sb) + inode_sectors \<le> unat (sb_data_start_lba sb) \<and>
     unat (sb_data_start_lba sb) \<le> unat (pt_start_lba pt) + unat (pt_sector_count pt) \<and>
     unat (pt_start_lba pt) + unat (pt_sector_count pt) \<le> unat max_lba"

definition part_ok :: "file_sys \<Rightarrow> bool" where
  "part_ok s \<longleftrightarrow> io_ok s \<and> (case fs_super s of None \<Rightarrow> False | Some sb \<Rightarrow> sb_ok (fs_part s) sb)"

definition super_of :: "file_sys \<Rightarrow> super_block" where
  "super_of s = (case fs_super s of Some sb \<Rightarrow> sb | None \<Rightarrow> super_of_bytes [])"

lemma part_okD: "part_ok s \<Longrightarrow> io_ok s \<and> fs_super s = Some (super_of s) \<and> sb_ok (fs_part s) (super_of s)"
  by (auto simp: part_ok_def super_of_def split: option.splits)

lemma part_ok_step: "io_step s s' \<Longrightarrow> part_ok s \<Longrightarrow> part_ok s' \<and> super_of s' = super_of s"
  using io_step_fields(1,3,4) [of s s'] by (auto simp: part_ok_def super_of_def split: option.splits)

lemma max_lba_val: "unat max_lba = 163839"
  by (simp add: max_lba_def max_size_def MB_def KB_def sector_size_def)

definition inodes_lba :: "file_sys \<Rightarrow> nat" where
  "inodes_lba s = unat (sb_inodes_start_lba (super_of s))"

definition inode_area :: "file_sys \<Rightarrow> u8 list" where
  "inode_area s = run_bytes (fs_blocks s) (inodes_lba s) inode_sectors"

definition disk_node :: "file_sys \<Rightarrow> nat \<Rightarrow> idx_node" where
  "disk_node s i = node_of_bytes (drop (i * sizeof_IdxNode) (inode_area s))"

lemma length_inode_area: "io_ok s \<Longrightarrow> length (inode_area s) = 4096 * sizeof_IdxNode"
  by (simp add: inode_area_def length_run_bytes [OF block_len] inode_sectors_def sector_size_def sizeof_IdxNode_def)

lemma node_place:
  assumes "x \<le> 4095 * 76"
  shows "x div 512 + (if 436 < x mod 512 then 2 else 1) \<le> (608 :: nat)"
    and "x mod 512 + 76 \<le> (if 436 < x mod 512 then 2 else 1) * (512 :: nat)"
proof -
  have sum: "d + (if 436 < r then 2 else 1) \<le> 608" if "d * 512 + r = x" for d r using assms that by auto
  show "x div 512 + (if 436 < x mod 512 then 2 else 1) \<le> 608" by (rule sum [OF div_mult_mod_eq])
  have "x mod 512 < 512" by simp
  then show "x mod 512 + 76 \<le> (if 436 < x mod 512 then 2 else 1) * 512" by auto
qed

lemma IdxNodePos_ok:
  assumes "part_ok s" "idx < max_file_count_per_part"
  obtains pos where "IdxNodePos idx s = Some pos"
    "unat (np_lba pos) = inodes_lba s + unat idx * sizeof_IdxNode div sector_size"
    "np_offset pos = unat idx * sizeof_IdxNode mod sector_size"
    "np_offset pos + sizeof_IdxNode \<le> pos_sector_count pos * sector_size"
    "unat (np_lba pos) + pos_sector_count pos \<le> inodes_lba s + inode_sectors"
    "pos_sector_count pos \<in> {1, 2}"
proof -
  let ?sb = "super_of s" and ?pt = "fs_part s"
  have ok: "fs_super s = Some ?sb" "sb_ok ?pt ?sb" using part_okD [OF assms(1)] by simp_all
  have i: "unat idx < 4096" using assms(2) by (simp add: max_file_count_per_part_def word_less_nat_alt)
  define x where "x = unat idx * 76"
  have x: "x \<le> 4095 * 76" using i unfolding x_def by (intro mult_le_mono1) simp
  have m: "unat (idx * 76) = x"
    using i unfolding x_def by (subst unat_mult_lem [THEN iffD1]) simp_all
  have off: "unat (idx * 76 mod 512) = x mod 512" "unat (idx * 76 div 512) = x div 512"
    by (simp_all add: unat_mod unat_div m)
  have q: "x div 512 \<le> 607" using node_place(1) [OF x] by (simp split: if_splits)
  have b: "inodes_lba s + 608 \<le> unat (pt_start_lba ?pt) + unat (pt_sector_count ?pt)"
    "unat (pt_start_lba ?pt) + unat (pt_sector_count ?pt) \<le> 163839"
    using ok(2) by (simp_all add: sb_ok_def inodes_lba_def inode_sectors_def max_lba_val)
  have lba: "unat (sb_inodes_start_lba ?sb + idx * 76 div 512) = inodes_lba s + x div 512"
    using b q by (subst unat_add_lem [THEN iffD1]) (simp_all add: off inodes_lba_def)
  have e: "unat (pt_start_lba ?pt + pt_sector_count ?pt) = unat (pt_start_lba ?pt) + unat (pt_sector_count ?pt)"
    using b by (subst unat_add_lem [THEN iffD1]) simp_all
  have across: "512 - idx * 76 mod 512 < 76 \<longleftrightarrow> 436 < x mod 512"
  proof -
    have "x mod 512 < 512" by simp
    then have "unat (512 - idx * 76 mod 512) = 512 - x mod 512"
      by (subst unat_sub) (simp_all add: word_le_nat_alt off)
    then show ?thesis by (auto simp: word_less_nat_alt)
  qed
  let ?pos = "\<lparr>np_across = 512 - idx * 76 mod 512 < (76 :: u32), np_lba = sb_inodes_start_lba ?sb + idx * 76 div 512,
    np_offset = unat (idx * 76 mod 512)\<rparr>"
  have "IdxNodePos idx s = Some ?pos"
    using assms(2) ok(1) lba e q b
    by (simp add: IdxNodePos_def FilePart_GetSuperBlock_def sizeof_IdxNode_def sector_size_def word_less_nat_alt Let_def)
  moreover have "pos_sector_count ?pos = (if 436 < x mod 512 then 2 else 1)"
    by (simp add: pos_sector_count_def across)
  moreover have "unat (np_lba ?pos) = inodes_lba s + x div 512" "np_offset ?pos = x mod 512"
    using lba off by simp_all
  ultimately show thesis
    using that [of ?pos] node_place [OF x] by (simp add: x_def [symmetric] sizeof_IdxNode_def sector_size_def inode_sectors_def)
qed

section \<open>Saving and loading index nodes\<close>

lemma run_bytes_sub:
  assumes "lo \<le> lba" "lba + k \<le> lo + n" "\<And>l. length (f l) = sector_size" "off + m \<le> k * sector_size"
  shows "take m (drop off (run_bytes f lba k)) = take m (drop ((lba - lo) * sector_size + off) (run_bytes f lo n))"
proof -
  obtain a b where ab: "lba = lo + a" "n = a + (k + b)" using assms(1,2) by (metis add.assoc le_add_diff_inverse nat_add_left_cancel_le)
  have "run_bytes f lo n = run_bytes f lo a @ run_bytes f lba k @ run_bytes f (lba + k) b"
    by (simp add: ab run_bytes_append add.assoc)
  moreover have "length (run_bytes f lo a) = a * sector_size" "length (run_bytes f lba k) = k * sector_size"
    using assms(3) by (simp_all add: length_run_bytes)
  ultimately show ?thesis using assms(4) by (simp add: ab(1))
qed

lemma node_at:
  assumes "part_ok s" "idx < max_file_count_per_part" "IdxNodePos idx s = Some pos"
  shows "node_of_bytes (drop (np_offset pos) (run_bytes (fs_blocks s) (unat (np_lba pos)) (pos_sector_count pos))) =
    disk_node s (unat idx)"
proof -
  obtain pos' where pos': "IdxNodePos idx s = Some pos'"
    "unat (np_lba pos') = inodes_lba s + unat idx * sizeof_IdxNode div sector_size"
    "np_offset pos' = unat idx * sizeof_IdxNode mod sector_size"
    "np_offset pos' + sizeof_IdxNode \<le> pos_sector_count pos' * sector_size"
    "unat (np_lba pos') + pos_sector_count pos' \<le> inodes_lba s + inode_sectors"
    using IdxNodePos_ok [OF assms(1,2)] by metis
  then have pos: "unat (np_lba pos) = inodes_lba s + unat idx * sizeof_IdxNode div sector_size"
    "np_offset pos = unat idx * sizeof_IdxNode mod sector_size"
    "np_offset pos + sizeof_IdxNode \<le> pos_sector_count pos * sector_size"
    "unat (np_lba pos) + pos_sector_count pos \<le> inodes_lba s + inode_sectors"
    using assms(3) by simp_all
  have io: "io_ok s" using part_okD [OF assms(1)] by simp
  have o: "(unat (np_lba pos) - inodes_lba s) * sector_size + np_offset pos = unat idx * sizeof_IdxNode"
    by (simp add: pos(1,2))
  have i: "unat idx < 4096" using assms(2) by (simp add: max_file_count_per_part_def word_less_nat_alt)
  let ?r = "run_bytes (fs_blocks s) (unat (np_lba pos)) (pos_sector_count pos)"
  have "take sizeof_IdxNode (drop (np_offset pos) ?r) = take sizeof_IdxNode (drop (unat idx * sizeof_IdxNode) (inode_area s))"
    using run_bytes_sub [OF _ pos(4) block_len [OF io] pos(3)] pos(1) o by (simp add: inode_area_def)
  moreover have "sizeof_IdxNode \<le> length (drop (np_offset pos) ?r)"
    using pos(3) by (simp add: length_run_bytes [OF block_len [OF io]])
  moreover have "sizeof_IdxNode \<le> length (drop (unat idx * sizeof_IdxNode) (inode_area s))"
    using i by (simp add: length_inode_area [OF io] sizeof_IdxNode_def)
  ultimately show ?thesis unfolding disk_node_def by (rule node_of_bytes_cong)
qed

lemma pos_io:
  assumes "part_ok s" "pos_sector_count pos \<in> {1, 2}" "unat (np_lba pos) + pos_sector_count pos \<le> inodes_lba s + inode_sectors"
  shows "0 < (of_nat (pos_sector_count pos) :: u32)" "unat (of_nat (pos_sector_count pos) :: u32) = pos_sector_count pos"
    "unat (np_lba pos) + unat (of_nat (pos_sector_count pos) :: u32) \<le> unat max_lba"
proof -
  show "0 < (of_nat (pos_sector_count pos) :: u32)" and u: "unat (of_nat (pos_sector_count pos) :: u32) = pos_sector_count pos"
    using assms(2) by auto
  have "inodes_lba s + inode_sectors \<le> unat max_lba"
    using part_okD [OF assms(1)] by (simp add: sb_ok_def inodes_lba_def)
  with assms(3) u show "unat (np_lba pos) + unat (of_nat (pos_sector_count pos) :: u32) \<le> unat max_lba" by simp
qed

text \<open>The read, change and write of an index node that \<^verbatim>\<open>SyncNode\<close> and \<^verbatim>\<open>ZeroFillNode\<close> share.\<close>

lemma patch_node:
  assumes "part_ok s" "idx < max_file_count_per_part" "2 * sector_size \<le> length buf" "length bytes = sizeof_IdxNode"
  shows "\<exists>pos buf' s1 s2. IdxNodePos idx s = Some pos \<and>
    ReadSectors (np_lba pos) buf (of_nat (pos_sector_count pos)) s = Some (buf', s1) \<and> length buf' = length buf \<and>
    np_offset pos + sizeof_IdxNode \<le> length buf' \<and>
    WriteSectors (np_lba pos) (overwrite buf' (np_offset pos) bytes) (of_nat (pos_sector_count pos)) s1 = Some s2 \<and>
    io_step s s2 \<and> inode_area s2 = overwrite (inode_area s) (unat idx * sizeof_IdxNode) bytes \<and>
    (\<forall>l. l < inodes_lba s \<or> inodes_lba s + inode_sectors \<le> l \<longrightarrow> fs_blocks s2 l = fs_blocks s l)"
proof -
  obtain pos where pos: "IdxNodePos idx s = Some pos"
    "unat (np_lba pos) = inodes_lba s + unat idx * sizeof_IdxNode div sector_size"
    "np_offset pos = unat idx * sizeof_IdxNode mod sector_size"
    "np_offset pos + sizeof_IdxNode \<le> pos_sector_count pos * sector_size"
    "unat (np_lba pos) + pos_sector_count pos \<le> inodes_lba s + inode_sectors"
    "pos_sector_count pos \<in> {1, 2}"
    using IdxNodePos_ok [OF assms(1,2)] by metis
  note n = pos_io [OF assms(1) pos(6,5)]
  have io: "io_ok s" using part_okD [OF assms(1)] by simp
  have c: "pos_sector_count pos * sector_size \<le> length buf"
  proof -
    have "pos_sector_count pos * sector_size \<le> 2 * sector_size" using pos(6) by (intro mult_le_mono1) auto
    then show ?thesis using assms(3) by (rule le_trans)
  qed
  have o: "(unat (np_lba pos) - inodes_lba s) * sector_size + np_offset pos = unat idx * sizeof_IdxNode"
    by (simp add: pos(2,3))
  obtain buf' s1 s2 where r: "ReadSectors (np_lba pos) buf (of_nat (pos_sector_count pos)) s = Some (buf', s1)"
    "length buf' = length buf"
    "WriteSectors (np_lba pos) (overwrite buf' (np_offset pos) bytes) (of_nat (pos_sector_count pos)) s1 = Some s2"
    "io_step s s2"
    "run_bytes (fs_blocks s2) (inodes_lba s) inode_sectors = overwrite (inode_area s) (unat idx * sizeof_IdxNode) bytes"
    "\<forall>l. l < unat (np_lba pos) \<or> unat (np_lba pos) + pos_sector_count pos \<le> l \<longrightarrow> fs_blocks s2 l = fs_blocks s l"
    using part_io.patch [OF io n(1,3), of buf "np_offset pos" bytes "inodes_lba s" inode_sectors] c pos(2,4,5) assms(4)
    unfolding n(2) o inode_area_def by auto
  have "inode_area s2 = overwrite (inode_area s) (unat idx * sizeof_IdxNode) bytes"
    using r(5) part_ok_step [OF r(4) assms(1)] by (simp add: inode_area_def inodes_lba_def)
  moreover have "np_offset pos + sizeof_IdxNode \<le> length buf'" using pos(4) c r(2) by simp
  moreover have "\<forall>l. l < inodes_lba s \<or> inodes_lba s + inode_sectors \<le> l \<longrightarrow> fs_blocks s2 l = fs_blocks s l"
    using r(6) pos(2,5) by auto
  ultimately show ?thesis using pos(1) r(1-4) by blast
qed

lemma take_drop_overwrite_other:
  assumes "off + length ys \<le> length xs" "a + m \<le> off \<or> off + length ys \<le> a"
  shows "take m (drop a (overwrite xs off ys)) = take m (drop a xs)"
  using assms(2)
proof
  assume "a + m \<le> off"
  then show ?thesis using assms(1) by (simp add: overwrite_def drop_take [symmetric] take_drop min_def)
next
  assume "off + length ys \<le> a"
  then have "drop a (overwrite xs off ys) = drop a xs" using assms(1) by (simp add: overwrite_def)
  then show ?thesis by simp
qed

lemma disk_node_update:
  assumes io: "io_ok s" "io_ok t" and area: "inode_area t = overwrite (inode_area s) (i * sizeof_IdxNode) bytes"
    and len: "length bytes = sizeof_IdxNode" and ij: "i < 4096" "j < 4096"
  shows "disk_node t j = (if j = i then node_of_bytes bytes else disk_node s j)"
proof (cases "j = i")
  case True
  have l: "i * sizeof_IdxNode + length bytes \<le> length (inode_area s)"
    using ij(1) by (simp add: length_inode_area [OF io(1)] len sizeof_IdxNode_def)
  then have "drop (j * sizeof_IdxNode) (inode_area t) = bytes @ drop (i * sizeof_IdxNode + length bytes) (inode_area s)"
    by (simp add: True area overwrite_def)
  moreover have "node_of_bytes (bytes @ zs) = node_of_bytes bytes" for zs
    by (rule node_of_bytes_cong) (simp_all add: len)
  ultimately show ?thesis using True by (simp add: disk_node_def)
next
  case False
  have l: "k * sizeof_IdxNode + sizeof_IdxNode \<le> length (inode_area u)" if "io_ok u" "k < 4096" for k u
    using that by (simp add: length_inode_area sizeof_IdxNode_def)
  have "(j + 1) * sizeof_IdxNode \<le> i * sizeof_IdxNode \<or> (i + 1) * sizeof_IdxNode \<le> j * sizeof_IdxNode"
    using False by (metis Suc_eq_plus1 Suc_leI linorder_neqE_nat mult_le_mono1)
  then have "take sizeof_IdxNode (drop (j * sizeof_IdxNode) (inode_area t)) =
      take sizeof_IdxNode (drop (j * sizeof_IdxNode) (inode_area s))"
    unfolding area using l [OF io(1) ij(1)] by (intro take_drop_overwrite_other) (auto simp: len)
  then have "node_of_bytes (drop (j * sizeof_IdxNode) (inode_area t)) = node_of_bytes (drop (j * sizeof_IdxNode) (inode_area s))"
    by (rule node_of_bytes_cong) (use l [OF io(2) ij(2)] l [OF io(1) ij(2)] in simp_all)
  then show ?thesis using False by (simp add: disk_node_def)
qed

text \<open>\<open>node_step s t i n\<close>: only the copy of node \<open>i\<close> on disk changes, to \<open>n\<close>.\<close>

definition node_step :: "file_sys \<Rightarrow> file_sys \<Rightarrow> nat \<Rightarrow> idx_node \<Rightarrow> bool" where
  "node_step s t i n \<longleftrightarrow> io_step s t \<and> (\<forall>j<4096. disk_node t j = (if j = i then n else disk_node s j)) \<and>
     (\<forall>l. l < inodes_lba s \<or> inodes_lba s + inode_sectors \<le> l \<longrightarrow> fs_blocks t l = fs_blocks s l)"

lemma SyncNode_ok:
  assumes "part_ok s" "in_idx n < max_file_count_per_part" "2 * sector_size \<le> length buf"
    "length (in_direct n) = direct_block_count"
  shows "\<exists>buf' t. FilePart_SyncNode n buf s = Some (buf', t) \<and> length buf' = length buf \<and>
    node_step s t (unat (in_idx n)) (IdxNode_CloneToPure n)"
proof -
  let ?b = "node_bytes (IdxNode_CloneToPure n)"
  have b: "length ?b = sizeof_IdxNode" using assms(4) by (simp add: IdxNode_CloneToPure_def)
  obtain pos buf' s1 t where r: "IdxNodePos (in_idx n) s = Some pos"
    "ReadSectors (np_lba pos) buf (of_nat (pos_sector_count pos)) s = Some (buf', s1)" "length buf' = length buf"
    "np_offset pos + sizeof_IdxNode \<le> length buf'"
    "WriteSectors (np_lba pos) (overwrite buf' (np_offset pos) ?b) (of_nat (pos_sector_count pos)) s1 = Some t"
    "io_step s t" "inode_area t = overwrite (inode_area s) (unat (in_idx n) * sizeof_IdxNode) ?b"
    "\<forall>l. l < inodes_lba s \<or> inodes_lba s + inode_sectors \<le> l \<longrightarrow> fs_blocks t l = fs_blocks s l"
    using patch_node [OF assms(1-3) b] by blast
  have i: "unat (in_idx n) < 4096" using assms(2) by (simp add: max_file_count_per_part_def word_less_nat_alt)
  have "node_of_bytes ?b = IdxNode_CloneToPure n" using assms(4) by (simp add: IdxNode_CloneToPure_def)
  then have "\<forall>j<4096. disk_node t j = (if j = unat (in_idx n) then IdxNode_CloneToPure n else disk_node s j)"
    using disk_node_update [OF _ io_step_fields(1) [OF r(6)] r(7) b i] part_okD [OF assms(1)] by auto
  with r assms(3) b show ?thesis
    by (auto simp: FilePart_SyncNode_def Let_def node_step_def)
qed

lemma ZeroFillNode_ok:
  assumes "part_ok s" "idx < max_file_count_per_part" "2 * sector_size \<le> length buf"
  shows "\<exists>buf' t. FilePart_ZeroFillNode idx buf s = Some (buf', t) \<and>
    node_step s t (unat idx) (node_of_bytes (replicate sizeof_IdxNode 0))"
proof -
  let ?b = "replicate sizeof_IdxNode 0 :: u8 list"
  obtain pos buf' s1 t where r: "IdxNodePos idx s = Some pos"
    "ReadSectors (np_lba pos) buf (of_nat (pos_sector_count pos)) s = Some (buf', s1)"
    "WriteSectors (np_lba pos) (overwrite buf' (np_offset pos) ?b) (of_nat (pos_sector_count pos)) s1 = Some t"
    "io_step s t" "inode_area t = overwrite (inode_area s) (unat idx * sizeof_IdxNode) ?b"
    "\<forall>l. l < inodes_lba s \<or> inodes_lba s + inode_sectors \<le> l \<longrightarrow> fs_blocks t l = fs_blocks s l"
    using patch_node [OF assms length_replicate] by blast
  have i: "unat idx < 4096" using assms(2) by (simp add: max_file_count_per_part_def word_less_nat_alt)
  have "\<forall>j<4096. disk_node t j = (if j = unat idx then node_of_bytes ?b else disk_node s j)"
    using disk_node_update [OF _ io_step_fields(1) [OF r(4)] r(5) length_replicate i] part_okD [OF assms(1)] by auto
  with r assms(2,3) show ?thesis
    by (auto simp: FilePart_ZeroFillNode_def Let_def node_step_def)
qed

section \<open>Index nodes in memory\<close>

definition nodes_ok :: "file_sys \<Rightarrow> bool" where
  "nodes_ok s \<longleftrightarrow> distinct (fs_open_inodes s) \<and> (\<forall>p. fs_nodes s p \<noteq> None \<longrightarrow> p < fs_next s) \<and>
     (\<forall>p\<in>set (fs_open_inodes s). \<exists>n. fs_nodes s p = Some n \<and> length (in_direct n) = direct_block_count \<and>
        0 < in_open_times n) \<and>
     (\<forall>p\<in>set (fs_open_inodes s). \<forall>q\<in>set (fs_open_inodes s).
        map_option in_idx (fs_nodes s p) = map_option in_idx (fs_nodes s q) \<longrightarrow> p = q)"

definition is_open :: "file_sys \<Rightarrow> u32 \<Rightarrow> bool" where
  "is_open s idx \<longleftrightarrow> (\<exists>p\<in>set (fs_open_inodes s). map_option in_idx (fs_nodes s p) = Some idx)"

lemma find_node_ok:
  assumes "\<And>p. p \<in> set ps \<Longrightarrow> nodes p \<noteq> None"
  shows "(\<exists>p\<in>set ps. map_option in_idx (nodes p) = Some idx \<and> find_node nodes idx ps = Some (Some p)) \<or>
    (\<forall>p\<in>set ps. map_option in_idx (nodes p) \<noteq> Some idx) \<and> find_node nodes idx ps = Some None"
  using assms
proof (induction ps)
  case (Cons p ps)
  obtain n where "nodes p = Some n" using Cons.prems [of p] by auto
  with Cons.IH Cons.prems show ?case by (cases "in_idx n = idx") auto
qed simp

lemma OpenNode_new:
  assumes "part_ok s" "nodes_ok s" "idx < max_file_count_per_part" "\<not> is_open s idx"
  shows "\<exists>t. FilePart_OpenNode idx s = Some (fs_next s,
      t\<lparr>fs_nodes := (fs_nodes s)(fs_next s \<mapsto> (disk_node s (unat idx))\<lparr>in_open_times := 1\<rparr>),
        fs_next := fs_next s + 1, fs_open_inodes := fs_open_inodes s @ [fs_next s]\<rparr>) \<and>
    io_step s t \<and> fs_blocks t = fs_blocks s"
proof -
  have "find_node (fs_nodes s) idx (fs_open_inodes s) = Some None"
    using find_node_ok [of "fs_open_inodes s" "fs_nodes s" idx] assms(2,4) by (fastforce simp: nodes_ok_def is_open_def)
  moreover obtain pos where pos: "IdxNodePos idx s = Some pos"
    "unat (np_lba pos) = inodes_lba s + unat idx * sizeof_IdxNode div sector_size"
    "np_offset pos = unat idx * sizeof_IdxNode mod sector_size"
    "np_offset pos + sizeof_IdxNode \<le> pos_sector_count pos * sector_size"
    "unat (np_lba pos) + pos_sector_count pos \<le> inodes_lba s + inode_sectors"
    "pos_sector_count pos \<in> {1, 2}"
    using IdxNodePos_ok [OF assms(1,3)] by metis
  note n = pos_io [OF assms(1) pos(6,5)]
  have io: "io_ok s" using part_okD [OF assms(1)] by simp
  let ?z = "replicate (pos_sector_count pos * sector_size) 0"
  let ?r = "run_bytes (fs_blocks s) (unat (np_lba pos)) (pos_sector_count pos)"
  have len: "length ?r = pos_sector_count pos * sector_size" by (simp add: length_run_bytes [OF block_len [OF io]])
  obtain s' where s': "ReadSectors (np_lba pos) ?z (of_nat (pos_sector_count pos)) s = Some (overwrite ?z 0 ?r, s')"
    "io_step s s'" "fs_blocks s' = fs_blocks s"
    using read_ok [OF io n(1,3), of ?z] unfolding n(2) by auto
  have "overwrite ?z 0 ?r = ?r" by (simp add: overwrite_def len)
  then have "ReadSectors (np_lba pos) ?z (of_nat (pos_sector_count pos)) s = Some (?r, s')"
    "np_offset pos + sizeof_IdxNode \<le> length ?r"
    "node_of_bytes (drop (np_offset pos) ?r) = disk_node s (unat idx)"
    using s'(1) pos(4) len node_at [OF assms(1,3) pos(1)] by simp_all
  ultimately show ?thesis
    using assms(3) pos(1) s'(2,3) io_step_fields [OF s'(2)]
    by (intro exI [of _ s']) (simp add: FilePart_OpenNode_def Let_def)
qed

lemma OpenNode_again:
  assumes "nodes_ok s" "idx < max_file_count_per_part" "p \<in> set (fs_open_inodes s)" "fs_nodes s p = Some n" "in_idx n = idx"
  shows "FilePart_OpenNode idx s = Some (p, s\<lparr>fs_nodes := (fs_nodes s)(p \<mapsto> n\<lparr>in_open_times := in_open_times n + 1\<rparr>)\<rparr>)"
proof -
  have "\<And>p. p \<in> set (fs_open_inodes s) \<Longrightarrow> fs_nodes s p \<noteq> None" using assms(1) by (fastforce simp: nodes_ok_def)
  from find_node_ok [of "fs_open_inodes s" "fs_nodes s" idx, OF this] assms(3-5) obtain q where q: "q \<in> set (fs_open_inodes s)"
    "map_option in_idx (fs_nodes s q) = Some idx" "find_node (fs_nodes s) idx (fs_open_inodes s) = Some (Some q)"
    by (metis option.simps(9))
  moreover have "q = p" using q(1,2) assms(1,3-5) unfolding nodes_ok_def by (metis option.simps(9))
  ultimately have "find_node (fs_nodes s) idx (fs_open_inodes s) = Some (Some p)" by simp
  with assms show ?thesis by (simp add: FilePart_OpenNode_def)
qed

lemma part_ok_store [simp]:
  "part_ok (s\<lparr>fs_nodes := a\<rparr>) = part_ok s" "part_ok (s\<lparr>fs_next := b\<rparr>) = part_ok s"
  "part_ok (s\<lparr>fs_open_inodes := d\<rparr>) = part_ok s"
  "super_of (s\<lparr>fs_nodes := a\<rparr>) = super_of s" "super_of (s\<lparr>fs_next := b\<rparr>) = super_of s"
  "super_of (s\<lparr>fs_open_inodes := d\<rparr>) = super_of s"
  "fs_blocks (s\<lparr>fs_nodes := a\<rparr>) = fs_blocks s" "fs_blocks (s\<lparr>fs_next := b\<rparr>) = fs_blocks s"
  "fs_blocks (s\<lparr>fs_open_inodes := d\<rparr>) = fs_blocks s"
  by (auto simp: part_ok_def io_ok_def super_of_def fs_blocks_def split: option.splits)

text \<open>Closing the last use of a node takes it from the list and frees it.\<close>

lemma Close_last:
  assumes "fs_nodes s p = Some n" "in_open_times n = 1" "p \<in> set (fs_open_inodes s)"
  shows "IdxNode_Close p s = Some (s\<lparr>fs_open_inodes := remove1 p (fs_open_inodes s), fs_nodes := (fs_nodes s)(p := None)\<rparr>)"
  using assms by (simp add: IdxNode_Close_def)

lemma nodes_fresh: "nodes_ok s \<Longrightarrow> fs_nodes s (fs_next s) = None \<and> fs_next s \<notin> set (fs_open_inodes s)"
  unfolding nodes_ok_def by (metis less_irrefl option.discI)

section \<open>Properties\<close>

text \<open>
  C21: Saving an index node and opening it again gives the saved node: for every node of the partition, wherever it lies in
  its sectors, \<^verbatim>\<open>SyncNode\<close> changes exactly its own bytes on the disk (every other index node, every sector outside the
  node area and the other disk of the channel keep their contents), and \<^verbatim>\<open>OpenNode\<close> then loads a node with the saved
  fields, an open count of one and no write lock; closing it restores the list of open nodes and the memory.
\<close>

theorem SyncNode_OpenNode_roundtrip:
  assumes "part_ok s" "nodes_ok s" "in_idx n < max_file_count_per_part" "length (in_direct n) = direct_block_count"
    and "2 * sector_size \<le> length buf" "\<not> is_open s (in_idx n)"
  shows "\<exists>buf' t p u v. FilePart_SyncNode n buf s = Some (buf', t) \<and>
    node_step s t (unat (in_idx n)) (IdxNode_CloneToPure n) \<and>
    FilePart_OpenNode (in_idx n) t = Some (p, u) \<and>
    fs_nodes u p = Some (n\<lparr>in_open_times := 1, in_write_deny := False\<rparr>) \<and>
    fs_open_inodes u = fs_open_inodes s @ [p] \<and> fs_blocks u = fs_blocks t \<and>
    IdxNode_Close p u = Some v \<and> fs_nodes v = fs_nodes s \<and> fs_open_inodes v = fs_open_inodes s"
proof -
  obtain buf' t where t: "FilePart_SyncNode n buf s = Some (buf', t)"
    "node_step s t (unat (in_idx n)) (IdxNode_CloneToPure n)"
    using SyncNode_ok [OF assms(1,3,5,4)] by blast
  have st: "io_step s t" and i: "unat (in_idx n) < 4096"
    using t(2) assms(3) by (simp_all add: node_step_def max_file_count_per_part_def word_less_nat_alt)
  note f = io_step_fields [OF st]
  have ok: "part_ok t" "nodes_ok t" "\<not> is_open t (in_idx n)"
    using part_ok_step [OF st assms(1)] assms(2,6) by (simp_all add: nodes_ok_def is_open_def f)
  let ?n = "n\<lparr>in_open_times := 1, in_write_deny := False\<rparr>"
  have "disk_node t (unat (in_idx n)) = IdxNode_CloneToPure n" using t(2) i by (simp add: node_step_def)
  then have dn: "(disk_node t (unat (in_idx n)))\<lparr>in_open_times := 1\<rparr> = ?n"
    by (cases n) (simp add: IdxNode_CloneToPure_def)
  obtain t' where t': "FilePart_OpenNode (in_idx n) t = Some (fs_next t,
      t'\<lparr>fs_nodes := (fs_nodes t)(fs_next t \<mapsto> ?n), fs_next := fs_next t + 1,
        fs_open_inodes := fs_open_inodes t @ [fs_next t]\<rparr>)" "fs_blocks t' = fs_blocks t"
    using OpenNode_new [OF ok(1,2) assms(3) ok(3)] unfolding dn by blast
  let ?u = "t'\<lparr>fs_nodes := (fs_nodes t)(fs_next t \<mapsto> ?n), fs_next := fs_next t + 1,
        fs_open_inodes := fs_open_inodes t @ [fs_next t]\<rparr>"
  have "IdxNode_Close (fs_next t) ?u = Some (?u\<lparr>fs_open_inodes := remove1 (fs_next t) (fs_open_inodes ?u),
      fs_nodes := (fs_nodes ?u)(fs_next t := None)\<rparr>)"
    by (rule Close_last [of _ _ ?n]) simp_all
  moreover have "remove1 (fs_next t) (fs_open_inodes t @ [fs_next t]) = fs_open_inodes t"
    "(fs_nodes t)(fs_next t := None) = fs_nodes t"
    using nodes_fresh [OF ok(2)] by (auto simp: remove1_append)
  ultimately show ?thesis using t t' f by auto
qed

definition demo_fs :: file_sys where
  "demo_fs = \<lparr>fs_chnl = blank_chnl, fs_disk = blank_disk,
     fs_part = \<lparr>pt_name = ''sdb1'' @ replicate 5 NUL, pt_start_lba = 100, pt_sector_count = 2000, pt_disk = True\<rparr>,
     fs_super = Some \<lparr>sb_sign = super_block_sign, sb_part_start_lba = 100, sb_part_sector_count = 2000,
       sb_part_inode_count = 4096, sb_block_bitmap_start_lba = 102, sb_block_bitmap_sector_count = 1,
       sb_inode_bitmap_start_lba = 103, sb_inode_bitmap_sector_count = 1, sb_inodes_start_lba = 104,
       sb_inodes_sector_count = 608, sb_data_start_lba = 712, sb_root_inode_idx = 0\<rparr>,
     fs_block_bitmap = Bitmap_default, fs_inode_bitmap = Bitmap_default, fs_open_inodes = [], fs_nodes = (\<lambda>_. None), fs_next = 0\<rparr>"

lemma demo_fs_ok: "part_ok demo_fs" "nodes_ok demo_fs" "\<not> is_open demo_fs i"
  by (simp_all add: demo_fs_def part_ok_def io_ok_def blank_chnl_ok blank_disk_def sb_ok_def inode_sectors_def max_lba_val
      nodes_ok_def is_open_def)

theorem SyncNode_OpenNode_roundtrip_witness:
  "\<exists>buf t p u. FilePart_SyncNode \<lparr>in_idx = 6, in_size = 1000, in_open_times = 3, in_write_deny = True,
       in_direct = 800 # 801 # replicate 10 0, in_indirect = 0\<rparr> (replicate 1024 0) demo_fs = Some (buf, t) \<and>
     FilePart_OpenNode 6 t = Some (p, u) \<and>
     fs_nodes u p = Some \<lparr>in_idx = 6, in_size = 1000, in_open_times = 1, in_write_deny = False,
       in_direct = 800 # 801 # replicate 10 0, in_indirect = 0\<rparr>"
  using SyncNode_OpenNode_roundtrip [OF demo_fs_ok(1,2) _ _ _ demo_fs_ok(3), of "\<lparr>in_idx = 6, in_size = 1000, in_open_times = 3,
      in_write_deny = True, in_direct = 800 # 801 # replicate 10 0, in_indirect = 0\<rparr>" "replicate 1024 0"]
  by (simp add: max_file_count_per_part_def direct_block_count_def sector_size_def) blast

end
