(* ===== verification/FileFormat.thy ===== *)
theory FileFormat
  imports Inodes
begin

text \<open>
  A formatted partition: \<^verbatim>\<open>FormatPart\<close> followed by \<^verbatim>\<open>LoadSuperBlock\<close> gives a consistent empty file system, on every
  partition large enough to hold one.
\<close>

section \<open>The numbers\<close>

definition fmt_free :: "part \<Rightarrow> nat" where "fmt_free pt = unat (pt_sector_count pt) - 611"
definition fmt_bits :: "part \<Rightarrow> nat" where "fmt_bits pt = fmt_free pt - (fmt_free pt + 4095) div 4096"
definition fmt_bitmap :: "part \<Rightarrow> nat" where "fmt_bitmap pt = (fmt_bits pt + 4095) div 4096"

lemma fmt_bounds:
  assumes "613 \<le> unat (pt_sector_count pt)"
  shows "0 < fmt_bits pt" "0 < fmt_bitmap pt" "fmt_bits pt \<le> fmt_bitmap pt * 4096"
    "fmt_bitmap pt + fmt_bits pt \<le> fmt_free pt"
proof -
  define f where "f = fmt_free pt"
  have f: "2 \<le> f" using assms by (simp add: f_def fmt_free_def)
  define a where "a = (f + 4095) div 4096"
  have a: "a < f" "0 < a" using f unfolding a_def by (simp_all add: div_less_iff_less_mult)
  have bits: "fmt_bits pt = f - a" by (simp add: fmt_bits_def f_def a_def)
  then show "0 < fmt_bits pt" using a by simp
  then show "0 < fmt_bitmap pt" by (simp add: fmt_bitmap_def)
  show "fmt_bits pt \<le> fmt_bitmap pt * 4096"
  proof -
    have up: "x \<le> (x + 4095) div 4096 * 4096" for x :: nat
      using div_mult_mod_eq [of "x + 4095" 4096] mod_less_divisor [of 4096 "x + 4095"] by linarith
    show ?thesis unfolding fmt_bitmap_def by (rule up)
  qed
  have "fmt_bitmap pt \<le> a" unfolding fmt_bitmap_def a_def bits by (intro div_le_mono) simp
  then show "fmt_bitmap pt + fmt_bits pt \<le> fmt_free pt" using a bits by (simp add: f_def)
qed

lemma FormatPart_super_ok:
  assumes "613 \<le> unat (pt_sector_count pt)" "unat (pt_start_lba pt) + unat (pt_sector_count pt) \<le> unat max_lba"
  defines "sb \<equiv> fst (FormatPart_super pt)"
  shows "unat (snd (FormatPart_super pt)) = fmt_bits pt"
    "unat (sb_block_bitmap_start_lba sb) = unat (pt_start_lba pt) + 2"
    "unat (sb_block_bitmap_sector_count sb) = fmt_bitmap pt"
    "unat (sb_inode_bitmap_start_lba sb) = unat (pt_start_lba pt) + 2 + fmt_bitmap pt"
    "sb_inode_bitmap_sector_count sb = 1"
    "unat (sb_inodes_start_lba sb) = unat (pt_start_lba pt) + 3 + fmt_bitmap pt"
    "sb_inodes_sector_count sb = 608"
    "unat (sb_data_start_lba sb) = unat (pt_start_lba pt) + 611 + fmt_bitmap pt"
    "sb_sign sb = super_block_sign" "sb_root_inode_idx sb = root_inode_idx"
    "sb_part_start_lba sb = pt_start_lba pt" "sb_part_sector_count sb = pt_sector_count pt"
proof -
  let ?f = "pt_sector_count pt - 611"
  have m: "unat (pt_start_lba pt) + unat (pt_sector_count pt) \<le> 163839" using assms(2) by (simp add: max_lba_val)
  have f: "unat ?f = fmt_free pt"
    using assms(1) by (subst unat_sub) (simp_all add: word_le_nat_alt fmt_free_def)
  have ff: "fmt_free pt \<le> 163839" "2 \<le> fmt_free pt" using m assms(1) by (simp_all add: fmt_free_def)
  let ?a = "RoundUpDivide ?f 4096"
  have a: "unat ?a = (fmt_free pt + 4095) div 4096"
    using ff by (subst unat_RoundUpDivide) (simp_all add: f)
  have le: "(fmt_free pt + 4095) div 4096 \<le> fmt_free pt"
    using ff(2) by (metis fmt_bits_def fmt_bounds(1) [OF assms(1)] less_imp_le_nat zero_less_diff)
  have bits: "unat (?f - ?a) = fmt_bits pt"
    using le by (subst unat_sub) (simp_all add: word_le_nat_alt f a fmt_bits_def)
  have b: "unat (RoundUpDivide (?f - ?a) 4096) = fmt_bitmap pt"
    using ff bits by (subst unat_RoundUpDivide) (simp_all add: fmt_bitmap_def fmt_bits_def)
  have c: "CalcSectorCountForBlockBitmap ?f = (RoundUpDivide (?f - ?a) 4096, ?f - ?a)"
    by (simp add: CalcSectorCountForBlockBitmap_def bit_count_per_sector_def sector_size_def byte_len_def Let_def)
  have k: "RoundUpDivide (of_nat sizeof_PaddedSuperBlock) (of_nat sector_size) = 1"
    "max_file_count_per_part div bit_count_per_sector = 1"
    "RoundUpDivide (max_file_count_per_part * of_nat sizeof_IdxNode) (of_nat sector_size) = 608"
    "boot_sector_count = 1" "super_block_start_lba = 1"
    by (simp_all add: RoundUpDivide_def sizeof_PaddedSuperBlock_def sector_size_def max_file_count_per_part_def
        bit_count_per_sector_def byte_len_def sizeof_IdxNode_def boot_sector_count_def super_block_start_lba_def)
  let ?s = "pt_start_lba pt" and ?b = "RoundUpDivide (?f - ?a) 4096"
  have sb: "FormatPart_super pt = (\<lparr>sb_sign = super_block_sign, sb_part_start_lba = ?s,
      sb_part_sector_count = pt_sector_count pt, sb_part_inode_count = max_file_count_per_part,
      sb_block_bitmap_start_lba = ?s + 2, sb_block_bitmap_sector_count = ?b,
      sb_inode_bitmap_start_lba = ?s + 2 + ?b, sb_inode_bitmap_sector_count = 1, sb_inodes_start_lba = ?s + 2 + ?b + 1,
      sb_inodes_sector_count = 608, sb_data_start_lba = ?s + 2 + ?b + 1 + 608, sb_root_inode_idx = root_inode_idx\<rparr>, ?f - ?a)"
    by (simp add: FormatPart_super_def k c Let_def add.assoc)
  have bm: "fmt_bitmap pt + 611 \<le> unat (pt_sector_count pt)"
    using fmt_bounds [OF assms(1)] assms(1) by (simp add: fmt_free_def)
  have s2: "unat (?s + 2) = unat ?s + 2" using m assms(1) by (subst unat_add_lem [THEN iffD1]) simp_all
  have s3: "unat (?s + 2 + ?b) = unat ?s + 2 + fmt_bitmap pt"
    using m bm by (subst unat_add_lem [THEN iffD1]) (simp_all add: s2 b)
  have s4: "unat (?s + 2 + ?b + 1) = unat ?s + 3 + fmt_bitmap pt"
    using m bm by (subst unat_add_lem [THEN iffD1]) (simp_all add: s3)
  have "unat (?s + 2 + ?b + 1 + 608) = unat ?s + 3 + fmt_bitmap pt + 608"
    by (rule unat_plus [OF s4]) (use m bm in simp_all)
  also have "\<dots> = unat ?s + 611 + fmt_bitmap pt" by simp
  finally have s5: "unat (?s + 2 + ?b + 1 + 608) = unat ?s + 611 + fmt_bitmap pt" .
  show "unat (snd (FormatPart_super pt)) = fmt_bits pt"
    "unat (sb_block_bitmap_start_lba sb) = unat (pt_start_lba pt) + 2"
    "unat (sb_block_bitmap_sector_count sb) = fmt_bitmap pt"
    "unat (sb_inode_bitmap_start_lba sb) = unat (pt_start_lba pt) + 2 + fmt_bitmap pt"
    "sb_inode_bitmap_sector_count sb = 1"
    "unat (sb_inodes_start_lba sb) = unat (pt_start_lba pt) + 3 + fmt_bitmap pt"
    "sb_inodes_sector_count sb = 608"
    "unat (sb_data_start_lba sb) = unat (pt_start_lba pt) + 611 + fmt_bitmap pt"
    "sb_sign sb = super_block_sign" "sb_root_inode_idx sb = root_inode_idx"
    "sb_part_start_lba sb = pt_start_lba pt" "sb_part_sector_count sb = pt_sector_count pt"
    using s2 s3 s4 s5 b bits by (simp_all add: sb_def sb)
qed

section \<open>Writing the areas\<close>

definition disk_put :: "disk \<Rightarrow> ide_chnl \<Rightarrow> nat \<Rightarrow> nat \<Rightarrow> u8 list \<Rightarrow> ide_chnl \<Rightarrow> bool" where
  "disk_put dk c lba n data c' \<longleftrightarrow> chnl_ok c' \<and> chnl_same c c' \<and>
     sectors c' = (sectors c)(dk_idx dk \<noteq> 0 := put_run (sectors c (dk_idx dk \<noteq> 0)) lba n data)"

lemma put_run_take: "put_run f l n (take (n * sector_size) data) = put_run f l n data"
proof -
  have "chunk (take (n * sector_size) data) i = chunk data i" if "i < n" for i
  proof -
    have "(i + 1) * sector_size \<le> n * sector_size" using that by (intro mult_le_mono1) simp
    then show ?thesis by (simp add: chunk_def drop_take min_def)
  qed
  then show ?thesis by (auto simp: put_run_def fun_eq_iff)
qed

lemma put_area:
  assumes "chnl_ok c" "dk_attached dk" "0 < n" "unat start + unat n \<le> unat max_lba" "unat n * sector_size \<le> length data"
  shows "\<exists>c'. Disk_WriteSectors dk start data n c = Some c' \<and>
    disk_put dk c (unat start) (unat n) (take (unat n * sector_size) data) c'"
  using WriteSectors_ok [OF assms] by (auto simp: disk_put_def put_run_take)

lemma put_sector:
  assumes "chnl_ok c" "dk_attached dk" "unat start + 1 \<le> unat max_lba" "sector_size \<le> length data"
  shows "\<exists>c'. Disk_WriteSectors dk start data 1 c = Some c' \<and> disk_put dk c (unat start) 1 (take sector_size data) c'"
  using put_area [OF assms(1,2), of 1 start data] assms(3,4) by simp

definition bits_used :: "u8 list \<Rightarrow> nat \<Rightarrow> bool" where
  "bits_used bits i \<longleftrightarrow> bm_used \<lparr>bm_byte_len = length bits, bm_bits = Some bits\<rparr> i"

text \<open>The bitmap code on a cleared buffer: \<open>P\<close> describes the bits that \<open>f\<close> leaves.\<close>

lemma with_bitmap_ok:
  assumes "len \<le> length buf" "0 < len" "len * 8 < 2 ^ 32"
    and f: "\<And>bm. bitmap_ok bm \<Longrightarrow> bm_byte_len bm = len \<Longrightarrow> bm_used bm = (\<lambda>_. False) \<Longrightarrow>
      \<exists>bm'. f bm = Some bm' \<and> bitmap_ok bm' \<and> bm_byte_len bm' = len \<and> bm_used bm' = P"
  shows "\<exists>bits. with_bitmap buf len f = Some (overwrite buf 0 bits) \<and> length bits = len \<and> bits_used bits = P"
proof -
  obtain bm where bm: "Bitmap_Init (Some (take len buf)) len True = Some bm" "bitmap_ok bm" "bm_byte_len bm = len"
    "bm_used bm = (\<lambda>_. False)"
    using Init_clear_ok [of "take len buf" len] assms(1-3) by auto
  obtain bm' where bm': "f bm = Some bm'" "bitmap_ok bm'" "bm_byte_len bm' = len" "bm_used bm' = P"
    using f [OF bm(2-4)] by blast
  obtain bits where "bm_bits bm' = Some bits" "length bits = len" using bm'(2,3) by (elim bitmap_okE) simp
  moreover from this have "bits_used bits = P" using bm'(4) by (simp add: bits_used_def bm_used_def fun_eq_iff)
  ultimately show ?thesis using assms(1) bm(1) bm'(1) by (intro exI [of _ bits]) (simp add: with_bitmap_def)
qed

lemma take_overwrite_0: "take (length bits) (overwrite buf 0 bits) = bits"
  by (simp add: overwrite_def)

lemma WriteBlockBitmap_ok:
  assumes "chnl_ok c" "dk_attached dk" and B: "unat (sb_block_bitmap_sector_count sb) = B" "0 < B" "B \<le> 608"
    and L: "unat bit_len = L" "0 < L" "L \<le> B * 4096" and buf: "length buf = 608 * sector_size"
    and lba: "unat (sb_block_bitmap_start_lba sb) + B \<le> unat max_lba"
  shows "\<exists>buf' c' bits. WriteBlockBitmap dk bit_len buf sb c = Some (buf', c') \<and> length buf' = 608 * sector_size \<and>
    disk_put dk c (unat (sb_block_bitmap_start_lba sb)) B bits c' \<and> length bits = B * sector_size \<and>
    bits_used bits = (\<lambda>i. i = 0 \<or> L \<le> i \<and> i < B * 4096)"
proof -
  let ?n = "sb_block_bitmap_sector_count sb"
  have n: "0 < ?n" "unat (?n * 512) = B * 512" "unat (?n * 4096) = B * 4096"
    using B by (simp_all add: word_less_nat_alt unat_mult_lem [THEN iffD1])
  have nb: "unat (?n * 4096 div 8) = B * 512" using n(3) by (simp add: unat_div)
  have le: "bit_len \<le> ?n * 4096" using L n(3) by (simp add: word_le_nat_alt)
  have rest: "unat (?n * 4096 - bit_len) = B * 4096 - L" using le L n(3) by (simp add: unat_sub)
  let ?f = "\<lambda>bm. do { bm \<leftarrow> Bitmap_ForceAlloc bm (unat root_inode_idx) 1;
      Bitmap_ForceAlloc bm (unat bit_len) (unat (?n * 4096 - bit_len)) }"
  let ?P = "\<lambda>i. i = 0 \<or> L \<le> i \<and> i < B * 4096"
  let ?z = "replicate (608 * sector_size) 0 :: u8 list"
  have "\<exists>bits. with_bitmap ?z (B * 512) ?f = Some (overwrite ?z 0 bits) \<and> length bits = B * 512 \<and> bits_used bits = ?P"
  proof (rule with_bitmap_ok)
    fix bm assume bm: "bitmap_ok bm" "bm_byte_len bm = B * 512" "bm_used bm = (\<lambda>_. False)"
    have cap: "Bitmap_GetCapacity b = B * 4096" if "bm_byte_len b = B * 512" for b
      using that by (simp add: Bitmap_GetCapacity_def byte_len_def)
    obtain bm1 where bm1: "Bitmap_ForceAlloc bm 0 1 = Some bm1" "bitmap_ok bm1" "bm_byte_len bm1 = B * 512"
      "bm_used bm1 = (\<lambda>i. i = 0)"
      using ForceAlloc_ok [OF bm(1), of 0 1] cap [OF bm(2)] bm B by auto
    obtain bm2 where "Bitmap_ForceAlloc bm1 L (B * 4096 - L) = Some bm2" "bitmap_ok bm2" "bm_byte_len bm2 = B * 512"
      "bm_used bm2 = ?P"
      using ForceAlloc_ok [OF bm1(2), of L "B * 4096 - L"] cap [OF bm1(3)] bm1 L by auto
    then show "\<exists>bm'. ?f bm = Some bm' \<and> bitmap_ok bm' \<and> bm_byte_len bm' = B * 512 \<and> bm_used bm' = ?P"
      using bm1(1) L(1) rest by (simp add: root_inode_idx_def)
  qed (use B in \<open>simp_all add: sector_size_def\<close>)
  then obtain bits where bits: "with_bitmap ?z (B * 512) ?f = Some (overwrite ?z 0 bits)" "length bits = B * 512"
    "bits_used bits = ?P" by blast
  let ?b = "overwrite ?z 0 bits"
  have len: "length ?b = 608 * sector_size" using B bits(2) by (simp add: sector_size_def)
  have "take (B * sector_size) ?b = bits" using take_overwrite_0 [of bits ?z] bits(2) by (simp add: sector_size_def)
  then obtain c' where c': "Disk_WriteSectors dk (sb_block_bitmap_start_lba sb) ?b ?n c = Some c'"
    "disk_put dk c (unat (sb_block_bitmap_start_lba sb)) B bits c'"
    using put_area [OF assms(1,2) n(1), of "sb_block_bitmap_start_lba sb" ?b] lba B len
    by (auto simp: sector_size_def)
  have ms: "memset buf 0 (length buf) = Some ?z" using buf by (simp add: memset_eq)
  have g: "unat (?n * of_nat sector_size) \<le> length buf" using n(2) B buf by (simp add: sector_size_def)
  have "WriteBlockBitmap dk bit_len buf sb c = Some (?b, c')"
    using g ms bits(1) c'(1) le by (simp add: WriteBlockBitmap_def bit_count_per_sector_def sector_size_def byte_len_def nb Let_def)
  then show ?thesis using len c'(2) bits(2,3) by (auto simp: sector_size_def)
qed

lemma WriteNodeBitmap_ok:
  assumes "chnl_ok c" "dk_attached dk" "sb_inode_bitmap_sector_count sb = 1" "length buf = 608 * sector_size"
    and "unat (sb_inode_bitmap_start_lba sb) + 1 \<le> unat max_lba"
  shows "\<exists>buf' c' bits. WriteNodeBitmap dk buf sb c = Some (buf', c') \<and> length buf' = 608 * sector_size \<and>
    disk_put dk c (unat (sb_inode_bitmap_start_lba sb)) 1 bits c' \<and> length bits = sector_size \<and>
    bits_used bits = (\<lambda>i. i = 0)"
proof -
  let ?z = "replicate (608 * sector_size) 0 :: u8 list"
  let ?f = "\<lambda>bm. Bitmap_ForceAlloc bm (unat root_inode_idx) 1"
  have "\<exists>bits. with_bitmap ?z 512 ?f = Some (overwrite ?z 0 bits) \<and> length bits = 512 \<and> bits_used bits = (\<lambda>i. i = 0)"
  proof (rule with_bitmap_ok)
    fix bm assume bm: "bitmap_ok bm" "bm_byte_len bm = 512" "bm_used bm = (\<lambda>_. False)"
    then show "\<exists>bm'. ?f bm = Some bm' \<and> bitmap_ok bm' \<and> bm_byte_len bm' = 512 \<and> bm_used bm' = (\<lambda>i. i = 0)"
      using ForceAlloc_ok [OF bm(1), of 0 1] by (auto simp: root_inode_idx_def Bitmap_GetCapacity_def byte_len_def)
  qed (simp_all add: sector_size_def)
  then obtain bits where bits: "with_bitmap ?z 512 ?f = Some (overwrite ?z 0 bits)" "length bits = 512"
    "bits_used bits = (\<lambda>i. i = 0)" by blast
  let ?b = "overwrite ?z 0 bits"
  have len: "length ?b = 608 * sector_size" using bits(2) by (simp add: sector_size_def)
  have "take (1 * sector_size) ?b = bits" using take_overwrite_0 [of bits ?z] bits(2) by (simp add: sector_size_def)
  then obtain c' where c': "Disk_WriteSectors dk (sb_inode_bitmap_start_lba sb) ?b 1 c = Some c'"
    "disk_put dk c (unat (sb_inode_bitmap_start_lba sb)) 1 bits c'"
    using put_area [OF assms(1,2), of 1 "sb_inode_bitmap_start_lba sb" ?b] assms(5) len by (auto simp: sector_size_def)
  have ms: "memset buf 0 (length buf) = Some ?z" using assms(4) by (simp add: memset_eq)
  have "WriteNodeBitmap dk buf sb c = Some (?b, c')"
    using ms bits(1) c'(1) assms(3,4) by (simp add: WriteNodeBitmap_def sector_size_def)
  then show ?thesis using len c'(2) bits(2,3) by (auto simp: sector_size_def)
qed

text \<open>The root directory of a new partition.\<close>

definition root_node :: "u32 \<Rightarrow> idx_node" where
  "root_node lba = \<lparr>in_idx = 0, in_size = 56, in_open_times = 0, in_write_deny = False, in_direct = lba # replicate 11 0,
     in_indirect = 0\<rparr>"

lemma read_u32_zeros: "i + 4 \<le> n \<Longrightarrow> read_u32 (replicate n 0) i = 0"
  by (simp add: read_u32_def CombineWords_def CombineBytes_def CombineBits_def)

lemma node_of_zeros:
  assumes "sizeof_IdxNode \<le> n"
  shows "node_of_bytes (replicate n 0) = (root_node 0)\<lparr>in_size := 0\<rparr>"
proof -
  have "read_words (replicate n 0) 24 12 = map (\<lambda>_. 0) [0..<12]"
    using assms unfolding read_words_def by (intro map_cong) (auto simp: read_u32_zeros sizeof_IdxNode_def)
  then have "read_words (replicate n 0) 24 12 = replicate 12 0" by (simp add: map_replicate_const)
  then show ?thesis
    using assms by (simp add: node_of_bytes_def root_node_def direct_block_count_def read_u32_zeros sizeof_IdxNode_def
        numeral_eq_Suc)
qed

lemma WriteRootDirNode_ok:
  assumes "chnl_ok c" "dk_attached dk" "sb_inodes_sector_count sb = 608" "length buf = 608 * sector_size"
    and "unat (sb_inodes_start_lba sb) + 608 \<le> unat max_lba"
  shows "\<exists>buf' c'. WriteRootDirNode dk buf sb c = Some (buf', c') \<and> length buf' = 608 * sector_size \<and>
    disk_put dk c (unat (sb_inodes_start_lba sb)) 608 buf' c' \<and>
    buf' = node_bytes (root_node (sb_data_start_lba sb)) @ replicate (608 * sector_size - sizeof_IdxNode) 0"
proof -
  let ?z = "replicate (608 * sector_size) 0 :: u8 list"
  let ?r = "root_node (sb_data_start_lba sb)"
  have r: "length (in_direct ?r) = direct_block_count" by (simp add: root_node_def direct_block_count_def)
  let ?b = "node_bytes ?r @ replicate (608 * sector_size - sizeof_IdxNode) 0"
  have len: "length ?b = 608 * sector_size"
    using length_node_bytes [OF r] by (simp add: sector_size_def sizeof_IdxNode_def)
  have ow: "overwrite ?z 0 (node_bytes ?r) = ?b" using length_node_bytes [OF r] by (simp add: overwrite_def)
  have nd: "IdxNode_SetDirectLba 0 (sb_data_start_lba sb)
      ((node_of_bytes ?z)\<lparr>in_idx := root_inode_idx, in_size := of_nat (min_entry_count * sizeof_DirEntry)\<rparr>) = Some ?r"
    using node_of_zeros [of "608 * sector_size"]
    by (simp add: IdxNode_SetDirectLba_def direct_block_count_def sizeof_IdxNode_def sector_size_def root_node_def
        root_inode_idx_def min_entry_count_def sizeof_DirEntry_def)
  have u: "unat (608 :: u32) = 608" and tk: "take (608 * sector_size) ?b = ?b" and le: "608 * sector_size \<le> length ?b"
    using len by simp_all
  have "(0 :: u32) < 608" by simp
  from put_area [OF assms(1,2) this, unfolded u, OF assms(5) le] obtain c' where
    c': "Disk_WriteSectors dk (sb_inodes_start_lba sb) ?b 608 c = Some c'"
    "disk_put dk c (unat (sb_inodes_start_lba sb)) 608 ?b c'"
    unfolding tk by blast
  have ms: "memset buf 0 (length buf) = Some ?z" using assms(4) by (simp add: memset_eq)
  have g: "unat (sb_inodes_sector_count sb * of_nat sector_size) \<le> length buf" "sizeof_IdxNode \<le> 608 * sector_size"
    using assms(3,4) by (simp_all add: sector_size_def sizeof_IdxNode_def)
  have "WriteRootDirNode dk buf sb c = Some (?b, c')"
    using ms c'(1) assms(3) g nd ow by (simp add: WriteRootDirNode_def root_inode_idx_def Let_def)
  then show ?thesis using len c'(2) by blast
qed

text \<open>The entries \<^verbatim>\<open>.\<close> and \<^verbatim>\<open>..\<close> of a directory.\<close>

definition dot_entries :: "u32 \<Rightarrow> u32 \<Rightarrow> dir_entry list" where
  "dot_entries self parent =
     [\<lparr>de_type = 2, de_name = ''.'' @ replicate 16 NUL, de_inode_idx = self\<rparr>,
      \<lparr>de_type = 2, de_name = ''..'' @ replicate 15 NUL, de_inode_idx = parent\<rparr>]"

lemma entry_of_zeros:
  assumes "sizeof_DirEntry \<le> n"
  shows "entry_of_bytes (replicate n 0) = \<lparr>de_type = 0, de_name = replicate name_array_len NUL, de_inode_idx = 0\<rparr>"
proof -
  have "byte_char 0 = NUL" by (simp add: byte_char_def char_of_def)
  then show ?thesis
    using assms by (simp add: entry_of_bytes_def read_u32_zeros sizeof_DirEntry_def name_array_len_def min_def)
qed

lemma SetName_dots:
  "DirEntry_SetName curr_dir_name \<lparr>de_type = t, de_name = replicate name_array_len NUL, de_inode_idx = i\<rparr> =
     Some \<lparr>de_type = t, de_name = ''.'' @ replicate 16 NUL, de_inode_idx = i\<rparr>"
  "DirEntry_SetName parent_dir_name \<lparr>de_type = t, de_name = replicate name_array_len NUL, de_inode_idx = i\<rparr> =
     Some \<lparr>de_type = t, de_name = ''..'' @ replicate 15 NUL, de_inode_idx = i\<rparr>"
  by (simp_all add: DirEntry_SetName_def curr_dir_name_def parent_dir_name_def literal_def sv_empty_def strcpy_s_def
      name_array_len_def numeral_eq_Suc)

lemma put_dot_entries_ok:
  assumes "2 * sizeof_DirEntry \<le> n"
  shows "put_dot_entries self parent (replicate n 0) =
    Some (concat (map bytes_of_entry (dot_entries self parent)) @ replicate (n - 2 * sizeof_DirEntry) 0)"
proof -
  have l: "length (bytes_of_entry \<lparr>de_type = t, de_name = ''.'' @ replicate 16 NUL, de_inode_idx = i\<rparr>) = sizeof_DirEntry"
    "length (bytes_of_entry \<lparr>de_type = t, de_name = ''..'' @ replicate 15 NUL, de_inode_idx = i\<rparr>) = sizeof_DirEntry" for t i
    by (rule length_bytes_of_entry, simp add: name_array_len_def)+
  show ?thesis
    using assms entry_of_zeros [of n] entry_of_zeros [of "n - sizeof_DirEntry"] l [of 2]
    by (simp add: put_dot_entries_def SetName_dots Let_def dot_entries_def overwrite_def mult_2)
qed

definition entry_at :: "u8 list \<Rightarrow> nat \<Rightarrow> dir_entry" where
  "entry_at b j = entry_of_bytes (drop (j * sizeof_DirEntry) b)"

definition root_block :: "u8 list" where
  "root_block = concat (map bytes_of_entry (dot_entries 0 0)) @ replicate (sector_size - 2 * sizeof_DirEntry) 0"

lemma dot_names: "e \<in> set (dot_entries a b) \<Longrightarrow> length (de_name e) = name_array_len"
  by (auto simp: dot_entries_def name_array_len_def)

lemma root_block_entries:
  "length root_block = sector_size"
  "entry_at root_block 0 = dot_entries 0 0 ! 0" "entry_at root_block 1 = dot_entries 0 0 ! 1"
  "2 \<le> j \<Longrightarrow> j < 18 \<Longrightarrow> de_type (entry_at root_block j) = file_type_code UnknownFile"
proof -
  obtain a b where d: "dot_entries 0 0 = [a, b]" by (simp add: dot_entries_def)
  have n: "length (de_name a) = name_array_len" "length (de_name b) = name_array_len"
    using dot_names [of _ 0 0] d by auto
  note l = length_bytes_of_entry [OF n(1)] length_bytes_of_entry [OF n(2)]
  show "length root_block = sector_size" using l by (simp add: root_block_def d sector_size_def sizeof_DirEntry_def)
  show "entry_at root_block 0 = dot_entries 0 0 ! 0" using n by (simp add: entry_at_def root_block_def d)
  show "entry_at root_block 1 = dot_entries 0 0 ! 1" using n l by (simp add: entry_at_def root_block_def d)
  show "de_type (entry_at root_block j) = file_type_code UnknownFile" if "2 \<le> j" "j < 18"
  proof -
    have "drop (j * sizeof_DirEntry) root_block = replicate (sector_size - j * sizeof_DirEntry) 0"
      using l that by (simp add: root_block_def d sizeof_DirEntry_def sector_size_def)
    then show ?thesis
      using that entry_of_zeros [of "sector_size - j * sizeof_DirEntry"]
      by (simp add: entry_at_def sizeof_DirEntry_def sector_size_def)
  qed
qed

lemma WriteRootDirEntries_ok:
  assumes "chnl_ok c" "dk_attached dk" "length buf = 608 * sector_size" "unat (sb_data_start_lba sb) + 1 \<le> unat max_lba"
  shows "\<exists>buf' c'. WriteRootDirEntries dk buf sb c = Some (buf', c') \<and>
    disk_put dk c (unat (sb_data_start_lba sb)) 1 root_block c'"
proof -
  let ?z = "replicate (608 * sector_size) 0 :: u8 list"
  let ?d = "concat (map bytes_of_entry (dot_entries 0 0))"
  let ?b = "?d @ replicate (608 * sector_size - 2 * sizeof_DirEntry) 0"
  have d: "length ?d = 2 * sizeof_DirEntry"
    by (simp add: dot_entries_def bytes_of_entry_def sizeof_DirEntry_def)
  have p: "put_dot_entries root_inode_idx root_inode_idx ?z = Some ?b"
    using put_dot_entries_ok [of "608 * sector_size" 0 0] by (simp add: root_inode_idx_def sector_size_def sizeof_DirEntry_def)
  have tk: "take sector_size ?b = root_block"
    using d by (simp add: root_block_def sector_size_def sizeof_DirEntry_def)
  have "sector_size \<le> length ?b" using d by (simp add: sector_size_def sizeof_DirEntry_def)
  from put_sector [OF assms(1,2,4) this] obtain c' where
    c': "Disk_WriteSectors dk (sb_data_start_lba sb) ?b 1 c = Some c'"
    "disk_put dk c (unat (sb_data_start_lba sb)) 1 root_block c'"
    unfolding tk by blast
  have n: "RoundUpDivide (of_nat (min_entry_count * sizeof_DirEntry)) (of_nat sector_size) = 1"
    by (simp add: RoundUpDivide_def min_entry_count_def sizeof_DirEntry_def sector_size_def)
  have ms: "memset buf 0 (length buf) = Some ?z" using assms(3) by (simp add: memset_eq)
  have "unat (of_nat sector_size :: u32) \<le> length buf" using assms(3) by (simp add: sector_size_def)
  then have "WriteRootDirEntries dk buf sb c = Some (?b, c')"
    using ms c'(1) p by (simp add: WriteRootDirEntries_def n Let_def del: of_nat_mult)
  then show ?thesis using c'(2) by blast
qed

section \<open>The whole partition\<close>

definition fmt_image :: "part \<Rightarrow> (nat \<Rightarrow> u8 list) \<Rightarrow> u8 list \<Rightarrow> u8 list \<Rightarrow> nat \<Rightarrow> u8 list" where
  "fmt_image pt f bits nbits =
    (let sb = fst (FormatPart_super pt); S = unat (pt_start_lba pt); B = fmt_bitmap pt;
       f = put_run f (S + 1) 1 (super_bytes sb @ replicate (sector_size - length (super_bytes sb)) 0);
       f = put_run f (S + 2) B bits;
       f = put_run f (S + 2 + B) 1 nbits;
       f = put_run f (S + 3 + B) 608 (node_bytes (root_node (sb_data_start_lba sb)) @ replicate (608 * sector_size - sizeof_IdxNode) 0)
     in put_run f (S + 611 + B) 1 root_block)"

lemma disk_put_slot: "disk_put dk c l n d c' \<Longrightarrow> sectors c' (dk_idx dk \<noteq> 0) = put_run (sectors c (dk_idx dk \<noteq> 0)) l n d"
  by (simp add: disk_put_def)

lemma disk_put_other: "disk_put dk c l n d c' \<Longrightarrow> sectors c' (dk_idx dk = 0) = sectors c (dk_idx dk = 0)"
  by (auto simp: disk_put_def)

lemma FormatPart_ok:
  assumes "chnl_ok c" "dk_attached dk" "pt_disk pt" and n: "613 \<le> unat (pt_sector_count pt)"
    and m: "unat (pt_start_lba pt) + unat (pt_sector_count pt) \<le> unat max_lba"
  shows "\<exists>c' bits nbits. FormatPart dk pt c = Some c' \<and> chnl_ok c' \<and> chnl_same c c' \<and>
    sectors c' (dk_idx dk = 0) = sectors c (dk_idx dk = 0) \<and>
    sectors c' (dk_idx dk \<noteq> 0) = fmt_image pt (sectors c (dk_idx dk \<noteq> 0)) bits nbits \<and>
    length bits = fmt_bitmap pt * sector_size \<and> length nbits = sector_size \<and>
    bits_used bits = (\<lambda>i. i = 0 \<or> fmt_bits pt \<le> i \<and> i < fmt_bitmap pt * 4096) \<and> bits_used nbits = (\<lambda>i. i = 0)"
proof -
  define sb where "sb = fst (FormatPart_super pt)"
  define bl where "bl = snd (FormatPart_super pt)"
  let ?S = "unat (pt_start_lba pt)" and ?B = "fmt_bitmap pt"
  note sb = FormatPart_super_ok [OF n m, folded sb_def bl_def]
  note b = fmt_bounds [OF n]
  have ms: "?S + 611 + ?B + 1 \<le> unat max_lba" using m b by (simp add: fmt_free_def)
  have B: "?B < 608"
  proof -
    have "fmt_bits pt \<le> 163839" using m by (simp add: fmt_bits_def fmt_free_def max_lba_val)
    then have "?B \<le> (163839 + 4095) div 4096" unfolding fmt_bitmap_def by (intro div_le_mono) simp
    then show ?thesis by simp
  qed
  let ?sd = "super_bytes sb @ replicate (sector_size - length (super_bytes sb)) 0"
  have sd: "length ?sd = sector_size" by (simp add: sector_size_def)
  have s1: "unat (pt_start_lba pt + super_block_start_lba) = ?S + 1"
    using ms by (intro unat_plus) (simp_all add: super_block_start_lba_def boot_sector_count_def max_lba_val)
  have "unat (pt_start_lba pt + super_block_start_lba) + 1 \<le> unat max_lba" "sector_size \<le> length ?sd"
    using ms s1 sd by simp_all
  from put_sector [OF assms(1,2) this] sd s1 obtain c1 where
    c1: "Disk_WriteSectors dk (pt_start_lba pt + super_block_start_lba) ?sd 1 c = Some c1" "disk_put dk c (?S + 1) 1 ?sd c1"
    by auto
  let ?z = "replicate (608 * sector_size) 0 :: u8 list"
  have k1: "chnl_ok c1" using c1(2) by (simp add: disk_put_def)
  obtain b2 c2 bits where c2: "WriteBlockBitmap dk bl ?z sb c1 = Some (b2, c2)" "length b2 = 608 * sector_size"
    "disk_put dk c1 (?S + 2) ?B bits c2" "length bits = ?B * sector_size"
    "bits_used bits = (\<lambda>i. i = 0 \<or> fmt_bits pt \<le> i \<and> i < ?B * 4096)"
    using WriteBlockBitmap_ok [OF k1 assms(2) sb(3) b(2) less_imp_le [OF B] sb(1) b(1,3) length_replicate [of _ 0]] ms sb(2) by auto
  have k2: "chnl_ok c2" using c2(3) by (simp add: disk_put_def)
  obtain b3 c3 nbits where c3: "WriteNodeBitmap dk b2 sb c2 = Some (b3, c3)" "length b3 = 608 * sector_size"
    "disk_put dk c2 (?S + 2 + ?B) 1 nbits c3" "length nbits = sector_size" "bits_used nbits = (\<lambda>i. i = 0)"
    using WriteNodeBitmap_ok [OF k2 assms(2) sb(5) c2(2)] ms sb(4) by auto
  have k3: "chnl_ok c3" using c3(3) by (simp add: disk_put_def)
  obtain b4 c4 where c4: "WriteRootDirNode dk b3 sb c3 = Some (b4, c4)" "length b4 = 608 * sector_size"
    "disk_put dk c3 (?S + 3 + ?B) 608 b4 c4"
    "b4 = node_bytes (root_node (sb_data_start_lba sb)) @ replicate (608 * sector_size - sizeof_IdxNode) 0"
    using WriteRootDirNode_ok [OF k3 assms(2) sb(7) c3(2)] ms sb(6) by auto
  have k4: "chnl_ok c4" using c4(3) by (simp add: disk_put_def)
  obtain b5 c5 where c5: "WriteRootDirEntries dk b4 sb c4 = Some (b5, c5)" "disk_put dk c4 (?S + 611 + ?B) 1 root_block c5"
    using WriteRootDirEntries_ok [OF k4 assms(2) c4(2), of sb] ms sb(8) by auto
  have mx: "max (max (sb_inode_bitmap_sector_count sb) (sb_inodes_sector_count sb)) (sb_block_bitmap_sector_count sb) = 608"
    using sb(3,5,7) B by (simp add: max_def word_le_nat_alt)
  have "PaddedSuperBlock_WriteTo dk pt bl sb c = Some c5"
    using assms(3) c1(1) c2(1) c3(1) c4(1) c5(1)
    by (simp add: PaddedSuperBlock_WriteTo_def mx RoundUpDivide_def sizeof_PaddedSuperBlock_def sector_size_def Let_def)
  then have "FormatPart dk pt c = Some c5"
    by (simp add: FormatPart_def max_file_count_per_part_def bit_count_per_sector_def sector_size_def byte_len_def
        sb_def bl_def case_prod_beta Let_def)
  moreover have "chnl_ok c5" using c5(2) by (simp add: disk_put_def)
  moreover have "chnl_same c c5"
    using c1(2) c2(3) c3(3) c4(3) c5(2) unfolding disk_put_def by (metis chnl_same_trans)
  moreover have "sectors c5 (dk_idx dk = 0) = sectors c (dk_idx dk = 0)"
    using disk_put_other [OF c1(2)] disk_put_other [OF c2(3)] disk_put_other [OF c3(3)] disk_put_other [OF c4(3)]
      disk_put_other [OF c5(2)] by simp
  moreover have "sectors c5 (dk_idx dk \<noteq> 0) = fmt_image pt (sectors c (dk_idx dk \<noteq> 0)) bits nbits"
    using disk_put_slot [OF c1(2)] disk_put_slot [OF c2(3)] disk_put_slot [OF c3(3)] disk_put_slot [OF c4(3)]
      disk_put_slot [OF c5(2)] c4(4) by (simp add: fmt_image_def sb_def Let_def)
  ultimately show ?thesis using c2(4,5) c3(4,5) by blast
qed

lemma run_bytes_put_other:
  assumes "l + n \<le> lo \<or> lo + m \<le> l"
  shows "run_bytes (put_run f l n d) lo m = run_bytes f lo m"
proof -
  have "put_run f l n d k = f k" if "k \<in> set [lo..<lo + m]" for k using assms that by (auto simp: put_run_def)
  then have "map (put_run f l n d) [lo..<lo + m] = map f [lo..<lo + m]" by simp
  then show ?thesis unfolding run_bytes_def by presburger
qed

lemma fmt_image_areas:
  fixes pt f bits nbits
  assumes "length bits = fmt_bitmap pt * sector_size" "length nbits = sector_size"
  defines "g \<equiv> fmt_image pt f bits nbits" and "S \<equiv> unat (pt_start_lba pt)" and "sb \<equiv> fst (FormatPart_super pt)"
  shows "run_bytes g (S + 1) 1 = super_bytes sb @ replicate (sector_size - length (super_bytes sb)) 0"
    "run_bytes g (S + 2) (fmt_bitmap pt) = bits"
    "run_bytes g (S + 2 + fmt_bitmap pt) 1 = nbits"
    "run_bytes g (S + 3 + fmt_bitmap pt) 608 =
      node_bytes (root_node (sb_data_start_lba sb)) @ replicate (608 * sector_size - sizeof_IdxNode) 0"
    "g (S + 611 + fmt_bitmap pt) = root_block"
    "l \<le> S \<or> S + 611 + fmt_bitmap pt < l \<Longrightarrow> g l = f l"
proof -
  have nb: "length (node_bytes (root_node (sb_data_start_lba sb)) @ replicate (608 * sector_size - sizeof_IdxNode) 0 :: u8 list) =
      608 * sector_size"
    using length_node_bytes [of "root_node (sb_data_start_lba sb)"]
    by (simp add: root_node_def direct_block_count_def sizeof_IdxNode_def sector_size_def)
  have sl: "length (super_bytes sb @ replicate (sector_size - length (super_bytes sb)) 0) = 1 * sector_size"
    by (simp add: sector_size_def)
  define B where "B = fmt_bitmap pt"
  define f1 where "f1 = put_run f (S + 1) 1 (super_bytes sb @ replicate (sector_size - length (super_bytes sb)) 0)"
  define f2 where "f2 = put_run f1 (S + 2) B bits"
  define f3 where "f3 = put_run f2 (S + 2 + B) 1 nbits"
  define f4 where "f4 = put_run f3 (S + 3 + B) 608
    (node_bytes (root_node (sb_data_start_lba sb)) @ replicate (608 * sector_size - sizeof_IdxNode) 0)"
  have g: "g = put_run f4 (S + 611 + B) 1 root_block"
    by (simp add: g_def fmt_image_def f1_def f2_def f3_def f4_def S_def sb_def B_def Let_def)
  have a1: "run_bytes f1 (S + 1) 1 = super_bytes sb @ replicate (sector_size - length (super_bytes sb)) 0"
    unfolding f1_def by (rule run_bytes_put_run [OF sl])
  have a2: "run_bytes f2 (S + 2) B = bits"
    unfolding f2_def B_def by (rule run_bytes_put_run [OF assms(1)])
  have a3: "run_bytes f3 (S + 2 + B) 1 = nbits"
    unfolding f3_def by (rule run_bytes_put_run) (simp add: assms(2))
  have a4: "run_bytes f4 (S + 3 + B) 608 =
      node_bytes (root_node (sb_data_start_lba sb)) @ replicate (608 * sector_size - sizeof_IdxNode) 0"
    unfolding f4_def by (rule run_bytes_put_run [OF nb])
  have o2: "run_bytes f2 lo m = run_bytes f1 lo m" if "lo + m \<le> S + 2" for lo m
    unfolding f2_def using that by (intro run_bytes_put_other) simp
  have o3: "run_bytes f3 lo m = run_bytes f2 lo m" if "lo + m \<le> S + 2 + B" for lo m
    unfolding f3_def using that by (intro run_bytes_put_other) simp
  have o4: "run_bytes f4 lo m = run_bytes f3 lo m" if "lo + m \<le> S + 3 + B" for lo m
    unfolding f4_def using that by (intro run_bytes_put_other) simp
  have o5: "run_bytes g lo m = run_bytes f4 lo m" if "lo + m \<le> S + 611 + B" for lo m
    unfolding g using that by (intro run_bytes_put_other) simp
  show "run_bytes g (S + 1) 1 = super_bytes sb @ replicate (sector_size - length (super_bytes sb)) 0"
    using a1 by (simp add: o5 o4 o3 o2)
  show "run_bytes g (S + 2) (fmt_bitmap pt) = bits" using a2 by (simp add: o5 o4 o3 B_def)
  show "run_bytes g (S + 2 + fmt_bitmap pt) 1 = nbits" using a3 by (simp add: o5 o4 B_def)
  show "run_bytes g (S + 3 + fmt_bitmap pt) 608 =
      node_bytes (root_node (sb_data_start_lba sb)) @ replicate (608 * sector_size - sizeof_IdxNode) 0"
    using a4 by (simp add: o5 B_def)
  show "g (S + 611 + fmt_bitmap pt) = root_block"
    using root_block_entries(1) by (simp add: g put_run_def chunk_def B_def)
  show "g l = f l" if "l \<le> S \<or> S + 611 + fmt_bitmap pt < l"
    using that by (auto simp: g f4_def f3_def f2_def f1_def put_run_def B_def)
qed

section \<open>Loading\<close>

text \<open>A partition as the scan leaves it: nothing loaded, no index node in memory.\<close>

definition unmounted :: "disk \<Rightarrow> part \<Rightarrow> ide_chnl \<Rightarrow> file_sys" where
  "unmounted dk pt c = \<lparr>fs_chnl = c, fs_disk = dk, fs_part = pt, fs_super = None, fs_block_bitmap = Bitmap_default,
     fs_inode_bitmap = Bitmap_default, fs_open_inodes = [], fs_nodes = (\<lambda>_. None), fs_next = 0\<rparr>"

lemma read_all:
  assumes "io_ok s" "0 < n" "unat lba + unat n \<le> unat max_lba" "k = unat n * sector_size"
  shows "\<exists>t. ReadSectors lba (replicate k 0) n s = Some (run_bytes (fs_blocks s) (unat lba) (unat n), t) \<and>
    io_step s t \<and> fs_blocks t = fs_blocks s"
  using read_ok [OF assms(1-3), of "replicate k 0"] assms(4) length_run_bytes [OF block_len [OF assms(1)], where lba = "unat lba" and n = "unat n"]
  by (auto simp: overwrite_def)

lemma LoadSuperBlock_ok:
  assumes io: "io_ok s" and s0: "fs_super s = None"
    and sb: "super_of_bytes (run_bytes (fs_blocks s) (unat (pt_start_lba (fs_part s)) + 1) 1) = sb"
    and ok: "sb_ok (fs_part s) sb"
  shows "\<exists>t. FilePart_LoadSuperBlock s = Some t \<and> part_ok t \<and> super_of t = sb \<and> fs_blocks t = fs_blocks s \<and>
    fs_part t = fs_part s \<and> fs_open_inodes t = fs_open_inodes s \<and> fs_nodes t = fs_nodes s \<and> fs_next t = fs_next s \<and>
    bitmap_ok (fs_block_bitmap t) \<and> bitmap_ok (fs_inode_bitmap t) \<and>
    bm_bits (fs_block_bitmap t) =
      Some (run_bytes (fs_blocks s) (unat (sb_block_bitmap_start_lba sb)) (unat (sb_block_bitmap_sector_count sb))) \<and>
    bm_bits (fs_inode_bitmap t) = Some (run_bytes (fs_blocks s) (unat (sb_inode_bitmap_start_lba sb)) 1)"
proof -
  let ?n = "sb_block_bitmap_sector_count sb" and ?b = "sb_block_bitmap_start_lba sb" and ?i = "sb_inode_bitmap_start_lba sb"
  have b: "unat (pt_start_lba (fs_part s)) + 2 \<le> unat ?b" "0 < unat ?n" "unat ?b + unat ?n \<le> unat ?i"
    "unat ?i + 1 \<le> unat max_lba" "unat (sb_inode_bitmap_sector_count sb) = 1"
    using ok by (simp_all add: sb_ok_def)
  then have n: "0 < ?n" "unat ?n \<le> 163839" by (simp_all add: word_less_nat_alt max_lba_val)
  have one: "sb_inode_bitmap_sector_count sb = 1" using b(5) by (metis unsigned_1 word_unat_eq_iff)
  have nb: "unat (?n * 512) = unat ?n * 512" using n by (subst unat_mult_lem [THEN iffD1]) simp_all
  have lba: "unat (pt_start_lba (fs_part s) + super_block_start_lba) = unat (pt_start_lba (fs_part s)) + 1"
    using b by (intro unat_plus) (simp_all add: super_block_start_lba_def boot_sector_count_def max_lba_val)
  obtain s1 where s1: "ReadSectors (pt_start_lba (fs_part s) + super_block_start_lba) (replicate 512 0) 1 s =
      Some (run_bytes (fs_blocks s) (unat (pt_start_lba (fs_part s)) + 1) 1, s1)" "io_step s s1" "fs_blocks s1 = fs_blocks s"
    using read_all [OF io, of 1 "pt_start_lba (fs_part s) + super_block_start_lba" 512] b
    by (auto simp: sector_size_def lba)
  let ?s2 = "s1\<lparr>fs_super := Some sb\<rparr>"
  have io2: "io_ok ?s2" "fs_blocks ?s2 = fs_blocks s" using io_step_fields(1) [OF s1(2)] s1(3) by (simp_all add: io_ok_def fs_blocks_def)
  obtain s3 where s3: "ReadSectors ?b (replicate (unat ?n * 512) 0) ?n ?s2 =
      Some (run_bytes (fs_blocks s) (unat ?b) (unat ?n), s3)" "io_step ?s2 s3" "fs_blocks s3 = fs_blocks s"
    using read_all [OF io2(1) n(1), of ?b "unat ?n * 512"] b io2(2) by (auto simp: sector_size_def)
  let ?bits = "run_bytes (fs_blocks s) (unat ?b) (unat ?n)"
  have lb: "length ?bits = unat ?n * 512" by (simp add: length_run_bytes [OF block_len [OF io]] sector_size_def)
  obtain bm where bm: "Bitmap_Init (Some ?bits) (unat ?n * 512) False = Some bm" "bitmap_ok bm" "bm_bits bm = Some ?bits"
    using Init_keep_ok [OF lb] n b(2) by auto
  let ?s4 = "s3\<lparr>fs_block_bitmap := bm\<rparr>"
  note f3 = io_step_fields [OF s3(2)]
  have io4: "io_ok ?s4" "fs_blocks ?s4 = fs_blocks s" using f3(1) s3(3) by (simp_all add: io_ok_def fs_blocks_def)
  obtain s5 where s5: "ReadSectors ?i (replicate 512 0) 1 ?s4 = Some (run_bytes (fs_blocks s) (unat ?i) 1, s5)"
    "io_step ?s4 s5" "fs_blocks s5 = fs_blocks s"
    using read_all [OF io4(1), of 1 ?i 512] b io4(2) by (auto simp: sector_size_def)
  let ?nb = "run_bytes (fs_blocks s) (unat ?i) 1"
  have ln: "length ?nb = 512" by (simp add: length_run_bytes [OF block_len [OF io]] sector_size_def)
  obtain nm where nm: "Bitmap_Init (Some ?nb) 512 False = Some nm" "bitmap_ok nm" "bm_bits nm = Some ?nb"
    using Init_keep_ok [OF ln] by auto
  note f1 = io_step_fields [OF s1(2)] and f5 = io_step_fields [OF s5(2)]
  let ?t = "s5\<lparr>fs_inode_bitmap := nm\<rparr>"
  have lbm: "FilePart_LoadBlockBitmap ?s2 = Some ?s4"
    using s3(1) bm(1) nb n(1) b(2) by (simp add: FilePart_LoadBlockBitmap_def FilePart_GetSuperBlock_def sector_size_def Let_def)
  have lnm: "FilePart_LoadNodeBitmap ?s4 = Some ?t"
    using s5(1) nm(1) one by (simp add: FilePart_LoadNodeBitmap_def FilePart_GetSuperBlock_def sector_size_def f3 Let_def)
  have "FilePart_LoadSuperBlock s = Some ?t"
    using s0 s1(1) lbm lnm sb
    by (simp add: FilePart_LoadSuperBlock_def RoundUpDivide_def sizeof_PaddedSuperBlock_def sector_size_def Let_def)
  moreover have "part_ok ?t" "super_of ?t = sb" "fs_blocks ?t = fs_blocks s"
    using f5 f3 f1 ok s5(3) by (simp_all add: part_ok_def io_ok_def super_of_def fs_blocks_def)
  ultimately show ?thesis using f1 f3 f5 bm(2,3) nm(2,3) by simp
qed

section \<open>Property\<close>

text \<open>
  C19: Formatting: on every partition of at least 613 sectors in the supported range, \<^verbatim>\<open>FormatPart\<close> and then
  \<^verbatim>\<open>LoadSuperBlock\<close> succeed and give an empty file system: the signature is valid, the areas follow each other inside the
  partition, block 0 (the root directory) and exactly the bits behind the last block of the partition are marked as used in
  the block bitmap, index node 0 is the only used one, it describes a directory of two entries stored in the first data
  block, which holds \<^verbatim>\<open>.\<close> and \<^verbatim>\<open>..\<close> and free entries; the boot sector of the partition, all sectors outside of it and the other disk of the
  channel are unchanged.
\<close>

theorem FormatPart_mounts:
  assumes "chnl_ok c" "dk_attached dk" "pt_disk pt" "613 \<le> unat (pt_sector_count pt)"
    and "unat (pt_start_lba pt) + unat (pt_sector_count pt) \<le> unat max_lba"
  shows "\<exists>c' s. FormatPart dk pt c = Some c' \<and> FilePart_LoadSuperBlock (unmounted dk pt c') = Some s \<and>
    part_ok s \<and> nodes_ok s \<and> SuperBlock_IsSignValid (super_of s) \<and> bitmap_ok (fs_block_bitmap s) \<and> bitmap_ok (fs_inode_bitmap s) \<and>
    (\<exists>n. 0 < n \<and> n \<le> Bitmap_GetCapacity (fs_block_bitmap s) \<and>
      unat (sb_data_start_lba (super_of s)) + n \<le> unat (pt_start_lba pt) + unat (pt_sector_count pt) \<and>
      bm_used (fs_block_bitmap s) = (\<lambda>i. i = 0 \<or> n \<le> i \<and> i < Bitmap_GetCapacity (fs_block_bitmap s))) \<and>
    bm_used (fs_inode_bitmap s) = (\<lambda>i. i = 0) \<and>
    disk_node s 0 = root_node (sb_data_start_lba (super_of s)) \<and>
    entry_at (fs_blocks s (unat (sb_data_start_lba (super_of s)))) 0 = dot_entries 0 0 ! 0 \<and>
    entry_at (fs_blocks s (unat (sb_data_start_lba (super_of s)))) 1 = dot_entries 0 0 ! 1 \<and>
    (\<forall>j. 2 \<le> j \<and> j < 18 \<longrightarrow>
      de_type (entry_at (fs_blocks s (unat (sb_data_start_lba (super_of s)))) j) = file_type_code UnknownFile) \<and>
    (\<forall>l. l \<le> unat (pt_start_lba pt) \<or> unat (pt_start_lba pt) + unat (pt_sector_count pt) \<le> l \<longrightarrow>
      sectors c' (dk_idx dk \<noteq> 0) l = sectors c (dk_idx dk \<noteq> 0) l) \<and>
    sectors c' (dk_idx dk = 0) = sectors c (dk_idx dk = 0)"
proof -
  let ?S = "unat (pt_start_lba pt)" and ?B = "fmt_bitmap pt"
  define sb where "sb = fst (FormatPart_super pt)"
  note sbf = FormatPart_super_ok [OF assms(4,5), folded sb_def] and b = fmt_bounds [OF assms(4)]
  obtain c' bits nbits where c': "FormatPart dk pt c = Some c'" "chnl_ok c'"
    "sectors c' (dk_idx dk = 0) = sectors c (dk_idx dk = 0)"
    "sectors c' (dk_idx dk \<noteq> 0) = fmt_image pt (sectors c (dk_idx dk \<noteq> 0)) bits nbits"
    "length bits = ?B * sector_size" "length nbits = sector_size"
    "bits_used bits = (\<lambda>i. i = 0 \<or> fmt_bits pt \<le> i \<and> i < ?B * 4096)" "bits_used nbits = (\<lambda>i. i = 0)"
    using FormatPart_ok [OF assms] by blast
  note g = fmt_image_areas [OF c'(5,6), where f = "sectors c (dk_idx dk \<noteq> 0)", folded c'(4) sb_def]
  let ?s = "unmounted dk pt c'"
  have blk: "fs_blocks ?s = sectors c' (dk_idx dk \<noteq> 0)" by (simp add: fs_blocks_def unmounted_def)
  have io: "io_ok ?s" using c'(2) assms(2,3) by (simp add: io_ok_def unmounted_def)
  have ok: "sb_ok pt sb"
    using sbf b assms(4,5) by (simp add: sb_ok_def inode_sectors_def fmt_free_def)
  have "super_of_bytes (run_bytes (fs_blocks ?s) (?S + 1) 1) = sb" by (simp only: blk g(1) super_of_super_bytes)
  then obtain s where s: "FilePart_LoadSuperBlock ?s = Some s" "part_ok s" "super_of s = sb" "fs_blocks s = fs_blocks ?s"
    "fs_part s = pt" "fs_open_inodes s = []" "fs_nodes s = (\<lambda>_. None)" "bitmap_ok (fs_block_bitmap s)" "bitmap_ok (fs_inode_bitmap s)"
    "bm_bits (fs_block_bitmap s) = Some bits" "bm_bits (fs_inode_bitmap s) = Some nbits"
    using LoadSuperBlock_ok [OF io, of sb] ok g(2,3) sbf(2,3,4) by (auto simp: blk) (auto simp: unmounted_def)
  have cap: "Bitmap_GetCapacity (fs_block_bitmap s) = ?B * 4096"
    using s(8,10) c'(5) by (auto simp: bitmap_ok_def Bitmap_GetCapacity_def byte_len_def sector_size_def)
  have used: "bm_used (fs_block_bitmap s) = bits_used bits" "bm_used (fs_inode_bitmap s) = bits_used nbits"
    using s(10,11) by (simp_all add: bits_used_def bm_used_def fun_eq_iff)
  have node: "disk_node s 0 = root_node (sb_data_start_lba sb)"
  proof -
    have l: "length (in_direct (root_node (sb_data_start_lba sb))) = direct_block_count"
      by (simp add: root_node_def direct_block_count_def)
    have "inode_area s = node_bytes (root_node (sb_data_start_lba sb)) @ replicate (608 * sector_size - sizeof_IdxNode) 0"
      using g(4) sbf(6) by (simp add: inode_area_def inodes_lba_def s(3,4) blk inode_sectors_def)
    moreover have "node_of_bytes (node_bytes (root_node (sb_data_start_lba sb)) @ z) = root_node (sb_data_start_lba sb)" for z
      using node_of_bytes_cong [of "node_bytes (root_node (sb_data_start_lba sb)) @ z" "node_bytes (root_node (sb_data_start_lba sb))"] l
      by simp
    ultimately show ?thesis by (simp add: disk_node_def)
  qed
  have root: "fs_blocks s (unat (sb_data_start_lba sb)) = root_block" using g(5) sbf(8) by (simp add: s(4) blk)
  have fr: "\<forall>l. l \<le> ?S \<or> ?S + unat (pt_sector_count pt) \<le> l \<longrightarrow> sectors c' (dk_idx dk \<noteq> 0) l = sectors c (dk_idx dk \<noteq> 0) l"
  proof (intro allI impI g(6))
    fix l assume "l \<le> ?S \<or> ?S + unat (pt_sector_count pt) \<le> l"
    then show "l \<le> ?S \<or> ?S + 611 + ?B < l" using b assms(4) by (auto simp: fmt_free_def)
  qed
  have "0 < fmt_bits pt \<and> fmt_bits pt \<le> ?B * 4096 \<and> unat (sb_data_start_lba sb) + fmt_bits pt \<le> ?S + unat (pt_sector_count pt)"
    using b sbf(8) assms(4) by (simp add: fmt_free_def)
  moreover have "SuperBlock_IsSignValid sb" using sbf(9) by (simp add: SuperBlock_IsSignValid_def)
  moreover have "nodes_ok s" using s(6,7) by (simp add: nodes_ok_def)
  moreover have "\<forall>j. 2 \<le> j \<and> j < 18 \<longrightarrow> de_type (entry_at root_block j) = file_type_code UnknownFile"
    by (blast intro: root_block_entries(4))
  ultimately show ?thesis
    unfolding s(3)
    using c'(1,3,7,8) s(1,2,3,8,9) used cap node root root_block_entries(1-3) fr
    by (intro exI [of _ c'] exI [of _ s] conjI exI [of _ "fmt_bits pt"]) (simp_all only: s(3) simp_thms)
qed

definition small_part :: part where
  "small_part = \<lparr>pt_name = ''sdb1'' @ replicate 5 NUL, pt_start_lba = 63, pt_sector_count = 20000, pt_disk = True\<rparr>"

theorem FormatPart_mounts_witness:
  "\<exists>c' s. FormatPart blank_disk small_part blank_chnl = Some c' \<and>
     FilePart_LoadSuperBlock (unmounted blank_disk small_part c') = Some s \<and> part_ok s \<and>
     disk_node s 0 = root_node (sb_data_start_lba (super_of s)) \<and> bm_used (fs_inode_bitmap s) = (\<lambda>i. i = 0)"
  using FormatPart_mounts [OF blank_chnl_ok, of blank_disk small_part]
  by (simp add: blank_disk_def small_part_def max_lba_val) blast

end
