(* ===== verification/FileData.thy ===== *)
theory FileData
  imports FileFormat
begin

text \<open>
  The contents of files: \<^verbatim>\<open>SeekFile\<close>, \<^verbatim>\<open>ReadFile\<close> and \<^verbatim>\<open>WriteFile\<close> of \<^verbatim>\<open>io/disk/part.cpp\<close> on an open file
  (\<^verbatim>\<open>io/disk/file/file.h\<close>), against the list of bytes that an index node describes.
\<close>

section \<open>Open files\<close>

datatype open_mode = ReadOnly | WriteOnly | ReadWrite | CreateNew

fun open_mode_code :: "open_mode \<Rightarrow> u32" where
  "open_mode_code ReadOnly = 0"
| "open_mode_code WriteOnly = 1"
| "open_mode_code ReadWrite = 2"
| "open_mode_code CreateNew = 4"

datatype seek_origin = SeekBegin | SeekCurr | SeekEnd

record open_file =
  fl_flags :: u32
  fl_inode :: "nat option"
  fl_pos :: u32

definition File_empty :: open_file where
  "File_empty = \<lparr>fl_flags = 0, fl_inode = None, fl_pos = 0\<rparr>"

definition File_Clear :: "open_file \<Rightarrow> open_file" where
  "File_Clear f = f\<lparr>fl_pos := 0, fl_flags := 0, fl_inode := None\<rparr>"

definition File_IsOpen :: "open_file \<Rightarrow> bool" where
  "File_IsOpen f \<longleftrightarrow> fl_inode f \<noteq> None"

definition File_GetNode :: "open_file \<Rightarrow> file_sys \<Rightarrow> idx_node option" where
  "File_GetNode f s = do { p \<leftarrow> fl_inode f; fs_nodes s p }"

definition File_GetNodeIdx :: "open_file \<Rightarrow> file_sys \<Rightarrow> u32 option" where
  "File_GetNodeIdx f s = do { n \<leftarrow> File_GetNode f s; Some (in_idx n) }"

definition set_node :: "nat \<Rightarrow> idx_node \<Rightarrow> file_sys \<Rightarrow> file_sys" where
  "set_node p n s = s\<lparr>fs_nodes := (fs_nodes s)(p \<mapsto> n)\<rparr>"

definition File_Close :: "open_file \<Rightarrow> file_sys \<Rightarrow> (open_file \<times> file_sys) option" where
  "File_Close f s = do {
     s \<leftarrow> (case fl_inode f of
         None \<Rightarrow> Some s
       | Some p \<Rightarrow> do {
           inode \<leftarrow> fs_nodes s p;
           s \<leftarrow> (if Flags_IsSet (fl_flags f) (open_mode_code WriteOnly) \<or> Flags_IsSet (fl_flags f) (open_mode_code ReadWrite)
                then do { Assert (in_write_deny inode); Some (set_node p (inode\<lparr>in_write_deny := False\<rparr>) s) }
                else Some s);
           IdxNode_Close p s
         });
     Some (File_Clear f, s)
   }"

section \<open>Seeking\<close>

definition FilePart_SeekFile :: "u32 \<Rightarrow> seek_origin \<Rightarrow> open_file \<Rightarrow> file_sys \<Rightarrow> (u32 \<times> open_file) option" where
  "FilePart_SeekFile offset origin f s = do {
     inode \<leftarrow> File_GetNode f s;
     let size = in_size inode;
     let pos = (case origin of
         SeekBegin \<Rightarrow> min offset size
       | SeekCurr \<Rightarrow> min (fl_pos f + offset) size
       | SeekEnd \<Rightarrow> min (size + offset) size);
     let f = f\<lparr>fl_pos := pos\<rparr>;
     Assert (fl_pos f \<le> size);
     Some (fl_pos f, f)
   }"

section \<open>Reading\<close>

fun load_direct :: "idx_node \<Rightarrow> nat list \<Rightarrow> u32 list \<Rightarrow> u32 list option" where
  "load_direct inode [] lbas = Some lbas"
| "load_direct inode (i # is) lbas = do {
     lba \<leftarrow> IdxNode_GetDirectLba i inode;
     Assert (lba \<noteq> 0);
     load_direct inode is (lbas[i := lba])
   }"

definition load_indirect :: "idx_node \<Rightarrow> u32 list \<Rightarrow> file_sys \<Rightarrow> (u32 list \<times> file_sys) option" where
  "load_indirect inode lbas s = do {
     let indirect_tab_lba = IdxNode_GetIndirectTabLba inode;
     Assert (indirect_tab_lba \<noteq> 0);
     read_indirect indirect_tab_lba lbas s
   }"

definition ReadFile_lbas :: "idx_node \<Rightarrow> nat \<Rightarrow> nat \<Rightarrow> file_sys \<Rightarrow> (u32 list \<times> file_sys) option" where
  "ReadFile_lbas inode start_sector_idx end_sector_idx s = do {
     let lbas = replicate sector_count_per_inode 0;
     if start_sector_idx = end_sector_idx
     then
       (if end_sector_idx < direct_block_count
        then do { lbas \<leftarrow> load_direct inode [start_sector_idx] lbas; Some (lbas, s) }
        else load_indirect inode lbas s)
     else
       (if end_sector_idx < direct_block_count
        then do { lbas \<leftarrow> load_direct inode [start_sector_idx..<end_sector_idx + 1] lbas; Some (lbas, s) }
        else if start_sector_idx < direct_block_count
        then do {
          lbas \<leftarrow> load_direct inode [start_sector_idx..<direct_block_count] lbas;
          load_indirect inode lbas s
        }
        else load_indirect inode lbas s)
   }"

lemma chunk_less: "r < n \<Longrightarrow> n - (r + min (n - r) (sector_size - x mod sector_size)) < n - r"
proof -
  assume "r < n"
  moreover have "x mod sector_size < sector_size" by (simp add: sector_size_def)
  ultimately show ?thesis by linarith
qed

function ReadFile_loop :: "u32 list \<Rightarrow> nat \<Rightarrow> nat \<Rightarrow> u8 list \<Rightarrow> open_file \<Rightarrow> file_sys \<Rightarrow>
    (nat \<times> u8 list \<times> open_file \<times> file_sys) option" where
  "ReadFile_loop lbas sz read_size buf f s =
     (if read_size < sz then do {
        let sector_idx = unat (fl_pos f) div sector_size;
        let offset_in_sector = unat (fl_pos f) mod sector_size;
        let left_in_sector = sector_size - offset_in_sector;
        let chunk_size = min (sz - read_size) left_in_sector;
        Assert (sector_idx < length lbas);
        (io_buf, s) \<leftarrow> ReadSectors (lbas ! sector_idx) (replicate sector_size 0) 1 s;
        Assert (read_size + chunk_size \<le> length buf);
        let buf = overwrite buf read_size (take chunk_size (drop offset_in_sector io_buf));
        ReadFile_loop lbas sz (read_size + chunk_size) buf (f\<lparr>fl_pos := fl_pos f + of_nat chunk_size\<rparr>) s
      }
      else Some (read_size, buf, f, s))"
  by pat_completeness auto
termination
  by (relation "measure (\<lambda>(lbas, sz, r, buf, f, s). sz - r)") (simp, simp only: in_measure case_prod_conv chunk_less)

declare ReadFile_loop.simps [simp del]

definition FilePart_ReadFile :: "open_file \<Rightarrow> u8 list \<Rightarrow> u32 \<Rightarrow> file_sys \<Rightarrow> (nat \<times> u8 list \<times> open_file \<times> file_sys) option" where
  "FilePart_ReadFile f buf sz s = do {
     Assert (File_IsOpen f);
     inode \<leftarrow> File_GetNode f s;
     Assert (in_size inode \<ge> fl_pos f);
     let sz = min sz (in_size inode - fl_pos f);
     if sz = 0 then Some (0, buf, f, s)
     else do {
       let start_sector_idx = unat (fl_pos f) div sector_size;
       let end_sector_idx = unat (fl_pos f + sz) div sector_size;
       Assert (start_sector_idx \<le> end_sector_idx \<and> end_sector_idx < sector_count_per_inode);
       (lbas, s) \<leftarrow> ReadFile_lbas inode start_sector_idx end_sector_idx s;
       ReadFile_loop lbas (unat sz) 0 buf f s
     }
   }"

section \<open>Writing\<close>

text \<open>
  The allocation of blocks for the indices \<open>is\<close>; the flag of the result is false when a block is missing. The first function is
  the loop for direct blocks, the second the one for direct and indirect blocks (the loop for indirect blocks alone is its
  part without direct indices).
\<close>

fun alloc_direct :: "nat \<Rightarrow> nat list \<Rightarrow> u32 list \<Rightarrow> file_sys \<Rightarrow> (bool \<times> u32 list \<times> file_sys) option" where
  "alloc_direct p [] lbas s = Some (True, lbas, s)"
| "alloc_direct p (i # is) lbas s = do {
     Assert (lbas ! i = 0);
     (new_sector_lba, s) \<leftarrow> FilePart_AllocBlock s;
     if new_sector_lba \<noteq> of_nat npos
     then do {
       inode \<leftarrow> fs_nodes s p;
       lba \<leftarrow> IdxNode_GetDirectLba i inode;
       Assert (lba = 0);
       inode \<leftarrow> IdxNode_SetDirectLba i new_sector_lba inode;
       Assert (lbas ! i = 0);
       s \<leftarrow> FilePart_SyncBlockBitmap new_sector_lba (set_node p inode s);
       alloc_direct p is (lbas[i := new_sector_lba]) s
     }
     else Some (False, lbas, s)
   }"

fun alloc_mixed :: "nat \<Rightarrow> nat list \<Rightarrow> u32 list \<Rightarrow> file_sys \<Rightarrow> (bool \<times> u32 list \<times> file_sys) option" where
  "alloc_mixed p [] lbas s = Some (True, lbas, s)"
| "alloc_mixed p (i # is) lbas s = do {
     (new_sector_lba, s) \<leftarrow> FilePart_AllocBlock s;
     if new_sector_lba \<noteq> of_nat npos
     then do {
       s \<leftarrow> (if i < direct_block_count
            then do {
              inode \<leftarrow> fs_nodes s p;
              lba \<leftarrow> IdxNode_GetDirectLba i inode;
              Assert (lba = 0);
              inode \<leftarrow> IdxNode_SetDirectLba i new_sector_lba inode;
              Some (set_node p inode s)
            }
            else Some s);
       Assert (lbas ! i = 0);
       s \<leftarrow> FilePart_SyncBlockBitmap new_sector_lba s;
       alloc_mixed p is (lbas[i := new_sector_lba]) s
     }
     else Some (False, lbas, s)
   }"

text \<open>Giving the allocated blocks back.\<close>

fun rollback_direct :: "nat \<Rightarrow> nat list \<Rightarrow> file_sys \<Rightarrow> file_sys option" where
  "rollback_direct p [] s = Some s"
| "rollback_direct p (i # is) s = do {
     inode \<leftarrow> fs_nodes s p;
     lba \<leftarrow> IdxNode_GetDirectLba i inode;
     if lba \<noteq> 0
     then do {
       inode \<leftarrow> IdxNode_SetDirectLba i 0 inode;
       s \<leftarrow> free_and_sync lba (set_node p inode s);
       rollback_direct p is s
     }
     else Some s
   }"

fun rollback_mixed :: "nat \<Rightarrow> u32 list \<Rightarrow> nat list \<Rightarrow> file_sys \<Rightarrow> file_sys option" where
  "rollback_mixed p lbas [] s = Some s"
| "rollback_mixed p lbas (i # is) s =
     (if lbas ! i \<noteq> 0
      then do {
        s \<leftarrow> (if i < direct_block_count
             then do {
               inode \<leftarrow> fs_nodes s p;
               lba \<leftarrow> IdxNode_GetDirectLba i inode;
               Assert (lba \<noteq> 0);
               inode \<leftarrow> IdxNode_SetDirectLba i 0 inode;
               Some (set_node p inode s)
             }
             else Some s);
        s \<leftarrow> free_and_sync (lbas ! i) s;
        rollback_mixed p lbas is s
      }
      else Some s)"

text \<open>The block of the last, partly filled sector.\<close>

definition load_last :: "idx_node \<Rightarrow> u32 list \<Rightarrow> u32 list option" where
  "load_last inode lbas = load_direct inode [unat (in_size inode) div sector_size] lbas"

definition save_indirect :: "u32 \<Rightarrow> u32 list \<Rightarrow> file_sys \<Rightarrow> file_sys option" where
  "save_indirect lba lbas s = WriteSectors lba (write_words (drop direct_block_count lbas)) (of_nat indirect_tab_sector_count_per_inode) s"

text \<open>Collecting the blocks for the data: \<open>None\<close> in the result is the early return of zero.\<close>

definition WriteFile_lbas :: "nat \<Rightarrow> nat \<Rightarrow> nat \<Rightarrow> file_sys \<Rightarrow> (u32 list option \<times> file_sys) option" where
  "WriteFile_lbas p curr_sector_count new_sector_count s = do {
     inode \<leftarrow> fs_nodes s p;
     let lbas = replicate sector_count_per_inode 0;
     let new_idxs = [curr_sector_count..<new_sector_count];
     if curr_sector_count = new_sector_count
     then
       (if new_sector_count \<le> direct_block_count
        then do { lbas \<leftarrow> load_last inode lbas; Some (Some lbas, s) }
        else do { (lbas, s) \<leftarrow> load_indirect inode lbas s; Some (Some lbas, s) })
     else if new_sector_count \<le> direct_block_count
     then do {
       lbas \<leftarrow> (if unat (in_size inode) mod sector_size \<noteq> 0 then load_last inode lbas else Some lbas);
       (success, lbas, s) \<leftarrow> alloc_direct p new_idxs lbas s;
       if success then Some (Some lbas, s)
       else do { s \<leftarrow> rollback_direct p new_idxs s; Some (None, s) }
     }
     else if curr_sector_count \<le> direct_block_count
     then do {
       lbas \<leftarrow> (if unat (in_size inode) mod sector_size \<noteq> 0 then load_last inode lbas else Some lbas);
       (indirect_tab_lba, s) \<leftarrow> FilePart_AllocBlock s;
       if indirect_tab_lba = of_nat npos then Some (None, s)
       else do {
         Assert (IdxNode_GetIndirectTabLba inode = 0);
         let s = set_node p (IdxNode_SetIndirectTabLba indirect_tab_lba inode) s;
         (success, lbas, s) \<leftarrow> alloc_mixed p new_idxs lbas s;
         if success
         then do { s \<leftarrow> save_indirect indirect_tab_lba lbas s; Some (Some lbas, s) }
         else do {
           s \<leftarrow> rollback_mixed p lbas new_idxs s;
           inode \<leftarrow> fs_nodes s p;
           Assert (IdxNode_GetIndirectTabLba inode \<noteq> 0);
           s \<leftarrow> free_and_sync indirect_tab_lba (set_node p (IdxNode_SetIndirectTabLba 0 inode) s);
           Some (None, s)
         }
       }
     }
     else do {
       (lbas, s) \<leftarrow> load_indirect inode lbas s;
       (success, lbas, s) \<leftarrow> alloc_mixed p new_idxs lbas s;
       if success
       then do { s \<leftarrow> save_indirect (IdxNode_GetIndirectTabLba inode) lbas s; Some (Some lbas, s) }
       else do { s \<leftarrow> rollback_mixed p lbas new_idxs s; Some (None, s) }
     }
   }"

function WriteFile_loop :: "nat \<Rightarrow> u32 list \<Rightarrow> u8 list \<Rightarrow> nat \<Rightarrow> bool \<Rightarrow> nat \<Rightarrow> open_file \<Rightarrow> file_sys \<Rightarrow>
    (nat \<times> open_file \<times> file_sys) option" where
  "WriteFile_loop p lbas data sz is_first_write written_size f s =
     (if written_size < sz then do {
        inode \<leftarrow> fs_nodes s p;
        let sector_idx = unat (in_size inode) div sector_size;
        let offset_in_sector = unat (in_size inode) mod sector_size;
        let left_in_sector = sector_size - offset_in_sector;
        let chunk_size = min (sz - written_size) left_in_sector;
        Assert (sector_idx < length lbas);
        (io_buf, s) \<leftarrow> (if is_first_write then ReadSectors (lbas ! sector_idx) (replicate (2 * sector_size) 0) 1 s
                       else Some (replicate (2 * sector_size) 0, s));
        Assert (written_size + chunk_size \<le> length data);
        let io_buf = overwrite io_buf offset_in_sector (take chunk_size (drop written_size data));
        s \<leftarrow> WriteSectors (lbas ! sector_idx) io_buf 1 s;
        let s = set_node p (inode\<lparr>in_size := in_size inode + of_nat chunk_size\<rparr>) s;
        WriteFile_loop p lbas data sz False (written_size + chunk_size) (f\<lparr>fl_pos := fl_pos f + of_nat chunk_size\<rparr>) s
      }
      else Some (written_size, f, s))"
  by pat_completeness auto
termination
  by (relation "measure (\<lambda>(p, lbas, data, sz, first, w, f, s). sz - w)") (simp, simp only: in_measure case_prod_conv chunk_less)

declare WriteFile_loop.simps [simp del]

definition FilePart_WriteFile :: "open_file \<Rightarrow> u8 list \<Rightarrow> u32 \<Rightarrow> file_sys \<Rightarrow> (nat \<times> open_file \<times> file_sys) option" where
  "FilePart_WriteFile f data sz s = do {
     Assert (File_IsOpen f);
     p \<leftarrow> fl_inode f;
     inode \<leftarrow> fs_nodes s p;
     let curr_size = in_size inode;
     if curr_size + sz > of_nat (sector_count_per_inode * sector_size) then Some (0, f, s)
     else do {
       let curr_sector_count = unat (RoundUpDivide curr_size (of_nat sector_size));
       let new_sector_count = unat (RoundUpDivide (curr_size + sz) (of_nat sector_size));
       Assert (curr_sector_count \<le> new_sector_count \<and> new_sector_count \<le> sector_count_per_inode);
       (lbas, s) \<leftarrow> WriteFile_lbas p curr_sector_count new_sector_count s;
       case lbas of
         None \<Rightarrow> Some (0, f, s)
       | Some lbas \<Rightarrow> do {
           let f = f\<lparr>fl_pos := curr_size - 1\<rparr>;
           (written_size, f, s) \<leftarrow> WriteFile_loop p lbas data (unat sz) True 0 f s;
           inode \<leftarrow> fs_nodes s p;
           (_, s) \<leftarrow> FilePart_SyncNode inode (replicate (2 * sector_size) 0) s;
           Some (written_size, f, s)
         }
     }
   }"

section \<open>Blocks and bytes\<close>

lemma length_concat_blocks: "(\<And>b. b \<in> set bs \<Longrightarrow> length b = n) \<Longrightarrow> length (concat bs) = length bs * n"
  by (induction bs) auto

lemma concat_split:
  assumes "i < length bs"
  shows "concat bs = concat (take i bs) @ bs ! i @ concat (drop (Suc i) bs)"
  by (subst id_take_nth_drop [OF assms]) simp

lemma chunk_of:
  assumes bs: "\<And>b. b \<in> set bs \<Longrightarrow> length b = sector_size" and i: "x div sector_size < length bs"
    and c: "c \<le> sector_size - x mod sector_size"
  shows "take c (drop (x mod sector_size) (bs ! (x div sector_size))) = take c (drop x (concat bs))"
proof -
  define pre where "pre = concat (take (x div sector_size) bs)"
  define b where "b = bs ! (x div sector_size)"
  define y where "y = x mod sector_size"
  have len: "length pre = x div sector_size * sector_size"
    using i bs length_concat_blocks [of "take (x div sector_size) bs" sector_size] by (auto simp: pre_def dest: in_set_takeD)
  have x: "x = length pre + y" by (simp add: len y_def)
  have b: "length b = sector_size" using bs i by (simp add: b_def)
  have "drop x (concat bs) = drop (length pre + y) (pre @ b @ concat (drop (Suc (x div sector_size)) bs))"
    unfolding pre_def [symmetric] b_def [symmetric] using concat_split [OF i] by (metis b_def pre_def x)
  also have "\<dots> = drop y b @ drop (y - length b) (concat (drop (Suc (x div sector_size)) bs))" by simp
  finally have "take c (drop x (concat bs)) = take c (drop y b)" using c b unfolding y_def [symmetric] by simp
  then show ?thesis by (simp add: b_def y_def)
qed

lemma ReadFile_loop_ok:
  assumes "io_ok s" "r \<le> sz" "sz \<le> length buf"
    and bs: "\<And>b. b \<in> set bs \<Longrightarrow> length b = sector_size"
    and "unat (fl_pos f) + (sz - r) \<le> length bs * sector_size" "length bs * sector_size < 2 ^ 32"
    and "\<And>i. unat (fl_pos f) div sector_size \<le> i \<Longrightarrow> i * sector_size < unat (fl_pos f) + (sz - r) \<Longrightarrow>
      i < length lbas \<and> unat (lbas ! i) + 1 \<le> unat max_lba \<and> fs_blocks s (unat (lbas ! i)) = bs ! i"
  shows "\<exists>t. ReadFile_loop lbas sz r buf f s = Some (sz, overwrite buf r (take (sz - r) (drop (unat (fl_pos f)) (concat bs))),
      f\<lparr>fl_pos := of_nat (unat (fl_pos f) + (sz - r))\<rparr>, t) \<and> io_step s t \<and> fs_blocks t = fs_blocks s"
  using assms(1-3,5-7)
proof (induction "sz - r" arbitrary: r buf f s rule: less_induct)
  case less
  show ?case
  proof (cases "r < sz")
    case False
    then have "r = sz" using less.prems(2) by simp
    then show ?thesis using io_step_refl [OF less.prems(1)] by (subst ReadFile_loop.simps) simp
  next
    case True
    define x where "x = unat (fl_pos f)"
    define c where "c = min (sz - r) (sector_size - x mod sector_size)"
    have m: "x mod sector_size < sector_size" by (simp add: sector_size_def)
    have c: "0 < c" "c \<le> sz - r" "c \<le> sector_size - x mod sector_size" using True m by (auto simp: c_def)
    let ?i = "x div sector_size"
    have xi: "?i * sector_size \<le> x" by simp
    then have "?i * sector_size < x + (sz - r)" using True by linarith
    then have i: "?i < length lbas" "unat (lbas ! ?i) + 1 \<le> unat max_lba" "fs_blocks s (unat (lbas ! ?i)) = bs ! ?i"
      using less.prems(6) [of ?i] unfolding x_def [symmetric] by auto
    have "x < length bs * sector_size" using less.prems(4) True unfolding x_def [symmetric] by simp
    then have ib: "?i < length bs" by (simp add: less_mult_imp_div_less)
    have bi: "length (bs ! ?i) = sector_size" using bs ib by simp
    obtain s1 where s1: "ReadSectors (lbas ! ?i) (replicate sector_size 0) 1 s = Some (bs ! ?i, s1)" "io_step s s1"
      "fs_blocks s1 = fs_blocks s"
      using read_all [OF less.prems(1), of 1 "lbas ! ?i" sector_size] i(2,3) by (auto simp: run_bytes_def)
    let ?ch = "take c (drop (x mod sector_size) (bs ! ?i))"
    have ch: "?ch = take c (drop x (concat bs))" by (rule chunk_of [OF bs ib c(3)])
    have lch: "length ?ch = c" using bi c(3) m by simp
    let ?f = "f\<lparr>fl_pos := fl_pos f + of_nat c\<rparr>"
    let ?buf = "overwrite buf r ?ch"
    have pos: "unat (fl_pos ?f) = x + c"
      using less.prems(4,5) c(2) by (simp, intro unat_plus) (auto simp: x_def intro!: unat_of_nat_u32)
    have rc: "x + c + (sz - (r + c)) = x + (sz - r)" using c(2) by simp
    have "\<exists>t. ReadFile_loop lbas sz (r + c) ?buf ?f s1 = Some (sz, overwrite ?buf (r + c)
          (take (sz - (r + c)) (drop (unat (fl_pos ?f)) (concat bs))),
        ?f\<lparr>fl_pos := of_nat (unat (fl_pos ?f) + (sz - (r + c)))\<rparr>, t) \<and> io_step s1 t \<and> fs_blocks t = fs_blocks s1"
    proof (rule less.hyps)
      show "sz - (r + c) < sz - r" using True c(1) by simp
      show "io_ok s1" using io_step_fields(1) [OF s1(2)] .
      show "r + c \<le> sz" using c(2) True by simp
      show "sz \<le> length ?buf" using less.prems(3) lch c(2) True by simp
      show "unat (fl_pos ?f) + (sz - (r + c)) \<le> length bs * sector_size"
        unfolding pos rc using less.prems(4) by (simp add: x_def)
      show "length bs * sector_size < 2 ^ 32" by (rule less.prems(5))
      fix k assume k: "unat (fl_pos ?f) div sector_size \<le> k" "k * sector_size < unat (fl_pos ?f) + (sz - (r + c))"
      have "x div sector_size \<le> k" using k(1) div_le_mono [of x "x + c" sector_size] unfolding pos by simp
      moreover have "k * sector_size < x + (sz - r)" using k(2) unfolding pos rc .
      ultimately show "k < length lbas \<and> unat (lbas ! k) + 1 \<le> unat max_lba \<and> fs_blocks s1 (unat (lbas ! k)) = bs ! k"
        using less.prems(6) [of k] s1(3) unfolding x_def by simp
    qed
    then obtain t where t: "ReadFile_loop lbas sz (r + c) ?buf ?f s1 = Some (sz, overwrite ?buf (r + c)
          (take (sz - (r + c)) (drop (x + c) (concat bs))), ?f\<lparr>fl_pos := of_nat (x + (sz - r))\<rparr>, t)"
      "io_step s1 t" "fs_blocks t = fs_blocks s1"
      unfolding pos rc by blast
    have "overwrite ?buf (r + c) (take (sz - (r + c)) (drop (x + c) (concat bs))) =
        overwrite buf r (take c (drop x (concat bs)) @ take (sz - (r + c)) (drop (x + c) (concat bs)))"
      using overwrite_overwrite [of r ?ch "take (sz - (r + c)) (drop (x + c) (concat bs))" buf] less.prems(3) True c(2)
      unfolding lch unfolding ch by simp
    moreover have "take c (drop x (concat bs)) @ take (sz - (r + c)) (drop (x + c) (concat bs)) = take (sz - r) (drop x (concat bs))"
    proof -
      have "c + (sz - (r + c)) = sz - r" using c(2) by simp
      then show ?thesis using take_add [of c "sz - (r + c)" "drop x (concat bs)"] by (simp add: add.commute)
    qed
    ultimately have "ReadFile_loop lbas sz r buf f s = Some (sz, overwrite buf r (take (sz - r) (drop x (concat bs))),
        f\<lparr>fl_pos := of_nat (x + (sz - r))\<rparr>, t)"
      using t(1) s1(1) i(1) True less.prems(3) c(2)
      by (subst ReadFile_loop.simps) (simp add: Let_def x_def [symmetric] c_def [symmetric])
    then show ?thesis using io_step_trans [OF s1(2) t(2)] t(3) s1(3) by (simp add: x_def)
  qed
qed

section \<open>The contents of a file\<close>

definition node_lbas :: "file_sys \<Rightarrow> idx_node \<Rightarrow> u32 list" where
  "node_lbas s n = in_direct n @
     (if in_indirect n \<noteq> 0 then read_words (fs_blocks s (unat (in_indirect n))) 0 128 else replicate 128 0)"

definition sect_count :: "nat \<Rightarrow> nat" where
  "sect_count n = (n + 511) div 512"

definition file_blocks :: "file_sys \<Rightarrow> u32 list \<Rightarrow> u8 list" where
  "file_blocks s lbas = concat (map (\<lambda>lba. fs_blocks s (unat lba)) lbas)"

definition file_content :: "file_sys \<Rightarrow> idx_node \<Rightarrow> u8 list" where
  "file_content s n = take (unat (in_size n)) (file_blocks s (take (sect_count (unat (in_size n))) (node_lbas s n)))"

definition data_lba :: "file_sys \<Rightarrow> nat" where
  "data_lba s = unat (sb_data_start_lba (super_of s))"

definition blk_used :: "file_sys \<Rightarrow> nat \<Rightarrow> bool" where
  "blk_used s l \<longleftrightarrow> data_lba s \<le> l \<and> bm_used (fs_block_bitmap s) (l - data_lba s)"

definition part_end :: "file_sys \<Rightarrow> nat" where
  "part_end s = unat (pt_start_lba (fs_part s)) + unat (pt_sector_count (fs_part s))"

text \<open>A block of the data area that is in use.\<close>

definition data_blk :: "file_sys \<Rightarrow> u32 \<Rightarrow> bool" where
  "data_blk s lba \<longleftrightarrow> data_lba s \<le> unat lba \<and> unat lba < part_end s \<and> blk_used s (unat lba)"

text \<open>
  The blocks of a file are different blocks in use: those of its sectors and, with more than twelve sectors, the table of
  addresses; the other addresses are zero.
\<close>

definition owned :: "file_sys \<Rightarrow> idx_node \<Rightarrow> u32 list" where
  "owned s n = take (sect_count (unat (in_size n))) (node_lbas s n) @
     (if direct_block_count < sect_count (unat (in_size n)) then [in_indirect n] else [])"

definition file_ok :: "file_sys \<Rightarrow> idx_node \<Rightarrow> bool" where
  "file_ok s n \<longleftrightarrow> length (in_direct n) = direct_block_count \<and> in_idx n < max_file_count_per_part \<and>
     unat (in_size n) \<le> sector_count_per_inode * sector_size \<and>
     (\<forall>lba\<in>set (owned s n). data_blk s lba) \<and> distinct (owned s n) \<and>
     (\<forall>lba\<in>set (drop (sect_count (unat (in_size n))) (node_lbas s n)). lba = 0) \<and>
     (sect_count (unat (in_size n)) \<le> direct_block_count \<longrightarrow> in_indirect n = 0)"

lemma length_node_lbas: "length (in_direct n) = direct_block_count \<Longrightarrow> length (node_lbas s n) = 140"
  by (simp add: node_lbas_def direct_block_count_def)

lemma inode_consts: "sector_count_per_inode = 140" "indirect_sector_count_per_inode = 128"
  "indirect_tab_sector_count_per_inode = 1" "direct_block_count = 12"
  by (simp_all add: sector_count_per_inode_def indirect_sector_count_per_inode_def
      indirect_tab_sector_count_per_inode_def direct_block_count_def sector_size_def)

lemma data_lba_bounds: "part_ok s \<Longrightarrow> 0 < data_lba s \<and> part_end s \<le> unat max_lba"
  using part_okD [of s] by (auto simp: data_lba_def part_end_def sb_ok_def inode_sectors_def)

lemma data_blk_bounds:
  assumes "part_ok s" "data_blk s lba"
  shows "lba \<noteq> 0" "unat lba + 1 \<le> unat max_lba"
  using data_lba_bounds [OF assms(1)] assms(2) by (auto simp: data_blk_def)

lemma sect_count_less: "i * sector_size < n \<longleftrightarrow> i < sect_count n"
proof -
  have "i < (n + 511) div 512 \<longleftrightarrow> Suc i * 512 \<le> n + 511"
    by (simp only: less_eq_Suc_le less_eq_div_iff_mult_less_eq zero_less_numeral)
  then show ?thesis by (auto simp: sect_count_def sector_size_def)
qed

end
