(* ===== verification/FileStore.thy ===== *)
theory FileStore
  imports FileData
begin

text \<open>
  Reading and writing files on the blocks of a partition: allocation of blocks keeps the files apart, \<^verbatim>\<open>ReadFile\<close> returns the
  bytes of the file, \<^verbatim>\<open>WriteFile\<close> appends to them.
\<close>

section \<open>Steps of the file system\<close>

text \<open>What allocation and writing may change: this disk, the block bitmap and the index nodes in memory.\<close>

definition fs_step :: "file_sys \<Rightarrow> file_sys \<Rightarrow> bool" where
  "fs_step s t \<longleftrightarrow> io_ok t \<and>
     t = s\<lparr>fs_chnl := fs_chnl t, fs_block_bitmap := fs_block_bitmap t, fs_nodes := fs_nodes t\<rparr> \<and>
     chnl_same (fs_chnl s) (fs_chnl t) \<and>
     sectors (fs_chnl t) (dk_idx (fs_disk s) = 0) = sectors (fs_chnl s) (dk_idx (fs_disk s) = 0)"

lemma fs_step_fields:
  assumes "fs_step s t"
  shows "io_ok t" "fs_disk t = fs_disk s" "fs_part t = fs_part s" "fs_super t = fs_super s"
    "fs_inode_bitmap t = fs_inode_bitmap s" "fs_open_inodes t = fs_open_inodes s" "fs_next t = fs_next s"
    "super_of t = super_of s" "data_lba t = data_lba s" "part_end t = part_end s" "inodes_lba t = inodes_lba s"
proof -
  let ?e = "s\<lparr>fs_chnl := fs_chnl t, fs_block_bitmap := fs_block_bitmap t, fs_nodes := fs_nodes t\<rparr>"
  have e: "t = ?e" and "io_ok t" using assms by (simp_all add: fs_step_def)
  then show "io_ok t" by simp
  show f: "fs_disk t = fs_disk s" "fs_part t = fs_part s" "fs_super t = fs_super s"
    "fs_inode_bitmap t = fs_inode_bitmap s" "fs_open_inodes t = fs_open_inodes s" "fs_next t = fs_next s"
    by (subst e, simp)+
  then show "super_of t = super_of s" "data_lba t = data_lba s" "part_end t = part_end s" "inodes_lba t = inodes_lba s"
    by (simp_all add: super_of_def data_lba_def part_end_def inodes_lba_def)
qed

lemma fs_step_refl: "io_ok s \<Longrightarrow> fs_step s s"
  by (simp add: fs_step_def)

lemma fs_step_trans:
  assumes "fs_step a b" "fs_step b c"
  shows "fs_step a c"
proof -
  have "b = a\<lparr>fs_chnl := fs_chnl b, fs_block_bitmap := fs_block_bitmap b, fs_nodes := fs_nodes b\<rparr>"
    "c = b\<lparr>fs_chnl := fs_chnl c, fs_block_bitmap := fs_block_bitmap c, fs_nodes := fs_nodes c\<rparr>"
    using assms by (simp_all add: fs_step_def)
  then have "c = a\<lparr>fs_chnl := fs_chnl c, fs_block_bitmap := fs_block_bitmap c, fs_nodes := fs_nodes c\<rparr>"
    by (cases a, cases b, cases c) simp
  moreover have "fs_disk b = fs_disk a" by (rule fs_step_fields [OF assms(1)])
  ultimately show ?thesis
    using assms chnl_same_trans unfolding fs_step_def by metis
qed

lemma io_fs_step: "io_step s t \<Longrightarrow> fs_step s t"
proof -
  assume a: "io_step s t"
  then have "t = s\<lparr>fs_chnl := fs_chnl t\<rparr>" by (simp add: io_step_def)
  moreover have "s\<lparr>fs_chnl := fs_chnl t\<rparr> = s\<lparr>fs_chnl := fs_chnl t, fs_block_bitmap := fs_block_bitmap s, fs_nodes := fs_nodes s\<rparr>"
    by (cases s) simp
  ultimately have "t = s\<lparr>fs_chnl := fs_chnl t, fs_block_bitmap := fs_block_bitmap t, fs_nodes := fs_nodes t\<rparr>"
    using io_step_fields [OF a] by simp
  then show ?thesis using a by (simp add: fs_step_def io_step_def)
qed

lemma bitmap_fs_step: "io_ok s \<Longrightarrow> fs_step s (s\<lparr>fs_block_bitmap := bm\<rparr>)"
  by (cases s) (simp add: fs_step_def io_ok_def)

lemma set_node_fs_step: "io_ok s \<Longrightarrow> fs_step s (set_node p n s)"
  by (cases s) (simp add: fs_step_def io_ok_def set_node_def)

lemma fs_step_part_ok: "fs_step s t \<Longrightarrow> part_ok s \<Longrightarrow> part_ok t"
  using fs_step_fields(1,3,4) [of s t] by (auto simp: part_ok_def split: option.splits)

section \<open>Allocation of blocks\<close>

definition block_cap :: "file_sys \<Rightarrow> nat" where
  "block_cap s = Bitmap_GetCapacity (fs_block_bitmap s)"

definition free_blocks :: "file_sys \<Rightarrow> nat set" where
  "free_blocks s = {i. i < block_cap s \<and> \<not> bm_used (fs_block_bitmap s) i}"

definition blocks_ok :: "file_sys \<Rightarrow> bool" where
  "blocks_ok s \<longleftrightarrow> part_ok s \<and> bitmap_ok (fs_block_bitmap s) \<and>
     bm_byte_len (fs_block_bitmap s) = unat (sb_block_bitmap_sector_count (super_of s)) * sector_size \<and>
     (\<forall>i\<in>free_blocks s. data_lba s + i < part_end s)"

lemma blocks_okD: "blocks_ok s \<Longrightarrow> part_ok s \<and> io_ok s \<and> bitmap_ok (fs_block_bitmap s)"
  using part_okD [of s] by (simp add: blocks_ok_def)

lemma finite_free_blocks: "finite (free_blocks s)"
  by (simp add: free_blocks_def)

lemma super_of_bitmap [simp]: "super_of (s\<lparr>fs_block_bitmap := bm\<rparr>) = super_of s"
  by (simp add: super_of_def)

lemma AllocBlock_ok:
  assumes ok: "blocks_ok s" and free: "free_blocks s \<noteq> {}"
  obtains lba bm where "FilePart_AllocBlock s = Some (lba, s\<lparr>fs_block_bitmap := bm\<rparr>)" "lba \<noteq> of_nat npos"
    "data_lba s \<le> unat lba" "unat lba < part_end s" "\<not> blk_used s (unat lba)"
    "blocks_ok (s\<lparr>fs_block_bitmap := bm\<rparr>)"
    "\<And>l. blk_used (s\<lparr>fs_block_bitmap := bm\<rparr>) l \<longleftrightarrow> blk_used s l \<or> l = unat lba"
    "card (free_blocks (s\<lparr>fs_block_bitmap := bm\<rparr>)) + 1 = card (free_blocks s)"
proof -
  have bk: "bitmap_ok (fs_block_bitmap s)" and pk: "part_ok s" using blocks_okD [OF ok] by simp_all
  from bk zero_less_one show thesis
  proof (cases rule: Alloc_cases)
    case full
    obtain i where "i \<in> free_blocks s" using free by blast
    then have "free_run (fs_block_bitmap s) i 1" by (auto simp: free_blocks_def block_cap_def free_run_def le_less_Suc_eq)
    then show thesis using full(2) by blast
  next
    case (found i bm)
    have i: "i < block_cap s" "\<not> bm_used (fs_block_bitmap s) i"
      using found(3) by (auto simp: free_run_def block_cap_def)
    then have fi: "i \<in> free_blocks s" by (simp add: free_blocks_def)
    then have lt: "data_lba s + i < part_end s" using ok by (simp add: blocks_ok_def)
    have pe: "part_end s \<le> 163839" "fs_super s = Some (super_of s)"
      using data_lba_bounds [OF pk] part_okD [OF pk] by (simp_all add: max_lba_val)
    let ?lba = "of_nat i + sb_data_start_lba (super_of s)"
    have u: "unat ?lba = i + data_lba s"
      using lt pe by (intro unat_plus unat_of_nat_u32) (simp_all add: data_lba_def)
    have np: "?lba \<noteq> of_nat npos"
    proof
      assume "?lba = of_nat npos"
      then have "unat ?lba = 4294967295" by (simp add: npos_def)
      then show False using u lt pe by simp
    qed
    let ?t = "s\<lparr>fs_block_bitmap := bm\<rparr>"
    have a: "FilePart_AllocBlock s = Some (?lba, ?t)"
      using found(1,2) pe(2) by (simp add: FilePart_AllocBlock_def FilePart_GetSuperBlock_def Let_def)
    have cap: "block_cap ?t = block_cap s" using found(6) by (simp add: block_cap_def Bitmap_GetCapacity_def)
    have fr: "free_blocks ?t = free_blocks s - {i}" using cap found(7) by (auto simp: free_blocks_def)
    have dt: "data_lba ?t = data_lba s" "part_end ?t = part_end s" by (simp_all add: data_lba_def part_end_def)
    have pt: "part_ok ?t" using fs_step_part_ok [OF bitmap_fs_step pk] part_okD [OF pk] by simp
    then have bt: "blocks_ok ?t"
      using ok found(5,6) dt fr by (simp add: blocks_ok_def)
    have used: "blk_used ?t l \<longleftrightarrow> blk_used s l \<or> l = unat ?lba" for l
      using found(7) dt u by (auto simp: blk_used_def)
    have "card (free_blocks ?t) + 1 = card (free_blocks s)"
      unfolding fr using card_Suc_Diff1 [OF finite_free_blocks fi] by presburger
    moreover have "\<not> blk_used s (unat ?lba)" using i u by (simp add: blk_used_def)
    ultimately show thesis using that [OF a np _ _ _ bt used] u lt by simp
  qed
qed

lemma AllocBlock_full:
  assumes "blocks_ok s" "free_blocks s = {}"
  shows "FilePart_AllocBlock s = Some (of_nat npos, s)"
proof -
  have bk: "bitmap_ok (fs_block_bitmap s)" using blocks_okD [OF assms(1)] by simp
  from bk zero_less_one show ?thesis
  proof (cases rule: Alloc_cases)
    case full
    then show ?thesis by (simp add: FilePart_AllocBlock_def)
  next
    case (found i bm)
    then have "i \<in> free_blocks s" by (auto simp: free_blocks_def block_cap_def free_run_def)
    then show ?thesis using assms(2) by simp
  qed
qed

text \<open>Writing the sector of the bitmap that holds the bit of a block.\<close>

lemma SyncBlockBitmap_ok:
  assumes ok: "blocks_ok s" and lba: "data_lba s \<le> unat lba" "unat lba - data_lba s < block_cap s"
  shows "\<exists>t. FilePart_SyncBlockBitmap lba s = Some t \<and> io_step s t \<and>
    (\<forall>l. inodes_lba s \<le> l \<longrightarrow> fs_blocks t l = fs_blocks s l)"
proof -
  let ?sb = "super_of s" and ?i = "unat lba - data_lba s"
  have pk: "part_ok s" and io: "io_ok s" and bk: "bitmap_ok (fs_block_bitmap s)" using blocks_okD [OF ok] by simp_all
  have sb: "fs_super s = Some ?sb" "sb_ok (fs_part s) ?sb" using part_okD [OF pk] by simp_all
  obtain bits where bits: "bm_bits (fs_block_bitmap s) = Some bits" "length bits = bm_byte_len (fs_block_bitmap s)"
    using bk by (rule bitmap_okE)
  let ?n = "unat (sb_block_bitmap_sector_count ?sb)" and ?b = "unat (sb_block_bitmap_start_lba ?sb)"
  have len: "length bits = ?n * sector_size" "block_cap s = ?n * 4096"
    using ok bits(2) by (simp_all add: blocks_ok_def block_cap_def Bitmap_GetCapacity_def byte_len_def sector_size_def)
  let ?q = "?i div 4096"
  have q: "?q < ?n" using lba(2) len(2) by (simp add: less_mult_imp_div_less)
  have le: "sb_data_start_lba ?sb \<le> lba" using lba(1) by (simp add: data_lba_def word_le_nat_alt)
  have d: "unat (lba - sb_data_start_lba ?sb) = ?i" using le by (simp add: unat_sub data_lba_def)
  have so: "unat ((lba - sb_data_start_lba ?sb) div 4096) = ?q" by (simp add: unat_div d)
  have bnd: "?b + ?n \<le> unat (sb_inode_bitmap_start_lba ?sb)" "unat (sb_inode_bitmap_start_lba ?sb) + 1 \<le> inodes_lba s"
    "inodes_lba s \<le> 163839"
    using sb(2) by (simp_all add: sb_ok_def inodes_lba_def max_lba_val)
  have pos: "unat ((lba - sb_data_start_lba ?sb) div 4096 + sb_block_bitmap_start_lba ?sb) = ?q + ?b"
    using q bnd by (intro unat_plus [OF so refl]) simp
  have "(?q + 1) * sector_size \<le> ?n * sector_size" using q by (intro mult_le_mono1) simp
  then have dl: "1 * sector_size \<le> length (drop (?q * sector_size) bits)" using len(1) by simp
  obtain t where t: "WriteSectors ((lba - sb_data_start_lba ?sb) div 4096 + sb_block_bitmap_start_lba ?sb)
      (drop (?q * sector_size) bits) 1 s = Some t" "io_step s t"
    "fs_blocks t = put_run (fs_blocks s) (?q + ?b) 1 (drop (?q * sector_size) bits)"
    using write_ok [OF io, of 1 "(lba - sb_data_start_lba ?sb) div 4096 + sb_block_bitmap_start_lba ?sb"
        "drop (?q * sector_size) bits"] pos q bnd dl
    by (auto simp: max_lba_val)
  have "FilePart_SyncBlockBitmap lba s = Some t"
    using sb(1) le bits(1) t(1) so
    by (simp add: FilePart_SyncBlockBitmap_def FilePart_SyncBitmap_def FilePart_GetSuperBlock_def Let_def
        bit_count_per_sector_def byte_len_def sector_size_def)
  moreover have "\<forall>l. inodes_lba s \<le> l \<longrightarrow> fs_blocks t l = fs_blocks s l"
    using t(3) q bnd by (auto simp: put_run_def)
  ultimately show ?thesis using t(2) by blast
qed

section \<open>Reading\<close>

lemma load_direct_ok:
  assumes "\<And>i. i \<in> set is \<Longrightarrow> i < direct_block_count \<and> i < length lbas \<and> in_direct n ! i \<noteq> 0"
  shows "\<exists>lbas'. load_direct n is lbas = Some lbas' \<and> length lbas' = length lbas \<and>
    (\<forall>i<length lbas. lbas' ! i = (if i \<in> set is then in_direct n ! i else lbas ! i))"
  using assms
proof (induction "is" arbitrary: lbas)
  case (Cons j js)
  let ?l = "lbas[j := in_direct n ! j]"
  obtain lbas' where "load_direct n js ?l = Some lbas'" "length lbas' = length lbas"
    "\<forall>i<length lbas. lbas' ! i = (if i \<in> set js then in_direct n ! i else ?l ! i)"
    using Cons.IH [of ?l] Cons.prems by auto
  then show ?case using Cons.prems [of j] by (auto simp: IdxNode_GetDirectLba_def nth_list_update)
qed simp

lemma load_direct_None:
  assumes "j \<in> set is" "j < direct_block_count" "in_direct n ! j = 0"
  shows "load_direct n is lbas = None"
  using assms by (induction "is" arbitrary: lbas) (auto simp: IdxNode_GetDirectLba_def)

lemma load_indirect_ok:
  assumes "io_ok s" "in_indirect n \<noteq> 0" "unat (in_indirect n) + 1 \<le> unat max_lba" "length lbas = 140"
  shows "\<exists>t. load_indirect n lbas s = Some (take 12 lbas @ read_words (fs_blocks s (unat (in_indirect n))) 0 128, t) \<and>
    io_step s t \<and> fs_blocks t = fs_blocks s"
proof -
  let ?b = "write_words (drop 12 lbas)"
  have lb: "length ?b = sector_size" using assms(4) by (simp add: sector_size_def)
  obtain t where t: "ReadSectors (in_indirect n) ?b 1 s = Some (overwrite ?b 0 (fs_blocks s (unat (in_indirect n))), t)"
    "io_step s t" "fs_blocks t = fs_blocks s"
    using read_ok [OF assms(1), of 1 "in_indirect n" ?b] assms(3) lb by (auto simp: run_bytes_def)
  moreover have "overwrite ?b 0 (fs_blocks s (unat (in_indirect n))) = fs_blocks s (unat (in_indirect n))"
    using lb block_len [OF assms(1)] by (simp add: overwrite_def)
  ultimately show ?thesis
    using assms(2) by (auto simp: load_indirect_def IdxNode_GetIndirectTabLba_def read_indirect_def inode_consts)
qed

lemma node_lbas_nth:
  assumes "length (in_direct n) = direct_block_count"
  shows "i < 12 \<Longrightarrow> node_lbas s n ! i = in_direct n ! i"
    "12 \<le> i \<Longrightarrow> i < 140 \<Longrightarrow> in_indirect n \<noteq> 0 \<Longrightarrow>
      node_lbas s n ! i = read_words (fs_blocks s (unat (in_indirect n))) 0 128 ! (i - 12)"
  using assms by (simp_all add: node_lbas_def nth_append direct_block_count_def)

text \<open>The facts about a well-formed file that reading and writing use.\<close>

lemma file_okD:
  assumes "file_ok s n"
  shows "length (in_direct n) = direct_block_count" "in_idx n < max_file_count_per_part" "unat (in_size n) \<le> 71680"
    "sect_count (unat (in_size n)) \<le> 140" "length (node_lbas s n) = 140"
    "i < sect_count (unat (in_size n)) \<Longrightarrow> data_blk s (node_lbas s n ! i)"
    "sect_count (unat (in_size n)) \<le> i \<Longrightarrow> i < 140 \<Longrightarrow> node_lbas s n ! i = 0"
    "12 < sect_count (unat (in_size n)) \<Longrightarrow> data_blk s (in_indirect n)"
    "sect_count (unat (in_size n)) \<le> 12 \<Longrightarrow> in_indirect n = 0"
proof -
  let ?k = "sect_count (unat (in_size n))"
  show d: "length (in_direct n) = direct_block_count" and "in_idx n < max_file_count_per_part"
    and sz: "unat (in_size n) \<le> 71680"
    using assms by (simp_all add: file_ok_def inode_consts sector_size_def)
  have "?k \<le> (71680 + 511) div 512" unfolding sect_count_def using sz by (intro div_le_mono) simp
  then show k: "?k \<le> 140" by simp
  show len: "length (node_lbas s n) = 140" by (rule length_node_lbas [OF d])
  show "data_blk s (node_lbas s n ! i)" if "i < ?k"
  proof -
    have "node_lbas s n ! i \<in> set (take ?k (node_lbas s n))" using that len k by (auto simp: in_set_conv_nth)
    then show ?thesis using assms by (auto simp: file_ok_def owned_def)
  qed
  show "node_lbas s n ! i = 0" if "?k \<le> i" "i < 140"
  proof -
    have "node_lbas s n ! i \<in> set (drop ?k (node_lbas s n))"
      using that len by (auto simp: in_set_conv_nth intro!: exI [of _ "i - ?k"])
    then show ?thesis using assms by (auto simp: file_ok_def)
  qed
  show "data_blk s (in_indirect n)" if "12 < ?k" using assms that by (simp add: file_ok_def owned_def inode_consts)
  show "in_indirect n = 0" if "?k \<le> 12" using assms that by (simp add: file_ok_def inode_consts)
qed

lemma ReadFile_lbas_ok:
  assumes pk: "part_ok s" and ok: "file_ok s n" and se: "st \<le> en" "en < sect_count (unat (in_size n)) \<or> 12 < en \<and> en < 140"
    and ind: "12 \<le> en \<Longrightarrow> 12 < sect_count (unat (in_size n))"
  shows "\<exists>lbas t. ReadFile_lbas n st en s = Some (lbas, t) \<and> io_step s t \<and> fs_blocks t = fs_blocks s \<and> length lbas = 140 \<and>
    (\<forall>i. st \<le> i \<and> i \<le> en \<longrightarrow> lbas ! i = node_lbas s n ! i)"
proof -
  note f = file_okD [OF ok]
  have io: "io_ok s" using part_okD [OF pk] by simp
  let ?z = "replicate 140 0 :: u32 list"
  have nz: "in_direct n ! i \<noteq> 0" if "i < 12" "i \<le> en" for i
  proof -
    have "i < sect_count (unat (in_size n))" using that se ind by (cases "12 \<le> en") auto
    then show ?thesis using f(6) [of i] data_blk_bounds(1) [OF pk] node_lbas_nth(1) [OF f(1) that(1)] by metis
  qed
  have en: "en < 140" using se f(4) by auto
  have ld: "\<exists>lbas. load_direct n is ?z = Some lbas \<and> length lbas = 140 \<and>
      (\<forall>i<140. lbas ! i = (if i \<in> set is then in_direct n ! i else 0))"
    if "\<And>i. i \<in> set is \<Longrightarrow> i < 12 \<and> i \<le> en" for "is"
  proof -
    have "\<And>i. i \<in> set is \<Longrightarrow> i < direct_block_count \<and> i < length ?z \<and> in_direct n ! i \<noteq> 0"
      using that nz by (force simp: inode_consts)
    from load_direct_ok [of "is" ?z n, OF this] obtain lbas where "load_direct n is ?z = Some lbas" "length lbas = 140"
      "\<forall>i<140. lbas ! i = (if i \<in> set is then in_direct n ! i else ?z ! i)" by auto
    then show ?thesis by (intro exI [of _ lbas]) simp
  qed
  show ?thesis
  proof (cases "en < 12")
    case True
    let ?is = "if st = en then [st] else [st..<en + 1]"
    have ids: "set ?is = {st..en}" using se(1) by auto
    obtain lbas where "load_direct n ?is ?z = Some lbas" "length lbas = 140"
      "\<forall>i<140. lbas ! i = (if i \<in> set ?is then in_direct n ! i else 0)"
      using ld [of ?is] True ids by auto
    moreover have "\<forall>i. st \<le> i \<and> i \<le> en \<longrightarrow> lbas ! i = node_lbas s n ! i"
      using calculation(3) True node_lbas_nth(1) [OF f(1)] unfolding ids by auto
    moreover have "ReadFile_lbas n st en s = do { lbas \<leftarrow> load_direct n ?is ?z; Some (lbas, s) }"
      using True by (simp add: ReadFile_lbas_def inode_consts Let_def del: load_direct.simps)
    ultimately show ?thesis
      using io_step_refl [OF io] by (intro exI [of _ lbas] exI [of _ s]) (simp del: load_direct.simps)
  next
    case False
    then have ib: "data_blk s (in_indirect n)" using ind f(8) by auto
    note b = data_blk_bounds [OF pk ib]
    have fin: "\<exists>t. load_indirect n lbas s = Some (take 12 lbas @ read_words (fs_blocks s (unat (in_indirect n))) 0 128, t) \<and>
        io_step s t \<and> fs_blocks t = fs_blocks s" if "length lbas = 140" for lbas
      by (rule load_indirect_ok [OF io b that])
    have hi: "(take 12 lbas @ read_words (fs_blocks s (unat (in_indirect n))) 0 128) ! i = node_lbas s n ! i"
      if "length lbas = 140" "12 \<le> i" "i < 140" for i and lbas :: "u32 list"
      using that node_lbas_nth(2) [OF f(1) that(2,3) b(1)] by (simp add: nth_append)
    show ?thesis
    proof (cases "st < 12")
      case True
      obtain lbas where l: "load_direct n [st..<12] ?z = Some lbas" "length lbas = 140"
        "\<forall>i<140. lbas ! i = (if i \<in> set [st..<12] then in_direct n ! i else 0)"
        using ld [of "[st..<12]"] False by auto
      obtain t where t: "load_indirect n lbas s = Some (take 12 lbas @ read_words (fs_blocks s (unat (in_indirect n))) 0 128, t)"
        "io_step s t" "fs_blocks t = fs_blocks s" using fin [OF l(2)] by blast
      have "(take 12 lbas @ read_words (fs_blocks s (unat (in_indirect n))) 0 128) ! i = node_lbas s n ! i"
        if "st \<le> i" "i \<le> en" for i
        using that l(2,3) en hi [OF l(2)] node_lbas_nth(1) [OF f(1)] by (cases "i < 12") (auto simp: nth_append)
      then show ?thesis
        using True False l(1,2) t
        by (intro exI [of _ "take 12 lbas @ read_words (fs_blocks s (unat (in_indirect n))) 0 128"] exI [of _ t])
          (simp add: ReadFile_lbas_def inode_consts Let_def)
    next
      case False
      obtain t where t: "load_indirect n ?z s = Some (take 12 ?z @ read_words (fs_blocks s (unat (in_indirect n))) 0 128, t)"
        "io_step s t" "fs_blocks t = fs_blocks s" using fin [of ?z] by auto
      then show ?thesis
        using False \<open>\<not> en < 12\<close> hi [of ?z] en
        by (intro exI [of _ "take 12 ?z @ read_words (fs_blocks s (unat (in_indirect n))) 0 128"] exI [of _ t])
          (simp add: ReadFile_lbas_def inode_consts Let_def)
    qed
  qed
qed

lemma content_blocks:
  assumes "io_ok s"
  shows "b \<in> set (map (\<lambda>lba. fs_blocks s (unat lba)) ls) \<Longrightarrow> length b = sector_size"
    "length (file_blocks s ls) = length ls * sector_size"
proof -
  show 1: "length b = sector_size" if "b \<in> set (map (\<lambda>lba. fs_blocks s (unat lba)) ls)" for b
    using that block_len [OF assms] by auto
  show "length (file_blocks s ls) = length ls * sector_size"
    unfolding file_blocks_def using length_concat_blocks [of "map (\<lambda>lba. fs_blocks s (unat lba)) ls", OF 1] by simp
qed

lemma sect_count_bounds: "n \<le> sect_count n * sector_size" "i * sector_size < n \<Longrightarrow> i < sect_count n"
proof -
  show "i * sector_size < n \<Longrightarrow> i < sect_count n" by (simp add: sect_count_less)
  show "n \<le> sect_count n * sector_size" using sect_count_less [of "sect_count n" n] by simp
qed

lemma length_file_content:
  assumes "part_ok s" "file_ok s n"
  shows "length (file_content s n) = unat (in_size n)"
proof -
  note f = file_okD [OF assms(2)]
  have io: "io_ok s" using part_okD [OF assms(1)] by simp
  show ?thesis
    using f(4,5) sect_count_bounds(1) [of "unat (in_size n)"]
    by (simp add: file_content_def content_blocks(2) [OF io] min_def)
qed

text \<open>
  The read that the code gets wrong: it ends at the end of the file, the size of the file is a multiple of the sector size, and
  the sector behind the last one is not covered by a table of addresses.
\<close>

definition boundary_read :: "nat \<Rightarrow> nat \<Rightarrow> nat \<Rightarrow> bool" where
  "boundary_read sz pos m \<longleftrightarrow> 0 < m \<and> pos + m = sz \<and> sz mod sector_size = 0 \<and>
     (sz div sector_size \<le> direct_block_count \<or> sz div sector_size = sector_count_per_inode)"

lemma ReadFile_panics:
  assumes pk: "part_ok s" and f: "fl_inode f = Some p" "fs_nodes s p = Some n" and ok: "file_ok s n"
    and pos: "fl_pos f \<le> in_size n" and m: "m = min (unat sz) (unat (in_size n) - unat (fl_pos f))"
    and bad: "boundary_read (unat (in_size n)) (unat (fl_pos f)) m"
  shows "FilePart_ReadFile f buf sz s = None"
proof -
  note k = file_okD [OF ok]
  let ?x = "unat (fl_pos f)" and ?S = "unat (in_size n)"
  have le: "?x \<le> ?S" using pos by (simp add: word_le_nat_alt)
  have w: "unat (min sz (in_size n - fl_pos f)) = m"
    using pos by (auto simp: m min_def word_le_nat_alt unat_sub)
  have e: "unat (fl_pos f + min sz (in_size n - fl_pos f)) = ?S"
    using unat_plus [OF refl w, of "fl_pos f"] bad k(3) by (simp add: boundary_read_def)
  have m0: "min sz (in_size n - fl_pos f) \<noteq> 0" using w bad by (auto simp: boundary_read_def)
  let ?en = "?S div sector_size" and ?st = "?x div sector_size"
  have dv: "?S = ?en * sector_size"
  proof -
    have "?S mod sector_size = 0" using bad by (simp add: boundary_read_def)
    then show ?thesis using div_mult_mod_eq [of ?S sector_size] by (metis add_0_right)
  qed
  have kc: "sect_count ?S = ?en"
  proof -
    have "sect_count (e * sector_size) = e" for e by (simp add: sect_count_def sector_size_def)
    then show ?thesis using dv by metis
  qed
  have st: "?st < ?en"
  proof -
    have "?x < ?en * sector_size" using bad dv by (simp add: boundary_read_def)
    then show ?thesis by (simp add: less_mult_imp_div_less)
  qed
  have "ReadFile_lbas n ?st ?en s = None" if en: "?en \<le> 12"
  proof (cases "?en < 12")
    case True
    have "in_direct n ! ?en = 0" using k(7) [of ?en] kc True node_lbas_nth(1) [OF k(1) True] by simp
    then have "load_direct n [?st..<?en + 1] (replicate sector_count_per_inode 0) = None"
      using True st by (intro load_direct_None [of ?en]) (auto simp: inode_consts)
    then show ?thesis using True st by (simp add: ReadFile_lbas_def inode_consts Let_def)
  next
    case False
    then have "in_indirect n = 0" using k(9) kc en by simp
    then have "load_indirect n lbas s = None" for lbas by (simp add: load_indirect_def IdxNode_GetIndirectTabLba_def)
    then show ?thesis using False st by (auto simp: ReadFile_lbas_def inode_consts Let_def bind_eq_None_conv)
  qed
  moreover have "?en \<le> 12 \<or> ?en = 140" using bad by (simp add: boundary_read_def inode_consts)
  ultimately show ?thesis
    using f pos m0 e by (auto simp: FilePart_ReadFile_def File_IsOpen_def File_GetNode_def Let_def inode_consts)
qed

lemma read_cover:
  assumes "m \<noteq> 0" and xm: "x + m \<le> S" and K: "sect_count S \<le> 140" and good: "\<not> boundary_read S x m"
  defines "en \<equiv> (x + m) div sector_size"
  shows "en < sect_count S \<or> 12 < en \<and> en < 140 \<and> en = sect_count S"
proof (cases "en * sector_size < S")
  case True
  then show ?thesis by (simp add: sect_count_less)
next
  case False
  have le_en: "en * sector_size \<le> x + m" unfolding en_def by (rule div_times_less_eq_dividend)
  have ge: "S \<le> en * sector_size" using False by (rule leI)
  have eq: "x + m = S" "S = en * sector_size"
    using le_antisym [OF xm order.trans [OF ge le_en]] le_antisym [OF ge order.trans [OF le_en xm]] by blast+
  have "S mod sector_size = 0" by (subst eq(2)) simp
  moreover have "S div sector_size = en" unfolding en_def eq(1) ..
  ultimately have "\<not> (en \<le> 12 \<or> en = 140)"
    using good assms(1) eq(1) unfolding boundary_read_def inode_consts by (simp only: neq0_conv simp_thms)
  moreover have "sect_count S = en" by (subst eq(2)) (simp add: sect_count_def sector_size_def)
  ultimately show ?thesis using K by simp
qed

text \<open>The loop over the sectors of a file reads its bytes, when the addresses of the sectors are loaded.\<close>

lemma read_file_loop:
  assumes pk: "part_ok s" and ok: "file_ok s n" and xm: "unat (fl_pos f) + m \<le> unat (in_size n)" "m \<le> length buf"
    and t: "io_step s t" "fs_blocks t = fs_blocks s" "length lbas = 140"
    and lbas: "\<forall>i. unat (fl_pos f) div sector_size \<le> i \<and> i \<le> (unat (fl_pos f) + m) div sector_size \<longrightarrow> lbas ! i = node_lbas s n ! i"
  shows "\<exists>u. ReadFile_loop lbas m 0 buf f t = Some (m, overwrite buf 0 (take m (drop (unat (fl_pos f)) (file_content s n))),
    f\<lparr>fl_pos := of_nat (unat (fl_pos f) + m)\<rparr>, u) \<and> io_step t u \<and> fs_blocks u = fs_blocks t"
proof -
  define x S K where "x = unat (fl_pos f)" and "S = unat (in_size n)" and "K = sect_count S"
  note k = file_okD [OF ok, folded S_def, folded K_def] and xm = xm [folded x_def S_def] and lbas = lbas [folded x_def]
  have io: "io_ok s" using part_okD [OF pk] by simp
  let ?bs = "map (\<lambda>lba. fs_blocks s (unat lba)) (take K (node_lbas s n))"
  have lb: "length ?bs = K" using k(4,5) by simp
  have "\<exists>u. ReadFile_loop lbas m 0 buf f t = Some (m, overwrite buf 0 (take (m - 0) (drop (unat (fl_pos f)) (concat ?bs))),
      f\<lparr>fl_pos := of_nat (unat (fl_pos f) + (m - 0))\<rparr>, u) \<and> io_step t u \<and> fs_blocks u = fs_blocks t"
  proof (rule ReadFile_loop_ok)
    show "io_ok t" by (rule io_step_fields(1) [OF t(1)])
    show "length b = sector_size" if "b \<in> set ?bs" for b using that block_len [OF io] by auto
    show "unat (fl_pos f) + (m - 0) \<le> length ?bs * sector_size"
      using xm(1) sect_count_bounds(1) [of S] unfolding lb by (simp add: x_def K_def)
    show "length ?bs * sector_size < 2 ^ 32" using lb k(4) by (simp add: sector_size_def)
    fix i assume i: "unat (fl_pos f) div sector_size \<le> i" "i * sector_size < unat (fl_pos f) + (m - 0)"
    have "i * sector_size < S" using i(2) xm(1) by (simp add: x_def)
    then have iK: "i < K" by (simp add: K_def sect_count_less)
    have "i \<le> (x + m) div sector_size" using i(2) by (simp add: x_def less_eq_div_iff_mult_less_eq sector_size_def)
    then have l: "lbas ! i = node_lbas s n ! i" using lbas i(1) by (simp add: x_def)
    then have "unat (lbas ! i) + 1 \<le> unat max_lba" using data_blk_bounds(2) [OF pk k(6)] iK by simp
    moreover have "fs_blocks t (unat (lbas ! i)) = ?bs ! i" using l iK lb k(4,5) t(2) by simp
    ultimately show "i < length lbas \<and> unat (lbas ! i) + 1 \<le> unat max_lba \<and> fs_blocks t (unat (lbas ! i)) = ?bs ! i"
      using iK k(4) t(3) by simp
  qed (use xm(2) in simp_all)
  moreover have "take m (drop x (file_content s n)) = take m (drop x (concat ?bs))"
    using xm(1) unfolding file_content_def file_blocks_def S_def [symmetric] K_def [symmetric] by (simp add: drop_take min_def)
  ultimately show ?thesis by (simp add: x_def)
qed

lemma ReadFile_ok:
  assumes pk: "part_ok s" and f: "fl_inode f = Some p" "fs_nodes s p = Some n" and ok: "file_ok s n"
    and pos: "fl_pos f \<le> in_size n" and m: "m = min (unat sz) (unat (in_size n) - unat (fl_pos f))" "m \<le> length buf"
    and good: "\<not> boundary_read (unat (in_size n)) (unat (fl_pos f)) m"
  shows "\<exists>t. FilePart_ReadFile f buf sz s = Some (m, overwrite buf 0 (take m (drop (unat (fl_pos f)) (file_content s n))),
      f\<lparr>fl_pos := of_nat (unat (fl_pos f) + m)\<rparr>, t) \<and> io_step s t \<and> fs_blocks t = fs_blocks s"
proof -
  note k = file_okD [OF ok]
  have io: "io_ok s" using part_okD [OF pk] by simp
  have le: "unat (fl_pos f) \<le> unat (in_size n)" "unat (in_size n) \<le> 71680" using pos k(3) by (simp_all add: word_le_nat_alt)
  have w: "unat (min sz (in_size n - fl_pos f)) = m"
    using pos by (auto simp: m(1) min_def word_le_nat_alt unat_sub)
  have xm: "unat (fl_pos f) + m \<le> unat (in_size n)" using le(1) by (auto simp: m(1))
  have e: "unat (fl_pos f + min sz (in_size n - fl_pos f)) = unat (fl_pos f) + m"
    using unat_plus [OF refl w, of "fl_pos f"] xm le by simp
  show ?thesis
  proof (cases "m = 0")
    case True
    then have "min sz (in_size n - fl_pos f) = 0" using w by (metis unat_eq_zero)
    then show ?thesis
      using True f pos io_step_refl [OF io]
      by (intro exI [of _ s]) (simp add: FilePart_ReadFile_def File_IsOpen_def File_GetNode_def Let_def)
  next
    case False
    then have m0: "min sz (in_size n - fl_pos f) \<noteq> 0" using w by auto
    let ?st = "unat (fl_pos f) div sector_size" and ?en = "(unat (fl_pos f) + m) div sector_size"
    have se: "?st \<le> ?en" by (intro div_le_mono) simp
    note cover = read_cover [OF False xm k(4) good]
    have ind: "12 < sect_count (unat (in_size n))" if "12 \<le> ?en" using cover that by auto
    have en: "?en < sect_count (unat (in_size n)) \<or> 12 < ?en \<and> ?en < 140" "?en < 140" using cover k(4) by auto
    obtain lbas t where t: "ReadFile_lbas n ?st ?en s = Some (lbas, t)" "io_step s t" "fs_blocks t = fs_blocks s"
      "length lbas = 140" "\<forall>i. ?st \<le> i \<and> i \<le> ?en \<longrightarrow> lbas ! i = node_lbas s n ! i"
      using ReadFile_lbas_ok [OF pk ok se en(1) ind] by auto
    obtain u where u: "ReadFile_loop lbas m 0 buf f t = Some (m, overwrite buf 0 (take m (drop (unat (fl_pos f)) (file_content s n))),
        f\<lparr>fl_pos := of_nat (unat (fl_pos f) + m)\<rparr>, u)" "io_step t u" "fs_blocks u = fs_blocks t"
      using read_file_loop [OF pk ok xm m(2) t(2-5)] by blast
    then have "FilePart_ReadFile f buf sz s = Some (m, overwrite buf 0 (take m (drop (unat (fl_pos f)) (file_content s n))),
        f\<lparr>fl_pos := of_nat (unat (fl_pos f) + m)\<rparr>, u)"
      using f pos m0 e w t(1) en(2) se by (simp add: FilePart_ReadFile_def File_IsOpen_def File_GetNode_def Let_def inode_consts)
    then show ?thesis using io_step_trans [OF t(2) u(2)] t(3) u(3) by simp
  qed
qed

section \<open>Properties of reading\<close>

text \<open>
  C15: Reading a file: for every well-formed file, position and length, \<^verbatim>\<open>ReadFile\<close> terminates, copies exactly the bytes of the file
  from the position on (as many as asked for or as there are), advances the position by their number and changes nothing on the
  disk, through direct and indirect blocks; except that a read that ends at the end of a file whose size is a
  multiple of the sector size panics when the file has at most twelve sectors or all 140.
\<close>

theorem ReadFile_contents:
  assumes "part_ok s" "fl_inode f = Some p" "fs_nodes s p = Some n" "file_ok s n" "fl_pos f \<le> in_size n"
    and "m = min (unat sz) (unat (in_size n) - unat (fl_pos f))" "m \<le> length buf"
  shows "if boundary_read (unat (in_size n)) (unat (fl_pos f)) m then FilePart_ReadFile f buf sz s = None
    else \<exists>t. FilePart_ReadFile f buf sz s = Some (m, overwrite buf 0 (take m (drop (unat (fl_pos f)) (file_content s n))),
      f\<lparr>fl_pos := of_nat (unat (fl_pos f) + m)\<rparr>, t) \<and> io_step s t \<and> fs_blocks t = fs_blocks s"
  using ReadFile_panics [OF assms(1-6)] ReadFile_ok [OF assms] by simp

text \<open>A file of 1000 bytes in the first two blocks of the data area; the bits behind the partition are set.\<close>

definition demo_node :: idx_node where
  "demo_node = \<lparr>in_idx = 6, in_size = 1000, in_open_times = 1, in_write_deny = False, in_direct = 712 # 713 # replicate 10 0,
     in_indirect = 0\<rparr>"

definition demo_file_fs :: file_sys where
  "demo_file_fs = demo_fs\<lparr>fs_block_bitmap :=
     \<lparr>bm_byte_len = 512, bm_bits = Some (3 # replicate 172 0 @ 0xF0 # replicate 338 0xFF)\<rparr>, fs_nodes := [5 \<mapsto> demo_node]\<rparr>"

lemma demo_file_fs_ok: "part_ok demo_file_fs" "fs_nodes demo_file_fs 5 = Some demo_node" "file_ok demo_file_fs demo_node"
proof -
  show "part_ok demo_file_fs"
    using demo_fs_ok(1) by (simp add: demo_file_fs_def demo_fs_def part_ok_def io_ok_def)
  show "fs_nodes demo_file_fs 5 = Some demo_node" by (simp add: demo_file_fs_def)
  have d: "data_lba demo_file_fs = 712" "part_end demo_file_fs = 2100"
    by (simp_all add: data_lba_def part_end_def super_of_def demo_file_fs_def demo_fs_def)
  have "bm_used (fs_block_bitmap demo_file_fs) 0" "bm_used (fs_block_bitmap demo_file_fs) 1"
    by (simp_all add: demo_file_fs_def bm_used_def byte_len_def)
  then have "data_blk demo_file_fs 712" "data_blk demo_file_fs 713"
    using d by (simp_all add: data_blk_def blk_used_def)
  then show "file_ok demo_file_fs demo_node"
    by (simp add: file_ok_def owned_def node_lbas_def sect_count_def demo_node_def inode_consts sector_size_def
        max_file_count_per_part_def)
qed

theorem ReadFile_contents_witness:
  "\<exists>t. FilePart_ReadFile \<lparr>fl_flags = 0, fl_inode = Some 5, fl_pos = 10\<rparr> (replicate 700 0) 600 demo_file_fs =
     Some (600, overwrite (replicate 700 0) 0 (take 600 (drop 10 (file_content demo_file_fs demo_node))),
       \<lparr>fl_flags = 0, fl_inode = Some 5, fl_pos = 610\<rparr>, t)"
  using ReadFile_contents [OF demo_file_fs_ok(1) _ demo_file_fs_ok(2,3), of "\<lparr>fl_flags = 0, fl_inode = Some 5, fl_pos = 10\<rparr>" 600 600
      "replicate 700 0"]
  by (simp add: demo_node_def boundary_read_def) blast

end
