(* ===== verification/FileWrite.thy ===== *)
theory FileWrite
  imports FileStore
begin

text \<open>
  Writing to files: \<^verbatim>\<open>WriteFile\<close> of \<^verbatim>\<open>io/disk/part.cpp\<close> allocates the blocks it needs, appends the data to the contents of
  the file, saves the index node and leaves every other block in use and every other node alone.
\<close>

section \<open>The blocks for new sectors\<close>

lemma same_bitmap_blocks:
  assumes "fs_step s t" "fs_block_bitmap t = fs_block_bitmap s"
  shows "blk_used t = blk_used s" "free_blocks t = free_blocks s" "block_cap t = block_cap s" "data_blk t = data_blk s"
    "blocks_ok s \<Longrightarrow> blocks_ok t"
proof -
  note f = fs_step_fields [OF assms(1)]
  show u: "blk_used t = blk_used s" using assms(2) f by (intro ext) (simp add: blk_used_def)
  show c: "block_cap t = block_cap s" using assms(2) by (simp add: block_cap_def)
  show r: "free_blocks t = free_blocks s" using assms(2) c by (simp add: free_blocks_def)
  show "data_blk t = data_blk s" using f u by (intro ext) (simp add: data_blk_def)
  show "blocks_ok t" if "blocks_ok s"
    using that fs_step_part_ok [OF assms(1)] f r assms(2) by (simp add: blocks_ok_def)
qed

lemma set_node_fields [simp]: "fs_block_bitmap (set_node p n s) = fs_block_bitmap s"
  "fs_blocks (set_node p n s) = fs_blocks s" "fs_nodes (set_node p n s) = (fs_nodes s)(p \<mapsto> n)"
  by (simp_all add: set_node_def fs_blocks_def)

lemma fs_blocks_bitmap [simp]: "fs_blocks (s\<lparr>fs_block_bitmap := bm\<rparr>) = fs_blocks s"
  by (simp add: fs_blocks_def)

lemma blk_used_cap: "blocks_ok s \<Longrightarrow> blk_used s l \<Longrightarrow> l - data_lba s < block_cap s"
  by (auto simp: blocks_ok_def bitmap_ok_def blk_used_def bm_used_def block_cap_def Bitmap_GetCapacity_def byte_len_def
      split: option.splits)

text \<open>What the allocation of the blocks for the sectors \<open>is\<close> promises.\<close>

definition allocated :: "nat \<Rightarrow> idx_node \<Rightarrow> nat list \<Rightarrow> u32 list \<Rightarrow> file_sys \<Rightarrow> u32 list \<Rightarrow> file_sys \<Rightarrow> bool" where
  "allocated p n is lbas s lbas' t \<longleftrightarrow> fs_step s t \<and> blocks_ok t \<and> length lbas' = length lbas \<and>
     (\<forall>i. i \<notin> set is \<longrightarrow> lbas' ! i = lbas ! i) \<and> inj_on (\<lambda>i. lbas' ! i) (set is) \<and>
     (\<forall>i\<in>set is. data_lba s \<le> unat (lbas' ! i) \<and> unat (lbas' ! i) < part_end s \<and> \<not> blk_used s (unat (lbas' ! i))) \<and>
     (\<forall>l. blk_used t l \<longleftrightarrow> blk_used s l \<or> (\<exists>i\<in>set is. l = unat (lbas' ! i))) \<and>
     (\<exists>dir. length dir = 12 \<and> fs_nodes t = (fs_nodes s)(p \<mapsto> n\<lparr>in_direct := dir\<rparr>) \<and>
        (\<forall>i<12. dir ! i = (if i \<in> set is then lbas' ! i else in_direct n ! i))) \<and>
     (\<forall>l. inodes_lba s \<le> l \<longrightarrow> fs_blocks t l = fs_blocks s l) \<and>
     card (free_blocks t) + length is = card (free_blocks s)"

text \<open>A block is marked as used, in memory and on the disk.\<close>

definition new_block :: "u32 \<Rightarrow> file_sys \<Rightarrow> file_sys \<Rightarrow> bool" where
  "new_block lba s t \<longleftrightarrow> fs_step s t \<and> blocks_ok t \<and> (\<forall>l. blk_used t l \<longleftrightarrow> blk_used s l \<or> l = unat lba) \<and>
     card (free_blocks t) + 1 = card (free_blocks s) \<and> (\<forall>l. inodes_lba s \<le> l \<longrightarrow> fs_blocks t l = fs_blocks s l)"

text \<open>Between the allocation and the write of the bitmap a step may change nodes.\<close>

lemma alloc_new_block:
  assumes "blocks_ok s" "free_blocks s \<noteq> {}"
  obtains lba bm where "FilePart_AllocBlock s = Some (lba, s\<lparr>fs_block_bitmap := bm\<rparr>)" "lba \<noteq> of_nat npos"
    "data_lba s \<le> unat lba" "unat lba < part_end s" "\<not> blk_used s (unat lba)"
    "\<forall>u. fs_step (s\<lparr>fs_block_bitmap := bm\<rparr>) u \<and> fs_block_bitmap u = bm \<and> fs_blocks u = fs_blocks s \<longrightarrow>
       (\<exists>t. FilePart_SyncBlockBitmap lba u = Some t \<and> new_block lba s t \<and> fs_nodes t = fs_nodes u)"
proof -
  obtain lba bm where a: "FilePart_AllocBlock s = Some (lba, s\<lparr>fs_block_bitmap := bm\<rparr>)" "lba \<noteq> of_nat npos"
    "data_lba s \<le> unat lba" "unat lba < part_end s" "\<not> blk_used s (unat lba)"
    "blocks_ok (s\<lparr>fs_block_bitmap := bm\<rparr>)"
    "\<And>l. blk_used (s\<lparr>fs_block_bitmap := bm\<rparr>) l \<longleftrightarrow> blk_used s l \<or> l = unat lba"
    "card (free_blocks (s\<lparr>fs_block_bitmap := bm\<rparr>)) + 1 = card (free_blocks s)"
    using AllocBlock_ok [OF assms] by metis
  have io: "io_ok s" using blocks_okD [OF assms(1)] by simp
  have "\<exists>t. FilePart_SyncBlockBitmap lba u = Some t \<and> new_block lba s t \<and> fs_nodes t = fs_nodes u"
    if u: "fs_step (s\<lparr>fs_block_bitmap := bm\<rparr>) u" "fs_block_bitmap u = bm" "fs_blocks u = fs_blocks s" for u
  proof -
    have b: "blk_used u = blk_used (s\<lparr>fs_block_bitmap := bm\<rparr>)" "free_blocks u = free_blocks (s\<lparr>fs_block_bitmap := bm\<rparr>)" "blocks_ok u"
      using same_bitmap_blocks [OF u(1)] u(2) a(6) by simp_all
    have su: "fs_step s u" by (rule fs_step_trans [OF bitmap_fs_step [OF io] u(1)])
    note f = fs_step_fields [OF su]
    obtain t where t: "FilePart_SyncBlockBitmap lba u = Some t" "io_step u t" "\<forall>l. inodes_lba u \<le> l \<longrightarrow> fs_blocks t l = fs_blocks u l"
      using SyncBlockBitmap_ok [OF b(3), of lba] blk_used_cap [OF b(3), of "unat lba"] a(3,7) b(1) f by auto
    have st: "fs_step u t" "fs_block_bitmap t = fs_block_bitmap u" "fs_nodes t = fs_nodes u"
      using io_fs_step [OF t(2)] io_step_fields [OF t(2)] by simp_all
    note c = same_bitmap_blocks [OF st(1,2)]
    have "new_block lba s t"
      using fs_step_trans [OF su st(1)] c(5) [OF b(3)] c(1,2) b(1,2) a(7,8) t(3) u(3) f by (simp add: new_block_def)
    then show ?thesis using t(1) st(3) by blast
  qed
  then show thesis using that [OF a(1-5)] by blast
qed

lemma allocated_Nil:
  assumes "blocks_ok s" "fs_nodes s p = Some n" "length (in_direct n) = 12"
  shows "allocated p n [] lbas s lbas s"
proof -
  have "(fs_nodes s)(p \<mapsto> n\<lparr>in_direct := in_direct n\<rparr>) = fs_nodes s" using assms(2) by (simp add: fun_upd_idem)
  then show ?thesis
    using assms fs_step_refl blocks_okD [OF assms(1)] by (auto simp: allocated_def intro!: exI [of _ "in_direct n"])
qed

lemma allocated_Cons:
  assumes b: "new_block lba s u" "data_lba s \<le> unat lba" "unat lba < part_end s" "\<not> blk_used s (unat lba)"
    and n: "fs_nodes u = (fs_nodes s)(p \<mapsto> n1)" "length (in_direct n) = 12"
      "n1 = (if j < 12 then n\<lparr>in_direct := (in_direct n)[j := lba]\<rparr> else n)"
    and j: "j < length lbas" "j \<notin> set js" and t: "allocated p n1 js (lbas[j := lba]) u lbas' t"
  shows "allocated p n (j # js) lbas s lbas' t"
proof -
  have su: "fs_step s u" and used: "\<And>l. blk_used u l \<longleftrightarrow> blk_used s l \<or> l = unat lba" using b(1) by (auto simp: new_block_def)
  note f = fs_step_fields [OF su]
  obtain dir where dir: "length dir = 12" "fs_nodes t = (fs_nodes u)(p \<mapsto> n1\<lparr>in_direct := dir\<rparr>)"
    "\<forall>i<12. dir ! i = (if i \<in> set js then lbas' ! i else in_direct n1 ! i)"
    using t by (auto simp: allocated_def)
  have al: "lbas' ! j = lba" using t j by (simp add: allocated_def)
  have notj: "lbas' ! i \<noteq> lba" if "i \<in> set js" for i using t that used by (auto simp: allocated_def)
  show ?thesis
    unfolding allocated_def
  proof (intro conjI)
    show "fs_step s t" using fs_step_trans [OF su] t by (simp add: allocated_def)
    show "blocks_ok t" "length lbas' = length lbas" using t by (simp_all add: allocated_def)
    show "\<forall>i. i \<notin> set (j # js) \<longrightarrow> lbas' ! i = lbas ! i" using t by (simp add: allocated_def)
    show "inj_on (\<lambda>i. lbas' ! i) (set (j # js))" using t al notj j(2) by (auto simp: allocated_def inj_on_def)
    show "\<forall>i\<in>set (j # js). data_lba s \<le> unat (lbas' ! i) \<and> unat (lbas' ! i) < part_end s \<and> \<not> blk_used s (unat (lbas' ! i))"
      using t al b(2-4) used f by (auto simp: allocated_def)
    show "\<forall>l. blk_used t l \<longleftrightarrow> blk_used s l \<or> (\<exists>i\<in>set (j # js). l = unat (lbas' ! i))"
      using t al used by (auto simp: allocated_def)
    have "fs_nodes t = (fs_nodes s)(p \<mapsto> n\<lparr>in_direct := dir\<rparr>)" using dir(2) n(1,3) by simp
    moreover have "\<forall>i<12. dir ! i = (if i \<in> set (j # js) then lbas' ! i else in_direct n ! i)"
      using dir(3) al j(2) n(2,3) by auto
    ultimately show "\<exists>dir. length dir = 12 \<and> fs_nodes t = (fs_nodes s)(p \<mapsto> n\<lparr>in_direct := dir\<rparr>) \<and>
        (\<forall>i<12. dir ! i = (if i \<in> set (j # js) then lbas' ! i else in_direct n ! i))" using dir(1) by blast
    show "\<forall>l. inodes_lba s \<le> l \<longrightarrow> fs_blocks t l = fs_blocks s l" using t b(1) f by (simp add: allocated_def new_block_def)
    show "card (free_blocks t) + length (j # js) = card (free_blocks s)" using t b(1) by (simp add: allocated_def new_block_def)
  qed
qed

lemma alloc_mixed_ok:
  assumes "blocks_ok s" "fs_nodes s p = Some n" "length (in_direct n) = 12" "distinct is" "length is \<le> card (free_blocks s)"
    and "\<And>i. i \<in> set is \<Longrightarrow> i < length lbas \<and> lbas ! i = 0 \<and> (i < 12 \<longrightarrow> in_direct n ! i = 0)"
  shows "\<exists>lbas' t. alloc_mixed p is lbas s = Some (True, lbas', t) \<and> allocated p n is lbas s lbas' t"
  using assms
proof (induction "is" arbitrary: lbas n s)
  case Nil
  then show ?case using allocated_Nil by simp
next
  case (Cons j js)
  have "free_blocks s \<noteq> {}" using Cons.prems(5) by auto
  then obtain lba bm where a: "FilePart_AllocBlock s = Some (lba, s\<lparr>fs_block_bitmap := bm\<rparr>)" "lba \<noteq> of_nat npos"
    "data_lba s \<le> unat lba" "unat lba < part_end s" "\<not> blk_used s (unat lba)"
    "\<forall>u. fs_step (s\<lparr>fs_block_bitmap := bm\<rparr>) u \<and> fs_block_bitmap u = bm \<and> fs_blocks u = fs_blocks s \<longrightarrow>
       (\<exists>t. FilePart_SyncBlockBitmap lba u = Some t \<and> new_block lba s t \<and> fs_nodes t = fs_nodes u)"
    by (rule alloc_new_block [OF Cons.prems(1)])
  let ?s1 = "s\<lparr>fs_block_bitmap := bm\<rparr>"
  define n1 where "n1 = (if j < 12 then n\<lparr>in_direct := (in_direct n)[j := lba]\<rparr> else n)"
  define s2 where "s2 = (if j < 12 then set_node p n1 ?s1 else ?s1)"
  have "io_ok ?s1" using fs_step_fields(1) [OF bitmap_fs_step] blocks_okD [OF Cons.prems(1)] by simp
  then have "fs_step ?s1 s2" "fs_block_bitmap s2 = bm" "fs_blocks s2 = fs_blocks s"
    using set_node_fs_step [of ?s1 p n1] fs_step_refl [of ?s1] by (simp_all add: s2_def fs_blocks_def set_node_def)
  then obtain s3 where s3: "FilePart_SyncBlockBitmap lba s2 = Some s3" "new_block lba s s3" "fs_nodes s3 = fs_nodes s2"
    using a(6) by blast
  have nodes: "fs_nodes s3 = (fs_nodes s)(p \<mapsto> n1)"
    using s3(3) Cons.prems(2) by (auto simp: s2_def n1_def fun_upd_idem)
  have j: "j < length lbas" "lbas ! j = 0" "j < 12 \<longrightarrow> in_direct n ! j = 0" "j \<notin> set js" using Cons.prems(4,6) by auto
  have "\<exists>lbas' t. alloc_mixed p js (lbas[j := lba]) s3 = Some (True, lbas', t) \<and> allocated p n1 js (lbas[j := lba]) s3 lbas' t"
  proof (rule Cons.IH)
    show "blocks_ok s3" "length js \<le> card (free_blocks s3)" using s3(2) Cons.prems(5) by (simp_all add: new_block_def)
    fix i assume i: "i \<in> set js"
    then have "i \<noteq> j" using j(4) by auto
    then show "i < length (lbas[j := lba]) \<and> lbas[j := lba] ! i = 0 \<and> (i < 12 \<longrightarrow> in_direct n1 ! i = 0)"
      using Cons.prems(6) [of i] i by (simp add: n1_def)
  qed (use nodes Cons.prems(3,4) in \<open>simp_all add: n1_def\<close>)
  then obtain lbas' t where t: "alloc_mixed p js (lbas[j := lba]) s3 = Some (True, lbas', t)"
    "allocated p n1 js (lbas[j := lba]) s3 lbas' t" by blast
  have "(if j < direct_block_count then do { inode \<leftarrow> fs_nodes ?s1 p; lba' \<leftarrow> IdxNode_GetDirectLba j inode;
      Assert (lba' = 0); inode \<leftarrow> IdxNode_SetDirectLba j lba inode; Some (set_node p inode ?s1) } else Some ?s1) = Some s2"
    using Cons.prems(2,3) j by (simp add: IdxNode_GetDirectLba_def IdxNode_SetDirectLba_def inode_consts s2_def n1_def)
  then have "alloc_mixed p (j # js) lbas s = Some (True, lbas', t)" using a(1,2) j s3(1) t(1) by simp
  then show ?case using allocated_Cons [OF s3(2) a(3-5) nodes Cons.prems(3) n1_def j(1,4) t(2)] by blast
qed

lemma alloc_direct_mixed:
  assumes "distinct is" "\<And>i. i \<in> set is \<Longrightarrow> i < 12 \<and> lbas ! i = 0"
  shows "alloc_direct p is lbas s = alloc_mixed p is lbas s"
  using assms
proof (induction "is" arbitrary: lbas s)
  case (Cons j js)
  have "lbas[j := x] ! i = 0" if "i \<in> set js" for i x using Cons.prems that by (cases "i = j") auto
  then have "alloc_direct p js (lbas[j := x]) t = alloc_mixed p js (lbas[j := x]) t" for x t
    using Cons.prems by (intro Cons.IH) auto
  then show ?case using Cons.prems by (auto simp: inode_consts Let_def split: Option.bind_splits intro!: Option.bind_cong)
qed simp

section \<open>Files that grow\<close>

lemma node_lbas_size [simp]: "node_lbas s (n\<lparr>in_size := z\<rparr>) = node_lbas s n"
  by (simp add: node_lbas_def)

lemma sect_count_mod: "sect_count n = n div sector_size + (if n mod sector_size = 0 then 0 else 1)"
proof -
  define q r where "q = n div 512" and "r = n mod (512 :: nat)"
  have n: "n = q * 512 + r" "r < 512" by (simp_all add: q_def r_def)
  have "(n + 511) div 512 = q + (r + 511) div 512" unfolding n(1) by (simp only: add.assoc div_mult_self3 flip: add.commute)
  moreover have "(r + 511) div 512 = (if r = 0 then 0 else 1)" using n(2) by (auto intro: div_nat_eqI)
  ultimately show ?thesis unfolding sect_count_def sector_size_def q_def [symmetric] r_def [symmetric] by simp
qed

lemma file_ok_inj:
  assumes "file_ok s n"
  shows "inj_on (\<lambda>i. node_lbas s n ! i) {..<sect_count (unat (in_size n))}"
    "12 < sect_count (unat (in_size n)) \<Longrightarrow> i < sect_count (unat (in_size n)) \<Longrightarrow> node_lbas s n ! i \<noteq> in_indirect n"
proof -
  note f = file_okD [OF assms]
  let ?k = "sect_count (unat (in_size n))"
  have d: "distinct (owned s n)" using assms by (simp add: file_ok_def)
  then have "distinct (take ?k (node_lbas s n))" by (simp add: owned_def)
  then show "inj_on (\<lambda>i. node_lbas s n ! i) {..<?k}"
    using f(4,5) by (auto simp: distinct_conv_nth inj_on_def)
  assume k: "12 < ?k" "i < ?k"
  then have "node_lbas s n ! i \<in> set (take ?k (node_lbas s n))" using f(4,5) by (auto simp: in_set_conv_nth)
  then show "node_lbas s n ! i \<noteq> in_indirect n" using d k by (auto simp: owned_def inode_consts)
qed

lemma file_okI:
  assumes "length (in_direct n) = 12" "in_idx n < max_file_count_per_part" "unat (in_size n) \<le> 71680"
    and k: "k = sect_count (unat (in_size n))" "k \<le> 140"
    and "\<And>i. i < k \<Longrightarrow> data_blk s (node_lbas s n ! i)" "\<And>i. k \<le> i \<Longrightarrow> i < 140 \<Longrightarrow> node_lbas s n ! i = 0"
    and "inj_on (\<lambda>i. node_lbas s n ! i) {..<k}" "k \<le> 12 \<Longrightarrow> in_indirect n = 0"
    and "12 < k \<Longrightarrow> data_blk s (in_indirect n)" "\<And>i. 12 < k \<Longrightarrow> i < k \<Longrightarrow> node_lbas s n ! i \<noteq> in_indirect n"
  shows "file_ok s n"
proof -
  have len: "length (node_lbas s n) = 140" using assms(1) by (intro length_node_lbas) (simp add: inode_consts)
  have tk: "set (take k (node_lbas s n)) = (\<lambda>i. node_lbas s n ! i) ` {..<k}" using len k(2) nth_image [of k "node_lbas s n"]
    by (simp add: lessThan_atLeast0)
  have "distinct (take k (node_lbas s n))" using assms(8) len k(2) by (auto simp: distinct_conv_nth inj_on_def)
  moreover have "\<forall>lba\<in>set (drop k (node_lbas s n)). lba = 0"
  proof
    fix b assume "b \<in> set (drop k (node_lbas s n))"
    then obtain j where "j < 140 - k" "b = node_lbas s n ! (k + j)" using len k(2) by (auto simp: in_set_conv_nth)
    then show "b = 0" using assms(7) [of "k + j"] by simp
  qed
  moreover have "in_indirect n \<notin> set (take k (node_lbas s n))" if "12 < k"
    unfolding tk using assms(11) [OF that] by force
  ultimately show ?thesis
    unfolding file_ok_def owned_def k(1) [symmetric]
    using assms(1-3,6,9,10) tk by (auto simp: inode_consts sector_size_def)
qed

text \<open>The blocks of a file after new ones have been allocated behind its last sector.\<close>

lemma grown_file_ok:
  assumes ok: "file_ok s n" and c: "c = sect_count (unat (in_size n))" and d: "d = sect_count (unat (in_size n'))" "c \<le> d"
    and n': "length (in_direct n') = 12" "in_idx n' = in_idx n" "unat (in_size n') \<le> 71680"
    and A: "\<And>i. i < 140 \<Longrightarrow> node_lbas t n' ! i = (if c \<le> i \<and> i < d then new i else node_lbas s n ! i)"
    and new: "\<And>i. c \<le> i \<Longrightarrow> i < d \<Longrightarrow> data_blk t (new i) \<and> \<not> blk_used s (unat (new i))" "inj_on new {c..<d}"
    and mono: "\<And>b. data_blk s b \<Longrightarrow> data_blk t b"
    and tab: "d \<le> 12 \<Longrightarrow> in_indirect n' = 0" "12 < d \<Longrightarrow> data_blk t (in_indirect n')"
      "\<And>i. 12 < d \<Longrightarrow> c \<le> i \<Longrightarrow> i < d \<Longrightarrow> new i \<noteq> in_indirect n'"
      "12 < d \<Longrightarrow> in_indirect n' = in_indirect n \<and> 12 < c \<or> \<not> blk_used s (unat (in_indirect n'))"
  shows "file_ok t n'" "\<And>b. b \<in> set (owned t n') \<Longrightarrow> b \<in> set (owned s n) \<or> \<not> blk_used s (unat b)"
proof -
  note f = file_okD [OF ok] and j = file_ok_inj [OF ok]
  have dk: "d \<le> 140"
  proof -
    have "d \<le> (71680 + 511) div 512" unfolding d(1) sect_count_def using n'(3) by (intro div_le_mono) simp
    then show ?thesis by simp
  qed
  have old: "data_blk s (node_lbas s n ! i)" "blk_used s (unat (node_lbas s n ! i))" if "i < c" for i
    using f(6) [of i] that c by (auto simp: data_blk_def)
  show "file_ok t n'"
  proof (rule file_okI [OF n'(1) _ n'(3) d(1) dk])
    show "in_idx n' < max_file_count_per_part" using f(2) n'(2) by simp
    show "data_blk t (node_lbas t n' ! i)" if "i < d" for i
      using A [of i] new(1) [of i] mono old(1) that dk by (cases "c \<le> i") auto
    show "node_lbas t n' ! i = 0" if "d \<le> i" "i < 140" for i using A [of i] f(7) [of i] that c d(2) by simp
    show "inj_on (\<lambda>i. node_lbas t n' ! i) {..<d}"
    proof (rule inj_onI)
      fix i k assume ik: "i \<in> {..<d}" "k \<in> {..<d}" "node_lbas t n' ! i = node_lbas t n' ! k"
      have fresh: "node_lbas s n ! a \<noteq> new b" if "a < c" "c \<le> b" "b < d" for a b
        using old(2) [OF that(1)] new(1) [OF that(2,3)] by auto
      show "i = k"
      proof (cases "c \<le> i"; cases "c \<le> k")
        assume "c \<le> i" "c \<le> k"
        then show ?thesis using ik A [of i] A [of k] dk inj_onD [OF new(2)] by simp
      next
        assume "\<not> c \<le> i" "\<not> c \<le> k"
        then show ?thesis using ik A [of i] A [of k] dk inj_onD [OF j(1)] c by simp
      qed (use ik A [of i] A [of k] dk fresh [of i k] fresh [of k i] in auto)
    qed
    show "node_lbas t n' ! i \<noteq> in_indirect n'" if "12 < d" "i < d" for i
      using A [of i] tab(3) [of i] tab(4) that dk old(2) [of i] j(2) [of i] c by (cases "c \<le> i") auto
  qed (use tab in simp_all)
  show "b \<in> set (owned s n) \<or> \<not> blk_used s (unat b)" if b: "b \<in> set (owned t n')" for b
  proof -
    have len: "length (node_lbas t n') = 140" using n'(1) by (intro length_node_lbas) (simp add: inode_consts)
    have "b \<in> set (take d (node_lbas t n')) \<or> 12 < d \<and> b = in_indirect n'"
      using b by (auto simp: owned_def d(1) inode_consts split: if_splits)
    then show ?thesis
    proof
      assume "b \<in> set (take d (node_lbas t n'))"
      then obtain i where i: "i < d" "b = node_lbas t n' ! i" using len dk by (auto simp: in_set_conv_nth)
      then show ?thesis
      proof (cases "c \<le> i")
        case False
        then have "b \<in> (\<lambda>i. node_lbas s n ! i) ` {0..<c}" using A [of i] i dk by auto
        then have "b \<in> set (take c (node_lbas s n))" using f(4,5) nth_image [of c "node_lbas s n"] by (simp add: c)
        then show ?thesis by (simp add: owned_def c)
      qed (use A [of i] i dk new(1) in auto)
    qed (use tab(4) in \<open>auto simp: owned_def c inode_consts\<close>)
  qed
qed

text \<open>
  What collecting the blocks for a new size promises: the addresses of the sectors to write, and a file that is well-formed with
  the new size.
\<close>

definition grown :: "nat \<Rightarrow> idx_node \<Rightarrow> u32 \<Rightarrow> file_sys \<Rightarrow> u32 list \<Rightarrow> file_sys \<Rightarrow> idx_node \<Rightarrow> bool" where
  "grown p n z s lbas t n' \<longleftrightarrow> fs_step s t \<and> blocks_ok t \<and> length lbas = 140 \<and> fs_nodes t = (fs_nodes s)(p \<mapsto> n') \<and>
     n' = n\<lparr>in_direct := in_direct n', in_indirect := in_indirect n'\<rparr> \<and> file_ok t (n'\<lparr>in_size := z\<rparr>) \<and>
     (\<forall>i. unat (in_size n) div sector_size \<le> i \<and> i < sect_count (unat z) \<longrightarrow> lbas ! i = node_lbas t n' ! i) \<and>
     (\<forall>i < sect_count (unat (in_size n)). node_lbas t n' ! i = node_lbas s n ! i) \<and>
     (\<forall>b\<in>set (owned t (n'\<lparr>in_size := z\<rparr>)). b \<in> set (owned s n) \<or> \<not> blk_used s (unat b)) \<and>
     (\<forall>l. inodes_lba s \<le> l \<and> l \<noteq> unat (in_indirect n') \<longrightarrow> fs_blocks t l = fs_blocks s l) \<and>
     (\<forall>l. blk_used s l \<longrightarrow> blk_used t l)"

lemma load_last_ok:
  assumes "part_ok s" "file_ok s n" "sect_count (unat (in_size n)) \<le> 12" "unat (in_size n) mod sector_size \<noteq> 0"
  shows "load_last n lbas = Some (lbas[unat (in_size n) div sector_size := node_lbas s n ! (unat (in_size n) div sector_size)])"
proof -
  note f = file_okD [OF assms(2)]
  let ?i = "unat (in_size n) div sector_size"
  have "sect_count (unat (in_size n)) = ?i + 1" using assms(4) by (simp add: sect_count_mod)
  then have i: "?i < sect_count (unat (in_size n))" "?i < 12" using assms(3) by simp_all
  then show ?thesis
    using data_blk_bounds(1) [OF assms(1) f(6) [OF i(1)]] node_lbas_nth(1) [OF f(1) i(2), of s]
    by (simp add: load_last_def IdxNode_GetDirectLba_def inode_consts)
qed

lemma data_blk_mono:
  assumes "fs_step s t" "\<And>l. blk_used s l \<Longrightarrow> blk_used t l" "data_blk s b"
  shows "data_blk t b"
  using assms(2,3) fs_step_fields [OF assms(1)] by (simp add: data_blk_def)

text \<open>Files that stay within the direct blocks.\<close>

lemma grown_direct:
  assumes ok: "blocks_ok s" "file_ok s n" "fs_nodes s p = Some n" and c: "c = sect_count (unat (in_size n))"
    and d: "d = sect_count (unat z)" "c \<le> d" "d \<le> 12"
    and lbas: "length lbas = 140" "\<And>i. unat (in_size n) div sector_size \<le> i \<Longrightarrow> i < c \<Longrightarrow> lbas ! i = node_lbas s n ! i"
    and al: "allocated p n [c..<d] lbas s lbas' t"
  shows "\<exists>n'. grown p n z s lbas' t n'"
proof -
  note f = file_okD [OF ok(2)]
  obtain dir where dir: "length dir = 12" "fs_nodes t = (fs_nodes s)(p \<mapsto> n\<lparr>in_direct := dir\<rparr>)"
    "\<forall>i<12. dir ! i = (if i \<in> set [c..<d] then lbas' ! i else in_direct n ! i)"
    using al by (auto simp: allocated_def)
  let ?n = "n\<lparr>in_direct := dir\<rparr>"
  have st: "fs_step s t" using al by (simp add: allocated_def)
  have ind: "in_indirect n = 0" using f(9) c d by simp
  have A: "node_lbas t ?n ! i = (if c \<le> i \<and> i < d then lbas' ! i else node_lbas s n ! i)" if "i < 140" for i
    using that dir(1,3) d ind f(1) by (auto simp: node_lbas_def nth_append inode_consts)
  have mono: "data_blk t b" if "data_blk s b" for b
    by (rule data_blk_mono [OF st _ that]) (use al in \<open>auto simp: allocated_def\<close>)
  have new: "data_blk t (lbas' ! i) \<and> \<not> blk_used s (unat (lbas' ! i))" if "c \<le> i" "i < d" for i
    using al that fs_step_fields [OF st] by (auto simp: allocated_def data_blk_def)
  have "unat z \<le> 12 * sector_size" using sect_count_bounds(1) [of "unat z"] d(1,3) by (simp add: sector_size_def)
  then have z: "unat z \<le> 71680" by (simp add: sector_size_def)
  have inj: "inj_on (\<lambda>i. lbas' ! i) {c..<d}" using al by (simp add: allocated_def)
  have len: "length (in_direct (?n\<lparr>in_size := z\<rparr>)) = 12" using dir(1) by simp
  have "grown p n z s lbas' t ?n"
    unfolding grown_def
  proof (intro conjI)
    show "file_ok t (?n\<lparr>in_size := z\<rparr>)"
      by (rule grown_file_ok(1) [OF ok(2) c _ d(2) len _ _ _ new inj mono]) (use d A z ind in simp_all)
    show "\<forall>b\<in>set (owned t (?n\<lparr>in_size := z\<rparr>)). b \<in> set (owned s n) \<or> \<not> blk_used s (unat b)"
      by (intro ballI, rule grown_file_ok(2) [OF ok(2) c _ d(2) len _ _ _ new inj mono]) (use d A z ind in simp_all)
    show "\<forall>i. unat (in_size n) div sector_size \<le> i \<and> i < sect_count (unat z) \<longrightarrow> lbas' ! i = node_lbas t ?n ! i"
      using A d al lbas(2) by (auto simp: allocated_def)
    show "\<forall>i < sect_count (unat (in_size n)). node_lbas t ?n ! i = node_lbas s n ! i"
      using A c f(4) by auto
  qed (use al dir lbas(1) in \<open>auto simp: allocated_def\<close>)
  then show ?thesis by blast
qed

text \<open>Files with a table of addresses: the table at \<open>tab\<close>, new or old, is saved with the new addresses.\<close>

lemma grown_indirect:
  assumes ok: "part_ok s" "file_ok s n" and c: "c = sect_count (unat (in_size n))"
    and d: "d = sect_count (unat z)" "c \<le> d" "12 < d" "unat z \<le> 71680"
    and u: "fs_step s u" "fs_nodes u = (fs_nodes s)(p \<mapsto> n\<lparr>in_indirect := tab\<rparr>)"
      "\<And>l. blk_used u l \<longleftrightarrow> blk_used s l \<or> l = unat tab" "\<And>l. inodes_lba s \<le> l \<Longrightarrow> fs_blocks u l = fs_blocks s l"
    and tab: "data_blk u tab" "tab = in_indirect n \<and> 12 < c \<or> \<not> blk_used s (unat tab)"
    and lbas: "length lbas = 140" "\<And>i. unat (in_size n) div sector_size \<le> i \<Longrightarrow> i < c \<Longrightarrow> lbas ! i = node_lbas s n ! i"
      "\<And>i. 12 \<le> i \<Longrightarrow> i < 140 \<Longrightarrow> lbas ! i = node_lbas s n ! i"
    and al: "allocated p (n\<lparr>in_indirect := tab\<rparr>) [c..<d] lbas u lbas' v"
  shows "\<exists>t n'. save_indirect tab lbas' v = Some t \<and> grown p n z s lbas' t n'"
proof -
  note f = file_okD [OF ok(2)]
  obtain dir where dir: "length dir = 12" "fs_nodes v = (fs_nodes u)(p \<mapsto> n\<lparr>in_indirect := tab, in_direct := dir\<rparr>)"
    "\<forall>i<12. dir ! i = (if i \<in> set [c..<d] then lbas' ! i else in_direct n ! i)"
    using al by (auto simp: allocated_def)
  let ?n = "n\<lparr>in_indirect := tab, in_direct := dir\<rparr>"
  have uv: "fs_step u v" "blocks_ok v" and len': "length lbas' = 140" using al lbas(1) by (simp_all add: allocated_def)
  have pu: "part_ok u" by (rule fs_step_part_ok [OF u(1) ok(1)])
  note tb = data_blk_bounds [OF pu tab(1)]
  let ?w = "write_words (drop 12 lbas')"
  have lw: "length ?w = sector_size" using len' by (simp add: sector_size_def)
  obtain t where t: "WriteSectors tab ?w 1 v = Some t" "io_step v t" "fs_blocks t = put_run (fs_blocks v) (unat tab) 1 ?w"
    using write_ok [OF fs_step_fields(1) [OF uv(1)], of 1 tab ?w] tb(2) lw by auto
  have bt: "fs_blocks t l = (if l = unat tab then ?w else fs_blocks v l)" for l
    using t(3) lw by (auto simp: put_run_def chunk_def)
  have vt: "fs_step v t" "fs_block_bitmap t = fs_block_bitmap v" "fs_nodes t = fs_nodes v"
    using io_fs_step [OF t(2)] io_step_fields [OF t(2)] by simp_all
  note bv = same_bitmap_blocks [OF vt(1,2)]
  have st: "fs_step s t" by (rule fs_step_trans [OF u(1) fs_step_trans [OF uv(1) vt(1)]])
  note fu = fs_step_fields [OF u(1)] and ft = fs_step_fields [OF st]
  have used: "blk_used t l \<longleftrightarrow> blk_used s l \<or> l = unat tab \<or> (\<exists>i\<in>set [c..<d]. l = unat (lbas' ! i))" for l
    using al u(3) bv(1) by (auto simp: allocated_def)
  have A: "node_lbas t ?n ! i = (if c \<le> i \<and> i < d then lbas' ! i else node_lbas s n ! i)" if i: "i < 140" for i
  proof (cases "i < 12")
    case True
    then show ?thesis using dir(1,3) node_lbas_nth(1) [OF f(1) True] by (simp add: node_lbas_def nth_append)
  next
    case False
    have "node_lbas t ?n ! i = lbas' ! i"
      using False i tb(1) dir(1) len' bt by (simp add: node_lbas_def nth_append)
    then show ?thesis using al lbas(3) [of i] i False by (auto simp: allocated_def)
  qed
  have mono: "data_blk t b" if "data_blk s b" for b
    by (rule data_blk_mono [OF st _ that]) (use used in auto)
  have new: "data_blk t (lbas' ! i) \<and> \<not> blk_used s (unat (lbas' ! i))" if "c \<le> i" "i < d" for i
    using al that used u(3) fu ft by (auto simp: allocated_def data_blk_def)
  have ntab: "lbas' ! i \<noteq> tab" if "c \<le> i" "i < d" for i
    using al that u(3) by (auto simp: allocated_def)
  have dtab: "data_blk t tab" using tab(1) used fu ft by (auto simp: data_blk_def)
  have inj: "inj_on (\<lambda>i. lbas' ! i) {c..<d}" using al by (simp add: allocated_def)
  have len: "length (in_direct (?n\<lparr>in_size := z\<rparr>)) = 12" using dir(1) by simp
  have "grown p n z s lbas' t ?n"
    unfolding grown_def
  proof (intro conjI)
    show "file_ok t (?n\<lparr>in_size := z\<rparr>)"
      by (rule grown_file_ok(1) [OF ok(2) c _ d(2) len _ _ _ new inj mono]) (use d A tab(2) dtab ntab in simp_all)
    show "\<forall>b\<in>set (owned t (?n\<lparr>in_size := z\<rparr>)). b \<in> set (owned s n) \<or> \<not> blk_used s (unat b)"
      by (intro ballI, rule grown_file_ok(2) [OF ok(2) c _ d(2) len _ _ _ new inj mono]) (use d A tab(2) dtab ntab in simp_all)
    have "d \<le> 140" using div_le_mono [of "unat z + 511" "71680 + 511" 512] d(1,4) by (simp add: sect_count_def)
    then show "\<forall>i. unat (in_size n) div sector_size \<le> i \<and> i < sect_count (unat z) \<longrightarrow> lbas' ! i = node_lbas t ?n ! i"
      using A d al lbas(2) by (auto simp: allocated_def)
    show "\<forall>i < sect_count (unat (in_size n)). node_lbas t ?n ! i = node_lbas s n ! i" using A c f(4) by auto
    show "\<forall>l. inodes_lba s \<le> l \<and> l \<noteq> unat (in_indirect ?n) \<longrightarrow> fs_blocks t l = fs_blocks s l"
      using bt al u(4) fu by (auto simp: allocated_def)
    show "blocks_ok t" by (rule bv(5) [OF uv(2)])
    show "fs_nodes t = (fs_nodes s)(p \<mapsto> ?n)" using vt(3) dir(2) u(2) by simp
  qed (use st used len' in auto)
  moreover have "save_indirect tab lbas' v = Some t" using t(1) by (simp add: save_indirect_def inode_consts)
  ultimately show ?thesis by blast
qed

text \<open>Files that need no new block.\<close>

lemma grown_same:
  assumes ok: "blocks_ok s" "file_ok s n" "fs_nodes s p = Some n" and z: "sect_count (unat z) = sect_count (unat (in_size n))" "unat z \<le> 71680"
    and lbas: "length lbas = 140"
      "\<And>i. unat (in_size n) div sector_size \<le> i \<Longrightarrow> i < sect_count (unat z) \<Longrightarrow> lbas ! i = node_lbas s n ! i"
    and t: "io_step s t" "fs_blocks t = fs_blocks s"
  shows "grown p n z s lbas t n"
proof -
  note f = file_okD [OF ok(2)]
  have st: "fs_step s t" "fs_block_bitmap t = fs_block_bitmap s" "fs_nodes t = fs_nodes s"
    using io_fs_step [OF t(1)] io_step_fields [OF t(1)] by simp_all
  note b = same_bitmap_blocks [OF st(1,2)]
  have A: "node_lbas t n = node_lbas s n" by (simp add: node_lbas_def t(2))
  have ow: "owned t (n\<lparr>in_size := z\<rparr>) = owned s n" using z(1) A by (simp add: owned_def)
  have "file_ok t (n\<lparr>in_size := z\<rparr>)" using ok(2) z ow A b(4) by (simp add: file_ok_def inode_consts sector_size_def)
  then show ?thesis
    using st b ok(1,3) lbas A t(2) ow by (simp add: grown_def fun_upd_idem)
qed

text \<open>The number of blocks that growing from \<open>c\<close> to \<open>d\<close> sectors takes, the table included.\<close>

definition blocks_needed :: "nat \<Rightarrow> nat \<Rightarrow> nat" where
  "blocks_needed c d = d - c + (if c \<le> direct_block_count \<and> direct_block_count < d then 1 else 0)"

text \<open>The sectors \<open>c\<close> of the file before and \<open>d\<close> after it grows to the size \<open>z\<close>.\<close>

lemma growth_sectors:
  assumes "unat (in_size n) < unat z" "unat z \<le> 71680" "c = sect_count (unat (in_size n))" "d = sect_count (unat z)"
  shows "c \<le> d" "d \<le> 140" "c = unat (in_size n) div sector_size + (if unat (in_size n) mod sector_size = 0 then 0 else 1)"
    "unat (in_size n) div sector_size < d"
proof -
  let ?S = "unat (in_size n)"
  show "c \<le> d" unfolding assms(3,4) sect_count_def using assms(1) by (intro div_le_mono) simp
  show "d \<le> 140" using div_le_mono [of "unat z + 511" "71680 + 511" 512] assms(2,4) by (simp add: sect_count_def)
  show "c = ?S div sector_size + (if ?S mod sector_size = 0 then 0 else 1)" using assms(3) by (simp add: sect_count_mod)
  have "?S div sector_size * sector_size \<le> ?S" by (rule div_times_less_eq_dividend)
  then have "?S div sector_size * sector_size < unat z" using assms(1) by (rule le_less_trans)
  then show "?S div sector_size < d" unfolding assms(4) sect_count_less [symmetric] .
qed

text \<open>The addresses that the loop starts from when the file has direct blocks only.\<close>

definition first_lbas :: "idx_node \<Rightarrow> u32 list option" where
  "first_lbas n = (if unat (in_size n) mod sector_size \<noteq> 0 then load_last n (replicate 140 0) else Some (replicate 140 0))"

lemma first_lbas_ok:
  assumes "part_ok s" "file_ok s n" "c = sect_count (unat (in_size n))" "c \<le> 12"
  obtains lbas where "first_lbas n = Some lbas" "length lbas = 140"
    "\<forall>i. unat (in_size n) div sector_size \<le> i \<and> i < c \<longrightarrow> lbas ! i = node_lbas s n ! i"
    "\<forall>i. c \<le> i \<and> i < 140 \<longrightarrow> lbas ! i = 0" "\<And>i. c \<le> i \<Longrightarrow> i < 12 \<Longrightarrow> in_direct n ! i = 0"
proof -
  note f = file_okD [OF assms(2)]
  have ci: "c = unat (in_size n) div sector_size + (if unat (in_size n) mod sector_size = 0 then 0 else 1)"
    using assms(3) by (simp add: sect_count_mod)
  have "in_direct n ! i = 0" if "c \<le> i" "i < 12" for i
    using f(7) [of i] node_lbas_nth(1) [OF f(1) that(2)] that assms(3) by simp
  moreover have "\<exists>lbas. first_lbas n = Some lbas \<and> length lbas = 140 \<and>
      (\<forall>i. unat (in_size n) div sector_size \<le> i \<and> i < c \<longrightarrow> lbas ! i = node_lbas s n ! i) \<and>
      (\<forall>i. c \<le> i \<and> i < 140 \<longrightarrow> lbas ! i = 0)"
    using load_last_ok [OF assms(1,2)] assms(3,4) ci f(4) by (auto simp: first_lbas_def nth_list_update less_Suc_eq_le)
  ultimately show thesis using that by blast
qed

lemma WriteFile_lbas_direct:
  assumes ok: "blocks_ok s" "file_ok s n" "fs_nodes s p = Some n"
    and z: "unat (in_size n) < unat z" "unat z \<le> 71680"
    and cd: "c = sect_count (unat (in_size n))" "d = sect_count (unat z)"
    and free: "blocks_needed c d \<le> card (free_blocks s)"
    and direct: "c < d" "d \<le> 12"
  shows "\<exists>lbas t n'. WriteFile_lbas p c d s = Some (Some lbas, t) \<and> grown p n z s lbas t n'"
proof -
  note f = file_okD [OF ok(2)]
  note gs = growth_sectors [OF z cd]
  have pk: "part_ok s" and io: "io_ok s" using blocks_okD [OF ok(1)] by simp_all
  let ?S = "unat (in_size n)" and ?z = "replicate 140 0 :: u32 list"
  let ?i = "?S div sector_size"
  have c12: "c \<le> 12" using direct by simp
  obtain lbas where l: "first_lbas n = Some lbas" "length lbas = 140" "\<forall>i. ?i \<le> i \<and> i < c \<longrightarrow> lbas ! i = node_lbas s n ! i"
    "\<forall>i. c \<le> i \<and> i < 140 \<longrightarrow> lbas ! i = 0" and dir0: "\<And>i. c \<le> i \<Longrightarrow> i < 12 \<Longrightarrow> in_direct n ! i = 0"
    using first_lbas_ok [OF pk ok(2) cd(1)] c12 by blast
  have "\<exists>lbas' t. alloc_mixed p [c..<d] lbas s = Some (True, lbas', t) \<and> allocated p n [c..<d] lbas s lbas' t"
    by (rule alloc_mixed_ok [OF ok(1,3)]) (use f(1) free l direct dir0 in \<open>auto simp: inode_consts blocks_needed_def\<close>)
  then obtain lbas' t where a: "alloc_direct p [c..<d] lbas s = Some (True, lbas', t)" "allocated p n [c..<d] lbas s lbas' t"
    using alloc_direct_mixed [of "[c..<d]" lbas] l(4) direct by auto
  have "\<exists>n'. grown p n z s lbas' t n'"
    by (rule grown_direct [OF ok cd gs(1) direct(2) l(2) _ a(2)]) (use l(3) in simp)
  moreover have "WriteFile_lbas p c d s = Some (Some lbas', t)"
    using direct ok(3) l(1) a(1) by (simp add: WriteFile_lbas_def inode_consts Let_def first_lbas_def)
  ultimately show ?thesis by blast
qed

lemma WriteFile_lbas_mixed:
  assumes ok: "blocks_ok s" "file_ok s n" "fs_nodes s p = Some n"
    and z: "unat (in_size n) < unat z" "unat z \<le> 71680"
    and cd: "c = sect_count (unat (in_size n))" "d = sect_count (unat z)"
    and free: "blocks_needed c d \<le> card (free_blocks s)"
    and mixed: "c \<le> 12" "12 < d"
  shows "\<exists>lbas t n'. WriteFile_lbas p c d s = Some (Some lbas, t) \<and> grown p n z s lbas t n'"
proof -
  note f = file_okD [OF ok(2)]
  note gs = growth_sectors [OF z cd]
  have pk: "part_ok s" and io: "io_ok s" using blocks_okD [OF ok(1)] by simp_all
  let ?S = "unat (in_size n)" and ?z = "replicate 140 0 :: u32 list"
  let ?i = "?S div sector_size"
  obtain lbas where l: "first_lbas n = Some lbas" "length lbas = 140" "\<forall>i. ?i \<le> i \<and> i < c \<longrightarrow> lbas ! i = node_lbas s n ! i"
    "\<forall>i. c \<le> i \<and> i < 140 \<longrightarrow> lbas ! i = 0" and dir0: "\<And>i. c \<le> i \<Longrightarrow> i < 12 \<Longrightarrow> in_direct n ! i = 0"
    using first_lbas_ok [OF pk ok(2) cd(1)] mixed(1) by blast
  have need: "d - c + 1 \<le> card (free_blocks s)" using free mixed by (simp add: blocks_needed_def inode_consts)
  then have "free_blocks s \<noteq> {}" by auto
  then obtain tab bm where a: "FilePart_AllocBlock s = Some (tab, s\<lparr>fs_block_bitmap := bm\<rparr>)" "tab \<noteq> of_nat npos"
    "data_lba s \<le> unat tab" "unat tab < part_end s" "\<not> blk_used s (unat tab)"
    "blocks_ok (s\<lparr>fs_block_bitmap := bm\<rparr>)"
    "\<And>l. blk_used (s\<lparr>fs_block_bitmap := bm\<rparr>) l \<longleftrightarrow> blk_used s l \<or> l = unat tab"
    "card (free_blocks (s\<lparr>fs_block_bitmap := bm\<rparr>)) + 1 = card (free_blocks s)"
    using AllocBlock_ok [OF ok(1)] by metis
  let ?s1 = "s\<lparr>fs_block_bitmap := bm\<rparr>" and ?n = "n\<lparr>in_indirect := tab\<rparr>"
  let ?u = "set_node p ?n ?s1"
  have u1: "fs_step ?s1 ?u" "fs_block_bitmap ?u = fs_block_bitmap ?s1"
    using set_node_fs_step blocks_okD [OF a(6)] by auto
  note bu = same_bitmap_blocks [OF u1]
  have su: "fs_step s ?u" by (rule fs_step_trans [OF bitmap_fs_step [OF io] u1(1)])
  have "\<exists>lbas' v. alloc_mixed p [c..<d] lbas ?u = Some (True, lbas', v) \<and> allocated p ?n [c..<d] lbas ?u lbas' v"
    by (rule alloc_mixed_ok [OF bu(5) [OF a(6)]])
      (use f(1) need a(8) bu(2) l mixed gs(2) dir0 in \<open>auto simp: inode_consts\<close>)
  then obtain lbas' v where v: "alloc_mixed p [c..<d] lbas ?u = Some (True, lbas', v)" "allocated p ?n [c..<d] lbas ?u lbas' v"
    by blast
  have "\<exists>t n'. save_indirect tab lbas' v = Some t \<and> grown p n z s lbas' t n'"
  proof (rule grown_indirect [OF pk ok(2) cd gs(1) mixed(2) z(2) su _ _ _ _ _ l(2) _ _ v(2)])
    show "data_blk ?u tab" using a(3,4,7) bu(1) fs_step_fields [OF su] by (simp add: data_blk_def)
    show "lbas ! i = node_lbas s n ! i" if "12 \<le> i" "i < 140" for i using f(7) [of i] l(4) that mixed cd(1) by simp
  qed (use a(5,7) bu(1) l(3) in simp_all)
  then obtain t n' where t: "save_indirect tab lbas' v = Some t" "grown p n z s lbas' t n'" by blast
  have "in_indirect n = 0" using f(9) cd(1) mixed by simp
  then have "WriteFile_lbas p c d s = Some (Some lbas', t)"
    using mixed ok(3) l(1) a(1,2) v(1) t(1)
    by (simp add: WriteFile_lbas_def inode_consts Let_def first_lbas_def IdxNode_GetIndirectTabLba_def IdxNode_SetIndirectTabLba_def)
  then show ?thesis using t(2) by blast
qed

lemma WriteFile_lbas_indirect:
  assumes ok: "blocks_ok s" "file_ok s n" "fs_nodes s p = Some n"
    and z: "unat (in_size n) < unat z" "unat z \<le> 71680"
    and cd: "c = sect_count (unat (in_size n))" "d = sect_count (unat z)"
    and free: "blocks_needed c d \<le> card (free_blocks s)"
    and indirect: "12 < c" "c < d"
  shows "\<exists>lbas t n'. WriteFile_lbas p c d s = Some (Some lbas, t) \<and> grown p n z s lbas t n'"
proof -
  note f = file_okD [OF ok(2)]
  note gs = growth_sectors [OF z cd]
  have pk: "part_ok s" and io: "io_ok s" using blocks_okD [OF ok(1)] by simp_all
  let ?S = "unat (in_size n)" and ?z = "replicate 140 0 :: u32 list"
  let ?i = "?S div sector_size"
  have tb: "data_blk s (in_indirect n)" using f(8) cd(1) indirect(1) by simp
  let ?l = "take 12 ?z @ read_words (fs_blocks s (unat (in_indirect n))) 0 128"
  obtain u where u: "load_indirect n ?z s = Some (?l, u)" "io_step s u" "fs_blocks u = fs_blocks s"
    using load_indirect_ok [OF io data_blk_bounds [OF pk tb], of ?z] by auto
  have su: "fs_step s u" "fs_block_bitmap u = fs_block_bitmap s" "fs_nodes u = fs_nodes s"
    using io_fs_step [OF u(2)] io_step_fields [OF u(2)] by simp_all
  note bu = same_bitmap_blocks [OF su(1,2)]
  have hi: "?l ! i = node_lbas s n ! i" if "12 \<le> i" "i < 140" for i
    using that node_lbas_nth(2) [OF f(1) that data_blk_bounds(1) [OF pk tb]] by (simp add: nth_append)
  have n: "n\<lparr>in_indirect := in_indirect n\<rparr> = n" by simp
  have "\<exists>lbas' v. alloc_mixed p [c..<d] ?l u = Some (True, lbas', v) \<and> allocated p n [c..<d] ?l u lbas' v"
  proof (rule alloc_mixed_ok [OF bu(5) [OF ok(1)]])
    fix i assume "i \<in> set [c..<d]"
    then show "i < length ?l \<and> ?l ! i = 0 \<and> (i < 12 \<longrightarrow> in_direct n ! i = 0)"
      using hi [of i] f(7) [of i] indirect gs(2) cd(1) by simp
  qed (use f(1) free bu(2) su(3) ok(3) in \<open>auto simp: inode_consts blocks_needed_def\<close>)
  then obtain lbas' v where v: "alloc_mixed p [c..<d] ?l u = Some (True, lbas', v)"
    "allocated p (n\<lparr>in_indirect := in_indirect n\<rparr>) [c..<d] ?l u lbas' v" unfolding n by blast
  have "\<exists>t n'. save_indirect (in_indirect n) lbas' v = Some t \<and> grown p n z s lbas' t n'"
  proof (rule grown_indirect [OF pk ok(2) cd gs(1) _ z(2) su(1) _ _ _ _ _ _ _ _ v(2)])
    show "?l ! i = node_lbas s n ! i" if "?i \<le> i" "i < c" for i
      using hi [of i] that indirect(1) gs(3) f(4) cd(1) by (simp split: if_splits)
    show "blk_used u l \<longleftrightarrow> blk_used s l \<or> l = unat (in_indirect n)" for l using tb bu(1) by (auto simp: data_blk_def)
  qed (use indirect su(3) u(3) bu(4) tb hi ok(3) in \<open>simp_all add: fun_upd_idem\<close>)
  then obtain t n' where t: "save_indirect (in_indirect n) lbas' v = Some t" "grown p n z s lbas' t n'" by blast
  have "WriteFile_lbas p c d s = Some (Some lbas', t)"
    using indirect ok(3) u(1) v(1) t(1)
    by (simp add: WriteFile_lbas_def inode_consts Let_def IdxNode_GetIndirectTabLba_def)
  then show ?thesis using t(2) by blast
qed

lemma WriteFile_lbas_same:
  assumes ok: "blocks_ok s" "file_ok s n" "fs_nodes s p = Some n"
    and z: "unat (in_size n) < unat z" "unat z \<le> 71680"
    and cd: "c = sect_count (unat (in_size n))" "d = sect_count (unat z)"
    and free: "blocks_needed c d \<le> card (free_blocks s)"
    and same: "c = d"
  shows "\<exists>lbas t n'. WriteFile_lbas p c d s = Some (Some lbas, t) \<and> grown p n z s lbas t n'"
proof -
  note f = file_okD [OF ok(2)]
  note gs = growth_sectors [OF z cd]
  have pk: "part_ok s" and io: "io_ok s" using blocks_okD [OF ok(1)] by simp_all
  let ?S = "unat (in_size n)" and ?z = "replicate 140 0 :: u32 list"
  let ?i = "?S div sector_size"
  have ic: "?S mod sector_size \<noteq> 0" "c = ?i + 1" using gs(4) same gs(3) by (auto split: if_splits)
  have grow: "grown p n z s lbas t n" if "length lbas = 140" "lbas ! ?i = node_lbas s n ! ?i" "io_step s t" "fs_blocks t = fs_blocks s"
    for lbas t
  proof (rule grown_same [OF ok _ z(2) that(1) _ that(3,4)])
    show "sect_count (unat z) = sect_count ?S" using same cd by simp
    fix i assume "?i \<le> i" "i < sect_count (unat z)"
    then have "i = ?i" using same cd ic(2) by simp
    then show "lbas ! i = node_lbas s n ! i" using that(2) by simp
  qed
  show ?thesis
  proof (cases "d \<le> 12")
    case True
    have ll: "load_last n ?z = Some (?z[?i := node_lbas s n ! ?i])"
      by (rule load_last_ok [OF pk ok(2) _ ic(1)]) (use True same cd in simp)
    have "WriteFile_lbas p c d s = Some (Some (?z[?i := node_lbas s n ! ?i]), s)"
      using same True ll ok(3) by (simp add: WriteFile_lbas_def inode_consts Let_def)
    moreover have "?i < 140" using gs(4) gs(2) by simp
    ultimately show ?thesis using grow [of "?z[?i := node_lbas s n ! ?i]" s] io_step_refl [OF io] by auto
  next
    case False
    then have tb: "data_blk s (in_indirect n)" using f(8) cd(1) same by simp
    let ?l = "take 12 ?z @ read_words (fs_blocks s (unat (in_indirect n))) 0 128"
    obtain u where u: "load_indirect n ?z s = Some (?l, u)" "io_step s u" "fs_blocks u = fs_blocks s"
      using load_indirect_ok [OF io data_blk_bounds [OF pk tb], of ?z] by auto
    have i: "12 \<le> ?i" "?i < 140" using False same ic(2) gs(2) by simp_all
    have "?l ! ?i = node_lbas s n ! ?i"
      using i node_lbas_nth(2) [OF f(1) i data_blk_bounds(1) [OF pk tb]] by (simp add: nth_append)
    then have "grown p n z s ?l u n" using grow [of ?l u] u by simp
    moreover have "WriteFile_lbas p c d s = Some (Some ?l, u)"
      using same False u(1) ok(3) by (simp add: WriteFile_lbas_def inode_consts Let_def)
    ultimately show ?thesis by blast
  qed
qed

lemma WriteFile_lbas_ok:
  assumes ok: "blocks_ok s" "file_ok s n" "fs_nodes s p = Some n"
    and z: "unat (in_size n) < unat z" "unat z \<le> 71680"
    and cd: "c = sect_count (unat (in_size n))" "d = sect_count (unat z)"
    and free: "blocks_needed c d \<le> card (free_blocks s)"
  shows "\<exists>lbas t n'. WriteFile_lbas p c d s = Some (Some lbas, t) \<and> grown p n z s lbas t n'"
proof -
  have "c \<le> d" by (rule growth_sectors(1) [OF z cd])
  then consider "c = d" | "c < d" "d \<le> 12" | "c \<le> 12" "12 < d" | "12 < c" "c < d" by linarith
  then show ?thesis
    using WriteFile_lbas_same [OF assms] WriteFile_lbas_direct [OF assms] WriteFile_lbas_mixed [OF assms]
      WriteFile_lbas_indirect [OF assms] by cases blast+
qed

section \<open>Writing the data\<close>

lemma concat_put:
  assumes bs: "\<And>b. b \<in> set bs \<Longrightarrow> length b = sector_size" and i: "i < length bs"
    and b: "length b = sector_size" "take y b = take y (bs ! i)" "y + length ch \<le> sector_size" "take (length ch) (drop y b) = ch"
  shows "take (i * sector_size + y + length ch) (concat (bs[i := b])) = take (i * sector_size + y) (concat bs) @ ch"
proof -
  let ?pre = "concat (take i bs)" and ?k = "i * sector_size"
  have len: "length ?pre = ?k" using i bs length_concat_blocks [of "take i bs" sector_size] by (auto dest: in_set_takeD)
  have bi: "length (bs ! i) = sector_size" using bs i by simp
  have n: "concat (bs[i := b]) = ?pre @ b @ concat (drop (Suc i) bs)" using i by (simp add: upd_conv_take_nth_drop)
  have old: "concat bs = ?pre @ bs ! i @ concat (drop (Suc i) bs)" by (rule concat_split [OF i])
  have "take (?k + y + length ch) (concat (bs[i := b])) = ?pre @ take (y + length ch) b"
    unfolding n using len b(1,3) by simp
  also have "take (y + length ch) b = take y (bs ! i) @ ch" using b(2,4) take_add [of y "length ch" b] by simp
  also have "?pre @ take y (bs ! i) @ ch = take (?k + y) (concat bs) @ ch"
    unfolding old using len bi b(3) by simp
  finally show ?thesis .
qed

lemma file_blocks_put:
  assumes io: "io_ok s" and ls: "distinct ls" "i < length ls" and t: "\<And>l. fs_blocks t l = (if l = unat (ls ! i) then b else fs_blocks s l)"
    and b: "length b = sector_size" "take y b = take y (fs_blocks s (unat (ls ! i)))" "y + length ch \<le> sector_size"
      "take (length ch) (drop y b) = ch"
  shows "take (i * sector_size + y + length ch) (file_blocks t ls) = take (i * sector_size + y) (file_blocks s ls) @ ch"
proof -
  let ?bs = "map (\<lambda>lba. fs_blocks s (unat lba)) ls"
  have "map (\<lambda>lba. fs_blocks t (unat lba)) ls = ?bs[i := b]"
    using ls by (intro nth_equalityI) (auto simp: t nth_list_update nth_eq_iff_index_eq simp flip: word_unat_eq_iff)
  then show ?thesis
    unfolding file_blocks_def using concat_put [of ?bs i b y ch] ls(2) b block_len [OF io] by auto
qed

lemma first_sector:
  assumes "length b = sector_size" "y + length ch \<le> sector_size"
  shows "chunk (overwrite (b @ c) y ch) 0 = overwrite b y ch"
  using assms by (simp add: chunk_def overwrite_def)

text \<open>One step of the loop: the sector is read when it is the first one, the bytes are put into it and it is written.\<close>

lemma write_chunk:
  assumes io: "io_ok s" and bd: "unat b + 1 \<le> unat max_lba" and y: "y + length ch \<le> sector_size"
  obtains base s1 s2 where "(if first then ReadSectors b (replicate (2 * sector_size) 0) 1 s
      else Some (replicate (2 * sector_size) 0, s)) = Some (base @ replicate sector_size 0, s1)"
    "WriteSectors b (overwrite (base @ replicate sector_size 0) y ch) 1 s1 = Some s2" "io_step s s2"
    "length base = sector_size" "first \<Longrightarrow> base = fs_blocks s (unat b)"
    "\<And>k. fs_blocks s2 k = (if k = unat b then overwrite base y ch else fs_blocks s k)"
proof -
  let ?old = "fs_blocks s (unat b)"
  have lo: "length ?old = sector_size" by (rule block_len [OF io])
  define base where "base = (if first then ?old else replicate sector_size 0)"
  have lb: "length base = sector_size" using lo by (simp add: base_def)
  obtain s1 where s1: "(if first then ReadSectors b (replicate (2 * sector_size) 0) 1 s
      else Some (replicate (2 * sector_size) 0, s)) = Some (base @ replicate sector_size 0, s1)" "io_step s s1" "fs_blocks s1 = fs_blocks s"
  proof (cases first)
    case True
    then show thesis
      using read_ok [OF io, of 1 b "replicate (2 * sector_size) 0"] bd lo that
      by (auto simp: run_bytes_def overwrite_def base_def)
  next
    case False
    then show thesis using that [of s] io_step_refl [OF io] by (simp add: base_def mult_2 replicate_add)
  qed
  have lov: "length (overwrite (base @ replicate sector_size 0) y ch) = 2 * sector_size" using lb y by simp
  obtain s2 where s2: "WriteSectors b (overwrite (base @ replicate sector_size 0) y ch) 1 s1 = Some s2" "io_step s1 s2"
    "fs_blocks s2 = put_run (fs_blocks s1) (unat b) 1 (overwrite (base @ replicate sector_size 0) y ch)"
    using write_ok [OF io_step_fields(1) [OF s1(2)], of 1 b] bd lov by force
  have "fs_blocks s2 k = (if k = unat b then overwrite base y ch else fs_blocks s k)" for k
    using s2(3) s1(3) first_sector [OF lb, of y ch] y by (auto simp: put_run_def)
  then show thesis using that [OF s1(1) s2(1) io_step_trans [OF s1(2) s2(2)] lb] by (simp add: base_def)
qed

lemma chunk_end:
  assumes "c = min (sz - w) (sector_size - x mod sector_size)" "w < sz"
  shows "w + c = sz \<or> (x + c) mod sector_size = 0"
proof (cases "c = sz - w")
  case False
  have m: "x mod sector_size < sector_size" by (simp add: sector_size_def)
  have "c = sector_size - x mod sector_size" using False assms(1) by (auto simp: min_def split: if_splits)
  then have yc: "x mod sector_size + c = sector_size" using m by simp
  have "q * sector_size + y = x \<Longrightarrow> y + c = sector_size \<Longrightarrow> x + c = (q + 1) * sector_size" for q y by simp
  from this [OF div_mult_mod_eq yc] have "x + c = (x div sector_size + 1) * sector_size" .
  then show ?thesis by (metis mod_mult_self2_is_0)
qed (use assms(2) in simp)

lemma WriteFile_loop_ok:
  assumes "io_ok s" "fs_nodes s p = Some n" "w \<le> sz" "sz \<le> length data" "unat (in_size n) + (sz - w) \<le> length ls * sector_size"
    and "\<And>i. unat (in_size n) div sector_size \<le> i \<Longrightarrow> i < length ls \<Longrightarrow> i < length lbas \<and> lbas ! i = ls ! i"
    and "first \<or> unat (in_size n) mod sector_size = 0 \<or> w = sz"
    and ls: "distinct ls" "length ls \<le> 140" "\<And>b. b \<in> set ls \<Longrightarrow> unat b + 1 \<le> unat max_lba"
  shows "\<exists>t. WriteFile_loop p lbas data sz first w f s = Some (sz, f\<lparr>fl_pos := fl_pos f + of_nat (sz - w)\<rparr>, t) \<and>
    fs_step s t \<and> fs_block_bitmap t = fs_block_bitmap s \<and>
    fs_nodes t = (fs_nodes s)(p \<mapsto> n\<lparr>in_size := in_size n + of_nat (sz - w)\<rparr>) \<and>
    (\<forall>l. l \<notin> unat ` set ls \<longrightarrow> fs_blocks t l = fs_blocks s l) \<and>
    take (unat (in_size n) + (sz - w)) (file_blocks t ls) = take (unat (in_size n)) (file_blocks s ls) @ take (sz - w) (drop w data)"
  using assms(1-7)
proof (induction "sz - w" arbitrary: w n f s first rule: less_induct)
  case less
  show ?case
  proof (cases "w < sz")
    case False
    then have "w = sz" using less.prems(3) by simp
    then show ?thesis using fs_step_refl [OF less.prems(1)] less.prems(2) by (subst WriteFile_loop.simps) (simp add: fun_upd_idem)
  next
    case True
    define x where "x = unat (in_size n)"
    define c where "c = min (sz - w) (sector_size - x mod sector_size)"
    let ?i = "x div sector_size" and ?y = "x mod sector_size"
    have m: "?y < sector_size" by (simp add: sector_size_def)
    have c: "0 < c" "c \<le> sz - w" "?y + c \<le> sector_size" using True m by (auto simp: c_def)
    have xl: "x < length ls * sector_size" using less.prems(5) True by (simp add: x_def)
    have x0: "?i * sector_size + ?y = x" by simp
    have i: "?i < length ls" using xl by (simp add: less_mult_imp_div_less)
    have l: "?i < length lbas" "lbas ! ?i = ls ! ?i" using less.prems(6) [of ?i] i by (simp_all add: x_def)
    have bd: "unat (ls ! ?i) + 1 \<le> unat max_lba" using ls(3) i by simp
    let ?old = "fs_blocks s (unat (ls ! ?i))" and ?ch = "take c (drop w data)"
    have lch: "length ?ch = c" using less.prems(4) c(2) True by simp
    have lo: "length ?old = sector_size" by (rule block_len [OF less.prems(1)])
    have yc: "?y + length ?ch \<le> sector_size" using c(3) lch by simp
    obtain base s1 s2 where s1: "(if first then ReadSectors (lbas ! ?i) (replicate (2 * sector_size) 0) 1 s
        else Some (replicate (2 * sector_size) 0, s)) = Some (base @ replicate sector_size 0, s1)"
      and s2: "WriteSectors (lbas ! ?i) (overwrite (base @ replicate sector_size 0) ?y ?ch) 1 s1 = Some s2"
      and io2: "io_step s s2" and lb: "length base = sector_size" and fst: "first \<Longrightarrow> base = ?old"
      and b2: "\<And>k. fs_blocks s2 k = (if k = unat (ls ! ?i) then overwrite base ?y ?ch else fs_blocks s k)"
      unfolding l(2) by (rule write_chunk [OF less.prems(1) bd yc]) blast
    have by0: "take ?y base = take ?y ?old" using less.prems(7) True fst by (auto simp: x_def)
    let ?b = "overwrite base ?y ?ch"
    let ?n = "n\<lparr>in_size := in_size n + of_nat c\<rparr>"
    let ?s3 = "set_node p ?n s2" and ?f = "f\<lparr>fl_pos := fl_pos f + of_nat c\<rparr>"
    have st3: "fs_step s ?s3" "fs_block_bitmap ?s3 = fs_block_bitmap s" "fs_nodes ?s3 = (fs_nodes s)(p \<mapsto> ?n)"
      using fs_step_trans [OF io_fs_step [OF io2] set_node_fs_step] io_step_fields [OF io2] by auto
    have sz: "unat (in_size ?n) = x + c"
    proof -
      have "x + c \<le> length ls * sector_size" using less.prems(5) c(2) by (simp add: x_def)
      also have "\<dots> \<le> 140 * sector_size" using ls(2) by (rule mult_le_mono1)
      finally have "x + c \<le> 71680" by (simp add: sector_size_def)
      then show ?thesis using c by (simp, intro unat_plus) (auto simp: x_def intro!: unat_of_nat_u32)
    qed
    have rc: "x + c + (sz - (w + c)) = x + (sz - w)" "c + (sz - (w + c)) = sz - w" using c(2) by simp_all
    have put: "take (x + c) (file_blocks ?s3 ls) = take x (file_blocks s ls) @ ?ch"
      using file_blocks_put [OF less.prems(1) ls(1) i, of ?s3 ?b ?y ?ch] b2 lb lch c(3) by0 x0 lo
      by (simp add: overwrite_def)
    have "\<exists>t. WriteFile_loop p lbas data sz False (w + c) ?f ?s3 = Some (sz, ?f\<lparr>fl_pos := fl_pos ?f + of_nat (sz - (w + c))\<rparr>, t) \<and>
      fs_step ?s3 t \<and> fs_block_bitmap t = fs_block_bitmap ?s3 \<and>
      fs_nodes t = (fs_nodes ?s3)(p \<mapsto> ?n\<lparr>in_size := in_size ?n + of_nat (sz - (w + c))\<rparr>) \<and>
      (\<forall>l. l \<notin> unat ` set ls \<longrightarrow> fs_blocks t l = fs_blocks ?s3 l) \<and>
      take (unat (in_size ?n) + (sz - (w + c))) (file_blocks t ls) =
        take (unat (in_size ?n)) (file_blocks ?s3 ls) @ take (sz - (w + c)) (drop (w + c) data)"
    proof (rule less.hyps)
      show "sz - (w + c) < sz - w" using True c(1) by simp
      show "io_ok ?s3" by (rule fs_step_fields(1) [OF st3(1)])
      show "fs_nodes ?s3 p = Some ?n" by simp
      show "w + c \<le> sz" using c(2) True by simp
      show "sz \<le> length data" by (rule less.prems(4))
      show "unat (in_size ?n) + (sz - (w + c)) \<le> length ls * sector_size" unfolding sz rc using less.prems(5) by (simp add: x_def)
      show "j < length lbas \<and> lbas ! j = ls ! j" if "unat (in_size ?n) div sector_size \<le> j" "j < length ls" for j
        using less.prems(6) [of j] that(2) order.trans [OF div_le_mono that(1), of x] unfolding sz x_def by simp
      show "False \<or> unat (in_size ?n) mod sector_size = 0 \<or> w + c = sz" using chunk_end [OF c_def True] unfolding sz by blast
    qed
    then obtain t where t: "WriteFile_loop p lbas data sz False (w + c) ?f ?s3 = Some (sz, ?f\<lparr>fl_pos := fl_pos ?f + of_nat (sz - (w + c))\<rparr>, t)"
      "fs_step ?s3 t" "fs_block_bitmap t = fs_block_bitmap ?s3"
      "fs_nodes t = (fs_nodes ?s3)(p \<mapsto> ?n\<lparr>in_size := in_size ?n + of_nat (sz - (w + c))\<rparr>)"
      "\<And>l. l \<notin> unat ` set ls \<Longrightarrow> fs_blocks t l = fs_blocks ?s3 l"
      "take (x + (sz - w)) (file_blocks t ls) = take (x + c) (file_blocks ?s3 ls) @ take (sz - (w + c)) (drop (w + c) data)"
      unfolding sz rc by blast
    have addw: "v + of_nat c + of_nat (sz - (w + c)) = v + of_nat (sz - w)" for v :: u32
      unfolding add.assoc of_nat_add [symmetric] rc ..
    have "WriteFile_loop p lbas data sz first w f s = Some (sz, f\<lparr>fl_pos := fl_pos f + of_nat (sz - w)\<rparr>, t)"
    proof -
      have wc: "w + c \<le> length data" using less.prems(4) True c(2) by simp
      show ?thesis
        by (subst WriteFile_loop.simps, simp only: less.prems(2) True if_True Option.bind.bind_lunit Let_def x_def [symmetric] c_def [symmetric] s1)
          (use t(1) s2 l(1) wc in \<open>simp add: addw\<close>)
    qed
    moreover have "fs_nodes t = (fs_nodes s)(p \<mapsto> n\<lparr>in_size := in_size n + of_nat (sz - w)\<rparr>)"
      using t(4) io_step_fields(8) [OF io2] by (simp add: addw)
    moreover have "fs_blocks t k = fs_blocks s k" if "k \<notin> unat ` set ls" for k
      using t(5) [OF that] b2 [of k] that i by auto
    moreover have "take (x + (sz - w)) (file_blocks t ls) = take x (file_blocks s ls) @ take (sz - w) (drop w data)"
      unfolding t(6) put using take_add [of c "sz - (w + c)" "drop w data"] unfolding rc by (simp add: add.commute)
    ultimately show ?thesis
      using fs_step_trans [OF st3(1) t(2)] t(3) st3(2) by (simp add: x_def)
  qed
qed

section \<open>Properties of writing\<close>

lemma fs_step_super: "fs_step s t \<Longrightarrow> inode_area t = inode_area s \<longleftrightarrow>
    run_bytes (fs_blocks t) (inodes_lba s) inode_sectors = run_bytes (fs_blocks s) (inodes_lba s) inode_sectors"
  using fs_step_fields [of s t] by (simp add: inode_area_def)

lemma same_inode_area:
  assumes "fs_step s t" "\<And>l. inodes_lba s \<le> l \<Longrightarrow> l < inodes_lba s + inode_sectors \<Longrightarrow> fs_blocks t l = fs_blocks s l"
  shows "disk_node t = disk_node s"
proof -
  have "run_bytes (fs_blocks t) (inodes_lba s) inode_sectors = run_bytes (fs_blocks s) (inodes_lba s) inode_sectors"
    unfolding run_bytes_def using assms(2) by (intro arg_cong [where f = concat] map_cong) auto
  then show ?thesis using fs_step_super [OF assms(1)] by (intro ext) (simp add: disk_node_def)
qed

lemma areas:
  assumes "part_ok s"
  shows "0 < inodes_lba s" "inodes_lba s + inode_sectors \<le> data_lba s"
  using part_okD [OF assms] by (simp_all add: sb_ok_def inodes_lba_def data_lba_def)

text \<open>A well-formed file does not change when its blocks do not.\<close>

lemma file_ok_cong: "file_ok s n \<Longrightarrow> node_lbas t n = node_lbas s n \<Longrightarrow> (\<And>b. data_blk s b \<Longrightarrow> data_blk t b) \<Longrightarrow> file_ok t n"
  by (auto simp: file_ok_def owned_def)

lemma same_blocks_content:
  assumes "\<And>b. b \<in> set (take k (node_lbas s n)) \<Longrightarrow> fs_blocks t (unat b) = fs_blocks s (unat b)"
  shows "file_blocks t (take k (node_lbas s n)) = file_blocks s (take k (node_lbas s n))"
  unfolding file_blocks_def using assms by (intro arg_cong [where f = concat] map_cong) auto

lemma same_table:
  assumes "in_indirect n = 0 \<or> fs_blocks t (unat (in_indirect n)) = fs_blocks s (unat (in_indirect n))"
  shows "node_lbas t n = node_lbas s n"
  using assms by (auto simp: node_lbas_def)

lemma same_file:
  assumes ok: "file_ok s n" and st: "fs_step s t" "\<And>l. blk_used s l \<Longrightarrow> blk_used t l"
    and same: "\<And>l. l \<in> unat ` set (owned s n) \<Longrightarrow> fs_blocks t l = fs_blocks s l"
  shows "file_ok t n" "file_content t n = file_content s n" "node_lbas t n = node_lbas s n"
proof -
  note f = file_okD [OF ok]
  show lb: "node_lbas t n = node_lbas s n"
  proof (rule same_table, cases "12 < sect_count (unat (in_size n))")
    case True
    then have "in_indirect n \<in> set (owned s n)" by (simp add: owned_def inode_consts)
    then show "in_indirect n = 0 \<or> fs_blocks t (unat (in_indirect n)) = fs_blocks s (unat (in_indirect n))" using same by blast
  qed (use f(9) in simp)
  show "file_ok t n" by (rule file_ok_cong [OF ok lb data_blk_mono [OF st]])
  show "file_content t n = file_content s n"
    unfolding file_content_def lb
    by (rule arg_cong [OF same_blocks_content]) (use same in \<open>simp add: owned_def\<close>)
qed

lemma take_blocks:
  assumes "\<And>b. b \<in> set bs \<Longrightarrow> length b = sector_size" "n \<le> c * sector_size" "c \<le> length bs"
  shows "take n (concat bs) = take n (concat (take c bs))"
proof -
  have "concat bs = concat (take c bs) @ concat (drop c bs)" by (metis append_take_drop_id concat_append)
  moreover have "length (concat (take c bs)) = c * sector_size"
    using assms(1,3) length_concat_blocks [of "take c bs" sector_size] by (auto dest: in_set_takeD)
  ultimately show ?thesis using assms(2) by simp
qed

text \<open>The contents in front of the new sectors after they have been allocated.\<close>

lemma grown_content:
  assumes ok: "blocks_ok s" "file_ok s n" and g: "grown p n z s lbas t n'" and z: "unat (in_size n) \<le> unat z"
  shows "take (unat (in_size n)) (file_blocks t (take (sect_count (unat z)) (node_lbas t n'))) = file_content s n"
proof -
  note f = file_okD [OF ok(2)]
  let ?c = "sect_count (unat (in_size n))" and ?d = "sect_count (unat z)" and ?S = "unat (in_size n)"
  have pk: "part_ok s" using blocks_okD [OF ok(1)] by simp
  have cd: "?c \<le> ?d" unfolding sect_count_def using z by (intro div_le_mono) simp
  have fz: "file_ok t (n'\<lparr>in_size := z\<rparr>)" and st: "fs_step s t" using g by (simp_all add: grown_def)
  note fn = file_okD [OF fz]
  have io: "io_ok t" by (rule fs_step_fields(1) [OF st])
  have tk: "take ?c (node_lbas t n') = take ?c (node_lbas s n)"
    using g f(4,5) fn(5) by (intro nth_take_lemma) (auto simp: grown_def)
  have "fs_blocks t (unat b) = fs_blocks s (unat b)" if b: "b \<in> set (take ?c (node_lbas s n))" for b
  proof -
    obtain i where i: "i < ?c" "b = node_lbas s n ! i" using b f(4,5) by (auto simp: in_set_conv_nth)
    have db: "data_blk s b" using f(6) i by simp
    have "inodes_lba s \<le> unat b" using db areas [OF pk] by (simp add: data_blk_def)
    moreover have "b \<noteq> in_indirect n'"
    proof (cases "12 < ?d")
      case True
      have "b = node_lbas t n' ! i" using g i by (simp add: grown_def)
      then show ?thesis using file_ok_inj(2) [OF fz, of i] True i cd by simp
    next
      case False
      then show ?thesis using fn(9) data_blk_bounds(1) [OF pk db] by simp
    qed
    ultimately show ?thesis using g by (simp add: grown_def word_unat_eq_iff)
  qed
  then have "file_blocks t (take ?c (node_lbas s n)) = file_blocks s (take ?c (node_lbas s n))" by (rule same_blocks_content)
  moreover have "take ?S (file_blocks t (take ?d (node_lbas t n'))) = take ?S (file_blocks t (take ?c (node_lbas t n')))"
  proof -
    have "take ?c (map (\<lambda>lba. fs_blocks t (unat lba)) (take ?d (node_lbas t n'))) =
        map (\<lambda>lba. fs_blocks t (unat lba)) (take ?c (node_lbas t n'))" using cd by (simp add: take_map min_def)
    then show ?thesis
      unfolding file_blocks_def
      using take_blocks [of "map (\<lambda>lba. fs_blocks t (unat lba)) (take ?d (node_lbas t n'))" ?S ?c] block_len [OF io]
        sect_count_bounds(1) [of ?S] cd fn(4,5) by auto
  qed
  ultimately show ?thesis unfolding tk by (simp add: file_content_def)
qed

text \<open>What a write promises: the data is behind the old contents, the node is saved, everything else is untouched.\<close>

definition appended :: "nat \<Rightarrow> idx_node \<Rightarrow> u8 list \<Rightarrow> file_sys \<Rightarrow> file_sys \<Rightarrow> idx_node \<Rightarrow> bool" where
  "appended p n data s t n' \<longleftrightarrow> fs_step s t \<and> blocks_ok t \<and> fs_nodes t = (fs_nodes s)(p \<mapsto> n') \<and>
     in_idx n' = in_idx n \<and> in_open_times n' = in_open_times n \<and> in_write_deny n' = in_write_deny n \<and>
     file_ok t n' \<and> file_content t n' = file_content s n @ data \<and>
     (\<forall>j<4096. disk_node t j = (if j = unat (in_idx n) then IdxNode_CloneToPure n' else disk_node s j)) \<and>
     (\<forall>l. blk_used s l \<longrightarrow> blk_used t l) \<and>
     (\<forall>l. blk_used s l \<and> l \<notin> unat ` set (owned s n) \<longrightarrow> fs_blocks t l = fs_blocks s l)"

lemma grown_node:
  assumes "grown p n z s lbas t n'"
  shows "in_size n' = in_size n" "in_idx n' = in_idx n" "in_open_times n' = in_open_times n" "in_write_deny n' = in_write_deny n"
    "fs_step s t" "blocks_ok t" "fs_nodes t p = Some n'"
proof -
  have "n' = n\<lparr>in_direct := in_direct n', in_indirect := in_indirect n'\<rparr>" using assms by (simp add: grown_def)
  then show "in_size n' = in_size n" "in_idx n' = in_idx n" "in_open_times n' = in_open_times n" "in_write_deny n' = in_write_deny n"
    by (metis idx_node.select_convs idx_node.surjective idx_node.update_convs)+
qed (use assms in \<open>simp_all add: grown_def\<close>)

text \<open>The calls of \<^verbatim>\<open>WriteFile\<close> in their order.\<close>

lemma WriteFile_run:
  assumes f: "fl_inode f = Some p" "fs_nodes s p = Some n" and z: "z = in_size n + sz" "unat z = unat (in_size n) + unat sz"
    and le: "unat (in_size n) + unat sz \<le> 71680" "unat (in_size n) \<le> 71680" "sect_count (unat z) \<le> 140"
    and w: "WriteFile_lbas p (sect_count (unat (in_size n))) (sect_count (unat z)) s = Some (Some lbas, t1)"
    and lp: "WriteFile_loop p lbas data (unat sz) True 0 (f\<lparr>fl_pos := in_size n - 1\<rparr>) t1 =
      Some (unat sz, f\<lparr>fl_pos := in_size n - 1 + sz\<rparr>, t2)"
    and sy: "fs_nodes t2 p = Some n'" "FilePart_SyncNode n' (replicate (2 * sector_size) 0) t2 = Some (buf, t3)"
  shows "FilePart_WriteFile f data sz s = Some (unat sz, f\<lparr>fl_pos := in_size n + sz - 1\<rparr>, t3)"
proof -
  let ?c = "sect_count (unat (in_size n))" and ?d = "sect_count (unat z)"
  have rd: "unat (RoundUpDivide v (of_nat sector_size)) = sect_count (unat v)" if "unat v \<le> 71680" for v
    using unat_RoundUpDivide [of "of_nat sector_size" v] that by (simp add: sector_size_def sect_count_def)
  have big: "\<not> z > of_nat (sector_count_per_inode * sector_size)"
    using z(2) le(1) by (simp add: word_less_nat_alt inode_consts sector_size_def)
  have cd: "?c \<le> ?d \<and> ?d \<le> sector_count_per_inode"
    using z(2) le(3) unfolding sect_count_def by (auto simp: inode_consts intro: div_le_mono)
  have r: "unat (RoundUpDivide (in_size n) (of_nat sector_size)) = ?c" "unat (RoundUpDivide z (of_nat sector_size)) = ?d"
    using rd [of "in_size n"] rd [of z] z(2) le(1,2) by simp_all
  show ?thesis
    unfolding FilePart_WriteFile_def f Option.bind.bind_lunit Let_def z(1) [symmetric] r
    using big cd w lp sy f(1,2) by (simp add: File_IsOpen_def) (simp add: z(1) algebra_simps)
qed

text \<open>Once its blocks are allocated, the loop writes the data behind the old contents of the file.\<close>

lemma WriteFile_data:
  assumes ok: "blocks_ok s" "file_ok s n" and sz: "0 < unat sz" "unat sz \<le> length data"
    and z: "z = in_size n + sz" "unat z = unat (in_size n) + unat sz" and g: "grown p n z s lbas t1 n1"
  shows "\<exists>t. WriteFile_loop p lbas data (unat sz) True 0 (f\<lparr>fl_pos := in_size n - 1\<rparr>) t1 =
      Some (unat sz, f\<lparr>fl_pos := in_size n - 1 + sz\<rparr>, t) \<and>
    fs_step t1 t \<and> fs_block_bitmap t = fs_block_bitmap t1 \<and> fs_nodes t = (fs_nodes t1)(p \<mapsto> n1\<lparr>in_size := z\<rparr>) \<and>
    (\<forall>l. l \<notin> unat ` set (take (sect_count (unat z)) (node_lbas t1 n1)) \<longrightarrow> fs_blocks t l = fs_blocks t1 l) \<and>
    node_lbas t (n1\<lparr>in_size := z\<rparr>) = node_lbas t1 (n1\<lparr>in_size := z\<rparr>) \<and> file_ok t (n1\<lparr>in_size := z\<rparr>) \<and>
    file_content t (n1\<lparr>in_size := z\<rparr>) = file_content s n @ take (unat sz) data"
proof -
  let ?S = "unat (in_size n)" and ?L = "unat sz" and ?d = "sect_count (unat z)" and ?n = "n1\<lparr>in_size := z\<rparr>"
  note st1 = grown_node(5-7) [OF g] grown_node(1-4) [OF g]
  have fz: "file_ok t1 ?n" using g by (simp add: grown_def)
  note f1 = file_okD [OF fz]
  have pk1: "part_ok t1" using blocks_okD [OF st1(2)] by simp
  let ?ls = "take ?d (node_lbas t1 n1)" and ?f = "f\<lparr>fl_pos := in_size n - 1\<rparr>"
  have lenls: "length ?ls = ?d" using f1(4,5) by simp
  have "\<exists>t. WriteFile_loop p lbas data ?L True 0 ?f t1 = Some (?L, ?f\<lparr>fl_pos := fl_pos ?f + of_nat (?L - 0)\<rparr>, t) \<and>
    fs_step t1 t \<and> fs_block_bitmap t = fs_block_bitmap t1 \<and>
    fs_nodes t = (fs_nodes t1)(p \<mapsto> n1\<lparr>in_size := in_size n1 + of_nat (?L - 0)\<rparr>) \<and>
    (\<forall>l. l \<notin> unat ` set ?ls \<longrightarrow> fs_blocks t l = fs_blocks t1 l) \<and>
    take (unat (in_size n1) + (?L - 0)) (file_blocks t ?ls) = take (unat (in_size n1)) (file_blocks t1 ?ls) @ take (?L - 0) (drop 0 data)"
  proof (rule WriteFile_loop_ok)
    show "io_ok t1" by (rule fs_step_fields(1) [OF st1(1)])
    show "unat (in_size n1) + (?L - 0) \<le> length ?ls * sector_size"
      using sect_count_bounds(1) [of "unat z"] z st1(4) unfolding lenls by simp
    show "i < length lbas \<and> lbas ! i = ?ls ! i" if "unat (in_size n1) div sector_size \<le> i" "i < length ?ls" for i
      using g that f1(4) st1(4) unfolding lenls by (simp add: grown_def)
    show "distinct ?ls" using fz by (simp add: file_ok_def owned_def)
    show "unat b + 1 \<le> unat max_lba" if "b \<in> set ?ls" for b
      using data_blk_bounds(2) [OF pk1, of b] fz that by (simp add: file_ok_def owned_def)
  qed (use st1(3) sz f1(4) lenls in simp_all)
  then obtain t where t: "WriteFile_loop p lbas data ?L True 0 ?f t1 = Some (?L, f\<lparr>fl_pos := in_size n - 1 + sz\<rparr>, t)"
    "fs_step t1 t" "fs_block_bitmap t = fs_block_bitmap t1" "fs_nodes t = (fs_nodes t1)(p \<mapsto> ?n)"
    "\<forall>l. l \<notin> unat ` set ?ls \<longrightarrow> fs_blocks t l = fs_blocks t1 l"
    "take (unat z) (file_blocks t ?ls) = take ?S (file_blocks t1 ?ls) @ take ?L data"
    using z st1(4) by auto
  have tab: "node_lbas t ?n = node_lbas t1 ?n"
  proof (rule same_table, cases "12 < ?d")
    case True
    have "in_indirect n1 \<notin> set ?ls" using fz True by (auto simp: file_ok_def owned_def inode_consts)
    then have "unat (in_indirect n1) \<notin> unat ` set ?ls" by simp
    then show "in_indirect ?n = 0 \<or> fs_blocks t (unat (in_indirect ?n)) = fs_blocks t1 (unat (in_indirect ?n))" using t(5) by simp
  qed (use f1(9) in simp)
  moreover have "file_ok t ?n" by (rule file_ok_cong [OF fz tab]) (simp add: same_bitmap_blocks(4) [OF t(2,3)])
  moreover have "file_content t ?n = file_content s n @ take ?L data"
    using t(6) grown_content [OF ok g] z tab by (simp add: file_content_def)
  ultimately show ?thesis using t(1-5) by blast
qed

lemma WriteFile_ok:
  assumes ok: "blocks_ok s" "file_ok s n" and f: "fl_inode f = Some p" "fs_nodes s p = Some n"
    and sz: "0 < unat sz" "unat (in_size n) + unat sz \<le> 71680" "unat sz \<le> length data"
    and free: "blocks_needed (sect_count (unat (in_size n))) (sect_count (unat (in_size n) + unat sz)) \<le> card (free_blocks s)"
  shows "\<exists>t n'. FilePart_WriteFile f data sz s = Some (unat sz, f\<lparr>fl_pos := in_size n + sz - 1\<rparr>, t) \<and>
    appended p n (take (unat sz) data) s t n'"
proof -
  define z where "z = in_size n + sz"
  let ?S = "unat (in_size n)" and ?L = "unat sz"
  have z: "unat z = ?S + ?L" using sz(2) unfolding z_def by (intro unat_plus) simp_all
  let ?c = "sect_count ?S" and ?d = "sect_count (unat z)"
  note fo = file_okD [OF ok(2)]
  have pk: "part_ok s" and io: "io_ok s" using blocks_okD [OF ok(1)] by simp_all
  obtain lbas t1 n1 where w: "WriteFile_lbas p ?c ?d s = Some (Some lbas, t1)" and g: "grown p n z s lbas t1 n1"
    using WriteFile_lbas_ok [OF ok f(2) _ _ refl refl, of z] free sz z by auto
  note st1 = grown_node(5-7) [OF g] grown_node(1-4) [OF g]
  let ?n = "n1\<lparr>in_size := z\<rparr>"
  have fz: "file_ok t1 ?n" using g by (simp add: grown_def)
  note f1 = file_okD [OF fz]
  have pk1: "part_ok t1" using blocks_okD [OF st1(2)] by simp
  let ?ls = "take ?d (node_lbas t1 n1)"
  have own: "set ?ls \<subseteq> set (owned t1 ?n)" by (auto simp: owned_def)
  have blk: "data_blk t1 b" if "b \<in> set (owned t1 ?n)" for b using fz that by (simp add: file_ok_def)
  let ?f = "f\<lparr>fl_pos := in_size n - 1\<rparr>"
  obtain t2 where t2: "WriteFile_loop p lbas data ?L True 0 ?f t1 = Some (?L, f\<lparr>fl_pos := in_size n - 1 + sz\<rparr>, t2)"
    "fs_step t1 t2" "fs_block_bitmap t2 = fs_block_bitmap t1" "fs_nodes t2 = (fs_nodes t1)(p \<mapsto> ?n)"
    "\<forall>l. l \<notin> unat ` set ?ls \<longrightarrow> fs_blocks t2 l = fs_blocks t1 l" "node_lbas t2 ?n = node_lbas t1 ?n" "file_ok t2 ?n"
    "file_content t2 ?n = file_content s n @ take ?L data"
    using WriteFile_data [OF ok sz(1,3) z_def z g] by blast
  note b2 = same_bitmap_blocks [OF t2(2,3)]
  have pk2: "part_ok t2" by (rule fs_step_part_ok [OF t2(2) pk1])
  obtain buf t3 where t3: "FilePart_SyncNode ?n (replicate (2 * sector_size) 0) t2 = Some (buf, t3)"
    "node_step t2 t3 (unat (in_idx ?n)) (IdxNode_CloneToPure ?n)"
    using SyncNode_ok [OF pk2, of ?n "replicate (2 * sector_size) 0"] f1(1,2) by auto
  have st3: "fs_step t2 t3" "fs_block_bitmap t3 = fs_block_bitmap t2" "fs_nodes t3 = fs_nodes t2"
    using t3(2) io_fs_step io_step_fields by (auto simp: node_step_def)
  note b3 = same_bitmap_blocks [OF st3(1,2)]
  have s2: "fs_step s t2" by (rule fs_step_trans [OF st1(1) t2(2)])
  note e = fs_step_fields [OF st1(1)] fs_step_fields [OF s2]
  note ar = areas [OF pk]
  have bl3: "fs_blocks t3 l = fs_blocks t2 l" if "data_lba s \<le> l" for l
    using t3(2) that ar e by (simp add: node_step_def)
  have same1: "fs_blocks t2 l = fs_blocks s l" if "inodes_lba s \<le> l" "l \<notin> unat ` set (owned t1 ?n)" for l
  proof -
    have "l \<noteq> unat (in_indirect n1)"
      using that ar(1) f1(9) by (cases "12 < ?d") (auto simp: owned_def inode_consts)
    then have "fs_blocks t1 l = fs_blocks s l" using g that(1) by (simp add: grown_def)
    moreover have "l \<notin> unat ` set ?ls" using that(2) own by blast
    ultimately show ?thesis using t2(5) by simp
  qed
  have down: "data_lba s \<le> l" if "l \<in> unat ` set (owned t1 ?n)" for l
    using that blk e by (auto simp: data_blk_def)
  have "disk_node t2 = disk_node s"
    by (rule same_inode_area [OF s2]) (use same1 down ar(2) in force)
  then have nodes: "\<forall>j<4096. disk_node t3 j = (if j = unat (in_idx n) then IdxNode_CloneToPure ?n else disk_node s j)"
    using t3(2) st1(5) by (simp add: node_step_def)
  have mono: "blk_used t3 l" if "blk_used s l" for l using g that b2(1) b3(1) by (simp add: grown_def)
  have frame: "fs_blocks t3 l = fs_blocks s l" if l: "blk_used s l" "l \<notin> unat ` set (owned s n)" for l
  proof -
    have dl: "data_lba s \<le> l" using l(1) by (simp add: blk_used_def)
    have "l \<notin> unat ` set (owned t1 ?n)" using g l by (auto simp: grown_def)
    then show ?thesis using same1 bl3 [OF dl] dl ar(2) by simp
  qed
  have down2: "fs_blocks t3 l = fs_blocks t2 l" if "l \<in> unat ` set (owned t2 ?n)" for l
    using bl3 down that t2(6) by (simp add: owned_def)
  note fin = same_file [OF t2(7) st3(1) _ down2]
  have "appended p n (take ?L data) s t3 ?n"
    unfolding appended_def
  proof (intro conjI)
    show "fs_step s t3" by (rule fs_step_trans [OF s2 st3(1)])
    show "blocks_ok t3" by (rule b3(5) [OF b2(5) [OF st1(2)]])
    show "fs_nodes t3 = (fs_nodes s)(p \<mapsto> ?n)" using st3(3) t2(4) g by (simp add: grown_def)
    show "file_ok t3 ?n" using fin(1) b3(1) by simp
    show "file_content t3 ?n = file_content s n @ take ?L data" using fin(2) b3(1) t2(8) by simp
  qed (use st1 nodes mono frame in simp_all)
  moreover have "FilePart_WriteFile f data sz s = Some (?L, f\<lparr>fl_pos := in_size n + sz - 1\<rparr>, t3)"
    by (rule WriteFile_run [OF f z_def z sz(2) fo(3) _ w t2(1) _ t3(1)]) (use f1(4) t2(4) in simp_all)
  ultimately show ?thesis by blast
qed

text \<open>
  C6: Writing to a file: when the partition has enough free blocks and the file stays within its 140 sectors, \<^verbatim>\<open>WriteFile\<close> of at
  least one byte terminates and reports all bytes written; the contents of the file are the old contents followed by the
  data, the file is well-formed again (its blocks are in use, different, and the table of addresses is saved), its node is saved on
  the disk, and no block in use that is not one of its own and no other node is changed. The position is left one byte in front of the end.
\<close>

theorem WriteFile_appends:
  assumes "blocks_ok s" "file_ok s n" "fl_inode f = Some p" "fs_nodes s p = Some n"
    and "0 < unat sz" "unat (in_size n) + unat sz \<le> 140 * 512" "unat sz \<le> length data"
    and "blocks_needed (sect_count (unat (in_size n))) (sect_count (unat (in_size n) + unat sz)) \<le> card (free_blocks s)"
  shows "\<exists>t n'. FilePart_WriteFile f data sz s = Some (unat sz, f\<lparr>fl_pos := in_size n + sz - 1\<rparr>, t) \<and>
    fs_step s t \<and> blocks_ok t \<and> fs_nodes t = (fs_nodes s)(p \<mapsto> n') \<and> in_idx n' = in_idx n \<and>
    file_ok t n' \<and> file_content t n' = file_content s n @ take (unat sz) data \<and>
    (\<forall>j<4096. disk_node t j = (if j = unat (in_idx n) then IdxNode_CloneToPure n' else disk_node s j)) \<and>
    (\<forall>l. blk_used s l \<longrightarrow> blk_used t l) \<and>
    (\<forall>l. blk_used s l \<and> l \<notin> unat ` set (owned s n) \<longrightarrow> fs_blocks t l = fs_blocks s l)"
proof -
  have "unat (in_size n) + unat sz \<le> 71680" using assms(6) by simp
  from WriteFile_ok [OF assms(1-5) this assms(7,8)] show ?thesis by (auto simp: appended_def)
qed

lemma demo_blocks_ok: "blocks_ok demo_file_fs" "2 \<le> card (free_blocks demo_file_fs)"
proof -
  let ?b = "fs_block_bitmap demo_file_fs"
  let ?bits = "3 # replicate 172 0 @ 0xF0 # replicate 338 0xFF :: u8 list"
  have b: "?b = \<lparr>bm_byte_len = 512, bm_bits = Some ?bits\<rparr>" by (simp add: demo_file_fs_def)
  have d: "data_lba demo_file_fs = 712" "part_end demo_file_fs = 2100" "sb_block_bitmap_sector_count (super_of demo_file_fs) = 1"
    by (simp_all add: data_lba_def part_end_def super_of_def demo_file_fs_def demo_fs_def)
  have used: "bm_used ?b i" if "1388 \<le> i" "i < 4096" for i
  proof -
    have "bit (0xFF :: u8) (i mod 8)"
    proof -
      have "i mod 8 < 8" by simp
      then consider "i mod 8 = 0" | "i mod 8 = 1" | "i mod 8 = 2" | "i mod 8 = 3" | "i mod 8 = 4" | "i mod 8 = 5" | "i mod 8 = 6" | "i mod 8 = 7"
        by linarith
      then show ?thesis by cases simp_all
    qed
    moreover have "bit (0xF0 :: u8) (i mod 8)" if "i div 8 = 173"
    proof -
      have "i = 1388 \<or> i = 1389 \<or> i = 1390 \<or> i = 1391" using that \<open>1388 \<le> i\<close> by linarith
      then show ?thesis by auto
    qed
    moreover have "?bits ! (i div 8) = (if i div 8 = 173 then 0xF0 else 0xFF)"
    proof -
      have "173 \<le> i div 8" "i div 8 < 512" using that by linarith+
      then show ?thesis by (auto simp: nth_Cons' nth_append)
    qed
    ultimately show ?thesis using that by (simp add: b bm_used_def)
  qed
  have cap: "block_cap demo_file_fs = 4096" by (simp add: block_cap_def Bitmap_GetCapacity_def b byte_len_def)
  have "i < 1388" if "i \<in> free_blocks demo_file_fs" for i
    using that used [of i] cap by (auto simp: free_blocks_def intro: ccontr)
  then show "blocks_ok demo_file_fs"
    using demo_file_fs_ok(1) d by (force simp: blocks_ok_def bitmap_ok_def b sector_size_def)
  have "\<not> bm_used ?b 2" "\<not> bm_used ?b 3" by (simp_all add: b bm_used_def)
  then have "{2, 3} \<subseteq> free_blocks demo_file_fs"
    using cap by (simp add: free_blocks_def)
  from card_mono [OF finite_free_blocks this] show "2 \<le> card (free_blocks demo_file_fs)" by simp
qed

theorem WriteFile_appends_witness:
  "\<exists>t n'. FilePart_WriteFile \<lparr>fl_flags = 2, fl_inode = Some 5, fl_pos = 0\<rparr> (replicate 900 7) 900 demo_file_fs =
       Some (900, \<lparr>fl_flags = 2, fl_inode = Some 5, fl_pos = 1899\<rparr>, t) \<and>
     file_content t n' = file_content demo_file_fs demo_node @ replicate 900 7"
proof -
  let ?f = "\<lparr>fl_flags = 2, fl_inode = Some 5, fl_pos = 0\<rparr> :: open_file"
  have n: "blocks_needed (sect_count (unat (in_size demo_node))) (sect_count (unat (in_size demo_node) + unat (900 :: u32))) = 2"
    by (simp add: blocks_needed_def sect_count_def demo_node_def inode_consts)
  have p: "in_size demo_node + 900 - 1 = 1899" by (simp add: demo_node_def)
  show ?thesis
    using WriteFile_appends [OF demo_blocks_ok(1) demo_file_fs_ok(3) _ demo_file_fs_ok(2), of ?f 900 "replicate 900 7"]
      demo_blocks_ok(2) unfolding n p by (auto simp: demo_node_def)
qed

end
