(* ===== verification/Dirs.thy ===== *)
theory Dirs
  imports FileWrite Paths
begin

text \<open>
  Directories on a partition: \<^verbatim>\<open>io/disk/file/dir.cpp\<close> and the operations of \<^verbatim>\<open>io/disk/part.cpp\<close> on directory entries,
  against the map from names to entries that the blocks of a directory describe.
\<close>

section \<open>Directory objects\<close>

record directory =
  dr_inode :: "nat option"
  dr_pos :: u32

definition Directory_default :: directory where
  "Directory_default = \<lparr>dr_inode = None, dr_pos = 0\<rparr>"

definition Directory_IsOpen :: "directory \<Rightarrow> bool" where
  "Directory_IsOpen d \<longleftrightarrow> dr_inode d \<noteq> None"

definition Directory_GetNode :: "directory \<Rightarrow> file_sys \<Rightarrow> idx_node option" where
  "Directory_GetNode d s = do { p \<leftarrow> dr_inode d; fs_nodes s p }"

definition Directory_GetNodeIdx :: "directory \<Rightarrow> file_sys \<Rightarrow> u32 option" where
  "Directory_GetNodeIdx d s = do { n \<leftarrow> Directory_GetNode d s; Some (in_idx n) }"

definition Directory_Rewind :: "directory \<Rightarrow> directory" where
  "Directory_Rewind d = d\<lparr>dr_pos := 0\<rparr>"

definition Directory_IsEmpty :: "directory \<Rightarrow> file_sys \<Rightarrow> bool option" where
  "Directory_IsEmpty d s = do {
     Assert (Directory_IsOpen d);
     n \<leftarrow> Directory_GetNode d s;
     Some (in_size n = of_nat (min_entry_count * sizeof_DirEntry))
   }"

section \<open>Loading entries\<close>

definition dir_entry_count_per_sector :: nat where
  "dir_entry_count_per_sector = sector_size div sizeof_DirEntry"

definition entry_is_unknown :: "dir_entry \<Rightarrow> bool" where
  "entry_is_unknown e \<longleftrightarrow> de_type e = file_type_code UnknownFile"

definition LoadDirEntries :: "u32 \<Rightarrow> file_sys \<Rightarrow> (dir_entry list \<times> file_sys) option" where
  "LoadDirEntries lba s = do {
     let padded = concat (replicate (dir_entry_count_per_sector + 1) (bytes_of_entry DirEntry_default));
     (padded, s) \<leftarrow> ReadSectors lba padded 1 s;
     Some (map (entry_at padded) [0..<dir_entry_count_per_sector], s)
   }"

definition LoadDirEntries_buf :: "u32 \<Rightarrow> u8 list \<Rightarrow> file_sys \<Rightarrow> (u8 list \<times> file_sys) option" where
  "LoadDirEntries_buf lba buf s = do {
     Assert (length buf \<ge> sector_size);
     ReadSectors lba buf 1 s
   }"

text \<open>The comparison \<^verbatim>\<open>entry.name.data() == name\<close>.\<close>

definition entry_named :: "string_view \<Rightarrow> dir_entry \<Rightarrow> bool option" where
  "entry_named name e = do { v \<leftarrow> sv_of (de_name e); sv_eq v name }"

section \<open>Searching and reading\<close>

fun search_entries :: "string_view \<Rightarrow> dir_entry list \<Rightarrow> dir_entry option option" where
  "search_entries name [] = Some None"
| "search_entries name (e # es) = do {
     same \<leftarrow> entry_named name e;
     if same then Some (Some e) else search_entries name es
   }"

fun SearchDirEntry_loop :: "string_view \<Rightarrow> u32 list \<Rightarrow> file_sys \<Rightarrow> (dir_entry option \<times> file_sys) option" where
  "SearchDirEntry_loop name [] s = Some (None, s)"
| "SearchDirEntry_loop name (lba # lbas) s =
     (if lba = 0 then SearchDirEntry_loop name lbas s
      else do {
        (es, s) \<leftarrow> LoadDirEntries lba s;
        found \<leftarrow> search_entries name es;
        case found of
          Some e \<Rightarrow> Some (Some e, s)
        | None \<Rightarrow> SearchDirEntry_loop name lbas s
      })"

definition FilePart_SearchDirEntry :: "directory \<Rightarrow> string_view \<Rightarrow> file_sys \<Rightarrow> (dir_entry option \<times> file_sys) option" where
  "FilePart_SearchDirEntry dir name s = do {
     Assert (Directory_IsOpen dir);
     Assert (\<not> sv_empty name \<and> sv_len name \<le> max_len);
     inode \<leftarrow> Directory_GetNode dir s;
     (lbas, s) \<leftarrow> LoadNodeLbas inode s;
     SearchDirEntry_loop name lbas s
   }"

text \<open>The entry at the access offset; the entries in front of it advance the running offset.\<close>

fun read_entries :: "u32 \<Rightarrow> dir_entry list \<Rightarrow> u32 \<Rightarrow> (dir_entry option \<times> u32) option" where
  "read_entries dir_pos [] pos = Some (None, pos)"
| "read_entries dir_pos (e # es) pos =
     (if entry_is_unknown e then read_entries dir_pos es pos
      else if pos < dir_pos then read_entries dir_pos es (pos + of_nat sizeof_DirEntry)
      else do { Assert (pos = dir_pos); Some (Some e, pos) })"

fun ReadDir_loop :: "u32 \<Rightarrow> u32 list \<Rightarrow> u32 \<Rightarrow> file_sys \<Rightarrow> (dir_entry option \<times> file_sys) option" where
  "ReadDir_loop dir_pos [] pos s = Some (None, s)"
| "ReadDir_loop dir_pos (lba # lbas) pos s =
     (if lba = 0 then ReadDir_loop dir_pos lbas pos s
      else do {
        (es, s) \<leftarrow> LoadDirEntries lba s;
        (found, pos) \<leftarrow> read_entries dir_pos es pos;
        case found of
          Some e \<Rightarrow> Some (Some e, s)
        | None \<Rightarrow> ReadDir_loop dir_pos lbas pos s
      })"

definition FilePart_ReadDir :: "directory \<Rightarrow> file_sys \<Rightarrow> (dir_entry option \<times> directory \<times> file_sys) option" where
  "FilePart_ReadDir dir s = do {
     Assert (Directory_IsOpen dir);
     inode \<leftarrow> Directory_GetNode dir s;
     if dr_pos dir \<ge> in_size inode then Some (None, dir, s)
     else do {
       (lbas, s) \<leftarrow> LoadNodeLbas inode s;
       (found, s) \<leftarrow> ReadDir_loop (dr_pos dir) lbas 0 s;
       case found of
         Some e \<Rightarrow> Some (Some e, dir\<lparr>dr_pos := dr_pos dir + of_nat sizeof_DirEntry\<rparr>, s)
       | None \<Rightarrow> Some (None, dir, s)
     }
   }"

section \<open>Adding an entry\<close>

text \<open>The directory grows by one entry.\<close>

definition grow_dir :: "nat \<Rightarrow> file_sys \<Rightarrow> file_sys option" where
  "grow_dir p s = do {
     inode \<leftarrow> fs_nodes s p;
     Some (set_node p (inode\<lparr>in_size := in_size inode + of_nat sizeof_DirEntry\<rparr>) s)
   }"

text \<open>
  Recording a new block in the node. The variable of the new table hides the outer one, so that the addresses are written to
  the table the node had before, address zero for a new one.
\<close>

definition SyncDirEntry_link :: "nat \<Rightarrow> nat \<Rightarrow> u32 list \<Rightarrow> u32 \<Rightarrow> file_sys \<Rightarrow> (bool \<times> file_sys) option" where
  "SyncDirEntry_link p i lbas new_sector_lba s = do {
     inode \<leftarrow> fs_nodes s p;
     if i < direct_block_count
     then do {
       inode \<leftarrow> IdxNode_SetDirectLba i new_sector_lba inode;
       Some (True, set_node p inode s)
     }
     else do {
       let indirect_tab_lba = IdxNode_GetIndirectTabLba inode;
       (ok, s) \<leftarrow> (if indirect_tab_lba = 0
         then do {
           (inner_tab_lba, s) \<leftarrow> FilePart_AllocBlock s;
           if inner_tab_lba \<noteq> of_nat npos
           then do {
             s \<leftarrow> FilePart_SyncBlockBitmap inner_tab_lba (set_node p (IdxNode_SetIndirectTabLba inner_tab_lba inode) s);
             Some (True, s)
           }
           else do { s \<leftarrow> free_and_sync new_sector_lba s; Some (False, s) }
         }
         else Some (True, s));
       if ok
       then do {
         s \<leftarrow> WriteSectors indirect_tab_lba (write_words (drop direct_block_count lbas)) (of_nat indirect_tab_sector_count_per_inode) s;
         Some (True, s)
       }
       else Some (False, s)
     }
   }"

definition SyncDirEntry_new :: "nat \<Rightarrow> dir_entry \<Rightarrow> nat \<Rightarrow> u32 list \<Rightarrow> u8 list \<Rightarrow> file_sys \<Rightarrow> (bool \<times> u8 list \<times> file_sys) option" where
  "SyncDirEntry_new p entry i lbas io_buf s = do {
     (new_sector_lba, s) \<leftarrow> FilePart_AllocBlock s;
     if new_sector_lba = of_nat npos then Some (False, io_buf, s)
     else do {
       s \<leftarrow> FilePart_SyncBlockBitmap new_sector_lba s;
       (ok, s) \<leftarrow> SyncDirEntry_link p i (lbas[i := new_sector_lba]) new_sector_lba s;
       if \<not> ok then Some (False, io_buf, s)
       else do {
         io_buf \<leftarrow> memset io_buf 0 (length io_buf);
         let io_buf = overwrite io_buf 0 (bytes_of_entry entry);
         s \<leftarrow> WriteSectors new_sector_lba io_buf 1 s;
         s \<leftarrow> grow_dir p s;
         Some (True, io_buf, s)
       }
     }
   }"

fun SyncDirEntry_loop :: "nat \<Rightarrow> dir_entry \<Rightarrow> nat list \<Rightarrow> u32 list \<Rightarrow> u8 list \<Rightarrow> file_sys \<Rightarrow> (bool \<times> u8 list \<times> file_sys) option" where
  "SyncDirEntry_loop p entry [] lbas io_buf s = Some (False, io_buf, s)"
| "SyncDirEntry_loop p entry (i # is) lbas io_buf s =
     (if lbas ! i = 0 then SyncDirEntry_new p entry i lbas io_buf s
      else do {
        (io_buf, s) \<leftarrow> LoadDirEntries_buf (lbas ! i) io_buf s;
        case find (\<lambda>j. entry_is_unknown (entry_at io_buf j)) [0..<dir_entry_count_per_sector] of
          Some j \<Rightarrow> do {
            let io_buf = overwrite io_buf (j * sizeof_DirEntry) (bytes_of_entry entry);
            s \<leftarrow> WriteSectors (lbas ! i) io_buf 1 s;
            s \<leftarrow> grow_dir p s;
            Some (True, io_buf, s)
          }
        | None \<Rightarrow> SyncDirEntry_loop p entry is lbas io_buf s
      })"

definition dir_size_ok :: "idx_node \<Rightarrow> bool" where
  "dir_size_ok inode \<longleftrightarrow> in_size inode \<ge> of_nat (min_entry_count * sizeof_DirEntry) \<and>
     in_size inode mod of_nat sizeof_DirEntry = 0"

definition FilePart_SyncDirEntry :: "directory \<Rightarrow> dir_entry \<Rightarrow> u8 list \<Rightarrow> file_sys \<Rightarrow> (bool \<times> u8 list \<times> file_sys) option" where
  "FilePart_SyncDirEntry dir entry io_buf s = do {
     Assert (length io_buf \<ge> sector_size);
     Assert (Directory_IsOpen dir);
     p \<leftarrow> dr_inode dir;
     inode \<leftarrow> fs_nodes s p;
     Assert (dir_size_ok inode);
     (lbas, s) \<leftarrow> LoadNodeLbas inode s;
     SyncDirEntry_loop p entry [0..<length lbas] lbas io_buf s
   }"

section \<open>Deleting an entry\<close>

text \<open>Counting the entries of a sector and finding the one with the index node.\<close>

fun count_entries :: "u32 \<Rightarrow> u8 list \<Rightarrow> nat list \<Rightarrow> nat \<Rightarrow> nat option \<Rightarrow> (nat \<times> nat option) option" where
  "count_entries inode_idx buf [] entry_count found = Some (entry_count, found)"
| "count_entries inode_idx buf (j # js) entry_count found = do {
     let entry = entry_at buf j;
     if entry_is_unknown entry then count_entries inode_idx buf js entry_count found
     else do {
       curr \<leftarrow> entry_named curr_dir_name entry;
       parent \<leftarrow> (if curr then Some True else entry_named parent_dir_name entry);
       if \<not> curr \<and> \<not> parent \<and> de_inode_idx entry = inode_idx
       then do {
         Assert (found = None);
         count_entries inode_idx buf js (entry_count + 1) (Some j)
       }
       else count_entries inode_idx buf js (entry_count + 1) found
     }
   }"

text \<open>The block of the last entry is given back, with the table when it was its last block.\<close>

definition DeleteDirEntry_unlink :: "nat \<Rightarrow> nat \<Rightarrow> u32 list \<Rightarrow> file_sys \<Rightarrow> file_sys option" where
  "DeleteDirEntry_unlink p i lbas s = do {
     s \<leftarrow> free_and_sync (lbas ! i) s;
     inode \<leftarrow> fs_nodes s p;
     if i < direct_block_count
     then do { inode \<leftarrow> IdxNode_SetDirectLba i 0 inode; Some (set_node p inode s) }
     else do {
       let indirect_block_count = length (filter (\<lambda>lba. lba \<noteq> 0) (drop direct_block_count lbas));
       Assert (indirect_block_count > 0);
       let indirect_tab_lba = IdxNode_GetIndirectTabLba inode;
       if indirect_block_count > 1
       then WriteSectors indirect_tab_lba (write_words (drop direct_block_count (lbas[i := 0])))
         (of_nat indirect_tab_sector_count_per_inode) s
       else do {
         s \<leftarrow> free_and_sync indirect_tab_lba s;
         Some (set_node p (IdxNode_SetIndirectTabLba 0 inode) s)
       }
     }
   }"

fun DeleteDirEntry_loop :: "nat \<Rightarrow> u32 \<Rightarrow> nat list \<Rightarrow> u32 list \<Rightarrow> u8 list \<Rightarrow> file_sys \<Rightarrow> (bool \<times> u8 list \<times> file_sys) option" where
  "DeleteDirEntry_loop p inode_idx [] lbas io_buf s = Some (False, io_buf, s)"
| "DeleteDirEntry_loop p inode_idx (i # is) lbas io_buf s =
     (if lbas ! i = 0 then DeleteDirEntry_loop p inode_idx is lbas io_buf s
      else do {
        io_buf \<leftarrow> memset io_buf 0 (length io_buf);
        (io_buf, s) \<leftarrow> LoadDirEntries_buf (lbas ! i) io_buf s;
        (entry_count, found_entry) \<leftarrow> count_entries inode_idx io_buf [0..<dir_entry_count_per_sector] 0 None;
        Assert (entry_count \<ge> min_entry_count);
        case found_entry of
          None \<Rightarrow> DeleteDirEntry_loop p inode_idx is lbas io_buf s
        | Some j \<Rightarrow> do {
            (io_buf, s) \<leftarrow> (if entry_count = min_entry_count + 1
              then do { s \<leftarrow> DeleteDirEntry_unlink p i lbas s; Some (io_buf, s) }
              else do {
                let io_buf = overwrite io_buf (j * sizeof_DirEntry) (replicate sizeof_DirEntry 0);
                s \<leftarrow> WriteSectors (lbas ! i) io_buf 1 s;
                Some (io_buf, s)
              });
            inode \<leftarrow> fs_nodes s p;
            let inode = inode\<lparr>in_size := in_size inode - of_nat sizeof_DirEntry\<rparr>;
            (io_buf, s) \<leftarrow> FilePart_SyncNode inode io_buf (set_node p inode s);
            Some (True, io_buf, s)
          }
      })"

definition FilePart_DeleteDirEntry :: "directory \<Rightarrow> u32 \<Rightarrow> u8 list \<Rightarrow> file_sys \<Rightarrow> (bool \<times> u8 list \<times> file_sys) option" where
  "FilePart_DeleteDirEntry dir inode_idx io_buf s = do {
     Assert (length io_buf \<ge> 2 * sector_size);
     Assert (Directory_IsOpen dir);
     p \<leftarrow> dr_inode dir;
     inode \<leftarrow> fs_nodes s p;
     Assert (dir_size_ok inode);
     (lbas, s) \<leftarrow> LoadNodeLbas inode s;
     DeleteDirEntry_loop p inode_idx [0..<length lbas] lbas io_buf s
   }"

definition FilePart_DeleteDir :: "directory \<Rightarrow> directory \<Rightarrow> file_sys \<Rightarrow> (bool \<times> file_sys) option" where
  "FilePart_DeleteDir parent child s = do {
     Assert (Directory_IsOpen parent \<and> Directory_IsOpen child);
     inode_idx \<leftarrow> Directory_GetNodeIdx child s;
     (success, _, s) \<leftarrow> FilePart_DeleteDirEntry parent inode_idx (replicate (2 * sector_size) 0) s;
     s \<leftarrow> (if success then FilePart_DeleteNode inode_idx s else Some s);
     Some (success, s)
   }"

section \<open>The entries of a directory\<close>

lemma find_append: "find P (xs @ ys) = (case find P xs of None \<Rightarrow> find P ys | Some x \<Rightarrow> Some x)"
  by (induction xs) simp_all

lemma dir_entry_count: "dir_entry_count_per_sector = 18"
  by (simp add: dir_entry_count_per_sector_def sector_size_def sizeof_DirEntry_def)

lemma entry_of_bytes_append: "28 \<le> length b \<Longrightarrow> entry_of_bytes (b @ c) = entry_of_bytes b"
  by (simp add: entry_of_bytes_def read_u32_append1 name_array_len_def)

lemma entry_of_bytes_take: "28 \<le> length b \<Longrightarrow> entry_of_bytes b = entry_of_bytes (take 28 b)"
  using entry_of_bytes_append [of "take 28 b" "drop 28 b"] by simp

lemma entry_at_append: "j < 18 \<Longrightarrow> 18 * 28 \<le> length b \<Longrightarrow> entry_at (b @ c) j = entry_at b j"
  using entry_of_bytes_append [of "drop (j * 28) b" c] by (simp add: entry_at_def sizeof_DirEntry_def)

lemma entry_at_overwrite:
  assumes "length (de_name e) = name_array_len" "j < 18" "k < 18" "18 * 28 \<le> length b"
  shows "entry_at (overwrite b (k * sizeof_DirEntry) (bytes_of_entry e)) j = (if j = k then e else entry_at b j)"
proof (cases "j = k")
  case True
  have "drop (k * 28) (overwrite b (k * 28) (bytes_of_entry e)) = bytes_of_entry e @ drop (k * 28 + 28) b"
    using assms by (simp add: overwrite_def sizeof_DirEntry_def)
  then show ?thesis using True assms(1) by (simp add: entry_at_def sizeof_DirEntry_def)
next
  case False
  let ?o = "overwrite b (k * 28) (bytes_of_entry e)"
  have len: "length (bytes_of_entry e) = 28" using assms(1) by (simp add: sizeof_DirEntry_def)
  have lo: "length ?o = length b" using assms(3,4) len by simp
  have "take 28 (drop (j * 28) ?o) = take 28 (drop (j * 28) b)"
    using assms(2-4) len False by (intro take_drop_overwrite_other) auto
  then show ?thesis
    using False assms(2,4) lo entry_of_bytes_take [of "drop (j * 28) ?o"] entry_of_bytes_take [of "drop (j * 28) b"]
    by (simp add: entry_at_def sizeof_DirEntry_def)
qed

definition sector_entries :: "u8 list \<Rightarrow> dir_entry list" where
  "sector_entries b = map (entry_at b) [0..<18]"

lemma length_sector_entries [simp]: "length (sector_entries b) = 18"
  by (simp add: sector_entries_def)

definition dir_blocks :: "file_sys \<Rightarrow> idx_node \<Rightarrow> u32 list" where
  "dir_blocks s n = filter (\<lambda>lba. lba \<noteq> 0) (node_lbas s n)"

definition dir_slots :: "file_sys \<Rightarrow> idx_node \<Rightarrow> dir_entry list" where
  "dir_slots s n = concat (map (\<lambda>lba. sector_entries (fs_blocks s (unat lba))) (dir_blocks s n))"

definition entry_name :: "dir_entry \<Rightarrow> char list" where
  "entry_name e = cstr (de_name e)"

text \<open>A slot is usable: its name ends within its array, and a free slot has no name.\<close>

definition slot_ok :: "dir_entry \<Rightarrow> bool" where
  "slot_ok e \<longleftrightarrow> NUL \<in> set (de_name e) \<and> (entry_is_unknown e \<longrightarrow> entry_name e = [])"

definition entry_count :: "dir_entry list \<Rightarrow> nat" where
  "entry_count es = length (filter (\<lambda>e. \<not> entry_is_unknown e) es)"

definition dir_ok :: "file_sys \<Rightarrow> idx_node \<Rightarrow> bool" where
  "dir_ok s n \<longleftrightarrow> length (in_direct n) = 12 \<and> in_idx n < max_file_count_per_part \<and>
     2 \<le> entry_count (dir_slots s n) \<and> unat (in_size n) = 28 * entry_count (dir_slots s n) \<and>
     (\<forall>lba\<in>set (dir_blocks s n). data_blk s lba) \<and> (in_indirect n \<noteq> 0 \<longrightarrow> data_blk s (in_indirect n)) \<and>
     distinct (dir_blocks s n) \<and> in_indirect n \<notin> set (dir_blocks s n) \<and> (\<forall>e\<in>set (dir_slots s n). slot_ok e)"

text \<open>The directory as a map from names to entries.\<close>

definition dir_lookup :: "file_sys \<Rightarrow> idx_node \<Rightarrow> char list \<Rightarrow> dir_entry option" where
  "dir_lookup s n nm = find (\<lambda>e. entry_name e = nm) (dir_slots s n)"

lemma LoadNodeLbas_ok:
  assumes "part_ok s" "length (in_direct n) = 12" "in_indirect n \<noteq> 0 \<Longrightarrow> data_blk s (in_indirect n)"
  shows "\<exists>t. LoadNodeLbas n s = Some (node_lbas s n, t) \<and> io_step s t \<and> fs_blocks t = fs_blocks s"
proof (cases "in_indirect n = 0")
  case True
  then show ?thesis
    using io_step_refl part_okD [OF assms(1)] by (auto simp: LoadNodeLbas_def IdxNode_GetIndirectTabLba_def node_lbas_def inode_consts)
next
  case False
  let ?l = "in_direct n @ replicate 128 0"
  have io: "io_ok s" using part_okD [OF assms(1)] by simp
  obtain t where "load_indirect n ?l s = Some (take 12 ?l @ read_words (fs_blocks s (unat (in_indirect n))) 0 128, t)"
    "io_step s t" "fs_blocks t = fs_blocks s"
    using load_indirect_ok [OF io False, of ?l] data_blk_bounds(2) [OF assms(1) assms(3) [OF False]] assms(2) by auto
  then show ?thesis
    using False assms(2)
    by (auto simp: LoadNodeLbas_def load_indirect_def IdxNode_GetIndirectTabLba_def node_lbas_def inode_consts Let_def)
qed

lemma LoadDirEntries_ok:
  assumes "io_ok s" "unat lba + 1 \<le> unat max_lba"
  shows "\<exists>t. LoadDirEntries lba s = Some (sector_entries (fs_blocks s (unat lba)), t) \<and> io_step s t \<and> fs_blocks t = fs_blocks s"
proof -
  let ?p = "concat (replicate 19 (bytes_of_entry DirEntry_default))"
  have lp: "length ?p = 532" by (simp add: length_concat sum_list_replicate DirEntry_default_def sizeof_DirEntry_def)
  obtain t where t: "ReadSectors lba ?p 1 s = Some (overwrite ?p 0 (fs_blocks s (unat lba)), t)" "io_step s t" "fs_blocks t = fs_blocks s"
    using read_ok [OF assms(1), of 1 lba ?p] assms(2) lp by (auto simp: run_bytes_def sector_size_def)
  have "map (entry_at (overwrite ?p 0 (fs_blocks s (unat lba)))) [0..<18] = sector_entries (fs_blocks s (unat lba))"
    using block_len [OF assms(1), of "unat lba"]
    by (auto simp: sector_entries_def overwrite_def sector_size_def intro!: entry_at_append)
  then show ?thesis using t by (simp add: LoadDirEntries_def dir_entry_count)
qed

lemma entry_named_ok: "NUL \<in> set (de_name e) \<Longrightarrow> sv_text name nm \<Longrightarrow> entry_named name e = Some (entry_name e = nm)"
  using sv_of_text [of "de_name e"] sv_eq_text by (force simp: entry_named_def entry_name_def)

lemma search_entries_ok:
  assumes "\<And>e. e \<in> set es \<Longrightarrow> slot_ok e" "sv_text name nm"
  shows "search_entries name es = Some (find (\<lambda>e. entry_name e = nm) es)"
  using assms(1)
proof (induction es)
  case (Cons e es)
  then show ?case using entry_named_ok [OF _ assms(2), of e] by (simp add: slot_ok_def)
qed simp

lemma SearchDirEntry_loop_ok:
  assumes "io_ok s" "\<And>lba. lba \<in> set lbas \<Longrightarrow> lba \<noteq> 0 \<Longrightarrow> unat lba + 1 \<le> unat max_lba" "sv_text name nm"
    and "\<And>lba e. lba \<in> set lbas \<Longrightarrow> lba \<noteq> 0 \<Longrightarrow> e \<in> set (sector_entries (fs_blocks s (unat lba))) \<Longrightarrow> slot_ok e"
  shows "\<exists>t. SearchDirEntry_loop name lbas s = Some (find (\<lambda>e. entry_name e = nm)
      (concat (map (\<lambda>lba. sector_entries (fs_blocks s (unat lba))) (filter (\<lambda>lba. lba \<noteq> 0) lbas))), t) \<and>
    io_step s t \<and> fs_blocks t = fs_blocks s"
  using assms(1,2,4)
proof (induction lbas arbitrary: s)
  case Nil
  then show ?case using io_step_refl by auto
next
  case (Cons lba lbas)
  show ?case
  proof (cases "lba = 0")
    case True
    then show ?thesis using Cons.IH [of s] Cons.prems by auto
  next
    case False
    let ?es = "sector_entries (fs_blocks s (unat lba))"
    obtain t where t: "LoadDirEntries lba s = Some (?es, t)" "io_step s t" "fs_blocks t = fs_blocks s"
      using LoadDirEntries_ok [OF Cons.prems(1), of lba] Cons.prems(2) False by auto
    have se: "search_entries name ?es = Some (find (\<lambda>e. entry_name e = nm) ?es)"
      using Cons.prems(3) False by (intro search_entries_ok assms(3)) auto
    have "io_ok t" by (rule io_step_fields(1) [OF t(2)])
    then obtain u where u: "SearchDirEntry_loop name lbas t = Some (find (\<lambda>e. entry_name e = nm)
        (concat (map (\<lambda>lba. sector_entries (fs_blocks s (unat lba))) (filter (\<lambda>lba. lba \<noteq> 0) lbas))), u)"
      "io_step t u" "fs_blocks u = fs_blocks s"
      using Cons.IH [of t] Cons.prems(2,3) t(3) by auto
    show ?thesis
    proof (cases "find (\<lambda>e. entry_name e = nm) ?es")
      case None
      then have "find (\<lambda>e. entry_name e = nm) (?es @ xs) = find (\<lambda>e. entry_name e = nm) xs" for xs
        by (simp add: find_append)
      then show ?thesis using None False t(1) se u io_step_trans [OF t(2) u(2)] by auto
    next
      case (Some e)
      then have "find (\<lambda>e. entry_name e = nm) (?es @ xs) = Some e" for xs by (simp add: find_append)
      then show ?thesis using Some False t se by auto
    qed
  qed
qed

lemma SearchDirEntry_ok:
  assumes "part_ok s" "dir_ok s n" "dr_inode dir = Some p" "fs_nodes s p = Some n"
    and nm: "sv_text name nm" "nm \<noteq> []" "length nm \<le> max_len"
  shows "\<exists>t. FilePart_SearchDirEntry dir name s = Some (dir_lookup s n nm, t) \<and> io_step s t \<and> fs_blocks t = fs_blocks s"
proof -
  have d: "length (in_direct n) = 12" "in_indirect n \<noteq> 0 \<longrightarrow> data_blk s (in_indirect n)"
    "\<And>lba. lba \<in> set (dir_blocks s n) \<Longrightarrow> data_blk s lba" "\<And>e. e \<in> set (dir_slots s n) \<Longrightarrow> slot_ok e"
    using assms(2) by (simp_all add: dir_ok_def)
  obtain t where t: "LoadNodeLbas n s = Some (node_lbas s n, t)" "io_step s t" "fs_blocks t = fs_blocks s"
    using LoadNodeLbas_ok [OF assms(1) d(1)] d(2) by blast
  have "\<exists>u. SearchDirEntry_loop name (node_lbas s n) t = Some (find (\<lambda>e. entry_name e = nm)
      (concat (map (\<lambda>lba. sector_entries (fs_blocks t (unat lba))) (filter (\<lambda>lba. lba \<noteq> 0) (node_lbas s n)))), u) \<and>
      io_step t u \<and> fs_blocks u = fs_blocks t"
  proof (rule SearchDirEntry_loop_ok [OF io_step_fields(1) [OF t(2)] _ nm(1)])
    fix lba assume l: "lba \<in> set (node_lbas s n)" "lba \<noteq> 0"
    then have b: "lba \<in> set (dir_blocks s n)" by (simp add: dir_blocks_def)
    show "unat lba + 1 \<le> unat max_lba" by (rule data_blk_bounds(2) [OF assms(1) d(3) [OF b]])
    show "slot_ok e" if "e \<in> set (sector_entries (fs_blocks t (unat lba)))" for e
      using that b t(3) by (intro d(4)) (auto simp: dir_slots_def)
  qed
  then obtain u where u: "SearchDirEntry_loop name (node_lbas s n) t = Some (dir_lookup s n nm, u)" "io_step t u" "fs_blocks u = fs_blocks s"
    using t(3) by (auto simp: dir_lookup_def dir_slots_def dir_blocks_def)
  have "sv_len name = length nm" using nm(1) by (simp add: sv_text_def)
  then show ?thesis
    using assms(3,4) t(1) u io_step_trans [OF t(2) u(2)] nm(2,3) sv_text_empty [OF nm(1)]
    by (simp add: FilePart_SearchDirEntry_def Directory_IsOpen_def Directory_GetNode_def)
qed

section \<open>Adding an entry\<close>

lemma length_dir_slots: "length (dir_slots s n) = 18 * length (dir_blocks s n)"
  by (simp add: dir_slots_def length_concat comp_def sum_list_triv)

lemma dir_okD:
  assumes "dir_ok s n"
  shows "length (in_direct n) = 12" "in_idx n < max_file_count_per_part" "2 \<le> entry_count (dir_slots s n)"
    "unat (in_size n) = 28 * entry_count (dir_slots s n)" "\<And>lba. lba \<in> set (dir_blocks s n) \<Longrightarrow> data_blk s lba"
    "in_indirect n \<noteq> 0 \<Longrightarrow> data_blk s (in_indirect n)" "distinct (dir_blocks s n)" "in_indirect n \<notin> set (dir_blocks s n)"
    "\<And>e. e \<in> set (dir_slots s n) \<Longrightarrow> slot_ok e" "length (node_lbas s n) = 140" "entry_count (dir_slots s n) \<le> 2520"
    "dir_size_ok n"
proof -
  show d: "length (in_direct n) = 12" "in_idx n < max_file_count_per_part" "2 \<le> entry_count (dir_slots s n)"
    "unat (in_size n) = 28 * entry_count (dir_slots s n)" "\<And>lba. lba \<in> set (dir_blocks s n) \<Longrightarrow> data_blk s lba"
    "in_indirect n \<noteq> 0 \<Longrightarrow> data_blk s (in_indirect n)" "distinct (dir_blocks s n)" "in_indirect n \<notin> set (dir_blocks s n)"
    "\<And>e. e \<in> set (dir_slots s n) \<Longrightarrow> slot_ok e"
    using assms by (simp_all add: dir_ok_def)
  show l: "length (node_lbas s n) = 140" using d(1) by (intro length_node_lbas) (simp add: inode_consts)
  have "length (dir_blocks s n) \<le> 140" using l length_filter_le [of "\<lambda>lba. lba \<noteq> 0" "node_lbas s n"] by (simp add: dir_blocks_def)
  then show "entry_count (dir_slots s n) \<le> 2520"
    using length_filter_le [of "\<lambda>e. \<not> entry_is_unknown e" "dir_slots s n"] length_dir_slots [of s n] by (simp add: entry_count_def)
  have "unat (in_size n mod 28) = 0" using d(4) by (simp add: unat_mod)
  then show "dir_size_ok n"
    using d(3,4) by (simp add: dir_size_ok_def min_entry_count_def sizeof_DirEntry_def word_le_nat_alt unat_eq_zero)
qed

text \<open>One entry in the place of free slots.\<close>

definition slots_add :: "dir_entry list \<Rightarrow> dir_entry \<Rightarrow> dir_entry list \<Rightarrow> bool" where
  "slots_add xs e ys \<longleftrightarrow> (\<exists>P U Z Q. xs = P @ U @ Q \<and> ys = P @ e # Z @ Q \<and>
     (\<forall>u\<in>set U \<union> set Z. entry_is_unknown u \<and> slot_ok u))"

lemma slots_add_facts:
  assumes "slots_add xs e ys" "\<not> entry_is_unknown e" "slot_ok e" "\<And>x. x \<in> set xs \<Longrightarrow> slot_ok x"
  shows "entry_count ys = entry_count xs + 1" "\<And>y. y \<in> set ys \<Longrightarrow> slot_ok y"
    "find (\<lambda>x. entry_name x = entry_name e) xs = None \<Longrightarrow> nm \<noteq> [] \<Longrightarrow>
     find (\<lambda>x. entry_name x = nm) ys = (if nm = entry_name e then Some e else find (\<lambda>x. entry_name x = nm) xs)"
proof -
  obtain P U Z Q where x: "xs = P @ U @ Q" "ys = P @ e # Z @ Q" "\<And>u. u \<in> set U \<union> set Z \<Longrightarrow> entry_is_unknown u \<and> slot_ok u"
    using assms(1) by (auto simp: slots_add_def)
  have "filter (\<lambda>e. \<not> entry_is_unknown e) U = []" "filter (\<lambda>e. \<not> entry_is_unknown e) Z = []" using x(3) by (simp_all add: filter_empty_conv)
  then show "entry_count ys = entry_count xs + 1" using assms(2) by (simp add: entry_count_def x)
  show "slot_ok y" if "y \<in> set ys" for y using that assms(3,4) x by auto
  assume n: "find (\<lambda>x. entry_name x = entry_name e) xs = None" "nm \<noteq> []"
  have "entry_name u = []" if "u \<in> set U \<union> set Z" for u using x(3) [OF that] by (simp add: slot_ok_def)
  then have uz: "find (\<lambda>x. entry_name x = nm) U = None" "find (\<lambda>x. entry_name x = nm) Z = None"
    using n(2) by (auto simp: find_None_iff)
  have "find (\<lambda>x. entry_name x = entry_name e) P = None" using n(1) by (auto simp: x(1) find_None_iff)
  then show "find (\<lambda>x. entry_name x = nm) ys = (if nm = entry_name e then Some e else find (\<lambda>x. entry_name x = nm) xs)"
    using uz by (auto simp: x(1,2) find_append split: option.splits)
qed

lemma concat_put_block:
  assumes "distinct bl" "b \<in> set bl" "\<And>l. l \<in> set bl \<Longrightarrow> l \<noteq> b \<Longrightarrow> g l = f l"
  shows "\<exists>A B. concat (map f bl) = A @ f b @ B \<and> concat (map g bl) = A @ g b @ B"
proof -
  obtain xs ys where bl: "bl = xs @ b # ys" using split_list [OF assms(2)] by blast
  have g: "map g xs = map f xs" "map g ys = map f ys" using assms bl by auto
  have "concat (map f bl) = concat (map f xs) @ f b @ concat (map f ys)" by (simp add: bl)
  moreover have "concat (map g bl) = concat (map f xs) @ g b @ concat (map f ys)" by (simp add: bl g del: map_eq_conv)
  ultimately show ?thesis by blast
qed

text \<open>The sectors without a free slot are passed over.\<close>

lemma SyncDirEntry_skip:
  assumes "io_ok s" "sector_size \<le> length buf"
    and "\<And>i. i \<in> set is \<Longrightarrow> lbas ! i \<noteq> 0 \<and> unat (lbas ! i) + 1 \<le> unat max_lba \<and>
      (\<forall>e\<in>set (sector_entries (fs_blocks s (unat (lbas ! i)))). \<not> entry_is_unknown e)"
  shows "\<exists>buf' t. SyncDirEntry_loop p e (is @ js) lbas buf s = SyncDirEntry_loop p e js lbas buf' t \<and>
    length buf' = length buf \<and> io_step s t \<and> fs_blocks t = fs_blocks s"
  using assms
proof (induction "is" arbitrary: buf s)
  case Nil
  then show ?case using io_step_refl by auto
next
  case (Cons i "is")
  let ?b = "fs_blocks s (unat (lbas ! i))"
  have i: "lbas ! i \<noteq> 0" "unat (lbas ! i) + 1 \<le> unat max_lba" "\<forall>e\<in>set (sector_entries ?b). \<not> entry_is_unknown e"
    using Cons.prems(3) [of i] by auto
  have lb: "length ?b = 512" using block_len [OF Cons.prems(1)] by (simp add: sector_size_def)
  obtain t where t: "ReadSectors (lbas ! i) buf 1 s = Some (overwrite buf 0 ?b, t)" "io_step s t" "fs_blocks t = fs_blocks s"
    using read_ok [OF Cons.prems(1), of 1 "lbas ! i" buf] i(2) Cons.prems(2) by (auto simp: run_bytes_def)
  have "entry_at (overwrite buf 0 ?b) j = entry_at ?b j" if "j < 18" for j
    using that lb by (simp add: overwrite_def entry_at_append)
  then have "find (\<lambda>j. entry_is_unknown (entry_at (overwrite buf 0 ?b) j)) [0..<18] = None"
    using i(3) by (auto simp: find_None_iff sector_entries_def)
  then have step: "SyncDirEntry_loop p e ((i # is) @ js) lbas buf s = SyncDirEntry_loop p e (is @ js) lbas (overwrite buf 0 ?b) t"
    using i(1) t(1) Cons.prems(2) by (simp add: LoadDirEntries_buf_def dir_entry_count)
  have lo: "length (overwrite buf 0 ?b) = length buf" using lb Cons.prems(2) by (simp add: sector_size_def)
  obtain buf' u where "SyncDirEntry_loop p e (is @ js) lbas (overwrite buf 0 ?b) t = SyncDirEntry_loop p e js lbas buf' u"
    "length buf' = length buf" "io_step t u" "fs_blocks u = fs_blocks t"
    using Cons.IH [OF io_step_fields(1) [OF t(2)], of "overwrite buf 0 ?b"] Cons.prems(2,3) lo t(3) by auto
  then show ?case using step t(3) io_step_trans [OF t(2)] by auto
qed

text \<open>What adding an entry promises.\<close>

definition entry_added :: "nat \<Rightarrow> idx_node \<Rightarrow> dir_entry \<Rightarrow> file_sys \<Rightarrow> file_sys \<Rightarrow> idx_node \<Rightarrow> bool" where
  "entry_added p n e s t n' \<longleftrightarrow> fs_step s t \<and> blocks_ok t \<and> fs_nodes t = (fs_nodes s)(p \<mapsto> n') \<and> in_idx n' = in_idx n \<and>
     dir_ok t n' \<and> slots_add (dir_slots s n) e (dir_slots t n') \<and> (\<forall>l. blk_used s l \<longrightarrow> blk_used t l) \<and>
     (\<forall>l. inodes_lba s \<le> l \<and> l < data_lba s \<or> blk_used s l \<and> l \<notin> unat ` set (dir_blocks s n) \<longrightarrow> fs_blocks t l = fs_blocks s l)"

definition entry_ok :: "dir_entry \<Rightarrow> bool" where
  "entry_ok e \<longleftrightarrow> length (de_name e) = name_array_len \<and> NUL \<in> set (de_name e) \<and> \<not> entry_is_unknown e"

lemma dir_ok_added:
  assumes ok: "dir_ok s n" "entry_ok e" and add: "slots_add (dir_slots s n) e (dir_slots t n')"
    and n': "length (in_direct n') = 12" "in_idx n' = in_idx n" "in_size n' = in_size n + 28" "in_indirect n' = in_indirect n"
    and blk: "\<And>b. b \<in> set (dir_blocks t n') \<Longrightarrow> data_blk t b" "in_indirect n \<noteq> 0 \<Longrightarrow> data_blk t (in_indirect n)"
      "distinct (dir_blocks t n')" "in_indirect n \<notin> set (dir_blocks t n')"
  shows "dir_ok t n'"
proof -
  note d = dir_okD [OF ok(1)]
  have e: "\<not> entry_is_unknown e" "slot_ok e" using ok(2) by (auto simp: entry_ok_def slot_ok_def)
  note a = slots_add_facts [OF add e d(9)]
  have "unat (in_size n + 28) = unat (in_size n) + 28" using d(4,11) by (intro unat_plus) simp_all
  then have "unat (in_size n') = 28 * entry_count (dir_slots t n')" using d(4) a(1) n'(3) by simp
  then show ?thesis using n' d(2,3) a(1,2) blk by (auto simp: dir_ok_def)
qed

lemma grow_dir_ok: "fs_nodes s p = Some n \<Longrightarrow> grow_dir p s = Some (set_node p (n\<lparr>in_size := in_size n + 28\<rparr>) s)"
  by (simp add: grow_dir_def sizeof_DirEntry_def)

lemma sector_entries_overwrite:
  assumes "length (de_name e) = name_array_len" "j < 18" "length b = sector_size"
  shows "sector_entries (overwrite b (j * sizeof_DirEntry) (bytes_of_entry e)) = (sector_entries b)[j := e]"
  using assms by (intro nth_equalityI) (auto simp: sector_entries_def nth_list_update entry_at_overwrite sector_size_def)

lemma node_lbas_grow [simp]: "dir_blocks s (n\<lparr>in_size := z\<rparr>) = dir_blocks s n" "dir_slots s (n\<lparr>in_size := z\<rparr>) = dir_slots s n"
  by (simp_all add: dir_blocks_def dir_slots_def)

text \<open>A free slot in a block of the directory.\<close>

lemma SyncDirEntry_slot:
  assumes ok: "blocks_ok s" "dir_ok s n" "entry_ok e" "fs_nodes s p = Some n" and buf: "sector_size \<le> length buf"
    and k: "lba = lbas ! k" "lba \<in> set (dir_blocks s n)" and u: "\<exists>x\<in>set (sector_entries (fs_blocks s (unat lba))). entry_is_unknown x"
  shows "\<exists>buf' t. SyncDirEntry_loop p e (k # js) lbas buf s = Some (True, buf', t) \<and> length buf' = length buf \<and>
    entry_added p n e s t (n\<lparr>in_size := in_size n + 28\<rparr>)"
proof -
  note d = dir_okD [OF ok(2)]
  have pk: "part_ok s" and io: "io_ok s" using blocks_okD [OF ok(1)] by simp_all
  have db: "data_blk s lba" by (rule d(5) [OF k(2)])
  note lb = data_blk_bounds [OF pk db]
  let ?b = "fs_blocks s (unat lba)" and ?n = "n\<lparr>in_size := in_size n + 28\<rparr>"
  have len: "length ?b = sector_size" by (rule block_len [OF io])
  have el: "length (de_name e) = name_array_len" using ok(3) by (simp add: entry_ok_def)
  obtain s1 where s1: "ReadSectors lba buf 1 s = Some (overwrite buf 0 ?b, s1)" "io_step s s1" "fs_blocks s1 = fs_blocks s"
    using read_ok [OF io, of 1 lba buf] lb(2) buf by (auto simp: run_bytes_def)
  let ?o = "overwrite buf 0 ?b"
  have o: "?o = ?b @ drop sector_size buf" using len by (simp add: overwrite_def)
  have lo: "length ?o = length buf" using len buf by simp
  have at: "entry_at ?o j = entry_at ?b j" if "j < 18" for j
    using that len by (simp add: o entry_at_append sector_size_def)
  obtain j where j: "find (\<lambda>j. entry_is_unknown (entry_at ?o j)) [0..<18] = Some j" "j < 18" "entry_is_unknown (entry_at ?b j)"
  proof -
    obtain i where "i < 18" "entry_is_unknown (entry_at ?b i)" using u by (auto simp: sector_entries_def)
    then have "find (\<lambda>j. entry_is_unknown (entry_at ?o j)) [0..<18] \<noteq> None" using at by (auto simp: find_None_iff)
    then obtain j where f: "find (\<lambda>j. entry_is_unknown (entry_at ?o j)) [0..<18] = Some j" by blast
    then have "j < 18" "entry_is_unknown (entry_at ?o j)" by (auto simp: find_Some_iff)
    then show thesis using that [OF f] at [of j] by simp
  qed
  let ?w = "overwrite ?o (j * sizeof_DirEntry) (bytes_of_entry e)" and ?nb = "overwrite ?b (j * sizeof_DirEntry) (bytes_of_entry e)"
  have fit: "j * sizeof_DirEntry + length (bytes_of_entry e) \<le> sector_size"
    using j(2) el by (simp add: sizeof_DirEntry_def sector_size_def)
  have lw: "length ?w = length buf" using fit lo buf by simp
  obtain s2 where s2: "WriteSectors lba ?w 1 s1 = Some s2" "io_step s1 s2" "fs_blocks s2 = put_run (fs_blocks s1) (unat lba) 1 ?w"
    using write_ok [OF io_step_fields(1) [OF s1(2)], of 1 lba ?w] lb(2) lw buf by auto
  have b2: "fs_blocks s2 l = (if l = unat lba then ?nb else fs_blocks s l)" for l
    using s2(3) s1(3) first_sector [OF len fit] by (auto simp: put_run_def o)
  have io2: "io_step s s2" by (rule io_step_trans [OF s1(2) s2(2)])
  let ?t = "set_node p ?n s2"
  have st: "fs_step s ?t" "fs_block_bitmap ?t = fs_block_bitmap s" "fs_nodes ?t = (fs_nodes s)(p \<mapsto> ?n)"
    using fs_step_trans [OF io_fs_step [OF io2] set_node_fs_step] io_step_fields [OF io2] by auto
  note bs = same_bitmap_blocks [OF st(1,2)]
  have ni: "unat (in_indirect n) \<noteq> unat lba" using d(8) k(2) by (metis word_unat_eq_iff)
  have nl: "node_lbas ?t ?n = node_lbas s n" using ni b2 by (simp add: node_lbas_def)
  have bl: "dir_blocks ?t ?n = dir_blocks s n" using nl by (simp add: dir_blocks_def)
  have add: "slots_add (dir_slots s n) e (dir_slots ?t ?n)"
  proof -
    have "\<exists>A B. dir_slots s n = A @ sector_entries ?b @ B \<and> dir_slots ?t ?n = A @ sector_entries (fs_blocks ?t (unat lba)) @ B"
      unfolding dir_slots_def bl
      by (rule concat_put_block [OF d(7) k(2)]) (simp add: b2 word_unat_eq_iff [symmetric])
    then obtain A B where ab: "dir_slots s n = A @ sector_entries ?b @ B" "dir_slots ?t ?n = A @ (sector_entries ?b)[j := e] @ B"
      using b2 sector_entries_overwrite [OF el j(2) len] by auto
    let ?x = "sector_entries ?b ! j"
    have un: "entry_is_unknown ?x" using j by (simp add: sector_entries_def)
    have "?x \<in> set (dir_slots s n)" using ab(1) j(2) by simp
    then have "slot_ok ?x" by (rule d(9))
    then show ?thesis
      unfolding slots_add_def ab using un j(2) id_take_nth_drop [of j "sector_entries ?b"] upd_conv_take_nth_drop [of j "sector_entries ?b" e]
      by (intro exI [of _ "A @ take j (sector_entries ?b)"] exI [of _ "[?x]"] exI [of _ "[]"] exI [of _ "drop (Suc j) (sector_entries ?b) @ B"])
        simp
  qed
  have "dir_ok ?t ?n"
    by (rule dir_ok_added [OF ok(2,3) add]) (use d bs(4) bl in simp_all)
  then have "entry_added p n e s ?t ?n"
    using st bs ok(1) add b2 k(2) db areas(2) [OF pk] by (auto simp: entry_added_def data_blk_def)
  moreover have "SyncDirEntry_loop p e (k # js) lbas buf s = Some (True, ?w, ?t)"
    using k lb(1) s1(1) j(1) s2(1) buf grow_dir_ok [of s2 p n] io_step_fields(8) [OF io2] ok(4)
    by (simp add: LoadDirEntries_buf_def dir_entry_count)
  ultimately show ?thesis using lw by blast
qed

text \<open>A new block of the directory.\<close>

lemma entries_of_zeros:
  "x \<in> set (sector_entries (replicate sector_size 0)) \<Longrightarrow> entry_is_unknown x \<and> slot_ok x"
proof -
  assume "x \<in> set (sector_entries (replicate sector_size 0))"
  then obtain j where j: "j < 18" "x = entry_at (replicate sector_size 0) j" by (auto simp: sector_entries_def)
  have "x = \<lparr>de_type = 0, de_name = replicate name_array_len NUL, de_inode_idx = 0\<rparr>"
    unfolding j(2) entry_at_def using entry_of_zeros [of "sector_size - j * sizeof_DirEntry"] j(1)
    by (simp add: sizeof_DirEntry_def sector_size_def)
  then show ?thesis by (simp add: entry_is_unknown_def slot_ok_def entry_name_def name_array_len_def cstr_def)
qed

lemma new_block_entries:
  assumes "entry_ok e" "sector_size \<le> k"
  shows "\<exists>Z. sector_entries (chunk (overwrite (replicate k 0) 0 (bytes_of_entry e)) 0) = e # Z \<and> (\<forall>z\<in>set Z. entry_is_unknown z \<and> slot_ok z)"
proof -
  let ?z = "replicate sector_size 0 :: u8 list"
  have el: "length (de_name e) = name_array_len" using assms(1) by (simp add: entry_ok_def)
  have "replicate k 0 = ?z @ replicate (k - sector_size) 0" using assms(2) by (simp flip: replicate_add)
  then have "chunk (overwrite (replicate k 0) 0 (bytes_of_entry e)) 0 = overwrite ?z 0 (bytes_of_entry e)"
    using first_sector [of ?z 0 "bytes_of_entry e"] el by (simp add: sizeof_DirEntry_def sector_size_def)
  moreover have "sector_entries (overwrite ?z 0 (bytes_of_entry e)) = (sector_entries ?z)[0 := e]"
    using sector_entries_overwrite [OF el, of 0 ?z] by simp
  moreover obtain x Z where xz: "sector_entries ?z = x # Z" by (cases "sector_entries ?z") (auto dest: arg_cong [where f = length])
  moreover have "entry_is_unknown z \<and> slot_ok z" if "z \<in> set Z" for z using entries_of_zeros [of z] that xz by simp
  ultimately show ?thesis by auto
qed

lemma filter_put_nonzero:
  assumes "k < length xs" "xs ! k = 0" "v \<noteq> (0 :: u32)"
  obtains A B where "filter (\<lambda>b. b \<noteq> 0) xs = A @ B" "filter (\<lambda>b. b \<noteq> 0) (xs[k := v]) = A @ v # B"
proof
  have "xs = take k xs @ 0 # drop (Suc k) xs" unfolding assms(2) [symmetric] by (rule id_take_nth_drop [OF assms(1)])
  from arg_cong [OF this, of "filter (\<lambda>b. b \<noteq> 0)"]
  show "filter (\<lambda>b. b \<noteq> 0) xs = filter (\<lambda>b. b \<noteq> 0) (take k xs) @ filter (\<lambda>b. b \<noteq> 0) (drop (Suc k) xs)" by simp
  show "filter (\<lambda>b. b \<noteq> 0) (xs[k := v]) = filter (\<lambda>b. b \<noteq> 0) (take k xs) @ v # filter (\<lambda>b. b \<noteq> 0) (drop (Suc k) xs)"
    unfolding upd_conv_take_nth_drop [OF assms(1)] using assms(3) by simp
qed

lemma slots_add_block:
  assumes "dir_blocks s n = A @ B" "dir_blocks t n' = A @ lba # B"
    and same: "\<forall>b \<in> set A \<union> set B. fs_blocks t (unat b) = fs_blocks s (unat b)"
    and Z: "sector_entries (fs_blocks t (unat lba)) = e # Z" "\<forall>z\<in>set Z. entry_is_unknown z \<and> slot_ok z"
  shows "slots_add (dir_slots s n) e (dir_slots t n')"
proof -
  let ?f = "\<lambda>b. sector_entries (fs_blocks s (unat b))" and ?g = "\<lambda>b. sector_entries (fs_blocks t (unat b))"
  have m: "map ?g A = map ?f A" "map ?g B = map ?f B" using same by simp_all
  have "dir_slots s n = concat (map ?f A) @ [] @ concat (map ?f B)" by (simp add: dir_slots_def assms(1))
  moreover have "dir_slots t n' = concat (map ?f A) @ e # Z @ concat (map ?f B)"
    unfolding dir_slots_def assms(2) map_append list.map concat_append concat.simps m Z(1) by simp
  ultimately show ?thesis unfolding slots_add_def using Z(2) by (metis Un_iff empty_iff list.set(1))
qed

text \<open>A fresh block that is put into the first free entry of the node of a directory holds the new entry.\<close>

lemma dir_block_added:
  assumes d: "dir_ok s n" and e: "entry_ok e" and pk: "part_ok s" and k: "k < 12" "in_direct n ! k = 0"
    and b: "data_lba s \<le> unat lba" "unat lba < part_end s" "\<not> blk_used s (unat lba)" and st: "fs_step s t"
    and used: "\<forall>l. blk_used t l \<longleftrightarrow> blk_used s l \<or> l = unat lba"
    and same: "\<forall>l. data_lba s \<le> l \<and> l \<noteq> unat lba \<longrightarrow> fs_blocks t l = fs_blocks s l"
    and Z: "sector_entries (fs_blocks t (unat lba)) = e # Z" "\<forall>z\<in>set Z. entry_is_unknown z \<and> slot_ok z"
    and n': "n' = n\<lparr>in_direct := (in_direct n)[k := lba], in_size := in_size n + 28\<rparr>"
  shows "dir_ok t n' \<and> slots_add (dir_slots s n) e (dir_slots t n')"
proof -
  note d' = dir_okD [OF d]
  have mono: "data_blk t c" if "data_blk s c" for c by (rule data_blk_mono [OF st _ that]) (simp add: used)
  have dl: "data_blk t lba" using b(1,2) used fs_step_fields [OF st] by (simp add: data_blk_def)
  have sameb: "fs_blocks t (unat c) = fs_blocks s (unat c)" if "data_blk s c" for c
  proof -
    have "unat c \<noteq> unat lba" using that b(3) by (auto simp: data_blk_def)
    then show ?thesis using that same by (simp add: data_blk_def)
  qed
  have nl: "node_lbas t n' = (node_lbas s n)[k := lba]"
    using sameb d'(1,6) k(1) by (auto simp: n' node_lbas_def list_update_append)
  have l0: "lba \<noteq> 0" using b(1) data_lba_bounds [OF pk] by auto
  have "k < length (node_lbas s n)" "node_lbas s n ! k = 0" using k d'(1,10) by (simp_all add: node_lbas_def nth_append)
  then obtain A B where blks: "dir_blocks s n = A @ B" "dir_blocks t n' = A @ lba # B"
    unfolding dir_blocks_def nl using l0 by (rule filter_put_nonzero)
  have "lba \<notin> set (dir_blocks s n)" using d'(5) b(3) by (auto simp: data_blk_def)
  then have fresh: "lba \<notin> set A" "lba \<notin> set B" unfolding blks(1) by simp_all
  have add: "slots_add (dir_slots s n) e (dir_slots t n')"
    using sameb [OF d'(5)] blks(1) by (intro slots_add_block [OF blks _ Z]) simp
  have "dir_ok t n'"
    unfolding n'
  proof (rule dir_ok_added [OF d e], fold n')
    show "slots_add (dir_slots s n) e (dir_slots t n')" by (fact add)
    show "data_blk t c" if "c \<in> set (dir_blocks t n')" for c using that dl mono d'(5) unfolding blks by auto
    show "data_blk t (in_indirect n)" if "in_indirect n \<noteq> 0" using mono [OF d'(6) [OF that]] .
    show "distinct (dir_blocks t n')" using d'(7) fresh unfolding blks by auto
    have "in_indirect n \<noteq> lba" using d'(6) b(3) l0 by (cases "in_indirect n = 0") (auto simp: data_blk_def)
    then show "in_indirect n \<notin> set (dir_blocks t n')" using d'(8) unfolding blks by auto
  qed (use d' n' in simp_all)
  with add show ?thesis by blast
qed

lemma SyncDirEntry_block:
  assumes ok: "blocks_ok s" "dir_ok s n" "entry_ok e" "fs_nodes s p = Some n" and buf: "sector_size \<le> length buf"
    and k: "k < 12" "in_direct n ! k = 0" and free: "free_blocks s \<noteq> {}"
  shows "\<exists>buf' t n'. SyncDirEntry_new p e k lbas buf s = Some (True, buf', t) \<and> length buf' = length buf \<and> entry_added p n e s t n'"
proof -
  have pk: "part_ok s" and io: "io_ok s" using blocks_okD [OF ok(1)] by simp_all
  obtain lba bm where a: "FilePart_AllocBlock s = Some (lba, s\<lparr>fs_block_bitmap := bm\<rparr>)" "lba \<noteq> of_nat npos"
    "data_lba s \<le> unat lba" "unat lba < part_end s" "\<not> blk_used s (unat lba)"
    "\<forall>u. fs_step (s\<lparr>fs_block_bitmap := bm\<rparr>) u \<and> fs_block_bitmap u = bm \<and> fs_blocks u = fs_blocks s \<longrightarrow>
       (\<exists>t. FilePart_SyncBlockBitmap lba u = Some t \<and> new_block lba s t \<and> fs_nodes t = fs_nodes u)"
    by (rule alloc_new_block [OF ok(1) free])
  let ?s1 = "s\<lparr>fs_block_bitmap := bm\<rparr>"
  have "fs_step ?s1 ?s1" using fs_step_refl fs_step_fields(1) [OF bitmap_fs_step [OF io]] by blast
  moreover have "fs_blocks ?s1 = fs_blocks s" by (simp add: fs_blocks_def)
  ultimately obtain s2 where s2: "FilePart_SyncBlockBitmap lba ?s1 = Some s2" "new_block lba s s2" "fs_nodes s2 = fs_nodes s"
    using a(6) by auto
  have n2: "fs_step s s2" "blocks_ok s2" "\<forall>l. blk_used s2 l \<longleftrightarrow> blk_used s l \<or> l = unat lba"
    "\<forall>l. inodes_lba s \<le> l \<longrightarrow> fs_blocks s2 l = fs_blocks s l" using s2(2) by (simp_all add: new_block_def)
  let ?n1 = "n\<lparr>in_direct := (in_direct n)[k := lba]\<rparr>"
  let ?s3 = "set_node p ?n1 s2" and ?w = "overwrite (replicate (length buf) 0) 0 (bytes_of_entry e)"
  have s23: "fs_step s2 ?s3" by (rule set_node_fs_step [OF fs_step_fields(1) [OF n2(1)]])
  have lb: "unat lba + 1 \<le> unat max_lba" using a(4) data_lba_bounds [OF pk] by simp
  have lw: "length ?w = length buf" using ok(3) buf by (simp add: entry_ok_def sizeof_DirEntry_def sector_size_def)
  obtain s4 where s4: "WriteSectors lba ?w 1 ?s3 = Some s4" "io_step ?s3 s4" "fs_blocks s4 = put_run (fs_blocks ?s3) (unat lba) 1 ?w"
    using write_ok [OF fs_step_fields(1) [OF s23], of 1 lba ?w] lb lw buf by auto
  let ?n = "?n1\<lparr>in_size := in_size n + 28\<rparr>"
  let ?t = "set_node p ?n s4"
  have bt: "fs_blocks ?t l = (if l = unat lba then chunk ?w 0 else fs_blocks s2 l)" for l using s4(3) by (auto simp: put_run_def)
  have s3t: "fs_step ?s3 ?t" "fs_block_bitmap ?t = fs_block_bitmap s2" "fs_nodes ?t = (fs_nodes s)(p \<mapsto> ?n)"
    using fs_step_trans [OF io_fs_step [OF s4(2)] set_node_fs_step] io_step_fields [OF s4(2)] s2(3) by auto
  have s2t: "fs_step s2 ?t" by (rule fs_step_trans [OF s23 s3t(1)])
  have st: "fs_step s ?t" by (rule fs_step_trans [OF n2(1) s2t])
  have bs: "blk_used ?t = blk_used s2" "blocks_ok ?t" using same_bitmap_blocks [OF s2t s3t(2)] n2(2) by simp_all
  obtain Z where Z: "sector_entries (fs_blocks ?t (unat lba)) = e # Z" "\<forall>z\<in>set Z. entry_is_unknown z \<and> slot_ok z"
    using new_block_entries [OF ok(3) buf] bt by auto
  have "dir_ok ?t ?n \<and> slots_add (dir_slots s n) e (dir_slots ?t ?n)"
    by (rule dir_block_added [OF ok(2,3) pk k a(3-5) st _ _ Z]) (use n2(3,4) bs(1) bt areas(2) [OF pk] in auto)
  then have "entry_added p n e s ?t ?n"
    unfolding entry_added_def
  proof (intro conjI)
    show "\<forall>l. inodes_lba s \<le> l \<and> l < data_lba s \<or> blk_used s l \<and> l \<notin> unat ` set (dir_blocks s n) \<longrightarrow> fs_blocks ?t l = fs_blocks s l"
      using n2(4) bt a(3,5) areas(2) [OF pk] by (auto simp: blk_used_def)
  qed (use st bs s3t n2(3) in simp_all)
  moreover have "SyncDirEntry_new p e k lbas buf s = Some (True, ?w, ?t)"
  proof -
    have "memset buf 0 (length buf) = Some (replicate (length buf) 0)" by (induction buf) simp_all
    moreover have "SyncDirEntry_link p k (lbas[k := lba]) lba s2 = Some (True, ?s3)"
      using k(1) s2(3) ok(4) by (simp add: SyncDirEntry_link_def IdxNode_SetDirectLba_def inode_consts)
    moreover have "fs_nodes s4 p = Some ?n1" using io_step_fields(8) [OF s4(2)] by simp
    ultimately show ?thesis using a(1,2) s2(1) s4(1) grow_dir_ok [of s4 p ?n1] by (simp add: SyncDirEntry_new_def)
  qed
  ultimately show ?thesis using lw by blast
qed

text \<open>
  There is room for an entry: the first sector that is missing or has a free slot is one of the directory, or a direct one for
  which a block is free.
\<close>

definition dir_stop :: "file_sys \<Rightarrow> u32 list \<Rightarrow> nat \<Rightarrow> bool" where
  "dir_stop s lbas i \<longleftrightarrow> lbas ! i = 0 \<or> (\<exists>e\<in>set (sector_entries (fs_blocks s (unat (lbas ! i)))). entry_is_unknown e)"

definition dir_room :: "file_sys \<Rightarrow> idx_node \<Rightarrow> bool" where
  "dir_room s n \<longleftrightarrow> (case find (dir_stop s (node_lbas s n)) [0..<140] of
     None \<Rightarrow> False
   | Some k \<Rightarrow> node_lbas s n ! k \<noteq> 0 \<or> k < direct_block_count \<and> free_blocks s \<noteq> {})"

lemma entry_added_io:
  assumes "io_step s s'" "fs_blocks s' = fs_blocks s" "entry_added p n e s' t n'"
  shows "entry_added p n e s t n'"
proof -
  have st: "fs_step s s'" by (rule io_fs_step [OF assms(1)])
  have "dir_blocks s' n = dir_blocks s n" "dir_slots s' n = dir_slots s n"
    by (simp_all add: dir_slots_def dir_blocks_def node_lbas_def assms(2))
  moreover have "blk_used s' = blk_used s" by (rule same_bitmap_blocks(1) [OF st]) (simp add: io_step_fields [OF assms(1)])
  ultimately show ?thesis
    using assms fs_step_trans [OF st] fs_step_fields [OF st] io_step_fields [OF assms(1)] by (simp add: entry_added_def)
qed

lemma dir_ok_io:
  assumes "io_step s s'" "fs_blocks s' = fs_blocks s"
  shows "dir_ok s' n \<longleftrightarrow> dir_ok s n" "blocks_ok s \<Longrightarrow> blocks_ok s'" "free_blocks s' = free_blocks s" "node_lbas s' n = node_lbas s n"
proof -
  have st: "fs_step s s'" by (rule io_fs_step [OF assms(1)])
  have bm: "fs_block_bitmap s' = fs_block_bitmap s" by (simp add: io_step_fields [OF assms(1)])
  note b = same_bitmap_blocks [OF st bm]
  show nl: "node_lbas s' n = node_lbas s n" by (simp add: node_lbas_def assms(2))
  show "blocks_ok s \<Longrightarrow> blocks_ok s'" "free_blocks s' = free_blocks s" using b by simp_all
  show "dir_ok s' n \<longleftrightarrow> dir_ok s n"
    using b(4) nl by (simp add: dir_ok_def dir_slots_def dir_blocks_def assms(2))
qed

lemma SyncDirEntry_ok:
  assumes ok: "blocks_ok s" "dir_ok s n" "entry_ok e" and p: "dr_inode dir = Some p" "fs_nodes s p = Some n"
    and buf: "sector_size \<le> length buf" and room: "dir_room s n"
  shows "\<exists>buf' t n'. FilePart_SyncDirEntry dir e buf s = Some (True, buf', t) \<and> length buf' = length buf \<and> entry_added p n e s t n'"
proof -
  note d = dir_okD [OF ok(2)]
  have pk: "part_ok s" using blocks_okD [OF ok(1)] by simp
  let ?l = "node_lbas s n"
  obtain s1 where s1: "LoadNodeLbas n s = Some (?l, s1)" "io_step s s1" "fs_blocks s1 = fs_blocks s"
    using LoadNodeLbas_ok [OF pk d(1,6)] by blast
  obtain k where k: "find (dir_stop s ?l) [0..<140] = Some k" "?l ! k \<noteq> 0 \<or> k < 12 \<and> free_blocks s \<noteq> {}"
    using room by (auto simp: dir_room_def inode_consts split: option.splits)
  then have k1: "k < 140" "dir_stop s ?l k" "\<And>i. i < k \<Longrightarrow> \<not> dir_stop s ?l i" by (auto simp: find_Some_iff)
  have inb: "?l ! i \<in> set (dir_blocks s n)" if "i < 140" "?l ! i \<noteq> 0" for i using that d(10) by (simp add: dir_blocks_def)
  have "[0..<140] = [0..<k] @ k # [Suc k..<140]" using k1(1) upt_add_eq_append [of 0 k "140 - k"] upt_conv_Cons [of k 140] by simp
  then have idx: "[0..<length ?l] = [0..<k] @ k # [Suc k..<140]" using d(10) by simp
  obtain b2 s2 where s2: "SyncDirEntry_loop p e ([0..<k] @ k # [Suc k..<140]) ?l buf s1 = SyncDirEntry_loop p e (k # [Suc k..<140]) ?l b2 s2"
    "length b2 = length buf" "io_step s1 s2" "fs_blocks s2 = fs_blocks s1"
  proof -
    have "\<exists>b2 s2. SyncDirEntry_loop p e ([0..<k] @ k # [Suc k..<140]) ?l buf s1 = SyncDirEntry_loop p e (k # [Suc k..<140]) ?l b2 s2 \<and>
      length b2 = length buf \<and> io_step s1 s2 \<and> fs_blocks s2 = fs_blocks s1"
    proof (rule SyncDirEntry_skip [OF io_step_fields(1) [OF s1(2)] buf])
      fix i assume "i \<in> set [0..<k]"
      then have i: "i < 140" "?l ! i \<noteq> 0" "\<forall>e\<in>set (sector_entries (fs_blocks s (unat (?l ! i)))). \<not> entry_is_unknown e"
        using k1 by (auto simp: dir_stop_def)
      then show "?l ! i \<noteq> 0 \<and> unat (?l ! i) + 1 \<le> unat max_lba \<and>
          (\<forall>e\<in>set (sector_entries (fs_blocks s1 (unat (?l ! i)))). \<not> entry_is_unknown e)"
        using data_blk_bounds(2) [OF pk d(5) [OF inb]] s1(3) by simp
    qed
    then show thesis using that by blast
  qed
  have s02: "io_step s s2" "fs_blocks s2 = fs_blocks s" using io_step_trans [OF s1(2) s2(3)] s1(3) s2(4) by simp_all
  note e2 = dir_ok_io [OF s02]
  have n2: "fs_nodes s2 p = Some n" using io_step_fields [OF s02(1)] p(2) by simp
  have ok2: "blocks_ok s2" "dir_ok s2 n" using e2(1,2) ok(1,2) by simp_all
  have "\<exists>buf' t n'. SyncDirEntry_loop p e (k # [Suc k..<140]) ?l b2 s2 = Some (True, buf', t) \<and> length buf' = length b2 \<and> entry_added p n e s2 t n'"
  proof (cases "?l ! k = 0")
    case True
    then have "k < 12" "free_blocks s2 \<noteq> {}" "in_direct n ! k = 0" using k(2) e2(3) d(1) by (auto simp: node_lbas_def nth_append)
    then show ?thesis using SyncDirEntry_block [OF ok2 ok(3) n2, of b2 k ?l] buf s2(2) True by simp
  next
    case False
    have "?l ! k \<in> set (dir_blocks s2 n)" using inb [OF k1(1) False] e2(4) by (simp add: dir_blocks_def)
    moreover have "\<exists>x\<in>set (sector_entries (fs_blocks s2 (unat (?l ! k)))). entry_is_unknown x"
      using k1(2) False s02(2) by (simp add: dir_stop_def)
    ultimately show ?thesis
      using SyncDirEntry_slot [OF ok2 ok(3) n2, of b2 "?l ! k" ?l k "[Suc k..<140]"] buf s2(2) by auto
  qed
  then obtain buf' t n' where t: "SyncDirEntry_loop p e (k # [Suc k..<140]) ?l b2 s2 = Some (True, buf', t)" "length buf' = length buf"
    "entry_added p n e s2 t n'" using s2(2) by auto
  have "FilePart_SyncDirEntry dir e buf s = Some (True, buf', t)"
    using p s1(1) s2(1) t(1) buf d(12) idx by (simp add: FilePart_SyncDirEntry_def Directory_IsOpen_def del: SyncDirEntry_loop.simps)
  then show ?thesis using t(2) entry_added_io [OF s02 t(3)] by blast
qed

section \<open>Properties of directories\<close>


text \<open>A directory with its two first entries in the first block of the data area.\<close>

definition demo_dir :: idx_node where
  "demo_dir = \<lparr>in_idx = 0, in_size = 56, in_open_times = 1, in_write_deny = False, in_direct = 712 # replicate 11 0, in_indirect = 0\<rparr>"

definition demo_dir_fs :: file_sys where
  "demo_dir_fs = demo_file_fs\<lparr>fs_nodes := [5 \<mapsto> demo_dir], fs_chnl := blank_chnl\<lparr>ch_dev := (ch_dev blank_chnl)
     \<lparr>at_sectors := \<lambda>_ l. if l = 712 then root_block else replicate sector_size 0\<rparr>\<rparr>\<rparr>"

lemma demo_dir_fs_ok: "blocks_ok demo_dir_fs" "dir_ok demo_dir_fs demo_dir" "fs_nodes demo_dir_fs 5 = Some demo_dir"
  "dir_slots demo_dir_fs demo_dir = sector_entries root_block" "dir_room demo_dir_fs demo_dir"
proof -
  let ?s = demo_dir_fs
  have pk: "part_ok ?s"
    using demo_fs_ok(1) blank_chnl_ok root_block_entries(1)
    by (simp add: demo_dir_fs_def demo_file_fs_def demo_fs_def part_ok_def io_ok_def chnl_ok_def)
  have sup: "super_of ?s = super_of demo_file_fs" by (simp add: super_of_def demo_dir_fs_def)
  have same: "data_lba ?s = data_lba demo_file_fs" "part_end ?s = part_end demo_file_fs" "fs_block_bitmap ?s = fs_block_bitmap demo_file_fs"
    using sup by (simp_all add: data_lba_def part_end_def demo_dir_fs_def)
  then have "free_blocks ?s = free_blocks demo_file_fs" by (simp add: free_blocks_def block_cap_def)
  then show "blocks_ok ?s" using demo_blocks_ok(1) pk same sup by (simp add: blocks_ok_def)
  show "fs_nodes ?s 5 = Some demo_dir" by (simp add: demo_dir_fs_def)
  have bl: "dir_blocks ?s demo_dir = [712]" by (simp add: dir_blocks_def node_lbas_def demo_dir_def)
  have rb: "fs_blocks ?s 712 = root_block" by (simp add: fs_blocks_def demo_dir_fs_def)
  show sl: "dir_slots ?s demo_dir = sector_entries root_block" using bl rb by (simp add: dir_slots_def)
  have "[0..<18] = 0 # 1 # [2..<18]" by (simp add: upt_rec)
  then have se: "sector_entries root_block = dot_entries 0 0 ! 0 # dot_entries 0 0 ! 1 # map (entry_at root_block) [2..<18]"
    using root_block_entries(2,3) by (simp add: sector_entries_def)
  have z: "entry_at root_block j = \<lparr>de_type = 0, de_name = replicate name_array_len NUL, de_inode_idx = 0\<rparr>" if "2 \<le> j" "j < 18" for j
  proof -
    have "length (concat (map bytes_of_entry (dot_entries 0 0))) = 56" by (simp add: dot_entries_def bytes_of_entry_def)
    then have "drop (j * 28) root_block = replicate (512 - j * 28) 0"
      using that by (simp add: root_block_def sizeof_DirEntry_def sector_size_def)
    then show ?thesis using that entry_of_zeros [of "512 - j * 28"] by (simp add: entry_at_def sizeof_DirEntry_def)
  qed
  have "filter (\<lambda>e. \<not> entry_is_unknown e) (map (entry_at root_block) [2..<18]) = []"
    using z by (auto simp: filter_empty_conv entry_is_unknown_def)
  then have "entry_count (dir_slots ?s demo_dir) = 2"
    unfolding sl se by (simp add: entry_count_def dot_entries_def entry_is_unknown_def)
  moreover have "slot_ok x" if "x \<in> set (dir_slots ?s demo_dir)" for x
    using that z unfolding sl se
    by (auto simp: slot_ok_def dot_entries_def entry_is_unknown_def entry_name_def cstr_def name_array_len_def)
  moreover have "data_blk ?s 712"
    using demo_file_fs_ok(3) same by (simp add: file_ok_def owned_def node_lbas_def sect_count_def demo_node_def data_blk_def blk_used_def)
  ultimately show "dir_ok ?s demo_dir"
    using bl by (auto simp: dir_ok_def demo_dir_def max_file_count_per_part_def)
  have nl: "node_lbas ?s demo_dir ! 0 = 712" by (simp add: node_lbas_def demo_dir_def)
  have "entry_at root_block 2 \<in> set (sector_entries root_block)" by (auto simp: sector_entries_def)
  then have "dir_stop ?s (node_lbas ?s demo_dir) 0"
    using rb z [of 2] by (auto simp: dir_stop_def nl entry_is_unknown_def intro!: bexI [of _ "entry_at root_block 2"])
  moreover have "[0..<140] = 0 # [1..<140]" by (simp add: upt_rec)
  ultimately show "dir_room ?s demo_dir" by (simp add: dir_room_def nl)
qed


end
