(* ===== verification/Files.thy ===== *)
theory Files
  imports Dirs
begin

text \<open>
  The file system as the kernel and the system calls use it: the table of open files (\<^verbatim>\<open>io/disk/file/file.h\<close>), the table of
  descriptors of a thread (\<^verbatim>\<open>thread/thd.h\<close>), paths, and the operations of \<^verbatim>\<open>io/disk/part.cpp\<close>, \<^verbatim>\<open>io/file/file.cpp\<close> and
  \<^verbatim>\<open>io/file/dir.cpp\<close> that open, create and delete files and directories.
\<close>

section \<open>State\<close>

text \<open>
  The default partition, the static root directory, the directories on the heap, the table of open files and the descriptors
  of the running thread.
\<close>

datatype dir_ref = RootDir | HeapDir nat

record files_sys =
  sf_fs :: file_sys
  sf_root :: directory
  sf_dirs :: "nat \<Rightarrow> directory option"
  sf_next :: nat
  sf_tab :: "open_file list"
  sf_descs :: "u32 list"

definition in_part :: "(file_sys \<Rightarrow> ('a \<times> file_sys) option) \<Rightarrow> files_sys \<Rightarrow> ('a \<times> files_sys) option" where
  "in_part f s = do { (x, fs) \<leftarrow> f (sf_fs s); Some (x, s\<lparr>sf_fs := fs\<rparr>) }"

definition on_part :: "(file_sys \<Rightarrow> file_sys option) \<Rightarrow> files_sys \<Rightarrow> files_sys option" where
  "on_part f s = do { fs \<leftarrow> f (sf_fs s); Some (s\<lparr>sf_fs := fs\<rparr>) }"

fun get_dir :: "dir_ref \<Rightarrow> files_sys \<Rightarrow> directory option" where
  "get_dir RootDir s = Some (sf_root s)"
| "get_dir (HeapDir d) s = sf_dirs s d"

fun Directory_Close :: "dir_ref \<Rightarrow> files_sys \<Rightarrow> files_sys option" where
  "Directory_Close RootDir s = Some s"
| "Directory_Close (HeapDir d) s = do {
     dir \<leftarrow> sf_dirs s d;
     p \<leftarrow> dr_inode dir;
     s \<leftarrow> on_part (IdxNode_Close p) s;
     Some (s\<lparr>sf_dirs := (sf_dirs s)(d := None)\<rparr>)
   }"

definition FilePart_OpenRootDir :: "files_sys \<Rightarrow> files_sys option" where
  "FilePart_OpenRootDir s = do {
     let inode = dr_inode (sf_root s);
     sb \<leftarrow> FilePart_GetSuperBlock (sf_fs s);
     (p, s) \<leftarrow> in_part (FilePart_OpenNode (sb_root_inode_idx sb)) s;
     let s = s\<lparr>sf_root := \<lparr>dr_inode = Some p, dr_pos = 0\<rparr>\<rparr>;
     case inode of None \<Rightarrow> Some s | Some q \<Rightarrow> on_part (IdxNode_Close q) s
   }"

definition FilePart_OpenDir :: "u32 \<Rightarrow> files_sys \<Rightarrow> (dir_ref \<times> files_sys) option" where
  "FilePart_OpenDir inode_idx s = do {
     let d = sf_next s;
     (p, s) \<leftarrow> in_part (FilePart_OpenNode inode_idx) s;
     Some (HeapDir d, s\<lparr>sf_dirs := (sf_dirs s)(d \<mapsto> \<lparr>dr_inode = Some p, dr_pos = 0\<rparr>), sf_next := d + 1\<rparr>)
   }"

section \<open>Descriptors\<close>

definition max_open_file_times :: nat where "max_open_file_times = 32"
definition max_open_file_count :: nat where "max_open_file_count = 8"
definition std_stream_count :: nat where "std_stream_count = 3"
definition std_in :: u32 where "std_in = 0"
definition std_out :: u32 where "std_out = 1"
definition std_err :: u32 where "std_err = 2"

definition no_desc :: u32 where "no_desc = of_nat npos"

definition FileDesc_IsValid :: "u32 \<Rightarrow> bool" where
  "FileDesc_IsValid desc \<longleftrightarrow> desc \<noteq> of_nat npos"

text \<open>The table of open files of the system.\<close>

definition FileTab_GetFreeDesc :: "open_file list \<Rightarrow> u32" where
  "FileTab_GetFreeDesc files =
     (case find (\<lambda>i. \<not> File_IsOpen (files ! i)) [std_stream_count..<length files] of
        Some i \<Rightarrow> of_nat i
      | None \<Rightarrow> of_nat npos)"

fun FileTab_Contain_loop :: "u32 \<Rightarrow> open_file list \<Rightarrow> file_sys \<Rightarrow> bool option" where
  "FileTab_Contain_loop inode_idx [] s = Some False"
| "FileTab_Contain_loop inode_idx (f # fs) s =
     (if File_IsOpen f
      then do {
        i \<leftarrow> File_GetNodeIdx f s;
        if i = inode_idx then Some True else FileTab_Contain_loop inode_idx fs s
      }
      else FileTab_Contain_loop inode_idx fs s)"

definition FileTab_Contain :: "u32 \<Rightarrow> files_sys \<Rightarrow> bool option" where
  "FileTab_Contain inode_idx s = FileTab_Contain_loop inode_idx (drop std_stream_count (sf_tab s)) (sf_fs s)"

definition FileTab_get :: "u32 \<Rightarrow> files_sys \<Rightarrow> open_file option" where
  "FileTab_get desc s = do { Assert (unat desc < length (sf_tab s)); Some (sf_tab s ! unat desc) }"

definition FileTab_put :: "u32 \<Rightarrow> open_file \<Rightarrow> files_sys \<Rightarrow> files_sys option" where
  "FileTab_put desc f s = do { Assert (unat desc < length (sf_tab s)); Some (s\<lparr>sf_tab := (sf_tab s)[unat desc := f]\<rparr>) }"

text \<open>The table of descriptors of a thread.\<close>

definition FileDescTab_Init :: "u32 list" where
  "FileDescTab_Init = [std_in, std_out, std_err] @ replicate (max_open_file_count - std_stream_count) (of_nat npos)"

definition FileDescTab_SyncGlobal :: "u32 \<Rightarrow> u32 list \<Rightarrow> u32 \<times> u32 list" where
  "FileDescTab_SyncGlobal global descs =
     (case find (\<lambda>i. \<not> FileDesc_IsValid (descs ! i)) [std_stream_count..<length descs] of
        Some i \<Rightarrow> (of_nat i, descs[i := global])
      | None \<Rightarrow> (no_desc, descs))"

definition FileDescTab_GetGlobal :: "u32 \<Rightarrow> u32 list \<Rightarrow> u32 option" where
  "FileDescTab_GetGlobal local descs = do {
     Assert (std_stream_count \<le> unat local \<and> unat local < length descs);
     let global = descs ! unat local;
     Assert (FileDesc_IsValid global);
     Some global
   }"

definition FileDescTab_Reset :: "u32 \<Rightarrow> u32 list \<Rightarrow> u32 list option" where
  "FileDescTab_Reset local descs = do {
     Assert (std_stream_count \<le> unat local \<and> unat local < length descs);
     Some (descs[unat local := of_nat npos])
   }"

text \<open>Forking counts every open file once more.\<close>

fun FileDescTab_Fork_loop :: "u32 list \<Rightarrow> files_sys \<Rightarrow> files_sys option" where
  "FileDescTab_Fork_loop [] s = Some s"
| "FileDescTab_Fork_loop (desc # descs) s = do {
     s \<leftarrow> (if FileDesc_IsValid desc
          then do {
            f \<leftarrow> FileTab_get desc s;
            p \<leftarrow> fl_inode f;
            inode \<leftarrow> fs_nodes (sf_fs s) p;
            Assert (in_open_times inode > 0);
            Some (s\<lparr>sf_fs := set_node p (inode\<lparr>in_open_times := in_open_times inode + 1\<rparr>) (sf_fs s)\<rparr>)
          }
          else Some s);
     FileDescTab_Fork_loop descs s
   }"

definition FileDescTab_Fork :: "files_sys \<Rightarrow> files_sys option" where
  "FileDescTab_Fork s = FileDescTab_Fork_loop (drop std_stream_count (sf_descs s)) s"

definition ProcFileDescTab_SyncGlobal :: "u32 \<Rightarrow> files_sys \<Rightarrow> u32 \<times> files_sys" where
  "ProcFileDescTab_SyncGlobal global s =
     (case FileDescTab_SyncGlobal global (sf_descs s) of (local, descs) \<Rightarrow> (local, s\<lparr>sf_descs := descs\<rparr>))"

definition ProcFileDescTab_GetGlobal :: "u32 \<Rightarrow> files_sys \<Rightarrow> u32 option" where
  "ProcFileDescTab_GetGlobal local s = FileDescTab_GetGlobal local (sf_descs s)"

definition ProcFileDescTab_Reset :: "u32 \<Rightarrow> files_sys \<Rightarrow> files_sys option" where
  "ProcFileDescTab_Reset local s = do { descs \<leftarrow> FileDescTab_Reset local (sf_descs s); Some (s\<lparr>sf_descs := descs\<rparr>) }"

section \<open>Searching a path\<close>

record path_search =
  ps_searched :: "char list"
  ps_parent :: "dir_ref option"
  ps_type :: file_type
  ps_inode_idx :: u32

definition path_search_default :: path_search where
  "path_search_default = \<lparr>ps_searched = path_blank, ps_parent = None, ps_type = UnknownFile, ps_inode_idx = of_nat npos\<rparr>"

text \<open>
  One name of the path. The directory that is opened for the next name is the one of the index node recorded so far, which
  nothing has set to the node of the entry.
\<close>

definition search_visitor :: "string_view \<Rightarrow> char list \<Rightarrow> path_search \<times> u32 \<times> files_sys \<Rightarrow>
    (bool \<times> path_search \<times> u32 \<times> files_sys) option" where
  "search_visitor sub_path name st = do {
     let (record, parent_inode_idx, s) = st;
     name \<leftarrow> sv_of name;
     searched \<leftarrow> Path_Join (ps_searched record) name;
     let record = record\<lparr>ps_searched := searched\<rparr>;
     parent \<leftarrow> ps_parent record;
     dir \<leftarrow> get_dir parent s;
     (found, s) \<leftarrow> in_part (FilePart_SearchDirEntry dir name) s;
     case found of
       None \<Rightarrow> Some (False, record\<lparr>ps_type := UnknownFile\<rparr>, parent_inode_idx, s)
     | Some entry \<Rightarrow>
         if de_type entry = file_type_code DirectoryFile
         then do {
           parent_inode_idx \<leftarrow> Directory_GetNodeIdx dir (sf_fs s);
           s \<leftarrow> Directory_Close parent s;
           (child, s) \<leftarrow> FilePart_OpenDir (ps_inode_idx record) s;
           Some (True, record\<lparr>ps_type := DirectoryFile, ps_parent := Some child\<rparr>, parent_inode_idx, s)
         }
         else if de_type entry = file_type_code RegularFile
         then Some (False, record\<lparr>ps_type := RegularFile, ps_inode_idx := de_inode_idx entry\<rparr>, parent_inode_idx, s)
         else None
   }"

definition FilePart_SearchPath :: "char list \<Rightarrow> path_search \<Rightarrow> files_sys \<Rightarrow> (bool \<times> path_search \<times> files_sys) option" where
  "FilePart_SearchPath path record s = do {
     path \<leftarrow> sv_of path;
     absolute \<leftarrow> Path_IsAbsolute path;
     Assert absolute;
     root \<leftarrow> Path_IsRootDir path;
     if root
     then do {
       searched \<leftarrow> Path_Clear (ps_searched record);
       Some (True, record\<lparr>ps_inode_idx := root_inode_idx, ps_parent := Some RootDir, ps_type := DirectoryFile,
         ps_searched := searched\<rparr>, s)
     }
     else do {
       let record = record\<lparr>ps_type := UnknownFile, ps_parent := Some RootDir\<rparr>;
       (_, record, parent_inode_idx, s) \<leftarrow> Path_Visit path search_visitor (record, root_inode_idx, s);
       parent \<leftarrow> ps_parent record;
       dir \<leftarrow> get_dir parent s;
       Assert (Directory_IsOpen dir);
       if ps_type record \<noteq> UnknownFile
       then
         if ps_type record = DirectoryFile
         then do {
           s \<leftarrow> Directory_Close parent s;
           (parent, s) \<leftarrow> FilePart_OpenDir parent_inode_idx s;
           Some (True, record\<lparr>ps_parent := Some parent\<rparr>, s)
         }
         else Some (True, record, s)
       else Some (False, record, s)
     }
   }"

definition FilePart_OpenDirPath :: "char list \<Rightarrow> files_sys \<Rightarrow> (dir_ref option \<times> files_sys) option" where
  "FilePart_OpenDirPath path s = do {
     v \<leftarrow> sv_of path;
     absolute \<leftarrow> Path_IsAbsolute v;
     Assert absolute;
     root \<leftarrow> Path_IsRootDir v;
     if root then Some (Some RootDir, s)
     else do {
       (found, search, s) \<leftarrow> FilePart_SearchPath path path_search_default s;
       parent \<leftarrow> ps_parent search;
       if \<not> found then Some (None, s)
       else if ps_type search = RegularFile then Some (None, s)
       else do {
         s \<leftarrow> Directory_Close parent s;
         (dir, s) \<leftarrow> FilePart_OpenDir (ps_inode_idx search) s;
         Some (Some dir, s)
       }
     }
   }"

section \<open>Files by descriptor\<close>

definition file_of :: "u32 \<Rightarrow> files_sys \<Rightarrow> (u32 \<times> open_file) option" where
  "file_of desc s = do {
     idx \<leftarrow> ProcFileDescTab_GetGlobal desc s;
     f \<leftarrow> FileTab_get idx s;
     Some (idx, f)
   }"

definition FilePart_WriteFile_desc :: "u32 \<Rightarrow> u8 list \<Rightarrow> u32 \<Rightarrow> files_sys \<Rightarrow> (nat \<times> files_sys) option" where
  "FilePart_WriteFile_desc desc data sz s = do {
     (idx, f) \<leftarrow> file_of desc s;
     ((n, f), s) \<leftarrow> in_part (\<lambda>fs. do { (n, f, fs) \<leftarrow> FilePart_WriteFile f data sz fs; Some ((n, f), fs) }) s;
     s \<leftarrow> FileTab_put idx f s;
     Some (n, s)
   }"

definition FilePart_SeekFile_desc :: "u32 \<Rightarrow> u32 \<Rightarrow> seek_origin \<Rightarrow> files_sys \<Rightarrow> (u32 \<times> files_sys) option" where
  "FilePart_SeekFile_desc desc offset origin s = do {
     (idx, f) \<leftarrow> file_of desc s;
     (pos, f) \<leftarrow> FilePart_SeekFile offset origin f (sf_fs s);
     s \<leftarrow> FileTab_put idx f s;
     Some (pos, s)
   }"

definition FilePart_ReadFile_desc :: "u32 \<Rightarrow> u8 list \<Rightarrow> u32 \<Rightarrow> files_sys \<Rightarrow> (nat \<times> u8 list \<times> files_sys) option" where
  "FilePart_ReadFile_desc desc buf sz s = do {
     (idx, f) \<leftarrow> file_of desc s;
     ((n, buf, f), s) \<leftarrow> in_part (\<lambda>fs. do { (n, buf, f, fs) \<leftarrow> FilePart_ReadFile f buf sz fs; Some ((n, buf, f), fs) }) s;
     s \<leftarrow> FileTab_put idx f s;
     Some (n, buf, s)
   }"

definition FilePart_OpenFile :: "u32 \<Rightarrow> u32 \<Rightarrow> files_sys \<Rightarrow> (u32 \<times> files_sys) option" where
  "FilePart_OpenFile inode_idx flags s = do {
     let desc = FileTab_GetFreeDesc (sf_tab s);
     if \<not> FileDesc_IsValid desc then Some (no_desc, s)
     else do {
       (p, s) \<leftarrow> in_part (FilePart_OpenNode inode_idx) s;
       inode \<leftarrow> fs_nodes (sf_fs s) p;
       let writes = (Flags_IsSet flags (open_mode_code WriteOnly) \<or> Flags_IsSet flags (open_mode_code ReadWrite));
       if writes \<and> in_write_deny inode
       then do { s \<leftarrow> on_part (IdxNode_Close p) s; Some (no_desc, s) }
       else do {
         let s = (if writes then s\<lparr>sf_fs := set_node p (inode\<lparr>in_write_deny := True\<rparr>) (sf_fs s)\<rparr> else s);
         s \<leftarrow> FileTab_put desc \<lparr>fl_flags = flags, fl_inode = Some p, fl_pos = 0\<rparr> s;
         Some (ProcFileDescTab_SyncGlobal desc s)
       }
     }
   }"

text \<open>
  The index node of a new file is a cleared heap block; the descriptor of the new file is entered before its entry is stored, and
  the node is marked as open, but not as written.
\<close>

definition new_node :: "u32 \<Rightarrow> idx_node" where
  "new_node idx = (IdxNode_Init \<lparr>in_idx = 0, in_size = 0, in_open_times = 0, in_write_deny = False,
     in_direct = replicate direct_block_count 0, in_indirect = 0\<rparr>)\<lparr>in_idx := idx\<rparr>"

definition CreateFile_rollback :: "u32 \<Rightarrow> u32 \<Rightarrow> files_sys \<Rightarrow> (u32 \<times> files_sys) option" where
  "CreateFile_rollback inode_idx desc s = do {
     s \<leftarrow> (if FileDesc_IsValid desc
          then do { f \<leftarrow> FileTab_get desc s; FileTab_put desc (File_Clear f) s }
          else Some s);
     s \<leftarrow> (if inode_idx \<noteq> of_nat npos then on_part (FilePart_FreeNode inode_idx) s else Some s);
     Some (no_desc, s)
   }"

definition FilePart_CreateFile :: "directory \<Rightarrow> string_view \<Rightarrow> u32 \<Rightarrow> files_sys \<Rightarrow> (u32 \<times> files_sys) option" where
  "FilePart_CreateFile dir name flags s = do {
     Assert (Directory_IsOpen dir);
     dp \<leftarrow> dr_inode dir;
     let io_buf = replicate (2 * sector_size) 0;
     (inode_idx, s) \<leftarrow> in_part FilePart_AllocNode s;
     let desc = FileTab_GetFreeDesc (sf_tab s);
     if inode_idx = of_nat npos \<or> \<not> FileDesc_IsValid desc
     then CreateFile_rollback inode_idx desc s
     else do {
       let p = fs_next (sf_fs s);
       let s = s\<lparr>sf_fs := (set_node p (new_node inode_idx) (sf_fs s))\<lparr>fs_next := p + 1\<rparr>\<rparr>;
       s \<leftarrow> FileTab_put desc \<lparr>fl_flags = flags, fl_inode = Some p, fl_pos = 0\<rparr> s;
       entry \<leftarrow> DirEntry_SetName name DirEntry_default;
       let entry = entry\<lparr>de_type := file_type_code RegularFile, de_inode_idx := inode_idx\<rparr>;
       ((ok, io_buf), s) \<leftarrow> in_part (\<lambda>fs. do { (ok, io_buf, fs) \<leftarrow> FilePart_SyncDirEntry dir entry io_buf fs; Some ((ok, io_buf), fs) }) s;
       if \<not> ok then CreateFile_rollback inode_idx desc s
       else do {
         dnode \<leftarrow> fs_nodes (sf_fs s) dp;
         (io_buf, s) \<leftarrow> in_part (FilePart_SyncNode dnode io_buf) s;
         inode \<leftarrow> fs_nodes (sf_fs s) p;
         (io_buf, s) \<leftarrow> in_part (FilePart_SyncNode inode io_buf) s;
         s \<leftarrow> on_part (FilePart_SyncNodeBitmap inode_idx) s;
         let s = s\<lparr>sf_fs := (set_node p (inode\<lparr>in_open_times := 1\<rparr>) (sf_fs s))\<lparr>fs_open_inodes := fs_open_inodes (sf_fs s) @ [p]\<rparr>\<rparr>;
         Some (ProcFileDescTab_SyncGlobal desc s)
       }
     }
   }"

section \<open>Files and directories by path\<close>

definition FilePart_OpenFilePath :: "char list \<Rightarrow> u32 \<Rightarrow> files_sys \<Rightarrow> (u32 \<times> files_sys) option" where
  "FilePart_OpenFilePath path flags s = do {
     v \<leftarrow> sv_of path;
     absolute \<leftarrow> Path_IsAbsolute v;
     Assert absolute;
     is_dir \<leftarrow> Path_IsDir v;
     if is_dir then Some (no_desc, s)
     else do {
       (found, search, s) \<leftarrow> FilePart_SearchPath path path_search_default s;
       parent \<leftarrow> ps_parent search;
       searched \<leftarrow> sv_of (ps_searched search);
       depth \<leftarrow> Path_GetDepth v;
       searched_depth \<leftarrow> Path_GetDepth searched;
       let failed = (ps_type search = DirectoryFile \<or> depth \<noteq> searched_depth \<or>
         \<not> found \<and> \<not> Flags_IsSet flags (open_mode_code CreateNew) \<or> found \<and> Flags_IsSet flags (open_mode_code CreateNew));
       (desc, s) \<leftarrow> (if failed then Some (no_desc, s)
         else if found then FilePart_OpenFile (ps_inode_idx search) flags s
         else do {
           dir \<leftarrow> get_dir parent s;
           name \<leftarrow> Path_GetFileName v;
           FilePart_CreateFile dir name flags s
         });
       s \<leftarrow> Directory_Close parent s;
       Some (desc, s)
     }
   }"

definition FilePart_DeleteFile :: "char list \<Rightarrow> files_sys \<Rightarrow> (bool \<times> files_sys) option" where
  "FilePart_DeleteFile path s = do {
     v \<leftarrow> sv_of path;
     absolute \<leftarrow> Path_IsAbsolute v;
     Assert absolute;
     is_dir \<leftarrow> Path_IsDir v;
     if is_dir then Some (False, s)
     else do {
       (found, search, s) \<leftarrow> FilePart_SearchPath path path_search_default s;
       parent \<leftarrow> ps_parent search;
       if \<not> found then do { s \<leftarrow> Directory_Close parent s; Some (False, s) }
       else if ps_type search = DirectoryFile then do { s \<leftarrow> Directory_Close parent s; Some (False, s) }
       else do {
         in_use \<leftarrow> FileTab_Contain (ps_inode_idx search) s;
         if in_use then do { s \<leftarrow> Directory_Close parent s; Some (False, s) }
         else do {
           dir \<leftarrow> get_dir parent s;
           (_, s) \<leftarrow> in_part (\<lambda>fs. do {
             (ok, io_buf, fs) \<leftarrow> FilePart_DeleteDirEntry dir (ps_inode_idx search) (replicate (2 * sector_size) 0) fs;
             Some (ok, fs) }) s;
           s \<leftarrow> on_part (FilePart_DeleteNode (ps_inode_idx search)) s;
           s \<leftarrow> Directory_Close parent s;
           Some (True, s)
         }
       }
     }
   }"

text \<open>
  Creating a directory. The word \<open>junk\<close> is the value that the address of the table of the local index node happens to have: its
  constructor does not set it. The buffer still holds the sectors of the parent's index node when the entries of the new
  directory are put at its start.
\<close>

definition CreateDir_err :: "u32 \<Rightarrow> u32 \<Rightarrow> dir_ref \<Rightarrow> files_sys \<Rightarrow> (bool \<times> files_sys) option" where
  "CreateDir_err inode_idx sector_lba parent s = do {
     s \<leftarrow> (if inode_idx \<noteq> of_nat npos then on_part (FilePart_FreeNode inode_idx) s else Some s);
     s \<leftarrow> (if sector_lba \<noteq> of_nat npos then on_part (FilePart_FreeBlock sector_lba) s else Some s);
     s \<leftarrow> Directory_Close parent s;
     Some (False, s)
   }"

definition FilePart_CreateDir :: "u32 \<Rightarrow> char list \<Rightarrow> files_sys \<Rightarrow> (bool \<times> files_sys) option" where
  "FilePart_CreateDir junk path s = do {
     v \<leftarrow> sv_of path;
     absolute \<leftarrow> Path_IsAbsolute v;
     Assert absolute;
     let min_sector_count_for_entries = RoundUpDivide (of_nat (min_entry_count * sizeof_DirEntry)) (of_nat sector_size);
     let io_buf = replicate (2 * sector_size) 0;
     (found, search, s) \<leftarrow> FilePart_SearchPath path path_search_default s;
     parent \<leftarrow> ps_parent search;
     searched \<leftarrow> sv_of (ps_searched search);
     name \<leftarrow> Path_GetFileName searched;
     (inode_idx, s) \<leftarrow> in_part FilePart_AllocNode s;
     (sector_lba, s) \<leftarrow> in_part FilePart_AllocBlock s;
     depth \<leftarrow> Path_GetDepth v;
     searched_depth \<leftarrow> Path_GetDepth searched;
     if found \<or> depth \<noteq> searched_depth \<or> inode_idx = of_nat npos \<or> sector_lba = of_nat npos
     then CreateDir_err inode_idx sector_lba parent s
     else do {
       dir \<leftarrow> get_dir parent s;
       dp \<leftarrow> dr_inode dir;
       entry \<leftarrow> DirEntry_SetName name DirEntry_default;
       let entry = entry\<lparr>de_type := file_type_code DirectoryFile, de_inode_idx := inode_idx\<rparr>;
       ((ok, io_buf), s) \<leftarrow> in_part (\<lambda>fs. do { (ok, io_buf, fs) \<leftarrow> FilePart_SyncDirEntry dir entry io_buf fs; Some ((ok, io_buf), fs) }) s;
       if \<not> ok then CreateDir_err inode_idx sector_lba parent s
       else do {
         dnode \<leftarrow> fs_nodes (sf_fs s) dp;
         (io_buf, s) \<leftarrow> in_part (FilePart_SyncNode dnode io_buf) s;
         io_buf \<leftarrow> put_dot_entries inode_idx (in_idx dnode) io_buf;
         s \<leftarrow> on_part (WriteSectors sector_lba io_buf min_sector_count_for_entries) s;
         s \<leftarrow> on_part (FilePart_SyncBlockBitmap sector_lba) s;
         let inode = (new_node inode_idx)\<lparr>in_indirect := junk\<rparr>;
         inode \<leftarrow> IdxNode_SetDirectLba 0 sector_lba inode;
         let inode = inode\<lparr>in_size := of_nat (min_entry_count * sizeof_DirEntry)\<rparr>;
         (io_buf, s) \<leftarrow> in_part (FilePart_SyncNode inode io_buf) s;
         s \<leftarrow> on_part (FilePart_SyncNodeBitmap inode_idx) s;
         s \<leftarrow> Directory_Close parent s;
         Some (True, s)
       }
     }
   }"

section \<open>File objects and system calls\<close>

definition FileDesc_Close :: "u32 \<Rightarrow> files_sys \<Rightarrow> files_sys option" where
  "FileDesc_Close desc s =
     (if FileDesc_IsValid desc \<and> unat desc \<ge> std_stream_count
      then do {
        (global, f) \<leftarrow> file_of desc s;
        (f, s) \<leftarrow> in_part (File_Close f) s;
        s \<leftarrow> FileTab_put global f s;
        ProcFileDescTab_Reset desc s
      }
      else Some s)"

text \<open>A file object is its descriptor; closing it resets the descriptor, and so does its destructor.\<close>

definition FileObj_IsOpen :: "u32 \<Rightarrow> bool" where
  "FileObj_IsOpen desc \<longleftrightarrow> FileDesc_IsValid desc"

definition FileObj_Close :: "u32 \<Rightarrow> files_sys \<Rightarrow> (u32 \<times> files_sys) option" where
  "FileObj_Close desc s =
     (if FileObj_IsOpen desc then do { s \<leftarrow> FileDesc_Close desc s; Some (of_nat npos, s) } else Some (desc, s))"

definition FileObj_Write :: "u32 \<Rightarrow> u8 list \<Rightarrow> u32 \<Rightarrow> files_sys \<Rightarrow> (nat \<times> files_sys) option" where
  "FileObj_Write desc data sz s = do { Assert (FileObj_IsOpen desc); FilePart_WriteFile_desc desc data sz s }"

definition FileObj_Read :: "u32 \<Rightarrow> u8 list \<Rightarrow> u32 \<Rightarrow> files_sys \<Rightarrow> (nat \<times> u8 list \<times> files_sys) option" where
  "FileObj_Read desc buf sz s = do { Assert (FileObj_IsOpen desc); FilePart_ReadFile_desc desc buf sz s }"

definition FileObj_Seek :: "u32 \<Rightarrow> u32 \<Rightarrow> seek_origin \<Rightarrow> files_sys \<Rightarrow> (u32 \<times> files_sys) option" where
  "FileObj_Seek desc offset origin s = do { Assert (FileObj_IsOpen desc); FilePart_SeekFile_desc desc offset origin s }"

definition FileObj_Delete :: "char list \<Rightarrow> files_sys \<Rightarrow> (bool \<times> files_sys) option" where
  "FileObj_Delete path s = FilePart_DeleteFile path s"

definition FileObj_Open :: "char list \<Rightarrow> u32 \<Rightarrow> files_sys \<Rightarrow> (u32 \<times> files_sys) option" where
  "FileObj_Open path flags s = FilePart_OpenFilePath path flags s"

definition DirObj_Create :: "u32 \<Rightarrow> char list \<Rightarrow> files_sys \<Rightarrow> (bool \<times> files_sys) option" where
  "DirObj_Create junk path s = FilePart_CreateDir junk path s"

text \<open>The system calls build a path object from the text, or a temporary file object that is destroyed at the end of the call.\<close>

definition sc_File_Open :: "char list \<Rightarrow> u32 \<Rightarrow> files_sys \<Rightarrow> (u32 \<times> files_sys) option" where
  "sc_File_Open path flags s = do { v \<leftarrow> sv_of path; p \<leftarrow> Path_ctor v; FileObj_Open p flags s }"

definition sc_File_Delete :: "char list \<Rightarrow> files_sys \<Rightarrow> (bool \<times> files_sys) option" where
  "sc_File_Delete path s = do { v \<leftarrow> sv_of path; p \<leftarrow> Path_ctor v; FileObj_Delete p s }"

definition sc_Directory_Create :: "u32 \<Rightarrow> char list \<Rightarrow> files_sys \<Rightarrow> (bool \<times> files_sys) option" where
  "sc_Directory_Create junk path s = do { v \<leftarrow> sv_of path; p \<leftarrow> Path_ctor v; DirObj_Create junk p s }"

definition sc_File_Write :: "u32 \<Rightarrow> u8 list \<Rightarrow> u32 \<Rightarrow> files_sys \<Rightarrow> (nat \<times> files_sys) option" where
  "sc_File_Write desc data sz s = do {
     (n, s) \<leftarrow> FileObj_Write desc data sz s;
     (_, s) \<leftarrow> FileObj_Close desc s;
     Some (n, s)
   }"

definition sc_File_Read :: "u32 \<Rightarrow> u8 list \<Rightarrow> u32 \<Rightarrow> files_sys \<Rightarrow> (nat \<times> u8 list \<times> files_sys) option" where
  "sc_File_Read desc buf sz s = do {
     (n, buf, s) \<leftarrow> FileObj_Read desc buf sz s;
     (_, s) \<leftarrow> FileObj_Close desc s;
     Some (n, buf, s)
   }"

definition sc_File_Seek :: "u32 \<Rightarrow> u32 \<Rightarrow> seek_origin \<Rightarrow> files_sys \<Rightarrow> (u32 \<times> files_sys) option" where
  "sc_File_Seek desc offset origin s = do {
     (pos, s) \<leftarrow> FileObj_Seek desc offset origin s;
     (_, s) \<leftarrow> FileObj_Close desc s;
     Some (pos, s)
   }"

text \<open>After an explicit close the descriptor of the temporary object is invalid and its destructor does nothing.\<close>

definition sc_File_Close :: "u32 \<Rightarrow> files_sys \<Rightarrow> files_sys option" where
  "sc_File_Close desc s = do {
     (desc, s) \<leftarrow> FileObj_Close desc s;
     (_, s) \<leftarrow> FileObj_Close desc s;
     Some s
   }"

section \<open>Searching in the root directory\<close>

lemma search_visits: "visits search_visitor (\<lambda>n r. search_visitor sv_null (name_buf n))"
  by (simp add: visits_def search_visitor_def)

lemma Join_blank:
  assumes "n \<noteq> []" "NUL \<notin> set n" "sep \<notin> set n" "length n \<le> max_name_len" "sv_text v n"
  shows "Path_Join path_blank v = Some (path_buf n)"
proof -
  have pn: "path_names n = [n]" by (rule path_names_no_sep [OF assms(3,1)])
  have ok: "names_ok n" using assms pn by (simp add: names_ok_def max_len_def max_name_len_def)
  have "last n \<noteq> sep" "hd n \<noteq> sep" using assms(1,3) last_in_set hd_in_set by metis+
  moreover have "\<not> is_dir_text n" using calculation assms(1,3) by (auto simp: is_dir_text_def sep_def)
  ultimately have "join_text [] n = n" using pn by (simp add: join_text_def join_name_def with_sep_def)
  then show ?thesis
    using Join_text [OF assms(5) ok, of "[]"] names_ok_parts(1) [OF ok] unfolding path_buf_blank by simp
qed

lemma first_step:
  assumes "names_ok t" "path_names t = nm # rest"
  shows "\<exists>r steps. path_steps t = (nm, r) # steps" "nm \<noteq> []" "NUL \<notin> set nm" "length nm \<le> max_name_len" "sep \<notin> set nm"
proof -
  have "map fst (path_steps t) = nm # rest" using assms(2) by (simp add: path_steps_names)
  then show "\<exists>r steps. path_steps t = (nm, r) # steps" by (cases "path_steps t") auto
  show "nm \<noteq> []" "NUL \<notin> set nm" "length nm \<le> max_name_len" "sep \<notin> set nm"
    using path_names_ok [OF assms(1), of nm] path_names_elem [of nm t] assms(2) by auto
qed

text \<open>The root directory is open.\<close>

definition root_ok :: "files_sys \<Rightarrow> nat \<Rightarrow> idx_node \<Rightarrow> bool" where
  "root_ok s p n \<longleftrightarrow> part_ok (sf_fs s) \<and> dr_inode (sf_root s) = Some p \<and> fs_nodes (sf_fs s) p = Some n \<and> dir_ok (sf_fs s) n"

definition abs_path :: "char list \<Rightarrow> bool" where
  "abs_path t \<longleftrightarrow> names_ok t \<and> t \<noteq> [] \<and> hd t = sep \<and> t \<notin> {''/'', ''/.'', ''/..''}"

lemma SearchPath_visit:
  assumes t: "abs_path t" and nm: "path_names t = nm # rest" and root: "root_ok s p n"
  shows "\<exists>u. io_step (sf_fs s) u \<and> fs_blocks u = fs_blocks (sf_fs s) \<and>
    (let rec = \<lparr>ps_searched = path_buf nm, ps_parent = Some RootDir, ps_type = UnknownFile, ps_inode_idx = of_nat npos\<rparr>;
         s' = s\<lparr>sf_fs := u\<rparr>
     in FilePart_SearchPath (path_buf t) path_search_default s =
       (case dir_lookup (sf_fs s) n nm of
          None \<Rightarrow> Some (False, rec, s')
        | Some e \<Rightarrow> if de_type e = file_type_code RegularFile
            then Some (True, rec\<lparr>ps_type := RegularFile, ps_inode_idx := de_inode_idx e\<rparr>, s') else None))"
proof -
  have ok: "names_ok t" "t \<noteq> []" "hd t = sep" "t \<notin> {''/'', ''/.'', ''/..''}" using t by (simp_all add: abs_path_def)
  note np = names_ok_parts [OF ok(1)]
  note st = first_step [OF ok(1) nm]
  obtain r steps where steps: "path_steps t = (nm, r) # steps" using st(1) by blast
  obtain v where v: "sv_of (path_buf t) = Some v" "sv_text v t"
    using sv_of_text [of "path_buf t"] path_buf_cstr [OF np(5,1)] by auto
  obtain w where w: "sv_of (name_buf nm) = Some w" "sv_text w nm"
    using sv_of_text [of "name_buf nm"] name_buf_cstr [OF st(3,4)] by auto
  have ab: "Path_IsAbsolute v = Some True" "Path_IsRootDir v = Some False"
    using IsAbsolute_text [OF v(2) np(1)] IsRootDir_text [OF v(2) ok(2) np(1)] ok by simp_all
  have rt: "part_ok (sf_fs s)" "dr_inode (sf_root s) = Some p" "fs_nodes (sf_fs s) p = Some n" "dir_ok (sf_fs s) n"
    using root by (simp_all add: root_ok_def)
  have ml: "length nm \<le> max_len" using st(4) by (simp add: max_len_def max_name_len_def)
  obtain u where u: "FilePart_SearchDirEntry (sf_root s) w (sf_fs s) = Some (dir_lookup (sf_fs s) n nm, u)"
    "io_step (sf_fs s) u" "fs_blocks u = fs_blocks (sf_fs s)"
    using SearchDirEntry_ok [OF rt(1,4,2,3) w(2) st(2) ml] by blast
  have join: "Path_Join path_blank w = Some (path_buf nm)" by (rule Join_blank [OF st(2,3,5,4) w(2)])
  have idx: "Directory_GetNodeIdx (sf_root s) u = Some (in_idx n)"
    using rt(2,3) io_step_fields [OF u(2)] by (simp add: Directory_GetNodeIdx_def Directory_GetNode_def)
  have bad: "FilePart_OpenNode (of_nat npos) fs = None" for fs
    by (simp add: FilePart_OpenNode_def max_file_count_per_part_def npos_def word_less_nat_alt)
  let ?st = "(path_search_default\<lparr>ps_type := UnknownFile, ps_parent := Some RootDir\<rparr>, root_inode_idx, s)"
  let ?rec = "\<lparr>ps_searched = path_buf nm, ps_parent = Some RootDir, ps_type = UnknownFile, ps_inode_idx = of_nat npos\<rparr>"
  have visit: "Path_Visit v search_visitor ?st = visit_names (\<lambda>n r. search_visitor sv_null (name_buf n)) (path_steps t) ?st"
    by (rule Visit_steps [OF search_visits v(2) ok(1)])
  have call: "search_visitor sv_null (name_buf nm) ?st = (case dir_lookup (sf_fs s) n nm of
      None \<Rightarrow> Some (False, ?rec, root_inode_idx, s\<lparr>sf_fs := u\<rparr>)
    | Some e \<Rightarrow> if de_type e = file_type_code RegularFile
        then Some (False, ?rec\<lparr>ps_type := RegularFile, ps_inode_idx := de_inode_idx e\<rparr>, root_inode_idx, s\<lparr>sf_fs := u\<rparr>) else None)"
    using w(1) join u(1) idx bad
    by (simp add: search_visitor_def path_search_default_def in_part_def FilePart_OpenDir_def Let_def split: option.splits)
  have "FilePart_SearchPath (path_buf t) path_search_default s = (case dir_lookup (sf_fs s) n nm of
      None \<Rightarrow> Some (False, ?rec, s\<lparr>sf_fs := u\<rparr>)
    | Some e \<Rightarrow> if de_type e = file_type_code RegularFile
        then Some (True, ?rec\<lparr>ps_type := RegularFile, ps_inode_idx := de_inode_idx e\<rparr>, s\<lparr>sf_fs := u\<rparr>) else None)"
    unfolding FilePart_SearchPath_def
    using v(1) ab visit call steps rt(2) by (simp add: Directory_IsOpen_def split: option.splits)
  then show ?thesis using u(2,3) by (intro exI [of _ u]) (simp add: Let_def)
qed

section \<open>Properties of files and paths\<close>


text \<open>The directory of the demonstration partition as the root.\<close>

definition demo_files :: files_sys where
  "demo_files = \<lparr>sf_fs = demo_dir_fs, sf_root = \<lparr>dr_inode = Some 5, dr_pos = 0\<rparr>, sf_dirs = (\<lambda>_. None), sf_next = 0,
     sf_tab = replicate max_open_file_times File_empty, sf_descs = FileDescTab_Init\<rparr>"

lemma demo_root_ok: "root_ok demo_files 5 demo_dir"
  using demo_dir_fs_ok(1-3) blocks_okD by (simp add: root_ok_def demo_files_def)

lemma demo_lookup: "dir_lookup demo_dir_fs demo_dir ''.'' = Some (dot_entries 0 0 ! 0)"
proof -
  have "[0..<18] = 0 # [1..<18]" by (simp add: upt_rec)
  then have "sector_entries root_block = dot_entries 0 0 ! 0 # map (entry_at root_block) [1..<18]"
    using root_block_entries(2) by (simp add: sector_entries_def)
  then show ?thesis by (simp add: dir_lookup_def demo_dir_fs_ok(4) entry_name_def dot_entries_def cstr_def)
qed


lemma FileObj_Close_resets:
  assumes "std_stream_count \<le> unat desc" "FileDesc_IsValid desc" "FileObj_Close desc s = Some (d, t)"
  shows "ProcFileDescTab_GetGlobal desc t = None"
proof -
  have "\<exists>u. ProcFileDescTab_Reset desc u = Some t"
    using assms by (auto simp: FileObj_Close_def FileObj_IsOpen_def FileDesc_Close_def bind_eq_Some_conv)
  then show ?thesis
    by (auto simp: ProcFileDescTab_Reset_def FileDescTab_Reset_def ProcFileDescTab_GetGlobal_def FileDescTab_GetGlobal_def
        FileDesc_IsValid_def bind_eq_Some_conv bind_eq_None_conv)
qed

text \<open>
  C18: The system calls that read, write or seek close the file they work on: each builds a temporary file object whose destructor
  closes the descriptor, so that after a call that returns the descriptor is not valid any more and the next call panics.
\<close>

theorem sc_calls_close_descriptor:
  assumes "std_stream_count \<le> unat desc" "FileDesc_IsValid desc"
    and "sc_File_Read desc buf sz s = Some (k, buf', t) \<or> sc_File_Write desc data sz s = Some (k, t) \<or>
      sc_File_Seek desc offset origin s = Some (pos, t)"
  shows "ProcFileDescTab_GetGlobal desc t = None \<and>
    (\<forall>buf sz. sc_File_Read desc buf sz t = None) \<and> (\<forall>data sz. sc_File_Write desc data sz t = None) \<and>
    (\<forall>offset origin. sc_File_Seek desc offset origin t = None)"
proof -
  have "\<exists>d u. FileObj_Close desc u = Some (d, t)"
    using assms(3) by (auto simp: sc_File_Read_def sc_File_Write_def sc_File_Seek_def bind_eq_Some_conv)
  then have "ProcFileDescTab_GetGlobal desc t = None" using FileObj_Close_resets [OF assms(1,2)] by blast
  then show ?thesis
    by (simp add: sc_File_Read_def sc_File_Write_def sc_File_Seek_def FileObj_Read_def FileObj_Write_def FileObj_Seek_def
        FilePart_ReadFile_desc_def FilePart_WriteFile_desc_def FilePart_SeekFile_desc_def file_of_def bind_eq_None_conv)
qed

text \<open>An open file behind the descriptor 3.\<close>

definition demo_open :: files_sys where
  "demo_open = demo_files\<lparr>sf_fs := demo_file_fs\<lparr>fs_open_inodes := [5]\<rparr>,
     sf_tab := replicate 3 File_empty @ \<lparr>fl_flags = 0, fl_inode = Some 5, fl_pos = 0\<rparr> # replicate 28 File_empty,
     sf_descs := [0, 1, 2, 3] @ replicate 4 no_desc\<rparr>"

theorem sc_calls_close_descriptor_witness:
  "\<exists>t. sc_File_Seek 3 100 SeekBegin demo_open = Some (100, t) \<and> ProcFileDescTab_GetGlobal 3 t = None"
proof -
  have n: "fs_nodes demo_file_fs 5 = Some demo_node" by (rule demo_file_fs_ok(2))
  have v: "FileDesc_IsValid 3" "std_stream_count \<le> unat (3 :: u32)"
    by (simp_all add: FileDesc_IsValid_def std_stream_count_def npos_def)
  have fl: "\<not> Flags_IsSet 0 1" "\<not> Flags_IsSet 0 2" by (simp_all add: Flags_IsSet_def)
  have m: "min 100 (in_size demo_node) = 100" "in_open_times demo_node = 1" by (simp_all add: demo_node_def)
  have "\<exists>t. sc_File_Seek 3 100 SeekBegin demo_open = Some (100, t)"
    by (simp add: sc_File_Seek_def FileObj_Seek_def FileObj_Close_def FileObj_IsOpen_def FileDesc_Close_def file_of_def v
        ProcFileDescTab_GetGlobal_def FileDescTab_GetGlobal_def ProcFileDescTab_Reset_def FileDescTab_Reset_def FileTab_get_def
        FileTab_put_def FilePart_SeekFile_desc_def FilePart_SeekFile_def File_GetNode_def File_Close_def in_part_def
        IdxNode_Close_def demo_open_def n m fl Let_def nth_append std_stream_count_def)
  then obtain t where t: "sc_File_Seek 3 100 SeekBegin demo_open = Some (100, t)" by blast
  from sc_calls_close_descriptor [OF v(2,1) disjI2 [OF disjI2 [OF t]]] t show ?thesis by blast
qed

end
