(* ===== verification/FileSys.thy ===== *)
theory FileSys
  imports Files DiskParts
begin

text \<open>
  \<^verbatim>\<open>InitFileSys\<close> and \<^verbatim>\<open>MountDefaultPart\<close> of \<^verbatim>\<open>io/disk/part.cpp\<close>: at the start of the system every partition without a file system is
  formatted and the partition \<^verbatim>\<open>sdb1\<close> is mounted. The heap block of the super block is a fresh buffer and messages are left
  out. The super block and bitmaps of a mounted partition are in its own state (\<open>file_sys\<close>), which takes the channel with it.
\<close>

section \<open>Initialization\<close>

definition InitFileSys_part :: "disk \<Rightarrow> part \<Rightarrow> ide_chnl \<Rightarrow> ide_chnl option" where
  "InitFileSys_part dk pt c =
     (if Part_IsValid pt then do {
        let sector_count = RoundUpDivide (of_nat sizeof_PaddedSuperBlock) (of_nat sector_size);
        (super_block, c) \<leftarrow> Disk_ReadSectors dk (pt_start_lba pt + super_block_start_lba)
          (replicate sizeof_PaddedSuperBlock 0) sector_count c;
        if \<not> SuperBlock_IsSignValid (super_of_bytes super_block) then FormatPart dk pt c else Some c
      } else Some c)"

fun InitFileSys_parts :: "disk \<Rightarrow> part list \<Rightarrow> ide_chnl \<Rightarrow> ide_chnl option" where
  "InitFileSys_parts dk [] c = Some c"
| "InitFileSys_parts dk (pt # pts) c = do { c \<leftarrow> InitFileSys_part dk pt c; InitFileSys_parts dk pts c }"

definition InitFileSys_disk :: "nat \<Rightarrow> disk \<Rightarrow> ide_chnl \<Rightarrow> ide_chnl option" where
  "InitFileSys_disk disk_idx dk c =
     (if disk_idx \<noteq> boot_disk_idx then InitFileSys_parts dk (dk_prim_parts dk @ dk_logic_parts dk) c else Some c)"

text \<open>The loops over the disks of a channel and the channels, with \<open>left\<close> disks of the machine not yet visited.\<close>

fun InitFileSys_disks :: "nat \<Rightarrow> nat \<Rightarrow> disk list \<Rightarrow> ide_chnl \<Rightarrow> (nat \<times> ide_chnl) option" where
  "InitFileSys_disks disk_idx left [] c = Some (left, c)"
| "InitFileSys_disks disk_idx 0 (dk # dks) c = Some (0, c)"
| "InitFileSys_disks disk_idx (Suc left) (dk # dks) c = do {
     c \<leftarrow> InitFileSys_disk disk_idx dk c;
     InitFileSys_disks (Suc disk_idx) left dks c
   }"

fun InitFileSys_chnls :: "nat \<Rightarrow> nat \<Rightarrow> nat \<Rightarrow> disk_sys \<Rightarrow> disk_sys option" where
  "InitFileSys_chnls chnl_idx 0 left ds = Some ds"
| "InitFileSys_chnls chnl_idx (Suc n) left ds = do {
     Assert (chnl_idx < length (ds_chnls ds) \<and> chnl_idx < length (ds_disks ds));
     (left, c) \<leftarrow> InitFileSys_disks 0 left (ds_disks ds ! chnl_idx) (ds_chnls ds ! chnl_idx);
     InitFileSys_chnls (Suc chnl_idx) n left (ds\<lparr>ds_chnls := (ds_chnls ds)[chnl_idx := c]\<rparr>)
   }"

text \<open>The partition that a tag of the list stands for, with its disk and the index of its channel.\<close>

fun part_of_ref :: "disk_sys \<Rightarrow> part_ref \<Rightarrow> (nat \<times> disk \<times> part) option" where
  "part_of_ref ds (PrimPart d i) = do {
     let (ci, di) = (d div max_disk_count, d mod max_disk_count);
     Assert (ci < length (ds_disks ds) \<and> di < length (ds_disks ds ! ci));
     let dk = ds_disks ds ! ci ! di;
     Assert (i < length (dk_prim_parts dk));
     Some (ci, dk, dk_prim_parts dk ! i)
   }"
| "part_of_ref ds (LogicPart d i) = do {
     let (ci, di) = (d div max_disk_count, d mod max_disk_count);
     Assert (ci < length (ds_disks ds) \<and> di < length (ds_disks ds ! ci));
     let dk = ds_disks ds ! ci ! di;
     Assert (i < length (dk_logic_parts dk));
     Some (ci, dk, dk_logic_parts dk ! i)
   }"

fun find_part :: "string_view \<Rightarrow> disk_sys \<Rightarrow> part_ref list \<Rightarrow> (nat \<times> disk \<times> part) option option" where
  "find_part name ds [] = Some None"
| "find_part name ds (r # rs) = do {
     (ci, dk, pt) \<leftarrow> part_of_ref ds r;
     n \<leftarrow> sv_of (pt_name pt);
     eq \<leftarrow> sv_eq n name;
     if eq then Some (Some (ci, dk, pt)) else find_part name ds rs
   }"

definition default_part :: string_view where
  "default_part = \<lparr>sv_str = Some (''sdb1'' @ [NUL]), sv_len = 4\<rparr>"

definition MountDefaultPart :: "disk_sys \<Rightarrow> file_sys option" where
  "MountDefaultPart ds = do {
     found \<leftarrow> find_part default_part ds (ds_parts ds);
     (ci, dk, pt) \<leftarrow> found;
     Assert (ci < length (ds_chnls ds));
     FilePart_LoadSuperBlock (unmounted dk pt (ds_chnls ds ! ci))
   }"

definition InitFileSys :: "u32 \<Rightarrow> bool \<Rightarrow> bool \<Rightarrow> disk_sys \<Rightarrow> files_sys \<Rightarrow> (disk_sys \<times> files_sys) option" where
  "InitFileSys disk_count mem_inited mounted ds f = do {
     Assert (ds_inited ds);
     Assert mem_inited;
     Assert (\<not> mounted);
     Assert (disk_count > 0);
     chnl_count \<leftarrow> GetIdeChnlCount disk_count;
     ds \<leftarrow> InitFileSys_chnls 0 (unat chnl_count) (unat disk_count) ds;
     fs \<leftarrow> MountDefaultPart ds;
     f \<leftarrow> FilePart_OpenRootDir (f\<lparr>sf_fs := fs\<rparr>);
     Some (ds, f)
   }"

section \<open>Formatting at most once\<close>

definition super_on :: "disk \<Rightarrow> part \<Rightarrow> ide_chnl \<Rightarrow> super_block" where
  "super_on dk pt c = super_of_bytes (run_bytes (sectors c (dk_idx dk \<noteq> 0)) (unat (pt_start_lba pt) + 1) 1)"

abbreviation has_file_sys :: "disk \<Rightarrow> part \<Rightarrow> ide_chnl \<Rightarrow> bool" where
  "has_file_sys dk pt c \<equiv> SuperBlock_IsSignValid (super_on dk pt c)"

definition part_range :: "part \<Rightarrow> nat set" where
  "part_range pt = {unat (pt_start_lba pt)..<unat (pt_start_lba pt) + unat (pt_sector_count pt)}"

text \<open>Partitions that can be formatted: large enough, on the supported part of the disk and disjoint.\<close>

definition formattable :: "part \<Rightarrow> bool" where
  "formattable pt \<longleftrightarrow> 613 \<le> unat (pt_sector_count pt) \<and> unat (pt_start_lba pt) + unat (pt_sector_count pt) \<le> unat max_lba"

fun parts_ok :: "part list \<Rightarrow> bool" where
  "parts_ok [] \<longleftrightarrow> True"
| "parts_ok (p # ps) \<longleftrightarrow> (Part_IsValid p \<longrightarrow> formattable p \<and> (\<forall>q \<in> set ps. Part_IsValid q \<longrightarrow> part_range p \<inter> part_range q = {})) \<and>
     parts_ok ps"

text \<open>The step from \<open>c\<close> to \<open>c'\<close> changes sectors of the given set only, on this disk.\<close>

definition changes :: "disk \<Rightarrow> nat set \<Rightarrow> ide_chnl \<Rightarrow> ide_chnl \<Rightarrow> bool" where
  "changes dk R c c' \<longleftrightarrow> chnl_ok c' \<and> sectors c' (dk_idx dk = 0) = sectors c (dk_idx dk = 0) \<and>
     (\<forall>l. l \<notin> R \<longrightarrow> sectors c' (dk_idx dk \<noteq> 0) l = sectors c (dk_idx dk \<noteq> 0) l)"

lemma changes_trans: "changes dk R c c1 \<Longrightarrow> changes dk Q c1 c2 \<Longrightarrow> changes dk (R \<union> Q) c c2"
  by (simp add: changes_def)

lemma changes_sectors: "changes dk {} c c' \<Longrightarrow> sectors c' = sectors c"
proof (intro ext)
  fix b l
  assume "changes dk {} c c'"
  then show "sectors c' b l = sectors c b l" by (cases b; cases "dk_idx dk = 0") (auto simp: changes_def)
qed

lemma has_file_sys_keep:
  assumes "changes dk R c c'" "formattable pt" "part_range pt \<inter> R = {}"
  shows "has_file_sys dk pt c' = has_file_sys dk pt c"
proof -
  have "unat (pt_start_lba pt) + 1 \<in> part_range pt" using assms(2) by (simp add: formattable_def part_range_def)
  then have "unat (pt_start_lba pt) + 1 \<notin> R" using assms(3) by blast
  then have "sectors c' (dk_idx dk \<noteq> 0) (unat (pt_start_lba pt) + 1) = sectors c (dk_idx dk \<noteq> 0) (unat (pt_start_lba pt) + 1)"
    using assms(1) by (simp add: changes_def)
  then show ?thesis by (simp add: super_on_def run_bytes_def)
qed

lemma FormatPart_signs:
  assumes "chnl_ok c" "dk_attached dk" "pt_disk pt" "formattable pt"
  shows "\<exists>c'. FormatPart dk pt c = Some c' \<and> changes dk (part_range pt) c c' \<and> has_file_sys dk pt c'"
proof -
  let ?S = "unat (pt_start_lba pt)"
  have n: "613 \<le> unat (pt_sector_count pt)" "?S + unat (pt_sector_count pt) \<le> unat max_lba" using assms(4) by (simp_all add: formattable_def)
  define sb where "sb = fst (FormatPart_super pt)"
  note sbf = FormatPart_super_ok [OF n, folded sb_def] and b = fmt_bounds [OF n(1)]
  obtain c' bits nbits where c': "FormatPart dk pt c = Some c'" "chnl_ok c'"
    "sectors c' (dk_idx dk = 0) = sectors c (dk_idx dk = 0)"
    "sectors c' (dk_idx dk \<noteq> 0) = fmt_image pt (sectors c (dk_idx dk \<noteq> 0)) bits nbits"
    "length bits = fmt_bitmap pt * sector_size" "length nbits = sector_size"
    using FormatPart_ok [OF assms(1-3) n] by blast
  note g = fmt_image_areas [OF c'(5,6), where f = "sectors c (dk_idx dk \<noteq> 0)", folded c'(4) sb_def]
  have "super_on dk pt c' = sb" unfolding super_on_def g(1) by simp
  then have "has_file_sys dk pt c'" using sbf(9) by (simp add: SuperBlock_IsSignValid_def)
  moreover have "sectors c' (dk_idx dk \<noteq> 0) l = sectors c (dk_idx dk \<noteq> 0) l" if "l \<notin> part_range pt" for l
  proof (rule g(6))
    show "l \<le> ?S \<or> ?S + 611 + fmt_bitmap pt < l" using that b n(1) by (auto simp: part_range_def fmt_free_def)
  qed
  ultimately show ?thesis using c'(1-3) by (auto simp: changes_def)
qed

lemma InitFileSys_part_ok:
  assumes "chnl_ok c" "dk_attached dk" "Part_IsValid pt \<longrightarrow> formattable pt"
  shows "\<exists>c'. InitFileSys_part dk pt c = Some c' \<and> (Part_IsValid pt \<longrightarrow> has_file_sys dk pt c') \<and>
    changes dk (if Part_IsValid pt \<and> \<not> has_file_sys dk pt c then part_range pt else {}) c c'"
proof (cases "Part_IsValid pt")
  case False
  then show ?thesis using assms(1) by (simp add: InitFileSys_part_def changes_def)
next
  case True
  then have f: "formattable pt" "pt_disk pt" using assms(3) by (simp_all add: Part_IsValid_def)
  let ?n = "RoundUpDivide (of_nat sizeof_PaddedSuperBlock) (of_nat sector_size) :: u32" and ?lba = "pt_start_lba pt + super_block_start_lba"
  have n: "?n = 1" by (simp add: RoundUpDivide_def sizeof_PaddedSuperBlock_def sector_size_def)
  have lba: "unat ?lba = unat (pt_start_lba pt) + 1"
    using f(1) by (intro unat_plus) (simp_all add: formattable_def super_block_start_lba_def boot_sector_count_def max_lba_val)
  obtain c1 where c1: "Disk_ReadSectors dk ?lba (replicate sizeof_PaddedSuperBlock 0) ?n c =
      Some (overwrite (replicate sizeof_PaddedSuperBlock 0) 0 (run_bytes (sectors c (dk_idx dk \<noteq> 0)) (unat ?lba) 1), c1)"
    "chnl_ok c1" "sectors c1 = sectors c"
    using ReadSectors_ok [OF assms(1,2), of 1 ?lba "replicate sizeof_PaddedSuperBlock 0"] f(1) lba
    unfolding n by (auto simp: formattable_def sizeof_PaddedSuperBlock_def)
  have "length (run_bytes (sectors c (dk_idx dk \<noteq> 0)) (unat ?lba) 1) = sector_size"
    using assms(1) by (simp add: run_bytes_def chnl_ok_def)
  then have buf: "overwrite (replicate sizeof_PaddedSuperBlock 0) 0 (run_bytes (sectors c (dk_idx dk \<noteq> 0)) (unat ?lba) 1) =
      run_bytes (sectors c (dk_idx dk \<noteq> 0)) (unat ?lba) 1"
    by (simp add: overwrite_def sizeof_PaddedSuperBlock_def)
  have run: "InitFileSys_part dk pt c = (if has_file_sys dk pt c then Some c1 else FormatPart dk pt c1)"
    using True c1(1) [unfolded buf, unfolded lba] by (simp add: InitFileSys_part_def super_on_def)
  show ?thesis
  proof (cases "has_file_sys dk pt c")
    case sign: True
    have "has_file_sys dk pt c1" using sign c1(3) by (simp add: super_on_def)
    then show ?thesis using True sign run c1 by (simp add: changes_def)
  next
    case False
    obtain c' where c': "FormatPart dk pt c1 = Some c'" "changes dk (part_range pt) c1 c'" "has_file_sys dk pt c'"
      using FormatPart_signs [OF c1(2) assms(2) f(2,1)] by blast
    then show ?thesis using True False run c1(3) by (simp add: changes_def)
  qed
qed

definition to_format :: "disk \<Rightarrow> part list \<Rightarrow> ide_chnl \<Rightarrow> nat set" where
  "to_format dk pts c = (\<Union>pt \<in> {pt \<in> set pts. Part_IsValid pt \<and> \<not> has_file_sys dk pt c}. part_range pt)"

lemma InitFileSys_parts_ok:
  assumes "chnl_ok c" "dk_attached dk" "parts_ok pts"
  shows "\<exists>c'. InitFileSys_parts dk pts c = Some c' \<and> (\<forall>pt \<in> set pts. Part_IsValid pt \<longrightarrow> has_file_sys dk pt c') \<and>
    changes dk (to_format dk pts c) c c'"
  using assms
proof (induction pts arbitrary: c)
  case Nil
  then show ?case by (simp add: changes_def)
next
  case (Cons p ps)
  have f: "Part_IsValid p \<longrightarrow> formattable p" and ap: "\<And>q. q \<in> set ps \<Longrightarrow> Part_IsValid p \<Longrightarrow> Part_IsValid q \<Longrightarrow> part_range p \<inter> part_range q = {}"
    and ps: "parts_ok ps" using Cons.prems(3) by auto
  have fq: "formattable q" if "q \<in> set ps" "Part_IsValid q" for q using ps that by (induction ps) auto
  obtain c1 where c1: "InitFileSys_part dk p c = Some c1" "Part_IsValid p \<longrightarrow> has_file_sys dk p c1"
    "changes dk (if Part_IsValid p \<and> \<not> has_file_sys dk p c then part_range p else {}) c c1"
    using InitFileSys_part_ok [OF Cons.prems(1,2) f] by blast
  have "chnl_ok c1" using c1(3) by (simp add: changes_def)
  then obtain c' where c': "InitFileSys_parts dk ps c1 = Some c'" "\<forall>pt \<in> set ps. Part_IsValid pt \<longrightarrow> has_file_sys dk pt c'"
    "changes dk (to_format dk ps c1) c1 c'" using Cons.IH [OF _ Cons.prems(2) ps] by blast
  have same: "has_file_sys dk q c1 = has_file_sys dk q c" if "q \<in> set ps" "Part_IsValid q" for q
    by (rule has_file_sys_keep [OF c1(3) fq [OF that]]) (use ap that in auto)
  then have tf: "to_format dk ps c1 = to_format dk ps c" unfolding to_format_def by (intro arg_cong [where f = Union] image_cong) auto
  have "has_file_sys dk p c'" if v: "Part_IsValid p"
  proof -
    have "part_range p \<inter> to_format dk ps c1 = {}" using ap v by (auto simp: to_format_def)
    then show ?thesis using has_file_sys_keep [OF c'(3)] f c1(2) v by blast
  qed
  moreover have "to_format dk (p # ps) c = (if Part_IsValid p \<and> \<not> has_file_sys dk p c then part_range p else {}) \<union> to_format dk ps c"
    by (auto simp: to_format_def)
  then have "changes dk (to_format dk (p # ps) c) c c'" using changes_trans [OF c1(3) c'(3)] tf by simp
  ultimately show ?case using c1(1) c'(1,2) by (intro exI [of _ c']) simp
qed

section \<open>Property\<close>

text \<open>C20: At the start of the system each valid partition of a disk gets a file system, and none loses one: \<^verbatim>\<open>InitFileSys\<close> over disjoint
  partitions succeeds, afterwards all of them have a valid super block, only sectors of partitions that had none before are
  changed, and when the system starts again nothing is written.\<close>

theorem InitFileSys_formats_once:
  assumes "chnl_ok c" "dk_attached dk" "parts_ok (dk_prim_parts dk @ dk_logic_parts dk)" "i \<noteq> boot_disk_idx"
  shows "\<exists>c' c''. InitFileSys_disk i dk c = Some c' \<and>
    (\<forall>pt \<in> set (dk_prim_parts dk @ dk_logic_parts dk). Part_IsValid pt \<longrightarrow> has_file_sys dk pt c') \<and>
    changes dk (to_format dk (dk_prim_parts dk @ dk_logic_parts dk) c) c c' \<and>
    InitFileSys_disk i dk c' = Some c'' \<and> sectors c'' = sectors c'"
proof -
  let ?ps = "dk_prim_parts dk @ dk_logic_parts dk"
  obtain c' where c': "InitFileSys_parts dk ?ps c = Some c'" "\<forall>pt \<in> set ?ps. Part_IsValid pt \<longrightarrow> has_file_sys dk pt c'"
    "changes dk (to_format dk ?ps c) c c'" using InitFileSys_parts_ok [OF assms(1-3)] by blast
  have "chnl_ok c'" using c'(3) by (simp add: changes_def)
  then obtain c'' where c'': "InitFileSys_parts dk ?ps c' = Some c''" "changes dk (to_format dk ?ps c') c' c''"
    using InitFileSys_parts_ok [OF _ assms(2,3)] by blast
  have "to_format dk ?ps c' = {}" using c'(2) by (auto simp: to_format_def)
  then have "sectors c'' = sectors c'" using c''(2) changes_sectors by simp
  then show ?thesis using c' c''(1) assms(4) by (auto simp: InitFileSys_disk_def)
qed

definition two_part_disk :: disk where
  "two_part_disk = blank_disk\<lparr>dk_prim_parts := [small_part, small_part\<lparr>pt_start_lba := 30000\<rparr>], dk_logic_parts := [], dk_idx := 1\<rparr>"

theorem InitFileSys_formats_once_witness:
  "\<exists>c'. InitFileSys_disk 1 two_part_disk blank_chnl = Some c' \<and> has_file_sys two_part_disk small_part c'"
proof -
  have "parts_ok (dk_prim_parts two_part_disk @ dk_logic_parts two_part_disk)" "dk_attached two_part_disk"
    "small_part \<in> set (dk_prim_parts two_part_disk)" "Part_IsValid small_part" "(1 :: nat) \<noteq> boot_disk_idx"
    by (auto simp: two_part_disk_def small_part_def blank_disk_def formattable_def part_range_def Part_IsValid_def max_lba_val
        boot_disk_idx_def)
  then show ?thesis using InitFileSys_formats_once [OF blank_chnl_ok, of two_part_disk 1] by auto
qed

end
