(* ===== verification/Procs.thy ===== *)
theory Procs
  imports Heap Threads Files Interrupts Descriptors
begin

text \<open>
  User processes, \<^verbatim>\<open>src/kernel/process/proc.cpp\<close>: creation, the start in user mode, and \<^verbatim>\<open>Fork\<close>. A process is a record under the
  address of its page. The state joins the memory (\<open>Paging\<close>), the scheduler (\<open>Threads\<close>), the files (\<open>Files\<close>) and the tags of the
  free lists (\<open>TagLists\<close>); the counter of process ids and the physical address of the kernel's directory are the static variables
  of \<^verbatim>\<open>CreateNewPid\<close> and \<^verbatim>\<open>LoadPageDir\<close>. The registers that a process starts with are the interrupt stack that
  \<^verbatim>\<open>StartProcess\<close> passes to \<^verbatim>\<open>JmpToIntrExit\<close>. \<open>None\<close> is a failed assertion, a page fault or a null dereference.
\<close>

section \<open>State\<close>

record process =
  pr_vr_addrs :: page_pool
  pr_mem_block_descs :: "mem_block_desc list"
  pr_page_dir :: u32
  pr_pid :: u32
  pr_parent_pid :: u32
  pr_file_descs :: "u32 list"
  pr_main_thd :: "tid option"

record procs =
  ps_mem :: memsys
  ps_sched :: sched
  ps_files :: files_sys
  ps_tags :: tags
  ps_proc :: "nat \<Rightarrow> process option"
  ps_pid :: u32
  ps_krnl_dir :: "u32 option"

record intr_stack =
  is_intr_num :: u32
  is_edi :: u32
  is_esi :: u32
  is_ebp :: u32
  is_esp :: u32
  is_ebx :: u32
  is_edx :: u32
  is_ecx :: u32
  is_eax :: u32
  is_gs :: u32
  is_fs :: u32
  is_es :: u32
  is_ds :: u32
  is_err_code :: u32
  is_old_eip :: u32
  is_old_cs :: u32
  is_eflags :: u32
  is_old_esp :: u32
  is_old_ss :: u32

text \<open>A page of zeros taken for a process, and updates of a process in its page.\<close>

definition blank_process :: process where
  "blank_process = \<lparr>pr_vr_addrs = \<lparr>pl_start = 0, pl_free = 0, pl_bitmap = \<lparr>bm_byte_len = 0, bm_bits = None\<rparr>\<rparr>,
     pr_mem_block_descs = [], pr_page_dir = 0, pr_pid = 0, pr_parent_pid = 0,
     pr_file_descs = replicate max_open_file_count 0, pr_main_thd = None\<rparr>"

definition upd_proc :: "nat \<Rightarrow> (process \<Rightarrow> process) \<Rightarrow> procs \<Rightarrow> procs option" where
  "upd_proc p f s = do { pr \<leftarrow> ps_proc s p; Some (s\<lparr>ps_proc := (ps_proc s)(p \<mapsto> f pr)\<rparr>) }"

definition krnl_AllocPages :: "nat \<Rightarrow> procs \<Rightarrow> (u32 \<times> procs) option" where
  "krnl_AllocPages count s = do { (a, m) \<leftarrow> AllocPages KernelPool count (ps_mem s); Some (a, s\<lparr>ps_mem := m\<rparr>) }"

section \<open>Parts of a process\<close>

definition image_base :: u32 where "image_base = 0x8048000"
definition usr_stack_base :: u32 where "usr_stack_base = krnl_base - of_nat page_size"

definition Process_GetCurrent :: "procs \<Rightarrow> nat option" where
  "Process_GetCurrent s = th_proc (sc_thd (ps_sched s) (sc_cur (ps_sched s)))"

definition Process_GetCurrPid :: "procs \<Rightarrow> u32 option" where
  "Process_GetCurrPid s =
     (case Process_GetCurrent s of None \<Rightarrow> Some 0 | Some p \<Rightarrow> do { pr \<leftarrow> ps_proc s p; Some (pr_pid pr) })"

definition Process_GetMainThread :: "nat \<Rightarrow> procs \<Rightarrow> tid option" where
  "Process_GetMainThread p s = do { pr \<leftarrow> ps_proc s p; pr_main_thd pr }"

definition Process_CreateNewPid :: "procs \<Rightarrow> u32 \<times> procs" where
  "Process_CreateNewPid s = (ps_pid s + 1, s\<lparr>ps_pid := ps_pid s + 1\<rparr>)"

definition Process_InitVrAddrPool :: "nat \<Rightarrow> procs \<Rightarrow> procs option" where
  "Process_InitVrAddrPool p s = do {
     let byte_len = (krnl_base - image_base) div of_nat page_size div of_nat byte_len;
     let page_count = CalcPageCount byte_len;
     (bits, s) \<leftarrow> krnl_AllocPages (unat page_count) s;
     Assert (bits \<noteq> 0);
     bm \<leftarrow> Bitmap_Init (Some (replicate (unat byte_len) 0)) (unat byte_len) True;
     upd_proc p (\<lambda>pr. pr\<lparr>pr_vr_addrs := VrAddrPool_Init image_base bm\<rparr>) s
   }"

text \<open>The free lists lie in the table of the process: 24 bytes for each descriptor, behind the address pool of 16 bytes.\<close>

definition proc_free_lists :: "nat \<Rightarrow> tag_list list" where
  "proc_free_lists p =
     map (\<lambda>i. \<lparr>tl_head = p + 16 + 24 * i + 8, tl_tail = p + 16 + 24 * i + 16\<rparr>) [0..<block_desc_count]"

definition Process_InitMemBlockDescTab :: "nat \<Rightarrow> procs \<Rightarrow> procs option" where
  "Process_InitMemBlockDescTab p s = do {
     (descs, h) \<leftarrow> MemBlockDescTab_Init (proc_free_lists p) (ps_tags s);
     upd_proc p (\<lambda>pr. pr\<lparr>pr_mem_block_descs := descs\<rparr>) (s\<lparr>ps_tags := h\<rparr>)
   }"

text \<open>\<^verbatim>\<open>memcpy\<close> of \<open>n\<close> double words.\<close>

fun mem_copy :: "memsys \<Rightarrow> u32 \<Rightarrow> u32 \<Rightarrow> nat \<Rightarrow> memsys option" where
  "mem_copy s dst src 0 = Some s"
| "mem_copy s dst src (Suc n) = do {
     v \<leftarrow> mem_read s src;
     s \<leftarrow> mem_write s dst v;
     mem_copy s (dst + 4) (src + 4) n
   }"

definition Process_InitPageDir :: "nat \<Rightarrow> procs \<Rightarrow> procs option" where
  "Process_InitPageDir p s = do {
     (page_dir, s) \<leftarrow> krnl_AllocPages 1 s;
     Assert (page_dir \<noteq> 0);
     s \<leftarrow> upd_proc p (\<lambda>pr. pr\<lparr>pr_page_dir := page_dir\<rparr>) s;
     m \<leftarrow> mem_copy (ps_mem s) (page_dir + of_nat krnl_page_dir_start * 4)
            (page_dir_base + of_nat krnl_page_dir_start * 4) krnl_page_dir_count;
     phy_addr \<leftarrow> VrAddr_GetPhyAddr m page_dir;
     m \<leftarrow> mem_write m (page_dir + of_nat page_dir_self_ref * 4) (PageEntry phy_addr True False True);
     Some (s\<lparr>ps_mem := m\<rparr>)
   }"

section \<open>Starting a process\<close>

definition StartProcess :: "u32 \<Rightarrow> procs \<Rightarrow> (intr_stack \<times> procs) option" where
  "StartProcess code s = do {
     Assert (code \<noteq> 0);
     p \<leftarrow> Process_GetCurrent s;
     pr \<leftarrow> ps_proc s p;
     (stack, ap, m) \<leftarrow> AllocPageAtAddr_in UserPool (pr_vr_addrs pr) usr_stack_base (ps_mem s);
     s \<leftarrow> upd_proc p (\<lambda>pr. pr\<lparr>pr_vr_addrs := ap\<rparr>) (s\<lparr>ps_mem := m\<rparr>);
     Assert (stack \<noteq> 0);
     Some (\<lparr>is_intr_num = 0, is_edi = 0, is_esi = 0, is_ebp = 0, is_esp = 0, is_ebx = 0, is_edx = 0, is_ecx = 0, is_eax = 0,
            is_gs = 0, is_fs = ucast sel_usr_data, is_es = ucast sel_usr_data, is_ds = ucast sel_usr_data,
            is_err_code = 0, is_old_eip = code, is_old_cs = ucast sel_usr_code, is_eflags = EFlags_SetIf (EFlags 0),
            is_old_esp = stack + of_nat page_size, is_old_ss = ucast sel_usr_data\<rparr>, s)
   }"

text \<open>\<^verbatim>\<open>Thread::Create\<close> for a process; \<open>callback\<close> and \<open>arg\<close> are the addresses of \<^verbatim>\<open>StartProcess\<close> and of the code.\<close>

definition Process_CreateThread ::
    "nat \<Rightarrow> string_view \<Rightarrow> u32 \<Rightarrow> nat \<Rightarrow> nat \<Rightarrow> procs \<Rightarrow> (tid \<times> procs) option" where
  "Process_CreateThread p name priority callback arg s = do {
     (page, s) \<leftarrow> krnl_AllocPages 1 s;
     (t, k) \<leftarrow> Thread_Create (if page = 0 then None else Some (unat page)) name priority callback arg (Some p) (ps_sched s);
     Some (t, s\<lparr>ps_sched := k\<rparr>)
   }"

definition Process_Init :: "nat \<Rightarrow> string_view \<Rightarrow> nat \<Rightarrow> u32 \<Rightarrow> procs \<Rightarrow> procs option" where
  "Process_Init p name start code s = do {
     Assert (code \<noteq> 0);
     s \<leftarrow> Process_InitVrAddrPool p s;
     s \<leftarrow> Process_InitPageDir p s;
     s \<leftarrow> Process_InitMemBlockDescTab p s;
     let (pid, s) = Process_CreateNewPid s;
     s \<leftarrow> upd_proc p (\<lambda>pr. pr\<lparr>pr_file_descs := FileDescTab_Init, pr_pid := pid, pr_parent_pid := of_nat npos\<rparr>) s;
     (t, s) \<leftarrow> Process_CreateThread p name default_priority start (unat code) s;
     upd_proc p (\<lambda>pr. pr\<lparr>pr_main_thd := Some t\<rparr>) s
   }"

definition Process_Create :: "string_view \<Rightarrow> nat \<Rightarrow> u32 \<Rightarrow> procs \<Rightarrow> (nat \<times> procs) option" where
  "Process_Create name start code s = do {
     (page, s) \<leftarrow> krnl_AllocPages 1 s;
     Assert (page \<noteq> 0);
     let p = unat page;
     s \<leftarrow> Process_Init p name start code (s\<lparr>ps_proc := (ps_proc s)(p \<mapsto> blank_process)\<rparr>);
     Some (p, s)
   }"

section \<open>Forking\<close>

text \<open>\<^verbatim>\<open>Thread::LoadPageDir\<close> with the register \<^verbatim>\<open>CR3\<close> itself.\<close>

definition proc_LoadPageDir :: "tid \<Rightarrow> procs \<Rightarrow> procs option" where
  "proc_LoadPageDir t s = do {
     krnl_phy_addr \<leftarrow> (case ps_krnl_dir s of Some a \<Rightarrow> Some a | None \<Rightarrow> VrAddr_GetPhyAddr (ps_mem s) page_dir_base);
     cr3 \<leftarrow> (case th_proc (sc_thd (ps_sched s) t) of
              None \<Rightarrow> Some krnl_phy_addr
            | Some p \<Rightarrow> do { pr \<leftarrow> ps_proc s p; VrAddr_GetPhyAddr (ps_mem s) (pr_page_dir pr) });
     Some (s\<lparr>ps_krnl_dir := Some krnl_phy_addr, ps_mem := (ps_mem s)\<lparr>ms_cr3 := cr3\<rparr>,
             ps_sched := Thread_LoadPageDir t (ps_sched s)\<rparr>)
   }"

definition Process_CopyFileDescTabTo :: "nat \<Rightarrow> nat \<Rightarrow> procs \<Rightarrow> procs option" where
  "Process_CopyFileDescTabTo p child s = do {
     pr \<leftarrow> ps_proc s p;
     s \<leftarrow> upd_proc child (\<lambda>c. c\<lparr>pr_file_descs := pr_file_descs pr\<rparr>) s;
     f \<leftarrow> FileDescTab_Fork_loop (drop std_stream_count (pr_file_descs pr)) (ps_files s);
     Some (s\<lparr>ps_files := f\<rparr>)
   }"

text \<open>One page of \<^verbatim>\<open>CopyMemTo\<close>, and the loop over the bitmap from page \<open>i\<close> on with \<open>n\<close> pages left.\<close>

definition CopyMemTo_page :: "tid \<Rightarrow> tid \<Rightarrow> nat \<Rightarrow> u32 \<Rightarrow> u32 \<Rightarrow> procs \<Rightarrow> procs option" where
  "CopyMemTo_page main_thd child_thd child buf addr s = do {
     m \<leftarrow> mem_copy (ps_mem s) buf addr (page_size div 4);
     s \<leftarrow> proc_LoadPageDir child_thd (s\<lparr>ps_mem := m\<rparr>);
     c \<leftarrow> ps_proc s child;
     (_, ap, m) \<leftarrow> AllocPageAtAddr_in UserPool (pr_vr_addrs c) addr (ps_mem s);
     s \<leftarrow> upd_proc child (\<lambda>c. c\<lparr>pr_vr_addrs := ap\<rparr>) (s\<lparr>ps_mem := m\<rparr>);
     m \<leftarrow> mem_copy (ps_mem s) addr buf (page_size div 4);
     proc_LoadPageDir main_thd (s\<lparr>ps_mem := m\<rparr>)
   }"

fun CopyMemTo_loop :: "nat \<Rightarrow> tid \<Rightarrow> tid \<Rightarrow> nat \<Rightarrow> u32 \<Rightarrow> nat \<Rightarrow> nat \<Rightarrow> procs \<Rightarrow> procs option" where
  "CopyMemTo_loop p main_thd child_thd child buf i 0 s = Some s"
| "CopyMemTo_loop p main_thd child_thd child buf i (Suc n) s = do {
     pr \<leftarrow> ps_proc s p;
     alloc \<leftarrow> Bitmap_IsAlloc (pl_bitmap (pr_vr_addrs pr)) i;
     s \<leftarrow> (if alloc
          then CopyMemTo_page main_thd child_thd child buf (pl_start (pr_vr_addrs pr) + of_nat (i * page_size)) s
          else Some s);
     CopyMemTo_loop p main_thd child_thd child buf (Suc i) n s
   }"

definition Process_CopyMemTo :: "nat \<Rightarrow> nat \<Rightarrow> u32 \<Rightarrow> nat \<Rightarrow> procs \<Rightarrow> procs option" where
  "Process_CopyMemTo p child buf buf_size s = do {
     Assert (buf \<noteq> 0 \<and> buf_size \<ge> page_size);
     pr \<leftarrow> ps_proc s p;
     c \<leftarrow> ps_proc s child;
     main_thd \<leftarrow> pr_main_thd pr;
     child_thd \<leftarrow> pr_main_thd c;
     Assert (th_proc (sc_thd (ps_sched s) child_thd) = Some child);
     CopyMemTo_loop p main_thd child_thd child buf 0 (Bitmap_GetCapacity (pl_bitmap (pr_vr_addrs pr))) s
   }"

definition Process_ForkThread :: "tid \<Rightarrow> procs \<Rightarrow> (tid \<times> procs) option" where
  "Process_ForkThread t s = do {
     (page, s) \<leftarrow> krnl_AllocPages 1 s;
     (child, k) \<leftarrow> Thread_Fork t (if page = 0 then None else Some (unat page)) (ps_sched s);
     Some (child, s\<lparr>ps_sched := k\<rparr>)
   }"

definition Process_Fork :: "nat \<Rightarrow> procs \<Rightarrow> (u32 \<times> procs) option" where
  "Process_Fork p s = do {
     Assert (\<not> sc_intr (ps_sched s));
     (page, s) \<leftarrow> krnl_AllocPages 1 s;
     Assert (page \<noteq> 0);
     let child = unat page;
     let (pid, s) = Process_CreateNewPid (s\<lparr>ps_proc := (ps_proc s)(child \<mapsto> blank_process)\<rparr>);
     pr \<leftarrow> ps_proc s p;
     s \<leftarrow> upd_proc child (\<lambda>c. c\<lparr>pr_pid := pid, pr_parent_pid := pr_pid pr\<rparr>) s;
     s \<leftarrow> Process_InitMemBlockDescTab child s;
     s \<leftarrow> Process_InitVrAddrPool child s;
     s \<leftarrow> Process_InitPageDir child s;
     main_thd \<leftarrow> pr_main_thd pr;
     (child_thd, s) \<leftarrow> Process_ForkThread main_thd s;
     s \<leftarrow> upd_proc child (\<lambda>c. c\<lparr>pr_main_thd := Some child_thd\<rparr>) s;
     let s = s\<lparr>ps_sched := upd child_thd (\<lambda>th. th\<lparr>th_proc := Some child\<rparr>) (ps_sched s)\<rparr>;
     s \<leftarrow> Process_CopyFileDescTabTo p child s;
     (buf, s) \<leftarrow> krnl_AllocPages 1 s;
     s \<leftarrow> Process_CopyMemTo p child buf page_size s;
     m \<leftarrow> FreePages buf 1 (ps_mem s);
     Some (pid, s\<lparr>ps_mem := m\<rparr>)
   }"

definition Process_ForkCurrent :: "procs \<Rightarrow> (u32 \<times> procs) option" where
  "Process_ForkCurrent s = do { p \<leftarrow> Process_GetCurrent s; Process_Fork p s }"

section \<open>Copying memory\<close>

text \<open>The memory with another directory in \<^verbatim>\<open>CR3\<close>.\<close>

abbreviation in_dir :: "u32 \<Rightarrow> memsys \<Rightarrow> memsys" where "in_dir c m \<equiv> m\<lparr>ms_cr3 := c\<rparr>"

lemma quietI:
  assumes self: "selfmap_ok s" and eq: "s' = s\<lparr>ms_mem := ms_mem s'\<rparr>"
    and same: "\<And>w. w \<notin> W \<Longrightarrow> ms_mem s' w = ms_mem s w" and W: "\<And>w. w \<in> W \<Longrightarrow> \<not> table_word s w"
  shows "quiet s s' W"
proof -
  have cr3: "ms_cr3 s' = ms_cr3 s" by (subst eq) simp
  have tw: "ms_mem s' w = ms_mem s w" if "table_word s w" for w using same W that by blast
  have d: "dir_entry s' i = dir_entry s i" if "unat i < 1024" for i
    using tw [OF dir_word_table [OF self that]] by (simp add: dir_entry_def cr3)
  have "mmu_translate s' va = mmu_translate s va" for va
  proof -
    have pde: "mmu_pde s' va = mmu_pde s va" by (simp add: mmu_pde_dir d)
    have "mmu_pte s' va = mmu_pte s va" if "PageEntry_IsPresent (mmu_pde s va)"
      using tw [OF tab_word_table [OF that]] by (simp add: mmu_pte_def pde)
    then show ?thesis by (auto simp: mmu_translate_def pde)
  qed
  with eq d same show ?thesis unfolding quiet_def by blast
qed

lemma quiet_trans:
  assumes "quiet s s1 A" "quiet s1 s2 B"
  shows "quiet s s2 (A \<union> B)"
proof -
  have "s2 = s1\<lparr>ms_mem := ms_mem s2\<rparr>" "s1 = s\<lparr>ms_mem := ms_mem s1\<rparr>" using assms unfolding quiet_def by blast+
  then have "s2 = s\<lparr>ms_mem := ms_mem s2\<rparr>" by (metis memsys.simps(9) memsys.surjective memsys.update_convs(2))
  with assms show ?thesis unfolding quiet_def by auto
qed

lemma mem_copy_ok:
  assumes "selfmap_ok s" "\<And>w. w \<in> W \<Longrightarrow> \<not> table_word s w"
    and "\<And>k. k < n \<Longrightarrow> \<exists>pa. mmu_translate s (src + of_nat (4 * k)) = Some pa \<and> pa \<notin> W"
    and "\<And>k. k < n \<Longrightarrow> \<exists>pa \<in> W. mmu_translate s (dst + of_nat (4 * k)) = Some pa"
    and "\<And>j k. j < n \<Longrightarrow> k < n \<Longrightarrow> mmu_translate s (dst + of_nat (4 * j)) = mmu_translate s (dst + of_nat (4 * k)) \<Longrightarrow> j = k"
  shows "\<exists>s'. mem_copy s dst src n = Some s' \<and>
    quiet s s' {pa. \<exists>k<n. mmu_translate s (dst + of_nat (4 * k)) = Some pa} \<and>
    (\<forall>k<n. mem_read s' (dst + of_nat (4 * k)) = mem_read s (src + of_nat (4 * k)))"
  using assms
proof (induction n arbitrary: s dst src)
  case 0
  then show ?case by (auto intro: quietI)
next
  case (Suc n)
  obtain pa where pa: "mmu_translate s src = Some pa" using Suc.prems(3) [of 0] by auto
  obtain qa where qa: "mmu_translate s dst = Some qa" "qa \<in> W" using Suc.prems(4) [of 0] by auto
  define s1 where "s1 = s\<lparr>ms_mem := (ms_mem s)(qa := ms_mem s pa)\<rparr>"
  have q1: "quiet s s1 {qa}" by (rule quietI [OF Suc.prems(1)]) (use Suc.prems(2) qa(2) in \<open>auto simp: s1_def\<close>)
  note f1 = quiet_fields [OF q1]
  have step: "d + 4 + of_nat (4 * k) = d + of_nat (4 * Suc k)" for k and d :: u32 by simp
  let ?V = "{pa. \<exists>k<n. mmu_translate s1 (dst + 4 + of_nat (4 * k)) = Some pa}"
  have "\<exists>s'. mem_copy s1 (dst + 4) (src + 4) n = Some s' \<and> quiet s1 s' ?V \<and>
    (\<forall>k<n. mem_read s' (dst + 4 + of_nat (4 * k)) = mem_read s1 (src + 4 + of_nat (4 * k)))"
  proof (rule Suc.IH)
    show "selfmap_ok s1" using Suc.prems(1) f1 by simp
    show "\<And>w. w \<in> W \<Longrightarrow> \<not> table_word s1 w" using Suc.prems(2) by (simp add: table_word_def f1)
    show "\<exists>pa. mmu_translate s1 (src + 4 + of_nat (4 * k)) = Some pa \<and> pa \<notin> W" if "k < n" for k
      unfolding step f1(7) using Suc.prems(3) [of "Suc k"] that by simp
    show "\<exists>pa \<in> W. mmu_translate s1 (dst + 4 + of_nat (4 * k)) = Some pa" if "k < n" for k
      unfolding step f1(7) using Suc.prems(4) [of "Suc k"] that by simp
    show "j = k" if "j < n" "k < n"
      "mmu_translate s1 (dst + 4 + of_nat (4 * j)) = mmu_translate s1 (dst + 4 + of_nat (4 * k))" for j k
      using that(3) Suc.prems(5) [of "Suc j" "Suc k"] that(1,2) unfolding step f1(7) by simp
  qed
  then obtain s' where s': "mem_copy s1 (dst + 4) (src + 4) n = Some s'" "quiet s1 s' ?V"
    "\<forall>k<n. mem_read s' (dst + 4 + of_nat (4 * k)) = mem_read s1 (src + 4 + of_nat (4 * k))" by blast
  have run: "mem_copy s dst src (Suc n) = Some s'" using pa qa(1) s'(1) by (simp add: mem_read_def mem_write_def s1_def)
  have W: "{pa. \<exists>k<Suc n. mmu_translate s (dst + of_nat (4 * k)) = Some pa} = {qa} \<union> ?V"
    unfolding step f1(7) using qa(1) by (auto simp: less_Suc_eq_0_disj)
  have "qa \<notin> ?V"
  proof
    assume "qa \<in> ?V"
    then obtain k where "k < n" "mmu_translate s (dst + of_nat (4 * Suc k)) = Some qa" unfolding step f1(7) by blast
    then show False using Suc.prems(5) [of 0 "Suc k"] qa(1) by simp
  qed
  then have "ms_mem s' qa = ms_mem s pa" using s'(2) by (simp add: quiet_def s1_def)
  then have r0: "mem_read s' dst = mem_read s src"
    using pa qa(1) quiet_fields(7) [OF s'(2)] f1(7) by (simp add: mem_read_def)
  have "mem_read s' (dst + of_nat (4 * k)) = mem_read s (src + of_nat (4 * k))" if kn: "k < Suc n" for k
  proof (cases k)
    case (Suc j)
    then obtain p where p: "mmu_translate s (src + of_nat (4 * Suc j)) = Some p" "p \<notin> W" using Suc.prems(3) [of k] kn by auto
    then have "ms_mem s1 p = ms_mem s p" using qa(2) by (auto simp: s1_def)
    then have "mem_read s1 (src + of_nat (4 * Suc j)) = mem_read s (src + of_nat (4 * Suc j))"
      using p(1) f1(7) by (simp add: mem_read_def)
    then show ?thesis using s'(3) Suc kn unfolding step by simp
  qed (use r0 in simp)
  then show ?case using run quiet_trans [OF q1 s'(2)] unfolding W by blast
qed

text \<open>Words of a page, by their number.\<close>

lemma page_word:
  assumes "VrAddr_GetOffset a = 0" "mmu_translate s a = Some f" "k < 1024"
  shows "mmu_translate s (a + of_nat (4 * k)) = Some (f + of_nat (4 * k))" "PageEntry_GetAddress (f + of_nat (4 * k)) = f"
proof -
  have "unat (of_nat (4 * k) :: u32) < 4096" using unat_of_nat_u32 [of "4 * k"] assms(3) by simp
  then show "mmu_translate s (a + of_nat (4 * k)) = Some (f + of_nat (4 * k))" "PageEntry_GetAddress (f + of_nat (4 * k)) = f"
    using translate_offset [OF assms(1) _ assms(2)] by blast+
qed

lemma word_4_inj: "j < 1024 \<Longrightarrow> k < 1024 \<Longrightarrow> (f :: u32) + of_nat (4 * j) = f + of_nat (4 * k) \<Longrightarrow> j = k"
  using unat_of_nat_u32 [of "4 * j"] unat_of_nat_u32 [of "4 * k"] by auto

lemma copy_page:
  assumes self: "selfmap_ok s" and d: "VrAddr_GetOffset d = 0" "mmu_translate s d = Some f" "\<not> table_page s f"
    and e: "VrAddr_GetOffset e = 0" "mmu_translate s e = Some g" "g \<noteq> f"
  shows "\<exists>s'. mem_copy s d e 1024 = Some s' \<and> quiet s s' {w. PageEntry_GetAddress w = f} \<and>
    (\<forall>k<1024. mem_read s' (d + of_nat (4 * k)) = mem_read s (e + of_nat (4 * k)))"
proof -
  let ?W = "{w. PageEntry_GetAddress w = f}"
  have "\<exists>s'. mem_copy s d e 1024 = Some s' \<and>
    quiet s s' {pa. \<exists>k<1024. mmu_translate s (d + of_nat (4 * k)) = Some pa} \<and>
    (\<forall>k<1024. mem_read s' (d + of_nat (4 * k)) = mem_read s (e + of_nat (4 * k)))"
  proof (rule mem_copy_ok [OF self, of ?W])
    show "\<exists>pa. mmu_translate s (e + of_nat (4 * k)) = Some pa \<and> pa \<notin> ?W" if "k < 1024" for k
      using page_word [OF e(1,2) that] e(3) by simp
    show "\<exists>pa \<in> ?W. mmu_translate s (d + of_nat (4 * k)) = Some pa" if "k < 1024" for k
      using page_word [OF d(1,2) that] by simp
    show "j = k" if "j < 1024" "k < 1024" "mmu_translate s (d + of_nat (4 * j)) = mmu_translate s (d + of_nat (4 * k))" for j k
      using that page_word(1) [OF d(1,2)] word_4_inj [of j k f] by simp
  qed (use d(3) in \<open>auto simp: table_word_def\<close>)
  then obtain s' where s': "mem_copy s d e 1024 = Some s'"
    "quiet s s' {pa. \<exists>k<1024. mmu_translate s (d + of_nat (4 * k)) = Some pa}"
    "\<forall>k<1024. mem_read s' (d + of_nat (4 * k)) = mem_read s (e + of_nat (4 * k))" by blast
  have "{pa. \<exists>k<1024. mmu_translate s (d + of_nat (4 * k)) = Some pa} \<subseteq> ?W"
    using page_word [OF d(1,2)] by auto
  then have "quiet s s' ?W" using s'(2) unfolding quiet_def by blast
  then show ?thesis using s'(1,3) by blast
qed

section \<open>A new directory\<close>

lemma PageEntry_fields [simp]:
  "PageEntry_IsPresent (PageEntry f w sv True)" "PageEntry_GetAddress (PageEntry f w sv True) = PageEntry_GetAddress f"
proof -
  show "PageEntry_IsPresent (PageEntry f w sv True)" by (simp add: entry_defs bits_simps)
  show "PageEntry_GetAddress (PageEntry f w sv True) = PageEntry_GetAddress f"
    by (rule bit_word_eqI) (auto simp: entry_defs bits_simps bit_simps)
qed

lemma krnl_dir_count: "krnl_page_dir_count = 255" "page_dir_self_ref = 1023" "self_idx = of_nat 1023"
  by (simp_all add: krnl_page_dir_count_def krnl_dir_start page_dir_count_def page_dir_self_ref_def self_idx_def)

lemma dir_window:
  assumes "selfmap_ok s" "i < 1024"
  shows "mmu_translate s (page_dir_base + of_nat (4 * i)) = Some (Paging.entry_at (ms_cr3 s) (of_nat i))"
proof -
  have e: "page_dir_base = VrAddr_GetPageDirEntry 0" "pdx 0 = 0" "VrAddr_GetOffset page_dir_base = 0" by code_simp+
  have "mmu_translate s page_dir_base = Some (Paging.entry_at (ms_cr3 s) 0)"
    using translate_dir_entry [OF assms(1), of 0] e by simp
  from page_word(1) [OF e(3) this assms(2)] show ?thesis by (simp add: Paging.entry_at_def mult.commute)
qed

lemma entry_at_frame: "PageEntry_GetAddress f = f \<Longrightarrow> Paging.entry_at f (of_nat i) = f + of_nat (4 * i)"
  by (simp add: Paging.entry_at_def mult.commute)

text \<open>
  The copy of the kernel's entries and the entry for itself, in a page of zeros that is mapped and is no table.
\<close>

definition new_dir :: "memsys \<Rightarrow> memsys \<Rightarrow> u32 \<Rightarrow> bool" where
  "new_dir m m' f \<longleftrightarrow> quiet m m' {w. PageEntry_GetAddress w = f} \<and>
     (\<forall>i<1024. dir_entry (in_dir f m') (of_nat i) =
        (if i < 768 then 0 else if i < 1023 then dir_entry m (of_nat i) else PageEntry f True False True))"

lemma build_dir:
  assumes self: "selfmap_ok m" and a: "VrAddr_GetOffset a = 0" "mmu_translate m a = Some f" "\<not> table_page m f"
    and zero: "\<forall>k<1024. mem_read m (a + of_nat (4 * k)) = Some 0"
  obtains m1 m2 where
    "mem_copy m (a + of_nat krnl_page_dir_start * 4) (page_dir_base + of_nat krnl_page_dir_start * 4) krnl_page_dir_count = Some m1"
    "VrAddr_GetPhyAddr m1 a = Some f"
    "mem_write m1 (a + of_nat page_dir_self_ref * 4) (PageEntry f True False True) = Some m2"
    "new_dir m m2 f"
proof -
  let ?d = "a + of_nat (4 * 768)" and ?s = "page_dir_base + of_nat (4 * 768)" and ?W = "{w. PageEntry_GetAddress w = f}"
  have at: "x + of_nat (4 * 768) + of_nat (4 * k) = x + of_nat (4 * (768 + k))" for x :: u32 and k by (simp add: algebra_simps)
  have tr: "mmu_translate m (?d + of_nat (4 * k)) = Some (f + of_nat (4 * (768 + k)))" if "k < 255" for k
    unfolding at using page_word(1) [OF a(1,2), of "768 + k"] that by simp
  have src: "mmu_translate m (?s + of_nat (4 * k)) = Some (Paging.entry_at (ms_cr3 m) (of_nat (768 + k)))" if "k < 255" for k
    unfolding at using dir_window [OF self, of "768 + k"] that by simp
  have idx: "unat (of_nat i :: u32) < 1024" if "i < 1024" for i using unat_of_nat_u32 [of i] that by simp
  have "\<exists>m1. mem_copy m ?d ?s 255 = Some m1 \<and>
    quiet m m1 {pa. \<exists>k<255. mmu_translate m (?d + of_nat (4 * k)) = Some pa} \<and>
    (\<forall>k<255. mem_read m1 (?d + of_nat (4 * k)) = mem_read m (?s + of_nat (4 * k)))"
  proof (rule mem_copy_ok [OF self, of ?W])
    show "\<not> table_word m w" if "w \<in> ?W" for w using that a(3) by (simp add: table_word_def)
    show "\<exists>pa. mmu_translate m (?s + of_nat (4 * k)) = Some pa \<and> pa \<notin> ?W" if "k < 255" for k
      using src [OF that] dir_word_table [OF self idx, of "768 + k"] a(3) that by (auto simp: table_word_def)
    show "\<exists>pa \<in> ?W. mmu_translate m (?d + of_nat (4 * k)) = Some pa" if "k < 255" for k
      using tr [OF that] page_word(2) [OF a(1,2), of "768 + k"] that by simp
    show "j = k" if "j < 255" "k < 255" "mmu_translate m (?d + of_nat (4 * j)) = mmu_translate m (?d + of_nat (4 * k))" for j k
      using that tr [OF that(1)] tr [OF that(2)] word_4_inj [of "768 + j" "768 + k" f] by simp
  qed
  then obtain m1 where m1: "mem_copy m ?d ?s 255 = Some m1"
    "quiet m m1 {pa. \<exists>k<255. mmu_translate m (?d + of_nat (4 * k)) = Some pa}"
    "\<forall>k<255. mem_read m1 (?d + of_nat (4 * k)) = mem_read m (?s + of_nat (4 * k))" by blast
  note f1 = quiet_fields [OF m1(2)]
  have self1: "selfmap_ok m1" using self f1 by simp
  have fa: "PageEntry_GetAddress f = f" using translate_offset(2) [OF a(1) _ a(2), of 0] by simp
  let ?e = "PageEntry f True False True" and ?w = "f + of_nat (4 * 1023)"
  define m2 where "m2 = m1\<lparr>ms_mem := (ms_mem m1)(?w := ?e)\<rparr>"
  have tw: "mmu_translate m1 (a + of_nat (4 * 1023)) = Some ?w"
    using page_word(1) [OF a(1), of m1 f 1023] a(2) f1(7) by simp
  have q2: "quiet m1 m2 {?w}"
    by (rule quietI [OF self1])
      (use a(3) page_word(2) [OF a(1,2), of 1023] in \<open>auto simp: m2_def table_word_def f1\<close>)
  have "pa \<in> ?W" if "k < 255" "mmu_translate m (?d + of_nat (4 * k)) = Some pa" for k pa
    using tr [OF that(1)] that page_word(2) [OF a(1,2), of "768 + k"] by simp
  moreover have ww: "?w \<in> ?W" using page_word(2) [OF a(1,2), of 1023] by simp
  ultimately have "{pa. \<exists>k<255. mmu_translate m (?d + of_nat (4 * k)) = Some pa} \<union> {?w} \<subseteq> ?W"
    using ww by blast
  then have q: "quiet m m2 ?W" using quiet_trans [OF m1(2) q2] unfolding quiet_def by blast
  have old: "ms_mem m (f + of_nat (4 * i)) = 0" if "i < 1024" for i
    using zero [rule_format, OF that] page_word(1) [OF a(1,2) that] by (simp add: mem_read_def)
  have dir: "ms_mem m2 (f + of_nat (4 * i)) =
      (if i < 768 then 0 else if i < 1023 then dir_entry m (of_nat i) else ?e)" if i: "i < 1024" for i
  proof -
    consider "i < 768" | k where "i = 768 + k" "k < 255" | "i = 1023"
    proof (cases "768 \<le> i \<and> i < 1023")
      case True
      then have "i = 768 + (i - 768)" "i - 768 < 255" by linarith+
      then show ?thesis by (rule that(2))
    qed (use i that in linarith)
    then show ?thesis
    proof cases
      case 1
      have "f + of_nat (4 * i) \<notin> {pa. \<exists>k<255. mmu_translate m (?d + of_nat (4 * k)) = Some pa}"
        using tr 1 word_4_inj [of i "768 + _" f] by fastforce
      then have "ms_mem m1 (f + of_nat (4 * i)) = 0" using m1(2) old [OF i] by (simp add: quiet_def)
      then show ?thesis using 1 word_4_inj [of i 1023 f] by (auto simp: m2_def)
    next
      case (2 k)
      have "mem_read m1 (?d + of_nat (4 * k)) = Some (dir_entry m (of_nat i))"
        using m1(3) src [OF 2(2)] 2 by (simp add: mem_read_def dir_entry_def)
      then have "ms_mem m1 (f + of_nat (4 * i)) = dir_entry m (of_nat i)"
        using tr [OF 2(2)] 2(1) f1(7) by (simp add: mem_read_def)
      then show ?thesis using 2 word_4_inj [of i 1023 f] by (auto simp: m2_def)
    qed (simp add: m2_def)
  qed
  show thesis
  proof (rule that)
    show "mem_copy m (a + of_nat krnl_page_dir_start * 4) (page_dir_base + of_nat krnl_page_dir_start * 4) krnl_page_dir_count = Some m1"
      using m1(1) by (simp add: krnl_dir_start krnl_dir_count)
    show "VrAddr_GetPhyAddr m1 a = Some f" using GetPhyAddr_translate [OF self1] a(2) f1(7) by simp
    show "mem_write m1 (a + of_nat page_dir_self_ref * 4) ?e = Some m2"
      using tw by (simp add: mem_write_def m2_def krnl_dir_count)
    show "new_dir m m2 f"
      using q dir fa by (simp add: new_dir_def dir_entry_def entry_at_frame)
  qed
qed

text \<open>
  The address space of a new directory: the kernel's part is the one of the current directory, nothing else is mapped.
\<close>

definition krnl_idx :: "u32 \<Rightarrow> bool" where "krnl_idx i \<longleftrightarrow> 768 \<le> unat i \<and> unat i < 1023"

lemma krnl_idx_self [simp]: "\<not> krnl_idx self_idx" "krnl_idx i \<Longrightarrow> i \<noteq> self_idx" "krnl_idx i \<Longrightarrow> i \<noteq> 0"
  by (auto simp: krnl_idx_def krnl_dir_count)

lemma u32_of_unat: "unat x = k \<Longrightarrow> x = of_nat k" for x :: u32
  by auto

lemma krnl_idx_cases: "unat i < 1024 \<Longrightarrow> unat i < 768 \<or> krnl_idx i \<or> i = self_idx"
  using u32_of_unat [of i 1023] unfolding krnl_idx_def krnl_dir_count by linarith

text \<open>An address whose directory entry is the same in two directories translates to the same.\<close>

lemma translate_shared:
  "dir_entry (in_dir c m) (pdx va) = dir_entry m (pdx va) \<Longrightarrow> mmu_translate (in_dir c m) va = mmu_translate m va"
  by (simp add: mmu_translate_def mmu_pte_def mmu_pde_dir)

lemma new_dir_space:
  assumes nd: "new_dir m m' f" and ok: "mem_ok m" and f: "f \<in> pool_used (GetPhyMemPagePool t m)" "\<not> table_page m f"
    "PageEntry_GetAddress f = f"
  shows "mem_ok (in_dir f m')" "unat (pdx va) < 768 \<Longrightarrow> mmu_translate (in_dir f m') va = None"
    "krnl_idx (pdx va) \<Longrightarrow> mmu_translate (in_dir f m') va = mmu_translate m' va"
    "krnl_idx i \<Longrightarrow> dir_entry (in_dir f m') i = dir_entry m i"
proof -
  let ?d = "in_dir f m'"
  have q: "quiet m m' {w. PageEntry_GetAddress w = f}" using nd by (simp add: new_dir_def)
  note qf = quiet_fields [OF q]
  have d: "dir_entry ?d i = (if unat i < 768 then 0 else if unat i < 1023 then dir_entry m i else PageEntry f True False True)"
    if "unat i < 1024" for i
    using nd that unfolding new_dir_def by (auto dest!: conjunct2 spec [of _ "unat i"])
  show kd: "dir_entry ?d i = dir_entry m i" if "krnl_idx i" for i using that d [of i] by (simp add: krnl_idx_def)
  have dq: "dir_entry m' i = dir_entry m i" if "unat i < 1024" for i using q that by (simp add: quiet_def)
  show none: "mmu_translate ?d va = None" if "unat (pdx va) < 768" for va
    using d [of "pdx va"] that by (simp add: mmu_translate_def mmu_pde_dir)
  show krnl: "mmu_translate ?d va = mmu_translate m' va" if "krnl_idx (pdx va)" for va
    using kd [OF that] dq [of "pdx va"] by (intro translate_shared) simp
  have self: "dir_entry ?d self_idx = PageEntry f True False True" using d [of self_idx] by (simp add: krnl_dir_count)
  have tok: "tables_ok m" using ok by (simp add: mem_ok_def)
  have key: "krnl_idx i \<or> i = self_idx" if "unat i < 1024" "PageEntry_IsPresent (dir_entry ?d i)" for i
    using that krnl_idx_cases [of i] d [of i] by auto
  have ktab: "PageEntry_GetAddress (dir_entry m i) \<noteq> f" if "krnl_idx i" "PageEntry_IsPresent (dir_entry m i)" for i
    using f(2) that by (auto simp: table_page_def krnl_idx_def)
  have tabs: "tables_ok ?d"
    unfolding tables_ok_def
  proof (intro conjI allI impI)
    show "selfmap_ok ?d" using self f(3) by (simp add: selfmap_ok_def)
    fix i j assume ij: "unat i < 1024 \<and> unat j < 1024 \<and> i \<noteq> j \<and> PageEntry_IsPresent (dir_entry ?d i) \<and>
        PageEntry_IsPresent (dir_entry ?d j) \<and> \<not> loader_alias i j"
    then have "krnl_idx i \<or> i = self_idx" "krnl_idx j \<or> j = self_idx" using key by blast+
    then show "PageEntry_GetAddress (dir_entry ?d i) \<noteq> PageEntry_GetAddress (dir_entry ?d j)"
      using ij kd [of i] kd [of j] ktab [of i] ktab [of j] self f(3) tables_apart [OF tok, of i j]
      by (elim disjE) auto
  qed
  have page: "table_page m g \<or> g = f" if "table_page ?d g" for g
    using that key kd self f(3) unfolding table_page_def by (metis PageEntry_fields(2))
  have fa: "f \<notin> pool_avail (GetPhyMemPagePool t' m)" for t' using used_not_avail [OF ok f(1)] .
  have fr: "frames_ok ?d (\<Union>t. pool_avail (GetPhyMemPagePool t m))"
    unfolding frames_ok_def
  proof (intro conjI ballI allI impI)
    show "\<not> table_page ?d g" if "g \<in> (\<Union>t. pool_avail (GetPhyMemPagePool t m))" for g
      using page [of g] that fa ok by (auto simp: mem_ok_pools frames_ok_def)
    fix va pa assume va: "pdx va \<noteq> self_idx \<and> mmu_translate ?d va = Some pa"
    then have "krnl_idx (pdx va)" using none krnl_idx_cases [of "pdx va"] by fastforce
    then have "mmu_translate m va = Some pa" using va krnl qf(7) by simp
    then show "PageEntry_GetAddress pa \<notin> (\<Union>t. pool_avail (GetPhyMemPagePool t m))"
      using va ok by (auto simp: mem_ok_pools frames_ok_def)
  qed
  have "GetPhyMemPagePool t ?d = GetPhyMemPagePool t m" for t by (simp add: GetPhyMemPagePool_def qf)
  then show "mem_ok ?d" using tabs fr ok by (simp add: mem_ok_pools)
qed

lemma vspaceD:
  assumes "vspace_ok t s ap"
  shows "pool_ok ap" "mem_ok s" "selfmap_ok s" "\<And>a. a \<in> pool_used ap \<Longrightarrow> heap_page a" "\<And>a. a \<in> pool_avail ap \<Longrightarrow> heap_page a"
    "\<And>a. a \<in> pool_used ap \<Longrightarrow> \<exists>f. holds_page t s a f" "\<And>a. a \<in> pool_avail ap \<Longrightarrow> mmu_translate s a = None"
  using assms by (auto simp: vspace_ok_def space_def mem_ok_def tables_ok_def)

lemma holds_pageD:
  assumes "holds_page t s a f" "heap_page a"
  shows "mmu_translate s a = Some f" "\<not> table_page s f" "f \<in> pool_used (GetPhyMemPagePool t s)" "VrAddr_GetOffset a = 0"
    "PageEntry_GetAddress f = f"
  using assms translate_offset(2) [of a 0 s f] by (auto simp: holds_page_def heap_page_def)

text \<open>Pages of the kernel's pool, while a free address is left.\<close>

definition krnl_addr_left :: "nat \<Rightarrow> memsys \<Rightarrow> bool" where
  "krnl_addr_left n m \<longleftrightarrow> (\<forall>ap. VrAddrPool_AllocPages (ms_kaddr m) n \<noteq> Some (0, ap))"

lemma krnl_AllocPages_ok:
  assumes vs: "vspace_ok KernelPool (ps_mem s) (ms_kaddr (ps_mem s))" and n: "0 < n" "enough KernelPool n (ps_mem s)"
    and left: "krnl_addr_left n (ps_mem s)"
  obtains a m where "krnl_AllocPages n s = Some (a, s\<lparr>ps_mem := m\<rparr>)" "a \<noteq> 0" "vspace_ok KernelPool m (ms_kaddr m)"
    "page_run a n \<subseteq> pool_used (ms_kaddr m)" "\<forall>k < 1024 * n. mem_read m (a + of_nat (4 * k)) = Some 0"
    "\<forall>b. pdx b \<noteq> self_idx \<and> pdx b \<noteq> 0 \<and> (\<forall>c \<in> page_run a n. \<not> same_page b c) \<longrightarrow>
       mmu_translate m b = mmu_translate (ps_mem s) b"
proof (rule alloc_pages_ok [OF vs n])
  assume "VrAddrPool_AllocPages (ms_kaddr (ps_mem s)) n = Some (0, ms_kaddr (ps_mem s))"
  then show thesis using left by (simp add: krnl_addr_left_def)
next
  fix a ap' m assume a: "AllocPages_in KernelPool (ms_kaddr (ps_mem s)) n (ps_mem s) = Some (a, ap', m)" "a \<noteq> 0"
    "vspace_ok KernelPool m ap'" "pool_used ap' = pool_used (ms_kaddr (ps_mem s)) \<union> page_run a n"
    "\<forall>k < 1024 * n. mem_read m (a + of_nat (4 * k)) = Some 0"
    "\<forall>b. pdx b \<noteq> self_idx \<and> pdx b \<noteq> 0 \<and> (\<forall>c \<in> page_run a n. \<not> same_page b c) \<longrightarrow>
       mmu_translate m b = mmu_translate (ps_mem s) b"
  have k: "ms_kaddr (set_vr_pool KernelPool ap' m) = ap'" by (simp add: set_vr_pool_def)
  have "krnl_AllocPages n s = Some (a, s\<lparr>ps_mem := set_vr_pool KernelPool ap' m\<rparr>)"
    using a(1) n(1) by (simp add: krnl_AllocPages_def AllocPages_def GetVrAddrPool_def)
  with a k show thesis by (intro that [of a "set_vr_pool KernelPool ap' m"]) simp_all
qed

section \<open>Properties\<close>

text \<open>C32: \<^verbatim>\<open>InitPageDir\<close> gives the process a directory of its own that shares the memory of the kernel: with it loaded every address of
  the kernel translates as with the current directory, no user address is mapped, and the tables and the page pools satisfy
  the invariant of the memory; the current address space changes in nothing but the page of the directory.\<close>

theorem InitPageDir_shares_kernel:
  assumes "vspace_ok KernelPool (ps_mem s) (ms_kaddr (ps_mem s))" and "enough KernelPool 1 (ps_mem s)"
    and "krnl_addr_left 1 (ps_mem s)" and "ps_proc s p = Some pr"
  shows "\<exists>s' d f. Process_InitPageDir p s = Some s' \<and> ps_proc s' p = Some (pr\<lparr>pr_page_dir := d\<rparr>) \<and>
    mmu_translate (ps_mem s') d = Some f \<and> mem_ok (in_dir f (ps_mem s')) \<and>
    (\<forall>va. krnl_idx (pdx va) \<longrightarrow> mmu_translate (in_dir f (ps_mem s')) va = mmu_translate (ps_mem s') va) \<and>
    (\<forall>va. unat (pdx va) < 768 \<longrightarrow> mmu_translate (in_dir f (ps_mem s')) va = None) \<and>
    vspace_ok KernelPool (ps_mem s') (ms_kaddr (ps_mem s')) \<and>
    (\<forall>va. pdx va \<noteq> self_idx \<and> pdx va \<noteq> 0 \<and> \<not> same_page va d \<longrightarrow> mmu_translate (ps_mem s') va = mmu_translate (ps_mem s) va)"
proof -
  obtain d m where a: "krnl_AllocPages 1 s = Some (d, s\<lparr>ps_mem := m\<rparr>)" "d \<noteq> 0" "vspace_ok KernelPool m (ms_kaddr m)"
    "page_run d 1 \<subseteq> pool_used (ms_kaddr m)" "\<forall>k < 1024 * 1. mem_read m (d + of_nat (4 * k)) = Some 0"
    "\<forall>b. pdx b \<noteq> self_idx \<and> pdx b \<noteq> 0 \<and> (\<forall>c \<in> page_run d 1. \<not> same_page b c) \<longrightarrow> mmu_translate m b = mmu_translate (ps_mem s) b"
    using krnl_AllocPages_ok [OF assms(1) _ assms(2,3)] by auto
  note v = vspaceD [OF a(3)]
  have d: "d \<in> pool_used (ms_kaddr m)" "heap_page d" using a(4) v(4) by auto
  obtain f where f: "holds_page KernelPool m d f" using v(6) [OF d(1)] by blast
  note h = holds_pageD [OF f d(2)]
  obtain m1 m2 where m: "mem_copy m (d + of_nat krnl_page_dir_start * 4) (page_dir_base + of_nat krnl_page_dir_start * 4)
      krnl_page_dir_count = Some m1" "VrAddr_GetPhyAddr m1 d = Some f"
    "mem_write m1 (d + of_nat page_dir_self_ref * 4) (PageEntry f True False True) = Some m2" "new_dir m m2 f"
    using build_dir [OF v(3) h(4,1,2)] a(5) by auto
  have q: "quiet m m2 {w. PageEntry_GetAddress w = f}" using m(4) by (simp add: new_dir_def)
  note qf = quiet_fields [OF q]
  let ?s = "s\<lparr>ps_mem := m2, ps_proc := (ps_proc s)(p \<mapsto> pr\<lparr>pr_page_dir := d\<rparr>)\<rparr>"
  have run: "Process_InitPageDir p s = Some ?s"
    using a(1,2) m(1-3) assms(4) by (simp add: Process_InitPageDir_def upd_proc_def)
  have "vspace_ok KernelPool m2 (ms_kaddr m2)" using a(3) space_quiet [OF q] qf by (simp add: vspace_ok_def)
  moreover note nd = new_dir_space [OF m(4) v(2) h(3,2,5)]
  moreover have "mmu_translate m2 va = mmu_translate (ps_mem s) va"
    if "pdx va \<noteq> self_idx" "pdx va \<noteq> 0" "\<not> same_page va d" for va
    using a(6) that qf(7) by simp
  ultimately show ?thesis using run h(1) qf(7) by (intro exI [of _ ?s] exI [of _ d] exI [of _ f]) simp
qed

text \<open>A process page at the start of the kernel's heap addresses of the booted machine.\<close>

definition demo_procs :: procs where
  "demo_procs = \<lparr>ps_mem = set_vr_pool KernelPool krnl_heap boot_mem,
     ps_sched = boot_state 4096, ps_files = demo_files, ps_tags = empty_tags,
     ps_proc = [1 \<mapsto> blank_process], ps_pid = 0, ps_krnl_dir = None\<rparr>"

lemma demo_procs_ok:
  "vspace_ok KernelPool (ps_mem demo_procs) (ms_kaddr (ps_mem demo_procs))" "enough KernelPool 1 (ps_mem demo_procs)"
  "krnl_addr_left 1 (ps_mem demo_procs)"
proof -
  let ?m = "set_vr_pool KernelPool krnl_heap boot_mem"
  have m: "ps_mem demo_procs = ?m" "ms_kaddr ?m = krnl_heap" by (simp_all add: demo_procs_def set_vr_pool_def)
  have "vspace_ok KernelPool ?m krnl_heap" using krnl_heap_vspace(1) by simp
  then show "vspace_ok KernelPool (ps_mem demo_procs) (ms_kaddr (ps_mem demo_procs))" unfolding m .
  show "enough KernelPool 1 (ps_mem demo_procs)" using krnl_heap_vspace(2) by (simp add: m enough_def set_vr_pool_def)
  show "krnl_addr_left 1 (ps_mem demo_procs)" using krnl_heap_alloc unfolding krnl_addr_left_def m by blast
qed

theorem InitPageDir_shares_kernel_witness:
  "\<exists>s' d f. Process_InitPageDir 1 demo_procs = Some s' \<and> ps_proc s' 1 = Some (blank_process\<lparr>pr_page_dir := d\<rparr>) \<and>
     mmu_translate (ps_mem s') d = Some f \<and> mmu_translate (in_dir f (ps_mem s')) 0x8048000 = None"
proof -
  have p: "ps_proc demo_procs 1 = Some blank_process" by (simp add: demo_procs_def)
  have "unat (pdx 0x8048000) < 768" by code_simp
  then show ?thesis using InitPageDir_shares_kernel [OF demo_procs_ok p] by blast
qed

end
