(* ===== verification/Spaces.thy ===== *)
theory Spaces
  imports Procs
begin

text \<open>
  Two directories that share the entries of the kernel, over one physical memory. While the child's directory is loaded a page is
  mapped and filled; the lemmas show that this keeps the parent's address space, tables and contents, and that the child's page
  gets the contents of the parent's.
\<close>

section \<open>A page at a given address\<close>

lemma pool_alloc_at:
  assumes ok: "pool_ok p" and a: "a \<in> pool_avail p"
  obtains p' where "VrAddrPool_AllocPageAtAddr p a = Some (a, p')" "AlignToPageBase a = a" "pool_ok p'"
    "pool_used p' = insert a (pool_used p)" "pool_avail p' = pool_avail p - {a}"
    "pl_start p' = pl_start p" "pool_cap p' = pool_cap p"
proof -
  obtain i where i: "a = pool_page p i" "i < pool_cap p" "\<not> bm_used (pl_bitmap p) i" using a by (auto simp: pool_avail_def)
  note pg = pool_page_props [OF ok i(2)]
  have al: "AlignToPageBase a = a" using pg(4) i(1) by (simp add: AlignToPageBase_def BackwardAlign_def)
  have bok: "bitmap_ok (pl_bitmap p)" using ok by (simp add: pool_ok_def)
  obtain bm where bm: "Bitmap_ForceAlloc (pl_bitmap p) i 1 = Some bm" "bitmap_ok bm" "bm_byte_len bm = bm_byte_len (pl_bitmap p)"
    "bm_used bm = (\<lambda>j. bm_used (pl_bitmap p) j \<or> i \<le> j \<and> j < i + 1)"
    using ForceAlloc_ok [OF bok, of i 1] i(2) by auto
  have cap: "Bitmap_GetCapacity bm = pool_cap p" using bm(3) by (simp add: Bitmap_GetCapacity_def)
  have cnt: "used_slots (bm_used bm) (pool_cap p) = used_slots (bm_used (pl_bitmap p)) (pool_cap p) + 1"
    unfolding bm(4) using i(2,3) by (intro used_slots_take) (auto simp: le_less_Suc_eq)
  have le: "used_slots (bm_used bm) (pool_cap p) \<le> pool_cap p" by (rule used_slots_le)
  have fr: "pl_free p \<ge> 1" using ok cnt le by (simp add: pool_ok_def)
  let ?p = "p\<lparr>pl_bitmap := bm, pl_free := pl_free p - 1\<rparr>"
  have run: "VrAddrPool_AllocPageAtAddr p a = Some (a, ?p)"
    using al pg(5) i(1) bm(1) fr by (simp add: VrAddrPool_AllocPageAtAddr_def Let_def)
  have "pool_ok ?p" using ok bm(2) cap cnt fr by (simp add: pool_ok_def)
  moreover have "pool_used ?p = insert a (pool_used p)" "pool_avail ?p = pool_avail p - {a}"
    using pool_sets_after(1) [OF ok, of ?p i 1] cap bm(4) i by auto
  ultimately show thesis using that [OF run al] cap by simp
qed

section \<open>Two address spaces\<close>

text \<open>
  \<open>P\<close> and \<open>C\<close> are the directories of the parent and the child, \<open>pp\<close> and \<open>cp\<close> their address pools. The entries of the kernel are the
  same; the other tables belong to one directory only; the pages of the processes lie below the kernel and no physical page of
  one process is a table or a page of the other.
\<close>

definition private_tables :: "u32 \<Rightarrow> u32 \<Rightarrow> memsys \<Rightarrow> bool" where
  "private_tables P C m \<longleftrightarrow> (\<forall>i. unat i < 1024 \<and> \<not> krnl_idx i \<and> PageEntry_IsPresent (dir_entry (in_dir C m) i) \<longrightarrow>
     \<not> table_page (in_dir P m) (PageEntry_GetAddress (dir_entry (in_dir C m) i)))"

definition pages_apart :: "u32 \<Rightarrow> u32 \<Rightarrow> page_pool \<Rightarrow> page_pool \<Rightarrow> memsys \<Rightarrow> bool" where
  "pages_apart P C pp cp m \<longleftrightarrow>
     (\<forall>b \<in> pool_used pp. \<forall>f. mmu_translate (in_dir P m) b = Some f \<longrightarrow> \<not> table_page (in_dir C m) f \<and>
        (\<forall>c \<in> pool_used cp. mmu_translate (in_dir C m) c \<noteq> Some f)) \<and>
     (\<forall>c \<in> pool_used cp. \<forall>g. mmu_translate (in_dir C m) c = Some g \<longrightarrow> \<not> table_page (in_dir P m) g)"

definition two_spaces :: "u32 \<Rightarrow> u32 \<Rightarrow> page_pool \<Rightarrow> page_pool \<Rightarrow> memsys \<Rightarrow> bool" where
  "two_spaces P C pp cp m \<longleftrightarrow>
     vspace_ok UserPool (in_dir P m) pp \<and> vspace_ok UserPool (in_dir C m) cp \<and>
     (\<forall>i. krnl_idx i \<longrightarrow> dir_entry (in_dir P m) i = dir_entry (in_dir C m) i) \<and>
     private_tables P C m \<and> private_tables C P m \<and>
     (\<forall>a \<in> pool_pages pp \<union> pool_pages cp. unat (pdx a) < 768) \<and> pages_apart P C pp cp m"

lemma two_spacesD:
  assumes "two_spaces P C pp cp m"
  shows "vspace_ok UserPool (in_dir P m) pp" "vspace_ok UserPool (in_dir C m) cp"
    "\<And>i. krnl_idx i \<Longrightarrow> dir_entry (in_dir P m) i = dir_entry (in_dir C m) i"
    "private_tables P C m" "private_tables C P m" "\<And>a. a \<in> pool_pages pp \<union> pool_pages cp \<Longrightarrow> unat (pdx a) < 768"
    "pages_apart P C pp cp m"
  using assms by (auto simp: two_spaces_def)

lemma two_spaces_translate:
  assumes "two_spaces P C pp cp m" "krnl_idx (pdx va)"
  shows "mmu_translate (in_dir C m) va = mmu_translate (in_dir P m) va"
  using translate_shared [of C "in_dir P m" va] two_spacesD(3) [OF assms] by simp

text \<open>A write to a physical page that is a table of neither directory.\<close>

lemma quiet_in_dir:
  assumes q: "quiet (in_dir c m) m' W" and self: "selfmap_ok (in_dir x m)" and W: "\<And>w. w \<in> W \<Longrightarrow> \<not> table_word (in_dir x m) w"
  shows "quiet (in_dir x m) (in_dir x m') W"
proof (rule quietI [OF self _ _ W])
  have "m' = (in_dir c m)\<lparr>ms_mem := ms_mem m'\<rparr>" using q by (simp add: quiet_def)
  then show "in_dir x m' = (in_dir x m)\<lparr>ms_mem := ms_mem (in_dir x m')\<rparr>" by (metis memsys.simps(8,9,10) memsys.surjective memsys.update_convs(1,2))
  show "ms_mem (in_dir x m') w = ms_mem (in_dir x m) w" if "w \<notin> W" for w using q that by (simp add: quiet_def)
qed

lemma quiet_dir: "quiet s s' W \<Longrightarrow> unat i < 1024 \<Longrightarrow> dir_entry s' i = dir_entry s i"
  unfolding quiet_def by blast

lemma two_spaces_quiet:
  assumes two: "two_spaces P C pp cp m" and p: "quiet (in_dir P m) (in_dir P m') W" and c: "quiet (in_dir C m) (in_dir C m') W"
  shows "two_spaces P C pp cp m'"
proof -
  note pf = quiet_fields [OF p] and cf = quiet_fields [OF c]
  have d: "dir_entry (in_dir P m') i = dir_entry (in_dir P m) i" "dir_entry (in_dir C m') i = dir_entry (in_dir C m) i"
    if "unat i < 1024" for i using quiet_dir [OF p that] quiet_dir [OF c that] .
  have "private_tables P C m'" "private_tables C P m'"
    using two_spacesD(4,5) [OF two] unfolding private_tables_def pf(9) cf(9) by (auto simp: d)
  moreover have "pages_apart P C pp cp m'"
    using two_spacesD(7) [OF two] unfolding pages_apart_def pf(7,9) cf(7,9) .
  moreover have "dir_entry (in_dir P m') i = dir_entry (in_dir C m') i" if "krnl_idx i" for i
    using two_spacesD(3) [OF two that] d [of i] that by (simp add: krnl_idx_def)
  moreover have "vspace_ok UserPool (in_dir P m') pp" "vspace_ok UserPool (in_dir C m') cp"
    using two_spacesD(1,2) [OF two] space_quiet [OF p] space_quiet [OF c] by (auto simp: vspace_ok_def)
  ultimately show ?thesis using two_spacesD(6) [OF two] unfolding two_spaces_def by blast
qed

section \<open>Mapping a page for the child\<close>

text \<open>What the parent sees of the child's tables: nothing, as the only words that change are in tables of the child.\<close>

definition child_step :: "u32 \<Rightarrow> u32 \<Rightarrow> u32 \<Rightarrow> memsys \<Rightarrow> memsys \<Rightarrow> bool" where
  "child_step P C a m m' \<longleftrightarrow> ms_cr3 m' = C \<and> tables_ok m' \<and> unat (pdx a) < 768 \<and> pdx a \<noteq> 0 \<and>
     (\<forall>i. unat i < 1024 \<and> i \<noteq> pdx a \<longrightarrow> dir_entry m' i = dir_entry (in_dir C m) i) \<and>
     (\<forall>b. pdx b \<noteq> self_idx \<and> pdx b \<noteq> 0 \<and> \<not> same_page b a \<longrightarrow> mmu_translate m' b = mmu_translate (in_dir C m) b) \<and>
     (\<forall>g. table_page m' g \<longrightarrow> table_page (in_dir C m) g \<or> g \<in> pool_avail (ms_kpool m)) \<and>
     (\<forall>w. \<not> table_word m' w \<longrightarrow> ms_mem m' w = ms_mem m w)"

lemma frames_okD:
  assumes "mem_ok s"
  shows "g \<in> pool_avail (GetPhyMemPagePool t s) \<Longrightarrow> \<not> table_page s g"
    "pdx va \<noteq> self_idx \<Longrightarrow> mmu_translate s va = Some pa \<Longrightarrow> PageEntry_GetAddress pa \<notin> pool_avail (GetPhyMemPagePool t s)"
  using assms by (auto simp: mem_ok_pools frames_ok_def)

lemma in_dir_pools [simp]: "GetPhyMemPagePool t (in_dir c m) = GetPhyMemPagePool t m" "in_dir (ms_cr3 m) m = m"
  by (simp_all add: GetPhyMemPagePool_def)

lemma parent_private:
  assumes ok: "mem_ok (in_dir P m)" and pr: "private_tables C P m" and st: "child_step P C a m m'"
    and i: "unat i < 1024" "\<not> krnl_idx i" "PageEntry_IsPresent (dir_entry (in_dir P m) i)"
  shows "\<not> table_page m' (PageEntry_GetAddress (dir_entry (in_dir P m) i))"
    "PageEntry_GetAddress w = PageEntry_GetAddress (dir_entry (in_dir P m) i) \<Longrightarrow> ms_mem m' w = ms_mem m w"
proof -
  let ?g = "PageEntry_GetAddress (dir_entry (in_dir P m) i)"
  have "table_page (in_dir P m) ?g" using i unfolding table_page_def by blast
  then have "?g \<notin> pool_avail (ms_kpool m)"
    using frames_okD(1) [OF ok, of ?g KernelPool] by (auto simp: GetPhyMemPagePool_def)
  moreover have "\<not> table_page (in_dir C m) ?g" using pr i unfolding private_tables_def by blast
  ultimately show n: "\<not> table_page m' ?g" using st unfolding child_step_def by blast
  show "ms_mem m' w = ms_mem m w" if "PageEntry_GetAddress w = ?g"
    using st n that unfolding child_step_def table_word_def by simp
qed

lemma parent_view:
  assumes ok: "mem_ok (in_dir P m)" and pr: "private_tables C P m" and st: "child_step P C a m m'"
    and k: "\<forall>i. krnl_idx i \<longrightarrow> dir_entry (in_dir P m) i = dir_entry (in_dir C m) i"
  shows "unat i < 1024 \<Longrightarrow> dir_entry (in_dir P m') i = dir_entry (in_dir P m) i"
    "pdx va \<noteq> self_idx \<Longrightarrow> mmu_translate (in_dir P m') va = mmu_translate (in_dir P m) va"
    "table_page (in_dir P m') = table_page (in_dir P m)" "tables_ok (in_dir P m')"
    "pte_word (in_dir P m') = pte_word (in_dir P m)"
proof -
  let ?p = "in_dir P m" and ?p' = "in_dir P m'"
  have tok: "tables_ok ?p" and self: "selfmap_ok ?p" using ok by (auto simp: mem_ok_def tables_ok_def)
  have ps: "PageEntry_IsPresent (dir_entry ?p self_idx)" "PageEntry_GetAddress (dir_entry ?p self_idx) = PageEntry_GetAddress P"
    using self by (simp_all add: selfmap_ok_def)
  show d: "dir_entry ?p' i = dir_entry ?p i" if "unat i < 1024" for i
    using parent_private(2) [OF ok pr st _ _ ps(1), of "Paging.entry_at P i"] that ps(2) by (simp add: dir_entry_def)
  have pde: "mmu_pde ?p' va = mmu_pde ?p va" for va by (simp add: mmu_pde_dir d)
  then show "pte_word ?p' = pte_word ?p" by (simp add: fun_eq_iff pte_word_def)
  show "table_page ?p' = table_page ?p" "tables_ok ?p'"
    using tables_ok_cong [of ?p' ?p] d tok by (auto simp: fun_eq_iff)
  show "mmu_translate ?p' va = mmu_translate ?p va" if va: "pdx va \<noteq> self_idx" for va
  proof (cases "krnl_idx (pdx va)")
    case True
    have "pdx va \<noteq> pdx a" using st True by (auto simp: child_step_def krnl_idx_def)
    then have kc: "dir_entry m' (pdx va) = dir_entry (in_dir C m) (pdx va)" using st by (simp add: child_step_def)
    have "mmu_translate ?p' va = mmu_translate m' va"
      using d [of "pdx va"] k True kc by (intro translate_shared) simp
    also have "\<dots> = mmu_translate (in_dir C m) va"
    proof -
      have "\<not> same_page va a" using st True unfolding child_step_def same_page_def krnl_idx_def by auto
      then show ?thesis using st True va unfolding child_step_def by auto
    qed
    also have "\<dots> = mmu_translate ?p va" using translate_shared [of C ?p va] k True by simp
    finally show ?thesis .
  next
    case False
    have "mmu_pte ?p' va = mmu_pte ?p va" if pres: "PageEntry_IsPresent (mmu_pde ?p va)"
    proof -
      have "PageEntry_GetAddress (Paging.entry_at (mmu_pde ?p va) (ptx va)) = PageEntry_GetAddress (dir_entry ?p (pdx va))"
        by (simp add: mmu_pde_dir)
      then have "ms_mem m' (Paging.entry_at (mmu_pde ?p va) (ptx va)) = ms_mem m (Paging.entry_at (mmu_pde ?p va) (ptx va))"
        using parent_private(2) [OF ok pr st _ False] pres by (simp add: mmu_pde_dir)
      then show ?thesis by (simp add: mmu_pte_def pde)
    qed
    then show ?thesis by (auto simp: mmu_translate_def pde)
  qed
qed

text \<open>The parent's address space is as good as before when the pools have given away pages.\<close>

lemma parent_vspace:
  assumes vs: "vspace_ok UserPool (in_dir P m) pp" and pr: "private_tables C P m" and st: "child_step P C a m m'"
    and k: "\<forall>i. krnl_idx i \<longrightarrow> dir_entry (in_dir P m) i = dir_entry (in_dir C m) i"
    and ok': "mem_ok m'" and sub: "\<And>t. pool_avail (GetPhyMemPagePool t m') \<subseteq> pool_avail (GetPhyMemPagePool t m)"
    and used: "\<And>t. pool_used (GetPhyMemPagePool t m) \<subseteq> pool_used (GetPhyMemPagePool t m')"
  shows "vspace_ok UserPool (in_dir P m') pp"
proof -
  let ?p = "in_dir P m" and ?p' = "in_dir P m'"
  note v = vspaceD [OF vs]
  note pv = parent_view [OF v(2) pr st k]
  have "\<not> table_page ?p' g" if "g \<in> pool_avail (GetPhyMemPagePool t m')" for g t
    using that sub [of t] frames_okD(1) [OF v(2), of g t] pv(3) by auto
  moreover have "PageEntry_GetAddress pa \<notin> pool_avail (GetPhyMemPagePool t m')"
    if "pdx va \<noteq> self_idx" "mmu_translate ?p' va = Some pa" for va pa t
    using that sub [of t] frames_okD(2) [OF v(2), of va pa t] pv(2) [of va] by auto
  ultimately have fr: "frames_ok ?p' (\<Union>t. pool_avail (GetPhyMemPagePool t m'))"
    unfolding frames_ok_def by blast
  have mk: "mem_ok ?p'" using ok' fr pv(4) by (simp add: mem_ok_pools)
  have tr: "mmu_translate ?p' b = mmu_translate ?p b" if "b \<in> pool_used pp \<union> pool_avail pp" for b
    using that v(4,5) pv(2) [of b] by (auto simp: heap_page_def)
  have "holds_page UserPool ?p' b g" if "b \<in> pool_used pp" "holds_page UserPool ?p b g" for b g
  proof -
    have "sole_entry ?p' b g" using that(2) pv(2) unfolding holds_page_def sole_entry_def pv(5) by auto
    moreover have "g \<in> pool_used (GetPhyMemPagePool UserPool ?p')" using that(2) used by (auto simp: holds_page_def)
    ultimately show ?thesis using that tr [of b] unfolding holds_page_def pv(3) by simp
  qed
  then have "\<forall>b \<in> pool_used pp. \<exists>g. holds_page UserPool ?p' b g" using v(6) by blast
  moreover have "inj_on (mmu_translate ?p') (pool_used pp)"
  proof -
    have "inj_on (mmu_translate ?p) (pool_used pp)" using vs by (simp add: vspace_ok_def space_def)
    then show ?thesis using tr inj_on_cong [of "pool_used pp" "mmu_translate ?p'" "mmu_translate ?p"] by simp
  qed
  ultimately show ?thesis using vs mk tr unfolding vspace_ok_def space_def by auto
qed

lemma child_private:
  assumes two: "two_spaces P C pp cp m" and st: "child_step P C a m m'"
    and i: "unat i < 1024" "\<not> krnl_idx i" "PageEntry_IsPresent (dir_entry m' i)"
  shows "\<not> table_page (in_dir P m) (PageEntry_GetAddress (dir_entry m' i))"
proof (cases "i = pdx a")
  case False
  then have "dir_entry m' i = dir_entry (in_dir C m) i" using st i(1) by (simp add: child_step_def)
  then show ?thesis using two_spacesD(4) [OF two] i unfolding private_tables_def by simp
next
  case True
  let ?g = "PageEntry_GetAddress (dir_entry m' i)"
  note v = vspaceD [OF two_spacesD(1) [OF two]]
  have "table_page m' ?g" using i unfolding table_page_def by blast
  then consider "?g \<in> pool_avail (ms_kpool m)" | "table_page (in_dir C m) ?g" using st unfolding child_step_def by blast
  then show ?thesis
  proof cases
    case 1
    then show ?thesis using frames_okD(1) [OF v(2), of ?g KernelPool] by (simp add: GetPhyMemPagePool_def)
  next
    case 2
    then obtain j where j: "unat j < 1024" "PageEntry_IsPresent (dir_entry (in_dir C m) j)"
      "PageEntry_GetAddress (dir_entry (in_dir C m) j) = ?g" unfolding table_page_def by blast
    have "\<not> krnl_idx j"
    proof
      assume k: "krnl_idx j"
      then have ji: "j \<noteq> i" using i(2) by blast
      then have dj: "dir_entry m' j = dir_entry (in_dir C m) j" using st j(1) True by (simp add: child_step_def)
      have "\<not> loader_alias i j" using st True k by (auto simp: loader_alias_def doubleton_eq_iff child_step_def)
      then show False using tables_apart [of m' i j] st i j ji dj unfolding child_step_def by auto
    qed
    then show ?thesis using two_spacesD(4) [OF two] j unfolding private_tables_def by metis
  qed
qed

text \<open>Mapping a page of the child's pool while its directory is loaded.\<close>

text \<open>The pages of the two processes stay apart when the child gets the fresh page \<open>f\<close> at \<open>a\<close>.\<close>

lemma pages_apart_map:
  assumes two: "two_spaces P C pp cp m" and st: "child_step P C a m m'" and k: "\<forall>i. krnl_idx i \<longrightarrow> dir_entry (in_dir P m) i = dir_entry (in_dir C m) i"
    and cp': "pool_used cp' = insert a (pool_used cp)" and f: "f \<in> pool_avail (GetPhyMemPagePool UserPool m)" "mmu_translate m' a = Some f"
    and cr: "in_dir C m' = m'" and old: "\<forall>c \<in> pool_used cp. mmu_translate m' c = mmu_translate (in_dir C m) c"
  shows "pages_apart P C pp cp' m'"
proof -
  note vp = vspaceD [OF two_spacesD(1) [OF two]]
  note pv = parent_view [OF vp(2) two_spacesD(5) [OF two] st k]
  have fP: "\<not> table_page (in_dir P m) f" using frames_okD(1) [OF vp(2), of f UserPool] f(1) by simp
  show ?thesis
    unfolding pages_apart_def cr pv(3)
  proof (intro conjI ballI allI impI)
    fix b h assume b: "b \<in> pool_used pp" "mmu_translate (in_dir P m') b = Some h"
    note hb = vp(4) [OF b(1)]
    have h: "mmu_translate (in_dir P m) b = Some h" using b pv(2) [of b] hb by (simp add: heap_page_def)
    then have hh: "PageEntry_GetAddress h = h" using translate_offset(2) [of b 0 _ h] hb by (auto simp: heap_page_def)
    have na: "h \<notin> pool_avail (GetPhyMemPagePool t m)" for t
      using frames_okD(2) [OF vp(2) _ h, of t] hb hh by (simp add: heap_page_def)
    have ap: "\<not> table_page (in_dir C m) h" "\<forall>c \<in> pool_used cp. mmu_translate (in_dir C m) c \<noteq> Some h"
      using two_spacesD(7) [OF two] b(1) h unfolding pages_apart_def by blast+
    show "\<not> table_page m' h" using st ap(1) na [of KernelPool] unfolding child_step_def GetPhyMemPagePool_def by auto
    have "h \<noteq> f" using na [of UserPool] f(1) by auto
    then show "mmu_translate m' c \<noteq> Some h" if "c \<in> pool_used cp'" for c
      using that cp' f(2) old ap(2) by auto
  next
    fix c g assume "c \<in> pool_used cp'" "mmu_translate m' c = Some g"
    then show "\<not> table_page (in_dir P m) g"
      using cp' f(2) fP old two_spacesD(7) [OF two] unfolding pages_apart_def by auto
  qed
qed

lemma two_spaces_map:
  assumes two: "two_spaces P C pp cp m" and a: "a \<in> pool_avail cp" and en: "enough UserPool (Suc n) m"
  obtains cp' m' f where "AllocPageAtAddr_in UserPool cp a (in_dir C m) = Some (a, cp', m')"
    "two_spaces P C pp cp' m'" "child_step P C a m m'"
    "pool_used cp' = insert a (pool_used cp)" "pool_avail cp' = pool_avail cp - {a}"
    "pl_start cp' = pl_start cp" "pool_cap cp' = pool_cap cp"
    "mmu_translate m' a = Some f" "enough UserPool n m'"
    "\<forall>t. pool_used (GetPhyMemPagePool t m) \<subseteq> pool_used (GetPhyMemPagePool t m')"
proof -
  let ?c = "in_dir C m"
  note vp = vspaceD [OF two_spacesD(1) [OF two]] and vc = vspaceD [OF two_spacesD(2) [OF two]]
  have k: "\<forall>i. krnl_idx i \<longrightarrow> dir_entry (in_dir P m) i = dir_entry ?c i" using two_spacesD(3) [OF two] by blast
  have sp: "space UserPool ?c (pool_used cp) (pool_avail cp)" using two_spacesD(2) [OF two] by (simp add: vspace_ok_def)
  have "enough UserPool (Suc n) ?c" using en by (simp add: enough_def)
  then obtain f q where f: "PhyMemPagePool_AllocPages (GetPhyMemPagePool UserPool ?c) 1 = Some (f, q)" "f \<noteq> 0"
    "pool_avail (ms_kpool (set_phy_pool UserPool q ?c)) \<noteq> {}"
    "\<And>s'. mem_ok s' \<Longrightarrow> ms_upool s' = ms_upool (set_phy_pool UserPool q ?c) \<Longrightarrow>
       card (pool_avail (ms_kpool (set_phy_pool UserPool q ?c))) \<le> Suc (card (pool_avail (ms_kpool s'))) \<Longrightarrow> enough UserPool n s'"
    using enough_step [OF vc(2)] by metis
  note tk = mem_ok_take [OF vc(2) f(1,2)]
  have ku: "ms_kpool (set_phy_pool UserPool q ?c) = ms_kpool m" by (simp add: set_phy_pool_def)
  obtain m' where m: "VrAddr_MapToPhyAddr (set_phy_pool UserPool q ?c) a f = Some m'"
    "space UserPool m' (insert a (pool_used cp)) (pool_avail cp - {a})" "mmu_translate m' a = Some f"
    "\<And>b. pdx b \<noteq> self_idx \<Longrightarrow> pdx b \<noteq> 0 \<Longrightarrow> \<not> same_page b a \<Longrightarrow> mmu_translate m' b = mmu_translate ?c b"
    "\<And>w. \<not> table_word m' w \<Longrightarrow> ms_mem m' w = ms_mem ?c w"
    "\<And>g. table_page m' g \<Longrightarrow> table_page ?c g \<or> g \<in> pool_avail (ms_kpool (set_phy_pool UserPool q ?c))"
    "\<And>t'. pool_avail (GetPhyMemPagePool t' m') \<subseteq> pool_avail (GetPhyMemPagePool t' (set_phy_pool UserPool q ?c))"
    "\<And>t'. pool_pages (GetPhyMemPagePool t' m') = pool_pages (GetPhyMemPagePool t' ?c)"
    "card (pool_avail (ms_kpool (set_phy_pool UserPool q ?c))) \<le> Suc (card (pool_avail (ms_kpool m')))"
    "ms_upool m' = ms_upool (set_phy_pool UserPool q ?c)" "ms_cr3 m' = ms_cr3 ?c"
    "\<And>i. unat i < 1024 \<Longrightarrow> i \<noteq> pdx a \<Longrightarrow> dir_entry m' i = dir_entry ?c i"
    by (rule space_map [OF sp a f(1,2,3)]) blast
  have ok': "mem_ok m'" using m(2) by (simp add: space_def)
  have cr: "in_dir C m' = m'" using in_dir_pools(2) [of m'] m(11) by simp
  have ha: "heap_page a" "unat (pdx a) < 768" using vc(5) [OF a] two_spacesD(6) [OF two, of a] a by (auto simp: pool_pages_def)
  have st: "child_step P C a m m'"
    unfolding child_step_def using m(4-6,11,12) ok' ha ku by (auto simp: mem_ok_def heap_page_def)
  have sub: "pool_avail (GetPhyMemPagePool t m') \<subseteq> pool_avail (GetPhyMemPagePool t m)" for t
    using m(7) [of t] tk(3) by (cases t) (auto simp: set_phy_pool_def GetPhyMemPagePool_def)
  have used: "pool_used (GetPhyMemPagePool t m) \<subseteq> pool_used (GetPhyMemPagePool t m')" for t
  proof
    fix g assume g: "g \<in> pool_used (GetPhyMemPagePool t m)"
    then have "g \<notin> pool_avail (GetPhyMemPagePool t m)" using used_not_avail [OF vc(2), of g t t] by simp
    then show "g \<in> pool_used (GetPhyMemPagePool t m')" using g m(8) [of t] sub [of t] by (auto simp: pool_pages_def)
  qed
  note pv = parent_view [OF vp(2) two_spacesD(5) [OF two] st k]
  obtain cp' where cp': "VrAddrPool_AllocPageAtAddr cp a = Some (a, cp')" "AlignToPageBase a = a" "pool_ok cp'"
    "pool_used cp' = insert a (pool_used cp)" "pool_avail cp' = pool_avail cp - {a}" "pl_start cp' = pl_start cp"
    "pool_cap cp' = pool_cap cp" using pool_alloc_at [OF vc(1) a] by blast
  have run: "AllocPageAtAddr_in UserPool cp a ?c = Some (a, cp', m')"
    using cp'(1,2) IsMapped_translate [OF vc(3), of a] vc(7) [OF a] f(1,2) m(1) by (simp add: AllocPageAtAddr_in_def Let_def)
  have vs': "vspace_ok UserPool (in_dir C m') cp'" using m(2) cp' cr by (simp add: vspace_ok_def)
  have old: "mmu_translate m' c = mmu_translate ?c c" if "c \<in> pool_used cp" for c
  proof -
    have "c \<noteq> a" using that a pool_used_avail [OF vc(1)] by blast
    then have "\<not> same_page c a" using same_page_eq [of c a] vc(4) [OF that] ha by (auto simp: heap_page_def)
    then show ?thesis using m(4) vc(4) [OF that] by (simp add: heap_page_def)
  qed
  have "f \<in> pool_avail (GetPhyMemPagePool UserPool m)" using tk(2) by simp
  then have "pages_apart P C pp cp' m'" using old by (intro pages_apart_map [OF two st k cp'(4) _ m(3) cr]) blast+
  moreover have "private_tables P C m'" unfolding private_tables_def cr pv(3) using child_private [OF two st] by blast
  moreover have "private_tables C P m'"
    unfolding private_tables_def cr using parent_private(1) [OF vp(2) two_spacesD(5) [OF two] st] pv(1) by auto
  moreover have "dir_entry (in_dir P m') i = dir_entry m' i" if "krnl_idx i" for i
  proof -
    have "i \<noteq> pdx a" "unat i < 1024" using that ha(2) by (auto simp: krnl_idx_def)
    then show ?thesis using pv(1) [of i] k that m(12) [of i] by simp
  qed
  moreover have "vspace_ok UserPool (in_dir P m') pp"
    by (rule parent_vspace [OF two_spacesD(1) [OF two] two_spacesD(5) [OF two] st k ok' sub used])
  moreover have "pool_pages cp' = pool_pages cp" using cp'(4,5) a by (auto simp: pool_pages_def)
  ultimately have two': "two_spaces P C pp cp' m'"
    using vs' two_spacesD(6) [OF two] unfolding two_spaces_def cr by simp
  have "enough UserPool n m'" by (rule f(4) [OF ok' m(10,9)])
  with that [OF run two' st cp'(4-7) m(3)] used show thesis by blast
qed

section \<open>Copying a page\<close>

text \<open>The buffer of the kernel through which the pages go.\<close>

definition buffer_page :: "u32 \<Rightarrow> u32 \<Rightarrow> u32 \<Rightarrow> u32 \<Rightarrow> memsys \<Rightarrow> bool" where
  "buffer_page P C buf B m \<longleftrightarrow> heap_page buf \<and> krnl_idx (pdx buf) \<and> mmu_translate (in_dir P m) buf = Some B \<and>
     B \<in> pool_used (ms_kpool m) \<and> \<not> table_page (in_dir P m) B \<and> \<not> table_page (in_dir C m) B"

text \<open>The pages of the child have the contents of the parent's pages.\<close>

definition same_pages :: "memsys \<Rightarrow> memsys \<Rightarrow> u32 set \<Rightarrow> bool" where
  "same_pages s s' M \<longleftrightarrow> (\<forall>b \<in> M. \<forall>k<1024. mem_read s' (b + of_nat (4 * k)) = mem_read s (b + of_nat (4 * k)))"

lemma keep_words:
  assumes "VrAddr_GetOffset b = 0" "mmu_translate s b = Some f" "mmu_translate s' b = Some f"
    and "\<And>w. PageEntry_GetAddress w = f \<Longrightarrow> ms_mem s' w = ms_mem s w" "k < 1024"
  shows "mem_read s' (b + of_nat (4 * k)) = mem_read s (b + of_nat (4 * k))"
  using page_word [OF assms(1,2,5)] page_word(1) [OF assms(1,3,5)] assms(4) by (simp add: mem_read_def)

lemma user_frame:
  assumes "vspace_ok UserPool s ap" "b \<in> pool_used ap" "B \<in> pool_used (ms_kpool s)"
  obtains f where "mmu_translate s b = Some f" "f \<noteq> B" "\<not> table_page s f" "VrAddr_GetOffset b = 0" "f \<in> pool_used (ms_upool s)"
proof -
  note v = vspaceD [OF assms(1)]
  obtain f where f: "holds_page UserPool s b f" using v(6) [OF assms(2)] by blast
  note h = holds_pageD [OF f v(4) [OF assms(2)]]
  have "f \<in> pool_used (ms_upool s)" using h(3) by (simp add: GetPhyMemPagePool_def)
  moreover from this have "f \<noteq> B" using v(2) assms(3) by (auto simp: mem_ok_def pool_pages_def)
  ultimately show thesis using that h by blast
qed

lemma quiet_both:
  assumes two: "two_spaces P C pp cp m" and q: "quiet (in_dir c m) m' {w. PageEntry_GetAddress w = F}"
    and F: "\<not> table_page (in_dir P m) F" "\<not> table_page (in_dir C m) F"
  shows "quiet (in_dir P m) (in_dir P m') {w. PageEntry_GetAddress w = F}"
    "quiet (in_dir C m) (in_dir C m') {w. PageEntry_GetAddress w = F}" "two_spaces P C pp cp m'"
proof -
  show p: "quiet (in_dir P m) (in_dir P m') {w. PageEntry_GetAddress w = F}"
    using vspaceD(3) [OF two_spacesD(1) [OF two]] F(1) by (intro quiet_in_dir [OF q]) (auto simp: table_word_def)
  show c: "quiet (in_dir C m) (in_dir C m') {w. PageEntry_GetAddress w = F}"
    using vspaceD(3) [OF two_spacesD(2) [OF two]] F(2) by (intro quiet_in_dir [OF q]) (auto simp: table_word_def)
  show "two_spaces P C pp cp m'" by (rule two_spaces_quiet [OF two p c])
qed

lemma quiet_words: "quiet s s' {w. PageEntry_GetAddress w = F} \<Longrightarrow> PageEntry_GetAddress w \<noteq> F \<Longrightarrow> ms_mem s' w = ms_mem s w"
  by (simp add: quiet_def)

lemma words_kept:
  assumes "quiet m m1 {w. PageEntry_GetAddress w = B}" "child_step P C a m1 m2" "quiet m2 m3 {w. PageEntry_GetAddress w = f}"
    and "PageEntry_GetAddress w \<notin> {B, f}" "\<not> table_page m2 (PageEntry_GetAddress w)"
  shows "ms_mem m3 w = ms_mem m w"
  using quiet_words [OF assms(1)] quiet_words [OF assms(3)] assms(2,4,5) by (simp add: child_step_def table_word_def)

lemma parent_contents:
  assumes vp: "vspace_ok UserPool m pp" and B: "B \<in> pool_used (ms_kpool m)"
    and q: "quiet m m1 {w. PageEntry_GetAddress w = B}" "child_step P C a m1 m2" "quiet m2 m3 {w. PageEntry_GetAddress w = f}"
    and tr: "\<And>va. pdx va \<noteq> self_idx \<Longrightarrow> mmu_translate (in_dir P m2) va = mmu_translate m va"
      "\<And>va. pdx va \<noteq> self_idx \<Longrightarrow> mmu_translate (in_dir P m3) va = mmu_translate m va"
    and ap: "pages_apart P C pp cp' m2" "a \<in> pool_used cp'" "mmu_translate m2 a = Some f"
  shows "same_pages m (in_dir P m3) (pool_used pp)"
  unfolding same_pages_def
proof (intro ballI allI impI)
  fix b k assume bk: "b \<in> pool_used pp" "(k :: nat) < 1024"
  have cr2: "in_dir C m2 = m2" using q(2) in_dir_pools(2) [of m2] by (auto simp: child_step_def)
  obtain fb where fb: "mmu_translate m b = Some fb" "fb \<noteq> B" "VrAddr_GetOffset b = 0"
    using user_frame [OF vp bk(1) B] by blast
  have hb: "pdx b \<noteq> self_idx" using vspaceD(4) [OF vp bk(1)] by (simp add: heap_page_def)
  have "mmu_translate (in_dir P m2) b = Some fb" using tr(1) [OF hb] fb(1) by simp
  then have "\<not> table_page m2 fb" "fb \<noteq> f" using ap bk(1) cr2 unfolding pages_apart_def by auto
  then have "ms_mem (in_dir P m3) w = ms_mem m w" if "PageEntry_GetAddress w = fb" for w
    using words_kept [OF q, of w] fb(2) that by simp
  moreover have "mmu_translate (in_dir P m3) b = Some fb" using tr(2) [OF hb] fb(1) by simp
  ultimately show "mem_read (in_dir P m3) (b + of_nat (4 * k)) = mem_read m (b + of_nat (4 * k))"
    by (intro keep_words [OF fb(3,1) _ _ bk(2)])
qed

lemma child_contents:
  assumes vC1: "vspace_ok UserPool (in_dir C m1) cp" and vC2: "vspace_ok UserPool m2 cp'" and B2: "B \<in> pool_used (ms_kpool m2)"
    and q: "quiet m m1 {w. PageEntry_GetAddress w = B}" "child_step P C a m1 m2" "quiet m2 m3 {w. PageEntry_GetAddress w = f}"
    and trC: "mmu_translate (in_dir C m1) = mmu_translate (in_dir C m)"
    and a: "a \<in> pool_avail cp" "VrAddr_GetOffset a = 0" "pool_used cp' = insert a (pool_used cp)" "mmu_translate m2 a = Some f"
  shows "same_pages (in_dir C m) m3 (pool_used cp)"
  unfolding same_pages_def
proof (intro ballI allI impI)
  fix c k assume ck: "c \<in> pool_used cp" "(k :: nat) < 1024"
  have c': "c \<in> pool_used cp'" "a \<in> pool_used cp'" using ck(1) a(3) by simp_all
  obtain g where g: "mmu_translate m2 c = Some g" "g \<noteq> B" "\<not> table_page m2 g" "VrAddr_GetOffset c = 0"
    using user_frame [OF vC2 c'(1) B2] by blast
  have ca: "c \<noteq> a" using ck(1) a(1) pool_used_avail [OF vspaceD(1) [OF vC1]] by blast
  then have "g \<noteq> f" using vC2 c' g(1) a(4) unfolding vspace_ok_def space_def inj_on_def by metis
  then have "ms_mem m3 w = ms_mem (in_dir C m) w" if "PageEntry_GetAddress w = g" for w
    using words_kept [OF q, of w] g(2,3) that by simp
  moreover have "\<not> same_page c a" using same_page_eq [OF g(4) a(2)] ca by blast
  then have "mmu_translate (in_dir C m) c = Some g"
    using q(2) vspaceD(4) [OF vC1 ck(1)] g(1) trC by (simp add: child_step_def heap_page_def)
  moreover have "mmu_translate m3 c = Some g" using g(1) quiet_fields(7) [OF q(3)] by simp
  ultimately show "mem_read m3 (c + of_nat (4 * k)) = mem_read (in_dir C m) (c + of_nat (4 * k))"
    by (intro keep_words [OF g(4) _ _ _ ck(2)])
qed

lemma copy_page_to_child:
  assumes two: "two_spaces P C pp cp m" and buf: "buffer_page P C buf B m" and P: "ms_cr3 m = P"
    and a: "a \<in> pool_used pp" "a \<in> pool_avail cp" and en: "enough UserPool (Suc n) m"
  obtains m1 cp' m2 m3 where "mem_copy m buf a 1024 = Some m1"
    "AllocPageAtAddr_in UserPool cp a (in_dir C m1) = Some (a, cp', m2)" "mem_copy m2 a buf 1024 = Some m3"
    "two_spaces P C pp cp' m3" "buffer_page P C buf B m3" "enough UserPool n m3"
    "pool_used cp' = insert a (pool_used cp)" "pool_avail cp' = pool_avail cp - {a}"
    "pl_start cp' = pl_start cp" "pool_cap cp' = pool_cap cp" "ms_cr3 m1 = P" "ms_cr3 m3 = C"
    "\<forall>va. pdx va \<noteq> self_idx \<longrightarrow> mmu_translate (in_dir P m1) va = mmu_translate m va \<and>
       mmu_translate (in_dir P m3) va = mmu_translate m va"
    "same_pages m (in_dir P m3) (pool_used pp)" "same_pages (in_dir C m) m3 (pool_used cp)"
    "\<forall>k<1024. mem_read m3 (a + of_nat (4 * k)) = mem_read m (a + of_nat (4 * k))" "selfmap_ok m1"
proof -
  have cr: "in_dir P m = m" using in_dir_pools(2) [of m] P by simp
  note b = buf [unfolded buffer_page_def cr]
  have vp: "vspace_ok UserPool m pp" using two_spacesD(1) [OF two] cr by simp
  have self: "selfmap_ok m" using vspaceD(3) [OF vp] .
  have bo: "VrAddr_GetOffset buf = 0" using b by (simp add: heap_page_def)
  obtain fa where fa: "mmu_translate m a = Some fa" "fa \<noteq> B" "VrAddr_GetOffset a = 0"
    using user_frame [OF vp a(1), of B] b by blast
  obtain m1 where m1: "mem_copy m buf a 1024 = Some m1" "quiet m m1 {w. PageEntry_GetAddress w = B}"
    "\<forall>k<1024. mem_read m1 (buf + of_nat (4 * k)) = mem_read m (a + of_nat (4 * k))"
    using copy_page [OF self bo _ _ fa(3,1,2)] b by blast
  have q1': "quiet (in_dir P m) m1 {w. PageEntry_GetAddress w = B}" using m1(2) cr by simp
  note q1 = quiet_both [OF two q1']
  have q1P: "quiet m (in_dir P m1) {w. PageEntry_GetAddress w = B}" "quiet (in_dir C m) (in_dir C m1) {w. PageEntry_GetAddress w = B}"
    and two1: "two_spaces P C pp cp m1" using q1 b cr by simp_all
  note qf = quiet_fields [OF m1(2)] and qP = quiet_fields [OF q1P(1)] and qC = quiet_fields [OF q1P(2)]
  have cr1: "ms_cr3 m1 = P" "in_dir P m1 = m1" using qf(1) P in_dir_pools(2) [of m1] by simp_all
  have en1: "enough UserPool (Suc n) m1" using en qf by (simp add: enough_def)
  obtain cp' m2 f where m2: "AllocPageAtAddr_in UserPool cp a (in_dir C m1) = Some (a, cp', m2)"
    "two_spaces P C pp cp' m2" "child_step P C a m1 m2" "pool_used cp' = insert a (pool_used cp)"
    "pool_avail cp' = pool_avail cp - {a}" "pl_start cp' = pl_start cp" "pool_cap cp' = pool_cap cp"
    "mmu_translate m2 a = Some f" "enough UserPool n m2"
    "\<forall>t. pool_used (GetPhyMemPagePool t m1) \<subseteq> pool_used (GetPhyMemPagePool t m2)"
    by (rule two_spaces_map [OF two1 a(2) en1])
  have cr2: "ms_cr3 m2 = C" "in_dir C m2 = m2" using m2(3) in_dir_pools(2) [of m2] by (auto simp: child_step_def)
  have k1: "\<forall>i. krnl_idx i \<longrightarrow> dir_entry (in_dir P m1) i = dir_entry (in_dir C m1) i" using two_spacesD(3) [OF two1] by blast
  have ok1: "mem_ok (in_dir P m1)" using vspaceD(2) [OF two_spacesD(1) [OF two1]] .
  note pv = parent_view [OF ok1 two_spacesD(5) [OF two1] m2(3) k1]
  have vC2: "vspace_ok UserPool m2 cp'" and vP2: "vspace_ok UserPool (in_dir P m2) pp" using two_spacesD(1,2) [OF m2(2)] cr2 by simp_all
  have B1: "B \<in> pool_used (ms_kpool m1)" using b qf by simp
  then have B2: "B \<in> pool_used (ms_kpool m2)" using spec [OF m2(10), of KernelPool] by (auto simp: GetPhyMemPagePool_def)
  have tbB: "mmu_translate m2 buf = Some B"
    using two_spaces_translate [OF m2(2), of buf] pv(2) [of buf] cr2 cr1 b qf(7) by simp
  have Bna: "B \<notin> pool_avail (ms_kpool m1)" using used_not_avail [OF ok1, of B KernelPool KernelPool] B1 by (simp add: GetPhyMemPagePool_def)
  have nB: "\<not> table_page m2 B" "\<not> table_page (in_dir P m2) B"
    using m2(3) Bna b qC(9) pv(3) qP(9) cr by (auto simp: child_step_def)
  have wB: "ms_mem m2 w = ms_mem m1 w" if "PageEntry_GetAddress w = B" for w
    using m2(3) nB(1) that by (simp add: child_step_def table_word_def)
  have "a \<in> pool_used cp'" using m2(4) by simp
  then obtain f' where f': "mmu_translate m2 a = Some f'" "f' \<noteq> B" "\<not> table_page m2 f'" using user_frame [OF vC2 _ B2] by blast
  have f: "f \<noteq> B" "\<not> table_page m2 f" "\<not> table_page (in_dir P m2) f"
  proof -
    show "f \<noteq> B" "\<not> table_page m2 f" using f' m2(8) by auto
    show "\<not> table_page (in_dir P m2) f"
      using two_spacesD(7) [OF m2(2)] m2(4,8) cr2 unfolding pages_apart_def by simp
  qed
  have self2: "selfmap_ok m2" using vspaceD(3) [OF vC2] .
  obtain m3 where m3: "mem_copy m2 a buf 1024 = Some m3" "quiet m2 m3 {w. PageEntry_GetAddress w = f}"
    "\<forall>k<1024. mem_read m3 (a + of_nat (4 * k)) = mem_read m2 (buf + of_nat (4 * k))"
    using copy_page [OF self2 fa(3) m2(8) f(2) bo tbB] f(1) by blast
  have q2': "quiet (in_dir C m2) m3 {w. PageEntry_GetAddress w = f}" using m3(2) unfolding cr2(2) .
  note q2 = quiet_both [OF m2(2) q2' f(3)]
  have q2P: "quiet (in_dir P m2) (in_dir P m3) {w. PageEntry_GetAddress w = f}" and two3: "two_spaces P C pp cp' m3"
    using q2 f(2) cr2 by simp_all
  note q3 = quiet_fields [OF m3(2)] and q3P = quiet_fields [OF q2P]
  have cr3: "ms_cr3 m3 = C" "in_dir C m3 = m3" using q3(1) cr2 in_dir_pools(2) [of m3] by simp_all
  have trP: "mmu_translate (in_dir P m3) va = mmu_translate m va" "mmu_translate (in_dir P m2) va = mmu_translate m va"
    if "pdx va \<noteq> self_idx" for va
    using pv(2) [OF that] cr1 qf(7) q3P(7) by simp_all
  have ap: "pages_apart P C pp cp' m2" "a \<in> pool_used cp'" using two_spacesD(7) [OF m2(2)] m2(4) by simp_all
  have contP: "same_pages m (in_dir P m3) (pool_used pp)"
    by (rule parent_contents [OF vp _ m1(2) m2(3) m3(2) trP(2,1) ap m2(8)]) (use b in simp_all)
  have contC: "same_pages (in_dir C m) m3 (pool_used cp)"
    by (rule child_contents [OF two_spacesD(2) [OF two1] vC2 B2 m1(2) m2(3) m3(2) qC(7) a(2) fa(3) m2(4,8)])
  have new: "mem_read m3 (a + of_nat (4 * k)) = mem_read m (a + of_nat (4 * k))" if "k < 1024" for k
  proof -
    have "mem_read m2 (buf + of_nat (4 * k)) = mem_read m1 (buf + of_nat (4 * k))"
      by (rule keep_words [OF bo _ tbB wB that]) (use b qf(7) in simp_all)
    then show ?thesis using m3(3) m1(3) that by simp
  qed
  have bp: "buffer_page P C buf B m3"
    unfolding buffer_page_def cr3(2) using b trP(1) [of buf] B2 nB q3(2,9) q3P(9) by simp
  have en3: "enough UserPool n m3" using m2(9) q3 by (simp add: enough_def)
  have trs: "\<forall>va. pdx va \<noteq> self_idx \<longrightarrow> mmu_translate (in_dir P m1) va = mmu_translate m va \<and>
      mmu_translate (in_dir P m3) va = mmu_translate m va" unfolding cr1(2) using trP(1) qf(7) by simp
  show thesis
    by (rule that [OF m1(1) m2(1) m3(1) two3 bp en3 m2(4,5,6,7) cr1(1) cr3(1) trs contP contC]) (use new self qf(10) in auto)
qed

end
