(* ===== verification/Forks.thy ===== *)
theory Forks
  imports Spaces
begin

text \<open>
  \<^verbatim>\<open>Process::CopyMemTo\<close>, the heart of \<^verbatim>\<open>Fork\<close>: one page through the buffer of the kernel, the loop over the pages of the parent, and two
  concrete processes.
\<close>

section \<open>The loop over the pages\<close>

text \<open>
  The parent \<open>p\<close> with its main thread \<open>t\<close> runs, the child \<open>c\<close> has the main thread \<open>u\<close>; the pages of their directories belong to the
  kernel.
\<close>

record fork =
  fk_parent :: nat
  fk_child :: nat
  fk_main :: tid
  fk_child_main :: tid
  fk_pdir :: u32
  fk_cdir :: u32
  fk_buf :: u32
  fk_frame :: u32

definition dir_page :: "u32 \<Rightarrow> u32 \<Rightarrow> u32 \<Rightarrow> memsys \<Rightarrow> bool" where
  "dir_page P d F m \<longleftrightarrow> krnl_idx (pdx d) \<and> mmu_translate (in_dir P m) d = Some F"

definition fork_ready :: "fork \<Rightarrow> page_pool \<Rightarrow> page_pool \<Rightarrow> procs \<Rightarrow> bool" where
  "fork_ready F pp cp s \<longleftrightarrow>
     (\<exists>pr cr. ps_proc s (fk_parent F) = Some pr \<and> ps_proc s (fk_child F) = Some cr \<and> pr_vr_addrs pr = pp \<and> pr_vr_addrs cr = cp \<and>
        dir_page (fk_pdir F) (pr_page_dir pr) (fk_pdir F) (ps_mem s) \<and> dir_page (fk_pdir F) (pr_page_dir cr) (fk_cdir F) (ps_mem s) \<and>
        pr_main_thd pr = Some (fk_main F) \<and> pr_main_thd cr = Some (fk_child_main F)) \<and>
     fk_parent F \<noteq> fk_child F \<and> th_proc (sc_thd (ps_sched s) (fk_main F)) = Some (fk_parent F) \<and>
     th_proc (sc_thd (ps_sched s) (fk_child_main F)) = Some (fk_child F) \<and> ps_krnl_dir s \<noteq> None \<and>
     ms_cr3 (ps_mem s) = fk_pdir F \<and> two_spaces (fk_pdir F) (fk_cdir F) pp cp (ps_mem s) \<and>
     buffer_page (fk_pdir F) (fk_cdir F) (fk_buf F) (fk_frame F) (ps_mem s)"

lemma in_dir_spaces [simp]:
  "two_spaces P C pp cp (in_dir x m) = two_spaces P C pp cp m" "buffer_page P C buf B (in_dir x m) = buffer_page P C buf B m"
  "dir_page P d G (in_dir x m) = dir_page P d G m"
  by (simp_all add: two_spaces_def private_tables_def pages_apart_def buffer_page_def dir_page_def)

lemma LoadPageDir_ok:
  assumes "th_proc (sc_thd (ps_sched s) t) = Some q" "ps_proc s q = Some r" "ps_krnl_dir s \<noteq> None"
    and "selfmap_ok (ps_mem s)" "mmu_translate (ps_mem s) (pr_page_dir r) = Some X"
  shows "proc_LoadPageDir t s = Some (s\<lparr>ps_mem := in_dir X (ps_mem s), ps_sched := Thread_LoadPageDir t (ps_sched s)\<rparr>)"
  using assms GetPhyAddr_translate [OF assms(4,5)] by (cases "ps_krnl_dir s") (simp_all add: proc_LoadPageDir_def)

lemma LoadPageDir_thd [simp]: "sc_thd (Thread_LoadPageDir t k) = sc_thd k"
  by (simp add: Thread_LoadPageDir_def)

lemma CopyMemTo_page_ok:
  assumes r: "fork_ready F pp cp s" and a: "a \<in> pool_used pp" "a \<in> pool_avail cp" and en: "enough UserPool (Suc n) (ps_mem s)"
  obtains s' cp' where "CopyMemTo_page (fk_main F) (fk_child_main F) (fk_child F) (fk_buf F) a s = Some s'"
    "fork_ready F pp cp' s'" "enough UserPool n (ps_mem s')" "pool_used cp' = insert a (pool_used cp)"
    "pl_start cp' = pl_start cp" "pool_cap cp' = pool_cap cp"
    "same_pages (ps_mem s) (ps_mem s') (pool_used pp)"
    "same_pages (in_dir (fk_cdir F) (ps_mem s)) (in_dir (fk_cdir F) (ps_mem s')) (pool_used cp)"
    "\<forall>k<1024. mem_read (in_dir (fk_cdir F) (ps_mem s')) (a + of_nat (4 * k)) = mem_read (ps_mem s) (a + of_nat (4 * k))"
proof -
  define P where "P = fk_pdir F"
  define C where "C = fk_cdir F"
  note defs = P_def [symmetric] C_def [symmetric]
  obtain pr cr where pc: "ps_proc s (fk_parent F) = Some pr" "ps_proc s (fk_child F) = Some cr" "pr_vr_addrs pr = pp" "pr_vr_addrs cr = cp"
    "dir_page P (pr_page_dir pr) P (ps_mem s)" "dir_page P (pr_page_dir cr) C (ps_mem s)"
    "pr_main_thd pr = Some (fk_main F)" "pr_main_thd cr = Some (fk_child_main F)"
    using r unfolding fork_ready_def defs by blast
  have th: "fk_parent F \<noteq> fk_child F" "th_proc (sc_thd (ps_sched s) (fk_main F)) = Some (fk_parent F)"
    "th_proc (sc_thd (ps_sched s) (fk_child_main F)) = Some (fk_child F)" "ps_krnl_dir s \<noteq> None" "ms_cr3 (ps_mem s) = P"
    and two: "two_spaces P C pp cp (ps_mem s)" and buf: "buffer_page P C (fk_buf F) (fk_frame F) (ps_mem s)"
    using r unfolding fork_ready_def defs by blast+
  obtain m1 cp' m2 m3 where m: "mem_copy (ps_mem s) (fk_buf F) a 1024 = Some m1"
    "AllocPageAtAddr_in UserPool cp a (in_dir C m1) = Some (a, cp', m2)" "mem_copy m2 a (fk_buf F) 1024 = Some m3"
    "two_spaces P C pp cp' m3" "buffer_page P C (fk_buf F) (fk_frame F) m3" "enough UserPool n m3"
    "pool_used cp' = insert a (pool_used cp)" "pool_avail cp' = pool_avail cp - {a}"
    "pl_start cp' = pl_start cp" "pool_cap cp' = pool_cap cp" "ms_cr3 m1 = P" "ms_cr3 m3 = C"
    "\<forall>va. pdx va \<noteq> self_idx \<longrightarrow> mmu_translate (in_dir P m1) va = mmu_translate (ps_mem s) va \<and>
       mmu_translate (in_dir P m3) va = mmu_translate (ps_mem s) va"
    "same_pages (ps_mem s) (in_dir P m3) (pool_used pp)" "same_pages (in_dir C (ps_mem s)) m3 (pool_used cp)"
    "\<forall>k<1024. mem_read m3 (a + of_nat (4 * k)) = mem_read (ps_mem s) (a + of_nat (4 * k))" "selfmap_ok m1"
    by (rule copy_page_to_child [OF two buf th(5) a en])
  have cr: "in_dir P (ps_mem s) = ps_mem s" "in_dir P m1 = m1" "in_dir C m3 = m3"
    using in_dir_pools(2) [of "ps_mem s"] in_dir_pools(2) [of m1] in_dir_pools(2) [of m3] th(5) m(11,12) by simp_all
  have dp: "pdx d \<noteq> self_idx" "mmu_translate (in_dir P m1) d = Some X" "mmu_translate (in_dir P m3) d = Some X" "mmu_translate m3 d = Some X"
    if "dir_page P d X (ps_mem s)" for d X
  proof -
    show ns: "pdx d \<noteq> self_idx" using that by (auto simp: dir_page_def)
    show "mmu_translate (in_dir P m1) d = Some X" "mmu_translate (in_dir P m3) d = Some X"
      using m(13) ns that cr by (auto simp: dir_page_def)
    then show "mmu_translate m3 d = Some X"
      using two_spaces_translate [OF m(4), of d] that cr(3) by (simp add: dir_page_def)
  qed
  have self3: "selfmap_ok m3" using vspaceD(3) [OF two_spacesD(2) [OF m(4)]] unfolding cr(3) .
  have tm1: "mmu_translate m1 (pr_page_dir cr) = Some C" using dp(2) [OF pc(6)] unfolding cr(2) .
  let ?k1 = "Thread_LoadPageDir (fk_child_main F) (ps_sched s)"
  let ?k = "Thread_LoadPageDir (fk_main F) ?k1"
  let ?procs = "(ps_proc s)(fk_child F \<mapsto> cr\<lparr>pr_vr_addrs := cp'\<rparr>)"
  let ?s = "s\<lparr>ps_mem := in_dir P m3, ps_sched := ?k, ps_proc := ?procs\<rparr>"
  have l1: "proc_LoadPageDir (fk_child_main F) (s\<lparr>ps_mem := m1\<rparr>) = Some (s\<lparr>ps_mem := in_dir C m1, ps_sched := ?k1\<rparr>)"
    using LoadPageDir_ok [of "s\<lparr>ps_mem := m1\<rparr>" "fk_child_main F" "fk_child F" cr C] th(3,4) pc(2) m(17) tm1 by simp
  have l2: "proc_LoadPageDir (fk_main F) (s\<lparr>ps_sched := ?k1, ps_proc := ?procs, ps_mem := m3\<rparr>) = Some ?s"
    using LoadPageDir_ok [of "s\<lparr>ps_sched := ?k1, ps_proc := ?procs, ps_mem := m3\<rparr>" "fk_main F" "fk_parent F" pr P]
      th(1,2,4) pc(1) self3 dp(4) [OF pc(5)] by simp
  have ps: "page_size div 4 = 1024" by (simp add: page_size_def)
  have run: "CopyMemTo_page (fk_main F) (fk_child_main F) (fk_child F) (fk_buf F) a s = Some ?s"
    using m(1,2,3) l1 l2 pc(2,4) by (simp add: CopyMemTo_page_def ps upd_proc_def)
  show thesis
  proof (rule that [OF run])
    have "dir_page P (pr_page_dir pr) P m3" "dir_page P (pr_page_dir cr) C m3"
      using dp(3) [OF pc(5)] dp(3) [OF pc(6)] pc(5,6) by (simp_all add: dir_page_def)
    then show "fork_ready F pp cp' ?s"
      unfolding fork_ready_def defs using pc th m(4,5) by simp
    show "enough UserPool n (ps_mem ?s)" using m(6) by (simp add: enough_def)
    show "same_pages (in_dir (fk_cdir F) (ps_mem s)) (in_dir (fk_cdir F) (ps_mem ?s)) (pool_used cp)"
      unfolding defs using m(15) cr(3) by simp
    show "\<forall>k<1024. mem_read (in_dir (fk_cdir F) (ps_mem ?s)) (a + of_nat (4 * k)) = mem_read (ps_mem s) (a + of_nat (4 * k))"
      unfolding defs using m(16) cr(3) by simp
  qed (use m in simp_all)
qed

text \<open>The pages of the parent in front of page \<open>i\<close>, and the number of those from it on.\<close>

definition pages_below :: "page_pool \<Rightarrow> nat \<Rightarrow> u32 set" where
  "pages_below p i = pool_page p ` {j. j < i \<and> bm_used (pl_bitmap p) j}"

definition pages_left :: "page_pool \<Rightarrow> nat \<Rightarrow> nat" where
  "pages_left p i = card {j. i \<le> j \<and> j < pool_cap p \<and> bm_used (pl_bitmap p) j}"

lemma pages_below_simps [simp]:
  "pages_below p 0 = {}"
  "pages_below p (Suc i) = (if bm_used (pl_bitmap p) i then insert (pool_page p i) (pages_below p i) else pages_below p i)"
  by (auto simp: pages_below_def less_Suc_eq)

lemma pages_below_cap: "pool_ok p \<Longrightarrow> pages_below p (pool_cap p) = pool_used p"
  using bm.used_bound by (auto simp: pages_below_def pool_used_def pool_ok_def)

lemma pages_left_Suc:
  assumes "i < pool_cap p"
  shows "pages_left p i = (if bm_used (pl_bitmap p) i then Suc (pages_left p (Suc i)) else pages_left p (Suc i))"
proof -
  let ?A = "{j. Suc i \<le> j \<and> j < pool_cap p \<and> bm_used (pl_bitmap p) j}"
  have "{j. i \<le> j \<and> j < pool_cap p \<and> bm_used (pl_bitmap p) j} = (if bm_used (pl_bitmap p) i then insert i ?A else ?A)"
    using assms by (auto simp: Suc_le_eq le_less)
  then show ?thesis by (simp add: pages_left_def)
qed

lemma next_page_avail:
  assumes pp: "pool_ok pp" and i: "i < pool_cap pp" and cp: "pool_used cp = pages_below pp i" "pl_start cp = pl_start pp" "pool_cap cp = pool_cap pp"
  shows "pool_page pp i \<in> pool_avail cp"
proof -
  have pg: "pool_page cp = pool_page pp" using cp(2) by (simp add: pool_page_def fun_eq_iff)
  have "pool_page pp i \<notin> pool_used cp"
  proof
    assume "pool_page pp i \<in> pool_used cp"
    then obtain j where j: "j < i" "pool_page pp i = pool_page pp j" unfolding cp(1) pages_below_def by blast
    then show False using pool_page_inj [OF pp i _ j(2)] i by simp
  qed
  then show ?thesis using i cp(3) by (auto simp: pool_avail_def pool_used_def pg)
qed

lemma same_pages_trans: "same_pages a b M \<Longrightarrow> same_pages b c M \<Longrightarrow> same_pages a c M"
  by (simp add: same_pages_def)

lemma fork_readyD:
  assumes "fork_ready F pp cp s"
  shows "\<exists>pr. ps_proc s (fk_parent F) = Some pr \<and> pr_vr_addrs pr = pp" "pool_ok pp" "pool_ok cp"
  using assms vspaceD(1) two_spacesD(1,2) unfolding fork_ready_def by blast+

lemma CopyMemTo_loop_ok:
  assumes "fork_ready F pp cp s" "i + n = pool_cap pp" "pool_used cp = pages_below pp i" "pl_start cp = pl_start pp"
    and "pool_cap cp = pool_cap pp" "enough UserPool (pages_left pp i) (ps_mem s)"
  shows "\<exists>s' cp'. CopyMemTo_loop (fk_parent F) (fk_main F) (fk_child_main F) (fk_child F) (fk_buf F) i n s = Some s' \<and>
    fork_ready F pp cp' s' \<and> pool_used cp' = pool_used pp \<and> same_pages (ps_mem s) (ps_mem s') (pool_used pp) \<and>
    same_pages (in_dir (fk_cdir F) (ps_mem s)) (in_dir (fk_cdir F) (ps_mem s')) (pool_used cp) \<and>
    same_pages (ps_mem s) (in_dir (fk_cdir F) (ps_mem s')) (pool_used pp - pool_used cp)"
  using assms
proof (induction n arbitrary: i cp s)
  case 0
  then have "pool_used cp = pool_used pp" using pages_below_cap [OF fork_readyD(2) [OF 0(1)]] by simp
  with 0 show ?case by (auto simp: same_pages_def)
next
  case (Suc n)
  obtain pr where pr: "ps_proc s (fk_parent F) = Some pr" "pr_vr_addrs pr = pp" using fork_readyD(1) [OF Suc.prems(1)] by blast
  have ok: "pool_ok pp" "bitmap_ok (pl_bitmap pp)" using fork_readyD(2) [OF Suc.prems(1)] by (simp_all add: pool_ok_def)
  have i: "i < pool_cap pp" "Suc i + n = pool_cap pp" using Suc.prems(2) by simp_all
  have al: "Bitmap_IsAlloc (pl_bitmap pp) i = Some (bm_used (pl_bitmap pp) i)" by (rule IsAlloc_used [OF ok(2) i(1)])
  have a: "pl_start pp + of_nat (i * page_size) = pool_page pp i" by (simp add: pool_page_def)
  show ?case
  proof (cases "bm_used (pl_bitmap pp) i")
    case False
    then have "pool_used cp = pages_below pp (Suc i)" "enough UserPool (pages_left pp (Suc i)) (ps_mem s)"
      using Suc.prems(3,6) pages_left_Suc [OF i(1)] by simp_all
    from Suc.IH [OF Suc.prems(1) i(2) this(1) Suc.prems(4,5) this(2)]
    show ?thesis using False pr al by simp
  next
    case True
    let ?a = "pool_page pp i"
    have ap: "?a \<in> pool_used pp" using True i(1) by (auto simp: pool_used_def)
    have ac: "?a \<in> pool_avail cp" by (rule next_page_avail [OF ok(1) i(1) Suc.prems(3-5)])
    have en: "enough UserPool (Suc (pages_left pp (Suc i))) (ps_mem s)" using Suc.prems(6) True pages_left_Suc [OF i(1)] by simp
    obtain s1 cp1 where s1: "CopyMemTo_page (fk_main F) (fk_child_main F) (fk_child F) (fk_buf F) ?a s = Some s1"
      "fork_ready F pp cp1 s1" "enough UserPool (pages_left pp (Suc i)) (ps_mem s1)" "pool_used cp1 = insert ?a (pool_used cp)"
      "pl_start cp1 = pl_start cp" "pool_cap cp1 = pool_cap cp" "same_pages (ps_mem s) (ps_mem s1) (pool_used pp)"
      "same_pages (in_dir (fk_cdir F) (ps_mem s)) (in_dir (fk_cdir F) (ps_mem s1)) (pool_used cp)"
      "\<forall>k<1024. mem_read (in_dir (fk_cdir F) (ps_mem s1)) (?a + of_nat (4 * k)) = mem_read (ps_mem s) (?a + of_nat (4 * k))"
      by (rule CopyMemTo_page_ok [OF Suc.prems(1) ap ac en])
    have "pool_used cp1 = pages_below pp (Suc i)" using s1(4) Suc.prems(3) True by simp
    from Suc.IH [OF s1(2) i(2) this _ _ s1(3)] s1(5,6) Suc.prems(4,5)
    obtain s' cp' where s': "CopyMemTo_loop (fk_parent F) (fk_main F) (fk_child_main F) (fk_child F) (fk_buf F) (Suc i) n s1 = Some s'"
      "fork_ready F pp cp' s'" "pool_used cp' = pool_used pp" "same_pages (ps_mem s1) (ps_mem s') (pool_used pp)"
      "same_pages (in_dir (fk_cdir F) (ps_mem s1)) (in_dir (fk_cdir F) (ps_mem s')) (pool_used cp1)"
      "same_pages (ps_mem s1) (in_dir (fk_cdir F) (ps_mem s')) (pool_used pp - pool_used cp1)" by auto
    have "same_pages (ps_mem s) (in_dir (fk_cdir F) (ps_mem s')) (pool_used pp - pool_used cp)"
      using s'(5,6) s1(4,7,9) by (auto simp: same_pages_def)
    moreover have "same_pages (in_dir (fk_cdir F) (ps_mem s)) (in_dir (fk_cdir F) (ps_mem s')) (pool_used cp)"
      using s'(5) s1(4,8) by (simp add: same_pages_def)
    moreover have "CopyMemTo_loop (fk_parent F) (fk_main F) (fk_child_main F) (fk_child F) (fk_buf F) i (Suc n) s = Some s'"
      using pr al True a s1(1) s'(1) by simp
    ultimately show ?thesis using s'(2,3) same_pages_trans [OF s1(7) s'(4)] by blast
  qed
qed

section \<open>Two concrete address spaces\<close>

text \<open>
  The parent's directory at \<open>0x100000\<close> has a table for one user page, which holds the frame \<open>0x210000\<close> full of the number 42; the child's
  directory at \<open>0x101000\<close> has the table of the kernel only. The kernel maps the buffer and the two directories.
\<close>

fun pair_table :: "u32 \<Rightarrow> u32 \<Rightarrow> u32" where
  "pair_table f i =
     (if f = 0x100000 then (if i = 32 then 0x103003 else if i = 768 then 0x102003 else if i = 1023 then 0x100003 else 0)
      else if f = 0x101000 then (if i = 768 then 0x102003 else if i = 1023 then 0x101003 else 0)
      else if f = 0x102000 then (if i = 0x100 then 0x200003 else if i = 0x101 then 0x100003 else if i = 0x102 then 0x101003 else 0)
      else if f = 0x103000 then (if i = 0x48 then 0x210003 else 0)
      else if f = 0x210000 then 42 else 0)"

definition one_used :: "u32 \<Rightarrow> page_pool" where
  "one_used start = \<lparr>pl_start = start, pl_free = 15, pl_bitmap = \<lparr>bm_byte_len = 2, bm_bits = Some [1, 0]\<rparr>\<rparr>"

definition pair_mem :: memsys where
  "pair_mem = \<lparr>ms_cr3 = 0x100000, ms_mem = \<lambda>w. pair_table (PageEntry_GetAddress w) (drop_bit 2 (take_bit 12 w)),
     ms_kpool = one_used 0x200000, ms_upool = one_used 0x210000, ms_kaddr = one_used 0xC0100000, ms_uaddr = None\<rparr>"

lemma entry_at_idx:
  assumes "unat i < 1024"
  shows "drop_bit 2 (take_bit 12 (Paging.entry_at e i)) = i"
proof -
  have i: "bit i n \<Longrightarrow> n < 10" for n using bit_word_bound [of i 10] assms by simp
  show ?thesis using assms by (intro bit_word_eqI) (auto simp: bit_entry_at bit_simps dest: i)
qed

lemma pair_word: "unat i < 1024 \<Longrightarrow> ms_mem pair_mem (Paging.entry_at e i) = pair_table (PageEntry_GetAddress e) i"
  by (simp add: pair_mem_def entry_at_idx del: pair_table.simps)

lemma pair_entries:
  "PageEntry_GetAddress 0x100000 = 0x100000" "PageEntry_GetAddress 0x101000 = 0x101000"
  "PageEntry_GetAddress 0x100003 = 0x100000" "PageEntry_GetAddress 0x101003 = 0x101000" "PageEntry_GetAddress 0x102003 = 0x102000"
  "PageEntry_GetAddress 0x103003 = 0x103000" "PageEntry_GetAddress 0x200003 = 0x200000" "PageEntry_GetAddress 0x210003 = 0x210000"
  "PageEntry_IsPresent 0x100003" "PageEntry_IsPresent 0x101003" "PageEntry_IsPresent 0x102003" "PageEntry_IsPresent 0x103003"
  "PageEntry_IsPresent 0x200003" "PageEntry_IsPresent 0x210003" "\<not> PageEntry_IsPresent 0"
  by (simp_all add: entry_defs IsBitSet_def GetBits_def)

lemma one_used_bits: "bm_used (pl_bitmap (one_used start)) i \<longleftrightarrow> i = 0"
  by (auto simp: bm_used_def one_used_def less_2_cases_iff nth_Cons' bit_simps)

lemma one_used_cap: "pool_cap (one_used start) = 16"
  by (simp add: one_used_def Bitmap_GetCapacity_def byte_len_def)

lemma one_used_ok:
  assumes "start \<noteq> 0" "unat start mod page_size = 0" "unat start + 0x10000 \<le> 2 ^ 32"
  shows "pool_ok (one_used start)"
proof -
  have "used_slots (bm_used (pl_bitmap (one_used start))) 16 = card {0 :: nat}"
    unfolding used_slots_card one_used_bits by (rule arg_cong [of _ _ card]) auto
  then show ?thesis using assms unfolding pool_ok_def one_used_cap
    by (simp add: page_size_def) (simp add: one_used_def bitmap_ok_def)
qed

lemma one_used_pages:
  "pool_used (one_used start) = {start}" "pool_avail (one_used start) = (\<lambda>i. start + of_nat (i * page_size)) ` set [1..<16]"
proof -
  have p: "pool_page (one_used start) i = start + of_nat (i * page_size)" for i by (simp add: pool_page_def one_used_def)
  show "pool_used (one_used start) = {start}" by (simp add: pool_used_def one_used_bits p)
  show "pool_avail (one_used start) = (\<lambda>i. start + of_nat (i * page_size)) ` set [1..<16]"
    unfolding pool_avail_def one_used_bits one_used_cap p by (auto simp: Suc_le_eq)
qed

lemma pair_translate:
  "mmu_translate (in_dir D pair_mem) va =
     (let pde = pair_table (PageEntry_GetAddress D) (pdx va); pte = pair_table (PageEntry_GetAddress pde) (ptx va)
      in if PageEntry_IsPresent pde \<and> PageEntry_IsPresent pte then Some (PageEntry_GetAddress pte + VrAddr_GetOffset va) else None)"
proof -
  have d: "mmu_pde (in_dir D pair_mem) va = pair_table (PageEntry_GetAddress D) (pdx va)"
    using pair_word [of "pdx va" D] by (simp add: mmu_pde_def del: pair_table.simps)
  then have "mmu_pte (in_dir D pair_mem) va = pair_table (PageEntry_GetAddress (pair_table (PageEntry_GetAddress D) (pdx va))) (ptx va)"
    using pair_word [of "ptx va"] by (simp add: mmu_pte_def del: pair_table.simps)
  then show ?thesis by (simp add: mmu_translate_def d Let_def del: pair_table.simps)
qed

lemma pair_dir: "unat i < 1024 \<Longrightarrow> dir_entry (in_dir D pair_mem) i = pair_table (PageEntry_GetAddress D) i"
  using pair_word [of i D] by (simp add: dir_entry_def del: pair_table.simps)

text \<open>The tables of the two directories and what they map.\<close>

lemma pair_table_page:
  "table_page (in_dir 0x100000 pair_mem) g \<Longrightarrow> g \<in> {0x100000, 0x102000, 0x103000}"
  "table_page (in_dir 0x101000 pair_mem) g \<Longrightarrow> g \<in> {0x101000, 0x102000}"
  unfolding table_page_def by (auto simp: pair_dir pair_entries split: if_splits)

lemma pair_self: "self_idx = 1023"
  by (simp add: self_idx_def page_dir_self_ref_def page_dir_count_def)

lemma pair_maps:
  assumes "pdx va \<noteq> self_idx" "mmu_translate (in_dir D pair_mem) va = Some pa" "D \<in> {0x100000, 0x101000}"
  shows "(pdx va, ptx va, PageEntry_GetAddress pa) \<in>
    {(768, 0x100, 0x200000), (768, 0x101, 0x100000), (768, 0x102, 0x101000)} \<union> (if D = 0x100000 then {(32, 0x48, 0x210000)} else {})"
proof -
  define f where "f = PageEntry_GetAddress (pair_table (PageEntry_GetAddress D) (pdx va))"
  have tr: "PageEntry_IsPresent (pair_table (PageEntry_GetAddress D) (pdx va))" "PageEntry_IsPresent (pair_table f (ptx va))"
    "pa = PageEntry_GetAddress (pair_table f (ptx va)) + VrAddr_GetOffset va"
    using assms(2) by (auto simp: pair_translate Let_def f_def simp del: pair_table.simps split: if_splits)
  have "pdx va = 768 \<and> f = 0x102000 \<or> D = 0x100000 \<and> pdx va = 32 \<and> f = 0x103000"
    using tr(1) assms(1,3) pair_self by (auto simp: f_def pair_entries split: if_splits)
  then show ?thesis
    using tr(2) unfolding tr(3) by (auto simp: pair_entries GetAddress_offset split: if_splits)
qed

lemma pair_frames:
  "0x200000 \<notin> pool_avail (one_used 0x200000)" "0x210000 \<notin> pool_avail (one_used 0x210000)"
  "g \<in> pool_avail (one_used 0x200000) \<Longrightarrow> 0x200000 < g \<and> g < 0x210000"
  "g \<in> pool_avail (one_used 0x210000) \<Longrightarrow> 0x210000 < g \<and> g < 0x220000"
  by (auto simp: one_used_pages upt_rec page_size_def)

lemma pair_mem_ok:
  assumes "D \<in> {0x100000, 0x101000}"
  shows "mem_ok (in_dir D pair_mem)"
proof -
  have k: "pool_ok (one_used 0x200000)" "pool_ok (one_used 0x210000)" by (rule one_used_ok; simp add: page_size_def)+
  have "tables_ok (in_dir D pair_mem)"
    using assms unfolding tables_ok_def selfmap_ok_def
    by (auto simp: pair_dir pair_self pair_entries split: if_splits)
  moreover have "pool_pages (one_used 0x200000) \<inter> pool_pages (one_used 0x210000) = {}"
    using pair_frames(3,4) by (fastforce simp: pool_pages_def one_used_pages(1))
  moreover have "frames_ok (in_dir D pair_mem) (pool_avail (one_used 0x200000) \<union> pool_avail (one_used 0x210000))"
    unfolding frames_ok_def
  proof (intro conjI ballI allI impI)
    fix g assume "g \<in> pool_avail (one_used 0x200000) \<union> pool_avail (one_used 0x210000)"
    then have "0x200000 < g" using pair_frames(3,4) [of g] by (auto intro: order_less_trans [of _ "0x210000"])
    then show "\<not> table_page (in_dir D pair_mem) g" using pair_table_page [of g] assms by auto
  next
    fix va pa assume "pdx va \<noteq> self_idx \<and> mmu_translate (in_dir D pair_mem) va = Some pa"
    then have "PageEntry_GetAddress pa \<in> {0x200000, 0x100000, 0x101000, 0x210000}"
      using pair_maps [of va D pa] assms by (auto split: if_splits)
    then show "PageEntry_GetAddress pa \<notin> pool_avail (one_used 0x200000) \<union> pool_avail (one_used 0x210000)"
      using pair_frames by fastforce
  qed
  ultimately show ?thesis using k by (simp add: mem_ok_def) (simp add: pair_mem_def)
qed

text \<open>The pools of the parent, with its page in use, and of the child.\<close>

lemma pair_pool_pages:
  assumes "a \<in> pool_pages (one_used 0x8048000)"
  shows "heap_page a \<and> pdx a = 32 \<and> (a \<noteq> 0x8048000 \<longrightarrow> ptx a \<noteq> 0x48)"
proof -
  have "a \<in> (\<lambda>i. 0x8048000 + of_nat (i * page_size)) ` set [0..<16]"
    using assms by (auto simp: pool_pages_def one_used_pages intro: rev_image_eqI [of 0])
  then show ?thesis
    by (auto simp: upt_rec heap_page_def vr_defs GetBits_def page_size_def self_idx_def page_dir_self_ref_def page_dir_count_def)
qed

lemma pair_fresh: "pool_used (fresh_pool s) = {}" "pool_avail (fresh_pool s) = pool_pages (one_used s)"
proof -
  show "pool_used (fresh_pool s) = {}" by (simp add: pool_used_def fresh_pool_used)
  have "pool_avail (fresh_pool s) = (\<lambda>i. s + of_nat (i * page_size)) ` {..<16}"
    unfolding pool_avail_def fresh_pool_used fresh_pool_cap by (auto simp: pool_page_def fresh_pool_def)
  also have "\<dots> = insert s ((\<lambda>i. s + of_nat (i * page_size)) ` {1..<16})"
  proof -
    have "{..<16} = insert 0 {1..<16 :: nat}" by auto
    then show ?thesis by simp
  qed
  finally show "pool_avail (fresh_pool s) = pool_pages (one_used s)" by (simp add: pool_pages_def one_used_pages)
qed

lemma pair_user: "mmu_translate (in_dir 0x100000 pair_mem) 0x8048000 = Some 0x210000"
proof -
  have "pdx 0x8048000 = 32" "ptx 0x8048000 = 0x48" "VrAddr_GetOffset 0x8048000 = 0" by (simp_all add: vr_defs GetBits_def)
  then show ?thesis by (simp add: pair_translate pair_entries)
qed

lemma pair_unmapped:
  "pdx a = 32 \<Longrightarrow> mmu_translate (in_dir 0x101000 pair_mem) a = None"
  "pdx a = 32 \<Longrightarrow> ptx a \<noteq> 0x48 \<Longrightarrow> mmu_translate (in_dir 0x100000 pair_mem) a = None"
  by (simp_all add: pair_translate pair_entries)

lemma pair_parent: "vspace_ok UserPool (in_dir 0x100000 pair_mem) (one_used 0x8048000)"
proof -
  let ?m = "in_dir 0x100000 pair_mem"
  have "sole_entry ?m 0x8048000 0x210000"
    unfolding sole_entry_def
  proof (intro allI impI)
    fix va pa assume va: "pdx va \<noteq> self_idx \<and> mmu_translate ?m va = Some pa \<and> PageEntry_GetAddress pa = 0x210000"
    then have "pdx va = 32" "ptx va = 0x48" using pair_maps [of va "0x100000" pa] by auto
    then show "pte_word ?m va = pte_word ?m 0x8048000"
      by (simp add: pte_word_def mmu_pde_dir) (simp add: vr_defs GetBits_def)
  qed
  then have "holds_page UserPool ?m 0x8048000 0x210000"
    using pair_user pair_table_page(1) [of "0x210000"]
    by (auto simp: holds_page_def GetPhyMemPagePool_def pair_mem_def one_used_pages(1))
  moreover have "pool_ok (one_used 0x8048000)" by (rule one_used_ok) (simp_all add: page_size_def)
  moreover have "mmu_translate ?m a = None" if a: "a \<in> pool_avail (one_used 0x8048000)" for a
  proof -
    have "a \<noteq> 0x8048000" using a pool_used_avail [OF calculation(2)] one_used_pages(1) by auto
    then show ?thesis using pair_pool_pages [of a] pair_unmapped(2) [of a] a by (auto simp: pool_pages_def)
  qed
  moreover have "heap_page a" if "a \<in> pool_used (one_used 0x8048000) \<union> pool_avail (one_used 0x8048000)" for a
    using that pair_pool_pages [of a] by (auto simp: pool_pages_def)
  ultimately show ?thesis
    using pair_mem_ok [of "0x100000"] pool_used_avail [of "one_used 0x8048000"]
    unfolding vspace_ok_def space_def one_used_pages(1) by (auto simp: inj_on_def)
qed

lemma pair_child: "vspace_ok UserPool (in_dir 0x101000 pair_mem) (fresh_pool 0x8048000)"
proof -
  have "pool_ok (fresh_pool 0x8048000)" by (rule fresh_pool_ok) (simp_all add: page_size_def)
  then show ?thesis
    using pair_mem_ok [of "0x101000"] pair_pool_pages pair_unmapped(1)
    unfolding vspace_ok_def space_def pair_fresh by auto
qed

lemma pair_spaces: "two_spaces 0x100000 0x101000 (one_used 0x8048000) (fresh_pool 0x8048000) pair_mem"
proof -
  have p1: "PageEntry_GetAddress (dir_entry (in_dir 0x100000 pair_mem) i) \<in> {0x100000, 0x103000}"
    if "unat i < 1024" "\<not> krnl_idx i" "PageEntry_IsPresent (dir_entry (in_dir 0x100000 pair_mem) i)" for i
    using that by (auto simp: pair_dir pair_entries krnl_idx_def split: if_splits)
  have p2: "PageEntry_GetAddress (dir_entry (in_dir 0x101000 pair_mem) i) = 0x101000"
    if "unat i < 1024" "\<not> krnl_idx i" "PageEntry_IsPresent (dir_entry (in_dir 0x101000 pair_mem) i)" for i
    using that by (auto simp: pair_dir pair_entries krnl_idx_def split: if_splits)
  have "private_tables 0x100000 0x101000 pair_mem"
    unfolding private_tables_def using p2 pair_table_page(1) by fastforce
  moreover have "private_tables 0x101000 0x100000 pair_mem"
    unfolding private_tables_def using p1 pair_table_page(2) by fastforce
  moreover have "pages_apart 0x100000 0x101000 (one_used 0x8048000) (fresh_pool 0x8048000) pair_mem"
    unfolding pages_apart_def pair_fresh(1) one_used_pages(1) using pair_user pair_table_page(2) [of "0x210000"] by auto
  moreover have "unat (pdx a) < 768" if "a \<in> pool_pages (one_used 0x8048000) \<union> pool_pages (fresh_pool 0x8048000)" for a
  proof -
    have "a \<in> pool_pages (one_used 0x8048000)" using that by (simp add: pool_pages_def [of "fresh_pool _"] pair_fresh)
    then show ?thesis using pair_pool_pages [of a] by simp
  qed
  moreover have "dir_entry (in_dir 0x100000 pair_mem) i = dir_entry (in_dir 0x101000 pair_mem) i" if "krnl_idx i" for i
    using that by (auto simp: pair_dir pair_entries krnl_idx_def)
  ultimately show ?thesis using pair_parent pair_child unfolding two_spaces_def by blast
qed

section \<open>Properties\<close>

lemma pages_left_all: "pool_ok p \<Longrightarrow> pages_left p 0 = card (pool_used p)"
proof -
  assume ok: "pool_ok p"
  let ?J = "{j. j < pool_cap p \<and> bm_used (pl_bitmap p) j}"
  have "inj_on (pool_page p) ?J" using pool_page_inj [OF ok] by (auto simp: inj_on_def)
  moreover have "pool_used p = pool_page p ` ?J" using pages_below_cap [OF ok] by (simp add: pages_below_def)
  ultimately show ?thesis by (simp add: pages_left_def card_image)
qed

lemma own_frames:
  assumes "two_spaces P C pp cp m" "a \<in> pool_used pp" "a \<in> pool_used cp"
  shows "mmu_translate (in_dir P m) a \<noteq> mmu_translate (in_dir C m) a"
proof -
  obtain f where f: "holds_page UserPool (in_dir P m) a f" using vspaceD(6) [OF two_spacesD(1) [OF assms(1)] assms(2)] by blast
  then have "mmu_translate (in_dir P m) a = Some f" by (simp add: holds_page_def)
  then show ?thesis using two_spacesD(7) [OF assms(1)] assms(2,3) unfolding pages_apart_def by metis
qed

text \<open>C3: \<^verbatim>\<open>CopyMemTo\<close> gives a child without user memory a copy of the memory of its parent: when there are enough free pages it returns,
  the child uses exactly the addresses that the parent uses, each in a physical page of its own with the contents of the
  parent's page; the parent's contents are unchanged, its directory is loaded again, and both address spaces satisfy their
  invariants and share the kernel.\<close>

theorem CopyMemTo_copies:
  assumes "fork_ready F pp cp s" and "pool_used cp = {}" and "pl_start cp = pl_start pp" and "pool_cap cp = pool_cap pp"
    and "enough UserPool (card (pool_used pp)) (ps_mem s)"
  shows "\<exists>s' cp'. Process_CopyMemTo (fk_parent F) (fk_child F) (fk_buf F) page_size s = Some s' \<and>
    fork_ready F pp cp' s' \<and> pool_used cp' = pool_used pp \<and>
    (\<forall>a \<in> pool_used pp. mmu_translate (ps_mem s') a \<noteq> mmu_translate (in_dir (fk_cdir F) (ps_mem s')) a) \<and>
    same_pages (ps_mem s) (in_dir (fk_cdir F) (ps_mem s')) (pool_used pp) \<and>
    same_pages (ps_mem s) (ps_mem s') (pool_used pp)"
proof -
  have ok: "pool_ok pp" by (rule fork_readyD(2) [OF assms(1)])
  have en: "enough UserPool (pages_left pp 0) (ps_mem s)" using assms(5) pages_left_all [OF ok] by simp
  obtain s' cp' where l: "CopyMemTo_loop (fk_parent F) (fk_main F) (fk_child_main F) (fk_child F) (fk_buf F) 0 (pool_cap pp) s = Some s'"
    "fork_ready F pp cp' s'" "pool_used cp' = pool_used pp" "same_pages (ps_mem s) (ps_mem s') (pool_used pp)"
    "same_pages (ps_mem s) (in_dir (fk_cdir F) (ps_mem s')) (pool_used pp)"
    using CopyMemTo_loop_ok [OF assms(1) _ _ assms(3,4) en] assms(2) by auto
  have r: "fk_buf F \<noteq> 0" using assms(1) by (auto simp: fork_ready_def buffer_page_def heap_page_def vr_defs GetBits_def)
  have run: "Process_CopyMemTo (fk_parent F) (fk_child F) (fk_buf F) page_size s = Some s'"
    using assms(1) l(1) r unfolding fork_ready_def by (auto simp: Process_CopyMemTo_def)
  have two: "two_spaces (fk_pdir F) (fk_cdir F) pp cp' (ps_mem s')" and cr3: "ms_cr3 (ps_mem s') = fk_pdir F"
    using l(2) by (simp_all add: fork_ready_def)
  have "in_dir (fk_pdir F) (ps_mem s') = ps_mem s'" using in_dir_pools(2) [of "ps_mem s'"] cr3 by simp
  then have "\<forall>a \<in> pool_used pp. mmu_translate (ps_mem s') a \<noteq> mmu_translate (in_dir (fk_cdir F) (ps_mem s')) a"
    using own_frames [OF two] l(3) by simp
  with run l show ?thesis by blast
qed

definition pair_fork :: fork where
  "pair_fork = \<lparr>fk_parent = 1, fk_child = 2, fk_main = 8192, fk_child_main = 12288, fk_pdir = 0x100000, fk_cdir = 0x101000,
     fk_buf = 0xC0100000, fk_frame = 0x200000\<rparr>"

definition pair_procs :: procs where
  "pair_procs = demo_procs\<lparr>ps_mem := pair_mem,
     ps_sched := (boot_state 4096)\<lparr>sc_thd := (\<lambda>t. blank_thread\<lparr>th_proc := Some (if t = 8192 then 1 else 2)\<rparr>)\<rparr>,
     ps_proc := [1 \<mapsto> blank_process\<lparr>pr_vr_addrs := one_used 0x8048000, pr_page_dir := 0xC0101000, pr_main_thd := Some 8192\<rparr>,
                 2 \<mapsto> blank_process\<lparr>pr_vr_addrs := fresh_pool 0x8048000, pr_page_dir := 0xC0102000, pr_main_thd := Some 12288\<rparr>],
     ps_krnl_dir := Some 0x100000\<rparr>"

lemma pair_krnl:
  "mmu_translate (in_dir 0x100000 pair_mem) 0xC0100000 = Some 0x200000"
  "dir_page 0x100000 0xC0101000 0x100000 pair_mem" "dir_page 0x100000 0xC0102000 0x101000 pair_mem"
  "heap_page 0xC0100000" "krnl_idx (pdx 0xC0100000)"
proof -
  have a: "pdx 0xC0100000 = 768" "ptx 0xC0100000 = 0x100" "VrAddr_GetOffset 0xC0100000 = 0"
    "pdx 0xC0101000 = 768" "ptx 0xC0101000 = 0x101" "VrAddr_GetOffset 0xC0101000 = 0"
    "pdx 0xC0102000 = 768" "ptx 0xC0102000 = 0x102" "VrAddr_GetOffset 0xC0102000 = 0" by (simp_all add: vr_defs GetBits_def)
  show "mmu_translate (in_dir 0x100000 pair_mem) 0xC0100000 = Some 0x200000"
    "dir_page 0x100000 0xC0101000 0x100000 pair_mem" "dir_page 0x100000 0xC0102000 0x101000 pair_mem"
    by (simp_all add: dir_page_def pair_translate pair_entries a krnl_idx_def)
  show "heap_page 0xC0100000" "krnl_idx (pdx 0xC0100000)" by (simp_all add: heap_page_def a krnl_idx_def pair_self)
qed

lemma pair_ready: "fork_ready pair_fork (one_used 0x8048000) (fresh_pool 0x8048000) pair_procs"
proof -
  have "0x200000 \<in> pool_used (ms_kpool pair_mem)" by (simp add: pair_mem_def one_used_pages(1))
  then have "buffer_page 0x100000 0x101000 0xC0100000 0x200000 pair_mem"
    using pair_krnl pair_table_page [of "0x200000"] by (auto simp: buffer_page_def)
  moreover have "ms_cr3 pair_mem = 0x100000" by (simp add: pair_mem_def)
  ultimately show ?thesis
    using pair_spaces pair_krnl(2,3) by (simp add: fork_ready_def pair_fork_def pair_procs_def)
qed

theorem CopyMemTo_copies_witness:
  "\<exists>s'. Process_CopyMemTo 1 2 0xC0100000 page_size pair_procs = Some s' \<and>
     mem_read (in_dir 0x101000 (ps_mem s')) 0x8048000 = Some 42"
proof -
  have "enough UserPool (card (pool_used (one_used 0x8048000))) (ps_mem pair_procs)"
    by (simp add: enough_def pair_procs_def one_used_pages(1)) (simp add: pair_mem_def one_used_def)
  moreover have "pl_start (fresh_pool 0x8048000) = pl_start (one_used 0x8048000)" by (simp add: fresh_pool_def one_used_def)
  moreover have "pool_cap (fresh_pool 0x8048000) = pool_cap (one_used 0x8048000)" by (simp add: fresh_pool_cap one_used_cap)
  ultimately obtain s' where s': "Process_CopyMemTo 1 2 0xC0100000 page_size pair_procs = Some s'"
    "same_pages pair_mem (in_dir 0x101000 (ps_mem s')) {0x8048000}"
    using CopyMemTo_copies [OF pair_ready pair_fresh(1)] unfolding one_used_pages(1)
    by (auto simp: pair_fork_def pair_procs_def)
  have "in_dir 0x100000 pair_mem = pair_mem" by (simp add: pair_mem_def)
  then have "mem_read pair_mem 0x8048000 = Some (ms_mem pair_mem 0x210000)" using pair_user by (simp add: mem_read_def)
  also have "ms_mem pair_mem 0x210000 = 42"
    using pair_word [of 0 "0x210000"] by (simp add: Paging.entry_at_def entry_defs GetBits_def)
  finally show ?thesis using s' by (auto simp: same_pages_def dest!: spec [of _ 0])
qed

end
