(* ===== verification/SysCalls.thy ===== *)
theory SysCalls
  imports Forks Video
begin

text \<open>
  System calls: the table of handlers (\<^verbatim>\<open>src/kernel/syscall/call.cpp\<close>), the entry point in assembly
  (\<^verbatim>\<open>SysCallEntry\<close> of \<^verbatim>\<open>interrupt/intr.asm\<close>) and the user library (\<^verbatim>\<open>src/user\<close>). The state is the one the running process sees: its
  processes, files and memory (\<open>Procs\<close>), the screen (\<open>Video\<close>) and the arenas of its heap. Texts and argument structures are read
  from and written to its memory. A function without result leaves an unknown value in \<^verbatim>\<open>EAX\<close>, the argument \<open>junk\<close>; a truth
  value is returned as 0 or 1. A buffer that a call is given is mapped in whole, otherwise the call faults.
\<close>

section \<open>Bytes and words of a process\<close>

definition byte_read :: "memsys \<Rightarrow> u32 \<Rightarrow> u8 option" where
  "byte_read m va = do {
     w \<leftarrow> mem_read m (push_bit 2 (drop_bit 2 va));
     Some (ucast (drop_bit (8 * unat (take_bit 2 va)) w))
   }"

definition byte_write :: "memsys \<Rightarrow> u32 \<Rightarrow> u8 \<Rightarrow> memsys option" where
  "byte_write m va b = do {
     let wa = push_bit 2 (drop_bit 2 va);
     w \<leftarrow> mem_read m wa;
     mem_write m wa (SetBits w (ucast b :: u32) (8 * unat (take_bit 2 va)) 8)
   }"

fun bytes_read :: "memsys \<Rightarrow> u32 \<Rightarrow> nat \<Rightarrow> u8 list option" where
  "bytes_read m va 0 = Some []"
| "bytes_read m va (Suc n) = do { b \<leftarrow> byte_read m va; bs \<leftarrow> bytes_read m (va + 1) n; Some (b # bs) }"

fun bytes_write :: "memsys \<Rightarrow> u32 \<Rightarrow> u8 list \<Rightarrow> memsys option" where
  "bytes_write m va [] = Some m"
| "bytes_write m va (b # bs) = do { m \<leftarrow> byte_write m va b; bytes_write m (va + 1) bs }"

text \<open>A text up to its \<open>NUL\<close>; after \<open>n\<close> characters without one the reading goes round the address space for ever.\<close>

fun cstr_read :: "nat \<Rightarrow> memsys \<Rightarrow> u32 \<Rightarrow> char list option" where
  "cstr_read 0 m va = None"
| "cstr_read (Suc n) m va = do {
     b \<leftarrow> byte_read m va;
     if b = 0 then Some [NUL] else do { cs \<leftarrow> cstr_read n m (va + 1); Some (byte_char b # cs) }
   }"

definition text_at :: "memsys \<Rightarrow> u32 \<Rightarrow> char list option" where
  "text_at m va = cstr_read (2 ^ 32) m va"

text \<open>The words of an argument structure.\<close>

fun put_words :: "memsys \<Rightarrow> u32 \<Rightarrow> u32 list \<Rightarrow> memsys option" where
  "put_words m va [] = Some m"
| "put_words m va (w # ws) = do { m \<leftarrow> mem_write m va w; put_words m (va + 4) ws }"

section \<open>State\<close>

datatype kernel_fn = Fn_GetCurrPid | Fn_PrintChar | Fn_PrintHex | Fn_PrintStr | Fn_MemAlloc | Fn_MemFree | Fn_OpenFile
  | Fn_CloseFile | Fn_WriteFile | Fn_ReadFile | Fn_SeekFile | Fn_DeleteFile | Fn_CreateDir | Fn_Fork

record sys =
  sy_procs :: procs
  sy_video :: video
  sy_kdescs :: "mem_block_desc list"
  sy_arena :: "u32 \<Rightarrow> mem_arena option"
  sy_handlers :: "kernel_fn option list"

abbreviation sy_mem :: "sys \<Rightarrow> memsys" where "sy_mem s \<equiv> ps_mem (sy_procs s)"

definition set_mem :: "memsys \<Rightarrow> sys \<Rightarrow> sys" where
  "set_mem m s = s\<lparr>sy_procs := (sy_procs s)\<lparr>ps_mem := m\<rparr>\<rparr>"

text \<open>The heap and the open files of the running process.\<close>

definition with_heap :: "(heap \<Rightarrow> ('a \<times> heap) option) \<Rightarrow> sys \<Rightarrow> ('a \<times> sys) option" where
  "with_heap f s = do {
     let ps = sy_procs s;
     p \<leftarrow> Process_GetCurrent ps;
     pr \<leftarrow> ps_proc ps p;
     (x, h) \<leftarrow> f \<lparr>hp_mem = (ps_mem ps)\<lparr>ms_uaddr := Some (pr_vr_addrs pr)\<rparr>, hp_tags = ps_tags ps, hp_arena = sy_arena s,
                  hp_kdescs = sy_kdescs s, hp_udescs = Some (pr_mem_block_descs pr)\<rparr>;
     ap \<leftarrow> ms_uaddr (hp_mem h);
     Some (x, s\<lparr>sy_arena := hp_arena h,
                sy_procs := ps\<lparr>ps_mem := (hp_mem h)\<lparr>ms_uaddr := ms_uaddr (ps_mem ps)\<rparr>, ps_tags := hp_tags h,
                  ps_proc := (ps_proc ps)(p \<mapsto> pr\<lparr>pr_vr_addrs := ap\<rparr>)\<rparr>\<rparr>)
   }"

definition with_files :: "(files_sys \<Rightarrow> ('a \<times> files_sys) option) \<Rightarrow> sys \<Rightarrow> ('a \<times> sys) option" where
  "with_files f s = do {
     let ps = sy_procs s;
     p \<leftarrow> Process_GetCurrent ps;
     pr \<leftarrow> ps_proc ps p;
     (x, fs) \<leftarrow> f ((ps_files ps)\<lparr>sf_descs := pr_file_descs pr\<rparr>);
     Some (x, s\<lparr>sy_procs := ps\<lparr>ps_files := fs, ps_proc := (ps_proc ps)(p \<mapsto> pr\<lparr>pr_file_descs := sf_descs fs\<rparr>)\<rparr>\<rparr>)
   }"

definition with_screen :: "(video \<Rightarrow> video option) \<Rightarrow> sys \<Rightarrow> sys option" where
  "with_screen f s = do { v \<leftarrow> f (sy_video s); Some (s\<lparr>sy_video := v\<rparr>) }"

section \<open>The table of system calls\<close>

datatype sys_call_type = GetCurrPid | SysPrintChar | SysPrintHex | SysPrintStr | MemAlloc | MemFree | OpenFile | CloseFile
  | WriteFile | ReadFile | SeekFile | DeleteFile | CreateDir | SysFork

text \<open>The number of an enumerator is its position in the declaration.\<close>

fun sys_call_num :: "sys_call_type \<Rightarrow> nat" where
  "sys_call_num GetCurrPid = 0"
| "sys_call_num SysPrintChar = 1"
| "sys_call_num SysPrintHex = 2"
| "sys_call_num SysPrintStr = 3"
| "sys_call_num MemAlloc = 4"
| "sys_call_num MemFree = 5"
| "sys_call_num OpenFile = 6"
| "sys_call_num CloseFile = 7"
| "sys_call_num WriteFile = 8"
| "sys_call_num ReadFile = 9"
| "sys_call_num SeekFile = 10"
| "sys_call_num DeleteFile = 11"
| "sys_call_num CreateDir = 12"
| "sys_call_num SysFork = 13"

definition sys_call_count :: nat where "sys_call_count = 0x60"

definition SysCallHandlerTab_Register ::
    "sys_call_type \<Rightarrow> kernel_fn \<Rightarrow> kernel_fn option list \<Rightarrow> kernel_fn option list option" where
  "SysCallHandlerTab_Register func handler tab = do {
     Assert (sys_call_num func < sys_call_count);
     Some (tab[sys_call_num func := Some handler])
   }"

definition InitSysCall :: "kernel_fn option list \<Rightarrow> kernel_fn option list option" where
  "InitSysCall tab = do {
     tab \<leftarrow> SysCallHandlerTab_Register GetCurrPid Fn_GetCurrPid tab;
     tab \<leftarrow> SysCallHandlerTab_Register SysPrintChar Fn_PrintChar tab;
     tab \<leftarrow> SysCallHandlerTab_Register SysPrintHex Fn_PrintHex tab;
     tab \<leftarrow> SysCallHandlerTab_Register SysPrintStr Fn_PrintStr tab;
     tab \<leftarrow> SysCallHandlerTab_Register MemAlloc Fn_MemAlloc tab;
     tab \<leftarrow> SysCallHandlerTab_Register SysFork Fn_Fork tab;
     tab \<leftarrow> SysCallHandlerTab_Register MemFree Fn_MemFree tab;
     tab \<leftarrow> SysCallHandlerTab_Register OpenFile Fn_OpenFile tab;
     tab \<leftarrow> SysCallHandlerTab_Register ReadFile Fn_ReadFile tab;
     tab \<leftarrow> SysCallHandlerTab_Register SeekFile Fn_SeekFile tab;
     tab \<leftarrow> SysCallHandlerTab_Register WriteFile Fn_WriteFile tab;
     tab \<leftarrow> SysCallHandlerTab_Register CloseFile Fn_CloseFile tab;
     tab \<leftarrow> SysCallHandlerTab_Register DeleteFile Fn_DeleteFile tab;
     SysCallHandlerTab_Register CreateDir Fn_CreateDir tab
   }"

section \<open>The handlers\<close>

text \<open>The structures \<^verbatim>\<open>OpenArgs\<close>, \<^verbatim>\<open>WriteArgs\<close>, \<^verbatim>\<open>ReadArgs\<close> and \<^verbatim>\<open>SeekArgs\<close> in the memory of the caller.\<close>

definition open_args :: "memsys \<Rightarrow> u32 \<Rightarrow> (char list \<times> u32) option" where
  "open_args m a = do { path \<leftarrow> mem_read m a; flags \<leftarrow> mem_read m (a + 4); text \<leftarrow> text_at m path; Some (text, flags) }"

definition three_words :: "memsys \<Rightarrow> u32 \<Rightarrow> (u32 \<times> u32 \<times> u32) option" where
  "three_words m a = do { x \<leftarrow> mem_read m a; y \<leftarrow> mem_read m (a + 4); z \<leftarrow> mem_read m (a + 8); Some (x, y, z) }"

definition seek_origin_of :: "u32 \<Rightarrow> seek_origin option" where
  "seek_origin_of x = (if x = 0 then Some SeekBegin else if x = 1 then Some SeekCurr else if x = 2 then Some SeekEnd else None)"

fun call_handler :: "u32 \<Rightarrow> kernel_fn \<Rightarrow> u32 \<Rightarrow> sys \<Rightarrow> (u32 \<times> sys) option" where
  "call_handler junk Fn_GetCurrPid arg s = do { pid \<leftarrow> Process_GetCurrPid (sy_procs s); Some (pid, s) }"
| "call_handler junk Fn_PrintChar arg s =
     do { s \<leftarrow> with_screen (Console_PrintChar (byte_char (ucast arg))) s; Some (junk, s) }"
| "call_handler junk Fn_PrintHex arg s = do { s \<leftarrow> with_screen (Console_PrintHex arg) s; Some (junk, s) }"
| "call_handler junk Fn_PrintStr arg s = do {
     str \<leftarrow> text_at (sy_mem s) arg;
     s \<leftarrow> with_screen (Console_PrintStr str) s;
     Some (junk, s)
   }"
| "call_handler junk Fn_MemAlloc arg s = with_heap (Allocate_default False arg) s"
| "call_handler junk Fn_MemFree arg s = do {
     (_, s) \<leftarrow> with_heap (\<lambda>h. do { h \<leftarrow> Free_default False arg h; Some ((), h) }) s;
     Some (junk, s)
   }"
| "call_handler junk Fn_OpenFile arg s = do {
     (path, flags) \<leftarrow> open_args (sy_mem s) arg;
     with_files (sc_File_Open path flags) s
   }"
| "call_handler junk Fn_CloseFile arg s = do {
     (_, s) \<leftarrow> with_files (\<lambda>f. do { f \<leftarrow> sc_File_Close arg f; Some ((), f) }) s;
     Some (junk, s)
   }"
| "call_handler junk Fn_WriteFile arg s = do {
     (desc, data, sz) \<leftarrow> three_words (sy_mem s) arg;
     bs \<leftarrow> bytes_read (sy_mem s) data (unat sz);
     (n, s) \<leftarrow> with_files (sc_File_Write desc bs sz) s;
     Some (of_nat n, s)
   }"
| "call_handler junk Fn_ReadFile arg s = do {
     (desc, buf, sz) \<leftarrow> three_words (sy_mem s) arg;
     bs \<leftarrow> bytes_read (sy_mem s) buf (unat sz);
     ((n, bs), s) \<leftarrow> with_files (\<lambda>f. do { (n, bs, f) \<leftarrow> sc_File_Read desc bs sz f; Some ((n, bs), f) }) s;
     m \<leftarrow> bytes_write (sy_mem s) buf bs;
     Some (of_nat n, set_mem m s)
   }"
| "call_handler junk Fn_SeekFile arg s = do {
     (desc, offset, x) \<leftarrow> three_words (sy_mem s) arg;
     origin \<leftarrow> seek_origin_of x;
     with_files (sc_File_Seek desc offset origin) s
   }"
| "call_handler junk Fn_DeleteFile arg s = do {
     path \<leftarrow> text_at (sy_mem s) arg;
     (r, s) \<leftarrow> with_files (sc_File_Delete path) s;
     Some (of_bool r, s)
   }"
| "call_handler junk Fn_CreateDir arg s = do {
     path \<leftarrow> text_at (sy_mem s) arg;
     (r, s) \<leftarrow> with_files (sc_Directory_Create junk path) s;
     Some (of_bool r, s)
   }"
| "call_handler junk Fn_Fork arg s = do {
     (pid, ps) \<leftarrow> Process_ForkCurrent (sy_procs s);
     Some (pid, s\<lparr>sy_procs := ps\<rparr>)
   }"

section \<open>The entry point\<close>

text \<open>
  The interrupt gate turns interrupts off and \<^verbatim>\<open>iret\<close> restores the flag of the caller. The number in \<^verbatim>\<open>ECX\<close> is not checked: the word at
  \<^verbatim>\<open>sys_call_handlers + ecx * 4\<close> is called, with the product modulo \<open>2 ^ 32\<close>. A null pointer, or what lies behind the table, is no handler.
\<close>

definition set_intr :: "bool \<Rightarrow> sys \<Rightarrow> sys" where
  "set_intr b s = s\<lparr>sy_procs := (sy_procs s)\<lparr>ps_sched := (ps_sched (sy_procs s))\<lparr>sc_intr := b\<rparr>\<rparr>\<rparr>"

definition SysCallEntry :: "u32 \<Rightarrow> u32 \<Rightarrow> u32 \<Rightarrow> sys \<Rightarrow> (u32 \<times> sys) option" where
  "SysCallEntry junk ecx eax s = do {
     let off = ecx * 4;
     let saved = sc_intr (ps_sched (sy_procs s));
     handler \<leftarrow> (if unat off < sys_call_count * 4 then sy_handlers s ! (unat off div 4) else None);
     (r, s) \<leftarrow> call_handler junk handler eax (set_intr False s);
     Some (r, set_intr saved s)
   }"

section \<open>The user library\<close>

datatype usr_sys_call_type = UGetCurrPid | UPrintChar | UPrintHex | UPrintStr | UMemAlloc | UMemFree | UOpenFile | UCloseFile
  | UWriteFile | UReadFile | USeekFile | UDeleteFile | UCreateDir | UFork

fun usr_sys_call_num :: "usr_sys_call_type \<Rightarrow> nat" where
  "usr_sys_call_num UGetCurrPid = 0"
| "usr_sys_call_num UPrintChar = 1"
| "usr_sys_call_num UPrintHex = 2"
| "usr_sys_call_num UPrintStr = 3"
| "usr_sys_call_num UMemAlloc = 4"
| "usr_sys_call_num UMemFree = 5"
| "usr_sys_call_num UOpenFile = 6"
| "usr_sys_call_num UCloseFile = 7"
| "usr_sys_call_num UWriteFile = 8"
| "usr_sys_call_num UReadFile = 9"
| "usr_sys_call_num USeekFile = 10"
| "usr_sys_call_num UDeleteFile = 11"
| "usr_sys_call_num UCreateDir = 12"
| "usr_sys_call_num UFork = 13"

definition SysCall :: "u32 \<Rightarrow> usr_sys_call_type \<Rightarrow> u32 \<Rightarrow> sys \<Rightarrow> (u32 \<times> sys) option" where
  "SysCall junk func arg s = SysCallEntry junk (of_nat (usr_sys_call_num func)) arg s"

definition SysCall_void :: "u32 \<Rightarrow> usr_sys_call_type \<Rightarrow> u32 \<Rightarrow> sys \<Rightarrow> sys option" where
  "SysCall_void junk func arg s = map_option snd (SysCall junk func arg s)"

definition usr_GetCurrPid :: "u32 \<Rightarrow> sys \<Rightarrow> (u32 \<times> sys) option" where
  "usr_GetCurrPid junk s = SysCall junk UGetCurrPid 0 s"

definition usr_Fork :: "u32 \<Rightarrow> sys \<Rightarrow> (u32 \<times> sys) option" where
  "usr_Fork junk s = SysCall junk UFork 0 s"

definition usr_Allocate :: "u32 \<Rightarrow> u32 \<Rightarrow> sys \<Rightarrow> (u32 \<times> sys) option" where
  "usr_Allocate junk sz s = SysCall junk UMemAlloc sz s"

definition usr_Free :: "u32 \<Rightarrow> u32 \<Rightarrow> sys \<Rightarrow> sys option" where
  "usr_Free junk base s = SysCall_void junk UMemFree base s"

text \<open>A \<^verbatim>\<open>char\<close> is signed, so that it is extended with its sign.\<close>

definition usr_PrintChar :: "u32 \<Rightarrow> char \<Rightarrow> sys \<Rightarrow> sys option" where
  "usr_PrintChar junk ch s = SysCall_void junk UPrintChar (scast (char_byte ch)) s"

definition usr_PrintStr :: "u32 \<Rightarrow> u32 \<Rightarrow> sys \<Rightarrow> sys option" where
  "usr_PrintStr junk str s = SysCall_void junk UPrintStr str s"

definition usr_PrintHex :: "u32 \<Rightarrow> u32 \<Rightarrow> sys \<Rightarrow> sys option" where
  "usr_PrintHex junk num s = SysCall_void junk UPrintHex num s"

definition usr_PrintHex_int :: "u32 \<Rightarrow> u32 \<Rightarrow> sys \<Rightarrow> sys option" where
  "usr_PrintHex_int junk num s =
     (if sint num \<ge> 0 then usr_PrintHex junk num s
      else do { s \<leftarrow> usr_PrintChar junk (CHR ''-'') s; usr_PrintHex junk (- num) s })"

definition usr_PrintlnStr :: "u32 \<Rightarrow> u32 \<Rightarrow> sys \<Rightarrow> sys option" where
  "usr_PrintlnStr junk str s = do { s \<leftarrow> usr_PrintStr junk str s; usr_PrintChar junk (CHR 0x0A) s }"

definition usr_PrintlnChar :: "u32 \<Rightarrow> char \<Rightarrow> sys \<Rightarrow> sys option" where
  "usr_PrintlnChar junk ch s = do { s \<leftarrow> usr_PrintChar junk ch s; usr_PrintChar junk (CHR 0x0A) s }"

definition usr_PrintlnHex :: "u32 \<Rightarrow> u32 \<Rightarrow> sys \<Rightarrow> sys option" where
  "usr_PrintlnHex junk num s = do { s \<leftarrow> usr_PrintHex junk num s; usr_PrintChar junk (CHR 0x0A) s }"

definition usr_PrintlnHex_int :: "u32 \<Rightarrow> u32 \<Rightarrow> sys \<Rightarrow> sys option" where
  "usr_PrintlnHex_int junk num s = do { s \<leftarrow> usr_PrintHex_int junk num s; usr_PrintChar junk (CHR 0x0A) s }"

text \<open>The wrappers with several arguments put them into a structure at the address \<open>sp\<close> of the stack.\<close>

definition with_args :: "u32 \<Rightarrow> u32 list \<Rightarrow> sys \<Rightarrow> sys option" where
  "with_args sp ws s = do { m \<leftarrow> put_words (sy_mem s) sp ws; Some (set_mem m s) }"

definition usr_File_Open :: "u32 \<Rightarrow> u32 \<Rightarrow> u32 \<Rightarrow> u32 \<Rightarrow> sys \<Rightarrow> (u32 \<times> sys) option" where
  "usr_File_Open junk sp path flags s = do { s \<leftarrow> with_args sp [path, flags] s; SysCall junk UOpenFile sp s }"

definition usr_File_Close :: "u32 \<Rightarrow> u32 \<Rightarrow> sys \<Rightarrow> sys option" where
  "usr_File_Close junk desc s = SysCall_void junk UCloseFile desc s"

definition usr_File_Delete :: "u32 \<Rightarrow> u32 \<Rightarrow> sys \<Rightarrow> (bool \<times> sys) option" where
  "usr_File_Delete junk path s = do { (r, s) \<leftarrow> SysCall junk UDeleteFile path s; Some (r \<noteq> 0, s) }"

definition usr_File_Write :: "u32 \<Rightarrow> u32 \<Rightarrow> u32 \<Rightarrow> u32 \<Rightarrow> u32 \<Rightarrow> sys \<Rightarrow> (u32 \<times> sys) option" where
  "usr_File_Write junk sp desc data sz s = do { s \<leftarrow> with_args sp [desc, data, sz] s; SysCall junk UWriteFile sp s }"

fun seek_origin_num :: "seek_origin \<Rightarrow> u32" where
  "seek_origin_num SeekBegin = 0"
| "seek_origin_num SeekCurr = 1"
| "seek_origin_num SeekEnd = 2"

definition usr_File_Seek :: "u32 \<Rightarrow> u32 \<Rightarrow> u32 \<Rightarrow> u32 \<Rightarrow> seek_origin \<Rightarrow> sys \<Rightarrow> (u32 \<times> sys) option" where
  "usr_File_Seek junk sp desc offset origin s =
     do { s \<leftarrow> with_args sp [desc, offset, seek_origin_num origin] s; SysCall junk USeekFile sp s }"

definition usr_File_Read :: "u32 \<Rightarrow> u32 \<Rightarrow> u32 \<Rightarrow> u32 \<Rightarrow> u32 \<Rightarrow> sys \<Rightarrow> (u32 \<times> sys) option" where
  "usr_File_Read junk sp desc buf sz s = do { s \<leftarrow> with_args sp [desc, buf, sz] s; SysCall junk UReadFile sp s }"

definition usr_Directory_Create :: "u32 \<Rightarrow> u32 \<Rightarrow> sys \<Rightarrow> (bool \<times> sys) option" where
  "usr_Directory_Create junk path s = do { (r, s) \<leftarrow> SysCall junk UCreateDir path s; Some (r \<noteq> 0, s) }"

section \<open>Dispatch\<close>

definition usr_types :: "usr_sys_call_type list" where
  "usr_types = [UGetCurrPid, UPrintChar, UPrintHex, UPrintStr, UMemAlloc, UMemFree, UOpenFile, UCloseFile, UWriteFile,
     UReadFile, USeekFile, UDeleteFile, UCreateDir, UFork]"

text \<open>The kernel function that a wrapper of the user library means.\<close>

fun meant_fn :: "usr_sys_call_type \<Rightarrow> kernel_fn" where
  "meant_fn UGetCurrPid = Fn_GetCurrPid"
| "meant_fn UPrintChar = Fn_PrintChar"
| "meant_fn UPrintHex = Fn_PrintHex"
| "meant_fn UPrintStr = Fn_PrintStr"
| "meant_fn UMemAlloc = Fn_MemAlloc"
| "meant_fn UMemFree = Fn_MemFree"
| "meant_fn UOpenFile = Fn_OpenFile"
| "meant_fn UCloseFile = Fn_CloseFile"
| "meant_fn UWriteFile = Fn_WriteFile"
| "meant_fn UReadFile = Fn_ReadFile"
| "meant_fn USeekFile = Fn_SeekFile"
| "meant_fn UDeleteFile = Fn_DeleteFile"
| "meant_fn UCreateDir = Fn_CreateDir"
| "meant_fn UFork = Fn_Fork"

definition sys_call_tab :: "kernel_fn option list" where
  "sys_call_tab = map (Some \<circ> meant_fn) usr_types @ replicate 82 None"

lemma InitSysCall_tab: "InitSysCall (replicate sys_call_count None) = Some sys_call_tab"
proof -
  have "replicate sys_call_count None = replicate 14 None @ replicate 82 (None :: kernel_fn option)"
    by (simp add: sys_call_count_def replicate_add [symmetric])
  moreover have "replicate 14 (None :: kernel_fn option) = [None, None, None, None, None, None, None, None, None, None, None, None, None, None]"
    by (simp add: eval_nat_numeral)
  ultimately show ?thesis
    by (simp add: InitSysCall_def SysCallHandlerTab_Register_def sys_call_count_def sys_call_tab_def usr_types_def
        list_update_append1 eval_nat_numeral)
qed

lemma sys_call_tab_nth: "sys_call_tab ! usr_sys_call_num t = Some (meant_fn t)"
  by (cases t) (simp_all add: sys_call_tab_def usr_types_def nth_append)

lemma SysCall_dispatch:
  assumes "sy_handlers s = sys_call_tab"
  shows "SysCall junk t arg s = do {
     (r, s') \<leftarrow> call_handler junk (meant_fn t) arg (set_intr False s);
     Some (r, set_intr (sc_intr (ps_sched (sy_procs s))) s')
   }"
proof -
  have n: "usr_sys_call_num t < 14" by (cases t) simp_all
  have "unat (of_nat (usr_sys_call_num t) * 4 :: u32) = 4 * usr_sys_call_num t"
    using unat_of_nat_u32 [of "4 * usr_sys_call_num t"] n by (simp add: mult.commute)
  then show ?thesis
    using n assms sys_call_tab_nth [of t] by (simp add: SysCall_def SysCallEntry_def sys_call_count_def)
qed

text \<open>A function of the kernel run by a system call.\<close>

definition kernel_call :: "(sys \<Rightarrow> ('a \<times> sys) option) \<Rightarrow> sys \<Rightarrow> ('a \<times> sys) option" where
  "kernel_call f s = do { (r, s') \<leftarrow> f (set_intr False s); Some (r, set_intr (sc_intr (ps_sched (sy_procs s))) s') }"

section \<open>Arguments on the stack\<close>

lemma put_words_ok:
  assumes "selfmap_ok m" "VrAddr_GetOffset b = 0" "mmu_translate m b = Some f" "\<not> table_page m f" "i + length ws \<le> 1024"
  shows "\<exists>m'. put_words m (b + of_nat (4 * i)) ws = Some m' \<and> quiet m m' {w. PageEntry_GetAddress w = f} \<and>
    (\<forall>k<length ws. mem_read m' (b + of_nat (4 * (i + k))) = Some (ws ! k)) \<and>
    (\<forall>j<1024. j < i \<or> i + length ws \<le> j \<longrightarrow> mem_read m' (b + of_nat (4 * j)) = mem_read m (b + of_nat (4 * j)))"
  using assms
proof (induction ws arbitrary: m i)
  case Nil
  then show ?case by (auto intro!: quietI simp: table_word_def)
next
  case (Cons x ws)
  have i: "i < 1024" "Suc i + length ws \<le> 1024" using Cons.prems(5) by simp_all
  let ?pa = "f + of_nat (4 * i)"
  note pw = page_word [OF Cons.prems(2,3)]
  define m1 where "m1 = m\<lparr>ms_mem := (ms_mem m)(?pa := x)\<rparr>"
  have w1: "mem_write m (b + of_nat (4 * i)) x = Some m1" using pw(1) [OF i(1)] by (simp add: mem_write_def m1_def)
  have q1: "quiet m m1 {w. PageEntry_GetAddress w = f}"
    by (rule quietI [OF Cons.prems(1)]) (use pw(2) [OF i(1)] Cons.prems(4) in \<open>auto simp: m1_def table_word_def\<close>)
  note f1 = quiet_fields [OF q1]
  have r1: "mem_read m1 (b + of_nat (4 * j)) = (if j = i then Some x else mem_read m (b + of_nat (4 * j)))" if "j < 1024" for j
    using pw(1) [OF that] f1(7) word_4_inj [of j i f] that i(1) by (auto simp: mem_read_def m1_def)
  have prems: "selfmap_ok m1" "mmu_translate m1 b = Some f" "\<not> table_page m1 f"
    using Cons.prems f1 by simp_all
  obtain m' where m': "put_words m1 (b + of_nat (4 * Suc i)) ws = Some m'" "quiet m1 m' {w. PageEntry_GetAddress w = f}"
    "\<forall>k<length ws. mem_read m' (b + of_nat (4 * (Suc i + k))) = Some (ws ! k)"
    "\<forall>j<1024. j < Suc i \<or> Suc i + length ws \<le> j \<longrightarrow> mem_read m' (b + of_nat (4 * j)) = mem_read m1 (b + of_nat (4 * j))"
    using Cons.IH [OF prems(1) Cons.prems(2) prems(2,3) i(2)] by blast
  have step: "b + of_nat (4 * i) + 4 = b + of_nat (4 * Suc i)" by simp
  have run: "put_words m (b + of_nat (4 * i)) (x # ws) = Some m'" using w1 m'(1) unfolding put_words.simps step by simp
  have "quiet m m' {w. PageEntry_GetAddress w = f}" using quiet_trans [OF q1 m'(2)] by simp
  moreover have "mem_read m' (b + of_nat (4 * (i + k))) = Some ((x # ws) ! k)" if "k < length (x # ws)" for k
  proof (cases k)
    case 0
    then show ?thesis using m'(4) r1 [OF i(1)] i(1) by simp
  next
    case (Suc k')
    then show ?thesis using m'(3) that by simp
  qed
  moreover have "mem_read m' (b + of_nat (4 * j)) = mem_read m (b + of_nat (4 * j))"
    if "j < 1024" "j < i \<or> i + length (x # ws) \<le> j" for j
    using m'(4) that r1 [OF that(1)] by auto
  ultimately show ?case using run by blast
qed

text \<open>A stack page of the process.\<close>

definition stack_room :: "u32 \<Rightarrow> nat \<Rightarrow> page_pool \<Rightarrow> memsys \<Rightarrow> bool" where
  "stack_room sp n ap m \<longleftrightarrow> vspace_ok UserPool m ap \<and>
     (\<exists>b \<in> pool_used ap. \<exists>i. sp = b + of_nat (4 * i) \<and> i + n \<le> 1024)"

lemma with_args_ok:
  assumes "stack_room sp (length ws) ap (sy_mem s)"
  obtains m where "with_args sp ws s = Some (set_mem m s)" "vspace_ok UserPool m ap"
    "\<And>k. k < length ws \<Longrightarrow> mem_read m (sp + of_nat (4 * k)) = Some (ws ! k)"
proof -
  obtain b i where b: "vspace_ok UserPool (sy_mem s) ap" "b \<in> pool_used ap" "sp = b + of_nat (4 * i)" "i + length ws \<le> 1024"
    using assms unfolding stack_room_def by blast
  note v = vspaceD [OF b(1)]
  obtain f where f: "holds_page UserPool (sy_mem s) b f" using v(6) [OF b(2)] by blast
  note h = holds_pageD [OF f v(4) [OF b(2)]]
  obtain m where m: "put_words (sy_mem s) sp ws = Some m" "quiet (sy_mem s) m {w. PageEntry_GetAddress w = f}"
    "\<forall>k<length ws. mem_read m (b + of_nat (4 * (i + k))) = Some (ws ! k)"
    using put_words_ok [OF v(3) h(4,1,2) b(4)] b(3) by auto
  have "vspace_ok UserPool m ap" using b(1) space_quiet [OF m(2)] by (simp add: vspace_ok_def)
  moreover have "mem_read m (sp + of_nat (4 * k)) = Some (ws ! k)" if "k < length ws" for k
    using m(3) that b(3) by (simp add: add.assoc distrib_left)
  ultimately show thesis using that [of m] m(1) by (simp add: with_args_def)
qed

lemma three_words_ok:
  assumes "stack_room sp 3 ap (sy_mem s)"
  obtains m where "with_args sp [x, y, z] s = Some (set_mem m s)" "vspace_ok UserPool m ap" "three_words m sp = Some (x, y, z)"
proof -
  have "stack_room sp (length [x, y, z]) ap (sy_mem s)" using assms by (simp add: numeral_3_eq_3)
  then obtain m where m: "with_args sp [x, y, z] s = Some (set_mem m s)" "vspace_ok UserPool m ap"
    "\<And>k. k < length [x, y, z] \<Longrightarrow> mem_read m (sp + of_nat (4 * k)) = Some ([x, y, z] ! k)"
    by (rule with_args_ok) blast
  have "three_words m sp = Some (x, y, z)" using m(3) [of 0] m(3) [of 1] m(3) [of 2] by (simp add: three_words_def)
  with m that show thesis by blast
qed

lemma set_mem_simps [simp]: "sy_mem (set_mem m s) = m" "sy_handlers (set_mem m s) = sy_handlers s" "sy_mem (set_intr x s) = sy_mem s"
  "sc_intr (ps_sched (sy_procs (set_mem m s))) = sc_intr (ps_sched (sy_procs s))" "sy_video (set_intr x s) = sy_video s"
  by (simp_all add: set_mem_def set_intr_def)

lemma seek_origin_inverse [simp]: "seek_origin_of (seek_origin_num origin) = Some origin"
  by (cases origin) (simp_all add: seek_origin_of_def)

section \<open>Printing from user mode\<close>

lemma set_intr_back: "set_intr (sc_intr (ps_sched (sy_procs s))) ((set_intr False s)\<lparr>sy_video := v\<rparr>) = s\<lparr>sy_video := v\<rparr>"
  by (cases "ps_sched (sy_procs s)") (simp add: set_intr_def)

lemma print_call:
  assumes "sy_handlers s = sys_call_tab"
  shows "usr_PrintHex junk num s = with_screen (Console_PrintHex num) s"
    "usr_PrintChar junk ch s = with_screen (Console_PrintChar ch) s"
proof -
  have ret: "map_option snd (do {
      (r, s') \<leftarrow> do { s' \<leftarrow> with_screen f (set_intr False s); Some (junk, s') };
      Some (r, set_intr (sc_intr (ps_sched (sy_procs s))) s') }) = with_screen f s" for f
    by (cases "f (sy_video s)") (simp_all add: with_screen_def set_intr_back)
  show "usr_PrintHex junk num s = with_screen (Console_PrintHex num) s"
    unfolding usr_PrintHex_def SysCall_void_def SysCall_dispatch [OF assms] meant_fn.simps call_handler.simps by (rule ret)
  have "ucast (scast x :: u32) = x" for x :: u8 by (rule bit_word_eqI) (simp add: bit_simps)
  then have ch: "byte_char (ucast (scast (char_byte ch) :: u32)) = ch" by simp
  show "usr_PrintChar junk ch s = with_screen (Console_PrintChar ch) s"
    unfolding usr_PrintChar_def SysCall_void_def SysCall_dispatch [OF assms] meant_fn.simps call_handler.simps ch by (rule ret)
qed

lemma with_screen_handlers: "with_screen f s = Some s' \<Longrightarrow> sy_handlers s' = sy_handlers s"
  by (auto simp: with_screen_def bind_eq_Some_conv)

lemma usr_print_kernel:
  assumes "sy_handlers s = sys_call_tab"
  shows "usr_PrintHex_int junk num s = with_screen (Console_PrintHex_int num) s"
    "usr_PrintlnHex junk num s = with_screen (Console_PrintlnHex num) s"
    "usr_PrintlnChar junk ch s = with_screen (Console_PrintlnChar ch) s"
    "usr_PrintlnHex_int junk num s = with_screen (Console_PrintlnHex_int num) s"
proof -
  have seq: "do { s \<leftarrow> with_screen f s; with_screen g s } = with_screen (\<lambda>v. do { v \<leftarrow> f v; g v }) s" for f g
    by (cases "f (sy_video s)") (simp_all add: with_screen_def)
  have nx: "do { s \<leftarrow> with_screen f s; usr_PrintHex junk n s } = do { s \<leftarrow> with_screen f s; with_screen (Console_PrintHex n) s }"
    "do { s \<leftarrow> with_screen f s; usr_PrintChar junk c s } = do { s \<leftarrow> with_screen f s; with_screen (Console_PrintChar c) s }" for f n c
    using print_call with_screen_handlers [of f s] assms by (auto intro!: Option.bind_cong)
  show hex: "usr_PrintHex_int junk num s = with_screen (Console_PrintHex_int num) s"
    by (simp add: usr_PrintHex_int_def print_call [OF assms] nx seq Console_PrintHex_int_def PrintHex_int_def
        Console_PrintHex_def [abs_def] Console_PrintChar_def [abs_def])
      (simp add: with_screen_def Console_PrintHex_int_def PrintHex_int_def)
  show "usr_PrintlnHex junk num s = with_screen (Console_PrintlnHex num) s"
    "usr_PrintlnChar junk ch s = with_screen (Console_PrintlnChar ch) s"
    "usr_PrintlnHex_int junk num s = with_screen (Console_PrintlnHex_int num) s"
    unfolding usr_PrintlnHex_def usr_PrintlnChar_def usr_PrintlnHex_int_def hex print_call [OF assms] nx seq
    by (simp_all add: with_screen_def Console_PrintHex_def Console_PrintChar_def Console_PrintlnHex_def PrintlnHex_def
        Console_PrintlnChar_def PrintlnChar_def Console_PrintlnHex_int_def PrintlnHex_int_def Console_PrintHex_int_def)
qed

section \<open>Properties\<close>

text \<open>C34: After \<^verbatim>\<open>InitSysCall\<close> the table has all its slots, the numbers of the user library and of the kernel name the same
  calls, and \<^verbatim>\<open>SysCall\<close> of every type runs the kernel function that the type means, with interrupts off and the caller's
  interrupt flag restored.\<close>

theorem SysCall_runs_meant_handler:
  "\<exists>tab. InitSysCall (replicate sys_call_count None) = Some tab \<and> length tab = sys_call_count \<and>
     (\<forall>t. \<exists>k. sys_call_num k = usr_sys_call_num t \<and> tab ! sys_call_num k = Some (meant_fn t)) \<and>
     (\<forall>junk t arg s. SysCall junk t arg (s\<lparr>sy_handlers := tab\<rparr>) = do {
        (r, s') \<leftarrow> call_handler junk (meant_fn t) arg (set_intr False (s\<lparr>sy_handlers := tab\<rparr>));
        Some (r, set_intr (sc_intr (ps_sched (sy_procs s))) s')
      })"
proof -
  have "length sys_call_tab = sys_call_count" by (simp add: sys_call_tab_def usr_types_def sys_call_count_def)
  moreover have "\<exists>k. sys_call_num k = usr_sys_call_num t" for t
    by (cases t) (metis sys_call_num.simps usr_sys_call_num.simps)+
  ultimately show ?thesis
    using InitSysCall_tab sys_call_tab_nth SysCall_dispatch [of "_\<lparr>sy_handlers := sys_call_tab\<rparr>"]
    by (intro exI [of _ sys_call_tab]) (auto, metis)
qed

text \<open>C33: The file functions of the user library reach the kernel with their arguments: with room for the structure on a page of the
  process, \<^verbatim>\<open>Seek\<close> and \<^verbatim>\<open>Write\<close> behave as the kernel function on the descriptor, the offset and origin, or the bytes and the size
  that they were given, with interrupts off; the structure leaves the address space intact.\<close>

theorem usr_File_arguments:
  assumes "InitSysCall (replicate sys_call_count None) = Some (sy_handlers s)" and "stack_room sp 3 ap (sy_mem s)"
  shows "(\<exists>m. with_args sp [desc, offset, seek_origin_num origin] s = Some (set_mem m s) \<and> vspace_ok UserPool m ap \<and>
      usr_File_Seek junk sp desc offset origin s = kernel_call (with_files (sc_File_Seek desc offset origin)) (set_mem m s)) \<and>
    (\<exists>m. with_args sp [desc, data, sz] s = Some (set_mem m s) \<and> vspace_ok UserPool m ap \<and>
      usr_File_Write junk sp desc data sz s = kernel_call (\<lambda>t. do {
        bs \<leftarrow> bytes_read m data (unat sz);
        (n, t) \<leftarrow> with_files (sc_File_Write desc bs sz) t;
        Some (of_nat n, t) }) (set_mem m s))"
proof (rule conjI)
  have tab: "sy_handlers s = sys_call_tab" using assms(1) InitSysCall_tab by simp
  have d: "SysCall junk t arg (set_mem m s) = kernel_call (call_handler junk (meant_fn t) arg) (set_mem m s)" for junk t arg m
    using SysCall_dispatch [of "set_mem m s"] tab by (simp add: kernel_call_def)
  obtain m where m: "with_args sp [desc, offset, seek_origin_num origin] s = Some (set_mem m s)" "vspace_ok UserPool m ap"
    "three_words m sp = Some (desc, offset, seek_origin_num origin)" by (rule three_words_ok [OF assms(2)])
  then show "\<exists>m. with_args sp [desc, offset, seek_origin_num origin] s = Some (set_mem m s) \<and> vspace_ok UserPool m ap \<and>
      usr_File_Seek junk sp desc offset origin s = kernel_call (with_files (sc_File_Seek desc offset origin)) (set_mem m s)"
    by (intro exI [of _ m]) (simp add: usr_File_Seek_def d kernel_call_def)
  obtain m where m: "with_args sp [desc, data, sz] s = Some (set_mem m s)" "vspace_ok UserPool m ap"
    "three_words m sp = Some (desc, data, sz)" by (rule three_words_ok [OF assms(2)])
  then show "\<exists>m. with_args sp [desc, data, sz] s = Some (set_mem m s) \<and> vspace_ok UserPool m ap \<and>
      usr_File_Write junk sp desc data sz s = kernel_call (\<lambda>t. do {
        bs \<leftarrow> bytes_read m data (unat sz);
        (n, t) \<leftarrow> with_files (sc_File_Write desc bs sz) t;
        Some (of_nat n, t) }) (set_mem m s)"
    by (intro exI [of _ m]) (simp add: usr_File_Write_def d kernel_call_def)
qed

definition demo_sys :: sys where
  "demo_sys = \<lparr>sy_procs = pair_procs, sy_video = blank_video, sy_kdescs = [], sy_arena = (\<lambda>_. None), sy_handlers = sys_call_tab\<rparr>"

theorem usr_File_arguments_witness:
  "\<exists>m. with_args 0x8048010 [3, 100, 0] demo_sys = Some (set_mem m demo_sys) \<and> vspace_ok UserPool m (one_used 0x8048000) \<and>
     usr_File_Seek 0 0x8048010 3 100 SeekBegin demo_sys = kernel_call (with_files (sc_File_Seek 3 100 SeekBegin)) (set_mem m demo_sys)"
proof -
  have "in_dir 0x100000 pair_mem = pair_mem" by (simp add: pair_mem_def)
  then have "vspace_ok UserPool pair_mem (one_used 0x8048000)" using pair_parent by simp
  moreover have "(0x8048010 :: u32) = 0x8048000 + of_nat (4 * 4)" by simp
  ultimately have "stack_room 0x8048010 3 (one_used 0x8048000) (sy_mem demo_sys)"
    unfolding stack_room_def one_used_pages(1) by (intro conjI bexI [of _ "0x8048000"] exI [of _ 4]) (simp_all add: demo_sys_def pair_procs_def)
  moreover have "InitSysCall (replicate sys_call_count None) = Some (sy_handlers demo_sys)"
    using InitSysCall_tab by (simp add: demo_sys_def)
  ultimately show ?thesis using usr_File_arguments [of demo_sys "0x8048010" "one_used 0x8048000" 3 100 SeekBegin 0 0 0] by simp
qed

end
