(* ===== verification/Spec2Isabelle.thy ===== *)
theory Spec2Isabelle
  imports Prelude Bits Containers Strings Bitmaps TagLists Formats Paths Threads Sync BlockQueues Descriptors PageAlloc Heap
    Timers Keyboards Video Faults DiskParts FileSys Forks SysCalls
begin

text \<open>
  \<^bold>\<open>A verification library for Tiny-x86-OS.\<close>

  The program is a 32-bit x86 kernel in C++ (\<^verbatim>\<open>src/include\<close>, \<^verbatim>\<open>src/src\<close>). Its parts: a small standard library
  and utilities (C strings, string views, bit fields, bitmaps, linked tag lists, formatting); segment and
  gate descriptors and the interrupt machinery; memory management (page pools, page tables, page allocation,
  the heap); threads, the scheduler and synchronisation on top of it; device drivers (interrupt
  controllers, timer, keyboard, IDE disks); a file system on disk partitions; processes and system calls. The
  clock interrupt drives the scheduler, the keyboard and disk handlers wake blocked threads, memory and the file
  system take their pages and blocks from bitmaps, and every list of threads or free blocks is a tag list.

  \<^bold>\<open>How the code is modelled.\<close>
  Machine integers are words of their width (\<^verbatim>\<open>uint32_t\<close> and \<^verbatim>\<open>size_t\<close> are \<open>u32\<close>, with wrap-around) wherever a
  value is computed with or stored; indices that the code keeps in range are natural numbers. An operation is
  a function on explicit state. \<open>None\<close> means that the system does not go on: a failed \<^verbatim>\<open>dbg::Assert\<close>, a null
  dereference, an access out of bounds, a page fault or a division by zero. Failures that the code reports
  (\<^verbatim>\<open>npos\<close>, \<^verbatim>\<open>nullptr\<close>, \<^verbatim>\<open>false\<close>) are ordinary results. All loops are recursive functions that terminate: on the rest of a
  list or a counter, or with a termination proof (number printing, path parsing, searching a bitmap). There is no fuel but for the
  recursion of the partition scan.
  A member function \<^verbatim>\<open>C::f\<close> is the definition \<open>C_f\<close>.

  \<^bold>\<open>The theories.\<close>
  \<^descr> \<open>Prelude\<close>: machine integers, \<^verbatim>\<open>dbg::Assert\<close>, \<^verbatim>\<open>util/metric.h\<close>, shared lemmas.
  \<^descr> \<open>Bits\<close>: \<^verbatim>\<open>util/bit.h\<close>, every operation characterised bit by bit (collection \<open>bits_simps\<close>).
  \<^descr> \<open>Containers\<close>: \<^verbatim>\<open>stl/array.h\<close>, \<^verbatim>\<open>stl/span.h\<close>, \<^verbatim>\<open>stl/iterator.h\<close>, \<^verbatim>\<open>stl/algorithm.h\<close>: the loops over the iterators of a container
    (locale \<open>sequence\<close>) visit its values in order or in reverse; \<^verbatim>\<open>find\<close> gives the first match.
  \<^descr> \<open>Strings\<close>: \<^verbatim>\<open>stl/cstring\<close>, \<^verbatim>\<open>stl/string_view.h\<close>, each routine against the text of a buffer (\<open>cstr\<close>).
  \<^descr> \<open>Bitmaps\<close>: \<^verbatim>\<open>util/bitmap\<close>; the locale of a set of slots gives first-fit allocation.
  \<^descr> \<open>TagLists\<close>: \<^verbatim>\<open>util/tag_list\<close> on an explicit store of linked tags, refined to lists.
  \<^descr> \<open>Formats\<close>: \<^verbatim>\<open>util/format\<close>: numbers round trip, format strings expand as specified.
  \<^descr> \<open>Paths\<close>: \<^verbatim>\<open>io/file/path\<close>: parsing, visiting, joining, against the list of names of a path.
  \<^descr> \<open>Threads\<close>: \<^verbatim>\<open>thread/thd\<close>: creation, fork, blocking, scheduling, the clock handler; the invariant \<open>sched_ok\<close> is
    kept by every step, no reachable state panics, the round robin starves nobody.
  \<^descr> \<open>Sync\<close>: \<^verbatim>\<open>thread/sync\<close>: semaphores and mutexes as a step relation over all interleavings; mutual exclusion.
  \<^descr> \<open>BlockQueues\<close>: \<^verbatim>\<open>util/block_queue.h\<close>: the circular buffer implements the locale \<open>bounded_fifo\<close>.
  \<^descr> \<open>Descriptors\<close>: \<^verbatim>\<open>selector/sel.h\<close>, \<^verbatim>\<open>descriptor/desc.h\<close>, \<^verbatim>\<open>process/tss.cpp\<close> and the interrupt descriptor table.
  \<^descr> \<open>Pools\<close>, \<open>Paging\<close>, \<open>PageAlloc\<close>: \<^verbatim>\<open>memory/pool\<close> and \<^verbatim>\<open>memory/page\<close>: pools of pages (locale \<open>page_source\<close>), page
    tables as words of physical memory with the translation of the CPU as the specification, allocation and
    release of pages, \<^verbatim>\<open>InitMem\<close>.
  \<^descr> \<open>Heap\<close>: \<^verbatim>\<open>mem::Allocate\<close> and \<^verbatim>\<open>mem::Free\<close> of \<^verbatim>\<open>memory/pool.cpp\<close>: arenas, block descriptors and the lists of free
    blocks; under the invariant \<open>heap_ok\<close> the locale \<open>allocator\<close> gives fresh, disjoint, cleared blocks whose contents nobody
    else changes, and a freed block is gone and every other one as before.
  \<^descr> \<open>Interrupts\<close>, \<open>Timers\<close>, \<open>Keyboards\<close>: \<^verbatim>\<open>interrupt/intr\<close>, \<^verbatim>\<open>interrupt/pic.cpp\<close>, \<^verbatim>\<open>io/timer.cpp\<close>,
    \<^verbatim>\<open>io/keyboard.cpp\<close>; the writes to device ports against the data sheet reaction of the chips, the keyboard against
    key events.
  \<^descr> \<open>Disks\<close>, \<open>DiskParts\<close>: \<^verbatim>\<open>io/disk/disk\<close> and \<^verbatim>\<open>io/disk/ide\<close>: the registers, transfers of any number of sectors against
    a specification of the ATA commands, the scan for partitions (its depth of recursion is an argument; a chain of \<open>n\<close>
    boot records needs \<open>n + 1\<close>).
  \<^descr> \<open>Inodes\<close>, \<open>FileFormat\<close>: \<^verbatim>\<open>io/file/inode\<close>, \<^verbatim>\<open>io/disk/file/super_block\<close> and the parts of \<^verbatim>\<open>io/disk/part.cpp\<close> that
    format and mount a partition, load and write back index nodes and allocate from the bitmaps. An index node keeps its
    words, its place in the sectors is computed as the code does, and a mounted partition is what formatting wrote.
  \<^descr> \<open>FileData\<close>, \<open>FileStore\<close>, \<open>FileWrite\<close>: opening, seeking, reading and writing files (\<^verbatim>\<open>part.cpp\<close>,
    \<^verbatim>\<open>io/file/file.cpp\<close>). Reading is refined to taking bytes of the contents of a file, writing to appending to them, with
    the direct blocks, the indirect table and the block bitmap on the disk.
  \<^descr> \<open>Dirs\<close>: \<^verbatim>\<open>io/file/dir\<close> and the directory operations of \<^verbatim>\<open>part.cpp\<close>: the entries in the blocks of a directory as a
    map from names; a synchronised entry is found again and no other name changes.
  \<^descr> \<open>Files\<close>: the open files and descriptor tables, the search of paths, opening, creating and deleting files and
    directories, and the file system calls. Heap buffers are fresh zeroed lists, an open index node is named by a number, and the
    word that \<^verbatim>\<open>CreateDir\<close> leaves uninitialised is the argument \<open>junk\<close>.
  \<^descr> \<open>FileSys\<close>: \<^verbatim>\<open>InitFileSys\<close> and \<^verbatim>\<open>MountDefaultPart\<close>: a partition is formatted once and keeps its file system at later starts.
  \<^descr> \<open>Video\<close>: \<^verbatim>\<open>io/video\<close>: the assembly of \<^verbatim>\<open>print.asm\<close> on video memory and the cursor registers against a specification
    of a terminal; \<^verbatim>\<open>Printf\<close> and the console.
  \<^descr> \<open>Faults\<close>: the reports of a failed assertion (\<^verbatim>\<open>debug/assert.cpp\<close>) and of an interrupt without a handler on the screen.
  \<^descr> \<open>Procs\<close>, \<open>Spaces\<close>, \<open>Forks\<close>: \<^verbatim>\<open>process/proc.cpp\<close>: creation of processes, their page directories and start in user mode; \<^verbatim>\<open>Fork\<close> and
    the copy of memory between two address spaces.
  \<^descr> \<open>SysCalls\<close>: \<^verbatim>\<open>syscall/call.cpp\<close>, the entry point in assembly and the user library \<^verbatim>\<open>src/user\<close>: every wrapper runs the kernel
    function it means, with its arguments passed through the memory of the process.

  \<^bold>\<open>Not modelled.\<close>
  The boot loader and the entry code (assembly), the raw contents of kernel stacks (the switch of stacks is modelled by the
  name of the running thread), the translation look-aside buffer, the shell and the user programs.
\<close>

end
